(* ===== verification/Prelude.thy ===== *)
theory Prelude
  imports Main "HOL-Library.Word"
begin

text \<open>
  Shared vocabulary of the development: the machine types of \<^verbatim>\<open>kernel/core/kernel_stdint.h\<close>,
  C strings and their terminator, the search loop over a fixed table
  (\<open>for (i = k; i < N; i++) if (...) return i;\<close>) that every component of the program uses,
  and the collections of rewrite rules the component theories fill.
\<close>

unbundle bit_operations_syntax

section \<open>Machine types\<close>

type_synonym u8 = "8 word"
type_synonym u16 = "16 word"
type_synonym u32 = "32 word"

named_theorems frame_simps \<open>what an operation leaves unchanged\<close>
named_theorems inv_intros \<open>operations preserve their component's invariant\<close>

section \<open>C strings\<close>

text \<open>
  A C string is the list of characters from the pointer on. Reading past the end of the list
  reads the terminator, so a list with no explicit \<open>NUL\<close> stands for its own characters followed
  by \<open>NUL\<close>; one with a \<open>NUL\<close> inside ends there, as it does for the code.
\<close>

abbreviation NUL :: char where
  "NUL \<equiv> CHR 0x00"

abbreviation slash :: char where
  "slash \<equiv> CHR 0x2F"

abbreviation newline :: char where
  "newline \<equiv> CHR 0x0A"

definition cget :: "string \<Rightarrow> nat \<Rightarrow> char" where
  "cget s i = (if i < length s then s ! i else NUL)"

definition cstr :: "string \<Rightarrow> string" where
  "cstr s = takeWhile (\<lambda>c. c \<noteq> NUL) s"

definition no_nul :: "string \<Rightarrow> bool" where
  "no_nul s \<longleftrightarrow> NUL \<notin> set s"

lemma cget_Nil [simp]: "cget [] i = NUL"
  by (simp add: cget_def)

lemma cget_0 [simp]: "cget (c # cs) 0 = c"
  by (simp add: cget_def)

lemma cget_Suc [simp]: "cget (c # cs) (Suc i) = cget cs i"
  by (simp add: cget_def)

lemma cstr_Nil [simp]: "cstr [] = []"
  by (simp add: cstr_def)

lemma cstr_Cons: "cstr (c # cs) = (if c = NUL then [] else c # cstr cs)"
  by (simp add: cstr_def)

lemma cstr_id: "no_nul s \<Longrightarrow> cstr s = s"
  by (induction s) (auto simp: cstr_Cons no_nul_def)

lemma no_nul_cstr [simp]: "no_nul (cstr s)"
  by (auto simp: no_nul_def cstr_def dest: set_takeWhileD)

lemma cstr_cstr [simp]: "cstr (cstr s) = cstr s"
  by (simp add: cstr_id)

lemma no_nul_simps [simp]:
  "no_nul []"
  "no_nul (c # cs) \<longleftrightarrow> c \<noteq> NUL \<and> no_nul cs"
  "no_nul (xs @ ys) \<longleftrightarrow> no_nul xs \<and> no_nul ys"
  by (auto simp: no_nul_def)

lemma no_nul_take [intro]: "no_nul s \<Longrightarrow> no_nul (take n s)"
  by (meson in_set_takeD no_nul_def)

lemma no_nul_drop [intro]: "no_nul s \<Longrightarrow> no_nul (drop n s)"
  by (meson in_set_dropD no_nul_def)

section \<open>The search loop over a table\<close>

text \<open>
  \<^verbatim>\<open>for (i = k; i < N; i++) if (P(table[i])) return i;\<close> where \<open>N\<close> is the table's length;
  \<open>None\<close> is the code after the loop.
\<close>

function first_from :: "('a \<Rightarrow> bool) \<Rightarrow> 'a list \<Rightarrow> nat \<Rightarrow> nat option" where
  "first_from P xs i =
     (if i < length xs then (if P (xs ! i) then Some i else first_from P xs (Suc i)) else None)"
  by pat_completeness auto
termination
  by (relation "measure (\<lambda>(P, xs, i). length xs - i)") auto

declare first_from.simps [simp del]

lemma nth_list_update_if: "xs[i := y] ! j = (if j = i \<and> i < length xs then y else xs ! j)"
  by (cases "i < length xs") (auto simp: nth_list_update list_update_beyond)

lemma first_from_Some:
  "first_from P xs k = Some i \<Longrightarrow>
     k \<le> i \<and> i < length xs \<and> P (xs ! i) \<and> (\<forall>j. k \<le> j \<and> j < i \<longrightarrow> \<not> P (xs ! j))"
proof (induction P xs k rule: first_from.induct)
  case (1 P xs k)
  show ?case
  proof (cases "k < length xs \<and> \<not> P (xs ! k)")
    case True
    with "1.prems" have "first_from P xs (Suc k) = Some i"
      by (simp add: first_from.simps [of P xs k])
    with True "1.IH" show ?thesis
      by (metis Suc_leD le_antisym not_less_eq_eq)
  next
    case False
    with "1.prems" show ?thesis
      by (auto simp: first_from.simps [of P xs k] split: if_splits)
  qed
qed

lemma first_from_None:
  "first_from P xs k = None \<longleftrightarrow> (\<forall>i. k \<le> i \<and> i < length xs \<longrightarrow> \<not> P (xs ! i))"
proof (induction P xs k rule: first_from.induct)
  case (1 P xs k)
  show ?case
  proof (cases "k < length xs \<and> \<not> P (xs ! k)")
    case True
    then have "first_from P xs k = first_from P xs (Suc k)"
      by (simp add: first_from.simps [of P xs k])
    with True "1.IH" show ?thesis
      by (metis Suc_leD le_antisym not_less_eq_eq)
  next
    case False
    then show ?thesis
      by (auto simp: first_from.simps [of P xs k])
  qed
qed

lemma first_from_eq:
  assumes "k \<le> i" and "i < length xs" and "P (xs ! i)"
    and "\<And>j. k \<le> j \<Longrightarrow> j < i \<Longrightarrow> \<not> P (xs ! j)"
  shows "first_from P xs k = Some i"
proof (cases "first_from P xs k")
  case None
  with assms show ?thesis by (auto simp: first_from_None)
next
  case (Some j)
  from first_from_Some [OF this] assms show ?thesis
    by (metis Some linorder_neqE_nat)
qed

lemma first_from_bound: "first_from P xs k = Some i \<Longrightarrow> i < length xs"
  by (drule first_from_Some) simp

lemma first_from_sat: "first_from P xs k = Some i \<Longrightarrow> P (xs ! i)"
  by (drule first_from_Some) simp

lemma first_from_ge: "first_from P xs k = Some i \<Longrightarrow> k \<le> i"
  by (drule first_from_Some) simp

lemmas first_from_facts = first_from_bound first_from_sat first_from_ge

lemma all_range_Suc:
  "(j :: nat) < m \<Longrightarrow>
     (\<forall>k. j \<le> k \<and> k < m \<longrightarrow> Q k) \<longleftrightarrow> Q j \<and> (\<forall>k. Suc j \<le> k \<and> k < m \<longrightarrow> Q k)"
  by (metis Suc_leD Suc_leI le_neq_implies_less le_refl)

section \<open>Lists as fixed arrays\<close>

lemma list_all_update:
  "list_all P xs \<Longrightarrow> P x \<Longrightarrow> list_all P (xs[i := x])"
  by (metis list_all_length length_list_update nth_list_update_eq nth_list_update_neq)

lemma list_all_nthD: "list_all P xs \<Longrightarrow> i < length xs \<Longrightarrow> P (xs ! i)"
  by (simp add: list_all_length)

lemma take_take_append: "take n (take n xs @ ys) = take n (xs @ ys)"
  by (simp add: min_def)

lemma option_case_bind_Some:
  "(case x of None \<Rightarrow> None | Some y \<Rightarrow> f y) = Some z \<longleftrightarrow> (\<exists>y. x = Some y \<and> f y = Some z)"
  by (auto split: option.splits)

end
