(* ===== verification/KString.thy ===== *)
theory KString
  imports Prelude
begin

text \<open>
  \<^verbatim>\<open>kernel/core/string.c\<close> (and the same routines of \<^verbatim>\<open>py/util.c\<close>): the string and memory
  primitives every other component is built on. Pointers that walk a string are lists that lose
  their head; a buffer that is written is a list updated by index; memory is the flat 32-bit
  address space.
\<close>

section \<open>Strings\<close>

fun kstrlen :: "string \<Rightarrow> nat" where
  "kstrlen [] = 0"
| "kstrlen (c # cs) = (if c = NUL then 0 else Suc (kstrlen cs))"

function kstrcmp :: "string \<Rightarrow> string \<Rightarrow> int" where
  "kstrcmp a b =
     (if cget a 0 \<noteq> NUL \<and> cget a 0 = cget b 0 then kstrcmp (tl a) (tl b)
      else of_char (cget a 0) - of_char (cget b 0))"
  by pat_completeness auto
termination
  by (relation "measure (\<lambda>(a, b). length a)") (auto simp: cget_def neq_Nil_conv split: if_splits)

declare kstrcmp.simps [simp del]

fun kstrncmp :: "string \<Rightarrow> string \<Rightarrow> nat \<Rightarrow> int" where
  "kstrncmp a b 0 = 0"
| "kstrncmp a b (Suc n) =
     (if cget a 0 \<noteq> NUL \<and> cget a 0 = cget b 0 then kstrncmp (tl a) (tl b) n
      else of_char (cget a 0) - of_char (cget b 0))"

text \<open>
  \<open>kstrncpy\<close> writes \<open>dst[i]\<close> while \<open>i + 1 < n\<close> and the source has not ended, then the terminator
  (also when \<open>n\<close> is 0). The bound \<open>i + 1\<close> is a \<open>size_t\<close> that does not wrap: \<open>i\<close> stays below the
  length of the source.
\<close>

function kstrncpy_loop :: "string \<Rightarrow> string \<Rightarrow> nat \<Rightarrow> nat \<Rightarrow> string" where
  "kstrncpy_loop dst src n i =
     (if i + 1 < n \<and> cget src i \<noteq> NUL then kstrncpy_loop (dst[i := cget src i]) src n (i + 1)
      else dst[i := NUL])"
  by pat_completeness auto
termination
  by (relation "measure (\<lambda>(dst, src, n, i). n - i)") auto

declare kstrncpy_loop.simps [simp del]

definition kstrncpy :: "string \<Rightarrow> string \<Rightarrow> nat \<Rightarrow> string" where
  "kstrncpy dst src n = kstrncpy_loop dst src n 0"

text \<open>
  The C string a bounded copy leaves in its buffer; the record fields of the other components
  hold this value.
\<close>

definition strncpy_val :: "string \<Rightarrow> nat \<Rightarrow> string" where
  "strncpy_val src n = take (n - 1) (cstr src)"

definition is_dec :: "char \<Rightarrow> bool" where
  "is_dec c \<longleftrightarrow> of_char (CHR ''0'') \<le> (of_char c :: nat) \<and> (of_char c :: nat) \<le> of_char (CHR ''9'')"

fun katoi_loop :: "u32 \<Rightarrow> string \<Rightarrow> u32" where
  "katoi_loop v [] = v"
| "katoi_loop v (c # cs) =
     (if is_dec c then katoi_loop (v * 10 + (of_char c - of_char (CHR ''0''))) cs else v)"

definition katoi :: "string \<Rightarrow> u32" where
  "katoi s =
     (if cget s 0 = CHR ''-'' then - katoi_loop 0 (tl s) else katoi_loop 0 s)"

section \<open>Memory\<close>

type_synonym memory = "u32 \<Rightarrow> u8"

fun kmemcpy :: "memory \<Rightarrow> u32 \<Rightarrow> u32 \<Rightarrow> nat \<Rightarrow> memory" where
  "kmemcpy m d s 0 = m"
| "kmemcpy m d s (Suc n) = kmemcpy (m(d := m s)) (d + 1) (s + 1) n"

fun kmemset :: "memory \<Rightarrow> u32 \<Rightarrow> u8 \<Rightarrow> nat \<Rightarrow> memory" where
  "kmemset m d v 0 = m"
| "kmemset m d v (Suc n) = kmemset (m(d := v)) (d + 1) v n"

text \<open>Copies between a kernel address and a caller's buffer, whose bytes are a value here.\<close>

fun mem_store :: "memory \<Rightarrow> u32 \<Rightarrow> u8 list \<Rightarrow> memory" where
  "mem_store m d [] = m"
| "mem_store m d (b # bs) = mem_store (m(d := b)) (d + 1) bs"

fun mem_load :: "memory \<Rightarrow> u32 \<Rightarrow> nat \<Rightarrow> u8 list" where
  "mem_load m s 0 = []"
| "mem_load m s (Suc n) = m s # mem_load m (s + 1) n"

fun kmemcmp :: "u8 list \<Rightarrow> u8 list \<Rightarrow> nat \<Rightarrow> int" where
  "kmemcmp x y 0 = 0"
| "kmemcmp x y (Suc n) =
     (if hd x \<noteq> hd y then uint (hd x) - uint (hd y) else kmemcmp (tl x) (tl y) n)"

section \<open>What the routines compute\<close>

text \<open>The order of characters the comparison uses, the address range of a transfer, decimals.\<close>

definition char_less :: "(char \<times> char) set" where
  "char_less = {(x, y). (of_char x :: int) < of_char y}"

definition in_region :: "u32 \<Rightarrow> nat \<Rightarrow> u32 \<Rightarrow> bool" where
  "in_region a n x \<longleftrightarrow> unat (x - a) < n"

definition disjoint_regions :: "u32 \<Rightarrow> nat \<Rightarrow> u32 \<Rightarrow> nat \<Rightarrow> bool" where
  "disjoint_regions a n b k \<longleftrightarrow> (\<forall>x. \<not> (in_region a n x \<and> in_region b k x))"

definition dec_digit :: "char \<Rightarrow> nat" where
  "dec_digit c = of_char c - 48"

fun dec_value :: "nat \<Rightarrow> string \<Rightarrow> nat" where
  "dec_value v [] = v"
| "dec_value v (c # cs) = dec_value (v * 10 + dec_digit c) cs"

section \<open>Lemmas on strings\<close>

lemma kstrlen_cstr: "kstrlen s = length (cstr s)"
  by (induction s) (auto simp: cstr_Cons)

lemma of_char_NUL [simp]: "(of_char NUL :: int) = 0"
  by simp

lemma of_char_eq_0 [simp]: "(of_char c :: int) = 0 \<longleftrightarrow> c = NUL"
  by (metis of_char_NUL of_char_eq_iff)

lemma of_char_ge_0: "0 \<le> (of_char c :: int)"
  by (metis of_nat_0_le_iff of_nat_of_char)

lemma of_char_pos: "c \<noteq> NUL \<Longrightarrow> 0 < (of_char c :: int)"
  using of_char_ge_0 [of c] of_char_eq_0 [of c] by linarith

lemma cstr_step: "cget a 0 \<noteq> NUL \<Longrightarrow> cstr a = cget a 0 # cstr (tl a)"
  by (cases a) (auto simp: cstr_Cons)

lemma cstr_end: "cget a 0 = NUL \<Longrightarrow> cstr a = []"
  by (cases a) (auto simp: cstr_Cons)

lemma kstrcmp_eq_0: "kstrcmp a b = 0 \<longleftrightarrow> cstr a = cstr b"
proof (induction a b rule: kstrcmp.induct)
  case (1 a b)
  show ?case
  proof (cases "cget a 0 \<noteq> NUL \<and> cget a 0 = cget b 0")
    case True
    with "1.IH" show ?thesis
      by (auto simp: kstrcmp.simps [of a b] cstr_step)
  next
    case False
    then show ?thesis
      by (cases "cget a 0 = NUL"; cases "cget b 0 = NUL")
        (auto simp: kstrcmp.simps [of a b] cstr_step cstr_end)
  qed
qed

lemma kstrcmp_less_0: "kstrcmp a b < 0 \<longleftrightarrow> (cstr a, cstr b) \<in> lexord char_less"
proof (induction a b rule: kstrcmp.induct)
  case (1 a b)
  show ?case
  proof (cases "cget a 0 \<noteq> NUL \<and> cget a 0 = cget b 0")
    case True
    with "1.IH" show ?thesis
      by (auto simp: kstrcmp.simps [of a b] cstr_step char_less_def)
  next
    case False
    then show ?thesis
      using of_char_pos [of "cget a 0"] of_char_pos [of "cget b 0"]
      by (cases "cget a 0 = NUL"; cases "cget b 0 = NUL")
        (auto simp: kstrcmp.simps [of a b] cstr_step cstr_end char_less_def)
  qed
qed

lemma kstrcmp_swap: "kstrcmp a b = - kstrcmp b a"
proof (induction a b rule: kstrcmp.induct)
  case (1 a b)
  then show ?case
    by (auto simp: kstrcmp.simps [of a b] kstrcmp.simps [of b a])
qed

lemma kstrncmp_eq_0: "kstrncmp a b n = 0 \<longleftrightarrow> take n (cstr a) = take n (cstr b)"
proof (induction n arbitrary: a b)
  case (Suc n)
  show ?case
  proof (cases "cget a 0 \<noteq> NUL \<and> cget a 0 = cget b 0")
    case True
    with Suc.IH show ?thesis by (auto simp: cstr_step)
  next
    case False
    then show ?thesis
      by (cases "cget a 0 = NUL"; cases "cget b 0 = NUL") (auto simp: cstr_step cstr_end)
  qed
qed simp

lemma length_cstr_le: "length (cstr s) \<le> length s"
  by (simp add: cstr_def length_takeWhile_le)

lemma nth_cstr: "i < length (cstr s) \<Longrightarrow> cstr s ! i = s ! i"
  by (simp add: cstr_def takeWhile_nth)

lemma cget_cstr: "i < length (cstr s) \<Longrightarrow> cget s i = cstr s ! i"
  using length_cstr_le [of s] by (simp add: cget_def nth_cstr)

lemma cget_no_nul: "i < length (cstr s) \<Longrightarrow> cget s i = cstr s ! i \<and> cget s i \<noteq> NUL"
  by (metis cget_cstr nth_mem no_nul_cstr no_nul_def)

lemma cget_length_cstr: "cget s (length (cstr s)) = NUL"
  using nth_length_takeWhile [of "\<lambda>c. c \<noteq> NUL" s] length_cstr_le [of s]
  by (auto simp: cget_def cstr_def)

lemma kstrncpy_loop_spec:
  assumes "i \<le> length (cstr src)" and "i \<le> n - 1" and "n \<le> length dst" and "0 < n"
    and "take i dst = take i (cstr src)"
  shows "kstrncpy_loop dst src n i =
    strncpy_val src n @ NUL # drop (Suc (length (strncpy_val src n))) dst"
  using assms
proof (induction dst src n i rule: kstrncpy_loop.induct)
  case (1 dst src n i)
  show ?case
  proof (cases "i + 1 < n \<and> cget src i \<noteq> NUL")
    case True
    from True "1.prems"(1) have i: "i < length (cstr src)"
      using cget_length_cstr le_neq_implies_less by blast
    let ?dst = "dst[i := cget src i]"
    have "take (i + 1) ?dst = take (i + 1) (cstr src)"
      using "1.prems" i by (simp add: take_Suc_conv_app_nth cget_no_nul)
    moreover have "i + 1 \<le> n - 1" using True by linarith
    ultimately
    have "kstrncpy_loop ?dst src n (i + 1) =
        strncpy_val src n @ NUL # drop (Suc (length (strncpy_val src n))) ?dst"
      using "1.IH" [OF True] "1.prems" i by simp
    moreover have "i < Suc (length (strncpy_val src n))"
      using i True by (auto simp: strncpy_val_def)
    ultimately show ?thesis
      using True by (simp add: kstrncpy_loop.simps [of dst src n i])
  next
    case False
    have len: "length (strncpy_val src n) = i"
    proof (cases "i + 1 < n")
      case True
      with False have "cget src i = NUL" by simp
      then have "i = length (cstr src)"
        using "1.prems"(1) cget_no_nul le_neq_implies_less by blast
      with True show ?thesis by (simp add: strncpy_val_def)
    next
      case False
      with "1.prems" show ?thesis by (simp add: strncpy_val_def)
    qed
    have "strncpy_val src n = take (length (strncpy_val src n)) (cstr src)"
      by (simp add: strncpy_val_def min_def)
    with len have "strncpy_val src n = take i dst"
      using "1.prems"(5) by simp
    moreover have "i < length dst"
      using "1.prems" by linarith
    ultimately show ?thesis
      using False len by (auto simp: kstrncpy_loop.simps [of dst src n i] upd_conv_take_nth_drop)
  qed
qed

lemma kstrncpy_buffer:
  assumes "0 < n" and "n \<le> length dst"
  shows "kstrncpy dst src n = strncpy_val src n @ NUL # drop (Suc (length (strncpy_val src n))) dst"
  unfolding kstrncpy_def using assms by (intro kstrncpy_loop_spec) auto

lemma length_strncpy_val: "length (strncpy_val src n) = min (length (cstr src)) (n - 1)"
  by (simp add: strncpy_val_def)

lemma no_nul_strncpy_val [simp]: "no_nul (strncpy_val src n)"
  by (auto simp: strncpy_val_def)

lemma strncpy_val_fits: "no_nul s \<Longrightarrow> length s < n \<Longrightarrow> strncpy_val s n = s"
  by (simp add: strncpy_val_def cstr_id)

lemma cstr_append_NUL: "no_nul s \<Longrightarrow> cstr (s @ NUL # t) = s"
  by (induction s) (auto simp: cstr_Cons)

lemma cstr_kstrncpy: "0 < n \<Longrightarrow> n \<le> length dst \<Longrightarrow> cstr (kstrncpy dst src n) = strncpy_val src n"
  by (simp add: kstrncpy_buffer cstr_append_NUL)

lemma length_kstrncpy: "0 < n \<Longrightarrow> n \<le> length dst \<Longrightarrow> length (kstrncpy dst src n) = length dst"
  by (simp add: kstrncpy_buffer length_strncpy_val)

section \<open>Lemmas on memory\<close>

lemma unat_diff_Suc:
  fixes x d :: u32
  shows "x \<noteq> d \<Longrightarrow> unat (x - d) = Suc (unat (x - (d + 1)))"
  using unat_minus_one [of "x - d"] unat_gt_0 [of "x - d"] by (simp add: diff_diff_eq [symmetric])

lemma unat_diff_self_Suc: "unat ((d :: u32) - (d + 1)) = 2 ^ 32 - 1"
  by (simp add: unsigned_minus_1_eq_mask mask_eq_exp_minus_1)

lemma in_region_Suc: "Suc n \<le> 2 ^ 32 \<Longrightarrow> in_region d (Suc n) x \<longleftrightarrow> x = d \<or> in_region (d + 1) n x"
  using unat_diff_Suc [of x d] by (cases "x = d") (auto simp: in_region_def)

lemma not_in_region_Suc: "n < 2 ^ 32 \<Longrightarrow> \<not> in_region (d + 1) n d"
  by (simp add: in_region_def unsigned_minus_1_eq_mask mask_eq_exp_minus_1)

lemma mem_store_apply:
  "length bs \<le> 2 ^ 32 \<Longrightarrow>
     mem_store m d bs x = (if in_region d (length bs) x then bs ! unat (x - d) else m x)"
proof (induction bs arbitrary: m d)
  case Nil
  then show ?case by (simp add: in_region_def)
next
  case (Cons b bs)
  then show ?case
    using in_region_Suc [of "length bs" d x] not_in_region_Suc [of "length bs" d] unat_diff_Suc [of x d]
    by (cases "x = d") auto
qed

lemma kmemset_apply:
  "n \<le> 2 ^ 32 \<Longrightarrow> kmemset m d v n x = (if in_region d n x then v else m x)"
proof (induction n arbitrary: m d)
  case 0
  then show ?case by (simp add: in_region_def)
next
  case (Suc n)
  then show ?case
    using in_region_Suc [of n d x] not_in_region_Suc [of n d] by auto
qed

lemma mem_load_map: "mem_load m s n = map (\<lambda>i. m (s + of_nat i)) [0..<n]"
proof (induction n arbitrary: s)
  case (Suc n)
  have "[0..<Suc n] = 0 # map Suc [0..<n]"
    by (simp add: map_Suc_upt upt_conv_Cons del: upt_Suc)
  with Suc show ?case by (simp add: add.assoc del: upt_Suc)
qed simp

lemma length_mem_load [simp]: "length (mem_load m s n) = n"
  by (simp add: mem_load_map)

lemma nth_mem_load: "i < n \<Longrightarrow> mem_load m s n ! i = m (s + of_nat i)"
  by (simp add: mem_load_map)

lemma in_region_offset: "i < n \<Longrightarrow> n \<le> 2 ^ 32 \<Longrightarrow> in_region d n (d + of_nat i)"
  by (simp add: in_region_def unat_of_nat)

lemma mem_load_store:
  assumes "length bs \<le> 2 ^ 32"
  shows "mem_load (mem_store m d bs) d (length bs) = bs"
  using assms by (intro nth_equalityI) (auto simp: nth_mem_load mem_store_apply in_region_offset unat_of_nat)

lemma mem_load_frame:
  assumes "\<And>x. in_region s n x \<Longrightarrow> m' x = m x" and "n \<le> 2 ^ 32"
  shows "mem_load m' s n = mem_load m s n"
  using assms by (intro nth_equalityI) (auto simp: nth_mem_load in_region_offset)

lemma mem_load_store_other:
  "disjoint_regions d (length bs) s n \<Longrightarrow> length bs \<le> 2 ^ 32 \<Longrightarrow> n \<le> 2 ^ 32 \<Longrightarrow>
     mem_load (mem_store m d bs) s n = mem_load m s n"
  by (rule mem_load_frame) (auto simp: mem_store_apply disjoint_regions_def)

lemma mem_load_kmemset_other:
  "disjoint_regions d k s n \<Longrightarrow> k \<le> 2 ^ 32 \<Longrightarrow> n \<le> 2 ^ 32 \<Longrightarrow>
     mem_load (kmemset m d v k) s n = mem_load m s n"
  by (rule mem_load_frame) (auto simp: kmemset_apply disjoint_regions_def)

lemma mem_store_append: "mem_store m d (xs @ ys) = mem_store (mem_store m d xs) (d + of_nat (length xs)) ys"
  by (induction xs arbitrary: m d) (auto simp: add.assoc)

lemma mem_load_append: "mem_load m s (n + k) = mem_load m s n @ mem_load m (s + of_nat n) k"
  by (induction n arbitrary: s) (auto simp: add.assoc)

text \<open>
  A forward byte copy equals a load followed by a store when the destination does not overwrite
  source bytes that are still to be read.
\<close>

lemma kmemcpy_load_store:
  assumes "n \<le> 2 ^ 32" and "\<And>i j. i < j \<Longrightarrow> j < n \<Longrightarrow> d + of_nat i \<noteq> s + of_nat j"
  shows "kmemcpy m d s n = mem_store m d (mem_load m s n)"
  using assms
proof (induction n arbitrary: m d s)
  case (Suc n)
  have "kmemcpy (m(d := m s)) (d + 1) (s + 1) n =
      mem_store (m(d := m s)) (d + 1) (mem_load (m(d := m s)) (s + 1) n)"
  proof (rule Suc.IH)
    fix i j assume "i < j" "j < n"
    then show "d + 1 + of_nat i \<noteq> s + 1 + of_nat j"
      using Suc.prems(2) [of "Suc i" "Suc j"] by (simp add: add.assoc)
  qed (use Suc.prems in simp)
  moreover have "mem_load (m(d := m s)) (s + 1) n = mem_load m (s + 1) n"
  proof (rule nth_equalityI)
    fix i assume "i < length (mem_load (m(d := m s)) (s + 1) n)"
    then show "mem_load (m(d := m s)) (s + 1) n ! i = mem_load m (s + 1) n ! i"
      using Suc.prems(2) [of 0 "Suc i"] by (simp add: nth_mem_load add.assoc)
  qed simp
  ultimately show ?case by simp
qed simp

section \<open>Lemmas on decimals\<close>

lemma katoi_loop_digits:
  "list_all is_dec s \<Longrightarrow> rest = [] \<or> \<not> is_dec (hd rest) \<Longrightarrow>
     katoi_loop (of_nat v) (s @ rest) = of_nat (dec_value v s)"
proof (induction s arbitrary: v)
  case Nil
  then show ?case by (cases rest) auto
next
  case (Cons c s)
  have "(of_char c :: u32) = of_nat (of_char c)"
    by (rule of_nat_of_char [symmetric])
  with Cons.prems have "(of_char c :: u32) - of_char (CHR ''0'') = of_nat (dec_digit c)"
    by (simp add: dec_digit_def is_dec_def of_nat_diff)
  then show ?case
    using Cons.IH [of "v * 10 + dec_digit c"] Cons.prems by simp
qed
end
