(* ===== verification/Libmp.thy ===== *)
theory Libmp
  imports Prelude KString
begin

text \<open>
  The parts of the programs' library \<^verbatim>\<open>user/lib/libmp.c\<close> that compute: numbers to and from text, addresses, and the words of a
  line. The calls into the kernel are the subject of \<open>Syscall\<close>.
\<close>

section \<open>Numbers\<close>

abbreviation digit :: "nat \<Rightarrow> char" where "digit n \<equiv> char_of (48 + n)"

definition is_digit_char :: "char \<Rightarrow> bool" where
  "is_digit_char c \<longleftrightarrow> 48 \<le> (of_char c :: nat) \<and> of_char c \<le> (57 :: nat)"

text \<open>An \<^verbatim>\<open>int\<close> that wraps.\<close>

primrec atoi_loop :: "string \<Rightarrow> u32 \<Rightarrow> u32" where
  "atoi_loop [] v = v"
| "atoi_loop (c # cs) v = (if is_digit_char c then atoi_loop cs (v * 10 + (of_char c - 48)) else v)"

definition atoi_u :: "string \<Rightarrow> int" where "atoi_u s = sint (atoi_loop s 0)"

text \<open>The digits from the last on, and the loop that turns them round within the same array.\<close>

function put_digits :: "u32 \<Rightarrow> nat \<Rightarrow> string \<Rightarrow> nat \<times> string" where
  "put_digits v i tmp = (if v = 0 then (i, tmp) else put_digits (v div 10) (i + 1) (tmp[i := digit (unat (v mod 10))]))"
  by pat_completeness auto
termination
  by (relation "measure (\<lambda>(v, i, tmp). unat v)") (auto simp: unat_div word_neq_0_conv word_less_nat_alt)

declare put_digits.simps [simp del]

primrec turn_loop :: "nat \<Rightarrow> nat \<Rightarrow> string \<Rightarrow> nat \<times> string" where
  "turn_loop 0 n tmp = (n, tmp)"
| "turn_loop (Suc i) n tmp = turn_loop i (n + 1) (tmp[n := tmp ! i])"

definition print_uint :: "u32 \<Rightarrow> string" where
  "print_uint v =
     (if v = 0 then ''0''
      else let (i, tmp) = put_digits v 0 (replicate 12 NUL); (n, tmp) = turn_loop i 0 tmp in take n tmp)"

definition print_ip :: "u32 \<Rightarrow> string" where
  "print_ip ip = print_uint (drop_bit 24 ip AND 255) @ ''.'' @ print_uint (drop_bit 16 ip AND 255) @ ''.'' @
     print_uint (drop_bit 8 ip AND 255) @ ''.'' @ print_uint (ip AND 255)"

record ip_scan =
  ip_parts :: "u32 list"
  ip_v :: u32
  ip_saw :: bool
  ip_part :: nat

text \<open>Part 0 to 2 are stored at their dot, further ones dropped; \<open>None\<close> is the early return.\<close>

primrec ip_loop :: "string \<Rightarrow> ip_scan \<Rightarrow> ip_scan option" where
  "ip_loop [] s = Some s"
| "ip_loop (c # cs) s =
     (if is_digit_char c then ip_loop cs (s\<lparr>ip_v := ip_v s * 10 + (of_char c - 48), ip_saw := True\<rparr>)
      else if c = CHR ''.'' then
        ip_loop cs (s\<lparr>ip_parts := (if ip_part s < 3 then (ip_parts s)[ip_part s := ip_v s] else ip_parts s), ip_v := 0,
                      ip_part := ip_part s + 1\<rparr>)
      else None)"

definition parse_ip :: "string \<Rightarrow> u32" where
  "parse_ip str =
     (if str = [] then 0
      else case ip_loop str \<lparr>ip_parts = [0, 0, 0], ip_v = 0, ip_saw = False, ip_part = 0\<rparr> of
             None \<Rightarrow> 0
           | Some s \<Rightarrow>
             if \<not> ip_saw s \<or> ip_part s \<noteq> 3 then 0
             else push_bit 24 (ip_parts s ! 0) OR push_bit 16 (ip_parts s ! 1) OR push_bit 8 (ip_parts s ! 2) OR ip_v s)"

section \<open>Words of a line\<close>

text \<open>The words found at separators \<open>sep\<close>, at most \<open>lim\<close>.\<close>

function split_words :: "(char \<Rightarrow> bool) \<Rightarrow> nat \<Rightarrow> string \<Rightarrow> string list" where
  "split_words sep lim s =
     (if s = [] \<or> lim = 0 then []
      else let s = dropWhile sep s in
        if s = [] then []
        else takeWhile (\<lambda>c. \<not> sep c) s # split_words sep (lim - 1) (drop 1 (dropWhile (\<lambda>c. \<not> sep c) s)))"
  by pat_completeness auto
termination by (relation "measure (\<lambda>(sep, lim, s). lim)") auto

declare split_words.simps [simp del]

definition split_args :: "string \<Rightarrow> nat \<Rightarrow> string list" where
  "split_args line lim = split_words (\<lambda>c. c = CHR '' '' \<or> c = CHR 0x09) (lim - 1) line"

section \<open>What \<^verbatim>\<open>print_uint\<close> prints\<close>

text \<open>The decimal text of a number.\<close>

fun decimal :: "nat \<Rightarrow> string" where
  "decimal n = (if n < 10 then [digit n] else decimal (n div 10) @ [digit (n mod 10)])"

declare decimal.simps [simp del]

lemma turn_loop_result:
  "i + n \<le> length tmp \<Longrightarrow>
     turn_loop i n tmp = (n + i, fold (\<lambda>j t. t[n + j := t ! (i - 1 - j)]) [0..<i] tmp)"
proof (induction i arbitrary: n tmp)
  case (Suc i)
  have "fold (\<lambda>j t. t[n + j := t ! (Suc i - 1 - j)]) [0..<Suc i] tmp =
    fold (\<lambda>j t. t[n + j := t ! (i - j)]) [Suc 0..<Suc i] (tmp[n := tmp ! i])" by (simp add: upt_conv_Cons del: upt_Suc)
  also have "\<dots> = fold (\<lambda>j t. t[Suc n + j := t ! (i - 1 - j)]) [0..<i] (tmp[n := tmp ! i])"
    by (simp add: map_Suc_upt [symmetric] fold_map o_def del: upt_Suc)
  finally show ?case using Suc by simp
qed simp

text \<open>Halfway through, the loop reads what it has already overwritten.\<close>

lemma turn_fold:
  assumes "k \<le> length tmp" and "m \<le> k" and "j < length tmp"
  shows "fold (\<lambda>j t. t[j := t ! (k - Suc j)]) [0..<m] tmp ! j = (if j < m then tmp ! max j (k - Suc j) else tmp ! j)"
  using assms(2,3)
proof (induction m arbitrary: j)
  case (Suc m)
  let ?t = "fold (\<lambda>j t. t[j := t ! (k - Suc j)]) [0..<m] tmp"
  have len: "length (fold (\<lambda>j t. t[j := t ! (k - Suc j)]) xs tmp) = length tmp" for xs by (induction xs rule: rev_induct) auto
  have r: "?t ! (k - Suc m) = tmp ! max m (k - Suc m)" using Suc.IH [of "k - Suc m"] Suc.prems assms(1) by (auto simp: max_def)
  show ?case
  proof (cases "j = m")
    case True
    with r Suc.prems show ?thesis by (simp add: len)
  next
    case False
    with Suc.IH [of j] Suc.prems show ?thesis by (simp add: nth_list_update)
  qed
qed simp

lemma turn_loop_take:
  assumes "k \<le> length tmp"
  shows "(case turn_loop k 0 tmp of (n, t) \<Rightarrow> take n t) = map (\<lambda>j. tmp ! max j (k - Suc j)) [0..<k]"
proof -
  have len: "length (fold (\<lambda>j t. t[j := t ! (k - Suc j)]) xs tmp) = length tmp" for xs by (induction xs rule: rev_induct) auto
  have "turn_loop k 0 tmp = (k, fold (\<lambda>j t. t[j := t ! (k - Suc j)]) [0..<k] tmp)" using turn_loop_result [of k 0 tmp] assms by simp
  then show ?thesis using assms turn_fold [OF assms order.refl] by (intro nth_equalityI) (simp_all add: len)
qed

lemma put_digits_decimal:
  "unat v < 10 ^ d \<Longrightarrow> i + d \<le> length tmp \<Longrightarrow> v \<noteq> 0 \<Longrightarrow> put_digits v i tmp = (k, t) \<Longrightarrow>
     k = i + length (decimal (unat v)) \<and> length t = length tmp \<and> k \<le> i + d \<and>
     (\<forall>j < k - i. t ! (i + j) = rev (decimal (unat v)) ! j) \<and> (\<forall>j < i. t ! j = tmp ! j)"
proof (induction v i tmp arbitrary: d rule: put_digits.induct)
  case (1 v i tmp)
  then obtain d' where d: "d = Suc d'" by (cases d) (auto simp: unat_eq_zero)
  have q: "unat (v div 10) = unat v div 10" "unat (v mod 10) = unat v mod 10" by (simp_all add: unat_div unat_mod)
  have step: "put_digits (v div 10) (i + 1) (tmp[i := digit (unat v mod 10)]) = (k, t)"
    using "1.prems"(3,4) by (simp add: put_digits.simps [of v] q)
  show ?case
  proof (cases "v div 10 = 0")
    case True
    then have "unat v < 10" using q(1) by (metis div_eq_0_iff unat_0 zero_neq_numeral)
    moreover have "k = i + 1" "t = tmp[i := digit (unat v mod 10)]" using step True by (simp_all add: put_digits.simps [of 0])
    ultimately show ?thesis using "1.prems"(2) d by (simp add: decimal.simps [of "unat v"])
  next
    case False
    then have ge: "\<not> unat v < 10" using q(1) by (metis div_less unat_eq_zero)
    have lt: "unat (v div 10) < 10 ^ d'" using "1.prems"(1) d q(1) by (simp add: div_less_iff_less_mult mult.commute)
    have "i + 1 + d' \<le> length (tmp[i := digit (unat (v mod 10))])" using "1.prems"(2) d by simp
    from "1.IH" [OF "1.prems"(3) lt this False] step q
    have ih: "k = i + 1 + length (decimal (unat v div 10))" "length t = length tmp" "k \<le> i + 1 + d'"
      "\<forall>j < k - (i + 1). t ! (i + 1 + j) = rev (decimal (unat v div 10)) ! j" "\<forall>j < i + 1. t ! j = tmp[i := digit (unat v mod 10)] ! j"
      by auto
    have "t ! (i + j) = rev (decimal (unat v)) ! j" if "j < k - i" for j
      using ih(1,4,5) that "1.prems"(2) d ge by (cases j) (auto simp: decimal.simps [of "unat v"])
    with ih ge d show ?thesis by (auto simp: decimal.simps [of "unat v"])
  qed
qed

lemma print_uint_text: "v \<noteq> 0 \<Longrightarrow> print_uint v = map (\<lambda>j. rev (decimal (unat v)) ! max j (length (decimal (unat v)) - 1 - j)) [0..<length (decimal (unat v))]"
proof -
  assume v: "v \<noteq> 0"
  have "unat v < 10 ^ 10" using unsigned_less [of v, where ?'a = nat] by simp
  moreover obtain k t where kt: "put_digits v 0 (replicate 12 NUL) = (k, t)" by fastforce
  ultimately have p: "k = length (decimal (unat v))" "length t = 12" "k \<le> 10" "\<forall>j<k. t ! j = rev (decimal (unat v)) ! j"
    using put_digits_decimal [of v 10 0 "replicate 12 NUL" k t] v by auto
  then have "print_uint v = map (\<lambda>j. t ! max j (k - 1 - j)) [0..<k]"
    using turn_loop_take [of k t] v by (simp add: print_uint_def kt split_beta)
  also have "\<dots> = map (\<lambda>j. rev (decimal (unat v)) ! max j (k - 1 - j)) [0..<k]" using p(4) by (auto simp: max_def)
  finally show ?thesis using p(1) by simp
qed

text \<open>\<^verbatim>\<open>print_uint\<close>, which every address and number of the network tools goes through, always prints a text that reads the
  same in both directions: it turns the digits round within one array and copies its own output. It prints the number only when the number's
  decimal text is such a text itself; 10 comes out as 11 and 123 as 121.\<close>

theorem print_uint_palindrome:
  "rev (print_uint v) = print_uint v \<and> length (print_uint v) = length (decimal (unat v)) \<and>
   (print_uint v = decimal (unat v) \<longleftrightarrow> rev (decimal (unat v)) = decimal (unat v)) \<and> print_uint 10 = ''11'' \<and> print_uint 123 = ''121''"
proof -
  let ?d = "decimal (unat v)"
  have ex: "print_uint 10 = ''11''" "print_uint 123 = ''121''" by code_simp+
  show ?thesis
  proof (cases "v = 0")
    case True
    have "print_uint 0 = ''0''" "decimal 0 = ''0''" by code_simp+
    with True ex show ?thesis by simp
  next
    case False
    then have p: "print_uint v = map (\<lambda>j. rev ?d ! max j (length ?d - 1 - j)) [0..<length ?d]" using print_uint_text by blast
    have a: "rev (print_uint v) = print_uint v" unfolding p
      by (intro nth_equalityI) (auto simp: rev_nth max_def)
    have "print_uint v = ?d" if "rev ?d = ?d"
      unfolding p using that by (intro nth_equalityI) (auto simp: max_def, metis Suc_diff_Suc diff_less length_rev rev_nth)
    with a p ex show ?thesis by auto
  qed
qed

section \<open>Reading numbers back\<close>

lemma digit_value [simp]: "d < 10 \<Longrightarrow> is_digit_char (digit d)" "d < 10 \<Longrightarrow> (of_char (digit d) :: u32) - 48 = of_nat d"
proof -
  assume d: "d < 10"
  have n: "(of_char (digit d) :: nat) = 48 + d" using d by simp
  then show "is_digit_char (digit d)" using d by (simp add: is_digit_char_def)
  have "(of_char (digit d) :: u32) = of_nat (of_char (digit d) :: nat)" by (rule of_nat_of_char [symmetric])
  also have "\<dots> = of_nat (48 + d)" by (simp only: n)
  finally show "(of_char (digit d) :: u32) - 48 = of_nat d" by simp
qed

lemma word_div_mod_10: "(of_nat n :: u32) = of_nat (n div 10) * 10 + of_nat (n mod 10)"
proof -
  have "(of_nat n :: u32) = of_nat (n div 10 * 10 + n mod 10)" by (simp only: div_mult_mod_eq)
  then show ?thesis by (simp only: of_nat_add of_nat_mult of_nat_numeral)
qed

lemma atoi_decimal: "atoi_loop (decimal n @ rest) v = atoi_loop rest (v * of_nat (10 ^ length (decimal n)) + of_nat n)"
proof (induction n arbitrary: v rest rule: decimal.induct)
  case (1 n)
  show ?case
  proof (cases "n < 10")
    case False
    from 1 [OF False] False word_div_mod_10 [of n] show ?thesis by (simp add: decimal.simps [of n] algebra_simps)
  qed (simp add: decimal.simps [of n])
qed

lemma ip_decimal:
  "ip_loop (decimal n @ rest) s =
     ip_loop rest (s\<lparr>ip_v := ip_v s * of_nat (10 ^ length (decimal n)) + of_nat n, ip_saw := True\<rparr>)"
proof (induction n arbitrary: s rest rule: decimal.induct)
  case (1 n)
  show ?case
  proof (cases "n < 10")
    case False
    from 1 [OF False] False word_div_mod_10 [of n] show ?thesis by (simp add: decimal.simps [of n] algebra_simps)
  qed (simp add: decimal.simps [of n])
qed

definition dotted :: "nat \<Rightarrow> nat \<Rightarrow> nat \<Rightarrow> nat \<Rightarrow> string" where
  "dotted a b c d = decimal a @ ''.'' @ decimal b @ ''.'' @ decimal c @ ''.'' @ decimal d"

lemma decimal_ne [simp]: "decimal n \<noteq> []"
  by (simp add: decimal.simps [of n])

lemma dot_not_digit [simp]: "\<not> is_digit_char (CHR ''.'')"
  by (simp add: is_digit_char_def)

text \<open>The address a dotted text denotes. A part of 256 or more is not refused but spills into the part before it.\<close>

theorem parse_ip_dotted:
  "parse_ip (dotted a b c d) =
     push_bit 24 (of_nat a) OR push_bit 16 (of_nat b) OR push_bit 8 (of_nat c) OR of_nat d"
  using ip_decimal [of d "[]"] by (simp add: parse_ip_def dotted_def ip_decimal numeral_2_eq_2)

end
