(* ===== verification/Msh.thy ===== *)
theory Msh
  imports Libmp
begin

text \<open>
  The shell \<^verbatim>\<open>user/shell/msh.c\<close>: its history and history expansion, the line editor and the prompt loop with completion and
  reverse search, and what it does with a line. Drawing the line and the calls into the kernel are left out; the listing of a directory is
  an argument.
\<close>

section \<open>History\<close>

definition HIST_MAX :: nat where "HIST_MAX = 64"
definition LINE_MAX :: nat where "LINE_MAX = 256"
definition SHELL_ARGS :: nat where "SHELL_ARGS = 16"

record msh =
  hist :: "string list"
  hist_base :: nat
  msh_cwd :: string
  msh_oldpwd :: string

definition hist_add :: "string \<Rightarrow> msh \<Rightarrow> msh" where
  "hist_add s m =
     (if s = [] then m
      else if hist m \<noteq> [] \<and> last (hist m) = s then m
      else if length (hist m) < HIST_MAX then m\<lparr>hist := hist m @ [strncpy_val s LINE_MAX]\<rparr>
      else m\<lparr>hist := tl (hist m) @ [strncpy_val s LINE_MAX], hist_base := hist_base m + 1\<rparr>)"

definition match_prefix :: "string \<Rightarrow> string \<Rightarrow> nat \<Rightarrow> bool" where
  "match_prefix name pref plen \<longleftrightarrow> list_all (\<lambda>i. cget name i \<noteq> NUL \<and> cget name i = cget pref i) [0..<plen]"

text \<open>The replacement of the first occurrence of \<open>a\<close> by \<open>b\<close> in a buffer of 256.\<close>

function subst_loop :: "string \<Rightarrow> string \<Rightarrow> bool \<Rightarrow> string \<Rightarrow> string \<Rightarrow> bool \<times> string" where
  "subst_loop a b did p out =
     (if p \<noteq> [] \<and> length out + 1 < LINE_MAX then
        if \<not> did \<and> match_prefix p a (length a) then
          subst_loop a b True (drop (length a) p) (out @ take (LINE_MAX - 1 - length out) b)
        else subst_loop a b did (tl p) (out @ [hd p])
      else (did, out))"
  by pat_completeness auto
termination by (relation "measure (\<lambda>(a, b, did, p, out). (if did then 0 else 1) + length p)") (auto simp: neq_Nil_conv)

declare subst_loop.simps [simp del]

text \<open>The code's result (-1, 0 or 1) and the line.\<close>

definition hist_expand :: "string \<Rightarrow> msh \<Rightarrow> int \<times> string" where
  "hist_expand buf m =
     (if buf = [] then (0, buf)
      else if buf = ''!!'' then if hist m = [] then (-1, buf) else (1, last (hist m))
      else if hd buf = CHR ''!'' \<and> is_digit_char (cget buf 1) then
        let idx = sint (word_of_int (atoi_u (tl buf)) - 1 - word_of_nat (hist_base m) :: u32)
        in if idx < 0 \<or> idx \<ge> int (length (hist m)) then (-1, buf) else (1, hist m ! nat idx)
      else if hd buf = CHR ''!'' \<and> cget buf 1 \<noteq> NUL then
        (case find (\<lambda>h. match_prefix h (tl buf) (length (tl buf))) (rev (hist m)) of None \<Rightarrow> (-1, buf) | Some h \<Rightarrow> (1, h))
      else if hd buf = CHR ''^'' then
        let a = takeWhile (\<lambda>c. c \<noteq> CHR ''^'') (tl buf); r = dropWhile (\<lambda>c. c \<noteq> CHR ''^'') (tl buf)
        in if r = [] then (-1, buf)
           else if hist m = [] then (-1, buf)
           else let (did, out) = subst_loop a (tl r) False (last (hist m)) [] in if \<not> did then (-1, buf) else (1, out)
      else (0, buf))"

text \<open>What the \<^verbatim>\<open>history\<close> command lists.\<close>

definition cmd_history :: "msh \<Rightarrow> (nat \<times> string) list" where
  "cmd_history m = map (\<lambda>i. (hist_base m + i + 1, hist m ! i)) [0..<length (hist m)]"

section \<open>The edited line\<close>

record edit_line =
  l_text :: string
  l_cursor :: nat
  l_yank :: string

text \<open>The walks over words, with \<open>l ! (i - 1)\<close> the character before the cursor.\<close>

fun left_over :: "(char \<Rightarrow> bool) \<Rightarrow> string \<Rightarrow> nat \<Rightarrow> nat" where
  "left_over p l 0 = 0"
| "left_over p l (Suc i) = (if p (cget l i) then left_over p l i else Suc i)"

fun back_blanks :: "string \<Rightarrow> nat \<Rightarrow> nat" where
  "back_blanks l 0 = 0"
| "back_blanks l (Suc i) = (if cget l (Suc i) = CHR '' '' then back_blanks l i else Suc i)"

definition word_left :: "string \<Rightarrow> nat \<Rightarrow> nat" where
  "word_left l cursor = left_over (\<lambda>c. c \<noteq> CHR '' '') l (back_blanks l (cursor - 1))"

definition word_right :: "string \<Rightarrow> nat \<Rightarrow> nat" where
  "word_right l cursor =
     (let rest = drop cursor l; w = length (takeWhile (\<lambda>c. c \<noteq> CHR '' '') rest)
      in cursor + w + length (takeWhile (\<lambda>c. c = CHR '' '') (drop w rest)))"

definition delete_range :: "nat \<Rightarrow> nat \<Rightarrow> edit_line \<Rightarrow> edit_line" where
  "delete_range a b e =
     (let b = min b (length (l_text e)) in
      if b \<le> a then e
      else e\<lparr>l_yank := take (min (b - a) (LINE_MAX - 1)) (drop a (l_text e)), l_text := take a (l_text e) @ drop b (l_text e),
             l_cursor := a\<rparr>)"

definition yank_line :: "edit_line \<Rightarrow> edit_line" where
  "yank_line e =
     (if length (l_text e) + length (l_yank e) + 1 < LINE_MAX then
        e\<lparr>l_text := take (l_cursor e) (l_text e) @ l_yank e @ drop (l_cursor e) (l_text e),
          l_cursor := l_cursor e + length (l_yank e)\<rparr>
      else e)"

definition type_key :: "char \<Rightarrow> edit_line \<Rightarrow> edit_line" where
  "type_key c e =
     (if length (l_text e) + 1 < LINE_MAX then
        e\<lparr>l_text := take (l_cursor e) (l_text e) @ c # drop (l_cursor e) (l_text e), l_cursor := l_cursor e + 1\<rparr>
      else e)"

definition delete_at :: "nat \<Rightarrow> edit_line \<Rightarrow> edit_line" where
  "delete_at i e = e\<lparr>l_text := take i (l_text e) @ drop (Suc i) (l_text e), l_cursor := i\<rparr>"

text \<open>The editing keys of the text-mode prompt.\<close>

definition line_key :: "int \<Rightarrow> edit_line \<Rightarrow> edit_line" where
  "line_key key e =
     (let l = l_text e; c = l_cursor e; n = length l in
      if key = 0x104 \<or> key = 1 then e\<lparr>l_cursor := 0\<rparr>
      else if key = 0x105 \<or> key = 5 then e\<lparr>l_cursor := n\<rparr>
      else if key = 0x102 then e\<lparr>l_cursor := c - 1\<rparr>
      else if key = 0x103 then (if c < n then e\<lparr>l_cursor := c + 1\<rparr> else e)
      else if key = 0x262 then e\<lparr>l_cursor := word_left l c\<rparr>
      else if key = 0x266 then e\<lparr>l_cursor := word_right l c\<rparr>
      else if key = 0x264 then delete_range c (word_right l c) e
      else if key = 23 then delete_range (word_left l c) c e
      else if key = 21 then delete_range 0 c e
      else if key = 11 then delete_range c n e
      else if key = 25 then yank_line e
      else if key = 0x106 then (if c < n then delete_at c e else e)
      else if key = 8 \<or> key = 127 then (if 0 < c then delete_at (c - 1) e else e)
      else if 32 \<le> key \<and> key < 256 then type_key (char_of (nat key)) e
      else e)"

section \<open>Running a line\<close>

definition split :: "string \<Rightarrow> nat \<Rightarrow> string list" where
  "split s lim = split_words (\<lambda>c. c = CHR '' '') lim s"

text \<open>The arguments joined for \<^verbatim>\<open>/sys/run/argv\<close>, as many as the buffer of 128 holds.\<close>

fun join_args :: "string list \<Rightarrow> string \<Rightarrow> string" where
  "join_args [] out = out"
| "join_args (a # as) out =
     (if length out + length a + 2 \<ge> 128 then out
      else join_args as ((if out = [] then [] else out @ '' '') @ a))"

definition cmd_path :: "string \<Rightarrow> string" where
  "cmd_path cmd =
     (if cget cmd 0 = slash then strncpy_val cmd 128 else ''/sys/bin/'' @ strncpy_val cmd (128 - 9))"

definition find_pipe :: "string list \<Rightarrow> nat option" where
  "find_pipe args = first_from (\<lambda>a. a = ''|'') args 0"

datatype action = Skip | No_event | Quit | Help | History "(nat \<times> string) list" | Chdir string | Spawn string string

definition cd_target :: "string list \<Rightarrow> msh \<Rightarrow> string" where
  "cd_target args m =
     (if length args \<ge> 2 then
        if args ! 1 = ''-'' then msh_oldpwd m
        else if args ! 1 = ''~'' \<or> args ! 1 = ''~/'' then ''/sys'' else args ! 1
      else ''/sys'')"

text \<open>One turn of the main loop: what is echoed, what is done.\<close>

definition run_line :: "string \<Rightarrow> msh \<Rightarrow> string option \<times> action \<times> msh" where
  "run_line l m =
     (let work = strncpy_val l LINE_MAX; (he, work) = hist_expand work m in
      if he < 0 then (None, No_event, m)
      else
        let echo = (if he > 0 then Some work else None); m = (if work \<noteq> [] then hist_add work m else m);
            args = split work SHELL_ARGS
        in if args = [] then (echo, Skip, m)
           else if hd args = ''exit'' then (echo, Quit, m)
           else if hd args = ''help'' then (echo, Help, m)
           else if hd args = ''history'' then (echo, History (cmd_history m), m)
           else if hd args = ''cd'' then (echo, Chdir (cd_target args m), m)
           else (echo, Spawn (cmd_path (hd args)) (join_args (tl args) []), m))"

text \<open>After \<^verbatim>\<open>cd\<close>: \<open>prev\<close> is the directory before, \<open>now\<close> the one the kernel reports.\<close>

definition cd_done :: "bool \<Rightarrow> string \<Rightarrow> string \<Rightarrow> msh \<Rightarrow> msh" where
  "cd_done ok prev now m =
     (if ok then m\<lparr>msh_oldpwd := strncpy_val prev 128, msh_cwd := strncpy_val now 128\<rparr> else m)"

section \<open>Completion\<close>

text \<open>The commands the shell knows by name.\<close>

definition builtins :: "string list" where
  "builtins = [''help'', ''cd'', ''exit'', ''history'']"

definition bins :: "string list" where
  "bins = [''cat'', ''nano'', ''mvim'', ''pkg'', ''python'', ''ping'', ''httpd'', ''dns'', ''msh'',
    ''curl'', ''wget'', ''nc'', ''ssh'', ''sshd'', ''ifconfig'', ''telnet'',
    ''cp'', ''rm'', ''mv'', ''ls'', ''tree'', ''touch'', ''mkdir'', ''head'', ''tail'',
    ''which'', ''uname'', ''echo'', ''clear'', ''cls'', ''pwd'', ''true'', ''false'', ''date'',
    ''ps'', ''kill'', ''desktop'', ''run'', ''df'', ''du'', ''free'',
    ''jobs'', ''fg'', ''bg'', ''pkill'', ''top'', ''htop'', ''alias'']"

text \<open>The results 0, 1 (with the word) and 2 (with what is listed on the screen). The call that lists a directory, given the room of the
  buffer, is an argument: \<open>None\<close> is its negative result.\<close>

datatype completion = No_match | Unique string | Listed "string list"

type_synonym dirlist = "string \<Rightarrow> nat \<Rightarrow> string option"

definition path_is_dir :: "dirlist \<Rightarrow> string \<Rightarrow> bool" where
  "path_is_dir ls path \<longleftrightarrow> ls path 4 \<noteq> None"

definition join_dir :: "nat \<Rightarrow> string \<Rightarrow> string \<Rightarrow> string" where
  "join_dir outn dir name =
     (if dir = ''/'' then ''/'' @ strncpy_val name (outn - 1)
      else if dir = ''.'' then strncpy_val name outn
      else let p = strncpy_val dir outn; p = (if length p + 1 < outn then p @ ''/'' else p) in p @ strncpy_val name (outn - length p))"

definition try_complete_list :: "string list \<Rightarrow> string \<Rightarrow> nat \<Rightarrow> bool \<Rightarrow> completion" where
  "try_complete_list l pref outn force =
     (let ms = filter (\<lambda>n. match_prefix n pref (length pref)) l in
      if length ms = 1 \<and> \<not> force then Unique (strncpy_val (last ms) outn)
      else if length ms > 1 \<or> force \<and> length ms \<ge> 1 then Listed ms
      else No_match)"

text \<open>The next name of a listing, cut at 47 characters, and what follows it.\<close>

definition next_name :: "string \<Rightarrow> string \<times> string" where
  "next_name l =
     (let name = take 47 (takeWhile (\<lambda>c. c \<noteq> newline) l); rest = drop (length name) l
      in (name, if rest \<noteq> [] \<and> hd rest = newline then tl rest else rest))"

lemma next_name_less: "next_name l = (name, rest) \<Longrightarrow> l \<noteq> [] \<Longrightarrow> length rest < length l"
  by (cases l) (auto simp: next_name_def Let_def split: if_splits)

text \<open>The names that begin with \<open>base\<close>, at most \<open>room\<close>.\<close>

function list_names :: "dirlist \<Rightarrow> string \<Rightarrow> string \<Rightarrow> bool \<Rightarrow> nat \<Rightarrow> string \<Rightarrow> string list" where
  "list_names ls dirpath base dirs_only room l =
     (if l = [] \<or> room = 0 then []
      else case next_name l of (name, rest) \<Rightarrow>
        if name = [] \<or> \<not> match_prefix name base (length base) \<or> dirs_only \<and> \<not> path_is_dir ls (join_dir 160 dirpath name)
        then list_names ls dirpath base dirs_only room rest
        else name # list_names ls dirpath base dirs_only (room - 1) rest)"
  by pat_completeness auto
termination
  by (relation "measure (\<lambda>(ls, dirpath, base, dirs_only, room, l). length l)") (auto intro: next_name_less [OF sym])

declare list_names.simps [simp del]

definition split_pref :: "string \<Rightarrow> string \<times> string \<times> string" where
  "split_pref pref =
     (let base = rev (takeWhile (\<lambda>c. c \<noteq> slash) (rev pref)); pre = take (length pref - length base) pref
      in (pre, if pre = [] then ''.'' else if pre = ''/'' then ''/'' else butlast pre, base))"

definition path_word :: "dirlist \<Rightarrow> string \<Rightarrow> string \<Rightarrow> nat \<Rightarrow> bool \<Rightarrow> string" where
  "path_word ls pre name outn dirs_only =
     (let out = take (outn - 1) pre; out = out @ strncpy_val name (outn - length out)
      in if (dirs_only \<or> path_is_dir ls out) \<and> length out + 1 < outn then out @ ''/'' else out)"

definition try_complete_path :: "dirlist \<Rightarrow> string \<Rightarrow> nat \<Rightarrow> bool \<Rightarrow> bool \<Rightarrow> completion" where
  "try_complete_path ls pref outn dirs_only force =
     (let (pre, dirpath, base) = split_pref pref in
      if length pre \<ge> 128 \<or> length base \<ge> 64 then No_match
      else case ls dirpath 512 of None \<Rightarrow> No_match
      | Some l \<Rightarrow>
        let names = list_names ls dirpath base dirs_only 32 l in
        if length names = 1 \<and> \<not> force then
          Unique (path_word ls pre (last names) outn dirs_only)
        else if length names > 1 \<or> force \<and> length names \<ge> 1 then Listed names
        else No_match)"

definition first_word_is :: "string \<Rightarrow> string \<Rightarrow> nat \<Rightarrow> bool" where
  "first_word_is l name arg_start \<longleftrightarrow>
     take 31 (takeWhile (\<lambda>c. c \<noteq> CHR '' '') (dropWhile (\<lambda>c. c = CHR '' '') (take arg_start l))) = name"

definition tab_word :: "dirlist \<Rightarrow> bool \<Rightarrow> string \<Rightarrow> nat \<Rightarrow> string \<Rightarrow> completion" where
  "tab_word ls force l start pref =
     (let path = (\<lambda>dirs. try_complete_path ls pref 96 dirs force); known = (\<lambda>n. try_complete_list n pref 96 force);
          orelse = (\<lambda>a b. if a = No_match then b else a)
      in if start = 0 then
           orelse (if pref \<noteq> [] then orelse (known builtins) (known bins) else No_match) (path False)
         else if first_word_is l ''cd'' start then path True
         else orelse (path False) (if pref \<noteq> [] then known bins else No_match))"

text \<open>The line after Tab, whether a second Tab will list, and the code's result.\<close>

definition do_tab :: "dirlist \<Rightarrow> bool \<Rightarrow> edit_line \<Rightarrow> completion \<times> edit_line \<times> bool" where
  "do_tab ls armed e =
     (let l = l_text e; c = l_cursor e; start = left_over (\<lambda>c. c \<noteq> CHR '' '') l c; plen = c - start in
      if plen \<ge> 96 then (No_match, e, armed)
      else case tab_word ls armed l start (take plen (drop start l)) of
        Unique out \<Rightarrow>
          if length out < plen \<or> length l + (length out - plen) + 1 \<ge> LINE_MAX then (No_match, e, armed)
          else (Unique out, e\<lparr>l_text := take start l @ out @ drop c l, l_cursor := start + length out\<rparr>, False)
      | Listed ns \<Rightarrow> (Listed ns, e, False)
      | No_match \<Rightarrow> (No_match, e, True))"


section \<open>Reading a line\<close>

text \<open>\<open>at_hist\<close> is the place in the history (-1 is \<open>None\<close>), \<open>search\<close> the query of a reverse search
  while one is on.\<close>

record reader =
  edit :: edit_line
  at_hist :: "nat option"
  search :: "string option"
  tab_armed :: bool

definition new_reader :: reader where
  "new_reader = \<lparr>edit = \<lparr>l_text = [], l_cursor = 0, l_yank = []\<rparr>, at_hist = None, search = None, tab_armed = False\<rparr>"

datatype reading = Going reader | Entered string | Cancelled | Closed

definition set_line :: "string \<Rightarrow> edit_line \<Rightarrow> edit_line" where
  "set_line s e = (let l = strncpy_val s LINE_MAX in e\<lparr>l_text := l, l_cursor := length l\<rparr>)"

definition hist_up :: "msh \<Rightarrow> reader \<Rightarrow> reader" where
  "hist_up m r =
     (if hist m = [] then r
      else let p = (case at_hist r of None \<Rightarrow> length (hist m) - 1 | Some p \<Rightarrow> p - 1)
        in r\<lparr>at_hist := Some p, edit := set_line (hist m ! p) (edit r)\<rparr>)"

text \<open>Only under a hosted console does the key empty the line when no history entry is shown.\<close>

definition hist_down :: "msh \<Rightarrow> bool \<Rightarrow> reader \<Rightarrow> reader" where
  "hist_down m hosted r =
     (case at_hist r of
        None \<Rightarrow> if hosted then r\<lparr>edit := set_line [] (edit r)\<rparr> else r
      | Some p \<Rightarrow>
        if p + 1 \<ge> length (hist m) then r\<lparr>at_hist := None, edit := set_line [] (edit r)\<rparr>
        else r\<lparr>at_hist := Some (p + 1), edit := set_line (hist m ! (p + 1)) (edit r)\<rparr>)"

definition tab_key :: "dirlist \<Rightarrow> reader \<Rightarrow> reader" where
  "tab_key ls r = (case do_tab ls (tab_armed r) (edit r) of (_, e, armed) \<Rightarrow> r\<lparr>edit := e, tab_armed := armed\<rparr>)"

text \<open>The newest entry that has the query somewhere in it.\<close>

definition has_query :: "string \<Rightarrow> string \<Rightarrow> bool" where
  "has_query q h \<longleftrightarrow> q = [] \<or> list_ex (\<lambda>j. match_prefix (drop j h) q (length q)) [0..<length h]"

definition search_key :: "msh \<Rightarrow> int \<Rightarrow> string \<Rightarrow> reader \<Rightarrow> reading" where
  "search_key m key q r =
     (if key = 3 \<or> key = 7 then Cancelled
      else if key = 10 \<or> key = 13 then Entered (l_text (edit r))
      else
        let erase = key = 8 \<or> key = 127; typed = 32 \<le> key \<and> key < 256 \<and> length q + 1 < 64 in
        if \<not> erase \<and> \<not> typed \<and> key \<noteq> 18 then Going r
        else
          let q = (if erase then butlast q else if typed then q @ [char_of (nat key)] else q);
              s = (case find (has_query q) (rev (hist m)) of Some h \<Rightarrow> h | None \<Rightarrow> [])
          in Going (r\<lparr>search := Some q, edit := set_line s (edit r)\<rparr>))"

definition plain_key :: "msh \<Rightarrow> dirlist \<Rightarrow> int \<Rightarrow> reader \<Rightarrow> reading" where
  "plain_key m ls key r =
     (if key = 18 then Going (r\<lparr>search := Some []\<rparr>)
      else if key = 3 then Cancelled
      else if key = 4 then (if l_text (edit r) = [] then Closed else Going r)
      else if key = 12 then Going r
      else if key = 10 \<or> key = 13 then Entered (l_text (edit r))
      else if key = 9 then Going (tab_key ls r)
      else
        let r = r\<lparr>tab_armed := False\<rparr> in
        if key = 0x100 then Going (hist_up m r)
        else if key = 0x101 then Going (hist_down m False r)
        else Going (r\<lparr>edit := line_key key (edit r)\<rparr>))"

text \<open>The shorter list of keys of a shell whose console another program hosts.\<close>

definition hosted_key :: "msh \<Rightarrow> dirlist \<Rightarrow> int \<Rightarrow> reader \<Rightarrow> reading" where
  "hosted_key m ls key r =
     (if key = 3 then Cancelled
      else if key = 10 \<or> key = 13 then Entered (l_text (edit r))
      else if key = 8 \<or> key = 127 \<or> key = 0x102 \<or> key = 0x103 \<or> key = 0x104 \<or> key = 0x105 \<or> key = 0x106
      then Going (r\<lparr>edit := line_key key (edit r)\<rparr>)
      else if key = 0x100 then Going (hist_up m r)
      else if key = 0x101 then Going (hist_down m True r)
      else if key = 9 then Going (tab_key ls r)
      else
        let r = r\<lparr>tab_armed := False\<rparr> in
        if 32 \<le> key \<and> key < 256 then Going (r\<lparr>edit := type_key (char_of (nat key)) (edit r)\<rparr>) else Going r)"

definition read_key :: "msh \<Rightarrow> dirlist \<Rightarrow> bool \<Rightarrow> int \<Rightarrow> reader \<Rightarrow> reading" where
  "read_key m ls hosted key r =
     (if hosted then hosted_key m ls key r
      else case search r of Some q \<Rightarrow> search_key m key q r | None \<Rightarrow> plain_key m ls key r)"

text \<open>The loop over the keys that come in, and the keys left over when a line is complete.\<close>

primrec readline :: "msh \<Rightarrow> dirlist \<Rightarrow> bool \<Rightarrow> int list \<Rightarrow> reader \<Rightarrow> reading \<times> int list" where
  "readline m ls hosted [] r = (Going r, [])"
| "readline m ls hosted (k # ks) r =
     (case read_key m ls hosted k r of Going r' \<Rightarrow> readline m ls hosted ks r' | res \<Rightarrow> (res, ks))"

end
