(* ===== verification/Wentry.thy ===== *)
theory Wentry
  imports Prelude "HOL-Library.Signed_Division"
begin

text \<open>
  The text field of the widget library (user/guic/wentry.c, with the focus and hit test of widget.c): its buffer edited in
  place, the cursor, the scroll position and the keyboard and mouse handlers. Drawing and colours are left out, and the
  buffer pointer is never null.
\<close>

section \<open>The widget\<close>

definition WENTRY_LINE_H :: int where "WENTRY_LINE_H = 12"
definition WENTRY_PAD :: int where "WENTRY_PAD = 4"
definition WENTRY_CHAR_W :: int where "WENTRY_CHAR_W = 8"

record widget =
  w_id :: nat
  w_ax :: int
  w_ay :: int
  w_aw :: int
  w_ah :: int
  w_visible :: bool

text \<open>The text field; \<open>e_buf\<close> is the caller's buffer. Colours are left out.\<close>

record wentry = widget +
  e_buf :: string
  e_cap :: nat
  e_len :: nat
  e_cursor :: nat
  e_scroll :: int
  e_multiline :: bool
  e_flat :: bool
  e_readonly :: bool
  e_focused :: bool
  e_changed :: bool
  e_view_dirty :: bool

text \<open>The global \<^verbatim>\<open>g_focus\<close>: the widget that has the focus.\<close>

type_synonym focus = "nat option"

definition widget_has_focus :: "focus \<Rightarrow> 'a widget_scheme \<Rightarrow> bool" where
  "widget_has_focus g w \<longleftrightarrow> g = Some (w_id w)"

definition widget_hit :: "'a widget_scheme \<Rightarrow> int \<Rightarrow> int \<Rightarrow> bool" where
  "widget_hit w mx my \<longleftrightarrow> w_visible w \<and> mx \<ge> w_ax w \<and> my \<ge> w_ay w \<and> mx < w_ax w + w_aw w \<and> my < w_ay w + w_ah w"

definition clampi :: "int \<Rightarrow> int \<Rightarrow> int \<Rightarrow> int" where
  "clampi v lo hi = (if v < lo then lo else if v > hi then hi else v)"

definition mark_view :: "wentry \<Rightarrow> wentry" where "mark_view e = e\<lparr>e_view_dirty := True\<rparr>"

definition mark_changed :: "wentry \<Rightarrow> wentry" where "mark_changed e = mark_view (e\<lparr>e_changed := True\<rparr>)"

section \<open>Lines\<close>

function line_start_loop :: "string \<Rightarrow> nat \<Rightarrow> nat \<Rightarrow> int \<Rightarrow> int \<Rightarrow> nat" where
  "line_start_loop buf len i cur line =
     (if i < len then
        if buf ! i = newline then if cur + 1 = line then i + 1 else line_start_loop buf len (i + 1) (cur + 1) line
        else line_start_loop buf len (i + 1) cur line
      else len)"
  by pat_completeness auto
termination by (relation "measure (\<lambda>(buf, len, i, cur, line). len - i)") auto

declare line_start_loop.simps [simp del]

definition line_start :: "wentry \<Rightarrow> int \<Rightarrow> nat" where
  "line_start e line = (if line \<le> 0 then 0 else line_start_loop (e_buf e) (e_len e) 0 0 line)"

definition cursor_rowcol :: "wentry \<Rightarrow> nat \<times> nat" where
  "cursor_rowcol e =
     fold (\<lambda>i (r, c). if e_buf e ! i = newline then (r + 1, 0) else (r, c + 1)) [0..<min (e_cursor e) (e_len e)] (0, 0)"

definition wentry_line_count :: "wentry \<Rightarrow> int" where
  "wentry_line_count e =
     (if e_len e = 0 then 1 else fold (\<lambda>i n. if e_buf e ! i = newline then n + 1 else n) [0..<e_len e] 1)"

definition wentry_vis_rows :: "wentry \<Rightarrow> int" where
  "wentry_vis_rows e =
     (let h = w_ah e - WENTRY_PAD * 2 in
      if h < WENTRY_LINE_H then 1 else let rows = h sdiv WENTRY_LINE_H in if rows < 1 then 1 else rows)"

definition wentry_vis_cols :: "wentry \<Rightarrow> int" where
  "wentry_vis_cols e = (let cols = (w_aw e - WENTRY_PAD * 2) sdiv WENTRY_CHAR_W in if cols < 1 then 1 else cols)"

definition max_scroll :: "wentry \<Rightarrow> int" where
  "max_scroll e = (let maxs = wentry_line_count e - wentry_vis_rows e in if maxs < 0 then 0 else maxs)"

definition wentry_ensure_cursor_visible :: "wentry \<Rightarrow> wentry" where
  "wentry_ensure_cursor_visible e =
     (let (row, col) = cursor_rowcol e in
      if e_multiline e then
        let vis = wentry_vis_rows e;
            s = (if int row < e_scroll e then int row else e_scroll e);
            s = (if int row \<ge> s + vis then int row - vis + 1 else s)
        in e\<lparr>e_scroll := clampi s 0 (max_scroll e)\<rparr>
      else
        let vis = wentry_vis_cols e;
            s = (if int col < e_scroll e then int col else e_scroll e);
            s = (if int col \<ge> s + vis then int col - vis + 1 else s)
        in e\<lparr>e_scroll := (if s < 0 then 0 else s)\<rparr>)"

section \<open>Editing\<close>

definition insert_char :: "char \<Rightarrow> wentry \<Rightarrow> wentry" where
  "insert_char ch e =
     (if e_len e + 1 \<ge> e_cap e then e
      else if \<not> e_multiline e \<and> ch = newline then e
      else let buf = fold (\<lambda>i b. b[i := b ! (i - 1)]) (rev [Suc (e_cursor e)..<Suc (e_len e)]) (e_buf e);
               buf = buf[e_cursor e := ch];
               e = e\<lparr>e_cursor := e_cursor e + 1, e_len := e_len e + 1, e_buf := buf[e_len e + 1 := NUL]\<rparr>
           in wentry_ensure_cursor_visible (mark_changed e))"

definition delete_back :: "wentry \<Rightarrow> wentry" where
  "delete_back e =
     (if e_cursor e = 0 then e
      else let cur = e_cursor e - 1;
               buf = fold (\<lambda>i b. b[i := b ! (i + 1)]) [cur..<e_len e] (e_buf e);
               e = e\<lparr>e_cursor := cur, e_len := e_len e - 1, e_buf := buf[e_len e - 1 := NUL]\<rparr>
           in wentry_ensure_cursor_visible (mark_changed e))"

definition move_left :: "wentry \<Rightarrow> wentry" where
  "move_left e =
     wentry_ensure_cursor_visible (mark_view (if 0 < e_cursor e then e\<lparr>e_cursor := e_cursor e - 1\<rparr> else e))"

definition move_right :: "wentry \<Rightarrow> wentry" where
  "move_right e =
     wentry_ensure_cursor_visible (mark_view (if e_cursor e < e_len e then e\<lparr>e_cursor := e_cursor e + 1\<rparr> else e))"

text \<open>The walk along a line to the column, the line's end or the text's.\<close>

function to_col :: "string \<Rightarrow> nat \<Rightarrow> int \<Rightarrow> nat \<Rightarrow> int \<Rightarrow> nat" where
  "to_col buf len col i c =
     (if i < len \<and> buf ! i \<noteq> newline \<and> c < col then to_col buf len col (i + 1) (c + 1) else i)"
  by pat_completeness auto
termination by (relation "measure (\<lambda>(buf, len, col, i, c). len - i)") auto

declare to_col.simps [simp del]

definition move_to :: "int \<Rightarrow> int \<Rightarrow> wentry \<Rightarrow> wentry" where
  "move_to row col e = e\<lparr>e_cursor := to_col (e_buf e) (e_len e) col (line_start e row) 0\<rparr>"

definition move_up :: "wentry \<Rightarrow> wentry" where
  "move_up e =
     (if \<not> e_multiline e then e
      else let (row, col) = cursor_rowcol e
           in if row = 0 then e else wentry_ensure_cursor_visible (mark_view (move_to (int row - 1) (int col) e)))"

definition move_down :: "wentry \<Rightarrow> wentry" where
  "move_down e =
     (if \<not> e_multiline e then e
      else let (row, col) = cursor_rowcol e
           in if int row + 1 \<ge> wentry_line_count e then e
              else wentry_ensure_cursor_visible (mark_view (move_to (int row + 1) (int col) e)))"

definition wentry_key :: "focus \<Rightarrow> int \<Rightarrow> wentry \<Rightarrow> wentry" where
  "wentry_key g key e =
     (if e_readonly e \<or> \<not> widget_has_focus g e then e
      else let e = e\<lparr>e_focused := True\<rparr> in
        if key = 8 \<or> key = 127 then delete_back e
        else if key = 0x100 then move_up e
        else if key = 0x101 then move_down e
        else if key = 0x102 then move_left e
        else if key = 0x103 then move_right e
        else if key = 13 \<or> key = 10 then (if e_multiline e then insert_char newline e else e)
        else if key = 9 then (insert_char (CHR '' '') ^^ 4) e
        else if key \<ge> 32 \<and> key < 127 then insert_char (char_of (nat key)) e
        else e)"

section \<open>The rest of the interface\<close>

definition wentry_init :: "nat \<Rightarrow> string \<Rightarrow> int \<Rightarrow> bool \<Rightarrow> wentry" where
  "wentry_init i buf cap multi =
     \<lparr>w_id = i, w_ax = 0, w_ay = 0, w_aw = 1, w_ah = 1, w_visible = True, e_buf = buf[0 := NUL],
      e_cap = (if cap > 1 then nat cap else 1), e_len = 0, e_cursor = 0, e_scroll = 0, e_multiline = multi, e_flat = False,
      e_readonly = False, e_focused = False, e_changed = False, e_view_dirty = True\<rparr>"

function set_text_loop :: "string \<Rightarrow> nat \<Rightarrow> nat \<Rightarrow> string \<Rightarrow> nat \<times> string" where
  "set_text_loop s cap i buf =
     (if i < length s \<and> cget s i \<noteq> NUL \<and> i + 1 < cap then set_text_loop s cap (i + 1) (buf[i := cget s i]) else (i, buf))"
  by pat_completeness auto
termination by (relation "measure (\<lambda>(s, cap, i, buf). length s - i)") auto

declare set_text_loop.simps [simp del]

definition wentry_set_text :: "string \<Rightarrow> wentry \<Rightarrow> wentry" where
  "wentry_set_text s e =
     (if e_cap e < 2 then e
      else let (i, buf) = set_text_loop s (e_cap e) 0 (e_buf e)
           in mark_view (e\<lparr>e_buf := buf[i := NUL], e_len := i, e_cursor := i, e_scroll := 0, e_changed := False\<rparr>))"

definition wentry_set_cursor :: "int \<Rightarrow> wentry \<Rightarrow> wentry" where
  "wentry_set_cursor pos e =
     (let pos = (if pos < 0 then 0 else pos); pos = (if pos > int (e_len e) then int (e_len e) else pos)
      in mark_view (wentry_ensure_cursor_visible (e\<lparr>e_cursor := nat pos\<rparr>)))"

definition wentry_text :: "wentry \<Rightarrow> string" where "wentry_text e = cstr (e_buf e)"

definition wentry_set_scroll :: "int \<Rightarrow> wentry \<Rightarrow> wentry" where
  "wentry_set_scroll scroll e =
     mark_view (e\<lparr>e_scroll := (if e_multiline e then clampi scroll 0 (max_scroll e) else if scroll < 0 then 0 else scroll)\<rparr>)"

definition wentry_scroll_to_end :: "wentry \<Rightarrow> wentry" where
  "wentry_scroll_to_end e = (if \<not> e_multiline e then e else mark_view (e\<lparr>e_scroll := max_scroll e\<rparr>))"

definition wentry_set_focused :: "bool \<Rightarrow> focus \<times> wentry \<Rightarrow> focus \<times> wentry" where
  "wentry_set_focused on = (\<lambda>(g, e).
     (if on then Some (w_id e) else if widget_has_focus g e then None else g, mark_view (e\<lparr>e_focused := on\<rparr>)))"

definition wentry_set_readonly :: "bool \<Rightarrow> focus \<times> wentry \<Rightarrow> focus \<times> wentry" where
  "wentry_set_readonly on = (\<lambda>(g, e).
     (if on \<and> widget_has_focus g e then None else g,
      mark_view (e\<lparr>e_readonly := on, e_focused := (if on then False else e_focused e)\<rparr>)))"

text \<open>A click: the cursor goes to the character under the pointer.\<close>

definition wentry_input :: "int \<Rightarrow> int \<Rightarrow> int \<Rightarrow> focus \<times> wentry \<Rightarrow> focus \<times> wentry" where
  "wentry_input mx my buttons = (\<lambda>(g, e).
     if \<not> w_visible e \<or> buttons AND 1 = 0 \<or> \<not> widget_hit e mx my then (g, e)
     else
       let (g, e) = (if e_readonly e then (g, e) else (Some (w_id e), e\<lparr>e_focused := True\<rparr>));
           cx = w_ax e + WENTRY_PAD; cy = w_ay e + WENTRY_PAD;
           e = (if e_multiline e then
                  let row = (my - cy) sdiv WENTRY_LINE_H; row = (if row < 0 then 0 else row);
                      row = (if row \<ge> wentry_vis_rows e then wentry_vis_rows e - 1 else row) + e_scroll e;
                      col = (mx - cx) sdiv WENTRY_CHAR_W; col = (if col < 0 then 0 else col)
                  in if e_readonly e then e else move_to row col e
                else
                  let col = e_scroll e + (mx - cx) sdiv WENTRY_CHAR_W; col = (if col < 0 then 0 else col);
                      col = (if col > int (e_len e) then int (e_len e) else col)
                  in if e_readonly e then e else e\<lparr>e_cursor := nat col\<rparr>);
           e = mark_view e
       in (g, if e_readonly e then e else wentry_ensure_cursor_visible e))"

end
