(* ===== verification/Term.thy ===== *)
theory Term
  imports Msh Wentry
begin

text \<open>
  The terminal around the shell: what a hosted shell writes for each key (\<^verbatim>\<open>user/shell/msh.c\<close>), the session that reads it
  (\<^verbatim>\<open>user/gui/termrun.c\<close>) and the window that shows it in a text widget (\<^verbatim>\<open>user/gui/gterm.c\<close>). What the
  kernel answers to each call is an argument.
\<close>

section \<open>What a hosted shell writes\<close>

text \<open>The echo of the line: the old one is rubbed out, the new one written, and byte 6 with a column moves the caret.\<close>

definition rub_out :: "nat \<Rightarrow> string" where
  "rub_out n = concat (replicate n [CHR 0x08, CHR '' '', CHR 0x08])"

definition hosted_repaint :: "nat \<Rightarrow> nat \<Rightarrow> edit_line \<Rightarrow> string" where
  "hosted_repaint shown prompt_len e =
     rub_out shown @ l_text e @ [CHR 0x06, char_of (min 255 (prompt_len + l_cursor e))]"

definition hosted_commit_echo :: "nat \<Rightarrow> edit_line \<Rightarrow> string" where
  "hosted_commit_echo shown e = rub_out shown @ l_text e"

definition list_text :: "string list \<Rightarrow> string" where
  "list_text ns = [newline] @ concat (map (\<lambda>n. n @ ''  '') ns) @ [newline]"

text \<open>The bytes written for one key, and what is now shown of the line.\<close>

definition hosted_echo :: "msh \<Rightarrow> dirlist \<Rightarrow> string \<Rightarrow> int \<Rightarrow> nat \<Rightarrow> reader \<Rightarrow> string \<times> nat" where
  "hosted_echo m ls prompt key shown r =
     (let e = edit r; c = l_cursor e; n = length (l_text e); plen = length prompt;
          paint = (case hosted_key m ls key r of
                     Going r' \<Rightarrow> (hosted_repaint shown plen (edit r'), length (l_text (edit r'))) | _ \<Rightarrow> ([], shown))
      in if key = 3 then (''^C'' @ [newline], shown)
         else if key = 10 \<or> key = 13 then (hosted_commit_echo shown e @ [newline], shown)
         else if key = 8 \<or> key = 127 \<or> key = 0x102 then (if 0 < c then paint else ([], shown))
         else if key = 0x103 \<or> key = 0x106 then (if c < n then paint else ([], shown))
         else if key = 0x104 then (if c \<noteq> 0 then paint else ([], shown))
         else if key = 0x105 then (if c \<noteq> n then paint else ([], shown))
         else if key = 0x100 then (if hist m \<noteq> [] then paint else ([], shown))
         else if key = 0x101 then paint
         else if key = 9 then
           (case do_tab ls (tab_armed r) e of
              (Listed ns, e', _) \<Rightarrow> (list_text ns @ prompt @ hosted_repaint 0 plen e', length (l_text e'))
            | (Unique _, _, _) \<Rightarrow> paint
            | (No_match, _, _) \<Rightarrow> ([], shown))
         else if 32 \<le> key \<and> key < 256 \<and> n + 1 < LINE_MAX then paint
         else ([], shown))"

section \<open>What a terminal makes of it\<close>

text \<open>The line being built, the caret, and the lines handed over.\<close>

record tscreen =
  acc :: string
  caret :: nat
  rows :: "string list"

text \<open>One read of the console, for an \<open>acc\<close> of \<open>accmax\<close> bytes.\<close>

fun flush_chunk :: "nat \<Rightarrow> string \<Rightarrow> tscreen \<Rightarrow> tscreen" where
  "flush_chunk accmax [] s = s"
| "flush_chunk accmax (c # cs) s =
     (if c = CHR 0x06 then
        (case cs of [] \<Rightarrow> s | d # ds \<Rightarrow> flush_chunk accmax ds (s\<lparr>caret := of_char d\<rparr>))
      else if c = CHR 0x0D then flush_chunk accmax cs (s\<lparr>acc := [], caret := 0\<rparr>)
      else if c = CHR 0x08 \<or> c = CHR 0x7F then flush_chunk accmax cs (s\<lparr>acc := butlast (acc s)\<rparr>)
      else if c = newline then flush_chunk accmax cs (s\<lparr>acc := [], caret := 0, rows := rows s @ [acc s]\<rparr>)
      else if length (acc s) + 1 < accmax then flush_chunk accmax cs (s\<lparr>acc := acc s @ [c]\<rparr>)
      else flush_chunk accmax cs s)"

text \<open>The reads until one gives nothing; whether there was one.\<close>

definition flush_cons :: "nat \<Rightarrow> string list \<Rightarrow> tscreen \<Rightarrow> bool \<times> tscreen" where
  "flush_cons accmax chunks s = (chunks \<noteq> [], fold (flush_chunk accmax) chunks s)"

definition ACC_MAX :: nat where "ACC_MAX = 96"

record session =
  s_pid :: int
  s_acc :: string
  s_caret :: nat
  s_alive :: bool
  s_painted :: bool

text \<open>What the kernel answers during one pump: the wait, the status it stores (0 where it stores none), the console reads.\<close>

record pump_reply =
  r_wait :: int
  r_status :: int
  r_chunks :: "string list"

definition term_session_start :: "bool \<Rightarrow> int \<Rightarrow> session \<Rightarrow> int \<times> session" where
  "term_session_start path_exists spawned s =
     (let s = s\<lparr>s_pid := -1, s_acc := [], s_caret := 0, s_alive := False, s_painted := False\<rparr> in
      if \<not> path_exists then (-1, s)
      else let s = s\<lparr>s_pid := spawned\<rparr> in
        if spawned < 0 then (-1, s) else (0, s\<lparr>s_alive := True\<rparr>))"

text \<open>Whether the program still runs, and the lines it completed. The key goes to the console of the process and to its window.\<close>

definition term_session_pump :: "pump_reply \<Rightarrow> session \<Rightarrow> bool \<times> session \<times> string list" where
  "term_session_pump rep s =
     (if \<not> s_alive s \<or> s_pid s < 0 then (False, s, [])
      else
        let (changed, t) = flush_cons ACC_MAX (r_chunks rep) \<lparr>acc = s_acc s, caret = s_caret s, rows = []\<rparr>;
            s = s\<lparr>s_acc := acc t, s_caret := caret t, s_painted := changed\<rparr>
        in if r_wait rep = -2 \<or> r_status rep = -2 \<or> r_wait rep < 0 then (True, s\<lparr>s_alive := True\<rparr>, rows t)
           else let last_row = (if acc t = [] then [] else [acc t]);
                    s = (if acc t = [] then s else s\<lparr>s_acc := [], s_painted := True\<rparr>)
             in (False, s\<lparr>s_alive := False, s_pid := -1\<rparr>, rows t @ last_row))"

definition pump_key :: "int \<Rightarrow> session \<Rightarrow> int option" where
  "pump_key key s = (if s_alive s \<and> 0 \<le> s_pid s \<and> 0 \<le> key then Some key else None)"

definition term_session_live :: "session \<Rightarrow> string" where
  "term_session_live s = cstr (s_acc s)"

definition term_session_caret :: "session \<Rightarrow> nat" where
  "term_session_caret s = (if s_caret s > length (s_acc s) then length (s_acc s) else s_caret s)"

text \<open>The session given up, and the process to kill.\<close>

definition term_session_stop :: "session \<Rightarrow> session \<times> int option" where
  "term_session_stop s =
     (s\<lparr>s_alive := False, s_pid := -1, s_acc := [], s_caret := 0, s_painted := False\<rparr>, if s_pid s < 0 then None else Some (s_pid s))"

section \<open>The terminal window\<close>

definition TERM_ROWS :: nat where "TERM_ROWS = 56"
definition TERM_LINE :: nat where "TERM_LINE = 124"
definition TERM_BUF :: nat where "TERM_BUF = 8192"

datatype term_mode = MODE_PROMPT | MODE_RUN | MODE_DONE

record gterm =
  g_lines :: "string list"
  g_input :: string
  g_live :: string
  g_title :: string
  g_mode :: term_mode
  g_sess :: session
  g_quiet :: bool
  g_entry :: wentry
  g_focus :: focus
  g_cols :: nat

definition set_title_prog :: "string \<Rightarrow> gterm \<Rightarrow> gterm" where
  "set_title_prog path g =
     (let base = rev (takeWhile (\<lambda>c. c \<noteq> slash) (rev path))
      in g\<lparr>g_title := (if base \<noteq> [] then ''gterm - '' @ strncpy_val base (48 - 8) else ''gterm'')\<rparr>)"

text \<open>The columns a typed command may take, after the layout of the window.\<close>

definition term_cols :: "wentry \<Rightarrow> nat" where
  "term_cols e = (let c = wentry_vis_cols e; c = (if c > int TERM_LINE - 3 then int TERM_LINE - 3 else c) in nat (if c < 8 then 8 else c))"

text \<open>A line added to the text of the window: a line break goes before it unless the text is empty.\<close>

definition add_row :: "string \<Rightarrow> string \<Rightarrow> string" where
  "add_row t r = (if t \<noteq> [] then t @ [newline] else t) @ r"

primrec rows_loop :: "string list \<Rightarrow> string \<Rightarrow> string" where
  "rows_loop [] t = t"
| "rows_loop (r # rs) t = (if length t + length r + 2 \<ge> TERM_BUF then t else rows_loop rs (add_row t r))"

definition live_row :: "string \<Rightarrow> string \<Rightarrow> string \<times> nat option" where
  "live_row t r =
     (if length t + length r + 2 < TERM_BUF then (add_row t r, Some (if t \<noteq> [] then length t + 1 else length t)) else (t, None))"

definition prompt_text :: "gterm \<Rightarrow> string" where
  "prompt_text g = ''} '' @ strncpy_val (g_input g) (TERM_LINE - 2)"

definition window_text :: "gterm \<Rightarrow> string \<times> nat option" where
  "window_text g =
     (let t = rows_loop (g_lines g) [];
          (t, off) = (if g_mode g = MODE_RUN \<and> g_live g \<noteq> [] then live_row t (g_live g)
                      else if g_mode g = MODE_PROMPT then live_row t (prompt_text g) else (t, None));
          t = (if g_mode g = MODE_RUN \<and> g_live g = [] \<and> t \<noteq> [] \<and> length t + 1 < TERM_BUF \<and> last t \<noteq> newline then t @ [newline] else t)
      in (t, off))"

definition focus_entry :: "gterm \<Rightarrow> gterm" where
  "focus_entry g = (case wentry_set_focused True (g_focus g, g_entry g) of (f, e) \<Rightarrow> g\<lparr>g_focus := f, g_entry := e\<rparr>)"

definition rebuild_entry :: "gterm \<Rightarrow> gterm" where
  "rebuild_entry g =
     (let (t, off) = window_text g; g = g\<lparr>g_entry := wentry_scroll_to_end (wentry_set_text t (g_entry g))\<rparr> in
      if g_mode g = MODE_RUN \<and> off \<noteq> None then
        let c = term_session_caret (g_sess g); l = length (g_live g); c = (if c > l then l else c)
        in focus_entry (g\<lparr>g_entry := wentry_set_cursor (int (the off + c)) (g_entry g)\<rparr>)
      else if g_mode g = MODE_PROMPT then
        let g = (case off of None \<Rightarrow> g
                 | Some o' \<Rightarrow> g\<lparr>g_entry := wentry_set_cursor (int (o' + 2 + length (g_input g))) (g_entry g)\<rparr>)
        in focus_entry g
      else g)"

definition push_row :: "string \<Rightarrow> string list \<Rightarrow> string list" where
  "push_row s ls = (if length ls \<ge> TERM_ROWS then tl ls else ls) @ [strncpy_val s TERM_LINE]"

definition push_line :: "string \<Rightarrow> gterm \<Rightarrow> gterm" where
  "push_line s g = rebuild_entry (g\<lparr>g_lines := push_row s (g_lines g), g_live := []\<rparr>)"

text \<open>Up to \<open>n\<close> pumps, the \<open>i\<close>-th answered by \<open>reps i\<close>: whether the program ended, whether something changed.\<close>

primrec drain_loop :: "nat \<Rightarrow> nat \<Rightarrow> (nat \<Rightarrow> pump_reply) \<Rightarrow> bool \<Rightarrow> gterm \<Rightarrow> bool \<times> bool \<times> gterm" where
  "drain_loop 0 i reps changed g = (False, changed, g)"
| "drain_loop (Suc n) i reps changed g =
     (case term_session_pump (reps i) (g_sess g) of (running, s, rws) \<Rightarrow>
        let g = fold push_line rws (g\<lparr>g_sess := s\<rparr>) in
        if \<not> running then
          (True, True, (push_line ''[process finished]'' (g\<lparr>g_live := []\<rparr>))\<lparr>g_mode := MODE_DONE, g_title := ''gterm''\<rparr>)
        else
          let g = g\<lparr>g_live := strncpy_val (term_session_live s) TERM_LINE\<rparr> in
          if s_painted s then drain_loop n (Suc i) reps True g else (False, changed, g))"

definition drain_child :: "(nat \<Rightarrow> pump_reply) \<Rightarrow> gterm \<Rightarrow> bool \<times> gterm" where
  "drain_child reps g =
     (case drain_loop 64 0 reps False g of (ended, changed, g') \<Rightarrow>
        if ended then (True, g')
        else let changed = (changed \<or> g_live g \<noteq> g_live g') in (changed, if changed then rebuild_entry g' else g'))"

definition resolve_exec :: "(string \<Rightarrow> bool) \<Rightarrow> string \<Rightarrow> string option" where
  "resolve_exec exists name =
     (let bin = ''/sys/bin/'' @ strncpy_val name (128 - 9); gui = ''/sys/gui/'' @ strncpy_val name (128 - 9) in
      if name = [] then None
      else if slash \<notin> set name \<and> exists bin then Some bin
      else if slash \<notin> set name \<and> length gui + 4 < 128 \<and> exists (gui @ ''.win'') then Some (gui @ ''.win'')
      else if slash \<notin> set name \<and> exists gui then Some gui
      else if exists name then Some (strncpy_val name 128)
      else None)"

definition prompt_again :: "gterm \<Rightarrow> gterm" where
  "prompt_again g = rebuild_entry (g\<lparr>g_mode := MODE_PROMPT\<rparr>)"

definition echo_command :: "gterm \<Rightarrow> gterm" where
  "echo_command g =
     (let g = g\<lparr>g_mode := MODE_RUN, g_live := []\<rparr>;
          g = (if \<not> g_quiet g then push_line (''} '' @ strncpy_val (g_input g) (TERM_LINE - 3)) g else rebuild_entry g)
      in g\<lparr>g_input := []\<rparr>)"

text \<open>What submitting a line asks of the kernel: the program, and the arguments left for it.\<close>

definition launch :: "(string \<Rightarrow> bool) \<Rightarrow> int \<Rightarrow> (nat \<Rightarrow> pump_reply) \<Rightarrow> string list \<Rightarrow> gterm \<Rightarrow> (string \<times> string) option \<times> gterm" where
  "launch exists spawned reps argv g =
     (if argv = [] then (None, prompt_again g)
      else case resolve_exec exists (hd argv) of
        None \<Rightarrow> (None, prompt_again (push_line ''not found'' g))
      | Some path \<Rightarrow>
        let (st, s) = term_session_start (exists path) spawned (g_sess g); asked = Some (path, join_args (tl argv) [])
        in if st \<noteq> 0 then (asked, prompt_again (push_line ''spawn failed'' (g\<lparr>g_sess := s\<rparr>)))
           else (asked, snd (drain_child reps (set_title_prog path (g\<lparr>g_sess := s\<rparr>)))))"

definition submit :: "(string \<Rightarrow> bool) \<Rightarrow> int \<Rightarrow> (nat \<Rightarrow> pump_reply) \<Rightarrow> gterm \<Rightarrow> (string \<times> string) option \<times> gterm" where
  "submit exists spawned reps g =
     (if g_mode g \<noteq> MODE_PROMPT \<or> g_input g = [] then (None, g)
      else launch exists spawned reps (split_args (strncpy_val (g_input g) TERM_LINE) 8) (echo_command g))"

datatype key_out = Quit_term | Fed int | Kill_child int | Next_event | Submitted "(string \<times> string) option"

definition gterm_key :: "(string \<Rightarrow> bool) \<Rightarrow> int \<Rightarrow> (nat \<Rightarrow> pump_reply) \<Rightarrow> int \<Rightarrow> gterm \<Rightarrow> key_out \<times> gterm" where
  "gterm_key exists spawned reps key g =
     (if key = 0x307 then (Quit_term, g)
      else if key = 27 then (if g_mode g = MODE_RUN then Fed 27 else Next_event, g)
      else if g_mode g = MODE_RUN then
        (if key = 3 then Kill_child (if s_pid (g_sess g) > 0 then s_pid (g_sess g) else -1)
         else if key = 13 then Fed 10 else Fed key, g)
      else if g_mode g \<noteq> MODE_PROMPT then (Next_event, g)
      else if key = 13 \<or> key = 10 then (case submit exists spawned reps g of (asked, g') \<Rightarrow> (Submitted asked, g'))
      else if key = 8 \<or> key = 127 then
        (Next_event, if g_input g \<noteq> [] then rebuild_entry (g\<lparr>g_input := butlast (g_input g)\<rparr>) else g)
      else if 32 \<le> key \<and> key < 127 \<and> length (g_input g) + 1 < g_cols g then
        (Next_event, rebuild_entry (g\<lparr>g_input := g_input g @ [char_of (nat key)]\<rparr>))
      else (Next_event, g))"

text \<open>The start of the program, with the argument it was given and the columns of its window.\<close>

definition gterm_start :: "string \<Rightarrow> nat \<Rightarrow> (string \<Rightarrow> bool) \<Rightarrow> int \<Rightarrow> (nat \<Rightarrow> pump_reply) \<Rightarrow> gterm" where
  "gterm_start argline cols exists spawned reps =
     (let e = wentry_init 0 (replicate TERM_BUF NUL) (int TERM_BUF) True;
          g = \<lparr>g_lines = [], g_input = [], g_live = [], g_title = ''gterm'', g_mode = MODE_PROMPT,
               g_sess = \<lparr>s_pid = 0, s_acc = [], s_caret = 0, s_alive = False, s_painted = False\<rparr>,
               g_quiet = False, g_entry = e\<lparr>e_flat := True, e_focused := True\<rparr>, g_focus = Some 0, g_cols = cols\<rparr>
      in if argline \<noteq> [] then
           (snd (submit exists spawned reps (g\<lparr>g_input := strncpy_val argline TERM_LINE, g_quiet := True\<rparr>)))\<lparr>g_quiet := False\<rparr>
         else push_line ''gterm - type an executable (bin name or path)'' g)"

end
