(* ===== verification/MM.thy ===== *)
theory MM
  imports KString
begin

text \<open>
  \<^verbatim>\<open>kernel/core/mm.c\<close>: the page bitmap of the kernel heap between \<^verbatim>\<open>KERNEL_HEAP_START\<close> and
  \<^verbatim>\<open>HEAP_END\<close>, the bump allocator behind it, and the flat memory itself (the kernel runs without
  paging, so a pointer is a 32-bit address). Page counts and indices are \<open>nat\<close>s that stand for
  \<^verbatim>\<open>size_t\<close> values.
\<close>

section \<open>State\<close>

definition PAGE_SIZE :: nat where
  "PAGE_SIZE = 4096"

definition KERNEL_HEAP_START :: u32 where
  "KERNEL_HEAP_START = 0x00400000"

definition HEAP_END :: u32 where
  "HEAP_END = 0x01000000"

definition PAGE_COUNT :: nat where
  "PAGE_COUNT = (unat HEAP_END - unat KERNEL_HEAP_START) div PAGE_SIZE"

record mm =
  mem :: memory
  page_bitmap :: "u8 list"
  kheap_ptr :: u32
  kheap_end :: u32

section \<open>Operations\<close>

definition bitmap_get :: "u8 list \<Rightarrow> nat \<Rightarrow> bool" where
  "bitmap_get bm i \<longleftrightarrow> drop_bit (i mod 8) (bm ! (i div 8)) AND 1 \<noteq> 0"

definition bitmap_set :: "u8 list \<Rightarrow> nat \<Rightarrow> bool \<Rightarrow> u8 list" where
  "bitmap_set bm i v =
     (if v then bm[i div 8 := bm ! (i div 8) OR push_bit (i mod 8) 1]
      else bm[i div 8 := bm ! (i div 8) AND NOT (push_bit (i mod 8) 1)])"

definition mm_init :: "memory \<Rightarrow> mm" where
  "mm_init m = \<lparr>mem = m, page_bitmap = replicate (PAGE_COUNT div 8 + 1) 0,
     kheap_ptr = HEAP_END, kheap_end = 0x02000000\<rparr>"

text \<open>The inner loop of the search: how many free pages follow \<open>j\<close>, at most \<open>n\<close>.\<close>

function alloc_run :: "u8 list \<Rightarrow> nat \<Rightarrow> nat \<Rightarrow> nat \<Rightarrow> nat" where
  "alloc_run bm j run n =
     (if j < PAGE_COUNT \<and> run < n then
        (if bitmap_get bm j then run else alloc_run bm (Suc j) (Suc run) n)
      else run)"
  by pat_completeness auto
termination
  by (relation "measure (\<lambda>(bm, j, run, n). PAGE_COUNT - j)") auto

function alloc_scan :: "u8 list \<Rightarrow> nat \<Rightarrow> nat \<Rightarrow> nat option" where
  "alloc_scan bm i n =
     (if i < PAGE_COUNT then
        (if bitmap_get bm i then alloc_scan bm (Suc i) n
         else if alloc_run bm i 0 n = n then Some i else alloc_scan bm (Suc i) n)
      else None)"
  by pat_completeness auto
termination
  by (relation "measure (\<lambda>(bm, i, n). PAGE_COUNT - i)") auto

declare alloc_run.simps [simp del] alloc_scan.simps [simp del]

fun set_pages :: "u8 list \<Rightarrow> nat \<Rightarrow> nat \<Rightarrow> u8 list" where
  "set_pages bm i 0 = bm"
| "set_pages bm i (Suc n) = set_pages (bitmap_set bm i True) (Suc i) n"

definition page_addr :: "nat \<Rightarrow> u32" where
  "page_addr i = KERNEL_HEAP_START + of_nat (i * PAGE_SIZE)"

text \<open>A null pointer is \<open>None\<close>.\<close>

definition mm_alloc_pages :: "nat \<Rightarrow> mm \<Rightarrow> u32 option \<times> mm" where
  "mm_alloc_pages n s =
     (if n = 0 then (None, s)
      else case alloc_scan (page_bitmap s) 0 n of
             None \<Rightarrow> (None, s)
           | Some i \<Rightarrow> (Some (page_addr i), s\<lparr>page_bitmap := set_pages (page_bitmap s) i n\<rparr>))"

fun clear_pages :: "u8 list \<Rightarrow> nat \<Rightarrow> nat \<Rightarrow> u8 list" where
  "clear_pages bm i 0 = bm"
| "clear_pages bm i (Suc n) =
     (if i < PAGE_COUNT then clear_pages (bitmap_set bm i False) (Suc i) n else bm)"

definition mm_free_pages :: "u32 \<Rightarrow> nat \<Rightarrow> mm \<Rightarrow> mm" where
  "mm_free_pages a n s =
     (if a < KERNEL_HEAP_START \<or> HEAP_END \<le> a then s
      else s\<lparr>mem := kmemset (mem s) a 0xA5 ((n * PAGE_SIZE) mod 2 ^ 32),
             page_bitmap := clear_pages (page_bitmap s)
               (unat (a - KERNEL_HEAP_START) div PAGE_SIZE) n\<rparr>)"

definition kmalloc :: "u32 \<Rightarrow> mm \<Rightarrow> u32 option \<times> mm" where
  "kmalloc n s =
     (let n = (n + 15) AND NOT 15
      in if kheap_end s < kheap_ptr s + n then (None, s)
         else (Some (kheap_ptr s), s\<lparr>kheap_ptr := kheap_ptr s + n\<rparr>))"

definition mm_phys_used :: "mm \<Rightarrow> u32" where
  "mm_phys_used s =
     of_nat (length (filter (bitmap_get (page_bitmap s)) [0..<PAGE_COUNT]) * PAGE_SIZE)"

section \<open>Abstraction and invariant\<close>

definition used_pages :: "mm \<Rightarrow> nat set" where
  "used_pages s = {i. i < PAGE_COUNT \<and> bitmap_get (page_bitmap s) i}"

definition mm_inv :: "mm \<Rightarrow> bool" where
  "mm_inv s \<longleftrightarrow> length (page_bitmap s) = PAGE_COUNT div 8 + 1"

definition free_run :: "mm \<Rightarrow> nat \<Rightarrow> nat \<Rightarrow> bool" where
  "free_run s i n \<longleftrightarrow> i + n \<le> PAGE_COUNT \<and> (\<forall>k. i \<le> k \<and> k < i + n \<longrightarrow> k \<notin> used_pages s)"

lemma PAGE_COUNT_val: "PAGE_COUNT = 3072"
  by (simp add: PAGE_COUNT_def HEAP_END_def KERNEL_HEAP_START_def PAGE_SIZE_def)

lemma bitmap_get_bit: "bitmap_get bm i \<longleftrightarrow> bit (bm ! (i div 8)) (i mod 8)"
  by (simp add: bitmap_get_def bit_iff_odd_drop_bit and_one_eq odd_iff_mod_2_eq_one)

lemma length_bitmap_set [simp]: "length (bitmap_set bm i v) = length bm"
  by (simp add: bitmap_set_def)

lemma bitmap_get_set:
  assumes "i div 8 < length bm"
  shows "bitmap_get (bitmap_set bm i v) k = (if k = i then v else bitmap_get bm k)"
proof (cases "k div 8 = i div 8")
  case True
  then have "k = i \<longleftrightarrow> k mod 8 = i mod 8"
    by (metis div_mult_mod_eq)
  with True assms show ?thesis
    by (auto simp: bitmap_get_bit bitmap_set_def bit_simps)
next
  case False
  then have "k \<noteq> i" by auto
  with False show ?thesis
    by (simp add: bitmap_get_bit bitmap_set_def)
qed

lemma length_set_pages [simp]: "length (set_pages bm i n) = length bm"
  by (induction bm i n rule: set_pages.induct) auto

lemma length_clear_pages [simp]: "length (clear_pages bm i n) = length bm"
  by (induction bm i n rule: clear_pages.induct) auto

lemma bitmap_get_set_pages:
  "(i + n) div 8 < length bm \<Longrightarrow>
     bitmap_get (set_pages bm i n) k = (i \<le> k \<and> k < i + n \<or> bitmap_get bm k)"
proof (induction bm i n rule: set_pages.induct)
  case (2 bm i n)
  have "i div 8 \<le> (i + Suc n) div 8"
    by (rule div_le_mono) simp
  with 2 show ?case
    by (auto simp: bitmap_get_set)
qed auto

lemma bitmap_get_clear_pages:
  "length bm = PAGE_COUNT div 8 + 1 \<Longrightarrow>
     bitmap_get (clear_pages bm i n) k =
       (bitmap_get bm k \<and> \<not> (i \<le> k \<and> k < i + n \<and> k < PAGE_COUNT))"
proof (induction bm i n rule: clear_pages.induct)
  case (2 bm i n)
  have "i < PAGE_COUNT \<Longrightarrow> i div 8 < PAGE_COUNT div 8 + 1"
    by (simp add: PAGE_COUNT_val)
  with 2 show ?case
    by (auto simp: bitmap_get_set)
qed simp

text \<open>The inner loop finds \<open>n\<close> pages exactly when they are all free and in range.\<close>

lemma alloc_run_eq:
  "run \<le> n \<Longrightarrow> j \<le> PAGE_COUNT \<Longrightarrow> alloc_run bm j run n = n \<longleftrightarrow>
     j + (n - run) \<le> PAGE_COUNT \<and> (\<forall>k. j \<le> k \<and> k < j + (n - run) \<longrightarrow> \<not> bitmap_get bm k)"
proof (induction bm j run n rule: alloc_run.induct)
  case (1 bm j run n)
  note eq = alloc_run.simps [of bm j run n]
  consider (full) "run = n" | (out) "run < n" "j = PAGE_COUNT"
    | (used) "run < n" "j < PAGE_COUNT" "bitmap_get bm j"
    | (more) "run < n" "j < PAGE_COUNT" "\<not> bitmap_get bm j"
    using "1.prems" by linarith
  then show ?case
  proof cases
    case more
    then have "alloc_run bm j run n = n \<longleftrightarrow> alloc_run bm (Suc j) (Suc run) n = n"
      by (simp add: eq)
    also have "\<dots> \<longleftrightarrow> Suc j + (n - Suc run) \<le> PAGE_COUNT \<and>
        (\<forall>k. Suc j \<le> k \<and> k < Suc j + (n - Suc run) \<longrightarrow> \<not> bitmap_get bm k)"
      using more by (intro "1.IH") auto
    also have "Suc j + (n - Suc run) = j + (n - run)"
      using more by simp
    finally show ?thesis
      using more all_range_Suc [of j "j + (n - run)" "\<lambda>k. \<not> bitmap_get bm k"] by simp
  next
    case used
    then show ?thesis
      using all_range_Suc [of j "j + (n - run)" "\<lambda>k. \<not> bitmap_get bm k"] by (simp add: eq)
  qed (use "1.prems" in \<open>auto simp: alloc_run.simps\<close>)
qed

lemma not_free_run_used: "bitmap_get (page_bitmap s) i \<Longrightarrow> 0 < n \<Longrightarrow> \<not> free_run s i n"
  unfolding free_run_def used_pages_def by force

lemma alloc_run_free:
  "i < PAGE_COUNT \<Longrightarrow> alloc_run (page_bitmap s) i 0 n = n \<longleftrightarrow> free_run s i n"
  by (auto simp: alloc_run_eq free_run_def used_pages_def)

lemma alloc_scan_Some:
  "alloc_scan (page_bitmap s) i n = Some k \<Longrightarrow> 0 < n \<Longrightarrow>
     i \<le> k \<and> k < PAGE_COUNT \<and> free_run s k n \<and> (\<forall>j. i \<le> j \<and> j < k \<longrightarrow> \<not> free_run s j n)"
proof (induction "page_bitmap s" i n rule: alloc_scan.induct)
  case (1 i n)
  note eq = alloc_scan.simps [of "page_bitmap s" i n]
  from "1.prems" have i: "i < PAGE_COUNT"
    by (simp add: eq split: if_splits)
  have used: "bitmap_get (page_bitmap s) i \<Longrightarrow> \<not> free_run s i n"
    using i "1.prems" by (auto simp: free_run_def used_pages_def)
  show ?case
  proof (cases "free_run s i n")
    case True
    with i used "1.prems" show ?thesis
      by (auto simp: eq alloc_run_free split: if_splits)
  next
    case False
    with i "1.prems" have next_i: "alloc_scan (page_bitmap s) (Suc i) n = Some k"
      by (simp add: eq alloc_run_free split: if_splits)
    have "Suc i \<le> k \<and> k < PAGE_COUNT \<and> free_run s k n \<and>
        (\<forall>j. Suc i \<le> j \<and> j < k \<longrightarrow> \<not> free_run s j n)"
      using "1.hyps" [OF i] next_i "1.prems"(2) False i by (auto simp: alloc_run_free)
    with False show ?thesis
      by (metis Suc_leD le_antisym not_less_eq_eq)
  qed
qed

lemma alloc_scan_None:
  "alloc_scan (page_bitmap s) i n = None \<Longrightarrow> 0 < n \<Longrightarrow> i \<le> j \<Longrightarrow> \<not> free_run s j n"
proof (induction "page_bitmap s" i n rule: alloc_scan.induct)
  case (1 i n)
  note eq = alloc_scan.simps [of "page_bitmap s" i n]
  show ?case
  proof (cases "i < PAGE_COUNT")
    case True
    have used: "bitmap_get (page_bitmap s) i \<Longrightarrow> \<not> free_run s i n"
      using "1.prems" by (simp add: not_free_run_used)
    from True "1.prems" have step: "alloc_scan (page_bitmap s) (Suc i) n = None" "\<not> free_run s i n"
      using used by (auto simp: eq alloc_run_free split: if_splits)
    show ?thesis
    proof (cases "j = i")
      case False
      with "1.prems" have "Suc i \<le> j" by simp
      with True step show ?thesis
        using "1.hyps" "1.prems"(2) by (auto simp: alloc_run_free)
    qed (use step in simp)
  next
    case False
    with "1.prems" show ?thesis by (auto simp: free_run_def)
  qed
qed

section \<open>Addresses\<close>

lemma unat_page_addr: "i \<le> PAGE_COUNT \<Longrightarrow> unat (page_addr i) = unat KERNEL_HEAP_START + i * PAGE_SIZE"
  by (simp add: page_addr_def KERNEL_HEAP_START_def PAGE_COUNT_val PAGE_SIZE_def unat_word_ariths unat_of_nat)

lemma page_addr_range: "i < PAGE_COUNT \<Longrightarrow> KERNEL_HEAP_START \<le> page_addr i \<and> page_addr i < HEAP_END"
  using unat_page_addr [of i]
  by (simp add: word_le_nat_alt word_less_nat_alt KERNEL_HEAP_START_def HEAP_END_def PAGE_COUNT_val PAGE_SIZE_def)

lemma page_addr_index: "i < PAGE_COUNT \<Longrightarrow> unat (page_addr i - KERNEL_HEAP_START) div PAGE_SIZE = i"
  by (simp add: page_addr_def PAGE_COUNT_val PAGE_SIZE_def unat_of_nat unat_word_ariths)

lemma page_addr_inj:
  assumes "i \<le> PAGE_COUNT" and "j \<le> PAGE_COUNT"
  shows "page_addr i = page_addr j \<longleftrightarrow> i = j"
proof
  assume "page_addr i = page_addr j"
  then have "i * PAGE_SIZE = j * PAGE_SIZE"
    using unat_page_addr [OF assms(1)] unat_page_addr [OF assms(2)] by (metis add_left_cancel)
  then show "i = j" by (simp add: PAGE_SIZE_def)
qed simp

lemma in_region_pages:
  assumes "i + n \<le> PAGE_COUNT"
  shows "in_region (page_addr i) (n * PAGE_SIZE) x \<longleftrightarrow>
    unat KERNEL_HEAP_START + i * PAGE_SIZE \<le> unat x \<and> unat x < unat KERNEL_HEAP_START + (i + n) * PAGE_SIZE"
proof -
  have a: "unat (page_addr i) = unat KERNEL_HEAP_START + i * PAGE_SIZE"
    using assms by (simp add: unat_page_addr)
  show ?thesis
  proof (cases "page_addr i \<le> x")
    case True
    then show ?thesis
      using a by (auto simp: in_region_def unat_sub word_le_nat_alt algebra_simps)
  next
    case False
    then have lt: "unat x < unat (page_addr i)" by (simp add: word_le_nat_alt)
    then have "unat (x - page_addr i) = 2 ^ 32 + unat x - unat (page_addr i)"
      by (simp add: unat_sub_if_size word_size word_le_nat_alt)
    moreover have "n * PAGE_SIZE + unat (page_addr i) \<le> 2 ^ 32"
      using a assms by (simp add: KERNEL_HEAP_START_def PAGE_COUNT_val PAGE_SIZE_def)
    ultimately show ?thesis
      using lt a by (simp add: in_region_def)
  qed
qed

lemma disjoint_pages:
  assumes "i + n \<le> PAGE_COUNT" and "j + k \<le> PAGE_COUNT" and "{i..<i + n} \<inter> {j..<j + k} = {}"
  shows "disjoint_regions (page_addr i) (n * PAGE_SIZE) (page_addr j) (k * PAGE_SIZE)"
proof (cases "n = 0 \<or> k = 0")
  case True
  then show ?thesis by (auto simp: disjoint_regions_def in_region_def)
next
  case False
  have "i + n \<le> j \<or> j + k \<le> i"
  proof (rule ccontr)
    assume "\<not> (i + n \<le> j \<or> j + k \<le> i)"
    with False have "max i j \<in> {i..<i + n} \<inter> {j..<j + k}" by auto
    with assms(3) show False by blast
  qed
  then have "(i + n) * PAGE_SIZE \<le> j * PAGE_SIZE \<or> (j + k) * PAGE_SIZE \<le> i * PAGE_SIZE"
    by (auto intro: mult_le_mono1)
  then show ?thesis
    unfolding disjoint_regions_def in_region_pages [OF assms(1)] in_region_pages [OF assms(2)]
    by (intro allI) linarith
qed

section \<open>Allocation and release\<close>

lemma mm_alloc_Some:
  assumes inv: "mm_inv s" and al: "mm_alloc_pages n s = (Some p, s')"
  obtains i where "p = page_addr i" and "0 < n" and "i < PAGE_COUNT" and "free_run s i n"
    and "\<And>j. j < i \<Longrightarrow> \<not> free_run s j n"
    and "s' = s\<lparr>page_bitmap := set_pages (page_bitmap s) i n\<rparr>"
    and "used_pages s' = used_pages s \<union> {i..<i + n}"
proof -
  from al obtain i where n: "0 < n" and sc: "alloc_scan (page_bitmap s) 0 n = Some i"
    and p: "p = page_addr i" and s': "s' = s\<lparr>page_bitmap := set_pages (page_bitmap s) i n\<rparr>"
    by (auto simp: mm_alloc_pages_def split: if_splits option.splits)
  note scan = alloc_scan_Some [OF sc n]
  then have "(i + n) div 8 < length (page_bitmap s)"
    using inv by (auto simp: mm_inv_def free_run_def PAGE_COUNT_val)
  then have "used_pages s' = used_pages s \<union> {i..<i + n}"
    using scan by (auto simp: used_pages_def s' bitmap_get_set_pages free_run_def)
  with scan p n s' show ?thesis by (intro that) auto
qed

lemma mm_alloc_None:
  "mm_alloc_pages n s = (None, s') \<Longrightarrow> s' = s \<and> (n = 0 \<or> (\<forall>i. \<not> free_run s i n))"
  using alloc_scan_None [of s 0 n] by (auto simp: mm_alloc_pages_def split: if_splits option.splits)

lemma mm_alloc_frame [frame_simps]:
  "mem (snd (mm_alloc_pages n s)) = mem s"
  "kheap_ptr (snd (mm_alloc_pages n s)) = kheap_ptr s"
  "kheap_end (snd (mm_alloc_pages n s)) = kheap_end s"
  by (auto simp: mm_alloc_pages_def split: option.splits)

lemma mm_inv_alloc [inv_intros]: "mm_inv s \<Longrightarrow> mm_inv (snd (mm_alloc_pages n s))"
  by (auto simp: mm_alloc_pages_def mm_inv_def split: option.splits)

lemma mm_inv_free [inv_intros]: "mm_inv s \<Longrightarrow> mm_inv (mm_free_pages a n s)"
  by (auto simp: mm_free_pages_def mm_inv_def)

lemma mm_inv_init: "mm_inv (mm_init m)"
  by (simp add: mm_inv_def mm_init_def)

lemma used_pages_init: "used_pages (mm_init m) = {}"
  by (auto simp: used_pages_def mm_init_def bitmap_get_bit PAGE_COUNT_val)

lemma mm_free_used:
  "mm_inv s \<Longrightarrow> i < PAGE_COUNT \<Longrightarrow>
     used_pages (mm_free_pages (page_addr i) n s) = used_pages s - {i..<i + n}"
  using page_addr_range [of i] page_addr_index [of i]
  by (auto simp: mm_free_pages_def mm_inv_def used_pages_def bitmap_get_clear_pages)

lemma mm_free_mem:
  assumes "i + n \<le> PAGE_COUNT" and "i < PAGE_COUNT"
  shows "mem (mm_free_pages (page_addr i) n s) x =
    (if in_region (page_addr i) (n * PAGE_SIZE) x then 0xA5 else mem s x)"
proof -
  have "n * PAGE_SIZE < 2 ^ 32"
    using assms by (simp add: PAGE_COUNT_val PAGE_SIZE_def)
  with assms page_addr_range [of i] show ?thesis
    by (auto simp: mm_free_pages_def kmemset_apply)
qed

lemma mm_phys_used_card: "mm_phys_used s = of_nat (card (used_pages s) * PAGE_SIZE)"
proof -
  have "card (used_pages s) = card (set (filter (bitmap_get (page_bitmap s)) [0..<PAGE_COUNT]))"
    by (rule arg_cong [where f = card]) (auto simp: used_pages_def)
  also have "\<dots> = length (filter (bitmap_get (page_bitmap s)) [0..<PAGE_COUNT])"
    by (intro distinct_card distinct_filter distinct_upt)
  finally show ?thesis by (simp add: mm_phys_used_def)
qed

lemma used_pages_mem [simp]: "used_pages (m\<lparr>mem := M\<rparr>) = used_pages m"
  by (simp add: used_pages_def)

lemma mm_inv_mem [simp]: "mm_inv (m\<lparr>mem := M\<rparr>) = mm_inv m"
  by (simp add: mm_inv_def)

lemma mm_free_bitmap_mem: "page_bitmap (mm_free_pages a n (m\<lparr>mem := M\<rparr>)) = page_bitmap (mm_free_pages a n m)"
  by (simp add: mm_free_pages_def)

lemma used_pages_free_mem [simp]: "used_pages (mm_free_pages a n (m\<lparr>mem := M\<rparr>)) = used_pages (mm_free_pages a n m)"
  by (simp add: used_pages_def mm_free_bitmap_mem)

section \<open>The allocator as an interface\<close>

text \<open>
  What the file system and the process table rely on: pages handed out were free, pages given
  back become free, nothing else changes. A client that records which pages each of its holders
  has keeps them disjoint.
\<close>

definition disjoint_owners :: "('k \<Rightarrow> nat set) \<Rightarrow> nat set \<Rightarrow> bool" where
  "disjoint_owners own P \<longleftrightarrow>
     (\<forall>k. own k \<subseteq> P) \<and> (\<forall>k l. k \<noteq> l \<longrightarrow> own k \<inter> own l = {})"

lemma disjoint_owners_sub: "disjoint_owners own P \<Longrightarrow> own k \<subseteq> P"
  by (simp add: disjoint_owners_def)

lemma disjoint_owners_disj: "disjoint_owners own P \<Longrightarrow> k \<noteq> l \<Longrightarrow> own k \<inter> own l = {}"
  by (simp add: disjoint_owners_def)

lemma disjoint_owners_move:
  assumes own: "disjoint_owners own P" and new: "A \<inter> P = {}"
  shows "disjoint_owners (own(k := A)) ((P \<union> A) - own k)"
  unfolding disjoint_owners_def
proof (intro conjI allI impI)
  fix l
  show "(own(k := A)) l \<subseteq> (P \<union> A) - own k"
    using disjoint_owners_sub [OF own, of k] disjoint_owners_sub [OF own, of l]
      disjoint_owners_disj [OF own, of l k] new
    by (cases "l = k") auto
next
  fix l l' :: 'a assume "l \<noteq> l'"
  then show "(own(k := A)) l \<inter> (own(k := A)) l' = {}"
    using disjoint_owners_sub [OF own, of l] disjoint_owners_sub [OF own, of l']
      disjoint_owners_disj [OF own, of l l'] new
    by (cases "l = k"; cases "l' = k") auto
qed

lemma disjoint_owners_drop:
  "disjoint_owners own P \<Longrightarrow> disjoint_owners (own(k := {})) (P - own k)"
  using disjoint_owners_move [of own P "{}" k] by simp

locale page_allocator =
  fixes alloc :: "nat \<Rightarrow> 's \<Rightarrow> u32 option \<times> 's"
    and release :: "u32 \<Rightarrow> nat \<Rightarrow> 's \<Rightarrow> 's"
    and pages :: "'s \<Rightarrow> nat set"
    and addr :: "nat \<Rightarrow> u32"
    and limit :: nat
    and ok :: "'s \<Rightarrow> bool"
  assumes alloc_some: "ok s \<Longrightarrow> alloc n s = (Some p, s') \<Longrightarrow>
      \<exists>i. p = addr i \<and> 0 < n \<and> i + n \<le> limit \<and> {i..<i + n} \<inter> pages s = {} \<and>
          pages s' = pages s \<union> {i..<i + n}"
    and alloc_none: "alloc n s = (None, s') \<Longrightarrow> s' = s"
    and alloc_ok: "ok s \<Longrightarrow> ok (snd (alloc n s))"
    and release_pages: "ok s \<Longrightarrow> i < limit \<Longrightarrow> pages (release (addr i) n s) = pages s - {i..<i + n}"
    and release_ok: "ok s \<Longrightarrow> ok (release a n s)"
begin

lemma alloc_owner:
  assumes "ok s" and "disjoint_owners own (pages s)" and "alloc n s = (Some p, s')" and "own k = {}"
  shows "\<exists>i. p = addr i \<and> 0 < n \<and> i + n \<le> limit \<and> disjoint_owners (own(k := {i..<i + n})) (pages s')"
proof -
  obtain i where i: "p = addr i" "0 < n" "i + n \<le> limit" "{i..<i + n} \<inter> pages s = {}"
    "pages s' = pages s \<union> {i..<i + n}"
    using alloc_some [OF assms(1,3)] by blast
  then have "disjoint_owners (own(k := {i..<i + n})) (pages s')"
    using disjoint_owners_move [OF assms(2) i(4), of k] assms(4) by simp
  with i show ?thesis by blast
qed

lemma release_owner:
  assumes "ok s" and "disjoint_owners own (pages s)" and "i < limit" and "own k = {i..<i + n}"
  shows "disjoint_owners (own(k := {})) (pages (release (addr i) n s))"
  using release_pages [OF assms(1,3), of n] disjoint_owners_drop [OF assms(2), of k] assms(4) by simp

text \<open>Growing a holder: allocate the new pages, then give the old ones back.\<close>

lemma replace_owner:
  assumes "ok s" and "disjoint_owners own (pages s)" and "alloc n s = (Some p, s')"
    and "i < limit" and "own k = {i..<i + m}"
  shows "\<exists>j. p = addr j \<and> 0 < n \<and> j + n \<le> limit \<and>
    disjoint_owners (own(k := {j..<j + n})) (pages (release (addr i) m s'))"
proof -
  obtain j where j: "p = addr j" "0 < n" "j + n \<le> limit" "{j..<j + n} \<inter> pages s = {}"
    "pages s' = pages s \<union> {j..<j + n}"
    using alloc_some [OF assms(1,3)] by blast
  have "ok s'"
    using alloc_ok [OF assms(1), of n] assms(3) by simp
  from release_pages [OF this assms(4), of m]
  have "pages (release (addr i) m s') = (pages s \<union> {j..<j + n}) - own k"
    by (simp add: j(5) assms(5))
  with disjoint_owners_move [OF assms(2) j(4), of k]
  have "disjoint_owners (own(k := {j..<j + n})) (pages (release (addr i) m s'))"
    by simp
  with j show ?thesis by blast
qed

end

interpretation kpages: page_allocator mm_alloc_pages mm_free_pages used_pages page_addr PAGE_COUNT mm_inv
proof
  fix s n p s'
  assume "mm_inv s" "mm_alloc_pages n s = (Some p, s')"
  then show "\<exists>i. p = page_addr i \<and> 0 < n \<and> i + n \<le> PAGE_COUNT \<and> {i..<i + n} \<inter> used_pages s = {} \<and>
      used_pages s' = used_pages s \<union> {i..<i + n}"
    by (rule mm_alloc_Some) (auto simp: free_run_def)
qed (auto dest: mm_alloc_None intro: inv_intros simp: mm_free_used)

section \<open>The bump allocator\<close>

definition kheap_ok :: "mm \<Rightarrow> bool" where
  "kheap_ok s \<longleftrightarrow> kheap_end s = 0x02000000 \<and> HEAP_END \<le> kheap_ptr s \<and> kheap_ptr s \<le> kheap_end s \<and>
     kheap_ptr s AND 15 = 0"

lemma and_not_mask: "(x :: u32) AND NOT (mask k) = push_bit k (drop_bit k x)"
  by (auto intro!: bit_word_eqI simp: bit_simps)

lemma unat_align: "unat (push_bit k (drop_bit k x) :: u32) = unat x div 2 ^ k * 2 ^ k"
proof -
  have "unat x div 2 ^ k * 2 ^ k < 2 ^ 32"
    using unsigned_less [of x, where ?'a = nat] le_less_trans [OF div_times_less_eq_dividend] by simp
  then have "take_bit 32 (unat x div 2 ^ k * 2 ^ k) = unat x div 2 ^ k * 2 ^ k"
    by (rule take_bit_nat_eq_self)
  moreover have "take_bit 32 (unat x) = unat x"
    by (rule take_bit_nat_eq_self) (use unsigned_less [of x, where ?'a = nat] in simp)
  ultimately show ?thesis
    by (simp add: unsigned_push_bit_eq unsigned_drop_bit_eq push_bit_eq_mult [where ?'a = nat]
        drop_bit_eq_div [where ?'a = nat])
qed

lemma mask_15: "(15 :: u32) = mask 4"
  by (simp add: mask_eq_exp_minus_1)

lemma round16:
  fixes n :: u32
  shows "unat ((n + 15) AND NOT 15) = unat (n + 15) div 16 * 16"
  using unat_align [of 4 "n + 15"] and_not_mask [of "n + 15" 4] by (simp add: mask_15 [symmetric])

lemma aligned16: "(x :: u32) AND 15 = 0 \<longleftrightarrow> unat x mod 16 = 0"
proof -
  have "unat (x AND 15) = unat x mod 16"
    using unsigned_take_bit_eq [of 4 x]
    by (simp add: mask_15 take_bit_eq_mask [symmetric] take_bit_eq_mod unat_mod_distrib)
  then show ?thesis by (metis unat_eq_zero)
qed

text \<open>
  Within the heap's limits an allocation returns the old pointer and moves it by the size rounded
  up to 16; a request that does not fit is refused and changes nothing.
\<close>

lemma kmalloc_fits:
  assumes ok: "kheap_ok s" and n: "unat (kheap_ptr s) + (unat n + 15) div 16 * 16 \<le> unat (kheap_end s)"
  shows "fst (kmalloc n s) = Some (kheap_ptr s)"
    and "unat (kheap_ptr (snd (kmalloc n s))) = unat (kheap_ptr s) + (unat n + 15) div 16 * 16"
    and "kheap_ok (snd (kmalloc n s))"
proof -
  have e: "unat (kheap_end s) = 0x02000000" and h: "unat HEAP_END \<le> unat (kheap_ptr s)"
    using ok by (auto simp: kheap_ok_def word_le_nat_alt)
  have "unat (n + 15) = unat n + 15"
    using n e by (simp add: unat_word_ariths)
  then have r: "unat ((n + 15) AND NOT 15) = (unat n + 15) div 16 * 16"
    using round16 [of n] by simp
  then have p: "unat (kheap_ptr s + ((n + 15) AND NOT 15)) = unat (kheap_ptr s) + (unat n + 15) div 16 * 16"
    using n e by (simp add: unat_word_ariths)
  then have le: "\<not> kheap_end s < kheap_ptr s + ((n + 15) AND NOT 15)"
    using n by (simp add: word_less_nat_alt)
  show "fst (kmalloc n s) = Some (kheap_ptr s)"
    and "unat (kheap_ptr (snd (kmalloc n s))) = unat (kheap_ptr s) + (unat n + 15) div 16 * 16"
    using le p by (auto simp: kmalloc_def)
  have "unat (kheap_ptr s) mod 16 = 0"
    using ok by (simp add: kheap_ok_def aligned16)
  then show "kheap_ok (snd (kmalloc n s))"
    using le p ok h n e by (auto simp: kmalloc_def kheap_ok_def aligned16 word_le_nat_alt mod_add_eq [symmetric])
qed

lemma kmalloc_refuses:
  assumes ok: "kheap_ok s" and n: "unat n < 2 ^ 31"
    and big: "unat (kheap_end s) < unat (kheap_ptr s) + (unat n + 15) div 16 * 16"
  shows "kmalloc n s = (None, s)"
proof -
  have e: "unat (kheap_end s) = 0x02000000" and h: "unat (kheap_ptr s) \<le> 0x02000000"
    using ok by (auto simp: kheap_ok_def word_le_nat_alt)
  have "unat (n + 15) = unat n + 15"
    using n by (simp add: unat_word_ariths)
  then have r: "unat ((n + 15) AND NOT 15) = (unat n + 15) div 16 * 16"
    using round16 [of n] by simp
  moreover have "(unat n + 15) div 16 * 16 \<le> unat n + 15"
    by (rule div_times_less_eq_dividend)
  ultimately have "unat (kheap_ptr s + ((n + 15) AND NOT 15)) = unat (kheap_ptr s) + (unat n + 15) div 16 * 16"
    using n h by (simp add: unat_word_ariths)
  with big show ?thesis
    by (simp add: kmalloc_def word_less_nat_alt)
qed

text \<open>The guard is computed with wrap-around, so a huge request passes it and rewinds the pointer.\<close>

lemma kmalloc_wraps:
  "kmalloc 0xFF000000 (mm_init m) = (Some HEAP_END, (mm_init m)\<lparr>kheap_ptr := 0\<rparr>)"
  by (simp add: kmalloc_def mm_init_def HEAP_END_def)

end
