(* ===== verification/VfsPath.thy ===== *)
theory VfsPath
  imports KString
begin

text \<open>
  \<^verbatim>\<open>vfs_normalize\<close> of \<^verbatim>\<open>kernel/fs/vfs.c\<close>: absolute paths are cut into components, \<^verbatim>\<open>.\<close> and \<^verbatim>\<open>..\<close>
  are resolved, and the result is written into a bounded buffer. The specification is the usual
  one on component lists; the two agree for paths within the fixed limits of the code (47
  characters per component, 32 components, the buffer's size).
\<close>

section \<open>The code\<close>

definition VFS_NAME_MAX :: nat where
  "VFS_NAME_MAX = 48"

definition VFS_PATH_MAX :: nat where
  "VFS_PATH_MAX = 128"

definition MAX_PARTS :: nat where
  "MAX_PARTS = 32"

text \<open>
  The copy loop of one component: up to \<open>room\<close> characters, ended by a slash or the terminator.
  The result is the component and the rest of the input.
\<close>

fun take_part :: "nat \<Rightarrow> string \<Rightarrow> string \<times> string" where
  "take_part room [] = ([], [])"
| "take_part room (c # cs) =
     (if c = NUL \<or> c = slash \<or> room = 0 then ([], c # cs)
      else let (p, r) = take_part (room - 1) cs in (c # p, r))"

definition skip_slashes :: "string \<Rightarrow> string" where
  "skip_slashes s = dropWhile (\<lambda>c. c = slash) s"

lemma take_part_length: "length (fst (take_part room s)) + length (snd (take_part room s)) = length s"
  by (induction room s rule: take_part.induct) (auto simp: case_prod_unfold Let_def)

lemma take_part_progress:
  assumes "cget s 0 \<noteq> NUL" and "0 < room"
  shows "length (skip_slashes (snd (take_part room s))) < length s"
proof -
  obtain c cs where s: "s = c # cs" "c \<noteq> NUL"
    using assms by (cases s) auto
  have le: "length (skip_slashes r) \<le> length r" for r
    by (simp add: skip_slashes_def length_dropWhile_le)
  show ?thesis
  proof (cases "c = slash")
    case True
    with s show ?thesis
      using le [of cs] by (simp add: skip_slashes_def)
  next
    case False
    have "length (snd (take_part (room - 1) cs)) \<le> length cs"
      using take_part_length [of "room - 1" cs] by simp
    with False s assms le [of "snd (take_part (room - 1) cs)"] show ?thesis
      by (simp add: case_prod_unfold Let_def)
  qed
qed

text \<open>The main loop; the component list is \<^verbatim>\<open>parts[0..np)\<close>.\<close>

function norm_loop :: "string list \<Rightarrow> string \<Rightarrow> string list" where
  "norm_loop parts s =
     (if cget s 0 \<noteq> NUL \<and> length parts < MAX_PARTS then
        (let p = fst (take_part (VFS_NAME_MAX - 1) s);
             r = skip_slashes (snd (take_part (VFS_NAME_MAX - 1) s))
         in if cget p 0 = NUL \<or> kstrcmp p ''.'' = 0 then norm_loop parts r
            else if kstrcmp p ''..'' = 0 then norm_loop (butlast parts) r
            else norm_loop (parts @ [p]) r)
      else parts)"
  by pat_completeness auto
termination
  by (relation "measure (\<lambda>(parts, s). length s)")
    (auto simp: take_part_progress VFS_NAME_MAX_def)

declare norm_loop.simps [simp del]

text \<open>The output loop, with the part of the buffer written so far.\<close>

fun emit_parts :: "nat \<Rightarrow> string list \<Rightarrow> string \<Rightarrow> string" where
  "emit_parts n [] out = out"
| "emit_parts n (p # ps) out =
     (if length out + 1 < n then
        (if n \<le> length (out @ [slash]) + kstrlen p then out @ [slash]
         else emit_parts n ps (out @ [slash] @ p))
      else out)"

definition vfs_normalize :: "string \<Rightarrow> nat \<Rightarrow> string" where
  "vfs_normalize s n =
     (if cget s 0 = NUL then [slash]
      else let parts = norm_loop [] (if cget s 0 = slash then tl s else s)
           in if parts = [] then [slash] else emit_parts n parts [])"

section \<open>The specification\<close>

text \<open>Components of a path and their resolution, without any limit.\<close>

fun split_path :: "string \<Rightarrow> string list" where
  "split_path [] = [[]]"
| "split_path (c # cs) =
     (if c = slash then [] # split_path cs
      else (c # hd (split_path cs)) # tl (split_path cs))"

fun resolve_parts :: "string list \<Rightarrow> string list \<Rightarrow> string list" where
  "resolve_parts acc [] = acc"
| "resolve_parts acc (p # ps) =
     (if p = [] \<or> p = ''.'' then resolve_parts acc ps
      else if p = ''..'' then resolve_parts (butlast acc) ps
      else resolve_parts (acc @ [p]) ps)"

definition components :: "string \<Rightarrow> string list" where
  "components s = split_path (if cget s 0 = slash then tl s else s)"

definition resolved :: "string \<Rightarrow> string list" where
  "resolved s = resolve_parts [] (components s)"

definition render_path :: "string list \<Rightarrow> string" where
  "render_path ps = (if ps = [] then [slash] else concat (map (\<lambda>p. slash # p) ps))"

definition good_part :: "string \<Rightarrow> bool" where
  "good_part p \<longleftrightarrow> p \<noteq> [] \<and> p \<noteq> ''.'' \<and> p \<noteq> ''..'' \<and> slash \<notin> set p \<and> no_nul p \<and> length p < VFS_NAME_MAX"

definition good_parts :: "string list \<Rightarrow> bool" where
  "good_parts ps \<longleftrightarrow> list_all good_part ps"

text \<open>The paths the fixed buffers can hold.\<close>

definition path_fits :: "string \<Rightarrow> nat \<Rightarrow> bool" where
  "path_fits s n \<longleftrightarrow> no_nul s \<and> list_all (\<lambda>p. length p < VFS_NAME_MAX) (components s) \<and>
     length (components s) \<le> MAX_PARTS \<and> length s + 1 < n"

section \<open>What the loop produces\<close>

lemma take_part_no_nul: "no_nul (fst (take_part room s))"
  by (induction room s rule: take_part.induct) (auto simp: case_prod_unfold Let_def)

lemma take_part_no_slash: "slash \<notin> set (fst (take_part room s))"
  by (induction room s rule: take_part.induct) (auto simp: case_prod_unfold Let_def)

lemma take_part_bound: "length (fst (take_part room s)) \<le> room"
  by (induction room s rule: take_part.induct) (auto simp: case_prod_unfold Let_def)

lemma kstrcmp_lit: "no_nul p \<Longrightarrow> no_nul q \<Longrightarrow> kstrcmp p q = 0 \<longleftrightarrow> p = q"
  by (simp add: kstrcmp_eq_0 cstr_id)

lemma cget_0_NUL: "no_nul p \<Longrightarrow> cget p 0 = NUL \<longleftrightarrow> p = []"
  by (cases p) auto

lemma good_parts_simps [simp]:
  "good_parts []"
  "good_parts (p # ps) \<longleftrightarrow> good_part p \<and> good_parts ps"
  "good_parts (ps @ qs) \<longleftrightarrow> good_parts ps \<and> good_parts qs"
  by (auto simp: good_parts_def)

lemma good_parts_butlast: "good_parts ps \<Longrightarrow> good_parts (butlast ps)"
  by (auto simp: good_parts_def list_all_iff dest: in_set_butlastD)

text \<open>One turn of the loop, with the string comparisons replaced by equalities.\<close>

lemma norm_loop_step:
  "norm_loop parts s =
     (if cget s 0 \<noteq> NUL \<and> length parts < MAX_PARTS then
        (let p = fst (take_part (VFS_NAME_MAX - 1) s);
             r = skip_slashes (snd (take_part (VFS_NAME_MAX - 1) s))
         in norm_loop (resolve_parts parts [p]) r)
      else parts)"
  by (simp add: norm_loop.simps [of parts s] Let_def kstrcmp_lit cget_0_NUL take_part_no_nul)

lemma resolve_parts_good:
  "good_parts acc \<Longrightarrow> list_all (\<lambda>p. slash \<notin> set p \<and> no_nul p \<and> length p < VFS_NAME_MAX) ps \<Longrightarrow>
     good_parts (resolve_parts acc ps)"
  by (induction acc ps rule: resolve_parts.induct) (auto simp: good_parts_butlast good_part_def)

lemma resolve_parts_of_good: "good_parts ps \<Longrightarrow> resolve_parts acc ps = acc @ ps"
  by (induction ps arbitrary: acc) (auto simp: good_part_def)

lemma length_resolve_parts: "length (resolve_parts acc ps) \<le> length acc + length ps"
  by (induction acc ps rule: resolve_parts.induct) auto

lemma norm_loop_good:
  "good_parts parts \<Longrightarrow> length parts \<le> MAX_PARTS \<Longrightarrow>
     good_parts (norm_loop parts s) \<and> length (norm_loop parts s) \<le> MAX_PARTS"
proof (induction "length s" arbitrary: parts s rule: less_induct)
  case less
  let ?tp = "take_part (VFS_NAME_MAX - 1) s"
  have p: "slash \<notin> set (fst ?tp) \<and> no_nul (fst ?tp) \<and> length (fst ?tp) < VFS_NAME_MAX"
    using take_part_no_nul take_part_no_slash take_part_bound [of "VFS_NAME_MAX - 1" s]
    by (simp add: VFS_NAME_MAX_def)
  show ?case
  proof (cases "cget s 0 \<noteq> NUL \<and> length parts < MAX_PARTS")
    case True
    have "good_parts (resolve_parts parts [fst ?tp])"
      using less.prems p by (intro resolve_parts_good) auto
    moreover have "length (resolve_parts parts [fst ?tp]) \<le> MAX_PARTS"
      using length_resolve_parts [of parts "[fst ?tp]"] True by simp
    moreover have "length (skip_slashes (snd ?tp)) < length s"
      using True by (simp add: take_part_progress VFS_NAME_MAX_def)
    ultimately show ?thesis
      using less.hyps True by (simp add: norm_loop_step [of parts s] Let_def)
  next
    case False
    with less.prems show ?thesis by (auto simp: norm_loop_step [of parts s])
  qed
qed

section \<open>The buffer bound\<close>

lemma emit_parts_bound:
  "good_parts ps \<Longrightarrow> length out < n \<Longrightarrow> length (emit_parts n ps out) < n"
  by (induction n ps out rule: emit_parts.induct)
    (auto simp: kstrlen_cstr cstr_id good_part_def)

lemma emit_parts_no_nul: "good_parts ps \<Longrightarrow> no_nul out \<Longrightarrow> no_nul (emit_parts n ps out)"
  by (induction n ps out rule: emit_parts.induct) (auto simp: good_part_def)

lemma emit_parts_prefix: "\<exists>t. emit_parts n ps out = out @ t"
proof (induction n ps out rule: emit_parts.induct)
  case (2 n p ps out)
  then show ?case by (auto simp: Let_def)
qed simp

lemma vfs_normalize_bound: "2 \<le> n \<Longrightarrow> length (vfs_normalize s n) < n"
  using norm_loop_good [of "[]"] emit_parts_bound [where out = "[]"]
  by (auto simp: vfs_normalize_def Let_def)

lemma vfs_normalize_no_nul: "no_nul (vfs_normalize s n)"
  using norm_loop_good [of "[]"] emit_parts_no_nul [where out = "[]"]
  by (auto simp: vfs_normalize_def Let_def)

lemma vfs_normalize_absolute: "2 \<le> n \<Longrightarrow> \<exists>t. vfs_normalize s n = slash # t"
proof -
  assume n: "2 \<le> n"
  have "\<exists>t. emit_parts n ps [] = slash # t" if "ps \<noteq> []" for ps
    using that n emit_parts_prefix [of n "tl ps" "slash # hd ps"] by (cases ps) auto
  then show ?thesis by (auto simp: vfs_normalize_def Let_def)
qed

section \<open>Agreement with the specification\<close>

lemma split_path_ne [simp]: "split_path s \<noteq> []"
  by (cases s) auto

lemma take_part_split:
  "no_nul s \<Longrightarrow> length (hd (split_path s)) \<le> room \<Longrightarrow>
     fst (take_part room s) = hd (split_path s) \<and>
     (snd (take_part room s) = [] \<and> tl (split_path s) = [] \<or>
      (\<exists>cs. snd (take_part room s) = slash # cs \<and> tl (split_path s) = split_path cs))"
proof (induction s arbitrary: room)
  case (Cons c cs)
  then show ?case
    by (cases "c = slash") (auto simp: case_prod_unfold Let_def)
qed simp

lemma resolve_skip: "resolve_parts acc (split_path (skip_slashes s)) = resolve_parts acc (split_path s)"
  by (induction s) (auto simp: skip_slashes_def)

lemma split_skip_length: "length (split_path (skip_slashes s)) \<le> length (split_path s)"
  by (induction s) (auto simp: skip_slashes_def)

lemma split_skip_all:
  "list_all P (split_path s) \<Longrightarrow> list_all P (split_path (skip_slashes s))"
  by (induction s) (auto simp: skip_slashes_def)

lemma no_nul_skip: "no_nul s \<Longrightarrow> no_nul (skip_slashes s)"
  by (induction s) (auto simp: skip_slashes_def)

lemma resolve_parts_append: "resolve_parts acc (ps @ qs) = resolve_parts (resolve_parts acc ps) qs"
  by (induction acc ps rule: resolve_parts.induct) auto

lemma resolve_parts_Cons: "resolve_parts acc (p # ps) = resolve_parts (resolve_parts acc [p]) ps"
  using resolve_parts_append [of acc "[p]" ps] by simp

lemma norm_loop_resolve:
  "no_nul s \<Longrightarrow> list_all (\<lambda>p. length p < VFS_NAME_MAX) (split_path s) \<Longrightarrow>
     length parts + length (split_path s) \<le> MAX_PARTS \<Longrightarrow>
     norm_loop parts s = resolve_parts parts (split_path s)"
proof (induction "length s" arbitrary: parts s rule: less_induct)
  case less
  show ?case
  proof (cases "s = []")
    case True
    then show ?thesis by (simp add: norm_loop.simps [of parts "[]"])
  next
    case False
    let ?tp = "take_part (VFS_NAME_MAX - 1) s"
    have ne: "cget s 0 \<noteq> NUL" using False less.prems(1) by (cases s) auto
    have "length (split_path s) \<noteq> 0" by simp
    then have lt: "length parts < MAX_PARTS" using less.prems(3) by linarith
    obtain p ps where sp: "split_path s = p # ps" by (cases "split_path s") auto
    then have "length (hd (split_path s)) \<le> VFS_NAME_MAX - 1"
      using less.prems(2) by (simp add: VFS_NAME_MAX_def)
    note ts = take_part_split [OF less.prems(1) this]
    have step: "norm_loop parts s = norm_loop (resolve_parts parts [p]) (skip_slashes (snd ?tp))"
      using ne lt ts sp by (simp add: norm_loop_step [of parts s] Let_def)
    have shorter: "length (skip_slashes (snd ?tp)) < length s"
      using ne by (simp add: take_part_progress VFS_NAME_MAX_def)
    show ?thesis
    proof (cases "snd ?tp = []")
      case True
      with ts sp have "ps = []" by auto
      with True step sp show ?thesis
        by (simp add: skip_slashes_def norm_loop.simps [of _ "[]"])
    next
      case False
      with ts sp obtain cs where cs: "snd ?tp = slash # cs" "ps = split_path cs" by auto
      have sk: "skip_slashes (snd ?tp) = skip_slashes cs"
        using cs by (simp add: skip_slashes_def)
      have nn: "no_nul cs"
      proof -
        have "set (snd (take_part room t)) \<subseteq> set t" for room t
          by (induction room t rule: take_part.induct) (auto simp: case_prod_unfold Let_def)
        from this [of "VFS_NAME_MAX - 1" s] cs less.prems(1) show ?thesis
          by (auto simp: no_nul_def)
      qed
      have "norm_loop (resolve_parts parts [p]) (skip_slashes cs) =
          resolve_parts (resolve_parts parts [p]) (split_path (skip_slashes cs))"
      proof (rule less.hyps)
        show "length (skip_slashes cs) < length s" using shorter sk by simp
        show "list_all (\<lambda>p. length p < VFS_NAME_MAX) (split_path (skip_slashes cs))"
          using less.prems(2) sp cs by (auto intro: split_skip_all)
        show "length (resolve_parts parts [p]) + length (split_path (skip_slashes cs)) \<le> MAX_PARTS"
          using less.prems(3) sp cs length_resolve_parts [of parts "[p]"] split_skip_length [of cs]
          by simp
      qed (use nn no_nul_skip in auto)
      then show ?thesis
        by (simp only: step sk resolve_skip sp cs(2) resolve_parts_Cons [of parts p "split_path cs"])
    qed
  qed
qed

lemma emit_parts_render:
  "good_parts ps \<Longrightarrow> length out + length (concat (map (\<lambda>p. slash # p) ps)) < n \<Longrightarrow>
     emit_parts n ps out = out @ concat (map (\<lambda>p. slash # p) ps)"
  by (induction n ps out rule: emit_parts.induct) (auto simp: kstrlen_cstr cstr_id good_part_def)

lemma split_path_length: "(\<Sum>p\<leftarrow>split_path s. Suc (length p)) = Suc (length s)"
proof (induction s)
  case (Cons c cs)
  then show ?case by (cases "split_path cs") auto
qed simp

lemma butlast_sum: "(\<Sum>p\<leftarrow>butlast ps. Suc (length p)) \<le> (\<Sum>p\<leftarrow>ps. Suc (length p))"
  by (cases ps rule: rev_cases) auto

lemma resolve_parts_sum:
  "(\<Sum>p\<leftarrow>resolve_parts acc ps. Suc (length p)) \<le>
     (\<Sum>p\<leftarrow>acc. Suc (length p)) + (\<Sum>p\<leftarrow>ps. Suc (length p))"
proof (induction acc ps rule: resolve_parts.induct)
  case (2 acc p ps)
  then show ?case using butlast_sum [of acc] by auto
qed simp

lemma length_render: "length (concat (map (\<lambda>p. slash # p) ps)) = (\<Sum>p\<leftarrow>ps. Suc (length p))"
  by (induction ps) auto

lemma no_nul_split: "no_nul s \<Longrightarrow> list_all no_nul (split_path s)"
proof (induction s)
  case (Cons c cs)
  then show ?case by (cases "split_path cs") auto
qed simp

lemma no_slash_split: "list_all (\<lambda>p. slash \<notin> set p) (split_path s)"
proof (induction s)
  case (Cons c cs)
  then show ?case by (cases "split_path cs") auto
qed simp

lemma resolved_good:
  assumes "no_nul s" and "list_all (\<lambda>p. length p < VFS_NAME_MAX) (components s)"
  shows "good_parts (resolved s)"
proof -
  have "no_nul (if cget s 0 = slash then tl s else s)"
    using assms(1) by (cases s) auto
  then have "list_all no_nul (components s)"
    unfolding components_def by (rule no_nul_split)
  with assms(2) no_slash_split show ?thesis
    unfolding resolved_def by (intro resolve_parts_good) (auto simp: list_all_iff components_def)
qed

lemma vfs_normalize_parts:
  assumes "path_fits s n"
  shows "vfs_normalize s n = render_path (resolved s)"
proof (cases "s = []")
  case True
  then show ?thesis
    by (simp add: vfs_normalize_def resolved_def components_def render_path_def)
next
  case False
  let ?t = "if cget s 0 = slash then tl s else s"
  from assms have nn: "no_nul s" and lens: "list_all (\<lambda>p. length p < VFS_NAME_MAX) (components s)"
    and count: "length (components s) \<le> MAX_PARTS" and room: "length s + 1 < n"
    by (auto simp: path_fits_def)
  have ne: "cget s 0 \<noteq> NUL"
    using False nn by (cases s) auto
  have nnt: "no_nul ?t" using nn by (cases s) auto
  have parts: "norm_loop [] ?t = resolved s"
    using norm_loop_resolve [OF nnt, of "[]"] lens count by (simp add: components_def resolved_def)
  have "length (concat (map (\<lambda>p. slash # p) (resolved s))) \<le> Suc (length ?t)"
    using resolve_parts_sum [of "[]" "components s"] split_path_length [of ?t]
    by (simp add: length_render resolved_def components_def)
  also have "\<dots> \<le> Suc (length s)" by simp
  finally have "emit_parts n (resolved s) [] = concat (map (\<lambda>p. slash # p) (resolved s))"
    using emit_parts_render [OF resolved_good [OF nn lens], of "[]" n] room by simp
  then show ?thesis
    using ne parts by (simp add: vfs_normalize_def Let_def render_path_def)
qed

text \<open>A canonical path is its own normal form.\<close>

lemma split_path_plain: "slash \<notin> set p \<Longrightarrow> split_path p = [p]"
  by (induction p) auto

lemma split_path_append: "slash \<notin> set p \<Longrightarrow> split_path (p @ slash # s) = p # split_path s"
  by (induction p) auto

lemma split_path_render:
  "good_parts (p # ps) \<Longrightarrow> split_path (p @ concat (map (\<lambda>p. slash # p) ps)) = p # ps"
proof (induction ps arbitrary: p)
  case Nil
  then show ?case by (simp add: split_path_plain good_part_def)
next
  case (Cons q ps)
  then show ?case by (simp add: split_path_append good_part_def)
qed

lemma components_render: "good_parts ps \<Longrightarrow> ps \<noteq> [] \<Longrightarrow> components (render_path ps) = ps"
proof -
  assume "good_parts ps" and "ps \<noteq> []"
  then obtain p qs where "ps = p # qs" "good_parts (p # qs)" by (cases ps) auto
  then show ?thesis
    using split_path_render [of p qs] by (simp add: components_def render_path_def)
qed

lemma resolved_render: "good_parts ps \<Longrightarrow> resolved (render_path ps) = ps"
proof (cases "ps = []")
  case True
  then show ?thesis by (simp add: render_path_def resolved_def components_def)
next
  case False
  moreover assume "good_parts ps"
  ultimately show ?thesis by (simp add: resolved_def components_render resolve_parts_of_good)
qed

lemma no_nul_render: "good_parts ps \<Longrightarrow> no_nul (render_path ps)"
  by (induction ps) (auto simp: render_path_def good_part_def split: if_splits)

definition parts_fit :: "string list \<Rightarrow> nat \<Rightarrow> bool" where
  "parts_fit ps n \<longleftrightarrow> good_parts ps \<and> length ps \<le> MAX_PARTS \<and> length (render_path ps) + 1 < n"

lemma path_fits_render: "parts_fit ps n \<Longrightarrow> path_fits (render_path ps) n"
proof (cases "ps = []")
  case True
  moreover assume "parts_fit ps n"
  ultimately show ?thesis
    by (simp add: parts_fit_def path_fits_def render_path_def components_def MAX_PARTS_def VFS_NAME_MAX_def)
next
  case False
  moreover assume "parts_fit ps n"
  ultimately show ?thesis
    by (auto simp: parts_fit_def path_fits_def components_render no_nul_render good_parts_def good_part_def
        list_all_iff)
qed

lemma vfs_normalize_render: "parts_fit ps n \<Longrightarrow> vfs_normalize (render_path ps) n = render_path ps"
  using vfs_normalize_parts [OF path_fits_render, of ps n] by (simp add: resolved_render parts_fit_def)

lemma path_fits_parts_fit:
  assumes "path_fits s n"
  shows "parts_fit (resolved s) (Suc n)"
proof -
  let ?t = "if cget s 0 = slash then tl s else s"
  have "length (concat (map (\<lambda>p. slash # p) (resolved s))) \<le> Suc (length ?t)"
    using resolve_parts_sum [of "[]" "components s"] split_path_length [of ?t]
    by (simp add: length_render resolved_def components_def)
  also have "\<dots> \<le> Suc (length s)" by simp
  finally show ?thesis
    using assms resolved_good [of s] length_resolve_parts [of "[]" "components s"]
    by (auto simp: parts_fit_def path_fits_def render_path_def resolved_def)
qed

end
