(* ===== verification/Vfs.thy ===== *)
theory Vfs
  imports MM VfsPath
begin

text \<open>
  The in-memory file system of \<^verbatim>\<open>kernel/fs/vfs.c\<close>: the node table, the descriptor table and every
  operation on a path or descriptor of the ramfs, with the page allocator as its storage. The
  operations here are the code of the exported functions after their first test
  (\<open>fat_is_path\<close> for paths, \<open>fd >= 100\<close> for descriptors), which sends paths under a mounted
  \<^verbatim>\<open>/disk\<close> to the FAT driver. Buffers the caller passes are values; file contents live in memory.
\<close>

section \<open>State\<close>

definition VFS_MAX_NODES :: nat where "VFS_MAX_NODES = 256"
definition VFS_FILE_MAX :: nat where "VFS_FILE_MAX = 64 * 1024"
definition VFS_MAX_FD :: nat where "VFS_MAX_FD = 32"
definition VFS_MAX_CHILDREN :: nat where "VFS_MAX_CHILDREN = 128"

definition VFS_O_READ :: u32 where "VFS_O_READ = 1"
definition VFS_O_WRITE :: u32 where "VFS_O_WRITE = 2"
definition VFS_O_APPEND :: u32 where "VFS_O_APPEND = 4"
definition VFS_O_TRUNC :: u32 where "VFS_O_TRUNC = 8"
definition VFS_O_CREATE :: u32 where "VFS_O_CREATE = 16"
definition VFS_O_DIR :: u32 where "VFS_O_DIR = 32"

definition has_flag :: "u32 \<Rightarrow> u32 \<Rightarrow> bool" where
  "has_flag flags f \<longleftrightarrow> flags AND f \<noteq> 0"

datatype vfs_err =
    VFS_ERR_NOENT | VFS_ERR_EXIST | VFS_ERR_NOSPC | VFS_ERR_INVAL | VFS_ERR_BADFD
  | VFS_ERR_ISDIR | VFS_ERR_NOTDIR | VFS_ERR_NAMETOOLONG

text \<open>The number the C function returns.\<close>

fun vfs_errno :: "vfs_err \<Rightarrow> int" where
  "vfs_errno VFS_ERR_NOENT = -1"
| "vfs_errno VFS_ERR_EXIST = -2"
| "vfs_errno VFS_ERR_NOSPC = -3"
| "vfs_errno VFS_ERR_INVAL = -4"
| "vfs_errno VFS_ERR_BADFD = -5"
| "vfs_errno VFS_ERR_ISDIR = -6"
| "vfs_errno VFS_ERR_NOTDIR = -7"
| "vfs_errno VFS_ERR_NAMETOOLONG = -8"

text \<open>
  A node pointer is an index into the node table; \<open>n_children\<close> is \<^verbatim>\<open>children[0..nchildren)\<close>.
\<close>

record vnode =
  n_name :: string
  n_is_dir :: bool
  n_size :: nat
  n_data :: "u32 option"
  n_cap :: nat
  n_parent :: "nat option"
  n_children :: "nat list"
  n_used :: bool

record vfd =
  f_used :: bool
  f_node :: nat
  f_offset :: nat
  f_flags :: u32

record vfs =
  vmm :: mm
  nodes :: "vnode list"
  fds :: "vfd list"

definition blank_node :: vnode where
  "blank_node = \<lparr>n_name = [], n_is_dir = False, n_size = 0, n_data = None, n_cap = 0,
     n_parent = None, n_children = [], n_used = False\<rparr>"

definition blank_fd :: vfd where
  "blank_fd = \<lparr>f_used = False, f_node = 0, f_offset = 0, f_flags = 0\<rparr>"

text \<open>\<open>vfs_init\<close> takes the first slot for the root.\<close>

definition root :: nat where
  "root = 0"

definition the_ptr :: "u32 option \<Rightarrow> u32" where
  "the_ptr p = (case p of None \<Rightarrow> 0 | Some a \<Rightarrow> a)"

definition pages_for :: "nat \<Rightarrow> nat" where
  "pages_for n = (n + PAGE_SIZE - 1) div PAGE_SIZE"

abbreviation upd_node :: "nat \<Rightarrow> (vnode \<Rightarrow> vnode) \<Rightarrow> vfs \<Rightarrow> vfs" where
  "upd_node i f s \<equiv> s\<lparr>nodes := (nodes s)[i := f (nodes s ! i)]\<rparr>"

abbreviation upd_fd :: "nat \<Rightarrow> (vfd \<Rightarrow> vfd) \<Rightarrow> vfs \<Rightarrow> vfs" where
  "upd_fd i f s \<equiv> s\<lparr>fds := (fds s)[i := f (fds s ! i)]\<rparr>"

section \<open>Tables and lookup\<close>

definition alloc_node :: "vfs \<Rightarrow> (nat \<times> vfs) option" where
  "alloc_node s =
     (case first_from (\<lambda>n. \<not> n_used n) (nodes s) 0 of
        None \<Rightarrow> None
      | Some i \<Rightarrow> Some (i, s\<lparr>nodes := (nodes s)[i := blank_node\<lparr>n_used := True\<rparr>]\<rparr>))"

definition alloc_fd :: "vfs \<Rightarrow> nat option" where
  "alloc_fd s = first_from (\<lambda>f. \<not> f_used f) (fds s) 3"

definition find_child :: "vfs \<Rightarrow> nat \<Rightarrow> string \<Rightarrow> nat option" where
  "find_child s d nm =
     map_option (\<lambda>i. n_children (nodes s ! d) ! i)
       (first_from (\<lambda>c. kstrcmp (n_name (nodes s ! c)) nm = 0) (n_children (nodes s ! d)) 0)"

text \<open>The loop of \<open>vfs_lookup\<close> over the normalised path; one slash is skipped after a component.\<close>

function lookup_loop :: "vfs \<Rightarrow> nat \<Rightarrow> string \<Rightarrow> nat option" where
  "lookup_loop s cur p =
     (if cget p 0 = NUL then Some cur
      else let part = fst (take_part (VFS_NAME_MAX - 1) p);
               r = snd (take_part (VFS_NAME_MAX - 1) p);
               r' = (if cget r 0 = slash then tl r else r)
           in if part = [] then lookup_loop s cur r'
              else if \<not> n_is_dir (nodes s ! cur) then None
              else case find_child s cur part of None \<Rightarrow> None | Some c \<Rightarrow> lookup_loop s c r')"
  by pat_completeness auto

lemma take_part_rest_progress:
  assumes "cget p 0 \<noteq> NUL" and "0 < room"
  shows "length (if cget (snd (take_part room p)) 0 = slash then tl (snd (take_part room p))
           else snd (take_part room p)) < length p"
proof -
  obtain c cs where p: "p = c # cs" "c \<noteq> NUL"
    using assms by (cases p) auto
  have "length (snd (take_part (room - 1) cs)) \<le> length cs"
    using take_part_length [of "room - 1" cs] by simp
  with p assms show ?thesis
    by (auto simp: case_prod_unfold Let_def)
qed

termination lookup_loop
proof (relation "measure (\<lambda>(s, cur, p). length p)", goal_cases)
  case (2 s cur p x xa xb)
  then show ?case
    using take_part_rest_progress [of p 47] by (simp add: VFS_NAME_MAX_def split: if_splits)
next
  case (3 s cur p x xa xb c)
  then show ?case
    using take_part_rest_progress [of p 47] by (simp add: VFS_NAME_MAX_def split: if_splits)
qed simp

declare lookup_loop.simps [simp del]

definition vfs_lookup :: "string \<Rightarrow> vfs \<Rightarrow> nat option" where
  "vfs_lookup path s =
     (let norm = vfs_normalize path VFS_PATH_MAX
      in if kstrcmp norm ''/'' = 0 then Some root else lookup_loop s root (tl norm))"

text \<open>The last slash after the leading one, 0 when there is none.\<close>

definition last_slash :: "string \<Rightarrow> nat" where
  "last_slash norm = fold (\<lambda>i acc. if norm ! i = slash then i else acc) [1..<length norm] 0"

definition ensure_parent :: "string \<Rightarrow> vfs \<Rightarrow> vfs_err + string \<times> nat" where
  "ensure_parent path s =
     (let norm = vfs_normalize path VFS_PATH_MAX;
          len = kstrlen norm;
          sl = last_slash norm;
          parent_path = (if sl = 0 then ''/'' else take sl norm);
          name = strncpy_val (if sl = 0 then drop 1 norm else drop (sl + 1) norm) VFS_NAME_MAX
      in if len \<le> 1 then Inl VFS_ERR_INVAL
         else case vfs_lookup parent_path s of
                None \<Rightarrow> Inl VFS_ERR_NOENT
              | Some p \<Rightarrow>
                  if \<not> n_is_dir (nodes s ! p) then Inl VFS_ERR_NOENT
                  else if cget name 0 = NUL \<or> VFS_NAME_MAX \<le> kstrlen name then Inl VFS_ERR_NAMETOOLONG
                  else Inr (name, p))"

section \<open>Operations on paths\<close>

definition vfs_mkdir :: "string \<Rightarrow> vfs \<Rightarrow> (vfs_err + unit) \<times> vfs" where
  "vfs_mkdir path s =
     (if vfs_lookup path s \<noteq> None then (Inl VFS_ERR_EXIST, s)
      else case ensure_parent path s of
             Inl e \<Rightarrow> (Inl e, s)
           | Inr (name, p) \<Rightarrow>
               if VFS_MAX_CHILDREN \<le> length (n_children (nodes s ! p)) then (Inl VFS_ERR_NOSPC, s)
               else case alloc_node s of
                      None \<Rightarrow> (Inl VFS_ERR_NOSPC, s)
                    | Some (i, s1) \<Rightarrow>
                        let s2 = upd_node i (\<lambda>n. n\<lparr>n_is_dir := True, n_parent := Some p,
                                                     n_name := strncpy_val name VFS_NAME_MAX\<rparr>) s1
                        in (Inr (), upd_node p (\<lambda>n. n\<lparr>n_children := n_children n @ [i]\<rparr>) s2))"

definition vfs_init :: "mm \<Rightarrow> vfs" where
  "vfs_init m =
     (let s0 = \<lparr>vmm = m, nodes = replicate VFS_MAX_NODES blank_node, fds = replicate VFS_MAX_FD blank_fd\<rparr>;
          s1 = upd_node root (\<lambda>n. blank_node\<lparr>n_used := True, n_is_dir := True, n_name := ''/''\<rparr>) s0
      in snd (vfs_mkdir ''/disk'' (snd (vfs_mkdir ''/sys'' s1))))"

text \<open>The part of \<open>vfs_write_file\<close> that makes a missing file.\<close>

definition create_file :: "string \<Rightarrow> vfs \<Rightarrow> (vfs_err + nat) \<times> vfs" where
  "create_file path s =
     (case ensure_parent path s of
        Inl e \<Rightarrow> (Inl e, s)
      | Inr (name, p) \<Rightarrow>
          if VFS_MAX_CHILDREN \<le> length (n_children (nodes s ! p)) then (Inl VFS_ERR_NOSPC, s)
          else case alloc_node s of
                 None \<Rightarrow> (Inl VFS_ERR_NOSPC, s)
               | Some (i, s1) \<Rightarrow>
                   let s2 = upd_node i (\<lambda>n. n\<lparr>n_parent := Some p,
                                                n_name := strncpy_val name VFS_NAME_MAX\<rparr>) s1
                   in (Inr i, upd_node p (\<lambda>n. n\<lparr>n_children := n_children n @ [i]\<rparr>) s2))"

text \<open>The part that makes room and copies the contents.\<close>

definition set_contents :: "nat \<Rightarrow> u8 list \<Rightarrow> vfs \<Rightarrow> (vfs_err + unit) \<times> vfs" where
  "set_contents i bs s =
     (let nd = nodes s ! i; n = length bs
      in if n_is_dir nd then (Inl VFS_ERR_ISDIR, s)
         else if VFS_FILE_MAX < n then (Inl VFS_ERR_NOSPC, s)
         else
           let grown =
             (if n_cap nd < n then
                (case mm_alloc_pages (pages_for n) (vmm s) of
                   (None, m) \<Rightarrow> None
                 | (Some p, m) \<Rightarrow>
                     let m' = (case n_data nd of None \<Rightarrow> m
                               | Some old \<Rightarrow> mm_free_pages old (pages_for (n_cap nd)) m)
                     in Some (upd_node i (\<lambda>x. x\<lparr>n_data := Some p, n_cap := pages_for n * PAGE_SIZE\<rparr>)
                                (s\<lparr>vmm := m'\<rparr>)))
              else Some s)
           in case grown of
                None \<Rightarrow> (Inl VFS_ERR_NOSPC, s)
              | Some s1 \<Rightarrow>
                  let d = the_ptr (n_data (nodes s1 ! i))
                  in (Inr (), upd_node i (\<lambda>x. x\<lparr>n_size := n\<rparr>)
                        (s1\<lparr>vmm := (vmm s1)\<lparr>mem := mem_store (mem (vmm s1)) d bs\<rparr>\<rparr>)))"

definition vfs_write_file :: "string \<Rightarrow> u8 list \<Rightarrow> vfs \<Rightarrow> (vfs_err + unit) \<times> vfs" where
  "vfs_write_file path bs s =
     (case vfs_lookup path s of
        Some i \<Rightarrow> set_contents i bs s
      | None \<Rightarrow>
          (case create_file path s of
             (Inl e, s1) \<Rightarrow> (Inl e, s1)
           | (Inr i, s1) \<Rightarrow> set_contents i bs s1))"

text \<open>The bytes copied to the caller's buffer; their number is the function's result.\<close>

definition vfs_read_file :: "string \<Rightarrow> nat \<Rightarrow> vfs \<Rightarrow> vfs_err + u8 list" where
  "vfs_read_file path buflen s =
     (case vfs_lookup path s of
        None \<Rightarrow> Inl VFS_ERR_NOENT
      | Some i \<Rightarrow>
          let nd = nodes s ! i
          in if n_is_dir nd then Inl VFS_ERR_ISDIR
             else Inr (mem_load (mem (vmm s)) (the_ptr (n_data nd)) (min (n_size nd) buflen)))"

definition vfs_open :: "string \<Rightarrow> u32 \<Rightarrow> vfs \<Rightarrow> (vfs_err + nat) \<times> vfs" where
  "vfs_open path flags s =
     (let found =
        (case vfs_lookup path s of
           Some i \<Rightarrow> (Inr i, s)
         | None \<Rightarrow>
             if \<not> has_flag flags VFS_O_CREATE then (Inl VFS_ERR_NOENT, s)
             else case vfs_write_file path [] s of
                    (Inl e, s1) \<Rightarrow> (Inl VFS_ERR_NOSPC, s1)
                  | (Inr u, s1) \<Rightarrow>
                      (case vfs_lookup path s1 of None \<Rightarrow> (Inl VFS_ERR_NOENT, s1)
                       | Some i \<Rightarrow> (Inr i, s1)))
      in case found of
           (Inl e, s1) \<Rightarrow> (Inl e, s1)
         | (Inr i, s1) \<Rightarrow>
             if n_is_dir (nodes s1 ! i) \<and> \<not> has_flag flags VFS_O_DIR then (Inl VFS_ERR_ISDIR, s1)
             else
               let s2 = (if has_flag flags VFS_O_TRUNC \<and> has_flag flags VFS_O_WRITE \<and>
                            \<not> n_is_dir (nodes s1 ! i)
                         then upd_node i (\<lambda>n. n\<lparr>n_size := 0\<rparr>) s1 else s1)
               in case alloc_fd s2 of
                    None \<Rightarrow> (Inl VFS_ERR_NOSPC, s2)
                  | Some fd \<Rightarrow>
                      (Inr fd, s2\<lparr>fds := (fds s2)[fd :=
                         \<lparr>f_used = True, f_node = i,
                          f_offset = (if has_flag flags VFS_O_APPEND then n_size (nodes s2 ! i) else 0),
                          f_flags = flags\<rparr>]\<rparr>))"

definition vfs_unlink :: "string \<Rightarrow> vfs \<Rightarrow> (vfs_err + unit) \<times> vfs" where
  "vfs_unlink path s =
     (case vfs_lookup path s of
        None \<Rightarrow> (Inl VFS_ERR_NOENT, s)
      | Some i \<Rightarrow>
          let nd = nodes s ! i
          in if i = root then (Inl VFS_ERR_NOENT, s)
             else if n_parent nd = Some root \<and>
                     (kstrcmp (n_name nd) ''sys'' = 0 \<or> kstrcmp (n_name nd) ''disk'' = 0)
                  then (Inl VFS_ERR_INVAL, s)
             else if n_is_dir nd \<and> n_children nd \<noteq> [] then (Inl VFS_ERR_INVAL, s)
             else case n_parent nd of
                    None \<Rightarrow> (Inl VFS_ERR_INVAL, s)
                  | Some p \<Rightarrow>
                      let s1 = upd_node p (\<lambda>n. n\<lparr>n_children := remove1 i (n_children n)\<rparr>) s;
                          s2 = (case n_data nd of None \<Rightarrow> s1
                                | Some a \<Rightarrow> s1\<lparr>vmm := mm_free_pages a (pages_for (n_cap nd)) (vmm s1)\<rparr>)
                      in (Inr (), upd_node i (\<lambda>n. n\<lparr>n_used := False\<rparr>) s2))"

definition vfs_exists :: "string \<Rightarrow> vfs \<Rightarrow> bool" where
  "vfs_exists path s \<longleftrightarrow> vfs_lookup path s \<noteq> None"

definition vfs_isdir :: "string \<Rightarrow> vfs \<Rightarrow> bool" where
  "vfs_isdir path s \<longleftrightarrow> (case vfs_lookup path s of None \<Rightarrow> False | Some i \<Rightarrow> n_is_dir (nodes s ! i))"

definition vfs_size :: "string \<Rightarrow> vfs \<Rightarrow> vfs_err + nat" where
  "vfs_size path s =
     (case vfs_lookup path s of
        None \<Rightarrow> Inl VFS_ERR_NOENT
      | Some i \<Rightarrow> if n_is_dir (nodes s ! i) then Inl VFS_ERR_ISDIR else Inr (n_size (nodes s ! i)))"

text \<open>The text written into the caller's buffer of \<open>buflen\<close> bytes (without the terminator).\<close>

fun listing :: "nat \<Rightarrow> string list \<Rightarrow> string \<Rightarrow> string" where
  "listing buflen [] out = out"
| "listing buflen (nm # nms) out =
     (if buflen < length out + kstrlen nm + 2 then out
      else listing buflen nms (out @ cstr nm @ [newline]))"

definition vfs_listdir :: "string \<Rightarrow> nat \<Rightarrow> vfs \<Rightarrow> vfs_err + string" where
  "vfs_listdir path buflen s =
     (case vfs_lookup path s of
        None \<Rightarrow> Inl VFS_ERR_NOENT
      | Some i \<Rightarrow>
          if \<not> n_is_dir (nodes s ! i) then Inl VFS_ERR_NOTDIR
          else Inr (listing buflen (map (\<lambda>c. n_name (nodes s ! c)) (n_children (nodes s ! i))) []))"

section \<open>Operations on descriptors\<close>

definition fd_ok :: "vfs \<Rightarrow> int \<Rightarrow> bool" where
  "fd_ok s fd \<longleftrightarrow> 0 \<le> fd \<and> fd < int VFS_MAX_FD \<and> f_used (fds s ! nat fd)"

definition vfs_close :: "int \<Rightarrow> vfs \<Rightarrow> (vfs_err + unit) \<times> vfs" where
  "vfs_close fd s =
     (if \<not> fd_ok s fd then (Inl VFS_ERR_BADFD, s)
      else (Inr (), upd_fd (nat fd) (\<lambda>f. f\<lparr>f_used := False\<rparr>) s))"

definition vfs_read :: "int \<Rightarrow> nat \<Rightarrow> vfs \<Rightarrow> (vfs_err + u8 list) \<times> vfs" where
  "vfs_read fd n s =
     (if \<not> fd_ok s fd then (Inl VFS_ERR_BADFD, s)
      else let f = fds s ! nat fd; nd = nodes s ! f_node f
           in if \<not> has_flag (f_flags f) VFS_O_READ then (Inl VFS_ERR_INVAL, s)
              else if n_is_dir nd then (Inl VFS_ERR_ISDIR, s)
              else if n_size nd \<le> f_offset f then (Inr [], s)
              else let k = min n (n_size nd - f_offset f)
                   in (Inr (mem_load (mem (vmm s)) (the_ptr (n_data nd) + of_nat (f_offset f)) k),
                       upd_fd (nat fd) (\<lambda>f. f\<lparr>f_offset := f_offset f + k\<rparr>) s))"

text \<open>
  \<open>need\<close> is a \<^verbatim>\<open>uint32_t\<close> sum and wraps; the copy at the end takes all \<open>n\<close> bytes. The growth step is
  separate.
\<close>

definition grow_node :: "nat \<Rightarrow> nat \<Rightarrow> vfs \<Rightarrow> vfs option" where
  "grow_node i need s =
     (let nd = nodes s ! i
      in if n_cap nd < need then
           (let ncap = pages_for need * PAGE_SIZE
            in case mm_alloc_pages (ncap div PAGE_SIZE) (vmm s) of
                 (None, m) \<Rightarrow> None
               | (Some p, m) \<Rightarrow>
                   let m1 = (if n_data nd \<noteq> None \<and> n_size nd \<noteq> 0
                             then m\<lparr>mem := kmemcpy (mem m) p (the_ptr (n_data nd)) (n_size nd)\<rparr> else m);
                       m2 = (case n_data nd of None \<Rightarrow> m1
                             | Some old \<Rightarrow> mm_free_pages old (n_cap nd div PAGE_SIZE) m1)
                   in Some (upd_node i (\<lambda>x. x\<lparr>n_data := Some p, n_cap := ncap\<rparr>) (s\<lparr>vmm := m2\<rparr>)))
         else Some s)"

definition vfs_write :: "int \<Rightarrow> u8 list \<Rightarrow> vfs \<Rightarrow> (vfs_err + nat) \<times> vfs" where
  "vfs_write fd bs s =
     (if \<not> fd_ok s fd then (Inl VFS_ERR_BADFD, s)
      else let f = fds s ! nat fd; i = f_node f
           in if \<not> has_flag (f_flags f) VFS_O_WRITE then (Inl VFS_ERR_INVAL, s)
              else if n_is_dir (nodes s ! i) then (Inl VFS_ERR_ISDIR, s)
              else let need = (f_offset f + length bs) mod 2 ^ 32
                   in if VFS_FILE_MAX < need then (Inl VFS_ERR_NOSPC, s)
                      else case grow_node i need s of
                             None \<Rightarrow> (Inl VFS_ERR_NOSPC, s)
                           | Some s1 \<Rightarrow>
                               let d = the_ptr (n_data (nodes s1 ! i)) + of_nat (f_offset f);
                                   s2 = s1\<lparr>vmm := (vmm s1)\<lparr>mem := mem_store (mem (vmm s1)) d bs\<rparr>\<rparr>;
                                   s3 = upd_fd (nat fd) (\<lambda>f. f\<lparr>f_offset := need\<rparr>) s2
                               in (Inr (length bs),
                                   if n_size (nodes s3 ! i) < need
                                   then upd_node i (\<lambda>x. x\<lparr>n_size := need\<rparr>) s3 else s3))"

end
