(* ===== verification/ProcState.thy ===== *)
theory ProcState
  imports Vfs
begin

text \<open>
  The process record of \<^verbatim>\<open>kernel/proc/proc.h\<close>. A pointer to a process is its index in the table. The
  two console buffers are the contents the code can reach: \<open>cons_out\<close> is \<^verbatim>\<open>cons_out[0..cons_out_len]\<close>
  and \<open>cons_in_keys\<close> is \<^verbatim>\<open>cons_in_keys[0..cons_in_len]\<close>, so their lengths are the two counters. An
  address field that may be \<^verbatim>\<open>NULL\<close> holds 0. The fields \<^verbatim>\<open>wait_pid\<close>, \<^verbatim>\<open>block_ret_ebp\<close> and
  \<^verbatim>\<open>block_prev_kret\<close> are never used by the code and are left out.
\<close>

definition PROC_MAX :: nat where "PROC_MAX = 16"
definition PROC_NAME :: nat where "PROC_NAME = 32"
definition PROC_CWD :: nat where "PROC_CWD = 128"
definition PROC_CONS_OUT :: nat where "PROC_CONS_OUT = 2048"
definition PROC_CONS_IN :: nat where "PROC_CONS_IN = 128"

datatype pstate = PROC_FREE | PROC_READY | PROC_RUNNING | PROC_BLOCKED | PROC_ZOMBIE

fun pstate_code :: "pstate \<Rightarrow> int" where
  "pstate_code PROC_FREE = 0"
| "pstate_code PROC_READY = 1"
| "pstate_code PROC_RUNNING = 2"
| "pstate_code PROC_BLOCKED = 3"
| "pstate_code PROC_ZOMBIE = 4"

record proc =
  used :: bool
  pid :: int
  ppid :: int
  state :: pstate
  exit_code :: int
  started :: bool
  pname :: string
  cwd :: string
  entry :: u32
  user_esp :: u32
  user_eip :: u32
  kstack_top :: u32
  image :: u32
  image_pages :: nat
  image_shadow :: u32
  image_evicted :: bool
  ustack :: u32
  ustack_pages :: nat
  brk :: u32
  user_eax :: u32
  saved_kframe :: u32
  block_parent :: "nat option"
  cons_enable :: bool
  cons_host :: bool
  cons_sink :: int
  cons_forbid :: bool
  cons_out :: string
  cons_in_keys :: "int list"
  cons_in_pos :: nat
  redir_in :: int
  redir_out :: int
  need_preempt :: bool

text \<open>A record after \<^verbatim>\<open>kmemset(p, 0, sizeof *p)\<close>.\<close>

definition blank_proc :: proc where
  "blank_proc = \<lparr>used = False, pid = 0, ppid = 0, state = PROC_FREE, exit_code = 0, started = False,
     pname = [], cwd = [], entry = 0, user_esp = 0, user_eip = 0, kstack_top = 0, image = 0,
     image_pages = 0, image_shadow = 0, image_evicted = False, ustack = 0, ustack_pages = 0, brk = 0,
     user_eax = 0, saved_kframe = 0, block_parent = None, cons_enable = False, cons_host = False,
     cons_sink = 0, cons_forbid = False, cons_out = [], cons_in_keys = [], cons_in_pos = 0,
     redir_in = 0, redir_out = 0, need_preempt = False\<rparr>"

section \<open>Words in memory\<close>

text \<open>Little-endian 32-bit loads and stores.\<close>

definition mem_word :: "memory \<Rightarrow> u32 \<Rightarrow> u32" where
  "mem_word m a = ucast (m a) OR push_bit 8 (ucast (m (a + 1))) OR push_bit 16 (ucast (m (a + 2)))
     OR push_bit 24 (ucast (m (a + 3)))"

definition mem_set_word :: "memory \<Rightarrow> u32 \<Rightarrow> u32 \<Rightarrow> memory" where
  "mem_set_word m a v = m(a := ucast v, a + 1 := ucast (drop_bit 8 v), a + 2 := ucast (drop_bit 16 v),
     a + 3 := ucast (drop_bit 24 v))"

lemma word_of_bytes:
  fixes v :: u32
  shows "ucast (ucast v :: u8) OR push_bit 8 (ucast (ucast (drop_bit 8 v) :: u8))
    OR push_bit 16 (ucast (ucast (drop_bit 16 v) :: u8)) OR push_bit 24 (ucast (ucast (drop_bit 24 v) :: u8)) = v"
proof (rule bit_word_eqI)
  fix n assume "n < LENGTH(32)"
  consider "n < 8" | "8 \<le> n" "n < 16" | "16 \<le> n" "n < 24" | "24 \<le> n" by linarith
  then show "bit (ucast (ucast v :: u8) OR push_bit 8 (ucast (ucast (drop_bit 8 v) :: u8))
    OR push_bit 16 (ucast (ucast (drop_bit 16 v) :: u8)) OR push_bit 24 (ucast (ucast (drop_bit 24 v) :: u8)) :: u32) n = bit v n"
    using \<open>n < LENGTH(32)\<close> by cases (auto simp: bit_simps)
qed

lemma four_addresses: "(a :: u32) + 1 \<noteq> a" "a + 2 \<noteq> a" "a + 3 \<noteq> a" "a + 2 \<noteq> a + 1" "a + 3 \<noteq> a + 1" "a + 3 \<noteq> a + 2"
  by simp_all

lemma mem_word_set [simp]: "mem_word (mem_set_word m a v) a = v"
  by (simp add: mem_word_def mem_set_word_def word_of_bytes)

lemma mem_set_word_other: "\<not> in_region a 4 x \<Longrightarrow> mem_set_word m a v x = m x"
proof -
  assume out: "\<not> in_region a 4 x"
  have "in_region a 4 a" "in_region a 4 (a + 1)" "in_region a 4 (a + 2)" "in_region a 4 (a + 3)"
    by (simp_all add: in_region_def)
  with out show ?thesis by (auto simp: mem_set_word_def)
qed

lemma mem_word_frame: "(\<And>x. in_region a 4 x \<Longrightarrow> m' x = m x) \<Longrightarrow> mem_word m' a = mem_word m a"
  by (simp add: mem_word_def in_region_def)

lemma mem_word_other:
  assumes "disjoint_regions a 4 b 4"
  shows "mem_word (mem_set_word m a v) b = mem_word m b"
  using assms by (intro mem_word_frame mem_set_word_other) (auto simp: disjoint_regions_def)

end
