(* ===== verification/Ring.thy ===== *)
theory Ring
  imports Prelude
begin

text \<open>
  Bounded queues: the interface of every buffer between a producer and a consumer in the kernel
  (keyboard buffer, pipes, console keys, window events), and what follows from it for any of them.
\<close>

section \<open>A circular array as a list\<close>

text \<open>The \<open>n\<close> elements of \<open>buf\<close> from index \<open>r\<close> on, indices modulo its length.\<close>

definition ring_items :: "'a list \<Rightarrow> nat \<Rightarrow> nat \<Rightarrow> 'a list" where
  "ring_items buf r n = map (\<lambda>i. buf ! ((r + i) mod length buf)) [0..<n]"

lemma length_ring_items [simp]: "length (ring_items buf r n) = n"
  by (simp add: ring_items_def)

lemma ring_items_0 [simp]: "ring_items buf r 0 = []"
  by (simp add: ring_items_def)

lemma ring_items_get:
  "ring_items buf r (Suc n) = buf ! (r mod length buf) # ring_items buf ((r + 1) mod length buf) n"
  by (simp add: ring_items_def upt_conv_Cons map_Suc_upt [symmetric] mod_add_left_eq del: upt_Suc)

lemma ring_slot_inj:
  assumes "i < n" and "n < m"
  shows "(r + i) mod m \<noteq> (r + n) mod (m :: nat)"
proof
  assume "(r + i) mod m = (r + n) mod m"
  then have "m dvd (r + n) - (r + i)"
    using assms(1) by (intro mod_eq_dvd_iff_nat [THEN iffD1]) auto
  then have "m dvd n - i" by simp
  with assms show False by (auto dest: dvd_imp_le)
qed

lemma ring_items_put:
  assumes "n < length buf"
  shows "ring_items (buf[(r + n) mod length buf := x]) r (Suc n) = ring_items buf r n @ [x]"
proof -
  have "buf[(r + n) mod length buf := x] ! ((r + i) mod length buf) = buf ! ((r + i) mod length buf)"
    if "i < n" for i
    using ring_slot_inj [OF that assms, of r] by (simp add: nth_list_update_neq)
  moreover have "buf[(r + n) mod length buf := x] ! ((r + n) mod length buf) = x"
    using assms by (intro nth_list_update_eq mod_less_divisor) auto
  ultimately show ?thesis by (simp add: ring_items_def)
qed

lemma ring_items_update:
  assumes "j < n" and "n \<le> length buf"
  shows "ring_items (buf[(r + j) mod length buf := x]) r n = (ring_items buf r n)[j := x]"
proof (rule nth_equalityI)
  fix i assume "i < length (ring_items (buf[(r + j) mod length buf := x]) r n)"
  then have i: "i < n" by simp
  have "(r + i) mod length buf \<noteq> (r + j) mod length buf" if "i \<noteq> j"
    using that i assms ring_slot_inj [of i j "length buf" r] ring_slot_inj [of j i "length buf" r] by (metis less_le_trans linorder_neqE_nat)
  moreover have "(r + j) mod length buf < length buf" using assms by (intro mod_less_divisor) linarith
  ultimately show "ring_items (buf[(r + j) mod length buf := x]) r n ! i = (ring_items buf r n)[j := x] ! i"
    using i assms by (cases "i = j") (simp_all add: ring_items_def nth_list_update)
qed simp

text \<open>The fill count \<open>(h + m - t) mod m\<close> of a ring of \<open>m\<close> slots written at \<open>h\<close> and read at \<open>t\<close>.\<close>

lemma ring_count:
  assumes "h < m" and "t < (m :: nat)"
  shows "(t + (h + m - t) mod m) mod m = h" and "(h + m - t) mod m < m"
  using assms by (cases "t \<le> h"; simp add: le_mod_geq mod_add_right_eq)+

lemma count_step:
  assumes "h < m" and "t < (m :: nat)"
  shows "Suc h mod m = t \<longleftrightarrow> (h + m - t) mod m = m - 1"
    and "Suc h mod m \<noteq> t \<Longrightarrow> (Suc h mod m + m - t) mod m = Suc ((h + m - t) mod m)"
    and "(h + m - t) mod m = Suc n \<Longrightarrow> (h + m - Suc t mod m) mod m = n"
proof -
  have c: "(h + m - t) mod m = (if t \<le> h then h - t else h + m - t)"
    using assms by (simp add: le_mod_geq)
  have n: "Suc h mod m = (if Suc h = m then 0 else Suc h)" using assms by simp
  have n': "Suc t mod m = (if Suc t = m then 0 else Suc t)" using assms by simp
  show "Suc h mod m = t \<longleftrightarrow> (h + m - t) mod m = m - 1" using assms c n by auto
  show "Suc h mod m \<noteq> t \<Longrightarrow> (Suc h mod m + m - t) mod m = Suc ((h + m - t) mod m)"
    using assms c n by (auto simp: le_mod_geq)
  show "(h + m - t) mod m = Suc n \<Longrightarrow> (h + m - Suc t mod m) mod m = n"
    using assms c n' by (auto simp: le_mod_geq split: if_splits)
qed

lemma count_zero: "h < m \<Longrightarrow> t < m \<Longrightarrow> (h + m - t) mod m = 0 \<longleftrightarrow> h = (t :: nat)"
  by (cases "t \<le> h") (auto simp: le_mod_geq)

lemma count_last:
  assumes "h < m" and "t < (m :: nat)" and "(h + m - t) mod m = Suc n"
  shows "(h + m - 1) mod m = (t + n) mod m"
proof -
  have "Suc ((t + n) mod m) mod m = h" using ring_count(1) [OF assms(1,2)] assms(3) by (simp add: mod_Suc_eq)
  moreover have "(t + n) mod m < m" using assms by (intro mod_less_divisor) linarith
  ultimately show ?thesis by (cases "Suc ((t + n) mod m) = m") auto
qed

section \<open>Offering and draining\<close>

text \<open>
  The two loops of the clients: offer elements until one is refused, counting the accepted ones;
  take at most \<open>n\<close> elements until there is none.
\<close>

fun offer :: "('a \<Rightarrow> 's \<Rightarrow> bool \<times> 's) \<Rightarrow> 'a list \<Rightarrow> 's \<Rightarrow> nat \<times> 's" where
  "offer enq [] s = (0, s)"
| "offer enq (x # xs) s =
     (let (taken, t) = enq x s
      in if taken then let (k, u) = offer enq xs t in (Suc k, u) else (0, t))"

fun drain :: "('s \<Rightarrow> 'a option \<times> 's) \<Rightarrow> nat \<Rightarrow> 's \<Rightarrow> 'a list \<times> 's" where
  "drain deq 0 s = ([], s)"
| "drain deq (Suc n) s =
     (case deq s of (None, t) \<Rightarrow> ([], t) | (Some x, t) \<Rightarrow> let (ys, u) = drain deq n t in (x # ys, u))"

text \<open>An arbitrary interleaving of the two sides: what was accepted, and what came out.\<close>

datatype 'a queue_op = Enq 'a | Deq

fun queue_run :: "('a \<Rightarrow> 's \<Rightarrow> bool \<times> 's) \<Rightarrow> ('s \<Rightarrow> 'a option \<times> 's) \<Rightarrow> 'a queue_op list \<Rightarrow> 's \<Rightarrow> 'a list \<times> 'a list \<times> 's" where
  "queue_run enq deq [] s = ([], [], s)"
| "queue_run enq deq (Enq x # ops) s =
     (let (taken, t) = enq x s; (ins, outs, u) = queue_run enq deq ops t
      in (if taken then x # ins else ins, outs, u))"
| "queue_run enq deq (Deq # ops) s =
     (let (y, t) = deq s; (ins, outs, u) = queue_run enq deq ops t
      in (ins, (case y of None \<Rightarrow> outs | Some v \<Rightarrow> v # outs), u))"

section \<open>The interface\<close>

locale bounded_fifo =
  fixes items :: "'s \<Rightarrow> 'a list" and ok :: "'s \<Rightarrow> bool" and cap :: nat
    and enq :: "'a \<Rightarrow> 's \<Rightarrow> bool \<times> 's" and deq :: "'s \<Rightarrow> 'a option \<times> 's"
  assumes enq_room: "ok s \<Longrightarrow> length (items s) < cap \<Longrightarrow>
      fst (enq x s) \<and> ok (snd (enq x s)) \<and> items (snd (enq x s)) = items s @ [x]"
    and enq_full: "ok s \<Longrightarrow> \<not> length (items s) < cap \<Longrightarrow>
      \<not> fst (enq x s) \<and> ok (snd (enq x s)) \<and> items (snd (enq x s)) = items s"
    and deq_items: "ok s \<Longrightarrow> ok (snd (deq s)) \<and> items (snd (deq s)) = tl (items s) \<and>
      fst (deq s) = (case items s of [] \<Rightarrow> None | x # xs \<Rightarrow> Some x)"
begin

lemma offer_items:
  "ok s \<Longrightarrow> offer enq xs s = (k, t) \<Longrightarrow>
     k = min (length xs) (cap - length (items s)) \<and> items t = items s @ take k xs \<and> ok t"
proof (induction xs arbitrary: s k t)
  case (Cons x xs)
  show ?case
  proof (cases "length (items s) < cap")
    case True
    note e = enq_room [OF Cons.prems(1) True, of x]
    obtain j u where ju: "offer enq xs (snd (enq x s)) = (j, u)" by fastforce
    from Cons.IH [OF _ ju] e have j: "j = min (length xs) (cap - length (items s @ [x]))"
      "items u = (items s @ [x]) @ take j xs" "ok u" by auto
    have "k = Suc j \<and> t = u" using Cons.prems(2) e ju by (simp add: split_beta)
    with j True show ?thesis by auto
  next
    case False
    from enq_full [OF Cons.prems(1) False, of x] Cons.prems(2) False show ?thesis
      by (auto simp: split_beta)
  qed
qed simp

lemma drain_items:
  "ok s \<Longrightarrow> drain deq n s = (ys, t) \<Longrightarrow> ys = take n (items s) \<and> items t = drop n (items s) \<and> ok t"
proof (induction n arbitrary: s ys t)
  case (Suc n)
  note d = deq_items [OF Suc.prems(1)]
  show ?case
  proof (cases "items s")
    case Nil
    with d Suc.prems(2) show ?thesis by (auto simp: split: prod.splits)
  next
    case (Cons x xs)
    obtain zs u where zu: "drain deq n (snd (deq s)) = (zs, u)" by fastforce
    obtain v where v: "deq s = (Some x, v)" using d Cons by (cases "deq s") simp
    with Suc.prems(2) zu have "ys = x # zs \<and> t = u" by simp
    with Suc.IH [OF _ zu] d Cons show ?thesis by simp
  qed
qed simp

text \<open>What fits comes out again, in order.\<close>

lemma offer_drain:
  assumes "ok s" and "items s = []" and "length xs \<le> cap"
  shows "fst (drain deq (length xs) (snd (offer enq xs s))) = xs"
proof -
  obtain k t where kt: "offer enq xs s = (k, t)" by fastforce
  obtain ys u where yu: "drain deq (length xs) t = (ys, u)" by fastforce
  from offer_items [OF assms(1) kt] assms have "items t = xs" "ok t" by auto
  with drain_items [OF _ yu] kt yu show ?thesis by simp
qed

text \<open>
  However the two sides are interleaved, the elements that come out, followed by the ones still
  queued, are the ones that were queued followed by the accepted ones: nothing is lost, duplicated
  or reordered.
\<close>

lemma run_conserves:
  "ok s \<Longrightarrow> queue_run enq deq ops s = (ins, outs, t) \<Longrightarrow> outs @ items t = items s @ ins \<and> ok t"
proof (induction ops arbitrary: s ins outs t)
  case (Cons q ops)
  show ?case
  proof (cases q)
    case (Enq x)
    obtain i o' u where r: "queue_run enq deq ops (snd (enq x s)) = (i, o', u)" by (metis prod_cases3)
    have e: "ok (snd (enq x s)) \<and> items (snd (enq x s)) = items s @ (if fst (enq x s) then [x] else [])"
      using enq_room [OF Cons.prems(1), of x] enq_full [OF Cons.prems(1), of x] by (cases "length (items s) < cap") auto
    have "ins = (if fst (enq x s) then [x] else []) @ i \<and> outs = o' \<and> t = u"
      using Cons.prems(2) Enq r by (auto simp: split_beta)
    with Cons.IH [OF _ r] e show ?thesis by simp
  next
    case Deq
    obtain i o' u where r: "queue_run enq deq ops (snd (deq s)) = (i, o', u)" by (metis prod_cases3)
    note d = deq_items [OF Cons.prems(1)]
    have "ins = i \<and> outs = (case fst (deq s) of None \<Rightarrow> [] | Some v \<Rightarrow> [v]) @ o' \<and> t = u"
      using Cons.prems(2) Deq r by (auto simp: split_beta split: option.splits)
    with Cons.IH [OF _ r] d show ?thesis by (cases "items s") auto
  qed
qed simp

end

end
