(* ===== verification/Display.thy ===== *)
theory Display
  imports ProcState Ring
begin

text \<open>
  \<^verbatim>\<open>kernel/gui/display.c\<close>: the window table of the display server, the event queue of each window and
  the launch queue. Every operation takes what \<^verbatim>\<open>proc_current()\<close> returns as its first argument; the
  ones that hold pixel pages take and return the memory state too.
\<close>

definition GUI_WIN_MAX :: nat where "GUI_WIN_MAX = 8"
definition GUI_TITLE_MAX :: nat where "GUI_TITLE_MAX = 32"
definition GUI_EVT_MAX :: nat where "GUI_EVT_MAX = 16"
definition GUI_LAUNCH_MAX :: nat where "GUI_LAUNCH_MAX = 128"
definition LAUNCH_Q :: nat where "LAUNCH_Q = 4"

definition INP_NONE :: u32 where "INP_NONE = 0"
definition INP_KEY :: u32 where "INP_KEY = 1"
definition INP_MOUSE :: u32 where "INP_MOUSE = 2"
definition INP_RESIZE :: u32 where "INP_RESIZE = 3"

section \<open>State\<close>

record gui_evt =
  ev_type :: u32
  ev_key :: int
  ev_x :: int
  ev_y :: int
  ev_buttons :: int

record gui_win =
  gw_used :: bool
  gw_id :: int
  client_pid :: int
  gw_w :: int
  gw_h :: int
  gw_pixels :: u32
  gw_pages :: nat
  gw_damage :: bool
  gw_mapped :: bool
  gw_flags :: int
  gw_title :: string
  gw_ev :: "gui_evt list"
  ev_r :: nat
  ev_w :: nat

record launch_req =
  lr_used :: bool
  lr_path :: string
  lr_argv :: string

record display =
  gwins :: "gui_win list"
  server_pid :: int
  next_id :: int
  launch_q :: "launch_req list"

definition blank_evt :: gui_evt where
  "blank_evt = \<lparr>ev_type = 0, ev_key = 0, ev_x = 0, ev_y = 0, ev_buttons = 0\<rparr>"

definition blank_win :: gui_win where
  "blank_win = \<lparr>gw_used = False, gw_id = 0, client_pid = 0, gw_w = 0, gw_h = 0, gw_pixels = 0, gw_pages = 0,
     gw_damage = False, gw_mapped = False, gw_flags = 0, gw_title = [], gw_ev = replicate GUI_EVT_MAX blank_evt,
     ev_r = 0, ev_w = 0\<rparr>"

definition display_init :: display where
  "display_init = \<lparr>gwins = replicate GUI_WIN_MAX blank_win, server_pid = 0, next_id = 1,
     launch_q = replicate LAUNCH_Q \<lparr>lr_used = False, lr_path = [], lr_argv = []\<rparr>\<rparr>"

abbreviation set_win :: "nat \<Rightarrow> gui_win \<Rightarrow> display \<Rightarrow> display" where
  "set_win i g d \<equiv> d\<lparr>gwins := (gwins d)[i := g]\<rparr>"

section \<open>The server\<close>

definition display_server_set :: "proc option \<Rightarrow> int \<Rightarrow> display \<Rightarrow> int \<times> display" where
  "display_server_set cur on d =
     (case cur of None \<Rightarrow> (-1, d)
      | Some c \<Rightarrow>
        if on \<noteq> 0 then
          if server_pid d \<noteq> 0 \<and> server_pid d \<noteq> pid c then (-1, d) else (0, d\<lparr>server_pid := pid c\<rparr>)
        else if server_pid d \<noteq> pid c then (-1, d) else (0, d\<lparr>server_pid := 0\<rparr>))"

definition display_fb_locked :: "display \<Rightarrow> bool" where
  "display_fb_locked d \<longleftrightarrow> server_pid d \<noteq> 0"

definition win_by_id :: "display \<Rightarrow> int \<Rightarrow> nat option" where
  "win_by_id d wid = first_from (\<lambda>g. gw_used g \<and> gw_id g = wid) (gwins d) 0"

section \<open>Windows\<close>

text \<open>
  \<^verbatim>\<open>bytes = w * h * 4\<close> and the pages for it; sizes reach \<open>1024 \<times> 768\<close>, so nothing wraps.
\<close>

definition pages_of :: "int \<Rightarrow> int \<Rightarrow> nat" where
  "pages_of w h = (nat w * nat h * 4 + PAGE_SIZE - 1) div PAGE_SIZE"

definition bad_size :: "int \<Rightarrow> int \<Rightarrow> bool" where
  "bad_size w h \<longleftrightarrow> w < 32 \<or> h < 32 \<or> w > 1024 \<or> h > 768"

definition display_create ::
  "proc option \<Rightarrow> int \<Rightarrow> int \<Rightarrow> string option \<Rightarrow> display \<times> mm \<Rightarrow> int \<times> display \<times> mm" where
  "display_create cur w h title = (\<lambda>(d, m).
     case cur of None \<Rightarrow> (-1, d, m)
     | Some c \<Rightarrow>
       if server_pid d = 0 \<or> bad_size w h then (-1, d, m)
       else case first_from (\<lambda>g. \<not> gw_used g) (gwins d) 0 of None \<Rightarrow> (-1, d, m)
         | Some i \<Rightarrow>
           (case mm_alloc_pages (pages_of w h) m of
             (None, m) \<Rightarrow> (-1, set_win i ((gwins d ! i)\<lparr>gw_pixels := 0\<rparr>) d, m)
           | (Some p, m) \<Rightarrow>
             let m = m\<lparr>mem := kmemset (mem m) p 0 (pages_of w h * PAGE_SIZE)\<rparr>;
                 g = (gwins d ! i)\<lparr>gw_pixels := p, gw_used := True, gw_id := next_id d, client_pid := pid c,
                   gw_w := w, gw_h := h, gw_pages := pages_of w h, gw_damage := True, gw_mapped := False,
                   gw_flags := 0, ev_r := 0, ev_w := 0,
                   gw_title := (case title of
                       Some t \<Rightarrow> if cget t 0 \<noteq> NUL then strncpy_val t GUI_TITLE_MAX else ''window''
                     | None \<Rightarrow> ''window'')\<rparr>
             in (next_id d, (set_win i g d)\<lparr>next_id := next_id d + 1\<rparr>, m)))"

definition display_fb :: "int \<Rightarrow> display \<Rightarrow> u32" where
  "display_fb wid d = (case win_by_id d wid of None \<Rightarrow> 0 | Some i \<Rightarrow> gw_pixels (gwins d ! i))"

text \<open>\<^verbatim>\<open>if (gw->pixels) mm_free_pages(gw->pixels, gw->pages);\<close>\<close>

definition free_pixels :: "gui_win \<Rightarrow> mm \<Rightarrow> mm" where
  "free_pixels g m = (if gw_pixels g \<noteq> 0 then mm_free_pages (gw_pixels g) (gw_pages g) m else m)"

definition display_destroy :: "proc option \<Rightarrow> int \<Rightarrow> display \<times> mm \<Rightarrow> int \<times> display \<times> mm" where
  "display_destroy cur wid = (\<lambda>(d, m).
     case win_by_id d wid of None \<Rightarrow> (-1, d, m)
     | Some i \<Rightarrow>
       if (case cur of None \<Rightarrow> False
           | Some c \<Rightarrow> pid c \<noteq> client_pid (gwins d ! i) \<and> pid c \<noteq> server_pid d) then (-1, d, m)
       else (0, set_win i blank_win d, free_pixels (gwins d ! i) m))"

primrec destroy_pid_loop :: "int \<Rightarrow> nat list \<Rightarrow> display \<times> mm \<Rightarrow> display \<times> mm" where
  "destroy_pid_loop p [] dm = dm"
| "destroy_pid_loop p (i # is) dm =
     (let (d, m) = dm; g = gwins d ! i in
      if \<not> gw_used g \<or> client_pid g \<noteq> p then destroy_pid_loop p is dm
      else destroy_pid_loop p is (set_win i blank_win d, free_pixels g m))"

definition display_destroy_pid :: "int \<Rightarrow> display \<times> mm \<Rightarrow> display \<times> mm" where
  "display_destroy_pid p dm = (if p \<le> 0 then dm else destroy_pid_loop p [0..<GUI_WIN_MAX] dm)"

definition display_info :: "int \<Rightarrow> int \<Rightarrow> display \<Rightarrow> int" where
  "display_info wid field d =
     (case win_by_id d wid of None \<Rightarrow> -1
      | Some i \<Rightarrow> let g = gwins d ! i in
        if field = 0 then gw_w g
        else if field = 1 then gw_h g
        else if field = 2 then sint (gw_pixels g)
        else if field = 3 then of_bool (gw_damage g)
        else if field = 4 then client_pid g
        else if field = 5 then of_bool (gw_mapped g)
        else if field = 6 then gw_flags g
        else -1)"

text \<open>The client of the window or the server.\<close>

definition may_touch :: "proc option \<Rightarrow> gui_win \<Rightarrow> display \<Rightarrow> bool" where
  "may_touch cur g d =
     (case cur of None \<Rightarrow> False | Some c \<Rightarrow> pid c = client_pid g \<or> pid c = server_pid d)"

definition is_server :: "proc option \<Rightarrow> display \<Rightarrow> bool" where
  "is_server cur d = (case cur of None \<Rightarrow> False | Some c \<Rightarrow> pid c = server_pid d)"

definition display_set_flags :: "proc option \<Rightarrow> int \<Rightarrow> int \<Rightarrow> display \<Rightarrow> int \<times> display" where
  "display_set_flags cur wid flags d =
     (case win_by_id d wid of None \<Rightarrow> (-1, d)
      | Some i \<Rightarrow> if \<not> may_touch cur (gwins d ! i) d then (-1, d)
          else (0, set_win i ((gwins d ! i)\<lparr>gw_flags := flags\<rparr>) d))"

definition display_set_title :: "proc option \<Rightarrow> int \<Rightarrow> string option \<Rightarrow> display \<Rightarrow> int \<times> display" where
  "display_set_title cur wid title d =
     (case win_by_id d wid of None \<Rightarrow> (-1, d)
      | Some i \<Rightarrow> if \<not> may_touch cur (gwins d ! i) d then (-1, d)
          else case title of None \<Rightarrow> (-1, d)
            | Some t \<Rightarrow> (0, set_win i ((gwins d ! i)\<lparr>gw_title := strncpy_val t GUI_TITLE_MAX, gw_damage := True\<rparr>) d))"

text \<open>The title as copied into a buffer of \<open>n\<close> bytes.\<close>

definition display_get_title :: "int \<Rightarrow> int \<Rightarrow> display \<Rightarrow> string option" where
  "display_get_title wid n d =
     (case win_by_id d wid of None \<Rightarrow> None
      | Some i \<Rightarrow> if n \<le> 0 then None else Some (strncpy_val (gw_title (gwins d ! i)) (nat n)))"

definition display_next_new :: "proc option \<Rightarrow> display \<Rightarrow> int" where
  "display_next_new cur d =
     (if \<not> is_server cur d then -1
      else case first_from (\<lambda>g. gw_used g \<and> \<not> gw_mapped g) (gwins d) 0 of None \<Rightarrow> -1
        | Some i \<Rightarrow> gw_id (gwins d ! i))"

definition display_ack_map :: "proc option \<Rightarrow> int \<Rightarrow> display \<Rightarrow> int \<times> display" where
  "display_ack_map cur wid d =
     (case win_by_id d wid of None \<Rightarrow> (-1, d)
      | Some i \<Rightarrow> if \<not> is_server cur d then (-1, d) else (0, set_win i ((gwins d ! i)\<lparr>gw_mapped := True\<rparr>) d))"

definition display_ack_damage :: "proc option \<Rightarrow> int \<Rightarrow> display \<Rightarrow> int \<times> display" where
  "display_ack_damage cur wid d =
     (case win_by_id d wid of None \<Rightarrow> (-1, d)
      | Some i \<Rightarrow> if \<not> is_server cur d then (-1, d) else (0, set_win i ((gwins d ! i)\<lparr>gw_damage := False\<rparr>) d))"

definition display_find_pid :: "int \<Rightarrow> display \<Rightarrow> int" where
  "display_find_pid p d =
     (if p \<le> 0 then -1
      else case first_from (\<lambda>g. gw_used g \<and> client_pid g = p) (gwins d) 0 of None \<Rightarrow> -1
        | Some i \<Rightarrow> gw_id (gwins d ! i))"

section \<open>Launch requests\<close>

definition display_request_launch :: "string option \<Rightarrow> string option \<Rightarrow> display \<Rightarrow> int \<times> display" where
  "display_request_launch path argv d =
     (case path of None \<Rightarrow> (-1, d)
      | Some p \<Rightarrow>
        if server_pid d = 0 \<or> cget p 0 = NUL then (-1, d)
        else case first_from (\<lambda>q. \<not> lr_used q) (launch_q d) 0 of None \<Rightarrow> (-1, d)
          | Some i \<Rightarrow>
            (0, d\<lparr>launch_q := (launch_q d)[i := \<lparr>lr_used = True, lr_path = strncpy_val p GUI_LAUNCH_MAX,
                lr_argv = (case argv of Some a \<Rightarrow> if cget a 0 \<noteq> NUL then strncpy_val a GUI_LAUNCH_MAX else []
                           | None \<Rightarrow> [])\<rparr>]\<rparr>))"

text \<open>The bytes copied into the buffer of \<open>n\<close> bytes: path, terminator, arguments, terminator.\<close>

definition display_take_launch :: "proc option \<Rightarrow> int \<Rightarrow> display \<Rightarrow> string option \<times> display" where
  "display_take_launch cur n d =
     (if \<not> is_server cur d \<or> n < 4 then (None, d)
      else case first_from lr_used (launch_q d) 0 of None \<Rightarrow> (None, d)
        | Some i \<Rightarrow> let q = launch_q d ! i in
          if int (length (lr_path q) + length (lr_argv q) + 3) > n then (None, d)
          else (Some (lr_path q @ NUL # lr_argv q @ [NUL]),
                d\<lparr>launch_q := (launch_q d)[i := q\<lparr>lr_used := False\<rparr>]\<rparr>))"

section \<open>Events\<close>

text \<open>\<^verbatim>\<open>for (i = ev_r; i != ev_w; i = (i + 1) % GUI_EVT_MAX)\<close>: the queued event of a type.\<close>

definition queued_slots :: "gui_win \<Rightarrow> nat list" where
  "queued_slots g = map (\<lambda>i. (ev_r g + i) mod GUI_EVT_MAX) [0..<(ev_w g + GUI_EVT_MAX - ev_r g) mod GUI_EVT_MAX]"

definition find_evt :: "gui_win \<Rightarrow> u32 \<Rightarrow> nat option" where
  "find_evt g ty = find (\<lambda>i. ev_type (gw_ev g ! i) = ty) (queued_slots g)"

abbreviation set_evt :: "nat \<Rightarrow> (gui_evt \<Rightarrow> gui_evt) \<Rightarrow> gui_win \<Rightarrow> gui_win" where
  "set_evt i f g \<equiv> g\<lparr>gw_ev := (gw_ev g)[i := f (gw_ev g ! i)]\<rparr>"

definition post_to :: "u32 \<Rightarrow> int \<Rightarrow> int \<Rightarrow> int \<Rightarrow> int \<Rightarrow> gui_win \<Rightarrow> int \<times> gui_win" where
  "post_to ty key x y buttons g =
     (let last' = (ev_w g + GUI_EVT_MAX - 1) mod GUI_EVT_MAX; next' = (ev_w g + 1) mod GUI_EVT_MAX in
      case (if ty = INP_RESIZE then find_evt g INP_RESIZE else None) of
        Some i \<Rightarrow> (0, set_evt i (\<lambda>e. e\<lparr>ev_x := x, ev_y := y\<rparr>) g)
      | None \<Rightarrow>
        if ty = INP_MOUSE \<and> ev_r g \<noteq> ev_w g \<and> ev_type (gw_ev g ! last') = INP_MOUSE then
          (0, set_evt last' (\<lambda>e. e\<lparr>ev_x := x, ev_y := y, ev_buttons := buttons\<rparr>) g)
        else if next' = ev_r g then
          (case (if ty = INP_MOUSE then find_evt g INP_MOUSE else None) of
             Some i \<Rightarrow> (0, set_evt i (\<lambda>e. e\<lparr>ev_x := x, ev_y := y, ev_buttons := buttons\<rparr>) g)
           | None \<Rightarrow> (-1, g))
        else (0, g\<lparr>gw_ev := (gw_ev g)[ev_w g := \<lparr>ev_type = ty, ev_key = key, ev_x = x, ev_y = y, ev_buttons = buttons\<rparr>],
                   ev_w := next'\<rparr>))"

definition display_post_event ::
  "proc option \<Rightarrow> int \<Rightarrow> u32 \<Rightarrow> int \<Rightarrow> int \<Rightarrow> int \<Rightarrow> int \<Rightarrow> display \<Rightarrow> int \<times> display" where
  "display_post_event cur wid ty key x y buttons d =
     (case win_by_id d wid of None \<Rightarrow> (-1, d)
      | Some i \<Rightarrow>
        (case cur of None \<Rightarrow> (-1, d)
         | Some c \<Rightarrow>
           if pid c \<noteq> server_pid d \<and> \<not> cons_host c then (-1, d)
           else let (r, g) = post_to ty key x y buttons (gwins d ! i) in (r, set_win i g d)))"

definition take_evt :: "gui_win \<Rightarrow> gui_evt option \<times> gui_win" where
  "take_evt g =
     (if ev_r g = ev_w g then (None, g)
      else (Some (gw_ev g ! ev_r g), g\<lparr>ev_r := (ev_r g + 1) mod GUI_EVT_MAX\<rparr>))"

text \<open>The event returned through the pointers, or none (the code's 0).\<close>

definition display_poll_event :: "proc option \<Rightarrow> int \<Rightarrow> display \<Rightarrow> gui_evt option \<times> display" where
  "display_poll_event cur wid d =
     (case win_by_id d wid of None \<Rightarrow> (None, d)
      | Some i \<Rightarrow>
        (case cur of None \<Rightarrow> (None, d)
         | Some c \<Rightarrow>
           if pid c \<noteq> client_pid (gwins d ! i) then (None, d)
           else let (e, g) = take_evt (gwins d ! i) in (e, set_win i g d)))"

section \<open>Resizing\<close>

text \<open>\<^verbatim>\<open>npix[y * w + x] = gw->pixels[y * gw->w + x]\<close> for the rows and columns both sizes have.\<close>

definition pixel_addr :: "u32 \<Rightarrow> int \<Rightarrow> nat \<Rightarrow> nat \<Rightarrow> u32" where
  "pixel_addr base w x y = base + 4 * (of_nat y * of_int w + of_nat x)"

definition copy_pixel :: "u32 \<Rightarrow> int \<Rightarrow> u32 \<Rightarrow> int \<Rightarrow> nat \<Rightarrow> nat \<Rightarrow> memory \<Rightarrow> memory" where
  "copy_pixel npix w pix gw y x mm = mem_set_word mm (pixel_addr npix w x y) (mem_word mm (pixel_addr pix gw x y))"

definition copy_pixels :: "u32 \<Rightarrow> int \<Rightarrow> u32 \<Rightarrow> int \<Rightarrow> nat \<Rightarrow> nat \<Rightarrow> memory \<Rightarrow> memory" where
  "copy_pixels npix w pix gw cw ch mm =
     fold (\<lambda>y. fold (copy_pixel npix w pix gw y) [0..<cw]) [0..<ch] mm"

definition display_resize :: "proc option \<Rightarrow> int \<Rightarrow> int \<Rightarrow> int \<Rightarrow> display \<times> mm \<Rightarrow> int \<times> display \<times> mm" where
  "display_resize cur wid w h = (\<lambda>(d, m).
     case win_by_id d wid of None \<Rightarrow> (-1, d, m)
     | Some i \<Rightarrow> let g = gwins d ! i in
       if \<not> is_server cur d then (-1, d, m)
       else if bad_size w h then (-1, d, m)
       else if w = gw_w g \<and> h = gw_h g then (0, d, m)
       else (case mm_alloc_pages (pages_of w h) m of (None, m) \<Rightarrow> (-1, d, m)
         | (Some npix, m) \<Rightarrow>
           let m = m\<lparr>mem := kmemset (mem m) npix 0 (pages_of w h * PAGE_SIZE)\<rparr>;
               cw = nat (if w < gw_w g then w else gw_w g);
               ch = nat (if h < gw_h g then h else gw_h g);
               m = m\<lparr>mem := copy_pixels npix w (gw_pixels g) (gw_w g) cw ch (mem m)\<rparr>;
               m = free_pixels g m;
               d = set_win i (g\<lparr>gw_pixels := npix, gw_pages := pages_of w h, gw_w := w, gw_h := h, gw_damage := True\<rparr>) d
           in (0, snd (display_post_event cur wid INP_RESIZE 0 w h 0 d), m)))"

end
