(* ===== verification/Wm.thy ===== *)
theory Wm
  imports Term Display
begin

text \<open>
  The window manager (\<^verbatim>\<open>user/gui/wm.c\<close>) with the window service it asks: windows and their frames, the stack, the task bar,
  the focus, presses, drags and resizes, Alt-Tab, desktop icons, programs it starts and windows it takes in. The windows are those of clients
  (\<^verbatim>\<open>APP_EXT\<close>): nothing opens the other kinds. Drawing is left out.
\<close>

section \<open>State\<close>

definition SCREEN_W :: int where "SCREEN_W = 1024"
definition SCREEN_H :: int where "SCREEN_H = 768"
definition PANEL_H :: int where "PANEL_H = 32"
definition TITLE_H :: int where "TITLE_H = 22"
definition CAP_BTN :: int where "CAP_BTN = 14"
definition CAP_GAP :: int where "CAP_GAP = 2"
definition RESIZE_GRIP :: int where "RESIZE_GRIP = 5"
definition MAX_WIN :: nat where "MAX_WIN = 8"
definition INP_CLOSE :: u32 where "INP_CLOSE = 4"
definition GUI_FLAG_RESIZABLE :: int where "GUI_FLAG_RESIZABLE = 1"
definition GUI_FLAG_CLOSE_HOOK :: int where "GUI_FLAG_CLOSE_HOOK = 2"
definition GUI_FLAG_NO_MINMAX :: int where "GUI_FLAG_NO_MINMAX = 4"
definition GUI_FLAG_POPUP :: int where "GUI_FLAG_POPUP = 8"

datatype caption = CAP_NONE | CAP_MIN | CAP_MAX | CAP_CLOSE

record win =
  n_open :: bool
  n_x :: int
  n_y :: int
  n_w :: int
  n_h :: int
  n_title :: string
  n_gui :: int
  n_pid :: int
  n_cw :: int
  n_ch :: int
  n_resizable :: bool
  n_minmax :: bool
  n_maximized :: bool
  n_minimized :: bool
  n_popup :: bool
  n_rest :: "int \<times> int \<times> int \<times> int"
  n_rest_client :: "int \<times> int"

definition blank_slot :: win where
  "blank_slot = \<lparr>n_open = False, n_x = 0, n_y = 0, n_w = 0, n_h = 0, n_title = [], n_gui = 0, n_pid = 0, n_cw = 0, n_ch = 0,
     n_resizable = False, n_minmax = False, n_maximized = False, n_minimized = False, n_popup = False, n_rest = (0, 0, 0, 0),
     n_rest_client = (0, 0)\<rparr>"

record edges =
  rz_l :: bool
  rz_r :: bool
  rz_t :: bool
  rz_b :: bool

definition no_edges :: edges where "no_edges = \<lparr>rz_l = False, rz_r = False, rz_t = False, rz_b = False\<rparr>"

record desk_icon =
  ic_name :: string
  ic_path :: string
  ic_argv :: string
  ic_x :: int
  ic_y :: int

text \<open>Calls that reach other processes: kills, and starts with what is left in \<^verbatim>\<open>/sys/run/argv\<close>.\<close>

datatype wm_call = Kill int | Start string string | Beep int int

text \<open>\<open>m_launches\<close> holds the sessions of started programs, \<open>None\<close> a free slot; \<open>m_resize\<close> the edges held, the pointer, the
  client size and the place when they were taken.\<close>

record wm =
  m_wins :: "win list"
  m_z :: "nat list"
  m_tasks :: "nat list"
  m_focus :: "nat option"
  m_mx :: int
  m_my :: int
  m_btn :: int
  m_prev :: int
  m_drag :: "(int \<times> int) option"
  m_resize :: "(edges \<times> (int \<times> int) \<times> (int \<times> int) \<times> (int \<times> int)) option"
  m_cap :: caption
  m_cap_id :: "nat option"
  m_icons :: "desk_icon list"
  m_desk_sel :: "nat option"
  m_last_icon :: "nat option"
  m_alt :: bool
  m_alt_idx :: nat
  m_client_btn :: bool
  m_launches :: "session option list"
  m_running :: bool
  m_disp :: display
  m_mem :: mm
  m_log :: "wm_call list"

definition the_win :: "wm \<Rightarrow> nat \<Rightarrow> win" where "the_win S i = m_wins S ! i"

definition set_w :: "nat \<Rightarrow> (win \<Rightarrow> win) \<Rightarrow> wm \<Rightarrow> wm" where
  "set_w i f S = S\<lparr>m_wins := (m_wins S)[i := f (m_wins S ! i)]\<rparr>"

definition gui_ask :: "(display \<times> mm \<Rightarrow> int \<times> display \<times> mm) \<Rightarrow> wm \<Rightarrow> int \<times> wm" where
  "gui_ask f S = (case f (m_disp S, m_mem S) of (r, d, m) \<Rightarrow> (r, S\<lparr>m_disp := d, m_mem := m\<rparr>))"

definition disp_call :: "(display \<Rightarrow> 'a \<times> display) \<Rightarrow> wm \<Rightarrow> 'a \<times> wm" where
  "disp_call f S = (case f (m_disp S) of (r, d) \<Rightarrow> (r, S\<lparr>m_disp := d\<rparr>))"

section \<open>Geometry\<close>

definition gui_hit :: "int \<Rightarrow> int \<Rightarrow> int \<Rightarrow> int \<Rightarrow> int \<Rightarrow> int \<Rightarrow> bool" where
  "gui_hit mx my x y w h \<longleftrightarrow> mx \<ge> x \<and> my \<ge> y \<and> mx < x + w \<and> my < y + h"

definition win_frame_x :: "win \<Rightarrow> int" where
  "win_frame_x w = (if n_maximized w \<or> n_popup w then 0 else if n_resizable w then 5 else 2)"

definition win_frame_top :: "win \<Rightarrow> int" where
  "win_frame_top w = (if n_maximized w \<or> n_popup w then 0 else if n_resizable w then 5 else 2)"

definition win_frame_bot :: "win \<Rightarrow> int" where
  "win_frame_bot w = (if n_maximized w \<or> n_popup w then 0 else if n_resizable w then 5 else 2)"

definition client_ox :: "win \<Rightarrow> int" where "client_ox w = n_x w + win_frame_x w"

definition client_oy :: "win \<Rightarrow> int" where
  "client_oy w = (if n_popup w then n_y w else n_y w + win_frame_top w + TITLE_H)"

definition caption_btn_xy :: "win \<Rightarrow> caption \<Rightarrow> int \<times> int" where
  "caption_btn_xy w which =
     (let idx = (if which = CAP_MAX then 1 else if which = CAP_MIN then 2 else 0)
      in (n_x w + n_w w - win_frame_x w - 2 - CAP_BTN - idx * (CAP_BTN + CAP_GAP), n_y w + win_frame_top w + 4))"

definition caption_hit :: "win \<Rightarrow> int \<Rightarrow> int \<Rightarrow> caption" where
  "caption_hit w x y =
     (let on = (\<lambda>c. case caption_btn_xy w c of (bx, by) \<Rightarrow> gui_hit x y bx by CAP_BTN CAP_BTN) in
      if n_popup w then CAP_NONE
      else if on CAP_CLOSE then CAP_CLOSE
      else if n_minmax w \<and> on CAP_MAX then CAP_MAX
      else if n_minmax w \<and> on CAP_MIN then CAP_MIN
      else CAP_NONE)"

definition resize_hit_edges :: "win \<Rightarrow> int \<Rightarrow> int \<Rightarrow> edges" where
  "resize_hit_edges w x y =
     (let fx = win_frame_x w; ft = win_frame_top w; fb = win_frame_bot w in
      if \<not> n_resizable w \<or> n_popup w \<or> n_maximized w then no_edges
      else if gui_hit x y (n_x w + n_w w - RESIZE_GRIP) (n_y w + n_h w - RESIZE_GRIP) RESIZE_GRIP RESIZE_GRIP
        then no_edges\<lparr>rz_r := True, rz_b := True\<rparr>
      else \<lparr>rz_l = gui_hit x y (n_x w) (n_y w) (fx + 2) (n_h w),
            rz_r = gui_hit x y (n_x w + n_w w - fx - 2) (n_y w) (fx + 2) (n_h w),
            rz_t = gui_hit x y (n_x w) (n_y w) (n_w w) (ft + 2),
            rz_b = gui_hit x y (n_x w) (n_y w + n_h w - fb - 2) (n_w w) (fb + 2)\<rparr>)"

definition win_hit :: "win \<Rightarrow> int \<Rightarrow> int \<Rightarrow> bool" where
  "win_hit w x y \<longleftrightarrow> n_open w \<and> \<not> n_minimized w \<and> gui_hit x y (n_x w) (n_y w) (n_w w) (n_h w)"

definition top_win_at :: "wm \<Rightarrow> int \<Rightarrow> int \<Rightarrow> nat option" where
  "top_win_at S x y = find (\<lambda>i. win_hit (the_win S i) x y) (rev (m_z S))"

text \<open>Whether the pixel of a window is covered, for the drawing of its client.\<close>

definition win_obscured_at :: "wm \<Rightarrow> nat \<Rightarrow> int \<Rightarrow> int \<Rightarrow> bool" where
  "win_obscured_at S i x y \<longleftrightarrow>
     y \<ge> SCREEN_H - PANEL_H \<or> i \<notin> set (m_z S) \<or>
     list_ex (\<lambda>j. win_hit (the_win S j) x y) (tl (dropWhile (\<lambda>j. j \<noteq> i) (m_z S)))"

section \<open>Windows\<close>

definition win_raise :: "nat \<Rightarrow> wm \<Rightarrow> wm" where
  "win_raise i S =
     (if \<not> n_open (the_win S i) then S
      else (set_w i (\<lambda>w. w\<lparr>n_minimized := False\<rparr>) S)
        \<lparr>m_z := (if i \<in> set (m_z S) then remove1 i (m_z S) @ [i] else m_z S), m_focus := Some i\<rparr>)"

definition top_of :: "nat list \<Rightarrow> nat option" where
  "top_of z = (if z = [] then None else Some (last z))"

definition launch_stop_pid :: "int \<Rightarrow> wm \<Rightarrow> wm" where
  "launch_stop_pid p S =
     (if p < 0 then S
      else case first_from (\<lambda>l. \<exists>s \<in> set_option l. s_pid s = p) (m_launches S) 0 of
        None \<Rightarrow> S
      | Some k \<Rightarrow> S\<lparr>m_launches := (m_launches S)[k := None], m_log := m_log S @ [Kill p]\<rparr>)"

definition win_close :: "proc option \<Rightarrow> nat \<Rightarrow> wm \<Rightarrow> wm" where
  "win_close me i S =
     (if \<not> n_open (the_win S i) then S
      else
        let p = n_pid (the_win S i);
            S = (if n_gui (the_win S i) \<ge> 0 then set_w i (\<lambda>w. w\<lparr>n_gui := -1\<rparr>) (snd (gui_ask (display_destroy me (n_gui (the_win S i))) S)) else S);
            S = (if p \<ge> 0 then S\<lparr>m_log := m_log S @ [Kill p]\<rparr> else S);
            S = set_w i (\<lambda>w. w\<lparr>n_open := False\<rparr>) (launch_stop_pid p S);
            z = remove1 i (m_z S)
        in S\<lparr>m_z := z, m_tasks := remove1 i (m_tasks S), m_focus := top_of z\<rparr>)"

text \<open>\<^verbatim>\<open>flags & f\<close> for a flag of one bit.\<close>

definition win_flag :: "int \<Rightarrow> int \<Rightarrow> bool" where
  "win_flag f flags \<longleftrightarrow> odd (flags div f)"

definition request_win_close :: "proc option \<Rightarrow> nat \<Rightarrow> wm \<Rightarrow> wm" where
  "request_win_close me i S =
     (let w = the_win S i; flags = display_info (n_gui w) 6 (m_disp S) in
      if \<not> n_open w then S
      else if n_gui w \<ge> 0 \<and> flags > 0 \<and> win_flag GUI_FLAG_CLOSE_HOOK flags then
        snd (disp_call (display_post_event me (n_gui w) INP_CLOSE 0 0 0 0) S)
      else win_close me i S)"

definition win_open :: "int \<Rightarrow> int \<Rightarrow> wm \<Rightarrow> nat option \<times> wm" where
  "win_open x y S =
     (case first_from (\<lambda>w. \<not> n_open w) (m_wins S) 0 of None \<Rightarrow> (None, S)
      | Some i \<Rightarrow>
        (Some i, (set_w i (\<lambda>_. blank_slot\<lparr>n_open := True, n_x := x, n_y := y, n_w := 640, n_h := 420, n_minmax := True\<rparr>) S)
          \<lparr>m_z := m_z S @ [i], m_tasks := (if length (m_tasks S) < MAX_WIN then m_tasks S @ [i] else m_tasks S), m_focus := Some i\<rparr>))"

text \<open>A client's window gets its place and frame.\<close>

definition adopt_win :: "int \<Rightarrow> display \<Rightarrow> win \<Rightarrow> win" where
  "adopt_win gid d w =
     (let cw = display_info gid 0 d; ch = display_info gid 1 d; flags = display_info gid 6 d; popup = win_flag GUI_FLAG_POPUP flags;
          w = w\<lparr>n_gui := gid, n_pid := display_info gid 4 d, n_cw := cw, n_ch := ch, n_resizable := win_flag GUI_FLAG_RESIZABLE flags,
                n_popup := popup, n_minmax := (\<not> popup \<and> \<not> win_flag GUI_FLAG_NO_MINMAX flags)\<rparr>;
          w = (if popup then w\<lparr>n_w := cw, n_h := ch, n_x := 0, n_y := max 0 (SCREEN_H - PANEL_H - ch)\<rparr>
               else w\<lparr>n_w := cw + win_frame_x w * 2, n_h := ch + win_frame_top w + TITLE_H + win_frame_bot w\<rparr>)
      in w\<lparr>n_title := (case display_get_title gid 32 d of None \<Rightarrow> ''app'' | Some t \<Rightarrow> t)\<rparr>)"

definition win_open_ext :: "proc option \<Rightarrow> int \<Rightarrow> wm \<Rightarrow> nat option \<times> wm" where
  "win_open_ext me gid S =
     (let d = m_disp S; cw = display_info gid 0 d; ch = display_info gid 1 d; n = int (length (m_z S)) in
      if cw < 32 \<or> ch < 32 \<or> display_info gid 2 d = 0 \<or> display_info gid 4 d < 0 then (None, S)
      else case win_open (48 + n * 12) (48 + n * 10) S of
        (None, S) \<Rightarrow> (None, S)
      | (Some i, S) \<Rightarrow>
        let S = set_w i (adopt_win gid d) S;
            S = (if n_popup (the_win S i) then S\<lparr>m_tasks := remove1 i (m_tasks S)\<rparr> else S)
        in (Some i, snd (disp_call (display_ack_map me gid) S)))"

text \<open>The client is given a new size; \<open>None\<close> when the server refuses.\<close>

definition resize_client :: "proc option \<Rightarrow> nat \<Rightarrow> int \<Rightarrow> int \<Rightarrow> wm \<Rightarrow> wm option" where
  "resize_client me i cw ch S =
     (case gui_ask (display_resize me (n_gui (the_win S i)) cw ch) S of (r, S) \<Rightarrow>
        if r = 0 then Some (set_w i (\<lambda>w. w\<lparr>n_cw := cw, n_ch := ch\<rparr>) S) else None)"

definition try_resize :: "proc option \<Rightarrow> nat \<Rightarrow> int \<Rightarrow> int \<Rightarrow> wm \<Rightarrow> wm" where
  "try_resize me i cw ch S =
     (if n_gui (the_win S i) < 0 then S
      else case resize_client me i cw ch S of Some S \<Rightarrow> S
        | None \<Rightarrow> snd (gui_ask (display_resize me (n_gui (the_win S i)) cw ch) S))"

definition unmaximize :: "proc option \<Rightarrow> nat \<Rightarrow> wm \<Rightarrow> wm" where
  "unmaximize me i S =
     (let S = set_w i (\<lambda>w. case n_rest w of (x, y, ww, h) \<Rightarrow> w\<lparr>n_maximized := False, n_x := x, n_y := y, n_w := ww, n_h := h\<rparr>) S
      in case n_rest_client (the_win S i) of (cw, ch) \<Rightarrow> try_resize me i cw ch S)"

definition apply_maximize :: "proc option \<Rightarrow> nat \<Rightarrow> wm \<Rightarrow> wm" where
  "apply_maximize me i S =
     (let w = the_win S i in
      if \<not> n_open w \<or> (\<not> n_resizable w \<and> \<not> n_maximized w) then S
      else if n_maximized w then unmaximize me i S
      else
        let S = set_w i (\<lambda>w. w\<lparr>n_rest := (n_x w, n_y w, n_w w, n_h w), n_rest_client := (n_cw w, n_ch w), n_maximized := True,
                  n_minimized := False, n_x := 0, n_y := 0, n_w := SCREEN_W, n_h := SCREEN_H - PANEL_H\<rparr>) S;
            w = the_win S i
        in try_resize me i (max 32 (n_w w - win_frame_x w * 2)) (max 32 (n_h w - (win_frame_top w + TITLE_H + win_frame_bot w))) S)"

definition apply_minimize :: "nat \<Rightarrow> wm \<Rightarrow> wm" where
  "apply_minimize i S =
     (if \<not> n_open (the_win S i) then S
      else
        let S = set_w i (\<lambda>w. w\<lparr>n_minimized := True\<rparr>) S
        in if m_focus S = Some i
           then S\<lparr>m_focus := find (\<lambda>j. n_open (the_win S j) \<and> \<not> n_minimized (the_win S j)) (rev (m_z S))\<rparr>
           else S)"

definition apply_restore :: "nat \<Rightarrow> wm \<Rightarrow> wm" where
  "apply_restore i S = (if \<not> n_open (the_win S i) then S else win_raise i (set_w i (\<lambda>w. w\<lparr>n_minimized := False\<rparr>) S))"

text \<open>A maximized window is dragged by its title: it shrinks under the pointer.\<close>

definition restore_from_max_for_drag :: "proc option \<Rightarrow> nat \<Rightarrow> int \<Rightarrow> wm \<Rightarrow> wm" where
  "restore_from_max_for_drag me i mx S =
     (if \<not> n_maximized (the_win S i) then S
      else
        let S = unmaximize me i S; w = the_win S i;
            dx = (if n_w w > 0 then mx - n_x w else (case m_drag S of Some (dx, _) \<Rightarrow> dx | None \<Rightarrow> 0));
            dx = (if dx < 0 then 0 else dx); dx = (if dx > n_w w then n_w w div 2 else dx)
        in S\<lparr>m_drag := map_option (\<lambda>_. (dx, TITLE_H div 2)) (m_drag S)\<rparr>)"

section \<open>Starting programs\<close>

definition launch_app_argv :: "(string \<Rightarrow> bool) \<Rightarrow> int \<Rightarrow> string \<Rightarrow> string \<Rightarrow> wm \<Rightarrow> wm" where
  "launch_app_argv exists spawned path argv S =
     (if \<not> exists path then S
      else case first_from (\<lambda>l. l = None) (m_launches S) 0 of None \<Rightarrow> S
      | Some k \<Rightarrow>
        case term_session_start (exists path) spawned \<lparr>s_pid = 0, s_acc = [], s_caret = 0, s_alive = False, s_painted = False\<rparr> of
          (r, s) \<Rightarrow> let S = S\<lparr>m_log := m_log S @ [Start path argv]\<rparr> in
            if r \<noteq> 0 then S else S\<lparr>m_launches := (m_launches S)[k := Some s]\<rparr>)"

text \<open>A started program that has ended gives its slot back.\<close>

definition launches_pump :: "(nat \<Rightarrow> pump_reply) \<Rightarrow> wm \<Rightarrow> wm" where
  "launches_pump reps S =
     S\<lparr>m_launches := map (\<lambda>k. case m_launches S ! k of None \<Rightarrow> None
         | Some s \<Rightarrow> (case term_session_pump (reps k) s of (running, s, _) \<Rightarrow> if running then Some s else None))
       [0..<length (m_launches S)]\<rparr>"

definition desk_icon_at :: "wm \<Rightarrow> int \<Rightarrow> int \<Rightarrow> nat option" where
  "desk_icon_at S x y = first_from (\<lambda>i. gui_hit x y (ic_x i) (ic_y i) 64 56) (m_icons S) 0"

definition desk_launch_icon :: "(string \<Rightarrow> bool) \<Rightarrow> int \<Rightarrow> nat \<Rightarrow> wm \<Rightarrow> wm" where
  "desk_launch_icon exists spawned k S =
     (if k \<ge> length (m_icons S) \<or> ic_path (m_icons S ! k) = [] then S
      else launch_app_argv exists spawned (ic_path (m_icons S ! k)) (ic_argv (m_icons S ! k)) (S\<lparr>m_log := m_log S @ [Beep 880 40]\<rparr>))"

section \<open>The mouse and the keyboard\<close>

definition dismiss_popups :: "proc option \<Rightarrow> nat option \<Rightarrow> wm \<Rightarrow> wm" where
  "dismiss_popups me except =
     fold (\<lambda>i S. if \<not> n_open (the_win S i) \<or> \<not> n_popup (the_win S i) \<or> Some i = except then S else request_win_close me i S)
       [0..<MAX_WIN]"

definition click_desktop :: "(string \<Rightarrow> bool) \<Rightarrow> int \<Rightarrow> int \<Rightarrow> int \<Rightarrow> wm \<Rightarrow> wm" where
  "click_desktop exists spawned x y S =
     (case desk_icon_at S x y of
        None \<Rightarrow> S\<lparr>m_desk_sel := None, m_last_icon := None\<rparr>
      | Some k \<Rightarrow>
        if m_desk_sel S = Some k \<and> m_last_icon S = Some k
        then (desk_launch_icon exists spawned k S)\<lparr>m_last_icon := None\<rparr>
        else S\<lparr>m_desk_sel := Some k, m_last_icon := Some k\<rparr>)"

text \<open>A press on a window that has just been raised: a caption button, an edge, the title bar or the client.\<close>

definition press_win :: "proc option \<Rightarrow> nat \<Rightarrow> int \<Rightarrow> int \<Rightarrow> wm \<Rightarrow> wm" where
  "press_win me i x y S =
     (let w = the_win S i; cap = caption_hit w x y; es = resize_hit_edges w x y in
      if cap \<noteq> CAP_NONE then
        if cap = CAP_MAX \<and> \<not> n_resizable w \<and> \<not> n_maximized w then S
        else S\<lparr>m_cap := cap, m_cap_id := Some i\<rparr>
      else if es \<noteq> no_edges then
        restore_from_max_for_drag me i x (S\<lparr>m_resize := Some (es, (x, y), (n_cw w, n_ch w), (n_x w, n_y w))\<rparr>)
      else if \<not> n_popup w \<and> gui_hit x y (n_x w) (n_y w) (n_w w) (win_frame_top w + TITLE_H) then
        restore_from_max_for_drag me i x (S\<lparr>m_drag := Some (x - n_x w, y - n_y w)\<rparr>)
      else S)"

text \<open>\<open>panel\<close>: the point is on a button of the panel, which handles its buttons itself.\<close>

definition on_click :: "proc option \<Rightarrow> (string \<Rightarrow> bool) \<Rightarrow> int \<Rightarrow> bool \<Rightarrow> int \<Rightarrow> int \<Rightarrow> wm \<Rightarrow> wm" where
  "on_click me exists spawned panel x y S =
     (let S = S\<lparr>m_alt := False\<rparr>; hit = top_win_at S x y in
      if panel then dismiss_popups me None S
      else
        let S = (if (case hit of None \<Rightarrow> True | Some i \<Rightarrow> \<not> n_popup (the_win S i)) then dismiss_popups me None S else S)
        in case hit of None \<Rightarrow> click_desktop exists spawned x y S | Some i \<Rightarrow> press_win me i x y (win_raise i S))"

definition caption_release :: "proc option \<Rightarrow> int \<Rightarrow> int \<Rightarrow> wm \<Rightarrow> wm" where
  "caption_release me x y S =
     (let which = m_cap S; at = m_cap_id S; S = S\<lparr>m_cap := CAP_NONE, m_cap_id := None\<rparr> in
      case at of None \<Rightarrow> S
      | Some i \<Rightarrow>
        if which = CAP_NONE \<or> \<not> n_open (the_win S i) \<or> caption_hit (the_win S i) x y \<noteq> which then S
        else if which = CAP_CLOSE then request_win_close me i S
        else if which = CAP_MAX then apply_maximize me i S
        else apply_minimize i S)"

definition alt_candidates :: "wm \<Rightarrow> nat list" where
  "alt_candidates S = filter (\<lambda>i. n_open (the_win S i) \<and> \<not> n_popup (the_win S i)) (m_z S)"

text \<open>The place of the next candidate: after the remembered place while Alt-Tab is on, else after the focused window.\<close>

definition alt_next :: "wm \<Rightarrow> nat" where
  "alt_next S =
     (let cs = alt_candidates S; nc = length cs;
          idx = (if m_alt S then m_alt_idx S
                 else case first_from (\<lambda>c. Some c = m_focus S) cs 0 of Some k \<Rightarrow> k | None \<Rightarrow> nc - 1)
      in (idx + 1) mod nc)"

definition alt_tab_cycle :: "wm \<Rightarrow> wm" where
  "alt_tab_cycle S =
     (if alt_candidates S = [] then S
      else let idx = alt_next S; i = alt_candidates S ! idx
        in win_raise i (set_w i (\<lambda>w. w\<lparr>n_minimized := False\<rparr>) (S\<lparr>m_alt := True, m_alt_idx := idx\<rparr>)))"

definition clamp_to :: "int \<Rightarrow> int \<Rightarrow> int" where
  "clamp_to c n = (let c = (if c < 0 then 0 else c) in if c \<ge> n then n - 1 else c)"

definition pack_coord :: "int \<Rightarrow> int" where
  "pack_coord c = (if c < 0 then 0 else if c > 0x3FF then 0x3FF else c)"

text \<open>The pointer goes to the focused client while it is inside, and while a button is held there.\<close>

definition forward_client_pointer :: "proc option \<Rightarrow> wm \<Rightarrow> wm" where
  "forward_client_pointer me S =
     (case m_focus S of None \<Rightarrow> S
      | Some i \<Rightarrow>
        let w = the_win S i; cx = m_mx S - client_ox w; cy = m_my S - client_oy w;
            inside = (cx \<ge> 0 \<and> cy \<ge> 0 \<and> cx < n_cw w \<and> cy < n_ch w)
        in if \<not> n_open w \<or> n_gui w < 0 then S
           else if inside \<or> m_client_btn S \<or> odd (m_btn S) then
             (snd (disp_call (display_post_event me (n_gui w) INP_MOUSE 0 (pack_coord (clamp_to cx (n_cw w))) (pack_coord (clamp_to cy (n_ch w)))
               (m_btn S mod 64)) S))\<lparr>m_client_btn := odd (m_btn S)\<rparr>
           else S)"

text \<open>The size and place an edge drag asks for.\<close>

definition resize_target :: "win \<Rightarrow> edges \<Rightarrow> int \<Rightarrow> int \<Rightarrow> int \<times> int \<Rightarrow> int \<times> int \<Rightarrow> (int \<times> int) \<times> (int \<times> int)" where
  "resize_target w es dx dy base pos =
     (let (bw, bh) = base; (bx, by) = pos;
          nw = (if rz_l es then bw - dx else if rz_r es then bw + dx else bw); nx = (if rz_l es then bx + dx else bx);
          nh = (if rz_t es then bh - dy else if rz_b es then bh + dy else bh); ny = (if rz_t es then by + dy else by);
          nw = max 64 nw; nh = max 40 nh;
          nw = min nw (SCREEN_W - win_frame_x w * 2); nh = min nh (SCREEN_H - PANEL_H - (win_frame_top w + TITLE_H + win_frame_bot w))
      in ((max 0 nx, max 0 ny), (nw, nh)))"

definition apply_resize_drag :: "proc option \<Rightarrow> wm \<Rightarrow> wm" where
  "apply_resize_drag me S =
     (case (m_resize S, m_focus S) of
        (Some (es, (ox, oy), base, pos), Some i) \<Rightarrow>
          let w = the_win S i; ((nx, ny), (nw, nh)) = resize_target w es (m_mx S - ox) (m_my S - oy) base pos in
          if \<not> n_open w \<or> \<not> n_resizable w \<or> n_gui w < 0 then S
          else if nw = n_cw w \<and> nh = n_ch w \<and> nx = n_x w \<and> ny = n_y w then S
          else (case resize_client me i nw nh S of None \<Rightarrow> snd (gui_ask (display_resize me (n_gui w) nw nh) S)
            | Some S \<Rightarrow> set_w i (\<lambda>v. v\<lparr>n_x := nx, n_y := ny, n_w := nw + win_frame_x w * 2,
                n_h := nh + win_frame_top w + TITLE_H + win_frame_bot w\<rparr>) S)
      | _ \<Rightarrow> S)"

text \<open>The window under a title drag follows the pointer; only the first of the two event loops keeps it on the screen.\<close>

definition drag_win :: "bool \<Rightarrow> wm \<Rightarrow> wm" where
  "drag_win clamped S =
     (case (m_drag S, m_focus S) of
        (Some (dx, dy), Some i) \<Rightarrow>
          if \<not> n_open (the_win S i) then S
          else let x = m_mx S - dx; y = m_my S - dy;
                   x = (if clamped \<and> x < 0 then 0 else x); y = (if clamped \<and> y < 0 then 0 else y);
                   y = (if clamped \<and> y > SCREEN_H - PANEL_H - TITLE_H then SCREEN_H - PANEL_H - TITLE_H else y)
            in set_w i (\<lambda>w. w\<lparr>n_x := x, n_y := y\<rparr>) S
      | _ \<Rightarrow> S)"

definition mouse_event :: "proc option \<Rightarrow> (string \<Rightarrow> bool) \<Rightarrow> int \<Rightarrow> bool \<Rightarrow> bool \<Rightarrow> int \<Rightarrow> int \<Rightarrow> int \<Rightarrow> wm \<Rightarrow> wm" where
  "mouse_event me exists spawned panel clamped x y b S =
     (let S = S\<lparr>m_mx := x, m_my := y, m_btn := b\<rparr>;
          S = (if odd b \<and> \<not> odd (m_prev S) then on_click me exists spawned panel x y S else S);
          S = (if \<not> odd b \<and> odd (m_prev S) \<and> m_cap S \<noteq> CAP_NONE then caption_release me x y S else S);
          S = (if \<not> odd b then S\<lparr>m_drag := None, m_resize := None\<rparr> else S)
      in (forward_client_pointer me (apply_resize_drag me (drag_win clamped S)))\<lparr>m_prev := b\<rparr>)"

text \<open>The end of the frame: the place of the pointer as last read, a release and the drags once more.\<close>

definition frame_pointer :: "proc option \<Rightarrow> int \<Rightarrow> int \<Rightarrow> int \<Rightarrow> wm \<Rightarrow> wm" where
  "frame_pointer me x y b S =
     (let S = S\<lparr>m_mx := x, m_my := y, m_btn := b\<rparr>;
          S = (if \<not> odd b \<and> odd (m_prev S) \<and> m_cap S \<noteq> CAP_NONE then caption_release me x y S else S);
          S = (if \<not> odd b then S\<lparr>m_drag := None, m_resize := None\<rparr> else S)
      in (apply_resize_drag me (drag_win False S))\<lparr>m_prev := b\<rparr>)"

text \<open>Tab and Alt-Tab, Alt-F4 and the keys of the focused client; a blank on the bare desktop is a click.\<close>

definition on_key :: "proc option \<Rightarrow> (string \<Rightarrow> bool) \<Rightarrow> int \<Rightarrow> bool \<Rightarrow> int \<Rightarrow> wm \<Rightarrow> wm" where
  "on_key me exists spawned panel key S =
     (let client = (case m_focus S of Some i \<Rightarrow> if n_open (the_win S i) then Some i else None | None \<Rightarrow> None) in
      if key = 0x209 then alt_tab_cycle S
      else if key = 9 \<and> client = None then alt_tab_cycle S
      else case client of
        Some i \<Rightarrow>
          if key = 0x307 then request_win_close me i S
          else if n_gui (the_win S i) \<ge> 0
          then snd (disp_call (display_post_event me (n_gui (the_win S i)) INP_KEY key 0 0 0) S) else S
      | None \<Rightarrow> if key = 32 then on_click me exists spawned panel (m_mx S) (m_my S) S else S)"

definition panel_on_task :: "nat \<Rightarrow> wm \<Rightarrow> wm" where
  "panel_on_task i S =
     (if \<not> n_open (the_win S i) then S
      else if n_minimized (the_win S i) then apply_restore i S
      else if m_focus S = Some i then apply_minimize i S
      else win_raise i S)"

definition panel_on_launchpad :: "(string \<Rightarrow> bool) \<Rightarrow> int \<Rightarrow> wm \<Rightarrow> wm" where
  "panel_on_launchpad exists spawned S =
     launch_app_argv exists spawned ''/sys/gui/launchpad.win'' [] (S\<lparr>m_log := m_log S @ [Beep 520 30]\<rparr>)"

definition panel_on_exit :: "wm \<Rightarrow> wm" where "panel_on_exit S = S\<lparr>m_running := False\<rparr>"

text \<open>The windows on the task bar, with the place and width of each button.\<close>

definition task_buttons :: "wm \<Rightarrow> (nat \<times> int \<times> int) list" where
  "task_buttons S =
     (let ids = filter (\<lambda>i. n_open (the_win S i) \<and> \<not> n_popup (the_win S i)) (m_tasks S); n = int (length ids);
          start = 52; avail = max 0 (SCREEN_W - 8 - 24 - 8 - start);
          bw = (if n > 0 then max 48 (min 140 ((avail - 4 * (n - 1)) div n)) else 48)
      in map (\<lambda>k. (ids ! k, start + int k * (bw + 4), bw)) [0..<length ids])"

section \<open>The frame loop\<close>

text \<open>Windows of new clients, while the server names one.\<close>

partial_function (option) adopt :: "proc option \<Rightarrow> wm \<Rightarrow> wm option" where
  "adopt me S =
     (let gid = display_next_new me (m_disp S) in
      if gid < 0 then Some S else adopt me (snd (win_open_ext me gid S)))"

text \<open>One program a client asked for: whether there was one.\<close>

definition take_launch :: "proc option \<Rightarrow> (string \<Rightarrow> bool) \<Rightarrow> int \<Rightarrow> wm \<Rightarrow> bool \<times> wm" where
  "take_launch me exists spawned S =
     (case disp_call (display_take_launch me 256) S of
        (None, S) \<Rightarrow> (False, S)
      | (Some b, S) \<Rightarrow>
        (True, launch_app_argv exists spawned (takeWhile (\<lambda>c. c \<noteq> NUL) b)
                 (takeWhile (\<lambda>c. c \<noteq> NUL) (drop 1 (dropWhile (\<lambda>c. c \<noteq> NUL) b))) S))"

text \<open>A window whose client is gone is closed; the others take over title and flags.\<close>

definition reap_win :: "proc option \<Rightarrow> nat \<Rightarrow> wm \<Rightarrow> wm" where
  "reap_win me i S =
     (let w = the_win S i; d = m_disp S; flags = display_info (n_gui w) 6 d;
          r = win_flag GUI_FLAG_RESIZABLE flags; mm = (\<not> win_flag GUI_FLAG_NO_MINMAX flags)
      in if \<not> n_open w \<or> n_gui w < 0 then S
         else if display_info (n_gui w) 0 d < 0 then win_close me i (set_w i (\<lambda>w. w\<lparr>n_gui := -1\<rparr>) S)
         else
           let S = (case display_get_title (n_gui w) 32 d of Some t \<Rightarrow> set_w i (\<lambda>w. w\<lparr>n_title := t\<rparr>) S | None \<Rightarrow> S);
               S = (if r \<noteq> n_resizable w then
                      set_w i (\<lambda>w. let w = w\<lparr>n_resizable := r\<rparr>
                        in w\<lparr>n_w := n_cw w + win_frame_x w * 2, n_h := n_ch w + win_frame_top w + TITLE_H + win_frame_bot w\<rparr>) S
                    else S)
           in set_w i (\<lambda>w. w\<lparr>n_minmax := mm\<rparr>) S)"

definition reap_wins :: "proc option \<Rightarrow> wm \<Rightarrow> wm" where
  "reap_wins me = fold (reap_win me) [0..<MAX_WIN]"

text \<open>At the end every started program is killed and every window closed.\<close>

definition close_slot :: "proc option \<Rightarrow> nat \<Rightarrow> wm \<Rightarrow> wm" where
  "close_slot me i S =
     win_close me i (case m_launches S ! i of None \<Rightarrow> S
       | Some s \<Rightarrow> S\<lparr>m_launches := (m_launches S)[i := None], m_log := m_log S @ [Kill (s_pid s)]\<rparr>)"

definition close_all :: "proc option \<Rightarrow> wm \<Rightarrow> wm" where
  "close_all me = fold (close_slot me) [0..<MAX_WIN]"

section \<open>Desktop icons\<close>

text \<open>The arguments, as many as the icon's 64 bytes hold.\<close>

fun icon_args :: "string list \<Rightarrow> string \<Rightarrow> string" where
  "icon_args [] out = out"
| "icon_args (a # as) out =
     (if length out + length a + 2 \<ge> 64 then out else icon_args as ((if out = [] then [] else out @ '' '') @ a))"

text \<open>The program a line names: as a path, in \<^verbatim>\<open>/sys/gui\<close> with or without its ending, or in \<^verbatim>\<open>/sys/bin\<close>.\<close>

definition desk_resolve_cmd :: "(string \<Rightarrow> bool) \<Rightarrow> string \<Rightarrow> (string \<times> string) option" where
  "desk_resolve_cmd exists cmdline =
     (case split_args (strncpy_val cmdline 96) 8 of [] \<Rightarrow> None
      | cmd # args \<Rightarrow>
        let gui = ''/sys/gui/'' @ strncpy_val cmd (128 - 9); bin = ''/sys/bin/'' @ strncpy_val cmd (128 - 9);
            path = (if hd cmd = slash then (if exists cmd then strncpy_val cmd 96 else [])
                    else if exists gui then strncpy_val gui 96
                    else if length gui + 4 < 128 \<and> exists (gui @ ''.win'') then strncpy_val (gui @ ''.win'') 96
                    else if exists bin then strncpy_val bin 96 else [])
        in if path = [] then None else Some (path, icon_args args []))"

text \<open>The lines of a file, ended by a line feed or a carriage return, the last by its end.\<close>

definition in_line :: "char \<Rightarrow> bool" where "in_line c \<longleftrightarrow> c \<noteq> newline \<and> c \<noteq> CHR 0x0D"

function file_lines :: "string \<Rightarrow> string list" where
  "file_lines s = takeWhile in_line s # (if dropWhile in_line s = [] then [] else file_lines (tl (dropWhile in_line s)))"
  by pat_completeness auto
termination
proof (relation "measure length")
  fix s assume "dropWhile in_line s \<noteq> []"
  then show "(tl (dropWhile in_line s), s) \<in> measure length"
    using length_dropWhile_le [of in_line s] by (cases "dropWhile in_line s") auto
qed simp

declare file_lines.simps [simp del]

text \<open>Icons fill columns of eight. A line is a name, a tab and a command.\<close>

primrec icon_lines :: "(string \<Rightarrow> bool) \<Rightarrow> string list \<Rightarrow> desk_icon list \<Rightarrow> desk_icon list" where
  "icon_lines exists [] icons = icons"
| "icon_lines exists (l # ls) icons =
     (let line = strncpy_val l 160; name = takeWhile (\<lambda>c. c \<noteq> CHR 0x09) line; rest = dropWhile (\<lambda>c. c \<noteq> CHR 0x09) line; n = length icons in
      if line = [] \<or> hd line = CHR ''#'' \<or> rest = [] then icon_lines exists ls icons
      else if n \<ge> 12 then icons
      else
        let (path, argv) = (case desk_resolve_cmd exists (tl rest) of None \<Rightarrow> ([], []) | Some pa \<Rightarrow> pa)
        in icon_lines exists ls (icons @ [\<lparr>ic_name = strncpy_val name 40, ic_path = path, ic_argv = argv,
             ic_x = 16 + int (n div 8) * (64 + 12), ic_y = 16 + int (n mod 8) * (56 + 8)\<rparr>]))"

text \<open>The file's text, \<open>None\<close> when it cannot be opened; 2047 bytes of it are read.\<close>

definition load_desktop_icons :: "(string \<Rightarrow> bool) \<Rightarrow> string option \<Rightarrow> desk_icon list" where
  "load_desktop_icons exists text =
     (case text of None \<Rightarrow> [] | Some t \<Rightarrow> icon_lines exists (file_lines (take 2047 t)) [])"

text \<open>Sound is on unless the last line that sets it says otherwise.\<close>

definition load_sound_pref :: "string option \<Rightarrow> bool" where
  "load_sound_pref text =
     (case text of None \<Rightarrow> True
      | Some t \<Rightarrow> fold (\<lambda>l on. let line = strncpy_val l 64 in if take 5 line = ''beep='' then cget line 5 \<noteq> CHR ''0'' else on)
          (file_lines (take 255 t)) True)"

definition wm_init :: "display \<Rightarrow> mm \<Rightarrow> desk_icon list \<Rightarrow> wm" where
  "wm_init d m icons =
     \<lparr>m_wins = replicate MAX_WIN blank_slot, m_z = [], m_tasks = [], m_focus = None, m_mx = SCREEN_W div 2, m_my = SCREEN_H div 2,
      m_btn = 0, m_prev = 0, m_drag = None, m_resize = None, m_cap = CAP_NONE, m_cap_id = None, m_icons = icons, m_desk_sel = None,
      m_last_icon = None, m_alt = False, m_alt_idx = 0, m_client_btn = False, m_launches = replicate MAX_WIN None, m_running = True,
      m_disp = d, m_mem = m, m_log = []\<rparr>"

end
