(* ===== verification/MshSpec.thy ===== *)
theory MshSpec
  imports Msh
begin

text \<open>
  What the shell promises: the history is a window of the log of commands with stable numbers, completion only inserts,
  every line fits its buffer, and what is typed or recalled is what is run.
\<close>

section \<open>The history is a window of the log\<close>

text \<open>Every command ever entered, without empty ones and immediate repetitions.\<close>

definition command_log :: "string list \<Rightarrow> string list" where
  "command_log cmds = remdups_adj (filter (\<lambda>c. c \<noteq> []) cmds)"

lemma remdups_adj_snoc:
  "remdups_adj (xs @ [x]) = (if xs \<noteq> [] \<and> last xs = x then remdups_adj xs else remdups_adj xs @ [x])"
  by (induction xs rule: remdups_adj.induct) auto

lemma last_remdups: "xs \<noteq> [] \<Longrightarrow> last (remdups_adj xs) = last xs"
  by (induction xs rule: remdups_adj.induct) auto

lemma remdups_adj_ne: "remdups_adj xs = [] \<longleftrightarrow> xs = []"
  by (induction xs rule: remdups_adj.induct) auto

lemma command_log_snoc:
  "command_log (cmds @ [c]) =
     (if c = [] \<or> (command_log cmds \<noteq> [] \<and> last (command_log cmds) = c) then command_log cmds else command_log cmds @ [c])"
  by (auto simp: command_log_def remdups_adj_snoc last_remdups remdups_adj_ne)

definition new_shell :: msh where
  "new_shell = \<lparr>hist = [], hist_base = 0, msh_cwd = ''/sys'', msh_oldpwd = ''/''\<rparr>"

lemma hist_window:
  assumes "\<forall>c \<in> set cmds. no_nul c \<and> length c < 256"
  shows "hist (fold hist_add cmds new_shell) = drop (length (command_log cmds) - 64) (command_log cmds) \<and>
    hist_base (fold hist_add cmds new_shell) = length (command_log cmds) - 64"
  using assms
proof (induction cmds rule: rev_induct)
  case Nil
  then show ?case by (simp add: new_shell_def command_log_def)
next
  case (snoc c cmds)
  define L where "L = command_log cmds"
  define m where "m = fold hist_add cmds new_shell"
  have ih: "hist m = drop (length L - 64) L" "hist_base m = length L - 64" using snoc by (auto simp: L_def m_def)
  have s: "strncpy_val c LINE_MAX = c" using snoc.prems by (simp add: strncpy_val_def LINE_MAX_def cstr_id)
  have ne: "hist m = [] \<longleftrightarrow> L = []" using ih(1) by (cases L) auto
  have la: "L \<noteq> [] \<Longrightarrow> last (hist m) = last L" using ih(1) by (simp add: last_drop)
  have lm: "length (hist m) = min 64 (length L)" using ih(1) by simp
  have f: "fold hist_add (cmds @ [c]) new_shell = hist_add c m" by (simp add: m_def)
  show ?case
  proof (cases "c = [] \<or> (L \<noteq> [] \<and> last L = c)")
    case True
    then have "hist_add c m = m" using ne la by (auto simp: hist_add_def)
    moreover have "command_log (cmds @ [c]) = L" using True by (simp add: command_log_snoc L_def)
    ultimately show ?thesis using ih f by simp
  next
    case False
    then have l: "command_log (cmds @ [c]) = L @ [c]" by (auto simp: command_log_snoc L_def)
    have a: "c \<noteq> []" "\<not> (hist m \<noteq> [] \<and> last (hist m) = c)" using False ne la by auto
    show ?thesis
    proof (cases "length L < 64")
      case True
      then have "hist_add c m = m\<lparr>hist := hist m @ [c]\<rparr>" using a lm by (simp add: hist_add_def s HIST_MAX_def)
      with ih f l True show ?thesis by simp
    next
      case F: False
      then have h: "hist_add c m = m\<lparr>hist := tl (hist m) @ [c], hist_base := hist_base m + 1\<rparr>"
        using a lm by (auto simp: hist_add_def s HIST_MAX_def)
      have "tl (drop (length L - 64) L) = drop (Suc (length L) - 64) L" using F by (simp only: tl_drop drop_Suc [symmetric] Suc_diff_le not_less)
      with ih f l F h show ?thesis by (simp add: Suc_diff_le)
    qed
  qed
qed

lemma tl_decimal: "is_digit_char (cget (decimal n) 0)"
proof (induction n rule: decimal.induct)
  case (1 n)
  then show ?case using decimal_ne [of "n div 10"] by (cases "n < 10"; cases "decimal (n div 10)") (auto simp: decimal.simps [of n])
qed

lemma atoi_u_decimal:
  assumes "n < 2 ^ 31"
  shows "atoi_u (decimal n) = int n"
proof -
  have "atoi_loop (decimal n) 0 = of_nat n" using atoi_decimal [of n "[]" 0] by simp
  moreover have "sint (word_of_nat n :: u32) = int n"
    using assms by (simp add: signed_of_nat signed_take_bit_int_eq_self)
  ultimately show ?thesis by (simp add: atoi_u_def)
qed

lemma sint_diff_small:
  assumes "n < 2 ^ 31" and "b < 2 ^ 30"
  shows "sint (word_of_nat n - 1 - word_of_nat b :: u32) = int n - 1 - int b"
proof -
  have "(word_of_nat n - 1 - word_of_nat b :: u32) = word_of_int (int n - 1 - int b)" by simp
  moreover have "- (2 ^ 31) \<le> int n - 1 - int b" "int n - 1 - int b < 2 ^ 31" using assms by auto
  ultimately show ?thesis using signed_of_int [of "int n - 1 - int b", where 'b = 32 and 'a = int]
    by (simp add: signed_take_bit_int_eq_self del: of_int_diff)
qed

text \<open>Property C33. The shell's history is the last 64 commands of everything entered, less empty lines and immediate repetitions, and the numbers the
  \<^verbatim>\<open>history\<close> command prints are places in that log: \<^verbatim>\<open>!n\<close> recalls the n-th command ever entered while it is
  among the last 64, and fails otherwise.\<close>

theorem msh_history_numbers:
  assumes "\<forall>c \<in> set cmds. no_nul c \<and> length c < 256" and "length cmds < 2 ^ 30" and "n < 2 ^ 31"
  shows "let log = command_log cmds; m = fold hist_add cmds new_shell in
    hist m = drop (length log - 64) log \<and>
    cmd_history m = map (\<lambda>i. (i + 1, log ! i)) [length log - 64..<length log] \<and>
    hist_expand (CHR ''!'' # decimal n) m =
      (if length log < n + 64 \<and> 0 < n \<and> n \<le> length log then (1, log ! (n - 1)) else (-1, CHR ''!'' # decimal n))"
proof -
  let ?L = "command_log cmds" and ?m = "fold hist_add cmds new_shell"
  note w = hist_window [OF assms(1)]
  have "length ?L \<le> length (filter (\<lambda>c. c \<noteq> []) cmds)" unfolding command_log_def by (rule remdups_adj_length)
  also have "\<dots> \<le> length cmds" by simp
  also have "\<dots> < 2 ^ 30" by (rule assms)
  finally have len: "length ?L < 2 ^ 30" .
  have h: "length (hist ?m) = min 64 (length ?L)" using w by auto
  have list: "cmd_history ?m = map (\<lambda>i. (i + 1, ?L ! i)) [length ?L - 64..<length ?L]"
  proof (intro nth_equalityI)
    fix i assume "i < length (cmd_history ?m)"
    then show "cmd_history ?m ! i = map (\<lambda>i. (i + 1, ?L ! i)) [length ?L - 64..<length ?L] ! i"
      using w h by (auto simp: cmd_history_def)
  qed (use w h in \<open>auto simp: cmd_history_def\<close>)
  have d: "decimal n \<noteq> []" "is_digit_char (cget (decimal n) 0)" using tl_decimal by simp_all
  have b: "decimal n \<noteq> ''!''" using d(2) by (auto simp: is_digit_char_def)
  have idx: "sint (word_of_nat n - 1 - word_of_nat (hist_base ?m) :: u32) = int n - 1 - int (length ?L - 64)"
    using sint_diff_small [OF assms(3), of "length ?L - 64"] len w by simp
  have e: "hist_expand (CHR ''!'' # decimal n) ?m =
    (let idx = int n - 1 - int (length ?L - 64) in
     if idx < 0 \<or> idx \<ge> int (length (hist ?m)) then (-1, CHR ''!'' # decimal n) else (1, hist ?m ! nat idx))"
    using d b by (simp add: hist_expand_def atoi_u_decimal [OF assms(3)] idx)
  have "hist_expand (CHR ''!'' # decimal n) ?m =
      (if length ?L < n + 64 \<and> 0 < n \<and> n \<le> length ?L then (1, ?L ! (n - 1)) else (-1, CHR ''!'' # decimal n))"
  proof (cases "length ?L < n + 64 \<and> 0 < n \<and> n \<le> length ?L")
    case True
    then have "nat (int n - 1 - int (length ?L - 64)) = n - 1 - (length ?L - 64)" "length ?L - 64 \<le> n - 1" by linarith+
    with True w h show ?thesis unfolding e Let_def by (auto simp: nth_drop)
  next
    case False
    with h show ?thesis unfolding e Let_def by (auto simp: min_def split: if_splits)
  qed
  with list w show ?thesis by (simp add: Let_def)
qed

theorem msh_history_numbers_witness:
  "hist_expand ''!2'' (fold hist_add [''ls'', ''ls'', [], ''cat f''] new_shell) = (1, ''cat f'')"
proof -
  have "decimal 2 = ''2''" "command_log [''ls'', ''ls'', [], ''cat f''] = [''ls'', ''cat f'']" by code_simp+
  then show ?thesis using msh_history_numbers [of "[''ls'', ''ls'', [], ''cat f'']" 2] by (simp add: Let_def)
qed

section \<open>Words\<close>

lemma split_words_plain:
  assumes "list_all (\<lambda>w. w \<noteq> [] \<and> list_all (\<lambda>c. c \<noteq> CHR '' '') w) (w # ws)" and "length (w # ws) \<le> lim"
  shows "split_words (\<lambda>c. c = CHR '' '') lim (w @ concat (map (\<lambda>w. CHR '' '' # w) ws)) = w # ws"
  using assms
proof (induction ws arbitrary: w lim)
  case Nil
  then have w: "takeWhile (\<lambda>c. c \<noteq> CHR '' '') w = w" "dropWhile (\<lambda>c. c \<noteq> CHR '' '') w = []" "dropWhile (\<lambda>c. c = CHR '' '') w = w" "w \<noteq> []"
    by (cases w; simp add: list_all_iff takeWhile_eq_all_conv dropWhile_eq_Nil_conv)+
  have "split_words (\<lambda>c. c = CHR '' '') (lim - 1) [] = []" by (subst split_words.simps) simp
  moreover have "concat (map (\<lambda>w. CHR '' '' # w) []) = []" by simp
  ultimately show ?case using w Nil.prems(2) by (subst split_words.simps) (simp only: Let_def append_Nil2 w drop_Nil if_False if_True, simp)
next
  case (Cons v ws)
  let ?r = "concat (map (\<lambda>w. CHR '' '' # w) (v # ws))"
  have t: "takeWhile (\<lambda>c. c \<noteq> CHR '' '') (w @ ?r) = w" "dropWhile (\<lambda>c. c \<noteq> CHR '' '') (w @ ?r) = ?r"
    using Cons.prems(1) by (simp_all add: list_all_iff takeWhile_append dropWhile_append)
  have d: "dropWhile (\<lambda>c. c = CHR '' '') (w @ ?r) = w @ ?r" "w @ ?r \<noteq> []"
    using Cons.prems(1) by (cases w; simp add: list_all_iff)+
  have "split_words (\<lambda>c. c = CHR '' '') (lim - 1) (v @ concat (map (\<lambda>w. CHR '' '' # w) ws)) = v # ws"
    using Cons.prems by (intro Cons.IH) auto
  then show ?case using Cons.prems(2) d t by (subst split_words.simps) (simp add: Let_def)
qed

text \<open>The shell gives a command its arguments; a pipe sign is one of them.\<close>

theorem pipe_is_argument:
  "run_line ''cat f | head'' new_shell = (None, Spawn ''/sys/bin/cat'' ''f | head'', hist_add ''cat f | head'' new_shell)"
  by code_simp

section \<open>The line editor\<close>

definition line_ok :: "edit_line \<Rightarrow> bool" where
  "line_ok e \<longleftrightarrow> l_cursor e \<le> length (l_text e) \<and> length (l_text e) < LINE_MAX \<and> length (l_yank e) < LINE_MAX"

lemma left_over_le: "left_over p l i \<le> i"
  by (induction p l i rule: left_over.induct) auto

lemma back_blanks_le: "back_blanks l i \<le> i"
  by (induction l i rule: back_blanks.induct) auto

lemma word_left_le: "word_left l c \<le> c"
  using left_over_le [of "\<lambda>c. c \<noteq> CHR '' ''" l "back_blanks l (c - 1)"] back_blanks_le [of l "c - 1"] by (simp add: word_left_def)

lemma word_right_bounds: "c \<le> length l \<Longrightarrow> c \<le> word_right l c \<and> word_right l c \<le> length l"
proof -
  assume c: "c \<le> length l"
  let ?w = "length (takeWhile (\<lambda>c. c \<noteq> CHR '' '') (drop c l))"
  have "?w \<le> length (drop c l)" by (rule length_takeWhile_le)
  moreover have "length (takeWhile (\<lambda>c. c = CHR '' '') (drop ?w (drop c l))) \<le> length (drop ?w (drop c l))"
    by (rule length_takeWhile_le)
  ultimately show ?thesis using c by (simp add: word_right_def Let_def)
qed

lemma delete_range_ok: "line_ok e \<Longrightarrow> a \<le> length (l_text e) \<Longrightarrow> line_ok (delete_range a b e)"
  by (auto simp: line_ok_def delete_range_def Let_def LINE_MAX_def)

lemma line_key_ok: "line_ok e \<Longrightarrow> line_ok (line_key key e)"
  using word_right_bounds [of "l_cursor e" "l_text e"] word_left_le [of "l_text e" "l_cursor e"] delete_range_ok [of e]
  by (auto simp: line_key_def Let_def line_ok_def yank_line_def type_key_def delete_at_def)

text \<open>Whatever keys are typed at the prompt, the line stays within its buffer and the cursor within the line.\<close>

theorem line_keys_bounded: "line_ok e \<Longrightarrow> line_ok (fold line_key keys e)"
  by (induction keys arbitrary: e) (auto intro: line_key_ok)

text \<open>What a kill key removes, the yank key puts back, unless the line is at its longest: then there is no room for what was just
  taken out.\<close>

lemma kill_yank:
  assumes "line_ok e" and "length (l_text e) + 1 < LINE_MAX" and "a < b" and "b \<le> length (l_text e)"
  shows "l_text (line_key 25 (delete_range a b e)) = l_text e \<and> l_cursor (line_key 25 (delete_range a b e)) = b"
proof -
  have t: "take a (l_text e) @ take (b - a) (drop a (l_text e)) @ drop b (l_text e) = l_text e"
    using assms(3) append_take_drop_id [of "b - a" "drop a (l_text e)"] by simp
  have m: "min (b - a) (LINE_MAX - 1) = b - a" using assms by (auto simp: min_def)
  have d: "delete_range a b e = e\<lparr>l_yank := take (b - a) (drop a (l_text e)), l_text := take a (l_text e) @ drop b (l_text e), l_cursor := a\<rparr>"
    using assms m by (simp add: delete_range_def Let_def min_absorb1)
  have k: "line_key 25 e' = yank_line e'" for e' by (simp add: line_key_def Let_def)
  show ?thesis using assms t by (simp add: d k yank_line_def)
qed

theorem kill_keys_yank:
  assumes "line_ok e" and "length (l_text e) + 1 < LINE_MAX"
    and "key = 11 \<and> l_cursor e < length (l_text e) \<or> key = 21 \<and> 0 < l_cursor e"
  shows "l_text (line_key 25 (line_key key e)) = l_text e"
proof -
  have k: "line_key 11 e = delete_range (l_cursor e) (length (l_text e)) e" "line_key 21 e = delete_range 0 (l_cursor e) e"
    by (simp_all add: line_key_def Let_def)
  from assms(3) show ?thesis
  proof
    assume "key = 11 \<and> l_cursor e < length (l_text e)"
    then show ?thesis using kill_yank [OF assms(1,2), of "l_cursor e" "length (l_text e)"] k by simp
  next
    assume "key = 21 \<and> 0 < l_cursor e"
    then show ?thesis using kill_yank [OF assms(1,2), of 0 "l_cursor e"] k assms(1) by (simp add: line_ok_def)
  qed
qed

section \<open>Completion only inserts\<close>

lemma cget_tl: "cget n (Suc i) = cget (tl n) i"
  by (cases n) (simp_all add: cget_def)

lemma match_prefix_Cons:
  "match_prefix n (c # p) (Suc k) \<longleftrightarrow> cget n 0 \<noteq> NUL \<and> cget n 0 = c \<and> match_prefix (tl n) p k"
proof -
  have "[0..<Suc k] = 0 # map Suc [0..<k]" by (simp add: upt_conv_Cons map_Suc_upt del: upt_Suc)
  moreover have "cget (c # p) (Suc i) = cget p i" "cget (c # p) 0 = c" for i by (simp_all add: cget_def)
  ultimately show ?thesis by (simp only: match_prefix_def list.pred_inject list.pred_map o_def cget_tl) auto
qed

lemma match_prefix_take: "match_prefix n p (length p) \<Longrightarrow> take (length p) (cstr n) = p"
proof (induction p arbitrary: n)
  case (Cons c p)
  then have "take (length p) (cstr (tl n)) = p" and "cget n 0 = c" "c \<noteq> NUL" by (auto simp: match_prefix_Cons)
  then show ?case using cstr_step [of n] by simp
qed simp

text \<open>A word begins with what has been typed of it.\<close>

definition starts :: "string \<Rightarrow> string \<Rightarrow> bool" where
  "starts s p \<longleftrightarrow> take (length p) s = p"

lemma starts_append: "starts s p \<Longrightarrow> starts (s @ t) p"
  by (auto simp: starts_def) (metis append_Nil2 append_take_drop_id diff_is_0_eq length_take min.absorb_iff2 nle_le take_all take_append)

lemma starts_strncpy: "match_prefix n p (length p) \<Longrightarrow> length p < k \<Longrightarrow> starts (strncpy_val n k) p"
  using match_prefix_take [of n p] by (simp add: starts_def strncpy_val_def min_absorb1)

lemma list_unique: "try_complete_list l p k force = Unique s \<Longrightarrow> length p < k \<Longrightarrow> starts s p"
proof -
  assume u: "try_complete_list l p k force = Unique s" and k: "length p < k"
  let ?ms = "filter (\<lambda>n. match_prefix n p (length p)) l"
  from u have "?ms \<noteq> []" "s = strncpy_val (last ?ms) k" by (auto simp: try_complete_list_def Let_def split: if_splits)
  moreover from this(1) have "last ?ms \<in> set ?ms" by (rule last_in_set)
  ultimately show ?thesis using starts_strncpy k by auto
qed

lemma list_names_match: "n \<in> set (list_names ls d base dirs room l) \<Longrightarrow> match_prefix n base (length base)"
proof (induction ls d base dirs room l rule: list_names.induct)
  case (1 ls d base dirs room l)
  then show ?case by (subst (asm) (3) list_names.simps) (auto split: prod.splits if_splits)
qed

lemma split_pref_join: "split_pref p = (pre, d, base) \<Longrightarrow> pre @ base = p"
proof -
  assume "split_pref p = (pre, d, base)"
  moreover define b where "b = rev (takeWhile (\<lambda>c. c \<noteq> slash) (rev p))"
  ultimately have "base = b" "pre = take (length p - length b) p" by (auto simp: split_pref_def Let_def)
  moreover have "p = rev (dropWhile (\<lambda>c. c \<noteq> slash) (rev p)) @ b"
    unfolding b_def using takeWhile_dropWhile_id [of "\<lambda>c. c \<noteq> slash" "rev p"] by (metis rev_append rev_rev_ident)
  ultimately show ?thesis by (metis append_eq_conv_conj length_append add_diff_cancel_right')
qed

lemma path_unique: "try_complete_path ls p k dirs force = Unique s \<Longrightarrow> length p < k \<Longrightarrow> starts s p"
proof -
  assume u: "try_complete_path ls p k dirs force = Unique s" and k: "length p < k"
  obtain pre d base where sp: "split_pref p = (pre, d, base)" by (metis prod_cases3)
  have p: "p = pre @ base" using split_pref_join [OF sp] by simp
  from u obtain l where names: "list_names ls d base dirs 32 l \<noteq> []" and s: "s = path_word ls pre (last (list_names ls d base dirs 32 l)) k dirs"
    by (force simp: try_complete_path_def Let_def sp split: option.splits if_splits)
  define n where "n = last (list_names ls d base dirs 32 l)"
  have up: "take (k - 1) pre = pre" "length pre + length base < k" using k p by auto
  have "match_prefix n base (length base)" using list_names_match last_in_set [OF names] unfolding n_def by blast
  then have "starts (strncpy_val n (k - length pre)) base" using up by (intro starts_strncpy) auto
  then have "starts (pre @ strncpy_val n (k - length pre)) p" by (simp add: p starts_def)
  then show ?thesis unfolding s path_word_def n_def [symmetric] Let_def up(1) by (auto intro: starts_append simp del: append_assoc)
qed

lemma tab_word_unique: "tab_word ls force l start p = Unique s \<Longrightarrow> length p < 96 \<Longrightarrow> starts s p"
  by (auto simp: tab_word_def Let_def split: if_splits dest: list_unique path_unique)

text \<open>The statement of \<open>tab_only_inserts\<close>, as the lemma the rest uses.\<close>

lemma tab_inserts:
  assumes "l_cursor e \<le> length (l_text e)" and "do_tab ls armed e = (res, e', armed')"
  shows "(\<exists>ins. l_text e' = take (l_cursor e) (l_text e) @ ins @ drop (l_cursor e) (l_text e) \<and>
      l_cursor e' = l_cursor e + length ins \<and> (ins \<noteq> [] \<longrightarrow> length (l_text e') < LINE_MAX)) \<and>
    l_yank e' = l_yank e \<and> (e' \<noteq> e \<longrightarrow> (\<exists>w. res = Unique w)) \<and> (armed' \<longrightarrow> res = No_match)"
proof -
  let ?l = "l_text e" and ?c = "l_cursor e"
  define s where "s = left_over (\<lambda>c. c \<noteq> CHR '' '') ?l ?c"
  have sc: "s \<le> ?c" unfolding s_def by (rule left_over_le)
  let ?p = "take (?c - s) (drop s ?l)"
  have lp: "length ?p = ?c - s" using assms(1) by simp
  have same: "\<exists>ins. ?l = take ?c ?l @ ins @ drop ?c ?l \<and> ?c = ?c + length ins \<and> (ins \<noteq> [] \<longrightarrow> length ?l < LINE_MAX)"
    by (rule exI [of _ "[]"]) simp
  note d = assms(2) [unfolded do_tab_def Let_def, folded s_def]
  show ?thesis
  proof (cases "\<exists>out. ?c - s < 96 \<and> tab_word ls armed ?l s ?p = Unique out \<and>
      \<not> (length out < ?c - s \<or> length ?l + (length out - (?c - s)) + 1 \<ge> LINE_MAX)")
    case True
    then obtain out where o: "?c - s < 96" "tab_word ls armed ?l s ?p = Unique out" "?c - s \<le> length out"
      "length ?l + (length out - (?c - s)) + 1 < LINE_MAX" by (auto simp: not_less)
    have "starts out ?p" using tab_word_unique [OF o(2)] o(1) lp by simp
    then have "take (?c - s) out = ?p" unfolding starts_def lp .
    then have out: "out = ?p @ drop (?c - s) out" by (metis append_take_drop_id)
    have e': "res = Unique out" "e' = e\<lparr>l_text := take s ?l @ out @ drop ?c ?l, l_cursor := s + length out\<rparr>" "\<not> armed'"
      using d o by (auto simp: not_less)
    have "take s ?l @ ?p = take ?c ?l" using sc by (metis le_add_diff_inverse take_add)
    then have "take s ?l @ out = take ?c ?l @ drop (?c - s) out" by (subst out) simp
    then have "l_text e' = take ?c ?l @ drop (?c - s) out @ drop ?c ?l" using e'(2) by (metis append.assoc edit_line.select_convs(1) edit_line.surjective edit_line.update_convs(1,2))
    moreover have "l_cursor e' = ?c + length (drop (?c - s) out)" using e'(2) sc o(3) by simp
    moreover from calculation(1) have "length (l_text e') < LINE_MAX" using o assms(1) by simp
    ultimately show ?thesis using e' by auto
  next
    case False
    then have "e' = e \<and> (armed' \<longrightarrow> res = No_match \<or> armed)" using d by (auto split: if_splits completion.splits)
    moreover have "armed' \<longrightarrow> res = No_match" using False d by (auto split: if_splits completion.splits)
    ultimately show ?thesis using same by auto
  qed
qed

text \<open>Property C34. Tab never changes what is typed: it leaves the line alone or inserts text at the cursor, moves the cursor behind it, and keeps the
  line in its buffer; a list of candidates or no candidate leaves the line as it is. This holds for every listing the kernel may give.\<close>

theorem tab_only_inserts:
  assumes "l_cursor e \<le> length (l_text e)" and "do_tab ls armed e = (res, e', armed')"
  shows "(\<exists>ins. l_text e' = take (l_cursor e) (l_text e) @ ins @ drop (l_cursor e) (l_text e) \<and>
      l_cursor e' = l_cursor e + length ins \<and> (ins \<noteq> [] \<longrightarrow> length (l_text e') < LINE_MAX)) \<and>
    l_yank e' = l_yank e \<and> (e' \<noteq> e \<longrightarrow> (\<exists>w. res = Unique w)) \<and> (armed' \<longrightarrow> res = No_match)"
  using tab_inserts [OF assms] .

theorem tab_only_inserts_witness:
  "do_tab (\<lambda>_ _. None) False \<lparr>l_text = ''uname'', l_cursor = 2, l_yank = []\<rparr> =
     (Unique ''uname'', \<lparr>l_text = ''unameame'', l_cursor = 5, l_yank = []\<rparr>, False) \<and>
   (\<exists>ins. ''unameame'' = ''un'' @ ins @ ''ame'')"
proof -
  have d: "do_tab (\<lambda>_ _. None) False \<lparr>l_text = ''uname'', l_cursor = 2, l_yank = []\<rparr> =
     (Unique ''uname'', \<lparr>l_text = ''unameame'', l_cursor = 5, l_yank = []\<rparr>, False)" by code_simp
  then show ?thesis using tab_only_inserts [OF _ d] by auto
qed

section \<open>Every line the prompt gives back\<close>

definition reader_ok :: "msh \<Rightarrow> reader \<Rightarrow> bool" where
  "reader_ok m r \<longleftrightarrow> line_ok (edit r) \<and> (\<forall>p. at_hist r = Some p \<longrightarrow> p < length (hist m)) \<and> (\<forall>q. search r = Some q \<longrightarrow> length q < 64)"

lemma set_line_ok: "line_ok e \<Longrightarrow> line_ok (set_line s e)"
  by (simp add: line_ok_def set_line_def Let_def strncpy_val_def LINE_MAX_def)

lemma do_tab_ok: "line_ok e \<Longrightarrow> do_tab ls armed e = (res, e', armed') \<Longrightarrow> line_ok e'"
proof -
  assume e: "line_ok e" and d: "do_tab ls armed e = (res, e', armed')"
  have c: "l_cursor e \<le> length (l_text e)" using e by (simp add: line_ok_def)
  obtain ins where i: "l_text e' = take (l_cursor e) (l_text e) @ ins @ drop (l_cursor e) (l_text e)" "l_cursor e' = l_cursor e + length ins"
    "ins \<noteq> [] \<longrightarrow> length (l_text e') < LINE_MAX" "l_yank e' = l_yank e" using tab_inserts [OF c d] by auto
  have "length (l_text e') < LINE_MAX" using i(1,3) e by (cases "ins = []") (auto simp: line_ok_def)
  with i e c show ?thesis by (simp add: line_ok_def)
qed

lemma read_key_ok: "reader_ok m r \<Longrightarrow> read_key m ls hosted k r = Going r' \<Longrightarrow> reader_ok m r'"
proof -
  assume r: "reader_ok m r" and k: "read_key m ls hosted k r = Going r'"
  have l: "line_ok (edit r)" using r by (simp add: reader_ok_def)
  have up: "reader_ok m s \<Longrightarrow> reader_ok m (hist_up m s)" "reader_ok m s \<Longrightarrow> reader_ok m (hist_down m h s)"
    "reader_ok m s \<Longrightarrow> reader_ok m (tab_key ls s)" for s h
    by (auto simp: reader_ok_def hist_up_def hist_down_def tab_key_def Let_def set_line_ok less_imp_diff_less
          split: option.splits prod.splits dest: do_tab_ok)
  have ed: "reader_ok m s \<Longrightarrow> line_ok e \<Longrightarrow> reader_ok m (s\<lparr>edit := e\<rparr>)" "reader_ok m s \<Longrightarrow> reader_ok m (s\<lparr>tab_armed := b\<rparr>)"
    "reader_ok m s \<Longrightarrow> length q < 64 \<Longrightarrow> reader_ok m (s\<lparr>search := Some q\<rparr>)" for s e b q
    by (simp_all add: reader_ok_def)
  show ?thesis
  proof (cases hosted)
    case True
    then show ?thesis using k r l up ed line_key_ok [of "edit r"] line_key_ok [of "edit r" k]
      by (auto simp: read_key_def hosted_key_def Let_def line_ok_def type_key_def split: if_splits)
  next
    case F: False
    show ?thesis
    proof (cases "search r")
      case None
      then show ?thesis using k F r l up ed(2,3) ed(1) [OF ed(2) [OF r]] line_key_ok [OF l]
        by (auto simp: read_key_def plain_key_def Let_def split: if_splits)
    next
      case (Some q)
      then have "length q < 64" using r by (simp add: reader_ok_def)
      then show ?thesis using k F Some r by (auto simp: read_key_def search_key_def Let_def reader_ok_def set_line_ok split: if_splits)
    qed
  qed
qed

lemma readline_ok: "reader_ok m r \<Longrightarrow> readline m ls hosted ks r = (Going r', rest) \<Longrightarrow> reader_ok m r'"
  by (induction ks arbitrary: r) (auto split: reading.splits dest: read_key_ok)

lemma entered_now: "read_key m ls hosted k r = Entered l \<Longrightarrow> l = l_text (edit r) \<and> (k = 10 \<or> k = 13)"
  by (auto simp: read_key_def hosted_key_def plain_key_def search_key_def Let_def split: if_splits option.splits)

theorem readline_entered:
  "reader_ok m r \<Longrightarrow> readline m ls hosted ks r = (Entered l, rest) \<Longrightarrow> length l < LINE_MAX"
proof (induction ks arbitrary: r)
  case (Cons k ks)
  show ?case
  proof (cases "read_key m ls hosted k r")
    case (Going r')
    with Cons show ?thesis by (auto dest: read_key_ok)
  next
    case (Entered l')
    with Cons.prems entered_now [OF Entered] show ?thesis by (simp add: reader_ok_def line_ok_def)
  qed (use Cons.prems in simp_all)
qed simp


section \<open>What typing and recalling give\<close>

definition key_of :: "char \<Rightarrow> int" where "key_of c = int (of_char c)"

definition typed_char :: "char \<Rightarrow> bool" where
  "typed_char c \<longleftrightarrow> 32 \<le> (of_char c :: nat) \<and> of_char c \<noteq> (127 :: nat)"

lemma typed_step:
  assumes "typed_char c" and "search r = None" and "l_cursor (edit r) = length (l_text (edit r))"
  shows "\<exists>r'. read_key m ls hosted (key_of c) r = Going r' \<and> search r' = None \<and> l_cursor (edit r') = length (l_text (edit r')) \<and>
    l_text (edit r') = (if length (l_text (edit r)) + 1 < LINE_MAX then l_text (edit r) @ [c] else l_text (edit r))"
proof -
  have n: "key_of c = int (of_char c)" by (simp add: key_of_def)
  have r: "32 \<le> key_of c" "key_of c < 256" "key_of c \<noteq> 127" using assms(1) by (auto simp: typed_char_def n)
  have c: "char_of (nat (key_of c)) = c" by (simp add: n)
  have lk: "line_key (key_of c) e = type_key c e" for e using r c by (auto simp: line_key_def Let_def)
  have "read_key m ls hosted (key_of c) r = Going (r\<lparr>tab_armed := False, edit := type_key c (edit r)\<rparr>)"
    using r c lk assms(2) by (cases hosted) (auto simp: read_key_def hosted_key_def plain_key_def Let_def)
  with assms show ?thesis by (simp add: type_key_def)
qed

theorem readline_typed:
  assumes "list_all typed_char s" and "search r = None" and "l_cursor (edit r) = length (l_text (edit r))" and "length (l_text (edit r)) < LINE_MAX"
  shows "readline m ls hosted (map key_of s @ 10 # ks) r = (Entered (take (LINE_MAX - 1) (l_text (edit r) @ s)), ks)"
  using assms
proof (induction s arbitrary: r)
  case Nil
  then show ?case by (simp add: read_key_def hosted_key_def plain_key_def)
next
  case (Cons c s)
  from typed_step [of c r m ls hosted] Cons.prems obtain r' where r': "read_key m ls hosted (key_of c) r = Going r'" "search r' = None"
    "l_cursor (edit r') = length (l_text (edit r'))"
    "l_text (edit r') = (if length (l_text (edit r)) + 1 < LINE_MAX then l_text (edit r) @ [c] else l_text (edit r))" by auto
  with Cons show ?case by (auto simp: LINE_MAX_def take_Cons' Suc_diff_Suc)
qed

text \<open>The Up key, \<open>i + 1\<close> times, brings back the \<open>i + 1\<close>-th newest line of the history.\<close>

theorem readline_recalled:
  assumes "i < length (hist m)" and "list_all (\<lambda>h. no_nul h \<and> length h < 256) (hist m)" and "search r = None" and "at_hist r = None"
  shows "readline m ls hosted (replicate (Suc i) 0x100 @ 10 # ks) r = (Entered (hist m ! (length (hist m) - Suc i)), ks)"
proof -
  have set: "j < length (hist m) \<Longrightarrow> l_text (set_line (hist m ! j) e) = hist m ! j" for j e
    using assms(2) by (auto simp: set_line_def Let_def strncpy_val_def LINE_MAX_def cstr_id list_all_length less_Suc_eq_le dest!: spec [of _ j])
  have key: "search s = None \<Longrightarrow> \<exists>b. read_key m ls hosted 0x100 s = Going (hist_up m (s\<lparr>tab_armed := b\<rparr>))" for s
    by (rule exI [of _ "hosted \<and> tab_armed s"]) (cases hosted; simp add: read_key_def hosted_key_def plain_key_def Let_def)
  have ne: "hist m \<noteq> []" using assms(1) by auto
  have go: "readline m ls hosted (replicate k 0x100 @ 10 # ks) s = (Entered (hist m ! (p - k)), ks)"
    if "k \<le> p" "p < length (hist m)" "search s = None" "at_hist s = Some p" "l_text (edit s) = hist m ! p" for k p s
    using that
  proof (induction k arbitrary: p s)
    case 0
    then show ?case by (simp add: read_key_def hosted_key_def plain_key_def)
  next
    case (Suc k)
    obtain b where b: "read_key m ls hosted 0x100 s = Going (hist_up m (s\<lparr>tab_armed := b\<rparr>))" using key Suc.prems(3) by blast
    then show ?case using Suc.IH [of "p - 1" "hist_up m (s\<lparr>tab_armed := b\<rparr>)"] Suc.prems ne set [of "p - 1"]
      by (simp add: hist_up_def Let_def)
  qed
  obtain b where "read_key m ls hosted 0x100 r = Going (hist_up m (r\<lparr>tab_armed := b\<rparr>))" using key assms(3) by blast
  then show ?thesis using go [of i "length (hist m) - 1" "hist_up m (r\<lparr>tab_armed := b\<rparr>)"] assms ne set [of "length (hist m) - 1"]
    by (simp add: hist_up_def Let_def)
qed

end
