(* ===== verification/TermSpec.thy ===== *)
theory TermSpec
  imports Term MshSpec
begin

text \<open>
  What the terminal promises: its last line is the shell's prompt and line with the caret at the shell's cursor, reads may be cut
  anywhere but inside a caret command, and the window's text is its rows and its prompt or live line.
\<close>

section \<open>The terminal shows the line\<close>

definition plain :: "char \<Rightarrow> bool" where
  "plain c \<longleftrightarrow> c \<noteq> CHR 0x06 \<and> c \<noteq> CHR 0x0D \<and> c \<noteq> CHR 0x08 \<and> c \<noteq> CHR 0x7F \<and> c \<noteq> newline"

text \<open>Bytes that take the terminal from one state to another, whatever comes after them.\<close>

definition feeds :: "nat \<Rightarrow> string \<Rightarrow> tscreen \<Rightarrow> tscreen \<Rightarrow> bool" where
  "feeds m xs s s' \<longleftrightarrow> (\<forall>ys. flush_chunk m (xs @ ys) s = flush_chunk m ys s')"

lemma feeds_append: "feeds m xs s t \<Longrightarrow> feeds m ys t u \<Longrightarrow> feeds m (xs @ ys) s u"
  by (simp add: feeds_def)

lemma feeds_nil [simp]: "feeds m [] s s"
  by (simp add: feeds_def)

lemma feeds_result: "feeds m xs s t \<Longrightarrow> flush_chunk m xs s = t"
  unfolding feeds_def by (metis append_Nil2 flush_chunk.simps(1))

lemma feeds_caret: "feeds m [CHR 0x06, d] s (s\<lparr>caret := of_char d\<rparr>)"
  by (simp add: feeds_def)

lemma feeds_newline: "feeds m [newline] s (s\<lparr>acc := [], caret := 0, rows := rows s @ [acc s]\<rparr>)"
  by (simp add: feeds_def)

lemma feeds_text:
  "list_all plain t \<Longrightarrow> length (acc s) < m \<Longrightarrow> feeds m t s (s\<lparr>acc := take (m - 1) (acc s @ t)\<rparr>)"
proof (induction t arbitrary: s)
  case (Cons c t)
  show ?case
  proof (cases "length (acc s) + 1 < m")
    case True
    with Cons.IH [of "s\<lparr>acc := acc s @ [c]\<rparr>"] Cons.prems show ?thesis by (auto simp: feeds_def plain_def)
  next
    case False
    then have l: "length (acc s) = m - 1" "m \<noteq> 0" using Cons.prems(2) by auto
    with Cons.IH [of s] Cons.prems False show ?thesis by (auto simp: feeds_def plain_def)
  qed
qed (auto simp: feeds_def)

lemma feeds_rub:
  assumes "length (acc s) < m" and "1 < m"
  shows "feeds m (rub_out n) s (s\<lparr>acc := take (length (acc s) - n) (acc s)\<rparr>)"
  using assms(1)
proof (induction n arbitrary: s)
  case (Suc n)
  have one: "feeds m [CHR 0x08, CHR '' '', CHR 0x08] s (s\<lparr>acc := butlast (acc s)\<rparr>)"
    using Suc.prems assms(2) by (auto simp: feeds_def)
  have "feeds m (rub_out n) (s\<lparr>acc := butlast (acc s)\<rparr>) (s\<lparr>acc := take (length (acc s) - Suc n) (acc s)\<rparr>)"
    using Suc.IH [of "s\<lparr>acc := butlast (acc s)\<rparr>"] Suc.prems by (cases "acc s" rule: rev_cases) auto
  with feeds_append [OF one this] show ?case by (simp add: rub_out_def)
qed (simp add: rub_out_def)

text \<open>What fits the terminal's line.\<close>

definition fits :: "string \<Rightarrow> reader \<Rightarrow> bool" where
  "fits prompt r \<longleftrightarrow> list_all plain (l_text (edit r)) \<and> length prompt + length (l_text (edit r)) < ACC_MAX"

definition shown_as :: "string \<Rightarrow> reader \<Rightarrow> tscreen \<Rightarrow> bool" where
  "shown_as prompt r t \<longleftrightarrow> acc t = prompt @ l_text (edit r) \<and> caret t = length prompt + l_cursor (edit r)"

lemma of_char_of_small: "n < 256 \<Longrightarrow> (of_char (char_of n) :: nat) = n"
  by (simp add: of_char_of take_bit_eq_mod)

lemma feeds_repaint:
  assumes "fits prompt r'" and "acc t = prompt @ old" and "length (acc t) < ACC_MAX" and "l_cursor (edit r') \<le> length (l_text (edit r'))"
  shows "\<exists>t'. feeds ACC_MAX (hosted_repaint (length old) (length prompt) (edit r')) t t' \<and> shown_as prompt r' t'"
proof -
  let ?e = "edit r'"
  have m: "1 < ACC_MAX" by (simp add: ACC_MAX_def)
  have f: "list_all plain (l_text ?e)" "length prompt + length (l_text ?e) < ACC_MAX" using assms(1) by (simp_all add: fits_def)
  have c: "length prompt + l_cursor ?e < 255" using f(2) assms(4) by (simp add: ACC_MAX_def)
  have "feeds ACC_MAX (rub_out (length old)) t (t\<lparr>acc := prompt\<rparr>)"
    using feeds_rub [OF assms(3) m, of "length old"] assms(2) by simp
  moreover have "feeds ACC_MAX (l_text ?e) (t\<lparr>acc := prompt\<rparr>) (t\<lparr>acc := prompt @ l_text ?e\<rparr>)"
    using feeds_text [of "l_text ?e" "t\<lparr>acc := prompt\<rparr>" ACC_MAX] f by simp
  ultimately have "feeds ACC_MAX (hosted_repaint (length old) (length prompt) ?e) t
      (t\<lparr>acc := prompt @ l_text ?e, caret := of_char (char_of (min 255 (length prompt + l_cursor ?e)))\<rparr>)"
    unfolding hosted_repaint_def by (intro feeds_append) (use feeds_caret in fastforce)+
  moreover have "(of_char (char_of (min 255 (length prompt + l_cursor ?e))) :: nat) = length prompt + l_cursor ?e"
    using c by (simp add: min_absorb2 of_char_of_small)
  ultimately show ?thesis by (intro exI conjI) (assumption, simp add: shown_as_def)
qed

subsection \<open>Listings\<close>

definition plain_listing :: "dirlist \<Rightarrow> bool" where
  "plain_listing ls \<longleftrightarrow> (\<forall>d n l. ls d n = Some l \<longrightarrow> list_all (\<lambda>c. plain c \<or> c = newline) l)"

lemma list_names_chars: "n \<in> set (list_names ls d base dirs room l) \<Longrightarrow> set n \<subseteq> {c \<in> set l. c \<noteq> newline}"
proof (induction ls d base dirs room l rule: list_names.induct)
  case (1 ls d base dirs room l)
  obtain name rest where nn: "next_name l = (name, rest)" by fastforce
  have tl: "set (tl xs) \<subseteq> set xs" for xs :: string by (cases xs) auto
  have s: "set name \<subseteq> {c \<in> set l. c \<noteq> newline}" "set rest \<subseteq> set l"
    using nn tl by (auto simp: next_name_def Let_def dest!: in_set_takeD subsetD [OF tl] in_set_dropD set_takeWhileD split: if_splits)
  show ?case using 1 s nn by (subst (asm) (3) list_names.simps) (fastforce split: if_splits)
qed

lemma tab_word_listed:
  assumes "plain_listing ls" and "tab_word ls force l start p = Listed ns"
  shows "list_all (list_all plain) ns"
proof -
  have known: "list_all (list_all plain) builtins" "list_all (list_all plain) bins" by code_simp+
  have a: "list_all (list_all plain) xs \<Longrightarrow> try_complete_list xs p 96 force = Listed ns \<Longrightarrow> list_all (list_all plain) ns" for xs
    by (auto simp: try_complete_list_def Let_def list_all_iff split: if_splits)
  have b: "try_complete_path ls p 96 dirs force = Listed ns \<Longrightarrow> list_all (list_all plain) ns" for dirs
    using assms(1) list_names_chars
    by (fastforce simp: try_complete_path_def Let_def list_all_iff plain_listing_def split: prod.splits option.splits if_splits)
  show ?thesis using assms(2) a known b by (auto simp: tab_word_def Let_def split: if_splits)
qed

lemma feeds_list_text:
  assumes "list_all (list_all plain) ns" and "0 < m"
  shows "\<exists>rw. feeds m (list_text ns) s (s\<lparr>acc := [], caret := 0, rows := rw\<rparr>)"
proof -
  let ?s = "s\<lparr>acc := [], caret := 0, rows := rows s @ [acc s]\<rparr>"
  let ?t = "concat (map (\<lambda>n. n @ ''  '') ns)"
  have "list_all plain ?t" using assms(1) by (induction ns) (auto simp: plain_def)
  then have "feeds m ?t ?s (?s\<lparr>acc := take (m - 1) ?t\<rparr>)" using feeds_text [of ?t ?s m] assms(2) by simp
  from feeds_append [OF feeds_newline feeds_append [OF this feeds_newline]] show ?thesis
    unfolding list_text_def by (intro exI) simp
qed

subsection \<open>One key\<close>

lemma line_key_keys:
  "line_key 8 e = (if 0 < l_cursor e then delete_at (l_cursor e - 1) e else e)"
  "line_key 127 e = (if 0 < l_cursor e then delete_at (l_cursor e - 1) e else e)"
  "line_key 0x102 e = e\<lparr>l_cursor := l_cursor e - 1\<rparr>"
  "line_key 0x103 e = (if l_cursor e < length (l_text e) then e\<lparr>l_cursor := l_cursor e + 1\<rparr> else e)"
  "line_key 0x106 e = (if l_cursor e < length (l_text e) then delete_at (l_cursor e) e else e)"
  "line_key 0x104 e = e\<lparr>l_cursor := 0\<rparr>" "line_key 0x105 e = e\<lparr>l_cursor := length (l_text e)\<rparr>"
  by (simp_all add: line_key_def Let_def)

lemma line_key_still:
  "\<not> 0 < l_cursor e \<Longrightarrow> key = 8 \<or> key = 127 \<or> key = 0x102 \<Longrightarrow> line_key key e = e"
  "\<not> l_cursor e < length (l_text e) \<Longrightarrow> key = 0x103 \<or> key = 0x106 \<Longrightarrow> line_key key e = e"
  "l_cursor e = 0 \<Longrightarrow> line_key 0x104 e = e"
  "l_cursor e = length (l_text e) \<Longrightarrow> line_key 0x105 e = e"
  "\<not> length (l_text e) + 1 < LINE_MAX \<Longrightarrow> type_key c e = e"
  by (cases e; auto simp: line_key_keys type_key_def)+

lemma echo_step:
  assumes ok: "reader_ok m r" and k: "hosted_key m ls key r = Going r'" and f: "fits prompt r" "fits prompt r'"
    and p: "plain_listing ls" "list_all plain prompt" and t: "shown_as prompt r t"
  shows "\<exists>t'. feeds ACC_MAX (fst (hosted_echo m ls prompt key (length (l_text (edit r))) r)) t t' \<and> shown_as prompt r' t' \<and>
    snd (hosted_echo m ls prompt key (length (l_text (edit r))) r) = length (l_text (edit r'))"
proof -
  let ?n = "length (l_text (edit r))"
  define paint where "paint = (hosted_repaint ?n (length prompt) (edit r'), length (l_text (edit r')))"
  have ok': "reader_ok m r'" using read_key_ok [OF ok, of ls True key r'] k by (simp add: read_key_def)
  then have c': "l_cursor (edit r') \<le> length (l_text (edit r'))" by (simp add: reader_ok_def line_ok_def)
  have a: "acc t = prompt @ l_text (edit r)" "length (acc t) < ACC_MAX" using t f(1) by (simp_all add: shown_as_def fits_def)
  define good where "good x \<longleftrightarrow> (\<exists>t'. feeds ACC_MAX (fst x) t t' \<and> shown_as prompt r' t' \<and> snd x = length (l_text (edit r')))" for x
  have pg: "good paint" using feeds_repaint [OF f(2) a c'] by (auto simp: good_def paint_def)
  have sg: "good ([], ?n)" if "edit r' = edit r"
    unfolding good_def using that t by (intro exI [of _ t]) (simp add: shown_as_def)
  have sg': "good ([], ?n)" if "r' = r\<lparr>edit := edit r\<rparr>" using that by (intro sg) simp
  have ls: "good (list_text ns @ prompt @ hosted_repaint 0 (length prompt) (edit r'), length (l_text (edit r')))"
    if ns: "list_all (list_all plain) ns" for ns
  proof -
    obtain rw where l: "feeds ACC_MAX (list_text ns) t (t\<lparr>acc := [], caret := 0, rows := rw\<rparr>)"
      using feeds_list_text [OF ns, of ACC_MAX t] by (auto simp: ACC_MAX_def)
    have lp: "length prompt < ACC_MAX" using f(1) by (simp add: fits_def)
    let ?u = "(t\<lparr>acc := [], caret := 0, rows := rw\<rparr>)\<lparr>acc := prompt\<rparr>"
    have "feeds ACC_MAX prompt (t\<lparr>acc := [], caret := 0, rows := rw\<rparr>) ?u"
      using feeds_text [OF p(2), of "t\<lparr>acc := [], caret := 0, rows := rw\<rparr>" ACC_MAX] lp by (simp add: ACC_MAX_def)
    moreover obtain t' where "feeds ACC_MAX (hosted_repaint 0 (length prompt) (edit r')) ?u t'" "shown_as prompt r' t'"
      using feeds_repaint [OF f(2), of ?u "[]"] c' lp by auto
    ultimately show ?thesis unfolding good_def fst_conv snd_conv using feeds_append [OF l feeds_append [where t = ?u]] by blast
  qed
  define quiet where "quiet = ([] :: string, ?n)"
  have h: "hosted_echo m ls prompt key ?n r =
    (if key = 3 then (''^C'' @ [newline], ?n)
     else if key = 10 \<or> key = 13 then (hosted_commit_echo ?n (edit r) @ [newline], ?n)
     else if key = 8 \<or> key = 127 \<or> key = 0x102 then (if 0 < l_cursor (edit r) then paint else quiet)
     else if key = 0x103 \<or> key = 0x106 then (if l_cursor (edit r) < ?n then paint else quiet)
     else if key = 0x104 then (if l_cursor (edit r) \<noteq> 0 then paint else quiet)
     else if key = 0x105 then (if l_cursor (edit r) \<noteq> ?n then paint else quiet)
     else if key = 0x100 then (if hist m \<noteq> [] then paint else quiet)
     else if key = 0x101 then paint
     else if key = 9 then
       (case do_tab ls (tab_armed r) (edit r) of
          (Listed ns, e', _) \<Rightarrow> (list_text ns @ prompt @ hosted_repaint 0 (length prompt) e', length (l_text e'))
        | (Unique _, _, _) \<Rightarrow> paint | (No_match, _, _) \<Rightarrow> quiet)
     else if 32 \<le> key \<and> key < 256 \<and> ?n + 1 < LINE_MAX then paint
     else quiet)"
    by (simp only: hosted_echo_def Let_def k paint_def quiet_def reading.case)
  have "good (hosted_echo m ls prompt key ?n r)"
  proof (cases "key = 9")
    case True
    obtain res e' armed where d: "do_tab ls (tab_armed r) (edit r) = (res, e', armed)" by (metis prod_cases3)
    have e': "edit r' = e'" using k True d by (auto simp: hosted_key_def tab_key_def)
    have "l_cursor (edit r) \<le> ?n" using ok by (simp add: reader_ok_def line_ok_def)
    note ins = tab_inserts [OF this d]
    show ?thesis
    proof (cases res)
      case No_match
      then have "e' = edit r" using ins by auto
      with sg e' No_match show ?thesis unfolding h by (simp add: True d quiet_def)
    next
      case (Unique w)
      with pg show ?thesis unfolding h by (simp add: True d)
    next
      case (Listed ns)
      then have "list_all (list_all plain) ns"
        using d tab_word_listed [OF p(1)] by (auto simp: do_tab_def Let_def split: if_splits completion.splits)
      from ls [OF this] show ?thesis unfolding h using e' by (simp add: True d Listed)
    qed
  next
    case False
    with k have "key \<noteq> 3" "key \<noteq> 10" "key \<noteq> 13" by (auto simp: hosted_key_def)
    moreover have "edit r' = edit r" if "key = 8 \<or> key = 127 \<or> key = 0x102" "\<not> 0 < l_cursor (edit r)"
      using k that line_key_still(1) [OF that(2,1)] by (auto simp: hosted_key_def)
    moreover have "edit r' = edit r" if "key = 0x103 \<or> key = 0x106" "\<not> l_cursor (edit r) < ?n"
      using k that line_key_still(2) [OF that(2,1)] by (auto simp: hosted_key_def)
    moreover have "edit r' = edit r" if "key = 0x104" "l_cursor (edit r) = 0" using k that line_key_still(3) [OF that(2)] by (auto simp: hosted_key_def)
    moreover have "edit r' = edit r" if "key = 0x105" "l_cursor (edit r) = ?n" using k that line_key_still(4) [OF that(2)] by (auto simp: hosted_key_def)
    moreover have "edit r' = edit r" if "key = 0x100" "hist m = []" using k that by (auto simp: hosted_key_def hist_up_def)
    moreover have "edit r' = edit r"
      if "key \<notin> {3, 10, 13, 8, 127, 0x102, 0x103, 0x104, 0x105, 0x106, 0x100, 0x101, 9}" "\<not> (32 \<le> key \<and> key < 256 \<and> ?n + 1 < LINE_MAX)"
      using k that line_key_still(5) [of "edit r"] by (auto simp: hosted_key_def Let_def split: if_splits)
    moreover have "edit r' = edit r \<Longrightarrow> good quiet" using sg by (simp add: quiet_def)
    ultimately show ?thesis unfolding h using pg False by (simp split: if_split)
  qed
  then show ?thesis by (simp add: good_def)
qed


subsection \<open>Reads and their boundaries\<close>

text \<open>A read that ends in the middle of a caret command is not whole.\<close>

fun whole :: "string \<Rightarrow> bool" where
  "whole [] \<longleftrightarrow> True"
| "whole (c # cs) \<longleftrightarrow> (if c = CHR 0x06 then (case cs of [] \<Rightarrow> False | d # ds \<Rightarrow> whole ds) else whole cs)"

lemma feeds_whole: "whole xs \<Longrightarrow> feeds m xs s (flush_chunk m xs s)"
proof (induction m xs s rule: flush_chunk.induct)
  case (2 m c cs s)
  show ?case
  proof (cases "c = CHR 0x06")
    case True
    then obtain d ds where "cs = d # ds" "whole ds" using "2.prems" by (cases cs) auto
    with "2.IH"(1) [OF True] True show ?thesis by (simp add: feeds_def)
  next
    case False
    with 2 show ?thesis by (simp add: feeds_def)
  qed
qed simp

theorem flush_cons_whole:
  "list_all whole chunks \<Longrightarrow> snd (flush_cons m chunks s) = flush_chunk m (concat chunks) s"
proof (induction chunks arbitrary: s)
  case (Cons c cs)
  then have "feeds m c s (flush_chunk m c s)" by (intro feeds_whole) simp
  with Cons show ?case by (simp add: flush_cons_def feeds_def)
qed (simp add: flush_cons_def)

text \<open>When a read ends between the two bytes, the column is taken for text: column 13 clears the line, column 10 ends it, column 8 rubs out.\<close>

theorem split_caret_is_text:
  "snd (flush_cons m [xs @ [CHR 0x06], [CHR 0x0D]] s) = (snd (flush_cons m [xs @ [CHR 0x06]] s))\<lparr>acc := [], caret := 0\<rparr>"
  "whole xs \<Longrightarrow> snd (flush_cons m [xs @ [CHR 0x06, CHR 0x0D]] s) = (snd (flush_cons m [xs] s))\<lparr>caret := 13\<rparr>"
  using feeds_whole [of xs m s] by (simp_all add: flush_cons_def feeds_def)

subsection \<open>A whole line\<close>

text \<open>Everything written while a line is read, and how the reading ends.\<close>

primrec hosted_run :: "msh \<Rightarrow> dirlist \<Rightarrow> string \<Rightarrow> int list \<Rightarrow> nat \<Rightarrow> reader \<Rightarrow> string \<times> reading" where
  "hosted_run m ls prompt [] shown r = ([], Going r)"
| "hosted_run m ls prompt (k # ks) shown r =
     (let (out, shown') = hosted_echo m ls prompt k shown r in
      case hosted_key m ls k r of
        Going r' \<Rightarrow> let (out', res) = hosted_run m ls prompt ks shown' r' in (out @ out', res)
      | res \<Rightarrow> (out, res))"

text \<open>Prompt and line fit the terminal's line at every moment.\<close>

primrec always_fits :: "msh \<Rightarrow> dirlist \<Rightarrow> string \<Rightarrow> int list \<Rightarrow> reader \<Rightarrow> bool" where
  "always_fits m ls prompt [] r \<longleftrightarrow> fits prompt r"
| "always_fits m ls prompt (k # ks) r \<longleftrightarrow>
     fits prompt r \<and> (case hosted_key m ls k r of Going r' \<Rightarrow> always_fits m ls prompt ks r' | _ \<Rightarrow> True)"

lemma hosted_run_shows:
  assumes "reader_ok m r" and "always_fits m ls prompt ks r" and "shown_as prompt r t" and "plain_listing ls" and "list_all plain prompt"
  shows "\<exists>t'. feeds ACC_MAX (fst (hosted_run m ls prompt ks (length (l_text (edit r))) r)) t t' \<and>
    (\<forall>r'. snd (hosted_run m ls prompt ks (length (l_text (edit r))) r) = Going r' \<longrightarrow> shown_as prompt r' t') \<and>
    (\<forall>l. snd (hosted_run m ls prompt ks (length (l_text (edit r))) r) = Entered l \<longrightarrow> acc t' = [] \<and> rows t' \<noteq> [] \<and> last (rows t') = prompt @ l)"
  using assms(1,2,3)
proof (induction ks arbitrary: r t)
  case Nil
  then show ?case by (intro exI [of _ t]) simp
next
  case (Cons k ks)
  let ?n = "length (l_text (edit r))"
  obtain out sh where e: "hosted_echo m ls prompt k ?n r = (out, sh)" by fastforce
  have f: "fits prompt r" using Cons.prems(2) by simp
  show ?case
  proof (cases "hosted_key m ls k r")
    case (Going r')
    have f': "fits prompt r'" "always_fits m ls prompt ks r'" using Cons.prems(2) Going by (cases ks; simp)+
    obtain t1 where t1: "feeds ACC_MAX out t t1" "shown_as prompt r' t1" "sh = length (l_text (edit r'))"
      using echo_step [OF Cons.prems(1) Going f f'(1) assms(4,5) Cons.prems(3)] e by auto
    have ok': "reader_ok m r'" using read_key_ok [OF Cons.prems(1), of ls True k r'] Going by (simp add: read_key_def)
    obtain out' res where h: "hosted_run m ls prompt ks sh r' = (out', res)" by fastforce
    with Cons.IH [OF ok' f'(2) t1(2)] t1 obtain t' where "feeds ACC_MAX out' t1 t'"
      "\<forall>r'. res = Going r' \<longrightarrow> shown_as prompt r' t'"
      "\<forall>l. res = Entered l \<longrightarrow> acc t' = [] \<and> rows t' \<noteq> [] \<and> last (rows t') = prompt @ l" by auto
    with feeds_append [OF t1(1)] show ?thesis by (intro exI [of _ t']) (simp add: e Going h)
  next
    case (Entered l)
    then have k: "k = 10 \<or> k = 13" "l = l_text (edit r)" using entered_now [of m ls True k r l] by (auto simp: read_key_def)
    then have out: "out = hosted_commit_echo ?n (edit r) @ [newline]" using e by (auto simp: hosted_echo_def Let_def)
    have a: "acc t = prompt @ l_text (edit r)" using Cons.prems(3) by (simp add: shown_as_def)
    have lp: "list_all plain (l_text (edit r))" "length prompt + ?n < ACC_MAX" using f by (simp_all add: fits_def)
    have "feeds ACC_MAX (rub_out ?n) t (t\<lparr>acc := prompt\<rparr>)" using feeds_rub [of t ACC_MAX ?n] a lp(2) by (simp add: ACC_MAX_def)
    moreover have "feeds ACC_MAX (l_text (edit r)) (t\<lparr>acc := prompt\<rparr>) (t\<lparr>acc := prompt @ l\<rparr>)"
      using feeds_text [OF lp(1), of "t\<lparr>acc := prompt\<rparr>" ACC_MAX] lp(2) k(2) by simp
    ultimately have "feeds ACC_MAX out t (t\<lparr>acc := [], caret := 0, rows := rows t @ [prompt @ l]\<rparr>)"
      unfolding out hosted_commit_echo_def using feeds_newline [of ACC_MAX "t\<lparr>acc := prompt @ l\<rparr>"] by (intro feeds_append) (assumption | simp)+
    then show ?thesis by (intro exI [of _ "t\<lparr>acc := [], caret := 0, rows := rows t @ [prompt @ l]\<rparr>"]) (simp add: e Entered)
  next
    case Cancelled
    then have "k = 3" by (auto simp: hosted_key_def Let_def split: if_splits)
    then have "out = ''^C'' @ [newline]" using e by (simp add: hosted_echo_def Let_def)
    then have "\<exists>t'. feeds ACC_MAX out t t'" using feeds_append [OF feeds_text [of "''^C''" t ACC_MAX] feeds_newline] Cons.prems(3) f
      by (auto simp: shown_as_def fits_def plain_def)
    then show ?thesis by (simp add: e Cancelled)
  next
    case Closed
    then show ?thesis by (auto simp: hosted_key_def Let_def split: if_splits)
  qed
qed

lemma fits_first: "always_fits m ls prompt keys r \<Longrightarrow> fits prompt r"
  by (cases keys) simp_all

text \<open>Property C35. Between the shell and the terminal that hosts it: whatever keys are typed, with completion, recall and editing in the middle of the
  line, the terminal's last line is the prompt and the line the shell holds, with the caret where the shell's cursor is, and on Enter it
  hands over prompt and line as a finished line. This holds while prompt and line fit the terminal's 95 characters, and however the output is
  cut into reads, unless a read ends between the two bytes of a caret command, as a repaint longer than the 255 bytes of one read may make it
  (then \<open>split_caret_is_text\<close> says what happens).\<close>

theorem hosted_terminal_shows_line:
  assumes "always_fits m ls prompt keys new_reader" and "plain_listing ls" and "list_all plain prompt" and "caret t = 0" and "acc t = []"
    and "concat reads = prompt @ hosted_repaint 0 (length prompt) (edit new_reader) @ fst (hosted_run m ls prompt keys 0 new_reader)"
    and "list_all whole reads"
  shows "case flush_cons ACC_MAX reads t of (changed, t') \<Rightarrow>
    (\<forall>r. snd (hosted_run m ls prompt keys 0 new_reader) = Going r \<longrightarrow>
       acc t' = prompt @ l_text (edit r) \<and> caret t' = length prompt + l_cursor (edit r)) \<and>
    (\<forall>l. snd (hosted_run m ls prompt keys 0 new_reader) = Entered l \<longrightarrow> acc t' = [] \<and> rows t' \<noteq> [] \<and> last (rows t') = prompt @ l)"
proof -
  have f: "fits prompt new_reader" using fits_first [OF assms(1)] .
  then have lp: "length prompt < ACC_MAX" by (simp add: fits_def)
  have ok: "reader_ok m new_reader" by (simp add: reader_ok_def new_reader_def line_ok_def LINE_MAX_def)
  have p: "feeds ACC_MAX prompt t (t\<lparr>acc := prompt\<rparr>)" using feeds_text [OF assms(3), of t ACC_MAX] assms(5) lp by (simp add: ACC_MAX_def)
  obtain t1 where t1: "feeds ACC_MAX (hosted_repaint 0 (length prompt) (edit new_reader)) (t\<lparr>acc := prompt\<rparr>) t1" "shown_as prompt new_reader t1"
    using feeds_repaint [OF f, of "t\<lparr>acc := prompt\<rparr>" "[]"] lp by (auto simp: new_reader_def)
  obtain out res where h: "hosted_run m ls prompt keys 0 new_reader = (out, res)" by fastforce
  with hosted_run_shows [OF ok assms(1) t1(2) assms(2,3)] obtain t' where t': "feeds ACC_MAX out t1 t'"
    "\<forall>r. res = Going r \<longrightarrow> shown_as prompt r t'" "\<forall>l. res = Entered l \<longrightarrow> acc t' = [] \<and> rows t' \<noteq> [] \<and> last (rows t') = prompt @ l"
    by (auto simp: new_reader_def)
  have "snd (flush_cons ACC_MAX reads t) = t'"
    using feeds_result [OF feeds_append [OF p feeds_append [OF t1(1) t'(1)]]] flush_cons_whole [OF assms(7), of ACC_MAX t] assms(6) by (simp add: h)
  with t'(2,3) show ?thesis by (simp add: h shown_as_def split_beta)
qed

text \<open>The output of three keys and a step to the left, cut into reads of 8 bytes.\<close>

fun cut :: "nat \<Rightarrow> string \<Rightarrow> string list" where
  "cut 0 xs = [xs]"
| "cut (Suc n) xs = take 8 xs # cut n (drop 8 xs)"

lemma concat_cut: "concat (cut n xs) = xs"
  by (induction n arbitrary: xs) auto

theorem hosted_terminal_shows_line_witness:
  "acc (snd (flush_cons ACC_MAX (cut 3 (''} '' @ hosted_repaint 0 2 (edit new_reader) @
     fst (hosted_run new_shell (\<lambda>_ _. None) ''} '' [108, 97, 0x102, 115] 0 new_reader))) \<lparr>acc = [], caret = 0, rows = []\<rparr>)) = ''} lsa'' \<and>
   caret (snd (flush_cons ACC_MAX (cut 3 (''} '' @ hosted_repaint 0 2 (edit new_reader) @
     fst (hosted_run new_shell (\<lambda>_ _. None) ''} '' [108, 97, 0x102, 115] 0 new_reader))) \<lparr>acc = [], caret = 0, rows = []\<rparr>)) = 4"
proof -
  let ?run = "hosted_run new_shell (\<lambda>_ _. None) ''} '' [108, 97, 0x102, 115] 0 new_reader"
  have f: "always_fits new_shell (\<lambda>_ _. None) ''} '' [108, 97, 0x102, 115] new_reader" by code_simp
  have "snd ?run = Going (new_reader\<lparr>edit := \<lparr>l_text = ''lsa'', l_cursor = 2, l_yank = []\<rparr>\<rparr>)" by code_simp
  moreover have "plain_listing (\<lambda>_ _. None)" "list_all plain ''} ''" by (simp_all add: plain_listing_def plain_def)
  moreover have "list_all whole (cut 3 (''} '' @ hosted_repaint 0 2 (edit new_reader) @ fst ?run))" by code_simp
  moreover have "concat (cut 3 (''} '' @ hosted_repaint 0 (length ''} '') (edit new_reader) @ fst ?run)) =
      ''} '' @ hosted_repaint 0 (length ''} '') (edit new_reader) @ fst ?run" by (rule concat_cut)
  ultimately show ?thesis
    using hosted_terminal_shows_line [OF f, of "\<lparr>acc = [], caret = 0, rows = []\<rparr>"]
    by (simp add: split_beta numeral_2_eq_2 del: flush_chunk.simps hosted_run.simps cut.simps)
qed

text \<open>Past the 95 characters the terminal forgets the tail, while the shell rubs out the whole of it and so the prompt as well.\<close>

theorem long_line_eats_prompt:
  assumes "length (acc t) < ACC_MAX" and "length (acc t) \<le> shown" and "list_all plain (l_text e)"
  shows "acc (flush_chunk ACC_MAX (hosted_repaint shown plen e) t) = take 95 (l_text e)"
proof -
  have r: "feeds ACC_MAX (rub_out shown) t (t\<lparr>acc := []\<rparr>)" using feeds_rub [of t ACC_MAX shown] assms(1,2) by (simp add: ACC_MAX_def)
  have x: "feeds ACC_MAX (l_text e) (t\<lparr>acc := []\<rparr>) (t\<lparr>acc := take 95 (l_text e)\<rparr>)"
    using feeds_text [OF assms(3), of "t\<lparr>acc := []\<rparr>" ACC_MAX] by (simp add: ACC_MAX_def)
  from feeds_result [OF feeds_append [OF r feeds_append [OF x feeds_caret]]] show ?thesis by (simp add: hosted_repaint_def)
qed

section \<open>The end of the program\<close>

lemma pump_stays:
  "s_alive s \<Longrightarrow> 0 \<le> s_pid s \<Longrightarrow> r_wait rep < 0 \<or> r_status rep = -2 \<Longrightarrow>
     \<exists>s' rw. term_session_pump rep s = (True, s', rw) \<and> s_alive s' \<and> s_pid s' = s_pid s"
  by (auto simp: term_session_pump_def Let_def split: prod.splits)

text \<open>The terminal sees the end of its program only in a wait that reports the process and a status other than -2. A program that exits with -2 is
  reaped by the wait that reports it, every later wait fails, and the session never ends.\<close>

theorem exit_minus_two_unseen:
  assumes "s_alive s" and "0 \<le> s_pid s" and "r_status rep = -2" and "\<forall>rep' \<in> set reps. r_wait rep' < 0"
  shows "fold (\<lambda>rep (on, s). case term_session_pump rep s of (on', s', _) \<Rightarrow> (on \<and> on', s')) (rep # reps) (True, s) =
    (True, snd (fold (\<lambda>rep (on, s). case term_session_pump rep s of (on', s', _) \<Rightarrow> (on \<and> on', s')) (rep # reps) (True, s)))"
proof -
  have "fst (fold (\<lambda>rep (on, s). case term_session_pump rep s of (on', s', _) \<Rightarrow> (on \<and> on', s')) rs (True, s))"
    if "s_alive s" "0 \<le> s_pid s" "\<forall>rep \<in> set rs. r_wait rep < 0 \<or> r_status rep = -2" for rs s
    using that
  proof (induction rs arbitrary: s)
    case (Cons r rs)
    with pump_stays [of s r] show ?case by fastforce
  qed simp
  from this [of s "rep # reps"] assms show ?thesis by (simp add: prod_eq_iff)
qed

section \<open>What the window shows\<close>

lemma set_text_loop_all:
  "no_nul s \<Longrightarrow> length s < cap \<Longrightarrow> cap \<le> length buf \<Longrightarrow> i \<le> length s \<Longrightarrow>
     set_text_loop s cap i buf = (length s, take i buf @ drop i s @ drop (length s) buf)"
proof (induction s cap i buf rule: set_text_loop.induct)
  case (1 s cap i buf)
  show ?case
  proof (cases "i < length s")
    case True
    then have c: "cget s i = s ! i" "s ! i \<noteq> NUL" using "1.prems"(1) by (auto simp: cget_def no_nul_def in_set_conv_nth)
    have "take (i + 1) (buf[i := s ! i]) @ drop (i + 1) s = take i buf @ drop i s"
      using True "1.prems" by (simp add: take_Suc_conv_app_nth Cons_nth_drop_Suc)
    then have "take (i + 1) (buf[i := s ! i]) @ drop (i + 1) s @ drop (length s) (buf[i := s ! i]) = take i buf @ drop i s @ drop (length s) buf"
      using True by (metis append.assoc drop_update_cancel)
    with 1 True c show ?thesis by (simp add: set_text_loop.simps [of s])
  next
    case False
    with "1.prems" show ?thesis by (simp add: set_text_loop.simps [of s])
  qed
qed

definition entry_fits :: "wentry \<Rightarrow> bool" where
  "entry_fits e \<longleftrightarrow> e_cap e = TERM_BUF \<and> length (e_buf e) = TERM_BUF"

lemma set_text_shows:
  assumes "no_nul t" and "length t < TERM_BUF" and "entry_fits e"
  shows "wentry_text (wentry_set_text t e) = t \<and> entry_fits (wentry_set_text t e)"
proof -
  have "set_text_loop t (e_cap e) 0 (e_buf e) = (length t, t @ drop (length t) (e_buf e))"
    using set_text_loop_all [of t "e_cap e" "e_buf e" 0] assms by (simp add: entry_fits_def)
  moreover obtain x xs where "drop (length t) (e_buf e) = x # xs" using assms by (cases "drop (length t) (e_buf e)") (auto simp: entry_fits_def)
  moreover from this have "length (t @ x # xs) = TERM_BUF" using assms(2,3) by (metis append_take_drop_id entry_fits_def length_append length_drop le_add_diff_inverse less_imp_le)
  ultimately show ?thesis using assms
    by (simp add: wentry_set_text_def wentry_text_def mark_view_def entry_fits_def TERM_BUF_def cstr_append_NUL)
qed

lemma ensure_buf: "e_buf (wentry_ensure_cursor_visible e) = e_buf e \<and> e_cap (wentry_ensure_cursor_visible e) = e_cap e"
  by (cases "cursor_rowcol e") (simp add: wentry_ensure_cursor_visible_def Let_def)

lemma same_buf:
  "e_buf (wentry_scroll_to_end e) = e_buf e \<and> e_cap (wentry_scroll_to_end e) = e_cap e"
  "e_buf (wentry_set_cursor p e) = e_buf e \<and> e_cap (wentry_set_cursor p e) = e_cap e"
  "wentry_set_focused b (f, e) = (f', e') \<Longrightarrow> e_buf e' = e_buf e \<and> e_cap e' = e_cap e"
  by (auto simp: wentry_scroll_to_end_def wentry_set_cursor_def ensure_buf mark_view_def wentry_set_focused_def Let_def)

lemma focus_entry_sel:
  "g_lines (focus_entry g) = g_lines g" "g_input (focus_entry g) = g_input g" "g_live (focus_entry g) = g_live g"
  "g_mode (focus_entry g) = g_mode g" "g_sess (focus_entry g) = g_sess g" "g_cols (focus_entry g) = g_cols g" "g_quiet (focus_entry g) = g_quiet g"
  "e_buf (g_entry (focus_entry g)) = e_buf (g_entry g)" "e_cap (g_entry (focus_entry g)) = e_cap (g_entry g)"
  using same_buf(3) [of True "g_focus g" "g_entry g"] by (auto simp: focus_entry_def split: prod.splits)

lemma rebuild_sel [simp]:
  "g_lines (rebuild_entry g) = g_lines g" "g_input (rebuild_entry g) = g_input g" "g_live (rebuild_entry g) = g_live g"
  "g_mode (rebuild_entry g) = g_mode g" "g_sess (rebuild_entry g) = g_sess g" "g_cols (rebuild_entry g) = g_cols g" "g_quiet (rebuild_entry g) = g_quiet g"
  by (simp_all add: rebuild_entry_def Let_def focus_entry_sel split: prod.splits option.splits)

lemma rebuild_buf:
  "e_buf (g_entry (rebuild_entry g)) = e_buf (wentry_set_text (fst (window_text g)) (g_entry g)) \<and>
   e_cap (g_entry (rebuild_entry g)) = e_cap (wentry_set_text (fst (window_text g)) (g_entry g))"
  by (simp add: rebuild_entry_def Let_def focus_entry_sel same_buf split: prod.splits option.splits)

subsection \<open>The text of the window\<close>

definition row_ok :: "string \<Rightarrow> bool" where
  "row_ok s \<longleftrightarrow> no_nul s \<and> length s < TERM_LINE"

lemma row_ok_strncpy: "n \<le> TERM_LINE \<Longrightarrow> 0 < n \<Longrightarrow> row_ok (strncpy_val s n)"
  using no_nul_cstr [of s] by (auto simp: row_ok_def strncpy_val_def no_nul_def dest: in_set_takeD)

lemma add_row_ok: "no_nul t \<Longrightarrow> row_ok r \<Longrightarrow> no_nul (add_row t r) \<and> length (add_row t r) \<le> length t + TERM_LINE"
  by (auto simp: add_row_def row_ok_def no_nul_def TERM_LINE_def)

lemma rows_loop_all:
  "list_all row_ok rs \<Longrightarrow> no_nul t \<Longrightarrow> length t + TERM_LINE * length rs + 2 < TERM_BUF \<Longrightarrow>
     rows_loop rs t = foldl add_row t rs \<and> no_nul (foldl add_row t rs) \<and> length (foldl add_row t rs) \<le> length t + TERM_LINE * length rs"
proof (induction rs arbitrary: t)
  case (Cons r rs)
  have a: "no_nul (add_row t r)" "length (add_row t r) \<le> length t + TERM_LINE" using add_row_ok [of t r] Cons.prems by auto
  have "length t + length r + 2 < TERM_BUF" using Cons.prems by (simp add: row_ok_def)
  then show ?case using Cons.IH [of "add_row t r"] Cons.prems a by simp
qed simp

text \<open>The rows, then the line of the program or the prompt with the command; an empty line after the rows of a program with no line.\<close>

definition window_rows :: "gterm \<Rightarrow> string list" where
  "window_rows g = g_lines g @ (case g_mode g of MODE_PROMPT \<Rightarrow> [''} '' @ g_input g]
     | MODE_RUN \<Rightarrow> if g_live g = [] then [] else [g_live g] | MODE_DONE \<Rightarrow> [])"

definition window_spec :: "gterm \<Rightarrow> string" where
  "window_spec g =
     (let t = foldl add_row [] (window_rows g)
      in if g_mode g = MODE_RUN \<and> g_live g = [] \<and> t \<noteq> [] \<and> last t \<noteq> newline then t @ [newline] else t)"

definition term_ok :: "gterm \<Rightarrow> bool" where
  "term_ok g \<longleftrightarrow> list_all row_ok (g_lines g) \<and> length (g_lines g) \<le> TERM_ROWS \<and> row_ok (g_live g) \<and> row_ok (g_input g) \<and>
     length (g_input g) < TERM_LINE - 2 \<and> g_cols g < TERM_LINE - 2 \<and> entry_fits (g_entry g)"

lemma prompt_text_row: "term_ok g \<Longrightarrow> prompt_text g = ''} '' @ g_input g \<and> row_ok (prompt_text g)"
  by (auto simp: term_ok_def prompt_text_def row_ok_def strncpy_val_def cstr_id no_nul_def TERM_LINE_def)

lemma live_row_fits: "length t + length r + 2 < TERM_BUF \<Longrightarrow> fst (live_row t r) = add_row t r"
  by (simp add: live_row_def)

lemma window_text_spec:
  assumes "term_ok g"
  shows "fst (window_text g) = window_spec g \<and> no_nul (window_spec g) \<and> length (window_spec g) < TERM_BUF"
proof -
  have ok: "list_all row_ok (g_lines g)" "length (g_lines g) \<le> TERM_ROWS" "row_ok (g_live g)" using assms by (simp_all add: term_ok_def)
  let ?t = "foldl add_row [] (g_lines g)"
  have t: "rows_loop (g_lines g) [] = ?t" "no_nul ?t" "length ?t \<le> 6944"
    using rows_loop_all [OF ok(1), of "[]"] ok(2) by (auto simp: TERM_ROWS_def TERM_LINE_def TERM_BUF_def no_nul_def)
  have r: "fst (live_row ?t r) = add_row ?t r \<and> no_nul (add_row ?t r) \<and> length (add_row ?t r) < 7100" if "row_ok r" for r
    using add_row_ok [OF t(2) that] that t(3) by (intro conjI live_row_fits) (auto simp: row_ok_def TERM_LINE_def TERM_BUF_def)
  show ?thesis
  proof (cases "g_mode g")
    case MODE_PROMPT
    with r [of "prompt_text g"] prompt_text_row [OF assms] t(1) show ?thesis
      by (auto simp: window_text_def window_spec_def window_rows_def Let_def TERM_BUF_def split: prod.splits)
  next
    case MODE_RUN
    then show ?thesis
    proof (cases "g_live g = []")
      case True
      with MODE_RUN t show ?thesis by (auto simp: window_text_def window_spec_def window_rows_def Let_def TERM_BUF_def no_nul_def)
    next
      case False
      with MODE_RUN r [OF ok(3)] t(1) show ?thesis
        by (auto simp: window_text_def window_spec_def window_rows_def Let_def TERM_BUF_def split: prod.splits)
    qed
  next
    case MODE_DONE
    with t show ?thesis by (auto simp: window_text_def window_spec_def window_rows_def Let_def TERM_BUF_def)
  qed
qed

definition term_shows :: "gterm \<Rightarrow> bool" where
  "term_shows g \<longleftrightarrow> wentry_text (g_entry g) = window_spec g"

lemma window_spec_cong:
  "g_lines g = g_lines h \<Longrightarrow> g_mode g = g_mode h \<Longrightarrow> g_live g = g_live h \<Longrightarrow> g_input g = g_input h \<Longrightarrow> window_spec g = window_spec h"
  by (simp only: window_spec_def window_rows_def)

lemma rebuild_ok: "term_ok g \<Longrightarrow> term_ok (rebuild_entry g) \<and> term_shows (rebuild_entry g)"
proof -
  assume g: "term_ok g"
  note w = window_text_spec [OF g]
  have "wentry_text (wentry_set_text (window_spec g) (g_entry g)) = window_spec g \<and> entry_fits (wentry_set_text (window_spec g) (g_entry g))"
    using set_text_shows w g by (simp add: term_ok_def)
  then have "wentry_text (g_entry (rebuild_entry g)) = window_spec g \<and> entry_fits (g_entry (rebuild_entry g))"
    using rebuild_buf [of g] w by (simp add: wentry_text_def entry_fits_def)
  then show ?thesis using g window_spec_cong [of "rebuild_entry g" g] by (simp add: term_shows_def term_ok_def)
qed

lemma push_row_ok: "list_all row_ok ls \<Longrightarrow> length ls \<le> TERM_ROWS \<Longrightarrow> list_all row_ok (push_row s ls) \<and> length (push_row s ls) \<le> TERM_ROWS"
proof -
  assume "list_all row_ok ls" "length ls \<le> TERM_ROWS"
  then show ?thesis using row_ok_strncpy [of TERM_LINE s]
    by (cases ls) (auto simp: push_row_def TERM_LINE_def TERM_ROWS_def)
qed

lemma row_ok_nil: "row_ok []"
  by (simp add: row_ok_def no_nul_def TERM_LINE_def)

lemma push_line_ok: "term_ok g \<Longrightarrow> term_ok (push_line s g) \<and> term_shows (push_line s g)"
  unfolding push_line_def by (rule rebuild_ok) (use push_row_ok [of "g_lines g" s] row_ok_nil in \<open>simp add: term_ok_def\<close>)

lemma push_line_sel [simp]:
  "g_lines (push_line s g) = push_row s (g_lines g)" "g_input (push_line s g) = g_input g" "g_live (push_line s g) = []"
  "g_mode (push_line s g) = g_mode g" "g_sess (push_line s g) = g_sess g" "g_cols (push_line s g) = g_cols g" "g_quiet (push_line s g) = g_quiet g"
  by (simp_all add: push_line_def)

text \<open>The rows are the last 56 lines ever added, each cut to 123 characters.\<close>

theorem scrollback_window:
  "fold push_row ss [] = drop (length ss - 56) (map (\<lambda>s. strncpy_val s 124) ss)"
proof (induction ss rule: rev_induct)
  case (snoc s ss)
  define f where "f = (\<lambda>s. strncpy_val s 124)"
  have "tl (drop (length ss - 56) (map f ss)) = drop (Suc (length ss) - 56) (map f ss)" if "length ss \<ge> 56"
  proof -
    from that have "Suc (length ss - 56) = Suc (length ss) - 56" by simp
    then show ?thesis by (metis drop_Suc tl_drop)
  qed
  with snoc show ?case unfolding f_def [symmetric] by (auto simp: push_row_def TERM_ROWS_def TERM_LINE_def) (simp_all add: f_def)
qed simp


subsection \<open>Every event keeps it\<close>

text \<open>
  The program runs exactly in the running mode, and the entry shows the window's text. After the program has ended, that is its rows,
  with the line that says so at the end, and an empty line below them, as the last rebuild was made in the running mode.
\<close>

definition done_shown :: "gterm \<Rightarrow> bool" where
  "done_shown g \<longleftrightarrow> g_lines g \<noteq> [] \<and> last (g_lines g) = ''[process finished]'' \<and>
     wentry_text (g_entry g) = foldl add_row [] (g_lines g) @ [newline]"

definition gterm_ok :: "gterm \<Rightarrow> bool" where
  "gterm_ok g \<longleftrightarrow> term_ok g \<and> (g_mode g = MODE_RUN \<longleftrightarrow> s_alive (g_sess g)) \<and> (s_alive (g_sess g) \<longrightarrow> 0 \<le> s_pid (g_sess g)) \<and>
     (if g_mode g = MODE_DONE then done_shown g else term_shows g)"

lemma finished_shown:
  assumes "term_ok g" and "g_mode g = MODE_RUN"
  shows "done_shown ((push_line ''[process finished]'' g)\<lparr>g_mode := MODE_DONE, g_title := t\<rparr>)"
proof -
  let ?h = "push_line ''[process finished]'' g"
  have "strncpy_val ''[process finished]'' TERM_LINE = ''[process finished]''" by code_simp
  then obtain ls where ls: "push_row ''[process finished]'' (g_lines g) = ls @ [''[process finished]'']" by (simp add: push_row_def)
  have "last (foldl add_row [] (g_lines ?h)) \<noteq> newline" "foldl add_row [] (g_lines ?h) \<noteq> []" by (simp_all add: ls add_row_def)
  then have "window_spec ?h = foldl add_row [] (g_lines ?h) @ [newline]" using assms(2) by (simp add: window_spec_def window_rows_def)
  with push_line_ok [OF assms(1)] show ?thesis by (simp add: done_shown_def term_shows_def ls)
qed

lemma push_lines_ok:
  "term_ok g \<Longrightarrow> term_ok (fold push_line rws g) \<and> g_mode (fold push_line rws g) = g_mode g \<and> g_sess (fold push_line rws g) = g_sess g \<and>
     (rws = [] \<longrightarrow> fold push_line rws g = g)"
proof (induction rws arbitrary: g)
  case (Cons r rws)
  with push_line_ok [of g r] Cons.IH [of "push_line r g"] show ?case by simp
qed simp

lemma pump_cases:
  assumes "s_alive s" and "0 \<le> s_pid s" and "term_session_pump rep s = (running, s', rws)"
  shows "s_alive s' \<longleftrightarrow> running" and "running \<Longrightarrow> 0 \<le> s_pid s'" and "running \<Longrightarrow> \<not> s_painted s' \<Longrightarrow> rws = [] \<and> s_acc s' = s_acc s"
  using assms by (auto simp: term_session_pump_def flush_cons_def Let_def split: if_splits)

lemma drain_loop_ok:
  assumes "term_ok g" and "g_mode g = MODE_RUN" and "s_alive (g_sess g)" and "0 \<le> s_pid (g_sess g)" and "drain_loop n i reps ch g = (ended, ch', g')"
  shows "term_ok g' \<and> (if ended then g_mode g' = MODE_DONE \<and> \<not> s_alive (g_sess g') \<and> done_shown g'
    else g_mode g' = MODE_RUN \<and> s_alive (g_sess g') \<and> 0 \<le> s_pid (g_sess g') \<and>
      (ch' \<or> g_lines g' = g_lines g \<and> g_input g' = g_input g \<and> g_entry g' = g_entry g) \<and> (ch \<longrightarrow> ch'))"
  using assms
proof (induction n arbitrary: i ch g)
  case (Suc n)
  obtain running s rws where p: "term_session_pump (reps i) (g_sess g) = (running, s, rws)" by (metis prod_cases3)
  note pc = pump_cases [OF Suc.prems(3,4) p]
  let ?g = "fold push_line rws (g\<lparr>g_sess := s\<rparr>)"
  have t0: "term_ok (g\<lparr>g_sess := s\<rparr>)" using Suc.prems(1) by (simp add: term_ok_def)
  note g1 = push_lines_ok [OF t0, of rws]
  show ?case
  proof (cases running)
    case False
    have t1: "term_ok (?g\<lparr>g_live := []\<rparr>)" using g1 row_ok_nil by (simp add: term_ok_def)
    have m1: "g_mode (?g\<lparr>g_live := []\<rparr>) = MODE_RUN" using g1 Suc.prems(2) by simp
    from push_line_ok [OF t1, of "''[process finished]''"] have "term_ok (push_line ''[process finished]'' (?g\<lparr>g_live := []\<rparr>))" by simp
    then have "term_ok ((push_line ''[process finished]'' (?g\<lparr>g_live := []\<rparr>))\<lparr>g_mode := MODE_DONE, g_title := ''gterm''\<rparr>)"
      by (simp add: term_ok_def)
    with False Suc.prems(5) p g1 pc(1) finished_shown [OF t1 m1, of "''gterm''"] show ?thesis by (auto simp: Let_def)
  next
    case True
    let ?h = "?g\<lparr>g_live := strncpy_val (term_session_live s) TERM_LINE\<rparr>"
    have h: "term_ok ?h" "g_mode ?h = MODE_RUN" "g_sess ?h = s" using g1 row_ok_strncpy [of TERM_LINE] Suc.prems(2)
      by (auto simp: term_ok_def TERM_LINE_def)
    show ?thesis
    proof (cases "s_painted s")
      case P: True
      then have "drain_loop n (Suc i) reps True ?h = (ended, ch', g')" using Suc.prems(5) True p by (simp add: Let_def)
      from Suc.IH [OF h(1,2) _ _ this] h(3) pc True show ?thesis by auto
    next
      case P: False
      then have "g' = ?h" "\<not> ended" "ch' = ch" using Suc.prems(5) True p by (auto simp: Let_def)
      moreover have "rws = []" using pc(3) True P by simp
      ultimately show ?thesis using h pc(1,2) True by simp
    qed
  qed
qed auto

lemma drain_child_ok:
  assumes "gterm_ok g" and "g_mode g = MODE_RUN"
  shows "gterm_ok (snd (drain_child reps g))"
proof -
  obtain ended ch g' where d: "drain_loop 64 0 reps False g = (ended, ch, g')" by (metis prod_cases3)
  have a: "term_ok g" "s_alive (g_sess g)" "0 \<le> s_pid (g_sess g)" "term_shows g" using assms by (auto simp: gterm_ok_def)
  note l = drain_loop_ok [OF a(1) assms(2) a(2,3) d]
  show ?thesis
  proof (cases ended)
    case True
    with l show ?thesis by (auto simp: drain_child_def d gterm_ok_def)
  next
    case False
    show ?thesis
    proof (cases "ch \<or> g_live g \<noteq> g_live g'")
      case True
      with l False rebuild_ok [of g'] show ?thesis by (auto simp: drain_child_def d gterm_ok_def)
    next
      case F: False
      with l False have "term_shows g'" using a(4) assms(2) window_spec_cong [of g' g] by (simp add: term_shows_def)
      with l False F show ?thesis by (auto simp: drain_child_def d gterm_ok_def)
    qed
  qed
qed

lemma start_cases:
  "term_session_start ex spawned s = (st, s') \<Longrightarrow> (s_alive s' \<longleftrightarrow> st = 0) \<and> (st = 0 \<longrightarrow> 0 \<le> s_pid s')"
  by (auto simp: term_session_start_def Let_def split: if_splits)

lemma again_ok: "term_ok g \<Longrightarrow> \<not> s_alive (g_sess g) \<Longrightarrow> gterm_ok (prompt_again g)"
  using rebuild_ok [of "g\<lparr>g_mode := MODE_PROMPT\<rparr>"] by (simp add: prompt_again_def gterm_ok_def term_ok_def)

lemma echo_ok:
  assumes "term_ok g"
  shows "term_ok (echo_command g) \<and> g_mode (echo_command g) = MODE_RUN \<and> g_sess (echo_command g) = g_sess g \<and> term_shows (echo_command g)"
proof -
  define r where "r = g\<lparr>g_mode := MODE_RUN, g_live := []\<rparr>"
  define h where "h = (if \<not> g_quiet r then push_line (''} '' @ strncpy_val (g_input r) (TERM_LINE - 3)) r else rebuild_entry r)"
  have "term_ok r" using assms row_ok_nil by (simp add: r_def term_ok_def)
  then have h: "term_ok h" "term_shows h" using push_line_ok [of r] rebuild_ok [of r] by (simp_all add: h_def)
  have m: "g_mode h = MODE_RUN" "g_sess h = g_sess g" by (simp_all add: h_def r_def)
  have e: "echo_command g = h\<lparr>g_input := []\<rparr>" by (simp add: echo_command_def Let_def h_def r_def)
  have "window_spec (h\<lparr>g_input := []\<rparr>) = window_spec h" using m(1) by (simp add: window_spec_def window_rows_def)
  with h m e row_ok_nil show ?thesis by (simp add: term_ok_def term_shows_def TERM_LINE_def)
qed

lemma launch_ok:
  assumes "term_ok h" and "g_mode h = MODE_RUN" and "\<not> s_alive (g_sess h)" and "term_shows h"
  shows "gterm_ok (snd (launch exists spawned reps argv h))"
proof (cases "argv = [] \<or> resolve_exec exists (hd argv) = None")
  case True
  with assms push_line_ok [OF assms(1), of "''not found''"] show ?thesis by (auto simp: launch_def intro!: again_ok)
next
  case False
  then obtain path where path: "resolve_exec exists (hd argv) = Some path" "argv \<noteq> []" by auto
  obtain st s where st: "term_session_start (exists path) spawned (g_sess h) = (st, s)" by fastforce
  let ?x = "h\<lparr>g_sess := s\<rparr>"
  have x: "term_ok ?x" using assms(1) by (simp add: term_ok_def)
  show ?thesis
  proof (cases "st = 0")
    case True
    let ?y = "set_title_prog path ?x"
    have y: "term_ok ?y" "g_mode ?y = MODE_RUN" "g_sess ?y = s" "g_entry ?y = g_entry h" "window_spec ?y = window_spec h"
      using x assms(2) window_spec_cong [of ?y h] by (simp_all add: set_title_prog_def Let_def term_ok_def)
    then have "gterm_ok ?y" using start_cases [OF st] True assms(4) by (simp add: gterm_ok_def term_shows_def)
    with drain_child_ok [OF this y(2)] True path show ?thesis by (simp add: launch_def st)
  next
    case F: False
    with start_cases [OF st] push_line_ok [OF x, of "''spawn failed''"] path show ?thesis by (auto simp: launch_def st intro!: again_ok)
  qed
qed

lemma submit_ok: "gterm_ok g \<Longrightarrow> gterm_ok (snd (submit exists spawned reps g))"
  using echo_ok [of g] by (auto simp: submit_def gterm_ok_def [of g] intro!: launch_ok)

lemma key_ok: "gterm_ok g \<Longrightarrow> gterm_ok (snd (gterm_key exists spawned reps key g))"
proof -
  assume g: "gterm_ok g"
  have t: "term_ok g" using g by (simp add: gterm_ok_def)
  have typed: "gterm_ok (rebuild_entry (g\<lparr>g_input := s\<rparr>))" if "row_ok s" "length s < TERM_LINE - 2" "g_mode g = MODE_PROMPT" for s
    using rebuild_ok [of "g\<lparr>g_input := s\<rparr>"] t g that by (simp add: gterm_ok_def term_ok_def)
  have bsp: "row_ok (butlast (g_input g)) \<and> length (butlast (g_input g)) < TERM_LINE - 2"
    using t by (auto simp: term_ok_def row_ok_def no_nul_def dest: in_set_butlastD)
  have tch: "row_ok (g_input g @ [char_of (nat key)]) \<and> length (g_input g @ [char_of (nat key)]) < TERM_LINE - 2"
    if "32 \<le> key" "key < 127" "length (g_input g) + 1 < g_cols g"
  proof -
    have "char_of (nat key) \<noteq> NUL"
    proof
      assume "char_of (nat key) = NUL"
      then have "(of_char (char_of (nat key)) :: nat) = 0" by simp
      with that(1,2) show False by (simp add: of_char_of take_bit_eq_mod)
    qed
    with that t show ?thesis by (simp add: term_ok_def row_ok_def no_nul_def TERM_LINE_def)
  qed
  consider "g_mode g \<noteq> MODE_PROMPT" | "g_mode g = MODE_PROMPT" by blast
  then show ?thesis
  proof cases
    case 1
    with g show ?thesis by (auto simp: gterm_key_def)
  next
    case 2
    with g bsp tch typed submit_ok [OF g] show ?thesis
      by (auto simp: gterm_key_def split: prod.splits) (metis snd_conv)+
  qed
qed

lemma gterm_start_ok: "cols < 122 \<Longrightarrow> gterm_ok (gterm_start [] cols exists spawned reps)"
proof -
  assume c: "cols < 122"
  define g where "g = \<lparr>g_lines = [], g_input = [], g_live = [], g_title = ''gterm'', g_mode = MODE_PROMPT,
               g_sess = \<lparr>s_pid = 0, s_acc = [], s_caret = 0, s_alive = False, s_painted = False\<rparr>,
               g_quiet = False, g_entry = (wentry_init 0 (replicate TERM_BUF NUL) (int TERM_BUF) True)\<lparr>e_flat := True, e_focused := True\<rparr>,
               g_focus = Some 0, g_cols = cols\<rparr>"
  have "term_ok g" using c row_ok_nil
    by (simp add: g_def term_ok_def entry_fits_def wentry_init_def TERM_LINE_def TERM_BUF_def)
  with push_line_ok [OF this] have "gterm_ok (push_line ''gterm - type an executable (bin name or path)'' g)"
    by (simp add: gterm_ok_def) (simp add: g_def)
  then show ?thesis by (simp add: gterm_start_def Let_def g_def)
qed

text \<open>Property C36. The terminal window: whatever keys come, whatever the kernel answers and the program writes, the window is in its running mode exactly
  while its session is alive, keeps at most 56 rows of at most 123 characters, and the text widget holds exactly the rows and the line of
  the program or the prompt with the typed command, all of it: the 8192 bytes of its buffer never cut it. When the program has ended it holds
  the rows, the last of which says so, and an empty line.\<close>

theorem gterm_shows_window:
  assumes "gterm_ok g"
  shows "gterm_ok (snd (gterm_key exists spawned reps key g)) \<and> (g_mode g = MODE_RUN \<longrightarrow> gterm_ok (snd (drain_child reps g)))"
  using key_ok [OF assms] drain_child_ok [OF assms] by simp

theorem gterm_shows_window_witness:
  "gterm_ok (snd (gterm_key (\<lambda>_. False) 0 (\<lambda>_. \<lparr>r_wait = -2, r_status = 0, r_chunks = []\<rparr>) 108
     (gterm_start [] 80 (\<lambda>_. False) 0 (\<lambda>_. \<lparr>r_wait = -2, r_status = 0, r_chunks = []\<rparr>))))"
proof -
  have "gterm_ok (gterm_start [] 80 (\<lambda>_. False) 0 (\<lambda>_. \<lparr>r_wait = -2, r_status = 0, r_chunks = []\<rparr>))" by (rule gterm_start_ok) simp
  from gterm_shows_window [OF this] show ?thesis by simp
qed

end
