(* ===== verification/DisplaySpec.thy ===== *)
theory DisplaySpec
  imports Display
begin

text \<open>
  The contract of the window service: the invariant that ties every window to heap pages of its
  own, the abstract event queue, and the isolation of clients that are neither the server nor a
  window's owner.
\<close>

section \<open>Invariant\<close>

definition win_page :: "gui_win \<Rightarrow> nat" where
  "win_page g = unat (gw_pixels g - KERNEL_HEAP_START) div PAGE_SIZE"

definition win_pages :: "gui_win \<Rightarrow> nat set" where
  "win_pages g = (if gw_used g then {win_page g..<win_page g + gw_pages g} else {})"

definition win_owner :: "display \<Rightarrow> nat \<Rightarrow> nat set" where
  "win_owner d i = (if i < length (gwins d) then win_pages (gwins d ! i) else {})"

definition evts_ok :: "gui_win \<Rightarrow> bool" where
  "evts_ok g \<longleftrightarrow> length (gw_ev g) = GUI_EVT_MAX \<and> ev_r g < GUI_EVT_MAX \<and> ev_w g < GUI_EVT_MAX"

definition win_ok :: "gui_win \<Rightarrow> bool" where
  "win_ok g \<longleftrightarrow> evts_ok g \<and> (gw_used g \<longrightarrow> 0 < gw_id g \<and> \<not> bad_size (gw_w g) (gw_h g) \<and>
     gw_pages g = pages_of (gw_w g) (gw_h g) \<and> gw_pixels g = page_addr (win_page g) \<and>
     win_page g + gw_pages g \<le> PAGE_COUNT)"

definition wins_ok :: "display \<Rightarrow> bool" where
  "wins_ok d \<longleftrightarrow> length (gwins d) = GUI_WIN_MAX \<and> 0 < next_id d \<and>
     (\<forall>i < GUI_WIN_MAX. win_ok (gwins d ! i) \<and> (gw_used (gwins d ! i) \<longrightarrow> gw_id (gwins d ! i) < next_id d)) \<and>
     (\<forall>i < GUI_WIN_MAX. \<forall>j < GUI_WIN_MAX. gw_used (gwins d ! i) \<and> gw_used (gwins d ! j) \<and>
        gw_id (gwins d ! i) = gw_id (gwins d ! j) \<longrightarrow> i = j)"

definition disp_inv :: "display \<times> mm \<Rightarrow> bool" where
  "disp_inv = (\<lambda>(d, m). mm_inv m \<and> wins_ok d \<and> disjoint_owners (win_owner d) (used_pages m))"

text \<open>What an update of a window leaves alone when it only changes its attributes or its events.\<close>

definition same_place :: "gui_win \<Rightarrow> gui_win \<Rightarrow> bool" where
  "same_place g h \<longleftrightarrow> gw_used h = gw_used g \<and> gw_id h = gw_id g \<and> client_pid h = client_pid g \<and>
     gw_w h = gw_w g \<and> gw_h h = gw_h g \<and> gw_pixels h = gw_pixels g \<and> gw_pages h = gw_pages g"

lemma win_by_id_Some:
  "win_by_id d wid = Some i \<Longrightarrow> wins_ok d \<Longrightarrow> i < GUI_WIN_MAX \<and> i < length (gwins d) \<and> gw_used (gwins d ! i) \<and> gw_id (gwins d ! i) = wid \<and>
     win_ok (gwins d ! i)"
  unfolding win_by_id_def by (drule first_from_Some) (auto simp: wins_ok_def)

lemma wins_ok_same_place:
  assumes ok: "wins_ok d" and same: "same_place (gwins d ! i) g" and ev: "evts_ok g"
  shows "wins_ok (set_win i g d)"
proof -
  let ?g = "\<lambda>j. (gwins d)[i := g] ! j"
  have len: "length (gwins d) = GUI_WIN_MAX" using ok by (simp add: wins_ok_def)
  have "gw_used (?g j) = gw_used (gwins d ! j)" "gw_id (?g j) = gw_id (gwins d ! j)" if "j < GUI_WIN_MAX" for j
    using same that len by (cases "j = i"; simp add: same_place_def)+
  moreover have "win_ok (?g j)" if "j < GUI_WIN_MAX" for j
  proof (cases "j = i")
    case True
    with ok that have "win_ok (gwins d ! i)" by (simp add: wins_ok_def)
    with same ev have "win_ok g" by (auto simp: win_ok_def same_place_def win_page_def)
    with True that len show ?thesis by simp
  qed (use ok that in \<open>simp add: wins_ok_def\<close>)
  ultimately show ?thesis using ok by (simp add: wins_ok_def)
qed

lemma win_owner_set: "i < length (gwins d) \<Longrightarrow> win_owner (set_win i g d) = (win_owner d)(i := win_pages g)"
  by (rule ext) (simp add: win_owner_def)

lemma same_place_pages: "same_place h g \<Longrightarrow> win_pages g = win_pages h"
  by (simp add: same_place_def win_pages_def win_page_def)

lemma win_owner_same_place: "same_place (gwins d ! i) g \<Longrightarrow> win_owner (set_win i g d) = win_owner d"
proof (rule ext)
  fix j assume "same_place (gwins d ! i) g"
  then show "win_owner (set_win i g d) j = win_owner d j"
    by (cases "j = i") (simp_all add: win_owner_def same_place_pages)
qed

lemma disp_inv_same_place:
  "disp_inv (d, m) \<Longrightarrow> same_place (gwins d ! i) g \<Longrightarrow> evts_ok g \<Longrightarrow> disp_inv (set_win i g d, m)"
  by (simp add: disp_inv_def wins_ok_same_place win_owner_same_place)

lemma pages_of_pos: "\<not> bad_size w h \<Longrightarrow> 0 < pages_of w h"
proof -
  assume "\<not> bad_size w h"
  then have "32 * 32 \<le> nat w * nat h" by (intro mult_le_mono) (auto simp: bad_size_def)
  then show ?thesis by (simp add: pages_of_def PAGE_SIZE_def)
qed

lemma win_page_addr: "k < PAGE_COUNT \<Longrightarrow> win_page (g\<lparr>gw_pixels := page_addr k\<rparr>) = k"
  by (simp add: win_page_def page_addr_index)

lemma win_page_range:
  "win_ok g \<Longrightarrow> gw_used g \<Longrightarrow> win_page g < PAGE_COUNT \<and> 0 < gw_pages g \<and> gw_pixels g \<noteq> 0"
  using pages_of_pos [of "gw_w g" "gw_h g"] page_addr_range [of "win_page g"]
  by (auto simp: win_ok_def KERNEL_HEAP_START_def word_le_nat_alt)

text \<open>Releasing the pages of a window in use.\<close>

lemma free_pixels_used:
  assumes "disp_inv (d, m)" and "i < length (gwins d)" and "gw_used (gwins d ! i)"
  shows "used_pages (free_pixels (gwins d ! i) m) = used_pages m - win_owner d i"
    and "mm_inv (free_pixels (gwins d ! i) m)"
proof -
  have ok: "win_ok (gwins d ! i)" using assms by (simp add: disp_inv_def wins_ok_def)
  note r = win_page_range [OF ok assms(3)]
  have p: "gw_pixels (gwins d ! i) = page_addr (win_page (gwins d ! i))" using ok assms(3) by (simp add: win_ok_def)
  have inv: "mm_inv m" using assms(1) by (simp add: disp_inv_def)
  show "used_pages (free_pixels (gwins d ! i) m) = used_pages m - win_owner d i"
    using mm_free_used [OF inv, of "win_page (gwins d ! i)" "gw_pages (gwins d ! i)"] r assms(2,3)
    by (simp add: free_pixels_def win_owner_def win_pages_def p [symmetric])
  show "mm_inv (free_pixels (gwins d ! i) m)" using mm_inv_free [OF inv] inv by (simp add: free_pixels_def)
qed

lemma wins_ok_unused: "wins_ok d \<Longrightarrow> \<not> gw_used g \<Longrightarrow> evts_ok g \<Longrightarrow> wins_ok (set_win i g d)"
  by (cases "i < GUI_WIN_MAX") (auto simp: wins_ok_def nth_list_update win_ok_def)

lemma evts_ok_blank [simp]: "evts_ok blank_win"
  by (simp add: evts_ok_def blank_win_def GUI_EVT_MAX_def)

lemma drop_window:
  assumes inv: "disp_inv (d, m)" and i: "i < length (gwins d)" "gw_used (gwins d ! i)"
  shows "disp_inv (set_win i blank_win d, free_pixels (gwins d ! i) m)"
proof -
  have "win_owner (set_win i blank_win d) = (win_owner d)(i := {})"
    using i by (simp add: win_owner_set) (simp add: win_pages_def blank_win_def)
  moreover have "\<not> gw_used blank_win" by (simp add: blank_win_def)
  ultimately show ?thesis
    using inv free_pixels_used [OF inv i] disjoint_owners_drop [of "win_owner d" "used_pages m" i]
    by (simp add: disp_inv_def wins_ok_unused)
qed

lemma disp_inv_destroy [inv_intros]: "disp_inv (d, m) \<Longrightarrow> disp_inv (snd (display_destroy cur wid (d, m)))"
  using win_by_id_Some [of d wid] drop_window
  by (auto simp: display_destroy_def split: option.splits) (auto simp: disp_inv_def)

lemma disp_inv_destroy_pid [inv_intros]: "disp_inv dm \<Longrightarrow> disp_inv (display_destroy_pid p dm)"
proof -
  have "disp_inv dm \<Longrightarrow> set is \<subseteq> {..<GUI_WIN_MAX} \<Longrightarrow> disp_inv (destroy_pid_loop p is dm)" for "is"
  proof (induction "is" arbitrary: dm)
    case (Cons i "is")
    obtain d m where dm: "dm = (d, m)" by fastforce
    have i: "i < length (gwins d)" using Cons.prems by (simp add: dm disp_inv_def wins_ok_def)
    show ?case
      using Cons.IH [of dm] Cons.IH [of "(set_win i blank_win d, free_pixels (gwins d ! i) m)"] Cons.prems drop_window [OF _ i, of m]
      by (simp add: dm Let_def)
  qed simp
  then show "disp_inv dm \<Longrightarrow> ?thesis" by (simp add: display_destroy_pid_def subset_eq)
qed

lemma wins_ok_fields [simp]:
  "wins_ok (d\<lparr>server_pid := s\<rparr>) = wins_ok d" "wins_ok (d\<lparr>launch_q := q\<rparr>) = wins_ok d"
  "win_owner (d\<lparr>server_pid := s\<rparr>) = win_owner d" "win_owner (d\<lparr>launch_q := q\<rparr>) = win_owner d"
  "win_owner (d\<lparr>next_id := n\<rparr>) = win_owner d"
  by (simp_all add: wins_ok_def win_owner_def fun_eq_iff)

lemma fresh_window:
  assumes ok: "wins_ok d" and i: "i < GUI_WIN_MAX" "\<not> gw_used (gwins d ! i)"
    and g: "win_ok g" "gw_id g = next_id d"
  shows "wins_ok ((set_win i g d)\<lparr>next_id := next_id d + 1\<rparr>)"
proof -
  have len: "length (gwins d) = GUI_WIN_MAX" using ok by (simp add: wins_ok_def)
  have old: "gw_used (gwins d ! j) \<Longrightarrow> gw_id (gwins d ! j) < next_id d" if "j < GUI_WIN_MAX" for j
    using ok that by (simp add: wins_ok_def)
  have "win_ok ((gwins d)[i := g] ! j) \<and> (gw_used ((gwins d)[i := g] ! j) \<longrightarrow> gw_id ((gwins d)[i := g] ! j) < next_id d + 1)"
    if "j < GUI_WIN_MAX" for j
    using ok that g len old [OF that] by (cases "j = i") (auto simp: wins_ok_def)
  moreover have "j = k" if "j < GUI_WIN_MAX" "k < GUI_WIN_MAX" "gw_used ((gwins d)[i := g] ! j)"
    "gw_used ((gwins d)[i := g] ! k)" "gw_id ((gwins d)[i := g] ! j) = gw_id ((gwins d)[i := g] ! k)" for j k
  proof (cases "j = i \<or> k = i")
    case True
    have gi: "gw_id ((gwins d)[i := g] ! i) = next_id d" using g i len by simp
    have lt: "gw_id ((gwins d)[i := g] ! l) < next_id d" if "l < GUI_WIN_MAX" "l \<noteq> i" "gw_used ((gwins d)[i := g] ! l)" for l
      using old [OF that(1)] that by simp
    from True that lt gi show ?thesis by (metis less_irrefl)
  next
    case False
    with that have "gw_used (gwins d ! j)" "gw_used (gwins d ! k)" "gw_id (gwins d ! j) = gw_id (gwins d ! k)" by simp_all
    with ok that(1,2) show ?thesis unfolding wins_ok_def by blast
  qed
  ultimately show ?thesis using ok len by (simp add: wins_ok_def)
qed

lemma new_win_ok:
  assumes "k + pages_of w h \<le> PAGE_COUNT" and "0 < pages_of w h" and "\<not> bad_size w h" and "evts_ok g"
    and "gw_used g" "0 < gw_id g" "gw_w g = w" "gw_h g = h" "gw_pixels g = page_addr k" "gw_pages g = pages_of w h"
  shows "win_ok g" and "win_pages g = {k..<k + pages_of w h}"
proof -
  have "win_page g = k" using assms by (simp add: win_page_def page_addr_index)
  with assms show "win_ok g" "win_pages g = {k..<k + pages_of w h}" by (simp_all add: win_ok_def win_pages_def)
qed

lemma disp_inv_create [inv_intros]:
  assumes inv: "disp_inv (d, m)"
  shows "disp_inv (snd (display_create cur w h title (d, m)))"
proof (cases "cur = None \<or> server_pid d = 0 \<or> bad_size w h \<or> first_from (\<lambda>g. \<not> gw_used g) (gwins d) 0 = None")
  case True
  then show ?thesis using inv by (auto simp: display_create_def split: option.splits)
next
  case False
  then obtain c i where c: "cur = Some c" "server_pid d \<noteq> 0" "\<not> bad_size w h"
    and i: "first_from (\<lambda>g. \<not> gw_used g) (gwins d) 0 = Some i" by auto
  have ok: "wins_ok d" "mm_inv m" "disjoint_owners (win_owner d) (used_pages m)" using inv by (auto simp: disp_inv_def)
  have i': "i < length (gwins d)" "\<not> gw_used (gwins d ! i)" "i < GUI_WIN_MAX"
    using first_from_Some [OF i] ok by (auto simp: wins_ok_def)
  have ev: "evts_ok (gwins d ! i)" using ok i' by (simp add: wins_ok_def win_ok_def)
  obtain po m' where al: "mm_alloc_pages (pages_of w h) m = (po, m')" by fastforce
  show ?thesis
  proof (cases po)
    case None
    have m': "m' = m" using al mm_alloc_None None by blast
    have "win_owner (set_win i ((gwins d ! i)\<lparr>gw_pixels := 0\<rparr>) d) = win_owner d"
      using i' by (simp add: win_owner_set) (auto simp: win_pages_def fun_eq_iff win_owner_def)
    moreover have "wins_ok (set_win i ((gwins d ! i)\<lparr>gw_pixels := 0\<rparr>) d)"
      using i' ev by (intro wins_ok_unused ok) (simp_all add: evts_ok_def)
    ultimately show ?thesis using c i al None ok m' by (simp add: display_create_def disp_inv_def)
  next
    case (Some p)
    have "win_owner d i = {}" using i' by (simp add: win_owner_def win_pages_def)
    from kpages.alloc_owner [OF ok(2,3) al [unfolded Some] this] obtain k where
      k: "p = page_addr k" "0 < pages_of w h" "k + pages_of w h \<le> PAGE_COUNT"
        "disjoint_owners ((win_owner d)(i := {k..<k + pages_of w h})) (used_pages m')" by blast
    have "mm_inv m'" using mm_inv_alloc [OF ok(2), of "pages_of w h"] al by simp
    define g where "g = (gwins d ! i)\<lparr>gw_pixels := p, gw_used := True, gw_id := next_id d, client_pid := pid c,
        gw_w := w, gw_h := h, gw_pages := pages_of w h, gw_damage := True, gw_mapped := False,
        gw_flags := 0, ev_r := 0, ev_w := 0,
        gw_title := (case title of Some t \<Rightarrow> if cget t 0 \<noteq> NUL then strncpy_val t GUI_TITLE_MAX else ''window''
                     | None \<Rightarrow> ''window'')\<rparr>"
    have gid: "gw_id g = next_id d" by (simp add: g_def)
    have g: "win_ok g" "win_pages g = {k..<k + pages_of w h}"
      using ev ok k c by (intro new_win_ok [of k w h]; simp add: g_def evts_ok_def wins_ok_def GUI_EVT_MAX_def)+
    have res: "snd (display_create cur w h title (d, m)) =
        ((set_win i g d)\<lparr>next_id := next_id d + 1\<rparr>, m'\<lparr>mem := kmemset (mem m') p 0 (pages_of w h * PAGE_SIZE)\<rparr>)"
      using c i al Some by (simp add: display_create_def g_def Let_def)
    show ?thesis unfolding res disp_inv_def
      using fresh_window [OF ok(1) i'(3,2) g(1) gid] k(4) \<open>mm_inv m'\<close> i'(1) g(2) by (simp add: win_owner_set)
  qed
qed

section \<open>Events: the ring is a list\<close>

definition evt_count :: "gui_win \<Rightarrow> nat" where
  "evt_count g = (ev_w g + GUI_EVT_MAX - ev_r g) mod GUI_EVT_MAX"

definition win_events :: "gui_win \<Rightarrow> gui_evt list" where
  "win_events g = ring_items (gw_ev g) (ev_r g) (evt_count g)"

text \<open>What posting means on the list of queued events.\<close>

fun update_first :: "('a \<Rightarrow> bool) \<Rightarrow> ('a \<Rightarrow> 'a) \<Rightarrow> 'a list \<Rightarrow> 'a list" where
  "update_first P f [] = []"
| "update_first P f (x # xs) = (if P x then f x # xs else x # update_first P f xs)"

definition post_spec :: "u32 \<Rightarrow> int \<Rightarrow> int \<Rightarrow> int \<Rightarrow> int \<Rightarrow> gui_evt list \<Rightarrow> int \<times> gui_evt list" where
  "post_spec ty key x y buttons q =
     (let mouse = (\<lambda>e. ev_type e = INP_MOUSE); move = (\<lambda>e. e\<lparr>ev_x := x, ev_y := y, ev_buttons := buttons\<rparr>) in
      if ty = INP_RESIZE \<and> (\<exists>e\<in>set q. ev_type e = INP_RESIZE) then
        (0, update_first (\<lambda>e. ev_type e = INP_RESIZE) (\<lambda>e. e\<lparr>ev_x := x, ev_y := y\<rparr>) q)
      else if ty = INP_MOUSE \<and> q \<noteq> [] \<and> mouse (last q) then (0, butlast q @ [move (last q)])
      else if length q < GUI_EVT_MAX - 1 then
        (0, q @ [\<lparr>ev_type = ty, ev_key = key, ev_x = x, ev_y = y, ev_buttons = buttons\<rparr>])
      else if ty = INP_MOUSE \<and> (\<exists>e\<in>set q. mouse e) then (0, update_first mouse move q)
      else (-1, q))"

lemma update_first_at:
  "j < length xs \<Longrightarrow> P (xs ! j) \<Longrightarrow> (\<And>i. i < j \<Longrightarrow> \<not> P (xs ! i)) \<Longrightarrow> update_first P f xs = xs[j := f (xs ! j)]"
proof (induction xs arbitrary: j)
  case (Cons x xs)
  show ?case
  proof (cases j)
    case (Suc k)
    have "\<not> P x" using Cons.prems(3) [of 0] Suc by simp
    with Cons.IH [of k] Cons.prems Suc show ?thesis by (metis (no_types, lifting) Suc_less_eq length_Cons list_update_code(3) nth_Cons_Suc update_first.simps(2))
  qed (use Cons.prems in simp)
qed simp

lemma win_events_slots: "evts_ok g \<Longrightarrow> win_events g = map ((!) (gw_ev g)) (queued_slots g)"
  by (simp add: win_events_def ring_items_def queued_slots_def evt_count_def evts_ok_def)

lemma evt_count_less: "evts_ok g \<Longrightarrow> evt_count g < GUI_EVT_MAX"
  by (simp add: evt_count_def evts_ok_def GUI_EVT_MAX_def)

lemma find_evt_None: "evts_ok g \<Longrightarrow> find_evt g ty = None \<longleftrightarrow> \<not> (\<exists>e\<in>set (win_events g). ev_type e = ty)"
  by (auto simp: find_evt_def find_None_iff win_events_slots)

lemma find_evt_Some:
  assumes ok: "evts_ok g" and "find_evt g ty = Some i"
  shows "\<exists>j < evt_count g. i = (ev_r g + j) mod GUI_EVT_MAX \<and> ev_type (win_events g ! j) = ty \<and> gw_ev g ! i = win_events g ! j \<and>
    (\<forall>k<j. ev_type (win_events g ! k) \<noteq> ty)"
proof -
  from assms(2) obtain j where j: "j < length (queued_slots g)" "ev_type (gw_ev g ! (queued_slots g ! j)) = ty"
    "i = queued_slots g ! j" "\<forall>k<j. ev_type (gw_ev g ! (queued_slots g ! k)) \<noteq> ty"
    unfolding find_evt_def find_Some_iff by blast
  then show ?thesis using ok
    by (intro exI [of _ j]) (auto simp: win_events_slots queued_slots_def evt_count_def)
qed

lemma win_events_update:
  assumes "evts_ok g" and "j < evt_count g" and "i = (ev_r g + j) mod GUI_EVT_MAX"
  shows "win_events (g\<lparr>gw_ev := (gw_ev g)[i := e]\<rparr>) = (win_events g)[j := e]"
  using ring_items_update [of j "evt_count g" "gw_ev g" "ev_r g" e] evt_count_less [OF assms(1)] assms
  by (simp add: win_events_def evts_ok_def evt_count_def)

lemma find_evt_update:
  assumes "evts_ok g" and "find_evt g ty = Some i"
  shows "win_events (set_evt i f g) = update_first (\<lambda>e. ev_type e = ty) f (win_events g)"
proof -
  from find_evt_Some [OF assms] obtain j where j: "j < evt_count g" "i = (ev_r g + j) mod GUI_EVT_MAX"
    "ev_type (win_events g ! j) = ty" "gw_ev g ! i = win_events g ! j" "\<forall>k<j. ev_type (win_events g ! k) \<noteq> ty" by blast
  have "j < length (win_events g)" using j by (simp add: win_events_def)
  then have "update_first (\<lambda>e. ev_type e = ty) f (win_events g) = (win_events g)[j := f (win_events g ! j)]"
    using j by (intro update_first_at) auto
  then show ?thesis using win_events_update [OF assms(1) j(1,2)] j(4) by simp
qed

lemma last_event:
  assumes ok: "evts_ok g" and ne: "ev_r g \<noteq> ev_w g" and l: "l = (ev_w g + GUI_EVT_MAX - 1) mod GUI_EVT_MAX"
  shows "win_events g \<noteq> []" and "gw_ev g ! l = last (win_events g)"
    and "win_events (set_evt l f g) = butlast (win_events g) @ [f (last (win_events g))]"
proof -
  have b: "ev_r g < 16" "ev_w g < 16" "length (gw_ev g) = 16" using ok by (auto simp: evts_ok_def GUI_EVT_MAX_def)
  obtain n where n: "evt_count g = Suc n"
    using count_zero [of "ev_w g" 16 "ev_r g"] b ne by (cases "evt_count g") (auto simp: evt_count_def GUI_EVT_MAX_def)
  have sl: "l = (ev_r g + n) mod GUI_EVT_MAX"
    using count_last [of "ev_w g" 16 "ev_r g" n] b n by (simp add: l evt_count_def GUI_EVT_MAX_def)
  have len: "length (win_events g) = Suc n" by (simp add: win_events_def n)
  then show nil: "win_events g \<noteq> []" by auto
  show l': "gw_ev g ! l = last (win_events g)"
    using len b by (simp add: last_conv_nth nil) (simp add: win_events_def ring_items_def n sl GUI_EVT_MAX_def del: upt_Suc)
  show "win_events (set_evt l f g) = butlast (win_events g) @ [f (last (win_events g))]"
    using win_events_update [OF ok _ sl, of "f (gw_ev g ! l)"] n len l'
    by (simp add: butlast_conv_take upd_conv_take_nth_drop)
qed

lemma post_full:
  assumes ok: "evts_ok g"
  shows "(ev_w g + 1) mod GUI_EVT_MAX = ev_r g \<longleftrightarrow> \<not> length (win_events g) < GUI_EVT_MAX - 1"
    and "ev_r g = ev_w g \<longleftrightarrow> win_events g = []"
proof -
  have b: "ev_r g < 16" "ev_w g < 16" using ok by (auto simp: evts_ok_def GUI_EVT_MAX_def)
  then show "(ev_w g + 1) mod GUI_EVT_MAX = ev_r g \<longleftrightarrow> \<not> length (win_events g) < GUI_EVT_MAX - 1"
    using count_step(1) [of "ev_w g" 16 "ev_r g"] evt_count_less [OF ok]
    by (auto simp: win_events_def evt_count_def GUI_EVT_MAX_def)
  from b have "evt_count g = 0 \<longleftrightarrow> ev_r g = ev_w g"
    using count_zero [of "ev_w g" 16 "ev_r g"] by (auto simp: evt_count_def GUI_EVT_MAX_def)
  then show "ev_r g = ev_w g \<longleftrightarrow> win_events g = []"
    by (simp add: win_events_def flip: length_0_conv)
qed

lemma append_event:
  assumes ok: "evts_ok g" and room: "length (win_events g) < GUI_EVT_MAX - 1"
  shows "win_events (g\<lparr>gw_ev := (gw_ev g)[ev_w g := e], ev_w := (ev_w g + 1) mod GUI_EVT_MAX\<rparr>) = win_events g @ [e]"
proof -
  let ?g = "g\<lparr>gw_ev := (gw_ev g)[ev_w g := e], ev_w := (ev_w g + 1) mod GUI_EVT_MAX\<rparr>"
  have b: "ev_r g < 16" "ev_w g < 16" "length (gw_ev g) = 16" "evt_count g < 15"
    using ok room by (auto simp: evts_ok_def GUI_EVT_MAX_def win_events_def)
  have "Suc (ev_w g) mod 16 \<noteq> ev_r g" using b count_step(1) [of "ev_w g" 16 "ev_r g"] by (auto simp: evt_count_def GUI_EVT_MAX_def)
  then have "evt_count ?g = Suc (evt_count g)" "(ev_r g + evt_count g) mod 16 = ev_w g"
    using b count_step(2) [of "ev_w g" 16 "ev_r g"] ring_count(1) [of "ev_w g" 16 "ev_r g"]
    by (simp_all add: evt_count_def GUI_EVT_MAX_def)
  then show ?thesis using ring_items_put [of "evt_count g" "gw_ev g" "ev_r g" e] b by (simp add: win_events_def)
qed

lemma evts_ok_set_evt [simp]: "evts_ok (set_evt i f g) = evts_ok g"
  by (simp add: evts_ok_def)

lemma inp_distinct: "INP_MOUSE \<noteq> INP_RESIZE" "INP_RESIZE \<noteq> INP_MOUSE"
  by (simp_all add: INP_MOUSE_def INP_RESIZE_def)

lemma post_to_refines:
  assumes ok: "evts_ok g"
  shows "(fst (post_to ty key x y b g), win_events (snd (post_to ty key x y b g))) = post_spec ty key x y b (win_events g)"
    and "evts_ok (snd (post_to ty key x y b g))" and "same_place g (snd (post_to ty key x y b g))"
proof -
  note f = post_full [OF ok] and fN = find_evt_None [OF ok] and up = find_evt_update [OF ok]
  note l = last_event [OF ok _ refl]
  show "(fst (post_to ty key x y b g), win_events (snd (post_to ty key x y b g))) = post_spec ty key x y b (win_events g)"
  proof (cases "if ty = INP_RESIZE then find_evt g INP_RESIZE else None")
    case (Some i)
    then have "ty = INP_RESIZE" "find_evt g INP_RESIZE = Some i" by (simp_all split: if_splits)
    with fN [of INP_RESIZE] up [of INP_RESIZE i] show ?thesis by (simp add: post_to_def post_spec_def Let_def)
  next
    case None
    then have nr: "\<not> (ty = INP_RESIZE \<and> (\<exists>e\<in>set (win_events g). ev_type e = INP_RESIZE))"
      using fN [of INP_RESIZE] by auto
    show ?thesis
    proof (cases "ty = INP_MOUSE \<and> ev_r g \<noteq> ev_w g \<and> ev_type (gw_ev g ! ((ev_w g + GUI_EVT_MAX - 1) mod GUI_EVT_MAX)) = INP_MOUSE")
      case True
      with None l nr inp_distinct show ?thesis by (simp add: post_to_def post_spec_def Let_def)
    next
      case False
      then have nl: "\<not> (ty = INP_MOUSE \<and> win_events g \<noteq> [] \<and> ev_type (last (win_events g)) = INP_MOUSE)"
        using l(2) f(2) by auto
      have p: "post_to ty key x y b g =
        (if (ev_w g + 1) mod GUI_EVT_MAX = ev_r g then
          (case (if ty = INP_MOUSE then find_evt g INP_MOUSE else None) of
             Some i \<Rightarrow> (0, set_evt i (\<lambda>e. e\<lparr>ev_x := x, ev_y := y, ev_buttons := b\<rparr>) g)
           | None \<Rightarrow> (-1, g))
         else (0, g\<lparr>gw_ev := (gw_ev g)[ev_w g := \<lparr>ev_type = ty, ev_key = key, ev_x = x, ev_y = y, ev_buttons = b\<rparr>],
                   ev_w := (ev_w g + 1) mod GUI_EVT_MAX\<rparr>))"
        unfolding post_to_def Let_def None option.case if_not_P [OF False] ..
      have q: "post_spec ty key x y b (win_events g) =
        (if length (win_events g) < GUI_EVT_MAX - 1 then
          (0, win_events g @ [\<lparr>ev_type = ty, ev_key = key, ev_x = x, ev_y = y, ev_buttons = b\<rparr>])
         else if ty = INP_MOUSE \<and> (\<exists>e\<in>set (win_events g). ev_type e = INP_MOUSE) then
          (0, update_first (\<lambda>e. ev_type e = INP_MOUSE) (\<lambda>e. e\<lparr>ev_x := x, ev_y := y, ev_buttons := b\<rparr>) (win_events g))
         else (-1, win_events g))"
        unfolding post_spec_def Let_def if_not_P [OF nr] if_not_P [OF nl] ..
      show ?thesis
      proof (cases "length (win_events g) < GUI_EVT_MAX - 1")
        case True
        then show ?thesis using f(1) append_event [OF ok True] by (simp add: p q)
      next
        case full: False
        then show ?thesis using f(1) fN [of INP_MOUSE] unfolding p q
          by (cases "ty = INP_MOUSE"; cases "find_evt g INP_MOUSE") (auto simp: up [where f = "\<lambda>e. e\<lparr>ev_x := x, ev_y := y, ev_buttons := b\<rparr>"])
      qed
    qed
  qed
  show "evts_ok (snd (post_to ty key x y b g))"
    using ok by (auto simp: post_to_def Let_def evts_ok_def GUI_EVT_MAX_def split: option.splits)
  show "same_place g (snd (post_to ty key x y b g))"
    by (auto simp: post_to_def Let_def same_place_def split: option.splits)
qed

lemma take_evt_refines:
  assumes ok: "evts_ok g"
  shows "fst (take_evt g) = (case win_events g of [] \<Rightarrow> None | e # q \<Rightarrow> Some e)"
    and "win_events (snd (take_evt g)) = tl (win_events g)"
    and "evts_ok (snd (take_evt g))" and "same_place g (snd (take_evt g))"
proof -
  have b: "ev_r g < 16" "ev_w g < 16" "length (gw_ev g) = 16" using ok by (auto simp: evts_ok_def GUI_EVT_MAX_def)
  have *: "fst (take_evt g) = (case win_events g of [] \<Rightarrow> None | e # q \<Rightarrow> Some e) \<and> win_events (snd (take_evt g)) = tl (win_events g)"
  proof (cases "evt_count g")
    case 0
    then show ?thesis using post_full(2) [OF ok] by (simp add: take_evt_def win_events_def)
  next
    case (Suc n)
    then have ne: "ev_r g \<noteq> ev_w g" using post_full(2) [OF ok] by (auto simp: win_events_def simp flip: length_0_conv)
    let ?g = "g\<lparr>ev_r := (ev_r g + 1) mod GUI_EVT_MAX\<rparr>"
    have "evt_count ?g = n" using b Suc count_step(3) [of "ev_w g" 16 "ev_r g" n] by (simp add: evt_count_def GUI_EVT_MAX_def)
    then show ?thesis using ne Suc b by (simp add: take_evt_def win_events_def ring_items_get GUI_EVT_MAX_def)
  qed
  then show "fst (take_evt g) = (case win_events g of [] \<Rightarrow> None | e # q \<Rightarrow> Some e)"
    and "win_events (snd (take_evt g)) = tl (win_events g)" by auto
  show "evts_ok (snd (take_evt g))" "same_place g (snd (take_evt g))"
    using ok by (auto simp: take_evt_def evts_ok_def same_place_def GUI_EVT_MAX_def)
qed

section \<open>The other operations preserve the invariant\<close>

lemma disp_invD:
  assumes "disp_inv (d, m)" and "i < GUI_WIN_MAX"
  shows "win_ok (gwins d ! i)" and "evts_ok (gwins d ! i)"
  using assms by (auto simp: disp_inv_def wins_ok_def win_ok_def)

lemma disp_inv_window:
  assumes "disp_inv (d, m)" and "win_by_id d wid = Some i"
  shows "i < GUI_WIN_MAX" and "evts_ok (gwins d ! i)" and "gw_used (gwins d ! i)" and "gw_id (gwins d ! i) = wid"
  using win_by_id_Some [OF assms(2)] assms(1) by (auto simp: disp_inv_def win_ok_def)

lemma same_place_attr [simp]:
  "same_place g (g\<lparr>gw_flags := f\<rparr>)" "same_place g (g\<lparr>gw_title := t, gw_damage := b\<rparr>)"
  "same_place g (g\<lparr>gw_mapped := b\<rparr>)" "same_place g (g\<lparr>gw_damage := b\<rparr>)"
  by (simp_all add: same_place_def)

lemma evts_ok_attr [simp]:
  "evts_ok (g\<lparr>gw_flags := f\<rparr>) = evts_ok g" "evts_ok (g\<lparr>gw_title := t\<rparr>) = evts_ok g"
  "evts_ok (g\<lparr>gw_mapped := b\<rparr>) = evts_ok g" "evts_ok (g\<lparr>gw_damage := b\<rparr>) = evts_ok g"
  by (simp_all add: evts_ok_def)

lemma disp_inv_attrs [inv_intros]:
  assumes inv: "disp_inv (d, m)"
  shows "disp_inv (snd (display_set_flags cur wid f d), m)" and "disp_inv (snd (display_set_title cur wid t d), m)"
    and "disp_inv (snd (display_ack_map cur wid d), m)" and "disp_inv (snd (display_ack_damage cur wid d), m)"
  using inv disp_inv_window [OF inv, of wid]
  by (auto simp: display_set_flags_def display_set_title_def display_ack_map_def display_ack_damage_def
      split: option.splits intro!: disp_inv_same_place [OF inv])

lemma disp_inv_server [inv_intros]: "disp_inv (d, m) \<Longrightarrow> disp_inv (snd (display_server_set cur on d), m)"
  by (auto simp: display_server_set_def disp_inv_def split: option.splits)

lemma disp_inv_launch [inv_intros]:
  assumes inv: "disp_inv (d, m)"
  shows "disp_inv (snd (display_request_launch p a d), m)" and "disp_inv (snd (display_take_launch cur n d), m)"
  using inv by (auto simp: display_request_launch_def display_take_launch_def disp_inv_def Let_def split: option.splits)

lemma disp_inv_events [inv_intros]:
  assumes inv: "disp_inv (d, m)"
  shows "disp_inv (snd (display_post_event cur wid ty key x y b d), m)" and "disp_inv (snd (display_poll_event cur wid d), m)"
  using inv disp_inv_window [OF inv, of wid]
  by (auto simp: display_post_event_def display_poll_event_def split_beta split: option.splits
      intro!: disp_inv_same_place [OF inv] post_to_refines(2,3) take_evt_refines(3,4))

section \<open>Resizing\<close>

lemma free_pixels_mem: "used_pages (free_pixels g (m\<lparr>mem := f\<rparr>)) = used_pages (free_pixels g m)"
  by (simp add: free_pixels_def used_pages_free_mem)

lemma mm_inv_free_pixels: "mm_inv m \<Longrightarrow> mm_inv (free_pixels g m)"
  by (simp add: free_pixels_def mm_inv_free)

lemma moved_window:
  assumes ok: "wins_ok d" and i: "i < GUI_WIN_MAX" and same: "gw_used g = gw_used (gwins d ! i)" "gw_id g = gw_id (gwins d ! i)"
    and g: "win_ok g"
  shows "wins_ok (set_win i g d)"
proof -
  let ?g = "\<lambda>j. (gwins d)[i := g] ! j"
  have len: "length (gwins d) = GUI_WIN_MAX" using ok by (simp add: wins_ok_def)
  have "gw_used (?g j) = gw_used (gwins d ! j)" "gw_id (?g j) = gw_id (gwins d ! j)" if "j < GUI_WIN_MAX" for j
    using same that len by (cases "j = i"; simp)+
  moreover have "win_ok (?g j)" if "j < GUI_WIN_MAX" for j
    using ok that len g by (cases "j = i") (simp_all add: wins_ok_def)
  ultimately show ?thesis using ok by (simp add: wins_ok_def)
qed

text \<open>The successful branch of \<^verbatim>\<open>display_resize\<close>.\<close>

definition resized :: "gui_win \<Rightarrow> u32 \<Rightarrow> int \<Rightarrow> int \<Rightarrow> gui_win" where
  "resized g npix w h = g\<lparr>gw_pixels := npix, gw_pages := pages_of w h, gw_w := w, gw_h := h, gw_damage := True\<rparr>"

definition resize_mem :: "gui_win \<Rightarrow> u32 \<Rightarrow> int \<Rightarrow> int \<Rightarrow> memory \<Rightarrow> memory" where
  "resize_mem g npix w h f =
     copy_pixels npix w (gw_pixels g) (gw_w g) (nat (min w (gw_w g))) (nat (min h (gw_h g)))
       (kmemset f npix 0 (pages_of w h * PAGE_SIZE))"

lemma display_resize_cases:
  assumes "win_by_id d wid = Some i"
  shows "display_resize cur wid w h (d, m) = (-1, d, m) \<or> display_resize cur wid w h (d, m) = (0, d, m) \<or>
    (\<exists>npix m'. is_server cur d \<and> \<not> bad_size w h \<and> mm_alloc_pages (pages_of w h) m = (Some npix, m') \<and>
       display_resize cur wid w h (d, m) =
         (0, snd (display_post_event cur wid INP_RESIZE 0 w h 0 (set_win i (resized (gwins d ! i) npix w h) d)),
          free_pixels (gwins d ! i) (m'\<lparr>mem := resize_mem (gwins d ! i) npix w h (mem m')\<rparr>)))"
  using assms mm_alloc_None
  by (auto simp: display_resize_def resized_def resize_mem_def Let_def min_def not_less split: option.splits prod.splits)

lemma resize_window:
  assumes inv: "disp_inv (d, m)" and i: "win_by_id d wid = Some i" and sz: "\<not> bad_size w h"
    and al: "mm_alloc_pages (pages_of w h) m = (Some npix, m')"
  shows "disp_inv (set_win i (resized (gwins d ! i) npix w h) d, free_pixels (gwins d ! i) (m'\<lparr>mem := f\<rparr>))"
    and "\<exists>k. npix = page_addr k \<and> 0 < pages_of w h \<and> k + pages_of w h \<le> PAGE_COUNT \<and> {k..<k + pages_of w h} \<inter> used_pages m = {}"
proof -
  let ?g = "gwins d ! i" let ?r = "resized ?g npix w h"
  have ok: "wins_ok d" "mm_inv m" "disjoint_owners (win_owner d) (used_pages m)" using inv by (auto simp: disp_inv_def)
  note w = disp_inv_window [OF inv i]
  have len: "i < length (gwins d)" using w(1) ok by (simp add: wins_ok_def)
  from kpages.alloc_some [OF ok(2) al] obtain k where k: "npix = page_addr k" "0 < pages_of w h" "k + pages_of w h \<le> PAGE_COUNT"
    "{k..<k + pages_of w h} \<inter> used_pages m = {}" "used_pages m' = used_pages m \<union> {k..<k + pages_of w h}" by blast
  then show "\<exists>k. npix = page_addr k \<and> 0 < pages_of w h \<and> k + pages_of w h \<le> PAGE_COUNT \<and> {k..<k + pages_of w h} \<inter> used_pages m = {}" by blast
  have m': "mm_inv m'" using mm_inv_alloc [OF ok(2), of "pages_of w h"] al by simp
  have gid: "0 < gw_id ?g" using disp_invD(1) [OF inv w(1)] w(3) by (simp add: win_ok_def)
  have g: "win_ok ?r" "win_pages ?r = {k..<k + pages_of w h}"
    using w k sz gid by (intro new_win_ok [of k w h]; simp add: resized_def evts_ok_def)+
  have d2: "wins_ok (set_win i ?r d)"
    by (rule moved_window [OF ok(1) w(1) _ _ g(1)]) (simp_all add: resized_def)
  have old: "win_ok ?g" using disp_invD(1) [OF inv w(1)] .
  have pix: "gw_pixels ?g = page_addr (win_page ?g)" using old w(3) by (simp add: win_ok_def)
  have "used_pages (free_pixels ?g m') = used_pages m' - win_owner d i"
    using mm_free_used [OF m', of "win_page ?g" "gw_pages ?g"] win_page_range [OF old w(3)] len w(3)
    by (simp add: free_pixels_def win_owner_def win_pages_def pix [symmetric])
  then show "disp_inv (set_win i ?r d, free_pixels ?g (m'\<lparr>mem := f\<rparr>))"
    using d2 mm_inv_free_pixels [of "m'\<lparr>mem := f\<rparr>"] m' disjoint_owners_move [OF ok(3) k(4), of i] k(5) g(2) len
    by (simp add: disp_inv_def free_pixels_mem win_owner_set)
qed

lemma disp_inv_resize [inv_intros]:
  assumes inv: "disp_inv (d, m)"
  shows "disp_inv (snd (display_resize cur wid w h (d, m)))"
proof (cases "win_by_id d wid")
  case None
  then show ?thesis using inv by (simp add: display_resize_def)
next
  case (Some i)
  from display_resize_cases [OF Some, of cur w h m] show ?thesis
    using inv resize_window(1) [OF inv Some] disp_inv_events(1) by auto
qed

section \<open>Clients are isolated\<close>

text \<open>The requests of a process that change state, and what each does.\<close>

datatype gui_req =
    GServer int | GCreate int int "string option" | GDestroy int | GFlags int int | GTitle int "string option"
  | GMapped int | GShown int | GPost int u32 int int int int | GPoll int | GResize int int int
  | GLaunch "string option" "string option" | GTake int

fun gui_call :: "proc option \<Rightarrow> gui_req \<Rightarrow> display \<times> mm \<Rightarrow> display \<times> mm" where
  "gui_call cur (GServer on) (d, m) = (snd (display_server_set cur on d), m)"
| "gui_call cur (GCreate w h t) (d, m) = snd (display_create cur w h t (d, m))"
| "gui_call cur (GDestroy wid) (d, m) = snd (display_destroy cur wid (d, m))"
| "gui_call cur (GFlags wid f) (d, m) = (snd (display_set_flags cur wid f d), m)"
| "gui_call cur (GTitle wid t) (d, m) = (snd (display_set_title cur wid t d), m)"
| "gui_call cur (GMapped wid) (d, m) = (snd (display_ack_map cur wid d), m)"
| "gui_call cur (GShown wid) (d, m) = (snd (display_ack_damage cur wid d), m)"
| "gui_call cur (GPost wid ty k x y b) (d, m) = (snd (display_post_event cur wid ty k x y b d), m)"
| "gui_call cur (GPoll wid) (d, m) = (snd (display_poll_event cur wid d), m)"
| "gui_call cur (GResize wid w h) (d, m) = snd (display_resize cur wid w h (d, m))"
| "gui_call cur (GLaunch p a) (d, m) = (snd (display_request_launch p a d), m)"
| "gui_call cur (GTake n) (d, m) = (snd (display_take_launch cur n d), m)"

lemma disp_inv_call [inv_intros]: "disp_inv dm \<Longrightarrow> disp_inv (gui_call cur r dm)"
  by (cases dm; cases r) (auto intro: inv_intros)

lemma disp_inv_init: "mm_inv m \<Longrightarrow> disp_inv (display_init, m)"
proof -
  have b: "gwins display_init ! i = blank_win" if "i < GUI_WIN_MAX" for i using that by (simp add: display_init_def)
  have len: "length (gwins display_init) = GUI_WIN_MAX" by (simp add: display_init_def)
  have u: "\<not> gw_used blank_win" by (simp add: blank_win_def)
  have "win_owner display_init = (\<lambda>_. {})" by (rule ext) (simp add: win_owner_def len b win_pages_def u)
  moreover have "wins_ok display_init" using b u by (simp add: wins_ok_def len win_ok_def) (simp add: display_init_def)
  ultimately show "mm_inv m \<Longrightarrow> ?thesis" by (simp add: disp_inv_def disjoint_owners_def)
qed

text \<open>What a window's owner can rely on: its record and its pixels.\<close>

definition kept :: "nat \<Rightarrow> display \<times> mm \<Rightarrow> display \<times> mm \<Rightarrow> bool" where
  "kept i = (\<lambda>(d, m) (d', m'). gwins d' ! i = gwins d ! i \<and>
     (\<forall>x. in_region (gw_pixels (gwins d ! i)) (gw_pages (gwins d ! i) * PAGE_SIZE) x \<longrightarrow> mem m' x = mem m x))"

lemma kept_refl [simp]: "kept i dm dm"
  by (auto simp: kept_def)

lemma kept_trans: "kept i a b \<Longrightarrow> kept i b c \<Longrightarrow> kept i a c"
  by (auto simp: kept_def)

lemma kept_same_mem: "kept i (d, m) (d', m) \<longleftrightarrow> gwins d' ! i = gwins d ! i"
  by (simp add: kept_def)

lemma window_region:
  assumes inv: "disp_inv (d, m)" and i: "i < GUI_WIN_MAX" "gw_used (gwins d ! i)"
    and k: "k + n \<le> PAGE_COUNT" "{k..<k + n} \<inter> win_owner d i = {}"
    and x: "in_region (gw_pixels (gwins d ! i)) (gw_pages (gwins d ! i) * PAGE_SIZE) x"
  shows "\<not> in_region (page_addr k) (n * PAGE_SIZE) x"
proof -
  have ok: "win_ok (gwins d ! i)" and len: "i < length (gwins d)" using inv i by (auto simp: disp_inv_def wins_ok_def)
  let ?w = "win_page (gwins d ! i)" let ?n = "gw_pages (gwins d ! i)"
  have w: "?w + ?n \<le> PAGE_COUNT" "gw_pixels (gwins d ! i) = page_addr ?w" using ok i by (simp_all add: win_ok_def)
  have "{?w..<?w + ?n} \<inter> {k..<k + n} = {}" using k(2) i len by (simp add: win_owner_def win_pages_def Int_commute)
  from disjoint_pages [OF w(1) k(1) this] x w(2) show ?thesis by (auto simp: disjoint_regions_def)
qed

lemma kept_destroy:
  assumes inv: "disp_inv (d, m)" and i: "i < GUI_WIN_MAX" "gw_used (gwins d ! i)"
    and j: "j < GUI_WIN_MAX" "gw_used (gwins d ! j)" "j \<noteq> i"
  shows "kept i (d, m) (set_win j g d, free_pixels (gwins d ! j) m)"
proof -
  let ?g = "gwins d ! j"
  have ok: "win_ok ?g" using disp_invD(1) [OF inv j(1)] .
  have len: "j < length (gwins d)" "i < length (gwins d)" using inv i j by (auto simp: disp_inv_def wins_ok_def)
  have disj: "{win_page ?g..<win_page ?g + gw_pages ?g} \<inter> win_owner d i = {}"
    using inv disjoint_owners_disj [of "win_owner d" "used_pages m" j i] j len
    by (simp add: disp_inv_def win_owner_def win_pages_def)
  have p: "gw_pixels ?g = page_addr (win_page ?g)" "win_page ?g + gw_pages ?g \<le> PAGE_COUNT" using ok j by (simp_all add: win_ok_def)
  have "mem (free_pixels ?g m) x = mem m x"
    if "in_region (gw_pixels (gwins d ! i)) (gw_pages (gwins d ! i) * PAGE_SIZE) x" for x
    using window_region [OF inv i p(2) disj that] mm_free_mem [OF p(2), of m x] win_page_range [OF ok j(2)]
    by (simp add: free_pixels_def p(1) [symmetric])
  then show ?thesis using j len by (simp add: kept_def)
qed

lemma kept_create:
  assumes inv: "disp_inv (d, m)" and i: "i < GUI_WIN_MAX" "gw_used (gwins d ! i)"
  shows "kept i (d, m) (snd (display_create cur w h t (d, m)))"
proof (cases "first_from (\<lambda>g. \<not> gw_used g) (gwins d) 0")
  case None
  then show ?thesis by (simp add: display_create_def split: option.splits)
next
  case (Some j)
  have j: "j \<noteq> i" using first_from_Some [OF Some] i by auto
  have len: "i < length (gwins d)" using inv i by (simp add: disp_inv_def wins_ok_def)
  obtain po m' where al: "mm_alloc_pages (pages_of w h) m = (po, m')" by fastforce
  have m'm: "mem m' = mem m" using mm_alloc_frame(1) [of "pages_of w h" m] al by simp
  show ?thesis
  proof (cases po)
    case None
    with al have "mm_alloc_pages (pages_of w h) m = (None, m)" using mm_alloc_None by blast
    then show ?thesis using Some j by (simp add: display_create_def kept_def split: option.splits)
  next
    case (Some p)
    have inv': "mm_inv m" "win_owner d i \<subseteq> used_pages m" using inv by (auto simp: disp_inv_def dest: disjoint_owners_sub)
    from kpages.alloc_some [OF inv'(1) al [unfolded Some]] obtain k where
      k: "p = page_addr k" "k + pages_of w h \<le> PAGE_COUNT" "{k..<k + pages_of w h} \<inter> used_pages m = {}" by blast
    have "{k..<k + pages_of w h} \<inter> win_owner d i = {}" using k(3) inv'(2) by blast
    note out = window_region [OF inv i k(2) this]
    have "pages_of w h * PAGE_SIZE \<le> 2 ^ 32" using k(2) by (simp add: PAGE_COUNT_val PAGE_SIZE_def)
    then have "kmemset (mem m') p 0 (pages_of w h * PAGE_SIZE) x = mem m x"
      if "in_region (gw_pixels (gwins d ! i)) (gw_pages (gwins d ! i) * PAGE_SIZE) x" for x
      using out [OF that] by (simp add: kmemset_apply k(1) m'm)
    then show ?thesis using al Some \<open>first_from (\<lambda>g. \<not> gw_used g) (gwins d) 0 = Some j\<close> j
      by (simp add: display_create_def kept_def Let_def split: option.splits)
  qed
qed

lemma create_server: "server_pid (fst (snd (display_create cur w h t (d, m)))) = server_pid d"
  by (auto simp: display_create_def Let_def split: option.splits prod.splits)

lemma isolated_call:
  assumes inv: "disp_inv (d, m)" and srv: "server_pid d \<noteq> 0" "pid c \<noteq> server_pid d" and host: "\<not> cons_host c"
    and i: "i < GUI_WIN_MAX" "gw_used (gwins d ! i)" "client_pid (gwins d ! i) \<noteq> pid c"
  shows "kept i (d, m) (gui_call (Some c) r (d, m)) \<and> server_pid (fst (gui_call (Some c) r (d, m))) = server_pid d"
proof (cases r)
  case (GCreate w h t)
  then show ?thesis using kept_create [OF inv i(1,2)] create_server by simp
next
  case (GDestroy wid)
  then show ?thesis
    using disp_inv_window [OF inv, of wid] i srv
    by (auto simp: display_destroy_def split: option.splits intro!: kept_destroy [OF inv i(1,2)])
next
  case (GFlags wid f)
  then show ?thesis using disp_inv_window [OF inv, of wid] i srv
    by (auto simp: display_set_flags_def may_touch_def kept_same_mem intro!: nth_list_update_neq split: option.splits)
next
  case (GTitle wid t)
  then show ?thesis using disp_inv_window [OF inv, of wid] i srv
    by (auto simp: display_set_title_def may_touch_def kept_same_mem intro!: nth_list_update_neq split: option.splits)
next
  case (GPoll wid)
  then show ?thesis using disp_inv_window [OF inv, of wid] i srv
    by (auto simp: display_poll_event_def kept_same_mem split_beta intro!: nth_list_update_neq split: option.splits)
next
  case (GResize wid w h)
  then show ?thesis using srv by (auto simp: display_resize_def is_server_def Let_def split: option.splits)
qed (use srv host in \<open>auto simp: display_server_set_def display_ack_map_def display_ack_damage_def is_server_def display_post_event_def
      display_request_launch_def display_take_launch_def kept_same_mem split: option.splits\<close>)

text \<open>
  Property C19. The window service's access control, while a display server is registered: a process that is neither the
  server nor a console host, whatever sequence of the service's twelve requests it makes, changes nothing of the windows of
  other clients - not their records (size, title, flags, queued events, mapping) and not one byte of their pixel
  pages - and does not become the server. Only these requests are meant: killing a window's owner does destroy it, and a
  process that makes itself a console host may post events.
\<close>

theorem display_isolates_clients:
  assumes "disp_inv (d, m)" and "server_pid d \<noteq> 0" and "pid c \<noteq> server_pid d" and "\<not> cons_host c"
    and "i < GUI_WIN_MAX" and "gw_used (gwins d ! i)" and "client_pid (gwins d ! i) \<noteq> pid c"
  shows "kept i (d, m) (fold (gui_call (Some c)) reqs (d, m)) \<and>
    disp_inv (fold (gui_call (Some c)) reqs (d, m)) \<and> server_pid (fst (fold (gui_call (Some c)) reqs (d, m))) = server_pid d"
  using assms
proof (induction reqs arbitrary: d m)
  case (Cons r reqs)
  obtain d' m' where dm': "gui_call (Some c) r (d, m) = (d', m')" by fastforce
  have k: "kept i (d, m) (d', m')" "server_pid d' = server_pid d" using isolated_call [OF Cons.prems, of r] by (simp_all add: dm')
  then have w: "gwins d' ! i = gwins d ! i" by (simp add: kept_def)
  have "disp_inv (d', m')" using disp_inv_call [OF Cons.prems(1), of "Some c" r] by (simp add: dm')
  from Cons.IH [OF this] k w Cons.prems kept_trans [OF k(1)] show ?case by (simp add: dm')
qed simp

text \<open>A display with one 32 by 32 window of process 3, served by process 2.\<close>

definition gui_sample :: display where
  "gui_sample = \<lparr>gwins = [blank_win\<lparr>gw_used := True, gw_id := 1, client_pid := 3, gw_w := 32, gw_h := 32,
       gw_pixels := page_addr 0, gw_pages := 1\<rparr>] @ replicate 7 blank_win,
     server_pid = 2, next_id = 2, launch_q = replicate LAUNCH_Q \<lparr>lr_used = False, lr_path = [], lr_argv = []\<rparr>\<rparr>"

definition mm_sample :: mm where
  "mm_sample = snd (mm_alloc_pages 1 (mm_init (\<lambda>_. 0)))"

lemma first_page: "mm_alloc_pages 1 (mm_init f) = (Some (page_addr 0), snd (mm_alloc_pages 1 (mm_init f)))"
proof -
  have "alloc_scan (page_bitmap (mm_init f)) 0 1 = Some 0"
    by (simp add: alloc_scan.simps [of _ 0] alloc_run.simps [of _ 0 0] alloc_run.simps [of _ _ "Suc 0"]
        mm_init_def bitmap_get_def PAGE_COUNT_val)
  then show ?thesis by (simp add: mm_alloc_pages_def)
qed

lemma mm_sample_ok: "mm_inv mm_sample" "used_pages mm_sample = {0}"
proof -
  show "mm_inv mm_sample" unfolding mm_sample_def by (intro inv_intros mm_inv_init)
  from mm_inv_init first_page [of "\<lambda>_. 0"] show "used_pages mm_sample = {0}"
  proof (rule mm_alloc_Some)
    fix i assume a: "page_addr 0 = page_addr i" "i < PAGE_COUNT"
      "used_pages (snd (mm_alloc_pages 1 (mm_init (\<lambda>_. 0)))) = used_pages (mm_init (\<lambda>_. 0)) \<union> {i..<i + 1}"
    from a(1,2) have "i = 0" by (metis PAGE_COUNT_val page_addr_index zero_less_numeral)
    with a(3) show "used_pages mm_sample = {0}" by (simp add: mm_sample_def used_pages_init)
  qed
qed

lemma gui_sample_win: "i < GUI_WIN_MAX \<Longrightarrow> gwins gui_sample ! i = (if i = 0 then
    blank_win\<lparr>gw_used := True, gw_id := 1, client_pid := 3, gw_w := 32, gw_h := 32, gw_pixels := page_addr 0, gw_pages := 1\<rparr>
    else blank_win)"
  by (cases i) (simp_all add: gui_sample_def GUI_WIN_MAX_def)

lemma gui_sample_ok: "disp_inv (gui_sample, mm_sample)" "server_pid gui_sample = 2"
proof -
  have len: "length (gwins gui_sample) = GUI_WIN_MAX" by (simp add: gui_sample_def GUI_WIN_MAX_def)
  have b: "win_ok blank_win" "\<not> gw_used blank_win" by (simp_all add: win_ok_def) (simp_all add: blank_win_def)
  have pg: "unat (page_addr 0 - KERNEL_HEAP_START) div PAGE_SIZE = 0" by (simp add: page_addr_index PAGE_COUNT_val)
  have g: "win_ok (gwins gui_sample ! 0)"
    by (simp add: gui_sample_win GUI_WIN_MAX_def win_ok_def win_page_def pg pg [unfolded PAGE_SIZE_def] bad_size_def pages_of_def PAGE_SIZE_def PAGE_COUNT_val)
       (simp add: blank_win_def evts_ok_def GUI_EVT_MAX_def)
  have "wins_ok gui_sample"
    using b g by (auto simp: wins_ok_def len gui_sample_win) (auto simp: gui_sample_def)
  moreover have "win_owner gui_sample = (\<lambda>i. if i = 0 then {0} else {})"
    by (rule ext) (auto simp: win_owner_def len gui_sample_win win_pages_def win_page_def pg b GUI_WIN_MAX_def)
  ultimately show "disp_inv (gui_sample, mm_sample)" by (simp add: disp_inv_def mm_sample_ok disjoint_owners_def)
  show "server_pid gui_sample = 2" by (simp add: gui_sample_def)
qed

theorem display_isolates_clients_witness:
  "kept 0 (gui_sample, mm_sample) (fold (gui_call (Some (blank_proc\<lparr>pid := 4\<rparr>)))
     [GDestroy 1, GCreate 64 64 None, GFlags 1 7, GResize 1 100 100, GServer 1] (gui_sample, mm_sample))"
  using display_isolates_clients [OF gui_sample_ok(1), of "blank_proc\<lparr>pid := 4\<rparr>" 0
      "[GDestroy 1, GCreate 64 64 None, GFlags 1 7, GResize 1 100 100, GServer 1]"]
  by (simp add: gui_sample_ok(2) gui_sample_win blank_proc_def GUI_WIN_MAX_def del: fold.simps)

section \<open>Events on a window\<close>

text \<open>
  Property C20. The event queue of a window is the abstract queue with coalescing: the server (or a
  console host) posting an event does on the list of pending events exactly what the
  specification says - a resize replaces the pending one, a mouse event replaces a last
  pending mouse event, anything else is appended while fewer than 15 are pending, and a full
  queue only takes a mouse event into the first pending one - and the owner's poll takes the head.
\<close>

theorem display_events_refine:
  assumes "disp_inv (d, m)" and "win_by_id d wid = Some i"
    and "pid c = server_pid d \<or> cons_host c" and "display_post_event (Some c) wid ty key x y b d = (r, d')"
    and "pid o' = client_pid (gwins d ! i)" and "display_poll_event (Some o') wid d = (e, d'')"
  shows "(r, win_events (gwins d' ! i)) = post_spec ty key x y b (win_events (gwins d ! i)) \<and>
    e = (case win_events (gwins d ! i) of [] \<Rightarrow> None | ev # q \<Rightarrow> Some ev) \<and>
    win_events (gwins d'' ! i) = tl (win_events (gwins d ! i)) \<and>
    (\<forall>j. j \<noteq> i \<longrightarrow> gwins d' ! j = gwins d ! j \<and> gwins d'' ! j = gwins d ! j)"
proof -
  note w = disp_inv_window [OF assms(1,2)]
  have len: "i < length (gwins d)" using w assms(1) by (simp add: disp_inv_def wins_ok_def)
  have "(r, win_events (gwins d' ! i)) = post_spec ty key x y b (win_events (gwins d ! i)) \<and> (\<forall>j. j \<noteq> i \<longrightarrow> gwins d' ! j = gwins d ! j)"
    using post_to_refines(1) [OF w(2), of ty key x y b] len assms(2-4)
    by (auto simp: display_post_event_def split_beta)
  moreover have "e = (case win_events (gwins d ! i) of [] \<Rightarrow> None | ev # q \<Rightarrow> Some ev) \<and>
      win_events (gwins d'' ! i) = tl (win_events (gwins d ! i)) \<and> (\<forall>j. j \<noteq> i \<longrightarrow> gwins d'' ! j = gwins d ! j)"
    using take_evt_refines(1,2) [OF w(2)] len assms(2,5,6)
    by (auto simp: display_poll_event_def split_beta)
  ultimately show ?thesis by blast
qed


theorem display_events_refine_witness:
  "fst (display_post_event (Some (blank_proc\<lparr>pid := 2\<rparr>)) 1 INP_KEY 65 0 0 0 gui_sample) = 0"
proof -
  have w: "win_by_id gui_sample 1 = Some 0"
    unfolding win_by_id_def by (rule first_from_eq) (simp_all add: gui_sample_win GUI_WIN_MAX_def, simp add: gui_sample_def)
  obtain r d' where rd: "display_post_event (Some (blank_proc\<lparr>pid := 2\<rparr>)) 1 INP_KEY 65 0 0 0 gui_sample = (r, d')" by fastforce
  obtain e d'' where ed: "display_poll_event (Some (blank_proc\<lparr>pid := 3\<rparr>)) 1 gui_sample = (e, d'')" by fastforce
  have "win_events (gwins gui_sample ! 0) = []"
    by (simp add: gui_sample_win GUI_WIN_MAX_def win_events_def evt_count_def blank_win_def)
  with display_events_refine [OF gui_sample_ok(1) w _ rd _ ed]
  have "fst (r, win_events (gwins d' ! 0)) = 0"
    by (simp add: gui_sample_ok(2) gui_sample_win GUI_WIN_MAX_def blank_proc_def post_spec_def INP_KEY_def INP_RESIZE_def
        INP_MOUSE_def GUI_EVT_MAX_def)
  then show ?thesis by (simp add: rd)
qed

text \<open>
  A click between two polls is lost: a press and the release that follows it are coalesced into
  one event whose buttons are up.
\<close>

theorem display_click_lost:
  assumes "evts_ok g" and "win_events g = []"
  shows "win_events (snd (post_to INP_MOUSE 0 x y 0 (snd (post_to INP_MOUSE 0 x y 1 g)))) =
    [\<lparr>ev_type = INP_MOUSE, ev_key = 0, ev_x = x, ev_y = y, ev_buttons = 0\<rparr>]"
proof -
  note p = post_to_refines [OF assms(1), of INP_MOUSE 0 x y 1]
  have 1: "win_events (snd (post_to INP_MOUSE 0 x y 1 g)) = [\<lparr>ev_type = INP_MOUSE, ev_key = 0, ev_x = x, ev_y = y, ev_buttons = 1\<rparr>]"
    using p(1) assms(2) by (simp add: post_spec_def inp_distinct GUI_EVT_MAX_def)
  from post_to_refines(1) [OF p(2), of INP_MOUSE 0 x y 0] show ?thesis
    unfolding 1 by (simp add: post_spec_def inp_distinct)
qed

end
