(* ===== verification/WmSpec.thy ===== *)
theory WmSpec
  imports Wm TermSpec DisplaySpec
begin

text \<open>
  What the window manager promises: its lists agree with its windows after any sequence of events and whatever the clients do, clicks reach what is drawn, and the loop
  that takes in new windows returns exactly while there is room for them.
\<close>

section \<open>The lists of windows\<close>

text \<open>What the window lists depend on.\<close>

definition lists_of :: "wm \<Rightarrow> (bool \<times> bool) list \<times> nat list \<times> nat list \<times> nat option \<times> nat option" where
  "lists_of S = (map (\<lambda>w. (n_open w, n_popup w)) (m_wins S), m_z S, m_tasks S, m_focus S, m_cap_id S)"

text \<open>The stack holds every open window once, the task bar every open window that is no popup, the focus is in the stack.\<close>

definition lists_ok :: "(bool \<times> bool) list \<times> nat list \<times> nat list \<times> nat option \<times> nat option \<Rightarrow> bool" where
  "lists_ok = (\<lambda>(ws, z, ts, f, c).
     length ws = MAX_WIN \<and> distinct z \<and> set z = {i. i < MAX_WIN \<and> fst (ws ! i)} \<and> distinct ts \<and>
     set ts = {i. i < MAX_WIN \<and> fst (ws ! i) \<and> \<not> snd (ws ! i)} \<and> (\<forall>i. f = Some i \<longrightarrow> i \<in> set z) \<and>
     (\<forall>i. c = Some i \<longrightarrow> i < MAX_WIN))"

definition wm_ok :: "wm \<Rightarrow> bool" where "wm_ok S \<longleftrightarrow> lists_ok (lists_of S)"

lemma wm_ok_iff:
  "wm_ok S \<longleftrightarrow> length (m_wins S) = MAX_WIN \<and> distinct (m_z S) \<and> set (m_z S) = {i. i < MAX_WIN \<and> n_open (the_win S i)} \<and>
     distinct (m_tasks S) \<and> set (m_tasks S) = {i. i < MAX_WIN \<and> n_open (the_win S i) \<and> \<not> n_popup (the_win S i)} \<and>
     (\<forall>i. m_focus S = Some i \<longrightarrow> i \<in> set (m_z S)) \<and> (\<forall>i. m_cap_id S = Some i \<longrightarrow> i < MAX_WIN)"
  by (auto simp: wm_ok_def lists_ok_def lists_of_def the_win_def)

lemma wm_ok_same: "wm_ok S \<Longrightarrow> lists_of S' = lists_of S \<Longrightarrow> wm_ok S'"
  by (simp add: wm_ok_def)

lemma set_w_sel [simp]:
  "m_z (set_w i f S) = m_z S" "m_tasks (set_w i f S) = m_tasks S" "m_focus (set_w i f S) = m_focus S" "length (m_wins (set_w i f S)) = length (m_wins S)"
  "m_disp (set_w i f S) = m_disp S" "m_mem (set_w i f S) = m_mem S" "m_cap_id (set_w i f S) = m_cap_id S" "m_drag (set_w i f S) = m_drag S" "m_resize (set_w i f S) = m_resize S"
  by (simp_all add: set_w_def)

lemma the_win_set_w: "i < length (m_wins S) \<Longrightarrow> the_win (set_w i f S) j = (if i = j then f (the_win S i) else the_win S j)"
  by (simp add: the_win_def set_w_def nth_list_update)

lemma lists_set_w: "(\<And>w. n_open (f w) = n_open w \<and> n_popup (f w) = n_popup w) \<Longrightarrow> lists_of (set_w i f S) = lists_of S"
  by (cases "i < length (m_wins S)") (simp_all add: lists_of_def set_w_def map_update list_update_same_conv list_update_beyond)

lemma lists_gui [simp]: "lists_of (snd (gui_ask f S)) = lists_of S" "lists_of (snd (disp_call f' S)) = lists_of S"
  by (simp_all add: gui_ask_def disp_call_def lists_of_def split: prod.splits)

lemma the_win_gui [simp]:
  "the_win (snd (gui_ask f S)) i = the_win S i" "the_win (snd (disp_call f' S)) i = the_win S i"
  "m_z (snd (gui_ask f S)) = m_z S" "m_z (snd (disp_call f' S)) = m_z S" "m_wins (snd (gui_ask f S)) = m_wins S"
  "m_wins (snd (disp_call f' S)) = m_wins S" "m_focus (snd (gui_ask f S)) = m_focus S" "m_focus (snd (disp_call f' S)) = m_focus S"
  "m_cap_id (snd (gui_ask f S)) = m_cap_id S" "m_cap_id (snd (disp_call f' S)) = m_cap_id S"
  "m_tasks (snd (gui_ask f S)) = m_tasks S" "m_tasks (snd (disp_call f' S)) = m_tasks S"
  by (simp_all add: gui_ask_def disp_call_def the_win_def split: prod.splits)

lemma the_win_launch [simp]:
  "lists_of (launch_stop_pid p S) = lists_of S" "the_win (launch_stop_pid p S) i = the_win S i" "m_z (launch_stop_pid p S) = m_z S"
  "m_tasks (launch_stop_pid p S) = m_tasks S" "m_wins (launch_stop_pid p S) = m_wins S" "m_cap_id (launch_stop_pid p S) = m_cap_id S"
  by (simp_all add: launch_stop_pid_def lists_of_def the_win_def split: option.splits)

lemma wm_okD:
  assumes "wm_ok S"
  shows "length (m_wins S) = MAX_WIN" and "distinct (m_z S)" and "i \<in> set (m_z S) \<longleftrightarrow> i < MAX_WIN \<and> n_open (the_win S i)"
    and "m_focus S = Some i \<Longrightarrow> i < MAX_WIN \<and> n_open (the_win S i)"
  using assms by (auto simp: wm_ok_iff)

lemma wm_ok_set_w: "wm_ok S \<Longrightarrow> (\<And>w. n_open (f w) = n_open w \<and> n_popup (f w) = n_popup w) \<Longrightarrow> wm_ok (set_w i f S)"
  using lists_set_w wm_ok_same by blast

lemma raise_ok: "wm_ok S \<Longrightarrow> i < MAX_WIN \<Longrightarrow> wm_ok (win_raise i S)"
proof -
  assume ok: "wm_ok S" and i: "i < MAX_WIN"
  define T where "T = set_w i (\<lambda>w. w\<lparr>n_minimized := False\<rparr>) S"
  have T: "wm_ok T" unfolding T_def by (rule wm_ok_set_w [OF ok]) simp
  show ?thesis
  proof (cases "n_open (the_win S i)")
    case True
    then have z: "i \<in> set (m_z T)" using wm_okD(3) [OF ok] i by (simp add: T_def)
    have "win_raise i S = T\<lparr>m_z := remove1 i (m_z T) @ [i], m_focus := Some i\<rparr>" using True z by (simp add: win_raise_def T_def)
    with T z show ?thesis by (auto simp: wm_ok_iff the_win_def)
  qed (use ok in \<open>simp add: win_raise_def\<close>)
qed

text \<open>Taking a window off the lists.\<close>

lemma drop_ok:
  assumes ok: "wm_ok S" and i: "i < MAX_WIN"
  shows "wm_ok ((set_w i (\<lambda>w. w\<lparr>n_open := False\<rparr>) S)\<lparr>m_z := remove1 i (m_z S), m_tasks := remove1 i (m_tasks S), m_focus := top_of (remove1 i (m_z S))\<rparr>)"
proof -
  have w: "i < length (m_wins S)" using wm_okD(1) [OF ok] i by simp
  have t: "top_of l = Some j \<Longrightarrow> j \<in> set l" for l j by (auto simp: top_of_def split: if_splits)
  have n: "the_win ((set_w i (\<lambda>w. w\<lparr>n_open := False\<rparr>) S)\<lparr>m_z := a, m_tasks := b, m_focus := c\<rparr>) j =
    (if i = j then (the_win S i)\<lparr>n_open := False\<rparr> else the_win S j)" for a b c j using the_win_set_w [OF w] by (simp add: the_win_def)
  from ok show ?thesis unfolding wm_ok_iff n by (auto dest!: t)
qed

lemma close_ok: "wm_ok S \<Longrightarrow> i < MAX_WIN \<Longrightarrow> wm_ok (win_close me i S)"
proof -
  assume ok: "wm_ok S" and i: "i < MAX_WIN"
  show ?thesis
  proof (cases "n_open (the_win S i)")
    case True
    define p where "p = n_pid (the_win S i)"
    define A where "A = (if n_gui (the_win S i) \<ge> 0 then set_w i (\<lambda>w. w\<lparr>n_gui := -1\<rparr>) (snd (gui_ask (display_destroy me (n_gui (the_win S i))) S)) else S)"
    define B where "B = launch_stop_pid p (if p \<ge> 0 then A\<lparr>m_log := m_log A @ [Kill p]\<rparr> else A)"
    have "lists_of A = lists_of S" unfolding A_def by (simp add: lists_set_w)
    then have "lists_of B = lists_of S" by (simp add: B_def) (simp add: lists_of_def)
    then have B: "wm_ok B" using wm_ok_same [OF ok] by simp
    have BA: "m_z B = m_z A" "m_tasks B = m_tasks A" by (simp_all add: B_def)
    have "win_close me i S = (set_w i (\<lambda>w. w\<lparr>n_open := False\<rparr>) B)\<lparr>m_z := remove1 i (m_z B), m_tasks := remove1 i (m_tasks B), m_focus := top_of (remove1 i (m_z B))\<rparr>"
      using True BA by (simp add: win_close_def Let_def p_def [symmetric] A_def [symmetric] B_def [symmetric])
    with drop_ok [OF B i] show ?thesis by simp
  qed (use ok in \<open>simp add: win_close_def\<close>)
qed

lemma request_close_ok: "wm_ok S \<Longrightarrow> i < MAX_WIN \<Longrightarrow> wm_ok (request_win_close me i S)"
  using close_ok [of S i me] wm_ok_same [of S] by (auto simp: request_win_close_def Let_def)

lemma free_slot:
  assumes "wm_ok S" and "first_from (\<lambda>w. \<not> n_open w) (m_wins S) 0 = Some i"
  shows "i < MAX_WIN" and "\<not> n_open (the_win S i)" and "i \<notin> set (m_z S)" and "i \<notin> set (m_tasks S)" and "length (m_tasks S) < MAX_WIN" and "length (m_z S) < MAX_WIN"
proof -
  show i: "i < MAX_WIN" and no: "\<not> n_open (the_win S i)"
    using first_from_Some [OF assms(2)] wm_okD(1) [OF assms(1)] by (auto simp: the_win_def)
  show z: "i \<notin> set (m_z S)" and t: "i \<notin> set (m_tasks S)" using assms(1) no by (auto simp: wm_ok_iff)
  have "set (m_z S) \<subseteq> {..<MAX_WIN} - {i}" "set (m_tasks S) \<subseteq> {..<MAX_WIN} - {i}" using assms(1) no by (auto simp: wm_ok_iff)
  then have "card (set (m_z S)) < MAX_WIN" "card (set (m_tasks S)) < MAX_WIN" using i
    by (auto dest!: card_mono [rotated] simp: card_Diff_singleton_if)
  moreover have "distinct (m_z S)" "distinct (m_tasks S)" using assms(1) by (simp_all add: wm_ok_iff)
  ultimately show "length (m_tasks S) < MAX_WIN" "length (m_z S) < MAX_WIN" using distinct_card [of "m_z S"] distinct_card [of "m_tasks S"] by simp_all
qed

lemma open_ok: "wm_ok S \<Longrightarrow> win_open x y S = (r, S') \<Longrightarrow> wm_ok S' \<and> (\<forall>i. r = Some i \<longrightarrow> i < MAX_WIN \<and> n_open (the_win S' i) \<and>
    i \<in> set (m_tasks S') \<and> \<not> n_popup (the_win S' i))"
proof -
  assume ok: "wm_ok S" and r: "win_open x y S = (r, S')"
  show ?thesis
  proof (cases "first_from (\<lambda>w. \<not> n_open w) (m_wins S) 0")
    case None
    with r ok show ?thesis by (auto simp: win_open_def)
  next
    case (Some i)
    note f = free_slot [OF ok Some]
    have w: "i < length (m_wins S)" using wm_okD(1) [OF ok] f(1) by simp
    define u where "u = blank_slot\<lparr>n_open := True, n_x := x, n_y := y, n_w := 640, n_h := 420, n_minmax := True\<rparr>"
    have u: "n_open u" "\<not> n_popup u" by (simp_all add: u_def blank_slot_def)
    have S': "r = Some i" "S' = (set_w i (\<lambda>_. u) S)\<lparr>m_z := m_z S @ [i], m_tasks := m_tasks S @ [i], m_focus := Some i\<rparr>"
      using r Some f(5) by (auto simp: win_open_def u_def)
    have n: "the_win S' j = (if i = j then u else the_win S j)" for j
      using the_win_set_w [OF w, of "\<lambda>_. u" j] by (simp add: S'(2) the_win_def)
    have "wm_ok S'" using ok f u unfolding wm_ok_iff n by (auto simp: S'(2))
    with S'(1) n u f(1) show ?thesis by (simp add: S'(2))
  qed
qed

text \<open>A window that leaves the task bar because it is a popup.\<close>

lemma popup_ok:
  assumes ok: "wm_ok S" and i: "i < MAX_WIN" and f: "\<And>w. n_open (f w) = n_open w" and was: "\<not> n_popup (the_win S i)" "n_open (the_win S i)"
  defines "T \<equiv> set_w i f S"
  shows "wm_ok (if n_popup (the_win T i) then T\<lparr>m_tasks := remove1 i (m_tasks T)\<rparr> else T)"
proof -
  have w: "i < length (m_wins S)" using wm_okD(1) [OF ok] i by simp
  have n: "the_win T j = (if i = j then f (the_win S i) else the_win S j)" for j unfolding T_def by (rule the_win_set_w [OF w])
  have n': "the_win (T\<lparr>m_tasks := a\<rparr>) j = the_win T j" for a j by (simp add: the_win_def)
  show ?thesis
  proof (cases "n_popup (the_win T i)")
    case True
    have k: "m_z T = m_z S" "m_tasks T = m_tasks S" "m_focus T = m_focus S" "m_cap_id T = m_cap_id S" "length (m_wins T) = length (m_wins S)"
      by (simp_all add: T_def)
    have "wm_ok (T\<lparr>m_tasks := remove1 i (m_tasks T)\<rparr>)"
      using ok True f was i unfolding wm_ok_iff n' n by (auto simp: k)
    with True show ?thesis by simp
  next
    case False
    have k: "m_z T = m_z S" "m_tasks T = m_tasks S" "m_focus T = m_focus S" "m_cap_id T = m_cap_id S" "length (m_wins T) = length (m_wins S)"
      by (simp_all add: T_def)
    have "wm_ok T" using ok False f was i unfolding wm_ok_iff n by (auto simp: k)
    with False show ?thesis by simp
  qed
qed

lemma open_ext_ok: "wm_ok S \<Longrightarrow> wm_ok (snd (win_open_ext me gid S))"
proof -
  assume ok: "wm_ok S"
  let ?n = "int (length (m_z S))"
  obtain r S' where o: "win_open (48 + ?n * 12) (48 + ?n * 10) S = (r, S')" by fastforce
  note S' = open_ok [OF ok o]
  have keep: "n_open (adopt_win gid d w) = n_open w" for d w by (simp add: adopt_win_def Let_def split: option.splits)
  show ?thesis
  proof (cases r)
    case None
    with ok S' o show ?thesis by (auto simp: win_open_ext_def Let_def)
  next
    case (Some i)
    with S' have i: "i < MAX_WIN" "n_open (the_win S' i)" "\<not> n_popup (the_win S' i)" "wm_ok S'" by auto
    define T where "T = set_w i (adopt_win gid (m_disp S)) S'"
    have "wm_ok (if n_popup (the_win T i) then T\<lparr>m_tasks := remove1 i (m_tasks T)\<rparr> else T)"
      unfolding T_def by (rule popup_ok [OF i(4,1) keep i(3,2)])
    then have "wm_ok (snd (disp_call (display_ack_map me gid) (if n_popup (the_win T i) then T\<lparr>m_tasks := remove1 i (m_tasks T)\<rparr> else T)))"
      by (rule wm_ok_same) simp
    with ok Some o show ?thesis unfolding T_def by (simp add: win_open_ext_def Let_def split: if_splits)
  qed
qed

lemma minimize_ok: "wm_ok S \<Longrightarrow> wm_ok (apply_minimize i S)"
proof -
  assume ok: "wm_ok S"
  define T where "T = set_w i (\<lambda>w. w\<lparr>n_minimized := True\<rparr>) S"
  have T: "wm_ok T" unfolding T_def by (rule wm_ok_set_w [OF ok]) simp
  have "find P (rev l) = Some j \<Longrightarrow> j \<in> set l" for P l and j :: nat by (auto simp: find_Some_iff) (metis length_rev nth_mem set_rev)
  with T have "wm_ok (T\<lparr>m_focus := find P (rev (m_z T))\<rparr>)" for P by (auto simp: wm_ok_iff the_win_def)
  then have "wm_ok (T\<lparr>m_focus := find P (rev (m_z S))\<rparr>)" for P by (simp add: T_def)
  with ok T show ?thesis by (simp add: apply_minimize_def Let_def T_def)
qed

lemma resize_lists: "lists_of (try_resize me i cw ch S) = lists_of S" "resize_client me i cw ch S = Some S' \<Longrightarrow> lists_of S' = lists_of S"
proof -
  have l: "gui_ask f S = (r, T) \<Longrightarrow> lists_of T = lists_of S" for f r T using lists_gui(1) [of f S] by simp
  show "resize_client me i cw ch S = Some S' \<Longrightarrow> lists_of S' = lists_of S" for S'
    by (auto simp: resize_client_def lists_set_w dest: l split: prod.splits if_splits)
  then show "lists_of (try_resize me i cw ch S) = lists_of S" by (simp add: try_resize_def split: option.splits)
qed

lemma unmaximize_lists: "lists_of (unmaximize me i S) = lists_of S"
  by (simp add: unmaximize_def Let_def resize_lists lists_set_w split: prod.splits)

lemma maximize_lists: "lists_of (apply_maximize me i S) = lists_of S"
  by (simp add: apply_maximize_def Let_def resize_lists unmaximize_lists lists_set_w)

lemma lists_fields [simp]:
  "lists_of (S\<lparr>m_drag := a\<rparr>) = lists_of S" "lists_of (S\<lparr>m_resize := b\<rparr>) = lists_of S" "lists_of (S\<lparr>m_log := c\<rparr>) = lists_of S"
  "lists_of (S\<lparr>m_launches := d\<rparr>) = lists_of S" "lists_of (S\<lparr>m_desk_sel := e\<rparr>) = lists_of S" "lists_of (S\<lparr>m_last_icon := e\<rparr>) = lists_of S"
  "lists_of (S\<lparr>m_alt := g\<rparr>) = lists_of S" "lists_of (S\<lparr>m_alt_idx := h\<rparr>) = lists_of S" "lists_of (S\<lparr>m_client_btn := g\<rparr>) = lists_of S"
  "lists_of (S\<lparr>m_mx := x\<rparr>) = lists_of S" "lists_of (S\<lparr>m_my := x\<rparr>) = lists_of S" "lists_of (S\<lparr>m_btn := x\<rparr>) = lists_of S" "lists_of (S\<lparr>m_prev := x\<rparr>) = lists_of S"
  "lists_of (S\<lparr>m_cap := v\<rparr>) = lists_of S" "lists_of (S\<lparr>m_running := g\<rparr>) = lists_of S"
  by (simp_all add: lists_of_def)

lemma drag_restore_lists: "lists_of (restore_from_max_for_drag me i mx S) = lists_of S"
  by (simp add: restore_from_max_for_drag_def Let_def unmaximize_lists)

lemma launch_lists: "lists_of (launch_app_argv ex sp path argv S) = lists_of S"
  by (simp add: launch_app_argv_def Let_def split: option.splits prod.splits)

lemma press_ok: "wm_ok S \<Longrightarrow> i < MAX_WIN \<Longrightarrow> wm_ok (press_win me i x y S)"
proof -
  assume ok: "wm_ok S" and i: "i < MAX_WIN"
  have "wm_ok (S\<lparr>m_cap := c, m_cap_id := Some i\<rparr>)" for c using ok i by (auto simp: wm_ok_iff the_win_def)
  moreover have "wm_ok (restore_from_max_for_drag me i x (S\<lparr>m_resize := r\<rparr>))" "wm_ok (restore_from_max_for_drag me i x (S\<lparr>m_drag := d\<rparr>))" for r d
    by (rule wm_ok_same [OF ok], simp add: drag_restore_lists)+
  ultimately show ?thesis using ok by (simp add: press_win_def Let_def)
qed

lemma fold_ok: "wm_ok S \<Longrightarrow> (\<And>i S. i \<in> set is \<Longrightarrow> wm_ok S \<Longrightarrow> wm_ok (f i S)) \<Longrightarrow> wm_ok (fold f is S)"
  by (induction "is" arbitrary: S) auto

lemma dismiss_ok: "wm_ok S \<Longrightarrow> wm_ok (dismiss_popups me ex S)"
  unfolding dismiss_popups_def by (rule fold_ok) (auto intro: request_close_ok)

lemma desktop_lists: "lists_of (click_desktop ex sp x y S) = lists_of S"
  by (simp add: click_desktop_def desk_launch_icon_def launch_lists split: option.splits)

lemma top_win_bound: "wm_ok S \<Longrightarrow> top_win_at S x y = Some i \<Longrightarrow> i < MAX_WIN \<and> i \<in> set (m_z S) \<and> win_hit (the_win S i) x y"
  using wm_okD(3) [of S i] by (auto simp: top_win_at_def find_Some_iff) (metis length_rev nth_mem set_rev)+

lemma click_ok: "wm_ok S \<Longrightarrow> wm_ok (on_click me ex sp panel x y S)"
proof -
  assume ok: "wm_ok S"
  define T where "T = S\<lparr>m_alt := False\<rparr>"
  have T: "wm_ok T" unfolding T_def by (rule wm_ok_same [OF ok]) simp
  show ?thesis
  proof (cases "top_win_at T x y")
    case None
    have "wm_ok (click_desktop ex sp x y (dismiss_popups me None T))" by (rule wm_ok_same [OF dismiss_ok [OF T]], rule desktop_lists)
    with None T show ?thesis by (simp add: on_click_def Let_def T_def [symmetric] dismiss_ok)
  next
    case (Some i)
    then have "i < MAX_WIN" using top_win_bound [OF T] by blast
    with Some T show ?thesis by (simp add: on_click_def Let_def T_def [symmetric] dismiss_ok press_ok raise_ok)
  qed
qed

lemma release_ok: "wm_ok S \<Longrightarrow> wm_ok (caption_release me x y S)"
proof -
  assume ok: "wm_ok S"
  define T where "T = S\<lparr>m_cap := CAP_NONE, m_cap_id := None\<rparr>"
  have T: "wm_ok T" using ok by (auto simp: T_def wm_ok_iff the_win_def)
  show ?thesis
  proof (cases "m_cap_id S")
    case None
    with T show ?thesis by (simp add: caption_release_def Let_def T_def)
  next
    case (Some i)
    then have i: "i < MAX_WIN" using ok by (simp add: wm_ok_iff)
    have "wm_ok (apply_maximize me i T)" by (rule wm_ok_same [OF T maximize_lists])
    with Some i T request_close_ok [OF T i] minimize_ok [OF T] show ?thesis by (simp add: caption_release_def Let_def T_def [symmetric])
  qed
qed

lemma alt_next_less: "alt_candidates S \<noteq> [] \<Longrightarrow> alt_next S < length (alt_candidates S)"
  by (simp add: alt_next_def Let_def)

lemma alt_tab_ok: "wm_ok S \<Longrightarrow> wm_ok (alt_tab_cycle S)"
proof (cases "alt_candidates S = []")
  case False
  assume ok: "wm_ok S"
  define i where "i = alt_candidates S ! alt_next S"
  have "i \<in> set (alt_candidates S)" unfolding i_def using alt_next_less [OF False] by (rule nth_mem)
  then have i: "i < MAX_WIN" using wm_okD(3) [OF ok] by (simp add: alt_candidates_def)
  have "wm_ok (set_w i (\<lambda>w. w\<lparr>n_minimized := False\<rparr>) (S\<lparr>m_alt := True, m_alt_idx := alt_next S\<rparr>))"
    by (rule wm_ok_same [OF ok]) (simp add: lists_set_w)
  then show ?thesis using False raise_ok [OF _ i] by (simp add: alt_tab_cycle_def Let_def i_def [symmetric])
qed (simp add: alt_tab_cycle_def)

lemma drag_lists: "lists_of (drag_win c S) = lists_of S"
  by (simp add: drag_win_def Let_def lists_set_w split: option.splits prod.splits)

lemma resize_drag_lists: "lists_of (apply_resize_drag me S) = lists_of S"
  by (simp add: apply_resize_drag_def Let_def lists_set_w resize_lists split: option.splits prod.splits)

lemma forward_lists: "lists_of (forward_client_pointer me S) = lists_of S"
  by (simp add: forward_client_pointer_def Let_def split: option.splits)

lemma pointer_ok: "wm_ok S \<Longrightarrow> wm_ok (mouse_event me ex sp panel c x y b S)"
proof -
  assume ok: "wm_ok S"
  define A where "A = S\<lparr>m_mx := x, m_my := y, m_btn := b\<rparr>"
  define B where "B = (if odd b \<and> \<not> odd (m_prev A) then on_click me ex sp panel x y A else A)"
  define C where "C = (if \<not> odd b \<and> odd (m_prev B) \<and> m_cap B \<noteq> CAP_NONE then caption_release me x y B else B)"
  define D where "D = (if \<not> odd b then C\<lparr>m_drag := None, m_resize := None\<rparr> else C)"
  have "wm_ok A" unfolding A_def by (rule wm_ok_same [OF ok]) simp
  then have "wm_ok B" by (simp add: B_def click_ok)
  then have C: "wm_ok C" by (simp add: C_def release_ok)
  have "wm_ok D" by (rule wm_ok_same [OF C]) (simp add: D_def)
  then have "wm_ok ((forward_client_pointer me (apply_resize_drag me (drag_win c D)))\<lparr>m_prev := b\<rparr>)"
    by (rule wm_ok_same) (simp add: forward_lists resize_drag_lists drag_lists)
  then show ?thesis by (simp only: mouse_event_def Let_def A_def B_def C_def D_def)
qed

lemma frame_pointer_ok: "wm_ok S \<Longrightarrow> wm_ok (frame_pointer me x y b S)"
proof -
  assume ok: "wm_ok S"
  have A: "wm_ok (S\<lparr>m_mx := x, m_my := y, m_btn := b\<rparr>)" by (rule wm_ok_same [OF ok]) simp
  have B: "wm_ok T \<Longrightarrow> wm_ok (if c then T\<lparr>m_drag := None, m_resize := None\<rparr> else T)" for T and c :: bool by (auto intro: wm_ok_same)
  have C: "wm_ok T \<Longrightarrow> wm_ok ((apply_resize_drag me (drag_win False T))\<lparr>m_prev := b\<rparr>)" for T
    by (rule wm_ok_same) (simp_all add: resize_drag_lists drag_lists)
  have D: "wm_ok T \<Longrightarrow> wm_ok (if c then caption_release me x y T else T)" for T and c :: bool by (simp add: release_ok)
  show ?thesis unfolding frame_pointer_def Let_def by (intro A B C D)
qed

lemma keypress_ok: "wm_ok S \<Longrightarrow> wm_ok (on_key me ex sp panel key S)"
proof -
  assume ok: "wm_ok S"
  have post: "wm_ok (snd (disp_call f S))" for f :: "display \<Rightarrow> int \<times> display" by (rule wm_ok_same [OF ok]) simp
  have "m_focus S = Some i \<Longrightarrow> wm_ok (request_win_close me i S)" for i using request_close_ok [OF ok] wm_okD(4) [OF ok] by blast
  with ok post show ?thesis
    by (auto simp: on_key_def Let_def alt_tab_ok click_ok split: option.splits)
qed

lemma task_ok: "wm_ok S \<Longrightarrow> i < MAX_WIN \<Longrightarrow> wm_ok (panel_on_task i S)"
  by (simp add: panel_on_task_def apply_restore_def raise_ok minimize_ok wm_ok_set_w)

lemma reap_ok: "wm_ok S \<Longrightarrow> i < MAX_WIN \<Longrightarrow> wm_ok (reap_win me i S)"
proof -
  assume ok: "wm_ok S" and i: "i < MAX_WIN"
  have "wm_ok (win_close me i (set_w i (\<lambda>w. w\<lparr>n_gui := -1\<rparr>) S))" using i by (intro close_ok wm_ok_set_w [OF ok]) simp_all
  with ok show ?thesis by (auto simp: reap_win_def Let_def intro!: wm_ok_set_w split: option.splits)
qed

lemma adopt_ok: "adopt me S = Some S' \<Longrightarrow> wm_ok S \<longrightarrow> wm_ok S'"
proof (erule adopt.raw_induct [rotated])
  fix ad me S S'
  assume IH: "\<And>me S S'. ad me S = Some S' \<Longrightarrow> wm_ok S \<longrightarrow> wm_ok S'"
    and s: "(let gid = display_next_new me (m_disp S) in if gid < 0 then Some S else ad me (snd (win_open_ext me gid S))) = Some S'"
  show "wm_ok S \<longrightarrow> wm_ok S'" using s IH open_ext_ok [of S me] by (auto simp: Let_def split: if_splits)
qed

text \<open>
  Everything that can happen to the desktop. \<open>Clients\<close> stands for what other processes do between two steps of the manager: they leave
  the window service, with all windows, flags and titles, and the memory in any state at all. \<open>Panel_exit\<close> is the panel's Exit, and
  \<open>Close_all\<close> the end of the program.
\<close>

datatype wm_event = Mouse bool bool int int int | Key bool int | Task nat | Launchpad | Settle int int int | Frame "nat \<Rightarrow> pump_reply" | Reap
  | New int | Take_launch | Clients display mm | Panel_exit | Close_all

definition wm_step :: "proc option \<Rightarrow> (string \<Rightarrow> bool) \<Rightarrow> int \<Rightarrow> wm_event \<Rightarrow> wm \<Rightarrow> wm" where
  "wm_step me ex sp e S =
     (case e of
        Mouse panel c x y b \<Rightarrow> mouse_event me ex sp panel c x y b S
      | Settle x y b \<Rightarrow> frame_pointer me x y b S
      | Key panel k \<Rightarrow> on_key me ex sp panel k S
      | Task i \<Rightarrow> if i < MAX_WIN then panel_on_task i S else S
      | Launchpad \<Rightarrow> panel_on_launchpad ex sp S
      | Frame reps \<Rightarrow> launches_pump reps S
      | Reap \<Rightarrow> reap_wins me S
      | New gid \<Rightarrow> snd (win_open_ext me gid S)
      | Take_launch \<Rightarrow> snd (take_launch me ex sp S)
      | Clients d m \<Rightarrow> S\<lparr>m_disp := d, m_mem := m\<rparr>
      | Panel_exit \<Rightarrow> panel_on_exit S
      | Close_all \<Rightarrow> close_all me S)"

lemma close_all_ok: "wm_ok S \<Longrightarrow> wm_ok (close_all me S)"
proof -
  have "wm_ok (close_slot me i T)" if "wm_ok T" "i < MAX_WIN" for i T
    using that wm_ok_same [OF that(1)] by (auto simp: close_slot_def intro!: close_ok split: option.split)
  then show "wm_ok S \<Longrightarrow> wm_ok (close_all me S)" unfolding close_all_def by (intro fold_ok) auto
qed

lemma step_ok: "wm_ok S \<Longrightarrow> wm_ok (wm_step me ex sp e S)"
proof -
  assume ok: "wm_ok S"
  have "wm_ok (panel_on_launchpad ex sp S)" by (rule wm_ok_same [OF ok]) (simp add: panel_on_launchpad_def launch_lists)
  moreover have "wm_ok (launches_pump r S)" for r by (rule wm_ok_same [OF ok]) (simp add: launches_pump_def)
  moreover have "wm_ok (reap_wins me S)" unfolding reap_wins_def by (rule fold_ok [OF ok]) (simp add: reap_ok)
  moreover have "wm_ok (snd (take_launch me ex sp S))"
  proof -
    obtain r T where T: "disp_call (display_take_launch me 256) S = (r, T)" by fastforce
    then have "lists_of T = lists_of S" using lists_gui(2) [of "display_take_launch me 256" S] by simp
    then show ?thesis using wm_ok_same [OF ok] by (simp add: take_launch_def T launch_lists split: option.splits)
  qed
  moreover have "wm_ok (S\<lparr>m_disp := d, m_mem := m\<rparr>)" "wm_ok (panel_on_exit S)" for d m
    using wm_ok_same [OF ok] by (simp_all add: lists_of_def panel_on_exit_def)
  ultimately show ?thesis using ok
    by (simp add: wm_step_def pointer_ok frame_pointer_ok keypress_ok task_ok open_ext_ok close_all_ok split: wm_event.split)
qed

section \<open>Clicking and painting\<close>

lemma split_at: "distinct z \<Longrightarrow> i \<in> set z \<Longrightarrow> \<exists>A B. z = A @ i # B \<and> tl (dropWhile (\<lambda>j. j \<noteq> i) z) = B \<and> i \<notin> set A \<and> i \<notin> set B"
proof -
  assume d: "distinct z" and "i \<in> set z"
  then obtain A B where z: "z = A @ i # B" by (meson split_list)
  with d have "i \<notin> set A" "i \<notin> set B" by auto
  moreover from this(1) have "dropWhile (\<lambda>j. j \<noteq> i) z = i # B" unfolding z by (subst dropWhile_append2) auto
  ultimately show ?thesis using z by auto
qed

lemma find_append: "find P (xs @ ys) = (case find P xs of None \<Rightarrow> find P ys | Some x \<Rightarrow> Some x)"
  by (induction xs) auto

lemma find_in: "find P xs = Some x \<Longrightarrow> x \<in> set xs \<and> P x"
  by (induction xs) (auto split: if_splits)

lemma find_none: "find P xs = None \<longleftrightarrow> \<not> list_ex P xs"
  by (induction xs) auto

text \<open>Property C38. What is seen is what is clicked: at a point of a window above the panel, the drawing of its client is not covered exactly when a
  click at that point goes to this window.\<close>

theorem wm_paint_matches_click:
  assumes "wm_ok S" and "i < MAX_WIN" and "win_hit (the_win S i) x y" and "y < SCREEN_H - PANEL_H"
  shows "\<not> win_obscured_at S i x y \<longleftrightarrow> top_win_at S x y = Some i"
proof -
  have z: "distinct (m_z S)" "i \<in> set (m_z S)" using assms(1,2,3) wm_okD(2,3) by (auto simp: win_hit_def)
  from split_at [OF this] obtain A B where s: "m_z S = A @ i # B" "tl (dropWhile (\<lambda>j. j \<noteq> i) (m_z S)) = B" "i \<notin> set A" "i \<notin> set B" by auto
  let ?P = "\<lambda>j. win_hit (the_win S j) x y"
  have ob: "win_obscured_at S i x y \<longleftrightarrow> list_ex ?P B" using assms(4) z(2) s(2) by (simp add: win_obscured_at_def)
  have top: "top_win_at S x y = (case find ?P (rev B) of None \<Rightarrow> Some i | Some j \<Rightarrow> Some j)"
    using assms(3) by (simp add: top_win_at_def s(1) find_append split: option.splits)
  show ?thesis
  proof (cases "find ?P (rev B)")
    case None
    then have "\<not> list_ex ?P B" using find_none [of ?P "rev B"] by (simp add: list_ex_iff)
    with ob top None show ?thesis by simp
  next
    case (Some j)
    with find_in [of ?P "rev B" j] have "j \<in> set B" "?P j" by auto
    then have "list_ex ?P B" "j \<noteq> i" using s(4) by (auto simp: list_ex_iff)
    with ob top Some show ?thesis by simp
  qed
qed

lemma lists_sel: "lists_of S = lists_of T \<Longrightarrow> m_z S = m_z T \<and> m_focus S = m_focus T"
  by (simp add: lists_of_def)

lemma press_lists: "m_z (press_win me i x y S) = m_z S \<and> m_focus (press_win me i x y S) = m_focus S"
proof -
  have "m_z (restore_from_max_for_drag me i x T) = m_z T \<and> m_focus (restore_from_max_for_drag me i x T) = m_focus T" for T
    using lists_sel [OF drag_restore_lists] .
  then show ?thesis by (simp add: press_win_def Let_def)
qed

lemma close_other: "wm_ok S \<Longrightarrow> j < MAX_WIN \<Longrightarrow> i \<noteq> j \<Longrightarrow> the_win (win_close me j S) i = the_win S i"
proof -
  assume ok: "wm_ok S" and j: "j < MAX_WIN" and ij: "i \<noteq> j"
  have w: "length (m_wins T) = MAX_WIN \<Longrightarrow> the_win (set_w j f T) i = the_win T i" for f T using the_win_set_w [of j T] j ij by simp
  have l: "length (m_wins S) = MAX_WIN" using wm_okD(1) [OF ok] .
  have t: "the_win (T\<lparr>m_log := a\<rparr>) k = the_win T k" "the_win (T\<lparr>m_z := b, m_tasks := c, m_focus := d\<rparr>) k = the_win T k" for T a b c d k
    by (simp_all add: the_win_def)
  show ?thesis using l by (simp add: win_close_def Let_def t w)
qed

lemma request_other: "wm_ok S \<Longrightarrow> j < MAX_WIN \<Longrightarrow> i \<noteq> j \<Longrightarrow> the_win (request_win_close me j S) i = the_win S i"
  by (simp add: request_win_close_def Let_def close_other)

lemma dismiss_other:
  assumes "wm_ok S" and "\<not> n_popup (the_win S i)"
  shows "the_win (dismiss_popups me None S) i = the_win S i"
proof -
  have keep: "wm_ok (fold f js T) \<and> the_win (fold f js T) i = the_win S i"
    if "\<And>j T. j \<in> set js \<Longrightarrow> wm_ok T \<Longrightarrow> the_win T i = the_win S i \<Longrightarrow> wm_ok (f j T) \<and> the_win (f j T) i = the_win S i"
      "wm_ok T" "the_win T i = the_win S i" for f js T
    using that by (induction js arbitrary: T) auto
  define f where "f = (\<lambda>j S. if \<not> n_open (the_win S j) \<or> \<not> n_popup (the_win S j) \<or> Some j = None then S else request_win_close me j S)"
  have step: "wm_ok (f j T) \<and> the_win (f j T) i = the_win S i" if "j \<in> set [0..<MAX_WIN]" "wm_ok T" "the_win T i = the_win S i" for j T
  proof (cases "i = j")
    case True
    with that assms(2) show ?thesis by (simp add: f_def)
  next
    case False
    with that show ?thesis using request_close_ok [of T j me] request_other [of T j i me] by (simp add: f_def)
  qed
  have "the_win (fold f [0..<MAX_WIN] S) i = the_win S i" using keep [of "[0..<MAX_WIN]" f S] step assms(1) by simp
  then show ?thesis by (simp only: dismiss_popups_def f_def)
qed

text \<open>A click raises the window under it to the top and gives it the focus.\<close>

theorem click_raises:
  assumes "wm_ok S" and "top_win_at S x y = Some i"
  shows "m_focus (on_click me ex sp False x y S) = Some i \<and> last (m_z (on_click me ex sp False x y S)) = i"
proof -
  define T where "T = S\<lparr>m_alt := False\<rparr>"
  have T: "wm_ok T" unfolding T_def by (rule wm_ok_same [OF assms(1)]) simp
  have "the_win T j = the_win S j" for j by (simp add: T_def the_win_def)
  then have top: "top_win_at T x y = Some i" using assms(2) by (simp add: top_win_at_def T_def)
  define U where "U = (if \<not> n_popup (the_win T i) then dismiss_popups me None T else T)"
  have U: "wm_ok U" "the_win U i = the_win T i" using T dismiss_other [OF T] by (simp_all add: U_def dismiss_ok)
  have op: "n_open (the_win U i)" "i < MAX_WIN" using top_win_bound [OF T top] U(2) by (auto simp: win_hit_def)
  then have "i \<in> set (m_z U)" using wm_okD(3) [OF U(1)] by simp
  then have "m_focus (win_raise i U) = Some i \<and> last (m_z (win_raise i U)) = i" using op by (simp add: win_raise_def)
  moreover have "on_click me ex sp False x y S = press_win me i x y (win_raise i U)"
    by (simp add: on_click_def Let_def T_def [symmetric] top U_def)
  ultimately show ?thesis by (simp add: press_lists)
qed

section \<open>Alt-Tab, closing and dragging\<close>

lemma alt_tab_step:
  assumes "alt_candidates S \<noteq> []" and "wm_ok S"
  shows "m_z (alt_tab_cycle S) = remove1 (alt_candidates S ! alt_next S) (m_z S) @ [alt_candidates S ! alt_next S]"
    "m_focus (alt_tab_cycle S) = Some (alt_candidates S ! alt_next S)" "m_alt (alt_tab_cycle S)" "m_alt_idx (alt_tab_cycle S) = alt_next S"
    "n_open (the_win (alt_tab_cycle S) j) = n_open (the_win S j)" "n_popup (the_win (alt_tab_cycle S) j) = n_popup (the_win S j)"
proof -
  define i where "i = alt_candidates S ! alt_next S"
  define T where "T = set_w i (\<lambda>w. w\<lparr>n_minimized := False\<rparr>) (S\<lparr>m_alt := True, m_alt_idx := alt_next S\<rparr>)"
  have "i \<in> set (alt_candidates S)" unfolding i_def using alt_next_less [OF assms(1)] by (rule nth_mem)
  then have i: "i \<in> set (m_z S)" "n_open (the_win S i)" "i < MAX_WIN" using wm_okD(3) [OF assms(2)] by (auto simp: alt_candidates_def)
  have w: "n_open (the_win (set_w i (\<lambda>w. w\<lparr>n_minimized := False\<rparr>) V) j) = n_open (the_win V j)"
    "n_popup (the_win (set_w i (\<lambda>w. w\<lparr>n_minimized := False\<rparr>) V) j) = n_popup (the_win V j)" if "length (m_wins V) = MAX_WIN" for V j
    using the_win_set_w [of i V] i(3) that by auto
  have v: "the_win (S\<lparr>m_alt := True, m_alt_idx := alt_next S\<rparr>) j = the_win S j" for j by (simp add: the_win_def)
  have l: "length (m_wins S) = MAX_WIN" using wm_okD(1) [OF assms(2)] .
  then have T: "m_z T = m_z S" "length (m_wins T) = MAX_WIN" "m_alt T" "m_alt_idx T = alt_next S"
    "n_open (the_win T j) = n_open (the_win S j)" "n_popup (the_win T j) = n_popup (the_win S j)" for j
    using w [of "S\<lparr>m_alt := True, m_alt_idx := alt_next S\<rparr>"] v by (simp_all add: T_def) (simp_all add: set_w_def)
  have a: "alt_tab_cycle S = (set_w i (\<lambda>w. w\<lparr>n_minimized := False\<rparr>) T)\<lparr>m_z := remove1 i (m_z S) @ [i], m_focus := Some i\<rparr>"
    using assms(1) i T(1,5) by (simp add: alt_tab_cycle_def Let_def i_def [symmetric] T_def [symmetric] win_raise_def)
  have x: "the_win (V\<lparr>m_z := b, m_focus := c\<rparr>) j = the_win V j" for V b c j by (simp add: the_win_def)
  show "m_z (alt_tab_cycle S) = remove1 (alt_candidates S ! alt_next S) (m_z S) @ [alt_candidates S ! alt_next S]"
    "m_focus (alt_tab_cycle S) = Some (alt_candidates S ! alt_next S)" by (simp_all add: a i_def)
  show "m_alt (alt_tab_cycle S)" "m_alt_idx (alt_tab_cycle S) = alt_next S" using T by (simp_all add: a set_w_def)
  show "n_open (the_win (alt_tab_cycle S) j) = n_open (the_win S j)" "n_popup (the_win (alt_tab_cycle S) j) = n_popup (the_win S j)"
    unfolding a x using w [OF T(2)] T by simp_all
qed

text \<open>With two windows the first Alt-Tab switches to the other one and the second does nothing: the place it remembers is in the order before
  the switch.\<close>

theorem alt_tab_stuck:
  assumes "wm_ok S" and "m_z S = [a, b]" and "alt_candidates S = [a, b]" and "m_focus S = Some b" and "\<not> m_alt S"
  shows "m_focus (alt_tab_cycle S) = Some a \<and> m_z (alt_tab_cycle S) = [b, a] \<and>
    m_focus (alt_tab_cycle (alt_tab_cycle S)) = Some a \<and> m_z (alt_tab_cycle (alt_tab_cycle S)) = [b, a]"
proof -
  have d: "a \<noteq> b" using wm_okD(2) [OF assms(1)] assms(2) by simp
  have ne: "alt_candidates S \<noteq> []" using assms(3) by simp
  have "first_from (\<lambda>c. Some c = m_focus S) [a, b] 0 = Some 1" using d assms(4) by (intro first_from_eq) (auto simp: less_Suc_eq)
  then have n: "alt_next S = 0" using assms(3,5) by (simp add: alt_next_def Let_def)
  let ?T = "alt_tab_cycle S"
  note one = alt_tab_step [OF ne assms(1), unfolded n assms(3)]
  have T: "wm_ok ?T" by (rule alt_tab_ok [OF assms(1)])
  have z: "m_z ?T = [b, a]" "m_focus ?T = Some a" using one(1,2) assms(2) d by simp_all
  have "\<forall>c \<in> {a, b}. n_open (the_win S c) \<and> \<not> n_popup (the_win S c)"
  proof -
    have "set (alt_candidates S) = {a, b}" using assms(3) by simp
    then show ?thesis by (auto simp: alt_candidates_def)
  qed
  then have cs: "alt_candidates ?T = [b, a]" using one(5,6) z(1) by (simp add: alt_candidates_def)
  have "alt_next ?T = 1" using one(3,4) cs by (simp add: alt_next_def Let_def)
  with alt_tab_step(1,2) [OF _ T] cs z show ?thesis by simp
qed

text \<open>Closing a window gives the focus to the next one in the stack, minimized or not.\<close>

theorem close_focuses_minimized:
  assumes "wm_ok S" and "m_z S = [a, b]" and "n_minimized (the_win S a)"
  shows "m_focus (win_close me b S) = Some a \<and> n_minimized (the_win (win_close me b S) a)"
proof -
  have b: "b < MAX_WIN" "n_open (the_win S b)" "a \<noteq> b" using wm_okD(2,3) [OF assms(1)] assms(2) by auto
  have "m_focus (win_close me b S) = top_of (remove1 b (m_z S))" using b by (simp add: win_close_def Let_def)
  then show ?thesis using assms b close_other [OF assms(1) b(1,3)] by (simp add: top_of_def)
qed

text \<open>A drag of the left edge leaves the right edge where it is, down to the least width; from there on it pushes the window to the right.\<close>

theorem left_edge_drag:
  assumes "resize_target w \<lparr>rz_l = True, rz_r = False, rz_t = False, rz_b = False\<rparr> dx dy (bw, bh) (bx, by') = ((nx, ny), (nw, nh))"
    and "0 \<le> bx + dx" and "bw - dx \<le> SCREEN_W - win_frame_x w * 2"
  shows "64 \<le> bw - dx \<Longrightarrow> nx + nw = bx + bw" and "bw - dx < 64 \<Longrightarrow> nx + nw = bx + bw + (64 - (bw - dx))"
  using assms by (auto simp: resize_target_def Let_def SCREEN_W_def win_frame_x_def split: if_splits)

section \<open>Taking in new windows\<close>

definition unmapped :: "display \<Rightarrow> nat set" where
  "unmapped d = {k. k < GUI_WIN_MAX \<and> gw_used (gwins d ! k) \<and> \<not> gw_mapped (gwins d ! k)}"

definition clients_ok :: "display \<Rightarrow> bool" where
  "clients_ok d \<longleftrightarrow> wins_ok d \<and> (\<forall>k < GUI_WIN_MAX. gw_used (gwins d ! k) \<longrightarrow> 0 \<le> client_pid (gwins d ! k))"

lemma page_addr_ne0: "i < PAGE_COUNT \<Longrightarrow> page_addr i \<noteq> 0"
  using page_addr_range [of i] by (auto simp: KERNEL_HEAP_START_def)

lemma next_new_cases:
  assumes "clients_ok d" and "is_server me d"
  shows "if unmapped d = {} then display_next_new me d = -1
    else \<exists>k \<in> unmapped d. display_next_new me d = gw_id (gwins d ! k) \<and> 0 < gw_id (gwins d ! k)"
proof (cases "first_from (\<lambda>g. gw_used g \<and> \<not> gw_mapped g) (gwins d) 0")
  case None
  then have "unmapped d = {}" using assms(1) by (auto simp: first_from_None unmapped_def clients_ok_def wins_ok_def)
  with None assms(2) show ?thesis by (simp add: display_next_new_def)
next
  case (Some k)
  with first_from_Some [OF Some] assms(1) have "k \<in> unmapped d" by (auto simp: unmapped_def clients_ok_def wins_ok_def)
  moreover from this assms(1) have "0 < gw_id (gwins d ! k)" by (auto simp: unmapped_def clients_ok_def wins_ok_def win_ok_def)
  ultimately show ?thesis using Some assms(2) by (auto simp: display_next_new_def)
qed

lemma win_by_id_unique:
  assumes "wins_ok d" and "k < GUI_WIN_MAX" and "gw_used (gwins d ! k)"
  shows "win_by_id d (gw_id (gwins d ! k)) = Some k"
proof -
  have l: "length (gwins d) = GUI_WIN_MAX" using assms(1) by (simp add: wins_ok_def)
  have "\<not> (gw_used (gwins d ! j) \<and> gw_id (gwins d ! j) = gw_id (gwins d ! k))" if "j < k" for j
  proof
    assume "gw_used (gwins d ! j) \<and> gw_id (gwins d ! j) = gw_id (gwins d ! k)"
    moreover have "j < GUI_WIN_MAX" using that assms(2) by simp
    ultimately have "j = k" using assms unfolding wins_ok_def by blast
    with that show False by simp
  qed
  with assms l show ?thesis unfolding win_by_id_def by (intro first_from_eq) auto
qed

lemma adoptable:
  assumes "clients_ok d" and "k \<in> unmapped d"
  defines "gid \<equiv> gw_id (gwins d ! k)"
  shows "\<not> (display_info gid 0 d < 32 \<or> display_info gid 1 d < 32 \<or> display_info gid 2 d = 0 \<or> display_info gid 4 d < 0)"
proof -
  have k: "k < GUI_WIN_MAX" "gw_used (gwins d ! k)" "win_ok (gwins d ! k)" "0 \<le> client_pid (gwins d ! k)" "wins_ok d"
    using assms by (auto simp: unmapped_def clients_ok_def wins_ok_def)
  have p: "gw_pixels (gwins d ! k) \<noteq> 0"
  proof -
    have w: "gw_pixels (gwins d ! k) = page_addr (win_page (gwins d ! k))" "win_page (gwins d ! k) + gw_pages (gwins d ! k) \<le> PAGE_COUNT"
      "\<not> bad_size (gw_w (gwins d ! k)) (gw_h (gwins d ! k))" "gw_pages (gwins d ! k) = pages_of (gw_w (gwins d ! k)) (gw_h (gwins d ! k))"
      using k by (auto simp: win_ok_def)
    then have "0 < gw_pages (gwins d ! k)" using pages_of_pos by simp
    with w show ?thesis by (simp add: page_addr_ne0)
  qed
  then have "sint (gw_pixels (gwins d ! k)) \<noteq> 0" by (simp add: signed_eq_0_iff)
  with k(3,4) win_by_id_unique [OF k(5,1,2)] show ?thesis by (simp add: display_info_def Let_def gid_def win_ok_def bad_size_def k(2))
qed

lemma ack_step:
  assumes "clients_ok d" and "is_server me d" and "k \<in> unmapped d"
  defines "d' \<equiv> snd (display_ack_map me (gw_id (gwins d ! k)) d)"
  shows "clients_ok d' \<and> is_server me d' \<and> unmapped d' = unmapped d - {k}"
proof -
  have k: "k < GUI_WIN_MAX" "gw_used (gwins d ! k)" "wins_ok d" using assms by (auto simp: unmapped_def clients_ok_def)
  have l: "length (gwins d) = GUI_WIN_MAX" using k(3) by (simp add: wins_ok_def)
  let ?g = "(gwins d ! k)\<lparr>gw_mapped := True\<rparr>"
  have d': "d' = set_win k ?g d" using assms(2) win_by_id_unique [OF k(3,1,2)] by (simp add: d'_def display_ack_map_def)
  have n: "gwins d' ! j = (if j = k then ?g else gwins d ! j)" if "j < GUI_WIN_MAX" for j using that k(1) l by (simp add: d')
  have sp: "same_place (gwins d ! k) ?g" by (simp add: same_place_def)
  have "evts_ok ?g" using k by (auto simp: wins_ok_def win_ok_def evts_ok_def)
  then have "wins_ok d'" using wins_ok_same_place [OF k(3) sp] by (simp add: d')
  moreover have "\<forall>j < GUI_WIN_MAX. gw_used (gwins d' ! j) \<longrightarrow> 0 \<le> client_pid (gwins d' ! j)" using assms(1) n by (auto simp: clients_ok_def)
  moreover have "is_server me d'" using assms(2) by (simp add: is_server_def d' split: option.splits)
  moreover have "unmapped d' = unmapped d - {k}" using n k(1) by (auto simp: unmapped_def split: if_splits)
  ultimately show ?thesis by (simp add: clients_ok_def)
qed

lemma open_full: "wm_ok S \<Longrightarrow> length (m_z S) = MAX_WIN \<Longrightarrow> win_open x y S = (None, S)"
proof -
  assume ok: "wm_ok S" and full: "length (m_z S) = MAX_WIN"
  have "first_from (\<lambda>w. \<not> n_open w) (m_wins S) 0 = None"
  proof (rule ccontr)
    assume "first_from (\<lambda>w. \<not> n_open w) (m_wins S) 0 \<noteq> None"
    then obtain i where "first_from (\<lambda>w. \<not> n_open w) (m_wins S) 0 = Some i" by blast
    from free_slot(6) [OF ok this] full show False by simp
  qed
  then show ?thesis by (simp add: win_open_def)
qed

lemma open_room:
  assumes ok: "wm_ok S" and "length (m_z S) < MAX_WIN"
  shows "\<exists>i S'. win_open x y S = (Some i, S') \<and> m_z S' = m_z S @ [i] \<and> m_disp S' = m_disp S"
proof -
  have "card (set (m_z S)) < MAX_WIN" using assms distinct_card [of "m_z S"] wm_okD(2) [OF ok] by simp
  moreover have "card {i. i < MAX_WIN} = MAX_WIN" by simp
  ultimately have "{i. i < MAX_WIN \<and> n_open (the_win S i)} \<noteq> {i. i < MAX_WIN}" using ok by (metis wm_ok_iff less_irrefl)
  then obtain i where "i < MAX_WIN" "\<not> n_open (the_win S i)" by blast
  then have "first_from (\<lambda>w. \<not> n_open w) (m_wins S) 0 \<noteq> None"
    using wm_okD(1) [OF ok] by (auto simp: first_from_None the_win_def)
  then show ?thesis by (auto simp: win_open_def)
qed

lemma adopt_step:
  assumes ok: "wm_ok S" and cl: "clients_ok (m_disp S)" "is_server me (m_disp S)" and k: "k \<in> unmapped (m_disp S)"
  defines "gid \<equiv> gw_id (gwins (m_disp S) ! k)"
  shows "length (m_z S) = MAX_WIN \<Longrightarrow> snd (win_open_ext me gid S) = S"
    "length (m_z S) < MAX_WIN \<Longrightarrow> length (m_z (snd (win_open_ext me gid S))) = Suc (length (m_z S)) \<and>
       m_disp (snd (win_open_ext me gid S)) = snd (display_ack_map me gid (m_disp S))"
proof -
  note a = adoptable [OF cl(1) k, folded gid_def]
  show "length (m_z S) = MAX_WIN \<Longrightarrow> snd (win_open_ext me gid S) = S"
    using a open_full [OF ok] by (simp add: win_open_ext_def Let_def)
  assume "length (m_z S) < MAX_WIN"
  from open_room [OF ok this] obtain i S' where o: "win_open (48 + int (length (m_z S)) * 12) (48 + int (length (m_z S)) * 10) S = (Some i, S')"
    "m_z S' = m_z S @ [i]" "m_disp S' = m_disp S" by blast
  have disp: "m_disp (snd (disp_call f T)) = snd (f (m_disp T))" for f :: "display \<Rightarrow> int \<times> display" and T
    by (simp add: disp_call_def split: prod.splits)
  from a o show "length (m_z (snd (win_open_ext me gid S))) = Suc (length (m_z S)) \<and>
       m_disp (snd (win_open_ext me gid S)) = snd (display_ack_map me gid (m_disp S))"
    by (simp add: win_open_ext_def Let_def disp)
qed

text \<open>A window manager with no free slot and a window to take in asks for the same window for ever.\<close>

definition stuck :: "proc option \<Rightarrow> wm \<Rightarrow> bool" where
  "stuck me S \<longleftrightarrow> wm_ok S \<and> clients_ok (m_disp S) \<and> is_server me (m_disp S) \<and> length (m_z S) = MAX_WIN \<and> unmapped (m_disp S) \<noteq> {}"

lemma stuck_never: "adopt me S = Some S' \<Longrightarrow> \<not> stuck me S"
proof (erule adopt.raw_induct [rotated])
  fix ad me S S'
  assume IH: "\<And>me S S'. ad me S = Some S' \<Longrightarrow> \<not> stuck me S"
    and s: "(let gid = display_next_new me (m_disp S) in if gid < 0 then Some S else ad me (snd (win_open_ext me gid S))) = Some S'"
  show "\<not> stuck me S"
  proof
    assume st: "stuck me S"
    then obtain k where k: "k \<in> unmapped (m_disp S)" "display_next_new me (m_disp S) = gw_id (gwins (m_disp S) ! k)"
      "0 < gw_id (gwins (m_disp S) ! k)" using next_new_cases [of "m_disp S" me] by (auto simp: stuck_def)
    have "snd (win_open_ext me (gw_id (gwins (m_disp S) ! k)) S) = S" using st k(1) by (intro adopt_step(1)) (auto simp: stuck_def)
    with s k(2,3) have "ad me S = Some S'" by (simp add: Let_def)
    with IH st show False by blast
  qed
qed

text \<open>Property C39. While the open windows and the ones to take in fit in the table, the loop that takes in new windows returns with all of them
  open; when they do not, it never returns: a window that finds no slot is never acknowledged and the server names it again.\<close>

theorem wm_adopts_all:
  assumes "wm_ok S" and "clients_ok (m_disp S)" and "is_server me (m_disp S)" and "card (unmapped (m_disp S)) = u"
  shows "if length (m_z S) + u \<le> MAX_WIN
    then \<exists>S'. adopt me S = Some S' \<and> wm_ok S' \<and> unmapped (m_disp S') = {} \<and> length (m_z S') = length (m_z S) + u
    else adopt me S = None"
  using assms
proof (induction u arbitrary: S)
  have fin: "finite (unmapped d)" for d by (simp add: unmapped_def)
  have len: "wm_ok S \<Longrightarrow> length (m_z S) \<le> MAX_WIN" for S
  proof -
    assume ok: "wm_ok S"
    have "set (m_z S) \<subseteq> {..<MAX_WIN}" using ok by (auto simp: wm_ok_iff)
    then show ?thesis using card_mono [of "{..<MAX_WIN}" "set (m_z S)"] distinct_card [OF wm_okD(2) [OF ok]] by simp
  qed
  {
    case 0
    then have "unmapped (m_disp S) = {}" using fin by simp
    with next_new_cases [OF 0(2,3)] have "adopt me S = Some S" by (simp add: adopt.simps Let_def)
    with 0 len [OF 0(1)] \<open>unmapped (m_disp S) = {}\<close> show ?case by simp
  next
    case (Suc u)
    then have ne: "unmapped (m_disp S) \<noteq> {}" by auto
    then obtain k where k: "k \<in> unmapped (m_disp S)" "display_next_new me (m_disp S) = gw_id (gwins (m_disp S) ! k)"
      "0 < gw_id (gwins (m_disp S) ! k)" using next_new_cases [OF Suc.prems(2,3)] by auto
    show ?case
    proof (cases "length (m_z S) = MAX_WIN")
      case True
      with Suc.prems ne have "stuck me S" by (simp add: stuck_def)
      then have "adopt me S = None" using stuck_never by (cases "adopt me S") auto
      with True show ?thesis by simp
    next
      case False
      then have less: "length (m_z S) < MAX_WIN" using len [OF Suc.prems(1)] by simp
      define T where "T = snd (win_open_ext me (gw_id (gwins (m_disp S) ! k)) S)"
      have T: "length (m_z T) = Suc (length (m_z S))" "m_disp T = snd (display_ack_map me (gw_id (gwins (m_disp S) ! k)) (m_disp S))"
        using adopt_step(2) [OF Suc.prems(1,2,3) k(1) less] by (simp_all add: T_def)
      have ok: "wm_ok T" unfolding T_def by (rule open_ext_ok [OF Suc.prems(1)])
      have d: "clients_ok (m_disp T)" "is_server me (m_disp T)" "unmapped (m_disp T) = unmapped (m_disp S) - {k}"
        using ack_step [OF Suc.prems(2,3) k(1)] by (simp_all add: T(2))
      have "card (unmapped (m_disp T)) = u" using Suc.prems(4) k(1) d(3) fin by simp
      moreover have "adopt me S = adopt me T" using k(2,3) by (subst adopt.simps) (simp add: Let_def T_def)
      ultimately show ?thesis using Suc.IH [OF ok d(1,2)] T(1) by (simp split: if_splits)
    qed
  }
qed

section \<open>From the start of the desktop\<close>

lemma wm_init_ok: "wm_ok (wm_init d m icons)"
proof -
  have "the_win (wm_init d m icons) i = blank_slot" if "i < MAX_WIN" for i using that by (simp add: the_win_def wm_init_def)
  moreover have "\<not> n_open blank_slot" by (simp add: blank_slot_def)
  ultimately have "{i. i < MAX_WIN \<and> n_open (the_win (wm_init d m icons) i)} = {}"
    "{i. i < MAX_WIN \<and> n_open (the_win (wm_init d m icons) i) \<and> \<not> n_popup (the_win (wm_init d m icons) i)} = {}" by auto
  then show ?thesis unfolding wm_ok_iff by (simp add: wm_init_def)
qed

text \<open>Property C37. Whatever the mouse, the keyboard and the panel do, whatever state the clients bring the window service into between any two
  steps, and whichever programs exist and start at each of them, the stack of windows holds every open window once, the task
  bar every open window that is no popup, and the focus is an open window.\<close>

theorem wm_lists_ok:
  "wm_ok (fold (\<lambda>(exists, spawned, e). wm_step me exists spawned e) es (wm_init d m icons))"
proof -
  have "wm_ok S \<Longrightarrow> wm_ok (fold (\<lambda>(exists, spawned, e). wm_step me exists spawned e) es S)" for S
    by (induction es arbitrary: S) (simp_all add: step_ok split_beta)
  then show ?thesis using wm_init_ok by blast
qed

text \<open>A desktop with two windows, the second over the first.\<close>

definition two_wins :: wm where
  "two_wins = snd (win_open 20 20 (snd (win_open 10 10 (wm_init gui_sample mm_sample []))))"

lemma two_wins_facts:
  "wm_ok two_wins" "m_z two_wins = [0, 1]" "the_win two_wins 0 = blank_slot\<lparr>n_open := True, n_x := 10, n_y := 10, n_w := 640, n_h := 420, n_minmax := True\<rparr>"
proof -
  define b where "b = wm_init gui_sample mm_sample []"
  define v where "v = (\<lambda>x y. blank_slot\<lparr>n_open := True, n_x := x, n_y := y, n_w := 640, n_h := 420, n_minmax := True\<rparr>)"
  have n: "\<not> n_open blank_slot" "n_open (v x y)" for x y by (simp_all add: v_def blank_slot_def)
  have b: "m_wins b = blank_slot # replicate 7 blank_slot" "m_z b = []" "m_tasks b = []" by (simp_all add: b_def wm_init_def MAX_WIN_def numeral_eq_Suc)
  have "first_from (\<lambda>w. \<not> n_open w) (blank_slot # replicate 7 blank_slot) 0 = Some 0" by (rule first_from_eq) (use n in auto)
  moreover have "first_from (\<lambda>w. \<not> n_open w) (v 10 10 # replicate 7 blank_slot) 0 = Some 1" by (rule first_from_eq) (use n in auto)
  moreover define c where "c = snd (win_open 10 10 b)"
  ultimately have f: "first_from (\<lambda>w. \<not> n_open w) (m_wins b) 0 = Some 0" "m_wins c = v 10 10 # replicate 7 blank_slot \<longrightarrow> first_from (\<lambda>w. \<not> n_open w) (m_wins c) 0 = Some 1"
    using b by simp_all
  have c: "m_wins c = v 10 10 # replicate 7 blank_slot" "m_z c = [0]" using f(1) b by (simp_all add: c_def win_open_def set_w_def v_def)
  have e: "m_wins (snd (win_open 20 20 c)) ! 0 = v 10 10" "m_z (snd (win_open 20 20 c)) = [0, 1]"
    using f(2) c by (simp_all add: win_open_def set_w_def)
  have "wm_ok (snd (win_open x y S))" if "wm_ok S" for x y S using open_ok [OF that surjective_pairing] by blast
  then show "wm_ok two_wins" by (simp add: two_wins_def wm_init_ok)
  show "m_z two_wins = [0, 1]" "the_win two_wins 0 = blank_slot\<lparr>n_open := True, n_x := 10, n_y := 10, n_w := 640, n_h := 420, n_minmax := True\<rparr>"
    using e by (simp_all add: two_wins_def the_win_def b_def [symmetric] c_def [symmetric] v_def)
qed

theorem wm_paint_matches_click_witness: "\<not> win_obscured_at two_wins 0 12 12 \<longleftrightarrow> top_win_at two_wins 12 12 = Some 0"
  by (rule wm_paint_matches_click [OF two_wins_facts(1)])
     (simp_all add: MAX_WIN_def two_wins_facts win_hit_def gui_hit_def blank_slot_def SCREEN_H_def PANEL_H_def)

text \<open>A desktop with all its windows open while the server has one more.\<close>

definition all_open :: wm where
  "all_open = (wm_init gui_sample mm_sample [])\<lparr>m_wins := replicate MAX_WIN (blank_slot\<lparr>n_open := True\<rparr>), m_z := [0..<MAX_WIN],
     m_tasks := [0..<MAX_WIN], m_focus := None, m_cap_id := None\<rparr>"

lemma all_open_ok: "wm_ok all_open"
  by (auto simp: wm_ok_iff all_open_def the_win_def blank_slot_def)

lemma gui_sample_clients: "clients_ok gui_sample" "unmapped gui_sample = {0}"
  using gui_sample_ok(1) by (auto simp: clients_ok_def unmapped_def disp_inv_def gui_sample_win blank_win_def GUI_WIN_MAX_def split: if_splits)

theorem wm_adopts_all_witness:
  "(\<exists>S'. adopt (Some (blank_proc\<lparr>pid := 2\<rparr>)) two_wins = Some S' \<and> wm_ok S' \<and> unmapped (m_disp S') = {} \<and> length (m_z S') = 3) \<and>
   adopt (Some (blank_proc\<lparr>pid := 2\<rparr>)) all_open = None"
proof -
  have srv: "is_server (Some (blank_proc\<lparr>pid := 2\<rparr>)) gui_sample" by (simp add: is_server_def gui_sample_ok(2))
  have d: "m_disp two_wins = gui_sample" "m_disp all_open = gui_sample" "m_z all_open = [0..<8]"
    by (simp_all add: two_wins_def all_open_def win_open_def wm_init_def MAX_WIN_def split: option.splits)
  have u: "card (unmapped gui_sample) = 1" by (simp add: gui_sample_clients)
  show ?thesis
    using wm_adopts_all [of two_wins "Some (blank_proc\<lparr>pid := 2\<rparr>)" 1] wm_adopts_all [of all_open "Some (blank_proc\<lparr>pid := 2\<rparr>)" 1]
      two_wins_facts all_open_ok gui_sample_clients(1) srv u d by (simp add: MAX_WIN_def eval_nat_numeral)
qed

end
