(* ===== verification/Proc.thy ===== *)
theory Proc
  imports Display
begin

text \<open>
  \<^verbatim>\<open>kernel/proc/proc.c\<close>: the process table and its scheduler. A process runs while its parent is
  suspended inside \<^verbatim>\<open>proc_run_blocking\<close>; \<open>block_stack\<close> is the stack of those suspended calls, its
  head the innermost one. The code saves the frame pointer of the suspended call and returns through
  it later; the record keeps what that frame holds, the slot that was being run. Entering user code is a
  value (\<open>Jump\<close>, \<open>Resume\<close>), and so is coming back. The saved stack pointer \<^verbatim>\<open>kret_esp\<close> is only ever
  saved and restored and is left out.
\<close>

section \<open>State\<close>

definition BLOCK_STACK_MAX :: nat where "BLOCK_STACK_MAX = 8"

record block =
  b_prev :: "nat option"
  b_child :: nat

record kern =
  procs :: "proc list"
  current :: "nat option"
  next_pid :: int
  fg_pid :: int
  spawn_cons_next :: bool
  spawn_redir_in :: int
  spawn_redir_out :: int
  resume_yielded :: bool
  block_stack :: "block list"
  tty_fg :: int
  tss_esp0 :: u32
  boot_stack :: u32
  kvfs :: vfs
  kdisp :: display

abbreviation kmm :: "kern \<Rightarrow> mm" where "kmm k \<equiv> vmm (kvfs k)"

abbreviation set_kmm :: "mm \<Rightarrow> kern \<Rightarrow> kern" where
  "set_kmm m k \<equiv> k\<lparr>kvfs := (kvfs k)\<lparr>vmm := m\<rparr>\<rparr>"

abbreviation upd_proc :: "nat \<Rightarrow> (proc \<Rightarrow> proc) \<Rightarrow> kern \<Rightarrow> kern" where
  "upd_proc i f k \<equiv> k\<lparr>procs := (procs k)[i := f (procs k ! i)]\<rparr>"

definition tty_set_fg :: "int \<Rightarrow> kern \<Rightarrow> kern" where
  "tty_set_fg p k = k\<lparr>tty_fg := p\<rparr>"

definition proc_init :: "kern \<Rightarrow> kern" where
  "proc_init k =
     k\<lparr>procs := (replicate PROC_MAX blank_proc)[0 := blank_proc\<lparr>used := True, pid := next_pid k, ppid := 0,
           state := PROC_RUNNING, pname := strncpy_val ''zerosd'' PROC_NAME, cwd := strncpy_val ''/sys'' PROC_CWD\<rparr>],
       current := Some 0, next_pid := next_pid k + 1, fg_pid := next_pid k, spawn_cons_next := False,
       resume_yielded := False, block_stack := []\<rparr>"

section \<open>Lookup\<close>

definition proc_get :: "int \<Rightarrow> kern \<Rightarrow> nat option" where
  "proc_get p k = first_from (\<lambda>q. used q \<and> pid q = p) (procs k) 0"

definition proc_get_by_index :: "int \<Rightarrow> kern \<Rightarrow> nat option" where
  "proc_get_by_index i k =
     (if i < 0 \<or> i \<ge> int PROC_MAX \<or> \<not> used (procs k ! nat i) then None else Some (nat i))"

text \<open>\<^verbatim>\<open>proc_current()\<close> as the record the display code reads.\<close>

definition proc_current :: "kern \<Rightarrow> proc option" where
  "proc_current k = map_option ((!) (procs k)) (current k)"

definition alloc_proc :: "kern \<Rightarrow> (nat \<times> kern) option" where
  "alloc_proc k =
     (case first_from (\<lambda>q. \<not> used q) (procs k) 1 of None \<Rightarrow> None
      | Some i \<Rightarrow> Some (i, upd_proc i (\<lambda>_. blank_proc\<lparr>used := True\<rparr>) k))"

definition proc_set_fg :: "int \<Rightarrow> kern \<Rightarrow> kern" where
  "proc_set_fg p k = tty_set_fg p (k\<lparr>fg_pid := p\<rparr>)"

definition proc_set_spawn_redir :: "int \<Rightarrow> int \<Rightarrow> kern \<Rightarrow> kern" where
  "proc_set_spawn_redir i out k = k\<lparr>spawn_redir_in := i, spawn_redir_out := out\<rparr>"

definition proc_set_spawn_cons :: "int \<Rightarrow> kern \<Rightarrow> kern" where
  "proc_set_spawn_cons on k =
     (let k = k\<lparr>spawn_cons_next := (on \<noteq> 0)\<rparr> in
      case current k of None \<Rightarrow> k | Some c \<Rightarrow> upd_proc c (\<lambda>q. q\<lparr>cons_host := (on \<noteq> 0)\<rparr>) k)"

text \<open>The \<open>n\<close>-th used process: its index.\<close>

fun psinfo_loop :: "proc list \<Rightarrow> nat \<Rightarrow> int \<Rightarrow> int \<Rightarrow> nat option" where
  "psinfo_loop [] i seen n = None"
| "psinfo_loop (q # qs) i seen n =
     (if \<not> used q then psinfo_loop qs (Suc i) seen n
      else if seen = n then Some i
      else psinfo_loop qs (Suc i) (seen + 1) n)"

definition proc_psinfo :: "int \<Rightarrow> int \<Rightarrow> kern \<Rightarrow> (int \<times> int \<times> int \<times> string) option" where
  "proc_psinfo n namelen k =
     (if n < 0 then None
      else case psinfo_loop (procs k) 0 0 n of None \<Rightarrow> None
        | Some i \<Rightarrow> let q = procs k ! i in
            Some (pid q, ppid q, pstate_code (state q), if namelen > 0 then strncpy_val (pname q) (nat namelen) else []))"

section \<open>Images that share a link address\<close>

text \<open>The kernel runs without paging: images linked at one address take turns in it.\<close>

definition image_end :: "proc \<Rightarrow> u32" where
  "image_end q = image q + of_nat (image_pages q * PAGE_SIZE)"

definition image_bytes :: "proc \<Rightarrow> nat" where
  "image_bytes q = (image_pages q * PAGE_SIZE) mod 2 ^ 32"

definition apart :: "u32 \<Rightarrow> u32 \<Rightarrow> proc \<Rightarrow> bool" where
  "apart lo hi q \<longleftrightarrow> lo \<ge> image_end q \<or> hi \<le> image q"

text \<open>Copy an image out into fresh pages; \<open>False\<close> when there are none.\<close>

definition swap_out :: "nat \<Rightarrow> kern \<Rightarrow> bool \<times> kern" where
  "swap_out i k =
     (let q = procs k ! i in
      case mm_alloc_pages (image_pages q) (kmm k) of
        (None, m) \<Rightarrow> (False, upd_proc i (\<lambda>q. q\<lparr>image_shadow := 0\<rparr>) (set_kmm m k))
      | (Some s, m) \<Rightarrow>
          (True, upd_proc i (\<lambda>q. q\<lparr>image_shadow := s, image_evicted := True\<rparr>)
             (set_kmm (m\<lparr>mem := kmemcpy (mem m) s (image q) (image_bytes q)\<rparr>) k)))"

primrec evict_loop :: "u32 \<Rightarrow> u32 \<Rightarrow> nat list \<Rightarrow> kern \<Rightarrow> bool \<times> kern" where
  "evict_loop lo hi [] k = (True, k)"
| "evict_loop lo hi (i # is) k =
     (let q = procs k ! i in
      if \<not> used q \<or> image q = 0 \<or> image_pages q = 0 then evict_loop lo hi is k
      else if image_evicted q then evict_loop lo hi is k
      else if state q = PROC_ZOMBIE then evict_loop lo hi is k
      else if apart lo hi q then evict_loop lo hi is k
      else let (ok, k) = swap_out i k in if ok then evict_loop lo hi is k else (False, k))"

definition proc_evict_range :: "u32 \<Rightarrow> u32 \<Rightarrow> kern \<Rightarrow> int \<times> kern" where
  "proc_evict_range lo hi k =
     (let (ok, k) = evict_loop lo hi [0..<PROC_MAX] k in (if ok then 0 else -1, k))"

primrec displace_loop :: "nat \<Rightarrow> nat list \<Rightarrow> kern \<Rightarrow> bool \<times> kern" where
  "displace_loop p [] k = (True, k)"
| "displace_loop p (i # is) k =
     (let q = procs k ! i; self = procs k ! p in
      if \<not> used q \<or> i = p \<or> image q = 0 then displace_loop p is k
      else if image_evicted q \<or> state q = PROC_ZOMBIE then displace_loop p is k
      else if apart (image self) (image_end self) q then displace_loop p is k
      else if image_shadow q \<noteq> 0 then displace_loop p is k
      else let (ok, k) = swap_out i k in if ok then displace_loop p is k else (False, k))"

definition proc_ensure_resident :: "nat option \<Rightarrow> kern \<Rightarrow> kern" where
  "proc_ensure_resident po k =
     (case po of None \<Rightarrow> k
      | Some p \<Rightarrow>
        let self = procs k ! p in
        if image self = 0 \<or> image_pages self = 0 \<or> \<not> image_evicted self then k
        else if image_shadow self = 0 then k
        else let (ok, k) = displace_loop p [0..<PROC_MAX] k in
          if \<not> ok then k
          else let q = procs k ! p; m = kmm k;
                   m = m\<lparr>mem := kmemcpy (mem m) (image q) (image_shadow q) (image_bytes q)\<rparr>;
                   m = mm_free_pages (image_shadow q) (image_pages q) m
               in upd_proc p (\<lambda>q. q\<lparr>image_shadow := 0, image_evicted := False\<rparr>) (set_kmm m k))"

section \<open>Consoles\<close>

definition proc_cons_repair :: "nat option \<Rightarrow> kern \<Rightarrow> int \<times> kern" where
  "proc_cons_repair po k =
     (case po of None \<Rightarrow> (0, k)
      | Some p \<Rightarrow>
        if cons_enable (procs k ! p) then (1, k)
        else if cons_forbid (procs k ! p) then (0, k)
        else case block_stack k of [] \<Rightarrow> (0, k)
          | b # bs \<Rightarrow>
            (case b_prev b of None \<Rightarrow> (0, k)
             | Some w \<Rightarrow>
               if \<not> cons_host (procs k ! w) then (0, k)
               else (1, upd_proc p (\<lambda>q. q\<lparr>cons_enable := True, cons_sink := (if cons_sink q = 0 then pid q else cons_sink q)\<rparr>) k)))"

text \<open>The slot whose output buffer receives what \<open>p\<close> prints.\<close>

definition cons_sink_slot :: "nat \<Rightarrow> kern \<Rightarrow> nat" where
  "cons_sink_slot p k =
     (if cons_sink (procs k ! p) \<noteq> 0 then
        (case proc_get (cons_sink (procs k ! p)) k of None \<Rightarrow> p | Some s \<Rightarrow> s)
      else p)"

definition cons_put :: "char \<Rightarrow> proc \<Rightarrow> bool \<times> proc" where
  "cons_put c q =
     (if length (cons_out q) + 1 \<ge> PROC_CONS_OUT then (False, q) else (True, q\<lparr>cons_out := cons_out q @ [c]\<rparr>))"

definition proc_cons_putc :: "nat option \<Rightarrow> char \<Rightarrow> kern \<Rightarrow> int \<times> kern" where
  "proc_cons_putc po c k =
     (case po of None \<Rightarrow> (-1, k)
      | Some p \<Rightarrow>
        if \<not> cons_enable (procs k ! p) then (-1, k)
        else let s = cons_sink_slot p k; (ok, q) = cons_put c (procs k ! s)
             in if ok then (0, upd_proc s (\<lambda>_. q) k) else (-1, k))"

fun cons_write_loop :: "nat option \<Rightarrow> string \<Rightarrow> kern \<Rightarrow> nat \<times> kern" where
  "cons_write_loop po [] k = (0, k)"
| "cons_write_loop po (c # cs) k =
     (let (r, k) = proc_cons_putc po c k
      in if r < 0 then (0, k) else let (n, k) = cons_write_loop po cs k in (Suc n, k))"

text \<open>\<open>s\<close> is the \<open>n\<close> bytes of the buffer.\<close>

definition proc_cons_write :: "nat option \<Rightarrow> string \<Rightarrow> kern \<Rightarrow> int \<times> kern" where
  "proc_cons_write po s k =
     (case po of None \<Rightarrow> (-1, k)
      | Some p \<Rightarrow>
        if \<not> cons_enable (procs k ! p) \<or> s = [] then (-1, k)
        else let (n, k) = cons_write_loop po s k in (int n, k))"

text \<open>The bytes read, or \<open>None\<close> for the error.\<close>

definition proc_cons_read :: "int \<Rightarrow> int \<Rightarrow> kern \<Rightarrow> string option \<times> kern" where
  "proc_cons_read p n k =
     (case proc_get p k of None \<Rightarrow> (None, k)
      | Some i \<Rightarrow>
        if n \<le> 0 then (None, k)
        else let out = cons_out (procs k ! i) in
          (Some (take (nat n) out), upd_proc i (\<lambda>q. q\<lparr>cons_out := drop (nat n) out\<rparr>) k))"

primrec cons_input_loop :: "nat \<Rightarrow> nat \<Rightarrow> kern \<Rightarrow> nat" where
  "cons_input_loop 0 t k = t"
| "cons_input_loop (Suc depth) t k =
     (case first_from (\<lambda>q. used q \<and> ppid q = pid (procs k ! t) \<and> cons_enable q \<and> state q \<noteq> PROC_ZOMBIE) (procs k) 0 of
        None \<Rightarrow> t
      | Some child \<Rightarrow> cons_input_loop depth child k)"

definition cons_input_target :: "nat option \<Rightarrow> kern \<Rightarrow> nat option" where
  "cons_input_target po k =
     (case po of None \<Rightarrow> None
      | Some p \<Rightarrow> let t = cons_input_loop PROC_MAX p k in if cons_enable (procs k ! t) then Some t else None)"

definition cons_in_compact :: "proc \<Rightarrow> proc" where
  "cons_in_compact q =
     (if cons_in_pos q = 0 then q
      else q\<lparr>cons_in_keys := drop (cons_in_pos q) (cons_in_keys q), cons_in_pos := 0\<rparr>)"

definition cons_key :: "int \<Rightarrow> proc \<Rightarrow> bool \<times> proc" where
  "cons_key key q =
     (if length (cons_in_keys q) + 1 \<ge> PROC_CONS_IN then (False, q)
      else (True, q\<lparr>cons_in_keys := cons_in_keys q @ [key]\<rparr>))"

definition proc_cons_write_in :: "int \<Rightarrow> string \<Rightarrow> kern \<Rightarrow> int \<times> kern" where
  "proc_cons_write_in p s k =
     (case cons_input_target (proc_get p k) k of None \<Rightarrow> (-1, k)
      | Some t \<Rightarrow>
        if s = [] then (-1, k)
        else let (n, q) = offer cons_key (map of_char s) (cons_in_compact (procs k ! t))
             in (int n, upd_proc t (\<lambda>_. q) k))"

definition proc_cons_putkey :: "int \<Rightarrow> int \<Rightarrow> kern \<Rightarrow> int \<times> kern" where
  "proc_cons_putkey p key k =
     (case cons_input_target (proc_get p k) k of None \<Rightarrow> (-1, k)
      | Some t \<Rightarrow>
        let (ok, q) = cons_key key (cons_in_compact (procs k ! t))
        in (if ok then 1 else -1, upd_proc t (\<lambda>_. q) k))"

definition cons_take :: "proc \<Rightarrow> int option \<times> proc" where
  "cons_take q =
     (if cons_in_pos q \<ge> length (cons_in_keys q) then (None, q)
      else let c = cons_in_keys q ! cons_in_pos q; pos = cons_in_pos q + 1 in
        if pos \<ge> length (cons_in_keys q) then (Some c, q\<lparr>cons_in_keys := [], cons_in_pos := 0\<rparr>)
        else (Some c, q\<lparr>cons_in_pos := pos\<rparr>))"

definition proc_cons_getc :: "nat option \<Rightarrow> kern \<Rightarrow> int option \<times> kern" where
  "proc_cons_getc po k =
     (case po of None \<Rightarrow> (None, k)
      | Some p \<Rightarrow>
        if \<not> cons_enable (procs k ! p) then (None, k)
        else let (c, q) = cons_take (procs k ! p) in (c, upd_proc p (\<lambda>_. q) k))"

section \<open>Ending a process\<close>

text \<open>\<^verbatim>\<open>proc_reap\<close>: give back what a zombie holds and free its slot.\<close>

definition free_nz :: "u32 \<Rightarrow> u32 \<Rightarrow> nat \<Rightarrow> mm \<Rightarrow> mm" where
  "free_nz test a n m = (if test \<noteq> 0 then mm_free_pages a n m else m)"

definition reap_slot :: "nat \<Rightarrow> kern \<Rightarrow> kern" where
  "reap_slot i k =
     (let q = procs k ! i; m = kmm k;
          m = free_nz (image_shadow q) (image_shadow q) (image_pages q) m;
          m = free_nz (ustack q) (ustack q) (ustack_pages q) m;
          m = free_nz (kstack_top q) (kstack_top q - of_nat (4 * PAGE_SIZE)) 4 m
      in upd_proc i (\<lambda>q. q\<lparr>used := False\<rparr>) (set_kmm m k))"

definition proc_reap :: "int \<Rightarrow> kern \<Rightarrow> int \<times> kern" where
  "proc_reap p k =
     (case proc_get p k of None \<Rightarrow> (-1, k)
      | Some i \<Rightarrow> if state (procs k ! i) \<noteq> PROC_ZOMBIE then (-1, k) else (0, reap_slot i k))"

definition destroy_windows :: "int \<Rightarrow> kern \<Rightarrow> kern" where
  "destroy_windows p k =
     (let (d, m) = display_destroy_pid p (kdisp k, kmm k) in set_kmm m (k\<lparr>kdisp := d\<rparr>))"

definition make_zombie :: "nat \<Rightarrow> kern \<Rightarrow> kern" where
  "make_zombie i k =
     upd_proc i (\<lambda>q. q\<lparr>exit_code := 137, state := PROC_ZOMBIE, saved_kframe := 0, cons_enable := False,
       cons_out := [], cons_in_keys := [], cons_in_pos := 0\<rparr>) k"

text \<open>
  \<^verbatim>\<open>proc_kill_one\<close> recurses into the children; \<open>fuel\<close> bounds the depth of the recursion (\<open>None\<close> when it
  runs out) and the inner function is the loop over the table. After the recursive call the loop
  reaps by the child's pid, read before it.
\<close>

fun kill_one :: "nat \<Rightarrow> nat \<Rightarrow> kern \<Rightarrow> kern option"
  and kill_children :: "nat \<Rightarrow> nat \<Rightarrow> nat list \<Rightarrow> kern \<Rightarrow> kern option" where
  "kill_one 0 p k = None"
| "kill_one (Suc fuel) p k =
     (let q = procs k ! p in
      if \<not> used q \<or> pid q \<le> 1 then Some k
      else if state q = PROC_ZOMBIE then Some k
      else case kill_children fuel p [0..<PROC_MAX] k of None \<Rightarrow> None
        | Some k \<Rightarrow> Some (make_zombie p (destroy_windows (pid (procs k ! p)) k)))"
| "kill_children fuel p [] k = Some k"
| "kill_children fuel p (i # is) k =
     (let q = procs k ! i in
      if used q \<and> ppid q = pid (procs k ! p) then
        (case kill_one fuel i k of None \<Rightarrow> None
         | Some k \<Rightarrow>
           kill_children fuel p is
             (if used (procs k ! i) \<and> state (procs k ! i) = PROC_ZOMBIE then snd (proc_reap (pid q) k) else k))
      else kill_children fuel p is k)"

definition proc_kill :: "nat \<Rightarrow> int \<Rightarrow> kern \<Rightarrow> (int \<times> kern) option" where
  "proc_kill fuel p k =
     (case (proc_get p k, current k) of
        (Some i, Some c) \<Rightarrow>
          if p \<le> 1 \<or> p = pid (procs k ! c) then Some (-1, k)
          else if state (procs k ! i) = PROC_ZOMBIE then Some (0, k)
          else map_option (Pair 0) (kill_one fuel i k)
      | _ \<Rightarrow> Some (-1, k))"

section \<open>Running and coming back\<close>

text \<open>How user code is entered: a jump, or the interrupted system call's frame.\<close>

datatype entry_point = Jump u32 u32 u32 | Resume u32

datatype flow = Returns int | Runs nat entry_point

definition proc_run_blocking :: "nat option \<Rightarrow> kern \<Rightarrow> flow \<times> kern" where
  "proc_run_blocking po k =
     (case po of None \<Rightarrow> (Returns (-1), k)
      | Some p \<Rightarrow>
        if length (block_stack k) \<ge> BLOCK_STACK_MAX then (Returns (-1), k)
        else let prev = current k;
                 k = (case prev of None \<Rightarrow> k | Some c \<Rightarrow> upd_proc c (\<lambda>q. q\<lparr>state := PROC_READY\<rparr>) k);
                 k = upd_proc p (\<lambda>q. q\<lparr>state := PROC_RUNNING, block_parent := prev\<rparr>) (k\<lparr>current := Some p\<rparr>);
                 k = tty_set_fg (pid (procs k ! p)) (k\<lparr>fg_pid := pid (procs k ! p)\<rparr>);
                 k = k\<lparr>tss_esp0 := kstack_top (procs k ! p), resume_yielded := False\<rparr>;
                 eip = (if user_eip (procs k ! p) \<noteq> 0 then user_eip (procs k ! p) else entry (procs k ! p));
                 esp = user_esp (procs k ! p);
                 k = upd_proc p (\<lambda>q. q\<lparr>started := True\<rparr>) k;
                 k = proc_ensure_resident (Some p) k
             in if image_evicted (procs k ! p) then
                  let k = k\<lparr>current := prev\<rparr>;
                      k = (case prev of None \<Rightarrow> k | Some c \<Rightarrow> upd_proc c (\<lambda>q. q\<lparr>state := PROC_RUNNING\<rparr>) k)
                  in (Returns (-2), upd_proc p (\<lambda>q. q\<lparr>state := PROC_READY\<rparr>) k)
                else let k = k\<lparr>block_stack := \<lparr>b_prev = prev, b_child = p\<rparr> # block_stack k\<rparr> in
                  if saved_kframe (procs k ! p) \<noteq> 0 then
                    let f = saved_kframe (procs k ! p); m = kmm k;
                        m = m\<lparr>mem := mem_set_word (mem m) (f + 28) (user_eax (procs k ! p))\<rparr>
                    in (Runs p (Resume f), upd_proc p (\<lambda>q. q\<lparr>saved_kframe := 0\<rparr>) (set_kmm m k))
                  else (Runs p (Jump eip esp (user_eax (procs k ! p))), k))"

text \<open>
  \<^verbatim>\<open>proc_return_to_kernel\<close> with a suspended call: that call of \<^verbatim>\<open>proc_run_blocking\<close>, for the child in
  the pair, returns the code in the pair. Without one it returns to its own caller (\<open>None\<close>).
\<close>

definition proc_return_to_kernel :: "kern \<Rightarrow> (nat \<times> int) option \<times> kern" where
  "proc_return_to_kernel k =
     (case block_stack k of [] \<Rightarrow> (None, k)
      | b # bs \<Rightarrow>
        let code = (if resume_yielded k then -2 else case current k of None \<Rightarrow> 0 | Some c \<Rightarrow> exit_code (procs k ! c));
            k = k\<lparr>block_stack := bs, resume_yielded := False, current := b_prev b\<rparr>
        in case b_prev b of
             None \<Rightarrow> (Some (b_child b, code), k\<lparr>tss_esp0 := boot_stack k\<rparr>)
           | Some p \<Rightarrow>
             let k = k\<lparr>tss_esp0 := (if kstack_top (procs k ! p) \<noteq> 0 then kstack_top (procs k ! p) else boot_stack k)\<rparr>;
                 k = tty_set_fg (pid (procs k ! p)) (k\<lparr>fg_pid := pid (procs k ! p)\<rparr>);
                 k = upd_proc p (\<lambda>q. q\<lparr>state := PROC_RUNNING\<rparr>) k
             in (Some (b_child b, code), proc_ensure_resident (Some p) k))"

definition proc_exit :: "int \<Rightarrow> kern \<Rightarrow> (nat \<times> int) option \<times> kern" where
  "proc_exit code k =
     (case current k of None \<Rightarrow> (None, k)
      | Some c \<Rightarrow>
        if pid (procs k ! c) = 1 then (None, k)
        else proc_return_to_kernel
          ((upd_proc c (\<lambda>q. q\<lparr>exit_code := code, state := PROC_ZOMBIE, saved_kframe := 0\<rparr>) k)\<lparr>resume_yielded := False\<rparr>))"

definition proc_yield_to_parent :: "u32 \<Rightarrow> kern \<Rightarrow> (nat \<times> int) option \<times> kern" where
  "proc_yield_to_parent frame k =
     (case current k of None \<Rightarrow> (None, k)
      | Some c \<Rightarrow>
        if block_stack k = [] then (None, k)
        else let w = (\<lambda>i. mem_word (mem (kmm k)) (frame + 4 * i)) in
          proc_return_to_kernel
            ((upd_proc c (\<lambda>q. q\<lparr>user_eip := w 12, user_esp := w 15, user_eax := w 7, saved_kframe := frame,
                state := PROC_READY\<rparr>) k)\<lparr>resume_yielded := True\<rparr>))"

text \<open>\<^verbatim>\<open>proc_wait\<close> up to the point where the child runs, and what follows when \<^verbatim>\<open>proc_run_blocking\<close> returns.\<close>

definition wait_child :: "int \<Rightarrow> kern \<Rightarrow> nat option" where
  "wait_child p k =
     (if p > 0 then proc_get p k
      else case current k of None \<Rightarrow> None
        | Some c \<Rightarrow> first_from (\<lambda>q. used q \<and> ppid q = pid (procs k ! c) \<and>
            state q \<in> {PROC_READY, PROC_RUNNING, PROC_ZOMBIE}) (procs k) 0)"

text \<open>The pid (or -2) and the status.\<close>

definition wait_collect :: "nat \<Rightarrow> kern \<Rightarrow> (int \<times> int) \<times> kern" where
  "wait_collect i k =
     (let q = procs k ! i in
      if state q \<noteq> PROC_ZOMBIE then ((-2, -2), k)
      else ((pid q, exit_code q), snd (proc_reap (pid q) k)))"

datatype wait_result = Waited "(int \<times> int) option" | Suspended nat entry_point

definition proc_wait :: "int \<Rightarrow> kern \<Rightarrow> wait_result \<times> kern" where
  "proc_wait p k =
     (case wait_child p k of None \<Rightarrow> (Waited None, k)
      | Some i \<Rightarrow>
        if state (procs k ! i) \<noteq> PROC_ZOMBIE then
          (case proc_run_blocking (Some i) k of
             (Runs c e, k) \<Rightarrow> (Suspended c e, k)
           | (Returns r, k) \<Rightarrow> apfst (Waited \<circ> Some) (wait_collect i k))
        else apfst (Waited \<circ> Some) (wait_collect i k))"

definition sched_on_timer :: "kern \<Rightarrow> kern" where
  "sched_on_timer k =
     (case current k of None \<Rightarrow> k
      | Some c \<Rightarrow> if state (procs k ! c) = PROC_RUNNING then upd_proc c (\<lambda>q. q\<lparr>need_preempt := True\<rparr>) k else k)"

end
