(* ===== verification/Elf.thy ===== *)
theory Elf
  imports Proc
begin

text \<open>
  \<^verbatim>\<open>kernel/proc/elf.c\<close>: loading an executable that lies in memory at \<open>data\<close>, \<open>size\<close> bytes long. All
  offsets and sizes are the 32-bit values of the headers, with their wrap-around.
\<close>

section \<open>Headers\<close>

definition mem_half :: "memory \<Rightarrow> u32 \<Rightarrow> u16" where
  "mem_half m a = ucast (m a) OR push_bit 8 (ucast (m (a + 1)))"

definition ehdr_size :: nat where "ehdr_size = 52"
definition phdr_size :: nat where "phdr_size = 32"

definition e_type :: "memory \<Rightarrow> u32 \<Rightarrow> u16" where "e_type m a = mem_half m (a + 16)"
definition e_machine :: "memory \<Rightarrow> u32 \<Rightarrow> u16" where "e_machine m a = mem_half m (a + 18)"
definition e_entry :: "memory \<Rightarrow> u32 \<Rightarrow> u32" where "e_entry m a = mem_word m (a + 24)"
definition e_phoff :: "memory \<Rightarrow> u32 \<Rightarrow> u32" where "e_phoff m a = mem_word m (a + 28)"
definition e_phnum :: "memory \<Rightarrow> u32 \<Rightarrow> u16" where "e_phnum m a = mem_half m (a + 44)"

definition elf_magic :: "memory \<Rightarrow> u32 \<Rightarrow> bool" where
  "elf_magic m a \<longleftrightarrow> m a = 0x7F \<and> m (a + 1) = 0x45 \<and> m (a + 2) = 0x4C \<and> m (a + 3) = 0x46"

text \<open>The program headers, read from memory at \<open>ph\<close>.\<close>

record phdr =
  p_type :: u32
  p_offset :: u32
  p_vaddr :: u32
  p_filesz :: u32
  p_memsz :: u32

definition phdr_at :: "memory \<Rightarrow> u32 \<Rightarrow> nat \<Rightarrow> phdr" where
  "phdr_at m ph i =
     (let a = ph + of_nat (i * phdr_size) in
      \<lparr>p_type = mem_word m a, p_offset = mem_word m (a + 4), p_vaddr = mem_word m (a + 8),
        p_filesz = mem_word m (a + 16), p_memsz = mem_word m (a + 20)\<rparr>)"

definition PT_LOAD :: u32 where "PT_LOAD = 1"
definition ET_EXEC :: u16 where "ET_EXEC = 2"
definition EM_386 :: u16 where "EM_386 = 3"

section \<open>Loading\<close>

text \<open>The first pass: the address range of the loadable segments, or \<open>None\<close> for one outside user space.\<close>

fun span_loop :: "phdr list \<Rightarrow> u32 \<times> u32 \<Rightarrow> (u32 \<times> u32) option" where
  "span_loop [] r = Some r"
| "span_loop (p # ps) (lo, hi) =
     (if p_type p \<noteq> PT_LOAD then span_loop ps (lo, hi)
      else if p_vaddr p < 0x02000000 \<or> p_vaddr p \<ge> 0x08000000 then None
      else span_loop ps
        (if p_vaddr p < lo then p_vaddr p else lo,
         if p_vaddr p + p_memsz p > hi then p_vaddr p + p_memsz p else hi))"

definition load_segment :: "u32 \<Rightarrow> phdr \<Rightarrow> memory \<Rightarrow> memory" where
  "load_segment data p m =
     (let m = kmemcpy m (p_vaddr p) (data + p_offset p) (unat (p_filesz p)) in
      if p_memsz p > p_filesz p then
        kmemset m (p_vaddr p + p_filesz p) 0 (unat (p_memsz p - p_filesz p))
      else m)"

text \<open>The second pass, which reads each header when it gets to it.\<close>

primrec load_loop :: "u32 \<Rightarrow> u32 \<Rightarrow> u32 \<Rightarrow> nat list \<Rightarrow> memory \<Rightarrow> bool \<times> memory" where
  "load_loop data size' ph [] m = (True, m)"
| "load_loop data size' ph (i # is) m =
     (let p = phdr_at m ph i in
      if p_type p \<noteq> PT_LOAD then load_loop data size' ph is m
      else if p_offset p + p_filesz p > size' then (False, m)
      else load_loop data size' ph is (load_segment data p m))"

definition elf_headers_ok :: "u32 \<Rightarrow> u32 \<Rightarrow> memory \<Rightarrow> bool" where
  "elf_headers_ok data size' m \<longleftrightarrow> \<not> size' < of_nat ehdr_size \<and> elf_magic m data \<and>
     e_type m data = ET_EXEC \<and> e_machine m data = EM_386 \<and>
     \<not> e_phoff m data + ucast (e_phnum m data) * of_nat phdr_size > size'"

text \<open>\<^verbatim>\<open>pages = (span + PAGE_SIZE - 1) / PAGE_SIZE\<close> in 32-bit arithmetic.\<close>

definition span_pages :: "u32 \<Rightarrow> nat" where
  "span_pages span = unat ((span + of_nat PAGE_SIZE - 1) div of_nat PAGE_SIZE)"

record loaded =
  l_entry :: u32
  l_image :: u32
  l_pages :: nat
  l_brk :: u32

definition elf_load :: "u32 \<Rightarrow> u32 \<Rightarrow> kern \<Rightarrow> (int + loaded) \<times> kern" where
  "elf_load data size' k =
     (let m = mem (kmm k); ph = data + e_phoff m data; n = unat (e_phnum m data) in
      if \<not> elf_headers_ok data size' m then (Inl (-1), k)
      else case span_loop (map (phdr_at m ph) [0..<n]) (0xFFFFFFFF, 0) of None \<Rightarrow> (Inl (-1), k)
        | Some (lo, hi) \<Rightarrow>
          if lo = 0xFFFFFFFF \<or> hi \<le> lo then (Inl (-1), k)
          else let (r, k) = proc_evict_range lo hi k in
            if r < 0 then (Inl (-2), k)
            else let pages = span_pages (hi - lo);
                     mm' = kmm k;
                     m1 = kmemset (mem mm') lo 0 ((pages * PAGE_SIZE) mod 2 ^ 32);
                     (ok, m2) = load_loop data size' ph [0..<n] m1;
                     k = set_kmm (mm'\<lparr>mem := m2\<rparr>) k
                 in if \<not> ok then (Inl (-1), k)
                    else (Inr \<lparr>l_entry = e_entry m2 data, l_image = lo, l_pages = pages, l_brk = hi\<rparr>, k))"

section \<open>Starting a process\<close>

definition USER_STACK_SIZE :: nat where "USER_STACK_SIZE = 0x20000"

text \<open>Read the file into fresh pages, load it, and give the pages back.\<close>

definition load_file :: "string \<Rightarrow> kern \<Rightarrow> (int + loaded) \<times> kern" where
  "load_file path k =
     (case vfs_size path (kvfs k) of Inl e \<Rightarrow> (Inl (-1), k)
      | Inr sz \<Rightarrow>
        let npages = (sz + PAGE_SIZE - 1) div PAGE_SIZE; npages = (if npages = 0 then 1 else npages) in
        case mm_alloc_pages npages (kmm k) of (None, m) \<Rightarrow> (Inl (-1), set_kmm m k)
        | (Some file, m) \<Rightarrow>
          let k = set_kmm m k in
          case vfs_read_file path sz (kvfs k) of
            Inl e \<Rightarrow> (Inl (-1), set_kmm (mm_free_pages file npages (kmm k)) k)
          | Inr bs \<Rightarrow>
            let k = set_kmm ((kmm k)\<lparr>mem := mem_store (mem (kmm k)) file bs\<rparr>) k in
            if length bs \<noteq> sz then (Inl (-1), set_kmm (mm_free_pages file npages (kmm k)) k)
            else let (r, k) = elf_load file (of_nat sz) k
                 in (r, set_kmm (mm_free_pages file npages (kmm k)) k))"

text \<open>The text after the last slash.\<close>

definition base_name :: "string \<Rightarrow> string" where
  "base_name path = rev (takeWhile (\<lambda>c. c \<noteq> slash) (rev (cstr path)))"

text \<open>The console a new process gets: whether it has one and whose buffer takes its output.\<close>

definition inherit_cons :: "int \<Rightarrow> kern \<Rightarrow> bool \<times> int" where
  "inherit_cons p k =
     (let cur = proc_current k; enabled = (case cur of None \<Rightarrow> False | Some c \<Rightarrow> cons_enable c);
          host = (case cur of None \<Rightarrow> False | Some c \<Rightarrow> cons_host c) in
      if spawn_cons_next k \<or> enabled \<or> host then
        (True, if spawn_cons_next k then p
               else case cur of None \<Rightarrow> p
                 | Some c \<Rightarrow> if cons_enable c then if cons_sink c \<noteq> 0 then cons_sink c else pid c else p)
      else (False, 0))"

definition fill_proc :: "nat \<Rightarrow> string \<Rightarrow> loaded \<Rightarrow> u32 \<Rightarrow> u32 \<Rightarrow> kern \<Rightarrow> kern" where
  "fill_proc i path l stk ks k =
     (let new = next_pid k; k = k\<lparr>next_pid := new + 1\<rparr>; (ce, sink) = inherit_cons new k;
          wd = (case proc_current k of None \<Rightarrow> [] | Some c \<Rightarrow> cwd c);
          sp = stk + of_nat USER_STACK_SIZE - 32;
          k = upd_proc i (\<lambda>q. q\<lparr>pid := new, ppid := (case proc_current k of None \<Rightarrow> 1 | Some c \<Rightarrow> pid c),
                state := PROC_READY, entry := l_entry l, image := l_image l, image_pages := l_pages l,
                ustack := stk, ustack_pages := USER_STACK_SIZE div PAGE_SIZE, brk := l_brk l,
                kstack_top := ks + of_nat (4 * PAGE_SIZE), started := False, cons_enable := ce, cons_sink := sink,
                cons_out := [], cons_in_keys := [], cons_in_pos := 0, redir_in := spawn_redir_in k,
                redir_out := spawn_redir_out k, cwd := strncpy_val (if wd \<noteq> [] then wd else ''/sys'') PROC_CWD,
                pname := strncpy_val (base_name path) PROC_NAME, user_esp := sp, user_eip := l_entry l,
                user_eax := 0, saved_kframe := 0\<rparr>) k;
          k = set_kmm ((kmm k)\<lparr>mem := kmemset (mem (kmm k)) sp 0 32\<rparr>) k
      in k\<lparr>spawn_redir_in := -1, spawn_redir_out := -1, spawn_cons_next := False\<rparr>)"

definition proc_spawn_elf :: "string \<Rightarrow> kern \<Rightarrow> int \<times> kern" where
  "proc_spawn_elf path k =
     (case load_file path k of (Inl e, k) \<Rightarrow> (e, k)
      | (Inr l, k) \<Rightarrow>
        (case alloc_proc k of None \<Rightarrow> (-1, k)
         | Some (i, k) \<Rightarrow>
           (case mm_alloc_pages (USER_STACK_SIZE div PAGE_SIZE) (kmm k) of
              (None, m) \<Rightarrow> (-1, set_kmm m k)
            | (Some stk, m) \<Rightarrow>
              let k = set_kmm (m\<lparr>mem := mem_set_word (mem m) stk 0xDEADC0DE\<rparr>) k in
              case mm_alloc_pages 4 (kmm k) of
                (None, m) \<Rightarrow> (-1, set_kmm m k)
              | (Some ks, m) \<Rightarrow>
                let new = next_pid k; k = fill_proc i path l stk ks (set_kmm m k)
                in (new, proc_ensure_resident (current k) k))))"

end
