(* ===== verification/Fat.thy ===== *)
theory Fat
  imports Vfs
begin

text \<open>
  The FAT16/FAT32 driver of \<^verbatim>\<open>kernel/fs/fat.c\<close>: the volume mounted under \<^verbatim>\<open>/disk\<close>. The sector buffer
  \<^verbatim>\<open>secbuf\<close> is filled by every function before it looks at it, so it is the value a read returns. A
  loop over a cluster chain is a partial function whose \<open>None\<close> is not to return: a chain on a damaged volume may
  be a cycle.
\<close>

section \<open>The disk\<close>

text \<open>
  The drive behind \<^verbatim>\<open>ata_read\<close> and \<^verbatim>\<open>ata_write\<close>: which sectors it transfers and their bytes. A transfer it
  refuses changes nothing. The driver sends 28 bits of an address.
\<close>

record disk =
  d_ok :: "u32 \<Rightarrow> bool"
  d_sec :: "u32 \<Rightarrow> u8 list"

definition ata_addr :: "u32 \<Rightarrow> u32" where
  "ata_addr lba = lba AND 0x0FFFFFFF"

definition disk_read :: "disk \<Rightarrow> u32 \<Rightarrow> u8 list option" where
  "disk_read d lba = (if d_ok d (ata_addr lba) then Some (d_sec d (ata_addr lba)) else None)"

definition disk_write :: "u32 \<Rightarrow> u8 list \<Rightarrow> disk \<Rightarrow> bool \<times> disk" where
  "disk_write lba bs d =
     (if d_ok d (ata_addr lba) then (True, d\<lparr>d_sec := (d_sec d)(ata_addr lba := bs)\<rparr>) else (False, d))"

section \<open>State\<close>

definition FAT_FD_BASE :: int where "FAT_FD_BASE = 100"
definition FAT_MAX_FD :: nat where "FAT_MAX_FD = 8"
definition FAT_SEC :: nat where "FAT_SEC = 512"

text \<open>Fields narrower than 32 bits are the 32-bit values every use of them promotes them to.\<close>

record fat_fs =
  b_bytes_per_sec :: u32
  b_sec_per_clus :: u32
  b_reserved :: u32
  b_fats :: u32
  b_root_ents :: u32
  b_tot_sec16 :: u32
  b_fatsz16 :: u32
  b_tot_sec32 :: u32
  b_fatsz32 :: u32
  b_root_clus :: u32
  b_is_fat32 :: bool
  b_fat_start :: u32
  b_root_start :: u32
  b_data_start :: u32
  b_root_secs :: u32

record fat_fd =
  ff_used :: bool
  ff_flags :: u32
  ff_is_dir :: bool
  ff_start :: u32
  ff_size :: u32
  ff_pos :: u32
  ff_dir_sec :: u32
  ff_dir_off :: nat

record fat =
  f_disk :: disk
  f_fs :: fat_fs
  f_fdt :: "fat_fd list"
  f_mounted :: bool
  f_next :: u32

definition no_fd :: fat_fd where
  "no_fd = \<lparr>ff_used = False, ff_flags = 0, ff_is_dir = False, ff_start = 0, ff_size = 0, ff_pos = 0,
     ff_dir_sec = 0, ff_dir_off = 0\<rparr>"

section \<open>Sectors, bytes and clusters\<close>

definition read_sec :: "fat \<Rightarrow> u32 \<Rightarrow> u8 list option" where
  "read_sec s lba = disk_read (f_disk s) lba"

definition write_sec :: "u32 \<Rightarrow> u8 list \<Rightarrow> fat \<Rightarrow> bool \<times> fat" where
  "write_sec lba bs s = (case disk_write lba bs (f_disk s) of (ok, d) \<Rightarrow> (ok, s\<lparr>f_disk := d\<rparr>))"

text \<open>Little-endian numbers in a buffer.\<close>

definition le16 :: "u8 list \<Rightarrow> nat \<Rightarrow> u32" where
  "le16 b i = ucast (b ! i) OR push_bit 8 (ucast (b ! (i + 1)))"

definition le32 :: "u8 list \<Rightarrow> nat \<Rightarrow> u32" where
  "le32 b i = le16 b i OR push_bit 16 (le16 b (i + 2))"

definition put16 :: "nat \<Rightarrow> u32 \<Rightarrow> u8 list \<Rightarrow> u8 list" where
  "put16 i v b = b[i := ucast v, i + 1 := ucast (drop_bit 8 v)]"

definition put32 :: "nat \<Rightarrow> u32 \<Rightarrow> u8 list \<Rightarrow> u8 list" where
  "put32 i v b = put16 (i + 2) (drop_bit 16 v) (put16 i v b)"

text \<open>\<^verbatim>\<open>kmemcpy(buf + i, src, |src|)\<close>\<close>

definition put_bytes :: "nat \<Rightarrow> u8 list \<Rightarrow> u8 list \<Rightarrow> u8 list" where
  "put_bytes i src b = take i b @ src @ drop (i + length src) b"

definition clus_to_lba :: "fat_fs \<Rightarrow> u32 \<Rightarrow> u32" where
  "clus_to_lba v cl = b_data_start v + (cl - 2) * b_sec_per_clus v"

definition clus_from_ent :: "fat_fs \<Rightarrow> u8 list \<Rightarrow> u32" where
  "clus_from_ent v e = (if b_is_fat32 v then push_bit 16 (le16 e 20) OR le16 e 26 else le16 e 26)"

definition clus_to_ent :: "fat_fs \<Rightarrow> nat \<Rightarrow> u32 \<Rightarrow> u8 list \<Rightarrow> u8 list" where
  "clus_to_ent v i cl b =
     (let b1 = put16 (i + 26) cl b in if b_is_fat32 v then put16 (i + 20) (drop_bit 16 cl) b1 else b1)"

text \<open>The sector and offset of a FAT entry in the first table; the size of a table.\<close>

definition ent_off :: "fat_fs \<Rightarrow> u32 \<Rightarrow> u32" where
  "ent_off v cl = (if b_is_fat32 v then cl * 4 else cl * 2)"

definition ent_get :: "fat_fs \<Rightarrow> u8 list \<Rightarrow> nat \<Rightarrow> u32" where
  "ent_get v b i = (if b_is_fat32 v then le32 b i AND 0x0FFFFFFF else le16 b i)"

definition ent_put :: "fat_fs \<Rightarrow> nat \<Rightarrow> u32 \<Rightarrow> u8 list \<Rightarrow> u8 list" where
  "ent_put v i val b =
     (if b_is_fat32 v then put32 i ((le32 b i AND 0xF0000000) OR (val AND 0x0FFFFFFF)) b else put16 i val b)"

definition fat_get :: "fat \<Rightarrow> u32 \<Rightarrow> u32" where
  "fat_get s cl =
     (let v = f_fs s; off = ent_off v cl
      in case read_sec s (b_fat_start v + off div 512) of
           None \<Rightarrow> if b_is_fat32 v then 0x0FFFFFFF else 0xFFFF
         | Some b \<Rightarrow> ent_get v b (unat (off mod 512)))"

definition fat_size :: "fat_fs \<Rightarrow> u32" where
  "fat_size v = (if b_is_fat32 v then b_fatsz32 v else b_fatsz16 v)"

text \<open>The loop over the copies of the table: \<open>k\<close> are left, \<open>i\<close> is the next.\<close>

fun set_copies :: "nat \<Rightarrow> u32 \<Rightarrow> u32 \<Rightarrow> u32 \<Rightarrow> fat \<Rightarrow> bool \<times> fat" where
  "set_copies 0 i cl val s = (True, s)"
| "set_copies (Suc k) i cl val s =
     (let v = f_fs s; off = ent_off v cl; lba = b_fat_start v + i * fat_size v + off div 512
      in case read_sec s lba of
           None \<Rightarrow> (False, s)
         | Some b \<Rightarrow>
             (case write_sec lba (ent_put v (unat (off mod 512)) val b) s of
                (False, s1) \<Rightarrow> (False, s1)
              | (True, s1) \<Rightarrow> set_copies k (i + 1) cl val s1))"

definition fat_set :: "u32 \<Rightarrow> u32 \<Rightarrow> fat \<Rightarrow> bool \<times> fat" where
  "fat_set cl val s = set_copies (unat (b_fats (f_fs s))) 0 cl val s"

definition is_eoc :: "fat_fs \<Rightarrow> u32 \<Rightarrow> bool" where
  "is_eoc v x = (if b_is_fat32 v then 0x0FFFFFF8 \<le> x else 0xFFF8 \<le> x)"

text \<open>\<^verbatim>\<open>!is_eoc(cl) && cl >= 2\<close>\<close>

definition in_chain :: "fat_fs \<Rightarrow> u32 \<Rightarrow> bool" where
  "in_chain v cl \<longleftrightarrow> \<not> is_eoc v cl \<and> 2 \<le> cl"

section \<open>Names\<close>

text \<open>Characters as bytes; the two case conversions of the driver.\<close>

definition byte_up :: "u8 \<Rightarrow> u8" where
  "byte_up c = (if 0x61 \<le> c \<and> c \<le> 0x7A then c - 0x61 + 0x41 else c)"

definition byte_low :: "u8 \<Rightarrow> u8" where
  "byte_low c = (if 0x41 \<le> c \<and> c \<le> 0x5A then c - 0x41 + 0x61 else c)"

abbreviation dot :: char where "dot \<equiv> CHR 0x2E"
abbreviation blank :: u8 where "blank \<equiv> 0x20"

text \<open>The bytes taken by the loops over the base and the extension, with what is left of the name.\<close>

fun base_loop :: "string \<Rightarrow> nat \<Rightarrow> u8 list \<times> string" where
  "base_loop src 0 = ([], src)"
| "base_loop [] (Suc j) = ([], [])"
| "base_loop (c # cs) (Suc j) =
     (if c = NUL \<or> c = dot then ([], c # cs)
      else case base_loop cs j of (b, rest) \<Rightarrow> (byte_up (of_char c) # b, rest))"

fun ext_loop :: "string \<Rightarrow> nat \<Rightarrow> u8 list" where
  "ext_loop src 0 = []"
| "ext_loop [] (Suc j) = []"
| "ext_loop (c # cs) (Suc j) = (if c = NUL then [] else byte_up (of_char c) # ext_loop cs j)"

definition pad :: "nat \<Rightarrow> u8 list \<Rightarrow> u8 list" where
  "pad n b = b @ replicate (n - length b) blank"

definition name83 :: "string \<Rightarrow> u8 list" where
  "name83 src =
     (case base_loop src 8 of
        (b, rest) \<Rightarrow> pad 8 b @ pad 3 (if cget rest 0 = dot then ext_loop (tl rest) 3 else []))"

text \<open>
  A short name as text. The buffer holds 16 characters, more than the 12 a name can have. The copy
  stops at a blank; a zero byte ends the C string.
\<close>

definition decode_part :: "u8 list \<Rightarrow> string" where
  "decode_part b = map (\<lambda>c. char_of (unat (byte_low c))) (takeWhile (\<lambda>c. c \<noteq> blank) b)"

definition decode83 :: "u8 list \<Rightarrow> string" where
  "decode83 e =
     decode_part (take 8 e) @ (if e ! 8 \<noteq> blank then dot # decode_part (take 3 (drop 8 e)) else [])"

text \<open>\<^verbatim>\<open>next_component\<close> with its buffer of 16: a longer component is cut into several.\<close>

fun comp_loop :: "string \<Rightarrow> nat \<Rightarrow> string \<times> string" where
  "comp_loop p 0 = ([], p)"
| "comp_loop [] (Suc j) = ([], [])"
| "comp_loop (c # cs) (Suc j) =
     (if c = NUL \<or> c = slash then ([], c # cs)
      else case comp_loop cs j of (x, rest) \<Rightarrow> (c # x, rest))"

definition skip_seps :: "string \<Rightarrow> string" where
  "skip_seps p = dropWhile (\<lambda>c. c = slash) p"

definition FAT_COMP :: nat where "FAT_COMP = 16"

definition next_component :: "string \<Rightarrow> (string \<times> string) option" where
  "next_component path =
     (let p = skip_seps path in if cget p 0 = NUL then None else Some (comp_loop p (FAT_COMP - 1)))"

lemma comp_loop_length: "length (fst (comp_loop p n)) + length (snd (comp_loop p n)) = length p"
  by (induction p n rule: comp_loop.induct) (auto split: prod.splits)

lemma comp_loop_progress: "cget p 0 \<noteq> NUL \<Longrightarrow> cget p 0 \<noteq> slash \<Longrightarrow> 0 < n \<Longrightarrow> fst (comp_loop p n) \<noteq> []"
  by (cases p; cases n) (auto split: prod.splits)

lemma skip_seps_head: "cget (skip_seps p) 0 \<noteq> slash"
  by (induction p) (auto simp: skip_seps_def)

lemma next_component_shorter:
  assumes "next_component p = Some (x, rest)"
  shows "length rest < length p"
proof -
  let ?q = "skip_seps p"
  have "cget ?q 0 \<noteq> NUL" "comp_loop ?q 15 = (x, rest)"
    using assms by (auto simp: next_component_def Let_def FAT_COMP_def split: if_splits)
  moreover from this have "x \<noteq> []" using comp_loop_progress [of ?q 15] skip_seps_head [of p] by auto
  ultimately have "length rest < length ?q" using comp_loop_length [of ?q 15] by (auto simp: neq_Nil_conv)
  moreover have "length ?q \<le> length p" by (simp add: skip_seps_def length_dropWhile_le)
  ultimately show ?thesis by simp
qed

section \<open>Walking a directory\<close>

text \<open>
  The loop \<^verbatim>\<open>find_in_dir\<close>, \<^verbatim>\<open>fat_listdir\<close> and \<^verbatim>\<open>dir_is_empty\<close> share: sector by sector through the fixed
  root area or along the chain, entry by entry of 32 bytes. The body sees the sector's address, the entry's
  offset and its bytes, and goes on (\<open>Inl\<close>) or leaves the loop (\<open>Inr\<close>); \<open>fail\<close> is what an unreadable
  sector gives.
\<close>

type_synonym ('a, 'r) dir_body = "u32 \<Rightarrow> nat \<Rightarrow> u8 list \<Rightarrow> 'a \<Rightarrow> 'a + 'r"

fun walk_ents :: "('a, 'r) dir_body \<Rightarrow> u32 \<Rightarrow> u8 list \<Rightarrow> nat \<Rightarrow> nat \<Rightarrow> 'a \<Rightarrow> 'a + 'r" where
  "walk_ents body sec b i 0 acc = Inl acc"
| "walk_ents body sec b i (Suc k) acc =
     (case body sec i (take 32 (drop i b)) acc of
        Inr r \<Rightarrow> Inr r
      | Inl acc1 \<Rightarrow> walk_ents body sec b (i + 32) k acc1)"

fun walk_secs :: "fat \<Rightarrow> ('a, 'r) dir_body \<Rightarrow> ('a \<Rightarrow> 'r) \<Rightarrow> nat \<Rightarrow> u32 \<Rightarrow> 'a \<Rightarrow> 'a + 'r" where
  "walk_secs s body fail 0 sec acc = Inl acc"
| "walk_secs s body fail (Suc k) sec acc =
     (case read_sec s sec of
        None \<Rightarrow> Inr (fail acc)
      | Some b \<Rightarrow>
          (case walk_ents body sec b 0 16 acc of
             Inr r \<Rightarrow> Inr r
           | Inl acc1 \<Rightarrow> walk_secs s body fail k (sec + 1) acc1))"

partial_function (option) walk_chain ::
  "fat \<Rightarrow> ('a, 'r) dir_body \<Rightarrow> ('a \<Rightarrow> 'r) \<Rightarrow> u32 \<Rightarrow> 'a \<Rightarrow> ('a + 'r) option" where
  "walk_chain s body fail cl acc =
     (if in_chain (f_fs s) cl then
        (case walk_secs s body fail (unat (b_sec_per_clus (f_fs s))) (clus_to_lba (f_fs s) cl) acc of
           Inr r \<Rightarrow> Some (Inr r)
         | Inl acc1 \<Rightarrow> walk_chain s body fail (fat_get s cl) acc1)
      else Some (Inl acc))"

definition in_root :: "fat_fs \<Rightarrow> u32 \<Rightarrow> bool" where
  "in_root v dir \<longleftrightarrow> \<not> b_is_fat32 v \<and> dir = 0"

definition first_clus :: "fat_fs \<Rightarrow> u32 \<Rightarrow> u32" where
  "first_clus v dir = (if dir \<noteq> 0 then dir else b_root_clus v)"

definition walk_dir :: "fat \<Rightarrow> ('a, 'r) dir_body \<Rightarrow> ('a \<Rightarrow> 'r) \<Rightarrow> u32 \<Rightarrow> 'a \<Rightarrow> ('a + 'r) option" where
  "walk_dir s body fail dir acc =
     (let v = f_fs s
      in if in_root v dir then Some (walk_secs s body fail (unat (b_root_secs v)) (b_root_start v) acc)
         else walk_chain s body fail (first_clus v dir) acc)"

datatype found = Found "u8 list" u32 nat | Missing | Unreadable

definition find_body :: "u8 list \<Rightarrow> (unit, found) dir_body" where
  "find_body want sec i e u =
     (if e ! 0 = 0 then Inr Missing
      else if e ! 0 = 0xE5 then Inl ()
      else if e ! 11 = 0x0F then Inl ()
      else if kmemcmp e want 11 = 0 then Inr (Found e sec i)
      else Inl ())"

definition find_in_dir :: "fat \<Rightarrow> u32 \<Rightarrow> string \<Rightarrow> found option" where
  "find_in_dir s dir nm =
     map_option (case_sum (\<lambda>u. Missing) id) (walk_dir s (find_body (name83 nm)) (\<lambda>u. Unreadable) dir ())"


section \<open>Paths\<close>

definition slash_disk :: string where "slash_disk = ''/disk''"

definition under_disk :: "string \<Rightarrow> bool" where
  "under_disk path \<longleftrightarrow> kstrcmp path ''/disk'' = 0 \<or> kstrncmp path ''/disk/'' 6 = 0"

definition strip_disk :: "string \<Rightarrow> string" where
  "strip_disk path = (if under_disk path then drop 5 path else path)"

definition root_dir :: "fat_fs \<Rightarrow> u32" where
  "root_dir v = (if b_is_fat32 v then b_root_clus v else 0)"

text \<open>
  What \<^verbatim>\<open>resolve\<close> returns: -1, 1 with the entry and its directory, or 2 with the entry and the
  directory itself.
\<close>

datatype resolved = Nowhere | Entry "u8 list" u32 | Dir "u8 list" u32

definition is_dir_ent :: "u8 list \<Rightarrow> bool" where
  "is_dir_ent e \<longleftrightarrow> e ! 11 AND 0x10 \<noteq> 0"

function resolve_loop :: "fat \<Rightarrow> u32 \<Rightarrow> string \<Rightarrow> resolved option" where
  "resolve_loop s dir p =
     (case next_component p of
        None \<Rightarrow> Some (Dir (clus_to_ent (f_fs s) 0 dir ((replicate 32 0)[11 := 0x10])) dir)
      | Some (cn, rest) \<Rightarrow>
          (case find_in_dir s dir cn of
             None \<Rightarrow> None
           | Some (Found cur sec off) \<Rightarrow>
               if is_dir_ent cur then
                 (let d = clus_from_ent (f_fs s) cur
                  in if cget (skip_seps rest) 0 = NUL then Some (Dir cur d) else resolve_loop s d rest)
               else if cget (skip_seps rest) 0 \<noteq> NUL then Some Nowhere
               else Some (Entry cur dir)
           | Some _ \<Rightarrow> Some Nowhere))"
  by pat_completeness auto
termination
  by (relation "measure (\<lambda>(s, dir, p). length p)") (auto dest: next_component_shorter)

declare resolve_loop.simps [simp del]

definition resolve :: "fat \<Rightarrow> string \<Rightarrow> resolved option" where
  "resolve s path = resolve_loop s (root_dir (f_fs s)) (strip_disk path)"

text \<open>The directory and the last component: \<open>None\<close> inside is -1.\<close>

function parent_loop :: "fat \<Rightarrow> u32 \<Rightarrow> string \<Rightarrow> (u32 \<times> string) option option" where
  "parent_loop s dir p =
     (case next_component p of
        None \<Rightarrow> Some None
      | Some (cn, rest) \<Rightarrow>
          if cget (skip_seps rest) 0 = NUL then Some (Some (dir, strncpy_val cn 16))
          else (case find_in_dir s dir cn of
                  None \<Rightarrow> None
                | Some (Found cur sec off) \<Rightarrow>
                    if \<not> is_dir_ent cur then Some None else parent_loop s (clus_from_ent (f_fs s) cur) rest
                | Some _ \<Rightarrow> Some None))"
  by pat_completeness auto
termination
  by (relation "measure (\<lambda>(s, dir, p). length p)") (auto dest: next_component_shorter)

declare parent_loop.simps [simp del]

definition parent_and_name :: "fat \<Rightarrow> string \<Rightarrow> (u32 \<times> string) option option" where
  "parent_and_name s path = parent_loop s (root_dir (f_fs s)) (strip_disk path)"

section \<open>Allocation\<close>

lemma unat_add1_less:
  fixes c :: u32
  assumes "c < k"
  shows "unat (c + 1) = unat c + 1"
proof -
  have "unat k < 2 ^ LENGTH(32)" by (rule unsigned_less)
  then have "unat c + 1 < 2 ^ 32" using assms by (simp add: word_less_nat_alt)
  then show ?thesis by (simp add: unat_word_ariths)
qed

definition max_clus :: "fat_fs \<Rightarrow> u32" where
  "max_clus v =
     (let tot = (if b_tot_sec16 v \<noteq> 0 then b_tot_sec16 v else b_tot_sec32 v)
      in 2 + (tot - b_data_start v) div b_sec_per_clus v)"

definition eoc_mark :: "fat_fs \<Rightarrow> u32" where
  "eoc_mark v = (if b_is_fat32 v then 0x0FFFFFFF else 0xFFFF)"

text \<open>
  One of the two scans: the first free cluster from \<open>c\<close> up to \<open>lim\<close>. \<open>None\<close> inside goes on after the
  loop; 0 is the failure.
\<close>

function alloc_scan_clus :: "u32 \<Rightarrow> u32 \<Rightarrow> fat \<Rightarrow> u32 option \<times> fat" where
  "alloc_scan_clus c lim s =
     (if c < lim then
        (if fat_get s c = 0 then
           (case fat_set c (eoc_mark (f_fs s)) s of
              (False, s1) \<Rightarrow> (Some 0, s1)
            | (True, s1) \<Rightarrow> (Some c, s1\<lparr>f_next := c + 1\<rparr>))
         else alloc_scan_clus (c + 1) lim s)
      else (None, s))"
  by pat_completeness auto
termination
proof (relation "measure (\<lambda>(c, lim, s). unat lim - unat c)", goal_cases)
  case (2 c lim s)
  then have "unat (c + 1) = unat c + 1" by (simp add: unat_add1_less)
  with 2 show ?case by (simp add: word_less_nat_alt)
qed simp

declare alloc_scan_clus.simps [simp del]

definition alloc_cluster :: "fat \<Rightarrow> u32 \<times> fat" where
  "alloc_cluster s =
     (let lim = max_clus (f_fs s);
          start = (if f_next s < 2 \<or> lim \<le> f_next s then 2 else f_next s)
      in case alloc_scan_clus start lim s of
           (Some c, s1) \<Rightarrow> (c, s1)
         | (None, s1) \<Rightarrow>
             (case alloc_scan_clus 2 start s1 of
                (Some c, s2) \<Rightarrow> (c, s2)
              | (None, s2) \<Rightarrow> (0, s2)))"

fun zero_secs :: "nat \<Rightarrow> u32 \<Rightarrow> fat \<Rightarrow> bool \<times> fat" where
  "zero_secs 0 lba s = (True, s)"
| "zero_secs (Suc k) lba s =
     (case write_sec lba (replicate FAT_SEC 0) s of
        (False, s1) \<Rightarrow> (False, s1)
      | (True, s1) \<Rightarrow> zero_secs k (lba + 1) s1)"

definition zero_cluster :: "u32 \<Rightarrow> fat \<Rightarrow> bool \<times> fat" where
  "zero_cluster cl s = zero_secs (unat (b_sec_per_clus (f_fs s))) (clus_to_lba (f_fs s) cl) s"

text \<open>A new cluster linked behind \<open>cl\<close> and cleared: 0 when one of the steps fails.\<close>

definition extend_chain :: "u32 \<Rightarrow> fat \<Rightarrow> u32 \<times> fat" where
  "extend_chain cl s =
     (case alloc_cluster s of (nc, s1) \<Rightarrow>
        if nc = 0 then (0, s1)
        else (case fat_set cl nc s1 of
                (False, s2) \<Rightarrow> (0, s2)
              | (True, s2) \<Rightarrow>
                  (case zero_cluster nc s2 of
                     (False, s3) \<Rightarrow> (0, s3)
                   | (True, s3) \<Rightarrow> (nc, s3))))"

definition slot_body :: "(unit, (u32 \<times> nat) option) dir_body" where
  "slot_body sec i e u = (if e ! 0 = 0 \<or> e ! 0 = 0xE5 then Inr (Some (sec, i)) else Inl ())"

partial_function (option) slot_chain :: "u32 \<Rightarrow> fat \<Rightarrow> ((u32 \<times> nat) option \<times> fat) option" where
  "slot_chain cl s =
     (if in_chain (f_fs s) cl then
        (case walk_secs s slot_body (\<lambda>u. None) (unat (b_sec_per_clus (f_fs s))) (clus_to_lba (f_fs s) cl) () of
           Inr r \<Rightarrow> Some (r, s)
         | Inl u \<Rightarrow>
             (let nxt = fat_get s cl
              in if in_chain (f_fs s) nxt then slot_chain nxt s
                 else (case extend_chain cl s of (nc, s1) \<Rightarrow>
                         if nc = 0 then Some (None, s1) else slot_chain nc s1)))
      else Some (None, s))"

definition find_free_slot :: "u32 \<Rightarrow> fat \<Rightarrow> ((u32 \<times> nat) option \<times> fat) option" where
  "find_free_slot dir s =
     (let v = f_fs s
      in if in_root v dir then
           Some (case_sum (\<lambda>u. None) id
             (walk_secs s slot_body (\<lambda>u. None) (unat (b_root_secs v)) (b_root_start v) ()), s)
         else slot_chain (first_clus v dir) s)"

text \<open>The 32 bytes of a new entry.\<close>

definition new_ent :: "fat_fs \<Rightarrow> string \<Rightarrow> u8 \<Rightarrow> u32 \<Rightarrow> u32 \<Rightarrow> u8 list" where
  "new_ent v nm attr clus sz =
     put32 28 sz (clus_to_ent v 0 clus ((put_bytes 0 (name83 nm) (replicate 32 0))[11 := attr]))"

definition create_entry ::
  "u32 \<Rightarrow> string \<Rightarrow> u8 \<Rightarrow> u32 \<Rightarrow> u32 \<Rightarrow> fat \<Rightarrow> ((u32 \<times> nat) option \<times> fat) option" where
  "create_entry dir nm attr clus sz s =
     (case find_free_slot dir s of
        None \<Rightarrow> None
      | Some (None, s1) \<Rightarrow> Some (None, s1)
      | Some (Some (sec, off), s1) \<Rightarrow>
          (case read_sec s1 sec of
             None \<Rightarrow> Some (None, s1)
           | Some b \<Rightarrow>
               (case write_sec sec (put_bytes off (new_ent (f_fs s1) nm attr clus sz) b) s1 of
                  (False, s2) \<Rightarrow> Some (None, s2)
                | (True, s2) \<Rightarrow> Some (Some (sec, off), s2))))"

definition update_dirent :: "fat_fd \<Rightarrow> fat \<Rightarrow> bool \<times> fat" where
  "update_dirent f s =
     (if ff_dir_sec f = 0 then (True, s)
      else case read_sec s (ff_dir_sec f) of
             None \<Rightarrow> (False, s)
           | Some b \<Rightarrow>
               write_sec (ff_dir_sec f)
                 (put32 (ff_dir_off f + 28) (ff_size f) (clus_to_ent (f_fs s) (ff_dir_off f) (ff_start f) b)) s)"

partial_function (option) free_chain :: "u32 \<Rightarrow> fat \<Rightarrow> fat option" where
  "free_chain cl s =
     (if in_chain (f_fs s) cl then free_chain (fat_get s cl) (snd (fat_set cl 0 s)) else Some s)"


section \<open>Mounting\<close>

text \<open>
  The volume's parameters from its first sector. \<open>present\<close> is \<^verbatim>\<open>ata_init\<close>'s answer; the line on the
  console is left out.
\<close>

definition boot_fs :: "u8 list \<Rightarrow> fat_fs" where
  "boot_fs b =
     (let fatsz16 = le16 b 22; reserved = le16 b 14; fats = ucast (b ! 16);
          root_ents = le16 b 17; is32 = (fatsz16 = 0); rc = le32 b 44;
          root_secs = (if is32 then 0 else (root_ents * 32 + (512 - 1)) div 512);
          root_start = (if is32 then 0 else reserved + fats * fatsz16)
      in \<lparr>b_bytes_per_sec = le16 b 11, b_sec_per_clus = ucast (b ! 13), b_reserved = reserved, b_fats = fats,
          b_root_ents = root_ents, b_tot_sec16 = le16 b 19, b_fatsz16 = fatsz16, b_tot_sec32 = le32 b 32,
          b_fatsz32 = le32 b 36, b_root_clus = (if is32 \<and> rc = 0 then 2 else rc), b_is_fat32 = is32,
          b_fat_start = reserved, b_root_start = root_start,
          b_data_start = (if is32 then reserved + fats * le32 b 36 else root_start + root_secs),
          b_root_secs = root_secs\<rparr>)"

definition fat_init :: "bool \<Rightarrow> fat \<Rightarrow> bool \<times> fat" where
  "fat_init present s =
     (let s1 = s\<lparr>f_mounted := False, f_fdt := replicate FAT_MAX_FD no_fd\<rparr>
      in if \<not> present then (False, s1)
         else case read_sec s1 0 of
                None \<Rightarrow> (False, s1)
              | Some b \<Rightarrow>
                  if b ! 510 \<noteq> 0x55 \<or> b ! 511 \<noteq> 0xAA then (False, s1)
                  else if le16 b 11 \<noteq> 512 \<or> b ! 13 = 0 then (False, s1)
                  else (True, s1\<lparr>f_fs := boot_fs b, f_mounted := True\<rparr>))"

definition fat_is_path :: "fat \<Rightarrow> string \<Rightarrow> bool" where
  "fat_is_path s path \<longleftrightarrow> f_mounted s \<and> under_disk path"

section \<open>Descriptors\<close>

definition fat_alloc_fd :: "fat \<Rightarrow> nat option" where
  "fat_alloc_fd s = first_from (\<lambda>f. \<not> ff_used f) (f_fdt s) 0"

text \<open>What follows the last slash.\<close>

fun leaf_loop :: "string \<Rightarrow> string \<Rightarrow> string" where
  "leaf_loop [] sl = sl"
| "leaf_loop (c # cs) sl = (if c = NUL then sl else leaf_loop cs (if c = slash then cs else sl))"

definition leaf_of :: "string \<Rightarrow> string" where
  "leaf_of path = strncpy_val (leaf_loop path path) 16"

text \<open>The part of \<^verbatim>\<open>fat_open\<close> after the entry is known, with the place of its directory entry.\<close>

definition open_fd :: "resolved \<Rightarrow> u32 \<Rightarrow> nat \<Rightarrow> string \<Rightarrow> u32 \<Rightarrow> fat \<Rightarrow> ((vfs_err + int) \<times> fat) option" where
  "open_fd r dsec doff path flags s =
     (let isdir2 = (case r of Dir e d \<Rightarrow> True | _ \<Rightarrow> False)
      in if isdir2 \<and> \<not> has_flag flags VFS_O_DIR \<and> kstrcmp path ''/disk'' \<noteq> 0 then Some (Inl VFS_ERR_ISDIR, s)
         else case fat_alloc_fd s of
                None \<Rightarrow> Some (Inl VFS_ERR_NOSPC, s)
              | Some idx \<Rightarrow>
                  (let s1 = s\<lparr>f_fdt := (f_fdt s)[idx := no_fd]\<rparr>;
                       ent = (case r of Entry e d \<Rightarrow> Some e | _ \<Rightarrow> None);
                       dirent = (case ent of Some e \<Rightarrow> is_dir_ent e | None \<Rightarrow> False);
                       start = (case ent of Some e \<Rightarrow> clus_from_ent (f_fs s) e | None \<Rightarrow> 0);
                       sz = (case ent of Some e \<Rightarrow> le32 e 28 | None \<Rightarrow> 0);
                       trunc = (has_flag flags VFS_O_TRUNC \<and> has_flag flags VFS_O_WRITE \<and> ent \<noteq> None \<and> \<not> dirent)
                   in if dirent \<and> \<not> has_flag flags VFS_O_DIR \<and> \<not> has_flag flags VFS_O_READ
                      then Some (Inl VFS_ERR_ISDIR, s1)
                      else case (if trunc \<and> start \<noteq> 0 then free_chain start s1 else Some s1) of
                             None \<Rightarrow> None
                           | Some s2 \<Rightarrow>
                               (let sz2 = (if trunc then 0 else sz)
                                in Some (Inr (FAT_FD_BASE + int idx),
                                     s2\<lparr>f_fdt := (f_fdt s2)[idx :=
                                       \<lparr>ff_used = True, ff_flags = flags, ff_is_dir = isdir2 \<or> dirent,
                                        ff_start = (if trunc then 0 else start), ff_size = sz2,
                                        ff_pos = (if has_flag flags VFS_O_APPEND then sz2 else 0),
                                        ff_dir_sec = dsec, ff_dir_off = doff\<rparr>]\<rparr>))))"

definition fat_open :: "string \<Rightarrow> u32 \<Rightarrow> fat \<Rightarrow> ((vfs_err + int) \<times> fat) option" where
  "fat_open path flags s =
     (if \<not> f_mounted s then Some (Inl VFS_ERR_NOENT, s)
      else case resolve s path of
             None \<Rightarrow> None
           | Some Nowhere \<Rightarrow>
               if \<not> has_flag flags VFS_O_CREATE then Some (Inl VFS_ERR_NOENT, s)
               else (case parent_and_name s path of
                       None \<Rightarrow> None
                     | Some None \<Rightarrow> Some (Inl VFS_ERR_NOENT, s)
                     | Some (Some (parent, nm)) \<Rightarrow>
                         (case create_entry parent nm 0x20 0 0 s of
                            None \<Rightarrow> None
                          | Some (None, s1) \<Rightarrow> Some (Inl VFS_ERR_NOSPC, s1)
                          | Some (Some (dsec, doff), s1) \<Rightarrow>
                              (case resolve s1 path of
                                 None \<Rightarrow> None
                               | Some r \<Rightarrow>
                                   if r = Nowhere then Some (Inl VFS_ERR_NOSPC, s1)
                                   else open_fd r dsec doff path flags s1)))
           | Some (Entry e parent) \<Rightarrow>
               if leaf_of path = [] then open_fd (Entry e parent) 0 0 path flags s
               else (case find_in_dir s parent (leaf_of path) of
                       None \<Rightarrow> None
                     | Some (Found e2 dsec doff) \<Rightarrow> open_fd (Entry e2 parent) dsec doff path flags s
                     | Some _ \<Rightarrow> open_fd (Entry e parent) 0 0 path flags s)
           | Some (Dir e d) \<Rightarrow> open_fd (Dir e d) 0 0 path flags s)"

definition fat_fd_at :: "int \<Rightarrow> fat \<Rightarrow> nat option" where
  "fat_fd_at fd s =
     (let i = fd - FAT_FD_BASE
      in if i < 0 \<or> int FAT_MAX_FD \<le> i \<or> \<not> ff_used (f_fdt s ! nat i) then None else Some (nat i))"

definition fat_close :: "int \<Rightarrow> fat \<Rightarrow> (vfs_err + unit) \<times> fat" where
  "fat_close fd s =
     (case fat_fd_at fd s of
        None \<Rightarrow> (Inl VFS_ERR_BADFD, s)
      | Some i \<Rightarrow>
          (let f = f_fdt s ! i;
               s1 = (if has_flag (ff_flags f) VFS_O_WRITE \<and> \<not> ff_is_dir f then snd (update_dirent f s) else s)
           in (Inr (), s1\<lparr>f_fdt := (f_fdt s1)[i := f\<lparr>ff_used := False\<rparr>]\<rparr>)))"

section \<open>Reading\<close>

definition clus_bytes :: "fat_fs \<Rightarrow> u32" where
  "clus_bytes v = b_sec_per_clus v * 512"

text \<open>\<open>k\<close> steps along the chain; \<open>None\<close> when it ends before.\<close>

fun skip_clus :: "nat \<Rightarrow> fat \<Rightarrow> u32 \<Rightarrow> u32 option" where
  "skip_clus 0 s cl = Some cl"
| "skip_clus (Suc k) s cl = (let c = fat_get s cl in if in_chain (f_fs s) c then skip_clus k s c else None)"

text \<open>
  The sectors of one cluster from \<open>sct\<close> on, \<open>k\<close> of them: what was read so far and the position.
  \<open>True\<close>: the function returns from inside the loop.
\<close>

definition sub_bytes :: "nat \<Rightarrow> nat \<Rightarrow> u8 list \<Rightarrow> u8 list" where
  "sub_bytes off want b = map (\<lambda>i. b ! (off + i)) [0..<want]"

primrec read_secs :: "nat \<Rightarrow> fat \<Rightarrow> u32 \<Rightarrow> nat \<Rightarrow> nat \<Rightarrow> nat \<Rightarrow> u32 \<Rightarrow> u8 list \<Rightarrow> u32 \<Rightarrow> bool \<times> u8 list \<times> u32" where
  "read_secs 0 s cl sct off n sz got pos = (False, got, pos)"
| "read_secs (Suc k) s cl sct off n sz got pos =
     (if length got < n then
        (case read_sec s (clus_to_lba (f_fs s) cl + of_nat sct) of
           None \<Rightarrow> (True, got, pos)
         | Some b \<Rightarrow>
             (let want = min (min (FAT_SEC - off) (n - length got)) (unat (sz - pos));
                  got1 = got @ sub_bytes off want b;
                  pos1 = pos + of_nat want
              in if sz \<le> pos1 then (True, got1, pos1)
                 else read_secs k s cl (Suc sct) 0 n sz got1 pos1))
      else (False, got, pos))"

partial_function (option) read_clus ::
  "fat \<Rightarrow> nat \<Rightarrow> u32 \<Rightarrow> u32 \<Rightarrow> u8 list \<Rightarrow> u32 \<Rightarrow> (u8 list \<times> u32) option" where
  "read_clus s n sz cl got pos =
     (if length got < n \<and> in_chain (f_fs s) cl then
        (let o' = unat (pos mod clus_bytes (f_fs s));
             k = unat (b_sec_per_clus (f_fs s)) - o' div FAT_SEC
         in case read_secs k s cl (o' div FAT_SEC) (o' mod FAT_SEC) n sz got pos of
              (ret, got1, pos1) \<Rightarrow>
                if ret then Some (got1, pos1) else read_clus s n sz (fat_get s cl) got1 pos1)
      else Some (got, pos))"

definition fat_read :: "int \<Rightarrow> nat \<Rightarrow> fat \<Rightarrow> ((vfs_err + u8 list) \<times> fat) option" where
  "fat_read fd n s =
     (case fat_fd_at fd s of
        None \<Rightarrow> Some (Inl VFS_ERR_BADFD, s)
      | Some i \<Rightarrow>
          (let f = f_fdt s ! i; n1 = min n (unat (ff_size f - ff_pos f))
           in if ff_is_dir f then Some (Inl VFS_ERR_ISDIR, s)
              else if ff_size f \<le> ff_pos f then Some (Inr [], s)
              else (case skip_clus (unat (ff_pos f div clus_bytes (f_fs s))) s (ff_start f) of
                      None \<Rightarrow> Some (Inr [], s)
                    | Some cl \<Rightarrow>
                        (case read_clus s n1 (ff_size f) cl [] (ff_pos f) of
                           None \<Rightarrow> None
                         | Some (got, pos1) \<Rightarrow>
                             Some (Inr got, s\<lparr>f_fdt := (f_fdt s)[i := f\<lparr>ff_pos := pos1\<rparr>]\<rparr>)))))"


section \<open>Writing\<close>

text \<open>\<^verbatim>\<open>while (skip--)\<close> of \<^verbatim>\<open>fat_write\<close>: a chain that ends too early gets one more cluster, and the loop stops there.\<close>

primrec write_skip :: "nat \<Rightarrow> u32 \<Rightarrow> fat \<Rightarrow> u32 option \<times> fat" where
  "write_skip 0 cl s = (Some cl, s)"
| "write_skip (Suc k) cl s =
     (let ncl = fat_get s cl
      in if in_chain (f_fs s) ncl then write_skip k ncl s
         else (case extend_chain cl s of (nc, s1) \<Rightarrow> (if nc = 0 then None else Some nc, s1)))"

definition fd_advance :: "fat_fd \<Rightarrow> nat \<Rightarrow> fat_fd" where
  "fd_advance f k =
     (let pos1 = ff_pos f + of_nat k
      in f\<lparr>ff_pos := pos1, ff_size := (if ff_size f < pos1 then pos1 else ff_size f)\<rparr>)"

text \<open>
  The loop over the bytes: what is left to write, the descriptor and whether the directory entry is
  still to be written (it is not after an unreadable sector).
\<close>

function write_loop :: "u32 \<Rightarrow> u8 list \<Rightarrow> fat_fd \<Rightarrow> fat \<Rightarrow> bool \<times> u8 list \<times> fat_fd \<times> fat" where
  "write_loop cl bs f s =
     (if bs = [] then (True, bs, f, s)
      else
        (let o' = unat (ff_pos f mod clus_bytes (f_fs s)); off = o' mod FAT_SEC;
             want = min (FAT_SEC - off) (length bs);
             lba = clus_to_lba (f_fs s) cl + of_nat (o' div FAT_SEC)
         in case read_sec s lba of
              None \<Rightarrow> (False, bs, f, s)
            | Some b \<Rightarrow>
                (case write_sec lba (put_bytes off (take want bs) b) s of
                   (False, s1) \<Rightarrow> (False, bs, f, s1)
                 | (True, s1) \<Rightarrow>
                     (let bs1 = drop want bs; f1 = fd_advance f want
                      in if bs1 = [] then (True, bs1, f1, s1)
                         else if ff_pos f1 mod clus_bytes (f_fs s1) = 0 then
                           (let ncl = fat_get s1 cl
                            in if in_chain (f_fs s1) ncl then write_loop ncl bs1 f1 s1
                               else (case extend_chain cl s1 of (nc, s2) \<Rightarrow>
                                       if nc = 0 then (True, bs1, f1, s2) else write_loop nc bs1 f1 s2))
                         else write_loop cl bs1 f1 s1))))"
  by pat_completeness auto
termination
  by (relation "measure (\<lambda>(cl, bs, f, s). length bs)") (auto simp: FAT_SEC_def)

declare write_loop.simps [simp del]

text \<open>
  The first cluster of an empty file, then the loops. \<open>f\<close> is the descriptor the code works on in
  place: it is stored back on every way out.
\<close>

definition write_rest :: "u8 list \<Rightarrow> fat_fd \<Rightarrow> fat \<Rightarrow> (vfs_err + nat) \<times> fat_fd \<times> fat" where
  "write_rest bs f s =
     (case write_skip (unat (ff_pos f div clus_bytes (f_fs s))) (ff_start f) s of
        (None, s1) \<Rightarrow> (Inl VFS_ERR_NOSPC, f, s1)
      | (Some cl, s1) \<Rightarrow>
          (case write_loop cl bs f s1 of
             (upd, left, f1, s2) \<Rightarrow>
               (Inr (length bs - length left), f1, if upd then snd (update_dirent f1 s2) else s2)))"

definition write_at :: "u8 list \<Rightarrow> fat_fd \<Rightarrow> fat \<Rightarrow> (vfs_err + nat) \<times> fat_fd \<times> fat" where
  "write_at bs f s =
     (if ff_start f = 0 \<and> bs \<noteq> [] then
        (case alloc_cluster s of (c, s1) \<Rightarrow>
           let f1 = f\<lparr>ff_start := c\<rparr>
           in if c = 0 then (Inl VFS_ERR_NOSPC, f1, s1)
              else (case zero_cluster c s1 of
                      (False, s2) \<Rightarrow> (Inl VFS_ERR_NOSPC, f1, s2)
                    | (True, s2) \<Rightarrow> write_rest bs f1 s2))
      else write_rest bs f s)"

definition fat_write :: "int \<Rightarrow> u8 list \<Rightarrow> fat \<Rightarrow> (vfs_err + nat) \<times> fat" where
  "fat_write fd bs s =
     (case fat_fd_at fd s of
        None \<Rightarrow> (Inl VFS_ERR_BADFD, s)
      | Some i \<Rightarrow>
          if ff_is_dir (f_fdt s ! i) then (Inl VFS_ERR_ISDIR, s)
          else if \<not> has_flag (ff_flags (f_fdt s ! i)) VFS_O_WRITE then (Inl VFS_ERR_INVAL, s)
          else (case write_at bs (f_fdt s ! i) s of
                  (r, f, s1) \<Rightarrow> (r, s1\<lparr>f_fdt := (f_fdt s1)[i := f]\<rparr>)))"

section \<open>Directories\<close>

text \<open>The first sector of a new directory, with its two entries.\<close>

definition dot_ents :: "fat_fs \<Rightarrow> u32 \<Rightarrow> u32 \<Rightarrow> u8 list" where
  "dot_ents v cl parent =
     (let b0 = (put_bytes 0 (0x2E # replicate 10 blank) (replicate FAT_SEC 0))[11 := 0x10];
          b1 = put16 26 cl b0;
          b2 = (put_bytes 32 (0x2E # 0x2E # replicate 9 blank) b1)[43 := 0x10];
          b3 = (if b_is_fat32 v \<or> parent \<noteq> 0 then put16 58 parent b2 else b2)
      in if b_is_fat32 v then put16 52 (drop_bit 16 parent) (put16 20 (drop_bit 16 cl) b3) else b3)"

definition fat_mkdir :: "string \<Rightarrow> fat \<Rightarrow> ((vfs_err + unit) \<times> fat) option" where
  "fat_mkdir path s =
     (if \<not> f_mounted s then Some (Inl VFS_ERR_NOENT, s)
      else case resolve s path of
             None \<Rightarrow> None
           | Some r \<Rightarrow>
               if r \<noteq> Nowhere then Some (Inl VFS_ERR_EXIST, s)
               else (case parent_and_name s path of
                       None \<Rightarrow> None
                     | Some None \<Rightarrow> Some (Inl VFS_ERR_NOENT, s)
                     | Some (Some (parent, nm)) \<Rightarrow>
                         (case alloc_cluster s of (cl, s1) \<Rightarrow>
                            if cl = 0 then Some (Inl VFS_ERR_NOSPC, s1)
                            else (case zero_cluster cl s1 of
                                    (False, s2) \<Rightarrow> Some (Inl VFS_ERR_NOSPC, s2)
                                  | (True, s2) \<Rightarrow>
                                      (case write_sec (clus_to_lba (f_fs s2) cl) (dot_ents (f_fs s2) cl parent) s2 of
                                         (False, s3) \<Rightarrow> Some (Inl VFS_ERR_NOSPC, s3)
                                       | (True, s3) \<Rightarrow>
                                           (case create_entry parent nm 0x10 cl 0 s3 of
                                              None \<Rightarrow> None
                                            | Some (None, s4) \<Rightarrow> Some (Inl VFS_ERR_NOSPC, s4)
                                            | Some (Some e, s4) \<Rightarrow> Some (Inr (), s4)))))))"

text \<open>
  The listing so far is the value carried along; it is returned when it is full, at the end of the
  directory and at an unreadable sector. The dot entries are only skipped off the root.
\<close>

definition list_body :: "bool \<Rightarrow> nat \<Rightarrow> (string, string) dir_body" where
  "list_body isroot buflen sec i e out =
     (if e ! 0 = 0 then Inr out
      else if e ! 0 = 0xE5 \<or> e ! 11 = 0x0F \<or> e ! 11 AND 0x08 \<noteq> 0 then Inl out
      else let nm = cstr (decode83 e)
           in if \<not> isroot \<and> (nm = ''.'' \<or> nm = ''..'') then Inl out
              else if buflen \<le> length out + length nm + 2 then Inr out
              else Inl (out @ nm @ [newline]))"

definition fat_listdir :: "fat \<Rightarrow> string \<Rightarrow> nat \<Rightarrow> (vfs_err + string) option" where
  "fat_listdir s path buflen =
     (if \<not> f_mounted s then Some (Inl VFS_ERR_NOENT)
      else case resolve s path of
             None \<Rightarrow> None
           | Some Nowhere \<Rightarrow> Some (Inl VFS_ERR_NOENT)
           | Some (Entry e d) \<Rightarrow> Some (Inl VFS_ERR_NOTDIR)
           | Some (Dir e d) \<Rightarrow>
               (let dir0 = (if is_dir_ent e then clus_from_ent (f_fs s) e else d);
                    dir = (if dir0 = 0 \<and> d \<noteq> 0 then d else dir0)
                in map_option (\<lambda>r. Inr (case_sum id id r))
                     (walk_dir s (list_body (in_root (f_fs s) dir) buflen) id dir [])))"

definition fat_exists :: "fat \<Rightarrow> string \<Rightarrow> bool option" where
  "fat_exists s path = map_option (\<lambda>r. r \<noteq> Nowhere) (resolve s path)"

definition fat_isdir :: "fat \<Rightarrow> string \<Rightarrow> bool option" where
  "fat_isdir s path =
     map_option (\<lambda>r. case r of Dir e d \<Rightarrow> True | Entry e d \<Rightarrow> is_dir_ent e | Nowhere \<Rightarrow> False) (resolve s path)"

definition empty_body :: "(unit, bool) dir_body" where
  "empty_body sec i e u =
     (if e ! 0 = 0 then Inr True
      else if e ! 0 = 0xE5 \<or> e ! 11 = 0x0F then Inl ()
      else if cstr (decode83 e) = ''.'' \<or> cstr (decode83 e) = ''..'' then Inl ()
      else Inr False)"

definition dir_is_empty :: "fat \<Rightarrow> u32 \<Rightarrow> bool option" where
  "dir_is_empty s dir = map_option (case_sum (\<lambda>u. True) id) (walk_dir s empty_body (\<lambda>u. False) dir ())"

definition fat_unlink :: "string \<Rightarrow> fat \<Rightarrow> ((vfs_err + unit) \<times> fat) option" where
  "fat_unlink path s =
     (if \<not> f_mounted s then Some (Inl VFS_ERR_NOENT, s)
      else if cget path 0 = NUL \<or> kstrcmp path ''/disk'' = 0 then Some (Inl VFS_ERR_INVAL, s)
      else case parent_and_name s path of
             None \<Rightarrow> None
           | Some None \<Rightarrow> Some (Inl VFS_ERR_NOENT, s)
           | Some (Some (parent, nm)) \<Rightarrow>
               if nm = ''.'' \<or> nm = ''..'' then Some (Inl VFS_ERR_INVAL, s)
               else (case find_in_dir s parent nm of
                       None \<Rightarrow> None
                     | Some (Found e sec off) \<Rightarrow>
                         if e ! 11 AND 0x08 \<noteq> 0 then Some (Inl VFS_ERR_INVAL, s)
                         else (let start = clus_from_ent (f_fs s) e
                               in case (if is_dir_ent e then dir_is_empty s start else Some True) of
                                    None \<Rightarrow> None
                                  | Some False \<Rightarrow> Some (Inl VFS_ERR_INVAL, s)
                                  | Some True \<Rightarrow>
                                      (case read_sec s sec of
                                         None \<Rightarrow> Some (Inl VFS_ERR_NOSPC, s)
                                       | Some b \<Rightarrow>
                                           (case write_sec sec (b[off := 0xE5]) s of
                                              (False, s1) \<Rightarrow> Some (Inl VFS_ERR_NOSPC, s1)
                                            | (True, s1) \<Rightarrow>
                                                map_option (\<lambda>s2. (Inr (), s2))
                                                  (if 2 \<le> start then free_chain start s1 else Some s1))))
                     | Some _ \<Rightarrow> Some (Inl VFS_ERR_NOENT, s)))"

definition fat_file_size :: "fat \<Rightarrow> string \<Rightarrow> u32 option" where
  "fat_file_size s path =
     map_option (\<lambda>r. case r of Entry e d \<Rightarrow> if is_dir_ent e then 0 else le32 e 28 | _ \<Rightarrow> 0) (resolve s path)"

end
