(* ===== verification/Net.thy ===== *)
theory Net
  imports Vfs
begin

text \<open>
  \<^verbatim>\<open>kernel/net/net.c\<close>: Ethernet, ARP, IPv4, ICMP, UDP, TCP, the sockets and the name lookup over a
  virtio card. The card is its two rings: what it receives comes in by \<open>arrivals\<close>, what it is given
  goes to \<open>wire\<close> and through the buffers in memory. The console messages are left out.
\<close>

section \<open>State\<close>

definition ETH_IP :: u16 where "ETH_IP = 0x0800"
definition ETH_ARP :: u16 where "ETH_ARP = 0x0806"
definition IP_ICMP :: u8 where "IP_ICMP = 1"
definition IP_TCP :: u8 where "IP_TCP = 6"
definition IP_UDP :: u8 where "IP_UDP = 17"
definition NET_SOCK_UDP :: int where "NET_SOCK_UDP = 1"
definition NET_SOCK_TCP :: int where "NET_SOCK_TCP = 2"
definition BCAST :: u32 where "BCAST = 0xFFFFFFFF"
definition SOCK_MAX :: nat where "SOCK_MAX = 16"
definition SOCK_BUF :: nat where "SOCK_BUF = 2048"

text \<open>\<open>so_rbuf\<close> is \<^verbatim>\<open>rbuf[0..rlen]\<close>.\<close>

record sock =
  so_used :: bool
  so_type :: int
  so_lport :: u16
  so_rip :: u32
  so_rport :: u16
  so_listening :: bool
  so_connected :: bool
  so_rbuf :: "u8 list"
  so_seq :: u32
  so_ack :: u32
  so_state :: nat

definition blank_sock :: sock where
  "blank_sock = \<lparr>so_used = False, so_type = 0, so_lport = 0, so_rip = 0, so_rport = 0, so_listening = False,
     so_connected = False, so_rbuf = [], so_seq = 0, so_ack = 0, so_state = 0\<rparr>"

text \<open>
  A frame in a buffer: the bytes from its start on. What lies behind its length is whatever the
  buffer holds, since the handlers may read there.
\<close>

type_synonym packet = "nat \<Rightarrow> u8"

record rx_elem =
  rx_id :: u16
  rx_len :: nat
  rx_bytes :: packet

text \<open>
  \<open>rx_used\<close> are the elements of the used ring from \<^verbatim>\<open>rx_last_used\<close> on, \<open>arrivals\<close> the frames the card
  adds before each of the polls to come, and \<open>wire\<close> the frames handed to the card so far.
\<close>

record net =
  vio_iobase :: u16
  mac :: "u8 list"
  ip_addr :: u32
  ip_gw :: u32
  ip_mask :: u32
  ip_dns :: u32
  net_ready :: bool
  tx_bufs :: "u32 list"
  rx_bufs :: "u32 list"
  tx_idx :: u16
  rx_idx :: u16
  tx_len :: "nat list"
  tx_ring :: "u16 list"
  rx_ring :: "u16 list"
  rx_used :: "rx_elem list"
  arrivals :: "rx_elem list list"
  wire :: "u8 list list"
  nmem :: memory
  arp_mac :: "u8 list"
  arp_ip :: u32
  arp_valid :: bool
  socks :: "sock list"
  ephemeral :: u16
  net_polling :: bool

abbreviation upd_sock :: "nat \<Rightarrow> (sock \<Rightarrow> sock) \<Rightarrow> net \<Rightarrow> net" where
  "upd_sock i f s \<equiv> s\<lparr>socks := (socks s)[i := f (socks s ! i)]\<rparr>"

section \<open>Bytes\<close>

definition be16 :: "u16 \<Rightarrow> u8 list" where
  "be16 x = [ucast (drop_bit 8 x), ucast x]"

definition be32 :: "u32 \<Rightarrow> u8 list" where
  "be32 x = [ucast (drop_bit 24 x), ucast (drop_bit 16 x), ucast (drop_bit 8 x), ucast x]"

definition get16 :: "packet \<Rightarrow> nat \<Rightarrow> u16" where
  "get16 p i = push_bit 8 (ucast (p i)) OR ucast (p (i + 1))"

definition get32 :: "packet \<Rightarrow> nat \<Rightarrow> u32" where
  "get32 p i = push_bit 24 (ucast (p i)) OR push_bit 16 (ucast (p (i + 1))) OR push_bit 8 (ucast (p (i + 2))) OR ucast (p (i + 3))"

definition pkt_bytes :: "packet \<Rightarrow> nat \<Rightarrow> nat \<Rightarrow> u8 list" where
  "pkt_bytes p i n = map (\<lambda>j. p (i + j)) [0..<n]"

definition pkt_at :: "packet \<Rightarrow> nat \<Rightarrow> packet" where
  "pkt_at p i = (\<lambda>j. p (i + j))"

fun csum_loop :: "u8 list \<Rightarrow> u32 \<Rightarrow> u32" where
  "csum_loop [] sm = sm"
| "csum_loop [a] sm = sm + push_bit 8 (ucast a)"
| "csum_loop (a # b # xs) sm = csum_loop xs (sm + (push_bit 8 (ucast a) OR ucast b))"

lemma fold_less: "0 < n div 65536 \<Longrightarrow> n mod 65536 + n div 65536 < (n :: nat)"
proof -
  assume q: "0 < n div 65536"
  have "n = 65536 * (n div 65536) + n mod 65536" by simp
  moreover have "65536 * (n div 65536) = n div 65536 + 65535 * (n div 65536)" by simp
  ultimately show ?thesis using q by linarith
qed

function csum_fold :: "u32 \<Rightarrow> u32" where
  "csum_fold sm = (if drop_bit 16 sm = 0 then sm else csum_fold ((sm AND 0xFFFF) + drop_bit 16 sm))"
  by auto
termination
proof (relation "measure unat")
  fix sm :: u32 assume a: "drop_bit 16 sm \<noteq> 0"
  have h: "unat (drop_bit 16 sm) = unat sm div 65536" by (simp add: drop_bit_eq_div unat_div)
  have "sm AND 0xFFFF = sm mod 65536"
    using take_bit_eq_mask [of 16 sm] by (simp add: take_bit_eq_mod mask_eq_exp_minus_1)
  then have l: "unat (sm AND 0xFFFF) = unat sm mod 65536" by (simp add: unat_mod)
  have b: "unat sm < 4294967296" using unsigned_less [of sm] by simp
  have "0 < unat sm div 65536" using a h by (metis gr0I unat_eq_zero)
  then have "unat sm mod 65536 + unat sm div 65536 < unat sm" by (rule fold_less)
  moreover have "unat ((sm AND 0xFFFF) + drop_bit 16 sm) \<le> unat (sm AND 0xFFFF) + unat (drop_bit 16 sm)"
    by (simp add: unat_word_ariths)
  ultimately show "((sm AND 0xFFFF) + drop_bit 16 sm, sm) \<in> measure unat" using h l by simp
qed simp

declare csum_fold.simps [simp del]

definition inet_checksum :: "u8 list \<Rightarrow> u16" where
  "inet_checksum bs = NOT (ucast (csum_fold (csum_loop bs 0)))"

section \<open>Sending\<close>

definition eth_send :: "u8 list \<Rightarrow> net \<Rightarrow> net" where
  "eth_send f s =
     (let i = unat (tx_idx s) mod 16 in
      if vio_iobase s = 0 \<or> tx_bufs s ! i = 0 then s
      else let f = take 1500 f;
               m = mem_store (nmem s) (tx_bufs s ! i + 10) f;
               m = kmemset m (tx_bufs s ! i) 0 10
           in s\<lparr>nmem := m, tx_len := (tx_len s)[i := length f + 10],
                tx_ring := (tx_ring s)[unat (tx_idx s) mod 64 := of_nat i], tx_idx := tx_idx s + 1, wire := wire s @ [f]\<rparr>)"

definition arp_frame :: "net \<Rightarrow> u32 \<Rightarrow> bool \<Rightarrow> u8 list option \<Rightarrow> u8 list" where
  "arp_frame s tip reply tha =
     (case tha of Some h \<Rightarrow> if reply then h else replicate 6 0xFF | None \<Rightarrow> replicate 6 0xFF) @ mac s @
     [0x08, 0x06, 0, 1, 0x08, 0, 6, 4, 0, if reply then 2 else 1] @ mac s @ be32 (ip_addr s) @
     (case tha of Some h \<Rightarrow> h | None \<Rightarrow> replicate 6 0) @ be32 tip"

definition arp_send :: "u32 \<Rightarrow> bool \<Rightarrow> u8 list option \<Rightarrow> net \<Rightarrow> net" where
  "arp_send tip reply tha s = eth_send (arp_frame s tip reply tha) s"

definition same_subnet :: "net \<Rightarrow> u32 \<Rightarrow> bool" where
  "same_subnet s dst \<longleftrightarrow> ip_mask s \<noteq> 0 \<and> dst AND ip_mask s = ip_addr s AND ip_mask s"

definition route_nexthop :: "net \<Rightarrow> u32 \<Rightarrow> u32" where
  "route_nexthop s dst =
     (if dst = BCAST then dst else if same_subnet s dst then dst else if ip_gw s \<noteq> 0 then ip_gw s else dst)"

text \<open>The header with a zero checksum, then with its own.\<close>

definition ip_header :: "net \<Rightarrow> u32 \<Rightarrow> u8 \<Rightarrow> nat \<Rightarrow> u16 \<Rightarrow> u8 list" where
  "ip_header s dst proto plen csum =
     [0x45, 0] @ be16 (of_nat (20 + plen)) @ [0, 1, 0, 0, 64, proto] @ be16 csum @ be32 (ip_addr s) @ be32 dst"

definition ip_frame :: "net \<Rightarrow> u8 list \<Rightarrow> u32 \<Rightarrow> u8 \<Rightarrow> u8 list \<Rightarrow> u8 list" where
  "ip_frame s dstmac dst proto payload =
     dstmac @ mac s @ [0x08, 0x00] @
     ip_header s dst proto (length payload) (inet_checksum (ip_header s dst proto (length payload) 0)) @ payload"

text \<open>A packet whose next hop has no address yet is dropped, and the question sent instead.\<close>

definition ip_send :: "u32 \<Rightarrow> u8 \<Rightarrow> u8 list \<Rightarrow> net \<Rightarrow> net" where
  "ip_send dst proto payload s =
     (if length payload > 1514 - 34 then s
      else if dst = BCAST then eth_send (ip_frame s (replicate 6 0xFF) dst proto payload) s
      else if arp_valid s \<and> arp_ip s = dst then eth_send (ip_frame s (arp_mac s) dst proto payload) s
      else if same_subnet s dst then arp_send dst False None s
      else if ip_gw s \<noteq> 0 then
        (if \<not> (arp_valid s \<and> arp_ip s = ip_gw s) then arp_send (ip_gw s) False None s
         else eth_send (ip_frame s (arp_mac s) dst proto payload) s)
      else arp_send dst False None s)"

definition udp_send :: "u32 \<Rightarrow> u16 \<Rightarrow> u16 \<Rightarrow> u8 list \<Rightarrow> net \<Rightarrow> net" where
  "udp_send dst sport dport data s =
     (let data = take (1480 - 8) data
      in ip_send dst IP_UDP (be16 sport @ be16 dport @ be16 (of_nat (8 + length data)) @ [0, 0] @ data) s)"

definition tcp_segment :: "u16 \<Rightarrow> u16 \<Rightarrow> u32 \<Rightarrow> u32 \<Rightarrow> u8 \<Rightarrow> u8 list \<Rightarrow> u8 list" where
  "tcp_segment sport dport sq ack flags data =
     be16 sport @ be16 dport @ be32 sq @ be32 ack @ [0x50, flags, 0xFF, 0xFF, 0, 0, 0, 0] @ take (1480 - 20) data"

definition tcp_send_raw :: "u32 \<Rightarrow> u16 \<Rightarrow> u16 \<Rightarrow> u32 \<Rightarrow> u32 \<Rightarrow> u8 \<Rightarrow> u8 list \<Rightarrow> net \<Rightarrow> net" where
  "tcp_send_raw dst sport dport sq ack flags data = ip_send dst IP_TCP (tcp_segment sport dport sq ack flags data)"

section \<open>Receiving\<close>

definition sock_take :: "u8 list \<Rightarrow> sock \<Rightarrow> sock" where
  "sock_take bs k = k\<lparr>so_rbuf := so_rbuf k @ take (SOCK_BUF - length (so_rbuf k)) bs\<rparr>"

definition udp_sock :: "u32 \<Rightarrow> u16 \<Rightarrow> u16 \<Rightarrow> u8 list \<Rightarrow> sock \<Rightarrow> sock" where
  "udp_sock src sport dport data k =
     (if \<not> so_used k \<or> so_type k \<noteq> NET_SOCK_UDP then k
      else if so_lport k = dport then (sock_take data k)\<lparr>so_rip := src, so_rport := sport\<rparr>
      else k)"

definition handle_udp :: "u32 \<Rightarrow> packet \<Rightarrow> nat \<Rightarrow> net \<Rightarrow> net" where
  "handle_udp src udp len s =
     (let sport = get16 udp 0; dport = get16 udp 2; ulen = unat (get16 udp 4) in
      if ulen < 8 \<or> ulen > len then s
      else s\<lparr>socks := map (udp_sock src sport dport (pkt_bytes udp 8 (ulen - 8))) (socks s)\<rparr>)"

definition icmp_reply :: "packet \<Rightarrow> nat \<Rightarrow> u8 list" where
  "icmp_reply icmp len =
     (let r = (pkt_bytes icmp 0 (min len 64))[0 := 0, 2 := 0, 3 := 0]; c = inet_checksum r
      in r[2 := ucast (drop_bit 8 c), 3 := ucast c])"

definition handle_icmp :: "u32 \<Rightarrow> packet \<Rightarrow> nat \<Rightarrow> net \<Rightarrow> net" where
  "handle_icmp src icmp len s =
     (if len < 8 \<or> icmp 0 \<noteq> 8 then s else ip_send src IP_ICMP (icmp_reply icmp len) s)"

text \<open>One socket's turn in the loop of \<^verbatim>\<open>handle_tcp\<close>.\<close>

definition tcp_reply :: "nat \<Rightarrow> u32 \<Rightarrow> u16 \<Rightarrow> u16 \<Rightarrow> u8 \<Rightarrow> net \<Rightarrow> net" where
  "tcp_reply i src dport sport flags s = tcp_send_raw src dport sport (so_seq (socks s ! i)) (so_ack (socks s ! i)) flags [] s"

definition tcp_listen :: "nat \<Rightarrow> u32 \<Rightarrow> u16 \<Rightarrow> u16 \<Rightarrow> u32 \<Rightarrow> net \<Rightarrow> net" where
  "tcp_listen i src sport dport sq s =
     (let s = upd_sock i (\<lambda>k. k\<lparr>so_rip := src, so_rport := sport, so_ack := sq + 1, so_seq := 1,
            so_connected := True, so_state := 1\<rparr>) s;
          s = tcp_reply i src dport sport 0x12 s
      in upd_sock i (\<lambda>k. k\<lparr>so_seq := so_seq k + 1\<rparr>) s)"

text \<open>
  \<^verbatim>\<open>pay\<close> is cut to the room of a socket's buffer and stays cut for the sockets after it: \<open>data\<close> is what is left of the
  segment when the loop comes to the socket.
\<close>

definition tcp_left :: "u8 list \<Rightarrow> sock \<Rightarrow> u8 list" where
  "tcp_left data k = take (SOCK_BUF - length (so_rbuf k)) data"

definition tcp_sock :: "u32 \<Rightarrow> u16 \<Rightarrow> u16 \<Rightarrow> u32 \<Rightarrow> u8 \<Rightarrow> nat \<Rightarrow> u8 list \<times> net \<Rightarrow> u8 list \<times> net" where
  "tcp_sock src sport dport sq flags i = (\<lambda>(data, s).
     let k = socks s ! i in
      if \<not> so_used k \<or> so_type k \<noteq> NET_SOCK_TCP then (data, s)
      else if so_listening k \<and> so_lport k = dport \<and> flags AND 0x02 \<noteq> 0 then (data, tcp_listen i src sport dport sq s)
      else if so_lport k = dport \<and> so_rip k = src \<and> so_rport k = sport then
        let s = (if flags AND 0x12 = 0x12 then
                   upd_sock i (\<lambda>k. k\<lparr>so_connected := True, so_state := 2\<rparr>)
                     (tcp_reply i src dport sport 0x10 (upd_sock i (\<lambda>k. k\<lparr>so_ack := sq + 1\<rparr>) s))
                 else if flags AND 0x10 \<noteq> 0 then upd_sock i (\<lambda>k. k\<lparr>so_connected := True\<rparr>) s else s);
            (data, s) = (if data = [] then (data, s)
                 else let data = tcp_left data (socks s ! i) in
                   (data, tcp_reply i src dport sport 0x10
                     (upd_sock i (\<lambda>k. (sock_take data k)\<lparr>so_ack := sq + of_nat (length data)\<rparr>) s)))
        in (data, if flags AND 0x01 \<noteq> 0 then
             upd_sock i (\<lambda>k. k\<lparr>so_connected := False\<rparr>)
               (tcp_reply i src dport sport 0x10 (upd_sock i (\<lambda>k. k\<lparr>so_ack := sq + 1\<rparr>) s))
           else s)
      else (data, s))"

definition tcp_hdr :: "packet \<Rightarrow> nat" where
  "tcp_hdr tcp = unat (drop_bit 4 (tcp 12)) * 4"

definition handle_tcp :: "u32 \<Rightarrow> packet \<Rightarrow> nat \<Rightarrow> net \<Rightarrow> net" where
  "handle_tcp src tcp len s =
     (let sport = get16 tcp 0; dport = get16 tcp 2; sq = get32 tcp 4; flags = tcp 13;
          data = pkt_bytes tcp (tcp_hdr tcp) (len - tcp_hdr tcp)
      in snd (fold (tcp_sock src sport dport sq flags) [0..<SOCK_MAX] (data, s)))"

definition handle_frame :: "packet \<Rightarrow> nat \<Rightarrow> net \<Rightarrow> net" where
  "handle_frame f len s =
     (if len < 14 then s
      else let ethertype = get16 f 12 in
      if ethertype = ETH_ARP \<and> len \<ge> 42 then
        let op = get16 f 20; sip = get32 f 28; tip = get32 f 38;
            s = (if op = 1 \<and> tip = ip_addr s then arp_send sip True (Some (pkt_bytes f 22 6)) s else s)
        in if op = 2 then s\<lparr>arp_mac := pkt_bytes f 22 6, arp_ip := sip, arp_valid := True\<rparr> else s
      else if ethertype = ETH_IP \<and> len \<ge> 34 then
        let ihl = unat (f 14 AND 0xF) * 4; proto = f 23; src = get32 f 26; total = unat (get16 f 16);
            payload = pkt_at f (14 + ihl); plen = total - ihl
        in if 14 + total > len then s
           else if proto = IP_ICMP then handle_icmp src payload plen s
           else if proto = IP_UDP then handle_udp src payload plen s
           else if proto = IP_TCP then handle_tcp src payload plen s
           else s
      else s)"

text \<open>At most 32 elements of the used ring, each handled and its buffer given back.\<close>

primrec poll_loop :: "nat \<Rightarrow> net \<Rightarrow> net" where
  "poll_loop 0 s = s"
| "poll_loop (Suc g) s =
     (case rx_used s of [] \<Rightarrow> s
      | e # es \<Rightarrow>
        let s = (if rx_len e > 10 then handle_frame (pkt_at (rx_bytes e) 10) (rx_len e - 10) s else s)
        in poll_loop g (s\<lparr>rx_ring := (rx_ring s)[unat (rx_idx s) mod 64 := rx_id e], rx_idx := rx_idx s + 1, rx_used := es\<rparr>))"

definition arrive :: "net \<Rightarrow> net" where
  "arrive s = (case arrivals s of [] \<Rightarrow> s | b # bs \<Rightarrow> s\<lparr>rx_used := rx_used s @ b, arrivals := bs\<rparr>)"

definition net_poll :: "net \<Rightarrow> net" where
  "net_poll s =
     (let s = arrive s in
      if vio_iobase s = 0 \<or> net_polling s then s else (poll_loop 32 (s\<lparr>net_polling := True\<rparr>))\<lparr>net_polling := False\<rparr>)"

section \<open>The card's buffers\<close>

text \<open>
  \<^verbatim>\<open>virtio_init\<close>: \<open>probe\<close> is what the PCI bus answers, the card's port base and MAC address. The rings
  are fields of the record; the buffers they point to lie in the eight pages allocated here.
\<close>

definition RX_BUF :: nat where "RX_BUF = 1520"

definition rx_buf_addr :: "u32 \<Rightarrow> nat \<Rightarrow> u32" where
  "rx_buf_addr page i = page + 0x1000 + of_nat (i * RX_BUF)"

definition tx_buf_addr :: "u32 \<Rightarrow> nat \<Rightarrow> u32" where
  "tx_buf_addr page i = page + 0x1000 + of_nat (16 * RX_BUF) + of_nat (i * RX_BUF)"

definition virtio_init :: "(u16 \<times> u8 list) option \<Rightarrow> net \<times> mm \<Rightarrow> bool \<times> net \<times> mm" where
  "virtio_init probe = (\<lambda>(s, m).
     case probe of None \<Rightarrow> (False, s, m)
     | Some (base, hw) \<Rightarrow>
       let s = s\<lparr>vio_iobase := base, mac := hw\<rparr> in
       case mm_alloc_pages 8 m of (None, m) \<Rightarrow> (False, s, m)
       | (Some page, m) \<Rightarrow>
         let m = m\<lparr>mem := kmemset (mem m) page 0 (8 * PAGE_SIZE)\<rparr>
         in (True, s\<lparr>rx_bufs := map (rx_buf_addr page) [0..<16], tx_bufs := map (tx_buf_addr page) [0..<16],
              rx_ring := map of_nat [0..<16] @ replicate 48 0, tx_ring := replicate 64 0, tx_len := replicate 16 0,
              rx_idx := 16, tx_idx := 0, rx_used := [], nmem := mem m\<rparr>, m))"

section \<open>Sockets\<close>

definition sock_ok :: "net \<Rightarrow> int \<Rightarrow> bool" where
  "sock_ok s fd \<longleftrightarrow> 0 \<le> fd \<and> fd < int SOCK_MAX \<and> so_used (socks s ! nat fd)"

definition net_socket :: "int \<Rightarrow> net \<Rightarrow> int \<times> net" where
  "net_socket ty s =
     (case first_from (\<lambda>k. \<not> so_used k) (socks s) 0 of None \<Rightarrow> (-1, s)
      | Some i \<Rightarrow> (int i, upd_sock i (\<lambda>_. blank_sock\<lparr>so_used := True, so_type := ty\<rparr>) s))"

definition net_bind :: "int \<Rightarrow> u32 \<Rightarrow> u16 \<Rightarrow> net \<Rightarrow> int \<times> net" where
  "net_bind fd ip port s =
     (if \<not> sock_ok s fd then (-1, s) else (0, upd_sock (nat fd) (\<lambda>k. k\<lparr>so_lport := port\<rparr>) s))"

definition net_listen :: "int \<Rightarrow> int \<Rightarrow> net \<Rightarrow> int \<times> net" where
  "net_listen fd backlog s =
     (if \<not> sock_ok s fd then (-1, s)
      else (0, upd_sock (nat fd) (\<lambda>k. k\<lparr>so_listening := True, so_type := NET_SOCK_TCP\<rparr>) s))"

text \<open>
  \<open>clock n\<close> is the \<open>n\<close>-th reading of the timer; the loop ends when a reading is a second late, so it
  returns when the clock runs (\<open>fuel\<close> counts the polls).
\<close>

primrec accept_loop :: "nat \<Rightarrow> (nat \<Rightarrow> u32) \<Rightarrow> nat \<Rightarrow> nat \<Rightarrow> net \<Rightarrow> (int \<times> net) option" where
  "accept_loop 0 clock n i s = None"
| "accept_loop (Suc fuel) clock n i s =
     (if \<not> clock n - clock 0 < 1000 then Some (-1, s)
      else let s = net_poll s in
        if so_connected (socks s ! i) then Some (int i, s) else accept_loop fuel clock (Suc n) i s)"

definition net_accept :: "nat \<Rightarrow> (nat \<Rightarrow> u32) \<Rightarrow> int \<Rightarrow> net \<Rightarrow> (int \<times> net) option" where
  "net_accept fuel clock fd s =
     (if \<not> sock_ok s fd then Some (-1, s) else accept_loop fuel clock 1 (nat fd) s)"

definition arp_known :: "u32 \<Rightarrow> net \<Rightarrow> bool" where
  "arp_known ip s \<longleftrightarrow> arp_valid s \<and> arp_ip s = ip"

primrec arp_wait :: "nat \<Rightarrow> u32 \<Rightarrow> net \<Rightarrow> net" where
  "arp_wait 0 nh s = s"
| "arp_wait (Suc g) nh s =
     (if arp_known nh s then s else arp_wait g nh (net_poll (arp_send nh False None s)))"

fun syn_loop :: "nat list \<Rightarrow> u32 \<Rightarrow> u16 \<Rightarrow> nat \<Rightarrow> net \<Rightarrow> int \<times> net" where
  "syn_loop [] ip port i s = (-1, s)"
| "syn_loop (t # ts) ip port i s =
     (let s = (if t mod 40 = 0 then upd_sock i (\<lambda>k. k\<lparr>so_seq := 2\<rparr>)
                 (tcp_send_raw ip (so_lport (socks s ! i)) port 1 0 0x02 [] s) else s);
          s = net_poll s
      in if so_connected (socks s ! i) then (0, s) else syn_loop ts ip port i s)"

definition net_connect :: "int \<Rightarrow> u32 \<Rightarrow> u16 \<Rightarrow> net \<Rightarrow> int \<times> net" where
  "net_connect fd ip port s =
     (if \<not> sock_ok s fd then (-1, s)
      else let i = nat fd;
               s = upd_sock i (\<lambda>k. k\<lparr>so_type := NET_SOCK_TCP, so_rip := ip, so_rport := port, so_connected := False,
                     so_rbuf := []\<rparr>) s;
               s = (if so_lport (socks s ! i) = 0
                    then (upd_sock i (\<lambda>k. k\<lparr>so_lport := ephemeral s\<rparr>) s)\<lparr>ephemeral := ephemeral s + 1\<rparr> else s);
               s = upd_sock i (\<lambda>k. k\<lparr>so_seq := 1, so_ack := 0, so_state := 0\<rparr>) s;
               nh = route_nexthop s ip;
               s = arp_wait 16 nh s
           in if \<not> arp_known nh s \<and> nh \<noteq> BCAST then (-1, s) else syn_loop [0..<400] ip port i s)"

definition net_send :: "int \<Rightarrow> u8 list \<Rightarrow> net \<Rightarrow> int \<times> net" where
  "net_send fd bs s =
     (let s = net_poll s in
      if \<not> sock_ok s fd then (-1, s)
      else let k = socks s ! nat fd in
        if so_type k = NET_SOCK_UDP then (int (length bs), udp_send (so_rip k) (so_lport k) (so_rport k) bs s)
        else if so_type k = NET_SOCK_TCP then
          (int (length bs), upd_sock (nat fd) (\<lambda>k. k\<lparr>so_seq := so_seq k + of_nat (length bs)\<rparr>)
             (tcp_send_raw (so_rip k) (so_lport k) (so_rport k) (so_seq k) (so_ack k) 0x18 bs s))
        else (-1, s))"

primrec recv_spin :: "nat \<Rightarrow> nat \<Rightarrow> net \<Rightarrow> net" where
  "recv_spin 0 i s = s"
| "recv_spin (Suc g) i s =
     (if so_rbuf (socks s ! i) = [] \<and> so_connected (socks s ! i) then recv_spin g i (net_poll s) else s)"

text \<open>The bytes read; \<open>None\<close> for the error.\<close>

definition recv_with :: "nat \<Rightarrow> int \<Rightarrow> nat \<Rightarrow> net \<Rightarrow> u8 list option \<times> net" where
  "recv_with g fd n s =
     (if \<not> sock_ok s fd then (None, s)
      else let i = nat fd; s = recv_spin g i s; b = so_rbuf (socks s ! i) in
        if b = [] then (if so_connected (socks s ! i) then Some [] else None, s)
        else (Some (take n b), upd_sock i (\<lambda>k. k\<lparr>so_rbuf := drop n b\<rparr>) s))"

definition net_recv :: "int \<Rightarrow> nat \<Rightarrow> net \<Rightarrow> u8 list option \<times> net" where
  "net_recv = recv_with 20000"

definition net_close :: "int \<Rightarrow> net \<Rightarrow> int \<times> net" where
  "net_close fd s =
     (if \<not> sock_ok s fd then (-1, s)
      else let k = socks s ! nat fd;
               s = (if so_type k = NET_SOCK_TCP \<and> so_connected k then
                      tcp_send_raw (so_rip k) (so_lport k) (so_rport k) (so_seq k) (so_ack k) 0x11 [] s else s)
           in (0, upd_sock (nat fd) (\<lambda>_. blank_sock) s))"

definition net_init :: "(u16 \<times> u8 list) option \<Rightarrow> net \<times> mm \<Rightarrow> net \<times> mm" where
  "net_init probe = (\<lambda>(s, m).
     let s = s\<lparr>socks := replicate SOCK_MAX blank_sock, ip_addr := 0, net_ready := False\<rparr>;
         (ok, s, m) = virtio_init probe (s, m);
         (fd, s) = net_socket NET_SOCK_UDP s
     in (if fd \<ge> 0 then snd (net_bind fd 0 68 s) else s, m))"

section \<open>Names\<close>

text \<open>The labels of a host name, each after its length.\<close>

function dns_labels :: "string \<Rightarrow> u8 list" where
  "dns_labels host =
     (if host = [] then []
      else let lab = takeWhile (\<lambda>c. c \<noteq> CHR ''.'') host; rest = dropWhile (\<lambda>c. c \<noteq> CHR ''.'') host
           in of_nat (length lab) # map of_char lab @ dns_labels (tl rest))"
  by auto
termination
proof (relation "measure length")
  fix host :: string and lab rest
  assume h: "host \<noteq> []" "rest = dropWhile (\<lambda>c. c \<noteq> CHR ''.'') host"
  have "length rest \<le> length host" unfolding h(2) by (rule length_dropWhile_le)
  with h(1) show "(tl rest, host) \<in> measure length" by (cases host) auto
qed simp

declare dns_labels.simps [simp del]

definition dns_query :: "string \<Rightarrow> u8 list" where
  "dns_query host = be16 0x1234 @ [1, 0, 0, 1, 0, 0, 0, 0, 0, 0] @ dns_labels (cstr host) @ [0, 0, 1, 0, 1]"

text \<open>The scan for an address in the answer, from the end.\<close>

definition dns_scan :: "u8 list \<Rightarrow> u32" where
  "dns_scan r =
     (if length r < 16 then 0
      else case find (\<lambda>j. r ! j = 0 \<and> j + 4 < length r) (rev [12..<length r - 3]) of None \<Rightarrow> 0
        | Some j \<Rightarrow> get32 ((!) r) j)"

definition net_dns :: "string \<Rightarrow> net \<Rightarrow> u32 \<times> net" where
  "net_dns host s =
     (let (fd, s) = net_socket NET_SOCK_UDP s in
      if fd < 0 then (0, s)
      else let s = snd (net_bind fd 0 (ephemeral s) (s\<lparr>ephemeral := ephemeral s + 1\<rparr>));
               s = upd_sock (nat fd) (\<lambda>k. k\<lparr>so_rip := (if ip_dns s \<noteq> 0 then ip_dns s else 0x08080808), so_rport := 53\<rparr>) s;
               s = snd (net_send fd (dns_query host) s);
               (r, s) = net_recv fd 512 s;
               s = upd_sock (nat fd) (\<lambda>k. k\<lparr>so_used := False\<rparr>) s
           in (case r of None \<Rightarrow> 0 | Some r \<Rightarrow> dns_scan r, s))"

section \<open>Configuration\<close>

text \<open>The lines of \<^verbatim>\<open>network.conf\<close>, empty ones included.\<close>

fun conf_lines :: "string \<Rightarrow> string list" where
  "conf_lines [] = [[]]"
| "conf_lines (c # cs) =
     (if c = newline \<or> c = CHR 0x0D then [] # conf_lines cs
      else case conf_lines cs of l # ls \<Rightarrow> (c # l) # ls | [] \<Rightarrow> [[c]])"

definition skip_dot :: "string \<Rightarrow> string" where
  "skip_dot s = (case s of [] \<Rightarrow> [] | c # cs \<Rightarrow> if c = CHR ''.'' then cs else s)"

definition conf_quad :: "string \<Rightarrow> u32" where
  "conf_quad p =
     (let a = katoi_loop 0 p; p = skip_dot (dropWhile is_dec p);
          b = katoi_loop 0 p; p = skip_dot (dropWhile is_dec p);
          c = katoi_loop 0 p; p = skip_dot (dropWhile is_dec p);
          d = katoi_loop 0 p
      in push_bit 24 a OR push_bit 16 b OR push_bit 8 c OR d)"

text \<open>Address, gateway, mask, name server.\<close>

definition conf_line :: "string \<Rightarrow> u32 \<times> u32 \<times> u32 \<times> u32 \<Rightarrow> u32 \<times> u32 \<times> u32 \<times> u32" where
  "conf_line l = (\<lambda>(ip, gw, mask, dns).
     let line = cstr (take 79 l); p = dropWhile (\<lambda>c. \<not> is_dec c) line; key = take 3 line in
     if line = [] \<or> cget line 0 = CHR ''#'' \<or> p = [] then (ip, gw, mask, dns)
     else if key = ''ip='' then (conf_quad p, gw, mask, dns)
     else if key = ''gw='' then (ip, conf_quad p, mask, dns)
     else if key = ''mas'' then (ip, gw, conf_quad p, dns)
     else if key = ''dns'' then (ip, gw, mask, conf_quad p)
     else (ip, gw, mask, dns))"

text \<open>\<open>conf\<close> is what \<^verbatim>\<open>vfs_read_file\<close> returned.\<close>

definition net_start_dhcp :: "(vfs_err + string) \<Rightarrow> net \<Rightarrow> net" where
  "net_start_dhcp conf s =
     (let (ip, gw, mask, dns) = (case conf of Inl e \<Rightarrow> id
            | Inr txt \<Rightarrow> if txt = [] then id else fold conf_line (conf_lines txt)) (0x0A00020F, 0x0A000202, 0xFFFFFF00, 0x0A000203)
      in s\<lparr>ip_addr := ip, ip_gw := gw, ip_mask := mask, ip_dns := dns, net_ready := True\<rparr>)"

definition dec_digit_char :: "nat \<Rightarrow> char" where
  "dec_digit_char d = char_of (48 + d)"

text \<open>Decimal digits of a byte.\<close>

definition byte_text :: "nat \<Rightarrow> string" where
  "byte_text v =
     (if v < 10 then [dec_digit_char v]
      else if v < 100 then [dec_digit_char (v div 10), dec_digit_char (v mod 10)]
      else [dec_digit_char (v div 100), dec_digit_char (v div 10 mod 10), dec_digit_char (v mod 10)])"

definition ip_to_str :: "u32 \<Rightarrow> string" where
  "ip_to_str ip =
     (let b = (\<lambda>n. byte_text (unat (drop_bit n ip AND 255)))
      in b 24 @ ''.'' @ b 16 @ ''.'' @ b 8 @ ''.'' @ b 0)"

definition put_text :: "nat \<Rightarrow> string \<Rightarrow> string \<Rightarrow> string" where
  "put_text n t acc = (if length acc + length t + 1 < n then acc @ t else acc)"

definition net_ifconfig :: "nat \<Rightarrow> net \<Rightarrow> string" where
  "net_ifconfig n s =
     fold (put_text n) [''eth0 ip '', ip_to_str (ip_addr s), '' gw '', ip_to_str (ip_gw s), '' dns '', ip_to_str (ip_dns s), [newline]] []"

definition net_ping :: "u32 \<Rightarrow> net \<Rightarrow> int \<times> net" where
  "net_ping ip s = (0, ((\<lambda>s. net_poll (eth_send (arp_frame s ip False None) s)) ^^ 4) s)"

end
