(* ===== verification/Mouse.thy ===== *)
theory Mouse
  imports Prelude
begin

text \<open>
  \<^verbatim>\<open>kernel/drivers/mouse.c\<close>: the PS/2 mouse protocol. The controller is a device outside the program:
  its state has type \<open>'d\<close>, and every operation that touches the ports takes \<open>inb\<close> and \<open>outb\<close> as
  arguments (port and device state to byte and device state; port, byte and device state to device
  state).
\<close>

record mouse =
  m_x :: int
  m_y :: int
  m_buttons :: int
  m_dx :: int
  m_dy :: int
  g_packet :: "u8 list"
  g_cycle :: nat
  g_packet_size :: nat
  g_have_wheel :: bool
  g_wheel :: int
  g_moved :: bool
  g_screen_w :: int
  g_screen_h :: int

text \<open>The initial values of the file's variables.\<close>

definition mouse_boot :: mouse where
  "mouse_boot = \<lparr>m_x = 0, m_y = 0, m_buttons = 0, m_dx = 0, m_dy = 0, g_packet = replicate 4 0,
     g_cycle = 0, g_packet_size = 3, g_have_wheel = False, g_wheel = 0, g_moved = False,
     g_screen_w = 1024, g_screen_h = 768\<rparr>"

section \<open>The protocol\<close>

text \<open>The coordinates after a movement, first raised to 0 and then lowered to the screen's last.\<close>

definition clamp :: "int \<Rightarrow> int \<Rightarrow> int" where
  "clamp v limit = (let v = (if v < 0 then 0 else v) in if v \<ge> limit then limit - 1 else v)"

text \<open>A complete packet.\<close>

definition mouse_packet :: "mouse \<Rightarrow> mouse" where
  "mouse_packet m =
     (let flags = g_packet m ! 0 in
      if flags AND 0x08 = 0 then m
      else if flags AND 0xC0 \<noteq> 0 then m
      else let dx = uint (g_packet m ! 1) - (if flags AND 0x10 \<noteq> 0 then 256 else 0);
               dy = - (uint (g_packet m ! 2) - (if flags AND 0x20 \<noteq> 0 then 256 else 0));
               z = (if g_have_wheel m \<and> g_packet_size m \<ge> 4 then sint (g_packet m ! 3) else 0)
           in m\<lparr>m_dx := dx, m_dy := dy, m_x := clamp (m_x m + dx) (g_screen_w m),
                m_y := clamp (m_y m + dy) (g_screen_h m), m_buttons := uint (flags AND 0x07),
                g_wheel := g_wheel m + z, g_moved := True\<rparr>)"

definition mouse_handle_byte :: "u8 \<Rightarrow> mouse \<Rightarrow> mouse" where
  "mouse_handle_byte data m =
     (if g_cycle m = 0 \<and> data AND 0x08 = 0 then m
      else let m = m\<lparr>g_packet := (g_packet m)[g_cycle m := data], g_cycle := g_cycle m + 1\<rparr> in
           if g_cycle m < g_packet_size m then m
           else mouse_packet (m\<lparr>g_cycle := 0\<rparr>))"

definition mouse_byte :: "u8 \<Rightarrow> mouse \<Rightarrow> mouse" where
  "mouse_byte data m = mouse_handle_byte data m"

section \<open>Ports\<close>

text \<open>\<^verbatim>\<open>mouse_wait\<close>: poll the status until the controller is ready, at most \<open>timeout\<close> times.\<close>

primrec wait_loop :: "(u16 \<Rightarrow> 'd \<Rightarrow> u8 \<times> 'd) \<Rightarrow> bool \<Rightarrow> nat \<Rightarrow> 'd \<Rightarrow> 'd" where
  "wait_loop inb input 0 d = d"
| "wait_loop inb input (Suc n) d =
     (let (st, d) = inb 0x64 d
      in if (if input then st AND 1 = 0 else st AND 2 \<noteq> 0) then wait_loop inb input n d else d)"

definition mouse_wait :: "(u16 \<Rightarrow> 'd \<Rightarrow> u8 \<times> 'd) \<Rightarrow> nat \<Rightarrow> 'd \<Rightarrow> 'd" where
  "mouse_wait inb ty d = wait_loop inb (ty = 0) 100000 d"

definition mouse_write :: "(u16 \<Rightarrow> 'd \<Rightarrow> u8 \<times> 'd) \<Rightarrow> (u16 \<Rightarrow> u8 \<Rightarrow> 'd \<Rightarrow> 'd) \<Rightarrow> u8 \<Rightarrow> 'd \<Rightarrow> 'd" where
  "mouse_write inb outb val d =
     outb 0x60 val (mouse_wait inb 1 (outb 0x64 0xD4 (mouse_wait inb 1 d)))"

definition mouse_read :: "(u16 \<Rightarrow> 'd \<Rightarrow> u8 \<times> 'd) \<Rightarrow> 'd \<Rightarrow> u8 \<times> 'd" where
  "mouse_read inb d = inb 0x60 (mouse_wait inb 0 d)"

text \<open>A command whose answer is dropped.\<close>

definition mouse_cmd :: "(u16 \<Rightarrow> 'd \<Rightarrow> u8 \<times> 'd) \<Rightarrow> (u16 \<Rightarrow> u8 \<Rightarrow> 'd \<Rightarrow> 'd) \<Rightarrow> u8 \<Rightarrow> 'd \<Rightarrow> 'd" where
  "mouse_cmd inb outb val d = snd (mouse_read inb (mouse_write inb outb val d))"

definition mouse_enable_wheel ::
  "(u16 \<Rightarrow> 'd \<Rightarrow> u8 \<times> 'd) \<Rightarrow> (u16 \<Rightarrow> u8 \<Rightarrow> 'd \<Rightarrow> 'd) \<Rightarrow> mouse \<times> 'd \<Rightarrow> mouse \<times> 'd" where
  "mouse_enable_wheel inb outb = (\<lambda>(m, d).
     let d = fold (mouse_cmd inb outb) [0xF3, 200, 0xF3, 100, 0xF3, 80] d;
         (answer, d) = mouse_read inb (mouse_write inb outb 0xF2 d)
     in (if answer = 3 then m\<lparr>g_have_wheel := True, g_packet_size := 4\<rparr> else m, d))"

definition mouse_init ::
  "(u16 \<Rightarrow> 'd \<Rightarrow> u8 \<times> 'd) \<Rightarrow> (u16 \<Rightarrow> u8 \<Rightarrow> 'd \<Rightarrow> 'd) \<Rightarrow> mouse \<times> 'd \<Rightarrow> mouse \<times> 'd" where
  "mouse_init inb outb = (\<lambda>(m, d).
     let m = m\<lparr>m_x := 512, m_y := 384, m_buttons := 0, g_cycle := 0, g_moved := False, g_wheel := 0,
               g_have_wheel := False, g_packet_size := 3\<rparr>;
         d = outb 0x64 0xA8 (mouse_wait inb 1 d);
         d = outb 0x64 0x20 (mouse_wait inb 1 d);
         (status, d) = inb 0x60 (mouse_wait inb 0 d);
         status = (status OR 0x02) AND NOT 0x20;
         d = outb 0x64 0x60 (mouse_wait inb 1 d);
         d = outb 0x60 status (mouse_wait inb 1 d);
         d = mouse_cmd inb outb 0xF6 d;
         (m, d) = mouse_enable_wheel inb outb (m, d)
     in (m, mouse_cmd inb outb 0xF4 d))"

definition mouse_irq_handler :: "(u16 \<Rightarrow> 'd \<Rightarrow> u8 \<times> 'd) \<Rightarrow> mouse \<times> 'd \<Rightarrow> mouse \<times> 'd" where
  "mouse_irq_handler inb = (\<lambda>(m, d).
     let (status, d) = inb 0x64 d in
     if status AND 1 = 0 then (m, d)
     else if status AND 0x20 = 0 then (m, d)
     else let (data, d) = inb 0x60 d in (mouse_handle_byte data m, d))"

primrec mouse_poll_loop :: "(u16 \<Rightarrow> 'd \<Rightarrow> u8 \<times> 'd) \<Rightarrow> nat \<Rightarrow> mouse \<times> 'd \<Rightarrow> mouse \<times> 'd" where
  "mouse_poll_loop inb 0 s = s"
| "mouse_poll_loop inb (Suc guard) s =
     (let (m, d) = s; (status, d) = inb 0x64 d in
      if status AND 1 = 0 then (m, d)
      else if status AND 0x20 \<noteq> 0 then
        let (data, d) = inb 0x60 d in mouse_poll_loop inb guard (mouse_handle_byte data m, d)
      else (m, d))"

definition mouse_poll :: "(u16 \<Rightarrow> 'd \<Rightarrow> u8 \<times> 'd) \<Rightarrow> mouse \<times> 'd \<Rightarrow> mouse \<times> 'd" where
  "mouse_poll inb s = mouse_poll_loop inb 64 s"

section \<open>Readers\<close>

text \<open>The position and the button mask, one wheel notch folded into it and consumed.\<close>

definition mouse_coords :: "mouse \<Rightarrow> (int \<times> int \<times> int) \<times> mouse" where
  "mouse_coords m =
     (let b = m_buttons m in
      if g_wheel m > 0 then ((m_x m, m_y m, b OR 0x10), m\<lparr>g_wheel := g_wheel m - 1\<rparr>)
      else if g_wheel m < 0 then ((m_x m, m_y m, b OR 0x20), m\<lparr>g_wheel := g_wheel m + 1\<rparr>)
      else ((m_x m, m_y m, b), m))"

definition mouse_moved :: "mouse \<Rightarrow> bool \<times> mouse" where
  "mouse_moved m = (g_moved m \<or> g_wheel m \<noteq> 0, m\<lparr>g_moved := False\<rparr>)"

definition mouse_set_bounds :: "int \<Rightarrow> int \<Rightarrow> mouse \<Rightarrow> mouse" where
  "mouse_set_bounds w h m =
     (let m = m\<lparr>g_screen_w := (if w > 0 then w else g_screen_w m),
                g_screen_h := (if h > 0 then h else g_screen_h m)\<rparr>;
          low = (\<lambda>v. if v < 0 then 0 else v);
          high = (\<lambda>v limit. if v \<ge> limit then limit - 1 else v)
      in m\<lparr>m_x := low (high (m_x m) (g_screen_w m)), m_y := low (high (m_y m) (g_screen_h m))\<rparr>)"

section \<open>The pointer stays on the screen\<close>

definition mouse_ok :: "mouse \<Rightarrow> bool" where
  "mouse_ok m \<longleftrightarrow> 0 \<le> m_x m \<and> m_x m < g_screen_w m \<and> 0 \<le> m_y m \<and> m_y m < g_screen_h m \<and>
     length (g_packet m) = 4 \<and> g_cycle m < g_packet_size m \<and> g_packet_size m \<in> {3, 4} \<and>
     0 \<le> m_buttons m \<and> m_buttons m \<le> 7"

lemma clamp_range: "0 < limit \<Longrightarrow> 0 \<le> clamp v limit \<and> clamp v limit < limit"
  by (simp add: clamp_def Let_def)

lemma clamp_id: "0 \<le> v \<Longrightarrow> v < limit \<Longrightarrow> clamp v limit = v"
  by (simp add: clamp_def)

lemma low_bits: "0 \<le> uint ((b :: u8) AND 7) \<and> uint (b AND 7) \<le> 7"
proof -
  have "uint (b AND 7) = uint b AND 7" by (simp add: uint_and)
  then show ?thesis using AND_upper2 [of 7 "uint b"] by simp
qed

lemma mouse_ok_boot: "mouse_ok mouse_boot"
  by (simp add: mouse_ok_def mouse_boot_def)

lemma mouse_ok_packet: "mouse_ok m \<Longrightarrow> mouse_ok (mouse_packet m)"
  using clamp_range [of "g_screen_w m"] clamp_range [of "g_screen_h m"] low_bits [of "g_packet m ! 0"]
  by (auto simp: mouse_ok_def mouse_packet_def Let_def)

lemma mouse_ok_byte [inv_intros]: "mouse_ok m \<Longrightarrow> mouse_ok (mouse_handle_byte data m)"
  using mouse_ok_packet [of "m\<lparr>g_packet := (g_packet m)[g_cycle m := data], g_cycle := 0\<rparr>"]
  by (auto simp: mouse_handle_byte_def Let_def mouse_ok_def)

lemma mouse_ok_coords [inv_intros]: "mouse_ok m \<Longrightarrow> mouse_ok (snd (mouse_coords m))"
  by (auto simp: mouse_ok_def mouse_coords_def Let_def)

lemma mouse_ok_moved [inv_intros]: "mouse_ok m \<Longrightarrow> mouse_ok (snd (mouse_moved m))"
  by (auto simp: mouse_ok_def mouse_moved_def)

lemma mouse_ok_bounds [inv_intros]: "mouse_ok m \<Longrightarrow> mouse_ok (mouse_set_bounds w h m)"
  by (auto simp: mouse_ok_def mouse_set_bounds_def Let_def)

lemma mouse_ok_irq [inv_intros]: "mouse_ok (fst s) \<Longrightarrow> mouse_ok (fst (mouse_irq_handler inb s))"
  by (auto simp: mouse_irq_handler_def split_beta Let_def intro: inv_intros)

lemma mouse_ok_poll [inv_intros]: "mouse_ok (fst s) \<Longrightarrow> mouse_ok (fst (mouse_poll inb s))"
proof -
  have "mouse_ok (fst s) \<Longrightarrow> mouse_ok (fst (mouse_poll_loop inb n s))" for n
  proof (induction n arbitrary: s)
    case (Suc n)
    have "mouse_ok (fst (mouse_poll_loop inb n (mouse_handle_byte data (fst s), d)))" for data d
      by (rule Suc.IH) (simp add: Suc.prems mouse_ok_byte)
    then show ?case using Suc.prems by (auto simp: split_beta Let_def)
  qed simp
  then show "mouse_ok (fst s) \<Longrightarrow> ?thesis" by (simp add: mouse_poll_def)
qed

lemma mouse_ok_init:
  assumes "length (g_packet m) = 4" and "512 < g_screen_w m" and "384 < g_screen_h m"
  shows "mouse_ok (fst (mouse_init inb outb (m, d)))"
  using assms by (auto simp: mouse_ok_def mouse_init_def mouse_enable_wheel_def split_beta Let_def)

text \<open>
  A movement packet of an idle three-byte mouse moves the pointer by the two signed 9-bit
  displacements, downwards for a negative vertical one, and stops it at the edges.
\<close>

lemma mouse_packet_moves:
  assumes "mouse_ok m" and "g_cycle m = 0" and "g_packet_size m = 3"
    and "flags AND 0x08 \<noteq> 0" and "flags AND 0xC0 = 0"
    and "m' = fold mouse_byte [flags, bx, by] m"
  shows "m_x m' = clamp (m_x m + (uint bx - (if flags AND 0x10 \<noteq> 0 then 256 else 0))) (g_screen_w m)"
    and "m_y m' = clamp (m_y m - (uint by - (if flags AND 0x20 \<noteq> 0 then 256 else 0))) (g_screen_h m)"
    and "m_buttons m' = uint (flags AND 0x07)" and "g_cycle m' = 0" and "g_wheel m' = g_wheel m"
  using assms
  by (simp_all add: mouse_byte_def mouse_handle_byte_def mouse_packet_def Let_def mouse_ok_def numeral_2_eq_2
      algebra_simps)

text \<open>A byte with the synchronisation bit clear never starts a packet.\<close>

lemma mouse_resync: "g_cycle m = 0 \<Longrightarrow> data AND 0x08 = 0 \<Longrightarrow> mouse_byte data m = m"
  by (simp add: mouse_byte_def mouse_handle_byte_def)

end
