(* ===== verification/Kbd.thy ===== *)
theory Kbd
  imports Ring Mouse
begin

text \<open>
  \<^verbatim>\<open>kernel/drivers/kbd.c\<close>: the PS/2 keyboard. Scan codes from the controller become key codes in a
  ring of \<^verbatim>\<open>BUF_SIZE\<close> slots. The controller is a device outside the program, reached through \<open>inb\<close>
  as in theory \<open>Mouse\<close>; the flags the code keeps in bytes that are only ever 0 or 1 are \<open>bool\<close>s.
\<close>

definition BUF_SIZE :: nat where "BUF_SIZE = 128"

definition KBD_KEY_UP :: int where "KBD_KEY_UP = 0x100"
definition KBD_KEY_DOWN :: int where "KBD_KEY_DOWN = 0x101"
definition KBD_KEY_LEFT :: int where "KBD_KEY_LEFT = 0x102"
definition KBD_KEY_RIGHT :: int where "KBD_KEY_RIGHT = 0x103"
definition KBD_KEY_HOME :: int where "KBD_KEY_HOME = 0x104"
definition KBD_KEY_END :: int where "KBD_KEY_END = 0x105"
definition KBD_KEY_DELETE :: int where "KBD_KEY_DELETE = 0x106"
definition KBD_KEY_F4 :: int where "KBD_KEY_F4 = 0x107"
definition KBD_META :: int where "KBD_META = 0x200"
definition KBD_ALT_F4 :: int where "KBD_ALT_F4 = KBD_META OR KBD_KEY_F4"
definition KBD_ALT_TAB :: int where "KBD_ALT_TAB = KBD_META OR 9"

record kbd =
  kb_buf :: "int list"
  kb_head :: u8
  kb_tail :: u8
  kb_shift :: bool
  kb_ctrl :: bool
  kb_alt :: bool
  kb_extended :: bool
  kb_pressed :: "bool list"
  kb_pressed_ext :: "bool list"

definition kbd_boot :: kbd where
  "kbd_boot = \<lparr>kb_buf = replicate BUF_SIZE 0, kb_head = 0, kb_tail = 0, kb_shift = False, kb_ctrl = False,
     kb_alt = False, kb_extended = False, kb_pressed = replicate 128 False,
     kb_pressed_ext = replicate 128 False\<rparr>"

definition map_lower :: string where
  "map_lower =
     [NUL, CHR 0x1B] @ ''1234567890-='' @ [CHR 0x08, CHR 0x09] @ ''qwertyuiop[]'' @ [newline, NUL] @
     ''asdfghjkl;'' @ [CHR 0x27, CHR 0x60, NUL, CHR 0x5C] @ ''zxcvbnm,./'' @ [NUL, CHR ''*'', NUL, CHR '' '']"

definition map_upper :: string where
  "map_upper =
     [NUL, CHR 0x1B] @ ''!@#$%^&*()_+'' @ [CHR 0x08, CHR 0x09] @ ''QWERTYUIOP{}'' @ [newline, NUL] @
     ''ASDFGHJKL:'' @ [CHR 0x22, CHR ''~'', NUL, CHR ''|''] @ ''ZXCVBNM<>?'' @ [NUL, CHR ''*'', NUL, CHR '' '']"

section \<open>The key buffer\<close>

definition push_key :: "int \<Rightarrow> kbd \<Rightarrow> kbd" where
  "push_key key k =
     (let next' = (kb_head k + 1) mod of_nat BUF_SIZE in
      if next' = kb_tail k then k
      else k\<lparr>kb_buf := (kb_buf k)[unat (kb_head k) := key], kb_head := next'\<rparr>)"

definition kbd_pending :: "kbd \<Rightarrow> bool" where
  "kbd_pending k \<longleftrightarrow> kb_head k \<noteq> kb_tail k"

definition kbd_pop :: "kbd \<Rightarrow> int \<times> kbd" where
  "kbd_pop k =
     (if kb_head k = kb_tail k then (0, k)
      else (kb_buf k ! unat (kb_tail k), k\<lparr>kb_tail := (kb_tail k + 1) mod of_nat BUF_SIZE\<rparr>))"

section \<open>Decoding\<close>

definition set_pressed :: "bool list \<Rightarrow> u8 \<Rightarrow> bool \<Rightarrow> bool list" where
  "set_pressed table code down = (if code < 128 then table[unat code := down] else table)"

definition is_lower :: "char \<Rightarrow> bool" where
  "is_lower c \<longleftrightarrow> (97 :: int) \<le> of_char c \<and> of_char c \<le> (122 :: int)"

definition is_upper :: "char \<Rightarrow> bool" where
  "is_upper c \<longleftrightarrow> (65 :: int) \<le> of_char c \<and> of_char c \<le> (90 :: int)"

definition apply_ctrl :: "kbd \<Rightarrow> char \<Rightarrow> char" where
  "apply_ctrl k c =
     (if \<not> kb_ctrl k then c
      else if is_lower c then char_of (of_char c - (97 :: int) + 1)
      else if is_upper c then char_of (of_char c - (65 :: int) + 1)
      else c)"

definition push_arrow :: "u8 \<Rightarrow> kbd \<Rightarrow> kbd" where
  "push_arrow code k =
     (if code = 0x48 then push_key KBD_KEY_UP k
      else if code = 0x50 then push_key KBD_KEY_DOWN k
      else if code = 0x4B then push_key KBD_KEY_LEFT k
      else if code = 0x4D then push_key KBD_KEY_RIGHT k
      else if code = 0x47 then push_key KBD_KEY_HOME k
      else if code = 0x4F then push_key KBD_KEY_END k
      else if code = 0x53 then push_key KBD_KEY_DELETE k
      else k)"

text \<open>A code after the prefix byte \<^verbatim>\<open>0xE0\<close>.\<close>

definition kbd_extended_code :: "u8 \<Rightarrow> bool \<Rightarrow> kbd \<Rightarrow> kbd" where
  "kbd_extended_code code pressed k =
     (let k = k\<lparr>kb_extended := False\<rparr> in
      if code = 0x1D then k\<lparr>kb_ctrl := pressed\<rparr>
      else if code = 0x38 then k\<lparr>kb_alt := pressed\<rparr>
      else if pressed then push_arrow code (k\<lparr>kb_pressed_ext := set_pressed (kb_pressed_ext k) code True\<rparr>)
      else k\<lparr>kb_pressed_ext := set_pressed (kb_pressed_ext k) code False\<rparr>)"

text \<open>A key of the character maps going down.\<close>

definition kbd_char_key :: "u8 \<Rightarrow> u8 \<Rightarrow> kbd \<Rightarrow> kbd" where
  "kbd_char_key sc code k =
     (let c = (if kb_shift k then map_upper else map_lower) ! unat sc;
          was = kb_pressed k ! unat code
      in if c = NUL then k
         else let k = k\<lparr>kb_pressed := set_pressed (kb_pressed k) code True\<rparr> in
           if kb_alt k \<and> c = CHR 0x09 then (if \<not> was then push_key KBD_ALT_TAB k else k)
           else if kb_alt k \<and> (is_lower c \<or> is_upper c) then
             let c = (if is_upper c then char_of (of_char c - (65 :: int) + 97) else c)
             in if \<not> was then push_key (KBD_META OR of_char c) k else k
           else push_key (of_char (apply_ctrl k c)) k)"

text \<open>The function keys F1 to F4.\<close>

definition kbd_function_key :: "u8 \<Rightarrow> kbd \<Rightarrow> kbd" where
  "kbd_function_key code k =
     (if kb_pressed k ! unat code then k
      else let k = k\<lparr>kb_pressed := set_pressed (kb_pressed k) code True\<rparr> in
        if kb_alt k \<and> code = 0x3E then push_key KBD_ALT_F4 k
        else if code = 0x3C then push_key 19 k
        else if code = 0x3D then push_key 24 k
        else if code = 0x3B then push_key 15 k
        else k)"

definition kbd_scancode :: "u8 \<Rightarrow> kbd \<Rightarrow> kbd" where
  "kbd_scancode sc k =
     (let code = sc AND 0x7F; pressed = (sc AND 0x80 = 0) in
      if sc = 0xE0 then k\<lparr>kb_extended := True\<rparr>
      else if kb_extended k then kbd_extended_code code pressed k
      else if code = 0x1D then k\<lparr>kb_ctrl := pressed\<rparr>
      else if code = 0x38 then k\<lparr>kb_alt := pressed\<rparr>
      else if sc = 0x2A \<or> sc = 0x36 then k\<lparr>kb_shift := True\<rparr>
      else if sc = 0xAA \<or> sc = 0xB6 then k\<lparr>kb_shift := False\<rparr>
      else if pressed \<and> sc < 58 then kbd_char_key sc code k
      else if pressed \<and> code \<in> {0x48, 0x50, 0x4B, 0x4D, 0x47, 0x4F, 0x53} then
        push_arrow code (k\<lparr>kb_pressed_ext := set_pressed (kb_pressed_ext k) code True\<rparr>)
      else if pressed \<and> code \<in> {0x3B, 0x3C, 0x3D, 0x3E} then kbd_function_key code k
      else if \<not> pressed then
        k\<lparr>kb_pressed := set_pressed (kb_pressed k) code False,
          kb_pressed_ext := set_pressed (kb_pressed_ext k) code False\<rparr>
      else k)"

section \<open>The interrupt and the polling loops\<close>

text \<open>The two drivers on one controller.\<close>

record 'd ps2 =
  ps_kbd :: kbd
  ps_mouse :: mouse
  ps_dev :: 'd

definition kbd_irq_handler :: "(u16 \<Rightarrow> 'd \<Rightarrow> u8 \<times> 'd) \<Rightarrow> 'd ps2 \<Rightarrow> 'd ps2" where
  "kbd_irq_handler inb p =
     (let (status, d) = inb 0x64 (ps_dev p) in
      if status AND 1 = 0 then p\<lparr>ps_dev := d\<rparr>
      else let (data, d) = inb 0x60 d in
        if status AND 0x20 \<noteq> 0 then p\<lparr>ps_mouse := mouse_byte data (ps_mouse p), ps_dev := d\<rparr>
        else p\<lparr>ps_kbd := kbd_scancode data (ps_kbd p), ps_dev := d\<rparr>)"

primrec kbd_poll_loop :: "(u16 \<Rightarrow> 'd \<Rightarrow> u8 \<times> 'd) \<Rightarrow> nat \<Rightarrow> 'd ps2 \<Rightarrow> 'd ps2" where
  "kbd_poll_loop inb 0 p = p"
| "kbd_poll_loop inb (Suc guard) p =
     (let (status, d) = inb 0x64 (ps_dev p); p = p\<lparr>ps_dev := d\<rparr> in
      if status AND 1 = 0 then p
      else if status AND 0x20 \<noteq> 0 then p
      else kbd_poll_loop inb guard (kbd_irq_handler inb p))"

definition kbd_poll :: "(u16 \<Rightarrow> 'd \<Rightarrow> u8 \<times> 'd) \<Rightarrow> 'd ps2 \<Rightarrow> 'd ps2" where
  "kbd_poll inb p = kbd_poll_loop inb 32 p"

text \<open>
  \<^verbatim>\<open>kbd_getchar\<close> waits for a key with no bound: \<open>None\<close> is a wait that never ends. Interrupts that
  arrive in \<^verbatim>\<open>hlt\<close> run the handler, so one of them is a further round of the loop.
\<close>

partial_function (option) kbd_getchar :: "(u16 \<Rightarrow> 'd \<Rightarrow> u8 \<times> 'd) \<Rightarrow> 'd ps2 \<Rightarrow> (int \<times> 'd ps2) option" where
  "kbd_getchar inb p =
     (if kbd_pending (ps_kbd p) then
        let (key, k) = kbd_pop (ps_kbd p) in Some (key, p\<lparr>ps_kbd := k\<rparr>)
      else let p = kbd_poll inb p in
        if kbd_pending (ps_kbd p) then kbd_getchar inb p else kbd_getchar inb (kbd_irq_handler inb p))"

section \<open>The buffer is a queue\<close>

definition kbd_ok :: "kbd \<Rightarrow> bool" where
  "kbd_ok k \<longleftrightarrow> length (kb_buf k) = BUF_SIZE \<and> unat (kb_head k) < BUF_SIZE \<and> unat (kb_tail k) < BUF_SIZE \<and>
     length (kb_pressed k) = 128 \<and> length (kb_pressed_ext k) = 128"

definition kbd_count :: "kbd \<Rightarrow> nat" where
  "kbd_count k = (unat (kb_head k) + BUF_SIZE - unat (kb_tail k)) mod BUF_SIZE"

definition kbd_keys :: "kbd \<Rightarrow> int list" where
  "kbd_keys k = ring_items (kb_buf k) (unat (kb_tail k)) (kbd_count k)"

lemma unat_next: "unat ((w + 1 :: u8) mod of_nat BUF_SIZE) = Suc (unat w) mod BUF_SIZE"
proof -
  have "unat (w + 1) = (unat w + 1) mod 256" by (simp add: unat_word_ariths)
  then show ?thesis by (simp add: unat_mod BUF_SIZE_def mod_mod_cancel)
qed

lemma kbd_count_less: "kbd_ok k \<Longrightarrow> kbd_count k < BUF_SIZE"
  by (simp add: kbd_ok_def kbd_count_def ring_count(2))

lemma kbd_head_count:
  "kbd_ok k \<Longrightarrow> (unat (kb_tail k) + kbd_count k) mod BUF_SIZE = unat (kb_head k)"
  by (simp add: kbd_ok_def kbd_count_def ring_count(1))

lemma kbd_empty_iff: "kbd_ok k \<Longrightarrow> kbd_count k = 0 \<longleftrightarrow> kb_head k = kb_tail k"
  using kbd_head_count [of k] by (auto simp: kbd_ok_def kbd_count_def intro!: unsigned_word_eqI [where ?'a = nat])

lemma kbd_full_iff:
  "kbd_ok k \<Longrightarrow> (kb_head k + 1) mod of_nat BUF_SIZE = kb_tail k \<longleftrightarrow> kbd_count k = BUF_SIZE - 1"
  using count_step(1) [of "unat (kb_head k)" BUF_SIZE "unat (kb_tail k)"]
  by (simp add: kbd_ok_def kbd_count_def unat_next word_unat_eq_iff)

lemma push_key_room:
  assumes "kbd_ok k" and "length (kbd_keys k) < BUF_SIZE - 1"
  shows "kbd_keys (push_key key k) = kbd_keys k @ [key]"
    and "push_key key k = k\<lparr>kb_buf := (kb_buf k)[unat (kb_head k) := key], kb_head := (kb_head k + 1) mod of_nat BUF_SIZE\<rparr>"
proof -
  have ne: "(kb_head k + 1) mod of_nat BUF_SIZE \<noteq> kb_tail k"
    using assms kbd_full_iff by (simp add: kbd_keys_def)
  then show eq: "push_key key k = k\<lparr>kb_buf := (kb_buf k)[unat (kb_head k) := key], kb_head := (kb_head k + 1) mod of_nat BUF_SIZE\<rparr>"
    by (simp add: push_key_def)
  have ne': "Suc (unat (kb_head k)) mod BUF_SIZE \<noteq> unat (kb_tail k)"
    using ne by (simp add: unat_next word_unat_eq_iff)
  have "kbd_count (push_key key k) = Suc (kbd_count k)"
    using count_step(2) [OF _ _ ne'] assms(1) unfolding eq by (simp add: kbd_ok_def kbd_count_def unat_next)
  then show "kbd_keys (push_key key k) = kbd_keys k @ [key]"
    using ring_items_put [of "kbd_count k" "kb_buf k" "unat (kb_tail k)" key] kbd_head_count [OF assms(1)]
      kbd_count_less [OF assms(1)] assms(1) unfolding eq by (simp add: kbd_keys_def kbd_ok_def)
qed

lemma push_key_full:
  "kbd_ok k \<Longrightarrow> \<not> length (kbd_keys k) < BUF_SIZE - 1 \<Longrightarrow> push_key key k = k"
  using kbd_count_less [of k] by (simp add: push_key_def kbd_full_iff kbd_keys_def)

lemma kbd_ok_push [inv_intros]: "kbd_ok k \<Longrightarrow> kbd_ok (push_key key k)"
  by (auto simp: push_key_def kbd_ok_def Let_def unat_next)

lemma kbd_ok_pop [inv_intros]: "kbd_ok k \<Longrightarrow> kbd_ok (snd (kbd_pop k))"
  by (auto simp: kbd_pop_def kbd_ok_def unat_next)

lemma kbd_pop_items:
  assumes "kbd_ok k"
  shows "kbd_keys k = (if kbd_pending k then fst (kbd_pop k) # kbd_keys (snd (kbd_pop k)) else [])"
    and "\<not> kbd_pending k \<Longrightarrow> snd (kbd_pop k) = k"
proof -
  show "\<not> kbd_pending k \<Longrightarrow> snd (kbd_pop k) = k" by (simp add: kbd_pending_def kbd_pop_def)
  show "kbd_keys k = (if kbd_pending k then fst (kbd_pop k) # kbd_keys (snd (kbd_pop k)) else [])"
  proof (cases "kbd_pending k")
    case True
    then obtain n where n: "kbd_count k = Suc n"
      using kbd_empty_iff [OF assms] by (cases "kbd_count k") (auto simp: kbd_pending_def)
    let ?t = "snd (kbd_pop k)"
    have t: "?t = k\<lparr>kb_tail := (kb_tail k + 1) mod of_nat BUF_SIZE\<rparr>"
      using True by (simp add: kbd_pop_def kbd_pending_def)
    have "kbd_count ?t = n"
      using count_step(3) [of "unat (kb_head k)" BUF_SIZE "unat (kb_tail k)" n] n assms
      by (simp add: t kbd_count_def kbd_ok_def unat_next)
    then show ?thesis
      using True assms n by (simp add: kbd_keys_def ring_items_get kbd_ok_def t unat_next kbd_pop_def kbd_pending_def)
  next
    case False
    then show ?thesis using kbd_empty_iff [OF assms] by (simp add: kbd_keys_def kbd_pending_def)
  qed
qed

definition kbd_offer :: "int \<Rightarrow> kbd \<Rightarrow> bool \<times> kbd" where
  "kbd_offer key k = ((kb_head k + 1) mod of_nat BUF_SIZE \<noteq> kb_tail k, push_key key k)"

definition kbd_next :: "kbd \<Rightarrow> int option \<times> kbd" where
  "kbd_next k = (if kbd_pending k then Some (fst (kbd_pop k)) else None, snd (kbd_pop k))"

interpretation kbdq: bounded_fifo kbd_keys kbd_ok "BUF_SIZE - 1" kbd_offer kbd_next
proof
  fix k :: kbd and key
  assume ok: "kbd_ok k"
  show "length (kbd_keys k) < BUF_SIZE - 1 \<Longrightarrow> fst (kbd_offer key k) \<and> kbd_ok (snd (kbd_offer key k)) \<and>
      kbd_keys (snd (kbd_offer key k)) = kbd_keys k @ [key]"
    using push_key_room [OF ok] kbd_ok_push [OF ok] kbd_full_iff [OF ok] by (simp add: kbd_offer_def kbd_keys_def)
  show "\<not> length (kbd_keys k) < BUF_SIZE - 1 \<Longrightarrow> \<not> fst (kbd_offer key k) \<and> kbd_ok (snd (kbd_offer key k)) \<and>
      kbd_keys (snd (kbd_offer key k)) = kbd_keys k"
    using push_key_full [OF ok, of key] ok kbd_full_iff [OF ok] kbd_count_less [OF ok]
    by (simp add: kbd_offer_def) (simp add: kbd_keys_def)
  show "kbd_ok (snd (kbd_next k)) \<and> kbd_keys (snd (kbd_next k)) = tl (kbd_keys k) \<and>
      fst (kbd_next k) = (case kbd_keys k of [] \<Rightarrow> None | x # xs \<Rightarrow> Some x)"
    using kbd_pop_items [OF ok] kbd_ok_pop [OF ok] by (simp add: kbd_next_def)
qed

section \<open>Every path keeps the driver well formed\<close>

lemma length_set_pressed [simp]: "length (set_pressed t c b) = length t"
  by (simp add: set_pressed_def)

lemma kbd_ok_update [simp]:
  "kbd_ok (k\<lparr>kb_shift := b\<rparr>) = kbd_ok k" "kbd_ok (k\<lparr>kb_ctrl := b\<rparr>) = kbd_ok k"
  "kbd_ok (k\<lparr>kb_alt := b\<rparr>) = kbd_ok k" "kbd_ok (k\<lparr>kb_extended := b\<rparr>) = kbd_ok k"
  "kbd_ok (k\<lparr>kb_pressed := set_pressed (kb_pressed k) c b\<rparr>) = kbd_ok k"
  "kbd_ok (k\<lparr>kb_pressed_ext := set_pressed (kb_pressed_ext k) c b\<rparr>) = kbd_ok k"
  by (simp_all add: kbd_ok_def)

lemma kbd_keys_update [frame_simps]:
  "kbd_keys (k\<lparr>kb_shift := b\<rparr>) = kbd_keys k" "kbd_keys (k\<lparr>kb_ctrl := b\<rparr>) = kbd_keys k"
  "kbd_keys (k\<lparr>kb_alt := b\<rparr>) = kbd_keys k" "kbd_keys (k\<lparr>kb_extended := b\<rparr>) = kbd_keys k"
  "kbd_keys (k\<lparr>kb_pressed := t\<rparr>) = kbd_keys k" "kbd_keys (k\<lparr>kb_pressed_ext := t\<rparr>) = kbd_keys k"
  by (simp_all add: kbd_keys_def kbd_count_def)

lemma kbd_ok_arrow [inv_intros]: "kbd_ok k \<Longrightarrow> kbd_ok (push_arrow code k)"
  by (simp add: push_arrow_def kbd_ok_push)

lemma kbd_ok_extended [inv_intros]: "kbd_ok k \<Longrightarrow> kbd_ok (kbd_extended_code code pr k)"
  by (auto simp: kbd_extended_code_def Let_def kbd_ok_def intro!: kbd_ok_arrow [unfolded kbd_ok_def])

lemma kbd_ok_char_key [inv_intros]: "kbd_ok k \<Longrightarrow> kbd_ok (kbd_char_key sc code k)"
  by (simp add: kbd_char_key_def Let_def kbd_ok_push)

lemma kbd_ok_function_key [inv_intros]: "kbd_ok k \<Longrightarrow> kbd_ok (kbd_function_key code k)"
  by (simp add: kbd_function_key_def Let_def kbd_ok_push)

lemma kbd_ok_both: "kbd_ok k \<Longrightarrow> length t = 128 \<Longrightarrow> length t' = 128 \<Longrightarrow> kbd_ok (k\<lparr>kb_pressed := t, kb_pressed_ext := t'\<rparr>)"
  by (simp add: kbd_ok_def)

lemma kbd_ok_scancode [inv_intros]: "kbd_ok k \<Longrightarrow> kbd_ok (kbd_scancode sc k)"
  unfolding kbd_scancode_def Let_def
  by (simp add: kbd_ok_extended kbd_ok_char_key kbd_ok_function_key kbd_ok_arrow kbd_ok_both)
     (simp add: kbd_ok_def)

lemma kbd_ok_irq [inv_intros]: "kbd_ok (ps_kbd p) \<Longrightarrow> kbd_ok (ps_kbd (kbd_irq_handler inb p))"
  by (simp add: kbd_irq_handler_def split_beta Let_def kbd_ok_scancode)

lemma mouse_ok_kbd_irq [inv_intros]: "mouse_ok (ps_mouse p) \<Longrightarrow> mouse_ok (ps_mouse (kbd_irq_handler inb p))"
  by (simp add: kbd_irq_handler_def split_beta Let_def mouse_byte_def mouse_ok_byte)

lemma ps2_ok_poll [inv_intros]:
  "kbd_ok (ps_kbd p) \<Longrightarrow> mouse_ok (ps_mouse p) \<Longrightarrow>
     kbd_ok (ps_kbd (kbd_poll inb p)) \<and> mouse_ok (ps_mouse (kbd_poll inb p))"
proof -
  have "kbd_ok (ps_kbd p) \<Longrightarrow> mouse_ok (ps_mouse p) \<Longrightarrow>
      kbd_ok (ps_kbd (kbd_poll_loop inb n p)) \<and> mouse_ok (ps_mouse (kbd_poll_loop inb n p))" for n
  proof (induction n arbitrary: p)
    case (Suc n)
    let ?p = "p\<lparr>ps_dev := snd (inb 0x64 (ps_dev p))\<rparr>"
    from Suc.IH [of "kbd_irq_handler inb ?p"] Suc.prems show ?case
      by (simp add: split_beta Let_def kbd_ok_irq mouse_ok_kbd_irq)
  qed simp
  then show "kbd_ok (ps_kbd p) \<Longrightarrow> mouse_ok (ps_mouse p) \<Longrightarrow> ?thesis" by (simp add: kbd_poll_def)
qed

text \<open>\<^verbatim>\<open>kbd_getchar\<close>, when it returns, returns the oldest key of the buffer.\<close>

lemma kbd_getchar_key:
  "kbd_getchar inb p = Some r \<Longrightarrow> kbd_ok (ps_kbd p) \<Longrightarrow> mouse_ok (ps_mouse p) \<Longrightarrow>
     kbd_ok (ps_kbd (snd r)) \<and> mouse_ok (ps_mouse (snd r)) \<and>
     (kbd_pending (ps_kbd p) \<longrightarrow> kbd_keys (ps_kbd p) = fst r # kbd_keys (ps_kbd (snd r)))"
proof (induction rule: kbd_getchar.raw_induct [rotated, consumes 1, case_names step])
  case (step g i p r)
  show ?case
  proof (cases "kbd_pending (ps_kbd p)")
    case True
    with step kbd_pop_items [of "ps_kbd p"] kbd_ok_pop [of "ps_kbd p"] show ?thesis
      by (auto simp: split_beta Let_def)
  next
    case False
    note poll = ps2_ok_poll [OF step.prems, of i]
    from step.IH [of i "kbd_poll i p" r] step.IH [of i "kbd_irq_handler i (kbd_poll i p)" r]
      step.hyps False poll show ?thesis
      by (auto simp: Let_def split: if_splits intro: kbd_ok_irq mouse_ok_kbd_irq)
  qed
qed

section \<open>Typing\<close>

text \<open>Keys that carry a character, and the two scan codes of one stroke.\<close>

definition char_code :: "u8 \<Rightarrow> bool" where
  "char_code c \<longleftrightarrow> c < 58 \<and> map_lower ! unat c \<noteq> NUL"

definition keystroke :: "u8 \<Rightarrow> u8 list" where
  "keystroke c = [c, c OR 0x80]"

definition no_modifier :: "kbd \<Rightarrow> bool" where
  "no_modifier k \<longleftrightarrow> \<not> kb_ctrl k \<and> \<not> kb_alt k \<and> \<not> kb_extended k"

definition key_char :: "bool \<Rightarrow> u8 \<Rightarrow> char" where
  "key_char shifted c = (if shifted then map_upper else map_lower) ! unat c"

lemma map_lengths: "length map_lower = 58" "length map_upper = 58"
  by (simp_all add: map_lower_def map_upper_def)

lemma map_same_keys: "\<forall>i\<in>set [0..<58]. (map_lower ! i = NUL) = (map_upper ! i = NUL)"
  by code_simp

lemma char_codes:
  "\<forall>i\<in>set [0..<58]. map_lower ! i \<noteq> NUL \<longrightarrow>
     (let c = word_of_nat i :: u8; r = c OR 0x80 in
      c AND 0x7F = c \<and> c AND 0x80 = 0 \<and> c \<notin> {0xE0, 0x1D, 0x38, 0x2A, 0x36, 0xAA, 0xB6} \<and>
      r AND 0x7F = c \<and> r AND 0x80 \<noteq> 0 \<and> r \<notin> {0xE0, 0x2A, 0x36, 0xAA, 0xB6})"
  by code_simp

lemma char_codeD:
  assumes "char_code c"
  shows "c < 58" and "unat c < 58" and "map_upper ! unat c \<noteq> NUL" and "map_lower ! unat c \<noteq> NUL"
    and "c AND 0x7F = c" and "c AND 0x80 = 0" and "c \<notin> {0xE0, 0x1D, 0x38, 0x2A, 0x36, 0xAA, 0xB6}"
    and "(c OR 0x80) AND 0x7F = c" and "(c OR 0x80) AND 0x80 \<noteq> 0" and "c OR 0x80 \<notin> {0xE0, 0x2A, 0x36, 0xAA, 0xB6}"
proof -
  have u: "unat c < 58" using assms by (simp add: char_code_def word_less_nat_alt)
  then have m: "unat c \<in> set [0..<58]" by simp
  show "c < 58" "unat c < 58" "map_lower ! unat c \<noteq> NUL" using assms u by (simp_all add: char_code_def)
  then show "map_upper ! unat c \<noteq> NUL" using map_same_keys m by blast
  from char_codes m assms show "c AND 0x7F = c" "c AND 0x80 = 0" "c \<notin> {0xE0, 0x1D, 0x38, 0x2A, 0x36, 0xAA, 0xB6}"
    "(c OR 0x80) AND 0x7F = c" "(c OR 0x80) AND 0x80 \<noteq> 0" "c OR 0x80 \<notin> {0xE0, 0x2A, 0x36, 0xAA, 0xB6}"
    by (auto simp: char_code_def Let_def)
qed

lemma stroke_step:
  assumes "char_code c" and "no_modifier k"
  shows "kbd_scancode c k = push_key (of_char (key_char (kb_shift k) c)) (k\<lparr>kb_pressed := set_pressed (kb_pressed k) c True\<rparr>)"
    and "kbd_scancode (c OR 0x80) k = k\<lparr>kb_pressed := set_pressed (kb_pressed k) c False, kb_pressed_ext := set_pressed (kb_pressed_ext k) c False\<rparr>"
  using assms char_codeD [OF assms(1)]
  by (simp_all add: kbd_scancode_def Let_def no_modifier_def kbd_char_key_def key_char_def apply_ctrl_def)

lemma push_key_flags [frame_simps]:
  "kb_shift (push_key key k) = kb_shift k" "kb_ctrl (push_key key k) = kb_ctrl k"
  "kb_alt (push_key key k) = kb_alt k" "kb_extended (push_key key k) = kb_extended k"
  by (simp_all add: push_key_def Let_def)

lemma keystroke_step:
  assumes "char_code c" and "no_modifier k" and "kbd_ok k" and "length (kbd_keys k) < BUF_SIZE - 1"
    and "k' = fold kbd_scancode (keystroke c) k"
  shows "no_modifier k'" and "kbd_ok k'" and "kb_shift k' = kb_shift k"
    and "kbd_keys k' = kbd_keys k @ [of_char (key_char (kb_shift k) c)]"
proof -
  let ?p = "k\<lparr>kb_pressed := set_pressed (kb_pressed k) c True\<rparr>"
  let ?q = "push_key (of_char (key_char (kb_shift k) c)) ?p"
  have p: "kbd_ok ?p" "length (kbd_keys ?p) < BUF_SIZE - 1" using assms by (simp_all add: frame_simps)
  have nm: "no_modifier ?q" using assms(2) by (simp add: no_modifier_def frame_simps)
  have k': "k' = kbd_scancode (c OR 0x80) ?q" using assms stroke_step(1) by (simp add: keystroke_def)
  show "kbd_ok k'" unfolding k' by (intro kbd_ok_scancode kbd_ok_push p)
  show "no_modifier k'" "kb_shift k' = kb_shift k" using nm assms(1) stroke_step(2) [OF assms(1) nm]
    by (simp_all add: k' no_modifier_def frame_simps)
  show "kbd_keys k' = kbd_keys k @ [of_char (key_char (kb_shift k) c)]"
    using push_key_room(1) [OF p] stroke_step(2) [OF assms(1) nm] by (simp add: k' frame_simps)
qed

lemma keystrokes:
  assumes "\<forall>c\<in>set codes. char_code c" and "no_modifier k" and "kbd_ok k"
    and "length (kbd_keys k) + length codes < BUF_SIZE"
  shows "kbd_ok (fold kbd_scancode (concat (map keystroke codes)) k) \<and>
    kbd_keys (fold kbd_scancode (concat (map keystroke codes)) k) =
      kbd_keys k @ map (\<lambda>c. of_char (key_char (kb_shift k) c)) codes"
  using assms
proof (induction codes arbitrary: k)
  case (Cons c codes)
  have "length (kbd_keys k) < BUF_SIZE - 1" using Cons.prems(4) by simp
  note s = keystroke_step [OF _ Cons.prems(2,3) this refl, of c]
  from Cons.IH [of "fold kbd_scancode (keystroke c) k"] s Cons.prems show ?case by simp
qed simp

text \<open>
  Property C18. Typing is faithful: on an idle keyboard with an empty buffer and no Ctrl, Alt or
  prefix pending, up to 127 strokes (press and release codes, fed to the decoder one by one) are
  read back as exactly the characters of the pressed keys, in order, from the shifted map when
  Shift is down.
\<close>

theorem kbd_types_in_order:
  assumes "kbd_ok k" and "no_modifier k" and "kbd_keys k = []"
    and "\<forall>c\<in>set codes. char_code c" and "length codes < BUF_SIZE"
  shows "fst (drain kbd_next (length codes) (fold kbd_scancode (concat (map keystroke codes)) k)) =
    map (\<lambda>c. of_char (key_char (kb_shift k) c)) codes"
proof -
  let ?k = "fold kbd_scancode (concat (map keystroke codes)) k"
  have k: "kbd_ok ?k" "kbd_keys ?k = map (\<lambda>c. of_char (key_char (kb_shift k) c)) codes"
    using keystrokes [OF assms(4,2,1)] assms(3,5) by simp_all
  from kbdq.drain_items [OF k(1), of "length codes"] k(2) show ?thesis
    by (metis length_map prod.exhaust_sel take_all_iff order_refl)
qed

theorem kbd_types_in_order_witness:
  "fst (drain kbd_next 3 (fold kbd_scancode (concat (map keystroke [0x23, 0x17, 0x02])) (kbd_boot\<lparr>kb_shift := True\<rparr>))) =
     map of_char ''HI!''"
proof -
  let ?k = "kbd_boot\<lparr>kb_shift := True\<rparr>" and ?c = "[0x23, 0x17, 0x02] :: u8 list"
  have "\<forall>c\<in>set ?c. char_code c" by code_simp
  then have "fst (drain kbd_next (length ?c) (fold kbd_scancode (concat (map keystroke ?c)) ?k)) =
      map (\<lambda>c. of_char (key_char (kb_shift ?k) c)) ?c"
    by (intro kbd_types_in_order)
       (simp_all add: kbd_ok_def kbd_boot_def BUF_SIZE_def no_modifier_def kbd_keys_def kbd_count_def)
  moreover have "map (\<lambda>c. of_char (key_char (kb_shift ?k) c)) ?c = (map of_char ''HI!'' :: int list)"
    by (simp add: key_char_def map_upper_def)
  moreover have "length ?c = 3" by simp
  ultimately show ?thesis by (simp only:)
qed

end
