(* ===== verification/Rtc.thy ===== *)
theory Rtc
  imports Prelude
begin

text \<open>
  The wall clock (kernel/drivers/rtc.c): the calendar date it keeps, seeded from the build's epoch and advanced by the timer's ticks,
  against the Gregorian calendar given by a closed formula for the number of a day. The timer's readings are arguments.
\<close>

section \<open>The clock\<close>

definition TICK_HZ :: u32 where "TICK_HZ = 100"

definition mdays :: "nat list" where
  "mdays = [31, 28, 31, 30, 31, 30, 31, 31, 30, 31, 30, 31]"

text \<open>\<open>rtc_seed\<close> is \<^verbatim>\<open>(uint32_t)RTC_SEED_EPOCH\<close>, the constant the Makefile sets to the time of the build; nothing changes it.\<close>

record rtc =
  rtc_seed :: u32
  rtc_ready :: bool
  rtc_y :: nat
  rtc_mo :: nat
  rtc_d :: nat
  rtc_h :: nat
  rtc_mi :: nat
  rtc_s :: nat
  ticks0 :: u32

definition leap :: "nat \<Rightarrow> bool" where
  "leap year \<longleftrightarrow> (year mod 4 = 0 \<and> year mod 100 \<noteq> 0) \<or> year mod 400 = 0"

definition dim :: "nat \<Rightarrow> nat \<Rightarrow> nat" where
  "dim year month =
     (if month = 2 \<and> leap year then 29 else if month < 1 \<or> month > 12 then 30 else mdays ! (month - 1))"

definition year_days :: "nat \<Rightarrow> nat" where
  "year_days year = (if leap year then 366 else 365)"

text \<open>Year and day of the year; the loop gives up behind 2100.\<close>

function year_loop :: "nat \<Rightarrow> nat \<Rightarrow> nat \<times> nat" where
  "year_loop days year =
     (if days < year_days year then (year, days)
      else if Suc year > 2100 then (2100, 0) else year_loop (days - year_days year) (Suc year))"
  by auto
termination by (relation "measure (\<lambda>(d, y). 2101 - y)") auto

declare year_loop.simps [simp del]

fun month_loop :: "nat list \<Rightarrow> nat \<Rightarrow> nat \<Rightarrow> nat \<times> nat" where
  "month_loop [] year days = (12, 31)"
| "month_loop (m # ms) year days = (if days < dim year m then (m, days + 1) else month_loop ms year (days - dim year m))"

definition from_unix32 :: "nat \<Rightarrow> rtc \<Rightarrow> rtc" where
  "from_unix32 epoch c =
     (let days = epoch div 86400; rem = epoch - days * 86400; hh = rem div 3600; rem = rem - hh * 3600; mm = rem div 60;
          ss = rem - mm * 60; (year, days) = year_loop days 1970; (mo, d) = month_loop [1..<13] year days
      in c\<lparr>rtc_y := year, rtc_mo := mo, rtc_d := d, rtc_h := hh, rtc_mi := mm, rtc_s := ss\<rparr>)"

definition add_one_second :: "rtc \<Rightarrow> rtc" where
  "add_one_second c =
     (if rtc_s c + 1 < 60 then c\<lparr>rtc_s := rtc_s c + 1\<rparr>
      else let c = c\<lparr>rtc_s := 0\<rparr> in
      if rtc_mi c + 1 < 60 then c\<lparr>rtc_mi := rtc_mi c + 1\<rparr>
      else let c = c\<lparr>rtc_mi := 0\<rparr> in
      if rtc_h c + 1 < 24 then c\<lparr>rtc_h := rtc_h c + 1\<rparr>
      else let c = c\<lparr>rtc_h := 0\<rparr> in
      if rtc_d c + 1 \<le> dim (rtc_y c) (rtc_mo c) then c\<lparr>rtc_d := rtc_d c + 1\<rparr>
      else let c = c\<lparr>rtc_d := 1\<rparr> in
      if rtc_mo c + 1 \<le> 12 then c\<lparr>rtc_mo := rtc_mo c + 1\<rparr>
      else c\<lparr>rtc_mo := 1, rtc_y := rtc_y c + 1\<rparr>)"

text \<open>\<open>now\<close> is the timer's reading.\<close>

definition advance_by_pit :: "u32 \<Rightarrow> rtc \<Rightarrow> rtc" where
  "advance_by_pit now c =
     (let elapsed = (now - ticks0 c) div TICK_HZ in
      if elapsed = 0 then c
      else let elapsed = (if elapsed > 3600 then 3600 else elapsed)
           in (add_one_second ^^ unat elapsed) (c\<lparr>ticks0 := ticks0 c + elapsed * TICK_HZ\<rparr>))"

definition rtc_init :: "u32 \<Rightarrow> rtc \<Rightarrow> rtc" where
  "rtc_init now c = (from_unix32 (unat (rtc_seed c)) c)\<lparr>ticks0 := now, rtc_ready := True\<rparr>"

text \<open>\<open>t0\<close> is the reading \<^verbatim>\<open>rtc_init\<close> makes.\<close>

definition rtc_read :: "u32 \<Rightarrow> u32 \<Rightarrow> rtc \<Rightarrow> (nat \<times> nat \<times> nat \<times> nat \<times> nat \<times> nat) \<times> rtc" where
  "rtc_read t0 now c =
     (let c = (if rtc_ready c then c else rtc_init t0 c); c = advance_by_pit now c
      in ((rtc_y c, rtc_mo c, rtc_d c, rtc_h c, rtc_mi c, rtc_s c), c))"

section \<open>The days the code counts\<close>

text \<open>Days before a year and before a month, by the code's own lengths, and the second a date denotes.\<close>

definition days_before_year :: "nat \<Rightarrow> nat" where
  "days_before_year y = (\<Sum>k = 1970..<y. year_days k)"

definition days_before_month :: "nat \<Rightarrow> nat \<Rightarrow> nat" where
  "days_before_month y m = (\<Sum>k = 1..<m. dim y k)"

definition day_number :: "rtc \<Rightarrow> nat" where
  "day_number c = days_before_year (rtc_y c) + days_before_month (rtc_y c) (rtc_mo c) + (rtc_d c - 1)"

definition seconds :: "rtc \<Rightarrow> nat" where
  "seconds c = ((day_number c * 24 + rtc_h c) * 60 + rtc_mi c) * 60 + rtc_s c"

definition date_ok :: "rtc \<Rightarrow> bool" where
  "date_ok c \<longleftrightarrow> 1970 \<le> rtc_y c \<and> 1 \<le> rtc_mo c \<and> rtc_mo c \<le> 12 \<and> 1 \<le> rtc_d c \<and> rtc_d c \<le> dim (rtc_y c) (rtc_mo c) \<and>
     rtc_h c < 24 \<and> rtc_mi c < 60 \<and> rtc_s c < 60"

lemma date_okI:
  "1970 \<le> y \<Longrightarrow> 1 \<le> mo \<Longrightarrow> mo \<le> 12 \<Longrightarrow> 1 \<le> d \<Longrightarrow> d \<le> dim y mo \<Longrightarrow> h < 24 \<Longrightarrow> mi < 60 \<Longrightarrow> sec < 60 \<Longrightarrow>
     date_ok (c\<lparr>rtc_y := y, rtc_mo := mo, rtc_d := d, rtc_h := h, rtc_mi := mi, rtc_s := sec\<rparr>)"
  by (simp add: date_ok_def)

lemma year_months: "days_before_month y 13 = year_days y"
proof -
  have "days_before_month y 13 = (\<Sum>k\<leftarrow>[1..<13]. dim y k)" unfolding days_before_month_def by (simp only: interv_sum_list_conv_sum_set_nat set_upt)
  also have "[1..<13] = [1, 2, 3, 4, 5, 6, 7, 8, 9, 10, 11, 12]" by (simp add: upt_rec)
  finally show ?thesis by (simp add: dim_def year_days_def mdays_def)
qed

lemma next_month: "1 \<le> m \<Longrightarrow> days_before_month y (Suc m) = days_before_month y m + dim y m"
  by (simp add: days_before_month_def)

lemma next_year: "1970 \<le> y \<Longrightarrow> days_before_year (Suc y) = days_before_year y + year_days y"
  by (simp add: days_before_year_def)

lemma month_loop_spec:
  "days < (\<Sum>k = m..<13. dim y k) \<Longrightarrow> m < 13 \<Longrightarrow> month_loop [m..<13] y days = (mo, d) \<Longrightarrow>
     m \<le> mo \<and> mo \<le> 12 \<and> 1 \<le> d \<and> d \<le> dim y mo \<and> (\<Sum>k = m..<mo. dim y k) + (d - 1) = days"
proof (induction "13 - m" arbitrary: m days)
  case (Suc n)
  have u: "[m..<13] = m # [Suc m..<13]" using Suc.prems(2) by (simp add: upt_conv_Cons)
  show ?case
  proof (cases "days < dim y m")
    case True
    with Suc.prems u show ?thesis by auto
  next
    case False
    have s: "(\<Sum>k = m..<13. dim y k) = dim y m + (\<Sum>k = Suc m..<13. dim y k)" using Suc.prems(2) by (simp add: sum.atLeast_Suc_lessThan)
    with False Suc.prems(1) have lt: "days - dim y m < (\<Sum>k = Suc m..<13. dim y k)" by simp
    then have m: "Suc m < 13" by (cases "Suc m < 13") simp_all
    have e: "month_loop [Suc m..<13] y (days - dim y m) = (mo, d)" using Suc.prems(3) u False by simp
    have n: "n = 13 - Suc m" using Suc.hyps(2) by simp
    have r: "Suc m \<le> mo \<and> mo \<le> 12 \<and> 1 \<le> d \<and> d \<le> dim y mo \<and> (\<Sum>k = Suc m..<mo. dim y k) + (d - 1) = days - dim y m" by (rule Suc.hyps(1) [OF n lt m e])
    then have "(\<Sum>k = m..<mo. dim y k) = dim y m + (\<Sum>k = Suc m..<mo. dim y k)" by (simp add: sum.atLeast_Suc_lessThan)
    with r False show ?thesis by linarith
  qed
qed simp

lemma year_loop_spec:
  "year_loop days y = (yr, r) \<Longrightarrow> y \<le> 2100 \<Longrightarrow> days < (\<Sum>k = y..<2101. year_days k) \<Longrightarrow>
     y \<le> yr \<and> yr \<le> 2100 \<and> r < year_days yr \<and> (\<Sum>k = y..<yr. year_days k) + r = days"
proof (induction days y rule: year_loop.induct)
  case (1 days y)
  show ?case
  proof (cases "days < year_days y")
    case True
    with 1 show ?thesis by (auto simp: year_loop.simps [of days y])
  next
    case False
    have s: "(\<Sum>k = y..<2101. year_days k) = year_days y + (\<Sum>k = Suc y..<2101. year_days k)" using "1.prems"(2) by (simp add: sum.atLeast_Suc_lessThan)
    with False "1.prems"(3) have lt: "days - year_days y < (\<Sum>k = Suc y..<2101. year_days k)" by simp
    then have y: "Suc y \<le> 2100" by (cases "Suc y \<le> 2100") simp_all
    with False "1.prems"(1) have "year_loop (days - year_days y) (Suc y) = (yr, r)" by (simp add: year_loop.simps [of days y])
    with "1.IH" [OF False _ _ y lt] y have r: "Suc y \<le> yr \<and> yr \<le> 2100 \<and> r < year_days yr \<and> (\<Sum>k = Suc y..<yr. year_days k) + r = days - year_days y" by simp
    then have "(\<Sum>k = y..<yr. year_days k) = year_days y + (\<Sum>k = Suc y..<yr. year_days k)" by (simp add: sum.atLeast_Suc_lessThan)
    with r False show ?thesis by linarith
  qed
qed

lemma date_of_unix:
  assumes "e div 86400 < days_before_year 2101"
  shows "date_ok (from_unix32 e c) \<and> seconds (from_unix32 e c) = e"
proof -
  let ?days = "e div 86400"
  obtain yr r where y: "year_loop ?days 1970 = (yr, r)" by fastforce
  obtain mo d where m: "month_loop [1..<13] yr r = (mo, d)" by fastforce
  note ys = year_loop_spec [OF y _ assms [unfolded days_before_year_def]]
  then have r: "r < (\<Sum>k = 1..<13. dim yr k)" using year_months [of yr] by (simp add: days_before_month_def)
  note ms = month_loop_spec [OF r _ m]
  let ?s = "e - ?days * 86400"
  have s: "?s = e mod 86400" by (simp add: minus_div_mult_eq_mod)
  then have h: "?s div 3600 < 24" by (simp add: less_mult_imp_div_less)
  have "?s - ?s div 3600 * 3600 = ?s mod 3600" by (simp add: minus_div_mult_eq_mod)
  then have mi: "(?s - ?s div 3600 * 3600) div 60 < 60" by (simp add: less_mult_imp_div_less)
  have f: "from_unix32 e c = c\<lparr>rtc_y := yr, rtc_mo := mo, rtc_d := d, rtc_h := ?s div 3600, rtc_mi := (?s - ?s div 3600 * 3600) div 60,
      rtc_s := ?s - ?s div 3600 * 3600 - (?s - ?s div 3600 * 3600) div 60 * 60\<rparr>"
    by (simp add: from_unix32_def Let_def y m add.assoc del: One_nat_def)
  have ss: "?s - ?s div 3600 * 3600 - (?s - ?s div 3600 * 3600) div 60 * 60 = (?s - ?s div 3600 * 3600) mod 60" by (simp add: minus_div_mult_eq_mod)
  have dn: "day_number (from_unix32 e c) = ?days"
  proof -
    define A where "A = (\<Sum>k = 1970..<yr. year_days k)"
    define B where "B = (\<Sum>k = 1..<mo. dim yr k)"
    have 1: "A + r = ?days" using ys by (simp add: A_def)
    have 2: "B + (d - 1) = r" "1 \<le> d" using ms unfolding B_def by simp_all
    have "day_number (from_unix32 e c) = A + B + (d - 1)"
      unfolding day_number_def days_before_year_def days_before_month_def f A_def B_def by (simp del: One_nat_def)
    with 1 2 show ?thesis by simp
  qed
  have yr: "1970 \<le> yr" using ys by simp
  have "date_ok (from_unix32 e c)"
    unfolding f ss by (rule date_okI) (use yr ms in \<open>simp_all only: h mi mod_less_divisor zero_less_numeral\<close>)
  moreover have "seconds (from_unix32 e c) = e"
  proof -
    define t where "t = ?s - ?s div 3600 * 3600"
    have 1: "?s = ?s div 3600 * 3600 + t" by (simp add: t_def)
    have 2: "t = t div 60 * 60 + t mod 60" by simp
    have 3: "e = ?days * 86400 + ?s" by simp
    have "seconds (from_unix32 e c) = ((?days * 24 + ?s div 3600) * 60 + t div 60) * 60 + t mod 60"
      unfolding seconds_def dn unfolding f ss t_def [symmetric] by simp
    also have "\<dots> = ?days * 86400 + (?s div 3600 * 3600 + (t div 60 * 60 + t mod 60))" by (simp add: algebra_simps)
    also have "\<dots> = e" using 1 2 3 by metis
    finally show ?thesis .
  qed
  ultimately show ?thesis by blast
qed


lemma dim_pos: "1 \<le> dim y m"
proof -
  have "m - 1 \<in> {..<12}" if "1 \<le> m" "m \<le> 12" using that by auto
  then show ?thesis by (auto simp: dim_def mdays_def lessThan_Suc numeral_eq_Suc)
qed

text \<open>One step of the clock is the next second of the calendar.\<close>

lemma add_one_second_next:
  assumes "date_ok c"
  shows "date_ok (add_one_second c) \<and> seconds (add_one_second c) = Suc (seconds c)"
proof (cases "rtc_d c + 1 \<le> dim (rtc_y c) (rtc_mo c)")
  case True
  with assms show ?thesis by (auto simp: add_one_second_def Let_def date_ok_def seconds_def day_number_def)
next
  case False
  with assms have d: "rtc_d c = dim (rtc_y c) (rtc_mo c)" by (simp add: date_ok_def)
  show ?thesis
  proof (cases "rtc_mo c + 1 \<le> 12")
    case True
    with assms False d dim_pos [of "rtc_y c" "Suc (rtc_mo c)"] dim_pos [of "rtc_y c" "rtc_mo c"] show ?thesis
      by (auto simp: add_one_second_def Let_def date_ok_def seconds_def day_number_def next_month)
  next
    case False': False
    with assms have m: "rtc_mo c = 12" by (simp add: date_ok_def)
    have "days_before_month (rtc_y c) 12 + dim (rtc_y c) 12 = year_days (rtc_y c)"
      using next_month [of 12 "rtc_y c"] year_months [of "rtc_y c"] by simp
    moreover have "days_before_month y 1 = 0" for y by (simp add: days_before_month_def)
    ultimately show ?thesis using assms False d m dim_pos [of "Suc (rtc_y c)" 1] dim_pos [of "rtc_y c" 12]
      by (auto simp: add_one_second_def Let_def date_ok_def seconds_def day_number_def next_year)
  qed
qed

lemma add_one_second_ticks [simp]:
  "ticks0 (add_one_second c) = ticks0 c" "rtc_ready (add_one_second c) = rtc_ready c"
  by (simp_all add: add_one_second_def Let_def)

lemma add_seconds:
  "date_ok c \<Longrightarrow> date_ok ((add_one_second ^^ n) c) \<and> seconds ((add_one_second ^^ n) c) = seconds c + n \<and>
     ticks0 ((add_one_second ^^ n) c) = ticks0 c \<and> rtc_ready ((add_one_second ^^ n) c) = rtc_ready c"
  by (induction n) (auto simp: add_one_second_next)

lemma seconds_ticks [simp]:
  "seconds (c\<lparr>ticks0 := t\<rparr>) = seconds c" "date_ok (c\<lparr>ticks0 := t\<rparr>) = date_ok c"
  "seconds (c\<lparr>rtc_ready := b\<rparr>) = seconds c" "date_ok (c\<lparr>rtc_ready := b\<rparr>) = date_ok c"
  by (simp_all add: seconds_def date_ok_def day_number_def)

lemma seed_kept [simp]:
  "rtc_seed (from_unix32 e c) = rtc_seed c" "rtc_seed (add_one_second c) = rtc_seed c" "rtc_seed ((add_one_second ^^ n) c) = rtc_seed c"
proof -
  show "rtc_seed (from_unix32 e c) = rtc_seed c" by (simp add: from_unix32_def Let_def split_beta)
  show a: "rtc_seed (add_one_second c) = rtc_seed c" for c by (simp add: add_one_second_def Let_def)
  show "rtc_seed ((add_one_second ^^ n) c) = rtc_seed c" by (induction n) (simp_all add: a)
qed

section \<open>The Gregorian calendar\<close>

text \<open>
  The calendar as it is published, apart from the code: the length of a month, and the number of a day in a calendar whose years
  begin in March, so that the leap day is the last one. 1970 begins with day 719468.
\<close>

definition gregorian_leap :: "nat \<Rightarrow> bool" where
  "gregorian_leap y \<longleftrightarrow> 4 dvd y \<and> (100 dvd y \<longrightarrow> 400 dvd y)"

definition month_length :: "nat \<Rightarrow> nat \<Rightarrow> nat" where
  "month_length y m = (if m = 2 then (if gregorian_leap y then 29 else 28) else if m \<in> {4, 6, 9, 11} then 30 else 31)"

definition march_years :: "nat \<Rightarrow> nat" where
  "march_years y = 365 * y + y div 4 + y div 400 - y div 100"

definition civil_day :: "nat \<Rightarrow> nat \<Rightarrow> nat \<Rightarrow> nat" where
  "civil_day y m d = march_years (if m \<le> 2 then y - 1 else y) + (153 * ((m + 9) mod 12) + 2) div 5 + (d - 1)"

definition valid_date :: "rtc \<Rightarrow> bool" where
  "valid_date c \<longleftrightarrow> 1970 \<le> rtc_y c \<and> 1 \<le> rtc_mo c \<and> rtc_mo c \<le> 12 \<and> 1 \<le> rtc_d c \<and> rtc_d c \<le> month_length (rtc_y c) (rtc_mo c) \<and>
     rtc_h c < 24 \<and> rtc_mi c < 60 \<and> rtc_s c < 60"

definition unix_time :: "rtc \<Rightarrow> nat" where
  "unix_time c = (civil_day (rtc_y c) (rtc_mo c) (rtc_d c) - 719468) * 86400 + rtc_h c * 3600 + rtc_mi c * 60 + rtc_s c"

text \<open>The code's lengths are the calendar's.\<close>

lemma centuries: "400 dvd y \<Longrightarrow> 100 dvd (y::nat)" "100 dvd y \<Longrightarrow> 4 dvd (y::nat)"
  by (auto elim!: dvd_trans [rotated])

lemma leap_gregorian: "leap y \<longleftrightarrow> gregorian_leap y"
  unfolding leap_def gregorian_leap_def dvd_eq_mod_eq_0 [symmetric] using centuries [of y] by blast

lemma months: "1 \<le> m \<Longrightarrow> m \<le> 12 \<Longrightarrow> m = 1 \<or> m = 2 \<or> m = 3 \<or> m = 4 \<or> m = 5 \<or> m = 6 \<or> m = 7 \<or> m = 8 \<or> m = 9 \<or> m = 10 \<or> m = 11 \<or> m = (12::nat)"
  by arith

lemma dim_month_length: "1 \<le> m \<Longrightarrow> m \<le> 12 \<Longrightarrow> dim y m = month_length y m"
  by (drule (1) months) (auto simp: dim_def month_length_def mdays_def leap_gregorian)

lemma leap_count:
  "a4 = b4 + (if P then 1 else 0) \<Longrightarrow> a100 = b100 + (if Q then 1 else 0) \<Longrightarrow> a400 = b400 + (if R then 1 else 0) \<Longrightarrow>
     (R \<longrightarrow> Q) \<Longrightarrow> (Q \<longrightarrow> P) \<Longrightarrow> a4 + a400 + b100 = b4 + b400 + a100 + (if P \<and> (Q \<longrightarrow> R) then 1 else (0::nat))"
  by (cases P; cases Q; cases R) simp_all

lemma march_step:
  assumes "0 < y"
  shows "march_years y = march_years (y - 1) + (if gregorian_leap y then 366 else 365)"
proof -
  have d: "y div n = (y - 1) div n + (if n dvd y then 1 else 0)" for n
    using assms div_Suc [of "y - 1" n] by (simp add: dvd_eq_mod_eq_0)
  have "400 dvd y \<longrightarrow> 100 dvd y" "100 dvd y \<longrightarrow> 4 dvd y" using centuries [of y] by blast+
  note c = leap_count [OF d [of 4] d [of 100] d [of 400] this, folded gregorian_leap_def]
  have b: "z div 100 \<le> 365 * z + z div 4 + z div 400" for z :: nat
    using div_le_mono2 [of 4 100 z] by linarith
  define a where "a n = y div n" for n
  define e where "e n = (y - 1) div n" for n
  have "365 * y = 365 * (y - 1) + 365" using assms by (cases y) simp_all
  then show ?thesis
    using c b [of y] b [of "y - 1"] unfolding march_years_def a_def [symmetric] e_def [symmetric] by (simp split: if_splits)
qed

lemma civil_next_month:
  assumes "1970 \<le> y" and "1 \<le> m" and "m < 12"
  shows "civil_day y (Suc m) 1 = civil_day y m 1 + month_length y m"
proof -
  have y: "0 < y" using assms(1) by simp
  have "m = 1 \<or> m = 2 \<or> m = 3 \<or> m = 4 \<or> m = 5 \<or> m = 6 \<or> m = 7 \<or> m = 8 \<or> m = 9 \<or> m = 10 \<or> m = 11" using months [OF assms(2)] assms(3) by auto
  then show ?thesis
    by (elim disjE) (simp_all add: civil_day_def month_length_def march_step [OF y])
qed

lemma civil_next_year: "civil_day (Suc y) 1 1 = civil_day y 12 1 + 31"
  by (simp add: civil_day_def)

lemma civil_months:
  "1970 \<le> y \<Longrightarrow> 1 \<le> m \<Longrightarrow> m \<le> 12 \<Longrightarrow> civil_day y m 1 = civil_day y 1 1 + days_before_month y m"
proof (induction m)
  case (Suc m)
  show ?case
  proof (cases "m = 0")
    case False
    then have m: "1 \<le> m" "m < 12" "m \<le> 12" using Suc.prems by simp_all
    have "civil_day y (Suc m) 1 = civil_day y m 1 + month_length y m" by (rule civil_next_month [OF Suc.prems(1) m(1,2)])
    then show ?thesis using Suc.IH [OF Suc.prems(1) m(1,3)] next_month [OF m(1), of y] dim_month_length [OF m(1,3), of y] by simp
  qed (simp add: days_before_month_def)
qed simp

lemma civil_years: "1970 \<le> y \<Longrightarrow> civil_day y 1 1 = 719468 + days_before_year y"
proof (induction y rule: dec_induct)
  case base
  show ?case by (simp add: civil_day_def march_years_def days_before_year_def)
next
  case (step y)
  have "days_before_month y 12 + 31 = year_days y"
    using next_month [of 12 y] year_months [of y] by (simp add: dim_def mdays_def)
  with step civil_months [of y 12] civil_next_year [of y] next_year [of y] show ?case by simp
qed

lemma date_ok_valid: "date_ok c \<Longrightarrow> valid_date c \<and> unix_time c = seconds c"
proof -
  assume c: "date_ok c"
  then have m: "1970 \<le> rtc_y c" "1 \<le> rtc_mo c" "rtc_mo c \<le> 12" "1 \<le> rtc_d c" by (simp_all add: date_ok_def)
  have "civil_day (rtc_y c) (rtc_mo c) (rtc_d c) = civil_day (rtc_y c) (rtc_mo c) 1 + (rtc_d c - 1)"
    by (simp add: civil_day_def)
  then have "civil_day (rtc_y c) (rtc_mo c) (rtc_d c) - 719468 = day_number c"
    using civil_months [OF m(1-3)] civil_years [OF m(1)] by (simp add: day_number_def)
  then have "unix_time c = seconds c" by (simp add: unix_time_def seconds_def)
  moreover have "valid_date c" using c dim_month_length [OF m(2,3), of "rtc_y c"] by (simp add: date_ok_def valid_date_def)
  ultimately show ?thesis by blast
qed

text \<open>\<open>clock_at t0 n c\<close>: the clock has counted \<open>n\<close> seconds since it was set at the timer's reading \<open>t0\<close>.\<close>

definition clock_at :: "u32 \<Rightarrow> nat \<Rightarrow> rtc \<Rightarrow> bool" where
  "clock_at t0 n c \<longleftrightarrow> rtc_ready c \<and> date_ok c \<and> seconds c = unat (rtc_seed c) + n \<and> ticks0 c = t0 + of_nat (100 * n)"

lemma rtc_init_clock: "unat (rtc_seed c) < 4133980800 \<Longrightarrow> clock_at t0 0 (rtc_init t0 c)"
proof -
  assume e: "unat (rtc_seed c) < 4133980800"
  have "civil_day 2101 1 1 = 719468 + 47847" by (simp add: civil_day_def march_years_def)
  then have "days_before_year 2101 = 47847" using civil_years [of 2101] by simp
  with e have "unat (rtc_seed c) div 86400 < days_before_year 2101" by (simp add: div_less_iff_less_mult)
  from date_of_unix [OF this, of c] show ?thesis by (simp add: clock_at_def rtc_init_def)
qed

lemma advance_clock:
  assumes "clock_at t0 n c"
  shows "clock_at t0 (n + min 3600 (unat ((now - ticks0 c) div TICK_HZ))) (advance_by_pit now c)"
proof -
  define e where "e = (now - ticks0 c) div TICK_HZ"
  define k where "k = (if e > 3600 then 3600 else e)"
  have k: "unat k = min 3600 (unat e)" by (simp add: k_def word_less_nat_alt min_def)
  have a: "advance_by_pit now c = (add_one_second ^^ unat k) (c\<lparr>ticks0 := ticks0 c + k * TICK_HZ\<rparr>)"
    by (cases "e = 0") (simp_all add: advance_by_pit_def Let_def e_def [symmetric] k_def)
  from assms add_seconds [of "c\<lparr>ticks0 := ticks0 c + k * TICK_HZ\<rparr>" "unat k"] show ?thesis
    unfolding clock_at_def a e_def [symmetric] k [symmetric] by (simp add: TICK_HZ_def algebra_simps)
qed

text \<open>Property C40. Whatever the times of the reads, the clock's date is always a valid date of the Gregorian calendar, and it is the build's epoch
  plus the seconds the clock has counted: one per hundred ticks of the timer since it was set, the remainder carried over to the next read. A
  read that comes within an hour of the previous one shows the present second; a later one is an hour behind for each hour it missed and
  catches up on the following reads. The epoch lies before 2101, where the conversion gives up.\<close>

theorem rtc_keeps_time:
  assumes "unat (rtc_seed c0) < 4133980800"
  shows "\<exists>n. let c1 = fold (\<lambda>now c. snd (rtc_read t1 now c)) nows (rtc_init t0 c0) in
     valid_date c1 \<and> unix_time c1 = unat (rtc_seed c0) + n \<and> ticks0 c1 = t0 + of_nat (100 * n) \<and>
     (\<forall>now. let ((y, mo, d, h, mi, s), c2) = rtc_read t1 now c1; k = min 3600 (unat (now - ticks0 c1) div 100) in
        (y, mo, d, h, mi, s) = (rtc_y c2, rtc_mo c2, rtc_d c2, rtc_h c2, rtc_mi c2, rtc_s c2) \<and>
        valid_date c2 \<and> unix_time c2 = unat (rtc_seed c0) + n + k \<and> ticks0 c2 = t0 + of_nat (100 * (n + k)))"
proof -
  have step: "clock_at t0 (n + min 3600 (unat (now - ticks0 c) div 100)) (snd (rtc_read t1 now c)) \<and>
      rtc_seed (snd (rtc_read t1 now c)) = rtc_seed c" if "clock_at t0 n c" for n now c
    using advance_clock [OF that, of now] that
    by (simp add: rtc_read_def Let_def clock_at_def TICK_HZ_def unat_div) (simp add: advance_by_pit_def Let_def)
  have all: "\<exists>n. clock_at t0 n (fold (\<lambda>now c. snd (rtc_read t1 now c)) nows c) \<and>
      rtc_seed (fold (\<lambda>now c. snd (rtc_read t1 now c)) nows c) = rtc_seed c" if "clock_at t0 k c" for c k
    using that
  proof (induction nows arbitrary: c k)
    case (Cons now nows)
    from Cons.IH [OF step [OF Cons.prems, THEN conjunct1]] step [OF Cons.prems, of now] show ?case by simp
  qed auto
  define c1 where "c1 = fold (\<lambda>now c. snd (rtc_read t1 now c)) nows (rtc_init t0 c0)"
  have "rtc_seed (rtc_init t0 c0) = rtc_seed c0" by (simp add: rtc_init_def)
  with all [OF rtc_init_clock [OF assms]] obtain n where n: "clock_at t0 n c1" "rtc_seed c1 = rtc_seed c0" by (auto simp: c1_def)
  have shown: "valid_date c \<and> unix_time c = unat (rtc_seed c) + m \<and> ticks0 c = t0 + of_nat (100 * m)" if "clock_at t0 m c" for m c
    using that date_ok_valid [of c] by (simp add: clock_at_def)
  have date: "fst (rtc_read t1 now c1) = (rtc_y c2, rtc_mo c2, rtc_d c2, rtc_h c2, rtc_mi c2, rtc_s c2)" if "c2 = snd (rtc_read t1 now c1)" for now c2
    using that by (simp add: rtc_read_def Let_def)
  show ?thesis
    unfolding c1_def [symmetric] Let_def case_prod_beta
    using shown [OF n(1)] n(2) shown [OF step [OF n(1), THEN conjunct1]] step [OF n(1), THEN conjunct2] date [OF refl]
    by (intro exI [of _ n]) (simp add: prod_eq_iff)
qed

theorem rtc_keeps_time_witness:
  "\<exists>n. unix_time (fold (\<lambda>now c. snd (rtc_read 0 now c)) [250, 100000] (rtc_init 0
     \<lparr>rtc_seed = 1753462800, rtc_ready = False, rtc_y = 0, rtc_mo = 0, rtc_d = 0, rtc_h = 0, rtc_mi = 0, rtc_s = 0, ticks0 = 0\<rparr>)) = 1753462800 + n"
  using rtc_keeps_time [of "\<lparr>rtc_seed = 1753462800, rtc_ready = False, rtc_y = 0, rtc_mo = 0, rtc_d = 0, rtc_h = 0, rtc_mi = 0, rtc_s = 0,
      ticks0 = 0\<rparr>" 0 "[250, 100000]" 0] by (simp add: Let_def del: fold.simps) blast

end
