(* ===== verification/Syscall.thy ===== *)
theory Syscall
  imports Elf Fat Net Kbd Rtc
begin

text \<open>
  The system calls (kernel/proc/syscall.c): pipes, clipboard, input and time kept by the call layer itself, the
  mount point that divides the files between the tree in memory and the FAT volume, and the dispatcher over the
  components' operations. A call is its decoded arguments; what it stores through pointers is part of its answer.
\<close>

section \<open>Pipes\<close>

definition PIPE_MAX :: nat where "PIPE_MAX = 8"
definition PIPE_BUF :: nat where "PIPE_BUF = 2048"
definition CLIP_MAX :: nat where "CLIP_MAX = 4096"

record kpipe =
  pi_used :: bool
  pi_buf :: "u8 list"
  pi_len :: nat
  pi_rpos :: nat
  pi_rfd :: int
  pi_wfd :: int

definition blank_pipe :: kpipe where
  "blank_pipe = \<lparr>pi_used = False, pi_buf = replicate PIPE_BUF 0, pi_len = 0, pi_rpos = 0, pi_rfd = 0, pi_wfd = 0\<rparr>"

definition pipe_from_fd :: "int \<Rightarrow> kpipe list \<Rightarrow> nat option" where
  "pipe_from_fd fd ps = first_from (\<lambda>p. pi_used p \<and> (pi_rfd p = fd \<or> pi_wfd p = fd)) ps 0"

text \<open>One turn of the two copy loops.\<close>

definition pipe_get :: "kpipe \<Rightarrow> u8 option \<times> kpipe" where
  "pipe_get p =
     (if pi_len p = 0 then (None, p)
      else (Some (pi_buf p ! pi_rpos p), p\<lparr>pi_rpos := (pi_rpos p + 1) mod PIPE_BUF, pi_len := pi_len p - 1\<rparr>))"

definition pipe_put :: "u8 \<Rightarrow> kpipe \<Rightarrow> bool \<times> kpipe" where
  "pipe_put b p =
     (if pi_len p < PIPE_BUF then
        (True, p\<lparr>pi_buf := (pi_buf p)[(pi_rpos p + pi_len p) mod PIPE_BUF := b], pi_len := pi_len p + 1\<rparr>)
      else (False, p))"

text \<open>The bytes read, or the error \<open>None\<close>; the count written, or -1.\<close>

definition pipe_read :: "nat \<Rightarrow> int \<Rightarrow> kpipe list \<Rightarrow> u8 list option \<times> kpipe list" where
  "pipe_read i n ps =
     (if n \<le> 0 then (None, ps) else let (bs, p) = drain pipe_get (nat n) (ps ! i) in (Some bs, ps[i := p]))"

definition pipe_write :: "nat \<Rightarrow> u8 list \<Rightarrow> kpipe list \<Rightarrow> int \<times> kpipe list" where
  "pipe_write i bs ps =
     (if bs = [] then (-1, ps) else let (k, p) = offer pipe_put bs (ps ! i) in (int k, ps[i := p]))"

definition pipe_close_fd :: "int \<Rightarrow> kpipe list \<Rightarrow> int \<times> kpipe list" where
  "pipe_close_fd fd ps =
     (case pipe_from_fd fd ps of None \<Rightarrow> (-1, ps)
      | Some i \<Rightarrow>
        let p = ps ! i;
            p = (if pi_rfd p = fd then p\<lparr>pi_rfd := -1\<rparr> else p);
            p = (if pi_wfd p = fd then p\<lparr>pi_wfd := -1\<rparr> else p);
            p = (if pi_rfd p < 0 \<and> pi_wfd p < 0 then p\<lparr>pi_used := False\<rparr> else p)
        in (0, ps[i := p]))"

section \<open>State\<close>

record input_ev =
  i_type :: u32
  i_key :: int
  i_dx :: int
  i_dy :: int
  i_x :: int
  i_y :: int
  i_buttons :: int

text \<open>
  The kernel a system call sees. \<open>k_tty\<close> are the characters handed to the text terminal, \<open>k_typed\<close> those
  it will deliver to readers; the card's frame buffers are in the processes' memory.
\<close>

record sys =
  k_proc :: kern
  k_fat :: fat
  k_net :: net
  k_pipes :: "kpipe list"
  k_clip :: "u8 list"
  k_ev :: input_ev
  k_rtc :: rtc
  k_tty :: string
  k_typed :: "int list"

abbreviation k_vfs :: "sys \<Rightarrow> vfs" where "k_vfs s \<equiv> kvfs (k_proc s)"
abbreviation k_mm :: "sys \<Rightarrow> mm" where "k_mm s \<equiv> kmm (k_proc s)"

definition on_proc :: "(kern \<Rightarrow> 'a \<times> kern) \<Rightarrow> sys \<Rightarrow> 'a \<times> sys" where
  "on_proc f s = (let (r, k) = f (k_proc s) in (r, s\<lparr>k_proc := k\<rparr>))"

definition on_vfs :: "(vfs \<Rightarrow> 'a \<times> vfs) \<Rightarrow> sys \<Rightarrow> 'a \<times> sys" where
  "on_vfs f = on_proc (\<lambda>k. let (r, v) = f (kvfs k) in (r, k\<lparr>kvfs := v\<rparr>))"

definition on_disp :: "(display \<Rightarrow> 'a \<times> display) \<Rightarrow> sys \<Rightarrow> 'a \<times> sys" where
  "on_disp f = on_proc (\<lambda>k. let (r, d) = f (kdisp k) in (r, k\<lparr>kdisp := d\<rparr>))"

definition on_disp_mm :: "(display \<times> mm \<Rightarrow> 'a \<times> display \<times> mm) \<Rightarrow> sys \<Rightarrow> 'a \<times> sys" where
  "on_disp_mm f = on_proc (\<lambda>k. let (r, d, m) = f (kdisp k, kmm k) in (r, set_kmm m (k\<lparr>kdisp := d\<rparr>)))"

definition on_net :: "(net \<Rightarrow> 'a \<times> net) \<Rightarrow> sys \<Rightarrow> 'a \<times> sys" where
  "on_net f s =
     (let (r, n) = f ((k_net s)\<lparr>nmem := mem (k_mm s)\<rparr>); k = k_proc s
      in (r, s\<lparr>k_net := n, k_proc := set_kmm ((kmm k)\<lparr>mem := nmem n\<rparr>) k\<rparr>))"

definition on_pipes :: "(kpipe list \<Rightarrow> 'a \<times> kpipe list) \<Rightarrow> sys \<Rightarrow> 'a \<times> sys" where
  "on_pipes f s = (let (r, ps) = f (k_pipes s) in (r, s\<lparr>k_pipes := ps\<rparr>))"

section \<open>The mount point\<close>

text \<open>
  The first lines of the file operations: a path under \<^verbatim>\<open>/disk\<close> of a mounted volume and a descriptor from
  100 on go to the FAT driver. \<open>None\<close>: the driver's loop over a damaged chain does not return.
\<close>

type_synonym 'a call = "sys \<Rightarrow> ('a \<times> sys) option"

definition on_fat :: "(fat \<Rightarrow> ('a \<times> fat) option) \<Rightarrow> 'a call" where
  "on_fat f s = map_option (\<lambda>(r, v). (r, s\<lparr>k_fat := v\<rparr>)) (f (k_fat s))"

definition err_code :: "vfs_err + unit \<Rightarrow> int" where
  "err_code r = (case r of Inl e \<Rightarrow> vfs_errno e | Inr u \<Rightarrow> 0)"

definition num_code :: "vfs_err + nat \<Rightarrow> int" where
  "num_code r = (case r of Inl e \<Rightarrow> vfs_errno e | Inr n \<Rightarrow> int n)"

definition mnt_open :: "string \<Rightarrow> u32 \<Rightarrow> int call" where
  "mnt_open path flags s =
     (if fat_is_path (k_fat s) path then
        map_option (apfst (case_sum vfs_errno id)) (on_fat (fat_open path flags) s)
      else Some (apfst num_code (on_vfs (vfs_open path flags) s)))"

definition mnt_close :: "int \<Rightarrow> sys \<Rightarrow> int \<times> sys" where
  "mnt_close fd s =
     (if 100 \<le> fd then let (r, v) = fat_close fd (k_fat s) in (err_code r, s\<lparr>k_fat := v\<rparr>)
      else apfst err_code (on_vfs (vfs_close fd) s))"

definition mnt_read :: "int \<Rightarrow> nat \<Rightarrow> (vfs_err + u8 list) call" where
  "mnt_read fd n s = (if 100 \<le> fd then on_fat (fat_read fd n) s else Some (on_vfs (vfs_read fd n) s))"

definition mnt_write :: "int \<Rightarrow> u8 list \<Rightarrow> sys \<Rightarrow> int \<times> sys" where
  "mnt_write fd bs s =
     (if 100 \<le> fd then let (r, v) = fat_write fd bs (k_fat s) in (num_code r, s\<lparr>k_fat := v\<rparr>)
      else apfst num_code (on_vfs (vfs_write fd bs) s))"

definition mnt_mkdir :: "string \<Rightarrow> int call" where
  "mnt_mkdir path s =
     (if fat_is_path (k_fat s) path then map_option (apfst err_code) (on_fat (fat_mkdir path) s)
      else Some (apfst err_code (on_vfs (vfs_mkdir path) s)))"

definition mnt_unlink :: "string \<Rightarrow> int call" where
  "mnt_unlink path s =
     (if fat_is_path (k_fat s) path then map_option (apfst err_code) (on_fat (fat_unlink path) s)
      else Some (apfst err_code (on_vfs (vfs_unlink path) s)))"

definition mnt_exists :: "string \<Rightarrow> sys \<Rightarrow> bool option" where
  "mnt_exists path s = (if fat_is_path (k_fat s) path then fat_exists (k_fat s) path else Some (vfs_exists path (k_vfs s)))"

definition mnt_isdir :: "string \<Rightarrow> sys \<Rightarrow> bool option" where
  "mnt_isdir path s = (if fat_is_path (k_fat s) path then fat_isdir (k_fat s) path else Some (vfs_isdir path (k_vfs s)))"

definition mnt_listdir :: "string \<Rightarrow> nat \<Rightarrow> sys \<Rightarrow> (vfs_err + string) option" where
  "mnt_listdir path n s =
     (if fat_is_path (k_fat s) path then fat_listdir (k_fat s) path n else Some (vfs_listdir path n (k_vfs s)))"

section \<open>Paths\<close>

text \<open>A process with no directory yet is put in \<^verbatim>\<open>/sys\<close>.\<close>

definition cur_cwd :: "sys \<Rightarrow> string option \<times> sys" where
  "cur_cwd s =
     (case current (k_proc s) of None \<Rightarrow> (None, s)
      | Some c \<Rightarrow>
        let k = k_proc s;
            k = (if cwd (procs k ! c) = [] then upd_proc c (\<lambda>q. q\<lparr>cwd := strncpy_val ''/sys'' PROC_CWD\<rparr>) k else k)
        in (Some (cwd (procs k ! c)), s\<lparr>k_proc := k\<rparr>))"

text \<open>The bounded joining of directory and name in \<open>joined\<close>.\<close>

definition join_path :: "string \<Rightarrow> string \<Rightarrow> string" where
  "join_path wd path =
     (if wd = ''/'' then slash # strncpy_val path (VFS_PATH_MAX - 1)
      else let l = length wd in
        strncpy_val wd VFS_PATH_MAX @ (if l + 1 < VFS_PATH_MAX then [slash] else []) @ strncpy_val path (VFS_PATH_MAX - l - 1))"

definition abs_path :: "string option \<Rightarrow> sys \<Rightarrow> string \<times> sys" where
  "abs_path path s =
     (let (wd, s) = cur_cwd s; wd = (case wd of None \<Rightarrow> ''/'' | Some w \<Rightarrow> w)
      in (case path of None \<Rightarrow> vfs_normalize wd VFS_PATH_MAX
          | Some p \<Rightarrow>
            if cget p 0 = NUL then vfs_normalize wd VFS_PATH_MAX
            else if cget p 0 = slash then vfs_normalize p VFS_PATH_MAX
            else vfs_normalize (join_path wd p) VFS_PATH_MAX, s))"

section \<open>Calls\<close>

text \<open>
  What a call gives its caller: the number in the register and what was stored through its pointers. A call
  that yields or exits goes back to the kernel call that waits for child \<open>c\<close> (\<open>Back c code\<close>); one that runs a
  child enters it (\<open>Enter\<close>). \<open>None\<close> is a call that does not return.
\<close>

datatype data = Nothing | Bytes "u8 list" | Chars string | Ints "int list" | Ps int int int string
datatype reply = Reply int data | Back nat int | Enter nat entry_point

abbreviation bytes_str :: "u8 list \<Rightarrow> string" where "bytes_str bs \<equiv> map (\<lambda>b. char_of (unat b)) bs"

definition cur_proc :: "sys \<Rightarrow> proc option" where "cur_proc s = proc_current (k_proc s)"

definition upd_cur :: "(proc \<Rightarrow> proc) \<Rightarrow> sys \<Rightarrow> sys" where
  "upd_cur f s = (case current (k_proc s) of None \<Rightarrow> s | Some c \<Rightarrow> s\<lparr>k_proc := upd_proc c f (k_proc s)\<rparr>)"

text \<open>\<^verbatim>\<open>frame[7] = v\<close>, and \<^verbatim>\<open>proc_yield_to_parent\<close> followed by \<^verbatim>\<open>return v\<close> when nobody waits.\<close>

definition set_eax :: "u32 \<Rightarrow> int \<Rightarrow> sys \<Rightarrow> sys" where
  "set_eax frame v s = s\<lparr>k_proc := set_kmm ((k_mm s)\<lparr>mem := mem_set_word (mem (k_mm s)) (frame + 28) (of_int v)\<rparr>) (k_proc s)\<rparr>"

definition yield_to :: "u32 \<Rightarrow> int \<Rightarrow> sys \<Rightarrow> reply \<times> sys" where
  "yield_to frame v s =
     (case on_proc (proc_yield_to_parent frame) s of
        (Some (c, code), s) \<Rightarrow> (Back c code, s) | (None, s) \<Rightarrow> (Reply v Nothing, s))"

definition sys_exit :: "int \<Rightarrow> sys \<Rightarrow> reply \<times> sys" where
  "sys_exit code s =
     (case on_proc (proc_exit code) s of (Some (c, r), s) \<Rightarrow> (Back c r, s) | (None, s) \<Rightarrow> (Reply 0 Nothing, s))"

definition write_fd :: "int \<Rightarrow> u8 list \<Rightarrow> sys \<Rightarrow> int \<times> sys" where
  "write_fd fd bs s =
     (case pipe_from_fd fd (k_pipes s) of Some i \<Rightarrow> on_pipes (pipe_write i bs) s | None \<Rightarrow> mnt_write fd bs s)"

definition write_cons :: "u32 \<Rightarrow> nat \<Rightarrow> u8 list \<Rightarrow> sys \<Rightarrow> reply \<times> sys" where
  "write_cons frame c bs s =
     (let (written, s) = on_proc (proc_cons_write (Some c) (bytes_str bs)) s; sink = cons_sink_slot c (k_proc s);
          ps = procs (k_proc s)
      in if newline \<in> set (bytes_str bs) \<or> PROC_CONS_OUT \<le> length (cons_out (ps ! sink)) + 64 \<or> need_preempt (ps ! c) then
           yield_to frame written (set_eax frame written (upd_cur (\<lambda>q. q\<lparr>need_preempt := False\<rparr>) s))
         else (Reply written Nothing, s))"

definition sys_write :: "u32 \<Rightarrow> int \<Rightarrow> u8 list \<Rightarrow> sys \<Rightarrow> reply \<times> sys" where
  "sys_write frame fd bs s =
     (if fd = 1 \<or> fd = 2 then
        (case cur_proc s of
           Some q \<Rightarrow>
             if 0 \<le> redir_out q then apfst (\<lambda>r. Reply r Nothing) (write_fd (redir_out q) bs s)
             else let s = snd (on_proc (proc_cons_repair (current (k_proc s))) s); c = the (current (k_proc s))
               in if cons_enable (procs (k_proc s) ! c) then write_cons frame c bs s
                  else (Reply (int (length bs)) Nothing, s\<lparr>k_tty := k_tty s @ bytes_str bs\<rparr>)
         | None \<Rightarrow> (Reply (int (length bs)) Nothing, s\<lparr>k_tty := k_tty s @ bytes_str bs\<rparr>))
      else apfst (\<lambda>r. Reply r Nothing) (write_fd fd bs s))"

text \<open>
  The character as an integer, as a byte or as the result, by the room of the buffer; \<open>ptr\<close> says whether
  there is one.
\<close>

definition deliver :: "bool \<Rightarrow> u32 \<Rightarrow> int \<Rightarrow> reply" where
  "deliver ptr n ch =
     (if ptr \<and> 4 \<le> n then Reply 4 (Ints [ch]) else if ptr \<and> 0 < n then Reply 1 (Bytes [of_int ch]) else Reply ch Nothing)"

definition read_fd :: "int \<Rightarrow> u32 \<Rightarrow> u8 list option call" where
  "read_fd fd n s =
     (case pipe_from_fd fd (k_pipes s) of Some i \<Rightarrow> Some (on_pipes (pipe_read i (sint n)) s)
      | None \<Rightarrow> map_option (apfst (case_sum (\<lambda>e. None) Some)) (mnt_read fd (unat n) s))"

definition read_redir :: "u32 \<Rightarrow> int \<Rightarrow> bool \<Rightarrow> u32 \<Rightarrow> reply call" where
  "read_redir frame fd ptr n s =
     (let pi = pipe_from_fd fd (k_pipes s)
      in case read_fd fd 1 s of None \<Rightarrow> None
         | Some (got, s) \<Rightarrow>
           (case got of
              Some (tmp # bs) \<Rightarrow> Some (deliver ptr n (uint tmp), s)
            | _ \<Rightarrow>
              if (case pi of None \<Rightarrow> False | Some i \<Rightarrow> pi_wfd (k_pipes s ! i) < 0) then Some (Reply 0 Nothing, s)
              else Some (yield_to frame 0 (set_eax frame 0 s))))"

definition sys_read :: "u32 \<Rightarrow> int \<Rightarrow> bool \<Rightarrow> u32 \<Rightarrow> reply call" where
  "sys_read frame fd ptr n s =
     (if fd = 0 then
        (case cur_proc s of
           Some q \<Rightarrow>
             if 0 \<le> redir_in q then read_redir frame (redir_in q) ptr n s
             else let s = snd (on_proc (proc_cons_repair (current (k_proc s))) s); c = the (current (k_proc s))
               in if cons_enable (procs (k_proc s) ! c) then
                    (case on_proc (proc_cons_getc (Some c)) s of
                       (Some ch, s) \<Rightarrow>
                         Some (if ch < 0 then yield_to frame 0 (set_eax frame 0 s) else (deliver ptr n ch, s))
                     | (None, s) \<Rightarrow> Some (yield_to frame 0 (set_eax frame 0 s)))
                  else (case k_typed s of [] \<Rightarrow> None | ch # t \<Rightarrow> Some (deliver ptr n ch, s\<lparr>k_typed := t\<rparr>))
         | None \<Rightarrow> (case k_typed s of [] \<Rightarrow> None | ch # t \<Rightarrow> Some (deliver ptr n ch, s\<lparr>k_typed := t\<rparr>)))
      else map_option (apfst (\<lambda>r. case r of None \<Rightarrow> Reply (-1) Nothing | Some bs \<Rightarrow> Reply (int (length bs)) (Bytes bs)))
             (read_fd fd n s))"

definition sys_open :: "string option \<Rightarrow> u32 \<Rightarrow> int call" where
  "sys_open path flags s = (let (p, s) = abs_path path s in mnt_open p flags s)"

text \<open>The descriptor is tried as a pipe's end, then as a file, then as a socket.\<close>

definition sys_close :: "int \<Rightarrow> sys \<Rightarrow> int \<times> sys" where
  "sys_close fd s =
     (case on_pipes (pipe_close_fd fd) s of (r, s1) \<Rightarrow>
        if r = 0 then (0, s1)
        else case mnt_close fd s of (vr, s2) \<Rightarrow>
          if vr = 0 then (0, s2)
          else case on_net (net_close fd) s2 of (nr, s3) \<Rightarrow> if nr = 0 then (0, s3) else (vr, s3))"

definition sys_spawn :: "string option \<Rightarrow> sys \<Rightarrow> int \<times> sys" where
  "sys_spawn path s = (let (p, s) = abs_path path s in on_proc (proc_spawn_elf p) s)"

text \<open>When the child gives the processor back, the call goes on in \<open>wait_collect\<close>.\<close>

definition wait_reply :: "(int \<times> int) option \<Rightarrow> reply" where
  "wait_reply r = (case r of None \<Rightarrow> Reply (-1) (Ints [0]) | Some (p, st) \<Rightarrow> Reply p (Ints [st]))"

definition sys_wait :: "int \<Rightarrow> sys \<Rightarrow> reply \<times> sys" where
  "sys_wait p s =
     (case on_proc (proc_wait p) s of
        (Waited r, s) \<Rightarrow> (wait_reply r, s) | (Suspended c e, s) \<Rightarrow> (Enter c e, s))"

definition wait_resume :: "nat \<Rightarrow> sys \<Rightarrow> reply \<times> sys" where
  "wait_resume c s = apfst (\<lambda>r. wait_reply (Some r)) (on_proc (wait_collect c) s)"

text \<open>\<^verbatim>\<open>sti; hlt\<close> ends with the timer's interrupt.\<close>

definition halt_tick :: "sys \<Rightarrow> sys" where "halt_tick s = s\<lparr>k_proc := sched_on_timer (k_proc s)\<rparr>"

definition sys_yield :: "u32 \<Rightarrow> sys \<Rightarrow> reply \<times> sys" where
  "sys_yield frame s =
     (let s = upd_cur (\<lambda>q. q\<lparr>need_preempt := False\<rparr>) s; hosted = (case cur_proc s of None \<Rightarrow> False | Some q \<Rightarrow> cons_enable q);
          s = halt_tick s
      in if hosted then yield_to frame 0 s else (Reply 0 Nothing, s))"

definition sys_listdir :: "string option \<Rightarrow> nat \<Rightarrow> reply call" where
  "sys_listdir path n s =
     (let (p, s) = abs_path path s
      in map_option (\<lambda>r. case r of Inl e \<Rightarrow> (Reply (vfs_errno e) Nothing, s) | Inr out \<Rightarrow> (Reply (int (length out)) (Chars out), s))
           (mnt_listdir p n s))"

text \<open>Every process that stood in the removed directory is moved to the root.\<close>

definition cwd_gone :: "string \<Rightarrow> string \<Rightarrow> bool" where
  "cwd_gone path pc \<longleftrightarrow> kstrcmp pc path = 0 \<or>
     kstrlen path > 1 \<and> kstrncmp pc path (kstrlen path) = 0 \<and> cget pc (kstrlen path) = slash"

definition leave_dir :: "string \<Rightarrow> proc \<Rightarrow> proc" where
  "leave_dir path q = (if used q \<and> cwd q \<noteq> [] \<and> cwd_gone path (cwd q) then q\<lparr>cwd := strncpy_val ''/'' PROC_CWD\<rparr> else q)"

definition sys_unlink :: "string option \<Rightarrow> int call" where
  "sys_unlink path s =
     (let (p, s) = abs_path path s
      in map_option (\<lambda>(r, s). (r, if r = 0 then s\<lparr>k_proc := (k_proc s)\<lparr>procs := map (leave_dir p) (procs (k_proc s))\<rparr>\<rparr> else s))
           (mnt_unlink p s))"

definition sys_mkdir :: "string option \<Rightarrow> int call" where
  "sys_mkdir path s = (let (p, s) = abs_path path s in mnt_mkdir p s)"

definition sys_exists :: "string option \<Rightarrow> int call" where
  "sys_exists path s = (let (p, s) = abs_path path s in map_option (\<lambda>b. (if b then 1 else 0, s)) (mnt_exists p s))"

definition sys_chdir :: "string option \<Rightarrow> int call" where
  "sys_chdir path s =
     (let (wd, s) = cur_cwd s; (p, s) = abs_path path s
      in case mnt_isdir p s of None \<Rightarrow> None
         | Some d \<Rightarrow>
           if \<not> d \<or> wd = None then Some (-1, s) else Some (0, upd_cur (\<lambda>q. q\<lparr>cwd := strncpy_val p PROC_CWD\<rparr>) s))"

definition sys_getcwd :: "nat \<Rightarrow> sys \<Rightarrow> reply \<times> sys" where
  "sys_getcwd n s =
     (case cur_cwd s of (None, s) \<Rightarrow> (Reply (-1) Nothing, s) | (Some w, s) \<Rightarrow> (Reply 0 (Chars (strncpy_val w n)), s))"

section \<open>Terminal, clipboard, pipes, clock\<close>

text \<open>Requests 1 to 3 concern the text screen; \<open>pos\<close> is its cursor.\<close>

definition sys_ioctl :: "u32 \<Rightarrow> int \<Rightarrow> int \<Rightarrow> sys \<Rightarrow> int \<times> sys" where
  "sys_ioctl a b pos s =
     (if a = 1 \<or> a = 2 then (0, s)
      else if a = 3 then (pos, s)
      else if a = 10 then (0, s\<lparr>k_proc := proc_set_spawn_cons b (k_proc s)\<rparr>)
      else if a = 11 then (case cur_proc s of None \<Rightarrow> 0 | Some q \<Rightarrow> if cons_enable q then 1 else 0, s)
      else if a = 12 then
        (0, upd_cur (\<lambda>q. q\<lparr>cons_enable := False, cons_host := False, cons_sink := 0, cons_forbid := True\<rparr>) s)
      else (-1, s))"

definition sys_clip_set :: "u8 list option \<Rightarrow> int \<Rightarrow> sys \<Rightarrow> int \<times> sys" where
  "sys_clip_set src n s =
     (case src of None \<Rightarrow> (-1, s)
      | Some bs \<Rightarrow>
        if n < 0 then (-1, s)
        else let n = (if n > int CLIP_MAX then int CLIP_MAX else n) in (n, s\<lparr>k_clip := take (nat n) bs\<rparr>))"

definition sys_clip_get :: "bool \<Rightarrow> int \<Rightarrow> sys \<Rightarrow> reply \<times> sys" where
  "sys_clip_get ptr n s =
     (if \<not> ptr \<or> n < 0 then (Reply (-1) Nothing, s)
      else let n = (if n > int (length (k_clip s)) then int (length (k_clip s)) else n)
           in (Reply n (Bytes (take (nat n) (k_clip s))), s))"

definition sys_pipe :: "bool \<Rightarrow> sys \<Rightarrow> reply \<times> sys" where
  "sys_pipe ptr s =
     (if \<not> ptr then (Reply (-1) Nothing, s)
      else case first_from (\<lambda>p. \<not> pi_used p) (k_pipes s) 0 of None \<Rightarrow> (Reply (-1) Nothing, s)
        | Some i \<Rightarrow>
          let rfd = 48 + int i * 2; wfd = rfd + 1
          in (Reply 0 (Ints [rfd, wfd]),
              s\<lparr>k_pipes := (k_pipes s)[i := blank_pipe\<lparr>pi_used := True, pi_rfd := rfd, pi_wfd := wfd\<rparr>]\<rparr>))"

definition sys_dup2 :: "int \<Rightarrow> int \<Rightarrow> sys \<Rightarrow> int \<times> sys" where
  "sys_dup2 i out s = (0, s\<lparr>k_proc := proc_set_spawn_redir i out (k_proc s)\<rparr>)"

text \<open>\<open>t0\<close> and \<open>now\<close> are readings of the timer.\<close>

definition sys_time :: "bool \<Rightarrow> u32 \<Rightarrow> u32 \<Rightarrow> sys \<Rightarrow> reply \<times> sys" where
  "sys_time ptr t0 now s =
     (if \<not> ptr then (Reply (-1) Nothing, s)
      else let ((y, mo, d, h, mi, sec), c) = rtc_read t0 now (k_rtc s)
           in (Reply 0 (Ints (map int [y, mo, d, h, mi, sec])), s\<lparr>k_rtc := c\<rparr>))"

text \<open>Three integers and the name.\<close>

definition sys_psinfo :: "int \<Rightarrow> bool \<Rightarrow> sys \<Rightarrow> reply" where
  "sys_psinfo i ptr s =
     (if \<not> ptr then Reply (-1) Nothing
      else case proc_psinfo i 32 (k_proc s) of None \<Rightarrow> Reply (-1) Nothing
        | Some (p, pp, st, nm) \<Rightarrow> Reply 0 (Ps p pp st nm))"

definition sys_kill :: "int \<Rightarrow> int call" where
  "sys_kill p s = map_option (\<lambda>(r, k). (r, s\<lparr>k_proc := k\<rparr>)) (proc_kill (Suc PROC_MAX) p (k_proc s))"

section \<open>Windows\<close>

definition display_damage :: "u32 \<Rightarrow> int \<Rightarrow> sys \<Rightarrow> reply \<times> sys" where
  "display_damage frame wid s =
     (let d = kdisp (k_proc s)
      in case (win_by_id d wid, cur_proc s) of
           (Some i, Some c) \<Rightarrow>
             if client_pid (gwins d ! i) \<noteq> pid c then (Reply (-1) Nothing, s)
             else let s = s\<lparr>k_proc := (k_proc s)\<lparr>kdisp := set_win i ((gwins d ! i)\<lparr>gw_damage := True\<rparr>) d\<rparr>\<rparr>
                  in if server_pid d \<noteq> 0 \<and> frame \<noteq> 0 then yield_to frame 0 s else (Reply 0 Nothing, s)
         | _ \<Rightarrow> (Reply (-1) Nothing, s))"

definition sys_gui_ack :: "int \<Rightarrow> int \<Rightarrow> sys \<Rightarrow> int \<times> sys" where
  "sys_gui_ack wid what s =
     on_disp ((if what = 0 then display_ack_map else display_ack_damage) (cur_proc s) wid) s"

text \<open>A key is posted as it is, a mouse event with position and buttons packed into one word.\<close>

definition sys_gui_post :: "int \<Rightarrow> u32 \<Rightarrow> u32 \<Rightarrow> sys \<Rightarrow> int \<times> sys" where
  "sys_gui_post wid ty v s =
     on_disp
       (if ty = INP_MOUSE then
          display_post_event (cur_proc s) wid INP_MOUSE 0 (uint (v AND 0x3FF)) (uint (drop_bit 10 v AND 0x3FF))
            (uint (drop_bit 20 v AND 0x3F))
        else display_post_event (cur_proc s) wid ty (sint v) 0 0 0) s"

definition sys_gui_poll :: "int \<Rightarrow> sys \<Rightarrow> int \<times> sys" where
  "sys_gui_poll wid s =
     (case on_disp (display_poll_event (cur_proc s) wid) s of
        (None, s) \<Rightarrow> (0, s)
      | (Some e, s) \<Rightarrow>
        (uint (ev_type e), s\<lparr>k_ev := (k_ev s)\<lparr>i_type := ev_type e, i_key := ev_key e, i_x := ev_x e, i_y := ev_y e,
           i_buttons := ev_buttons e\<rparr>\<rparr>))"

definition sys_input_field :: "u32 \<Rightarrow> sys \<Rightarrow> int" where
  "sys_input_field a s =
     (let e = k_ev s in
      if a = 0 then i_key e else if a = 1 then i_x e else if a = 2 then i_y e else if a = 3 then i_buttons e
      else if a = 4 then i_dx e else if a = 5 then i_dy e else 0)"

section \<open>Raw input\<close>

text \<open>
  \<open>last\<close> are the statics of \<^verbatim>\<open>SYS_INPUT_POLL\<close> (\<open>None\<close> before the first position is known), \<open>serial\<close> reads a
  pending character of the serial line, looked at only in text mode.
\<close>

primrec drain_ps2 :: "(u16 \<Rightarrow> 'd \<Rightarrow> u8 \<times> 'd) \<Rightarrow> nat \<Rightarrow> 'd ps2 \<Rightarrow> 'd ps2" where
  "drain_ps2 inb 0 p = p"
| "drain_ps2 inb (Suc guard) p =
     (let (st, d) = inb 0x64 (ps_dev p); p = p\<lparr>ps_dev := d\<rparr> in
      if st AND 1 = 0 then p
      else if st AND 0x20 \<noteq> 0 then
        let (b, d) = inb 0x60 (ps_dev p) in drain_ps2 inb guard (p\<lparr>ps_mouse := mouse_byte b (ps_mouse p), ps_dev := d\<rparr>)
      else drain_ps2 inb guard (kbd_irq_handler inb p))"

record last_input =
  last_x :: int
  last_y :: int
  last_buttons :: int

definition serial_key :: "u8 \<Rightarrow> int" where
  "serial_key ch = (if ch = 0x7F then 8 else if ch = 0x0D then 10 else uint ch)"

definition input_poll :: "(u16 \<Rightarrow> 'd \<Rightarrow> u8 \<times> 'd) \<Rightarrow> bool \<Rightarrow> last_input \<times> 'd ps2 \<Rightarrow> input_ev \<times> last_input \<times> 'd ps2" where
  "input_poll inb fb = (\<lambda>(l, p).
     let e = \<lparr>i_type = INP_NONE, i_key = 0, i_dx = 0, i_dy = 0, i_x = (if last_x l < 0 then 512 else last_x l),
               i_y = (if last_y l < 0 then 384 else last_y l), i_buttons = last_buttons l\<rparr>;
         p = drain_ps2 inb 64 p;
         (lsr, d) = (if fb then (0, ps_dev p) else inb 0x3FD (ps_dev p)); p = p\<lparr>ps_dev := d\<rparr>
     in if lsr AND 1 \<noteq> 0 then
          let (ch, d) = inb 0x3F8 (ps_dev p) in (e\<lparr>i_type := INP_KEY, i_key := serial_key ch\<rparr>, l, p\<lparr>ps_dev := d\<rparr>)
        else if kbd_pending (ps_kbd p) then
          let (key, k) = kbd_pop (ps_kbd p) in (e\<lparr>i_type := INP_KEY, i_key := key\<rparr>, l, p\<lparr>ps_kbd := k\<rparr>)
        else
          let ((x, y, b), m) = mouse_coords (ps_mouse p); p = p\<lparr>ps_mouse := m\<rparr>;
              e = e\<lparr>i_x := x, i_y := y, i_buttons := b\<rparr>; now = \<lparr>last_x = x, last_y = y, last_buttons = b\<rparr>
          in if last_x l < 0 then (e, now, p)
             else if now \<noteq> l then (e\<lparr>i_type := INP_MOUSE, i_dx := x - last_x l, i_dy := y - last_y l\<rparr>, now, p)
             else (e, l, p))"

section \<open>The dispatcher\<close>

text \<open>
  A call with its arguments: numbers as they are, pointers as what they point to (\<open>None\<close> for null), a
  buffer to fill as whether there is one. The framebuffer calls and the beeper are not among them.
\<close>

datatype file_call =
    SYS_WRITE int "u8 list" | SYS_READ int bool u32 | SYS_OPEN "string option" u32 | SYS_CLOSE int
  | SYS_LISTDIR "string option" nat | SYS_UNLINK "string option" | SYS_MKDIR "string option" | SYS_EXISTS "string option"
  | SYS_CHDIR "string option" | SYS_GETCWD nat | SYS_PIPE bool | SYS_DUP2 int int

datatype proc_call =
    SYS_EXIT int | SYS_SPAWN "string option" | SYS_WAIT int | SYS_YIELD | SYS_GETPID | SYS_KILL int | SYS_PSINFO int bool
  | SYS_IOCTL u32 int int | SYS_CONS_READ int int | SYS_CONS_WRITE int string | SYS_CONS_KEY int int
  | SYS_TIME bool u32 u32

datatype net_call =
    SYS_SOCKET int | SYS_BIND int u32 u16 | SYS_LISTEN int int | SYS_ACCEPT nat "nat \<Rightarrow> u32" int
  | SYS_CONNECT int u32 u16 | SYS_SEND int "u8 list" | SYS_RECV int nat | SYS_DNS string | SYS_IFCONFIG nat | SYS_PING u32

datatype gui_call =
    SYS_GUI_SERVER int | SYS_GUI_CREATE int int "string option" | SYS_GUI_FB int | SYS_GUI_DAMAGE int | SYS_GUI_DESTROY int
  | SYS_GUI_INFO int int | SYS_GUI_NEXT | SYS_GUI_ACK int int | SYS_GUI_LAUNCH "string option" "string option"
  | SYS_GUI_TAKE_LAUNCH int | SYS_GUI_FIND int

datatype win_call =
    SYS_GUI_GET_TITLE int int | SYS_GUI_SET_TITLE int "string option" | SYS_GUI_POST int u32 u32 | SYS_GUI_POLL int
  | SYS_GUI_RESIZE int int int | SYS_GUI_FLAGS int int | SYS_INPUT_FIELD u32 | SYS_CLIP_SET "u8 list option" int
  | SYS_CLIP_GET bool int

datatype request = FileCall file_call | ProcCall proc_call | NetCall net_call | GuiCall gui_call | WinCall win_call | UnknownCall

definition num :: "int \<times> sys \<Rightarrow> (reply \<times> sys) option" where
  "num r = Some (apfst (\<lambda>v. Reply v Nothing) r)"

definition num_opt :: "(int \<times> sys) option \<Rightarrow> (reply \<times> sys) option" where
  "num_opt r = map_option (apfst (\<lambda>v. Reply v Nothing)) r"

definition text_reply :: "string option \<Rightarrow> reply" where
  "text_reply r = (case r of None \<Rightarrow> Reply (-1) Nothing | Some t \<Rightarrow> Reply (int (length t)) (Chars t))"

definition bytes_reply :: "u8 list option \<Rightarrow> reply" where
  "bytes_reply r = (case r of None \<Rightarrow> Reply (-1) Nothing | Some bs \<Rightarrow> Reply (int (length bs)) (Bytes bs))"

fun on_file_call :: "u32 \<Rightarrow> file_call \<Rightarrow> reply call" where
  "on_file_call f (SYS_WRITE fd bs) s = Some (sys_write f fd bs s)"
| "on_file_call f (SYS_READ fd ptr n) s = sys_read f fd ptr n s"
| "on_file_call f (SYS_OPEN path flags) s = num_opt (sys_open path flags s)"
| "on_file_call f (SYS_CLOSE fd) s = num (sys_close fd s)"
| "on_file_call f (SYS_LISTDIR path n) s = sys_listdir path n s"
| "on_file_call f (SYS_UNLINK path) s = num_opt (sys_unlink path s)"
| "on_file_call f (SYS_MKDIR path) s = num_opt (sys_mkdir path s)"
| "on_file_call f (SYS_EXISTS path) s = num_opt (sys_exists path s)"
| "on_file_call f (SYS_CHDIR path) s = num_opt (sys_chdir path s)"
| "on_file_call f (SYS_GETCWD n) s = Some (sys_getcwd n s)"
| "on_file_call f (SYS_PIPE ptr) s = Some (sys_pipe ptr s)"
| "on_file_call f (SYS_DUP2 i out) s = num (sys_dup2 i out s)"

fun on_proc_call :: "u32 \<Rightarrow> proc_call \<Rightarrow> reply call" where
  "on_proc_call f (SYS_EXIT code) s = Some (sys_exit code s)"
| "on_proc_call f (SYS_SPAWN path) s = num (sys_spawn path s)"
| "on_proc_call f (SYS_WAIT p) s = Some (sys_wait p s)"
| "on_proc_call f SYS_YIELD s = Some (sys_yield f s)"
| "on_proc_call f SYS_GETPID s = map_option (\<lambda>q. (Reply (pid q) Nothing, s)) (cur_proc s)"
| "on_proc_call f (SYS_IOCTL a b pos) s = num (sys_ioctl a b pos s)"
| "on_proc_call f (SYS_CONS_READ p n) s = Some (apfst text_reply (on_proc (proc_cons_read p n) s))"
| "on_proc_call f (SYS_CONS_WRITE p t) s = num (on_proc (proc_cons_write_in p t) s)"
| "on_proc_call f (SYS_CONS_KEY p key) s = num (on_proc (proc_cons_putkey p key) s)"
| "on_proc_call f (SYS_KILL p) s = num_opt (sys_kill p s)"
| "on_proc_call f (SYS_TIME ptr t0 now) s = Some (sys_time ptr t0 now s)"
| "on_proc_call f (SYS_PSINFO i ptr) s = Some (sys_psinfo i ptr s, s)"

fun on_net_call :: "u32 \<Rightarrow> net_call \<Rightarrow> reply call" where
  "on_net_call f (SYS_SOCKET ty) s = num (on_net (net_socket ty) s)"
| "on_net_call f (SYS_BIND fd ip port) s = num (on_net (net_bind fd ip port) s)"
| "on_net_call f (SYS_LISTEN fd n) s = num (on_net (net_listen fd n) s)"
| "on_net_call f (SYS_ACCEPT fuel clock fd) s =
     (case net_accept fuel clock fd ((k_net s)\<lparr>nmem := mem (k_mm s)\<rparr>) of None \<Rightarrow> None
      | Some r \<Rightarrow> num (on_net (\<lambda>_. r) s))"
| "on_net_call f (SYS_CONNECT fd ip port) s = num (on_net (net_connect fd ip port) s)"
| "on_net_call f (SYS_SEND fd bs) s = num (on_net (net_send fd bs) s)"
| "on_net_call f (SYS_RECV fd n) s = Some (apfst bytes_reply (on_net (net_recv fd n) s))"
| "on_net_call f (SYS_DNS host) s = num (apfst uint (on_net (net_dns host) s))"
| "on_net_call f (SYS_IFCONFIG n) s = Some (text_reply (Some (net_ifconfig n (k_net s))), s)"
| "on_net_call f (SYS_PING ip) s = num (on_net (net_ping ip) s)"

fun on_gui_call :: "u32 \<Rightarrow> gui_call \<Rightarrow> reply call" where
  "on_gui_call f (SYS_GUI_SERVER on) s = num (on_disp (display_server_set (cur_proc s) on) s)"
| "on_gui_call f (SYS_GUI_CREATE w h title) s = num (on_disp_mm (display_create (cur_proc s) w h title) s)"
| "on_gui_call f (SYS_GUI_FB w) s = num (uint (display_fb w (kdisp (k_proc s))), s)"
| "on_gui_call f (SYS_GUI_DAMAGE w) s = Some (display_damage f w s)"
| "on_gui_call f (SYS_GUI_DESTROY w) s = num (on_disp_mm (display_destroy (cur_proc s) w) s)"
| "on_gui_call f (SYS_GUI_INFO w field) s = num (display_info w field (kdisp (k_proc s)), s)"
| "on_gui_call f SYS_GUI_NEXT s = num (display_next_new (cur_proc s) (kdisp (k_proc s)), s)"
| "on_gui_call f (SYS_GUI_ACK w what) s = num (sys_gui_ack w what s)"
| "on_gui_call f (SYS_GUI_LAUNCH path argv) s = num (on_disp (display_request_launch path argv) s)"
| "on_gui_call f (SYS_GUI_TAKE_LAUNCH n) s =
     Some (apfst (\<lambda>r. case r of None \<Rightarrow> Reply 0 Nothing | Some t \<Rightarrow> Reply 1 (Chars t)) (on_disp (display_take_launch (cur_proc s) n) s))"
| "on_gui_call f (SYS_GUI_FIND p) s = num (display_find_pid p (kdisp (k_proc s)), s)"

fun on_win_call :: "u32 \<Rightarrow> win_call \<Rightarrow> reply call" where
  "on_win_call f (SYS_INPUT_FIELD a) s = num (sys_input_field a s, s)"
| "on_win_call f (SYS_GUI_GET_TITLE w n) s =
     Some (case display_get_title w n (kdisp (k_proc s)) of None \<Rightarrow> Reply (-1) Nothing | Some t \<Rightarrow> Reply 0 (Chars t), s)"
| "on_win_call f (SYS_GUI_SET_TITLE w title) s = num (on_disp (display_set_title (cur_proc s) w title) s)"
| "on_win_call f (SYS_GUI_POST w ty v) s = num (sys_gui_post w ty v s)"
| "on_win_call f (SYS_GUI_POLL w) s = num (sys_gui_poll w s)"
| "on_win_call f (SYS_GUI_RESIZE w x y) s = num (on_disp_mm (display_resize (cur_proc s) w x y) s)"
| "on_win_call f (SYS_GUI_FLAGS w flags) s = num (on_disp (display_set_flags (cur_proc s) w flags) s)"
| "on_win_call f (SYS_CLIP_SET src n) s = num (sys_clip_set src n s)"
| "on_win_call f (SYS_CLIP_GET ptr n) s = Some (sys_clip_get ptr n s)"

fun syscall_handler :: "u32 \<Rightarrow> request \<Rightarrow> reply call" where
  "syscall_handler f (FileCall c) s = on_file_call f c s"
| "syscall_handler f (ProcCall c) s = on_proc_call f c s"
| "syscall_handler f (NetCall c) s = on_net_call f c s"
| "syscall_handler f (GuiCall c) s = on_gui_call f c s"
| "syscall_handler f (WinCall c) s = on_win_call f c s"
| "syscall_handler f UnknownCall s = num (-1, s)"

end
