(* ===== verification/VfsTree.thy ===== *)
theory VfsTree
  imports Vfs
begin

text \<open>
  The node table as a tree: the links invariant \<open>tree_inv\<close>, lookup of a path as a walk from the
  root (\<open>vfs_lookup_walk\<close>), and what linking and unlinking a node do to every walk.
\<close>

section \<open>Walking the tree\<close>

fun walk :: "vfs \<Rightarrow> nat \<Rightarrow> string list \<Rightarrow> nat option" where
  "walk s i [] = Some i"
| "walk s i (p # ps) =
     (if \<not> n_is_dir (nodes s ! i) then None
      else case find_child s i p of None \<Rightarrow> None | Some c \<Rightarrow> walk s c ps)"

text \<open>Every node in use is linked from its parent, children are named apart, the root is the top.\<close>

definition node_links :: "vfs \<Rightarrow> nat \<Rightarrow> bool" where
  "node_links s i \<longleftrightarrow>
     (let nd = nodes s ! i
      in distinct (n_children nd) \<and> inj_on (\<lambda>c. n_name (nodes s ! c)) (set (n_children nd)) \<and>
         (\<forall>c \<in> set (n_children nd). c < length (nodes s) \<and> n_used (nodes s ! c) \<and> c \<noteq> root \<and>
            n_parent (nodes s ! c) = Some i \<and> good_part (n_name (nodes s ! c))) \<and>
         (\<not> n_is_dir nd \<longrightarrow> n_children nd = []) \<and> length (n_children nd) \<le> VFS_MAX_CHILDREN \<and>
         (case n_parent nd of None \<Rightarrow> i = root
          | Some p \<Rightarrow> p < length (nodes s) \<and> n_used (nodes s ! p) \<and> i \<in> set (n_children (nodes s ! p))))"

definition tree_inv :: "vfs \<Rightarrow> bool" where
  "tree_inv s \<longleftrightarrow>
     length (nodes s) = VFS_MAX_NODES \<and> n_used (nodes s ! root) \<and> n_is_dir (nodes s ! root) \<and>
     n_parent (nodes s ! root) = None \<and>
     (\<forall>i < length (nodes s). n_used (nodes s ! i) \<longrightarrow>
        node_links s i \<and> (\<exists>ps. good_parts ps \<and> walk s root ps = Some i))"

lemma tree_inv_len: "tree_inv s \<Longrightarrow> length (nodes s) = VFS_MAX_NODES"
  by (simp add: tree_inv_def)

lemma tree_inv_root: "tree_inv s \<Longrightarrow> n_used (nodes s ! root) \<and> n_is_dir (nodes s ! root) \<and> root < length (nodes s) \<and> n_parent (nodes s ! root) = None"
  by (simp add: tree_inv_def root_def VFS_MAX_NODES_def)

lemma tree_inv_links: "tree_inv s \<Longrightarrow> i < length (nodes s) \<Longrightarrow> n_used (nodes s ! i) \<Longrightarrow> node_links s i"
  by (simp add: tree_inv_def)

lemma node_links_child:
  "node_links s i \<Longrightarrow> c \<in> set (n_children (nodes s ! i)) \<Longrightarrow>
     c < length (nodes s) \<and> n_used (nodes s ! c) \<and> c \<noteq> root \<and> n_parent (nodes s ! c) = Some i \<and>
     good_part (n_name (nodes s ! c))"
  by (auto simp: node_links_def Let_def)

lemma find_child_Some:
  assumes "node_links s i" and "no_nul nm"
  shows "find_child s i nm = Some c \<longleftrightarrow> c \<in> set (n_children (nodes s ! i)) \<and> n_name (nodes s ! c) = nm"
proof -
  let ?cs = "n_children (nodes s ! i)"
  have eq: "kstrcmp (n_name (nodes s ! c)) nm = 0 \<longleftrightarrow> n_name (nodes s ! c) = nm" if "c \<in> set ?cs" for c
    using node_links_child [OF assms(1) that] assms(2) by (simp add: kstrcmp_lit good_part_def)
  show ?thesis
  proof
    assume "find_child s i nm = Some c"
    then obtain k where k: "first_from (\<lambda>c. kstrcmp (n_name (nodes s ! c)) nm = 0) ?cs 0 = Some k" "c = ?cs ! k"
      by (auto simp: find_child_def)
    from first_from_Some [OF k(1)] eq [of c] k(2)
    show "c \<in> set ?cs \<and> n_name (nodes s ! c) = nm" by auto
  next
    assume c: "c \<in> set ?cs \<and> n_name (nodes s ! c) = nm"
    then obtain k where k: "k < length ?cs" "?cs ! k = c" by (auto simp: in_set_conv_nth)
    have "first_from (\<lambda>c. kstrcmp (n_name (nodes s ! c)) nm = 0) ?cs 0 = Some k"
    proof (rule first_from_eq)
      fix j assume "j < k"
      then have j: "?cs ! j \<in> set ?cs" "?cs ! j \<noteq> c"
        using k assms(1) by (auto simp: node_links_def Let_def distinct_conv_nth)
      then have "n_name (nodes s ! (?cs ! j)) \<noteq> nm"
        using assms(1) c by (auto simp: node_links_def Let_def inj_on_def)
      with eq [OF j(1)] show "\<not> kstrcmp (n_name (nodes s ! (?cs ! j))) nm = 0" by simp
    qed (use k eq c in auto)
    then show "find_child s i nm = Some c" using k by (simp add: find_child_def)
  qed
qed

lemma find_child_None:
  assumes "node_links s i" and "no_nul nm"
  shows "find_child s i nm = None \<longleftrightarrow> (\<forall>c \<in> set (n_children (nodes s ! i)). n_name (nodes s ! c) \<noteq> nm)"
  using find_child_Some [OF assms] by (cases "find_child s i nm") fastforce+

lemma walk_append:
  "walk s i (ps @ qs) = (case walk s i ps of None \<Rightarrow> None | Some j \<Rightarrow> walk s j qs)"
  by (induction s i ps rule: walk.induct) (auto split: option.splits)

lemma walk_snoc:
  "walk s i (ps @ [p]) =
     (case walk s i ps of None \<Rightarrow> None
      | Some j \<Rightarrow> if n_is_dir (nodes s ! j) then find_child s j p else None)"
  by (simp add: walk_append split: option.splits)

lemma walk_used:
  assumes "tree_inv s"
  shows "walk s root ps = Some i \<Longrightarrow> good_parts ps \<Longrightarrow> i < length (nodes s) \<and> n_used (nodes s ! i)"
proof (induction ps arbitrary: i rule: rev_induct)
  case Nil
  then show ?case using tree_inv_root [OF assms] by auto
next
  case (snoc p ps)
  then obtain j where j: "walk s root ps = Some j" "find_child s j p = Some i"
    by (auto simp: walk_snoc split: option.splits if_splits)
  with snoc have "j < length (nodes s) \<and> n_used (nodes s ! j)" by simp
  with tree_inv_links [OF assms, of j] have "node_links s j" by simp
  with j snoc.prems show ?case
    using find_child_Some [of s j p i] node_links_child [of s j i] by (auto simp: good_part_def)
qed

lemma walk_last:
  assumes "tree_inv s" and "walk s root (ps @ [p]) = Some i" and "good_parts (ps @ [p])"
  obtains j where "walk s root ps = Some j" and "j < length (nodes s)" and "n_used (nodes s ! j)"
    and "n_is_dir (nodes s ! j)" and "i \<in> set (n_children (nodes s ! j))" and "n_name (nodes s ! i) = p"
    and "n_parent (nodes s ! i) = Some j" and "i \<noteq> root"
proof -
  from assms(2) obtain j where j: "walk s root ps = Some j" "find_child s j p = Some i" "n_is_dir (nodes s ! j)"
    by (auto simp: walk_snoc split: option.splits if_splits)
  with assms have u: "j < length (nodes s) \<and> n_used (nodes s ! j)"
    using walk_used by simp
  with tree_inv_links [OF assms(1), of j] have l: "node_links s j" by simp
  with j assms(3) have c: "i \<in> set (n_children (nodes s ! j)) \<and> n_name (nodes s ! i) = p"
    using find_child_Some [of s j p i] by (auto simp: good_part_def)
  with node_links_child [OF l, of i] j u show ?thesis by (intro that) auto
qed

text \<open>A node has one path.\<close>

lemma walk_inj:
  assumes "tree_inv s"
  shows "walk s root ps = Some i \<Longrightarrow> walk s root qs = Some i \<Longrightarrow> good_parts ps \<Longrightarrow> good_parts qs \<Longrightarrow> ps = qs"
proof (induction ps arbitrary: qs i rule: rev_induct)
  case Nil
  then show ?case
    by (cases qs rule: rev_cases) (auto elim: walk_last [OF assms])
next
  case (snoc p ps)
  obtain j where j: "walk s root ps = Some j" "n_name (nodes s ! i) = p" "n_parent (nodes s ! i) = Some j" "i \<noteq> root"
    using walk_last [OF assms snoc.prems(1,3)] by metis
  show ?case
  proof (cases qs rule: rev_cases)
    case Nil
    with snoc.prems(2) j show ?thesis by simp
  next
    case (snoc qs' q)
    with snoc.prems obtain k where k: "walk s root qs' = Some k" "n_name (nodes s ! i) = q" "n_parent (nodes s ! i) = Some k"
      using walk_last [OF assms, of qs' q i] by metis
    with j snoc.IH [of j qs'] snoc.prems snoc show ?thesis by simp
  qed
qed

section \<open>Lookup\<close>

lemma take_part_append:
  "slash \<notin> set p \<Longrightarrow> no_nul p \<Longrightarrow> length p \<le> room \<Longrightarrow> t = [] \<or> hd t = slash \<Longrightarrow>
     take_part room (p @ t) = (p, t)"
proof (induction p arbitrary: room)
  case Nil
  then show ?case by (cases t) auto
qed (auto simp: case_prod_unfold Let_def)

lemma lookup_loop_walk:
  "good_parts (p # ps) \<Longrightarrow> lookup_loop s i (p @ concat (map (\<lambda>p. slash # p) ps)) = walk s i (p # ps)"
proof (induction ps arbitrary: i p)
  case Nil
  then have "take_part (VFS_NAME_MAX - 1) (p @ []) = (p, [])"
    by (intro take_part_append) (auto simp: good_part_def VFS_NAME_MAX_def)
  moreover have "cget p 0 \<noteq> NUL" using Nil by (simp add: good_part_def cget_0_NUL)
  ultimately show ?case
    using Nil by (simp add: lookup_loop.simps [of s i p] lookup_loop.simps [of _ _ "[]"] good_part_def split: option.splits)
next
  case (Cons q ps)
  let ?t = "concat (map (\<lambda>p. slash # p) (q # ps))"
  have "take_part (VFS_NAME_MAX - 1) (p @ ?t) = (p, ?t)"
    using Cons.prems by (intro take_part_append) (auto simp: good_part_def VFS_NAME_MAX_def)
  moreover have "cget (p @ ?t) 0 \<noteq> NUL"
    using Cons.prems by (cases p) (auto simp: good_part_def)
  ultimately show ?case
    using Cons by (simp add: lookup_loop.simps [of s i "p @ _"] good_part_def split: option.splits)
qed

lemma vfs_lookup_walk:
  assumes "path_fits path VFS_PATH_MAX"
  shows "vfs_lookup path s = walk s root (resolved path)"
proof -
  have g: "good_parts (resolved path)"
    using assms resolved_good by (auto simp: path_fits_def)
  have n: "vfs_normalize path VFS_PATH_MAX = render_path (resolved path)"
    by (rule vfs_normalize_parts [OF assms])
  show ?thesis
  proof (cases "resolved path")
    case Nil
    then show ?thesis by (simp add: vfs_lookup_def n render_path_def kstrcmp_lit)
  next
    case (Cons p ps)
    with g have "render_path (resolved path) \<noteq> ''/''" "no_nul (render_path (resolved path))"
      using no_nul_render [OF g] by (auto simp: render_path_def good_part_def)
    then have "kstrcmp (render_path (resolved path)) ''/'' \<noteq> 0"
      by (simp add: kstrcmp_lit)
    with Cons g lookup_loop_walk [of p ps s root] show ?thesis
      by (simp add: vfs_lookup_def n render_path_def)
  qed
qed

section \<open>The parent of a path\<close>

lemma fold_no_match: "\<forall>i \<in> set xs. \<not> f i \<Longrightarrow> fold (\<lambda>i acc. if f i then i else acc) xs z = z"
  by (induction xs) auto

lemma last_slash_none:
  assumes "slash \<notin> set nm"
  shows "last_slash (c # nm) = 0"
  unfolding last_slash_def
proof (rule fold_no_match, rule ballI)
  fix i assume "i \<in> set [1..<length (c # nm)]"
  then have "1 \<le> i" "i < length (c # nm)" by (simp_all only: set_upt atLeastLessThan_iff)
  then have "(c # nm) ! i \<in> set nm" by (cases i) auto
  with assms show "(c # nm) ! i \<noteq> slash" by metis
qed

lemma last_slash_split:
  assumes "slash \<notin> set nm" and "pre \<noteq> []"
  shows "last_slash (pre @ slash # nm) = length pre"
proof -
  let ?s = "pre @ slash # nm"
  have "[1..<length ?s] = [1..<length pre] @ [length pre..<length ?s]"
    using assms(2) upt_add_eq_append [of 1 "length pre" "Suc (length nm)"] by (cases pre) simp_all
  moreover have "[length pre..<length ?s] = length pre # [Suc (length pre)..<length ?s]"
    by (rule upt_conv_Cons) simp
  ultimately have upt: "[1..<length ?s] = [1..<length pre] @ length pre # [Suc (length pre)..<length ?s]"
    by (simp only:)
  have "fold (\<lambda>i acc. if ?s ! i = slash then i else acc) [Suc (length pre)..<length ?s] z = z" for z
  proof (rule fold_no_match, rule ballI)
    fix i assume "i \<in> set [Suc (length pre)..<length ?s]"
    then have i: "Suc (length pre) \<le> i" "i < length ?s" by (simp_all only: set_upt atLeastLessThan_iff)
    then have "?s ! i = nm ! (i - Suc (length pre))" by (simp add: nth_append nth_Cons')
    moreover have "i - Suc (length pre) < length nm" using i by simp
    ultimately have "?s ! i \<in> set nm" by simp
    with assms(1) show "?s ! i \<noteq> slash" by metis
  qed
  then show ?thesis
    unfolding last_slash_def upt by simp
qed

lemma strncpy_val_good: "good_part p \<Longrightarrow> strncpy_val p VFS_NAME_MAX = p"
  by (simp add: good_part_def strncpy_val_fits)

lemma render_snoc: "q \<noteq> [] \<Longrightarrow> render_path (q @ [nm]) = render_path q @ slash # nm"
  by (simp add: render_path_def)

lemma parts_fit_parent:
  assumes "path_fits path VFS_PATH_MAX" and "resolved path = q @ [nm]"
  shows "parts_fit q VFS_PATH_MAX"
proof -
  have pf: "parts_fit (q @ [nm]) (Suc VFS_PATH_MAX)"
    using path_fits_parts_fit [OF assms(1)] assms(2) by simp
  then have "nm \<noteq> []" by (simp add: parts_fit_def good_part_def)
  then have "length (render_path q) + 2 \<le> length (render_path (q @ [nm])) + 1"
    by (cases "q = []") (auto simp: render_snoc render_path_def neq_Nil_conv)
  with pf have "length (render_path q) + 1 < VFS_PATH_MAX \<or> q = []"
    by (cases nm) (auto simp: parts_fit_def render_path_def)
  with pf show ?thesis
    by (auto simp: parts_fit_def render_path_def VFS_PATH_MAX_def)
qed

lemma ensure_parent_root:
  "path_fits path VFS_PATH_MAX \<Longrightarrow> resolved path = [] \<Longrightarrow> ensure_parent path s = Inl VFS_ERR_INVAL"
  by (simp add: ensure_parent_def vfs_normalize_parts render_path_def)

lemma ensure_parent_spec:
  assumes fits: "path_fits path VFS_PATH_MAX" and ps: "resolved path = q @ [nm]"
  shows "ensure_parent path s =
    (case walk s root q of None \<Rightarrow> Inl VFS_ERR_NOENT
     | Some p \<Rightarrow> if n_is_dir (nodes s ! p) then Inr (nm, p) else Inl VFS_ERR_NOENT)"
proof -
  have g: "good_parts q" "good_part nm"
    using fits resolved_good [of path] ps by (auto simp: path_fits_def)
  let ?norm = "vfs_normalize path VFS_PATH_MAX"
  have norm: "?norm = render_path (q @ [nm])"
    using vfs_normalize_parts [OF fits] ps by simp
  have nn: "no_nul ?norm"
    using norm g no_nul_render [of "q @ [nm]"] by simp
  have len: "\<not> kstrlen ?norm \<le> 1"
    using g nn norm by (cases q; cases nm) (auto simp: kstrlen_cstr cstr_id render_path_def good_part_def)
  have nm: "slash \<notin> set nm" "nm \<noteq> []" "no_nul nm" "length nm < VFS_NAME_MAX"
    using g by (auto simp: good_part_def)
  have name: "\<not> (cget nm 0 = NUL \<or> VFS_NAME_MAX \<le> kstrlen nm)"
    using nm by (simp add: cget_0_NUL kstrlen_cstr cstr_id)
  have look: "vfs_lookup (render_path q) s = walk s root q"
    using vfs_lookup_walk [OF path_fits_render [OF parts_fit_parent [OF fits ps]]] g
    by (simp add: resolved_render)
  show ?thesis
  proof (cases "q = []")
    case True
    then have "?norm = slash # nm" using norm by (simp add: render_path_def)
    moreover from this have "last_slash ?norm = 0" using nm by (simp add: last_slash_none)
    ultimately show ?thesis
      using len name look True strncpy_val_good [OF g(2)]
      by (simp add: ensure_parent_def Let_def render_path_def)
  next
    case False
    then have eq: "?norm = render_path q @ slash # nm" using norm by (simp add: render_snoc)
    have ne: "render_path q \<noteq> []" by (simp add: render_path_def)
    have ls: "last_slash ?norm = length (render_path q)"
      unfolding eq by (rule last_slash_split [OF nm(1) ne])
    with ne have "last_slash ?norm \<noteq> 0" by simp
    with ls eq len name look strncpy_val_good [OF g(2)] show ?thesis
      by (simp add: ensure_parent_def Let_def split: option.splits)
  qed
qed

section \<open>Linking and unlinking a node\<close>

definition link_node :: "nat \<Rightarrow> nat \<Rightarrow> string \<Rightarrow> bool \<Rightarrow> vfs \<Rightarrow> vfs" where
  "link_node p i nm d s =
     s\<lparr>nodes := (nodes s)
         [i := blank_node\<lparr>n_used := True, n_is_dir := d, n_parent := Some p, n_name := nm\<rparr>,
          p := (nodes s ! p)\<lparr>n_children := n_children (nodes s ! p) @ [i]\<rparr>]\<rparr>"

definition linkable :: "vfs \<Rightarrow> string list \<Rightarrow> nat \<Rightarrow> nat \<Rightarrow> string \<Rightarrow> bool" where
  "linkable s q p i nm \<longleftrightarrow>
     tree_inv s \<and> good_parts q \<and> good_part nm \<and> walk s root q = Some p \<and> n_is_dir (nodes s ! p) \<and>
     i < length (nodes s) \<and> \<not> n_used (nodes s ! i) \<and> walk s root (q @ [nm]) = None \<and>
     length (n_children (nodes s ! p)) < VFS_MAX_CHILDREN"

lemma link_node_nth:
  assumes "linkable s q p i nm"
  shows "nodes (link_node p i nm d s) ! j =
    (if j = i then blank_node\<lparr>n_used := True, n_is_dir := d, n_parent := Some p, n_name := nm\<rparr>
     else if j = p then (nodes s ! p)\<lparr>n_children := n_children (nodes s ! p) @ [i]\<rparr>
     else nodes s ! j)"
    and "i \<noteq> p" and "p < length (nodes s)" and "n_used (nodes s ! p)"
    and "length (nodes (link_node p i nm d s)) = length (nodes s)"
proof -
  from assms have p: "p < length (nodes s)" "n_used (nodes s ! p)"
    using walk_used [of s q p] by (auto simp: linkable_def)
  with assms show "i \<noteq> p" "p < length (nodes s)" "n_used (nodes s ! p)"
    by (auto simp: linkable_def)
  with assms show "nodes (link_node p i nm d s) ! j =
    (if j = i then blank_node\<lparr>n_used := True, n_is_dir := d, n_parent := Some p, n_name := nm\<rparr>
     else if j = p then (nodes s ! p)\<lparr>n_children := n_children (nodes s ! p) @ [i]\<rparr>
     else nodes s ! j)"
    by (auto simp: link_node_def linkable_def nth_list_update)
  show "length (nodes (link_node p i nm d s)) = length (nodes s)"
    by (simp add: link_node_def)
qed

lemma linkable_child:
  assumes "linkable s q p i nm" and "j < length (nodes s)" and "n_used (nodes s ! j)"
    and "c \<in> set (n_children (nodes s ! j))"
  shows "c \<noteq> i" and "n_used (nodes s ! c)" and "c < length (nodes s)" and "n_parent (nodes s ! c) = Some j"
proof -
  from assms have "node_links s j" by (simp add: linkable_def tree_inv_links)
  from node_links_child [OF this assms(4)] assms(1)
  show "c \<noteq> i" and "n_used (nodes s ! c)" and "c < length (nodes s)" and "n_parent (nodes s ! c) = Some j"
    by (auto simp: linkable_def)
qed

lemma linkable_name:
  assumes "linkable s q p i nm" and "c \<in> set (n_children (nodes s ! p))"
  shows "n_name (nodes s ! c) \<noteq> nm"
proof -
  from assms(1) have l: "node_links s p"
    using link_node_nth(3,4) [OF assms(1)] by (simp add: linkable_def tree_inv_links)
  have "find_child s p nm = None"
    using assms(1) by (auto simp: linkable_def walk_snoc)
  with find_child_None [OF l, of nm] assms show ?thesis
    by (auto simp: linkable_def good_part_def)
qed

lemma link_node_links:
  assumes lk: "linkable s q p i nm" and j: "j < length (nodes s)"
    and u: "n_used (nodes (link_node p i nm d s) ! j)"
  shows "node_links (link_node p i nm d s) j"
proof -
  let ?s = "link_node p i nm d s"
  note nth = link_node_nth(1) [OF lk] and ne = link_node_nth(2) [OF lk]
    and p = link_node_nth(3,4) [OF lk] and len = link_node_nth(5) [OF lk]
  from lk have inv: "tree_inv s" and nm: "good_part nm" and i: "\<not> n_used (nodes s ! i)" "i < length (nodes s)"
    and dir: "n_is_dir (nodes s ! p)" and room: "length (n_children (nodes s ! p)) < VFS_MAX_CHILDREN"
    by (auto simp: linkable_def)
  have root_i: "i \<noteq> root" using i(1) tree_inv_root [OF inv] by auto
  show ?thesis
  proof (cases "j = i")
    case True
    then show ?thesis
      using ne p by (simp add: node_links_def Let_def nth len blank_node_def)
  next
    case ji: False
    with u have uj: "n_used (nodes s ! j)" by (auto simp: nth split: if_splits)
    with inv j have l: "node_links s j" by (simp add: tree_inv_links)
    have ch: "c \<noteq> i" if "c \<in> set (n_children (nodes s ! j))" for c
      using linkable_child [OF lk j uj that] by simp
    have name: "n_name (nodes ?s ! c) = n_name (nodes s ! c)" if "c \<in> set (n_children (nodes s ! j))" for c
      using ch [OF that] by (simp add: nth)
    have par: "case n_parent (nodes ?s ! j) of None \<Rightarrow> j = root
        | Some k \<Rightarrow> k < length (nodes ?s) \<and> n_used (nodes ?s ! k) \<and> j \<in> set (n_children (nodes ?s ! k))"
      using l ji i by (auto simp: node_links_def Let_def nth len split: option.splits)
    show ?thesis
    proof (cases "j = p")
      case True
      have inj: "inj_on (\<lambda>c. n_name (nodes ?s ! c)) (insert i (set (n_children (nodes s ! p))))"
        using l True name linkable_name [OF lk] ch
        by (auto simp: node_links_def Let_def inj_on_def nth)
      have chs: "n_children (nodes ?s ! j) = n_children (nodes s ! p) @ [i]" "n_is_dir (nodes ?s ! j)"
        using True ji dir by (simp_all add: nth)
      have old: "c < length (nodes ?s) \<and> n_used (nodes ?s ! c) \<and> c \<noteq> root \<and> n_parent (nodes ?s ! c) = Some j \<and>
          good_part (n_name (nodes ?s ! c))" if "c \<in> set (n_children (nodes s ! p))" for c
        using node_links_child [OF l, of c] that True ch [of c] by (auto simp: nth len)
      have new: "i < length (nodes ?s) \<and> n_used (nodes ?s ! i) \<and> i \<noteq> root \<and> n_parent (nodes ?s ! i) = Some j \<and>
          good_part (n_name (nodes ?s ! i))"
        using i nm root_i True by (simp add: nth len)
      have "distinct (n_children (nodes s ! p) @ [i])" using l True ch by (auto simp: node_links_def Let_def)
      with inj chs old new par room show ?thesis
        unfolding node_links_def Let_def by auto
    next
      case False
      have "inj_on (\<lambda>c. n_name (nodes ?s ! c)) (set (n_children (nodes s ! j)))"
        using l name by (auto simp: node_links_def Let_def inj_on_def)
      moreover have "c < length (nodes ?s) \<and> n_used (nodes ?s ! c) \<and> c \<noteq> root \<and> n_parent (nodes ?s ! c) = Some j \<and>
          good_part (n_name (nodes ?s ! c))" if "c \<in> set (n_children (nodes s ! j))" for c
        using node_links_child [OF l, of c] that ch [of c] by (auto simp: nth len)
      moreover have "nodes ?s ! j = nodes s ! j" using False ji by (simp add: nth)
      ultimately show ?thesis
        using l par unfolding node_links_def Let_def by auto
    qed
  qed
qed

lemma link_walk:
  assumes lk: "linkable s q p i nm" and "good_parts ps"
  shows "walk (link_node p i nm d s) root ps = (if ps = q @ [nm] then Some i else walk s root ps)"
  using assms(2)
proof (induction ps rule: rev_induct)
  case Nil
  then show ?case by simp
next
  case (snoc a ps)
  let ?s = "link_node p i nm d s"
  note nth = link_node_nth(1) [OF lk] and ne = link_node_nth(2) [OF lk] and len = link_node_nth(5) [OF lk]
  from lk have inv: "tree_inv s" by (simp add: linkable_def)
  from snoc have g: "good_parts ps" "good_part a" "no_nul a" by (auto simp: good_part_def)
  show ?case
  proof (cases "ps = q @ [nm]")
    case True
    then have "walk ?s root ps = Some i" using snoc.IH g by simp
    moreover have "find_child ?s i a = None"
      by (simp add: find_child_def nth blank_node_def first_from_None)
    moreover have "walk s root ps = None" using lk True by (simp add: linkable_def)
    ultimately show ?thesis using True walk_snoc [of ?s root ps a] walk_snoc [of s root ps a] by simp
  next
    case False
    with snoc.IH g have IH: "walk ?s root ps = walk s root ps" by simp
    show ?thesis
    proof (cases "walk s root ps")
      case None
      with IH lk show ?thesis by (auto simp: walk_snoc linkable_def)
    next
      case (Some j)
      with walk_used [OF inv Some g(1)] have j: "j < length (nodes s)" "n_used (nodes s ! j)" by auto
      with lk have ji: "j \<noteq> i" by (auto simp: linkable_def)
      with j have uj: "n_used (nodes ?s ! j)" using link_node_nth(4) [OF lk] by (simp add: nth)
      have l: "node_links s j" "node_links ?s j"
        using tree_inv_links [OF inv j] link_node_links [OF lk j(1) uj] by auto
      have fc: "find_child ?s j a = (if j = p \<and> a = nm then Some i else find_child s j a)"
      proof (cases "j = p \<and> a = nm")
        case True
        then show ?thesis
          using find_child_Some [OF l(2) g(3), of i] ji by (simp add: nth)
      next
        case F: False
        have "find_child ?s j a = Some c \<longleftrightarrow> find_child s j a = Some c" for c
          using find_child_Some [OF l(1) g(3), of c] find_child_Some [OF l(2) g(3), of c] F ji ne
            linkable_child(1) [OF lk j, of c] lk
          by (auto simp: nth)
        with F show ?thesis by (cases "find_child s j a"; cases "find_child ?s j a") auto
      qed
      have "ps @ [a] = q @ [nm] \<longleftrightarrow> j = p \<and> a = nm"
        using Some lk g walk_inj [OF inv, of ps p q] by (auto simp: linkable_def)
      moreover have "n_is_dir (nodes ?s ! j) = n_is_dir (nodes s ! j)"
        using ji by (simp add: nth)
      moreover have "n_is_dir (nodes s ! p)" using lk by (simp add: linkable_def)
      ultimately show ?thesis using IH Some fc by (cases "j = p \<and> a = nm") (auto simp: walk_snoc)
    qed
  qed
qed

lemma link_tree_inv:
  assumes lk: "linkable s q p i nm"
  shows "tree_inv (link_node p i nm d s)"
proof -
  let ?s = "link_node p i nm d s"
  note nth = link_node_nth(1) [OF lk] and len = link_node_nth(5) [OF lk]
  from lk have inv: "tree_inv s" and i: "\<not> n_used (nodes s ! i)" and g: "good_parts (q @ [nm])"
    by (auto simp: linkable_def)
  have r: "root \<noteq> i" using i tree_inv_root [OF inv] by auto
  have "\<exists>ps. good_parts ps \<and> walk ?s root ps = Some j"
    if j: "j < length (nodes s)" "n_used (nodes ?s ! j)" for j
  proof (cases "j = i")
    case True
    with link_walk [OF lk g] g show ?thesis by (intro exI [of _ "q @ [nm]"]) simp
  next
    case False
    with j have "n_used (nodes s ! j)" by (auto simp: nth split: if_splits)
    with inv j obtain ps where ps: "good_parts ps" "walk s root ps = Some j"
      unfolding tree_inv_def by blast
    moreover from ps(2) lk have "ps \<noteq> q @ [nm]" by (auto simp: linkable_def)
    ultimately show ?thesis using link_walk [OF lk ps(1)] by (intro exI [of _ ps]) simp
  qed
  moreover have "n_used (nodes ?s ! root) \<and> n_is_dir (nodes ?s ! root) \<and> n_parent (nodes ?s ! root) = None"
    using tree_inv_root [OF inv] r by (simp add: nth)
  ultimately show ?thesis
    using tree_inv_len [OF inv] link_node_links [OF lk] unfolding tree_inv_def len by simp
qed

definition unlink_node :: "nat \<Rightarrow> nat \<Rightarrow> vfs \<Rightarrow> vfs" where
  "unlink_node p i s =
     upd_node i (\<lambda>n. n\<lparr>n_used := False\<rparr>) (upd_node p (\<lambda>n. n\<lparr>n_children := remove1 i (n_children n)\<rparr>) s)"

definition unlinkable :: "vfs \<Rightarrow> string list \<Rightarrow> nat \<Rightarrow> nat \<Rightarrow> string \<Rightarrow> bool" where
  "unlinkable s q p i nm \<longleftrightarrow>
     tree_inv s \<and> good_parts (q @ [nm]) \<and> walk s root q = Some p \<and> walk s root (q @ [nm]) = Some i \<and>
     n_children (nodes s ! i) = []"

lemma unlinkable_facts:
  assumes "unlinkable s q p i nm"
  shows "p < length (nodes s)" and "n_used (nodes s ! p)" and "n_is_dir (nodes s ! p)" and "i < length (nodes s)"
    and "i \<in> set (n_children (nodes s ! p))" and "n_name (nodes s ! i) = nm" and "n_parent (nodes s ! i) = Some p"
    and "i \<noteq> root" and "i \<noteq> p" and "n_used (nodes s ! i)" and "node_links s p"
proof -
  from assms have inv: "tree_inv s" and w: "walk s root (q @ [nm]) = Some i" "good_parts (q @ [nm])"
    and e: "n_children (nodes s ! i) = []" and q: "walk s root q = Some p"
    by (auto simp: unlinkable_def)
  obtain j where j: "walk s root q = Some j" "j < length (nodes s)" "n_used (nodes s ! j)"
    "n_is_dir (nodes s ! j)" "i \<in> set (n_children (nodes s ! j))" "n_name (nodes s ! i) = nm"
    "n_parent (nodes s ! i) = Some j" "i \<noteq> root"
    by (rule walk_last [OF inv w])
  with q have "j = p" by simp
  with j walk_used [OF inv w] e tree_inv_links [OF inv, of p] show "p < length (nodes s)" and "n_used (nodes s ! p)"
    and "n_is_dir (nodes s ! p)" and "i < length (nodes s)"
    and "i \<in> set (n_children (nodes s ! p))" and "n_name (nodes s ! i) = nm" and "n_parent (nodes s ! i) = Some p"
    and "i \<noteq> root" and "i \<noteq> p" and "n_used (nodes s ! i)" and "node_links s p"
    by auto
qed

lemma unlink_node_nth:
  assumes "unlinkable s q p i nm"
  shows "nodes (unlink_node p i s) ! j =
    (if j = i then (nodes s ! i)\<lparr>n_used := False\<rparr>
     else if j = p then (nodes s ! p)\<lparr>n_children := remove1 i (n_children (nodes s ! p))\<rparr>
     else nodes s ! j)"
  using unlinkable_facts(1,4,9) [OF assms] by (simp add: unlink_node_def nth_list_update)

lemma unlink_node_len: "length (nodes (unlink_node p i s)) = length (nodes s)"
  by (simp add: unlink_node_def)

lemma unlink_children:
  assumes ul: "unlinkable s q p i nm" and j: "j \<noteq> i" and l: "node_links s j"
  shows "set (n_children (nodes (unlink_node p i s) ! j)) = set (n_children (nodes s ! j)) - {i}"
proof (cases "j = p")
  case True
  with l j show ?thesis by (simp add: unlink_node_nth [OF ul] node_links_def Let_def set_remove1_eq)
next
  case False
  have "i \<notin> set (n_children (nodes s ! j))"
    using node_links_child [OF l, of i] unlinkable_facts(7) [OF ul] False by auto
  with False j show ?thesis by (simp add: unlink_node_nth [OF ul])
qed

lemma unlink_node_links:
  assumes ul: "unlinkable s q p i nm" and j: "j < length (nodes s)" "n_used (nodes s ! j)" "j \<noteq> i"
  shows "node_links (unlink_node p i s) j"
proof -
  let ?s = "unlink_node p i s"
  note nth = unlink_node_nth [OF ul] and f = unlinkable_facts [OF ul]
  from ul have inv: "tree_inv s" and e: "n_children (nodes s ! i) = []" by (auto simp: unlinkable_def)
  have l: "node_links s j" by (rule tree_inv_links [OF inv j(1,2)])
  note chs = unlink_children [OF ul j(3) l]
  have name: "n_name (nodes ?s ! c) = n_name (nodes s ! c)" for c
    by (simp add: nth)
  have "distinct (n_children (nodes ?s ! j)) \<and> length (n_children (nodes ?s ! j)) \<le> VFS_MAX_CHILDREN \<and>
      (\<not> n_is_dir (nodes ?s ! j) \<longrightarrow> n_children (nodes ?s ! j) = [])"
    using l j(3) by (auto simp: nth node_links_def Let_def length_remove1)
  moreover have "inj_on (\<lambda>c. n_name (nodes ?s ! c)) (set (n_children (nodes ?s ! j)))"
    unfolding chs name using l by (auto simp: node_links_def Let_def intro: inj_on_subset)
  moreover have "c < length (nodes ?s) \<and> n_used (nodes ?s ! c) \<and> c \<noteq> root \<and> n_parent (nodes ?s ! c) = Some j \<and>
      good_part (n_name (nodes ?s ! c))" if "c \<in> set (n_children (nodes ?s ! j))" for c
    using node_links_child [OF l, of c] that by (simp add: chs name) (auto simp: nth unlink_node_len)
  moreover have "case n_parent (nodes ?s ! j) of None \<Rightarrow> j = root
      | Some k \<Rightarrow> k < length (nodes ?s) \<and> n_used (nodes ?s ! k) \<and> j \<in> set (n_children (nodes ?s ! k))"
  proof (cases "n_parent (nodes s ! j)")
    case None
    with l j(3) show ?thesis by (simp add: nth node_links_def Let_def)
  next
    case (Some k)
    with l have k: "k < length (nodes s)" "n_used (nodes s ! k)" "j \<in> set (n_children (nodes s ! k))"
      by (auto simp: node_links_def Let_def)
    with e have "k \<noteq> i" by auto
    with k have "n_used (nodes ?s ! k)" "j \<in> set (n_children (nodes ?s ! k))"
      using j(3) by (auto simp: nth)
    moreover have "n_parent (nodes ?s ! j) = Some k" using Some j(3) by (auto simp: nth)
    ultimately show ?thesis using k by (simp add: unlink_node_len)
  qed
  ultimately show ?thesis
    unfolding node_links_def Let_def by blast
qed

lemma unlink_walk:
  assumes ul: "unlinkable s q p i nm" and "good_parts ps"
  shows "walk (unlink_node p i s) root ps = (if ps = q @ [nm] then None else walk s root ps)"
  using assms(2)
proof (induction ps rule: rev_induct)
  case Nil
  then show ?case by simp
next
  case (snoc a ps)
  let ?s = "unlink_node p i s"
  note nth = unlink_node_nth [OF ul] and f = unlinkable_facts [OF ul]
  from ul have inv: "tree_inv s" and e: "n_children (nodes s ! i) = []"
    and w: "walk s root q = Some p" "walk s root (q @ [nm]) = Some i" "good_parts (q @ [nm])"
    by (auto simp: unlinkable_def)
  from snoc have g: "good_parts ps" "good_part a" "no_nul a" by (auto simp: good_part_def)
  show ?case
  proof (cases "ps = q @ [nm]")
    case True
    then have "walk ?s root ps = None" using snoc.IH g by simp
    moreover have "find_child s i a = None" using e by (simp add: find_child_def first_from_None)
    ultimately show ?thesis using True w walk_snoc [of ?s root ps a] walk_snoc [of s root ps a] by (simp add: walk_snoc)
  next
    case False
    with snoc.IH g have IH: "walk ?s root ps = walk s root ps" by simp
    show ?thesis
    proof (cases "walk s root ps")
      case None
      with IH w show ?thesis by (auto simp: walk_snoc)
    next
      case (Some j)
      with walk_used [OF inv Some g(1)] have j: "j < length (nodes s)" "n_used (nodes s ! j)" by auto
      have ji: "j \<noteq> i" using walk_inj [OF inv Some, of "q @ [nm]"] w g False by auto
      have l: "node_links s j" "node_links ?s j"
        using tree_inv_links [OF inv j] unlink_node_links [OF ul j ji] by auto
      note chs = unlink_children [OF ul ji l(1)]
      have name: "n_name (nodes ?s ! c) = n_name (nodes s ! c)" for c
        by (simp add: nth)
      have fc: "find_child ?s j a = Some c \<longleftrightarrow> find_child s j a = Some c \<and> \<not> (j = p \<and> a = nm)" for c
      proof -
        have "c = i \<and> c \<in> set (n_children (nodes s ! j)) \<Longrightarrow> j = p"
          using node_links_child [OF l(1), of i] f(7) by auto
        moreover have "j = p \<Longrightarrow> c \<in> set (n_children (nodes s ! j)) \<Longrightarrow> n_name (nodes s ! c) = nm \<Longrightarrow> c = i"
          using f(5,6) l(1) by (auto simp: node_links_def Let_def inj_on_def)
        ultimately show ?thesis
          unfolding find_child_Some [OF l(1) g(3)] find_child_Some [OF l(2) g(3)] chs name
          using f(5,6) by blast
      qed
      then have fc': "find_child ?s j a = (if j = p \<and> a = nm then None else find_child s j a)"
        by (cases "find_child s j a"; cases "find_child ?s j a") auto
      have "ps @ [a] = q @ [nm] \<longleftrightarrow> j = p \<and> a = nm"
        using Some w g walk_inj [OF inv, of ps p q] by auto
      moreover have "n_is_dir (nodes ?s ! j) = n_is_dir (nodes s ! j)"
        using ji by (simp add: nth)
      ultimately show ?thesis using IH Some fc' by (cases "j = p \<and> a = nm") (auto simp: walk_snoc)
    qed
  qed
qed

lemma unlink_tree_inv:
  assumes ul: "unlinkable s q p i nm"
  shows "tree_inv (unlink_node p i s)"
proof -
  let ?s = "unlink_node p i s"
  note nth = unlink_node_nth [OF ul] and f = unlinkable_facts [OF ul]
  from ul have inv: "tree_inv s" by (simp add: unlinkable_def)
  have "\<exists>ps. good_parts ps \<and> walk ?s root ps = Some j"
    if j: "j < length (nodes s)" "n_used (nodes s ! j)" "j \<noteq> i" for j
  proof -
    from inv j obtain ps where ps: "good_parts ps" "walk s root ps = Some j"
      unfolding tree_inv_def by blast
    moreover from ps(2) ul j(3) have "ps \<noteq> q @ [nm]" by (auto simp: unlinkable_def)
    ultimately show ?thesis using unlink_walk [OF ul ps(1)] by (intro exI [of _ ps]) simp
  qed
  moreover have "n_used (nodes ?s ! j) \<longleftrightarrow> n_used (nodes s ! j) \<and> j \<noteq> i" for j
    by (simp add: nth)
  moreover have "n_is_dir (nodes ?s ! root) \<and> n_parent (nodes ?s ! root) = None"
    using tree_inv_root [OF inv] f(8) by (simp add: nth)
  ultimately show ?thesis
    using tree_inv_len [OF inv] tree_inv_root [OF inv] unlink_node_links [OF ul] f(8)
    unfolding tree_inv_def unlink_node_len by simp
qed

section \<open>Making an entry\<close>

definition entry_slot :: "string list \<Rightarrow> vfs \<Rightarrow> vfs_err + string \<times> nat \<times> nat" where
  "entry_slot ps s =
     (if ps = [] then Inl VFS_ERR_INVAL
      else case walk s root (butlast ps) of
             None \<Rightarrow> Inl VFS_ERR_NOENT
           | Some p \<Rightarrow>
               if \<not> n_is_dir (nodes s ! p) then Inl VFS_ERR_NOENT
               else if VFS_MAX_CHILDREN \<le> length (n_children (nodes s ! p)) then Inl VFS_ERR_NOSPC
               else case first_from (\<lambda>n. \<not> n_used n) (nodes s) 0 of
                      None \<Rightarrow> Inl VFS_ERR_NOSPC
                    | Some i \<Rightarrow> Inr (last ps, p, i))"

lemma entry_slot_linkable:
  assumes "tree_inv s" and "good_parts ps" and "walk s root ps = None" and "entry_slot ps s = Inr (nm, p, i)"
  obtains q where "ps = q @ [nm]" and "linkable s q p i nm"
proof -
  from assms(4) have e: "ps \<noteq> []" "nm = last ps" "walk s root (butlast ps) = Some p" "n_is_dir (nodes s ! p)"
    "length (n_children (nodes s ! p)) < VFS_MAX_CHILDREN"
    "first_from (\<lambda>n. \<not> n_used n) (nodes s) 0 = Some i"
    by (auto simp: entry_slot_def split: option.splits if_splits)
  have "ps = butlast ps @ [nm]" using e by simp
  moreover have "good_parts (butlast ps)" "good_part nm"
    using assms(2) good_parts_simps(3) [of "butlast ps" "[last ps]"] e by simp_all
  ultimately show ?thesis
    using that [of "butlast ps"] assms(1,3) e first_from_Some [OF e(6)] by (simp add: linkable_def)
qed

lemma ensure_parent_slot:
  assumes fits: "path_fits path VFS_PATH_MAX"
  shows "ensure_parent path s =
    (if resolved path = [] then Inl VFS_ERR_INVAL
     else case walk s root (butlast (resolved path)) of
            None \<Rightarrow> Inl VFS_ERR_NOENT
          | Some p \<Rightarrow> if n_is_dir (nodes s ! p) then Inr (last (resolved path), p) else Inl VFS_ERR_NOENT)"
proof (cases "resolved path" rule: rev_cases)
  case Nil
  then show ?thesis using ensure_parent_root [OF fits] by simp
next
  case (snoc q nm)
  then show ?thesis using ensure_parent_spec [OF fits snoc] by (simp split: option.splits)
qed

lemma link_node_updates:
  assumes "i \<noteq> p" and "i < length (nodes s)"
  shows "upd_node p (\<lambda>n. n\<lparr>n_children := n_children n @ [i]\<rparr>)
     (upd_node i (\<lambda>n. n\<lparr>n_is_dir := d, n_parent := Some p, n_name := nm\<rparr>)
       (s\<lparr>nodes := (nodes s)[i := blank_node\<lparr>n_used := True\<rparr>]\<rparr>)) = link_node p i nm d s"
  using assms by (simp add: link_node_def)

lemma vfs_mkdir_spec:
  assumes inv: "tree_inv s" and fits: "path_fits path VFS_PATH_MAX"
  shows "vfs_mkdir path s =
    (if walk s root (resolved path) \<noteq> None then (Inl VFS_ERR_EXIST, s)
     else case entry_slot (resolved path) s of
            Inl e \<Rightarrow> (Inl e, s)
          | Inr (nm, p, i) \<Rightarrow> (Inr (), link_node p i nm True s))"
proof (cases "entry_slot (resolved path) s")
  case (Inl e)
  then show ?thesis
    by (auto simp: vfs_mkdir_def vfs_lookup_walk [OF fits] ensure_parent_slot [OF fits] entry_slot_def
        alloc_node_def split: option.splits if_splits)
next
  case (Inr r)
  obtain nm p i where r: "r = (nm, p, i)" by (cases r)
  show ?thesis
  proof (cases "walk s root (resolved path)")
    case (Some j)
    then show ?thesis by (simp add: vfs_mkdir_def vfs_lookup_walk [OF fits])
  next
    case None
    have "good_parts (resolved path)" using fits resolved_good by (auto simp: path_fits_def)
    then obtain q where q: "resolved path = q @ [nm]" "linkable s q p i nm"
      using entry_slot_linkable [OF inv _ None] Inr r by metis
    then have "strncpy_val nm VFS_NAME_MAX = nm" by (simp add: linkable_def strncpy_val_good)
    moreover have "i \<noteq> p" "i < length (nodes s)" using q(2) link_node_nth(2) by (auto simp: linkable_def)
    ultimately show ?thesis
      using None Inr r q(1) link_node_updates [of i p s nm True]
      by (auto simp: vfs_mkdir_def vfs_lookup_walk [OF fits] ensure_parent_slot [OF fits] entry_slot_def
          alloc_node_def Let_def split: option.splits if_splits)
  qed
qed

lemma create_file_spec:
  assumes inv: "tree_inv s" and fits: "path_fits path VFS_PATH_MAX" and None: "walk s root (resolved path) = None"
  shows "create_file path s =
    (case entry_slot (resolved path) s of
       Inl e \<Rightarrow> (Inl e, s)
     | Inr (nm, p, i) \<Rightarrow> (Inr i, link_node p i nm False s))"
proof (cases "entry_slot (resolved path) s")
  case (Inl e)
  then show ?thesis
    by (auto simp: create_file_def ensure_parent_slot [OF fits] entry_slot_def
        alloc_node_def split: option.splits if_splits)
next
  case (Inr r)
  obtain nm p i where r: "r = (nm, p, i)" by (cases r)
  have "good_parts (resolved path)" using fits resolved_good by (auto simp: path_fits_def)
  then obtain q where q: "resolved path = q @ [nm]" "linkable s q p i nm"
    using entry_slot_linkable [OF inv _ None] Inr r by metis
  then have "strncpy_val nm VFS_NAME_MAX = nm" by (simp add: linkable_def strncpy_val_good)
  moreover have "i \<noteq> p" "i < length (nodes s)" using q(2) link_node_nth(2) by (auto simp: linkable_def)
  ultimately show ?thesis
    using Inr r q(1) link_node_updates [of i p s nm False]
    by (auto simp: create_file_def ensure_parent_slot [OF fits] entry_slot_def blank_node_def
        alloc_node_def Let_def split: option.splits if_splits)
qed

end
