(* ===== verification/PosFile.thy ===== *)
theory PosFile
  imports Prelude
begin

text \<open>
  Files read and written at a position: the interface both file systems of the program offer on a
  descriptor (\<^verbatim>\<open>kernel/fs/vfs.c\<close> and \<^verbatim>\<open>py/fs.c\<close>), and what follows from it for any of them.
\<close>

definition overwrite :: "u8 list \<Rightarrow> nat \<Rightarrow> u8 list \<Rightarrow> u8 list" where
  "overwrite old off bs = take off old @ bs @ drop (off + length bs) old"

lemma length_overwrite: "off \<le> length old \<Longrightarrow> length (overwrite old off bs) = max (length old) (off + length bs)"
  by (auto simp: overwrite_def max_def)

lemma overwrite_append:
  assumes "off \<le> length old"
  shows "overwrite (overwrite old off xs) (off + length xs) ys = overwrite old off (xs @ ys)"
  using assms by (simp add: overwrite_def add.assoc) (simp add: add.commute add.left_commute)

lemma overwrite_read: "off \<le> length old \<Longrightarrow> take (length bs) (drop off (overwrite old off bs)) = bs"
  by (simp add: overwrite_def)

lemma overwrite_end: "overwrite old (length old) bs = old @ bs"
  by (simp add: overwrite_def)

text \<open>
  \<open>readf\<close> and \<open>writef\<close> act at \<open>offset\<close>; \<open>place\<close> moves it. A write that is refused (\<open>None\<close>) is one the
  device had no room for.
\<close>

locale positional_file =
  fixes content :: "'s \<Rightarrow> u8 list" and offset :: "'s \<Rightarrow> nat" and ok :: "'s \<Rightarrow> bool"
    and readf :: "nat \<Rightarrow> 's \<Rightarrow> u8 list \<times> 's" and writef :: "u8 list \<Rightarrow> 's \<Rightarrow> 's option"
    and place :: "nat \<Rightarrow> 's \<Rightarrow> 's"
  assumes read_bytes: "ok s \<Longrightarrow> fst (readf n s) = take n (drop (offset s) (content s))"
    and read_state: "ok s \<Longrightarrow> content (snd (readf n s)) = content s \<and> ok (snd (readf n s)) \<and>
        offset (snd (readf n s)) = offset s + length (fst (readf n s))"
    and write_state: "ok s \<Longrightarrow> writef bs s = Some t \<Longrightarrow> ok t \<and> content t = overwrite (content s) (offset s) bs \<and>
        offset t = offset s + length bs"
    and place_state: "ok s \<Longrightarrow> k \<le> length (content s) \<Longrightarrow> ok (place k s) \<and> content (place k s) = content s \<and> offset (place k s) = k"
    and within: "ok s \<Longrightarrow> offset s \<le> length (content s)"
begin

text \<open>Two reads return what one read of their sum returns.\<close>

lemma read_split:
  assumes "ok s"
  shows "fst (readf n s) @ fst (readf m (snd (readf n s))) = fst (readf (n + m) s)"
proof -
  have "take n xs @ take m (drop (length (take n xs)) xs) = take (n + m) xs" for xs :: "u8 list"
    by (cases "n \<le> length xs") (simp_all add: take_add)
  from this [of "drop (offset s) (content s)"] show ?thesis
    using read_bytes [OF assms] read_state [OF assms, of n]
      read_bytes [of "snd (readf n s)" m] by (simp add: add.commute)
qed

text \<open>What is written is read back from where it was written.\<close>

lemma write_read:
  assumes "ok s" and "writef bs s = Some t"
  shows "fst (readf (length bs) (place (offset s) t)) = bs"
proof -
  note w = write_state [OF assms] and o = within [OF assms(1)]
  have "offset s \<le> length (content t)" using w o by (simp add: length_overwrite max_def)
  with place_state [of t "offset s"] w have "ok (place (offset s) t)" "content (place (offset s) t) = overwrite (content s) (offset s) bs"
    "offset (place (offset s) t) = offset s" by auto
  with read_bytes [of "place (offset s) t" "length bs"] overwrite_read [OF o] show ?thesis by simp
qed

text \<open>Writing piece by piece is writing the whole.\<close>

lemma write_append:
  assumes "ok s" and "writef xs s = Some t" and "writef ys t = Some u"
  shows "content u = overwrite (content s) (offset s) (xs @ ys) \<and> offset u = offset s + length (xs @ ys)"
  using write_state [OF assms(1,2)] write_state [of t ys u] assms(3) within [OF assms(1)] by (simp add: overwrite_append)

end

end
