(* ===== verification/VfsData.thy ===== *)
theory VfsData
  imports VfsTree PosFile
begin

text \<open>
  Storage and abstraction of the ramfs: every file in use owns a run of pages, disjoint from the
  runs of the others (\<open>store_inv\<close>); the node table stands for a map from paths to directories and
  byte strings (\<open>fs_abs\<close>), and the operations of \<^verbatim>\<open>kernel/fs/vfs.c\<close> act on that map. A call that
  fails leaves the map as it was, except that a write to a new path may leave the empty file
  behind when no pages are left.
\<close>

section \<open>The storage of the nodes\<close>

definition page_index :: "u32 \<Rightarrow> nat" where
  "page_index a = unat (a - KERNEL_HEAP_START) div PAGE_SIZE"

definition node_pages :: "vnode \<Rightarrow> nat set" where
  "node_pages nd =
     (case n_data nd of None \<Rightarrow> {}
      | Some a \<Rightarrow> {page_index a..<page_index a + n_cap nd div PAGE_SIZE})"

definition owned :: "vfs \<Rightarrow> nat \<Rightarrow> nat set" where
  "owned s i = (if i < length (nodes s) \<and> n_used (nodes s ! i) then node_pages (nodes s ! i) else {})"

definition store_ok :: "vnode \<Rightarrow> bool" where
  "store_ok nd \<longleftrightarrow>
     n_size nd \<le> n_cap nd \<and> n_cap nd \<le> VFS_FILE_MAX \<and> n_cap nd mod PAGE_SIZE = 0 \<and>
     (n_is_dir nd \<longrightarrow> n_data nd = None) \<and>
     (case n_data nd of None \<Rightarrow> n_cap nd = 0
      | Some a \<Rightarrow> 0 < n_cap nd \<and> a = page_addr (page_index a) \<and>
          page_index a + n_cap nd div PAGE_SIZE \<le> PAGE_COUNT)"

text \<open>Each file in use has pages of its own, all of them marked in the allocator's bitmap.\<close>

definition store_inv :: "vfs \<Rightarrow> bool" where
  "store_inv s \<longleftrightarrow>
     mm_inv (vmm s) \<and> disjoint_owners (owned s) (used_pages (vmm s)) \<and>
     (\<forall>i < length (nodes s). n_used (nodes s ! i) \<longrightarrow> store_ok (nodes s ! i))"

definition file_bytes :: "vfs \<Rightarrow> nat \<Rightarrow> u8 list" where
  "file_bytes s i = mem_load (mem (vmm s)) (the_ptr (n_data (nodes s ! i))) (n_size (nodes s ! i))"

definition in_pages :: "nat set \<Rightarrow> u32 \<Rightarrow> bool" where
  "in_pages P x \<longleftrightarrow> unat KERNEL_HEAP_START \<le> unat x \<and> (unat x - unat KERNEL_HEAP_START) div PAGE_SIZE \<in> P"

lemma page_index_addr: "k < PAGE_COUNT \<Longrightarrow> page_index (page_addr k) = k"
  by (simp add: page_index_def page_addr_index)

lemma in_region_in_pages:
  assumes "k + n \<le> PAGE_COUNT"
  shows "in_region (page_addr k) (n * PAGE_SIZE) x \<longleftrightarrow> in_pages {k..<k + n} x"
  unfolding in_region_pages [OF assms] in_pages_def
  by (auto simp: PAGE_SIZE_def div_less_iff_less_mult less_eq_div_iff_mult_less_eq)

lemma in_pages_disjoint: "in_pages P x \<Longrightarrow> in_pages Q x \<Longrightarrow> P \<inter> Q = {} \<Longrightarrow> False"
  by (auto simp: in_pages_def)

lemma in_region_mono: "in_region a n x \<Longrightarrow> n \<le> m \<Longrightarrow> in_region a m x"
  by (simp add: in_region_def)

lemma store_ok_region:
  assumes "store_ok nd" and "n_data nd = Some a"
  shows "in_region a (n_cap nd) x \<longleftrightarrow> in_pages (node_pages nd) x"
proof -
  from assms have a: "a = page_addr (page_index a)" "page_index a + n_cap nd div PAGE_SIZE \<le> PAGE_COUNT"
    "n_cap nd = n_cap nd div PAGE_SIZE * PAGE_SIZE"
    by (auto simp: store_ok_def)
  from in_region_in_pages [OF a(2), of x] show ?thesis
    unfolding a(1) [symmetric] a(3) [symmetric] by (simp add: node_pages_def assms(2))
qed

lemma in_region_shift:
  assumes "in_region (a + of_nat off) k x" and "off + k \<le> n" and "n < 2 ^ 32"
  shows "in_region a n x"
proof -
  from assms(1) have "unat (x - (a + of_nat off)) < k" by (simp add: in_region_def)
  moreover have "unat (x - a) \<le> unat (x - (a + of_nat off)) + off"
  proof -
    have "x - a = (x - (a + of_nat off)) + of_nat off" by simp
    then have "unat (x - a) \<le> unat (x - (a + of_nat off)) + unat (of_nat off :: u32)"
      by (metis mod_less_eq_dividend unat_word_ariths(1))
    moreover have "unat (of_nat off :: u32) \<le> off" by (simp add: unat_of_nat)
    ultimately show ?thesis by linarith
  qed
  ultimately show ?thesis using assms(2) by (simp add: in_region_def)
qed

lemma store_ok_cap: "store_ok nd \<Longrightarrow> n_cap nd < 2 ^ 32"
  by (auto simp: store_ok_def VFS_FILE_MAX_def)

text \<open>Bytes inside a node's capacity lie in its pages.\<close>

lemma load_frame:
  assumes ok: "store_ok nd" and k: "off + k \<le> n_cap nd"
    and eq: "\<And>x. in_pages (node_pages nd) x \<Longrightarrow> m' x = m x"
  shows "mem_load m' (the_ptr (n_data nd) + of_nat off) k = mem_load m (the_ptr (n_data nd) + of_nat off) k"
proof (cases "n_data nd")
  case None
  with ok k have "k = 0" by (auto simp: store_ok_def)
  then show ?thesis by simp
next
  case (Some a)
  have "m' x = m x" if "in_region (a + of_nat off) k x" for x
    using eq in_region_shift [OF that k store_ok_cap [OF ok]] store_ok_region [OF ok Some] by blast
  then show ?thesis
    using k store_ok_cap [OF ok] by (intro mem_load_frame) (auto simp: the_ptr_def Some)
qed

lemma store_outside:
  assumes ok: "store_ok nd" and k: "off + length bs \<le> n_cap nd" and x: "\<not> in_pages (node_pages nd) x"
  shows "mem_store m (the_ptr (n_data nd) + of_nat off) bs x = m x"
proof (cases "n_data nd")
  case None
  with ok k have "bs = []" by (auto simp: store_ok_def)
  then show ?thesis by simp
next
  case (Some a)
  then have "\<not> in_region (a + of_nat off) (length bs) x"
    using x in_region_shift [OF _ k store_ok_cap [OF ok], of a x] store_ok_region [OF ok Some, of x] by blast
  then show ?thesis
    using k store_ok_cap [OF ok] Some by (simp add: mem_store_apply the_ptr_def)
qed

lemma owned_disjoint:
  assumes "store_inv s" and "i \<noteq> k"
  shows "owned s i \<inter> owned s k = {}"
  using assms disjoint_owners_disj [of "owned s" _ i k] by (auto simp: store_inv_def)

text \<open>Two states with the same tree and descriptors: they differ in storage only.\<close>

definition same_shape :: "vfs \<Rightarrow> vfs \<Rightarrow> bool" where
  "same_shape s t \<longleftrightarrow>
     length (nodes t) = length (nodes s) \<and>
     (\<forall>j. n_name (nodes t ! j) = n_name (nodes s ! j) \<and> n_is_dir (nodes t ! j) = n_is_dir (nodes s ! j) \<and>
          n_parent (nodes t ! j) = n_parent (nodes s ! j) \<and> n_children (nodes t ! j) = n_children (nodes s ! j) \<and>
          n_used (nodes t ! j) = n_used (nodes s ! j))"

lemma same_shape_refl [simp]: "same_shape s s"
  by (simp add: same_shape_def)

lemma same_shape_trans: "same_shape r s \<Longrightarrow> same_shape s t \<Longrightarrow> same_shape r t"
  by (simp add: same_shape_def)

lemma same_shape_upd:
  "(\<And>n. n_name (f n) = n_name n \<and> n_is_dir (f n) = n_is_dir n \<and> n_parent (f n) = n_parent n \<and>
         n_children (f n) = n_children n \<and> n_used (f n) = n_used n) \<Longrightarrow>
     same_shape s (upd_node i f (s\<lparr>vmm := m\<rparr>))"
  by (simp add: same_shape_def nth_list_update_if)

lemma same_shape_find: "same_shape s t \<Longrightarrow> find_child t = find_child s"
  by (simp add: same_shape_def find_child_def fun_eq_iff)

lemma same_shape_walk:
  assumes "same_shape s t"
  shows "walk t i ps = walk s i ps"
proof -
  have d: "n_is_dir (nodes t ! j) = n_is_dir (nodes s ! j)" for j
    using assms by (simp add: same_shape_def)
  show ?thesis
    by (induction ps arbitrary: i) (simp_all add: same_shape_find [OF assms] d split: option.split)
qed

lemma same_shape_tree_inv:
  assumes "same_shape s t" and "tree_inv s"
  shows "tree_inv t"
proof -
  from assms(1) have "node_links t i = node_links s i" for i
    by (simp add: same_shape_def node_links_def Let_def split: option.split)
  with assms same_shape_walk [OF assms(1)] show ?thesis
    by (simp add: tree_inv_def same_shape_def)
qed

text \<open>A step that rewrites the storage of one node and leaves every other owner's pages alone.\<close>

definition storage_step :: "nat \<Rightarrow> vfs \<Rightarrow> vfs \<Rightarrow> bool" where
  "storage_step i s t \<longleftrightarrow>
     same_shape s t \<and> fds t = fds s \<and> (\<forall>j. j \<noteq> i \<longrightarrow> nodes t ! j = nodes s ! j) \<and>
     (\<forall>j x. j \<noteq> i \<longrightarrow> in_pages (owned s j) x \<longrightarrow> mem (vmm t) x = mem (vmm s) x)"

lemma storage_step_bytes:
  assumes "storage_step i s t" and "store_inv s" and "j \<noteq> i" and "j < length (nodes s)" and "n_used (nodes s ! j)"
  shows "file_bytes t j = file_bytes s j"
proof -
  from assms have ok: "store_ok (nodes s ! j)" by (simp add: store_inv_def)
  have "owned s j = node_pages (nodes s ! j)" using assms by (simp add: owned_def)
  moreover have "nodes t ! j = nodes s ! j" using assms by (simp add: storage_step_def)
  ultimately show ?thesis
    using load_frame [OF ok, of 0 "n_size (nodes s ! j)" "mem (vmm t)" "mem (vmm s)"] ok assms(1,3)
    by (simp add: file_bytes_def storage_step_def store_ok_def)
qed

lemma storage_step_trans:
  assumes "storage_step i s t" and "storage_step i t u"
  shows "storage_step i s u"
proof -
  have "owned t j = owned s j" if "j \<noteq> i" for j
    using assms(1) that by (simp add: storage_step_def owned_def same_shape_def)
  with assms show ?thesis
    by (auto simp: storage_step_def intro: same_shape_trans)
qed

section \<open>Growing a node\<close>

text \<open>What both growth paths do: the node moves to new pages, \<open>M\<close> being memory before the release.\<close>

definition regrow :: "nat \<Rightarrow> u32 \<Rightarrow> nat \<Rightarrow> memory \<Rightarrow> mm \<Rightarrow> vfs \<Rightarrow> vfs" where
  "regrow i p n M m s =
     upd_node i (\<lambda>x. x\<lparr>n_data := Some p, n_cap := n * PAGE_SIZE\<rparr>)
       (s\<lparr>vmm := (case n_data (nodes s ! i) of None \<Rightarrow> m\<lparr>mem := M\<rparr>
                   | Some old \<Rightarrow> mm_free_pages old (n_cap (nodes s ! i) div PAGE_SIZE) (m\<lparr>mem := M\<rparr>))\<rparr>)"

lemma pages_for_bound: "0 < n \<Longrightarrow> n \<le> pages_for n * PAGE_SIZE \<and> pages_for n * PAGE_SIZE < n + PAGE_SIZE"
proof -
  assume "0 < n"
  moreover have "(n + 4095) mod 4096 < 4096" by simp
  moreover note div_mult_mod_eq [of "n + 4095" 4096]
  ultimately have "n \<le> (n + 4095) div 4096 * 4096 \<and> (n + 4095) div 4096 * 4096 < n + 4096" by linarith
  then show ?thesis by (simp add: pages_for_def PAGE_SIZE_def add.commute)
qed

lemma pages_for_mult:
  assumes "n mod PAGE_SIZE = 0"
  shows "pages_for n = n div PAGE_SIZE"
proof -
  from assms obtain q where "n = PAGE_SIZE * q" by (auto elim: dvdE simp: mod_eq_0_iff_dvd)
  then show ?thesis by (simp add: pages_for_def PAGE_SIZE_def)
qed

lemma pages_for_max:
  assumes "n \<le> VFS_FILE_MAX"
  shows "pages_for n * PAGE_SIZE \<le> VFS_FILE_MAX"
proof -
  have "(n + 4095) div 4096 \<le> (65536 + 4095) div (4096 :: nat)"
    using assms by (intro div_le_mono) (simp add: VFS_FILE_MAX_def)
  then show ?thesis by (simp add: pages_for_def PAGE_SIZE_def VFS_FILE_MAX_def)
qed

lemma regrow_spec:
  assumes inv: "store_inv s" and i: "i < length (nodes s)" "n_used (nodes s ! i)" "\<not> n_is_dir (nodes s ! i)"
    and n: "n * PAGE_SIZE \<le> VFS_FILE_MAX" "n_size (nodes s ! i) \<le> n * PAGE_SIZE"
    and al: "mm_alloc_pages n (vmm s) = (Some p, m)"
    and M: "\<And>x. \<not> in_region p (n * PAGE_SIZE) x \<Longrightarrow> M x = mem (vmm s) x"
  shows "store_inv (regrow i p n M m s)" and "storage_step i s (regrow i p n M m s)"
    and "nodes (regrow i p n M m s) ! i = (nodes s ! i)\<lparr>n_data := Some p, n_cap := n * PAGE_SIZE\<rparr>"
    and "\<And>x. in_region p (n * PAGE_SIZE) x \<Longrightarrow> mem (vmm (regrow i p n M m s)) x = M x"
    and "\<And>x. in_pages (owned s i) x \<Longrightarrow> \<not> in_region p (n * PAGE_SIZE) x"
proof -
  let ?t = "regrow i p n M m s"
  let ?nd = "nodes s ! i"
  have ok: "store_ok ?nd" using inv i by (simp add: store_inv_def)
  have mminv: "mm_inv (vmm s)" and own: "disjoint_owners (owned s) (used_pages (vmm s))"
    using inv by (auto simp: store_inv_def)
  obtain j where j: "p = page_addr j" "0 < n" "j < PAGE_COUNT" "j + n \<le> PAGE_COUNT"
    "{j..<j + n} \<inter> used_pages (vmm s) = {}" "used_pages m = used_pages (vmm s) \<union> {j..<j + n}"
    using kpages.alloc_some [OF mminv al] by auto
  have inv_m: "mm_inv m" using kpages.alloc_ok [OF mminv, of n] al by simp
  have new: "in_region p (n * PAGE_SIZE) x \<longleftrightarrow> in_pages {j..<j + n} x" for x
    using in_region_in_pages [OF j(4)] j(1) by simp
  have apart: "\<not> in_pages {j..<j + n} x" if "in_pages (owned s k) x" for k x
    using that j(5) disjoint_owners_sub [OF own, of k] by (auto simp: in_pages_def)
  have nodes: "nodes ?t = (nodes s)[i := ?nd\<lparr>n_data := Some p, n_cap := n * PAGE_SIZE\<rparr>]"
    by (simp add: regrow_def)
  show nth: "nodes ?t ! i = ?nd\<lparr>n_data := Some p, n_cap := n * PAGE_SIZE\<rparr>"
    using i by (simp add: nodes)
  have own_i: "owned s i = node_pages ?nd" using i by (simp add: owned_def)
  have own_t: "owned ?t = (owned s)(i := {j..<j + n})"
  proof (rule ext)
    fix k
    have "page_index p = j" using j by (simp add: page_index_addr)
    then have "node_pages (?nd\<lparr>n_data := Some p, n_cap := n * PAGE_SIZE\<rparr>) = {j..<j + n}"
      by (simp add: node_pages_def PAGE_SIZE_def)
    then show "owned ?t k = ((owned s)(i := {j..<j + n})) k"
      using i by (simp add: owned_def nodes nth_list_update)
  qed
  have freed: "mem (vmm ?t) x = (if in_pages (owned s i) x then 0xA5 else M x)"
    and owners: "disjoint_owners (owned ?t) (used_pages (vmm ?t))" and inv_t: "mm_inv (vmm ?t)" for x
  proof -
    show "mm_inv (vmm ?t)"
      using inv_m by (auto simp: regrow_def intro!: inv_intros split: option.split)
    have "mem (vmm ?t) x = (if in_pages (owned s i) x then 0xA5 else M x) \<and>
      disjoint_owners (owned ?t) (used_pages (vmm ?t))"
    proof (cases "n_data ?nd")
      case None
      then have "owned s i = {}" by (simp add: own_i node_pages_def)
      moreover from this have "disjoint_owners ((owned s)(i := {j..<j + n})) (used_pages m)"
        using disjoint_owners_move [OF own j(5), of i] j(6) by simp
      ultimately show ?thesis
        unfolding own_t by (simp add: regrow_def None in_pages_def)
    next
      case (Some a)
      with ok have a: "a = page_addr (page_index a)" "page_index a + n_cap ?nd div PAGE_SIZE \<le> PAGE_COUNT"
        "0 < n_cap ?nd div PAGE_SIZE"
        by (auto simp: store_ok_def PAGE_SIZE_def)
      let ?k = "n_cap ?nd div PAGE_SIZE"
      have pk: "page_index a < PAGE_COUNT" using a by simp
      have oi: "owned s i = {page_index a..<page_index a + ?k}" by (simp add: own_i node_pages_def Some)
      have "mem (vmm ?t) x = mem (mm_free_pages (page_addr (page_index a)) ?k (m\<lparr>mem := M\<rparr>)) x"
        using Some a(1) by (simp add: regrow_def)
      also have "\<dots> = (if in_pages (owned s i) x then 0xA5 else M x)"
        using mm_free_mem [OF a(2) pk] in_region_in_pages [OF a(2)] oi by simp
      finally have mem: "mem (vmm ?t) x = (if in_pages (owned s i) x then 0xA5 else M x)" .
      have "used_pages (vmm ?t) = used_pages (mm_free_pages a ?k m)"
        by (simp add: regrow_def Some)
      also have "\<dots> = used_pages m - owned s i"
        using kpages.release_pages [OF inv_m pk, of ?k] a(1) oi by simp
      finally have "used_pages (vmm ?t) = (used_pages (vmm s) \<union> {j..<j + n}) - owned s i" by (simp add: j(6))
      with disjoint_owners_move [OF own j(5), of i] mem show ?thesis
        unfolding own_t by simp
    qed
    then show "mem (vmm ?t) x = (if in_pages (owned s i) x then 0xA5 else M x)"
      and "disjoint_owners (owned ?t) (used_pages (vmm ?t))" by auto
  qed
  show "mem (vmm ?t) x = M x" if "in_region p (n * PAGE_SIZE) x" for x
    using freed [of x] apart [of i x] that new by auto
  show "\<not> in_region p (n * PAGE_SIZE) x" if "in_pages (owned s i) x" for x
    using apart [OF that] new by simp
  have "store_ok (?nd\<lparr>n_data := Some p, n_cap := n * PAGE_SIZE\<rparr>)"
    using ok i n j by (simp add: store_ok_def page_index_addr PAGE_SIZE_def)
  then have "store_ok (nodes ?t ! k)" if "k < length (nodes s)" "n_used (nodes ?t ! k)" for k
    using inv that i by (cases "k = i") (auto simp: nodes store_inv_def)
  with owners inv_t show "store_inv ?t"
    by (simp add: store_inv_def nodes)
  have "mem (vmm ?t) x = mem (vmm s) x" if "k \<noteq> i" "in_pages (owned s k) x" for k x
    using freed [of x] M [of x] new [of x] apart [OF that(2)] owned_disjoint [OF inv that(1)] that(2)
    by (auto dest: in_pages_disjoint)
  moreover have "same_shape s ?t" by (simp add: same_shape_def nodes nth_list_update_if)
  moreover have "fds ?t = fds s" by (simp add: regrow_def)
  ultimately show "storage_step i s ?t"
    by (auto simp: storage_step_def nodes)
qed

section \<open>Writing contents\<close>

lemma put_bytes:
  assumes inv: "store_inv s" and i: "i < length (nodes s)" "n_used (nodes s ! i)"
    and fit: "off + length bs \<le> n_cap (nodes s ! i)" and z: "z \<le> n_cap (nodes s ! i)"
    and t: "t = upd_node i (\<lambda>x. x\<lparr>n_size := z\<rparr>)
      (s\<lparr>vmm := (vmm s)\<lparr>mem := mem_store (mem (vmm s)) (the_ptr (n_data (nodes s ! i)) + of_nat off) bs\<rparr>\<rparr>)"
  shows "store_inv t" and "storage_step i s t" and "n_size (nodes t ! i) = z"
    and "mem_load (mem (vmm t)) (the_ptr (n_data (nodes t ! i)) + of_nat off) (length bs) = bs"
    and "\<And>k. k \<le> off \<Longrightarrow> mem_load (mem (vmm t)) (the_ptr (n_data (nodes t ! i))) k =
        mem_load (mem (vmm s)) (the_ptr (n_data (nodes s ! i))) k"
    and "\<And>k l. off + length bs \<le> k \<Longrightarrow> k + l \<le> n_cap (nodes s ! i) \<Longrightarrow>
        mem_load (mem (vmm t)) (the_ptr (n_data (nodes t ! i)) + of_nat k) l =
        mem_load (mem (vmm s)) (the_ptr (n_data (nodes s ! i)) + of_nat k) l"
proof -
  let ?nd = "nodes s ! i"
  have ok: "store_ok ?nd" using inv i by (simp add: store_inv_def)
  have nodes: "nodes t = (nodes s)[i := ?nd\<lparr>n_size := z\<rparr>]" and fdst: "fds t = fds s"
    and mem: "mem (vmm t) = mem_store (mem (vmm s)) (the_ptr (n_data ?nd) + of_nat off) bs"
    and mmt: "mm_inv (vmm t) = mm_inv (vmm s)" "used_pages (vmm t) = used_pages (vmm s)"
    by (simp_all add: t)
  have nth: "nodes t ! i = ?nd\<lparr>n_size := z\<rparr>" using i by (simp add: nodes)
  then show "n_size (nodes t ! i) = z" by simp
  have own: "owned t = owned s"
    by (auto simp: owned_def nodes fun_eq_iff nth_list_update_if node_pages_def split: option.split)
  have "store_ok (?nd\<lparr>n_size := z\<rparr>)" using ok z by (auto simp: store_ok_def split: option.splits)
  then have "store_ok (nodes t ! k)" if "k < length (nodes s)" "n_used (nodes t ! k)" for k
    using inv that i by (cases "k = i") (auto simp: nodes store_inv_def)
  with inv show "store_inv t"
    by (simp add: store_inv_def mmt own) (simp add: nodes)
  have "mem (vmm t) x = mem (vmm s) x" if "j \<noteq> i" "in_pages (owned s j) x" for j x
  proof -
    have "\<not> in_pages (node_pages ?nd) x"
      using that owned_disjoint [OF inv that(1)] i by (auto simp: owned_def dest: in_pages_disjoint)
    with store_outside [OF ok fit] show ?thesis by (simp add: mem)
  qed
  then show "storage_step i s t"
    by (simp add: storage_step_def fdst same_shape_def nodes nth_list_update_if)
  have len: "length bs \<le> 2 ^ 32" using fit store_ok_cap [OF ok] by simp
  then show "mem_load (mem (vmm t)) (the_ptr (n_data (nodes t ! i)) + of_nat off) (length bs) = bs"
    by (simp add: nth mem mem_load_store)
  let ?d = "the_ptr (n_data ?nd)"
  have cap: "n_cap ?nd \<le> VFS_FILE_MAX" using ok by (simp add: store_ok_def)
  have apart: "disjoint_regions (?d + of_nat off) (length bs) (?d + of_nat k) l"
    if "k + l \<le> off \<or> off + length bs \<le> k" "k + l \<le> n_cap ?nd" for k l
    unfolding disjoint_regions_def
  proof (intro allI notI)
    fix x assume x: "in_region (?d + of_nat off) (length bs) x \<and> in_region (?d + of_nat k) l x"
    define y where "y = x - ?d"
    have *: "unat y = unat (z - of_nat o') + o'" if "unat (z - of_nat o') < r" "o' + r \<le> 65536" "y = z" for z :: u32 and o' r
    proof -
      define w where "w = z - of_nat o'"
      have "unat (of_nat o' :: u32) = o'" using that by (simp add: unat_of_nat)
      moreover have "unat w < r" using that by (simp add: w_def)
      ultimately have "unat (w + of_nat o') = unat w + o'" using that(2) by (simp add: unat_word_ariths)
      moreover have "y = w + of_nat o'" using that(3) by (simp add: w_def)
      ultimately show ?thesis by (simp add: w_def)
    qed
    have "unat (y - of_nat off) < length bs" "unat (y - of_nat k) < l"
      using x by (simp_all add: in_region_def y_def algebra_simps)
    with *[of y off "length bs"] *[of y k l] that fit cap
    show False by (simp add: VFS_FILE_MAX_def)
  qed
  have small: "k \<le> n_cap ?nd \<Longrightarrow> k \<le> 2 ^ 32" for k using store_ok_cap [OF ok] by simp
  show "mem_load (mem (vmm t)) (the_ptr (n_data (nodes t ! i))) k = mem_load (mem (vmm s)) ?d k" if "k \<le> off" for k
    using mem_load_store_other [OF apart [of 0 k] len small [of k]] that fit by (simp add: nth mem)
  show "mem_load (mem (vmm t)) (the_ptr (n_data (nodes t ! i)) + of_nat k) l = mem_load (mem (vmm s)) (?d + of_nat k) l"
    if "off + length bs \<le> k" "k + l \<le> n_cap ?nd" for k l
    using mem_load_store_other [OF apart [of k l] len small [of l]] that by (simp add: nth mem)
qed

lemma set_contents_grow:
  assumes ok: "store_ok (nodes s ! i)" and i: "i < length (nodes s)" "n_used (nodes s ! i)" "\<not> n_is_dir (nodes s ! i)"
    and n: "length bs \<le> VFS_FILE_MAX" "n_cap (nodes s ! i) < length bs"
    and al: "mm_alloc_pages (pages_for (length bs)) (vmm s) = (Some p, m)"
  shows "set_contents i bs s = (Inr (),
    (let t = regrow i p (pages_for (length bs)) (mem m) m s
     in upd_node i (\<lambda>x. x\<lparr>n_size := length bs\<rparr>)
      (t\<lparr>vmm := (vmm t)\<lparr>mem := mem_store (mem (vmm t)) (the_ptr (n_data (nodes t ! i))) bs\<rparr>\<rparr>)))"
proof -
  have "pages_for (n_cap (nodes s ! i)) = n_cap (nodes s ! i) div PAGE_SIZE"
    using ok pages_for_mult by (simp add: store_ok_def)
  with i n show ?thesis
    by (simp add: set_contents_def Let_def al regrow_def split: option.split)
qed

lemma set_contents_spec:
  assumes inv: "store_inv s" and i: "i < length (nodes s)" "n_used (nodes s ! i)" "\<not> n_is_dir (nodes s ! i)"
    and n: "length bs \<le> VFS_FILE_MAX"
  shows "(\<exists>t. set_contents i bs s = (Inr (), t) \<and> store_inv t \<and> storage_step i s t \<and> file_bytes t i = bs) \<or>
    (set_contents i bs s = (Inl VFS_ERR_NOSPC, s) \<and> n_cap (nodes s ! i) < length bs \<and>
     fst (mm_alloc_pages (pages_for (length bs)) (vmm s)) = None)"
proof (cases "n_cap (nodes s ! i) < length bs")
  case False
  let ?t = "upd_node i (\<lambda>x. x\<lparr>n_size := length bs\<rparr>)
    (s\<lparr>vmm := (vmm s)\<lparr>mem := mem_store (mem (vmm s)) (the_ptr (n_data (nodes s ! i)) + of_nat 0) bs\<rparr>\<rparr>)"
  have "set_contents i bs s = (Inr (), ?t)"
    using False i n by (simp add: set_contents_def Let_def)
  moreover have "0 + length bs \<le> n_cap (nodes s ! i)" "length bs \<le> n_cap (nodes s ! i)"
    using False by simp_all
  from put_bytes(1-4) [OF inv i(1,2) this refl]
  have "store_inv ?t" "storage_step i s ?t" "file_bytes ?t i = bs"
    by (simp_all add: file_bytes_def)
  ultimately show ?thesis by blast
next
  case True
  let ?n = "pages_for (length bs)"
  have ok: "store_ok (nodes s ! i)" using inv i by (simp add: store_inv_def)
  show ?thesis
  proof (cases "mm_alloc_pages ?n (vmm s)")
    case (Pair p m)
    show ?thesis
    proof (cases p)
      case None
      then have "set_contents i bs s = (Inl VFS_ERR_NOSPC, s)"
        using Pair True i n by (simp add: set_contents_def Let_def)
      then show ?thesis using None Pair True by simp
    next
      case (Some a)
      with Pair have al: "mm_alloc_pages ?n (vmm s) = (Some a, m)" by simp
      have b: "?n * PAGE_SIZE \<le> VFS_FILE_MAX" "length bs \<le> ?n * PAGE_SIZE"
        using pages_for_max [OF n] pages_for_bound [OF le_less_trans [OF le0 True]] by simp_all
      have sz: "n_size (nodes s ! i) \<le> ?n * PAGE_SIZE"
        using ok True b by (auto simp: store_ok_def)
      have mm: "mem m x = mem (vmm s) x" for x
        using mm_alloc_frame(1) [of ?n "vmm s"] al by simp
      let ?t = "regrow i a ?n (mem m) m s"
      note rg = regrow_spec(1,2,3) [OF inv i b(1) sz al mm]
      have it: "i < length (nodes ?t)" "n_used (nodes ?t ! i)"
        using i by (simp_all add: regrow_def)
      let ?u = "upd_node i (\<lambda>x. x\<lparr>n_size := length bs\<rparr>)
        (?t\<lparr>vmm := (vmm ?t)\<lparr>mem := mem_store (mem (vmm ?t)) (the_ptr (n_data (nodes ?t ! i)) + of_nat 0) bs\<rparr>\<rparr>)"
      have eq: "set_contents i bs s = (Inr (), ?u)"
        using set_contents_grow [OF ok i n True al] by (simp add: Let_def)
      have "0 + length bs \<le> n_cap (nodes ?t ! i)" "length bs \<le> n_cap (nodes ?t ! i)"
        using rg(3) b by simp_all
      note pb = put_bytes(1-4) [OF rg(1) it this refl]
      then have "file_bytes ?u i = bs" by (simp add: file_bytes_def)
      with eq pb(1) storage_step_trans [OF rg(2) pb(2)] show ?thesis by blast
    qed
  qed
qed

section \<open>The file system as a map from paths\<close>

datatype fsobj = Dir | File (file_data: "u8 list")

definition fs_abs :: "vfs \<Rightarrow> string list \<Rightarrow> fsobj option" where
  "fs_abs s ps =
     (if good_parts ps
      then map_option (\<lambda>i. if n_is_dir (nodes s ! i) then Dir else File (file_bytes s i)) (walk s root ps)
      else None)"

definition vfs_inv :: "vfs \<Rightarrow> bool" where
  "vfs_inv s \<longleftrightarrow> tree_inv s \<and> store_inv s \<and> length (fds s) = VFS_MAX_FD"

text \<open>Every open descriptor refers to a node in use; \<open>vfs_unlink\<close> is what breaks it.\<close>

definition fds_live :: "vfs \<Rightarrow> bool" where
  "fds_live s \<longleftrightarrow> (\<forall>f \<in> set (fds s). f_used f \<longrightarrow> f_node f < length (nodes s) \<and> n_used (nodes s ! f_node f))"

lemma fs_abs_node:
  assumes "tree_inv s" and "good_parts ps" and "walk s root ps = Some i"
  shows "fs_abs s ps = Some (if n_is_dir (nodes s ! i) then Dir else File (file_bytes s i))"
  using assms by (simp add: fs_abs_def)

lemma storage_step_abs:
  assumes inv: "vfs_inv s" and st: "storage_step i s t" and ps: "good_parts ps" "walk s root ps = Some i"
    and f: "\<not> n_is_dir (nodes s ! i)"
  shows "fs_abs t = (fs_abs s)(ps \<mapsto> File (file_bytes t i))"
proof (rule ext)
  fix qs
  from inv have tree: "tree_inv s" and store: "store_inv s" by (auto simp: vfs_inv_def)
  from st have shape: "same_shape s t" by (simp add: storage_step_def)
  have d: "n_is_dir (nodes t ! j) = n_is_dir (nodes s ! j)" for j
    using shape by (simp add: same_shape_def)
  show "fs_abs t qs = ((fs_abs s)(ps \<mapsto> File (file_bytes t i))) qs"
  proof (cases "qs = ps")
    case True
    then show ?thesis using ps f by (simp add: fs_abs_def same_shape_walk [OF shape] d)
  next
    case False
    have "file_bytes t j = file_bytes s j" if "good_parts qs" "walk s root qs = Some j" for j
    proof -
      have "j \<noteq> i" using walk_inj [OF tree that(2), of ps] ps that False by auto
      with storage_step_bytes [OF st store] walk_used [OF tree that(2,1)] show ?thesis by simp
    qed
    with False show ?thesis
      by (auto simp: fs_abs_def same_shape_walk [OF shape] d map_option_case split: option.split)
  qed
qed

lemma storage_step_inv: "vfs_inv s \<Longrightarrow> storage_step i s t \<Longrightarrow> store_inv t \<Longrightarrow> vfs_inv t"
  using same_shape_tree_inv by (auto simp: vfs_inv_def storage_step_def)

lemma storage_step_live: "fds_live s \<Longrightarrow> storage_step i s t \<Longrightarrow> fds_live t"
  by (simp add: fds_live_def storage_step_def same_shape_def)

subsection \<open>Linking and unlinking\<close>

lemma store_ok_children [simp]: "store_ok (nd\<lparr>n_children := cs\<rparr>) = store_ok nd"
  by (simp add: store_ok_def split: option.split)

lemma store_ok_blank [simp]: "store_ok (blank_node\<lparr>n_used := u, n_is_dir := d, n_parent := p, n_name := nm\<rparr>)"
  by (simp add: store_ok_def blank_node_def)

lemma link_storage:
  assumes lk: "linkable s q p i nm" and inv: "store_inv s"
  shows "store_inv (link_node p i nm d s)" and "vmm (link_node p i nm d s) = vmm s"
    and "fds (link_node p i nm d s) = fds s"
    and "\<And>j. j \<noteq> i \<Longrightarrow> n_data (nodes (link_node p i nm d s) ! j) = n_data (nodes s ! j) \<and>
        n_size (nodes (link_node p i nm d s) ! j) = n_size (nodes s ! j) \<and>
        n_is_dir (nodes (link_node p i nm d s) ! j) = n_is_dir (nodes s ! j) \<and>
        n_used (nodes (link_node p i nm d s) ! j) = n_used (nodes s ! j)"
    and "file_bytes (link_node p i nm d s) i = []"
proof -
  let ?t = "link_node p i nm d s"
  note nth = link_node_nth(1) [OF lk] and len = link_node_nth(5) [OF lk]
  have fi: "\<not> n_used (nodes s ! i)" "i < length (nodes s)" and ui: "n_used (nodes s ! p)"
    using lk link_node_nth(4) [OF lk] by (auto simp: linkable_def)
  show vmm: "vmm ?t = vmm s" and "fds ?t = fds s" by (simp_all add: link_node_def)
  show "n_data (nodes ?t ! j) = n_data (nodes s ! j) \<and> n_size (nodes ?t ! j) = n_size (nodes s ! j) \<and>
      n_is_dir (nodes ?t ! j) = n_is_dir (nodes s ! j) \<and> n_used (nodes ?t ! j) = n_used (nodes s ! j)" if "j \<noteq> i" for j
    using that by (simp add: nth)
  show "file_bytes ?t i = []" by (simp add: file_bytes_def nth blank_node_def)
  have "owned ?t j = owned s j" for j
    using fi by (auto simp: owned_def nth len node_pages_def blank_node_def split: option.split)
  then have own: "owned ?t = owned s" by (rule ext)
  have ok: "store_ok (nodes ?t ! j)" if "j < length (nodes s)" "n_used (nodes ?t ! j)" for j
    using inv that ui link_node_nth(2) [OF lk] by (cases "j = i"; cases "j = p") (auto simp: store_inv_def nth)
  show "store_inv ?t"
    using inv ok unfolding store_inv_def vmm own len by simp
qed

lemma link_abs:
  assumes lk: "linkable s q p i nm" and inv: "store_inv s"
  shows "fs_abs (link_node p i nm d s) = (fs_abs s)(q @ [nm] \<mapsto> (if d then Dir else File []))"
proof (rule ext)
  fix ps
  let ?t = "link_node p i nm d s"
  from lk have tree: "tree_inv s" and g: "good_parts (q @ [nm])" and fi: "\<not> n_used (nodes s ! i)"
    by (auto simp: linkable_def)
  show "fs_abs ?t ps = ((fs_abs s)(q @ [nm] \<mapsto> (if d then Dir else File []))) ps"
  proof (cases "ps = q @ [nm]")
    case True
    then show ?thesis
      using link_walk [OF lk g, of d] g link_storage(5) [OF lk inv, of d] link_node_nth(1) [OF lk, of d i]
      by (cases d) (simp_all add: fs_abs_def blank_node_def)
  next
    case False
    have "(if n_is_dir (nodes ?t ! j) then Dir else File (file_bytes ?t j)) =
      (if n_is_dir (nodes s ! j) then Dir else File (file_bytes s j))" if "good_parts ps" "walk s root ps = Some j" for j
    proof -
      have "j \<noteq> i" using walk_used [OF tree that(2,1)] fi by auto
      from link_storage(2,4) [OF lk inv] this show ?thesis by (simp add: file_bytes_def)
    qed
    with False link_walk [OF lk, of ps d] show ?thesis
      by (simp add: fs_abs_def map_option_case split: option.split)
  qed
qed

lemma link_inv:
  assumes lk: "linkable s q p i nm" and "vfs_inv s"
  shows "vfs_inv (link_node p i nm d s)"
  using assms link_tree_inv [OF lk] link_storage(1,3) [OF lk] by (simp add: vfs_inv_def)

lemma link_live:
  assumes lk: "linkable s q p i nm" and "vfs_inv s" and "fds_live s"
  shows "fds_live (link_node p i nm d s)"
proof -
  have "n_used (nodes (link_node p i nm d s) ! j)" if "n_used (nodes s ! j)" for j
    using that link_node_nth(1,4) [OF lk] blank_node_def by (simp add: link_node_nth(1) [OF lk])
  with assms link_storage(3) [OF lk] link_node_nth(5) [OF lk] show ?thesis
    by (simp add: fds_live_def vfs_inv_def)
qed

lemma unlink_storage:
  assumes ul: "unlinkable s q p i nm" and inv: "store_inv s"
  defines "t \<equiv> unlink_node p i (s\<lparr>vmm := (case n_data (nodes s ! i) of None \<Rightarrow> vmm s
      | Some a \<Rightarrow> mm_free_pages a (pages_for (n_cap (nodes s ! i))) (vmm s))\<rparr>)"
  shows "store_inv t" and "\<And>j. j \<noteq> i \<Longrightarrow> j < length (nodes s) \<Longrightarrow> n_used (nodes s ! j) \<Longrightarrow> file_bytes t j = file_bytes s j"
    and "used_pages (vmm t) = used_pages (vmm s) - node_pages (nodes s ! i)"
    and "nodes t = nodes (unlink_node p i s)"
proof -
  let ?nd = "nodes s ! i"
  note nth = unlink_node_nth [OF ul] and f = unlinkable_facts [OF ul]
  show nodes: "nodes t = nodes (unlink_node p i s)" by (simp add: t_def unlink_node_def)
  have ok: "store_ok ?nd" and mminv: "mm_inv (vmm s)" and own: "disjoint_owners (owned s) (used_pages (vmm s))"
    using inv f by (auto simp: store_inv_def)
  have own_i: "owned s i = node_pages ?nd" using f by (simp add: owned_def)
  have own_t: "owned t = (owned s)(i := {})"
    by (auto simp: fun_eq_iff owned_def nodes nth unlink_node_len node_pages_def split: option.split)
  have vmm: "vmm t = (case n_data ?nd of None \<Rightarrow> vmm s
      | Some a \<Rightarrow> mm_free_pages a (n_cap ?nd div PAGE_SIZE) (vmm s))"
    using ok pages_for_mult by (simp add: t_def unlink_node_def store_ok_def split: option.split)
  have "mm_inv (vmm t)" using mminv by (auto simp: vmm intro!: inv_intros split: option.split)
  have pages: "used_pages (vmm t) = used_pages (vmm s) - owned s i \<and>
      (\<forall>x. \<not> in_pages (owned s i) x \<longrightarrow> mem (vmm t) x = mem (vmm s) x)"
  proof (cases "n_data ?nd")
    case None
    then show ?thesis by (simp add: vmm own_i node_pages_def)
  next
    case (Some a)
    with ok have a: "page_addr (page_index a) = a" "page_index a + n_cap ?nd div PAGE_SIZE \<le> PAGE_COUNT"
      "0 < n_cap ?nd div PAGE_SIZE"
      by (auto simp: store_ok_def PAGE_SIZE_def)
    then have pk: "page_index a < PAGE_COUNT" by simp
    show ?thesis
      using kpages.release_pages [OF mminv pk] mm_free_mem [OF a(2) pk] in_region_in_pages [OF a(2)]
      by (simp add: vmm Some own_i node_pages_def a(1))
  qed
  then show "used_pages (vmm t) = used_pages (vmm s) - node_pages ?nd" by (simp add: own_i)
  have "disjoint_owners (owned t) (used_pages (vmm t))"
    using disjoint_owners_drop [OF own, of i] pages by (simp add: own_t)
  moreover have "store_ok (nodes t ! j)" if "j < length (nodes s)" "n_used (nodes t ! j)" for j
    using inv that f by (cases "j = i"; cases "j = p") (auto simp: store_inv_def nodes nth)
  ultimately show "store_inv t"
    using \<open>mm_inv (vmm t)\<close> by (simp add: store_inv_def nodes unlink_node_len)
  show "file_bytes t j = file_bytes s j" if j: "j \<noteq> i" "j < length (nodes s)" "n_used (nodes s ! j)" for j
  proof -
    have okj: "store_ok (nodes s ! j)" using inv j by (simp add: store_inv_def)
    have "\<not> in_pages (owned s i) x" if "in_pages (node_pages (nodes s ! j)) x" for x
      using that j owned_disjoint [OF inv j(1)] by (auto simp: owned_def [of s j] dest: in_pages_disjoint)
    with pages load_frame [OF okj, of 0 "n_size (nodes s ! j)" "mem (vmm t)" "mem (vmm s)"] okj j
    show ?thesis by (auto simp: file_bytes_def nodes nth store_ok_def)
  qed
qed

lemma unlink_abs:
  assumes ul: "unlinkable s q p i nm" and inv: "store_inv s"
    and nodes: "nodes t = nodes (unlink_node p i s)"
    and bytes: "\<And>j. j \<noteq> i \<Longrightarrow> j < length (nodes s) \<Longrightarrow> n_used (nodes s ! j) \<Longrightarrow> file_bytes t j = file_bytes s j"
  shows "fs_abs t = (fs_abs s)(q @ [nm] := None)"
proof (rule ext)
  fix ps
  from ul have tree: "tree_inv s" and g: "good_parts (q @ [nm])" and w: "walk s root (q @ [nm]) = Some i"
    by (auto simp: unlinkable_def)
  have "same_shape (unlink_node p i s) t" by (simp add: same_shape_def nodes)
  note walk_t = same_shape_walk [OF this]
  have obj: "(if n_is_dir (nodes t ! j) then Dir else File (file_bytes t j)) =
      (if n_is_dir (nodes s ! j) then Dir else File (file_bytes s j))"
    if "good_parts ps" "walk s root ps = Some j" "ps \<noteq> q @ [nm]" for j
  proof -
    have "j \<noteq> i" using walk_inj [OF tree that(2), of "q @ [nm]"] w that(1,3) g by auto
    with bytes [of j] walk_used [OF tree that(2,1)] show ?thesis by (simp add: nodes unlink_node_nth [OF ul])
  qed
  show "fs_abs t ps = ((fs_abs s)(q @ [nm] := None)) ps"
    using unlink_walk [OF ul, of ps] obj
    by (cases "ps = q @ [nm]") (simp_all add: fs_abs_def walk_t map_option_case split: option.split)
qed

section \<open>The operations on paths refine the map\<close>

lemma inv_parts: "vfs_inv s \<Longrightarrow> tree_inv s \<and> store_inv s"
  by (simp add: vfs_inv_def)

lemma fits_good: "path_fits path VFS_PATH_MAX \<Longrightarrow> good_parts (resolved path)"
  using resolved_good by (auto simp: path_fits_def)

lemma fs_abs_None: "good_parts ps \<Longrightarrow> fs_abs s ps = None \<longleftrightarrow> walk s root ps = None"
  by (simp add: fs_abs_def)

lemma mkdir_result:
  assumes inv: "vfs_inv s" and fits: "path_fits path VFS_PATH_MAX"
  shows "vfs_inv (snd (vfs_mkdir path s)) \<and>
    (case fst (vfs_mkdir path s) of
       Inl e \<Rightarrow> snd (vfs_mkdir path s) = s
     | Inr u \<Rightarrow> fs_abs s (resolved path) = None \<and>
         fs_abs (snd (vfs_mkdir path s)) = (fs_abs s)(resolved path \<mapsto> Dir))"
proof -
  from inv have tree: "tree_inv s" and store: "store_inv s" by (auto simp: vfs_inv_def)
  note spec = vfs_mkdir_spec [OF tree fits] and g = fits_good [OF fits]
  show ?thesis
  proof (cases "walk s root (resolved path)")
    case (Some j)
    with inv show ?thesis by (simp add: spec)
  next
    case None
    show ?thesis
    proof (cases "entry_slot (resolved path) s")
      case (Inl e)
      with None inv show ?thesis by (simp add: spec)
    next
      case (Inr r)
      obtain nm p i where r: "r = (nm, p, i)" by (cases r)
      from entry_slot_linkable [OF tree g None] Inr r
      obtain q where q: "resolved path = q @ [nm]" and lk: "linkable s q p i nm" by metis
      with None Inr r have "vfs_mkdir path s = (Inr (), link_node p i nm True s)" by (simp add: spec)
      then show ?thesis
        using link_inv [OF lk inv] link_abs [OF lk store, of True] None fs_abs_None [OF g] q by simp
    qed
  qed
qed

lemma mkdir_succeeds:
  assumes inv: "vfs_inv s" and fits: "path_fits path VFS_PATH_MAX" and new: "fs_abs s (resolved path) = None"
    and slot: "entry_slot (resolved path) s = Inr r"
  shows "fst (vfs_mkdir path s) = Inr ()"
  using vfs_mkdir_spec [OF _ fits, of s] inv new slot fs_abs_None [OF fits_good [OF fits], of s]
  by (simp add: vfs_inv_def split: prod.split)

lemma write_file_result:
  assumes inv: "vfs_inv s" and fits: "path_fits path VFS_PATH_MAX" and n: "length bs \<le> VFS_FILE_MAX"
  shows "vfs_inv (snd (vfs_write_file path bs s)) \<and> fds (snd (vfs_write_file path bs s)) = fds s \<and>
    (fds_live s \<longrightarrow> fds_live (snd (vfs_write_file path bs s))) \<and>
    (case fst (vfs_write_file path bs s) of
       Inr u \<Rightarrow> fs_abs s (resolved path) \<noteq> Some Dir \<and>
         fs_abs (snd (vfs_write_file path bs s)) = (fs_abs s)(resolved path \<mapsto> File bs)
     | Inl e \<Rightarrow> fs_abs (snd (vfs_write_file path bs s)) = fs_abs s \<or>
         e = VFS_ERR_NOSPC \<and> fs_abs s (resolved path) = None \<and>
         fs_abs (snd (vfs_write_file path bs s)) = (fs_abs s)(resolved path \<mapsto> File []))"
proof -
  from inv have tree: "tree_inv s" and store: "store_inv s" by (auto simp: vfs_inv_def)
  note g = fits_good [OF fits] and look = vfs_lookup_walk [OF fits, of s]
  show ?thesis
  proof (cases "walk s root (resolved path)")
    case (Some i)
    with walk_used [OF tree Some g] have i: "i < length (nodes s)" "n_used (nodes s ! i)" by auto
    have op: "vfs_write_file path bs s = set_contents i bs s" by (simp add: vfs_write_file_def look Some)
    show ?thesis
    proof (cases "n_is_dir (nodes s ! i)")
      case True
      then show ?thesis using inv by (simp add: op set_contents_def Let_def)
    next
      case False
      from set_contents_spec [OF store i False n] show ?thesis
      proof (elim disjE exE conjE)
        fix t assume "set_contents i bs s = (Inr (), t)" "store_inv t" "storage_step i s t" "file_bytes t i = bs"
        moreover from this have "fds t = fds s" by (simp add: storage_step_def)
        ultimately show ?thesis
          using storage_step_abs [OF inv _ g Some False, of t] storage_step_inv [OF inv, of i t]
            storage_step_live [of s i t] fs_abs_node [OF tree g Some] False
          by (simp add: op)
      qed (simp add: op inv)
    qed
  next
    case None
    then have op: "vfs_write_file path bs s = (case create_file path s of (Inl e, s1) \<Rightarrow> (Inl e, s1) | (Inr i, s1) \<Rightarrow> set_contents i bs s1)"
      by (simp add: vfs_write_file_def look)
    show ?thesis
    proof (cases "entry_slot (resolved path) s")
      case (Inl e)
      then show ?thesis using inv by (simp add: op create_file_spec [OF tree fits None])
    next
      case (Inr r)
      obtain nm p i where r: "r = (nm, p, i)" by (cases r)
      from entry_slot_linkable [OF tree g None] Inr r
      obtain q where q: "resolved path = q @ [nm]" and lk: "linkable s q p i nm" by metis
      let ?s = "link_node p i nm False s"
      have op': "vfs_write_file path bs s = set_contents i bs ?s"
        using Inr r by (simp add: op create_file_spec [OF tree fits None])
      have inv': "vfs_inv ?s" by (rule link_inv [OF lk inv])
      have i: "i < length (nodes ?s)" "n_used (nodes ?s ! i)" "\<not> n_is_dir (nodes ?s ! i)"
        using lk link_node_nth(1,5) [OF lk] by (simp_all add: blank_node_def linkable_def)
      have w: "walk ?s root (q @ [nm]) = Some i" "good_parts (q @ [nm])"
        using link_walk [OF lk, of "q @ [nm]"] g q by simp_all
      have abs: "fs_abs ?s = (fs_abs s)(resolved path \<mapsto> File [])"
        using link_abs [OF lk store, of False] q by simp
      have fd: "fds ?s = fds s" by (rule link_storage(3) [OF lk store])
      have live: "fds_live s \<Longrightarrow> fds_live ?s" by (rule link_live [OF lk inv])
      have no: "fs_abs s (resolved path) = None" using None fs_abs_None [OF g] by simp
      have store': "store_inv ?s" using inv' by (simp add: vfs_inv_def)
      from set_contents_spec [OF store' i n] show ?thesis
      proof (elim disjE exE conjE)
        fix t assume t: "set_contents i bs ?s = (Inr (), t)" "store_inv t" "storage_step i ?s t" "file_bytes t i = bs"
        then have "fds t = fds ?s" by (simp add: storage_step_def)
        then show ?thesis
          using t storage_step_abs [OF inv' t(3) w(2,1) i(3)] storage_step_inv [OF inv' t(3,2)]
            storage_step_live [OF _ t(3)] no abs fd live q
          by (simp add: op')
      qed (use no abs fd live inv' in \<open>simp add: op'\<close>)
    qed
  qed
qed

lemma read_file_result:
  assumes inv: "vfs_inv s" and fits: "path_fits path VFS_PATH_MAX"
  shows "vfs_read_file path n s =
    (case fs_abs s (resolved path) of
       None \<Rightarrow> Inl VFS_ERR_NOENT | Some Dir \<Rightarrow> Inl VFS_ERR_ISDIR | Some (File bs) \<Rightarrow> Inr (take n bs))"
proof (cases "walk s root (resolved path)")
  case None
  then show ?thesis
    using fs_abs_None [OF fits_good [OF fits], of s] by (simp add: vfs_read_file_def vfs_lookup_walk [OF fits])
next
  case (Some i)
  have "take n [0..<k] = [0..<min k n]" for k
    by (cases "n \<le> k") (simp_all add: min_def)
  then have "mem_load m a (min k n) = take n (mem_load m a k)" for m a k
    by (simp add: mem_load_map take_map)
  with Some show ?thesis
    using fits_good [OF fits]
    by (simp add: vfs_read_file_def vfs_lookup_walk [OF fits] Let_def fs_abs_def file_bytes_def)
qed

definition protected :: "string list \<Rightarrow> bool" where
  "protected ps \<longleftrightarrow> ps = [] \<or> ps = [''sys''] \<or> ps = [''disk'']"

definition empty_at :: "vfs \<Rightarrow> string list \<Rightarrow> bool" where
  "empty_at s ps \<longleftrightarrow> (\<forall>nm. fs_abs s (ps @ [nm]) = None)"

lemma node_empty_at:
  assumes "tree_inv s" and "good_parts ps" and "walk s root ps = Some i"
  shows "empty_at s ps \<longleftrightarrow> n_children (nodes s ! i) = []"
proof -
  have i: "i < length (nodes s)" "n_used (nodes s ! i)" using walk_used [OF assms(1,3,2)] by auto
  have l: "node_links s i" by (rule tree_inv_links [OF assms(1) i])
  show ?thesis
  proof
    assume e: "empty_at s ps"
    show "n_children (nodes s ! i) = []"
    proof (rule ccontr)
      assume "n_children (nodes s ! i) \<noteq> []"
      then obtain c where c: "c \<in> set (n_children (nodes s ! i))" by (cases "n_children (nodes s ! i)") auto
      let ?nm = "n_name (nodes s ! c)"
      have g: "good_part ?nm" using node_links_child [OF l c] by simp
      then have "find_child s i ?nm = Some c" using find_child_Some [OF l, of ?nm c] c by (simp add: good_part_def)
      moreover have "n_is_dir (nodes s ! i)" using l c by (auto simp: node_links_def Let_def)
      ultimately have "fs_abs s (ps @ [?nm]) \<noteq> None"
        using assms g by (simp add: fs_abs_def walk_snoc)
      with e show False by (simp add: empty_at_def)
    qed
  next
    assume "n_children (nodes s ! i) = []"
    then have "find_child s i nm = None" for nm by (simp add: find_child_def first_from_None)
    then show "empty_at s ps" using assms by (simp add: empty_at_def fs_abs_def walk_snoc)
  qed
qed

lemma unlink_result:
  assumes inv: "vfs_inv s" and fits: "path_fits path VFS_PATH_MAX"
  shows "vfs_inv (snd (vfs_unlink path s)) \<and>
    (fst (vfs_unlink path s) = Inr () \<longleftrightarrow>
       fs_abs s (resolved path) \<noteq> None \<and> \<not> protected (resolved path) \<and> empty_at s (resolved path)) \<and>
    (case fst (vfs_unlink path s) of
       Inl e \<Rightarrow> snd (vfs_unlink path s) = s
     | Inr u \<Rightarrow> fs_abs (snd (vfs_unlink path s)) = (fs_abs s)(resolved path := None))"
proof (cases "walk s root (resolved path)")
  case None
  then show ?thesis
    using inv fs_abs_None [OF fits_good [OF fits], of s] by (simp add: vfs_unlink_def vfs_lookup_walk [OF fits])
next
  case (Some i)
  from inv have tree: "tree_inv s" and store: "store_inv s" by (auto simp: vfs_inv_def)
  note g = fits_good [OF fits] and look = vfs_lookup_walk [OF fits, of s]
  have some: "fs_abs s (resolved path) \<noteq> None" using fs_abs_None [OF g, of s] Some by simp
  note empty = node_empty_at [OF tree g Some]
  show ?thesis
  proof (cases "resolved path" rule: rev_cases)
    case Nil
    with Some have "i = root" by simp
    with Nil inv show ?thesis by (simp add: vfs_unlink_def look Some protected_def Let_def)
  next
    case (snoc q nm)
    from walk_last [OF tree, of q nm i] Some g snoc
    obtain p where p: "walk s root q = Some p" "n_name (nodes s ! i) = nm" "n_parent (nodes s ! i) = Some p"
      "i \<noteq> root" "n_is_dir (nodes s ! p)" "p < length (nodes s)" "n_used (nodes s ! p)"
      by (metis (no_types))
    have gq: "good_parts q" "no_nul nm" using g snoc by (auto simp: good_part_def)
    have "p = root \<longleftrightarrow> q = []"
      using walk_inj [OF tree p(1), of "[]"] gq p(1) by auto
    then have prot: "(p = root \<and> (kstrcmp nm ''sys'' = 0 \<or> kstrcmp nm ''disk'' = 0)) \<longleftrightarrow> protected (resolved path)"
      using gq snoc by (auto simp: protected_def kstrcmp_lit)
    have isfile: "\<not> n_is_dir (nodes s ! i) \<Longrightarrow> n_children (nodes s ! i) = []"
      using walk_used [OF tree Some g] tree_inv_links [OF tree, of i] by (auto simp: node_links_def Let_def)
    show ?thesis
    proof (cases "protected (resolved path) \<or> n_children (nodes s ! i) \<noteq> []")
      case True
      then have "vfs_unlink path s = (Inl VFS_ERR_INVAL, s)"
        using isfile prot p by (auto simp: vfs_unlink_def look Some Let_def)
      with True inv empty show ?thesis by auto
    next
      case False
      then have ul: "unlinkable s q p i nm"
        using tree g snoc p Some by (simp add: unlinkable_def)
      let ?t = "unlink_node p i (s\<lparr>vmm := (case n_data (nodes s ! i) of None \<Rightarrow> vmm s
          | Some a \<Rightarrow> mm_free_pages a (pages_for (n_cap (nodes s ! i))) (vmm s))\<rparr>)"
      note st = unlink_storage [OF ul store]
      have eq: "vfs_unlink path s = (Inr (), ?t)"
        using False prot p by (cases "n_data (nodes s ! i)") (auto simp: vfs_unlink_def look Some Let_def unlink_node_def)
      have "same_shape (unlink_node p i s) ?t" by (simp add: same_shape_def st(4))
      from same_shape_tree_inv [OF this unlink_tree_inv [OF ul]] st(1)
      have "vfs_inv ?t" using inv by (simp add: vfs_inv_def unlink_node_def)
      moreover have "fs_abs ?t = (fs_abs s)(resolved path := None)"
        using unlink_abs [OF ul store st(4) st(2)] snoc by simp
      ultimately show ?thesis using eq False some empty by simp
    qed
  qed
qed

section \<open>Descriptors\<close>

lemma record_mem_id: "s\<lparr>vmm := (vmm s)\<lparr>mem := mem (vmm s)\<rparr>\<rparr> = s"
  by simp

lemma truncate_node:
  assumes inv: "vfs_inv s" and i: "i < length (nodes s)" "n_used (nodes s ! i)"
  shows "store_inv (upd_node i (\<lambda>n. n\<lparr>n_size := 0\<rparr>) s)" and "storage_step i s (upd_node i (\<lambda>n. n\<lparr>n_size := 0\<rparr>) s)"
    and "file_bytes (upd_node i (\<lambda>n. n\<lparr>n_size := 0\<rparr>) s) i = []"
proof -
  have store: "store_inv s" using inv by (simp add: vfs_inv_def)
  have eq: "upd_node i (\<lambda>n. n\<lparr>n_size := 0\<rparr>) s = upd_node i (\<lambda>n. n\<lparr>n_size := 0\<rparr>)
      (s\<lparr>vmm := (vmm s)\<lparr>mem := mem_store (mem (vmm s)) (the_ptr (n_data (nodes s ! i)) + of_nat 0) []\<rparr>\<rparr>)"
    by simp
  have "0 + length ([] :: u8 list) \<le> n_cap (nodes s ! i)" "0 \<le> n_cap (nodes s ! i)" by simp_all
  from put_bytes(1-2) [OF store i this eq]
  show "store_inv (upd_node i (\<lambda>n. n\<lparr>n_size := 0\<rparr>) s)" and "storage_step i s (upd_node i (\<lambda>n. n\<lparr>n_size := 0\<rparr>) s)"
    by simp_all
  show "file_bytes (upd_node i (\<lambda>n. n\<lparr>n_size := 0\<rparr>) s) i = []"
    using i by (simp add: file_bytes_def)
qed

lemma grow_node_spec:
  assumes inv: "store_inv s" and i: "i < length (nodes s)" "n_used (nodes s ! i)" "\<not> n_is_dir (nodes s ! i)"
    and need: "need \<le> VFS_FILE_MAX"
  shows "(\<exists>t. grow_node i need s = Some t \<and> store_inv t \<and> storage_step i s t \<and> need \<le> n_cap (nodes t ! i) \<and>
      n_size (nodes t ! i) = n_size (nodes s ! i) \<and> file_bytes t i = file_bytes s i) \<or>
    (grow_node i need s = None \<and> fst (mm_alloc_pages (pages_for need) (vmm s)) = None)"
proof (cases "n_cap (nodes s ! i) < need")
  case False
  then have "grow_node i need s = Some s" by (simp add: grow_node_def Let_def)
  then show ?thesis using inv False by (auto simp: storage_step_def)
next
  case True
  let ?n = "pages_for need" and ?nd = "nodes s ! i"
  have ok: "store_ok ?nd" using inv i by (simp add: store_inv_def)
  have nc: "?n * PAGE_SIZE div PAGE_SIZE = ?n" by (simp add: PAGE_SIZE_def)
  show ?thesis
  proof (cases "mm_alloc_pages ?n (vmm s)")
    case (Pair p m)
    show ?thesis
    proof (cases p)
      case None
      then show ?thesis using Pair True nc by (simp add: grow_node_def Let_def)
    next
      case (Some a)
      with Pair have al: "mm_alloc_pages ?n (vmm s) = (Some a, m)" by simp
      have b: "?n * PAGE_SIZE \<le> VFS_FILE_MAX" "need \<le> ?n * PAGE_SIZE"
        using pages_for_max [OF need] pages_for_bound [OF le_less_trans [OF le0 True]] by simp_all
      have sz: "n_size ?nd \<le> ?n * PAGE_SIZE" using ok True b by (auto simp: store_ok_def)
      have mm: "mem m = mem (vmm s)" using mm_alloc_frame(1) [of ?n "vmm s"] al by simp
      define old where "old = the_ptr (n_data ?nd)"
      define bs where "bs = mem_load (mem (vmm s)) old (n_size ?nd)"
      define M where "M = (if n_data ?nd \<noteq> None \<and> n_size ?nd \<noteq> 0 then kmemcpy (mem m) a old (n_size ?nd) else mem m)"
      have lenbs: "length bs = n_size ?nd" by (simp add: bs_def mem_load_map)
      have small: "n_size ?nd \<le> 2 ^ 32" "n_size ?nd \<le> n_cap ?nd"
        using ok store_ok_cap [OF ok] by (auto simp: store_ok_def)
      note apart = regrow_spec(5) [OF inv i b(1) sz al, of "mem (vmm s)"]
      have M: "M = mem_store (mem (vmm s)) a bs"
      proof (cases "n_data ?nd \<noteq> None \<and> n_size ?nd \<noteq> 0")
        case True
        then obtain o' where o': "n_data ?nd = Some o'" by auto
        have "a + of_nat j \<noteq> old + of_nat k" if "j < k" "k < n_size ?nd" for j k
        proof
          assume eq: "a + of_nat j = old + of_nat k"
          have "in_region o' (n_cap ?nd) (o' + of_nat k)"
            using that small store_ok_cap [OF ok] by (simp add: in_region_def unat_of_nat)
          with store_ok_region [OF ok o'] have "in_pages (owned s i) (old + of_nat k)"
            using i by (simp add: owned_def old_def o' the_ptr_def)
          moreover have "in_region a (?n * PAGE_SIZE) (a + of_nat j)"
            using that small sz by (simp add: in_region_def unat_of_nat)
          ultimately show False using apart eq by auto
        qed
        then show ?thesis
          using True kmemcpy_load_store [OF small(1)] by (simp add: M_def bs_def mm)
      next
        case False
        with ok have "n_size ?nd = 0" by (auto simp: store_ok_def)
        then show ?thesis using False by (simp add: M_def bs_def mm)
      qed
      have fr: "M x = mem (vmm s) x" if "\<not> in_region a (?n * PAGE_SIZE) x" for x
        using that in_region_mono [of a "length bs" x "?n * PAGE_SIZE"] sz small by (auto simp: M mem_store_apply lenbs)
      let ?t = "regrow i a ?n M m s"
      note rg = regrow_spec(1-4) [OF inv i b(1) sz al fr]
      have "grow_node i need s = Some ?t"
        using True nc al by (cases "n_data ?nd") (simp_all add: grow_node_def Let_def regrow_def M_def old_def cong: if_cong)
      moreover have "file_bytes ?t i = file_bytes s i"
      proof -
        have "mem_load (mem (vmm ?t)) a (n_size ?nd) = mem_load M a (n_size ?nd)"
          using small rg(4) in_region_mono [of a "n_size ?nd" _ "?n * PAGE_SIZE"] sz by (intro mem_load_frame) auto
        also have "\<dots> = bs" using mem_load_store [of bs] small by (simp add: M lenbs)
        finally show ?thesis using rg(3) by (simp add: file_bytes_def the_ptr_def bs_def old_def)
      qed
      ultimately show ?thesis using rg(1-3) b by auto
    qed
  qed
qed

lemma fds_update_inv: "vfs_inv (s\<lparr>fds := f\<rparr>) \<longleftrightarrow> vfs_inv s \<and> length f = VFS_MAX_FD" if "length (fds s) = VFS_MAX_FD"
proof -
  have "same_shape s (s\<lparr>fds := f\<rparr>)" "same_shape (s\<lparr>fds := f\<rparr>) s" by (simp_all add: same_shape_def)
  then have "tree_inv (s\<lparr>fds := f\<rparr>) = tree_inv s" using same_shape_tree_inv by blast
  moreover have "owned (s\<lparr>fds := f\<rparr>) = owned s" by (simp add: owned_def fun_eq_iff)
  ultimately show ?thesis using that by (simp add: vfs_inv_def store_inv_def)
qed

lemma fds_update_abs: "fs_abs (s\<lparr>fds := f\<rparr>) = fs_abs s"
proof -
  have "same_shape s (s\<lparr>fds := f\<rparr>)" by (simp add: same_shape_def)
  note walks = same_shape_walk [OF this]
  have bytes: "file_bytes (s\<lparr>fds := f\<rparr>) i = file_bytes s i" for i by (simp add: file_bytes_def)
  show ?thesis by (rule ext) (simp add: fs_abs_def walks bytes cong: if_cong)
qed

lemma fds_update_live:
  assumes "fds_live s" and "f_used F \<longrightarrow> f_node F < length (nodes s) \<and> n_used (nodes s ! f_node F)"
  shows "fds_live (s\<lparr>fds := (fds s)[k := F]\<rparr>)"
  using assms set_update_subset_insert [of "fds s" k F] by (auto simp: fds_live_def)

lemma fds_update_bytes: "file_bytes (s\<lparr>fds := f\<rparr>) i = file_bytes s i"
  by (simp add: file_bytes_def)

lemma read_result:
  assumes inv: "vfs_inv s" and fd: "fd_ok s fd" and flag: "has_flag (f_flags (fds s ! nat fd)) VFS_O_READ"
    and i: "i = f_node (fds s ! nat fd)" and f: "\<not> n_is_dir (nodes s ! i)"
  shows "vfs_read fd n s =
    (let got = take n (drop (f_offset (fds s ! nat fd)) (file_bytes s i))
     in (Inr got, upd_fd (nat fd) (\<lambda>f. f\<lparr>f_offset := f_offset f + length got\<rparr>) s))"
proof -
  let ?o = "f_offset (fds s ! nat fd)" and ?z = "n_size (nodes s ! i)"
  have len: "length (file_bytes s i) = ?z" by (simp add: file_bytes_def mem_load_map)
  show ?thesis
  proof (cases "?z \<le> ?o")
    case True
    then have "drop ?o (file_bytes s i) = []" using len by simp
    with True show ?thesis using fd flag f i by (simp add: vfs_read_def Let_def)
  next
    case False
    let ?k = "min n (?z - ?o)"
    have "file_bytes s i = mem_load (mem (vmm s)) (the_ptr (n_data (nodes s ! i))) (?o + (?k + (?z - ?o - ?k)))"
      using False by (simp add: file_bytes_def)
    then have "take ?k (drop ?o (file_bytes s i)) =
        mem_load (mem (vmm s)) (the_ptr (n_data (nodes s ! i)) + of_nat ?o) ?k"
      by (simp only: mem_load_append) (simp add: mem_load_map)
    moreover have "take n (drop ?o (file_bytes s i)) = take ?k (drop ?o (file_bytes s i))"
      using len by (simp add: min_def)
    moreover have "length (take n (drop ?o (file_bytes s i))) = ?k" using len by (simp add: min.commute)
    ultimately show ?thesis
      using False fd flag f i by (simp add: vfs_read_def Let_def)
  qed
qed

lemma write_result:
  assumes inv: "vfs_inv s" and fd: "fd_ok s fd" and flag: "has_flag (f_flags (fds s ! nat fd)) VFS_O_WRITE"
    and i: "i = f_node (fds s ! nat fd)" "i < length (nodes s)" "n_used (nodes s ! i)" and f: "\<not> n_is_dir (nodes s ! i)"
    and off: "off = f_offset (fds s ! nat fd)" "off \<le> n_size (nodes s ! i)" and fit: "off + length bs \<le> VFS_FILE_MAX"
  shows "(\<exists>t. vfs_write fd bs s =
      (Inr (length bs), t\<lparr>fds := (fds s)[nat fd := (fds s ! nat fd)\<lparr>f_offset := off + length bs\<rparr>]\<rparr>) \<and>
      store_inv t \<and> storage_step i s t \<and> file_bytes t i = overwrite (file_bytes s i) off bs) \<or>
    vfs_write fd bs s = (Inl VFS_ERR_NOSPC, s)"
proof -
  let ?need = "off + length bs"
  have need: "?need mod 2 ^ 32 = ?need" using fit by (simp add: VFS_FILE_MAX_def)
  have store: "store_inv s" using inv by (simp add: vfs_inv_def)
  from grow_node_spec [OF store i(2,3) f fit] show ?thesis
  proof (elim disjE exE conjE)
    assume "grow_node i ?need s = None"
    then have "vfs_write fd bs s = (Inl VFS_ERR_NOSPC, s)"
      using fd flag f i(1) off(1) need by (simp add: vfs_write_def Let_def)
    then show ?thesis by simp
  next
    fix g assume g: "grow_node i ?need s = Some g" "store_inv g" "storage_step i s g" "?need \<le> n_cap (nodes g ! i)"
      "n_size (nodes g ! i) = n_size (nodes s ! i)" "file_bytes g i = file_bytes s i"
    have gi: "i < length (nodes g)" "n_used (nodes g ! i)" "\<not> n_is_dir (nodes g ! i)" and gf: "fds g = fds s"
      using g(3) i f by (auto simp: storage_step_def same_shape_def)
    let ?z = "max (n_size (nodes g ! i)) ?need"
    have ok: "store_ok (nodes g ! i)" using g(2) gi by (simp add: store_inv_def)
    then have zc: "?z \<le> n_cap (nodes g ! i)" using g(4) by (simp add: store_ok_def)
    let ?d = "the_ptr (n_data (nodes g ! i))"
    let ?t = "upd_node i (\<lambda>x. x\<lparr>n_size := ?z\<rparr>) (g\<lparr>vmm := (vmm g)\<lparr>mem := mem_store (mem (vmm g)) (?d + of_nat off) bs\<rparr>\<rparr>)"
    note pb = put_bytes [OF g(2) gi(1,2) g(4) zc refl]
    have nd: "nodes ?t ! i = (nodes g ! i)\<lparr>n_size := ?z\<rparr>" using gi by simp
    have idt: "(nodes g)[i := (nodes g ! i)\<lparr>n_size := n_size (nodes g ! i)\<rparr>] = nodes g" by simp
    have eq: "vfs_write fd bs s = (Inr (length bs), ?t\<lparr>fds := (fds s)[nat fd := (fds s ! nat fd)\<lparr>f_offset := ?need\<rparr>]\<rparr>)"
      using fd flag f i(1) off(1) need fit g(1) gf by (simp add: vfs_write_def Let_def max_def idt)
    have "file_bytes ?t i = overwrite (file_bytes s i) off bs"
    proof -
      let ?m = "mem (vmm ?t)" and ?old = "n_size (nodes g ! i)"
      have off': "off \<le> ?old" using off(2) g(5) by simp
      have old: "file_bytes s i = mem_load (mem (vmm g)) ?d ?old" using g(6) by (simp add: file_bytes_def)
      have zz: "off + (length bs + (?z - ?need)) = ?z"
        using le_add_diff_inverse [of ?need ?z] by (simp only: add.assoc max.cobounded2)
      have "file_bytes ?t i = mem_load ?m ?d (off + (length bs + (?z - ?need)))"
        unfolding zz using nd by (simp add: file_bytes_def)
      also have "\<dots> = mem_load ?m ?d off @ mem_load ?m (?d + of_nat off) (length bs) @
          mem_load ?m (?d + of_nat ?need) (?z - ?need)"
        by (simp only: mem_load_append) (simp add: add.assoc)
      also have "mem_load ?m ?d off = take off (file_bytes s i)"
        using pb(5) [of off] nd old off' mem_load_append [of "mem (vmm g)" ?d off "?old - off"] by (simp add: mem_load_map)
      also have "mem_load ?m (?d + of_nat off) (length bs) = bs" using pb(4) nd by simp
      also have "mem_load ?m (?d + of_nat ?need) (?z - ?need) = drop ?need (file_bytes s i)"
      proof (cases "?old \<le> ?need")
        case True
        then show ?thesis by (simp add: old mem_load_map)
      next
        case False
        then have "mem_load ?m (?d + of_nat ?need) (?z - ?need) = mem_load (mem (vmm g)) (?d + of_nat ?need) (?old - ?need)"
          using pb(6) [of ?need "?old - ?need"] nd zc by simp
        moreover have "mem_load (mem (vmm g)) ?d ?old = mem_load (mem (vmm g)) ?d ?need @ mem_load (mem (vmm g)) (?d + of_nat ?need) (?old - ?need)"
          using mem_load_append [of "mem (vmm g)" ?d ?need "?old - ?need"] False by simp
        ultimately show ?thesis by (simp add: old mem_load_map)
      qed
      finally show ?thesis by (simp add: overwrite_def)
    qed
    with eq pb(1) storage_step_trans [OF g(3) pb(2)] show ?thesis by blast
  qed
qed

definition open_abs :: "u32 \<Rightarrow> (string list \<Rightarrow> fsobj option) \<Rightarrow> string list \<Rightarrow> string list \<Rightarrow> fsobj option" where
  "open_abs flags m ps =
     (case m ps of None \<Rightarrow> m(ps \<mapsto> File [])
      | Some Dir \<Rightarrow> m
      | Some (File bs) \<Rightarrow>
          if has_flag flags VFS_O_TRUNC \<and> has_flag flags VFS_O_WRITE then m(ps \<mapsto> File []) else m)"

text \<open>The second half of \<open>vfs_open\<close>, for a node that is there.\<close>

definition open_node :: "u32 \<Rightarrow> nat \<Rightarrow> vfs \<Rightarrow> (vfs_err + nat) \<times> vfs" where
  "open_node flags i s1 =
     (if n_is_dir (nodes s1 ! i) \<and> \<not> has_flag flags VFS_O_DIR then (Inl VFS_ERR_ISDIR, s1)
      else
        let s2 = (if has_flag flags VFS_O_TRUNC \<and> has_flag flags VFS_O_WRITE \<and> \<not> n_is_dir (nodes s1 ! i)
                  then upd_node i (\<lambda>n. n\<lparr>n_size := 0\<rparr>) s1 else s1)
        in case alloc_fd s2 of
             None \<Rightarrow> (Inl VFS_ERR_NOSPC, s2)
           | Some fd \<Rightarrow>
               (Inr fd, s2\<lparr>fds := (fds s2)[fd :=
                  \<lparr>f_used = True, f_node = i,
                   f_offset = (if has_flag flags VFS_O_APPEND then n_size (nodes s2 ! i) else 0),
                   f_flags = flags\<rparr>]\<rparr>))"

definition opened_at :: "u32 \<Rightarrow> string list \<Rightarrow> vfs \<Rightarrow> nat \<Rightarrow> vfs \<Rightarrow> bool" where
  "opened_at flags ps s fd t \<longleftrightarrow>
     3 \<le> fd \<and> fd < VFS_MAX_FD \<and> \<not> f_used (fds s ! fd) \<and>
     (\<exists>i. walk t root ps = Some i \<and>
        fds t = (fds s)[fd := \<lparr>f_used = True, f_node = i,
          f_offset = (if has_flag flags VFS_O_APPEND then n_size (nodes t ! i) else 0), f_flags = flags\<rparr>])"

lemma open_node_result:
  assumes inv: "vfs_inv s" and g: "good_parts ps" and w: "walk s root ps = Some i"
  shows "vfs_inv (snd (open_node flags i s)) \<and> (fds_live s \<longrightarrow> fds_live (snd (open_node flags i s))) \<and>
    (fs_abs (snd (open_node flags i s)) = fs_abs s \<or> fs_abs (snd (open_node flags i s)) = open_abs flags (fs_abs s) ps) \<and>
    (\<forall>fd. fst (open_node flags i s) = Inr fd \<longrightarrow>
       fs_abs (snd (open_node flags i s)) = open_abs flags (fs_abs s) ps \<and>
       opened_at flags ps s fd (snd (open_node flags i s)))"
proof (cases "n_is_dir (nodes s ! i) \<and> \<not> has_flag flags VFS_O_DIR")
  case True
  then show ?thesis using inv by (simp add: open_node_def)
next
  case False
  from inv have tree: "tree_inv s" by (simp add: vfs_inv_def)
  have i: "i < length (nodes s)" "n_used (nodes s ! i)" using walk_used [OF tree w g] by auto
  define u where "u = (if has_flag flags VFS_O_TRUNC \<and> has_flag flags VFS_O_WRITE \<and> \<not> n_is_dir (nodes s ! i)
    then upd_node i (\<lambda>n. n\<lparr>n_size := 0\<rparr>) s else s)"
  note tr = truncate_node [OF inv i]
  have s2: "vfs_inv u" "fds u = fds s" "fds_live s \<Longrightarrow> fds_live u" "walk u root ps = Some i"
    "i < length (nodes u)" "n_used (nodes u ! i)" "fs_abs u = open_abs flags (fs_abs s) ps"
    unfolding u_def
    using storage_step_inv [OF inv tr(2,1)] inv tr(2) storage_step_live [OF _ tr(2)] i
      same_shape_walk [of s "upd_node i (\<lambda>n. n\<lparr>n_size := 0\<rparr>) s" root ps] w fs_abs_node [OF tree g w]
      storage_step_abs [OF inv tr(2) g w] tr(3)
    by (auto simp: storage_step_def open_abs_def)
  have op: "open_node flags i s = (case alloc_fd u of
             None \<Rightarrow> (Inl VFS_ERR_NOSPC, u)
           | Some fd \<Rightarrow>
               (Inr fd, u\<lparr>fds := (fds u)[fd :=
                  \<lparr>f_used = True, f_node = i,
                   f_offset = (if has_flag flags VFS_O_APPEND then n_size (nodes u ! i) else 0),
                   f_flags = flags\<rparr>]\<rparr>))"
    unfolding open_node_def u_def if_not_P [OF False] Let_def by (rule refl)
  have len: "length (fds s) = VFS_MAX_FD" using inv by (simp add: vfs_inv_def)
  show ?thesis
  proof (cases "alloc_fd u")
    case None
    with s2 show ?thesis by (simp add: op)
  next
    case (Some fd)
    then have fd: "3 \<le> fd" "fd < VFS_MAX_FD" "\<not> f_used (fds s ! fd)"
      using first_from_Some [of _ "fds s" 3 fd] s2(2) len by (auto simp: alloc_fd_def)
    let ?F = "\<lparr>f_used = True, f_node = i,
      f_offset = (if has_flag flags VFS_O_APPEND then n_size (nodes u ! i) else 0), f_flags = flags\<rparr>"
    let ?t = "u\<lparr>fds := (fds u)[fd := ?F]\<rparr>"
    have eq: "open_node flags i s = (Inr fd, ?t)" using Some by (simp add: op)
    have "vfs_inv ?t" using s2(1,2) len fds_update_inv [of u "(fds u)[fd := ?F]"] by simp
    moreover have "fds_live ?t" if "fds_live s"
      using fds_update_live [OF s2(3) [OF that], of ?F fd] s2(5,6) by simp
    moreover have "fs_abs ?t = open_abs flags (fs_abs s) ps" by (simp only: fds_update_abs s2(7))
    moreover have "same_shape u ?t" by (simp add: same_shape_def)
    then have "walk ?t root ps = Some i" using s2(4) by (simp only: same_shape_walk)
    then have "opened_at flags ps s fd ?t" using fd s2(2) by (simp add: opened_at_def)
    ultimately show ?thesis unfolding eq by simp
  qed
qed

end
