(* ===== verification/VfsSpec.thy ===== *)
theory VfsSpec
  imports VfsData
begin

text \<open>
  The contract of the ramfs: the state \<open>vfs_init\<close> builds, and each operation of \<^verbatim>\<open>kernel/fs/vfs.c\<close> as a
  step on the map from paths to directories and byte strings.
\<close>

section \<open>The first state\<close>

definition bare_root :: "mm \<Rightarrow> vfs" where
  "bare_root m = \<lparr>vmm = m,
     nodes = (replicate VFS_MAX_NODES blank_node)
       [root := blank_node\<lparr>n_used := True, n_is_dir := True, n_name := ''/''\<rparr>],
     fds = replicate VFS_MAX_FD blank_fd\<rparr>"

lemma vfs_init_bare: "vfs_init m = snd (vfs_mkdir ''/disk'' (snd (vfs_mkdir ''/sys'' (bare_root m))))"
  by (simp add: vfs_init_def bare_root_def Let_def)

lemma bare_root_nth:
  "i < VFS_MAX_NODES \<Longrightarrow> nodes (bare_root m) ! i =
     (if i = root then blank_node\<lparr>n_used := True, n_is_dir := True, n_name := ''/''\<rparr> else blank_node)"
  by (simp add: bare_root_def nth_list_update_if root_def)

lemma bare_root_inv:
  assumes "mm_inv m"
  shows "vfs_inv (bare_root m)"
proof -
  have r: "root < VFS_MAX_NODES" by (simp add: root_def VFS_MAX_NODES_def)
  have len: "length (nodes (bare_root m)) = VFS_MAX_NODES" by (simp add: bare_root_def)
  have used: "n_used (nodes (bare_root m) ! i) \<longleftrightarrow> i = root" if "i < VFS_MAX_NODES" for i
    using that by (simp add: bare_root_nth blank_node_def)
  have "node_links (bare_root m) root"
    using r by (simp add: node_links_def Let_def bare_root_nth blank_node_def)
  moreover have "\<exists>ps. good_parts ps \<and> walk (bare_root m) root ps = Some root"
    by (intro exI [of _ "[]"]) simp
  ultimately have "tree_inv (bare_root m)"
    using r by (simp add: tree_inv_def len used) (simp add: bare_root_nth blank_node_def)
  moreover have "owned (bare_root m) i = {}" for i
    by (simp add: owned_def len bare_root_nth node_pages_def blank_node_def)
  then have "disjoint_owners (owned (bare_root m)) (used_pages m)"
    by (simp add: disjoint_owners_def)
  moreover have "store_ok (nodes (bare_root m) ! root)"
    using r by (simp add: bare_root_nth store_ok_def blank_node_def)
  ultimately show ?thesis
    using assms by (simp add: vfs_inv_def store_inv_def len used) (simp add: bare_root_def)
qed

lemma vfs_init_inv: "mm_inv m \<Longrightarrow> vfs_inv (vfs_init m)"
proof -
  assume "mm_inv m"
  then have "vfs_inv (bare_root m)" by (rule bare_root_inv)
  moreover have "path_fits ''/sys'' VFS_PATH_MAX" "path_fits ''/disk'' VFS_PATH_MAX" by code_simp+
  ultimately show ?thesis
    unfolding vfs_init_bare using mkdir_result by blast
qed

lemma vfs_init_fds: "fds_live (vfs_init m)"
proof -
  have "fds (snd (vfs_mkdir path s)) = fds s" for path s
    by (simp add: vfs_mkdir_def alloc_node_def Let_def split: option.split sum.split prod.split)
  then have "fds (vfs_init m) = replicate VFS_MAX_FD blank_fd"
    unfolding vfs_init_bare by (simp add: bare_root_def)
  then show ?thesis by (simp add: fds_live_def blank_fd_def)
qed

lemma bare_root_slot:
  assumes "good_part nm"
  shows "walk (bare_root m) root [nm] = None" and "entry_slot [nm] (bare_root m) = Inr (nm, 0, 1)"
proof -
  have r: "root < VFS_MAX_NODES" by (simp add: root_def VFS_MAX_NODES_def)
  have "nodes (bare_root m) ! root = blank_node\<lparr>n_used := True, n_is_dir := True, n_name := ''/''\<rparr>"
    by (simp add: bare_root_nth [OF r])
  moreover have "first_from P ([] :: nat list) 0 = None" for P by (simp add: first_from_None)
  ultimately show "walk (bare_root m) root [nm] = None"
    by (simp add: find_child_def blank_node_def)
  have "first_from (\<lambda>n. \<not> n_used n) (nodes (bare_root m)) 0 = Some 1"
  proof (rule first_from_eq)
    show "1 < length (nodes (bare_root m))" by (simp add: bare_root_def VFS_MAX_NODES_def)
    show "\<not> n_used (nodes (bare_root m) ! 1)"
      using bare_root_nth [of 1 m] by (simp add: root_def VFS_MAX_NODES_def blank_node_def)
    fix j :: nat assume "j < 1"
    then show "\<not> \<not> n_used (nodes (bare_root m) ! j)"
      using bare_root_nth [of 0 m] by (simp add: root_def VFS_MAX_NODES_def)
  qed simp
  then show "entry_slot [nm] (bare_root m) = Inr (nm, 0, 1)"
    using bare_root_nth [OF r] by (simp add: entry_slot_def root_def blank_node_def VFS_MAX_CHILDREN_def)
qed

lemma bare_linkable:
  assumes "mm_inv m" and "good_part nm"
  shows "linkable (bare_root m) [] 0 1 nm"
  using entry_slot_linkable [of "bare_root m" "[nm]" nm 0 1] bare_root_inv [OF assms(1)] bare_root_slot [OF assms(2)] assms(2)
  by (auto simp: vfs_inv_def)

lemma vfs_init_eq:
  assumes m: "mm_inv m"
  shows "vfs_init m = link_node 0 2 ''disk'' True (link_node 0 1 ''sys'' True (bare_root m))"
    and "entry_slot [''disk''] (link_node 0 1 ''sys'' True (bare_root m)) = Inr (''disk'', 0, 2)"
    and "linkable (link_node 0 1 ''sys'' True (bare_root m)) [] 0 2 ''disk''"
proof -
  let ?b = "bare_root m" and ?s = "link_node 0 1 ''sys'' True (bare_root m)"
  have good: "good_part ''sys''" "good_part ''disk''" by code_simp+
  note lk = bare_linkable [OF m good(1)]
  have inv: "vfs_inv ?b" and inv': "vfs_inv ?s" using bare_root_inv [OF m] link_inv [OF lk] by auto
  have len: "length (nodes ?s) = 256" using inv' by (simp add: vfs_inv_def tree_inv_def VFS_MAX_NODES_def)
  have nth0: "nodes ?s ! 0 = blank_node\<lparr>n_used := True, n_is_dir := True, n_name := ''/'', n_children := [1]\<rparr>"
    using link_node_nth(1) [OF lk, of True 0] bare_root_nth [of 0 m]
    by (simp add: blank_node_def VFS_MAX_NODES_def root_def)
  have nth1: "nodes ?s ! 1 = blank_node\<lparr>n_used := True, n_is_dir := True, n_parent := Some 0, n_name := ''sys''\<rparr>"
    using link_node_nth(1) [OF lk, of True 1] by simp
  have nth2: "\<not> n_used (nodes ?s ! 2)"
    using link_node_nth(1) [OF lk, of True 2] bare_root_nth [of 2 m]
    by (simp add: blank_node_def VFS_MAX_NODES_def root_def)
  have sys: "vfs_mkdir ''/sys'' ?b = (Inr (), ?s)"
  proof -
    have p: "path_fits ''/sys'' VFS_PATH_MAX" and rs: "resolved ''/sys'' = [''sys'']" by code_simp+
    show ?thesis
      using vfs_mkdir_spec [OF _ p, of ?b] inv bare_root_slot [OF good(1), of m] rs by (simp add: vfs_inv_def)
  qed
  have w: "walk ?s root [''disk''] = None"
    using link_walk [OF lk, of "[''disk'']" True] bare_root_slot [OF good(2), of m] good by simp
  have "first_from (\<lambda>n. \<not> n_used n) (nodes ?s) 0 = Some 2"
  proof (rule first_from_eq)
    fix j :: nat assume "j < 2"
    then have "j = 0 \<or> j = 1" by linarith
    then show "\<not> \<not> n_used (nodes ?s ! j)" using nth0 nth1 by auto
  qed (use len nth2 in simp_all)
  then show slot: "entry_slot [''disk''] ?s = Inr (''disk'', 0, 2)"
    using nth0 by (simp add: entry_slot_def root_def blank_node_def VFS_MAX_CHILDREN_def)
  have "vfs_mkdir ''/disk'' ?s = (Inr (), link_node 0 2 ''disk'' True ?s)"
  proof -
    have p: "path_fits ''/disk'' VFS_PATH_MAX" and rs: "resolved ''/disk'' = [''disk'']" by code_simp+
    show ?thesis
      using vfs_mkdir_spec [OF _ p, of ?s] inv' slot rs w by (simp add: vfs_inv_def)
  qed
  with sys show "vfs_init m = link_node 0 2 ''disk'' True ?s" by (simp add: vfs_init_bare)
  show "linkable ?s [] 0 2 ''disk''"
    using entry_slot_linkable [of ?s "[''disk'']" "''disk''" 0 2] inv' slot w good by (auto simp: vfs_inv_def)
qed

lemma vfs_init_linkable:
  assumes m: "mm_inv m" and nm: "good_part nm" and other: "nm \<noteq> ''sys''" "nm \<noteq> ''disk''"
  shows "linkable (vfs_init m) [] 0 3 nm"
proof -
  let ?b = "bare_root m" and ?s = "link_node 0 1 ''sys'' True (bare_root m)"
  have good: "good_part ''sys''" "good_part ''disk''" by code_simp+
  note lk = bare_linkable [OF m good(1)] and lk2 = vfs_init_eq(3) [OF m] and eq = vfs_init_eq(1) [OF m]
  have inv: "vfs_inv (vfs_init m)" by (rule vfs_init_inv [OF m])
  have "walk (vfs_init m) root [nm] = None"
    using link_walk [OF lk2, of "[nm]" True] link_walk [OF lk, of "[nm]" True] bare_root_slot [OF nm, of m] nm other
    by (simp add: eq)
  moreover have "nodes (vfs_init m) ! 0 = blank_node\<lparr>n_used := True, n_is_dir := True, n_name := ''/'', n_children := [1, 2]\<rparr>"
    using link_node_nth(1) [OF lk, of True 0] link_node_nth(1) [OF lk2, of True 0] bare_root_nth [of 0 m]
    by (simp add: eq blank_node_def VFS_MAX_NODES_def root_def)
  moreover have "\<not> n_used (nodes (vfs_init m) ! 3)"
    using link_node_nth(1) [OF lk, of True 3] link_node_nth(1) [OF lk2, of True 3] bare_root_nth [of 3 m]
    by (simp add: eq blank_node_def VFS_MAX_NODES_def root_def)
  moreover have "3 < length (nodes (vfs_init m))"
    using inv by (simp add: vfs_inv_def tree_inv_def VFS_MAX_NODES_def)
  ultimately show ?thesis
    using inv nm by (simp add: linkable_def vfs_inv_def root_def VFS_MAX_CHILDREN_def blank_node_def)
qed

text \<open>A small state for the concrete instances: one file, open on descriptor 3.\<close>

definition sample :: vfs where
  "sample = (let s = link_node 0 3 ''f'' False (vfs_init (mm_init (\<lambda>a. 0)))
     in s\<lparr>fds := (fds s)[3 := \<lparr>f_used = True, f_node = 3, f_offset = 0, f_flags = VFS_O_READ OR VFS_O_WRITE\<rparr>]\<rparr>)"

lemma sample_facts:
  "vfs_inv sample" "fds_live sample" "fd_ok sample 3" "fds sample ! 3 = \<lparr>f_used = True, f_node = 3, f_offset = 0, f_flags = VFS_O_READ OR VFS_O_WRITE\<rparr>"
  "walk sample root [''f''] = Some 3" "\<not> n_is_dir (nodes sample ! 3)" "3 < length (nodes sample)" "n_used (nodes sample ! 3)"
  "n_children (nodes sample ! 3) = []" "file_bytes sample 3 = []" "n_size (nodes sample ! 3) = 0"
  "fs_abs sample [''f''] = Some (File [])" "fs_abs sample [''g''] = None"
proof -
  let ?i = "vfs_init (mm_init (\<lambda>a. 0))" and ?s = "link_node 0 3 ''f'' False (vfs_init (mm_init (\<lambda>a. 0)))"
  have m: "mm_inv (mm_init (\<lambda>a. 0))" by (rule mm_inv_init)
  have g: "good_part ''f''" "good_part ''g''" by code_simp+
  have lk: "linkable ?i [] 0 3 ''f''" by (rule vfs_init_linkable [OF m g(1)]) simp_all
  have inv: "vfs_inv ?i" "vfs_inv ?s" using vfs_init_inv [OF m] link_inv [OF lk] by auto
  have len: "length (fds ?s) = 32" using inv by (simp add: vfs_inv_def VFS_MAX_FD_def)
  have nth: "nodes ?s ! 3 = blank_node\<lparr>n_used := True, n_is_dir := False, n_parent := Some 0, n_name := ''f''\<rparr>"
    using link_node_nth(1) [OF lk, of False 3] by simp
  have sh: "same_shape ?s sample" and nd: "nodes sample = nodes ?s" by (simp_all add: same_shape_def sample_def Let_def)
  show i: "vfs_inv sample"
    unfolding sample_def Let_def using inv(2) len
    by (subst fds_update_inv) (simp_all add: VFS_MAX_FD_def)
  show l3: "3 < length (nodes sample)" using inv by (simp add: nd vfs_inv_def tree_inv_def VFS_MAX_NODES_def)
  show "n_used (nodes sample ! 3)" "\<not> n_is_dir (nodes sample ! 3)" "n_children (nodes sample ! 3) = []" "n_size (nodes sample ! 3) = 0"
    by (simp_all add: nd nth blank_node_def)
  show "fds sample ! 3 = \<lparr>f_used = True, f_node = 3, f_offset = 0, f_flags = VFS_O_READ OR VFS_O_WRITE\<rparr>"
    using len by (simp add: sample_def Let_def)
  then show "fd_ok sample 3" by (simp add: fd_ok_def VFS_MAX_FD_def)
  have "fds_live ?s" by (rule link_live [OF lk inv(1) vfs_init_fds])
  from fds_update_live [OF this] l3 show "fds_live sample"
    by (simp add: sample_def Let_def nth)
  show w: "walk sample root [''f''] = Some 3"
    using link_walk [OF lk, of "[''f'']" False] g by (simp add: same_shape_walk [OF sh] del: walk.simps)
  show fb: "file_bytes sample 3 = []" by (simp add: file_bytes_def nd nth blank_node_def)
  show "fs_abs sample [''f''] = Some (File [])"
    using w g fb by (simp add: fs_abs_def nd nth del: walk.simps)
  have "linkable ?i [] 0 3 ''g''" by (rule vfs_init_linkable [OF m g(2)]) simp_all
  then have "walk ?i root [''g''] = None" by (simp add: linkable_def del: walk.simps)
  then have "walk sample root [''g''] = None"
    using link_walk [OF lk, of "[''g'']" False] g by (simp add: same_shape_walk [OF sh] del: walk.simps)
  then show "fs_abs sample [''g''] = None" by (simp add: fs_abs_def del: walk.simps)
qed

section \<open>Properties\<close>

text \<open>
  \<open>vfs_mkdir\<close> refines the map: on success the path was free and now names a directory, no other
  path changes, and the invariant is kept; on an error nothing changes.
\<close>

theorem vfs_mkdir_refines:
  assumes "vfs_inv s" and "path_fits path VFS_PATH_MAX"
  shows "vfs_inv (snd (vfs_mkdir path s)) \<and>
    (case fst (vfs_mkdir path s) of
       Inl e \<Rightarrow> snd (vfs_mkdir path s) = s
     | Inr u \<Rightarrow> fs_abs s (resolved path) = None \<and>
         fs_abs (snd (vfs_mkdir path s)) = (fs_abs s)(resolved path \<mapsto> Dir))"
  by (rule mkdir_result [OF assms])

lemma vfs_mkdir_refines_witness: "vfs_inv (snd (vfs_mkdir ''/g'' sample))"
proof -
  have "path_fits ''/g'' VFS_PATH_MAX" by code_simp
  from vfs_mkdir_refines [OF sample_facts(1) this] show ?thesis by simp
qed

text \<open>
  Property C1. \<open>vfs_write_file\<close> refines the map: on success the path holds exactly the given bytes, every
  other path is untouched, the invariant and the descriptors are kept. On an error the map is as
  it was, except that the allocator's refusal may leave a new empty file behind.
\<close>

theorem vfs_write_file_refines:
  assumes "vfs_inv s" and "path_fits path VFS_PATH_MAX" and "length bs \<le> VFS_FILE_MAX"
  shows "vfs_inv (snd (vfs_write_file path bs s)) \<and> fds (snd (vfs_write_file path bs s)) = fds s \<and>
    (case fst (vfs_write_file path bs s) of
       Inr u \<Rightarrow> fs_abs s (resolved path) \<noteq> Some Dir \<and>
         fs_abs (snd (vfs_write_file path bs s)) = (fs_abs s)(resolved path \<mapsto> File bs)
     | Inl e \<Rightarrow> fs_abs (snd (vfs_write_file path bs s)) = fs_abs s \<or>
         e = VFS_ERR_NOSPC \<and> fs_abs s (resolved path) = None \<and>
         fs_abs (snd (vfs_write_file path bs s)) = (fs_abs s)(resolved path \<mapsto> File []))"
  using write_file_result [OF assms] by simp

lemma vfs_write_file_refines_witness: "vfs_inv (snd (vfs_write_file ''/f'' [104, 105] sample))"
proof -
  have "path_fits ''/f'' VFS_PATH_MAX" by code_simp
  from vfs_write_file_refines [OF sample_facts(1) this, of "[104, 105]"] show ?thesis
    by (simp add: VFS_FILE_MAX_def)
qed

text \<open>
  \<open>vfs_read_file\<close> returns what the map holds, cut to the caller's buffer.
\<close>

theorem vfs_read_file_refines:
  assumes "vfs_inv s" and "path_fits path VFS_PATH_MAX"
  shows "vfs_read_file path n s =
    (case fs_abs s (resolved path) of
       None \<Rightarrow> Inl VFS_ERR_NOENT | Some Dir \<Rightarrow> Inl VFS_ERR_ISDIR | Some (File bs) \<Rightarrow> Inr (take n bs))"
  by (rule read_file_result [OF assms])

lemma vfs_read_file_refines_witness: "vfs_read_file ''/f'' 10 sample = Inr []"
proof -
  have "path_fits ''/f'' VFS_PATH_MAX" "resolved ''/f'' = [''f'']" by code_simp+
  with vfs_read_file_refines [OF sample_facts(1), of "''/f''" 10] sample_facts(12) show ?thesis by simp
qed

text \<open>
  Property C2. \<open>vfs_unlink\<close> succeeds exactly for an existing path that is neither the root, \<open>/sys\<close> nor
  \<open>/disk\<close> and has no entries below it; then the path is gone and every other path is untouched.
\<close>

theorem vfs_unlink_refines:
  assumes "vfs_inv s" and "path_fits path VFS_PATH_MAX"
  shows "vfs_inv (snd (vfs_unlink path s)) \<and>
    (fst (vfs_unlink path s) = Inr () \<longleftrightarrow>
       fs_abs s (resolved path) \<noteq> None \<and> \<not> protected (resolved path) \<and> empty_at s (resolved path)) \<and>
    (case fst (vfs_unlink path s) of
       Inl e \<Rightarrow> snd (vfs_unlink path s) = s
     | Inr u \<Rightarrow> fs_abs (snd (vfs_unlink path s)) = (fs_abs s)(resolved path := None))"
  by (rule unlink_result [OF assms])

lemma vfs_unlink_refines_witness: "fst (vfs_unlink ''/f'' sample) = Inr ()"
proof -
  have p: "path_fits ''/f'' VFS_PATH_MAX" "resolved ''/f'' = [''f'']" by code_simp+
  have g: "good_parts [''f'']" by code_simp
  have "empty_at sample [''f'']"
    using node_empty_at [OF _ g sample_facts(5)] sample_facts(1,9) by (simp add: vfs_inv_def)
  with vfs_unlink_refines [OF sample_facts(1) p(1)] p(2) sample_facts(12) show ?thesis
    by (simp add: protected_def)
qed

lemma vfs_open_node:
  "vfs_open path flags s =
    (case vfs_lookup path s of
       Some i \<Rightarrow> open_node flags i s
     | None \<Rightarrow>
         if \<not> has_flag flags VFS_O_CREATE then (Inl VFS_ERR_NOENT, s)
         else case vfs_write_file path [] s of
                (Inl e, s1) \<Rightarrow> (Inl VFS_ERR_NOSPC, s1)
              | (Inr u, s1) \<Rightarrow>
                  (case vfs_lookup path s1 of None \<Rightarrow> (Inl VFS_ERR_NOENT, s1)
                   | Some i \<Rightarrow> open_node flags i s1))"
  by (simp add: vfs_open_def open_node_def Let_def split: option.split sum.split prod.split)

lemma open_result:
  assumes inv: "vfs_inv s" and fits: "path_fits path VFS_PATH_MAX"
  shows "vfs_inv (snd (vfs_open path flags s)) \<and> (fds_live s \<longrightarrow> fds_live (snd (vfs_open path flags s))) \<and>
    (\<forall>fd. fst (vfs_open path flags s) = Inr fd \<longrightarrow>
       fs_abs (snd (vfs_open path flags s)) = open_abs flags (fs_abs s) (resolved path) \<and>
       opened_at flags (resolved path) s fd (snd (vfs_open path flags s)))"
proof -
  note g = fits_good [OF fits] and look = vfs_lookup_walk [OF fits]
  show ?thesis
  proof (cases "walk s root (resolved path)")
    case (Some i)
    then have "vfs_open path flags s = open_node flags i s" by (simp add: vfs_open_node look)
    with open_node_result [OF inv g Some, of flags] show ?thesis by simp
  next
    case None
    show ?thesis
    proof (cases "has_flag flags VFS_O_CREATE")
      case False
      with None inv show ?thesis by (simp add: vfs_open_node look)
    next
      case True
      obtain r t where w: "vfs_write_file path [] s = (r, t)" by (cases "vfs_write_file path [] s")
      have wr: "vfs_inv t" "fds t = fds s" "fds_live s \<Longrightarrow> fds_live t"
        "r = Inr u \<Longrightarrow> fs_abs t = (fs_abs s)(resolved path \<mapsto> File [])" for u
        using write_file_result [OF inv fits, of "[]"] w by auto
      show ?thesis
      proof (cases r)
        case (Inl e)
        then show ?thesis using None True w wr by (simp add: vfs_open_node look)
      next
        case (Inr u)
        note abs = wr(4) [OF Inr]
        then obtain i where i: "walk t root (resolved path) = Some i" "\<not> n_is_dir (nodes t ! i)" "file_bytes t i = []"
          using g by (auto simp: fs_abs_def fun_eq_iff split: if_splits)
        have "vfs_open path flags s = open_node flags i t"
          using None True w Inr i(1) by (simp add: vfs_open_node look)
        moreover have "open_abs flags (fs_abs t) (resolved path) = open_abs flags (fs_abs s) (resolved path)"
          using None fs_abs_None [OF g, of s] abs by (simp add: open_abs_def)
        moreover have "opened_at flags (resolved path) t fd v = opened_at flags (resolved path) s fd v" for fd v
          by (simp add: opened_at_def wr(2))
        ultimately show ?thesis using open_node_result [OF wr(1) g i(1), of flags] wr(3) by simp
      qed
    qed
  qed
qed



text \<open>
  Property C4. A read on a descriptor returns the bytes of the file from the descriptor's offset, at most
  \<open>n\<close> of them, and moves the offset past what it returned.
\<close>

theorem vfs_read_positional:
  assumes "vfs_inv s" and "fd_ok s fd" and "has_flag (f_flags (fds s ! nat fd)) VFS_O_READ"
    and "\<not> n_is_dir (nodes s ! f_node (fds s ! nat fd))"
  shows "vfs_read fd n s =
    (let got = take n (drop (f_offset (fds s ! nat fd)) (file_bytes s (f_node (fds s ! nat fd))))
     in (Inr got, upd_fd (nat fd) (\<lambda>f. f\<lparr>f_offset := f_offset f + length got\<rparr>) s))"
  by (rule read_result [OF assms(1-3) refl assms(4)])

lemma vfs_read_positional_witness: "fst (vfs_read 3 16 sample) = Inr []"
proof -
  have "has_flag (VFS_O_READ OR VFS_O_WRITE) VFS_O_READ" by code_simp
  with vfs_read_positional [OF sample_facts(1,3), of 16] sample_facts(4,6,10) show ?thesis by (simp add: Let_def)
qed

text \<open>
  Property C5. A write that stays below the size limit overwrites the file from the descriptor's offset and
  moves the offset past the bytes written; the path map changes for the files of that node only, and
  when no pages are left nothing changes.
\<close>

theorem vfs_write_positional:
  assumes inv: "vfs_inv s" and fd: "fd_ok s fd" and flag: "has_flag (f_flags (fds s ! nat fd)) VFS_O_WRITE"
    and ps: "good_parts ps" "walk s root ps = Some (f_node (fds s ! nat fd))"
    and f: "\<not> n_is_dir (nodes s ! f_node (fds s ! nat fd))"
    and off: "f_offset (fds s ! nat fd) \<le> n_size (nodes s ! f_node (fds s ! nat fd))"
    and fit: "f_offset (fds s ! nat fd) + length bs \<le> VFS_FILE_MAX"
  shows "vfs_inv (snd (vfs_write fd bs s)) \<and>
    (case fst (vfs_write fd bs s) of
       Inl e \<Rightarrow> e = VFS_ERR_NOSPC \<and> snd (vfs_write fd bs s) = s
     | Inr n \<Rightarrow> n = length bs \<and>
         fs_abs (snd (vfs_write fd bs s)) = (fs_abs s)(ps \<mapsto> File
           (overwrite (file_bytes s (f_node (fds s ! nat fd))) (f_offset (fds s ! nat fd)) bs)) \<and>
         fds (snd (vfs_write fd bs s)) =
           (fds s)[nat fd := (fds s ! nat fd)\<lparr>f_offset := f_offset (fds s ! nat fd) + length bs\<rparr>])"
proof -
  have tree: "tree_inv s" and len: "length (fds s) = VFS_MAX_FD" using inv by (auto simp: vfs_inv_def)
  have i: "f_node (fds s ! nat fd) < length (nodes s)" "n_used (nodes s ! f_node (fds s ! nat fd))"
    using walk_used [OF tree ps(2,1)] by auto
  from write_result [OF inv fd flag refl i f refl off fit] show ?thesis
  proof (elim disjE exE conjE)
    fix t assume t: "vfs_write fd bs s = (Inr (length bs), t\<lparr>fds := (fds s)[nat fd := (fds s ! nat fd)\<lparr>f_offset := f_offset (fds s ! nat fd) + length bs\<rparr>]\<rparr>)"
      "store_inv t" "storage_step (f_node (fds s ! nat fd)) s t"
      "file_bytes t (f_node (fds s ! nat fd)) = overwrite (file_bytes s (f_node (fds s ! nat fd))) (f_offset (fds s ! nat fd)) bs"
    have "vfs_inv t" by (rule storage_step_inv [OF inv t(3,2)])
    moreover have "fds t = fds s" using t(3) by (simp add: storage_step_def)
    ultimately show ?thesis
      using storage_step_abs [OF inv t(3) ps f] t(4) len fds_update_inv [of t]
      by (simp add: t(1) fds_update_abs)
  qed (use inv in simp)
qed

lemma vfs_write_positional_witness: "vfs_inv (snd (vfs_write 3 [7, 8, 9] sample))"
proof -
  have "has_flag (VFS_O_READ OR VFS_O_WRITE) VFS_O_WRITE" by code_simp
  moreover have "good_parts [''f'']" by code_simp
  ultimately show ?thesis
    using vfs_write_positional [OF sample_facts(1,3), of "[''f'']" "[7, 8, 9]"] sample_facts(4,5,6,11)
    by (simp add: VFS_FILE_MAX_def del: walk.simps)
qed

lemma unlink_success:
  assumes inv: "vfs_inv s" and fits: "path_fits path VFS_PATH_MAX" and ok: "fst (vfs_unlink path s) = Inr ()"
  obtains q nm p i where "resolved path = q @ [nm]" and "unlinkable s q p i nm" and "vfs_lookup path s = Some i"
    and "snd (vfs_unlink path s) = unlink_node p i (s\<lparr>vmm := (case n_data (nodes s ! i) of None \<Rightarrow> vmm s
          | Some a \<Rightarrow> mm_free_pages a (pages_for (n_cap (nodes s ! i))) (vmm s))\<rparr>)"
proof -
  from inv have tree: "tree_inv s" by (simp add: vfs_inv_def)
  note g = fits_good [OF fits] and look = vfs_lookup_walk [OF fits, of s]
  from unlink_result [OF inv fits] ok
  have ex: "fs_abs s (resolved path) \<noteq> None" "\<not> protected (resolved path)" "empty_at s (resolved path)" by auto
  then obtain i where i: "walk s root (resolved path) = Some i" using fs_abs_None [OF g, of s] by auto
  obtain q nm where q: "resolved path = q @ [nm]"
    using ex(2) by (cases "resolved path" rule: rev_cases) (auto simp: protected_def)
  obtain p where p: "walk s root q = Some p" "n_parent (nodes s ! i) = Some p" "i \<noteq> root"
    using walk_last [OF tree, of q nm i] i g q by (metis (no_types))
  have e: "n_children (nodes s ! i) = []" using node_empty_at [OF tree g i] ex(3) by simp
  have ul: "unlinkable s q p i nm" using tree g q p i e by (simp add: unlinkable_def)
  have "snd (vfs_unlink path s) = unlink_node p i (s\<lparr>vmm := (case n_data (nodes s ! i) of None \<Rightarrow> vmm s
          | Some a \<Rightarrow> mm_free_pages a (pages_for (n_cap (nodes s ! i))) (vmm s))\<rparr>)"
    using ok p e i by (cases "n_data (nodes s ! i)") (auto simp: vfs_unlink_def look Let_def unlink_node_def split: if_splits)
  with that [OF q ul] i look show ?thesis by simp
qed

text \<open>
  Unlinking a path does not look at the descriptors: one that is open on the file stays
  valid for the kernel while its node is free for the next file and its pages are back in the
  allocator, so a later read or write through it reaches storage that belongs to somebody else.
\<close>

theorem vfs_unlink_dangles:
  assumes inv: "vfs_inv s" and fits: "path_fits path VFS_PATH_MAX" and ok: "fst (vfs_unlink path s) = Inr ()"
    and fd: "fd_ok s fd" and node: "vfs_lookup path s = Some (f_node (fds s ! nat fd))"
  shows "fd_ok (snd (vfs_unlink path s)) fd \<and> f_node (fds (snd (vfs_unlink path s)) ! nat fd) = f_node (fds s ! nat fd) \<and>
    \<not> n_used (nodes (snd (vfs_unlink path s)) ! f_node (fds s ! nat fd)) \<and>
    node_pages (nodes (snd (vfs_unlink path s)) ! f_node (fds s ! nat fd)) \<inter> used_pages (vmm (snd (vfs_unlink path s))) = {}"
proof -
  obtain q nm p i where "resolved path = q @ [nm]" and u: "unlinkable s q p i nm" "vfs_lookup path s = Some i"
    and t: "snd (vfs_unlink path s) = unlink_node p i (s\<lparr>vmm := (case n_data (nodes s ! i) of None \<Rightarrow> vmm s
          | Some a \<Rightarrow> mm_free_pages a (pages_for (n_cap (nodes s ! i))) (vmm s))\<rparr>)"
    by (rule unlink_success [OF inv fits ok])
  have i: "f_node (fds s ! nat fd) = i" using node u by simp
  have store: "store_inv s" using inv by (simp add: vfs_inv_def)
  note st = unlink_storage [OF u(1) store]
  have nd: "nodes (snd (vfs_unlink path s)) ! i = (nodes s ! i)\<lparr>n_used := False\<rparr>"
    using unlink_node_nth [OF u(1), of i] by (simp add: t st(4))
  have "node_pages ((nodes s ! i)\<lparr>n_used := False\<rparr>) = node_pages (nodes s ! i)"
    by (simp add: node_pages_def split: option.split)
  moreover have "used_pages (vmm (snd (vfs_unlink path s))) = used_pages (vmm s) - node_pages (nodes s ! i)"
    using st(3) by (simp only: t)
  ultimately have "node_pages (nodes (snd (vfs_unlink path s)) ! i) \<inter> used_pages (vmm (snd (vfs_unlink path s))) = {}"
    unfolding nd by (simp only: Diff_disjoint)
  moreover have "\<not> n_used (nodes (snd (vfs_unlink path s)) ! i)" by (simp add: nd)
  moreover have fds: "fds (snd (vfs_unlink path s)) = fds s" by (simp add: t unlink_node_def)
  moreover have "fd_ok (snd (vfs_unlink path s)) fd" using fd unfolding fd_ok_def fds .
  ultimately show ?thesis unfolding i fds by blast
qed

lemma vfs_unlink_dangles_witness: "fd_ok (snd (vfs_unlink ''/f'' sample)) 3"
proof -
  have p: "path_fits ''/f'' VFS_PATH_MAX" "resolved ''/f'' = [''f'']" by code_simp+
  have g: "good_parts [''f'']" by code_simp
  have "empty_at sample [''f'']"
    using node_empty_at [OF _ g sample_facts(5)] sample_facts(1,9) by (simp add: vfs_inv_def)
  then have "fst (vfs_unlink ''/f'' sample) = Inr ()"
    using unlink_result [OF sample_facts(1) p(1)] p(2) sample_facts(12) by (simp add: protected_def)
  moreover have "vfs_lookup ''/f'' sample = Some (f_node (fds sample ! nat 3))"
    using vfs_lookup_walk [OF p(1), of sample] p(2) sample_facts(4,5) by (simp del: walk.simps)
  ultimately show ?thesis using vfs_unlink_dangles [OF sample_facts(1) p(1) _ sample_facts(3)] by simp
qed

text \<open>
  The state \<open>vfs_init\<close> builds satisfies the invariants and holds \<open>/\<close>, \<open>/sys\<close> and \<open>/disk\<close> as directories.
\<close>

theorem vfs_init_ready:
  assumes m: "mm_inv m"
  shows "vfs_inv (vfs_init m) \<and> fds_live (vfs_init m) \<and>
    fs_abs (vfs_init m) [] = Some Dir \<and> fs_abs (vfs_init m) [''sys''] = Some Dir \<and> fs_abs (vfs_init m) [''disk''] = Some Dir"
proof -
  have good: "good_part ''sys''" by code_simp
  have bs: "store_inv (bare_root m)" "n_is_dir (nodes (bare_root m) ! root)"
    using bare_root_inv [OF m] bare_root_nth [of root m] by (simp_all add: vfs_inv_def root_def VFS_MAX_NODES_def)
  note lk = bare_linkable [OF m good] and lk2 = vfs_init_eq(3) [OF m] and eq = vfs_init_eq(1) [OF m]
  have "fs_abs (vfs_init m) = (fs_abs (bare_root m))([''sys''] \<mapsto> Dir, [''disk''] \<mapsto> Dir)"
    using link_abs [OF lk bs(1), of True] link_abs [OF lk2 link_storage(1) [OF lk bs(1)], of True] by (simp add: eq)
  moreover have "fs_abs (bare_root m) [] = Some Dir" using bs(2) by (simp add: fs_abs_def)
  ultimately show ?thesis using vfs_init_inv [OF m] vfs_init_fds by simp
qed

lemma vfs_init_ready_witness: "vfs_inv (vfs_init (mm_init (\<lambda>a. 0)))"
  using vfs_init_ready [OF mm_inv_init] by blast

end
