(* ===== verification/Sched.thy ===== *)
theory Sched
  imports Elf
begin

text \<open>
  The abstract scheduler that \<^verbatim>\<open>kernel/proc/proc.c\<close> implements: the process table without its data, the
  simulation of kill, spawn, run and return by the code, and the invariant of the table.
\<close>

section \<open>The scheduler without its data\<close>

text \<open>
  The abstract scheduler: of a process its slot's use, identity and state; of the kernel the running
  slot, the next pid and the stack of suspended runs. The rest of the process record never
  decides what the scheduler does.
\<close>

record slot =
  s_used :: bool
  s_pid :: int
  s_ppid :: int
  s_state :: pstate

record sched =
  slots :: "slot list"
  s_cur :: "nat option"
  s_next :: int
  s_stack :: "block list"

definition core :: "proc \<Rightarrow> slot" where
  "core q = \<lparr>s_used = used q, s_pid = pid q, s_ppid = ppid q, s_state = state q\<rparr>"

definition view :: "kern \<Rightarrow> sched" where
  "view k = \<lparr>slots = map core (procs k), s_cur = current k, s_next = next_pid k, s_stack = block_stack k\<rparr>"

abbreviation upd_slot :: "nat \<Rightarrow> (slot \<Rightarrow> slot) \<Rightarrow> sched \<Rightarrow> sched" where
  "upd_slot i f s \<equiv> s\<lparr>slots := (slots s)[i := f (slots s ! i)]\<rparr>"

abbreviation set_state :: "nat \<Rightarrow> pstate \<Rightarrow> sched \<Rightarrow> sched" where
  "set_state i st \<equiv> upd_slot i (\<lambda>q. q\<lparr>s_state := st\<rparr>)"

lemma core_sel [simp]:
  "s_used (core q) = used q" "s_pid (core q) = pid q" "s_ppid (core q) = ppid q" "s_state (core q) = state q"
  by (simp_all add: core_def)

lemma core_upd [simp]:
  "core (q\<lparr>state := st\<rparr>) = (core q)\<lparr>s_state := st\<rparr>" "core (q\<lparr>used := b\<rparr>) = (core q)\<lparr>s_used := b\<rparr>"
  "core (q\<lparr>exit_code := c\<rparr>) = core q" "core (q\<lparr>saved_kframe := f\<rparr>) = core q" "core (q\<lparr>cons_enable := b\<rparr>) = core q"
  "core (q\<lparr>cons_out := out\<rparr>) = core q" "core (q\<lparr>cons_in_keys := keys\<rparr>) = core q" "core (q\<lparr>cons_in_pos := n\<rparr>) = core q"
  "core (q\<lparr>cons_sink := sk\<rparr>) = core q" "core (q\<lparr>cons_host := b\<rparr>) = core q" "core (q\<lparr>started := b\<rparr>) = core q"
  "core (q\<lparr>image_shadow := a\<rparr>) = core q" "core (q\<lparr>image_evicted := b\<rparr>) = core q" "core (q\<lparr>block_parent := po\<rparr>) = core q"
  "core (q\<lparr>user_eip := a\<rparr>) = core q" "core (q\<lparr>user_esp := a\<rparr>) = core q" "core (q\<lparr>user_eax := a\<rparr>) = core q"
  "core (q\<lparr>need_preempt := b\<rparr>) = core q" "core (q\<lparr>cons_forbid := b\<rparr>) = core q" "core (q\<lparr>cwd := d\<rparr>) = core q"
  by (simp_all add: core_def)

lemma view_sel [simp]:
  "slots (view k) = map core (procs k)" "s_cur (view k) = current k" "s_next (view k) = next_pid k" "s_stack (view k) = block_stack k"
  by (simp_all add: view_def)

lemma view_fields [simp]:
  "view (k\<lparr>fg_pid := x\<rparr>) = view k" "view (k\<lparr>spawn_cons_next := b\<rparr>) = view k" "view (k\<lparr>spawn_redir_in := x\<rparr>) = view k"
  "view (k\<lparr>spawn_redir_out := x\<rparr>) = view k" "view (k\<lparr>resume_yielded := b\<rparr>) = view k" "view (k\<lparr>tty_fg := x\<rparr>) = view k"
  "view (k\<lparr>tss_esp0 := a\<rparr>) = view k" "view (k\<lparr>kvfs := v\<rparr>) = view k" "view (k\<lparr>kdisp := d\<rparr>) = view k"
  "view (k\<lparr>current := c\<rparr>) = (view k)\<lparr>s_cur := c\<rparr>" "view (k\<lparr>block_stack := bs\<rparr>) = (view k)\<lparr>s_stack := bs\<rparr>"
  "view (k\<lparr>next_pid := x\<rparr>) = (view k)\<lparr>s_next := x\<rparr>"
  by (simp_all add: view_def)

lemma view_procs [simp]: "view (k\<lparr>procs := ps\<rparr>) = (view k)\<lparr>slots := map core ps\<rparr>"
  by (simp add: view_def)

lemma map_core_same [simp]: "(map core ps)[i := core (ps ! i)] = map core ps"
  by (cases "i < length ps") (simp_all add: list_update_same_conv list_update_beyond)

lemma slots_same [simp]: "(view k)\<lparr>slots := map core (procs k)\<rparr> = view k"
  by (simp add: view_def)

section \<open>What does not touch the scheduler\<close>

lemma view_swap_out [simp]: "view (snd (swap_out i k)) = view k"
  by (simp add: swap_out_def Let_def map_update split: option.splits prod.splits)

lemma length_swap_out [simp]: "length (procs (snd (swap_out i k))) = length (procs k)"
  by (simp add: swap_out_def Let_def split: option.splits prod.splits)

lemma view_evict_loop [simp]: "view (snd (evict_loop lo hi is k)) = view k"
proof (induction "is" arbitrary: k)
  case (Cons i "is")
  have "view (snd (if fst (swap_out i k) then evict_loop lo hi is (snd (swap_out i k)) else (False, snd (swap_out i k)))) = view k"
    by (simp add: Cons.IH)
  with Cons.IH show ?case by (simp add: Let_def split_beta)
qed simp

lemma view_displace_loop [simp]: "view (snd (displace_loop p is k)) = view k"
proof (induction "is" arbitrary: k)
  case (Cons i "is")
  have "view (snd (if fst (swap_out i k) then displace_loop p is (snd (swap_out i k)) else (False, snd (swap_out i k)))) = view k"
    by (simp add: Cons.IH)
  with Cons.IH show ?case by (simp add: Let_def split_beta)
qed simp

lemma view_evict_range [simp]: "view (snd (proc_evict_range lo hi k)) = view k"
  by (simp add: proc_evict_range_def Let_def split_beta)

lemma view_ensure_resident [simp]: "view (proc_ensure_resident po k) = view k"
proof (cases po)
  case (Some p)
  then show ?thesis using slots_same [of "snd (displace_loop p [0..<PROC_MAX] k)"]
    by (simp add: proc_ensure_resident_def Let_def split_beta map_update)
qed (simp add: proc_ensure_resident_def)

lemma view_cons [simp]:
  "view (snd (proc_cons_repair po k)) = view k" "view (snd (proc_cons_putc po c k)) = view k"
  "view (snd (proc_cons_read p n k)) = view k" "view (snd (proc_cons_getc po k)) = view k"
  by (auto simp: proc_cons_repair_def proc_cons_putc_def proc_cons_read_def proc_cons_getc_def cons_put_def cons_take_def
      Let_def split_beta map_update split: option.splits list.splits)

lemma view_cons_write [simp]: "view (snd (proc_cons_write po s k)) = view k"
proof -
  have "view (snd (cons_write_loop q s k)) = view k" for q
    by (induction s arbitrary: k) (simp_all add: Let_def split_beta)
  then show ?thesis by (simp add: proc_cons_write_def Let_def split_beta split: option.splits)
qed

lemma core_offer: "core (snd (offer cons_key ks q)) = core q"
  by (induction ks arbitrary: q) (simp_all add: cons_key_def Let_def split_beta)

lemma view_cons_in [simp]:
  "view (snd (proc_cons_write_in p s k)) = view k" "view (snd (proc_cons_putkey p key k)) = view k"
proof -
  have c: "core (cons_in_compact q) = core q" for q by (simp add: cons_in_compact_def)
  show "view (snd (proc_cons_write_in p s k)) = view k"
    by (auto simp: proc_cons_write_in_def Let_def split_beta core_offer c map_update split: option.splits)
  show "view (snd (proc_cons_putkey p key k)) = view k"
    by (auto simp: proc_cons_putkey_def Let_def split_beta cons_key_def c map_update split: option.splits)
qed

lemma view_settings [simp]:
  "view (tty_set_fg x k) = view k" "view (proc_set_fg x k) = view k" "view (proc_set_spawn_redir a b k) = view k"
  "view (proc_set_spawn_cons on k) = view k" "view (destroy_windows p k) = view k" "view (sched_on_timer k) = view k"
  by (auto simp: tty_set_fg_def proc_set_fg_def proc_set_spawn_redir_def proc_set_spawn_cons_def destroy_windows_def
      sched_on_timer_def Let_def split_beta map_update split: option.splits)

lemma same_length: "view k = view k' \<Longrightarrow> length (procs k) = length (procs k')"
  by (metis length_map view_sel(1))

lemma same_core: "view k = view k' \<Longrightarrow> i < length (procs k) \<Longrightarrow> core (procs k ! i) = core (procs k' ! i)"
  by (metis length_map nth_map view_sel(1))

section \<open>What does\<close>

text \<open>Run a slot on top of the current one; come back to the suspended one; drop a slot.\<close>

definition a_run :: "nat \<Rightarrow> sched \<Rightarrow> sched" where
  "a_run p s = (let prev = s_cur s; s = (case prev of None \<Rightarrow> s | Some c \<Rightarrow> set_state c PROC_READY s)
     in (set_state p PROC_RUNNING s)\<lparr>s_cur := Some p, s_stack := \<lparr>b_prev = prev, b_child = p\<rparr> # s_stack s\<rparr>)"

definition a_back :: "sched \<Rightarrow> sched" where
  "a_back s = (case s_stack s of [] \<Rightarrow> s
     | b # bs \<Rightarrow> let s = s\<lparr>s_stack := bs, s_cur := b_prev b\<rparr>
                 in case b_prev b of None \<Rightarrow> s | Some p \<Rightarrow> set_state p PROC_RUNNING s)"

definition a_free :: "nat \<Rightarrow> sched \<Rightarrow> sched" where
  "a_free i = upd_slot i (\<lambda>q. q\<lparr>s_used := False\<rparr>)"

lemma view_upd: "i < length (procs k) \<Longrightarrow> slots (view k) ! i = core (procs k ! i)"
  by simp

lemma view_reap_slot: "i < length (procs k) \<Longrightarrow> view (reap_slot i k) = a_free i (view k)"
  by (simp add: reap_slot_def Let_def a_free_def map_update)

lemma view_make_zombie: "i < length (procs k) \<Longrightarrow> view (make_zombie i k) = set_state i PROC_ZOMBIE (view k)"
  by (simp add: make_zombie_def map_update)

lemma view_back: "\<forall>b\<in>set (block_stack k). \<forall>p. b_prev b = Some p \<longrightarrow> p < length (procs k) \<Longrightarrow>
    view (snd (proc_return_to_kernel k)) = a_back (view k)"
  by (auto simp: proc_return_to_kernel_def a_back_def Let_def map_update tty_set_fg_def split: list.splits option.splits)

section \<open>Killing a process\<close>

text \<open>The kill of the abstract scheduler, with the code's recursion.\<close>

definition a_reap :: "int \<Rightarrow> sched \<Rightarrow> sched" where
  "a_reap p s =
     (case first_from (\<lambda>q. s_used q \<and> s_pid q = p) (slots s) 0 of None \<Rightarrow> s
      | Some i \<Rightarrow> if s_state (slots s ! i) \<noteq> PROC_ZOMBIE then s else a_free i s)"

fun a_kill_one :: "nat \<Rightarrow> nat \<Rightarrow> sched \<Rightarrow> sched option"
  and a_kill_children :: "nat \<Rightarrow> nat \<Rightarrow> nat list \<Rightarrow> sched \<Rightarrow> sched option" where
  "a_kill_one 0 p s = None"
| "a_kill_one (Suc fuel) p s =
     (let q = slots s ! p in
      if \<not> s_used q \<or> s_pid q \<le> 1 then Some s
      else if s_state q = PROC_ZOMBIE then Some s
      else map_option (set_state p PROC_ZOMBIE) (a_kill_children fuel p [0..<PROC_MAX] s))"
| "a_kill_children fuel p [] s = Some s"
| "a_kill_children fuel p (i # is) s =
     (let q = slots s ! i in
      if s_used q \<and> s_ppid q = s_pid (slots s ! p) then
        (case a_kill_one fuel i s of None \<Rightarrow> None
         | Some s \<Rightarrow>
           a_kill_children fuel p is
             (if s_used (slots s ! i) \<and> s_state (slots s ! i) = PROC_ZOMBIE then a_reap (s_pid q) s else s))
      else a_kill_children fuel p is s)"

lemma first_from_map: "first_from P (map f xs) n = first_from (\<lambda>x. P (f x)) xs n"
proof (induction "\<lambda>x. P (f x)" xs n rule: first_from.induct)
  case (1 xs i)
  then show ?case by (subst (1 2) first_from.simps) simp
qed

lemma view_reap: "view (snd (proc_reap p k)) = a_reap p (view k)"
proof (cases "proc_get p k")
  case None
  then show ?thesis by (simp add: proc_reap_def a_reap_def proc_get_def first_from_map)
next
  case (Some i)
  then have "i < length (procs k)" by (auto simp: proc_get_def dest: first_from_Some)
  with Some show ?thesis by (simp add: proc_reap_def a_reap_def proc_get_def first_from_map view_reap_slot)
qed

lemma length_a_reap [simp]: "length (slots (a_reap p s)) = length (slots s)"
  by (simp add: a_reap_def a_free_def split: option.splits)

lemma length_a_kill:
  "a_kill_one f p s = Some s' \<Longrightarrow> length (slots s') = length (slots s)"
  "a_kill_children f p is s = Some s' \<Longrightarrow> length (slots s') = length (slots s)"
proof (induction f p s and f p "is" s arbitrary: s' and s' rule: a_kill_one_a_kill_children.induct)
  case (2 fuel p s)
  then show ?case by (auto simp: Let_def split: if_splits)
next
  case (4 fuel p i "is" s)
  show ?case
  proof (cases "s_used (slots s ! i) \<and> s_ppid (slots s ! i) = s_pid (slots s ! p)")
    case True
    with "4.prems" obtain t where t: "a_kill_one fuel i s = Some t" by (auto simp: Let_def split: option.splits)
    let ?t = "if s_used (slots t ! i) \<and> s_state (slots t ! i) = PROC_ZOMBIE then a_reap (s_pid (slots s ! i)) t else t"
    have "a_kill_children fuel p is ?t = Some s'" using "4.prems" t True by (simp add: Let_def)
    with "4.IH"(2) [OF refl True t] "4.IH"(1) [OF refl True t] show ?thesis by (simp split: if_splits)
  next
    case False
    with "4.prems" "4.IH"(3) [OF refl False] show ?thesis by (simp add: Let_def split: if_splits)
  qed
qed auto

lemma length_proc_reap: "length (procs (snd (proc_reap p k))) = length (procs k)"
  by (metis length_map view_sel(1) view_reap length_a_reap)

lemma view_kill:
  "length (procs k) = PROC_MAX \<Longrightarrow> p < PROC_MAX \<Longrightarrow> map_option view (kill_one f p k) = a_kill_one f p (view k)"
  "length (procs k) = PROC_MAX \<Longrightarrow> p < PROC_MAX \<Longrightarrow> set is \<subseteq> {..<PROC_MAX} \<Longrightarrow>
     map_option view (kill_children f p is k) = a_kill_children f p is (view k)"
proof (induction f p k and f p "is" k rule: kill_one_kill_children.induct)
  case (2 fuel p k)
  show ?case
  proof (cases "used (procs k ! p) \<and> 1 < pid (procs k ! p) \<and> state (procs k ! p) \<noteq> PROC_ZOMBIE")
    case True
    with "2.prems" "2.IH" have c: "map_option view (kill_children fuel p [0..<PROC_MAX] k) = a_kill_children fuel p [0..<PROC_MAX] (view k)"
      by (simp add: Let_def atLeast0LessThan [symmetric])
    show ?thesis
    proof (cases "kill_children fuel p [0..<PROC_MAX] k")
      case None
      with c True "2.prems" show ?thesis by (simp add: Let_def)
    next
      case (Some k')
      with c have a: "a_kill_children fuel p [0..<PROC_MAX] (view k) = Some (view k')" by simp
      have "length (procs k') = length (procs k)" using length_a_kill(2) [OF a] by simp
      with "2.prems" have "length (procs (destroy_windows (pid (procs k' ! p)) k')) = PROC_MAX"
        using same_length [OF view_settings(5), of "pid (procs k' ! p)" k'] by simp
      with True Some a "2.prems" show ?thesis by (simp add: Let_def view_make_zombie)
    qed
  qed (use "2.prems" in \<open>auto simp: Let_def\<close>)
next
  case (4 fuel p i "is" k)
  have i: "i < PROC_MAX" "set is \<subseteq> {..<PROC_MAX}" using "4.prems" by auto
  show ?case
  proof (cases "used (procs k ! i) \<and> ppid (procs k ! i) = pid (procs k ! p)")
    case True
    with "4.IH"(1) "4.prems" i have c: "map_option view (kill_one fuel i k) = a_kill_one fuel i (view k)" by simp
    show ?thesis
    proof (cases "kill_one fuel i k")
      case None
      with c True "4.prems" i show ?thesis by (simp add: Let_def)
    next
      case (Some k')
      with c have a: "a_kill_one fuel i (view k) = Some (view k')" by simp
      have len: "length (procs k') = PROC_MAX" using length_a_kill(1) [OF a] "4.prems" by simp
      let ?k = "if used (procs k' ! i) \<and> state (procs k' ! i) = PROC_ZOMBIE then snd (proc_reap (pid (procs k ! i)) k') else k'"
      have len': "length (procs ?k) = PROC_MAX" using len by (simp add: length_proc_reap)
      have v: "view ?k = (if s_used (slots (view k') ! i) \<and> s_state (slots (view k') ! i) = PROC_ZOMBIE
          then a_reap (s_pid (slots (view k) ! i)) (view k') else view k')"
        using i len "4.prems" by (simp add: view_reap)
      have "map_option view (kill_children fuel p is ?k) = a_kill_children fuel p is (view ?k)"
        by (rule "4.IH"(2) [OF refl True Some len' "4.prems"(2) i(2)])
      then show ?thesis using True Some a "4.prems" i by (simp only: v) (simp add: Let_def)
    qed
  next
    case False
    with "4.IH"(3) "4.prems" i show ?thesis by (cases "used (procs k ! i)") (simp_all add: Let_def)
  qed
qed auto

section \<open>Who dies\<close>

text \<open>
  What the table always satisfies about identities: a slot whose allocation was abandoned has pid 0,
  all other pids in use are distinct and above their parent's.
\<close>

definition pids_ok :: "sched \<Rightarrow> bool" where
  "pids_ok s \<longleftrightarrow> length (slots s) = PROC_MAX \<and>
     (\<forall>i < PROC_MAX. s_used (slots s ! i) \<longrightarrow> 0 \<le> s_pid (slots s ! i) \<and> s_pid (slots s ! i) < s_next s \<and>
        (if s_pid (slots s ! i) = 0 then s_ppid (slots s ! i) = 0 else 0 \<le> s_ppid (slots s ! i) \<and> s_ppid (slots s ! i) < s_pid (slots s ! i))) \<and>
     (\<forall>i < PROC_MAX. \<forall>j < PROC_MAX. s_used (slots s ! i) \<and> s_used (slots s ! j) \<and> s_pid (slots s ! i) \<noteq> 0 \<and>
        s_pid (slots s ! i) = s_pid (slots s ! j) \<longrightarrow> i = j)"

text \<open>A process that a kill acts on, and the slots below it through such processes.\<close>

definition live :: "sched \<Rightarrow> nat \<Rightarrow> bool" where
  "live s p \<longleftrightarrow> p < PROC_MAX \<and> s_used (slots s ! p) \<and> 1 < s_pid (slots s ! p) \<and> s_state (slots s ! p) \<noteq> PROC_ZOMBIE"

definition child_of :: "sched \<Rightarrow> nat \<Rightarrow> nat \<Rightarrow> bool" where
  "child_of s p i \<longleftrightarrow> i < PROC_MAX \<and> s_used (slots s ! i) \<and> s_ppid (slots s ! i) = s_pid (slots s ! p)"

inductive below :: "sched \<Rightarrow> nat \<Rightarrow> nat \<Rightarrow> bool" for s :: sched and p :: nat where
  below_child: "live s p \<Longrightarrow> child_of s p i \<Longrightarrow> below s p i"
| below_step: "below s p i \<Longrightarrow> live s i \<Longrightarrow> child_of s i j \<Longrightarrow> below s p j"

inductive_cases below_elim: "below s p i"

lemma child_pid:
  assumes ok: "pids_ok s" and "live s p" and "child_of s p i"
  shows "s_pid (slots s ! p) < s_pid (slots s ! i)"
proof -
  have i: "i < PROC_MAX" "s_used (slots s ! i)" "s_ppid (slots s ! i) = s_pid (slots s ! p)" using assms(3) by (auto simp: child_of_def)
  have "if s_pid (slots s ! i) = 0 then s_ppid (slots s ! i) = 0 else s_ppid (slots s ! i) < s_pid (slots s ! i)"
    using ok i(1,2) unfolding pids_ok_def by presburger
  then show ?thesis using i(3) assms(2) by (simp add: live_def split: if_splits)
qed

lemma below_facts:
  assumes ok: "pids_ok s" and "below s p i"
  shows "i < PROC_MAX \<and> s_used (slots s ! i) \<and> s_pid (slots s ! p) < s_pid (slots s ! i) \<and> live s p"
  using assms(2)
proof induction
  case (below_child i)
  with child_pid [OF ok] show ?case by (auto simp: child_of_def)
next
  case (below_step i j)
  with child_pid [OF ok below_step(2,3)] show ?case by (auto simp: child_of_def)
qed

text \<open>The children's subtrees make up a live process's subtree.\<close>

lemma below_through:
  "below s i j \<Longrightarrow> live s p \<Longrightarrow> child_of s p i \<Longrightarrow> below s p j"
  by (induction rule: below.induct) (auto intro: below.intros)

lemma below_split: "live s p \<Longrightarrow> below s p j \<longleftrightarrow> (\<exists>i. child_of s p i \<and> (j = i \<or> below s i j))"
proof
  assume "below s p j" then show "\<exists>i. child_of s p i \<and> (j = i \<or> below s i j)"
    by induction (auto intro: below.intros)
qed (auto intro: below_through below.intros)

text \<open>Slots given up since \<open>s\<close>; nothing else changed.\<close>

definition gone :: "nat set \<Rightarrow> sched \<Rightarrow> sched \<Rightarrow> bool" where
  "gone R s t \<longleftrightarrow> length (slots t) = length (slots s) \<and> s_cur t = s_cur s \<and> s_next t = s_next s \<and> s_stack t = s_stack s \<and>
     (\<forall>j < PROC_MAX. if j \<in> R then \<not> s_used (slots t ! j) else slots t ! j = slots s ! j)"

lemma gone_refl [simp]: "gone {} s s"
  by (simp add: gone_def)

lemma gone_trans: "gone R s t \<Longrightarrow> gone Q t u \<Longrightarrow> gone (R \<union> Q) s u"
  unfolding gone_def by (auto split: if_splits)

lemma gone_pids:
  assumes ok: "pids_ok s" and g: "gone R s t"
  shows "pids_ok t"
proof -
  have "s_used (slots t ! j) \<Longrightarrow> slots t ! j = slots s ! j" if "j < PROC_MAX" for j
    using g that unfolding gone_def by (metis (full_types))
  then show ?thesis using ok g unfolding pids_ok_def gone_def by (metis (mono_tags, lifting))
qed

text \<open>A set of slots that has the children of its live members.\<close>

definition closed_in :: "sched \<Rightarrow> nat set \<Rightarrow> bool" where
  "closed_in s R \<longleftrightarrow> (\<forall>i j. i \<in> R \<and> live s i \<and> child_of s i j \<longrightarrow> j \<in> R)"

lemma gone_below:
  assumes g: "gone R s t" and cl: "closed_in s R" and b: "below s i j" and i: "i < PROC_MAX" "i \<notin> R"
  shows "j \<in> R \<or> below t i j"
proof -
  have same: "slots t ! u = slots s ! u" if "u < PROC_MAX" "u \<notin> R" for u using g that by (auto simp: gone_def)
  have lv: "live t u" if "live s u" "u \<notin> R" for u using that same by (auto simp: live_def)
  have ch: "child_of t u v" if "child_of s u v" "u < PROC_MAX" "u \<notin> R" "v \<notin> R" for u v
    using that same by (auto simp: child_of_def)
  from b show ?thesis
  proof induction
    case (below_child j)
    then show ?case using lv ch i by (blast intro: below.below_child)
  next
    case (below_step u j)
    show ?case
    proof (cases "u \<in> R \<or> j \<in> R")
      case True
      with below_step cl show ?thesis by (auto simp: closed_in_def)
    next
      case False
      then have "below t i u" "live t u" using below_step lv by auto
      moreover have "child_of t u j" using ch below_step False by (auto simp: live_def)
      ultimately show ?thesis by (blast intro: below.below_step)
    qed
  qed
qed

lemma below_gone:
  assumes g: "gone R s t" and b: "below t i j" and i: "i < PROC_MAX" "i \<notin> R"
  shows "below s i j \<and> j \<notin> R"
proof -
  have same: "slots t ! u = slots s ! u" if "u < PROC_MAX" "u \<notin> R" for u using g that by (auto simp: gone_def)
  have usd: "u \<notin> R" if "u < PROC_MAX" "s_used (slots t ! u)" for u using g that by (auto simp: gone_def)
  have lv: "live s u \<and> u \<notin> R" if "live t u" for u
  proof -
    have u: "u < PROC_MAX" "s_used (slots t ! u)" using that by (auto simp: live_def)
    with usd same [of u] that show ?thesis by (simp add: live_def)
  qed
  have ch: "child_of s u v \<and> v \<notin> R" if "child_of t u v" "u < PROC_MAX" "u \<notin> R" for u v
  proof -
    have v: "v < PROC_MAX" "s_used (slots t ! v)" using that by (auto simp: child_of_def)
    with usd same [of v] same [of u] that show ?thesis by (simp add: child_of_def)
  qed
  from b show ?thesis
    by induction (use lv ch i in \<open>auto intro: below.intros simp: live_def\<close>)
qed

lemma closed_below: "closed_in s R \<Longrightarrow> i \<in> R \<Longrightarrow> below s i j \<Longrightarrow> j \<in> R"
  unfolding closed_in_def by (rotate_tac 2, induction rule: below.induct) blast+

lemma pids_ok_state [simp]: "pids_ok (set_state i st s) = pids_ok s"
proof -
  have *: "(slots s)[i := (slots s ! i)\<lparr>s_state := st\<rparr>] ! j =
      (if i = j \<and> j < length (slots s) then (slots s ! j)\<lparr>s_state := st\<rparr> else slots s ! j)" for j
    by (cases "i < length (slots s)") (auto simp: nth_list_update list_update_beyond)
  have "s_used ((slots s)[i := (slots s ! i)\<lparr>s_state := st\<rparr>] ! j) = s_used (slots s ! j)"
    "s_pid ((slots s)[i := (slots s ! i)\<lparr>s_state := st\<rparr>] ! j) = s_pid (slots s ! j)"
    "s_ppid ((slots s)[i := (slots s ! i)\<lparr>s_state := st\<rparr>] ! j) = s_ppid (slots s ! j)" for j
    unfolding * by simp_all
  then show ?thesis unfolding pids_ok_def by simp
qed

lemma pids_ok_unique:
  "pids_ok s \<Longrightarrow> i < PROC_MAX \<Longrightarrow> j < PROC_MAX \<Longrightarrow> s_used (slots s ! i) \<Longrightarrow> s_used (slots s ! j) \<Longrightarrow>
     s_pid (slots s ! i) \<noteq> 0 \<Longrightarrow> s_pid (slots s ! i) = s_pid (slots s ! j) \<Longrightarrow> i = j"
  unfolding pids_ok_def by blast

lemma find_pid:
  assumes ok: "pids_ok s" and i: "i < PROC_MAX" "s_used (slots s ! i)" "s_pid (slots s ! i) \<noteq> 0"
  shows "first_from (\<lambda>q. s_used q \<and> s_pid q = s_pid (slots s ! i)) (slots s) 0 = Some i"
proof (rule first_from_eq)
  have len: "length (slots s) = PROC_MAX" using ok by (simp add: pids_ok_def)
  show "i < length (slots s)" "s_used (slots s ! i) \<and> s_pid (slots s ! i) = s_pid (slots s ! i)" using i len by auto
  show "\<not> (s_used (slots s ! j) \<and> s_pid (slots s ! j) = s_pid (slots s ! i))" if "0 \<le> j" "j < i" for j
    using pids_ok_unique [OF ok i(1) _ i(2) _ i(3), of j] that i(1) by auto
qed simp

lemma reap_zombie:
  assumes "pids_ok s" and "i < PROC_MAX" "s_used (slots s ! i)" "s_pid (slots s ! i) \<noteq> 0" "s_state (slots s ! i) = PROC_ZOMBIE"
  shows "a_reap (s_pid (slots s ! i)) s = a_free i s" and "gone {i} s (a_free i s)"
  using find_pid [OF assms(1-4)] assms by (simp_all add: a_reap_def) (auto simp: gone_def a_free_def pids_ok_def)

text \<open>The number of processes younger than \<open>p\<close> bounds the depth of the recursion.\<close>

definition younger :: "sched \<Rightarrow> nat \<Rightarrow> nat set" where
  "younger s p = {i. i < PROC_MAX \<and> s_used (slots s ! i) \<and> s_pid (slots s ! p) < s_pid (slots s ! i)}"

lemma finite_younger [simp]: "finite (younger s p)"
  by (rule finite_subset [of _ "{..<PROC_MAX}"]) (auto simp: younger_def)

lemma younger_child:
  assumes ok: "pids_ok s" and g: "gone R s t" and p: "live s p" and c: "child_of s p i" "i \<notin> R"
  shows "card (younger t i) < card (younger s p)"
proof -
  have i: "i < PROC_MAX" "s_used (slots s ! i)" "s_pid (slots s ! p) < s_pid (slots s ! i)"
    using c child_pid [OF ok p c(1)] by (auto simp: child_of_def)
  have same: "s_used (slots t ! u) \<Longrightarrow> slots t ! u = slots s ! u" if "u < PROC_MAX" for u
    using g that unfolding gone_def by (metis (full_types))
  have ti: "slots t ! i = slots s ! i" using g i c(2) by (simp add: gone_def)
  have sub: "younger t i \<subseteq> younger s p - {i}"
  proof
    fix u assume u: "u \<in> younger t i"
    then have "slots t ! u = slots s ! u" using same by (simp add: younger_def)
    with u ti i show "u \<in> younger s p - {i}" by (auto simp: younger_def)
  qed
  have mem: "i \<in> younger s p" using i by (simp add: younger_def)
  have "card (younger t i) \<le> card (younger s p - {i})" by (rule card_mono [OF _ sub]) simp
  also have "\<dots> < card (younger s p)" by (rule card_Diff1_less [OF finite_younger mem])
  finally show ?thesis .
qed

definition kills :: "nat \<Rightarrow> bool" where
  "kills f \<longleftrightarrow> (\<forall>s p. pids_ok s \<and> live s p \<and> card (younger s p) < f \<longrightarrow>
     (\<exists>u. gone {j. below s p j} s u \<and> a_kill_one f p s = Some (set_state p PROC_ZOMBIE u)))"

lemma kill_child:
  assumes f: "kills f" and ok: "pids_ok s" and p: "live s p" and fuel: "card (younger s p) < Suc f"
    and g: "gone R s t" and cl: "closed_in s R" and i: "i \<notin> R" "child_of s p i"
  shows "\<exists>t' t''. a_kill_one f i t = Some t' \<and>
    t'' = (if s_used (slots t' ! i) \<and> s_state (slots t' ! i) = PROC_ZOMBIE then a_reap (s_pid (slots t ! i)) t' else t') \<and>
    gone (R \<union> insert i {j. below s i j}) s t''"
proof -
  have i': "i < PROC_MAX" "s_used (slots s ! i)" "1 < s_pid (slots s ! i)"
    using i child_pid [OF ok p i(2)] p by (auto simp: child_of_def live_def)
  have same: "slots t ! i = slots s ! i" using g i(1) i'(1) by (simp add: gone_def)
  have okt: "pids_ok t" by (rule gone_pids [OF ok g])
  have y: "card (younger t i) < f" using younger_child [OF ok g p i(2,1)] fuel by simp
  show ?thesis
  proof (cases "live s i")
    case True
    then have lt: "live t i" using same by (simp add: live_def)
    with f okt y obtain u where u: "gone {j. below t i j} t u" "a_kill_one f i t = Some (set_state i PROC_ZOMBIE u)"
      unfolding kills_def by blast
    let ?z = "set_state i PROC_ZOMBIE u"
    have ni: "\<not> below t i i" using below_facts [OF okt] by blast
    then have ui: "slots u ! i = slots t ! i" using u(1) i'(1) by (simp add: gone_def)
    have okz: "pids_ok ?z" using gone_pids [OF okt u(1)] by simp
    have len: "length (slots u) = PROC_MAX" using gone_pids [OF okt u(1)] by (simp add: pids_ok_def)
    have zi: "slots ?z ! i = (slots t ! i)\<lparr>s_state := PROC_ZOMBIE\<rparr>" using i'(1) len ui by simp
    have r: "a_reap (s_pid (slots t ! i)) ?z = a_free i ?z"
      using reap_zombie(1) [OF okz i'(1)] i' same len ui by simp
    have "gone (insert i {j. below t i j}) t (a_free i ?z)"
      using u(1) len i'(1) by (auto simp: gone_def a_free_def nth_list_update)
    then have "gone (R \<union> insert i {j. below t i j}) s (a_free i ?z)" by (rule gone_trans [OF g])
    moreover have "R \<union> insert i {j. below t i j} = R \<union> insert i {j. below s i j}"
      using gone_below [OF g cl _ i'(1) i(1)] below_gone [OF g _ i'(1) i(1)] by blast
    ultimately have "gone (R \<union> insert i {j. below s i j}) s (a_free i ?z)" by (simp only:)
    moreover have "a_free i ?z = (if s_used (slots ?z ! i) \<and> s_state (slots ?z ! i) = PROC_ZOMBIE
        then a_reap (s_pid (slots t ! i)) ?z else ?z)" using r zi i' same by simp
    ultimately show ?thesis using u(2) by blast
  next
    case False
    then have z: "s_state (slots s ! i) = PROC_ZOMBIE" and nb: "{j. below s i j} = {}"
      using i' below_facts [OF ok, of i] by (auto simp: live_def)
    from y obtain f' where f': "f = Suc f'" by (cases f) auto
    have fr: "gone {i} t (a_free i t)" and r: "a_reap (s_pid (slots t ! i)) t = a_free i t"
      using reap_zombie [OF okt i'(1)] i' z same by simp_all
    have "gone (R \<union> insert i {j. below s i j}) s (a_free i t)" using gone_trans [OF g fr] by (simp only: nb)
    moreover have "a_free i t = (if s_used (slots t ! i) \<and> s_state (slots t ! i) = PROC_ZOMBIE
        then a_reap (s_pid (slots t ! i)) t else t)" using r z i' same by simp
    moreover have "a_kill_one f i t = Some t" using i' z same by (simp add: f')
    ultimately show ?thesis by blast
  qed
qed

lemma kill_loop:
  assumes f: "kills f" and ok: "pids_ok s" and p: "live s p" and fuel: "card (younger s p) < Suc f"
  shows "gone R s t \<Longrightarrow> closed_in s R \<Longrightarrow> R \<subseteq> {j. below s p j} \<Longrightarrow> set is \<subseteq> {..<PROC_MAX} \<Longrightarrow>
    \<exists>t'. a_kill_children f p is t = Some t' \<and> gone (R \<union> {j. \<exists>i\<in>set is. child_of s p i \<and> (j = i \<or> below s i j)}) s t'"
proof (induction "is" arbitrary: R t)
  case (Cons i "is")
  have i: "i < PROC_MAX" "set is \<subseteq> {..<PROC_MAX}" using Cons.prems(4) by auto
  have "p \<notin> R" using Cons.prems(3) below_facts [OF ok, of p p] by blast
  then have tp: "slots t ! p = slots s ! p" using Cons.prems(1) p by (auto simp: gone_def live_def)
  show ?case
  proof (cases "child_of s p i \<and> i \<notin> R")
    case True
    note k = kill_child [OF f ok p fuel Cons.prems(1,2)]
    from k [of i] True obtain t' t'' where t: "a_kill_one f i t = Some t'"
      "t'' = (if s_used (slots t' ! i) \<and> s_state (slots t' ! i) = PROC_ZOMBIE then a_reap (s_pid (slots t ! i)) t' else t')"
      "gone (R \<union> insert i {j. below s i j}) s t''" by blast
    have cl: "closed_in s (R \<union> insert i {j. below s i j})"
      using Cons.prems(2) by (auto simp: closed_in_def intro: below.intros)
    have sub: "R \<union> insert i {j. below s i j} \<subseteq> {j. below s p j}"
      using Cons.prems(3) True below_split [OF p] by blast
    from Cons.IH [OF t(3) cl sub i(2)] obtain u where u: "a_kill_children f p is t'' = Some u"
      "gone (R \<union> insert i {j. below s i j} \<union> {j. \<exists>i\<in>set is. child_of s p i \<and> (j = i \<or> below s i j)}) s u" by blast
    have "s_used (slots t ! i) \<and> s_ppid (slots t ! i) = s_pid (slots t ! p)"
      using True tp Cons.prems(1) i(1) by (auto simp: child_of_def gone_def)
    then have "a_kill_children f p (i # is) t = Some u" using t(1,2) u(1) by (simp add: Let_def)
    moreover have "R \<union> insert i {j. below s i j} \<union> {j. \<exists>i\<in>set is. child_of s p i \<and> (j = i \<or> below s i j)} =
        R \<union> {j. \<exists>i\<in>set (i # is). child_of s p i \<and> (j = i \<or> below s i j)}" using True by auto
    ultimately show ?thesis using u(2) by (intro exI [of _ u]) (simp only: simp_thms)
  next
    case False
    have skip: "\<not> (s_used (slots t ! i) \<and> s_ppid (slots t ! i) = s_pid (slots t ! p))"
    proof (cases "i \<in> R")
      case True
      then show ?thesis using Cons.prems(1) i(1) by (simp add: gone_def)
    next
      case notin: False
      with False have "\<not> child_of s p i" by blast
      then show ?thesis using notin Cons.prems(1) i(1) tp by (simp add: gone_def child_of_def)
    qed
    have "{j. child_of s p i \<and> (j = i \<or> below s i j)} \<subseteq> R"
      using False closed_below [OF Cons.prems(2)] by blast
    then have "R \<union> {j. \<exists>i\<in>set (i # is). child_of s p i \<and> (j = i \<or> below s i j)} =
        R \<union> {j. \<exists>i\<in>set is. child_of s p i \<and> (j = i \<or> below s i j)}" by auto
    moreover have "a_kill_children f p (i # is) t = a_kill_children f p is t" using skip by (auto simp: Let_def)
    ultimately show ?thesis using Cons.IH [OF Cons.prems(1-3) i(2)] by (simp only: simp_thms)
  qed
qed auto

lemma kills_all: "kills f"
proof (induction f)
  case (Suc f)
  show ?case unfolding kills_def
  proof (intro allI impI, elim conjE)
    fix s p assume ok: "pids_ok s" and p: "live s p" and fuel: "card (younger s p) < Suc f"
    have "closed_in s {}" by (simp add: closed_in_def)
    from kill_loop [OF Suc ok p fuel gone_refl this, of "[0..<PROC_MAX]"] obtain t where
      t: "a_kill_children f p [0..<PROC_MAX] s = Some t" "gone {j. \<exists>i\<in>set [0..<PROC_MAX]. child_of s p i \<and> (j = i \<or> below s i j)} s t"
      by (auto simp: atLeast0LessThan)
    have "{j. \<exists>i\<in>set [0..<PROC_MAX]. child_of s p i \<and> (j = i \<or> below s i j)} = {j. below s p j}"
      by (auto simp: below_split [OF p] child_of_def)
    with t p show "\<exists>u. gone {j. below s p j} s u \<and> a_kill_one (Suc f) p s = Some (set_state p PROC_ZOMBIE u)"
      by (intro exI [of _ t]) (simp add: live_def Let_def del: set_upt upt.simps)
  qed
qed (simp add: kills_def)

lemma card_younger: "card (younger s p) \<le> PROC_MAX"
  using card_mono [of "{..<PROC_MAX}" "younger s p"] by (auto simp: younger_def)

section \<open>Loading and spawning\<close>

lemma view_elf_load [simp]: "view (snd (elf_load data size' k)) = view k"
  by (simp add: elf_load_def Let_def split_beta split: option.splits prod.splits)

lemma view_load_file [simp]: "view (snd (load_file path k)) = view k"
  by (simp add: load_file_def Let_def split_beta split: sum.splits option.splits prod.splits)

definition parent_pid :: "kern \<Rightarrow> int" where
  "parent_pid k = (case proc_current k of None \<Rightarrow> 1 | Some c \<Rightarrow> pid c)"

lemma current_next [simp]: "proc_current (k\<lparr>next_pid := n\<rparr>) = proc_current k"
  by (simp add: proc_current_def)

lemma view_fill_proc:
  assumes "i < length (procs k)"
  shows "view (fill_proc i path l stk ks k) =
    (upd_slot i (\<lambda>q. \<lparr>s_used = s_used q, s_pid = next_pid k, s_ppid = parent_pid k, s_state = PROC_READY\<rparr>) (view k))\<lparr>s_next := next_pid k + 1\<rparr>"
  unfolding fill_proc_def Let_def split_beta
  using assms by (simp add: map_update core_def parent_pid_def)

text \<open>The three outcomes of a spawn, as the scheduler sees them.\<close>

definition a_slot :: "nat \<Rightarrow> slot \<Rightarrow> sched \<Rightarrow> sched" where
  "a_slot i q s = upd_slot i (\<lambda>_. q) s"

lemma alloc_proc_view:
  assumes "alloc_proc k = Some (i, k')"
  shows "1 \<le> i \<and> i < length (procs k) \<and> \<not> used (procs k ! i) \<and> used (procs k' ! i) \<and> length (procs k') = length (procs k) \<and>
    next_pid k' = next_pid k \<and> current k' = current k \<and> kvfs k' = kvfs k \<and> (\<forall>j. j \<noteq> i \<longrightarrow> procs k' ! j = procs k ! j) \<and>
    view k' = a_slot i \<lparr>s_used = True, s_pid = 0, s_ppid = 0, s_state = PROC_FREE\<rparr> (view k)"
proof -
  obtain i' where i: "first_from (\<lambda>q. \<not> used q) (procs k) 1 = Some i'" "i' = i" "k' = upd_proc i (\<lambda>_. blank_proc\<lparr>used := True\<rparr>) k"
    using assms by (auto simp: alloc_proc_def split: option.splits)
  from first_from_Some [OF i(1)] i(2,3) show ?thesis
    by (auto simp: a_slot_def map_update core_def blank_proc_def)
qed

lemma view_spawn:
  assumes c: "current k = Some c" "c < length (procs k)" "used (procs k ! c)" and sp: "proc_spawn_elf path k = (r, k')"
  obtains (nothing) "view k' = view k" "r < 0 \<or> fst (load_file path k) = Inl r"
  | (leaked) i where "1 \<le> i" "i < length (procs k)" "\<not> used (procs k ! i)" "r = -1"
      "view k' = a_slot i \<lparr>s_used = True, s_pid = 0, s_ppid = 0, s_state = PROC_FREE\<rparr> (view k)"
  | (spawned) i where "1 \<le> i" "i < length (procs k)" "\<not> used (procs k ! i)" "r = next_pid k"
      "view k' = (a_slot i \<lparr>s_used = True, s_pid = next_pid k, s_ppid = pid (procs k ! c), s_state = PROC_READY\<rparr> (view k))\<lparr>s_next := next_pid k + 1\<rparr>"
proof -
  obtain res k1 where l: "load_file path k = (res, k1)" by fastforce
  have v1: "view k1 = view k" using view_load_file [of path k] l by simp
  note same = same_core [OF v1]
  show ?thesis
  proof (cases res)
    case (Inl e)
    with sp l v1 have "view k' = view k" "fst (load_file path k) = Inl r" by (auto simp: proc_spawn_elf_def)
    then show ?thesis by - (rule nothing, auto)
  next
    case (Inr ld)
    show ?thesis
    proof (cases "alloc_proc k1")
      case None
      with sp l Inr v1 have "view k' = view k" "r < 0" by (auto simp: proc_spawn_elf_def)
      then show ?thesis by - (rule nothing, auto)
    next
      case (Some ik)
      obtain i k2 where ik: "alloc_proc k1 = Some (i, k2)" using Some by (cases ik) simp
      note a = alloc_proc_view [OF ik]
      have len: "length (procs k1) = length (procs k)" by (rule same_length [OF v1])
      have i: "1 \<le> i" "i < length (procs k)" using a len by auto
      have nu: "\<not> used (procs k ! i)" using a same [of i] i len by (metis core_sel(1))
      have ic: "c \<noteq> i" using nu c by blast
      have v2: "view k2 = a_slot i \<lparr>s_used = True, s_pid = 0, s_ppid = 0, s_state = PROC_FREE\<rparr> (view k)" using a v1 by simp
      obtain so m where so: "mm_alloc_pages (USER_STACK_SIZE div PAGE_SIZE) (kmm k2) = (so, m)" by fastforce
      show ?thesis
      proof (cases so)
        case None
        with sp l Inr ik so v2 have "r = -1" "view k' = a_slot i \<lparr>s_used = True, s_pid = 0, s_ppid = 0, s_state = PROC_FREE\<rparr> (view k)"
          by (auto simp: proc_spawn_elf_def)
        with i nu show ?thesis by - (rule leaked, auto)
      next
        case (Some stk)
        let ?m = "m\<lparr>mem := mem_set_word (mem m) stk 0xDEADC0DE\<rparr>"
        obtain ko m' where ko: "mm_alloc_pages 4 ?m = (ko, m')" by fastforce
        show ?thesis
        proof (cases ko)
          case None
          with sp l Inr ik so Some ko v2 have "r = -1" "view k' = a_slot i \<lparr>s_used = True, s_pid = 0, s_ppid = 0, s_state = PROC_FREE\<rparr> (view k)"
            by (auto simp: proc_spawn_elf_def Let_def)
          with i nu show ?thesis by - (rule leaked, auto)
        next
          case (Some ks)
          let ?k = "set_kmm m' (set_kmm ?m k2)"
          have cur: "current k2 = Some c" "next_pid k2 = next_pid k"
            using a c(1) v1 by (metis view_sel(2), metis view_sel(3))
          have pc: "pid (procs k2 ! c) = pid (procs k ! c)"
            using a ic same [of c] c(2) len by (metis core_sel(2))
          have pp: "parent_pid ?k = pid (procs k ! c)" by (simp add: parent_pid_def proc_current_def cur pc)
          have "view (fill_proc i path ld stk ks ?k) =
              (a_slot i \<lparr>s_used = True, s_pid = next_pid k, s_ppid = pid (procs k ! c), s_state = PROC_READY\<rparr> (view k))\<lparr>s_next := next_pid k + 1\<rparr>"
          proof -
            have li: "i < length (procs ?k)" using i a len by simp
            have vk: "view ?k = a_slot i \<lparr>s_used = True, s_pid = 0, s_ppid = 0, s_state = PROC_FREE\<rparr> (view k)" using v2 by simp
            have np: "next_pid ?k = next_pid k" using cur by simp
            show ?thesis unfolding view_fill_proc [OF li] vk pp np using i(2) by (simp add: a_slot_def)
          qed
          moreover have "r = next_pid k" "k' = proc_ensure_resident (current (fill_proc i path ld stk ks ?k)) (fill_proc i path ld stk ks ?k)"
            using sp l Inr ik so \<open>so = Some stk\<close> ko Some cur by (auto simp: proc_spawn_elf_def Let_def)
          ultimately have "r = next_pid k" "view k' = (a_slot i \<lparr>s_used = True, s_pid = next_pid k, s_ppid = pid (procs k ! c), s_state = PROC_READY\<rparr> (view k))\<lparr>s_next := next_pid k + 1\<rparr>"
            by simp_all
          with i nu show ?thesis by - (rule spawned, auto)
        qed
      qed
    qed
  qed
qed

section \<open>The invariant of the scheduler\<close>

text \<open>
  The stack of suspended runs is a chain of callers from the running slot down to slot 0, the init
  process: \<open>b_child\<close> of a frame is what runs on top of it and \<open>b_prev\<close> who waits.
\<close>

fun linked :: "nat \<Rightarrow> block list \<Rightarrow> bool" where
  "linked c [] = (c = 0)"
| "linked c (b # bs) = (b_child b = c \<and> (case b_prev b of None \<Rightarrow> False | Some p \<Rightarrow> linked p bs))"

fun callers :: "block list \<Rightarrow> nat list" where
  "callers [] = []"
| "callers (b # bs) = (case b_prev b of None \<Rightarrow> [] | Some p \<Rightarrow> [p]) @ callers bs"

definition chain :: "sched \<Rightarrow> nat list" where
  "chain s = (case s_cur s of None \<Rightarrow> [] | Some c \<Rightarrow> c # callers (s_stack s))"

definition on_cpu :: "slot \<Rightarrow> bool" where
  "on_cpu q \<longleftrightarrow> s_used q \<and> s_pid q \<noteq> 0 \<and> s_state q \<in> {PROC_READY, PROC_RUNNING}"

definition sched_ok :: "sched \<Rightarrow> bool" where
  "sched_ok s \<longleftrightarrow> pids_ok s \<and> 1 < s_next s \<and> s_used (slots s ! 0) \<and> s_pid (slots s ! 0) = 1 \<and>
     (case s_cur s of None \<Rightarrow> False | Some c \<Rightarrow> linked c (s_stack s) \<and> s_state (slots s ! c) = PROC_RUNNING) \<and>
     distinct (chain s) \<and> (\<forall>i\<in>set (chain s). i < PROC_MAX \<and> on_cpu (slots s ! i)) \<and> length (s_stack s) \<le> BLOCK_STACK_MAX"

lemma chain_init: "linked c bs \<Longrightarrow> 0 \<in> set (c # callers bs)"
  by (induction c bs rule: linked.induct) (auto split: option.splits)

lemma sched_okD:
  assumes "sched_ok s"
  obtains c where "s_cur s = Some c" "c < PROC_MAX" "on_cpu (slots s ! c)" "linked c (s_stack s)" "pids_ok s" "length (slots s) = PROC_MAX"
proof (cases "s_cur s")
  case None
  with assms show ?thesis by (simp add: sched_ok_def)
next
  case (Some c)
  have p: "pids_ok s" "linked c (s_stack s)" using assms Some by (simp_all add: sched_ok_def)
  have "c \<in> set (chain s)" using Some by (simp add: chain_def)
  then have "c < PROC_MAX" "on_cpu (slots s ! c)" using assms by (simp_all add: sched_ok_def)
  moreover have "length (slots s) = PROC_MAX" using p by (simp add: pids_ok_def)
  ultimately show ?thesis using that Some p by blast
qed

lemma chain_update [simp]:
  "chain (s\<lparr>slots := x\<rparr>) = chain s" "chain (s\<lparr>slots := x, s_next := n\<rparr>) = chain s" "chain (s\<lparr>s_next := n\<rparr>) = chain s"
  by (simp_all add: chain_def split: option.split)

text \<open>An update of a slot off the chain that keeps the table's identities.\<close>

lemma ok_off_chain:
  assumes ok: "sched_ok s" and i: "i \<notin> set (chain s)" and p: "pids_ok (upd_slot i f s)"
  shows "sched_ok (upd_slot i f s)"
proof -
  obtain c where c: "s_cur s = Some c" "linked c (s_stack s)" using sched_okD [OF ok] by metis
  have "0 \<in> set (chain s)" "c \<in> set (chain s)" using chain_init [OF c(2)] c(1) by (auto simp: chain_def)
  with i have "i \<noteq> 0" "i \<noteq> c" by metis+
  moreover have "\<forall>j\<in>set (chain s). (slots s)[i := f (slots s ! i)] ! j = slots s ! j" using i by (metis nth_list_update_neq)
  ultimately show ?thesis using ok p c(1) by (simp add: sched_ok_def)
qed

lemma pids_ok_fields [simp]: "pids_ok (s\<lparr>s_cur := c\<rparr>) = pids_ok s" "pids_ok (s\<lparr>s_stack := b\<rparr>) = pids_ok s"
  by (simp_all add: pids_ok_def)

lemma pids_ok_free: "pids_ok s \<Longrightarrow> pids_ok (a_free i s)"
proof -
  assume ok: "pids_ok s"
  have "gone (if i < PROC_MAX then {i} else {}) s (a_free i s)"
    using ok by (auto simp: gone_def a_free_def pids_ok_def list_update_beyond)
  then show ?thesis by (rule gone_pids [OF ok])
qed

lemma pids_ok_fresh:
  assumes ok: "pids_ok s" and i: "i < PROC_MAX"
    and q: "s_used q" "(s_pid q = 0 \<and> s_ppid q = 0) \<or> (s_pid q = s_next s \<and> 0 \<le> s_ppid q \<and> s_ppid q < s_next s)"
    and n: "1 < s_next s"
  shows "pids_ok ((upd_slot i (\<lambda>_. q) s)\<lparr>s_next := if s_pid q = 0 then s_next s else s_next s + 1\<rparr>)"
proof -
  let ?t = "upd_slot i (\<lambda>_. q) s" let ?n = "if s_pid q = 0 then s_next s else s_next s + 1"
  have len: "length (slots s) = PROC_MAX" using ok by (simp add: pids_ok_def)
  have old: "0 \<le> s_pid (slots s ! j) \<and> s_pid (slots s ! j) < s_next s \<and>
      (if s_pid (slots s ! j) = 0 then s_ppid (slots s ! j) = 0 else 0 \<le> s_ppid (slots s ! j) \<and> s_ppid (slots s ! j) < s_pid (slots s ! j))"
    if "j < PROC_MAX" "s_used (slots s ! j)" for j using ok that unfolding pids_ok_def by blast
  have one: "0 \<le> s_pid (slots ?t ! j) \<and> s_pid (slots ?t ! j) < ?n \<and>
      (if s_pid (slots ?t ! j) = 0 then s_ppid (slots ?t ! j) = 0 else 0 \<le> s_ppid (slots ?t ! j) \<and> s_ppid (slots ?t ! j) < s_pid (slots ?t ! j))"
    if "j < PROC_MAX" "s_used (slots ?t ! j)" for j
  proof (cases "j = i")
    case True
    with q n i len show ?thesis by auto
  next
    case False
    with old [of j] that show ?thesis by auto
  qed
  have two: "j = k" if jk: "j < PROC_MAX" "k < PROC_MAX" "s_used (slots ?t ! j)" "s_used (slots ?t ! k)" "s_pid (slots ?t ! j) \<noteq> 0"
    "s_pid (slots ?t ! j) = s_pid (slots ?t ! k)" for j k
  proof (cases "j = i \<or> k = i")
    case True
    have "s_pid (slots ?t ! i) = s_pid q" using i len by simp
    moreover have "s_pid (slots ?t ! l) < s_next s" if "l \<noteq> i" "l < PROC_MAX" "s_used (slots ?t ! l)" for l
      using old [of l] that by simp
    ultimately show ?thesis using jk True q(2) by (metis less_irrefl)
  next
    case False
    with jk have "s_used (slots s ! j)" "s_used (slots s ! k)" "s_pid (slots s ! j) \<noteq> 0" "s_pid (slots s ! j) = s_pid (slots s ! k)" by simp_all
    with pids_ok_unique [OF ok jk(1,2)] show ?thesis by blast
  qed
  have A: "\<forall>j<PROC_MAX. s_used (slots ?t ! j) \<longrightarrow> 0 \<le> s_pid (slots ?t ! j) \<and> s_pid (slots ?t ! j) < ?n \<and>
      (if s_pid (slots ?t ! j) = 0 then s_ppid (slots ?t ! j) = 0 else 0 \<le> s_ppid (slots ?t ! j) \<and> s_ppid (slots ?t ! j) < s_pid (slots ?t ! j))"
    using one by blast
  have B: "\<forall>j<PROC_MAX. \<forall>k<PROC_MAX. s_used (slots ?t ! j) \<and> s_used (slots ?t ! k) \<and> s_pid (slots ?t ! j) \<noteq> 0 \<and>
      s_pid (slots ?t ! j) = s_pid (slots ?t ! k) \<longrightarrow> j = k" using two by blast
  have sel: "slots (?t\<lparr>s_next := ?n\<rparr>) = slots ?t" "s_next (?t\<lparr>s_next := ?n\<rparr>) = ?n" by simp_all
  have "length (slots ?t) = PROC_MAX" using len by simp
  then show ?thesis unfolding pids_ok_def sel by (intro conjI A B)
qed

lemma pids_ok_next: "pids_ok s \<Longrightarrow> s_next s \<le> n \<Longrightarrow> pids_ok (s\<lparr>s_next := n\<rparr>)"
  unfolding pids_ok_def by fastforce

lemma ok_fresh:
  assumes ok: "sched_ok s" and i: "i < PROC_MAX" "\<not> s_used (slots s ! i)"
    and q: "s_used q" "(s_pid q = 0 \<and> s_ppid q = 0) \<or> (s_pid q = s_next s \<and> 0 \<le> s_ppid q \<and> s_ppid q < s_next s)"
  shows "sched_ok ((upd_slot i (\<lambda>_. q) s)\<lparr>s_next := if s_pid q = 0 then s_next s else s_next s + 1\<rparr>)"
proof -
  obtain c where c: "s_cur s = Some c" "linked c (s_stack s)" "c < PROC_MAX" "on_cpu (slots s ! c)" "pids_ok s" using sched_okD [OF ok] by metis
  have n: "1 < s_next s" and ch: "\<forall>j\<in>set (chain s). j < PROC_MAX \<and> on_cpu (slots s ! j)" using ok by (auto simp: sched_ok_def)
  have "i \<notin> set (chain s)" using ch i by (auto simp: on_cpu_def)
  moreover have "0 \<in> set (chain s)" "c \<in> set (chain s)" using chain_init [OF c(2)] c(1) by (auto simp: chain_def)
  ultimately have ne: "i \<noteq> 0" "i \<noteq> c" "\<forall>j\<in>set (chain s). (slots s)[i := q] ! j = slots s ! j"
    by (metis, metis, metis nth_list_update_neq)
  have "sched_ok ((upd_slot i (\<lambda>_. q) s)\<lparr>s_next := m\<rparr>)"
    if "pids_ok ((upd_slot i (\<lambda>_. q) s)\<lparr>s_next := m\<rparr>)" "1 < m" for m
    using that ne ok c(1) by (simp add: sched_ok_def)
  from this [OF pids_ok_fresh [OF c(5) i(1) q n]] n show ?thesis by auto
qed

section \<open>Running and returning\<close>

lemma ok_run:
  assumes ok: "sched_ok s" and i: "i \<notin> set (chain s)" "i < PROC_MAX" "s_used (slots s ! i)" "s_pid (slots s ! i) \<noteq> 0"
    and room: "length (s_stack s) < BLOCK_STACK_MAX"
  shows "sched_ok (a_run i s)"
proof -
  obtain c where c: "s_cur s = Some c" "c < PROC_MAX" "on_cpu (slots s ! c)" "linked c (s_stack s)" "pids_ok s" "length (slots s) = PROC_MAX"
    using sched_okD [OF ok] by metis
  let ?s = "set_state i PROC_RUNNING (set_state c PROC_READY s)"
  have r: "a_run i s = ?s\<lparr>s_cur := Some i, s_stack := \<lparr>b_prev = Some c, b_child = i\<rparr> # s_stack s\<rparr>"
    by (simp add: a_run_def c(1) Let_def)
  have ch: "chain (a_run i s) = i # chain s" by (simp add: r chain_def c(1))
  have "0 \<in> set (chain s)" "c \<in> set (chain s)" using chain_init [OF c(4)] c(1) by (auto simp: chain_def)
  with i(1) have ic: "i \<noteq> c" "0 \<noteq> i" by metis+
  have st: "slots (a_run i s) ! j = (if j = i then (slots s ! i)\<lparr>s_state := PROC_RUNNING\<rparr> else
      if j = c then (slots s ! c)\<lparr>s_state := PROC_READY\<rparr> else slots s ! j)" if "j < PROC_MAX" for j
    using that c(6) ic by (simp add: r nth_list_update)
  have "pids_ok ?s" using c(5) by (intro pids_ok_state [THEN iffD2])
  then have p: "pids_ok (a_run i s)" by (simp add: r)
  have on: "\<forall>j\<in>set (i # chain s). j < PROC_MAX \<and> on_cpu (slots (a_run i s) ! j)"
  proof
    fix j assume j: "j \<in> set (i # chain s)"
    then have "j < PROC_MAX" using ok i(2) by (auto simp: sched_ok_def)
    moreover have "on_cpu (slots s ! j) \<or> j = i" using j ok by (auto simp: sched_ok_def)
    ultimately show "j < PROC_MAX \<and> on_cpu (slots (a_run i s) ! j)" using st [of j] i c(3) by (auto simp: on_cpu_def)
  qed
  have cur: "s_cur (a_run i s) = Some i" "linked i (s_stack (a_run i s))" "length (s_stack (a_run i s)) \<le> BLOCK_STACK_MAX"
    "s_next (a_run i s) = s_next s" using c(4) room by (simp_all add: r)
  have z: "s_used (slots (a_run i s) ! 0)" "s_pid (slots (a_run i s) ! 0) = 1"
    using st [of 0] ok ic by (auto simp: sched_ok_def PROC_MAX_def)
  have "s_state (slots (a_run i s) ! i) = PROC_RUNNING" using st [OF i(2)] by simp
  then show ?thesis using ok p cur z on i(1) unfolding sched_ok_def ch by simp
qed

lemma ok_back:
  assumes ok: "sched_ok (s\<lparr>slots := (slots s)[c := q']\<rparr>)" and "s_cur s = Some c" and p: "pids_ok s" and st: "s_stack s = b # bs"
    and same: "\<forall>j. j \<noteq> c \<longrightarrow> slots s ! j = (slots s)[c := q'] ! j"
  shows "sched_ok (a_back s) \<and> s_cur (a_back s) = b_prev b \<and> c \<notin> set (chain (a_back s))"
proof -
  let ?o = "s\<lparr>slots := (slots s)[c := q']\<rparr>"
  have lk: "linked c (b # bs)" using ok assms(2) st by (simp add: sched_ok_def)
  then obtain w where w: "b_prev b = Some w" "linked w bs" by (auto split: option.splits)
  have ch: "chain s = c # w # callers bs" using assms(2) st w by (simp add: chain_def)
  have d: "distinct (c # w # callers bs)" and cpu: "\<forall>i\<in>set (c # w # callers bs). i < PROC_MAX \<and> on_cpu (slots ?o ! i)"
    using ok ch unfolding sched_ok_def chain_update by metis+
  have len: "length (slots s) = PROC_MAX" using p by (simp add: pids_ok_def)
  have bk: "a_back s = (set_state w PROC_RUNNING s)\<lparr>s_stack := bs, s_cur := Some w\<rparr>"
    by (simp add: a_back_def st w Let_def)
  have ch': "chain (a_back s) = w # callers bs" by (simp add: bk chain_def)
  have "pids_ok (set_state w PROC_RUNNING s)" using p by simp
  then have pb: "pids_ok (a_back s)" by (simp add: bk)
  have cw: "c \<noteq> w" "c \<notin> set (callers bs)" using d by auto
  have sl: "slots (a_back s) ! j = (if j = w then (slots s ! w)\<lparr>s_state := PROC_RUNNING\<rparr> else slots s ! j)" if "j < PROC_MAX" for j
    using that len by (simp add: bk nth_list_update)
  have on: "on_cpu (slots s ! j)" if "j \<in> set (w # callers bs)" for j
  proof -
    have "j \<noteq> c" using that cw by auto
    then have "slots s ! j = slots ?o ! j" using same by simp
    with cpu that show ?thesis by (metis list.set_intros(2))
  qed
  have "0 \<in> set (w # callers bs)" using chain_init [OF w(2)] .
  moreover have "c \<notin> set (w # callers bs)" using cw by simp
  ultimately have z: "0 \<noteq> c" by metis
  have z': "s_used (slots s ! 0)" "s_pid (slots s ! 0) = 1" 
  proof -
    have "s_used (slots ?o ! 0)" "s_pid (slots ?o ! 0) = 1" using ok unfolding sched_ok_def by blast+
    moreover have "slots ?o ! 0 = slots s ! 0" using same z by simp
    ultimately show "s_used (slots s ! 0)" "s_pid (slots s ! 0) = 1" by metis+
  qed
  have on': "\<forall>j\<in>set (w # callers bs). j < PROC_MAX \<and> on_cpu (slots (a_back s) ! j)"
  proof
    fix j assume j: "j \<in> set (w # callers bs)"
    then have "j < PROC_MAX" using cpu by auto
    then show "j < PROC_MAX \<and> on_cpu (slots (a_back s) ! j)" using on [OF j] sl [of j] by (cases "j = w") (simp_all add: on_cpu_def)
  qed
  have w': "w < PROC_MAX" "length bs \<le> BLOCK_STACK_MAX" "1 < s_next s" using cpu ok st by (auto simp: sched_ok_def)
  have cur: "s_cur (a_back s) = Some w" "s_stack (a_back s) = bs" "s_next (a_back s) = s_next s" by (simp_all add: bk)
  have "s_used (slots (a_back s) ! 0)" "s_pid (slots (a_back s) ! 0) = 1" "s_state (slots (a_back s) ! w) = PROC_RUNNING"
    using sl [of 0] sl [OF w'(1)] z' by (auto simp: PROC_MAX_def)
  then have "sched_ok (a_back s)" unfolding sched_ok_def ch' cur using pb w w' d on' by simp
  then show ?thesis using w cw by (simp add: cur ch')
qed

section \<open>The code follows the abstract scheduler\<close>

lemma view_run_blocking:
  assumes c: "current k = Some c" "c < length (procs k)" and p: "p < length (procs k)" "p \<noteq> c"
    and run: "proc_run_blocking (Some p) k = (r, k')"
  shows "case r of
      Runs q e \<Rightarrow> q = p \<and> length (block_stack k) < BLOCK_STACK_MAX \<and> view k' = a_run p (view k)
    | Returns v \<Rightarrow> view k' = view k \<or>
        view k' = set_state p PROC_READY (set_state c PROC_RUNNING (set_state p PROC_RUNNING (set_state c PROC_READY (view k))))"
proof (cases "length (block_stack k) \<ge> BLOCK_STACK_MAX")
  case True
  with run show ?thesis by (auto simp: proc_run_blocking_def)
next
  case False
  let ?v = "set_state p PROC_RUNNING (set_state c PROC_READY (view k))"
  define k1 where "k1 = (let k = upd_proc c (\<lambda>q. q\<lparr>state := PROC_READY\<rparr>) k;
       k = upd_proc p (\<lambda>q. q\<lparr>state := PROC_RUNNING, block_parent := Some c\<rparr>) (k\<lparr>current := Some p\<rparr>);
       k = tty_set_fg (pid (procs k ! p)) (k\<lparr>fg_pid := pid (procs k ! p)\<rparr>);
       k = k\<lparr>tss_esp0 := kstack_top (procs k ! p), resume_yielded := False\<rparr>
     in k)"
  define k2 where "k2 = proc_ensure_resident (Some p) (upd_proc p (\<lambda>q. q\<lparr>started := True\<rparr>) k1)"
  define eip where "eip = (if user_eip (procs k1 ! p) \<noteq> 0 then user_eip (procs k1 ! p) else entry (procs k1 ! p))"
  have v1: "view k1 = ?v\<lparr>s_cur := Some p\<rparr>" using c p by (simp add: k1_def Let_def map_update tty_set_fg_def)
  have l1: "length (procs k1) = length (procs k)" by (simp add: k1_def Let_def tty_set_fg_def)
  have "view (upd_proc p (\<lambda>q. q\<lparr>started := True\<rparr>) k1) = view k1" using p l1 by (simp add: map_update)
  then have v2: "view k2 = ?v\<lparr>s_cur := Some p\<rparr>" by (simp add: k2_def v1)
  have l2: "length (procs k2) = length (procs k)" using v2 by (metis l1 same_length v1)
  have cs: "map core (procs k2) = slots ?v" using v2 by (metis (no_types, lifting) sched.select_convs(1) sched.surjective sched.update_convs(2) view_sel(1))
  have st: "block_stack k2 = block_stack k" using v2 by (metis (no_types, lifting) sched.select_convs(4) sched.surjective sched.update_convs(1,2) view_sel(4))
  have run': "proc_run_blocking (Some p) k =
    (if image_evicted (procs k2 ! p) then
       (Returns (-2), upd_proc p (\<lambda>q. q\<lparr>state := PROC_READY\<rparr>) (upd_proc c (\<lambda>q. q\<lparr>state := PROC_RUNNING\<rparr>) (k2\<lparr>current := Some c\<rparr>)))
     else let k = k2\<lparr>block_stack := \<lparr>b_prev = Some c, b_child = p\<rparr> # block_stack k2\<rparr> in
       if saved_kframe (procs k ! p) \<noteq> 0 then
         let f = saved_kframe (procs k ! p); m = kmm k; m = m\<lparr>mem := mem_set_word (mem m) (f + 28) (user_eax (procs k ! p))\<rparr>
         in (Runs p (Resume f), upd_proc p (\<lambda>q. q\<lparr>saved_kframe := 0\<rparr>) (set_kmm m k))
       else (Runs p (Jump eip (user_esp (procs k1 ! p)) (user_eax (procs k ! p))), k))"
    using False unfolding proc_run_blocking_def option.case c(1) Let_def k2_def eip_def k1_def by simp
  have fin: "view (k2\<lparr>current := Some c\<rparr>) = ?v" using v2 c by (simp add: view_def)
  have ret: "view (upd_proc p (\<lambda>q. q\<lparr>state := PROC_READY\<rparr>) (upd_proc c (\<lambda>q. q\<lparr>state := PROC_RUNNING\<rparr>) (k2\<lparr>current := Some c\<rparr>))) =
      set_state p PROC_READY (set_state c PROC_RUNNING ?v)"
  proof -
    have "map core (procs k2) ! c = slots ?v ! c" "map core (procs k2) ! p = slots ?v ! p" unfolding cs by (rule refl)+
    then have "core (procs k2 ! c) = (core (procs k ! c))\<lparr>s_state := PROC_READY\<rparr>"
      "core (procs k2 ! p) = (core (procs k ! p))\<lparr>s_state := PROC_RUNNING\<rparr>" using c p l2 by simp_all
    then show ?thesis using c p l2 cs fin by (simp add: map_update)
  qed
  have go: "view (k2\<lparr>block_stack := \<lparr>b_prev = Some c, b_child = p\<rparr> # block_stack k2\<rparr>) = a_run p (view k)"
    using c by (simp add: v2 a_run_def st Let_def)
  have go2: "(a_run p (view k))\<lparr>slots := map core (procs k2)\<rparr> = a_run p (view k)"
    using slots_same [of "k2\<lparr>block_stack := \<lparr>b_prev = Some c, b_child = p\<rparr> # block_stack k2\<rparr>"] unfolding go by simp
  show ?thesis
    using run False ret go go2 p l2 unfolding run'
    by (auto simp: Let_def map_update split: if_splits)
qed

lemma same_state: "s_state q = st \<Longrightarrow> q\<lparr>s_state := st\<rparr> = q"
  by (cases q) simp

lemma states_back:
  assumes ok: "sched_ok s" and c: "s_cur s = Some c" and p: "p \<notin> set (chain s)" "p < PROC_MAX"
  shows "set_state p PROC_READY (set_state c PROC_RUNNING (set_state p PROC_RUNNING (set_state c PROC_READY s))) = set_state p PROC_READY s"
proof -
  obtain c' where c': "s_cur s = Some c'" "c' < PROC_MAX" "length (slots s) = PROC_MAX" using sched_okD [OF ok] by metis
  have r: "s_state (slots s ! c) = PROC_RUNNING" using ok c by (simp add: sched_ok_def)
  have pc: "p \<noteq> c" using p(1) c by (auto simp: chain_def)
  have "slots (set_state p PROC_READY (set_state c PROC_RUNNING (set_state p PROC_RUNNING (set_state c PROC_READY s)))) =
      slots (set_state p PROC_READY s)"
  proof (rule nth_equalityI)
    fix j assume "j < length (slots (set_state p PROC_READY (set_state c PROC_RUNNING (set_state p PROC_RUNNING (set_state c PROC_READY s)))))"
    then show "slots (set_state p PROC_READY (set_state c PROC_RUNNING (set_state p PROC_RUNNING (set_state c PROC_READY s)))) ! j =
        slots (set_state p PROC_READY s) ! j"
      using pc c c' p(2) same_state [OF r] by (simp add: nth_list_update)
  qed simp
  then show ?thesis by simp
qed

lemma ok_set_off_chain: "sched_ok s \<Longrightarrow> p \<notin> set (chain s) \<Longrightarrow> sched_ok (set_state p st s)"
  by (rule ok_off_chain) (simp_all add: sched_ok_def)

lemma view_collect: "view (snd (wait_collect i k)) =
    (if state (procs k ! i) = PROC_ZOMBIE then a_reap (pid (procs k ! i)) (view k) else view k)"
  by (simp add: wait_collect_def Let_def view_reap)

lemma ok_reap:
  assumes "sched_ok s"
  shows "sched_ok (a_reap p s)"
proof (cases "first_from (\<lambda>q. s_used q \<and> s_pid q = p) (slots s) 0")
  case (Some i)
  have ch: "\<forall>j\<in>set (chain s). on_cpu (slots s ! j)" and ok: "pids_ok s" using assms by (simp_all add: sched_ok_def)
  show ?thesis
  proof (cases "s_state (slots s ! i) = PROC_ZOMBIE")
    case True
    then have "i \<notin> set (chain s)" using ch by (auto simp: on_cpu_def)
    from ok_off_chain [OF assms this] pids_ok_free [OF ok, of i] show ?thesis
      using Some True by (simp add: a_reap_def a_free_def)
  qed (use Some assms in \<open>simp add: a_reap_def\<close>)
qed (use assms in \<open>simp add: a_reap_def\<close>)

lemma view_exit:
  assumes c: "current k = Some c" "c < length (procs k)" and w: "\<forall>b\<in>set (block_stack k). \<forall>p. b_prev b = Some p \<longrightarrow> p < length (procs k)"
  shows "proc_exit code k = (Some r, k') \<Longrightarrow> view k' = a_back (set_state c PROC_ZOMBIE (view k))"
    and "proc_yield_to_parent f k = (Some r, k') \<Longrightarrow> view k' = a_back (set_state c PROC_READY (view k))"
proof -
  let ?k = "(upd_proc c (\<lambda>q. q\<lparr>exit_code := code, state := PROC_ZOMBIE, saved_kframe := 0\<rparr>) k)\<lparr>resume_yielded := False\<rparr>"
  have "view ?k = set_state c PROC_ZOMBIE (view k)" using c by (simp add: map_update)
  with view_back [of ?k] w have e: "view (snd (proc_return_to_kernel ?k)) = a_back (set_state c PROC_ZOMBIE (view k))" by simp
  show "proc_exit code k = (Some r, k') \<Longrightarrow> view k' = a_back (set_state c PROC_ZOMBIE (view k))"
    using e c by (auto simp: proc_exit_def split: if_splits)
  let ?w = "\<lambda>i. mem_word (mem (kmm k)) (f + 4 * i)"
  let ?y = "(upd_proc c (\<lambda>q. q\<lparr>user_eip := ?w 12, user_esp := ?w 15, user_eax := ?w 7, saved_kframe := f, state := PROC_READY\<rparr>) k)\<lparr>resume_yielded := True\<rparr>"
  have "view ?y = set_state c PROC_READY (view k)" using c by (simp add: map_update)
  with view_back [of ?y] w have y: "view (snd (proc_return_to_kernel ?y)) = a_back (set_state c PROC_READY (view k))" by simp
  show "proc_yield_to_parent f k = (Some r, k') \<Longrightarrow> view k' = a_back (set_state c PROC_READY (view k))"
    using y c by (auto simp: proc_yield_to_parent_def Let_def split: if_splits)
qed

lemma stack_below:
  assumes ok: "sched_ok (view k)"
  shows "\<forall>b\<in>set (block_stack k). \<forall>p. b_prev b = Some p \<longrightarrow> p < length (procs k)"
proof -
  have *: "b \<in> set bs \<Longrightarrow> b_prev b = Some p \<Longrightarrow> p \<in> set (callers bs)" for b p bs
    by (induction bs) auto
  have "length (procs k) = PROC_MAX" using ok by (auto simp: sched_ok_def pids_ok_def)
  moreover have "p < PROC_MAX" if "p \<in> set (callers (block_stack k))" for p
    using ok that by (auto simp: sched_ok_def chain_def split: option.splits)
  ultimately show ?thesis using * by metis
qed

lemma ok_leave:
  assumes ok: "sched_ok (view k)" and c: "current k = Some c" and st: "block_stack k = b # bs"
  shows "sched_ok (a_back (set_state c st' (view k))) \<and> s_cur (a_back (set_state c st' (view k))) = b_prev b \<and>
    c \<notin> set (chain (a_back (set_state c st' (view k))))"
proof (rule ok_back [where q' = "core (procs k ! c)"])
  have len: "length (slots (view k)) = PROC_MAX" "c < PROC_MAX" and p: "pids_ok (view k)"
    using sched_okD [OF ok] c by (metis, metis option.inject view_sel(2), metis)
  show "s_cur (set_state c st' (view k)) = Some c" "s_stack (set_state c st' (view k)) = b # bs" using c st by simp_all
  show "pids_ok (set_state c st' (view k))" by (rule pids_ok_state [THEN iffD2, OF p])
  show "sched_ok (set_state c st' (view k)\<lparr>slots := (slots (set_state c st' (view k)))[c := core (procs k ! c)]\<rparr>)"
    using ok by simp
  show "\<forall>j. j \<noteq> c \<longrightarrow> slots (set_state c st' (view k)) ! j = (slots (set_state c st' (view k)))[c := core (procs k ! c)] ! j" by simp
qed

end
