(* ===== verification/SchedSpec.thy ===== *)
theory SchedSpec
  imports Sched DisplaySpec
begin

text \<open>
  What the scheduler guarantees: a process that exits returns to its waiter, every reachable table
  has one running process, and a kill ends and removes the processes below its target.
\<close>

section \<open>What swapping leaves alone\<close>

definition strip :: "proc \<Rightarrow> proc" where
  "strip q = q\<lparr>image_shadow := 0, image_evicted := False\<rparr>"

definition stripped :: "kern \<Rightarrow> proc list" where
  "stripped k = map strip (procs k)"

lemma strip_swap: "map strip ((procs k)[i := (procs k ! i)\<lparr>image_shadow := a, image_evicted := b\<rparr>]) = stripped k"
  "map strip ((procs k)[i := (procs k ! i)\<lparr>image_shadow := a\<rparr>]) = stripped k"
  by (cases "i < length (procs k)"; simp add: stripped_def map_update strip_def list_update_same_conv list_update_beyond)+

lemma stripped_swap_out [simp]: "stripped (snd (swap_out i k)) = stripped k"
  unfolding swap_out_def Let_def
  by (simp split: option.splits prod.splits) (simp add: stripped_def [of "k\<lparr>kvfs := v, procs := q\<rparr>" for v q] strip_swap)

lemma stripped_displace_loop [simp]: "stripped (snd (displace_loop p is k)) = stripped k"
proof (induction "is" arbitrary: k)
  case (Cons i "is")
  have "stripped (snd (if fst (swap_out i k) then displace_loop p is (snd (swap_out i k)) else (False, snd (swap_out i k)))) = stripped k"
    by (simp add: Cons.IH)
  with Cons.IH show ?case by (simp add: Let_def split_beta)
qed simp

lemma stripped_evict_loop [simp]: "stripped (snd (evict_loop lo hi is k)) = stripped k"
proof (induction "is" arbitrary: k)
  case (Cons i "is")
  have "stripped (snd (if fst (swap_out i k) then evict_loop lo hi is (snd (swap_out i k)) else (False, snd (swap_out i k)))) = stripped k"
    by (simp add: Cons.IH)
  with Cons.IH show ?case by (simp add: Let_def split_beta)
qed simp

lemma stripped_ensure [simp]: "stripped (proc_ensure_resident po k) = stripped k"
proof (cases po)
  case (Some p)
  let ?k = "snd (displace_loop p [0..<PROC_MAX] k)"
  have "map strip ((procs ?k)[p := (procs ?k ! p)\<lparr>image_shadow := 0, image_evicted := False\<rparr>]) = stripped k"
    by (simp only: strip_swap stripped_displace_loop)
  then show ?thesis unfolding proc_ensure_resident_def Some option.case Let_def split_beta
    by (simp add: stripped_def [of "k\<lparr>kvfs := v, procs := q\<rparr>" for k v q])
qed (simp add: proc_ensure_resident_def)

lemma stripped_nth: "stripped k = stripped k' \<Longrightarrow> j < length (procs k) \<Longrightarrow> strip (procs k ! j) = strip (procs k' ! j)"
  unfolding stripped_def by (metis length_map nth_map)

lemma strip_sel [simp]: "exit_code (strip q) = exit_code q" "pid (strip q) = pid q" "state (strip q) = state q" "used (strip q) = used q"
  "image (strip q) = image q" "image_pages (strip q) = image_pages q"
  by (simp_all add: strip_def)

lemma kernel_frames [frame_simps]:
  "block_stack (proc_ensure_resident po k) = block_stack k" "current (proc_ensure_resident po k) = current k"
  "fg_pid (proc_ensure_resident po k) = fg_pid k"
proof -
  have v: "view (proc_ensure_resident po k) = view k" by simp
  show "block_stack (proc_ensure_resident po k) = block_stack k" "current (proc_ensure_resident po k) = current k"
    using v by (metis view_sel(4), metis view_sel(2))
  have s: "fg_pid (snd (swap_out i k)) = fg_pid k" for i k by (simp add: swap_out_def Let_def split: option.splits prod.splits)
  have "fg_pid (snd (displace_loop p is k)) = fg_pid k" for p "is" k
  proof (induction "is" arbitrary: k)
    case (Cons i "is")
    have "fg_pid (snd (if fst (swap_out i k) then displace_loop p is (snd (swap_out i k)) else (False, snd (swap_out i k)))) = fg_pid k"
      by (simp add: Cons.IH s)
    with Cons.IH show ?case by (simp add: Let_def split_beta)
  qed simp
  then show "fg_pid (proc_ensure_resident po k) = fg_pid k"
    by (simp add: proc_ensure_resident_def Let_def split_beta split: option.splits)
qed

section \<open>What a kill and a reap leave alone\<close>

text \<open>
  A slot is either left as it was, every field of it, or it was in use and has become free or a zombie. So a slot whose use and
  state are the same has not changed at all.
\<close>

definition ends :: "proc \<Rightarrow> proc \<Rightarrow> bool" where
  "ends q q' \<longleftrightarrow> q' = q \<or> used q \<and> (\<not> used q' \<or> state q' = PROC_ZOMBIE \<and> state q \<noteq> PROC_ZOMBIE)"

lemma ends_refl [simp]: "ends q q"
  by (simp add: ends_def)

lemma ends_trans: "ends q r \<Longrightarrow> ends r u \<Longrightarrow> ends q u"
  by (auto simp: ends_def)

lemma ends_core: "ends q q' \<Longrightarrow> core q' = core q \<Longrightarrow> q' = q"
  by (auto simp: ends_def dest: arg_cong [of _ _ s_used] arg_cong [of _ _ s_state])

lemma ends_reap: "ends (procs k ! j) (procs (snd (proc_reap p k)) ! j)"
  by (cases "proc_get p k") (auto simp: proc_reap_def reap_slot_def Let_def ends_def nth_list_update_if proc_get_def dest: first_from_Some)

lemma ends_kill:
  "kill_one f p k = Some k' \<Longrightarrow> ends (procs k ! j) (procs k' ! j)"
  "kill_children f p is k = Some k' \<Longrightarrow> ends (procs k ! j) (procs k' ! j)"
proof (induction f p k and f p "is" k arbitrary: k' and k' rule: kill_one_kill_children.induct)
  case (2 fuel p k)
  show ?case
  proof (cases "used (procs k ! p) \<and> pid (procs k ! p) > 1 \<and> state (procs k ! p) \<noteq> PROC_ZOMBIE")
    case True
    then obtain t where t: "kill_children fuel p [0..<PROC_MAX] k = Some t" "k' = make_zombie p (destroy_windows (pid (procs t ! p)) t)"
      using "2.prems" by (auto simp: Let_def split: option.splits)
    have "procs (destroy_windows x t) = procs t" for x by (simp add: destroy_windows_def split_beta)
    with True "2.IH" [of "procs k ! p" t] t show ?thesis
      by (auto simp: make_zombie_def nth_list_update_if ends_def)
  qed (use "2.prems" in \<open>auto simp: Let_def split: if_splits\<close>)
next
  case (4 fuel p i "is" k)
  show ?case
  proof (cases "used (procs k ! i) \<and> ppid (procs k ! i) = pid (procs k ! p)")
    case True
    with "4.prems" obtain t where t: "kill_one fuel i k = Some t" by (auto simp: Let_def split: option.splits)
    let ?t = "if used (procs t ! i) \<and> state (procs t ! i) = PROC_ZOMBIE then snd (proc_reap (pid (procs k ! i)) t) else t"
    have "kill_children fuel p is ?t = Some k'" using "4.prems" True t by (simp add: Let_def)
    then have "ends (procs ?t ! j) (procs k' ! j)" using "4.IH"(2) [OF refl True t] by simp
    moreover have "ends (procs t ! j) (procs ?t ! j)" by (simp add: ends_reap)
    moreover have "ends (procs k ! j) (procs t ! j)" using "4.IH"(1) [OF refl True t] .
    ultimately show ?thesis by (blast intro: ends_trans)
  qed (use "4.prems" "4.IH"(3) in \<open>auto simp: Let_def\<close>)
qed simp_all

section \<open>Exit returns to the waiter\<close>

lemma return_facts:
  assumes st: "block_stack k = b # bs" and w: "b_prev b = Some w" "w < length (procs k)"
    and r: "proc_return_to_kernel k = (Some (i, v), k')"
  shows "i = b_child b \<and> v = (if resume_yielded k then -2 else case current k of None \<Rightarrow> 0 | Some c \<Rightarrow> exit_code (procs k ! c)) \<and>
    current k' = Some w \<and> block_stack k' = bs \<and> fg_pid k' = pid (procs k ! w) \<and> length (procs k') = length (procs k) \<and>
    (\<forall>j < length (procs k). exit_code (procs k' ! j) = exit_code (procs k ! j) \<and> pid (procs k' ! j) = pid (procs k ! j) \<and>
       strip (procs k' ! j) = strip (if j = w then (procs k ! j)\<lparr>state := PROC_RUNNING\<rparr> else procs k ! j))"
proof -
  define k1 where "k1 = (let k = k\<lparr>block_stack := bs, resume_yielded := False, current := b_prev b\<rparr>;
      k = k\<lparr>tss_esp0 := (if kstack_top (procs k ! w) \<noteq> 0 then kstack_top (procs k ! w) else boot_stack k)\<rparr>;
      k = tty_set_fg (pid (procs k ! w)) (k\<lparr>fg_pid := pid (procs k ! w)\<rparr>)
    in upd_proc w (\<lambda>q. q\<lparr>state := PROC_RUNNING\<rparr>) k)"
  have k1: "current k1 = Some w" "block_stack k1 = bs" "fg_pid k1 = pid (procs k ! w)" "length (procs k1) = length (procs k)"
    "procs k1 = (procs k)[w := (procs k ! w)\<lparr>state := PROC_RUNNING\<rparr>]"
    using w by (simp_all add: k1_def Let_def tty_set_fg_def)
  have k': "k' = proc_ensure_resident (Some w) k1" "i = b_child b"
    "v = (if resume_yielded k then -2 else case current k of None \<Rightarrow> 0 | Some c \<Rightarrow> exit_code (procs k ! c))"
    using r st w unfolding proc_return_to_kernel_def k1_def by (auto simp: Let_def)
  have "stripped k' = stripped k1" by (simp add: k')
  then have len: "length (procs k') = length (procs k1)" by (metis length_map stripped_def)
  have sj: "strip (procs k' ! j) = strip (procs k1 ! j)" if "j < length (procs k)" for j
    using stripped_nth [OF \<open>stripped k' = stripped k1\<close>] that len k1 by simp
  then have "exit_code (procs k' ! j) = exit_code (procs k1 ! j) \<and> pid (procs k' ! j) = pid (procs k1 ! j)" if "j < length (procs k)" for j
    using that by (metis strip_sel(1,2))
  moreover have "exit_code (procs k1 ! j) = exit_code (procs k ! j) \<and> pid (procs k1 ! j) = pid (procs k ! j)" for j
    using w by (cases "j = w") (simp_all add: k1)
  moreover have "strip (procs k' ! j) = strip (if j = w then (procs k ! j)\<lparr>state := PROC_RUNNING\<rparr> else procs k ! j)" if "j < length (procs k)" for j
    using sj [OF that] w by (cases "j = w") (simp_all add: k1)
  ultimately show ?thesis using k' k1 len by (simp add: frame_simps)
qed

text \<open>
  Property C21. A process that exits returns to the process that waits for it: the waiter's \<open>proc_wait\<close> gets the
  child's pid and its exit code, runs again in the foreground with the stack of suspended calls as
  it was before the child ran, and the child's slot is free. Nothing else of the waiter but its state, and nothing of any
  other process, is changed, but for where an image lies: bringing the waiter's image back may move others out.
\<close>

theorem proc_exit_wakes_waiter:
  assumes ok: "sched_ok (view k)" and c: "current k = Some c" and st: "block_stack k = b # bs"
    and ex: "proc_exit code k = (Some (i, v), k1)" and col: "wait_collect i k1 = (res, k2)"
  shows "i = c \<and> v = code \<and> res = (pid (procs k ! c), code) \<and> \<not> used (procs k2 ! c) \<and> block_stack k2 = bs \<and>
    (\<exists>w. b_prev b = Some w \<and> current k2 = Some w \<and> fg_pid k2 = pid (procs k ! w) \<and>
      strip (procs k2 ! w) = strip ((procs k ! w)\<lparr>state := PROC_RUNNING\<rparr>) \<and>
      (\<forall>j < PROC_MAX. j \<noteq> c \<and> j \<noteq> w \<longrightarrow> strip (procs k2 ! j) = strip (procs k ! j))) \<and> sched_ok (view k2)"
proof -
  have base: "length (procs k) = PROC_MAX" "c < PROC_MAX" "linked c (b # bs)" "on_cpu (slots (view k) ! c)" "pids_ok (view k)"
    using sched_okD [OF ok] c st by (metis length_map view_sel(1), metis option.inject view_sel(2), metis option.inject view_sel(2,4),
      metis option.inject view_sel(2), metis)
  then obtain w where w: "b_prev b = Some w" "b_child b = c" by (auto split: option.splits)
  let ?z = "(upd_proc c (\<lambda>q. q\<lparr>exit_code := code, state := PROC_ZOMBIE, saved_kframe := 0\<rparr>) k)\<lparr>resume_yielded := False\<rparr>"
  have below: "\<forall>b\<in>set (block_stack k). \<forall>p. b_prev b = Some p \<longrightarrow> p < length (procs k)" by (rule stack_below [OF ok])
  then have wl: "w < length (procs k)" using w st by auto
  have cl: "c < length (procs k)" using base by simp
  have ex': "proc_return_to_kernel ?z = (Some (i, v), k1)" using ex c by (simp add: proc_exit_def split: if_splits)
  note rf = return_facts [of ?z b bs w, OF _ w(1) _ ex']
  have f: "i = c" "v = code" "current k1 = Some w" "block_stack k1 = bs" "length (procs k1) = PROC_MAX"
    "exit_code (procs k1 ! c) = code" "pid (procs k1 ! c) = pid (procs k ! c)" "fg_pid k1 = pid (procs k ! w)"
    using rf st wl w(2) c cl base by (auto simp: nth_list_update)
  let ?s = "a_back (set_state c PROC_ZOMBIE (view k))"
  have v1: "view k1 = ?s" by (rule view_exit(1) [OF c cl below ex])
  note bk = ok_leave [OF ok c st, of PROC_ZOMBIE]
  have cw: "c \<noteq> w" using bk w v1 f by (auto simp: chain_def)
  have sl: "slots ?s ! j = (if j = w then (core (procs k ! w))\<lparr>s_state := PROC_RUNNING\<rparr>
      else if j = c then (core (procs k ! c))\<lparr>s_state := PROC_ZOMBIE\<rparr> else core (procs k ! j))" if "j < PROC_MAX" for j
    using that cw wl cl st w base(1) by (simp add: a_back_def Let_def nth_list_update)
  have core1: "core (procs k1 ! j) = slots ?s ! j" if "j < PROC_MAX" for j
    using that f(5) view_upd [of j k1] by (metis v1)
  have z: "state (procs k1 ! c) = PROC_ZOMBIE" using core1 [OF base(2)] sl [OF base(2)] cw by (metis core_sel(4) slot.select_convs(4) slot.surjective slot.update_convs(4))
  have on: "used (procs k ! c)" "pid (procs k ! c) \<noteq> 0" using base(4) cl by (simp_all add: on_cpu_def)
  have uc: "s_used (slots ?s ! c)" "s_pid (slots ?s ! c) = pid (procs k ! c)" "s_state (slots ?s ! c) = PROC_ZOMBIE" using sl [OF base(2)] cw on by simp_all
  have okb: "pids_ok ?s" using bk by (simp add: sched_ok_def)
  have reap: "a_reap (pid (procs k ! c)) ?s = a_free c ?s"
    using reap_zombie(1) [OF okb base(2)] uc on by simp
  have v2: "view k2 = a_free c ?s"
    using view_collect [of c k1] col f(1,7) z v1 reap by simp
  have core2: "core (procs k2 ! j) = (if j = c then (slots ?s ! c)\<lparr>s_used := False\<rparr> else slots ?s ! j)" if "j < PROC_MAX" for j
  proof -
    have "length (slots (a_free c ?s)) = PROC_MAX" using okb by (simp add: a_free_def pids_ok_def)
    then have "j < length (procs k2)" using that v2 by (metis length_map view_sel(1))
    then have "core (procs k2 ! j) = slots (a_free c ?s) ! j" using view_upd [of j k2] by (metis v2)
    then show ?thesis using that okb by (simp add: a_free_def pids_ok_def nth_list_update)
  qed
  have res: "res = (pid (procs k ! c), code)" using col f z by (simp add: wait_collect_def Let_def)
  have "\<not> used (procs k2 ! c)" using core2 [OF base(2)] by (metis core_sel(1) slot.select_convs(1) slot.surjective slot.update_convs(1))
  moreover have "block_stack k2 = bs" "current k2 = Some w"
    using v2 v1 f by (metis (no_types, lifting) a_free_def sched.select_convs(4) sched.surjective sched.update_convs(1) view_sel(4),
        metis (no_types, lifting) a_free_def sched.select_convs(2) sched.surjective sched.update_convs(1) view_sel(2))
  moreover have kept: "procs k2 ! j = procs k1 ! j" if "j < PROC_MAX" "j \<noteq> c" for j
  proof (rule ends_core)
    show "ends (procs k1 ! j) (procs k2 ! j)" using col ends_reap [of k1 j] by (auto simp: wait_collect_def Let_def split: if_splits)
    show "core (procs k2 ! j) = core (procs k1 ! j)" using core1 core2 that by simp
  qed
  moreover have "strip (procs k2 ! w) = strip ((procs k ! w)\<lparr>state := PROC_RUNNING\<rparr>)"
    using kept [of w] rf st wl w(2) c cl base(1) cw by auto
  moreover have "strip (procs k2 ! j) = strip (procs k ! j)" if "j < PROC_MAX" "j \<noteq> c" "j \<noteq> w" for j
    using kept [OF that(1,2)] rf st wl w(2) c cl base(1) cw that by auto
  moreover have "fg_pid k2 = fg_pid k1"
    using col by (auto simp: wait_collect_def Let_def proc_reap_def reap_slot_def split: if_splits option.splits)
  moreover have "sched_ok (view k2)"
  proof -
    have "c \<notin> set (chain ?s)" using bk by blast
    then show ?thesis using ok_off_chain [of ?s c] bk pids_ok_free [OF okb, of c] unfolding v2 a_free_def by blast
  qed
  ultimately show ?thesis using f res w by auto
qed

section \<open>One process on the processor\<close>

definition solo :: "sched \<Rightarrow> bool" where
  "solo s \<longleftrightarrow> (\<forall>i < PROC_MAX. s_used (slots s ! i) \<and> s_state (slots s ! i) = PROC_RUNNING \<longrightarrow> s_cur s = Some i)"

lemma solo_upd:
  assumes "solo s" and "s_used (f (slots s ! i)) \<and> s_state (f (slots s ! i)) = PROC_RUNNING \<Longrightarrow> s_cur s = Some i"
  shows "solo (upd_slot i f s)"
  unfolding solo_def
proof (intro allI impI)
  fix j assume j: "j < PROC_MAX" "s_used (slots (upd_slot i f s) ! j) \<and> s_state (slots (upd_slot i f s) ! j) = PROC_RUNNING"
  show "s_cur (upd_slot i f s) = Some j"
  proof (cases "i = j \<and> i < length (slots s)")
    case True
    with j assms(2) show ?thesis by simp
  next
    case False
    then have "slots (upd_slot i f s) ! j = slots s ! j" by (cases "i = j") (auto simp: list_update_beyond)
    with j assms(1) show ?thesis by (simp add: solo_def)
  qed
qed

lemma solo_next [simp]: "solo (s\<lparr>s_next := n\<rparr>) = solo s"
  by (simp add: solo_def)

lemma solo_gone: "solo s \<Longrightarrow> gone R s t \<Longrightarrow> solo t"
  unfolding solo_def gone_def by metis

lemma solo_run:
  assumes "sched_ok s" "solo s" and "p < PROC_MAX"
  shows "solo (a_run p s)"
proof -
  obtain c where c: "s_cur s = Some c" "length (slots s) = PROC_MAX" using sched_okD [OF assms(1)] by metis
  let ?t = "(slots s)[c := (slots s ! c)\<lparr>s_state := PROC_READY\<rparr>]"
  have sl: "slots (a_run p s) = ?t[p := (?t ! p)\<lparr>s_state := PROC_RUNNING\<rparr>]" "s_cur (a_run p s) = Some p"
    by (simp_all add: a_run_def Let_def c(1))
  have "p = i" if i: "i < PROC_MAX" "s_used (slots (a_run p s) ! i)" "s_state (slots (a_run p s) ! i) = PROC_RUNNING" for i
  proof (rule ccontr)
    assume "p \<noteq> i"
    with i sl have t: "s_used (?t ! i)" "s_state (?t ! i) = PROC_RUNNING" by simp_all
    have "c \<noteq> i" using t(2) i(1) c(2) by auto
    with t have "s_used (slots s ! i)" "s_state (slots s ! i) = PROC_RUNNING" by simp_all
    with assms(2) i(1) c(1) \<open>c \<noteq> i\<close> show False by (simp add: solo_def)
  qed
  with sl(2) show ?thesis by (auto simp: solo_def)
qed

lemma solo_back:
  assumes "sched_ok (view k)" "solo (view k)" and c: "current k = Some c" and st: "block_stack k = b # bs" and ne: "st' \<noteq> PROC_RUNNING"
  shows "solo (a_back (set_state c st' (view k)))"
proof -
  have l: "linked c (b # bs)" "length (slots (view k)) = PROC_MAX" using sched_okD [OF assms(1)] c st
    by (metis option.inject view_sel(2,4), metis)
  then obtain w where w: "b_prev b = Some w" by (auto split: option.splits)
  let ?t = "slots (set_state c st' (view k))"
  have sl: "slots (a_back (set_state c st' (view k))) = ?t[w := (?t ! w)\<lparr>s_state := PROC_RUNNING\<rparr>]"
    "s_cur (a_back (set_state c st' (view k))) = Some w" using st w by (simp_all add: a_back_def Let_def)
  have "w = i" if i: "i < PROC_MAX" "s_used (slots (a_back (set_state c st' (view k))) ! i)"
    "s_state (slots (a_back (set_state c st' (view k))) ! i) = PROC_RUNNING" for i
  proof (rule ccontr)
    assume "w \<noteq> i"
    with i sl have t: "s_used (?t ! i)" "s_state (?t ! i) = PROC_RUNNING" by simp_all
    have "c \<noteq> i" using t(2) i(1) l(2) ne by auto
    with t have "s_used (slots (view k) ! i)" "s_state (slots (view k) ! i) = PROC_RUNNING" by simp_all
    with assms(2) i(1) c have "Some c = Some i" unfolding solo_def by (metis view_sel(2))
    with \<open>c \<noteq> i\<close> show False by simp
  qed
  with sl(2) show ?thesis unfolding solo_def by blast
qed

lemma solo_reap: "solo s \<Longrightarrow> solo (a_reap p s)"
  by (auto simp: a_reap_def a_free_def intro!: solo_upd split: option.split)

section \<open>Killing keeps the invariant\<close>

lemma chain_gone: "gone R s t \<Longrightarrow> chain t = chain s"
  by (simp add: gone_def chain_def split: option.split)

lemma ok_gone:
  assumes ok: "sched_ok s" and g: "gone R s t" and off: "R \<inter> set (chain s) = {}"
  shows "sched_ok t"
proof -
  obtain c where c: "s_cur s = Some c" "linked c (s_stack s)" using sched_okD [OF ok] by metis
  have ch: "\<forall>i\<in>set (chain s). i < PROC_MAX \<and> on_cpu (slots s ! i)" and d: "distinct (chain s)" using ok by (simp_all add: sched_ok_def)
  have mem: "0 \<in> set (chain s)" "c \<in> set (chain s)" using chain_init [OF c(2)] c(1) by (auto simp: chain_def)
  have same: "slots t ! i = slots s ! i" if "i \<in> set (chain s)" for i
  proof -
    have "i < PROC_MAX" "i \<notin> R" using that off ch by auto
    with g show ?thesis by (simp add: gone_def)
  qed
  have f: "s_cur t = s_cur s" "s_stack t = s_stack s" "s_next t = s_next s" using g by (simp_all add: gone_def)
  show ?thesis
    using ok gone_pids [OF _ g] same [OF mem(1)] same [OF mem(2)] same c(1)
    unfolding sched_ok_def chain_gone [OF g] f by simp
qed

text \<open>The recursion never runs out: its depth is at most the number of slots.\<close>

lemma view_proc_kill:
  assumes ok: "pids_ok (view k)" and i: "proc_get p k = Some i" "state (procs k ! i) \<noteq> PROC_ZOMBIE"
    and c: "current k = Some c" and p: "1 < p" "p \<noteq> pid (procs k ! c)"
  shows "\<exists>k' u. proc_kill (Suc PROC_MAX) p k = Some (0, k') \<and> gone {j. below (view k) i j} (view k) u \<and>
    view k' = set_state i PROC_ZOMBIE u \<and> live (view k) i"
proof -
  have len: "length (procs k) = PROC_MAX" using ok by (simp add: pids_ok_def)
  have fi: "i < length (procs k)" "used (procs k ! i)" "pid (procs k ! i) = p"
    using first_from_Some i(1) by (auto simp: proc_get_def)
  have lv: "live (view k) i" using fi p(1) i(2) len by (simp add: live_def)
  have "card (younger (view k) i) < Suc PROC_MAX" using card_younger [of "view k" i] by simp
  with kills_all [of "Suc PROC_MAX"] ok lv obtain u where
    u: "gone {j. below (view k) i j} (view k) u" "a_kill_one (Suc PROC_MAX) i (view k) = Some (set_state i PROC_ZOMBIE u)"
    unfolding kills_def by blast
  have "map_option view (kill_one (Suc PROC_MAX) i k) = Some (set_state i PROC_ZOMBIE u)"
    using view_kill(1) [OF len, of i "Suc PROC_MAX"] fi(1) len u(2) by metis
  then obtain k' where k': "kill_one (Suc PROC_MAX) i k = Some k'" "view k' = set_state i PROC_ZOMBIE u" by (auto simp: map_option_eq_Some)
  have "proc_kill (Suc PROC_MAX) p k = map_option (Pair 0) (kill_one (Suc PROC_MAX) i k)"
    using i c p by (simp only: proc_kill_def option.case prod.case) simp
  with k' u(1) lv show ?thesis by auto
qed

lemma proc_kill_other:
  assumes "proc_kill f p k = Some (r, k')" and "\<not> (\<exists>i c. proc_get p k = Some i \<and> current k = Some c \<and> 1 < p \<and> p \<noteq> pid (procs k ! c) \<and>
    state (procs k ! i) \<noteq> PROC_ZOMBIE)"
  shows "k' = k"
  using assms by (auto simp: proc_kill_def split: option.splits if_splits)

lemma ok_kill:
  assumes ok: "sched_ok (view k)" "solo (view k)" and kill: "proc_kill (Suc PROC_MAX) p k = Some (r, k')"
    and off: "\<forall>i. proc_get p k = Some i \<longrightarrow> insert i {j. below (view k) i j} \<inter> set (chain (view k)) = {}"
  shows "sched_ok (view k') \<and> solo (view k')"
proof (cases "\<exists>i c. proc_get p k = Some i \<and> current k = Some c \<and> 1 < p \<and> p \<noteq> pid (procs k ! c) \<and> state (procs k ! i) \<noteq> PROC_ZOMBIE")
  case True
  then obtain i c where i: "proc_get p k = Some i" "current k = Some c" "1 < p" "p \<noteq> pid (procs k ! c)" "state (procs k ! i) \<noteq> PROC_ZOMBIE" by blast
  have pk: "pids_ok (view k)" using ok by (simp add: sched_ok_def)
  obtain u where u: "gone {j. below (view k) i j} (view k) u" "view k' = set_state i PROC_ZOMBIE u"
    using view_proc_kill [OF pk i(1,5,2,3,4)] kill by auto
  have o: "i \<notin> set (chain (view k))" "{j. below (view k) i j} \<inter> set (chain (view k)) = {}" using off i(1) by auto
  have oku: "sched_ok u" by (rule ok_gone [OF ok(1) u(1) o(2)])
  have "i \<notin> set (chain u)" using o chain_gone [OF u(1)] by simp
  moreover have "pids_ok (set_state i PROC_ZOMBIE u)" using gone_pids [OF pk u(1)] by simp
  ultimately have "sched_ok (set_state i PROC_ZOMBIE u)" by (rule ok_off_chain [OF oku])
  moreover have "solo (set_state i PROC_ZOMBIE u)" by (rule solo_upd [OF solo_gone [OF ok(2) u(1)]]) simp
  ultimately show ?thesis using u(2) by simp
next
  case False
  with proc_kill_other [OF kill] ok show ?thesis by blast
qed

section \<open>Spawning and waiting keep it\<close>

lemma ok_slot:
  assumes ok: "sched_ok s" "solo s" and i: "i < PROC_MAX" "\<not> s_used (slots s ! i)"
    and q: "s_used q" "s_state q \<noteq> PROC_RUNNING" "(s_pid q = 0 \<and> s_ppid q = 0) \<or> (s_pid q = s_next s \<and> 0 \<le> s_ppid q \<and> s_ppid q < s_next s)"
  shows "sched_ok ((a_slot i q s)\<lparr>s_next := if s_pid q = 0 then s_next s else s_next s + 1\<rparr>) \<and>
    solo ((a_slot i q s)\<lparr>s_next := if s_pid q = 0 then s_next s else s_next s + 1\<rparr>)"
  unfolding a_slot_def
proof
  show "sched_ok ((upd_slot i (\<lambda>_. q) s)\<lparr>s_next := if s_pid q = 0 then s_next s else s_next s + 1\<rparr>)" by (rule ok_fresh [OF ok(1) i q(1,3)])
  show "solo ((upd_slot i (\<lambda>_. q) s)\<lparr>s_next := if s_pid q = 0 then s_next s else s_next s + 1\<rparr>)"
    unfolding solo_next by (rule solo_upd [OF ok(2)]) (use q in simp)
qed

lemma ok_spawn:
  assumes ok: "sched_ok (view k)" "solo (view k)" and sp: "proc_spawn_elf path k = (r, k')"
  shows "sched_ok (view k') \<and> solo (view k')"
proof -
  obtain c where c: "current k = Some c" "c < length (procs k)" "on_cpu (slots (view k) ! c)" "pids_ok (view k)" "length (procs k) = PROC_MAX"
    using sched_okD [OF ok(1)] by (metis length_map view_sel(1,2))
  have uc: "used (procs k ! c)" "0 \<le> pid (procs k ! c)" "pid (procs k ! c) < next_pid k"
    using c unfolding on_cpu_def pids_ok_def by auto
  have nx: "1 < next_pid k" using ok(1) by (simp add: sched_ok_def)
  note cases = view_spawn [OF c(1,2) uc(1) sp]
  show ?thesis
  proof (rule cases)
    assume "view k' = view k" with ok show ?thesis by simp
  next
    fix i assume i: "1 \<le> i" "i < length (procs k)" "\<not> used (procs k ! i)"
      "view k' = a_slot i \<lparr>s_used = True, s_pid = 0, s_ppid = 0, s_state = PROC_FREE\<rparr> (view k)"
    have "(a_slot i \<lparr>s_used = True, s_pid = 0, s_ppid = 0, s_state = PROC_FREE\<rparr> (view k))\<lparr>s_next := next_pid k\<rparr> = view k'"
      unfolding i(4) by (simp add: a_slot_def view_def)
    with ok_slot [OF ok, of i "\<lparr>s_used = True, s_pid = 0, s_ppid = 0, s_state = PROC_FREE\<rparr>"] i c(5) show ?thesis by simp
  next
    fix i assume i: "1 \<le> i" "i < length (procs k)" "\<not> used (procs k ! i)"
      "view k' = (a_slot i \<lparr>s_used = True, s_pid = next_pid k, s_ppid = pid (procs k ! c), s_state = PROC_READY\<rparr> (view k))\<lparr>s_next := next_pid k + 1\<rparr>"
    with ok_slot [OF ok, of i "\<lparr>s_used = True, s_pid = next_pid k, s_ppid = pid (procs k ! c), s_state = PROC_READY\<rparr>"] uc nx c(5)
    show ?thesis by simp
  qed
qed

lemma ok_collect:
  assumes "sched_ok (view k)" "solo (view k)"
  shows "sched_ok (view (snd (wait_collect i k))) \<and> solo (view (snd (wait_collect i k)))"
  using assms ok_reap solo_reap by (auto simp: view_collect)

lemma ok_run_blocking:
  assumes ok: "sched_ok (view k)" "solo (view k)" and i: "i < PROC_MAX" "used (procs k ! i)" "pid (procs k ! i) \<noteq> 0" "i \<notin> set (chain (view k))"
    and run: "proc_run_blocking (Some i) k = (r, k')"
  shows "sched_ok (view k') \<and> solo (view k')"
proof -
  obtain c where c: "current k = Some c" "c < length (procs k)" "length (procs k) = PROC_MAX"
    using sched_okD [OF ok(1)] by (metis length_map view_sel(1,2))
  have ic: "i \<noteq> c" using i(4) c(1) by (auto simp: chain_def)
  note v = view_run_blocking [OF c(1,2) _ ic run]
  have off: "i \<notin> set (chain (view k))" "s_used (slots (view k) ! i)" "s_pid (slots (view k) ! i) \<noteq> 0" using i c(3) by simp_all
  show ?thesis
  proof (cases r)
    case (Runs q e)
    with v i(1) c(3) have q: "length (s_stack (view k)) < BLOCK_STACK_MAX" "view k' = a_run i (view k)" by auto
    show ?thesis unfolding q(2) using ok_run [OF ok(1) off(1) i(1) off(2,3) q(1)] solo_run [OF ok i(1)] by simp
  next
    case (Returns z)
    let ?s = "set_state i PROC_READY (set_state c PROC_RUNNING (set_state i PROC_RUNNING (set_state c PROC_READY (view k))))"
    have "view k' = view k \<or> view k' = ?s" using v i(1) c(3) Returns by simp
    moreover have "?s = set_state i PROC_READY (view k)" by (rule states_back [OF ok(1) _ off(1) i(1)]) (simp add: c(1))
    moreover have "sched_ok (set_state i PROC_READY (view k))" by (rule ok_set_off_chain [OF ok(1) off(1)])
    moreover have "solo (set_state i PROC_READY (view k))" by (rule solo_upd [OF ok(2)]) simp
    ultimately show ?thesis using ok by metis
  qed
qed

lemma wait_child_facts:
  assumes ok: "sched_ok (view k)" and w: "wait_child p k = Some i"
  shows "i < PROC_MAX \<and> used (procs k ! i) \<and> pid (procs k ! i) \<noteq> 0"
proof -
  obtain c where c: "current k = Some c" "on_cpu (slots (view k) ! c)" "pids_ok (view k)" "length (procs k) = PROC_MAX" "c < PROC_MAX"
    using sched_okD [OF ok] by (metis length_map view_sel(1,2))
  show ?thesis
  proof (cases "p > 0")
    case True
    then have f: "first_from (\<lambda>q. used q \<and> pid q = p) (procs k) 0 = Some i" using w by (simp add: wait_child_def proc_get_def)
    from first_from_Some [OF f] c(4) True show ?thesis by simp
  next
    case False
    then have f: "first_from (\<lambda>q. used q \<and> ppid q = pid (procs k ! c) \<and> state q \<in> {PROC_READY, PROC_RUNNING, PROC_ZOMBIE}) (procs k) 0 = Some i"
      using w c(1) by (simp add: wait_child_def)
    from first_from_Some [OF f] c(4) have i: "i < PROC_MAX" "used (procs k ! i)" "ppid (procs k ! i) = pid (procs k ! c)" by simp_all
    have z: "pid (procs k ! i) = 0 \<longrightarrow> ppid (procs k ! i) = 0" using c(3,4) i(1,2) unfolding pids_ok_def by auto
    have "pid (procs k ! c) \<noteq> 0" using c by (simp add: on_cpu_def)
    with z i show ?thesis by auto
  qed
qed

lemma ok_wait:
  assumes ok: "sched_ok (view k)" "solo (view k)" and w: "proc_wait p k = (r, k')"
    and off: "\<forall>i. wait_child p k = Some i \<longrightarrow> i \<notin> set (chain (view k))"
  shows "sched_ok (view k') \<and> solo (view k')"
proof (cases "wait_child p k")
  case None
  with w ok show ?thesis by (simp add: proc_wait_def)
next
  case (Some i)
  note i = wait_child_facts [OF ok(1) Some]
  show ?thesis
  proof (cases "state (procs k ! i) = PROC_ZOMBIE")
    case True
    with w Some ok_collect [OF ok, of i] show ?thesis by (auto simp: proc_wait_def apfst_def map_prod_def split: prod.splits)
  next
    case False
    obtain f k1 where run: "proc_run_blocking (Some i) k = (f, k1)" by fastforce
    have k1: "sched_ok (view k1)" "solo (view k1)" using ok_run_blocking [OF ok _ _ _ _ run] i off Some by simp_all
    show ?thesis
    proof (cases f)
      case (Runs c e)
      with w Some False run k1 show ?thesis by (simp add: proc_wait_def)
    next
      case (Returns v)
      with w Some False run ok_collect [OF k1, of i] show ?thesis by (auto simp: proc_wait_def apfst_def map_prod_def split: prod.splits)
    qed
  qed
qed

section \<open>The scheduler as a step relation\<close>

text \<open>
  One step of the kernel, as the scheduler sees it. A wait must not name a suspended caller, and a
  kill no suspended caller and no ancestor of one: the code checks neither, and both break the
  table (see \<open>proc_kill_reaps_caller\<close>).
\<close>

inductive kstep :: "kern \<Rightarrow> kern \<Rightarrow> bool" where
  k_spawn: "proc_spawn_elf path k = (r, k') \<Longrightarrow> kstep k k'"
| k_wait: "proc_wait p k = (w, k') \<Longrightarrow> (\<forall>i. wait_child p k = Some i \<longrightarrow> i \<notin> set (chain (view k))) \<Longrightarrow> kstep k k'"
| k_launch: "proc_get p k = Some i \<Longrightarrow> p \<noteq> 0 \<Longrightarrow> i \<notin> set (chain (view k)) \<Longrightarrow> proc_run_blocking (Some i) k = (f, k') \<Longrightarrow> kstep k k'"
| k_exit: "proc_exit code k = (Some b, k') \<Longrightarrow> kstep k k'"
| k_yield: "proc_yield_to_parent frame k = (Some b, k') \<Longrightarrow> kstep k k'"
| k_collect: "wait_collect i k = (w, k') \<Longrightarrow> kstep k k'"
| k_kill: "proc_kill (Suc PROC_MAX) p k = Some (r, k') \<Longrightarrow>
    (\<forall>i. proc_get p k = Some i \<longrightarrow> insert i {j. below (view k) i j} \<inter> set (chain (view k)) = {}) \<Longrightarrow> kstep k k'"
| k_repair: "proc_cons_repair po k = (r, k') \<Longrightarrow> kstep k k'"
| k_putc: "proc_cons_putc po c k = (r, k') \<Longrightarrow> kstep k k'"
| k_write: "proc_cons_write po s k = (r, k') \<Longrightarrow> kstep k k'"
| k_read: "proc_cons_read p n k = (r, k') \<Longrightarrow> kstep k k'"
| k_write_in: "proc_cons_write_in p s k = (r, k') \<Longrightarrow> kstep k k'"
| k_putkey: "proc_cons_putkey p key k = (r, k') \<Longrightarrow> kstep k k'"
| k_getc: "proc_cons_getc po k = (c, k') \<Longrightarrow> kstep k k'"
| k_set_fg: "kstep k (proc_set_fg p k)"
| k_redir: "kstep k (proc_set_spawn_redir i out k)"
| k_cons: "kstep k (proc_set_spawn_cons on k)"
| k_timer: "kstep k (sched_on_timer k)"

lemma ok_back_step:
  assumes ok: "sched_ok (view k)" "solo (view k)"
  shows "proc_exit code k = (Some b, k') \<Longrightarrow> sched_ok (view k') \<and> solo (view k')"
    and "proc_yield_to_parent f k = (Some b, k') \<Longrightarrow> sched_ok (view k') \<and> solo (view k')"
proof -
  obtain c where c: "current k = Some c" "c < length (procs k)" using sched_okD [OF ok(1)] by (metis length_map view_sel(1,2))
  note low = stack_below [OF ok(1)]
  show "sched_ok (view k') \<and> solo (view k')" if e: "proc_exit code k = (Some b, k')"
  proof (cases "block_stack k")
    case Nil
    with e c show ?thesis by (auto simp: proc_exit_def proc_return_to_kernel_def split: if_splits)
  next
    case (Cons bl bs)
    show ?thesis unfolding view_exit(1) [OF c low e]
      using ok_leave [OF ok(1) c(1) Cons] solo_back [OF ok c(1) Cons, of PROC_ZOMBIE] by simp
  qed
  show "sched_ok (view k') \<and> solo (view k')" if y: "proc_yield_to_parent f k = (Some b, k')"
  proof (cases "block_stack k")
    case Nil
    with y c show ?thesis by (auto simp: proc_yield_to_parent_def)
  next
    case (Cons bl bs)
    show ?thesis unfolding view_exit(2) [OF c low y]
      using ok_leave [OF ok(1) c(1) Cons] solo_back [OF ok c(1) Cons, of PROC_READY] by simp
  qed
qed

lemma kstep_ok:
  assumes step: "kstep k k'" and ok: "sched_ok (view k)" "solo (view k)"
  shows "sched_ok (view k') \<and> solo (view k')"
proof -
  have same: "sched_ok (view k'') \<and> solo (view k'')" if "view k'' = view k" for k'' using ok that by simp
  from step show ?thesis
  proof cases
    case k_spawn then show ?thesis by (rule ok_spawn [OF ok])
  next
    case k_wait then show ?thesis by (rule ok_wait [OF ok])
  next
    case (k_launch p i f)
    have "length (procs k) = PROC_MAX" using sched_okD [OF ok(1)] by (metis length_map view_sel(1))
    with first_from_Some [OF k_launch(1) [unfolded proc_get_def]] k_launch(2)
    have "i < PROC_MAX" "used (procs k ! i)" "pid (procs k ! i) \<noteq> 0" by simp_all
    then show ?thesis using ok_run_blocking [OF ok _ _ _ k_launch(3,4)] by simp
  next
    case k_exit then show ?thesis by (rule ok_back_step(1) [OF ok])
  next
    case k_yield then show ?thesis by (rule ok_back_step(2) [OF ok])
  next
    case (k_collect i w) with ok_collect [OF ok, of i] show ?thesis by simp
  next
    case k_kill then show ?thesis by (rule ok_kill [OF ok])
  next
    case k_repair then show ?thesis by (intro same) (metis snd_conv view_cons(1))
  next
    case k_putc then show ?thesis by (intro same) (metis snd_conv view_cons(2))
  next
    case k_write then show ?thesis by (intro same) (metis snd_conv view_cons_write)
  next
    case k_read then show ?thesis by (intro same) (metis snd_conv view_cons(3))
  next
    case k_write_in then show ?thesis by (intro same) (metis snd_conv view_cons_in(1))
  next
    case k_putkey then show ?thesis by (intro same) (metis snd_conv view_cons_in(2))
  next
    case k_getc then show ?thesis by (intro same) (metis snd_conv view_cons(4))
  qed (use ok in simp_all)
qed

section \<open>The initial table\<close>

lemma init_slots: "i < PROC_MAX \<Longrightarrow> slots (view (proc_init k)) ! i =
    (if i = 0 then \<lparr>s_used = True, s_pid = next_pid k, s_ppid = 0, s_state = PROC_RUNNING\<rparr>
     else \<lparr>s_used = False, s_pid = 0, s_ppid = 0, s_state = PROC_FREE\<rparr>)"
  by (cases i) (simp_all add: proc_init_def core_def blank_proc_def)

lemma init_ok:
  assumes "next_pid k = 1"
  shows "sched_ok (view (proc_init k)) \<and> solo (view (proc_init k))"
proof -
  let ?v = "view (proc_init k)"
  have f: "length (slots ?v) = PROC_MAX" "s_cur ?v = Some 0" "s_next ?v = 2" "s_stack ?v = []"
    using assms by (simp_all add: proc_init_def)
  have z: "0 < PROC_MAX" by (simp add: PROC_MAX_def)
  have "pids_ok ?v" unfolding pids_ok_def f by (simp add: init_slots assms del: view_sel)
  moreover have "chain ?v = [0]" by (simp add: chain_def f del: view_sel)
  ultimately show ?thesis using z
    unfolding sched_ok_def solo_def f by (simp add: init_slots [OF z] init_slots on_cpu_def assms del: view_sel)
qed

section \<open>Every reachable table\<close>

lemma ksteps_ok: "kstep\<^sup>*\<^sup>* k k' \<Longrightarrow> sched_ok (view k) \<Longrightarrow> solo (view k) \<Longrightarrow> sched_ok (view k') \<and> solo (view k')"
  by (induction rule: rtranclp_induct) (auto dest: kstep_ok)

lemma sched_ok_kern:
  assumes ok: "sched_ok (view k)" "solo (view k)"
  shows "length (procs k) = PROC_MAX \<and>
    (\<exists>c. current k = Some c \<and> c < PROC_MAX \<and> linked c (block_stack k) \<and> distinct (c # callers (block_stack k)) \<and>
      (\<forall>w\<in>set (callers (block_stack k)). w < PROC_MAX \<and> used (procs k ! w) \<and> state (procs k ! w) = PROC_READY) \<and>
      (\<forall>i < PROC_MAX. used (procs k ! i) \<and> state (procs k ! i) = PROC_RUNNING \<longleftrightarrow> i = c)) \<and>
    length (block_stack k) \<le> BLOCK_STACK_MAX \<and>
    (\<forall>i < PROC_MAX. \<forall>j < PROC_MAX. used (procs k ! i) \<and> used (procs k ! j) \<and> pid (procs k ! i) \<noteq> 0 \<and>
       pid (procs k ! i) = pid (procs k ! j) \<longrightarrow> i = j)"
proof -
  obtain c where c: "current k = Some c" "c < PROC_MAX" "on_cpu (slots (view k) ! c)" "linked c (block_stack k)" "pids_ok (view k)"
    "length (procs k) = PROC_MAX" using sched_okD [OF ok(1)] by (metis length_map view_sel(1,2,4))
  have ch: "chain (view k) = c # callers (block_stack k)" by (simp add: chain_def c(1))
  have d: "distinct (c # callers (block_stack k))" "length (block_stack k) \<le> BLOCK_STACK_MAX"
    and on: "\<forall>i\<in>set (c # callers (block_stack k)). i < PROC_MAX \<and> on_cpu (slots (view k) ! i)"
    and run: "state (procs k ! c) = PROC_RUNNING"
    using ok(1) c ch by (simp_all add: sched_ok_def del: view_sel(1)) (simp add: c(6))
  have one: "i = c" if "i < PROC_MAX" "used (procs k ! i)" "state (procs k ! i) = PROC_RUNNING" for i
    using ok(2) that c by (simp add: solo_def)
  have "state (procs k ! w) = PROC_READY \<and> w < PROC_MAX \<and> used (procs k ! w)" if w: "w \<in> set (callers (block_stack k))" for w
  proof -
    have "w < PROC_MAX" "used (procs k ! w)" "state (procs k ! w) \<in> {PROC_READY, PROC_RUNNING}"
      using on w c(6) by (auto simp: on_cpu_def)
    moreover have "w \<noteq> c" using d(1) w by auto
    ultimately show ?thesis using one by blast
  qed
  moreover have "used (procs k ! c)" using c by (simp add: on_cpu_def)
  moreover have "i = j" if "i < PROC_MAX" "j < PROC_MAX" "used (procs k ! i)" "used (procs k ! j)" "pid (procs k ! i) \<noteq> 0"
    "pid (procs k ! i) = pid (procs k ! j)" for i j
    using pids_ok_unique [OF c(5) that(1,2)] that(3-6) that(1,2) c(6) by simp
  ultimately show ?thesis using c d run one by blast
qed


section \<open>What a kill does\<close>

lemma proc_kill_result:
  assumes "sched_ok (view k)" and "current k = Some c" and "proc_get p k = Some i" and "state (procs k ! i) \<noteq> PROC_ZOMBIE"
    and "1 < p" and "p \<noteq> pid (procs k ! c)"
  shows "\<exists>k'. proc_kill (Suc PROC_MAX) p k = Some (0, k') \<and> used (procs k' ! i) \<and> state (procs k' ! i) = PROC_ZOMBIE \<and>
    (\<forall>j < PROC_MAX. below (view k) i j \<longrightarrow> \<not> used (procs k' ! j)) \<and>
    (\<forall>j < PROC_MAX. j \<noteq> i \<and> \<not> below (view k) i j \<longrightarrow> procs k' ! j = procs k ! j) \<and>
    current k' = current k \<and> block_stack k' = block_stack k \<and> next_pid k' = next_pid k"
proof -
  have ok: "pids_ok (view k)" using assms(1) by (simp add: sched_ok_def)
  then have len: "length (procs k) = PROC_MAX" by (simp add: pids_ok_def)
  obtain k' u where k': "proc_kill (Suc PROC_MAX) p k = Some (0, k')" "gone {j. below (view k) i j} (view k) u"
    "view k' = set_state i PROC_ZOMBIE u" and lv: "live (view k) i"
    using view_proc_kill [OF ok assms(3,4,2,5,6)] by blast
  have i: "i < PROC_MAX" "\<not> below (view k) i i" using lv below_facts [OF ok] by (auto simp: live_def)
  have lu: "length (slots u) = PROC_MAX" using k'(2) len by (simp add: gone_def)
  have lk: "length (procs k') = PROC_MAX" using arg_cong [OF k'(3), of "\<lambda>s. length (slots s)"] lu by simp
  have sl: "core (procs k' ! j) = (if j = i then (slots u ! j)\<lparr>s_state := PROC_ZOMBIE\<rparr> else slots u ! j)" if "j < PROC_MAX" for j
    using view_upd [of j k'] that lk lu unfolding k'(3) by (auto simp: nth_list_update)
  have su: "if below (view k) i j then \<not> s_used (slots u ! j) else slots u ! j = core (procs k ! j)" if "j < PROC_MAX" for j
    using k'(2) that len by (simp add: gone_def)
  have rest: "current k' = current k" "block_stack k' = block_stack k" "next_pid k' = next_pid k"
    using arg_cong [OF k'(3), of s_cur] arg_cong [OF k'(3), of s_stack] arg_cong [OF k'(3), of s_next] k'(2) by (simp_all add: gone_def)
  have 1: "used (procs k' ! i) \<and> state (procs k' ! i) = PROC_ZOMBIE"
    using arg_cong [OF sl [OF i(1)], of s_used] arg_cong [OF sl [OF i(1)], of s_state] su [OF i(1)] i lv len by (simp add: live_def)
  have 2: "\<not> used (procs k' ! j)" if "j < PROC_MAX" "below (view k) i j" for j
    using arg_cong [OF sl [OF that(1)], of s_used] su [OF that(1)] that(2) i(2) by (cases "j = i") simp_all
  have "kill_one (Suc PROC_MAX) i k = Some k'" using k'(1) assms(2-6) by (auto simp: proc_kill_def)
  note ends = ends_kill(1) [OF this]
  have 3: "procs k' ! j = procs k ! j" if "j < PROC_MAX" "j \<noteq> i" "\<not> below (view k) i j" for j
    using ends_core [OF ends] sl [OF that(1)] su [OF that(1)] that(2,3) by simp
  show ?thesis using k'(1) 1 2 3 rest by blast
qed

text \<open>
  Property C23. A kill ends (the recursion over the descendants never exceeds the size of the
  table): the target is a zombie, every process below it is gone from the table, and the slots of all other processes are
  exactly as they were, every field of them. The index of the running process and the stack of suspended calls stay too, even
  if they name a process below the target, whose slot is then free: \<open>proc_kill_reaps_caller\<close> is about that case.
\<close>

theorem proc_kill_descendants:
  assumes "sched_ok (view k)" and "current k = Some c" and "proc_get p k = Some i" and "state (procs k ! i) \<noteq> PROC_ZOMBIE"
    and "1 < p" and "p \<noteq> pid (procs k ! c)"
  shows "\<exists>k'. proc_kill (Suc PROC_MAX) p k = Some (0, k') \<and> used (procs k' ! i) \<and> state (procs k' ! i) = PROC_ZOMBIE \<and>
    (\<forall>j < PROC_MAX. below (view k) i j \<longrightarrow> \<not> used (procs k' ! j)) \<and>
    (\<forall>j < PROC_MAX. j \<noteq> i \<and> \<not> below (view k) i j \<longrightarrow> procs k' ! j = procs k ! j) \<and>
    current k' = current k \<and> block_stack k' = block_stack k \<and> next_pid k' = next_pid k"
  using assms by (rule proc_kill_result)

section \<open>A table to try them on\<close>

text \<open>Init runs a shell (pid 2) that runs a program (pid 3) that has started another (pid 4).\<close>

definition shell_kern :: kern where
  "shell_kern = \<lparr>procs = [blank_proc\<lparr>used := True, pid := 1, state := PROC_READY\<rparr>,
       blank_proc\<lparr>used := True, pid := 2, ppid := 1, state := PROC_READY\<rparr>,
       blank_proc\<lparr>used := True, pid := 3, ppid := 2, state := PROC_RUNNING\<rparr>,
       blank_proc\<lparr>used := True, pid := 4, ppid := 3, state := PROC_READY\<rparr>] @ replicate 12 blank_proc,
     current = Some 2, next_pid = 5, fg_pid = 3, spawn_cons_next = False, spawn_redir_in = -1, spawn_redir_out = -1,
     resume_yielded = False, block_stack = [\<lparr>b_prev = Some 1, b_child = 2\<rparr>, \<lparr>b_prev = Some 0, b_child = 1\<rparr>],
     tty_fg = 3, tss_esp0 = 0, boot_stack = 0, kvfs = vfs_init (mm_init (\<lambda>_. 0)), kdisp = gui_sample\<rparr>"

lemma shell_slots: "i < PROC_MAX \<Longrightarrow> slots (view shell_kern) ! i =
    (if i = 0 then \<lparr>s_used = True, s_pid = 1, s_ppid = 0, s_state = PROC_READY\<rparr>
     else if i = 1 then \<lparr>s_used = True, s_pid = 2, s_ppid = 1, s_state = PROC_READY\<rparr>
     else if i = 2 then \<lparr>s_used = True, s_pid = 3, s_ppid = 2, s_state = PROC_RUNNING\<rparr>
     else if i = 3 then \<lparr>s_used = True, s_pid = 4, s_ppid = 3, s_state = PROC_READY\<rparr>
     else \<lparr>s_used = False, s_pid = 0, s_ppid = 0, s_state = PROC_FREE\<rparr>)"
proof -
  assume i: "i < PROC_MAX"
  have "i = 0 \<or> i = 1 \<or> i = 2 \<or> i = 3 \<or> (i = (i - 4) + 4 \<and> i - 4 < 12)" using i by (simp add: PROC_MAX_def) linarith
  then consider "i = 0" | "i = 1" | "i = 2" | "i = 3" | n where "i = n + 4" "n < 12" by blast
  then show ?thesis
    by cases (simp_all add: shell_kern_def core_def blank_proc_def nth_append)
qed

lemma shell_chain: "chain (view shell_kern) = [2, 1, 0]"
  by (simp add: chain_def shell_kern_def)

lemma shell_used: "i < PROC_MAX \<Longrightarrow> s_used (slots (view shell_kern) ! i) \<Longrightarrow> i = 0 \<or> i = 1 \<or> i = 2 \<or> i = 3"
  by (simp add: shell_slots del: view_sel split: if_splits)

lemma shell_pids: "pids_ok (view shell_kern)"
proof -
  let ?v = "view shell_kern"
  have p: "0 < PROC_MAX" "1 < PROC_MAX" "2 < PROC_MAX" "3 < PROC_MAX" by (simp_all add: PROC_MAX_def)
  note sl = p [THEN shell_slots]
  have f: "length (slots ?v) = PROC_MAX" "s_next ?v = 5" by (simp_all add: shell_kern_def PROC_MAX_def)
  have one: "0 \<le> s_pid (slots ?v ! i) \<and> s_pid (slots ?v ! i) < 5 \<and>
      (if s_pid (slots ?v ! i) = 0 then s_ppid (slots ?v ! i) = 0 else 0 \<le> s_ppid (slots ?v ! i) \<and> s_ppid (slots ?v ! i) < s_pid (slots ?v ! i))"
    if "i < PROC_MAX" "s_used (slots ?v ! i)" for i
    using shell_used [OF that] by (elim disjE) (simp_all add: sl del: view_sel One_nat_def)
  have two: "i = j" if "i < PROC_MAX" "j < PROC_MAX" "s_used (slots ?v ! i)" "s_used (slots ?v ! j)"
    "s_pid (slots ?v ! i) = s_pid (slots ?v ! j)" for i j
    using shell_used [OF that(1,3)] shell_used [OF that(2,4)] that(5) by (elim disjE) (simp_all add: sl del: view_sel One_nat_def)
  show ?thesis unfolding pids_ok_def f using one two by blast
qed

lemma shell_ok: "sched_ok (view shell_kern)" "solo (view shell_kern)"
proof -
  let ?v = "view shell_kern"
  have p: "0 < PROC_MAX" "1 < PROC_MAX" "2 < PROC_MAX" "3 < PROC_MAX" by (simp_all add: PROC_MAX_def)
  note sl = p [THEN shell_slots]
  have f: "s_cur ?v = Some 2" "s_next ?v = 5" "s_stack ?v = [\<lparr>b_prev = Some 1, b_child = 2\<rparr>, \<lparr>b_prev = Some 0, b_child = 1\<rparr>]"
    by (simp_all add: shell_kern_def)
  show "sched_ok ?v"
    unfolding sched_ok_def shell_chain f by (simp add: shell_pids sl p on_cpu_def BLOCK_STACK_MAX_def del: view_sel One_nat_def)
  show "solo ?v" unfolding solo_def f
  proof (intro allI impI)
    fix i assume i: "i < PROC_MAX" "s_used (slots ?v ! i) \<and> s_state (slots ?v ! i) = PROC_RUNNING"
    then have "i = 0 \<or> i = 1 \<or> i = 2 \<or> i = 3" using shell_used by blast
    then show "Some 2 = Some i" using i(2) by (elim disjE) (simp_all add: sl del: view_sel One_nat_def)
  qed
qed

lemma shell_below: "below (view shell_kern) 1 2"
proof -
  have p: "1 < PROC_MAX" "2 < PROC_MAX" by (simp_all add: PROC_MAX_def)
  show ?thesis by (rule below_child) (simp_all add: live_def child_of_def p shell_slots [OF p(1)] shell_slots [OF p(2)] del: view_sel One_nat_def)
qed

lemma shell_procs: "procs shell_kern ! 0 = blank_proc\<lparr>used := True, pid := 1, state := PROC_READY\<rparr>"
  "procs shell_kern ! 1 = blank_proc\<lparr>used := True, pid := 2, ppid := 1, state := PROC_READY\<rparr>"
  "procs shell_kern ! 2 = blank_proc\<lparr>used := True, pid := 3, ppid := 2, state := PROC_RUNNING\<rparr>"
  "procs shell_kern ! 3 = blank_proc\<lparr>used := True, pid := 4, ppid := 3, state := PROC_READY\<rparr>"
  "current shell_kern = Some 2" "length (procs shell_kern) = PROC_MAX"
  by (simp_all add: shell_kern_def PROC_MAX_def)

lemma shell_get: "proc_get 2 shell_kern = Some 1" "proc_get 4 shell_kern = Some 3"
proof -
  have j: "j = 0 \<or> j = 1 \<or> j = 2" if "j < 3" for j :: nat using that by linarith
  show "proc_get 2 shell_kern = Some 1" unfolding proc_get_def
    by (rule first_from_eq) (auto simp: shell_procs blank_proc_def PROC_MAX_def simp del: One_nat_def)
  show "proc_get 4 shell_kern = Some 3" unfolding proc_get_def
    by (rule first_from_eq) (auto dest!: j simp: shell_procs blank_proc_def PROC_MAX_def simp del: One_nat_def)
qed

theorem proc_kill_descendants_witness:
  "\<exists>k'. proc_kill (Suc PROC_MAX) 4 shell_kern = Some (0, k') \<and> state (procs k' ! 3) = PROC_ZOMBIE"
  using proc_kill_descendants [OF shell_ok(1) shell_procs(5) shell_get(2)] by (auto simp: shell_procs blank_proc_def)

theorem proc_exit_wakes_waiter_witness:
  "fst (wait_collect 2 (snd (proc_exit 7 shell_kern))) = (3, 7)"
proof -
  have st: "block_stack shell_kern = \<lparr>b_prev = Some 1, b_child = 2\<rparr> # [\<lparr>b_prev = Some 0, b_child = 1\<rparr>]" by (simp add: shell_kern_def)
  have "fst (proc_exit 7 shell_kern) \<noteq> None"
    using st by (simp add: proc_exit_def shell_procs proc_return_to_kernel_def Let_def blank_proc_def)
  then obtain i v k1 where ex: "proc_exit 7 shell_kern = (Some (i, v), k1)" by (cases "proc_exit 7 shell_kern") auto
  obtain res k2 where col: "wait_collect i k1 = (res, k2)" by fastforce
  from proc_exit_wakes_waiter [OF shell_ok(1) shell_procs(5) st ex col] have "i = 2" "res = (pid (procs shell_kern ! 2), 7)" by blast+
  then show ?thesis using ex col by (simp add: shell_procs blank_proc_def)
qed


section \<open>A kill that reaps its caller\<close>

text \<open>
  \<^verbatim>\<open>proc_kill\<close> refuses the current process but not its ancestors: killing one frees the slot and the kernel
  stack of the process that is making the call, which goes on running.
\<close>

theorem proc_kill_reaps_caller:
  assumes "sched_ok (view k)" and "current k = Some c" and "proc_get p k = Some i" and "state (procs k ! i) \<noteq> PROC_ZOMBIE"
    and "1 < p" and "p \<noteq> pid (procs k ! c)" and anc: "below (view k) i c"
  shows "\<exists>k'. proc_kill (Suc PROC_MAX) p k = Some (0, k') \<and> current k' = Some c \<and> \<not> used (procs k' ! c)"
proof -
  have "pids_ok (view k)" using assms(1) by (simp add: sched_ok_def)
  then have "c < PROC_MAX" using below_facts [OF _ anc] by blast
  then show ?thesis using proc_kill_result [OF assms(1-6)] anc assms(2) by auto
qed

theorem proc_kill_reaps_caller_witness:
  "\<exists>k'. proc_kill (Suc PROC_MAX) 2 shell_kern = Some (0, k') \<and> current k' = Some 2 \<and> \<not> used (procs k' ! 2)"
  using proc_kill_reaps_caller [OF shell_ok(1) shell_procs(5) shell_get(1) _ _ _ shell_below] by (simp add: shell_procs blank_proc_def del: One_nat_def)

end
