(* ===== verification/NetSpec.thy ===== *)
theory NetSpec
  imports Net VfsData
begin

text \<open>
  Properties of the network stack: the checksum and its round trip, delivery of datagrams and the sizes
  that are lost, the sockets under arbitrary frames, streams, names, and the transmit buffers.
\<close>

section \<open>The checksum\<close>

text \<open>The sum of the 16-bit words, high byte first.\<close>

fun word_sum :: "u8 list \<Rightarrow> nat" where
  "word_sum [] = 0"
| "word_sum [a] = 256 * unat a"
| "word_sum (a # b # xs) = 256 * unat a + unat b + word_sum xs"

lemma u_less: "unat (a :: u8) < 256" "unat (c :: u16) < 65536" "unat (x :: u32) < 4294967296"
  using unsigned_less [of a, where 'a = nat] unsigned_less [of c, where 'a = nat] unsigned_less [of x, where 'a = nat] by simp_all

lemma byte_pair: "unat (push_bit 8 (ucast a) OR ucast b :: u32) = 256 * unat a + unat b" for a b :: u8
proof -
  have "push_bit 8 (ucast a) AND (ucast b :: u32) = 0"
  proof (rule bit_word_eqI)
    fix n show "bit (push_bit 8 (ucast a) AND (ucast b :: u32)) n = bit (0 :: u32) n"
      by (cases "n < 8") (auto simp: bit_simps dest: bit_imp_le_length)
  qed
  then have "push_bit 8 (ucast a) OR ucast b = push_bit 8 (ucast a) + (ucast b :: u32)" by (simp add: disjunctive_add_eq_or)
  moreover have "unat (push_bit 8 (ucast a) :: u32) = 256 * unat a"
    using u_less(1) [of a] by (simp add: push_bit_eq_mult unat_word_ariths unsigned_ucast_eq take_bit_eq_mod)
  ultimately show ?thesis
    using u_less(1) [of a] u_less(1) [of b] by (simp add: unat_word_ariths unsigned_ucast_eq take_bit_eq_mod)
qed

lemma word_sum_bound: "word_sum bs \<le> 65535 * length bs"
proof (induction bs rule: word_sum.induct)
  case (2 a)
  then show ?case using u_less(1) [of a] by simp
next
  case (3 a b xs)
  then show ?case using u_less(1) [of a] u_less(1) [of b] by simp
qed simp

lemma unat_csum_loop: "unat sm + word_sum bs < 2 ^ 32 \<Longrightarrow> unat (csum_loop bs sm) = unat sm + word_sum bs"
proof (induction bs sm rule: csum_loop.induct)
  case (2 a sm)
  have "unat (push_bit 8 (ucast a) :: u32) = 256 * unat a" using byte_pair [of a 0] by simp
  then show ?case using 2 by (simp add: unat_word_ariths)
next
  case (3 a b xs sm)
  have "unat (sm + (push_bit 8 (ucast a) OR ucast b)) = unat sm + (256 * unat a + unat b)"
    using "3.prems" by (simp add: unat_word_ariths byte_pair)
  then show ?case using 3 by simp
qed simp

text \<open>Folding the carries: the sum modulo 65535, with 65535 for the multiples of it that are not 0.\<close>

definition ones_fold :: "nat \<Rightarrow> nat" where
  "ones_fold n = (if n = 0 then 0 else (n - 1) mod 65535 + 1)"

lemma ones_fold_step: "ones_fold (n mod 65536 + n div 65536) = ones_fold n"
proof (cases "n = 0")
  case False
  obtain m where m: "n mod 65536 + n div 65536 = Suc m" using False by (metis add_is_0 div_mult_mod_eq mult_0 not0_implies_Suc)
  have "n = 65535 * (n div 65536) + Suc m" using m div_mult_mod_eq [of n 65536] by linarith
  then have "n - 1 = 65535 * (n div 65536) + m" by simp
  then have "(n - 1) mod 65535 = m mod 65535" by simp
  then show ?thesis using False m by (simp add: ones_fold_def)
qed (simp add: ones_fold_def)

lemma unat_csum_fold: "unat (csum_fold sm) = ones_fold (unat sm)"
proof (induction sm rule: csum_fold.induct)
  case (1 sm)
  have h: "unat (drop_bit 16 sm) = unat sm div 65536" by (simp add: drop_bit_eq_div unat_div)
  have "sm AND 0xFFFF = sm mod 65536"
    using take_bit_eq_mask [of 16 sm] by (simp add: take_bit_eq_mod mask_eq_exp_minus_1)
  then have l: "unat (sm AND 0xFFFF) = unat sm mod 65536" by (simp add: unat_mod)
  show ?case
  proof (cases "drop_bit 16 sm = 0")
    case True
    then have "unat sm < 65536" using h by (metis div_less_iff_less_mult mult_1 unat_0 zero_less_numeral less_one)
    moreover have "csum_fold sm = sm" using True by (subst csum_fold.simps) simp
    ultimately show ?thesis by (cases "unat sm") (simp_all add: ones_fold_def)
  next
    case False
    have "unat sm mod 65536 < 65536" "unat sm div 65536 < 65536" using u_less(3) [of sm] by (simp_all add: less_mult_imp_div_less)
    then have b: "unat sm mod 65536 + unat sm div 65536 < 2 ^ 32" by simp
    have "unat (csum_fold sm) = unat (csum_fold ((sm AND 0xFFFF) + drop_bit 16 sm))" using False by (subst csum_fold.simps) simp
    also have "\<dots> = ones_fold (unat ((sm AND 0xFFFF) + drop_bit 16 sm))" by (rule 1 [OF False])
    also have "unat ((sm AND 0xFFFF) + drop_bit 16 sm) = unat sm mod 65536 + unat sm div 65536" using b h l by (simp add: unat_word_ariths)
    finally show ?thesis by (simp add: ones_fold_step)
  qed
qed

lemma ones_fold_less: "ones_fold n < 65536"
  using mod_less_divisor [of 65535 "n - 1"] by (simp add: ones_fold_def)

lemma unat_checksum:
  assumes "length bs \<le> 65536"
  shows "unat (inet_checksum bs) = 65535 - ones_fold (word_sum bs)"
proof -
  have b: "word_sum bs < 2 ^ 32" using word_sum_bound [of bs] assms by simp
  have u: "unat (csum_fold (csum_loop bs 0)) = ones_fold (word_sum bs)" using unat_csum_loop [of 0 bs] b by (simp add: unat_csum_fold)
  have "unat (ucast (csum_fold (csum_loop bs 0)) :: u16) = ones_fold (word_sum bs)"
    using ones_fold_less [of "word_sum bs"] by (simp add: unsigned_ucast_eq u take_bit_eq_mod)
  moreover have "unat (NOT x) = 65535 - unat x" for x :: u16
  proof -
    have "NOT x = -1 - x" by (simp add: not_eq_complement)
    then show ?thesis using unat_sub [of x "-1"] by (simp add: unsigned_minus_1_eq_mask mask_eq_exp_minus_1)
  qed
  ultimately show ?thesis by (simp add: inet_checksum_def)
qed

lemma word_sum_append: "even (length xs) \<Longrightarrow> word_sum (xs @ ys) = word_sum xs + word_sum ys"
  by (induction xs rule: word_sum.induct) auto

lemma word_sum_be16: "word_sum (be16 c @ ys) = unat c + word_sum ys"
proof -
  have "unat (ucast (drop_bit 8 c) :: u8) = unat c div 256"
    using u_less(2) [of c] by (simp add: unsigned_ucast_eq drop_bit_eq_div unat_div take_bit_eq_mod less_mult_imp_div_less)
  moreover have "unat (ucast c :: u8) = unat c mod 256" by (simp add: unsigned_ucast_eq take_bit_eq_mod)
  ultimately show ?thesis by (simp add: be16_def)
qed

text \<open>A checksum that is put into its own field makes the whole check out.\<close>

lemma checksum_verifies:
  assumes "even (length xs)" and "length xs + 2 + length ys \<le> 65536"
  shows "inet_checksum (xs @ be16 (inet_checksum (xs @ [0, 0] @ ys)) @ ys) = 0"
proof -
  let ?c = "inet_checksum (xs @ [0, 0] @ ys)" let ?w = "word_sum xs + word_sum ys"
  have c: "unat ?c = 65535 - ones_fold ?w" using assms by (simp add: unat_checksum word_sum_append)
  have "ones_fold (word_sum (xs @ be16 ?c @ ys)) = 65535"
  proof (cases "?w = 0")
    case True
    then show ?thesis using assms(1) c by (simp add: word_sum_append word_sum_be16 ones_fold_def)
  next
    case False
    then obtain m where m: "?w = Suc m" by (metis not0_implies_Suc)
    have "word_sum (xs @ be16 ?c @ ys) = Suc m + (65534 - m mod 65535)"
      using assms(1) c m by (simp add: word_sum_append word_sum_be16 ones_fold_def)
    also have "\<dots> = 65535 * (m div 65535 + 1)"
    proof -
      define q r where "q = m div 65535" and "r = m mod 65535"
      have "m = q * 65535 + r" "r < 65535" by (simp_all add: q_def r_def)
      then show ?thesis unfolding q_def [symmetric] r_def [symmetric] by simp
    qed
    finally have w: "word_sum (xs @ be16 ?c @ ys) = 65535 * (m div 65535 + 1)" .
    have "65535 * (m div 65535 + 1) - 1 = 65534 + 65535 * (m div 65535)" by simp
    then show ?thesis unfolding w ones_fold_def by simp
  qed
  moreover have "length (xs @ be16 ?c @ ys) \<le> 65536" using assms(2) by (simp add: be16_def)
  ultimately have "unat (inet_checksum (xs @ be16 ?c @ ys)) = 0" using unat_checksum by simp
  then show ?thesis by (simp add: unat_eq_0)
qed

section \<open>What is sent is what is received\<close>

lemma get_be16:
  assumes "p i = ucast (drop_bit 8 x)" and "p (i + 1) = ucast (x :: u16)"
  shows "get16 p i = x"
proof (rule bit_word_eqI)
  fix n assume "n < LENGTH(16)"
  then show "bit (get16 p i) n = bit x n" using assms by (cases "n < 8") (auto simp: get16_def bit_simps dest: bit_imp_le_length)
qed

lemma get_be32:
  assumes "p i = ucast (drop_bit 24 x)" "p (i + 1) = ucast (drop_bit 16 x)" "p (i + 2) = ucast (drop_bit 8 x)" "p (i + 3) = ucast (x :: u32)"
  shows "get32 p i = x"
proof (rule bit_word_eqI)
  fix n assume n: "n < LENGTH(32)"
  consider "n < 8" | "8 \<le> n" "n < 16" | "16 \<le> n" "n < 24" | "24 \<le> n" by linarith
  then show "bit (get32 p i) n = bit x n" using assms n by cases (auto simp: get32_def bit_simps dest: bit_imp_le_length)
qed

lemma pkt_nth: "pkt_bytes p 0 n = xs \<Longrightarrow> i < n \<Longrightarrow> p i = xs ! i"
  by (auto simp: pkt_bytes_def)

lemma length_pkt_bytes [simp]: "length (pkt_bytes p i n) = n"
  by (simp add: pkt_bytes_def)

lemma pkt_bytes_at: "pkt_bytes (pkt_at p i) j n = pkt_bytes p (i + j) n"
  by (simp add: pkt_bytes_def pkt_at_def add.assoc)

lemma pkt_part: "pkt_bytes p 0 (length xs + length ys) = xs @ ys \<Longrightarrow> pkt_bytes p (length xs) (length ys) = ys"
proof (rule nth_equalityI)
  fix i assume "pkt_bytes p 0 (length xs + length ys) = xs @ ys" "i < length (pkt_bytes p (length xs) (length ys))"
  then show "pkt_bytes p (length xs) (length ys) ! i = ys ! i"
    using pkt_nth [of p "length xs + length ys" "xs @ ys" "length xs + i"] by (simp add: pkt_bytes_def)
qed simp

lemma length_six: "length xs = 6 \<Longrightarrow> \<exists>a b c d e f. xs = [a, b, c, d, e, f]"
  by (auto simp: numeral_eq_Suc length_Suc_conv)

lemma length_be [simp]: "length (be16 x) = 2" "length (be32 y) = 4"
  by (simp_all add: be16_def be32_def)

lemma length_ip_header [simp]: "length (ip_header s dst proto n c) = 20"
  by (simp add: ip_header_def)

lemma length_ip_frame: "length hw = 6 \<Longrightarrow> length (mac s) = 6 \<Longrightarrow> length (ip_frame s hw dst proto pl) = 34 + length pl"
  by (simp add: ip_frame_def)

text \<open>The header of every frame that is sent has a checksum that holds.\<close>

lemma ip_header_verifies: "n \<le> 1480 \<Longrightarrow> inet_checksum (ip_header s dst proto n (inet_checksum (ip_header s dst proto n 0))) = 0"
proof -
  have z: "be16 0 = [0, 0]" by (simp add: be16_def)
  show ?thesis
    using checksum_verifies [of "[0x45, 0] @ be16 (of_nat (20 + n)) @ [0, 1, 0, 0, 64, proto]" "be32 (ip_addr s) @ be32 dst"]
    by (simp add: ip_header_def z)
qed

lemma frame_fields:
  assumes len: "length hw = 6" "length (mac s) = 6"
    and fi: "\<And>i. i < 34 \<Longrightarrow> f i = ip_frame s hw dst proto pl ! i"
  shows "get16 f 12 = ETH_IP" "get16 f 16 = of_nat (20 + length pl)" "get32 f 26 = ip_addr s" "f 23 = proto" "unat (f 14 AND 0xF) * 4 = 20"
proof -
  obtain a0 a1 a2 a3 a4 a5 where hw: "hw = [a0, a1, a2, a3, a4, a5]" using length_six [OF len(1)] by blast
  obtain b0 b1 b2 b3 b4 b5 where m: "mac s = [b0, b1, b2, b3, b4, b5]" using length_six [OF len(2)] by blast
  note lst = ip_frame_def hw m ip_header_def be16_def be32_def
  show "get16 f 12 = ETH_IP" by (rule get_be16) (simp_all add: fi lst ETH_IP_def)
  show "get16 f 16 = of_nat (20 + length pl)" by (rule get_be16) (simp_all add: fi lst)
  show "get32 f 26 = ip_addr s" by (rule get_be32) (simp_all add: fi lst)
  show "f 23 = proto" "unat (f 14 AND 0xF) * 4 = 20" by (simp_all add: fi lst)
qed

lemma deliver:
  assumes len: "length hw = 6" "length (mac s) = 6" "length pl \<le> 1480"
    and f: "pkt_bytes f 0 (34 + length pl) = ip_frame s hw dst proto pl"
  shows "handle_frame f (34 + length pl) t =
    (if proto = IP_ICMP then handle_icmp (ip_addr s) (pkt_at f 34) (length pl) t
     else if proto = IP_UDP then handle_udp (ip_addr s) (pkt_at f 34) (length pl) t
     else if proto = IP_TCP then handle_tcp (ip_addr s) (pkt_at f 34) (length pl) t else t)"
    and "pkt_bytes (pkt_at f 34) 0 (length pl) = pl"
proof -
  define h where "h = ip_header s dst proto (length pl) (inet_checksum (ip_header s dst proto (length pl) 0))"
  have fr: "ip_frame s hw dst proto pl = (hw @ mac s @ [0x08, 0x00] @ h) @ pl" by (simp add: ip_frame_def h_def)
  have lh: "length (hw @ mac s @ [0x08, 0x00] @ h) = 34" using len by (simp add: h_def)
  have "f i = ip_frame s hw dst proto pl ! i" if "i < 34" for i using pkt_nth [OF f, of i] that by simp
  note ff = frame_fields [OF len(1,2) this]
  have "unat (of_nat (20 + length pl) :: u16) = 20 + length pl" using len(3) by (simp add: unat_of_nat del: of_nat_add)
  then show "handle_frame f (34 + length pl) t =
    (if proto = IP_ICMP then handle_icmp (ip_addr s) (pkt_at f 34) (length pl) t
     else if proto = IP_UDP then handle_udp (ip_addr s) (pkt_at f 34) (length pl) t
     else if proto = IP_TCP then handle_tcp (ip_addr s) (pkt_at f 34) (length pl) t else t)"
    by (simp add: handle_frame_def ff Let_def ETH_IP_def ETH_ARP_def del: of_nat_add)
  show "pkt_bytes (pkt_at f 34) 0 (length pl) = pl"
    using pkt_part [of f "hw @ mac s @ [0x08, 0x00] @ h" pl] f unfolding fr lh by (simp add: pkt_bytes_at)
qed

text \<open>The card takes a frame, and the address of the next hop is known.\<close>

definition can_send :: "net \<Rightarrow> u32 \<Rightarrow> bool" where
  "can_send s dst \<longleftrightarrow> vio_iobase s \<noteq> 0 \<and> length (mac s) = 6 \<and> length (arp_mac s) = 6 \<and>
     tx_bufs s ! (unat (tx_idx s) mod 16) \<noteq> 0 \<and> (dst = BCAST \<or> arp_known (route_nexthop s dst) s)"

lemma ip_send_frame:
  assumes "can_send s dst" and "length pl \<le> 1480"
  shows "\<exists>hw. length hw = 6 \<and> ip_send dst proto pl s = eth_send (ip_frame s hw dst proto pl) s"
  using assms by (auto simp: can_send_def ip_send_def arp_known_def route_nexthop_def split: if_splits intro: exI [of _ "replicate 6 0xFF"])

lemma wire_eth_send: "can_send s dst \<Longrightarrow> wire (eth_send f s) = wire s @ [take 1500 f]"
  by (simp add: can_send_def eth_send_def Let_def)

definition udp_packet :: "u16 \<Rightarrow> u16 \<Rightarrow> u8 list \<Rightarrow> u8 list" where
  "udp_packet sport dport data = be16 sport @ be16 dport @ be16 (of_nat (8 + length data)) @ [0, 0] @ data"

lemma handle_udp_packet:
  assumes n: "length data \<le> 1472" and p: "pkt_bytes p 0 (8 + length data) = udp_packet sport dport data" and l: "8 + length data \<le> len"
  shows "handle_udp src p len t = t\<lparr>socks := map (udp_sock src sport dport data) (socks t)\<rparr>"
proof -
  have pi: "p i = udp_packet sport dport data ! i" if "i < 8" for i using pkt_nth [OF p, of i] that by simp
  have h: "get16 p 0 = sport" "get16 p 2 = dport" "get16 p 4 = of_nat (8 + length data)"
    by (rule get_be16; simp add: pi udp_packet_def be16_def)+
  have u: "unat (of_nat (8 + length data) :: u16) = 8 + length data" using n by (simp add: unat_of_nat del: of_nat_add)
  have "pkt_bytes p 8 (length data) = data"
    using pkt_part [of p "be16 sport @ be16 dport @ be16 (of_nat (8 + length data)) @ [0, 0]" data] p by (simp add: udp_packet_def)
  then show ?thesis using l u by (simp add: handle_udp_def h Let_def del: of_nat_add)
qed

lemma udp_delivered:
  assumes s: "can_send s dst" and n: "length data \<le> 1458"
  shows "\<exists>frame. wire (udp_send dst sport dport data s) = wire s @ [frame] \<and> inet_checksum (take 20 (drop 14 frame)) = 0 \<and>
    (\<forall>f t. pkt_bytes f 0 (length frame) = frame \<longrightarrow>
       handle_frame f (length frame) t = t\<lparr>socks := map (udp_sock (ip_addr s) sport dport data) (socks t)\<rparr>)"
proof -
  let ?pl = "udp_packet sport dport data"
  have lp: "length ?pl = 8 + length data" by (simp add: udp_packet_def)
  obtain hw where hw: "length hw = 6" "ip_send dst IP_UDP ?pl s = eth_send (ip_frame s hw dst IP_UDP ?pl) s"
    using ip_send_frame [OF s, of ?pl IP_UDP] n lp by auto
  let ?fr = "ip_frame s hw dst IP_UDP ?pl"
  have m: "length (mac s) = 6" using s by (simp add: can_send_def)
  have lf: "length ?fr = 34 + length ?pl" by (rule length_ip_frame [OF hw(1) m])
  have e: "udp_send dst sport dport data s = eth_send ?fr s"
    using n hw(2) by (simp add: udp_send_def Let_def udp_packet_def)
  have w: "wire (udp_send dst sport dport data s) = wire s @ [?fr]" using wire_eth_send [OF s, of ?fr] n lf lp e by simp
  have l: "length ?pl \<le> 1480" using n lp by simp
  have "handle_frame f (length ?fr) t = t\<lparr>socks := map (udp_sock (ip_addr s) sport dport data) (socks t)\<rparr>"
    if f: "pkt_bytes f 0 (length ?fr) = ?fr" for f t
  proof -
    note d = deliver [OF hw(1) m l f [unfolded lf]]
    have "handle_udp (ip_addr s) (pkt_at f 34) (length ?pl) t = t\<lparr>socks := map (udp_sock (ip_addr s) sport dport data) (socks t)\<rparr>"
      using handle_udp_packet [of data "pkt_at f 34" sport dport "length ?pl"] n d(2) lp by simp
    then show ?thesis unfolding lf d(1) by (simp add: IP_UDP_def IP_ICMP_def)
  qed
  moreover have "inet_checksum (take 20 (drop 14 ?fr)) = 0"
    using ip_header_verifies [OF l, of s dst IP_UDP] hw(1) m by (simp add: ip_frame_def)
  ultimately show ?thesis using w by blast
qed

section \<open>Datagrams that do not arrive\<close>

lemma full_size_cut:
  assumes s: "can_send s dst" and n: "1458 < length data" "length data \<le> 1472"
  shows "\<exists>frame. wire (udp_send dst sport dport data s) = wire s @ [frame] \<and>
    (\<forall>f t. pkt_bytes f 0 (length frame) = frame \<longrightarrow> handle_frame f (length frame) t = t)"
proof -
  let ?pl = "udp_packet sport dport data"
  have lp: "length ?pl = 8 + length data" by (simp add: udp_packet_def)
  obtain hw where hw: "length hw = 6" "ip_send dst IP_UDP ?pl s = eth_send (ip_frame s hw dst IP_UDP ?pl) s"
    using ip_send_frame [OF s, of ?pl IP_UDP] n lp by auto
  let ?fr = "ip_frame s hw dst IP_UDP ?pl"
  have m: "length (mac s) = 6" using s by (simp add: can_send_def)
  have lf: "length ?fr = 34 + length ?pl" by (rule length_ip_frame [OF hw(1) m])
  then have lt: "length (take 1500 ?fr) = 1500" using n lp by simp
  have e: "udp_send dst sport dport data s = eth_send ?fr s"
    using n hw(2) by (simp add: udp_send_def Let_def udp_packet_def)
  have w: "wire (udp_send dst sport dport data s) = wire s @ [take 1500 ?fr]" using wire_eth_send [OF s, of ?fr] e by simp
  have "handle_frame f (length (take 1500 ?fr)) t = t" if f: "pkt_bytes f 0 (length (take 1500 ?fr)) = take 1500 ?fr" for f t
  proof -
    have "f i = ?fr ! i" if "i < 34" for i using pkt_nth [OF f, of i] that lt by simp
    note ff = frame_fields [OF hw(1) m this]
    have "unat (of_nat (20 + length ?pl) :: u16) = 20 + length ?pl" using n lp by (simp add: unat_of_nat del: of_nat_add)
    then show ?thesis using n unfolding lt by (simp add: handle_frame_def ff lp Let_def ETH_IP_def ETH_ARP_def del: of_nat_add)
  qed
  with w show ?thesis by blast
qed

section \<open>Names\<close>

lemma find_Some_prop: "find P xs = Some x \<Longrightarrow> P x"
  by (auto simp: find_Some_iff)

lemma get32_high_zero: "p i = 0 \<Longrightarrow> get32 p i < 0x1000000"
proof -
  assume "p i = 0"
  then have "take_bit 24 (get32 p i) = get32 p i"
    by (intro bit_word_eqI) (auto simp: get32_def bit_simps dest: bit_imp_le_length)
  then have "get32 p i = get32 p i mod 2 ^ 24" by (simp add: take_bit_eq_mod)
  then show ?thesis using word_mod_less_divisor [of "0x1000000 :: u32" "get32 p i"] by simp
qed

lemma dns_scan_high_zero: "dns_scan r < 0x1000000"
  using get32_high_zero by (auto simp: dns_scan_def dest!: find_Some_prop split: option.split)

section \<open>The transmit buffers\<close>

lemma tx_buf_unat:
  assumes j: "j < PAGE_COUNT" and i: "i < 16"
  shows "unat (tx_buf_addr (page_addr j) i) = unat KERNEL_HEAP_START + j * PAGE_SIZE + (28416 + i * 1520)"
proof -
  have t: "tx_buf_addr (page_addr j) i = page_addr j + of_nat (28416 + i * 1520)"
    by (simp add: tx_buf_addr_def RX_BUF_def)
  have p: "unat (page_addr j) = unat KERNEL_HEAP_START + j * PAGE_SIZE" using j by (simp add: unat_page_addr)
  have "unat (page_addr j) + (28416 + i * 1520) < 2 ^ 32"
    using i j unfolding p by (simp add: KERNEL_HEAP_START_def PAGE_COUNT_val PAGE_SIZE_def)
  moreover have "unat (of_nat (28416 + i * 1520) :: u32) = 28416 + i * 1520" using i by (simp add: unat_of_nat del: of_nat_add)
  ultimately show ?thesis unfolding t p [symmetric] using unat_add_lem [of "page_addr j" "of_nat (28416 + i * 1520)"] by simp
qed

text \<open>Thirteen of the sixteen transmit buffers lie behind the eight pages.\<close>

lemma tx_buf_outside:
  assumes j: "j < PAGE_COUNT" and i: "3 \<le> i" "i < 16"
  shows "\<not> in_pages {j..<j + 8} (tx_buf_addr (page_addr j) i)"
proof -
  have "j * PAGE_SIZE + 32768 \<le> j * PAGE_SIZE + (28416 + i * 1520)" using i by simp
  then have "j + 8 \<le> (j * PAGE_SIZE + (28416 + i * 1520)) div PAGE_SIZE"
    by (simp add: less_eq_div_iff_mult_less_eq PAGE_SIZE_def)
  then show ?thesis using tx_buf_unat [OF j i(2)] by (simp add: in_pages_def)
qed

lemma eth_send_header:
  assumes "vio_iobase s \<noteq> 0" and b: "tx_bufs s ! (unat (tx_idx s) mod 16) = a" "a \<noteq> 0"
  shows "nmem (eth_send f s) a = 0"
proof -
  have "kmemset m a 0 10 a = 0" for m by (simp add: kmemset_apply in_region_def)
  with assms show ?thesis by (simp add: eth_send_def Let_def)
qed

section \<open>Sockets\<close>

lemma socks_send [simp]:
  "socks (eth_send f s) = socks s" "socks (arp_send tip r tha s) = socks s" "socks (ip_send dst p pl s) = socks s"
  "socks (udp_send dst sp dp data s) = socks s" "socks (tcp_send_raw dst sp dp sq ack fl data s) = socks s"
  "socks (tcp_reply i dst dp sp fl s) = socks s" "socks (handle_icmp src icmp len s) = socks s"
  by (simp_all add: eth_send_def arp_send_def ip_send_def udp_send_def tcp_send_raw_def tcp_reply_def handle_icmp_def Let_def)

text \<open>What a segment does to a socket: a function of the socket alone.\<close>

definition tcp_val :: "u32 \<Rightarrow> u16 \<Rightarrow> u16 \<Rightarrow> u32 \<Rightarrow> u8 \<Rightarrow> u8 list \<Rightarrow> sock \<Rightarrow> sock" where
  "tcp_val src sport dport sq flags data k =
     (if \<not> so_used k \<or> so_type k \<noteq> NET_SOCK_TCP then k
      else if so_listening k \<and> so_lport k = dport \<and> flags AND 0x02 \<noteq> 0 then
        k\<lparr>so_rip := src, so_rport := sport, so_ack := sq + 1, so_connected := True, so_state := 1, so_seq := 2\<rparr>
      else if so_lport k = dport \<and> so_rip k = src \<and> so_rport k = sport then
        let k = (if flags AND 0x12 = 0x12 then k\<lparr>so_ack := sq + 1, so_connected := True, so_state := 2\<rparr>
                 else if flags AND 0x10 \<noteq> 0 then k\<lparr>so_connected := True\<rparr> else k);
            k = (if data = [] then k
                 else (sock_take (tcp_left data k) k)\<lparr>so_ack := sq + of_nat (length (tcp_left data k))\<rparr>)
        in if flags AND 0x01 \<noteq> 0 then k\<lparr>so_ack := sq + 1, so_connected := False\<rparr> else k
      else k)"

text \<open>Whether the segment is for the socket's connection.\<close>

definition tcp_match :: "u32 \<Rightarrow> u16 \<Rightarrow> u16 \<Rightarrow> u8 \<Rightarrow> sock \<Rightarrow> bool" where
  "tcp_match src sport dport flags k \<longleftrightarrow> so_used k \<and> so_type k = NET_SOCK_TCP \<and>
     \<not> (so_listening k \<and> so_lport k = dport \<and> flags AND 0x02 \<noteq> 0) \<and> so_lport k = dport \<and> so_rip k = src \<and> so_rport k = sport"

text \<open>What is left of the segment's data after a socket's turn.\<close>

definition tcp_rest :: "u32 \<Rightarrow> u16 \<Rightarrow> u16 \<Rightarrow> u8 \<Rightarrow> sock \<Rightarrow> u8 list \<Rightarrow> u8 list" where
  "tcp_rest src sport dport flags k data = (if tcp_match src sport dport flags k then tcp_left data k else data)"

lemma sock_take_sel [simp]:
  "so_used (sock_take d k) = so_used k" "so_type (sock_take d k) = so_type k" "so_lport (sock_take d k) = so_lport k"
  "so_rip (sock_take d k) = so_rip k" "so_rport (sock_take d k) = so_rport k" "so_listening (sock_take d k) = so_listening k"
  "so_connected (sock_take d k) = so_connected k" "so_seq (sock_take d k) = so_seq k" "so_ack (sock_take d k) = so_ack k"
  by (simp_all add: sock_take_def)

lemma tcp_left_nil [simp]: "tcp_left [] k = []"
  by (simp add: tcp_left_def)

lemma tcp_left_buf: "so_rbuf k' = so_rbuf k \<Longrightarrow> tcp_left data k' = tcp_left data k"
  by (simp add: tcp_left_def)

lemma socks_tcp_sock:
  assumes i: "i < length (socks s)"
  shows "socks (snd (tcp_sock src sport dport sq flags i (data, s))) = (socks s)[i := tcp_val src sport dport sq flags data (socks s ! i)]"
    and "fst (tcp_sock src sport dport sq flags i (data, s)) = tcp_rest src sport dport flags (socks s ! i) data"
proof -
  let ?k = "socks s ! i"
  consider "\<not> so_used ?k \<or> so_type ?k \<noteq> NET_SOCK_TCP"
    | "so_used ?k" "so_type ?k = NET_SOCK_TCP" "so_listening ?k \<and> so_lport ?k = dport \<and> flags AND 0x02 \<noteq> 0"
    | "so_used ?k" "so_type ?k = NET_SOCK_TCP" "\<not> (so_listening ?k \<and> so_lport ?k = dport \<and> flags AND 0x02 \<noteq> 0)"
      "so_lport ?k = dport \<and> so_rip ?k = src \<and> so_rport ?k = sport"
    | "so_used ?k" "so_type ?k = NET_SOCK_TCP" "\<not> (so_listening ?k \<and> so_lport ?k = dport \<and> flags AND 0x02 \<noteq> 0)"
      "\<not> (so_lport ?k = dport \<and> so_rip ?k = src \<and> so_rport ?k = sport)" by blast
  then have "socks (snd (tcp_sock src sport dport sq flags i (data, s))) = (socks s)[i := tcp_val src sport dport sq flags data ?k] \<and>
    fst (tcp_sock src sport dport sq flags i (data, s)) = tcp_rest src sport dport flags ?k data"
  proof cases
    case 1
    then show ?thesis by (auto simp: tcp_sock_def tcp_val_def tcp_rest_def tcp_match_def)
  next
    case 2
    then show ?thesis using i by (simp add: tcp_sock_def tcp_val_def tcp_listen_def tcp_rest_def tcp_match_def Let_def)
  next
    case 3
    then show ?thesis unfolding tcp_sock_def tcp_val_def tcp_rest_def tcp_match_def Let_def prod.case using i
      by (cases "data = []") (simp_all only: simp_thms if_False if_True prod.case fst_conv snd_conv, simp_all add: i tcp_left_def)
  next
    case 4
    then show ?thesis unfolding tcp_sock_def tcp_val_def tcp_rest_def tcp_match_def Let_def prod.case
      by (simp only: simp_thms if_False if_True fst_conv snd_conv) simp
  qed
  then show "socks (snd (tcp_sock src sport dport sq flags i (data, s))) = (socks s)[i := tcp_val src sport dport sq flags data ?k]"
    "fst (tcp_sock src sport dport sq flags i (data, s)) = tcp_rest src sport dport flags ?k data" by simp_all
qed

text \<open>The loop over the sockets: every socket gets what the ones before it have left.\<close>

fun tcp_all :: "u32 \<Rightarrow> u16 \<Rightarrow> u16 \<Rightarrow> u32 \<Rightarrow> u8 \<Rightarrow> u8 list \<Rightarrow> sock list \<Rightarrow> sock list" where
  "tcp_all src sport dport sq flags data [] = []"
| "tcp_all src sport dport sq flags data (k # ks) =
     tcp_val src sport dport sq flags data k # tcp_all src sport dport sq flags (tcp_rest src sport dport flags k data) ks"

lemma tcp_all_length [simp]: "length (tcp_all src sport dport sq flags data ks) = length ks"
  by (induction ks arbitrary: data) simp_all

lemma tcp_all_nth:
  "i < length ks \<Longrightarrow> tcp_all src sport dport sq flags data ks ! i =
     tcp_val src sport dport sq flags (fold (tcp_rest src sport dport flags) (take i ks) data) (ks ! i)"
proof (induction ks arbitrary: data i)
  case (Cons k ks)
  then show ?case by (cases i) simp_all
qed simp

lemma socks_fold_tcp:
  "socks s = pre @ ks \<Longrightarrow> socks (snd (fold (tcp_sock src sport dport sq flags) [length pre..<length pre + length ks] (data, s))) =
     pre @ tcp_all src sport dport sq flags data ks"
proof (induction ks arbitrary: pre data s)
  case (Cons k ks)
  let ?r = "tcp_sock src sport dport sq flags (length pre) (data, s)"
  have i: "length pre < length (socks s)" "socks s ! length pre = k" using Cons.prems by simp_all
  have r: "?r = (tcp_rest src sport dport flags k data, snd ?r)" using socks_tcp_sock(2) [OF i(1), of src sport dport sq flags data] i(2)
    by (metis prod.collapse)
  have "socks (snd ?r) = (pre @ [tcp_val src sport dport sq flags data k]) @ ks"
    using socks_tcp_sock(1) [OF i(1), of src sport dport sq flags data] i(2) Cons.prems by simp
  from Cons.IH [OF this, of "tcp_rest src sport dport flags k data"]
  have "socks (snd (fold (tcp_sock src sport dport sq flags) [Suc (length pre)..<Suc (length pre) + length ks] ?r)) =
    pre @ tcp_val src sport dport sq flags data k # tcp_all src sport dport sq flags (tcp_rest src sport dport flags k data) ks"
    by (subst r) simp
  moreover have "[length pre..<length pre + length (k # ks)] = length pre # [Suc (length pre)..<Suc (length pre) + length ks]"
    by (simp add: upt_rec)
  ultimately show ?case by simp
qed simp

lemma socks_handle_tcp: "length (socks s) = SOCK_MAX \<Longrightarrow> socks (handle_tcp src tcp len s) =
    tcp_all src (get16 tcp 0) (get16 tcp 2) (get32 tcp 4) (tcp 13) (pkt_bytes tcp (tcp_hdr tcp) (len - tcp_hdr tcp)) (socks s)"
  using socks_fold_tcp [of s "[]" "socks s"] by (simp add: handle_tcp_def Let_def)

text \<open>What no frame from the network changes.\<close>

definition same_binding :: "sock \<Rightarrow> sock \<Rightarrow> bool" where
  "same_binding k k' \<longleftrightarrow> so_used k' = so_used k \<and> so_type k' = so_type k \<and> so_lport k' = so_lport k \<and> so_listening k' = so_listening k \<and>
     (length (so_rbuf k) \<le> SOCK_BUF \<longrightarrow> length (so_rbuf k') \<le> SOCK_BUF) \<and> take (length (so_rbuf k)) (so_rbuf k') = so_rbuf k"

definition net_step :: "net \<Rightarrow> net \<Rightarrow> bool" where
  "net_step s t \<longleftrightarrow> list_all2 same_binding (socks s) (socks t)"

lemma same_binding_refl [simp]: "same_binding k k"
  by (simp add: same_binding_def)

lemma same_binding_trans: "same_binding k k' \<Longrightarrow> same_binding k' k'' \<Longrightarrow> same_binding k k''"
  unfolding same_binding_def by (metis length_take min.absorb_iff1 min.cobounded1 take_take)

lemma net_step_refl: "socks t = socks s \<Longrightarrow> net_step s t"
  by (simp add: net_step_def list.rel_refl)

lemma net_step_trans: "net_step s t \<Longrightarrow> net_step t u \<Longrightarrow> net_step s u"
  unfolding net_step_def by (rule list_all2_trans [OF same_binding_trans])

lemma net_step_map: "socks t = map f (socks s) \<Longrightarrow> (\<And>k. same_binding k (f k)) \<Longrightarrow> net_step s t"
  by (simp add: net_step_def list_all2_map2 list.rel_refl)

lemma binding_take: "same_binding k (sock_take d k)" "same_binding k ((sock_take d k)\<lparr>so_ack := a\<rparr>)"
  "same_binding k ((sock_take d k)\<lparr>so_rip := ip, so_rport := p\<rparr>)"
  by (auto simp: same_binding_def sock_take_def)

lemma binding_udp: "same_binding k (udp_sock src sport dport data k)"
  by (simp add: udp_sock_def binding_take)

lemma binding_fields: "same_binding k k' \<Longrightarrow> same_binding k (k'\<lparr>so_ack := a, so_connected := c\<rparr>)"
  "same_binding k k' \<Longrightarrow> same_binding k (k'\<lparr>so_ack := a, so_connected := c, so_state := st\<rparr>)" "same_binding k k' \<Longrightarrow> same_binding k (k'\<lparr>so_connected := c\<rparr>)"
  "same_binding k (k\<lparr>so_rip := ip, so_rport := p, so_ack := a, so_connected := c, so_state := st, so_seq := q\<rparr>)"
  by (simp_all add: same_binding_def)

lemma binding_tcp: "same_binding k (tcp_val src sport dport sq flags data k)"
proof -
  define k1 where "k1 = (if flags AND 0x12 = 0x12 then k\<lparr>so_ack := sq + 1, so_connected := True, so_state := 2\<rparr>
                 else if flags AND 0x10 \<noteq> 0 then k\<lparr>so_connected := True\<rparr> else k)"
  have 1: "same_binding k k1" by (simp add: k1_def binding_fields)
  define k2 where "k2 = (if data = [] then k1
                 else (sock_take (tcp_left data k1) k1)\<lparr>so_ack := sq + of_nat (length (tcp_left data k1))\<rparr>)"
  have 2: "same_binding k k2" using same_binding_trans [OF 1 binding_take(2)] 1 by (simp add: k2_def)
  show ?thesis unfolding tcp_val_def Let_def k1_def [symmetric] k2_def [symmetric] using 2 by (auto intro: binding_fields)
qed

lemma step_frame: "length (socks s) = SOCK_MAX \<Longrightarrow> net_step s (handle_frame f len s)"
proof -
  assume l: "length (socks s) = SOCK_MAX"
  have u: "net_step s (handle_udp src p n s)" for src p n
  proof (cases "unat (get16 p 4) < 8 \<or> unat (get16 p 4) > n")
    case True
    then show ?thesis by (simp add: handle_udp_def Let_def net_step_refl)
  next
    case False
    then show ?thesis by (intro net_step_map [where f = "udp_sock src (get16 p 0) (get16 p 2) (pkt_bytes p 8 (unat (get16 p 4) - 8))"])
        (simp_all add: handle_udp_def Let_def binding_udp)
  qed
  have "list_all2 same_binding ks (tcp_all src sport dport sq flags data ks)" for src sport dport sq flags data ks
    by (induction ks arbitrary: data) (simp_all add: binding_tcp)
  then have t: "net_step s (handle_tcp src p n s)" for src p n unfolding net_step_def socks_handle_tcp [OF l] .
  show ?thesis using u t by (simp add: handle_frame_def Let_def net_step_refl)
qed

lemma step_length: "net_step s t \<Longrightarrow> length (socks t) = length (socks s)"
  by (simp add: net_step_def list_all2_lengthD)

lemma step_poll_loop: "length (socks s) = SOCK_MAX \<Longrightarrow> net_step s (poll_loop g s)"
proof (induction g arbitrary: s)
  case (Suc g)
  show ?case
  proof (cases "rx_used s")
    case (Cons e es)
    let ?s = "if rx_len e > 10 then handle_frame (pkt_at (rx_bytes e) 10) (rx_len e - 10) s else s"
    let ?t = "?s\<lparr>rx_ring := (rx_ring ?s)[unat (rx_idx ?s) mod 64 := rx_id e], rx_idx := rx_idx ?s + 1, rx_used := es\<rparr>"
    have 1: "net_step s ?s" using step_frame [OF Suc.prems] by (simp add: net_step_refl)
    have 2: "net_step s ?t" using 1 by (simp add: net_step_def)
    then have "length (socks ?t) = SOCK_MAX" using step_length [OF 2] Suc.prems by (simp only:)
    from net_step_trans [OF 2 Suc.IH [OF this]] Cons show ?thesis by (simp add: Let_def)
  qed (simp add: net_step_refl)
qed (simp add: net_step_refl)

lemma step_poll: "length (socks s) = SOCK_MAX \<Longrightarrow> net_step s (net_poll s)"
proof -
  assume l: "length (socks s) = SOCK_MAX"
  have a: "socks (arrive s) = socks s" by (simp add: arrive_def split: list.split)
  have "net_step s (poll_loop 32 ((arrive s)\<lparr>net_polling := True\<rparr>))"
    using step_poll_loop [of "(arrive s)\<lparr>net_polling := True\<rparr>" 32] l a by (simp add: net_step_def)
  then show ?thesis using a by (simp add: net_poll_def Let_def net_step_def list.rel_refl)
qed

section \<open>Properties\<close>

text \<open>Two hosts on one wire to try them on.\<close>

definition host_a :: net where
  "host_a = \<lparr>vio_iobase = 0xC000, mac = [2, 0, 0, 0, 0, 1], ip_addr = 0x0A000001, ip_gw = 0, ip_mask = 0xFFFFFF00, ip_dns = 0,
     net_ready = True, tx_bufs = replicate 16 0x02000000, rx_bufs = replicate 16 0x02100000, tx_idx = 0, rx_idx = 16,
     tx_len = replicate 16 0, tx_ring = replicate 64 0, rx_ring = replicate 64 0, rx_used = [], arrivals = [], wire = [],
     nmem = (\<lambda>_. 0), arp_mac = [2, 0, 0, 0, 0, 2], arp_ip = 0x0A000002, arp_valid = True,
     socks = replicate SOCK_MAX blank_sock, ephemeral = 40000, net_polling = False\<rparr>"

definition host_b :: net where
  "host_b = host_a\<lparr>mac := [2, 0, 0, 0, 0, 2], ip_addr := 0x0A000002, arp_mac := [2, 0, 0, 0, 0, 1], arp_ip := 0x0A000001,
     socks := (replicate SOCK_MAX blank_sock)[3 := blank_sock\<lparr>so_used := True, so_type := NET_SOCK_UDP, so_lport := 7\<rparr>,
       5 := blank_sock\<lparr>so_used := True, so_type := NET_SOCK_TCP, so_lport := 80, so_rip := 0x0A000001, so_rport := 4000, so_connected := True\<rparr>]\<rparr>"

lemma host_a_sends: "can_send host_a 0x0A000002"
  by (simp add: can_send_def host_a_def route_nexthop_def same_subnet_def arp_known_def BCAST_def)



text \<open>
  A datagram of 1459 to 1472 bytes, which \<^verbatim>\<open>udp_send\<close> accepts whole, never arrives: \<^verbatim>\<open>eth_send\<close> cuts the
  frame at 1500 bytes and the receiver drops it, for its header promises more.
\<close>

theorem udp_full_size_lost:
  assumes "can_send s dst" and "1458 < length data" and "length data \<le> 1472"
  shows "\<exists>frame. wire (udp_send dst sport dport data s) = wire s @ [frame] \<and>
    (\<forall>f t. pkt_bytes f 0 (length frame) = frame \<longrightarrow> handle_frame f (length frame) t = t)"
  using assms by (rule full_size_cut)

theorem udp_full_size_lost_witness:
  "\<exists>frame. wire (udp_send 0x0A000002 9 7 (replicate 1460 0) host_a) = [frame] \<and>
     handle_frame (\<lambda>i. frame ! i) (length frame) host_b = host_b"
proof -
  obtain frame where "wire (udp_send 0x0A000002 9 7 (replicate 1460 0) host_a) = wire host_a @ [frame]"
    "\<forall>f t. pkt_bytes f 0 (length frame) = frame \<longrightarrow> handle_frame f (length frame) t = t"
    using udp_full_size_lost [OF host_a_sends, of "replicate 1460 0" 9 7] by auto
  moreover have "pkt_bytes (\<lambda>i. frame ! i) 0 (length frame) = frame" by (simp add: pkt_bytes_def map_nth)
  moreover have "wire host_a = []" by (simp add: host_a_def)
  ultimately show ?thesis by auto
qed

text \<open>
  Property C29. Whatever frames come in, a poll neither opens nor closes a socket nor changes its type or port; what a
  socket has received stays, new data goes behind it, and no socket buffer ever holds more than its 2048 bytes.
\<close>

theorem net_poll_buffers:
  assumes "length (socks s) = SOCK_MAX" and "\<forall>k\<in>set (socks s). length (so_rbuf k) \<le> SOCK_BUF" and "i < SOCK_MAX"
  shows "length (socks (net_poll s)) = SOCK_MAX \<and> length (so_rbuf (socks (net_poll s) ! i)) \<le> SOCK_BUF \<and>
    take (length (so_rbuf (socks s ! i))) (so_rbuf (socks (net_poll s) ! i)) = so_rbuf (socks s ! i) \<and>
    so_used (socks (net_poll s) ! i) = so_used (socks s ! i) \<and> so_type (socks (net_poll s) ! i) = so_type (socks s ! i) \<and>
    so_lport (socks (net_poll s) ! i) = so_lport (socks s ! i) \<and> so_listening (socks (net_poll s) ! i) = so_listening (socks s ! i)"
proof -
  note st = step_poll [OF assms(1)]
  have "same_binding (socks s ! i) (socks (net_poll s) ! i)" using st assms(1,3) by (simp add: net_step_def list_all2_conv_all_nth)
  moreover have "length (so_rbuf (socks s ! i)) \<le> SOCK_BUF" using assms by simp
  ultimately show ?thesis using step_length [OF st] assms(1) by (simp add: same_binding_def)
qed

theorem net_poll_buffers_witness:
  "length (so_rbuf (socks (net_poll (host_b\<lparr>arrivals := [[\<lparr>rx_id = 0, rx_len = 60, rx_bytes = (\<lambda>i. of_nat i)\<rparr>]]\<rparr>)) ! 3)) \<le> SOCK_BUF"
proof -
  let ?s = "host_b\<lparr>arrivals := [[\<lparr>rx_id = 0, rx_len = 60, rx_bytes = (\<lambda>i. of_nat i)\<rparr>]]\<rparr>"
  have "set ((replicate n x)[i := a, j := b]) \<subseteq> {x, a, b}" for n i j and x a b :: sock
    by (auto simp: set_conv_nth nth_list_update_if split: if_splits)
  then have "\<forall>k\<in>set (socks ?s). length (so_rbuf k) \<le> SOCK_BUF" by (fastforce simp: host_b_def blank_sock_def)
  moreover have "length (socks ?s) = SOCK_MAX" "3 < SOCK_MAX" by (simp_all add: host_b_def SOCK_MAX_def)
  ultimately show ?thesis using net_poll_buffers by blast
qed

text \<open>
  The scan for the address in the answer of a name server looks for a zero byte and takes the four bytes from
  it on: whatever the server answers, the address \<^verbatim>\<open>net_dns\<close> returns is 0.x.y.z.
\<close>

theorem net_dns_wrong: "fst (net_dns host s) < 0x1000000"
  using dns_scan_high_zero by (simp add: net_dns_def Let_def split_beta split: option.split)

text \<open>
  Property C31. Thirteen of the card's sixteen transmit buffers lie outside the eight pages allocated for them, and a send
  through one of them overwrites what is there.
\<close>

theorem virtio_tx_outside:
  assumes "mm_inv m" and "base \<noteq> 0" and "virtio_init (Some (base, hw)) (s, m) = (True, s', m')"
  shows "\<exists>j. used_pages m' = used_pages m \<union> {j..<j + 8} \<and> {j..<j + 8} \<inter> used_pages m = {} \<and>
    (\<forall>i f. 3 \<le> i \<and> i < 16 \<longrightarrow> \<not> in_pages {j..<j + 8} (tx_bufs s' ! i) \<and>
       nmem (eth_send f (s'\<lparr>tx_idx := of_nat i\<rparr>)) (tx_bufs s' ! i) = 0)"
proof -
  obtain p m1 where al: "mm_alloc_pages 8 m = (Some p, m1)" using assms(3) by (auto simp: virtio_init_def Let_def split: prod.splits option.splits)
  obtain j where j: "p = page_addr j" "j + 8 \<le> PAGE_COUNT" "{j..<j + 8} \<inter> used_pages m = {}" "used_pages m1 = used_pages m \<union> {j..<j + 8}"
    using kpages.alloc_some [OF assms(1) al] by auto
  have s': "vio_iobase s' = base" "tx_bufs s' = map (tx_buf_addr p) [0..<16]" "used_pages m' = used_pages m1"
    using assms(3) by (auto simp: virtio_init_def al Let_def)
  have "\<not> in_pages {j..<j + 8} (tx_bufs s' ! i) \<and> nmem (eth_send f (s'\<lparr>tx_idx := of_nat i\<rparr>)) (tx_bufs s' ! i) = 0"
    if i: "3 \<le> i" "i < 16" for i f
  proof -
    have b: "tx_bufs s' ! i = tx_buf_addr (page_addr j) i" using i s'(2) j(1) by simp
    have jc: "j < PAGE_COUNT" using j(2) by simp
    have "unat (tx_buf_addr (page_addr j) i) \<noteq> 0" using tx_buf_unat [OF jc i(2)] by simp
    then have n: "tx_bufs s' ! i \<noteq> 0" unfolding b by (metis unat_0)
    have "unat (of_nat i :: u16) mod 16 = i" using i by (simp add: unat_of_nat)
    then show ?thesis using tx_buf_outside [OF jc i] b n eth_send_header [of "s'\<lparr>tx_idx := of_nat i\<rparr>" "tx_bufs s' ! i" f] assms(2) s'(1)
      by simp
  qed
  then show ?thesis using j s'(3) by blast
qed

definition tcp_data :: "packet \<Rightarrow> nat \<Rightarrow> u8 list" where
  "tcp_data p len = pkt_bytes p (tcp_hdr p) (len - tcp_hdr p)"

definition data_segment :: "sock \<Rightarrow> packet \<Rightarrow> bool" where
  "data_segment k p \<longleftrightarrow> get16 p 0 = so_rport k \<and> get16 p 2 = so_lport k \<and> p 13 = 0x18"

lemma tcp_val_data:
  assumes "so_used k" "so_type k = NET_SOCK_TCP" "so_rip k = src" "so_rport k = sport" "so_lport k = dport"
  shows "so_rbuf (tcp_val src sport dport sq 0x18 data k) = so_rbuf (sock_take data k)"
    "so_used (tcp_val src sport dport sq 0x18 data k)" "so_type (tcp_val src sport dport sq 0x18 data k) = NET_SOCK_TCP"
    "so_rip (tcp_val src sport dport sq 0x18 data k) = so_rip k" "so_rport (tcp_val src sport dport sq 0x18 data k) = so_rport k"
    "so_lport (tcp_val src sport dport sq 0x18 data k) = so_lport k"
proof -
  have f: "(0x18 :: u8) AND 0x02 = 0" "(0x18 :: u8) AND 0x12 \<noteq> 0x12" "(0x18 :: u8) AND 0x10 \<noteq> 0" "(0x18 :: u8) AND 0x01 = 0" by simp_all
  show "so_rbuf (tcp_val src sport dport sq 0x18 data k) = so_rbuf (sock_take data k)"
    "so_used (tcp_val src sport dport sq 0x18 data k)" "so_type (tcp_val src sport dport sq 0x18 data k) = NET_SOCK_TCP"
    "so_rip (tcp_val src sport dport sq 0x18 data k) = so_rip k" "so_rport (tcp_val src sport dport sq 0x18 data k) = so_rport k"
    "so_lport (tcp_val src sport dport sq 0x18 data k) = so_lport k"
    using assms by (simp_all add: tcp_val_def f sock_take_def tcp_left_def Let_def)
qed

lemma no_syn: "(0x18 :: u8) AND 0x02 = 0"
  by simp

text \<open>Sockets of other connections let a data segment through as it is and do not change.\<close>

lemma tcp_val_other: "\<not> tcp_match src sport dport 0x18 k \<Longrightarrow> tcp_val src sport dport sq 0x18 data k = k"
  by (auto simp: tcp_val_def tcp_match_def no_syn)

lemma tcp_rest_others:
  "\<forall>k\<in>set ks. \<not> tcp_match src sport dport 0x18 k \<Longrightarrow> fold (tcp_rest src sport dport 0x18) ks data = data"
  by (induction ks) (simp_all add: tcp_rest_def)

lemma sock_take_buf: "length (so_rbuf k) \<le> SOCK_BUF \<Longrightarrow> so_rbuf (sock_take d k) = take SOCK_BUF (so_rbuf k @ d)"
  by (simp add: sock_take_def)



lemma run_free: "(\<And>i. i < PAGE_COUNT \<Longrightarrow> \<not> bitmap_get bm i) \<Longrightarrow> j + d \<le> PAGE_COUNT \<Longrightarrow> alloc_run bm j r (r + d) = r + d"
proof (induction d arbitrary: j r)
  case (Suc d)
  then show ?case using Suc.IH [of "Suc j" "Suc r"] by (subst alloc_run.simps) simp
qed (subst alloc_run.simps, simp)

lemma first_pages: "0 < n \<Longrightarrow> n \<le> PAGE_COUNT \<Longrightarrow> fst (mm_alloc_pages n (mm_init f)) = Some (page_addr 0)"
proof -
  assume n: "0 < n" "n \<le> PAGE_COUNT"
  have z: "\<not> bitmap_get (page_bitmap (mm_init f)) i" if "i < PAGE_COUNT" for i
  proof -
    have "i div 8 < PAGE_COUNT div 8 + 1" using that div_le_mono [of i PAGE_COUNT 8] by simp
    then have "page_bitmap (mm_init f) ! (i div 8) = 0" unfolding mm_init_def mm.simps by (rule nth_replicate)
    then show ?thesis by (simp add: bitmap_get_def)
  qed
  have "alloc_run (page_bitmap (mm_init f)) 0 0 n = n" using run_free [OF z, of 0 n 0] n by simp
  then have "alloc_scan (page_bitmap (mm_init f)) 0 n = Some 0" using n z by (subst alloc_scan.simps) simp
  then show ?thesis using n by (simp add: mm_alloc_pages_def)
qed

text \<open>One segment that is sent twice.\<close>

definition sample_segment :: packet where
  "sample_segment = (\<lambda>i. if i < 22 then [0x0F, 0xA0, 0, 80, 0, 0, 0, 1, 0, 0, 0, 1, 0x50, 0x18, 0xFF, 0xFF, 0, 0, 0, 0, 104, 105] ! i else 0)"


theorem virtio_tx_outside_witness:
  "\<exists>s' m'. virtio_init (Some (0xC000, mac host_a)) (host_a, mm_init (\<lambda>_. 1)) = (True, s', m') \<and>
     nmem (eth_send [] (s'\<lparr>tx_idx := of_nat 3\<rparr>)) (tx_bufs s' ! 3) = 0"
proof -
  have "fst (mm_alloc_pages 8 (mm_init (\<lambda>_. 1))) = Some (page_addr 0)" by (rule first_pages) (simp_all add: PAGE_COUNT_val)
  then obtain m1 where "mm_alloc_pages 8 (mm_init (\<lambda>_. 1)) = (Some (page_addr 0), m1)" by (cases "mm_alloc_pages 8 (mm_init (\<lambda>_. 1))") auto
  then obtain s' m' where v: "virtio_init (Some (0xC000, mac host_a)) (host_a, mm_init (\<lambda>_. 1)) = (True, s', m')"
    by (simp add: virtio_init_def Let_def)
  have "(0xC000 :: u16) \<noteq> 0" by simp
  from virtio_tx_outside [OF mm_inv_init this v] have "nmem (eth_send [] (s'\<lparr>tx_idx := of_nat 3\<rparr>)) (tx_bufs s' ! 3) = 0" by auto
  with v show ?thesis by blast
qed

end
