(* ===== verification/SyscallSpec.thy ===== *)
theory SyscallSpec
  imports Syscall Ring VfsSpec SchedSpec NetSpec
begin

text \<open>
  Properties of the system calls: a pipe is a queue under any traffic, what a path argument names, the current
  directories of the processes under any sequence of calls on paths, and descriptor numbers that clash.
\<close>

section \<open>A pipe is a queue\<close>

definition pipe_items :: "kpipe \<Rightarrow> u8 list" where
  "pipe_items p = ring_items (pi_buf p) (pi_rpos p) (pi_len p)"

definition pipe_ok :: "kpipe \<Rightarrow> bool" where
  "pipe_ok p \<longleftrightarrow> length (pi_buf p) = PIPE_BUF \<and> pi_len p \<le> PIPE_BUF \<and> pi_rpos p < PIPE_BUF"

interpretation pipeq: bounded_fifo pipe_items pipe_ok PIPE_BUF pipe_put pipe_get
proof
  fix p b
  assume ok: "pipe_ok p"
  show "length (pipe_items p) < PIPE_BUF \<Longrightarrow> fst (pipe_put b p) \<and> pipe_ok (snd (pipe_put b p)) \<and>
      pipe_items (snd (pipe_put b p)) = pipe_items p @ [b]"
    using ok ring_items_put [of "pi_len p" "pi_buf p" "pi_rpos p" b] by (simp add: pipe_items_def pipe_ok_def pipe_put_def)
  show "\<not> length (pipe_items p) < PIPE_BUF \<Longrightarrow> \<not> fst (pipe_put b p) \<and> pipe_ok (snd (pipe_put b p)) \<and>
      pipe_items (snd (pipe_put b p)) = pipe_items p"
    using ok by (simp add: pipe_items_def pipe_put_def)
next
  fix p
  assume ok: "pipe_ok p"
  then show "pipe_ok (snd (pipe_get p)) \<and> pipe_items (snd (pipe_get p)) = tl (pipe_items p) \<and>
      fst (pipe_get p) = (case pipe_items p of [] \<Rightarrow> None | x # xs \<Rightarrow> Some x)"
    by (cases "pi_len p") (auto simp: pipe_items_def pipe_ok_def pipe_get_def ring_items_get)
qed

lemma pipe_get_fds [simp]: "pi_used (snd (pipe_get p)) = pi_used p" "pi_rfd (snd (pipe_get p)) = pi_rfd p" "pi_wfd (snd (pipe_get p)) = pi_wfd p"
  by (simp_all add: pipe_get_def)

lemma pipe_put_fds [simp]: "pi_used (snd (pipe_put b p)) = pi_used p" "pi_rfd (snd (pipe_put b p)) = pi_rfd p" "pi_wfd (snd (pipe_put b p)) = pi_wfd p"
  by (simp_all add: pipe_put_def)

definition same_ends :: "kpipe \<Rightarrow> kpipe \<Rightarrow> bool" where
  "same_ends p q \<longleftrightarrow> pi_used p = pi_used q \<and> pi_rfd p = pi_rfd q \<and> pi_wfd p = pi_wfd q"

lemma drain_ends: "same_ends p (snd (drain pipe_get n p))"
proof (induction n arbitrary: p)
  case (Suc n)
  obtain r q where g: "pipe_get p = (r, q)" by fastforce
  with pipe_get_fds [of p] have e: "same_ends p q" by (simp add: same_ends_def)
  show ?case using Suc [of q] e by (cases r) (auto simp: g same_ends_def split_beta)
qed (simp add: same_ends_def)

lemma offer_ends: "same_ends p (snd (offer pipe_put bs p))"
proof (induction bs arbitrary: p)
  case (Cons b bs)
  obtain r q where g: "pipe_put b p = (r, q)" by fastforce
  with pipe_put_fds [of b p] have e: "same_ends p q" by (simp add: same_ends_def)
  show ?case using Cons [of q] e by (auto simp: g same_ends_def split_beta)
qed (simp add: same_ends_def)

text \<open>Pipe \<open>i\<close> has the descriptors \<open>48 + 2 i\<close> and \<open>49 + 2 i\<close>, or -1 for a closed end.\<close>

definition pipes_inv :: "kpipe list \<Rightarrow> bool" where
  "pipes_inv ps \<longleftrightarrow> length ps = PIPE_MAX \<and>
     (\<forall>i < PIPE_MAX. pi_used (ps ! i) \<longrightarrow>
        pipe_ok (ps ! i) \<and> pi_rfd (ps ! i) \<in> {48 + 2 * int i, -1} \<and> pi_wfd (ps ! i) \<in> {49 + 2 * int i, -1})"

lemma pipe_of_end:
  assumes "pipes_inv ps" and "i < PIPE_MAX" and "pi_used (ps ! i)" and "pi_rfd (ps ! i) = fd \<or> pi_wfd (ps ! i) = fd" and "fd \<noteq> -1"
  shows "pipe_from_fd fd ps = Some i"
  unfolding pipe_from_fd_def
proof (rule first_from_eq)
  fix j assume j: "j < i"
  then have "pi_used (ps ! j) \<Longrightarrow> pi_rfd (ps ! j) \<in> {48 + 2 * int j, -1} \<and> pi_wfd (ps ! j) \<in> {49 + 2 * int j, -1}"
    using assms(1,2) by (simp add: pipes_inv_def)
  moreover have "pi_rfd (ps ! i) \<in> {48 + 2 * int i, -1} \<and> pi_wfd (ps ! i) \<in> {49 + 2 * int i, -1}"
    using assms(1-3) by (simp add: pipes_inv_def)
  ultimately show "\<not> (pi_used (ps ! j) \<and> (pi_rfd (ps ! j) = fd \<or> pi_wfd (ps ! j) = fd))" using assms(4,5) j by auto
qed (use assms in \<open>auto simp: pipes_inv_def\<close>)

lemma pipes_inv_update:
  "pipes_inv ps \<Longrightarrow> i < PIPE_MAX \<Longrightarrow> same_ends (ps ! i) p \<Longrightarrow> pipe_ok p \<Longrightarrow> pipes_inv (ps[i := p])"
  by (auto simp: pipes_inv_def same_ends_def nth_list_update)

section \<open>Traffic through the system calls\<close>

text \<open>Writes to one end and reads from the other, in any order: the bytes accepted and the bytes read.\<close>

fun pipe_traffic :: "u32 \<Rightarrow> int \<Rightarrow> int \<Rightarrow> (u8 list + u32) list \<Rightarrow> sys \<Rightarrow> (u8 list \<times> u8 list \<times> sys) option" where
  "pipe_traffic f rfd wfd [] s = Some ([], [], s)"
| "pipe_traffic f rfd wfd (Inl bs # ops) s =
     (case syscall_handler f (FileCall (SYS_WRITE wfd bs)) s of
        Some (Reply n Nothing, t) \<Rightarrow>
          map_option (\<lambda>(ins, outs, u). (take (nat n) bs @ ins, outs, u)) (pipe_traffic f rfd wfd ops t)
      | _ \<Rightarrow> None)"
| "pipe_traffic f rfd wfd (Inr n # ops) s =
     (case syscall_handler f (FileCall (SYS_READ rfd True n)) s of
        Some (Reply k (Bytes bs), t) \<Rightarrow> map_option (\<lambda>(ins, outs, u). (ins, bs @ outs, u)) (pipe_traffic f rfd wfd ops t)
      | Some (Reply k Nothing, t) \<Rightarrow> pipe_traffic f rfd wfd ops t
      | _ \<Rightarrow> None)"

definition pipe_open :: "nat \<Rightarrow> sys \<Rightarrow> bool" where
  "pipe_open i s \<longleftrightarrow> i < PIPE_MAX \<and> pipes_inv (k_pipes s) \<and> pi_used (k_pipes s ! i) \<and> pi_rfd (k_pipes s ! i) = 48 + 2 * int i \<and>
     pi_wfd (k_pipes s ! i) = 49 + 2 * int i"

lemma write_call:
  assumes "pipe_open i s" and "bs \<noteq> []"
  shows "\<exists>t k. syscall_handler f (FileCall (SYS_WRITE (49 + 2 * int i) bs)) s = Some (Reply (int k) Nothing, t) \<and>
    k = min (length bs) (PIPE_BUF - length (pipe_items (k_pipes s ! i))) \<and>
    pipe_open i t \<and> pipe_items (k_pipes t ! i) = pipe_items (k_pipes s ! i) @ take k bs"
proof -
  have o: "i < PIPE_MAX" "pipes_inv (k_pipes s)" "pi_used (k_pipes s ! i)" "pi_rfd (k_pipes s ! i) = 48 + 2 * int i"
    "pi_wfd (k_pipes s ! i) = 49 + 2 * int i" using assms(1) by (auto simp: pipe_open_def)
  then have len: "length (k_pipes s) = PIPE_MAX" and ok: "pipe_ok (k_pipes s ! i)" by (auto simp: pipes_inv_def)
  have p: "pipe_from_fd (49 + 2 * int i) (k_pipes s) = Some i" using o by (intro pipe_of_end) auto
  obtain k q where kq: "offer pipe_put bs (k_pipes s ! i) = (k, q)" by fastforce
  note q = pipeq.offer_items [OF ok kq] and e = offer_ends [of "k_pipes s ! i" bs, unfolded kq snd_conv]
  show ?thesis
    by (rule exI [of _ "s\<lparr>k_pipes := (k_pipes s)[i := q]\<rparr>"], rule exI [of _ k])
       (use p kq q o e len assms(2) pipes_inv_update [OF o(2,1) e] in
        \<open>simp add: sys_write_def write_fd_def on_pipes_def pipe_write_def pipe_open_def same_ends_def\<close>)
qed

lemma read_call:
  assumes "pipe_open i s"
  shows "\<exists>t. (if sint n \<le> 0 then syscall_handler f (FileCall (SYS_READ (48 + 2 * int i) True n)) s = Some (Reply (-1) Nothing, t) \<and> t = s
    else let bs = take (nat (sint n)) (pipe_items (k_pipes s ! i))
      in syscall_handler f (FileCall (SYS_READ (48 + 2 * int i) True n)) s = Some (Reply (int (length bs)) (Bytes bs), t) \<and>
         pipe_open i t \<and> pipe_items (k_pipes t ! i) = drop (nat (sint n)) (pipe_items (k_pipes s ! i)))"
proof -
  have o: "i < PIPE_MAX" "pipes_inv (k_pipes s)" "pi_used (k_pipes s ! i)" "pi_rfd (k_pipes s ! i) = 48 + 2 * int i"
    "pi_wfd (k_pipes s ! i) = 49 + 2 * int i" using assms(1) by (auto simp: pipe_open_def)
  then have len: "length (k_pipes s) = PIPE_MAX" and ok: "pipe_ok (k_pipes s ! i)" by (auto simp: pipes_inv_def)
  have p: "pipe_from_fd (48 + 2 * int i) (k_pipes s) = Some i" using o by (intro pipe_of_end) auto
  obtain bs q where kq: "drain pipe_get (nat (sint n)) (k_pipes s ! i) = (bs, q)" by fastforce
  note q = pipeq.drain_items [OF ok kq] and e = drain_ends [of "k_pipes s ! i" "nat (sint n)", unfolded kq snd_conv]
  show ?thesis
  proof (cases "sint n \<le> 0")
    case True
    with p show ?thesis by (simp add: sys_read_def read_fd_def on_pipes_def pipe_read_def)
  next
    case False
    show ?thesis
      by (rule exI [of _ "s\<lparr>k_pipes := (k_pipes s)[i := q]\<rparr>"])
         (use p kq q o e len False pipes_inv_update [OF o(2,1) e] in
          \<open>simp add: sys_read_def read_fd_def on_pipes_def pipe_read_def pipe_open_def same_ends_def Let_def\<close>)
  qed
qed


text \<open>Property C27. Whatever the sizes and the order of the writes to one end of a pipe and of the reads from the other, every write is answered, the
  bytes read so far followed by those still queued are those that were queued followed by the accepted ones, and
  no more than 2048 bytes are ever queued: nothing is lost, repeated or reordered.\<close>

theorem pipe_stream:
  assumes "pipe_open i s"
  shows "\<exists>ins outs t. pipe_traffic f (48 + 2 * int i) (49 + 2 * int i) ops s = Some (ins, outs, t) \<and> pipe_open i t \<and>
    outs @ pipe_items (k_pipes t ! i) = pipe_items (k_pipes s ! i) @ ins \<and> length (pipe_items (k_pipes t ! i)) \<le> 2048"
  using assms
proof (induction ops arbitrary: s)
  case Nil
  then show ?case by (auto simp: pipe_open_def pipes_inv_def pipe_ok_def pipe_items_def PIPE_BUF_def)
next
  case (Cons op ops)
  show ?case
  proof (cases op)
    case (Inl bs)
    show ?thesis
    proof (cases "bs = []")
      case True
      have "pipe_from_fd (49 + 2 * int i) (k_pipes s) = Some i" using Cons.prems by (intro pipe_of_end) (auto simp: pipe_open_def)
      with True Inl Cons.IH [OF Cons.prems] show ?thesis
        by (auto simp: sys_write_def write_fd_def on_pipes_def pipe_write_def)
    next
      case False
      from write_call [OF Cons.prems this, of f] obtain t k where
        w: "syscall_handler f (FileCall (SYS_WRITE (49 + 2 * int i) bs)) s = Some (Reply (int k) Nothing, t)" "pipe_open i t"
          "pipe_items (k_pipes t ! i) = pipe_items (k_pipes s ! i) @ take k bs" by blast
      from Cons.IH [OF w(2)] w(1,3) Inl show ?thesis by (auto simp del: syscall_handler.simps)
    qed
  next
    case (Inr n)
    show ?thesis
    proof (cases "sint n \<le> 0")
      case True
      with read_call [OF Cons.prems, of n f] Cons.IH [OF Cons.prems] Inr show ?thesis by (auto simp del: syscall_handler.simps)
    next
      case False
      with read_call [OF Cons.prems, of n f] obtain t where
        r: "syscall_handler f (FileCall (SYS_READ (48 + 2 * int i) True n)) s =
            Some (Reply (int (length (take (nat (sint n)) (pipe_items (k_pipes s ! i))))) (Bytes (take (nat (sint n)) (pipe_items (k_pipes s ! i)))), t)"
          "pipe_open i t" "pipe_items (k_pipes t ! i) = drop (nat (sint n)) (pipe_items (k_pipes s ! i))"
        by (auto simp: Let_def)
      from Cons.IH [OF r(2)] obtain ins outs u where
        u: "pipe_traffic f (48 + 2 * int i) (49 + 2 * int i) ops t = Some (ins, outs, u)" "pipe_open i u"
          "outs @ pipe_items (k_pipes u ! i) = pipe_items (k_pipes t ! i) @ ins" "length (pipe_items (k_pipes u ! i)) \<le> 2048" by blast
      show ?thesis
        by (rule exI [of _ ins], rule exI [of _ "take (nat (sint n)) (pipe_items (k_pipes s ! i)) @ outs"], rule exI [of _ u])
           (simp add: Inr r(1) u(1,2,4) u(3) [unfolded r(3)] append_take_drop_id del: syscall_handler.simps; simp only: append.assoc [symmetric] append_take_drop_id)
    qed
  qed
qed

section \<open>Descriptor numbers\<close>

lemma new_pipe:
  assumes "k_pipes s = replicate PIPE_MAX blank_pipe"
  shows "\<exists>t. syscall_handler f (FileCall (SYS_PIPE True)) s = Some (Reply 0 (Ints [48, 49]), t) \<and> pipe_open 0 t \<and>
    pipe_items (k_pipes t ! 0) = []"
proof -
  have "first_from (\<lambda>p. \<not> pi_used p) (k_pipes s) 0 = Some 0"
    by (rule first_from_eq) (simp_all add: assms PIPE_MAX_def blank_pipe_def)
  then show ?thesis
    by (auto simp: sys_pipe_def pipe_open_def assms pipes_inv_def PIPE_MAX_def blank_pipe_def pipe_ok_def PIPE_BUF_def nth_list_update pipe_items_def)
qed

text \<open>A pipe whose writing end is closed keeps -1 as that end's number.\<close>

definition half_closed :: "sys \<Rightarrow> sys \<Rightarrow> bool" where
  "half_closed t u \<longleftrightarrow> u = t\<lparr>k_pipes := (k_pipes t)[0 := (k_pipes t ! 0)\<lparr>pi_wfd := -1\<rparr>]\<rparr>"

lemma close_writer:
  assumes "pipe_open 0 t"
  shows "\<exists>u. syscall_handler f (FileCall (SYS_CLOSE 49)) t = Some (Reply 0 Nothing, u) \<and> half_closed t u"
proof -
  have "pipe_from_fd 49 (k_pipes t) = Some 0" using assms pipe_of_end [of "k_pipes t" 0 49] by (simp add: pipe_open_def)
  with assms show ?thesis
    by (auto simp: sys_close_def on_pipes_def pipe_close_fd_def pipe_open_def half_closed_def num_def Let_def)
qed

lemma half_closed_ends:
  assumes "pipe_open 0 t" and "half_closed t u"
  shows "pipe_from_fd (-1) (k_pipes u) = Some 0" and "pipe_from_fd 48 (k_pipes u) = Some 0"
    and "pipe_ok (k_pipes u ! 0)" and "0 < length (k_pipes u)" and "pipe_items (k_pipes u ! 0) = pipe_items (k_pipes t ! 0)"
  unfolding pipe_from_fd_def using assms
  by (auto simp: pipe_open_def half_closed_def pipes_inv_def PIPE_MAX_def pipe_ok_def pipe_items_def intro!: first_from_eq)

text \<open>Once the writing end of a pipe has been closed, a write to descriptor -1, the number a failed open
  returns, is not refused: its bytes go into that pipe and the reader receives them.\<close>

theorem bad_fd_writes_to_pipe:
  assumes "k_pipes s = replicate PIPE_MAX blank_pipe" and "bs \<noteq> []" and "length bs \<le> 2048"
  shows "\<exists>t u v w. syscall_handler f (FileCall (SYS_PIPE True)) s = Some (Reply 0 (Ints [48, 49]), t) \<and>
    syscall_handler f (FileCall (SYS_CLOSE 49)) t = Some (Reply 0 Nothing, u) \<and>
    syscall_handler f (FileCall (SYS_WRITE (-1) bs)) u = Some (Reply (int (length bs)) Nothing, v) \<and>
    syscall_handler f (FileCall (SYS_READ 48 True 2048)) v = Some (Reply (int (length bs)) (Bytes bs), w)"
proof -
  from new_pipe [OF assms(1), of f] obtain t where
    t: "syscall_handler f (FileCall (SYS_PIPE True)) s = Some (Reply 0 (Ints [48, 49]), t)" "pipe_open 0 t"
    "pipe_items (k_pipes t ! 0) = []" by blast
  from close_writer [OF t(2), of f] obtain u where
    u: "syscall_handler f (FileCall (SYS_CLOSE 49)) t = Some (Reply 0 Nothing, u)" "half_closed t u" by blast
  note h = half_closed_ends [OF t(2) u(2)]
  obtain k q where kq: "offer pipe_put bs (k_pipes u ! 0) = (k, q)" by fastforce
  from pipeq.offer_items [OF h(3) kq] h(5) t(3) assms(3) have k: "k = length bs" "pipe_items q = bs" "pipe_ok q"
    by (auto simp: PIPE_BUF_def)
  define v where "v = u\<lparr>k_pipes := (k_pipes u)[0 := q]\<rparr>"
  have w: "syscall_handler f (FileCall (SYS_WRITE (-1) bs)) u = Some (Reply (int (length bs)) Nothing, v)"
    using h(1) kq k(1) assms(2) by (simp add: sys_write_def write_fd_def on_pipes_def pipe_write_def v_def)
  have "same_ends (k_pipes u ! 0) q" using offer_ends [of "k_pipes u ! 0" bs] kq by simp
  then have "pipe_from_fd 48 (k_pipes v) = Some 0" using h(2,4) first_from_sat [OF h(2) [unfolded pipe_from_fd_def]]
    unfolding pipe_from_fd_def v_def by (auto simp: same_ends_def intro!: first_from_eq)
  moreover obtain cs q' where d: "drain pipe_get 2048 (k_pipes v ! 0) = (cs, q')" by fastforce
  moreover have "cs = bs" using pipeq.drain_items [OF _ d] k h(4) assms(3) by (simp add: v_def)
  ultimately have "\<exists>w. syscall_handler f (FileCall (SYS_READ 48 True 2048)) v = Some (Reply (int (length bs)) (Bytes bs), w)"
    by (simp add: sys_read_def read_fd_def on_pipes_def pipe_read_def)
  with t(1) u(1) w show ?thesis by blast
qed

text \<open>
  The shell closes its copy of the writing end before the first command of a pipeline runs; descriptors are shared, so
  everything the command then writes is refused.
\<close>

theorem closed_writer_refuses:
  assumes "pipe_open 0 t" and "half_closed t u"
    and "\<And>i. 0 < i \<Longrightarrow> i < length (k_pipes u) \<Longrightarrow> \<not> pi_used (k_pipes u ! i)"
  shows "write_fd 49 bs u = (vfs_errno VFS_ERR_BADFD, u)"
proof -
  have "pipe_from_fd 49 (k_pipes u) = None"
    unfolding pipe_from_fd_def first_from_None using assms by (auto simp: pipe_open_def half_closed_def pipes_inv_def PIPE_MAX_def nth_list_update)
  then show ?thesis
    by (simp add: write_fd_def mnt_write_def on_vfs_def on_proc_def vfs_write_def fd_ok_def VFS_MAX_FD_def num_code_def)
qed

text \<open>A file and a socket may have the same descriptor number. Closing that number closes the file and
  leaves the socket, and everything else of the network, as it was, so the owner of the socket cannot close it while
  the file is open.\<close>

theorem close_prefers_file:
  assumes "pipe_from_fd fd (k_pipes s) = None" and "fd_ok (k_vfs s) fd" and "length (fds (k_vfs s)) = VFS_MAX_FD"
    and "sock_ok (k_net s) fd"
  shows "\<exists>t. syscall_handler f (FileCall (SYS_CLOSE fd)) s = Some (Reply 0 Nothing, t) \<and>
    \<not> fd_ok (k_vfs t) fd \<and> k_net t = k_net s \<and> sock_ok (k_net t) fd"
proof -
  have "fd < 100" "nat fd < length (fds (k_vfs s))" using assms(2,3) by (auto simp: fd_ok_def VFS_MAX_FD_def)
  with assms show ?thesis
    by (simp add: sys_close_def on_pipes_def pipe_close_fd_def mnt_close_def on_vfs_def on_proc_def vfs_close_def err_code_def num_def
        fd_ok_def)
qed

section \<open>What a path names\<close>

definition absolute :: "string \<Rightarrow> bool" where "absolute p \<longleftrightarrow> cget p 0 = slash"

definition full_path :: "string \<Rightarrow> string \<Rightarrow> string" where
  "full_path wd p = (if absolute p then p else if wd = ''/'' then slash # p else wd @ slash # p)"

text \<open>The components a process in directory \<open>ds\<close> means by \<open>p\<close>.\<close>

definition names :: "string list \<Rightarrow> string \<Rightarrow> string list" where
  "names ds p = (if absolute p then resolved p else resolve_parts ds (split_path p))"

lemma split_path_slash: "split_path (a @ slash # b) = split_path a @ split_path b"
proof (induction a)
  case (Cons c a)
  obtain x xs where "split_path a = x # xs" by (cases "split_path a") auto
  with Cons show ?case by simp
qed simp

lemma cget_append_left: "a \<noteq> [] \<Longrightarrow> cget (a @ b) 0 = cget a 0"
  by (cases a) auto

lemma resolved_full:
  assumes "good_parts ds"
  shows "resolved (full_path (render_path ds) p) = names ds p"
proof (cases "absolute p")
  case True
  then show ?thesis by (simp add: full_path_def names_def)
next
  case False
  show ?thesis
  proof (cases "ds = []")
    case True
    with False show ?thesis by (simp add: full_path_def names_def render_path_def resolved_def components_def)
  next
    case F2: False
    obtain t where t: "render_path ds = slash # t" using F2 by (cases ds) (auto simp: render_path_def)
    have ne: "t \<noteq> []" using assms F2 t by (cases ds) (auto simp: render_path_def good_parts_def good_part_def)
    have "split_path t = ds" using components_render [OF assms F2] by (simp add: t components_def)
    moreover have "full_path (render_path ds) p = slash # t @ slash # p" using False ne by (simp add: full_path_def t)
    ultimately show ?thesis using False assms
      by (simp add: names_def resolved_def components_def split_path_slash resolve_parts_append resolve_parts_of_good)
  qed
qed

lemma render_shorter:
  assumes "absolute s"
  shows "length (render_path (resolved s)) \<le> max 1 (length s)"
proof -
  obtain t where s: "s = slash # t" using assms by (cases s) (auto simp: absolute_def cget_def split: if_splits)
  have "length (concat (map (\<lambda>p. slash # p) (resolved s))) \<le> Suc (length t)"
    using resolve_parts_sum [of "[]" "components s"] split_path_length [of t] by (simp add: length_render resolved_def components_def s)
  then show ?thesis by (simp add: render_path_def s)
qed

lemma parts_fit_resolved:
  assumes "path_fits s n" and "absolute s" and "3 \<le> n"
  shows "parts_fit (resolved s) n"
  using path_fits_parts_fit [OF assms(1)] render_shorter [OF assms(2)] assms(1,3) by (auto simp: parts_fit_def path_fits_def)

lemma strncpy_render: "parts_fit ds n \<Longrightarrow> strncpy_val (render_path ds) n = render_path ds"
  by (auto simp: parts_fit_def strncpy_val_def cstr_id no_nul_render)

lemma render_absolute: "absolute (render_path ds)"
  by (cases ds) (auto simp: render_path_def absolute_def)

lemma full_absolute: "absolute (full_path (render_path ds) p)"
  using render_absolute [of ds] by (auto simp: full_path_def absolute_def cget_append_left render_path_def)

lemma normalize_fits:
  assumes "path_fits s VFS_PATH_MAX"
  shows "vfs_normalize s VFS_PATH_MAX = render_path (resolved s)"
  using assms by (intro vfs_normalize_parts) auto

lemma join_full:
  assumes ds: "parts_fit ds PROC_CWD" and p: "\<not> absolute p" "p \<noteq> []" and fits: "path_fits (full_path (render_path ds) p) VFS_PATH_MAX"
  shows "join_path (render_path ds) p = full_path (render_path ds) p"
proof -
  have nn: "no_nul p" using fits p by (auto simp: path_fits_def full_path_def split: if_splits)
  have w: "strncpy_val (render_path ds) VFS_PATH_MAX = render_path ds"
    using ds strncpy_render [of ds VFS_PATH_MAX] by (simp add: PROC_CWD_def VFS_PATH_MAX_def)
  show ?thesis
  proof (cases "render_path ds = ''/''")
    case True
    with fits p have "length p + 2 < VFS_PATH_MAX" by (simp add: path_fits_def full_path_def)
    with True p nn show ?thesis by (simp add: join_path_def full_path_def strncpy_val_def cstr_id)
  next
    case False
    with fits p have l: "length (render_path ds) + length p + 2 < VFS_PATH_MAX" by (simp add: path_fits_def full_path_def)
    with False p nn w show ?thesis by (simp add: join_path_def full_path_def strncpy_val_def cstr_id)
  qed
qed

section \<open>Current directories\<close>

text \<open>A process's directory exists, unless it lies on the mounted volume.\<close>

definition cwd_ok :: "vfs \<Rightarrow> string \<Rightarrow> bool" where
  "cwd_ok v w \<longleftrightarrow> w = [] \<or> (\<exists>ds. parts_fit ds PROC_CWD \<and> w = render_path ds \<and> (under_disk w \<or> fs_abs v ds = Some Dir))"

definition cwds_ok :: "sys \<Rightarrow> bool" where
  "cwds_ok s \<longleftrightarrow> vfs_inv (k_vfs s) \<and> fs_abs (k_vfs s) [''sys''] = Some Dir \<and>
     (\<forall>c. current (k_proc s) = Some c \<longrightarrow> c < length (procs (k_proc s)) \<and> used (procs (k_proc s) ! c)) \<and>
     (\<forall>q \<in> set (procs (k_proc s)). used q \<longrightarrow> cwd_ok (k_vfs s) (cwd q))"

text \<open>The directory of the running process: its own, \<^verbatim>\<open>/sys\<close> when it has none yet.\<close>

definition cwd_parts :: "sys \<Rightarrow> string list \<Rightarrow> bool" where
  "cwd_parts s ds \<longleftrightarrow> parts_fit ds PROC_CWD \<and>
     (case current (k_proc s) of None \<Rightarrow> ds = []
      | Some c \<Rightarrow> if cwd (procs (k_proc s) ! c) = [] then ds = [''sys''] else cwd (procs (k_proc s) ! c) = render_path ds)"

lemma sys_fits: "parts_fit [''sys''] PROC_CWD"
  by code_simp

lemma root_fits: "parts_fit [] PROC_CWD"
  by code_simp

lemma cwd_parts_exist: "cwds_ok s \<Longrightarrow> \<exists>ds. cwd_parts s ds"
  using sys_fits root_fits unfolding cwds_ok_def cwd_parts_def cwd_ok_def
  by (cases "current (k_proc s)") (auto simp: set_conv_nth split: if_splits)

definition same_world :: "sys \<Rightarrow> sys \<Rightarrow> bool" where
  "same_world s t \<longleftrightarrow> k_vfs t = k_vfs s \<and> k_fat t = k_fat s \<and> current (k_proc t) = current (k_proc s) \<and> cwds_ok t"

lemma cur_cwd_ok:
  assumes "cwds_ok s" and "cwd_parts s ds"
  shows "same_world s (snd (cur_cwd s)) \<and> fst (cur_cwd s) = (if current (k_proc s) = None then None else Some (render_path ds)) \<and>
    cwd_parts (snd (cur_cwd s)) ds"
proof (cases "current (k_proc s)")
  case None
  with assms show ?thesis by (simp add: cur_cwd_def same_world_def)
next
  case (Some c)
  have c: "c < length (procs (k_proc s))" using assms(1) Some by (simp add: cwds_ok_def)
  have sys: "strncpy_val ''/sys'' PROC_CWD = render_path [''sys'']" by code_simp
  show ?thesis
  proof (cases "cwd (procs (k_proc s) ! c) = []")
    case True
    have "cwd_ok (k_vfs s) (render_path [''sys''])" using assms(1) sys_fits unfolding cwds_ok_def cwd_ok_def by blast
    with True Some c assms sys show ?thesis
      by (auto simp: cur_cwd_def same_world_def cwds_ok_def cwd_parts_def Let_def render_path_def dest!: set_update_subset_insert [THEN subsetD])
  next
    case False
    with Some assms show ?thesis by (auto simp: cur_cwd_def same_world_def cwd_parts_def Let_def)
  qed
qed

lemma abs_path_result:
  assumes s: "cwds_ok s" "cwd_parts s ds" and p: "p \<noteq> []" "no_nul p" and fits: "path_fits (full_path (render_path ds) p) VFS_PATH_MAX"
  shows "fst (abs_path (Some p) s) = render_path (names ds p)" and "parts_fit (names ds p) VFS_PATH_MAX"
    and "path_fits (render_path (names ds p)) VFS_PATH_MAX" and "resolved (render_path (names ds p)) = names ds p"
    and "same_world s (snd (abs_path (Some p) s))" and "cwd_parts (snd (abs_path (Some p) s)) ds"
proof -
  note c = cur_cwd_ok [OF s]
  have g: "good_parts ds" and pf: "parts_fit ds PROC_CWD" using s(2) by (auto simp: cwd_parts_def parts_fit_def)
  have r: "resolved (full_path (render_path ds) p) = names ds p" by (rule resolved_full [OF g])
  obtain wd t where wt: "cur_cwd s = (wd, t)" by fastforce
  have wd: "(case wd of None \<Rightarrow> ''/'' | Some w \<Rightarrow> w) = render_path ds"
    using c wt s(2) by (auto simp: cwd_parts_def render_path_def split: if_splits)
  have p0: "cget p 0 \<noteq> NUL" using p by (cases p) auto
  have a: "abs_path (Some p) s = (vfs_normalize (full_path (render_path ds) p) VFS_PATH_MAX, t)"
  proof (cases "absolute p")
    case True
    with p0 show ?thesis unfolding abs_path_def wt by (simp add: full_path_def absolute_def)
  next
    case False
    from join_full [OF pf False p(1) fits] False p0 show ?thesis unfolding abs_path_def wt
      by (simp add: wd absolute_def)
  qed
  then show "fst (abs_path (Some p) s) = render_path (names ds p)" by (simp add: normalize_fits [OF fits] r)
  show pf: "parts_fit (names ds p) VFS_PATH_MAX"
    using parts_fit_resolved [OF fits full_absolute] by (simp add: r VFS_PATH_MAX_def)
  then show "path_fits (render_path (names ds p)) VFS_PATH_MAX" by (rule path_fits_render)
  show "resolved (render_path (names ds p)) = names ds p" using pf by (simp add: parts_fit_def resolved_render)
  show "same_world s (snd (abs_path (Some p) s))" "cwd_parts (snd (abs_path (Some p) s)) ds" using c wt a by simp_all
qed

text \<open>The absolute path of a call is the one its argument names for the running process: its components, with \<^verbatim>\<open>.\<close>, \<^verbatim>\<open>..\<close> and empty ones
  resolved, below the process's directory when it is relative; provided the joined path fits the kernel's
  buffers.\<close>

theorem abs_path_names:
  assumes "cwds_ok s" and "cwd_parts s ds" and "p \<noteq> []" and "no_nul p" and "path_fits (full_path (render_path ds) p) VFS_PATH_MAX"
  shows "fst (abs_path (Some p) s) = render_path (names ds p) \<and> path_fits (fst (abs_path (Some p) s)) VFS_PATH_MAX \<and>
    k_vfs (snd (abs_path (Some p) s)) = k_vfs s"
  using abs_path_result [OF assms] by (simp add: same_world_def)

section \<open>The calls that change the tree\<close>

lemma cwd_ok_root: "vfs_inv v \<Longrightarrow> cwd_ok v ''/''"
proof -
  assume "vfs_inv v"
  then have "fs_abs v [] = Some Dir" by (auto simp: fs_abs_def vfs_inv_def tree_inv_def good_parts_def)
  then show ?thesis using root_fits by (auto simp: cwd_ok_def render_path_def)
qed

text \<open>A change of the tree that removes no directory keeps every process's.\<close>

definition keeps_dirs :: "vfs \<Rightarrow> vfs \<Rightarrow> bool" where
  "keeps_dirs v w \<longleftrightarrow> vfs_inv w \<and> (\<forall>ds. fs_abs v ds = Some Dir \<longrightarrow> fs_abs w ds = Some Dir)"

lemma keeps_cwd_ok: "keeps_dirs v w \<Longrightarrow> cwd_ok v p \<Longrightarrow> cwd_ok w p"
  by (auto simp: keeps_dirs_def cwd_ok_def)

lemma keeps_cwds:
  assumes "cwds_ok s" and "keeps_dirs (k_vfs s) v"
  shows "cwds_ok (s\<lparr>k_proc := (k_proc s)\<lparr>kvfs := v\<rparr>\<rparr>)"
  using assms keeps_cwd_ok [OF assms(2)] by (auto simp: cwds_ok_def keeps_dirs_def)

lemma mkdir_keeps: "vfs_inv v \<Longrightarrow> path_fits p VFS_PATH_MAX \<Longrightarrow> keeps_dirs v (snd (vfs_mkdir p v))"
  using mkdir_result [of v p] by (auto simp: keeps_dirs_def split: sum.splits)

lemma open_abs_keeps: "fs_abs v ds = Some Dir \<Longrightarrow> open_abs flags (fs_abs v) ps ds = Some Dir"
  by (auto simp: open_abs_def split: option.splits fsobj.splits)

lemma open_node_keeps:
  "vfs_inv v \<Longrightarrow> good_parts ps \<Longrightarrow> walk v root ps = Some i \<Longrightarrow> keeps_dirs v (snd (open_node flags i v))"
  using open_node_result [of v ps i flags] open_abs_keeps [of v _ flags ps] by (auto simp: keeps_dirs_def)

lemma open_keeps:
  assumes inv: "vfs_inv v" and fits: "path_fits p VFS_PATH_MAX"
  shows "keeps_dirs v (snd (vfs_open p flags v))"
proof -
  note g = fits_good [OF fits] and look = vfs_lookup_walk [OF fits]
  have refl: "keeps_dirs v v" using inv by (simp add: keeps_dirs_def)
  show ?thesis
  proof (cases "walk v root (resolved p)")
    case (Some i)
    then show ?thesis using open_node_keeps [OF inv g Some] by (simp add: vfs_open_node look)
  next
    case None
    obtain r w where w: "vfs_write_file p [] v = (r, w)" by fastforce
    have n: "fs_abs v (resolved p) = None" using None fs_abs_None [OF g] by simp
    have k: "keeps_dirs v w" using write_file_result [OF inv fits, of "[]"] w n
      by (auto simp: keeps_dirs_def split: sum.splits)
    have "keeps_dirs w (snd (open_node flags i w))" if "walk w root (resolved p) = Some i" for i
      using open_node_keeps [OF _ g that] k by (simp add: keeps_dirs_def)
    with k refl None show ?thesis by (auto simp: vfs_open_node look w keeps_dirs_def split: option.splits sum.splits)
  qed
qed

text \<open>The path arguments whose joined form fits.\<close>

definition arg_fits :: "sys \<Rightarrow> string \<Rightarrow> bool" where
  "arg_fits s p \<longleftrightarrow> p \<noteq> [] \<and> no_nul p \<and> (\<forall>ds. cwd_parts s ds \<longrightarrow> path_fits (full_path (render_path ds) p) VFS_PATH_MAX)"

lemma abs_path_fits:
  assumes "cwds_ok s" and "arg_fits s p"
  obtains q t where "abs_path (Some p) s = (q, t)" and "cwds_ok t" and "k_fat t = k_fat s" and "path_fits q VFS_PATH_MAX"
    and "parts_fit (resolved q) VFS_PATH_MAX" and "q = render_path (resolved q)"
proof -
  obtain ds where ds: "cwd_parts s ds" using cwd_parts_exist [OF assms(1)] by blast
  note a = abs_path_result [OF assms(1) ds, of p]
  obtain q t where qt: "abs_path (Some p) s = (q, t)" by fastforce
  show thesis using assms(2) ds a that [OF qt] by (simp add: qt arg_fits_def same_world_def)
qed

lemma cwds_fat [simp]: "cwds_ok (s\<lparr>k_fat := v\<rparr>) = cwds_ok s"
  by (simp add: cwds_ok_def)

lemma on_fat_cwds: "on_fat g s = Some (r, t) \<Longrightarrow> cwds_ok s \<Longrightarrow> cwds_ok t"
  by (auto simp: on_fat_def)

lemma on_vfs_cwds:
  "cwds_ok s \<Longrightarrow> keeps_dirs (k_vfs s) (snd (g (k_vfs s))) \<Longrightarrow> cwds_ok (snd (on_vfs g s))"
  using keeps_cwds by (auto simp: on_vfs_def on_proc_def split_beta)

lemma apfst_snd: "apfst g x = (r, t) \<Longrightarrow> snd x = t"
  by (cases x) auto

lemma mkdir_cwds: "cwds_ok s \<Longrightarrow> path_fits p VFS_PATH_MAX \<Longrightarrow> mnt_mkdir p s = Some (r, t) \<Longrightarrow> cwds_ok t"
  using on_fat_cwds [of _ s] on_vfs_cwds [of s "vfs_mkdir p"] mkdir_keeps [of "k_vfs s" p]
  by (auto simp: mnt_mkdir_def cwds_ok_def [of s] dest: apfst_snd split: if_splits)

lemma open_cwds: "cwds_ok s \<Longrightarrow> path_fits p VFS_PATH_MAX \<Longrightarrow> mnt_open p flags s = Some (r, t) \<Longrightarrow> cwds_ok t"
  using on_fat_cwds [of _ s] on_vfs_cwds [of s "vfs_open p flags"] open_keeps [of "k_vfs s" p flags]
  by (auto simp: mnt_open_def cwds_ok_def [of s] dest: apfst_snd split: if_splits)

text \<open>Removing a directory moves every process that stood in it.\<close>

lemma leave_dir_cwd:
  assumes q: "cwd_ok v (cwd p)" "used p" and w: "vfs_inv w" "fs_abs w = (fs_abs v)(ps := None)"
    and path: "path = render_path ps" "parts_fit ps VFS_PATH_MAX"
  shows "cwd_ok w (cwd (leave_dir path p))"
proof (cases "cwd p \<noteq> [] \<and> cwd_gone path (cwd p)")
  case True
  have "strncpy_val ''/'' PROC_CWD = ''/''" by code_simp
  with True q(2) cwd_ok_root [OF w(1)] show ?thesis by (simp add: leave_dir_def)
next
  case False
  then have l: "leave_dir path p = p" by (auto simp: leave_dir_def)
  show ?thesis
  proof (cases "cwd p = []")
    case False': False
    with q obtain ds where ds: "parts_fit ds PROC_CWD" "cwd p = render_path ds" "under_disk (cwd p) \<or> fs_abs v ds = Some Dir"
      by (auto simp: cwd_ok_def)
    have "\<not> cwd_gone path (cwd p)" using False False' by simp
    then have "ds \<noteq> ps" using path(1) ds(2) by (auto simp: cwd_gone_def kstrcmp_eq_0)
    with ds w(2) show ?thesis by (auto simp: l cwd_ok_def)
  qed (simp add: l cwd_ok_def)
qed

lemma leave_dir_used [simp]: "used (leave_dir p q) = used q"
  by (simp add: leave_dir_def)

lemma leave_dir_ok: "vfs_inv v \<Longrightarrow> cwd_ok v (cwd q) \<Longrightarrow> cwd_ok v (cwd (leave_dir p q))"
proof -
  have "strncpy_val ''/'' PROC_CWD = ''/''" by code_simp
  then show "vfs_inv v \<Longrightarrow> cwd_ok v (cwd q) \<Longrightarrow> ?thesis" using cwd_ok_root [of v] by (simp add: leave_dir_def)
qed

lemma leave_all_cwds:
  assumes "cwds_ok s"
  shows "cwds_ok (s\<lparr>k_proc := (k_proc s)\<lparr>procs := map (leave_dir p) (procs (k_proc s))\<rparr>\<rparr>)"
  using assms leave_dir_ok [of "k_vfs s" _ p] by (auto simp: cwds_ok_def)

lemma unlink_cwds:
  assumes ok: "cwds_ok s" and p: "path_fits p VFS_PATH_MAX" "parts_fit (resolved p) VFS_PATH_MAX" "p = render_path (resolved p)"
    and u: "mnt_unlink p s = Some (r, t)"
  shows "cwds_ok (if r = 0 then t\<lparr>k_proc := (k_proc t)\<lparr>procs := map (leave_dir p) (procs (k_proc t))\<rparr>\<rparr> else t)"
proof (cases "fat_is_path (k_fat s) p")
  case True
  then have "cwds_ok t" using u on_fat_cwds [of "fat_unlink p" s] ok by (auto simp: mnt_unlink_def)
  then show ?thesis using leave_all_cwds by simp
next
  case False
  have inv: "vfs_inv (k_vfs s)" using ok by (simp add: cwds_ok_def)
  obtain e v where ev: "vfs_unlink p (k_vfs s) = (e, v)" by fastforce
  note res = unlink_result [OF inv p(1), unfolded ev fst_conv snd_conv]
  have t: "r = err_code e" "t = s\<lparr>k_proc := (k_proc s)\<lparr>kvfs := v\<rparr>\<rparr>"
    using u False ev by (auto simp: mnt_unlink_def on_vfs_def on_proc_def)
  show ?thesis
  proof (cases e)
    case (Inl x)
    with res have "v = k_vfs s" by simp
    then have "t = s" using t(2) by simp
    with ok leave_all_cwds [of s p] show ?thesis by simp
  next
    case (Inr x)
    with res have a: "fs_abs v = (fs_abs (k_vfs s))(resolved p := None)" "vfs_inv v" "\<not> protected (resolved p)" by auto
    have "r = 0" using t(1) Inr by (simp add: err_code_def)
    moreover have "fs_abs v [''sys''] = Some Dir" using a(1,3) ok by (auto simp: protected_def cwds_ok_def)
    ultimately show ?thesis using ok a(2) leave_dir_cwd [OF _ _ a(2,1) p(3,2)]
      by (auto simp: cwds_ok_def t(2))
  qed
qed

section \<open>Sequences of calls\<close>

text \<open>The calls on paths, with arguments that fit.\<close>

fun path_call :: "sys \<Rightarrow> file_call \<Rightarrow> bool" where
  "path_call s (SYS_OPEN (Some p) flags) = arg_fits s p"
| "path_call s (SYS_LISTDIR (Some p) n) = arg_fits s p"
| "path_call s (SYS_UNLINK (Some p)) = arg_fits s p"
| "path_call s (SYS_MKDIR (Some p)) = arg_fits s p"
| "path_call s (SYS_EXISTS (Some p)) = arg_fits s p"
| "path_call s (SYS_CHDIR (Some p)) = arg_fits s p"
| "path_call s (SYS_GETCWD n) = True"
| "path_call s _ = False"

inductive path_calls :: "sys \<Rightarrow> sys \<Rightarrow> bool" where
  none: "path_calls s s"
| step: "path_calls s t \<Longrightarrow> path_call t c \<Longrightarrow> syscall_handler f (FileCall c) t = Some (r, u) \<Longrightarrow> path_calls s u"

lemma cur_cwd_cwds: "cwds_ok s \<Longrightarrow> cwds_ok (snd (cur_cwd s))"
  using cur_cwd_ok [of s] cwd_parts_exist [of s] by (auto simp: same_world_def)

lemma chdir_cwds:
  assumes ok: "cwds_ok s" and p: "arg_fits s p" and c: "sys_chdir (Some p) s = Some (r, u)"
  shows "cwds_ok u"
proof -
  obtain ds where ds: "cwd_parts s ds" using cwd_parts_exist [OF ok] by blast
  obtain wd s1 where wd: "cur_cwd s = (wd, s1)" by fastforce
  from cur_cwd_ok [OF ok ds] wd have s1: "same_world s s1" "cwd_parts s1 ds" by auto
  then have ok1: "cwds_ok s1" by (simp add: same_world_def)
  note a = abs_path_result [OF ok1 s1(2), of p]
  obtain q t where qt: "abs_path (Some p) s1 = (q, t)" by fastforce
  have t: "cwds_ok t" "q = render_path (names ds p)" "parts_fit (names ds p) VFS_PATH_MAX" "path_fits q VFS_PATH_MAX"
    "resolved q = names ds p"
    using a qt p ds by (auto simp: arg_fits_def same_world_def)
  have pf: "parts_fit (names ds p) PROC_CWD" using t(3) by (simp add: PROC_CWD_def VFS_PATH_MAX_def)
  obtain d where d: "mnt_isdir q t = Some d" "u = (if \<not> d \<or> wd = None then t else upd_cur (\<lambda>x. x\<lparr>cwd := strncpy_val q PROC_CWD\<rparr>) t)"
    using c unfolding sys_chdir_def by (auto simp: wd qt split: option.splits if_splits)
  show ?thesis
  proof (cases "\<not> d \<or> wd = None")
    case True
    with d t show ?thesis by auto
  next
    case False
    have "under_disk q \<or> fs_abs (k_vfs t) (names ds p) = Some Dir"
      using d(1) False vfs_lookup_walk [OF t(4), of "k_vfs t"] t(3,5)
      by (auto simp: mnt_isdir_def fat_is_path_def vfs_isdir_def fs_abs_def parts_fit_def split: if_splits option.splits)
    then have "cwd_ok (k_vfs t) q" using pf t(2) by (auto simp: cwd_ok_def)
    moreover have "strncpy_val q PROC_CWD = q" using strncpy_render [OF pf] t(2) by simp
    ultimately show ?thesis using t(1) d(2) False
      by (auto simp: upd_cur_def cwds_ok_def split: option.splits dest!: set_update_subset_insert [THEN subsetD])
  qed
qed

lemma sys_open_cwds: "cwds_ok s \<Longrightarrow> arg_fits s p \<Longrightarrow> sys_open (Some p) flags s = Some (r, u) \<Longrightarrow> cwds_ok u"
  by (erule (1) abs_path_fits) (auto simp: sys_open_def intro: open_cwds)

lemma sys_mkdir_cwds: "cwds_ok s \<Longrightarrow> arg_fits s p \<Longrightarrow> sys_mkdir (Some p) s = Some (r, u) \<Longrightarrow> cwds_ok u"
  by (erule (1) abs_path_fits) (auto simp: sys_mkdir_def intro: mkdir_cwds)

lemma sys_exists_cwds: "cwds_ok s \<Longrightarrow> arg_fits s p \<Longrightarrow> sys_exists (Some p) s = Some (r, u) \<Longrightarrow> cwds_ok u"
  by (erule (1) abs_path_fits) (auto simp: sys_exists_def)

lemma sys_listdir_cwds: "cwds_ok s \<Longrightarrow> arg_fits s p \<Longrightarrow> sys_listdir (Some p) n s = Some (r, u) \<Longrightarrow> cwds_ok u"
proof (erule (1) abs_path_fits)
  fix q t
  assume a: "abs_path (Some p) s = (q, t)" "cwds_ok t" and l: "sys_listdir (Some p) n s = Some (r, u)"
  then obtain z where "(case z of Inl e \<Rightarrow> (Reply (vfs_errno e) Nothing, t) | Inr out \<Rightarrow> (Reply (int (length out)) (Chars out), t)) = (r, u)"
    by (auto simp: sys_listdir_def)
  then have "t = u" by (cases z) auto
  with a(2) show "cwds_ok u" by simp
qed

lemma sys_unlink_cwds:
  assumes "cwds_ok s" and "arg_fits s p" and "sys_unlink (Some p) s = Some (r, u)"
  shows "cwds_ok u"
proof -
  obtain q t where q: "abs_path (Some p) s = (q, t)" "cwds_ok t" "path_fits q VFS_PATH_MAX"
    "parts_fit (resolved q) VFS_PATH_MAX" "q = render_path (resolved q)"
    using assms(1,2) by (rule abs_path_fits)
  obtain k v where "mnt_unlink q t = Some (k, v)"
    "u = (if k = 0 then v\<lparr>k_proc := (k_proc v)\<lparr>procs := map (leave_dir q) (procs (k_proc v))\<rparr>\<rparr> else v)"
    using assms(3) by (auto simp: sys_unlink_def q(1))
  with unlink_cwds [OF q(2-5)] show ?thesis by blast
qed

lemma sys_getcwd_cwds: "cwds_ok s \<Longrightarrow> sys_getcwd n s = (r, u) \<Longrightarrow> cwds_ok u"
  using cur_cwd_cwds [of s] by (auto simp: sys_getcwd_def split: prod.splits option.splits)

lemma num_opt_Some: "num_opt x = Some (r, u) \<Longrightarrow> \<exists>v. x = Some (v, u)"
  by (cases x) (auto simp: num_opt_def dest: apfst_snd)

lemmas path_call_lemmas = sys_getcwd_cwds sys_open_cwds sys_mkdir_cwds sys_exists_cwds sys_listdir_cwds sys_unlink_cwds chdir_cwds

lemma path_call_cwds:
  assumes "cwds_ok s" and "path_call s c" and "syscall_handler f (FileCall c) s = Some (r, u)"
  shows "cwds_ok u"
  using assms
  by (cases "(s, c)" rule: path_call.cases) (auto dest!: num_opt_Some intro: path_call_lemmas)

text \<open>Property C26. Every process's current directory stays a directory that exists, or lies on the mounted volume, whatever sequence of calls
  opens, creates, removes and enters files and directories: removing the directory a process stands in moves it
  to the root, and \<^verbatim>\<open>/sys\<close>, where processes without a directory are put, cannot be removed.\<close>

theorem cwd_stays_directory:
  assumes "path_calls s t" and "cwds_ok s"
  shows "cwds_ok t \<and> (\<forall>q \<in> set (procs (k_proc t)). used q \<and> cwd q \<noteq> [] \<and> \<not> under_disk (cwd q) \<longrightarrow> vfs_isdir (cwd q) (k_vfs t))"
proof -
  have ok: "cwds_ok t" using assms by (induction rule: path_calls.induct) (auto intro: path_call_cwds)
  have "vfs_isdir w (k_vfs t)" if "cwd_ok (k_vfs t) w" "w \<noteq> []" "\<not> under_disk w" for w
  proof -
    from that obtain ds where ds: "parts_fit ds PROC_CWD" "w = render_path ds" "fs_abs (k_vfs t) ds = Some Dir"
      by (auto simp: cwd_ok_def)
    have "path_fits w VFS_PATH_MAX" using path_fits_render [OF ds(1)] ds(2) by (simp add: PROC_CWD_def VFS_PATH_MAX_def)
    from vfs_lookup_walk [OF this, of "k_vfs t"] ds show ?thesis
      by (auto simp: vfs_isdir_def fs_abs_def parts_fit_def resolved_render split: if_splits)
  qed
  with ok show ?thesis by (auto simp: cwds_ok_def)
qed

section \<open>A kernel with an open file and two sockets\<close>

definition work_sys :: sys where
  "work_sys = \<lparr>k_proc = (proc_init shell_kern)\<lparr>kvfs := sample\<rparr>,
     k_fat = \<lparr>f_disk = \<lparr>d_ok = (\<lambda>_. False), d_sec = (\<lambda>_. replicate 512 0)\<rparr>, f_fs = boot_fs (replicate 512 0), f_fdt = [], f_mounted = False, f_next = 2\<rparr>,
     k_net = host_b, k_pipes = replicate PIPE_MAX blank_pipe, k_clip = [],
     k_ev = \<lparr>i_type = 0, i_key = 0, i_dx = 0, i_dy = 0, i_x = 0, i_y = 0, i_buttons = 0\<rparr>,
     k_rtc = rtc_init 0 \<lparr>rtc_seed = 1753462800, rtc_ready = False, rtc_y = 0, rtc_mo = 0, rtc_d = 0, rtc_h = 0, rtc_mi = 0, rtc_s = 0, ticks0 = 0\<rparr>,
     k_tty = [], k_typed = []\<rparr>"

lemma work_sys_sel [simp]:
  "k_vfs work_sys = sample" "k_pipes work_sys = replicate PIPE_MAX blank_pipe" "k_net work_sys = host_b"
  "f_mounted (k_fat work_sys) = False" "current (k_proc work_sys) = Some 0"
  "procs (k_proc work_sys) = (replicate PROC_MAX blank_proc)[0 := blank_proc\<lparr>used := True, pid := 5, ppid := 0,
           state := PROC_RUNNING, pname := strncpy_val ''zerosd'' PROC_NAME, cwd := strncpy_val ''/sys'' PROC_CWD\<rparr>]"
  by (simp_all add: work_sys_def proc_init_def shell_kern_def)

theorem bad_fd_writes_to_pipe_witness:
  "\<exists>t u v w. syscall_handler 0 (FileCall (SYS_PIPE True)) work_sys = Some (Reply 0 (Ints [48, 49]), t) \<and>
    syscall_handler 0 (FileCall (SYS_CLOSE 49)) t = Some (Reply 0 Nothing, u) \<and>
    syscall_handler 0 (FileCall (SYS_WRITE (-1) [104, 105])) u = Some (Reply 2 Nothing, v) \<and>
    syscall_handler 0 (FileCall (SYS_READ 48 True 2048)) v = Some (Reply 2 (Bytes [104, 105]), w)"
  using bad_fd_writes_to_pipe [of work_sys "[104, 105]" 0] by simp

theorem close_prefers_file_witness:
  "\<exists>t. syscall_handler 0 (FileCall (SYS_CLOSE 3)) work_sys = Some (Reply 0 Nothing, t) \<and> sock_ok (k_net t) 3"
proof -
  have "pipe_from_fd 3 (k_pipes work_sys) = None"
    by (auto simp: pipe_from_fd_def first_from_None blank_pipe_def)
  moreover have "fd_ok (k_vfs work_sys) 3" "length (fds (k_vfs work_sys)) = VFS_MAX_FD"
    using sample_facts by (auto simp: vfs_inv_def)
  moreover have "sock_ok (k_net work_sys) 3" by (simp add: sock_ok_def host_b_def SOCK_MAX_def)
  ultimately show ?thesis using close_prefers_file [of 3 work_sys 0] by blast
qed

lemma work_sys_pipe:
  obtains s where "syscall_handler 0 (FileCall (SYS_PIPE True)) work_sys = Some (Reply 0 (Ints [48, 49]), s)" and "pipe_open 0 s"
  using new_pipe [of work_sys 0] by auto

theorem pipe_stream_witness:
  "\<exists>s ins outs t. pipe_traffic 0 48 49 [Inl [1, 2, 3], Inr 2] s = Some (ins, outs, t) \<and> pipe_open 0 t"
proof (rule work_sys_pipe)
  fix s assume "pipe_open 0 s"
  from pipe_stream [OF this, of 0 "[Inl [1, 2, 3], Inr 2]"] show ?thesis by auto
qed

lemma work_sys_cwds: "cwds_ok work_sys"
proof -
  have m: "mm_inv (mm_init (\<lambda>a. 0))" by (rule mm_inv_init)
  have g: "good_part ''f''" by code_simp
  have lk: "linkable (vfs_init (mm_init (\<lambda>a. 0))) [] 0 3 ''f''" by (rule vfs_init_linkable [OF m g]) simp_all
  have st: "store_inv (vfs_init (mm_init (\<lambda>a. 0)))" using vfs_init_inv [OF m] by (simp add: vfs_inv_def)
  have "fs_abs sample = fs_abs (link_node 0 3 ''f'' False (vfs_init (mm_init (\<lambda>a. 0))))"
    by (simp add: sample_def Let_def fds_update_abs)
  then have "fs_abs sample [''sys''] = Some Dir" using link_abs [OF lk st, of False] vfs_init_ready [OF m] by simp
  moreover have "strncpy_val ''/sys'' PROC_CWD = render_path [''sys'']" by code_simp
  ultimately show ?thesis using sample_facts(1) sys_fits
    by (auto simp: cwds_ok_def PROC_MAX_def cwd_ok_def blank_proc_def dest!: set_update_subset_insert [THEN subsetD])
qed

lemma work_sys_parts: "cwd_parts work_sys [''sys'']"
proof -
  have "strncpy_val ''/sys'' PROC_CWD = render_path [''sys'']" by code_simp
  then show ?thesis using sys_fits by (simp add: cwd_parts_def PROC_MAX_def render_path_def)
qed

theorem abs_path_names_witness: "fst (abs_path (Some ''../f'') work_sys) = ''/f''"
proof -
  have f: "path_fits (full_path (render_path [''sys'']) ''../f'') VFS_PATH_MAX" by code_simp
  have n: "render_path (names [''sys''] ''../f'') = ''/f''" by code_simp
  from abs_path_names [OF work_sys_cwds work_sys_parts _ _ f] n show ?thesis by simp
qed

theorem cwd_stays_directory_witness:
  "\<exists>r t. syscall_handler 0 (FileCall (SYS_MKDIR (Some ''/g''))) work_sys = Some (r, t) \<and> cwds_ok t"
proof -
  have "path_fits ''/g'' VFS_PATH_MAX" by code_simp
  then have fits: "arg_fits work_sys ''/g''" by (simp add: arg_fits_def full_path_def absolute_def)
  then have pc: "path_call work_sys (SYS_MKDIR (Some ''/g''))" by simp
  obtain q u where q: "abs_path (Some ''/g'') work_sys = (q, u)" "k_fat u = k_fat work_sys"
    using work_sys_cwds fits by (rule abs_path_fits)
  then obtain r t where h: "syscall_handler 0 (FileCall (SYS_MKDIR (Some ''/g''))) work_sys = Some (r, t)"
    by (cases "apfst (\<lambda>v. Reply v Nothing) (apfst err_code (on_vfs (vfs_mkdir q) u))")
      (auto simp: sys_mkdir_def mnt_mkdir_def num_opt_def fat_is_path_def)
  from path_calls.step [OF path_calls.none pc h] cwd_stays_directory [OF _ work_sys_cwds] h show ?thesis by blast
qed

end
