(* ===== verification/WentrySpec.thy ===== *)
theory WentrySpec
  imports Wentry
begin

text \<open>
  The text field against an abstract editor on a string and a position: lines, the two shifts of the buffer, and any
  sequence of keys.
\<close>

section \<open>Text as lines\<close>

fun split_lines :: "string \<Rightarrow> string list" where
  "split_lines [] = [[]]"
| "split_lines (c # cs) = (if c = newline then [] # split_lines cs else (c # hd (split_lines cs)) # tl (split_lines cs))"

definition line_offset :: "string list \<Rightarrow> nat \<Rightarrow> nat" where
  "line_offset ls r = (\<Sum>l\<leftarrow>take r ls. Suc (length l))"

text \<open>Row and column of the end of a text.\<close>

definition end_pos :: "string \<Rightarrow> nat \<times> nat" where
  "end_pos t = (length (split_lines t) - 1, length (last (split_lines t)))"

lemma split_lines_ne [simp]: "split_lines t \<noteq> []"
  by (cases t) auto

lemma split_lines_snoc:
  "split_lines (t @ [c]) = (if c = newline then split_lines t @ [[]] else butlast (split_lines t) @ [last (split_lines t) @ [c]])"
proof (induction t)
  case (Cons d t)
  obtain l ls where "split_lines t = l # ls" by (cases "split_lines t") auto
  with Cons show ?case by (cases ls) auto
qed simp

lemma end_pos_snoc: "end_pos (t @ [c]) = (if c = newline then (fst (end_pos t) + 1, 0) else (fst (end_pos t), snd (end_pos t) + 1))"
proof -
  have "0 < length (split_lines t)" by simp
  then show ?thesis by (auto simp: end_pos_def split_lines_snoc simp del: length_greater_0_conv)
qed

definition etext :: "wentry \<Rightarrow> string" where "etext e = take (e_len e) (e_buf e)"

lemma rowcol_fold:
  "k \<le> length t \<Longrightarrow> fold (\<lambda>i (r, c). if t ! i = newline then (r + 1, 0) else (r, c + 1)) [0..<k] (0, 0) = end_pos (take k t)"
proof (induction k)
  case (Suc k)
  then have "take (Suc k) t = take k t @ [t ! k]" by (simp add: take_Suc_conv_app_nth)
  with Suc show ?case by (simp add: end_pos_snoc split_beta)
qed (simp add: end_pos_def)

lemma count_fold:
  "k \<le> length t \<Longrightarrow> fold (\<lambda>i n. if t ! i = newline then n + 1 else n) [0..<k] 1 = int (length (split_lines (take k t)))"
proof (induction k)
  case (Suc k)
  have p: "0 < length (split_lines (take k t))" by simp
  from Suc have "take (Suc k) t = take k t @ [t ! k]" by (simp add: take_Suc_conv_app_nth)
  with Suc p show ?case by (auto simp: split_lines_snoc simp del: length_greater_0_conv)
qed simp

section \<open>What the loops compute\<close>

text \<open>Well-formed fields.\<close>

definition entry_ok :: "wentry \<Rightarrow> bool" where
  "entry_ok e \<longleftrightarrow> length (e_buf e) = e_cap e \<and> e_len e < e_cap e \<and> e_cursor e \<le> e_len e \<and> e_buf e ! e_len e = NUL \<and>
     no_nul (etext e) \<and> (\<not> e_multiline e \<longrightarrow> newline \<notin> set (etext e))"

lemma etext_length [simp]: "entry_ok e \<Longrightarrow> length (etext e) = e_len e"
  by (simp add: entry_ok_def etext_def)

lemma cursor_rowcol_pos: "entry_ok e \<Longrightarrow> cursor_rowcol e = end_pos (take (e_cursor e) (etext e))"
  using rowcol_fold [of "e_cursor e" "e_buf e"] by (simp add: entry_ok_def cursor_rowcol_def etext_def min_def)

lemma line_count_lines: "entry_ok e \<Longrightarrow> wentry_line_count e = int (length (split_lines (etext e)))"
  using count_fold [of "e_len e" "e_buf e"] by (simp add: entry_ok_def wentry_line_count_def etext_def)

text \<open>The distance from the start of a text to its line \<open>k\<close>.\<close>

fun skip_lines :: "string \<Rightarrow> nat \<Rightarrow> nat" where
  "skip_lines [] k = 0"
| "skip_lines (c # cs) k = (if c = newline then if k = 1 then 1 else Suc (skip_lines cs (k - 1)) else Suc (skip_lines cs k))"

lemma line_start_loop_skip:
  "i \<le> len \<Longrightarrow> len \<le> length buf \<Longrightarrow> cur < line \<Longrightarrow>
     line_start_loop buf len i cur line = i + skip_lines (drop i (take len buf)) (nat (line - cur))"
proof (induction buf len i cur line rule: line_start_loop.induct)
  case (1 buf len i cur line)
  show ?case
  proof (cases "i < len")
    case True
    then have d: "drop i (take len buf) = buf ! i # drop (Suc i) (take len buf)"
      using "1.prems" Cons_nth_drop_Suc [of i "take len buf"] by simp
    show ?thesis
    proof (cases "buf ! i = newline \<and> cur + 1 \<noteq> line")
      case True': True
      have n: "nat (line - cur) - Suc 0 = nat (line - (cur + 1))" "nat (line - cur) \<noteq> Suc 0" using True' "1.prems"(3) by linarith+
      from "1.IH"(1) [OF True] True' "1.prems" True
      have "line_start_loop buf len (i + 1) (cur + 1) line = i + 1 + skip_lines (drop (i + 1) (take len buf)) (nat (line - (cur + 1)))"
        by simp
      with True True' n show ?thesis by (simp add: line_start_loop.simps [of buf len i] d)
    next
      case False
      with True "1.IH"(2) [OF True] "1.prems" show ?thesis
        by (auto simp: line_start_loop.simps [of buf len i] d)
    qed
  qed (use "1.prems" in \<open>simp add: line_start_loop.simps [of buf len len]\<close>)
qed

lemma skip_lines_offset: "0 < k \<Longrightarrow> k < length (split_lines t) \<Longrightarrow> skip_lines t k = line_offset (split_lines t) k"
proof (induction t arbitrary: k)
  case (Cons c t)
  obtain l ls where s: "split_lines t = l # ls" by (cases "split_lines t") auto
  obtain j where j: "k = Suc j" using Cons.prems(1) by (cases k) auto
  show ?case
  proof (cases "c = newline")
    case True
    with Cons.IH [of j] Cons.prems j s show ?thesis by (cases "j = 0") (auto simp: line_offset_def)
  next
    case False
    with Cons.IH [of k] Cons.prems j s show ?thesis by (simp add: line_offset_def)
  qed
qed simp

lemma line_start_offset:
  assumes "entry_ok e" and "r < length (split_lines (etext e))"
  shows "line_start e (int r) = line_offset (split_lines (etext e)) r"
  using line_start_loop_skip [of 0 "e_len e" "e_buf e" 0 "int r"] skip_lines_offset [of r "etext e"] assms
  by (cases "r = 0") (auto simp: line_start_def line_offset_def entry_ok_def etext_def)

lemma to_col_min:
  "i \<le> len \<Longrightarrow> len \<le> length buf \<Longrightarrow> c \<le> col \<Longrightarrow>
     to_col buf len col i c = i + min (nat (col - c)) (length (takeWhile (\<lambda>x. x \<noteq> newline) (drop i (take len buf))))"
proof (induction buf len col i c rule: to_col.induct)
  case (1 buf len col i c)
  show ?case
  proof (cases "i < len \<and> buf ! i \<noteq> newline \<and> c < col")
    case True
    then have d: "drop i (take len buf) = buf ! i # drop (Suc i) (take len buf)"
      using "1.prems" Cons_nth_drop_Suc [of i "take len buf"] by simp
    have "c < col" using True by simp
    then have n: "nat (col - c) = Suc (nat (col - (c + 1)))" by linarith
    from "1.IH" [OF True] True "1.prems" show ?thesis by (simp add: to_col.simps [of buf len col i c] d n)
  next
    case False
    then have "drop i (take len buf) = [] \<or> hd (drop i (take len buf)) = newline \<or> nat (col - c) = 0"
      using "1.prems" by (auto simp: hd_drop_conv_nth)
    then show ?thesis using False by (cases "drop i (take len buf)") (auto simp: to_col.simps [of buf len col i c])
  qed
qed

lemma takeWhile_line:
  "r < length (split_lines t) \<Longrightarrow> takeWhile (\<lambda>x. x \<noteq> newline) (drop (line_offset (split_lines t) r) t) = split_lines t ! r"
proof (induction t arbitrary: r)
  case (Cons c t)
  obtain l ls where s: "split_lines t = l # ls" by (cases "split_lines t") auto
  show ?case
  proof (cases r)
    case 0
    then show ?thesis using Cons.IH [of 0] s by (auto simp: line_offset_def)
  next
    case (Suc j)
    show ?thesis
    proof (cases "c = newline")
      case True
      with Suc Cons.IH [of j] Cons.prems show ?thesis by (simp add: line_offset_def)
    next
      case False
      with Suc Cons.IH [of r] Cons.prems s show ?thesis by (simp add: line_offset_def)
    qed
  qed
qed (simp add: line_offset_def)

lemma line_offset_le: "r < length (split_lines t) \<Longrightarrow> line_offset (split_lines t) r + length (split_lines t ! r) \<le> length t"
proof (induction t arbitrary: r)
  case (Cons c t)
  obtain l ls where s: "split_lines t = l # ls" by (cases "split_lines t") auto
  show ?case
  proof (cases r)
    case 0
    then show ?thesis using Cons.IH [of 0] s by (auto simp: line_offset_def)
  next
    case (Suc j)
    then show ?thesis using Cons.IH [of j] Cons.IH [of r] Cons.prems s by (auto simp: line_offset_def)
  qed
qed (simp add: line_offset_def)

lemma move_to_line:
  assumes ok: "entry_ok e" and r: "r < length (split_lines (etext e))"
  shows "move_to (int r) (int c) e =
    e\<lparr>e_cursor := line_offset (split_lines (etext e)) r + min c (length (split_lines (etext e) ! r))\<rparr>"
proof -
  have b: "line_offset (split_lines (etext e)) r \<le> e_len e" using line_offset_le [OF r] ok by simp
  have "to_col (e_buf e) (e_len e) (int c) (line_offset (split_lines (etext e)) r) 0 =
    line_offset (split_lines (etext e)) r + min c (length (split_lines (etext e) ! r))"
    using to_col_min [OF b, of "e_buf e" 0 "int c"] takeWhile_line [OF r] ok by (simp add: entry_ok_def etext_def)
  then show ?thesis by (simp add: move_to_def line_start_offset [OF ok r])
qed

section \<open>The two shifts\<close>

lemma shift_up:
  "c \<le> n \<Longrightarrow> n < length b \<Longrightarrow> fold (\<lambda>i b. b[i := b ! (i - 1)]) (rev [Suc c..<Suc n]) b = take (Suc c) b @ take (n - c) (drop c b) @ drop (Suc n) b"
proof (induction n arbitrary: b)
  case (Suc n)
  show ?case
  proof (cases "c = Suc n")
    case True
    with Suc.prems show ?thesis by simp
  next
    case False
    then have c: "c \<le> n" using Suc.prems by simp
    let ?b = "b[Suc n := b ! n]"
    have "fold (\<lambda>i b. b[i := b ! (i - 1)]) (rev [Suc c..<Suc (Suc n)]) b = fold (\<lambda>i b. b[i := b ! (i - 1)]) (rev [Suc c..<Suc n]) ?b"
      using c by simp
    also have "\<dots> = take (Suc c) ?b @ take (n - c) (drop c ?b) @ drop (Suc n) ?b" using Suc c by simp
    also have "\<dots> = take (Suc c) b @ take (Suc n - c) (drop c b) @ drop (Suc (Suc n)) b"
    proof -
      have 1: "drop (Suc n) ?b = b ! n # drop (Suc (Suc n)) b" using Suc.prems by (simp add: Cons_nth_drop_Suc [symmetric])
      have 2: "take (Suc n - c) (drop c b) = take (n - c) (drop c b) @ [b ! n]"
        using c Suc.prems by (simp add: Suc_diff_le take_Suc_conv_app_nth)
      have "take (n - c) (drop c ?b) = take (n - c) (drop c b)" using c by (simp add: drop_update_swap)
      with 1 2 c show ?thesis by simp
    qed
    finally show ?thesis .
  qed
qed simp

lemma shift_down:
  "c \<le> n \<Longrightarrow> n < length b \<Longrightarrow> fold (\<lambda>i b. b[i := b ! (i + 1)]) [c..<n] b = take c b @ take (n - c) (drop (Suc c) b) @ drop n b"
proof (induction n)
  case (Suc n)
  show ?case
  proof (cases "c = Suc n")
    case False
    then have c: "c \<le> n" using Suc.prems by simp
    let ?b = "take c b @ take (n - c) (drop (Suc c) b) @ drop n b"
    have l: "length (take c b @ take (n - c) (drop (Suc c) b)) = n" using c Suc.prems by simp
    have "fold (\<lambda>i b. b[i := b ! (i + 1)]) [c..<Suc n] b = ?b[n := ?b ! Suc n]" using Suc c by simp
    also have "?b ! Suc n = b ! Suc n" using l Suc.prems by (simp only: append.assoc [symmetric] nth_append) simp
    also have "?b[n := b ! Suc n] = (take c b @ take (n - c) (drop (Suc c) b)) @ b ! Suc n # drop (Suc n) b"
      using l Suc.prems Cons_nth_drop_Suc [of n b, symmetric]
      by (simp only: append.assoc [symmetric] list_update_append1 list_update_append split: if_split) simp
    also have "\<dots> = take c b @ take (Suc n - c) (drop (Suc c) b) @ drop (Suc n) b"
      using c Suc.prems by (simp add: Suc_diff_le take_Suc_conv_app_nth)
    finally show ?thesis .
  qed simp
qed simp

section \<open>The abstract editor\<close>

text \<open>A text and the cursor's place in it.\<close>

definition type_in :: "bool \<Rightarrow> nat \<Rightarrow> char \<Rightarrow> string \<times> nat \<Rightarrow> string \<times> nat" where
  "type_in multi cap ch = (\<lambda>(t, c).
     if length t + 1 \<ge> cap \<or> (\<not> multi \<and> ch = newline) then (t, c) else (take c t @ ch # drop c t, c + 1))"

definition rub_out :: "string \<times> nat \<Rightarrow> string \<times> nat" where
  "rub_out = (\<lambda>(t, c). if c = 0 then (t, c) else (take (c - 1) t @ drop c t, c - 1))"

text \<open>To line \<open>r\<close> of the text, in the column the cursor has or at that line's end.\<close>

definition to_line :: "nat \<Rightarrow> nat \<Rightarrow> string \<Rightarrow> string \<times> nat" where
  "to_line r k t = (t, line_offset (split_lines t) r + min k (length (split_lines t ! r)))"

definition edit :: "bool \<Rightarrow> nat \<Rightarrow> int \<Rightarrow> string \<times> nat \<Rightarrow> string \<times> nat" where
  "edit multi cap key = (\<lambda>(t, c).
     let (r, k) = end_pos (take c t) in
     if key = 8 \<or> key = 127 then rub_out (t, c)
     else if key = 0x100 then (if multi \<and> 0 < r then to_line (r - 1) k t else (t, c))
     else if key = 0x101 then (if multi \<and> r + 1 < length (split_lines t) then to_line (r + 1) k t else (t, c))
     else if key = 0x102 then (t, c - 1)
     else if key = 0x103 then (t, min (length t) (c + 1))
     else if key = 13 \<or> key = 10 then type_in multi cap newline (t, c)
     else if key = 9 then (type_in multi cap (CHR '' '') ^^ 4) (t, c)
     else if 32 \<le> key \<and> key < 127 then type_in multi cap (char_of (nat key)) (t, c)
     else (t, c))"

definition cursor_row_shown :: "wentry \<Rightarrow> bool" where
  "cursor_row_shown e \<longleftrightarrow>
     (let (row, col) = cursor_rowcol e in
      0 \<le> e_scroll e \<and>
      (if e_multiline e then e_scroll e \<le> int row \<and> int row < e_scroll e + wentry_vis_rows e
       else e_scroll e \<le> int col \<and> int col < e_scroll e + wentry_vis_cols e))"

section \<open>Every step\<close>

lemma ensure_sel [simp]:
  "e_buf (wentry_ensure_cursor_visible e) = e_buf e" "e_cap (wentry_ensure_cursor_visible e) = e_cap e"
  "e_len (wentry_ensure_cursor_visible e) = e_len e" "e_cursor (wentry_ensure_cursor_visible e) = e_cursor e"
  "e_multiline (wentry_ensure_cursor_visible e) = e_multiline e" "e_readonly (wentry_ensure_cursor_visible e) = e_readonly e"
  "w_id (wentry_ensure_cursor_visible e) = w_id e" "w_aw (wentry_ensure_cursor_visible e) = w_aw e"
  "w_ah (wentry_ensure_cursor_visible e) = w_ah e"
  by (simp_all add: wentry_ensure_cursor_visible_def Let_def split_beta)

lemma mark_sel [simp]:
  "e_buf (mark_view e) = e_buf e" "e_cap (mark_view e) = e_cap e" "e_len (mark_view e) = e_len e" "e_cursor (mark_view e) = e_cursor e"
  "e_multiline (mark_view e) = e_multiline e" "e_readonly (mark_view e) = e_readonly e" "w_id (mark_view e) = w_id e"
  "w_aw (mark_view e) = w_aw e" "w_ah (mark_view e) = w_ah e" "e_scroll (mark_view e) = e_scroll e"
  by (simp_all add: mark_view_def)

text \<open>The text, its buffer and the cursor decide the invariant; the rest of the fields does not matter.\<close>

definition same_text :: "wentry \<Rightarrow> wentry \<Rightarrow> bool" where
  "same_text e f \<longleftrightarrow> e_buf e = e_buf f \<and> e_cap e = e_cap f \<and> e_len e = e_len f \<and> e_cursor e = e_cursor f \<and>
     e_multiline e = e_multiline f \<and> w_aw e = w_aw f \<and> w_ah e = w_ah f"

lemma same_text_ok: "same_text e f \<Longrightarrow> entry_ok e = entry_ok f \<and> etext e = etext f \<and> cursor_rowcol e = cursor_rowcol f \<and>
    wentry_vis_rows e = wentry_vis_rows f \<and> wentry_vis_cols e = wentry_vis_cols f \<and> max_scroll e = max_scroll f"
  by (simp add: same_text_def entry_ok_def etext_def cursor_rowcol_def wentry_vis_rows_def wentry_vis_cols_def max_scroll_def
      wentry_line_count_def)

lemma same_text_ensure: "same_text (wentry_ensure_cursor_visible e) e"
  by (simp add: same_text_def)

lemma vis_pos: "1 \<le> wentry_vis_rows e" "1 \<le> wentry_vis_cols e"
  by (simp_all add: wentry_vis_rows_def wentry_vis_cols_def Let_def)

lemma split_take_le: "length (split_lines (take k t)) \<le> length (split_lines t)"
proof (induction t arbitrary: k)
  case (Cons c t)
  obtain l ls where s: "split_lines t = l # ls" by (cases "split_lines t") auto
  show ?case
  proof (cases k)
    case (Suc j)
    obtain m ms where "split_lines (take j t) = m # ms" by (cases "split_lines (take j t)") auto
    with Suc Cons [of j] s show ?thesis by simp
  qed (auto simp: Suc_le_eq)
qed simp

lemma ensure_shows:
  assumes ok: "entry_ok e"
  shows "cursor_row_shown (wentry_ensure_cursor_visible e)"
proof -
  obtain row col where rc: "cursor_rowcol e = (row, col)" by fastforce
  have "int row < wentry_line_count e"
    using cursor_rowcol_pos [OF ok] split_take_le [of "e_cursor e" "etext e"] rc
    by (cases "split_lines (take (e_cursor e) (etext e))") (auto simp: line_count_lines [OF ok] end_pos_def)
  with vis_pos [of e] show ?thesis
    using same_text_ok [OF same_text_ensure, of e]
    by (auto simp: cursor_row_shown_def rc wentry_ensure_cursor_visible_def clampi_def max_scroll_def Let_def)
qed

text \<open>What a step must give: a well-formed field with text and cursor \<open>tc\<close>, the cursor in sight.\<close>

definition becomes :: "wentry \<Rightarrow> string \<times> nat \<Rightarrow> wentry \<Rightarrow> bool" where
  "becomes e tc f \<longleftrightarrow> entry_ok f \<and> cursor_row_shown f \<and> (etext f, e_cursor f) = tc \<and> e_cap f = e_cap e \<and>
     e_multiline f = e_multiline e \<and> e_readonly f = e_readonly e \<and> w_id f = w_id e"

lemma becomes_ensure:
  assumes "entry_ok f" and "(etext f, e_cursor f) = tc" and "e_cap f = e_cap e" and "e_multiline f = e_multiline e"
    and "e_readonly f = e_readonly e" and "w_id f = w_id e"
  shows "becomes e tc (wentry_ensure_cursor_visible (mark_view f))"
proof -
  have m: "same_text (mark_view f) f" by (simp add: same_text_def)
  then have ok: "entry_ok (mark_view f)" using assms(1) same_text_ok by blast
  with ensure_shows [OF ok] assms same_text_ok [OF m] same_text_ok [OF same_text_ensure, of "mark_view f"] show ?thesis
    by (simp add: becomes_def)
qed

lemma insert_becomes:
  assumes ok: "entry_ok e" and sh: "cursor_row_shown e" and ch: "ch \<noteq> NUL"
  shows "becomes e (type_in (e_multiline e) (e_cap e) ch (etext e, e_cursor e)) (insert_char ch e)"
proof (cases "e_len e + 1 \<ge> e_cap e \<or> (\<not> e_multiline e \<and> ch = newline)")
  case True
  with ok sh show ?thesis by (auto simp: becomes_def type_in_def insert_char_def)
next
  case False
  let ?n = "e_len e" and ?c = "e_cursor e" and ?b = "e_buf e"
  have b: "length ?b = e_cap e" "?n < e_cap e" "?c \<le> ?n" using ok by (auto simp: entry_ok_def)
  define f where "f = e\<lparr>e_cursor := ?c + 1, e_len := ?n + 1,
    e_buf := ((fold (\<lambda>i b. b[i := b ! (i - 1)]) (rev [Suc ?c..<Suc ?n]) ?b)[?c := ch])[?n + 1 := NUL], e_changed := True\<rparr>"
  have i: "insert_char ch e = wentry_ensure_cursor_visible (mark_view f)"
    using False by (auto simp: insert_char_def mark_changed_def f_def Let_def simp del: upt_Suc)
  have buf: "e_buf f = ((take (Suc ?c) ?b @ take (?n - ?c) (drop ?c ?b) @ drop (Suc ?n) ?b)[?c := ch])[?n + 1 := NUL]"
    using shift_up [of ?c ?n ?b] b by (simp add: f_def del: upt_Suc)
  define P where "P = take ?c ?b @ ch # take (?n - ?c) (drop ?c ?b)"
  have l: "length P = ?n + 1" using b by (simp add: P_def)
  have q: "drop (Suc ?n) ?b = ?b ! Suc ?n # drop (Suc (Suc ?n)) ?b" using b False by (simp add: Cons_nth_drop_Suc)
  have "(take (Suc ?c) ?b @ take (?n - ?c) (drop ?c ?b) @ drop (Suc ?n) ?b)[?c := ch] = P @ ?b ! Suc ?n # drop (Suc (Suc ?n)) ?b"
    unfolding q [symmetric] using b by (simp add: take_Suc_conv_app_nth list_update_append P_def)
  then have buf2: "e_buf f = P @ NUL # drop (Suc (Suc ?n)) ?b"
    unfolding buf by (simp only: list_update_length [of P, unfolded l])
  have n: "e_len f = ?n + 1" by (simp add: f_def)
  have "etext f = P" unfolding etext_def buf2 n l [symmetric] by simp
  then have t: "etext f = take ?c (etext e) @ ch # drop ?c (etext e)"
    using b by (simp add: P_def etext_def drop_take min_def)
  have "entry_ok f"
  proof -
    have "e_buf f ! e_len f = NUL" unfolding buf2 n l [symmetric] by (rule nth_append_length)
    moreover have "length (e_buf f) = e_cap f" using b False unfolding buf2 by (simp add: l) (simp add: f_def, linarith)
    moreover have "no_nul (etext f)" "\<not> e_multiline f \<longrightarrow> newline \<notin> set (etext f)"
      using ok ch False unfolding t by (auto simp: entry_ok_def f_def no_nul_def dest: in_set_takeD in_set_dropD)
    ultimately show ?thesis using False b by (simp add: entry_ok_def f_def)
  qed
  with t False show ?thesis unfolding i using ok by (intro becomes_ensure) (auto simp: type_in_def f_def)
qed


lemma delete_becomes:
  assumes ok: "entry_ok e" and sh: "cursor_row_shown e"
  shows "becomes e (rub_out (etext e, e_cursor e)) (delete_back e)"
proof (cases "e_cursor e = 0")
  case True
  with ok sh show ?thesis by (simp add: becomes_def rub_out_def delete_back_def)
next
  case False
  let ?n = "e_len e" and ?c = "e_cursor e - 1" and ?b = "e_buf e"
  have b: "length ?b = e_cap e" "?n < e_cap e" "?c < ?n" "e_cursor e = Suc ?c" using ok False by (auto simp: entry_ok_def)
  define f where "f = e\<lparr>e_cursor := ?c, e_len := ?n - 1,
    e_buf := (fold (\<lambda>i b. b[i := b ! (i + 1)]) [?c..<?n] ?b)[?n - 1 := NUL], e_changed := True\<rparr>"
  have d: "delete_back e = wentry_ensure_cursor_visible (mark_view f)"
    using False by (simp add: delete_back_def mark_changed_def f_def Let_def)
  have buf: "e_buf f = (take ?c ?b @ take (?n - ?c) (drop (Suc ?c) ?b) @ drop ?n ?b)[?n - 1 := NUL]"
    using shift_down [of ?c ?n ?b] b by (simp add: f_def)
  define P where "P = take ?c ?b @ take (?n - Suc ?c) (drop (Suc ?c) ?b)"
  have l: "length P = ?n - 1" using b by (simp add: P_def)
  have s: "?n - ?c = Suc (?n - Suc ?c)" using b(3) by linarith
  have "take (Suc (?n - Suc ?c)) (drop (Suc ?c) ?b) = take (?n - Suc ?c) (drop (Suc ?c) ?b) @ [drop (Suc ?c) ?b ! (?n - Suc ?c)]"
    by (rule take_Suc_conv_app_nth) (use b in simp)
  moreover have "drop (Suc ?c) ?b ! (?n - Suc ?c) = ?b ! ?n" using b by simp
  ultimately have "take (?n - ?c) (drop (Suc ?c) ?b) = take (?n - Suc ?c) (drop (Suc ?c) ?b) @ [?b ! ?n]" by (simp only: s)
  then have "take ?c ?b @ take (?n - ?c) (drop (Suc ?c) ?b) @ drop ?n ?b = P @ ?b ! ?n # drop ?n ?b"
    by (simp only: P_def append.assoc append_Cons append_Nil)
  then have buf2: "e_buf f = P @ NUL # drop ?n ?b" unfolding buf by (simp only: list_update_length [of P, unfolded l])
  have n: "e_len f = ?n - 1" by (simp add: f_def)
  have "etext f = P" unfolding etext_def buf2 n l [symmetric] by simp
  then have t: "etext f = take ?c (etext e) @ drop (Suc ?c) (etext e)"
    using b by (simp add: P_def etext_def drop_take min_def)
  have "entry_ok f"
  proof -
    have "e_buf f ! e_len f = NUL" unfolding buf2 n l [symmetric] by (rule nth_append_length)
    moreover have "length (e_buf f) = e_cap f" using b unfolding buf2 by (simp add: l) (simp add: f_def)
    moreover have "no_nul (etext f)" "\<not> e_multiline f \<longrightarrow> newline \<notin> set (etext f)"
      using ok unfolding t by (auto simp: entry_ok_def f_def no_nul_def dest: in_set_takeD in_set_dropD)
    ultimately show ?thesis using b by (simp add: entry_ok_def f_def) linarith
  qed
  with t b(4) show ?thesis unfolding d using False by (intro becomes_ensure) (auto simp: rub_out_def f_def)
qed

lemma cursor_becomes:
  assumes ok: "entry_ok e" and c: "c \<le> e_len e"
  shows "becomes e (etext e, c) (wentry_ensure_cursor_visible (mark_view (e\<lparr>e_cursor := c\<rparr>)))"
  by (rule becomes_ensure) (use ok c in \<open>auto simp: entry_ok_def etext_def\<close>)

lemma stay_becomes: "entry_ok e \<Longrightarrow> cursor_row_shown e \<Longrightarrow> becomes e (etext e, e_cursor e) e"
  by (simp add: becomes_def)

lemma line_becomes:
  assumes ok: "entry_ok e" and r: "r < length (split_lines (etext e))"
  shows "becomes e (to_line r k (etext e)) (wentry_ensure_cursor_visible (mark_view (move_to (int r) (int k) e)))"
proof -
  have "line_offset (split_lines (etext e)) r + min k (length (split_lines (etext e) ! r)) \<le> e_len e"
    using line_offset_le [OF r] ok by (auto simp: min_def)
  from cursor_becomes [OF ok this] show ?thesis by (simp add: to_line_def move_to_line [OF ok r])
qed

lemma move_up_becomes:
  assumes ok: "entry_ok e" and sh: "cursor_row_shown e" and p: "end_pos (take (e_cursor e) (etext e)) = (r, k)"
  shows "becomes e (if e_multiline e \<and> 0 < r then to_line (r - 1) k (etext e) else (etext e, e_cursor e)) (move_up e)"
proof (cases "e_multiline e \<and> 0 < r")
  case True
  have "r - 1 < length (split_lines (etext e))"
    using p split_take_le [of "e_cursor e" "etext e"] True by (auto simp: end_pos_def)
  from line_becomes [OF ok this, of k] True show ?thesis
    by (simp add: move_up_def cursor_rowcol_pos [OF ok] p of_nat_diff)
next
  case False
  with stay_becomes [OF ok sh] show ?thesis by (auto simp: move_up_def cursor_rowcol_pos [OF ok] p)
qed

lemma move_down_becomes:
  assumes ok: "entry_ok e" and sh: "cursor_row_shown e" and p: "end_pos (take (e_cursor e) (etext e)) = (r, k)"
  shows "becomes e (if e_multiline e \<and> r + 1 < length (split_lines (etext e)) then to_line (r + 1) k (etext e)
    else (etext e, e_cursor e)) (move_down e)"
proof (cases "e_multiline e \<and> r + 1 < length (split_lines (etext e))")
  case True
  then have "r + 1 < length (split_lines (etext e))" by simp
  from line_becomes [OF ok this, of k] True show ?thesis
    by (simp add: move_down_def cursor_rowcol_pos [OF ok] p line_count_lines [OF ok] add.commute)
next
  case False
  with stay_becomes [OF ok sh] show ?thesis
    by (auto simp: move_down_def cursor_rowcol_pos [OF ok] p line_count_lines [OF ok])
qed

lemma insert_many:
  assumes "entry_ok e" and "cursor_row_shown e" and "ch \<noteq> NUL"
  shows "becomes e ((type_in (e_multiline e) (e_cap e) ch ^^ n) (etext e, e_cursor e)) ((insert_char ch ^^ n) e)"
proof (induction n)
  case (Suc n)
  define f where "f = (insert_char ch ^^ n) e"
  have f: "becomes e ((type_in (e_multiline e) (e_cap e) ch ^^ n) (etext e, e_cursor e)) f" using Suc by (simp add: f_def)
  then have "becomes f (type_in (e_multiline f) (e_cap f) ch (etext f, e_cursor f)) (insert_char ch f)"
    using assms(3) by (intro insert_becomes) (simp_all add: becomes_def)
  with f show ?case by (simp add: becomes_def f_def [symmetric])
qed (use assms stay_becomes in simp)

lemma char_printable: "32 \<le> key \<Longrightarrow> key < 127 \<Longrightarrow> (char_of (nat key) :: char) \<noteq> NUL"
proof
  assume k: "32 \<le> key" "key < (127 :: int)" and "char_of (nat key) = NUL"
  then have "of_char (char_of (nat key) :: char) = (of_char NUL :: nat)" by simp
  then have "nat key mod 256 = 0" by simp
  with k show False by simp
qed

lemma both_becomes:
  "(b \<Longrightarrow> becomes f x y) \<Longrightarrow> (\<not> b \<Longrightarrow> becomes f x' y') \<Longrightarrow> becomes f (if b then x else x') (if b then y else y')"
  by simp

lemma key_becomes:
  assumes ok: "entry_ok e" and sh: "cursor_row_shown e" and ed: "\<not> e_readonly e" "widget_has_focus g e"
  shows "becomes e (edit (e_multiline e) (e_cap e) key (etext e, e_cursor e)) (wentry_key g key e)"
proof -
  define f where "f = e\<lparr>e_focused := True\<rparr>"
  have st: "same_text f e" by (simp add: same_text_def f_def)
  then have f: "entry_ok f" "etext f = etext e" using ok same_text_ok by blast+
  have fs: "cursor_row_shown f" using sh same_text_ok [OF st] by (simp add: cursor_row_shown_def f_def split_beta Let_def)
  have sel: "e_multiline f = e_multiline e" "e_cap f = e_cap e" "e_cursor f = e_cursor e" "e_len f = e_len e"
    by (simp_all add: f_def)
  have lift: "becomes f tc h \<Longrightarrow> becomes e tc h" for tc h by (simp add: becomes_def f_def)
  obtain r k where p: "end_pos (take (e_cursor e) (etext e)) = (r, k)" by fastforce
  have len: "length (etext e) = e_len e" using ok by simp
  have cur: "e_cursor e \<le> e_len e" using ok by (simp add: entry_ok_def)
  note ups = move_up_becomes [OF f(1) fs, unfolded f(2) sel, OF p] and downs = move_down_becomes [OF f(1) fs, unfolded f(2) sel, OF p]
    and dels = delete_becomes [OF f(1) fs, unfolded f(2) sel] and ins = insert_becomes [OF f(1) fs, unfolded f(2) sel]
    and many = insert_many [OF f(1) fs, unfolded f(2) sel] and curs = cursor_becomes [OF f(1), unfolded f(2) sel]
    and stay = stay_becomes [OF f(1) fs, unfolded f(2) sel]
  have same: "becomes f (etext e, e_cursor e) (wentry_ensure_cursor_visible (mark_view f))"
    using f by (intro becomes_ensure) (simp_all add: sel)
  have left: "becomes f (etext e, e_cursor e - 1) (move_left f)"
    using curs [of "e_cursor e - 1"] same cur by (cases "e_cursor e = 0") (auto simp: move_left_def sel)
  have right: "becomes f (etext e, min (length (etext e)) (e_cursor e + 1)) (move_right f)"
    using curs [of "e_cursor e + 1"] same cur by (cases "e_cursor e = e_len e") (auto simp: move_right_def sel len)
  have nl: "(if e_multiline f then insert_char newline f else f) = insert_char newline f" by (simp add: insert_char_def)
  have k: "wentry_key g key e = (if key = 8 \<or> key = 127 then delete_back f
        else if key = 0x100 then move_up f
        else if key = 0x101 then move_down f
        else if key = 0x102 then move_left f
        else if key = 0x103 then move_right f
        else if key = 13 \<or> key = 10 then insert_char newline f
        else if key = 9 then (insert_char (CHR '' '') ^^ 4) f
        else if key \<ge> 32 \<and> key < 127 then insert_char (char_of (nat key)) f
        else f)"
    unfolding wentry_key_def Let_def f_def [symmetric] nl using ed by simp
  show ?thesis
    unfolding k edit_def p Let_def prod.case
    by (rule lift) (intro both_becomes ups downs dels ins many left right stay; (erule conjE)?; simp add: char_printable)
qed

section \<open>Typing\<close>

text \<open>Property C32. Whatever keys are typed into a text field, letters, line breaks, tabs, erasures and cursor keys in any order and to any number,
  its text and cursor are those of the abstract editor on a string, in which a cursor key up or down goes to the
  neighbouring line, in the same column or at that line's end; the buffer never overflows and stays terminated, and in
  a field of several lines the scrolling always leaves the cursor's line among the visible ones (there is no scrolling sideways, so
  on a line wider than the box the cursor itself may be out of sight).\<close>

theorem wentry_types_text:
  assumes "entry_ok e" and "cursor_row_shown e" and "\<not> e_readonly e" and "widget_has_focus g e"
  shows "let f = fold (wentry_key g) keys e in
    (etext f, e_cursor f) = fold (edit (e_multiline e) (e_cap e)) keys (etext e, e_cursor e) \<and>
    wentry_text f = etext f \<and> e_len f < e_cap e \<and> length (e_buf f) = e_cap e \<and> cursor_row_shown f"
proof -
  have "becomes e (fold (edit (e_multiline e) (e_cap e)) keys (etext e, e_cursor e)) (fold (wentry_key g) keys e)"
    using assms
  proof (induction keys arbitrary: e)
    case Nil
    then show ?case by (simp add: stay_becomes)
  next
    case (Cons key keys)
    have k: "becomes e (edit (e_multiline e) (e_cap e) key (etext e, e_cursor e)) (wentry_key g key e)"
      using Cons.prems by (rule key_becomes)
    then have p: "entry_ok (wentry_key g key e)" "cursor_row_shown (wentry_key g key e)" "\<not> e_readonly (wentry_key g key e)"
      "widget_has_focus g (wentry_key g key e)" using Cons.prems by (auto simp: becomes_def widget_has_focus_def)
    from Cons.IH [OF p] k show ?case by (simp add: becomes_def)
  qed
  then have f: "entry_ok (fold (wentry_key g) keys e)" "cursor_row_shown (fold (wentry_key g) keys e)" "e_cap (fold (wentry_key g) keys e) = e_cap e"
    "(etext (fold (wentry_key g) keys e), e_cursor (fold (wentry_key g) keys e)) = fold (edit (e_multiline e) (e_cap e)) keys (etext e, e_cursor e)"
    by (auto simp: becomes_def)
  have "wentry_text h = etext h" if h: "entry_ok h" for h
  proof -
    have "e_buf h = etext h @ NUL # drop (Suc (e_len h)) (e_buf h)"
      using h Cons_nth_drop_Suc [of "e_len h" "e_buf h"] by (simp add: entry_ok_def etext_def)
    moreover have "NUL \<notin> set (etext h)" using h by (simp add: entry_ok_def no_nul_def)
    moreover have "takeWhile (\<lambda>c. c \<noteq> NUL) (x @ NUL # y) = x" if "NUL \<notin> set x" for x y
      using that by (subst takeWhile_append2) auto
    ultimately show ?thesis unfolding wentry_text_def cstr_def by metis
  qed
  with f show ?thesis unfolding Let_def by (auto simp: entry_ok_def)
qed

lemma wentry_init_ok:
  assumes "length buf = nat (max 1 cap)"
  shows "entry_ok (wentry_init i buf cap multi) \<and> cursor_row_shown (wentry_init i buf cap multi)"
proof -
  have "1 \<le> length buf" using assms by simp
  then show ?thesis using assms vis_pos [of "wentry_init i buf cap multi"]
    by (auto simp: entry_ok_def wentry_init_def etext_def cursor_row_shown_def cursor_rowcol_def max_def split: if_splits)
qed

theorem wentry_types_text_witness:
  "wentry_text (fold (wentry_key (Some 1)) [104, 105, 13, 111, 0x100, 8, 33] (wentry_init 1 (replicate 16 NUL) 16 True)) = ''!i\<newline>o''"
proof -
  let ?e = "wentry_init 1 (replicate 16 NUL) 16 True"
  have "entry_ok ?e \<and> cursor_row_shown ?e" by (rule wentry_init_ok) simp
  moreover have "\<not> e_readonly ?e" "widget_has_focus (Some 1) ?e" by (simp_all add: wentry_init_def widget_has_focus_def)
  ultimately have t: "let f = fold (wentry_key (Some 1)) [104, 105, 13, 111, 0x100, 8, 33] ?e in
    (etext f, e_cursor f) = fold (edit (e_multiline ?e) (e_cap ?e)) [104, 105, 13, 111, 0x100, 8, 33] (etext ?e, e_cursor ?e) \<and>
    wentry_text f = etext f \<and> e_len f < e_cap ?e \<and> length (e_buf f) = e_cap ?e \<and> cursor_row_shown f"
    using wentry_types_text by blast
  have "fold (edit (e_multiline ?e) (e_cap ?e)) [104, 105, 13, 111, 0x100, 8, 33] (etext ?e, e_cursor ?e) = ([CHR ''!'', CHR ''i'', newline, CHR ''o''], 1)"
    by code_simp
  with t show ?thesis by (simp add: Let_def)
qed

end
