(* ===== verification/PageOwners.thy ===== *)
theory PageOwners
  imports VfsSpec DisplaySpec
begin

text \<open>
  What the file system and the display server leave alone: the pages in use that belong to neither
  of them stay in use, and no file and no window takes them. \<open>others_kept\<close> states it of the file
  operations, \<open>others_kept_win\<close> of the window requests.
\<close>

section \<open>Files leave the pages of others alone\<close>

definition stored :: "vfs \<Rightarrow> nat set" where
  "stored s = (\<Union>i. owned s i)"

text \<open>The pages in use that no file owns stay in use and no file takes them.\<close>

definition others_kept :: "vfs \<Rightarrow> vfs \<Rightarrow> bool" where
  "others_kept s t \<longleftrightarrow> used_pages (vmm s) - stored s \<subseteq> used_pages (vmm t) - stored t"

lemma others_kept_refl [simp]: "others_kept s s"
  by (simp add: others_kept_def)

lemma others_kept_trans: "others_kept s t \<Longrightarrow> others_kept t u \<Longrightarrow> others_kept s u"
  by (auto simp: others_kept_def)

lemma others_keptI:
  assumes "\<And>j. owned t j \<subseteq> owned s j \<union> - used_pages (vmm s)" and "used_pages (vmm s) - stored s \<subseteq> used_pages (vmm t)"
  shows "others_kept s t"
proof -
  have "stored t \<subseteq> stored s \<union> - used_pages (vmm s)" using assms(1) by (fastforce simp: stored_def)
  with assms(2) show ?thesis by (auto simp: others_kept_def)
qed

text \<open>What does not change storage at all.\<close>

lemma others_kept_same: "used_pages (vmm t) = used_pages (vmm s) \<Longrightarrow> (\<And>j. owned t j \<subseteq> owned s j) \<Longrightarrow> others_kept s t"
  by (rule others_keptI) auto

lemma owned_vmm [simp]: "owned (s\<lparr>vmm := m\<rparr>) = owned s" "owned (s\<lparr>fds := f\<rparr>) = owned s" "owned (s\<lparr>vmm := m, fds := f\<rparr>) = owned s"
  by (simp_all add: owned_def fun_eq_iff)

lemma node_pages_upd [simp]: "node_pages (nd\<lparr>n_size := z\<rparr>) = node_pages nd" "node_pages (nd\<lparr>n_children := c\<rparr>) = node_pages nd"
  "node_pages (nd\<lparr>n_used := b\<rparr>) = node_pages nd"
  by (simp_all add: node_pages_def split: option.split)

lemma kept_size: "others_kept s (upd_node i (\<lambda>n. n\<lparr>n_size := z\<rparr>) s)"
  by (rule others_kept_same) (auto simp: owned_def nth_list_update_if split: if_splits)

lemma kept_mem: "others_kept s (s\<lparr>vmm := (vmm s)\<lparr>mem := M\<rparr>\<rparr>)" "others_kept s (s\<lparr>fds := f\<rparr>)"
  by (rule others_kept_same; simp)+

section \<open>Growth\<close>

lemma regrow_kept:
  assumes inv: "store_inv s" and i: "i < length (nodes s)" "n_used (nodes s ! i)"
    and al: "mm_alloc_pages n (vmm s) = (Some p, m)"
  shows "others_kept s (regrow i p n M m s)"
proof (rule others_keptI)
  let ?t = "regrow i p n M m s" let ?nd = "nodes s ! i"
  have ok: "store_ok ?nd" and mminv: "mm_inv (vmm s)" using inv i by (simp_all add: store_inv_def)
  obtain j where j: "p = page_addr j" "0 < n" "j + n \<le> PAGE_COUNT" "{j..<j + n} \<inter> used_pages (vmm s) = {}"
    "used_pages m = used_pages (vmm s) \<union> {j..<j + n}" using kpages.alloc_some [OF mminv al] by auto
  have pj: "page_index p = j" using j by (simp add: page_index_addr)
  have "owned ?t k = (if k = i then {j..<j + n} else owned s k)" for k
    using i by (simp add: regrow_def owned_def nth_list_update_if) (simp add: node_pages_def pj PAGE_SIZE_def)
  then show "owned ?t k \<subseteq> owned s k \<union> - used_pages (vmm s)" for k using j(4) by auto
  have inv_m: "mm_inv m" using mm_inv_alloc [OF mminv, of n] al by simp
  have "used_pages m - owned s i \<subseteq> used_pages (vmm ?t)"
  proof (cases "n_data ?nd")
    case None
    then show ?thesis by (auto simp: regrow_def)
  next
    case (Some a)
    with ok have a: "a = page_addr (page_index a)" "page_index a < PAGE_COUNT" by (auto simp: store_ok_def PAGE_SIZE_def)
    have "used_pages (mm_free_pages a (n_cap ?nd div PAGE_SIZE) m) = used_pages m - {page_index a..<page_index a + n_cap ?nd div PAGE_SIZE}"
      using mm_free_used [OF inv_m a(2)] a(1) by metis
    then show ?thesis using Some i by (auto simp: regrow_def owned_def node_pages_def)
  qed
  then show "used_pages (vmm s) - stored s \<subseteq> used_pages (vmm ?t)" using j(5) by (auto simp: stored_def)
qed

lemma set_contents_kept:
  assumes inv: "store_inv s" and i: "i < length (nodes s)" "n_used (nodes s ! i)"
  shows "others_kept s (snd (set_contents i bs s))"
proof (cases "n_is_dir (nodes s ! i) \<or> VFS_FILE_MAX < length bs")
  case True
  then show ?thesis by (auto simp: set_contents_def Let_def)
next
  case small: False
  show ?thesis
  proof (cases "n_cap (nodes s ! i) < length bs")
    case False
    then have "snd (set_contents i bs s) = upd_node i (\<lambda>x. x\<lparr>n_size := length bs\<rparr>)
        (s\<lparr>vmm := (vmm s)\<lparr>mem := mem_store (mem (vmm s)) (the_ptr (n_data (nodes s ! i))) bs\<rparr>\<rparr>)"
      using small by (simp add: set_contents_def Let_def)
    then show ?thesis using others_kept_trans [OF kept_mem(1) kept_size] by metis
  next
    case True
    obtain p m where pm: "mm_alloc_pages (pages_for (length bs)) (vmm s) = (p, m)" by fastforce
    show ?thesis
    proof (cases p)
      case None
      then show ?thesis using pm True small by (simp add: set_contents_def Let_def)
    next
      case (Some a)
      let ?t = "regrow i a (pages_for (length bs)) (mem m) m s"
      have ok: "store_ok (nodes s ! i)" using inv i by (simp add: store_inv_def)
      have al: "mm_alloc_pages (pages_for (length bs)) (vmm s) = (Some a, m)" using pm Some by simp
      have "snd (set_contents i bs s) = upd_node i (\<lambda>x. x\<lparr>n_size := length bs\<rparr>)
          (?t\<lparr>vmm := (vmm ?t)\<lparr>mem := mem_store (mem (vmm ?t)) (the_ptr (n_data (nodes ?t ! i))) bs\<rparr>\<rparr>)"
        using set_contents_grow [OF ok i _ _ True al] small by (simp add: Let_def)
      then show ?thesis
        using others_kept_trans [OF regrow_kept [OF inv i al] others_kept_trans [OF kept_mem(1) kept_size]] by metis
    qed
  qed
qed

lemma grow_node_kept:
  assumes inv: "store_inv s" and i: "i < length (nodes s)" "n_used (nodes s ! i)" and g: "grow_node i need s = Some t"
  shows "others_kept s t"
proof (cases "n_cap (nodes s ! i) < need")
  case False
  with g show ?thesis by (simp add: grow_node_def Let_def)
next
  case True
  let ?nd = "nodes s ! i" let ?n = "pages_for need"
  have nc: "?n * PAGE_SIZE div PAGE_SIZE = ?n" by (simp add: PAGE_SIZE_def)
  obtain p m where pm: "mm_alloc_pages ?n (vmm s) = (Some p, m)"
    using g True nc by (auto simp: grow_node_def Let_def split: option.splits prod.splits)
  have "t = regrow i p ?n (if n_data ?nd \<noteq> None \<and> n_size ?nd \<noteq> 0 then kmemcpy (mem m) p (the_ptr (n_data ?nd)) (n_size ?nd) else mem m) m s"
    using g True nc pm by (auto simp: grow_node_def Let_def regrow_def split: option.splits)
  then show ?thesis using regrow_kept [OF inv i pm] by simp
qed

section \<open>Operations\<close>

lemma kept_link: "linkable s q p i nm \<Longrightarrow> store_inv s \<Longrightarrow> others_kept s (link_node p i nm d s)"
proof (rule others_kept_same)
  assume lk: "linkable s q p i nm" and inv: "store_inv s"
  show "used_pages (vmm (link_node p i nm d s)) = used_pages (vmm s)" by (simp add: link_storage(2) [OF lk inv])
  fix j
  have "n_used (nodes s ! p)" using link_node_nth(4) [OF lk] by simp
  then show "owned (link_node p i nm d s) j \<subseteq> owned s j"
    using lk by (auto simp: owned_def link_node_nth(1) [OF lk] link_node_nth(5) [OF lk] node_pages_def blank_node_def linkable_def split: option.splits)
qed

lemma vfs_mkdir_kept:
  assumes inv: "vfs_inv s" and fits: "path_fits path VFS_PATH_MAX"
  shows "others_kept s (snd (vfs_mkdir path s))"
proof -
  from inv have tree: "tree_inv s" and store: "store_inv s" by (auto simp: vfs_inv_def)
  note g = fits_good [OF fits] and spec = vfs_mkdir_spec [OF tree fits]
  show ?thesis
  proof (cases "walk s root (resolved path)")
    case None
    show ?thesis
    proof (cases "entry_slot (resolved path) s")
      case (Inr r)
      obtain nm p i where r: "r = (nm, p, i)" by (cases r)
      from entry_slot_linkable [OF tree g None] Inr r obtain q where "linkable s q p i nm" by metis
      from kept_link [OF this store, of True] show ?thesis using None Inr r by (simp add: spec)
    qed (use None in \<open>simp add: spec\<close>)
  qed (simp add: spec)
qed

lemma vfs_write_file_kept:
  assumes inv: "vfs_inv s" and fits: "path_fits path VFS_PATH_MAX"
  shows "others_kept s (snd (vfs_write_file path bs s))"
proof -
  from inv have tree: "tree_inv s" and store: "store_inv s" by (auto simp: vfs_inv_def)
  note g = fits_good [OF fits] and look = vfs_lookup_walk [OF fits, of s]
  show ?thesis
  proof (cases "walk s root (resolved path)")
    case (Some i)
    with walk_used [OF tree Some g] have i: "i < length (nodes s)" "n_used (nodes s ! i)" by auto
    then show ?thesis using set_contents_kept [OF store i] by (simp add: vfs_write_file_def look Some)
  next
    case None
    then have op: "vfs_write_file path bs s = (case create_file path s of (Inl e, s1) \<Rightarrow> (Inl e, s1) | (Inr i, s1) \<Rightarrow> set_contents i bs s1)"
      by (simp add: vfs_write_file_def look)
    show ?thesis
    proof (cases "entry_slot (resolved path) s")
      case (Inl e)
      then show ?thesis by (simp add: op create_file_spec [OF tree fits None])
    next
      case (Inr r)
      obtain nm p i where r: "r = (nm, p, i)" by (cases r)
      from entry_slot_linkable [OF tree g None] Inr r
      obtain q where q: "resolved path = q @ [nm]" and lk: "linkable s q p i nm" by metis
      let ?s = "link_node p i nm False s"
      have op': "vfs_write_file path bs s = set_contents i bs ?s"
        using Inr r by (simp add: op create_file_spec [OF tree fits None])
      have i: "i < length (nodes ?s)" "n_used (nodes ?s ! i)"
        using lk link_node_nth(1,5) [OF lk] by (simp_all add: blank_node_def linkable_def)
      show ?thesis unfolding op'
        by (rule others_kept_trans [OF kept_link [OF lk store] set_contents_kept [OF link_storage(1) [OF lk store] i]])
    qed
  qed
qed

lemma open_node_kept: "others_kept s (snd (open_node flags i s))"
proof -
  let ?u = "if has_flag flags VFS_O_TRUNC \<and> has_flag flags VFS_O_WRITE \<and> \<not> n_is_dir (nodes s ! i) then upd_node i (\<lambda>n. n\<lparr>n_size := 0\<rparr>) s else s"
  have "others_kept s ?u" by (simp add: kept_size)
  then have "others_kept s (?u\<lparr>fds := f\<rparr>)" for f using others_kept_trans [OF _ kept_mem(2)] by blast
  with kept_size show ?thesis by (auto simp: open_node_def Let_def split: option.split)
qed

lemma vfs_open_kept:
  assumes inv: "vfs_inv s" and fits: "path_fits path VFS_PATH_MAX"
  shows "others_kept s (snd (vfs_open path flags s))"
proof -
  have w: "others_kept s t" if "vfs_write_file path [] s = (r, t)" for r t
    using vfs_write_file_kept [OF assms, of "[]"] that by simp
  show ?thesis unfolding vfs_open_node
    using w others_kept_trans [OF _ open_node_kept] open_node_kept by (auto split: option.split sum.split prod.split)
qed

lemma vfs_fd_kept: "others_kept s (snd (vfs_close fd s))" "others_kept s (snd (vfs_read fd n s))"
  by (auto simp: vfs_close_def vfs_read_def Let_def kept_mem)

text \<open>The file the descriptor names has not been freed.\<close>

definition fd_live :: "vfs \<Rightarrow> int \<Rightarrow> bool" where
  "fd_live s fd \<longleftrightarrow> (let i = f_node (fds s ! nat fd) in fd_ok s fd \<longrightarrow> i < length (nodes s) \<and> n_used (nodes s ! i))"

lemma vfs_write_kept:
  assumes inv: "store_inv s" and live: "fd_live s fd"
  shows "others_kept s (snd (vfs_write fd bs s))"
proof (cases "fd_ok s fd")
  case True
  let ?i = "f_node (fds s ! nat fd)"
  have i: "?i < length (nodes s)" "n_used (nodes s ! ?i)" using live True by (simp_all add: fd_live_def Let_def)
  have k: "others_kept s (upd_node ?i (\<lambda>x. x\<lparr>n_size := z\<rparr>) (t\<lparr>vmm := (vmm t)\<lparr>mem := M\<rparr>, fds := f\<rparr>))"
    "others_kept s (t\<lparr>vmm := (vmm t)\<lparr>mem := M\<rparr>, fds := f\<rparr>)" if "grow_node ?i need s = Some t" for t need M f z
  proof -
    have "others_kept s t" by (rule grow_node_kept [OF inv i that])
    then show a: "others_kept s (t\<lparr>vmm := (vmm t)\<lparr>mem := M\<rparr>, fds := f\<rparr>)"
      using others_kept_trans [OF _ others_kept_trans [OF kept_mem(1) kept_mem(2)]] by fastforce
    then show "others_kept s (upd_node ?i (\<lambda>x. x\<lparr>n_size := z\<rparr>) (t\<lparr>vmm := (vmm t)\<lparr>mem := M\<rparr>, fds := f\<rparr>))"
      by (rule others_kept_trans [OF _ kept_size])
  qed
  let ?need = "(f_offset (fds s ! nat fd) + length bs) mod 2 ^ 32"
  show ?thesis
  proof (cases "has_flag (f_flags (fds s ! nat fd)) VFS_O_WRITE \<and> \<not> n_is_dir (nodes s ! ?i) \<and> \<not> VFS_FILE_MAX < ?need")
    case ok: True
    show ?thesis
    proof (cases "grow_node ?i ?need s")
      case None
      with True ok show ?thesis by (simp add: vfs_write_def Let_def)
    next
      case (Some t)
      from k(1) [OF Some] k(2) [OF Some] True ok Some show ?thesis by (simp add: vfs_write_def Let_def)
    qed
  qed (use True in \<open>auto simp: vfs_write_def Let_def\<close>)
qed (simp add: vfs_write_def)

lemma vfs_unlink_kept:
  assumes inv: "vfs_inv s" and fits: "path_fits path VFS_PATH_MAX"
  shows "others_kept s (snd (vfs_unlink path s))"
proof -
  have mminv: "mm_inv (vmm s)" using inv by (simp add: vfs_inv_def store_inv_def)
  have *: "others_kept s (upd_node i (\<lambda>n. n\<lparr>n_used := False\<rparr>)
      (case n_data (nodes s ! i) of None \<Rightarrow> upd_node p (\<lambda>n. n\<lparr>n_children := remove1 i (n_children n)\<rparr>) s
       | Some a \<Rightarrow> (upd_node p (\<lambda>n. n\<lparr>n_children := remove1 i (n_children n)\<rparr>) s)\<lparr>vmm := mm_free_pages a (pages_for (n_cap (nodes s ! i))) (vmm s)\<rparr>))"
    if i: "i < length (nodes s)" "n_used (nodes s ! i)" for i p
  proof (rule others_keptI)
    let ?t = "upd_node i (\<lambda>n. n\<lparr>n_used := False\<rparr>)
      (case n_data (nodes s ! i) of None \<Rightarrow> upd_node p (\<lambda>n. n\<lparr>n_children := remove1 i (n_children n)\<rparr>) s
       | Some a \<Rightarrow> (upd_node p (\<lambda>n. n\<lparr>n_children := remove1 i (n_children n)\<rparr>) s)\<lparr>vmm := mm_free_pages a (pages_for (n_cap (nodes s ! i))) (vmm s)\<rparr>)"
    have ok: "store_ok (nodes s ! i)" using inv i by (simp add: vfs_inv_def store_inv_def)
    have o: "owned (upd_node p (\<lambda>n. n\<lparr>n_children := remove1 i (n_children n)\<rparr>) s) j = owned s j" for j
      by (auto simp: owned_def nth_list_update_if)
    show "owned ?t j \<subseteq> owned s j \<union> - used_pages (vmm s)" for j
      by (cases "n_data (nodes s ! i)") (auto simp: owned_def nth_list_update_if split: if_splits)
    show "used_pages (vmm s) - stored s \<subseteq> used_pages (vmm ?t)"
    proof (cases "n_data (nodes s ! i)")
      case (Some a)
      with ok have a: "a = page_addr (page_index a)" "page_index a < PAGE_COUNT" "pages_for (n_cap (nodes s ! i)) = n_cap (nodes s ! i) div PAGE_SIZE"
        by (auto simp: store_ok_def PAGE_SIZE_def pages_for_mult)
      have "used_pages (mm_free_pages a (pages_for (n_cap (nodes s ! i))) (vmm s)) = used_pages (vmm s) - owned s i"
        using mm_free_used [OF mminv a(2), of "pages_for (n_cap (nodes s ! i))"] a i Some by (simp add: owned_def node_pages_def)
      then show ?thesis using Some by (auto simp: stored_def)
    qed simp
  qed
  show ?thesis
  proof (cases "vfs_lookup path s")
    case None
    then show ?thesis by (simp add: vfs_unlink_def)
  next
    case (Some i)
    then have "walk s root (resolved path) = Some i" by (simp add: vfs_lookup_walk [OF fits])
    with walk_used [OF _ this fits_good [OF fits]] inv have "i < length (nodes s)" "n_used (nodes s ! i)" by (auto simp: vfs_inv_def)
    with * [of i] Some show ?thesis
      by (auto simp: vfs_unlink_def Let_def split: option.split)
  qed
qed

section \<open>Windows leave the pages of others alone\<close>

definition win_held :: "display \<Rightarrow> nat set" where
  "win_held d = (\<Union>i. win_owner d i)"

definition others_kept_win :: "display \<times> mm \<Rightarrow> display \<times> mm \<Rightarrow> bool" where
  "others_kept_win a b \<longleftrightarrow> used_pages (snd a) - win_held (fst a) \<subseteq> used_pages (snd b) - win_held (fst b)"

lemma others_kept_win_refl [simp]: "others_kept_win a a"
  by (simp add: others_kept_win_def)

lemma others_kept_win_trans: "others_kept_win a b \<Longrightarrow> others_kept_win b c \<Longrightarrow> others_kept_win a c"
  by (auto simp: others_kept_win_def)

lemma others_kept_winI:
  assumes "\<And>j. win_owner d' j \<subseteq> win_owner d j \<union> - used_pages m" and "used_pages m - win_held d \<subseteq> used_pages m'"
  shows "others_kept_win (d, m) (d', m')"
proof -
  have "win_held d' \<subseteq> win_held d \<union> - used_pages m" using assms(1) by (fastforce simp: win_held_def)
  with assms(2) show ?thesis by (auto simp: others_kept_win_def)
qed

lemma kept_win_same: "win_owner d' = win_owner d \<Longrightarrow> others_kept_win (d, m) (d', m)"
  by (rule others_kept_winI) auto

lemma kept_win_place: "same_place (gwins d ! i) g \<Longrightarrow> others_kept_win (d, m) (set_win i g d, m)"
  by (intro kept_win_same win_owner_same_place)

lemma kept_win_drop:
  assumes inv: "disp_inv (d, m)" and i: "i < length (gwins d)" "gw_used (gwins d ! i)"
  shows "others_kept_win (d, m) (set_win i blank_win d, free_pixels (gwins d ! i) m)"
proof (rule others_kept_winI)
  have "win_owner (set_win i blank_win d) = (win_owner d)(i := {})"
    using i by (simp add: win_owner_set) (simp add: win_pages_def blank_win_def)
  then show "win_owner (set_win i blank_win d) j \<subseteq> win_owner d j \<union> - used_pages m" for j by simp
  show "used_pages m - win_held d \<subseteq> used_pages (free_pixels (gwins d ! i) m)"
    using free_pixels_used(1) [OF inv i] by (auto simp: win_held_def)
qed

lemma kept_destroy_pid:
  assumes "disp_inv dm"
  shows "others_kept_win dm (display_destroy_pid p dm)"
proof -
  have "disp_inv dm \<Longrightarrow> set is \<subseteq> {..<GUI_WIN_MAX} \<Longrightarrow> others_kept_win dm (destroy_pid_loop p is dm)" for "is"
  proof (induction "is" arbitrary: dm)
    case (Cons i "is")
    obtain d m where dm: "dm = (d, m)" by fastforce
    have i: "i < length (gwins d)" using Cons.prems by (simp add: dm disp_inv_def wins_ok_def)
    let ?d = "(set_win i blank_win d, free_pixels (gwins d ! i) m)"
    show ?case
    proof (cases "gw_used (gwins d ! i) \<and> client_pid (gwins d ! i) = p")
      case True
      note k = kept_win_drop [OF Cons.prems(1) [unfolded dm] i] drop_window [OF Cons.prems(1) [unfolded dm] i]
      have "others_kept_win dm ?d" "disp_inv ?d" using k True by (auto simp: dm)
      with Cons.IH [of ?d] Cons.prems(2) others_kept_win_trans [of dm ?d] True show ?thesis by (simp add: dm Let_def)
    next
      case False
      with Cons show ?thesis by (auto simp: dm Let_def)
    qed
  qed simp
  with assms show ?thesis by (simp add: display_destroy_pid_def subset_eq)
qed

lemma kept_win_fresh:
  assumes mm: "mm_inv m" "mm_alloc_pages n m = (Some p, m')" and g: "gw_pixels g = p" "gw_pages g = n"
    and i: "i < length (gwins d)" and d': "win_owner d' = win_owner (set_win i g d)"
    and m'': "used_pages m' - win_owner d i \<subseteq> used_pages m''"
  shows "others_kept_win (d, m) (d', m'')"
proof (rule others_kept_winI)
  obtain k where k: "p = page_addr k" "0 < n" "k + n \<le> PAGE_COUNT" "{k..<k + n} \<inter> used_pages m = {}" "used_pages m' = used_pages m \<union> {k..<k + n}"
    using kpages.alloc_some [OF mm] by auto
  have "win_page g = k" using k(1-3) g(1) by (simp add: win_page_def page_addr_index)
  then have "win_pages g \<subseteq> {k..<k + n}" using g(2) by (simp add: win_pages_def)
  then show "win_owner d' j \<subseteq> win_owner d j \<union> - used_pages m" for j
    unfolding d' win_owner_set [OF i] using k(4) by auto
  show "used_pages m - win_held d \<subseteq> used_pages m''" using m'' k(5) by (auto simp: win_held_def)
qed

lemma kept_win_create:
  assumes inv: "disp_inv (d, m)"
  shows "others_kept_win (d, m) (snd (display_create cur w h title (d, m)))"
proof (cases "cur = None \<or> server_pid d = 0 \<or> bad_size w h \<or> first_from (\<lambda>g. \<not> gw_used g) (gwins d) 0 = None")
  case True
  then show ?thesis by (auto simp: display_create_def split: option.splits)
next
  case False
  then obtain c i where c: "cur = Some c" "server_pid d \<noteq> 0" "\<not> bad_size w h"
    and i: "first_from (\<lambda>g. \<not> gw_used g) (gwins d) 0 = Some i" by auto
  have ok: "mm_inv m" using inv by (simp add: disp_inv_def)
  have i': "i < length (gwins d)" "\<not> gw_used (gwins d ! i)" using first_from_Some [OF i] by auto
  obtain po m' where al: "mm_alloc_pages (pages_of w h) m = (po, m')" by fastforce
  show ?thesis
  proof (cases po)
    case None
    have m': "m' = m" using al mm_alloc_None None by blast
    have "win_owner (set_win i ((gwins d ! i)\<lparr>gw_pixels := 0\<rparr>) d) = win_owner d"
      using i' by (simp add: win_owner_set) (auto simp: win_pages_def fun_eq_iff win_owner_def)
    then show ?thesis using c i al None m' kept_win_same by (simp add: display_create_def)
  next
    case (Some p)
    define g where "g = (gwins d ! i)\<lparr>gw_pixels := p, gw_used := True, gw_id := next_id d, client_pid := pid c,
        gw_w := w, gw_h := h, gw_pages := pages_of w h, gw_damage := True, gw_mapped := False,
        gw_flags := 0, ev_r := 0, ev_w := 0,
        gw_title := (case title of Some t \<Rightarrow> if cget t 0 \<noteq> NUL then strncpy_val t GUI_TITLE_MAX else ''window''
                     | None \<Rightarrow> ''window'')\<rparr>"
    have res: "snd (display_create cur w h title (d, m)) =
        ((set_win i g d)\<lparr>next_id := next_id d + 1\<rparr>, m'\<lparr>mem := kmemset (mem m') p 0 (pages_of w h * PAGE_SIZE)\<rparr>)"
      using c i al Some by (simp add: display_create_def g_def Let_def)
    show ?thesis unfolding res
      by (rule kept_win_fresh [OF ok al [unfolded Some] _ _ i'(1), of g]) (auto simp: g_def)
  qed
qed

lemma kept_win_events:
  assumes "disp_inv (d, m)"
  shows "others_kept_win (d, m) (snd (display_post_event cur wid ty key x y b d), m)"
    and "others_kept_win (d, m) (snd (display_poll_event cur wid d), m)"
  using disp_inv_window [OF assms, of wid]
  by (auto simp: display_post_event_def display_poll_event_def split_beta split: option.splits
      intro!: kept_win_place post_to_refines(3) take_evt_refines(4))

lemma kept_win_resize:
  assumes inv: "disp_inv (d, m)"
  shows "others_kept_win (d, m) (snd (display_resize cur wid w h (d, m)))"
proof (cases "win_by_id d wid")
  case None
  then show ?thesis by (simp add: display_resize_def)
next
  case (Some i)
  let ?g = "gwins d ! i"
  note wd = disp_inv_window [OF inv Some]
  have i: "i < length (gwins d)" using wd inv by (simp add: disp_inv_def wins_ok_def)
  have ok: "mm_inv m" using inv by (simp add: disp_inv_def)
  have "others_kept_win (d, m) (snd (display_post_event cur wid INP_RESIZE 0 w h 0 (set_win i (resized ?g npix w h) d)),
      free_pixels ?g (m'\<lparr>mem := f\<rparr>))"
    if al: "mm_alloc_pages (pages_of w h) m = (Some npix, m')" and sz: "\<not> bad_size w h" for npix m' f
  proof -
    let ?a = "(set_win i (resized ?g npix w h) d, free_pixels ?g (m'\<lparr>mem := f\<rparr>))"
    have m': "mm_inv m'" using mm_inv_alloc [OF ok, of "pages_of w h"] al by simp
    have old: "win_ok ?g" using disp_invD(1) [OF inv wd(1)] .
    have pix: "gw_pixels ?g = page_addr (win_page ?g)" using old wd(3) by (simp add: win_ok_def)
    have "used_pages (free_pixels ?g m') = used_pages m' - win_owner d i"
      using mm_free_used [OF m', of "win_page ?g" "gw_pages ?g"] win_page_range [OF old wd(3)] i wd(3)
      by (simp add: free_pixels_def win_owner_def win_pages_def pix [symmetric])
    then have "others_kept_win (d, m) ?a"
      by (intro kept_win_fresh [OF ok al _ _ i, of "resized ?g npix w h"]) (auto simp: resized_def free_pixels_mem)
    moreover have "disp_inv ?a" by (rule resize_window(1) [OF inv Some sz al])
    ultimately show ?thesis using others_kept_win_trans kept_win_events(1) by blast
  qed
  with display_resize_cases [OF Some, of cur w h m] show ?thesis by auto
qed

lemma kept_win_call:
  assumes inv: "disp_inv dm"
  shows "others_kept_win dm (gui_call cur r dm)"
proof -
  obtain d m where dm: "dm = (d, m)" by fastforce
  have destroy: "others_kept_win (d, m) (snd (display_destroy cur wid (d, m)))" for wid
  proof (cases "win_by_id d wid")
    case (Some i)
    note w = disp_inv_window [OF inv [unfolded dm] Some]
    have "i < length (gwins d)" using w inv by (simp add: dm disp_inv_def wins_ok_def)
    from kept_win_drop [OF inv [unfolded dm] this w(3)] show ?thesis by (simp add: display_destroy_def Some)
  qed (simp add: display_destroy_def)
  show ?thesis
    using kept_win_events [OF inv [unfolded dm]] kept_win_resize [OF inv [unfolded dm]] kept_win_create [OF inv [unfolded dm]] destroy
    by (cases r) (auto simp: dm display_server_set_def display_set_flags_def display_set_title_def display_ack_map_def
        display_ack_damage_def display_request_launch_def display_take_launch_def Let_def
        split: option.splits intro!: kept_win_same win_owner_same_place)
qed

end
