(* ===== verification/Swap.thy ===== *)
theory Swap
  imports SchedSpec VfsSpec
begin

text \<open>
  Images that take turns in one address range (\<^verbatim>\<open>proc_evict_range\<close> and \<^verbatim>\<open>proc_ensure_resident\<close> of
  \<^verbatim>\<open>kernel/proc/proc.c\<close>): what a swap writes, and that an image which has been copied out and back in
  is the image it was.
\<close>

section \<open>What a swap writes\<close>

lemma kmemcpy_other: "n \<le> 2 ^ 32 \<Longrightarrow> \<not> in_region d n x \<Longrightarrow> kmemcpy m d s n x = m x"
proof (induction n arbitrary: m d s)
  case (Suc n)
  then have "x \<noteq> d" "\<not> in_region (d + 1) n x" using in_region_Suc [of n d x] by auto
  with Suc.IH [of "d + 1"] Suc.prems(1) show ?case by simp
qed simp

text \<open>Memory outside the heap's free pages.\<close>

definition held :: "mm \<Rightarrow> u32 \<Rightarrow> bool" where
  "held m x \<longleftrightarrow> \<not> in_pages ({..<PAGE_COUNT} - used_pages m) x"

text \<open>What an operation that only takes pages keeps.\<close>

definition only_takes :: "kern \<Rightarrow> kern \<Rightarrow> bool" where
  "only_takes k k' \<longleftrightarrow> mm_inv (kmm k') \<and> used_pages (kmm k) \<subseteq> used_pages (kmm k') \<and>
     (\<forall>x. held (kmm k) x \<longrightarrow> mem (kmm k') x = mem (kmm k) x) \<and> length (procs k') = length (procs k)"

lemma held_mono: "used_pages m \<subseteq> used_pages m' \<Longrightarrow> held m x \<Longrightarrow> held m' x"
  by (auto simp: held_def in_pages_def)

lemma only_takes_refl: "mm_inv (kmm k) \<Longrightarrow> only_takes k k"
  by (simp add: only_takes_def)

lemma only_takes_trans: "only_takes k k' \<Longrightarrow> only_takes k' k'' \<Longrightarrow> only_takes k k''"
  unfolding only_takes_def using held_mono by (auto 0 4)

lemma image_bytes_pages: "image_pages q \<le> PAGE_COUNT \<Longrightarrow> image_bytes q = image_pages q * PAGE_SIZE"
  by (simp add: image_bytes_def PAGE_COUNT_val PAGE_SIZE_def)

lemma swap_out_cases:
  assumes inv: "mm_inv (kmm k)" and sw: "swap_out i k = (ok, k')"
  obtains (failed) "\<not> ok" "k' = upd_proc i (\<lambda>q. q\<lparr>image_shadow := 0\<rparr>) k"
  | (saved) j where "ok" "0 < image_pages (procs k ! i)" "j + image_pages (procs k ! i) \<le> PAGE_COUNT"
      "{j..<j + image_pages (procs k ! i)} \<inter> used_pages (kmm k) = {}"
      "used_pages (kmm k') = used_pages (kmm k) \<union> {j..<j + image_pages (procs k ! i)}" "mm_inv (kmm k')"
      "procs k' = (procs k)[i := (procs k ! i)\<lparr>image_shadow := page_addr j, image_evicted := True\<rparr>]"
      "mem (kmm k') = kmemcpy (mem (kmm k)) (page_addr j) (image (procs k ! i)) (image_pages (procs k ! i) * PAGE_SIZE)"
proof (cases "mm_alloc_pages (image_pages (procs k ! i)) (kmm k)")
  case (Pair r m)
  show ?thesis
  proof (cases r)
    case None
    then have "m = kmm k" using mm_alloc_None Pair by blast
    then have "set_kmm m k = k" by simp
    with None Pair sw have "\<not> ok" "k' = upd_proc i (\<lambda>q. q\<lparr>image_shadow := 0\<rparr>) k" by (simp_all add: swap_out_def Let_def)
    then show ?thesis by (rule failed)
  next
    case (Some s)
    note al = Pair [unfolded Some]
    obtain j where j: "s = page_addr j" "0 < image_pages (procs k ! i)" "j + image_pages (procs k ! i) \<le> PAGE_COUNT"
      "{j..<j + image_pages (procs k ! i)} \<inter> used_pages (kmm k) = {}"
      "used_pages m = used_pages (kmm k) \<union> {j..<j + image_pages (procs k ! i)}"
      using kpages.alloc_some [OF inv al] by auto
    have "mem m = mem (kmm k)" "mm_inv m" using al mm_alloc_frame(1) mm_inv_alloc [OF inv] by (metis snd_conv)+
    with j sw Some Pair show ?thesis
      using image_bytes_pages [of "procs k ! i"] by (intro saved [of j]) (auto simp: swap_out_def Let_def)
  qed
qed

lemma swap_out_takes:
  assumes inv: "mm_inv (kmm k)" and sw: "swap_out i k = (ok, k')"
  shows "only_takes k k'"
proof (rule swap_out_cases [OF assms])
  assume "k' = upd_proc i (\<lambda>q. q\<lparr>image_shadow := 0\<rparr>) k"
  then show ?thesis using inv by (simp add: only_takes_def)
next
  fix j assume j: "j + image_pages (procs k ! i) \<le> PAGE_COUNT" "{j..<j + image_pages (procs k ! i)} \<inter> used_pages (kmm k) = {}"
    "used_pages (kmm k') = used_pages (kmm k) \<union> {j..<j + image_pages (procs k ! i)}" "mm_inv (kmm k')"
    "procs k' = (procs k)[i := (procs k ! i)\<lparr>image_shadow := page_addr j, image_evicted := True\<rparr>]"
    "mem (kmm k') = kmemcpy (mem (kmm k)) (page_addr j) (image (procs k ! i)) (image_pages (procs k ! i) * PAGE_SIZE)"
  let ?n = "image_pages (procs k ! i)"
  have b: "?n * PAGE_SIZE \<le> 2 ^ 32" using j(1) by (simp add: PAGE_COUNT_val PAGE_SIZE_def)
  have "mem (kmm k') x = mem (kmm k) x" if "held (kmm k) x" for x
  proof -
    have "\<not> in_pages {j..<j + ?n} x" using that j(1,2) by (auto simp: held_def in_pages_def)
    then have "\<not> in_region (page_addr j) (?n * PAGE_SIZE) x" using in_region_in_pages [OF j(1)] by simp
    then show ?thesis using kmemcpy_other [OF b] j(6) by simp
  qed
  then show ?thesis using j by (simp add: only_takes_def)
qed

lemma swap_out_procs: "swap_out i k = (ok, k') \<Longrightarrow> j \<noteq> i \<Longrightarrow> procs k' ! j = procs k ! j"
  by (auto simp: swap_out_def Let_def split: option.splits prod.splits)

lemma displace_takes:
  "displace_loop p is k = (ok, k') \<Longrightarrow> mm_inv (kmm k) \<Longrightarrow> only_takes k k' \<and> procs k' ! p = procs k ! p"
proof (induction "is" arbitrary: k ok k')
  case Nil
  then show ?case by (simp add: only_takes_refl)
next
  case (Cons i "is")
  obtain b k1 where sw: "swap_out i k = (b, k1)" by fastforce
  note t = swap_out_takes [OF Cons.prems(2) sw]
  have i1: "mm_inv (kmm k1)" using t by (simp add: only_takes_def)
  show ?case
  proof (cases "displace_loop p (i # is) k = displace_loop p is k")
    case True
    with Cons.prems have "displace_loop p is k = (ok, k')" by metis
    with Cons.IH Cons.prems(2) show ?thesis by blast
  next
    case False
    then have ip: "i \<noteq> p" and d: "displace_loop p (i # is) k = (if b then displace_loop p is k1 else (False, k1))"
      using sw by (auto simp: Let_def split: if_splits)
    have same: "procs k1 ! p = procs k ! p" using swap_out_procs [OF sw] ip by simp
    show ?thesis
    proof (cases b)
      case True
      with d Cons.prems(1) Cons.IH [of k1 ok k'] i1 have "only_takes k1 k' \<and> procs k' ! p = procs k1 ! p" by simp
      with t same show ?thesis by (auto intro: only_takes_trans)
    next
      case False
      with d Cons.prems(1) t same show ?thesis by simp
    qed
  qed
qed

section \<open>Round trip\<close>

text \<open>An image that lies above the heap and does not wrap around.\<close>

definition image_placed :: "proc \<Rightarrow> bool" where
  "image_placed q \<longleftrightarrow> image q \<noteq> 0 \<and> HEAP_END \<le> image q \<and> unat (image q) + image_pages q * PAGE_SIZE \<le> 2 ^ 32"

lemma image_in_region:
  assumes "image_placed q"
  shows "in_region (image q) (image_pages q * PAGE_SIZE) x \<longleftrightarrow>
    unat (image q) \<le> unat x \<and> unat x < unat (image q) + image_pages q * PAGE_SIZE"
proof (cases "image q \<le> x")
  case True
  then show ?thesis by (auto simp: in_region_def unat_sub word_le_nat_alt)
next
  case False
  then have lt: "unat x < unat (image q)" by (simp add: word_le_nat_alt)
  then have "unat (x - image q) = 2 ^ 32 + unat x - unat (image q)"
    by (simp add: unat_sub_if_size word_size word_le_nat_alt)
  with lt assms show ?thesis by (auto simp: in_region_def image_placed_def)
qed

lemma image_apart_heap:
  assumes "image_placed q" and "j + n \<le> PAGE_COUNT"
  shows "disjoint_regions (image q) (image_pages q * PAGE_SIZE) (page_addr j) (n * PAGE_SIZE)"
proof -
  have "unat KERNEL_HEAP_START + (j + n) * PAGE_SIZE \<le> unat HEAP_END"
    using assms(2) by (simp add: KERNEL_HEAP_START_def HEAP_END_def PAGE_COUNT_val PAGE_SIZE_def)
  moreover have "unat HEAP_END \<le> unat (image q)" using assms(1) by (simp add: image_placed_def word_le_nat_alt)
  ultimately show ?thesis
    unfolding disjoint_regions_def image_in_region [OF assms(1)] in_region_pages [OF assms(2)] by auto
qed

lemma copy_apart:
  assumes "disjoint_regions s n d n" and "n \<le> 2 ^ 32"
  shows "kmemcpy m d s n = mem_store m d (mem_load m s n)"
proof (rule kmemcpy_load_store [OF assms(2)])
  fix i j :: nat assume ij: "i < j" "j < n"
  then have "in_region d n (d + of_nat i)" "in_region s n (s + of_nat j)" using in_region_offset assms(2) by auto
  then show "d + of_nat i \<noteq> s + of_nat j" using assms(1) by (auto simp: disjoint_regions_def)
qed

lemma disjoint_regions_sym: "disjoint_regions a n b k \<Longrightarrow> disjoint_regions b k a n"
  by (auto simp: disjoint_regions_def)

text \<open>An evicted image: its bytes are in the pages of its shadow.\<close>

definition shadow_holds :: "u8 list \<Rightarrow> nat \<Rightarrow> kern \<Rightarrow> bool" where
  "shadow_holds bs i k \<longleftrightarrow> (let q = procs k ! i in image_evicted q \<and> (\<exists>j. image_shadow q = page_addr j \<and> 0 < image_pages q \<and>
     j + image_pages q \<le> PAGE_COUNT \<and> {j..<j + image_pages q} \<subseteq> used_pages (kmm k) \<and>
     mem_load (mem (kmm k)) (page_addr j) (image_pages q * PAGE_SIZE) = bs))"

lemma swap_out_saves:
  assumes inv: "mm_inv (kmm k)" and pl: "image_placed (procs k ! i)" and i: "i < length (procs k)"
    and sw: "swap_out i k = (True, k')"
  shows "shadow_holds (mem_load (mem (kmm k)) (image (procs k ! i)) (image_pages (procs k ! i) * PAGE_SIZE)) i k'"
proof (rule swap_out_cases [OF inv sw])
  fix j assume j: "0 < image_pages (procs k ! i)" "j + image_pages (procs k ! i) \<le> PAGE_COUNT"
    "used_pages (kmm k') = used_pages (kmm k) \<union> {j..<j + image_pages (procs k ! i)}"
    "procs k' = (procs k)[i := (procs k ! i)\<lparr>image_shadow := page_addr j, image_evicted := True\<rparr>]"
    "mem (kmm k') = kmemcpy (mem (kmm k)) (page_addr j) (image (procs k ! i)) (image_pages (procs k ! i) * PAGE_SIZE)"
  have b: "image_pages (procs k ! i) * PAGE_SIZE \<le> 2 ^ 32" using j(2) by (simp add: PAGE_COUNT_val PAGE_SIZE_def)
  have ld: "mem_load (mem (kmm k')) (page_addr j) (image_pages (procs k ! i) * PAGE_SIZE) =
      mem_load (mem (kmm k)) (image (procs k ! i)) (image_pages (procs k ! i) * PAGE_SIZE)"
    unfolding j(5) copy_apart [OF image_apart_heap [OF pl j(2)] b]
    using mem_load_store [of "mem_load (mem (kmm k)) (image (procs k ! i)) (image_pages (procs k ! i) * PAGE_SIZE)"] b by simp
  have q: "procs k' ! i = (procs k ! i)\<lparr>image_shadow := page_addr j, image_evicted := True\<rparr>" using j(4) i by simp
  show ?thesis unfolding shadow_holds_def Let_def q using j(1-3) ld by auto
qed simp

lemma shadow_kept:
  assumes sh: "shadow_holds bs i k" and t: "only_takes k k'" and same: "procs k' ! i = procs k ! i"
  shows "shadow_holds bs i k'"
proof -
  obtain j where j: "image_shadow (procs k ! i) = page_addr j" "0 < image_pages (procs k ! i)" "image_evicted (procs k ! i)"
     "j + image_pages (procs k ! i) \<le> PAGE_COUNT" "{j..<j + image_pages (procs k ! i)} \<subseteq> used_pages (kmm k)"
     "mem_load (mem (kmm k)) (page_addr j) (image_pages (procs k ! i) * PAGE_SIZE) = bs"
    using sh by (auto simp: shadow_holds_def Let_def)
  have b: "image_pages (procs k ! i) * PAGE_SIZE \<le> 2 ^ 32" using j(4) by (simp add: PAGE_COUNT_val PAGE_SIZE_def)
  have "held (kmm k) x" if "in_region (page_addr j) (image_pages (procs k ! i) * PAGE_SIZE) x" for x
    using that j(5) in_region_in_pages [OF j(4)] by (auto simp: held_def in_pages_def)
  then have "mem_load (mem (kmm k')) (page_addr j) (image_pages (procs k ! i) * PAGE_SIZE) = bs"
    using mem_load_frame [OF _ b, of "page_addr j" "mem (kmm k')" "mem (kmm k)"] t j(6) by (simp add: only_takes_def)
  then show ?thesis using j t by (auto simp: shadow_holds_def Let_def same only_takes_def)
qed

lemma ensure_resident_restores:
  assumes inv: "mm_inv (kmm k)" and pl: "image_placed (procs k ! i)" and i: "i < length (procs k)"
    and sh: "shadow_holds bs i k" and res: "\<not> image_evicted (procs (proc_ensure_resident (Some i) k) ! i)"
  shows "mem_load (mem (kmm (proc_ensure_resident (Some i) k))) (image (procs k ! i)) (image_pages (procs k ! i) * PAGE_SIZE) = bs"
    and "image_shadow (procs (proc_ensure_resident (Some i) k) ! i) = 0"
proof -
  let ?q = "procs k ! i" let ?n = "image_pages ?q"
  obtain ok k1 where d: "displace_loop i [0..<PROC_MAX] k = (ok, k1)" by fastforce
  note t = displace_takes [OF d inv]
  then have q1: "procs k1 ! i = ?q" and l1: "i < length (procs k1)" and i1: "mm_inv (kmm k1)" using i by (auto simp: only_takes_def)
  have sh1: "shadow_holds bs i k1" using shadow_kept [OF sh] t by blast
  obtain j where j: "image_shadow ?q = page_addr j" "0 < ?n" "image_evicted ?q" "j + ?n \<le> PAGE_COUNT"
     "mem_load (mem (kmm k1)) (page_addr j) (?n * PAGE_SIZE) = bs"
    using sh1 by (auto simp: shadow_holds_def Let_def q1)
  have jc: "j < PAGE_COUNT" using j(2,4) by simp
  have b: "?n * PAGE_SIZE \<le> 2 ^ 32" using j(4) by (simp add: PAGE_COUNT_val PAGE_SIZE_def)
  have s0: "image_shadow ?q \<noteq> 0" using j(1) page_addr_range [OF jc] by (auto simp: KERNEL_HEAP_START_def)
  let ?m = "kmemcpy (mem (kmm k1)) (image ?q) (page_addr j) (?n * PAGE_SIZE)"
  have e: "proc_ensure_resident (Some i) k =
     (if \<not> ok then k1 else upd_proc i (\<lambda>q. q\<lparr>image_shadow := 0, image_evicted := False\<rparr>)
        (set_kmm (mm_free_pages (page_addr j) ?n ((kmm k1)\<lparr>mem := ?m\<rparr>)) k1))"
    using s0 j(2,3) pl by (simp add: proc_ensure_resident_def Let_def d q1 j(1) image_bytes_pages [of ?q] j(4) order_trans [OF le_add2 j(4)] image_placed_def)
  have ok: "ok" using res e j(3) q1 by (cases ok) simp_all
  have ap: "disjoint_regions (page_addr j) (?n * PAGE_SIZE) (image ?q) (?n * PAGE_SIZE)"
    by (rule disjoint_regions_sym [OF image_apart_heap [OF pl j(4)]])
  have m: "?m = mem_store (mem (kmm k1)) (image ?q) bs" using copy_apart [OF ap b] j(5) by simp
  have lb: "length bs = ?n * PAGE_SIZE" using j(5) by auto
  have "mem_load (mem (mm_free_pages (page_addr j) ?n ((kmm k1)\<lparr>mem := ?m\<rparr>))) (image ?q) (?n * PAGE_SIZE) =
      mem_load ?m (image ?q) (?n * PAGE_SIZE)"
    using ap by (intro mem_load_frame [OF _ b]) (auto simp: mm_free_mem [OF j(4) jc] disjoint_regions_def)
  also have "\<dots> = bs" unfolding m using mem_load_store [of bs] lb b by simp
  finally show "mem_load (mem (kmm (proc_ensure_resident (Some i) k))) (image ?q) (?n * PAGE_SIZE) = bs" using ok by (simp add: e)
  show "image_shadow (procs (proc_ensure_resident (Some i) k) ! i) = 0" using ok l1 by (simp add: e)
qed

lemma only_takes_above:
  assumes "only_takes k k'" and "HEAP_END \<le> x"
  shows "mem (kmm k') x = mem (kmm k) x"
proof -
  have "PAGE_COUNT \<le> (unat x - unat KERNEL_HEAP_START) div PAGE_SIZE"
    using assms(2) by (auto simp: word_le_nat_alt HEAP_END_def KERNEL_HEAP_START_def PAGE_COUNT_val PAGE_SIZE_def intro: div_le_mono [of "12582912" _ 4096, simplified])
  then have "held (kmm k) x" by (auto simp: held_def in_pages_def)
  with assms(1) show ?thesis by (simp add: only_takes_def)
qed

lemma image_kept:
  assumes "only_takes k k'" and "image_placed q"
  shows "mem_load (mem (kmm k')) (image q) (image_pages q * PAGE_SIZE) = mem_load (mem (kmm k)) (image q) (image_pages q * PAGE_SIZE)"
proof (rule mem_load_frame)
  fix x assume "in_region (image q) (image_pages q * PAGE_SIZE) x"
  then have "unat HEAP_END \<le> unat x" using assms(2) by (auto simp: image_in_region [OF assms(2)] image_placed_def word_le_nat_alt)
  then show "mem (kmm k') x = mem (kmm k) x" by (intro only_takes_above [OF assms(1)]) (simp add: word_le_nat_alt)
qed (use assms(2) in \<open>simp add: image_placed_def\<close>)

text \<open>A process whose image is in the way of the range \<open>[lo, hi)\<close>.\<close>

definition in_the_way :: "u32 \<Rightarrow> u32 \<Rightarrow> proc \<Rightarrow> bool" where
  "in_the_way lo hi q \<longleftrightarrow> used q \<and> image q \<noteq> 0 \<and> image_pages q \<noteq> 0 \<and> \<not> image_evicted q \<and> state q \<noteq> PROC_ZOMBIE \<and> \<not> apart lo hi q"

lemma evict_loop_step: "evict_loop lo hi (i # is) k =
    (if in_the_way lo hi (procs k ! i) then (if fst (swap_out i k) then evict_loop lo hi is (snd (swap_out i k)) else (False, snd (swap_out i k)))
     else evict_loop lo hi is k)"
  by (auto simp: in_the_way_def Let_def split_beta)

declare evict_loop.simps(2) [simp del]

lemma evict_takes: "mm_inv (kmm k) \<Longrightarrow> only_takes k (snd (evict_loop lo hi is k)) \<and>
    (\<forall>j. j \<notin> set is \<longrightarrow> procs (snd (evict_loop lo hi is k)) ! j = procs k ! j)"
proof (induction "is" arbitrary: k)
  case Nil
  then show ?case by (simp add: only_takes_refl)
next
  case (Cons i "is")
  obtain b k1 where sw: "swap_out i k = (b, k1)" by fastforce
  note t = swap_out_takes [OF Cons.prems sw]
  have i1: "mm_inv (kmm k1)" using t by (simp add: only_takes_def)
  note same = swap_out_procs [OF sw]
  show ?case using Cons.IH [OF Cons.prems] Cons.IH [OF i1] t same
    by (auto simp: evict_loop_step sw intro: only_takes_trans)
qed

lemma evict_saves:
  assumes "mm_inv (kmm k)" and "distinct is" and "i \<in> set is" and "in_the_way lo hi (procs k ! i)" and "image_placed (procs k ! i)"
    and "i < length (procs k)" and "evict_loop lo hi is k = (True, k')"
  shows "shadow_holds (mem_load (mem (kmm k)) (image (procs k ! i)) (image_pages (procs k ! i) * PAGE_SIZE)) i k'"
  using assms
proof (induction "is" arbitrary: k)
  case (Cons j "is")
  obtain b k1 where sw: "swap_out j k = (b, k1)" by fastforce
  note t = swap_out_takes [OF Cons.prems(1) sw]
  have i1: "mm_inv (kmm k1)" using t by (simp add: only_takes_def)
  show ?case
  proof (cases "j = i")
    case True
    then have b: "b" "evict_loop lo hi is k1 = (True, k')" and ni: "i \<notin> set is"
      using Cons.prems sw True by (auto simp: evict_loop_step split: if_splits)
    note e = evict_takes [OF i1, of lo hi "is", unfolded b(2) snd_conv]
    have "shadow_holds (mem_load (mem (kmm k)) (image (procs k ! i)) (image_pages (procs k ! i) * PAGE_SIZE)) i k1"
      using swap_out_saves [OF Cons.prems(1,5,6), of k1] sw b(1) True by simp
    then show ?thesis using shadow_kept e ni by blast
  next
    case False
    then have ii: "i \<in> set is" "distinct is" using Cons.prems by auto
    show ?thesis
    proof (cases "in_the_way lo hi (procs k ! j)")
      case True
      then have b: "evict_loop lo hi is k1 = (True, k')" using Cons.prems(7) by (auto simp: evict_loop_step sw split: if_splits)
      have q: "procs k1 ! i = procs k ! i" using swap_out_procs [OF sw] False by simp
      have "i < length (procs k1)" using t Cons.prems(6) by (simp add: only_takes_def)
      from Cons.IH [OF i1 ii(2,1) _ _ this b] Cons.prems(4,5) show ?thesis using image_kept [OF t Cons.prems(5)] by (simp add: q)
    next
      case no: False
      with Cons.prems(7) have "evict_loop lo hi is k = (True, k')" by (simp add: evict_loop_step)
      with Cons.IH [OF Cons.prems(1) ii(2,1) Cons.prems(4-6)] show ?thesis by blast
    qed
  qed
qed simp

lemma evict_same_image: "image (procs (snd (evict_loop lo hi is k)) ! i) = image (procs k ! i) \<and>
    image_pages (procs (snd (evict_loop lo hi is k)) ! i) = image_pages (procs k ! i)"
proof (induction "is" arbitrary: k)
  case (Cons j "is")
  have "image (procs (snd (swap_out j k)) ! i) = image (procs k ! i) \<and> image_pages (procs (snd (swap_out j k)) ! i) = image_pages (procs k ! i)"
    by (cases "i = j"; cases "j < length (procs k)") (auto simp: swap_out_def Let_def list_update_beyond split: option.splits prod.splits)
  with Cons.IH [of k] Cons.IH [of "snd (swap_out j k)"] show ?case by (simp add: evict_loop_step)
qed simp

text \<open>
  Property C24. Swapping is transparent: when \<open>proc_evict_range\<close> makes room for another program, then
  whatever that program does - it may overwrite the whole address range, take pages, run others -
  as long as the saved pages stay allocated and untouched, bringing the process back with
  \<open>proc_ensure_resident\<close> (which may swap others out in turn) puts back every byte of its image.
\<close>

theorem proc_swap_round_trip:
  assumes "mm_inv (kmm k)" and "length (procs k) = PROC_MAX" and "i < PROC_MAX"
    and "in_the_way lo hi (procs k ! i)" and "image_placed (procs k ! i)" and "proc_evict_range lo hi k = (0, k1)"
    and "mm_inv (kmm k2)" and "length (procs k2) = PROC_MAX" and "procs k2 ! i = procs k1 ! i" and "used_pages (kmm k1) \<subseteq> used_pages (kmm k2)"
    and "\<forall>x. in_region (image_shadow (procs k1 ! i)) (image_pages (procs k1 ! i) * PAGE_SIZE) x \<longrightarrow> mem (kmm k2) x = mem (kmm k1) x"
    and "\<not> image_evicted (procs (proc_ensure_resident (Some i) k2) ! i)"
  shows "mem_load (mem (kmm (proc_ensure_resident (Some i) k2))) (image (procs k ! i)) (image_pages (procs k ! i) * PAGE_SIZE) =
    mem_load (mem (kmm k)) (image (procs k ! i)) (image_pages (procs k ! i) * PAGE_SIZE)"
proof -
  let ?q = "procs k ! i" let ?bs = "mem_load (mem (kmm k)) (image ?q) (image_pages ?q * PAGE_SIZE)"
  have e: "evict_loop lo hi [0..<PROC_MAX] k = (True, k1)"
    using assms(6) by (auto simp: proc_evict_range_def Let_def split: prod.splits if_splits)
  have sh: "shadow_holds ?bs i k1" by (rule evict_saves [OF assms(1) _ _ assms(4,5) _ e]) (use assms(2,3) in simp_all)
  have "image (procs k1 ! i) = image ?q \<and> image_pages (procs k1 ! i) = image_pages ?q"
    using evict_same_image [of lo hi "[0..<PROC_MAX]" k i] by (simp add: e)
  then have im: "image (procs k2 ! i) = image ?q" "image_pages (procs k2 ! i) = image_pages ?q" by (simp_all add: assms(9))
  have sh2: "shadow_holds ?bs i k2"
  proof -
    obtain j where j: "image_evicted (procs k1 ! i)" "image_shadow (procs k1 ! i) = page_addr j" "0 < image_pages (procs k1 ! i)"
      "j + image_pages (procs k1 ! i) \<le> PAGE_COUNT" "{j..<j + image_pages (procs k1 ! i)} \<subseteq> used_pages (kmm k1)"
      "mem_load (mem (kmm k1)) (page_addr j) (image_pages (procs k1 ! i) * PAGE_SIZE) = ?bs"
      using sh by (auto simp: shadow_holds_def Let_def)
    have "image_pages (procs k1 ! i) * PAGE_SIZE \<le> 2 ^ 32" using j(4) by (simp add: PAGE_COUNT_val PAGE_SIZE_def)
    from mem_load_frame [OF _ this, of "page_addr j" "mem (kmm k2)" "mem (kmm k1)"] assms(11) j(2,6)
    have "mem_load (mem (kmm k2)) (page_addr j) (image_pages (procs k1 ! i) * PAGE_SIZE) = ?bs" by simp
    with j assms(10) show ?thesis by (auto simp: shadow_holds_def Let_def assms(9))
  qed
  have "image_placed (procs k2 ! i)" using assms(5) im by (simp add: image_placed_def)
  from ensure_resident_restores(1) [OF assms(7) this _ sh2 assms(12)] show ?thesis using assms(3,8) by (simp add: im)
qed

text \<open>The program of the sample table gets a page of image.\<close>

definition swap_kern :: kern where
  "swap_kern = shell_kern\<lparr>procs := (procs shell_kern)[2 := (procs shell_kern ! 2)\<lparr>image := 0x02000000, image_pages := 1\<rparr>],
     kvfs := (kvfs shell_kern)\<lparr>vmm := mm_init (\<lambda>a. ucast a)\<rparr>\<rparr>"

lemma evict_skip: "\<forall>j\<in>set is. \<not> in_the_way lo hi (procs k ! j) \<Longrightarrow> evict_loop lo hi is k = (True, k)"
  by (induction "is") (simp_all add: evict_loop_step)

lemma evict_loop_one:
  assumes "\<forall>j\<in>set xs \<union> set ys. j \<noteq> i \<and> \<not> in_the_way lo hi (procs k ! j)" and "in_the_way lo hi (procs k ! i)" and "swap_out i k = (True, k')"
  shows "evict_loop lo hi (xs @ i # ys) k = (True, k')"
proof -
  have "\<forall>j\<in>set ys. \<not> in_the_way lo hi (procs k' ! j)" using assms(1) swap_out_procs [OF assms(3)] by simp
  then have "evict_loop lo hi (i # ys) k = (True, k')" using assms(2,3) evict_skip [of ys lo hi k'] by (simp add: evict_loop_step)
  then show ?thesis using assms(1) by (induction xs) (simp_all add: evict_loop_step)
qed

lemma displace_skip: "\<forall>j\<in>set is. j = p \<or> image (procs k ! j) = 0 \<Longrightarrow> displace_loop p is k = (True, k)"
  by (induction "is") (simp_all add: Let_def)

lemma shell_image: "i < PROC_MAX \<Longrightarrow> image (procs shell_kern ! i) = 0"
proof -
  assume "i < PROC_MAX"
  then have "procs shell_kern ! i \<in> set (procs shell_kern)" by (metis nth_mem shell_procs(6))
  then show ?thesis by (auto simp: shell_kern_def blank_proc_def)
qed

lemma swap_kern_procs: "length (procs swap_kern) = PROC_MAX" "kmm swap_kern = mm_init (\<lambda>a. ucast a)"
  "procs swap_kern ! 2 = (procs shell_kern ! 2)\<lparr>image := 0x02000000, image_pages := 1\<rparr>"
  "j \<noteq> 2 \<Longrightarrow> procs swap_kern ! j = procs shell_kern ! j"
  by (simp_all add: swap_kern_def shell_procs PROC_MAX_def)

lemma swap_kern_out: "fst (swap_out 2 swap_kern)"
  "image_shadow (procs (snd (swap_out 2 swap_kern)) ! 2) = page_addr 0"
  "image_evicted (procs (snd (swap_out 2 swap_kern)) ! 2)" "image (procs (snd (swap_out 2 swap_kern)) ! 2) = 0x02000000"
  "image_pages (procs (snd (swap_out 2 swap_kern)) ! 2) = 1"
proof -
  obtain m where m: "mm_alloc_pages (image_pages (procs swap_kern ! 2)) (kmm swap_kern) = (Some (page_addr 0), m)"
    using first_page [of "\<lambda>a. ucast a"] by (simp add: swap_kern_procs(2,3))
  have "2 < length (procs swap_kern)" by (simp add: swap_kern_procs(1) PROC_MAX_def)
  then show "fst (swap_out 2 swap_kern)"
    "image_shadow (procs (snd (swap_out 2 swap_kern)) ! 2) = page_addr 0"
    "image_evicted (procs (snd (swap_out 2 swap_kern)) ! 2)" "image (procs (snd (swap_out 2 swap_kern)) ! 2) = 0x02000000"
    "image_pages (procs (snd (swap_out 2 swap_kern)) ! 2) = 1"
    by (simp_all add: swap_out_def Let_def m) (simp_all add: swap_kern_procs(3))
qed

theorem proc_swap_round_trip_witness:
  "\<exists>k. mem_load (mem (kmm (proc_ensure_resident (Some 2) k))) 0x02000000 4096 = mem_load (\<lambda>a. ucast a) 0x02000000 4096"
proof -
  define k1 where "k1 = snd (swap_out 2 swap_kern)"
  have sw: "swap_out 2 swap_kern = (True, k1)" using swap_kern_out(1) by (simp add: k1_def prod_eq_iff)
  note q1 = swap_kern_out [folded k1_def]
  have two: "2 < PROC_MAX" by (simp add: PROC_MAX_def)
  have q: "in_the_way 0x02000000 0x02001000 (procs swap_kern ! 2)" "image_placed (procs swap_kern ! 2)"
    by (simp_all add: swap_kern_procs(3) shell_procs in_the_way_def apart_def image_end_def blank_proc_def image_placed_def PAGE_SIZE_def HEAP_END_def)
  have ran: "[0..<PROC_MAX] = [0, 1] @ 2 # [3..<PROC_MAX]" by (simp add: PROC_MAX_def upt_rec)
  have "\<not> in_the_way 0x02000000 0x02001000 (procs swap_kern ! j)" if "j < PROC_MAX" "j \<noteq> 2" for j
    using that by (simp add: in_the_way_def swap_kern_procs(4) shell_image)
  then have "evict_loop 0x02000000 0x02001000 [0..<PROC_MAX] swap_kern = (True, k1)"
    unfolding ran by (intro evict_loop_one [OF _ q(1) sw]) (auto simp: PROC_MAX_def)
  then have ev: "proc_evict_range 0x02000000 0x02001000 swap_kern = (0, k1)" by (simp add: proc_evict_range_def)
  have inv: "mm_inv (kmm swap_kern)" by (simp add: swap_kern_procs(2) mm_inv_init)
  have t: "only_takes swap_kern k1" by (rule swap_out_takes [OF inv sw])
  have l1: "length (procs k1) = PROC_MAX" "mm_inv (kmm k1)" using t swap_kern_procs(1) by (simp_all add: only_takes_def)
  have "image (procs k1 ! j) = 0" if "j < PROC_MAX" "j \<noteq> 2" for j
    using that by (simp add: swap_out_procs [OF sw that(2)] swap_kern_procs(4) shell_image)
  then have "\<forall>j\<in>set [0..<PROC_MAX]. j = 2 \<or> image (procs k1 ! j) = 0" by force
  then have "displace_loop 2 [0..<PROC_MAX] k1 = (True, k1)" by (rule displace_skip)
  moreover have "page_addr 0 \<noteq> 0" by (simp add: page_addr_def KERNEL_HEAP_START_def)
  ultimately have res: "\<not> image_evicted (procs (proc_ensure_resident (Some 2) k1) ! 2)"
    using q1 two l1 by (simp add: proc_ensure_resident_def Let_def)
  have "mem_load (mem (kmm (proc_ensure_resident (Some 2) k1))) 0x02000000 4096 = mem_load (\<lambda>a. ucast a) 0x02000000 4096"
    using proc_swap_round_trip [OF inv swap_kern_procs(1) two q ev l1(2,1) refl _ _ res]
    by (simp add: swap_kern_procs(2,3) mm_init_def PAGE_SIZE_def)
  then show ?thesis by blast
qed

end
