(* ===== verification/ProcPages.thy ===== *)
theory ProcPages
  imports PageOwners Swap
begin

text \<open>
  The owners of the heap's pages in the whole kernel and the invariant \<open>pages_ok\<close>: no page has two
  owners. Pages are taken in hand (\<open>T\<close>), dealt out to a process and given back; swapping, reaping and
  killing are sequences of these.
\<close>

section \<open>Who owns a page\<close>

text \<open>
  The holders of pages in the kernel: a file, a window, a process's saved image, user stack and
  kernel stack, and the buffer a program file is read into while it is loaded.
\<close>

datatype owner = Node nat | Window nat | Shadow nat | Ustack nat | Kstack nat | Buffer

definition seg :: "u32 \<Rightarrow> nat \<Rightarrow> nat set" where
  "seg a n = (if a = 0 then {} else {page_index a..<page_index a + n})"

definition kstack_base :: "proc \<Rightarrow> u32" where
  "kstack_base q = (if kstack_top q = 0 then 0 else kstack_top q - of_nat (4 * PAGE_SIZE))"

definition shadow_seg :: "proc \<Rightarrow> nat set" where
  "shadow_seg q = (if used q then seg (image_shadow q) (image_pages q) else {})"

definition ustack_seg :: "proc \<Rightarrow> nat set" where
  "ustack_seg q = (if used q then seg (ustack q) (ustack_pages q) else {})"

definition kstack_seg :: "proc \<Rightarrow> nat set" where
  "kstack_seg q = (if used q then seg (kstack_base q) 4 else {})"

lemmas seg_defs = shadow_seg_def ustack_seg_def kstack_seg_def

definition of_proc :: "kern \<Rightarrow> nat \<Rightarrow> (proc \<Rightarrow> nat set) \<Rightarrow> nat set" where
  "of_proc k i f = (if i < length (procs k) then f (procs k ! i) else {})"

fun kowner :: "nat set \<Rightarrow> kern \<Rightarrow> owner \<Rightarrow> nat set" where
  "kowner T k (Node i) = owned (kvfs k) i"
| "kowner T k (Window i) = win_owner (kdisp k) i"
| "kowner T k (Shadow i) = of_proc k i shadow_seg"
| "kowner T k (Ustack i) = of_proc k i ustack_seg"
| "kowner T k (Kstack i) = of_proc k i kstack_seg"
| "kowner T k Buffer = T"

definition page_ptr :: "u32 \<Rightarrow> bool" where
  "page_ptr a \<longleftrightarrow> a = 0 \<or> (a = page_addr (page_index a) \<and> page_index a < PAGE_COUNT)"

definition proc_ok :: "proc \<Rightarrow> bool" where
  "proc_ok q \<longleftrightarrow> page_ptr (image_shadow q) \<and> page_ptr (ustack q) \<and> page_ptr (kstack_base q) \<and> (kstack_top q \<noteq> 0 \<longrightarrow> kstack_base q \<noteq> 0)"

definition nodes_ok :: "vfs \<Rightarrow> bool" where
  "nodes_ok s \<longleftrightarrow> tree_inv s \<and> length (fds s) = VFS_MAX_FD \<and> (\<forall>i < length (nodes s). n_used (nodes s ! i) \<longrightarrow> store_ok (nodes s ! i))"

definition pages_ok :: "nat set \<Rightarrow> kern \<Rightarrow> bool" where
  "pages_ok T k \<longleftrightarrow> nodes_ok (kvfs k) \<and> wins_ok (kdisp k) \<and> (\<forall>i < length (procs k). used (procs k ! i) \<longrightarrow> proc_ok (procs k ! i)) \<and>
     mm_inv (kmm k) \<and> disjoint_owners (kowner T k) (used_pages (kmm k))"

section \<open>What it gives the components\<close>

lemma disjoint_owners_mono: "disjoint_owners own P \<Longrightarrow> P \<subseteq> P' \<Longrightarrow> disjoint_owners own P'"
  unfolding disjoint_owners_def by blast

lemma disjoint_owners_inj: "disjoint_owners own P \<Longrightarrow> inj f \<Longrightarrow> disjoint_owners (\<lambda>i. own (f i)) P"
  unfolding disjoint_owners_def by (meson injD)

lemma inj_owner: "inj Node" "inj Window"
  by (simp_all add: inj_def)

lemma pages_ok_vfs: "pages_ok T k \<Longrightarrow> vfs_inv (kvfs k)"
  using disjoint_owners_inj [OF _ inj_owner(1), of "kowner T k"] by (simp add: pages_ok_def vfs_inv_def store_inv_def nodes_ok_def)

lemma pages_ok_disp: "pages_ok T k \<Longrightarrow> disp_inv (kdisp k, kmm k)"
  using disjoint_owners_inj [OF _ inj_owner(2), of "kowner T k"] by (simp add: pages_ok_def disp_inv_def)

text \<open>A component moves its pages; the others keep theirs.\<close>

lemma disjoint_owners_replace:
  assumes own: "disjoint_owners own P" and same: "\<And>c. c \<notin> K \<Longrightarrow> own' c = own c"
    and new: "\<And>c. c \<in> K \<Longrightarrow> own' c \<subseteq> P'" "\<And>c c'. c \<in> K \<Longrightarrow> c' \<in> K \<Longrightarrow> c \<noteq> c' \<Longrightarrow> own' c \<inter> own' c' = {}"
    and kept: "P - (\<Union>c\<in>K. own c) \<subseteq> P' - (\<Union>c\<in>K. own' c)"
  shows "disjoint_owners own' P'"
proof -
  have out: "own' c \<subseteq> P' - (\<Union>c\<in>K. own' c)" if "c \<notin> K" for c
  proof -
    have "own c \<subseteq> P - (\<Union>c\<in>K. own c)"
    proof -
      have "own c \<inter> own d = {}" if "d \<in> K" for d using disjoint_owners_disj [OF own, of c d] that \<open>c \<notin> K\<close> by blast
      with disjoint_owners_sub [OF own, of c] show ?thesis by blast
    qed
    with kept same [OF that] show ?thesis by blast
  qed
  have "own' c \<subseteq> P'" for c using out [of c] new(1) [of c] by blast
  moreover have "own' c \<inter> own' c' = {}" if "c \<noteq> c'" for c c'
  proof (cases "c \<in> K"; cases "c' \<in> K")
    assume "c \<notin> K" "c' \<notin> K"
    with same disjoint_owners_disj [OF own that] show ?thesis by simp
  qed (use out new(2) that in blast)+
  ultimately show ?thesis by (simp add: disjoint_owners_def)
qed

section \<open>File and window operations\<close>

lemma pages_ok_vfs_step:
  assumes ok: "pages_ok T k" and t: "vfs_inv t" "others_kept (kvfs k) t"
  shows "pages_ok T (k\<lparr>kvfs := t\<rparr>)"
proof -
  have st: "mm_inv (vmm t)" "disjoint_owners (owned t) (used_pages (vmm t))" "nodes_ok t"
    using t(1) by (simp_all add: vfs_inv_def store_inv_def nodes_ok_def)
  have "disjoint_owners (kowner T (k\<lparr>kvfs := t\<rparr>)) (used_pages (vmm t))"
  proof (rule disjoint_owners_replace [where K = "range Node"])
    show "disjoint_owners (kowner T k) (used_pages (kmm k))" using ok by (simp add: pages_ok_def)
    show "kowner T (k\<lparr>kvfs := t\<rparr>) c = kowner T k c" if "c \<notin> range Node" for c
      using that by (cases c) (auto simp: of_proc_def)
    show "kowner T (k\<lparr>kvfs := t\<rparr>) c \<subseteq> used_pages (vmm t)" if "c \<in> range Node" for c
      using that by (elim rangeE) (simp add: disjoint_owners_sub [OF st(2)])
    show "kowner T (k\<lparr>kvfs := t\<rparr>) c \<inter> kowner T (k\<lparr>kvfs := t\<rparr>) c' = {}" if cc: "c \<in> range Node" "c' \<in> range Node" "c \<noteq> c'" for c c'
    proof -
      obtain x where "c = Node x" using cc(1) by blast
      moreover obtain x' where "c' = Node x'" using cc(2) by blast
      ultimately show ?thesis using disjoint_owners_disj [OF st(2), of x x'] cc(3) by simp
    qed
    show "used_pages (kmm k) - (\<Union>c\<in>range Node. kowner T k c) \<subseteq> used_pages (vmm t) - (\<Union>c\<in>range Node. kowner T (k\<lparr>kvfs := t\<rparr>) c)"
      using t(2) by (simp add: others_kept_def stored_def)
  qed
  with ok st show ?thesis by (simp add: pages_ok_def)
qed

lemma nodes_ok_vmm [simp]: "nodes_ok (s\<lparr>vmm := m\<rparr>) = nodes_ok s"
proof -
  have a: "same_shape s (s\<lparr>vmm := m\<rparr>)" "same_shape (s\<lparr>vmm := m\<rparr>) s" by (simp_all add: same_shape_def)
  have "tree_inv (s\<lparr>vmm := m\<rparr>) = tree_inv s" using same_shape_tree_inv [OF a(1)] same_shape_tree_inv [OF a(2)] by blast
  then show ?thesis by (simp add: nodes_ok_def)
qed

lemma pages_ok_disp_step:
  assumes ok: "pages_ok T k" and t: "disp_inv (d, m)" "others_kept_win (kdisp k, kmm k) (d, m)"
  shows "pages_ok T (set_kmm m (k\<lparr>kdisp := d\<rparr>))"
proof -
  let ?k = "set_kmm m (k\<lparr>kdisp := d\<rparr>)"
  have st: "mm_inv m" "disjoint_owners (win_owner d) (used_pages m)" "wins_ok d" using t(1) by (simp_all add: disp_inv_def)
  have "disjoint_owners (kowner T ?k) (used_pages m)"
  proof (rule disjoint_owners_replace [where K = "range Window"])
    show "disjoint_owners (kowner T k) (used_pages (kmm k))" using ok by (simp add: pages_ok_def)
    show "kowner T ?k c = kowner T k c" if "c \<notin> range Window" for c
      using that by (cases c) (auto simp: of_proc_def)
    show "kowner T ?k c \<subseteq> used_pages m" if "c \<in> range Window" for c
      using that by (elim rangeE) (simp add: disjoint_owners_sub [OF st(2)])
    show "kowner T ?k c \<inter> kowner T ?k c' = {}" if cc: "c \<in> range Window" "c' \<in> range Window" "c \<noteq> c'" for c c'
    proof -
      obtain x where "c = Window x" using cc(1) by blast
      moreover obtain x' where "c' = Window x'" using cc(2) by blast
      ultimately show ?thesis using disjoint_owners_disj [OF st(2), of x x'] cc(3) by simp
    qed
    show "used_pages (kmm k) - (\<Union>c\<in>range Window. kowner T k c) \<subseteq> used_pages m - (\<Union>c\<in>range Window. kowner T ?k c)"
      using t(2) by (simp add: others_kept_win_def win_held_def)
  qed
  with ok st show ?thesis by (simp add: pages_ok_def)
qed

section \<open>Processes\<close>

definition same_segs :: "proc \<Rightarrow> proc \<Rightarrow> bool" where
  "same_segs q r \<longleftrightarrow> used r = used q \<and> image_shadow r = image_shadow q \<and> image_pages r = image_pages q \<and>
     ustack r = ustack q \<and> ustack_pages r = ustack_pages q \<and> kstack_top r = kstack_top q"

text \<open>Nothing else of the kernel matters, nor does what memory holds.\<close>

lemma pages_ok_cong:
  assumes "pages_ok T k" and "length (procs k') = length (procs k)" "\<And>i. i < length (procs k) \<Longrightarrow> same_segs (procs k ! i) (procs k' ! i)"
    and "kvfs k' = (kvfs k)\<lparr>vmm := (kmm k)\<lparr>mem := M\<rparr>\<rparr>" "kdisp k' = kdisp k"
  shows "pages_ok T k'"
proof -
  have s: "used (procs k' ! i) = used (procs k ! i)" "image_shadow (procs k' ! i) = image_shadow (procs k ! i)"
    "image_pages (procs k' ! i) = image_pages (procs k ! i)" "ustack (procs k' ! i) = ustack (procs k ! i)"
    "ustack_pages (procs k' ! i) = ustack_pages (procs k ! i)" "kstack_top (procs k' ! i) = kstack_top (procs k ! i)"
    if "i < length (procs k)" for i using assms(3) [OF that] by (simp_all add: same_segs_def)
  have "kowner T k' c = kowner T k c" for c
    by (cases c) (auto simp: of_proc_def seg_defs assms(2,4,5) s kstack_base_def)
  then have "kowner T k' = kowner T k" by (rule ext)
  moreover have "proc_ok (procs k' ! i) = proc_ok (procs k ! i)" if "i < length (procs k)" for i
    by (simp add: proc_ok_def kstack_base_def s that)
  ultimately show ?thesis using assms(1) by (auto simp: pages_ok_def assms(2,4,5) s)
qed

lemma pages_ok_fields [simp]:
  "pages_ok T (k\<lparr>current := c\<rparr>) = pages_ok T k" "pages_ok T (k\<lparr>block_stack := b\<rparr>) = pages_ok T k" "pages_ok T (k\<lparr>fg_pid := x\<rparr>) = pages_ok T k"
  "pages_ok T (k\<lparr>spawn_cons_next := f\<rparr>) = pages_ok T k" "pages_ok T (k\<lparr>spawn_redir_in := x\<rparr>) = pages_ok T k" "pages_ok T (k\<lparr>spawn_redir_out := x\<rparr>) = pages_ok T k"
  "pages_ok T (k\<lparr>resume_yielded := f\<rparr>) = pages_ok T k" "pages_ok T (k\<lparr>tty_fg := x\<rparr>) = pages_ok T k" "pages_ok T (k\<lparr>tss_esp0 := a\<rparr>) = pages_ok T k"
  "pages_ok T (k\<lparr>next_pid := x\<rparr>) = pages_ok T k"
proof -
  have *: "pages_ok T k'' = pages_ok T k" if "procs k'' = procs k" "kvfs k'' = kvfs k" "kdisp k'' = kdisp k" for k''
  proof -
    have "kowner T k'' c = kowner T k c" for c by (cases c) (simp_all add: of_proc_def that)
    then have "kowner T k'' = kowner T k" by (rule ext)
    then show ?thesis by (simp add: pages_ok_def that)
  qed
  show "pages_ok T (k\<lparr>current := c\<rparr>) = pages_ok T k" "pages_ok T (k\<lparr>block_stack := b\<rparr>) = pages_ok T k" "pages_ok T (k\<lparr>fg_pid := x\<rparr>) = pages_ok T k"
    "pages_ok T (k\<lparr>spawn_cons_next := f\<rparr>) = pages_ok T k" "pages_ok T (k\<lparr>spawn_redir_in := x\<rparr>) = pages_ok T k" "pages_ok T (k\<lparr>spawn_redir_out := x\<rparr>) = pages_ok T k"
    "pages_ok T (k\<lparr>resume_yielded := f\<rparr>) = pages_ok T k" "pages_ok T (k\<lparr>tty_fg := x\<rparr>) = pages_ok T k" "pages_ok T (k\<lparr>tss_esp0 := a\<rparr>) = pages_ok T k"
    "pages_ok T (k\<lparr>next_pid := x\<rparr>) = pages_ok T k"
    by (rule *; simp)+
qed

lemma pages_ok_mem: "pages_ok T k \<Longrightarrow> pages_ok T (set_kmm ((kmm k)\<lparr>mem := M\<rparr>) k)"
  by (rule pages_ok_cong) (auto simp: same_segs_def)

lemma pages_ok_upd:
  assumes "pages_ok T k" and "\<And>q. same_segs q (f q)"
  shows "pages_ok T (upd_proc i f k)"
proof (rule pages_ok_cong [OF assms(1), where M = "mem (kmm k)"])
  show "same_segs (procs k ! j) (procs (upd_proc i f k) ! j)" if "j < length (procs k)" for j
    using that assms(2) by (cases "j = i") (auto simp: same_segs_def)
qed simp_all

text \<open>One process's pages and the pages in hand are dealt out anew.\<close>

definition proc_segs :: "proc \<Rightarrow> nat set" where
  "proc_segs q = shadow_seg q \<union> ustack_seg q \<union> kstack_seg q"

definition segs_apart :: "nat set \<Rightarrow> proc \<Rightarrow> bool" where
  "segs_apart T q \<longleftrightarrow> T \<inter> proc_segs q = {} \<and> shadow_seg q \<inter> ustack_seg q = {} \<and> shadow_seg q \<inter> kstack_seg q = {} \<and>
     ustack_seg q \<inter> kstack_seg q = {}"

lemma pages_ok_apart:
  assumes ok: "pages_ok T k" and i: "i < length (procs k)"
  shows "segs_apart T (procs k ! i)" and "T \<union> proc_segs (procs k ! i) \<subseteq> used_pages (kmm k)"
proof -
  have d: "disjoint_owners (kowner T k) (used_pages (kmm k))" using ok by (simp add: pages_ok_def)
  note dj = disjoint_owners_disj [OF d]
  show "segs_apart T (procs k ! i)"
    using dj [of Buffer "Shadow i"] dj [of Buffer "Ustack i"] dj [of Buffer "Kstack i"]
      dj [of "Shadow i" "Ustack i"] dj [of "Shadow i" "Kstack i"] dj [of "Ustack i" "Kstack i"] i
    by (auto simp: segs_apart_def proc_segs_def of_proc_def)
  note sb = disjoint_owners_sub [OF d]
  show "T \<union> proc_segs (procs k ! i) \<subseteq> used_pages (kmm k)"
    using sb [of Buffer] sb [of "Shadow i"] sb [of "Ustack i"] sb [of "Kstack i"] i by (auto simp: proc_segs_def of_proc_def)
qed

lemma pages_ok_transfer:
  assumes ok: "pages_ok T k" and i: "i < length (procs k)" and q: "used q \<longrightarrow> proc_ok q" "segs_apart T' q"
    and sub: "T' \<union> proc_segs q \<subseteq> T \<union> proc_segs (procs k ! i)"
  shows "pages_ok T' (k\<lparr>procs := (procs k)[i := q]\<rparr>)"
proof -
  let ?k = "k\<lparr>procs := (procs k)[i := q]\<rparr>" let ?K = "{Shadow i, Ustack i, Kstack i, Buffer}"
  have new: "(\<Union>c\<in>?K. kowner T' ?k c) = T' \<union> proc_segs q" using i by (auto simp: proc_segs_def of_proc_def)
  have old: "(\<Union>c\<in>?K. kowner T k c) = T \<union> proc_segs (procs k ! i)" using i by (auto simp: proc_segs_def of_proc_def)
  have "disjoint_owners (kowner T' ?k) (used_pages (kmm k))"
  proof (rule disjoint_owners_replace [where K = ?K])
    show "disjoint_owners (kowner T k) (used_pages (kmm k))" using ok by (simp add: pages_ok_def)
    show "kowner T' ?k c = kowner T k c" if "c \<notin> ?K" for c
      using that by (cases c) (auto simp: of_proc_def)
    show "kowner T' ?k c \<subseteq> used_pages (kmm k)" if "c \<in> ?K" for c
      using new that sub pages_ok_apart(2) [OF ok i] by blast
    show "kowner T' ?k c \<inter> kowner T' ?k c' = {}" if "c \<in> ?K" "c' \<in> ?K" "c \<noteq> c'" for c c'
      using that q(2) i by (auto simp: segs_apart_def proc_segs_def of_proc_def)
    show "used_pages (kmm k) - (\<Union>c\<in>?K. kowner T k c) \<subseteq> used_pages (kmm k) - (\<Union>c\<in>?K. kowner T' ?k c)"
      unfolding new old using sub by blast
  qed
  with ok q(1) show ?thesis by (auto simp: pages_ok_def nth_list_update_if)
qed

text \<open>Pages are taken in hand and given back.\<close>

lemma pages_ok_mm:
  assumes ok: "pages_ok T k" and m: "mm_inv m" and s: "T' \<subseteq> used_pages m" "used_pages (kmm k) - T \<subseteq> used_pages m - T'"
  shows "pages_ok T' (set_kmm m k)"
proof -
  have "disjoint_owners (kowner T' (set_kmm m k)) (used_pages m)"
  proof (rule disjoint_owners_replace [where K = "{Buffer}"])
    show "disjoint_owners (kowner T k) (used_pages (kmm k))" using ok by (simp add: pages_ok_def)
    show "kowner T' (set_kmm m k) c = kowner T k c" if "c \<notin> {Buffer}" for c
      using that by (cases c) (auto simp: of_proc_def)
  qed (use s in auto)
  with ok m show ?thesis by (simp add: pages_ok_def)
qed

lemma page_ptr_addr: "j < PAGE_COUNT \<Longrightarrow> page_ptr (page_addr j) \<and> page_addr j \<noteq> 0 \<and> seg (page_addr j) n = {j..<j + n}"
  using page_addr_range [of j] by (auto simp: page_ptr_def seg_def page_index_addr KERNEL_HEAP_START_def)

lemma pages_ok_take:
  assumes ok: "pages_ok T k" and al: "mm_alloc_pages n (kmm k) = (Some p, m)"
  shows "pages_ok (T \<union> seg p n) (set_kmm m k)" "seg p n \<inter> used_pages (kmm k) = {}" "page_ptr p" "p \<noteq> 0"
proof -
  have inv: "mm_inv (kmm k)" using ok by (simp add: pages_ok_def)
  obtain j where j: "p = page_addr j" "0 < n" "j + n \<le> PAGE_COUNT" "{j..<j + n} \<inter> used_pages (kmm k) = {}"
    "used_pages m = used_pages (kmm k) \<union> {j..<j + n}" using kpages.alloc_some [OF inv al] by auto
  have pj: "page_ptr p" "p \<noteq> 0" "seg p n = {j..<j + n}" using page_ptr_addr [of j n] j by simp_all
  then show "page_ptr p" "p \<noteq> 0" "seg p n \<inter> used_pages (kmm k) = {}" using j(4) by simp_all
  have "T \<subseteq> used_pages (kmm k)" using ok disjoint_owners_sub [of "kowner T k" _ Buffer] by (simp add: pages_ok_def)
  with j pj show "pages_ok (T \<union> seg p n) (set_kmm m k)"
    by (intro pages_ok_mm [OF ok]) (use mm_inv_alloc [OF inv, of n] al in auto)
qed

lemma pages_ok_free:
  assumes ok: "pages_ok T k" and a: "page_ptr a" "a \<noteq> 0" "seg a n \<subseteq> T"
  shows "pages_ok (T - seg a n) (set_kmm (mm_free_pages a n (kmm k)) k)"
proof -
  have inv: "mm_inv (kmm k)" using ok by (simp add: pages_ok_def)
  have p: "a = page_addr (page_index a)" "page_index a < PAGE_COUNT" using a by (auto simp: page_ptr_def)
  have u: "used_pages (mm_free_pages a n (kmm k)) = used_pages (kmm k) - seg a n"
    using mm_free_used [OF inv p(2), of n] p(1) a(2) by (simp add: seg_def)
  have "T \<subseteq> used_pages (kmm k)" using ok disjoint_owners_sub [of "kowner T k" _ Buffer] by (simp add: pages_ok_def)
  with a(3) show ?thesis
    by (intro pages_ok_mm [OF ok]) (use u mm_inv_free [OF inv] in auto)
qed

lemma pages_ok_free_nz:
  assumes "pages_ok T k" and "page_ptr a" "t \<noteq> 0 \<longrightarrow> a \<noteq> 0" "t = 0 \<longrightarrow> a = 0" "seg a n \<subseteq> T"
  shows "pages_ok (T - seg a n) (set_kmm (free_nz t a n (kmm k)) k)"
  using assms pages_ok_free [OF assms(1,2)] by (cases "t = 0") (simp_all add: free_nz_def seg_def)

section \<open>Processes: what they take and give back\<close>

lemma pages_okD:
  assumes "pages_ok T k"
  shows "mm_inv (kmm k)" "i < length (procs k) \<Longrightarrow> used (procs k ! i) \<Longrightarrow> proc_ok (procs k ! i)"
  using assms by (simp_all add: pages_ok_def)

lemma upd_beyond: "\<not> i < length (procs k) \<Longrightarrow> k\<lparr>procs := (procs k)[i := q]\<rparr> = k"
  by (simp add: list_update_beyond)

lemma procs_kvfs: "k\<lparr>kvfs := v, procs := ps\<rparr> = k\<lparr>procs := ps, kvfs := v\<rparr>"
  by simp

text \<open>A saved image goes into fresh pages.\<close>

lemma seg_zero [simp]: "seg 0 n = {}"
  by (simp add: seg_def)

lemma kstack_base_shadow [simp]: "kstack_base (q\<lparr>image_shadow := a, image_evicted := b\<rparr>) = kstack_base q"
  by (simp add: kstack_base_def)

lemma proc_segs_shadow:
  "shadow_seg (q\<lparr>image_shadow := a, image_evicted := b\<rparr>) = (if used q then seg a (image_pages q) else {})"
  "ustack_seg (q\<lparr>image_shadow := a, image_evicted := b\<rparr>) = ustack_seg q"
  "kstack_seg (q\<lparr>image_shadow := a, image_evicted := b\<rparr>) = kstack_seg q"
  "proc_ok (q\<lparr>image_shadow := a, image_evicted := b\<rparr>) \<longleftrightarrow> page_ptr a \<and> page_ptr (ustack q) \<and> page_ptr (kstack_base q) \<and>
     (kstack_top q \<noteq> 0 \<longrightarrow> kstack_base q \<noteq> 0)"
  by (simp_all add: seg_defs kstack_base_def proc_ok_def)

lemma pages_ok_shadow:
  assumes ok: "pages_ok T k" and a: "page_ptr a" "seg a (image_pages (procs k ! i)) \<subseteq> T"
  shows "pages_ok (T - seg a (image_pages (procs k ! i))) (upd_proc i (\<lambda>q. q\<lparr>image_shadow := a, image_evicted := b\<rparr>) k)"
proof (cases "i < length (procs k)")
  case True
  let ?q = "procs k ! i" let ?q' = "?q\<lparr>image_shadow := a, image_evicted := b\<rparr>" let ?S = "seg a (image_pages ?q)"
  note ap = pages_ok_apart [OF ok True]
  have p: "used ?q \<longrightarrow> proc_ok ?q" using pages_okD(2) [OF ok True] by blast
  have sh: "shadow_seg ?q' \<subseteq> ?S" by (simp add: proc_segs_shadow)
  show ?thesis
  proof (rule pages_ok_transfer [OF ok True])
    show "used ?q' \<longrightarrow> proc_ok ?q'" using p a(1) by (simp add: proc_segs_shadow proc_ok_def)
    show "segs_apart (T - ?S) ?q'" using ap(1) sh a(2) unfolding segs_apart_def proc_segs_def proc_segs_shadow(2,3) by blast
    show "T - ?S \<union> proc_segs ?q' \<subseteq> T \<union> proc_segs ?q" using sh a(2) unfolding proc_segs_def proc_segs_shadow(2,3) by blast
  qed
next
  case False
  have "pages_ok (T - seg a n) k" for n
    using pages_ok_mm [OF ok, of "kmm k" "T - seg a n"] ok disjoint_owners_sub [of "kowner T k" _ Buffer]
    by (auto simp: pages_ok_def)
  with False show ?thesis by (simp add: upd_beyond)
qed

lemma pages_ok_swap_out:
  assumes ok: "pages_ok T k" and sw: "swap_out i k = (b, k')"
  shows "pages_ok T k'"
proof (cases "mm_alloc_pages (image_pages (procs k ! i)) (kmm k)")
  case (Pair r m)
  let ?n = "image_pages (procs k ! i)"
  show ?thesis
  proof (cases r)
    case None
    then have "m = kmm k" using mm_alloc_None Pair by blast
    then have "set_kmm m k = k" by simp
    with None Pair sw have "k' = upd_proc i (\<lambda>q. q\<lparr>image_shadow := 0, image_evicted := image_evicted q\<rparr>) k" by (simp add: swap_out_def Let_def)
    then show ?thesis using pages_ok_shadow [OF ok, of 0 i "image_evicted (procs k ! i)"] by (simp add: page_ptr_def)
  next
    case (Some a)
    note t = pages_ok_take [OF ok Pair [unfolded Some]]
    let ?k = "set_kmm m k"
    have "T \<subseteq> used_pages (kmm k)" using ok disjoint_owners_sub [of "kowner T k" _ Buffer] by (simp add: pages_ok_def)
    with t(2) have T: "T \<union> seg a ?n - seg a ?n = T" by blast
    have "pages_ok T (upd_proc i (\<lambda>q. q\<lparr>image_shadow := a, image_evicted := True\<rparr>) ?k)"
      using pages_ok_shadow [OF t(1), of a i True] t(3) T by simp
    from pages_ok_mem [OF this, of "kmemcpy (mem m) a (image (procs k ! i)) (image_bytes (procs k ! i))"] Some Pair sw
    show ?thesis by (auto simp: swap_out_def Let_def procs_kvfs)
  qed
qed

lemma pages_ok_evict: "pages_ok T k \<Longrightarrow> evict_loop lo hi is k = (b, k') \<Longrightarrow> pages_ok T k'"
proof (induction "is" arbitrary: k)
  case (Cons i "is")
  obtain c k1 where sw: "swap_out i k = (c, k1)" by fastforce
  from Cons pages_ok_swap_out [OF Cons.prems(1) sw] sw show ?case by (auto simp: evict_loop_step split: if_splits)
qed simp

lemma pages_ok_displace: "pages_ok T k \<Longrightarrow> displace_loop p is k = (b, k') \<Longrightarrow> pages_ok T k'"
proof (induction "is" arbitrary: k)
  case (Cons i "is")
  obtain c k1 where sw: "swap_out i k = (c, k1)" by fastforce
  from Cons pages_ok_swap_out [OF Cons.prems(1) sw] sw show ?case by (auto simp: Let_def split: if_splits)
qed simp

lemma pages_ok_evict_range: "pages_ok T k \<Longrightarrow> proc_evict_range lo hi k = (r, k') \<Longrightarrow> pages_ok T k'"
  using pages_ok_evict by (auto simp: proc_evict_range_def Let_def split: prod.splits)

lemma pages_ok_give_shadow:
  assumes ok: "pages_ok T k" and i: "i < length (procs k)" and u: "used (procs k ! i)" "image_shadow (procs k ! i) \<noteq> 0"
  shows "pages_ok T (upd_proc i (\<lambda>q. q\<lparr>image_shadow := 0, image_evicted := b\<rparr>)
     (set_kmm (mm_free_pages (image_shadow (procs k ! i)) (image_pages (procs k ! i)) ((kmm k)\<lparr>mem := M\<rparr>)) k))"
proof -
  let ?q = "procs k ! i" let ?S = "seg (image_shadow ?q) (image_pages ?q)"
  let ?k = "upd_proc i (\<lambda>q. q\<lparr>image_shadow := 0, image_evicted := b\<rparr>) k"
  note ap = pages_ok_apart [OF ok i]
  have S: "shadow_seg ?q = ?S" using u by (simp add: shadow_seg_def)
  have p: "page_ptr (image_shadow ?q)" "proc_ok ?q" using pages_okD(2) [OF ok i] u(1) by (simp_all add: proc_ok_def)
  let ?q' = "?q\<lparr>image_shadow := 0, image_evicted := b\<rparr>"
  have sh: "shadow_seg ?q' = {}" by (simp add: proc_segs_shadow)
  have ok1: "pages_ok (T \<union> ?S) ?k"
  proof (rule pages_ok_transfer [OF ok i])
    show "used ?q' \<longrightarrow> proc_ok ?q'" using p(2) by (simp add: proc_segs_shadow proc_ok_def page_ptr_def)
    show "segs_apart (T \<union> ?S) ?q'" using ap(1) sh unfolding segs_apart_def proc_segs_def proc_segs_shadow(2,3) S [symmetric] by blast
    show "T \<union> ?S \<union> proc_segs ?q' \<subseteq> T \<union> proc_segs ?q" unfolding proc_segs_def proc_segs_shadow(2,3) sh S [symmetric] by blast
  qed
  have TS: "T \<union> ?S - ?S = T" using ap(1) S by (auto simp: segs_apart_def proc_segs_def)
  from pages_ok_free [OF pages_ok_mem [OF ok1, of M] p(1) u(2) Un_upper2] TS
  have "pages_ok T (set_kmm (mm_free_pages (image_shadow ?q) (image_pages ?q) ((kmm k)\<lparr>mem := M\<rparr>)) ?k)" by simp
  then show ?thesis by (simp add: procs_kvfs)
qed

lemma pages_ok_ensure:
  assumes ok: "pages_ok T k" and po: "case po of None \<Rightarrow> True | Some p \<Rightarrow> p < length (procs k) \<and> used (procs k ! p)"
  shows "pages_ok T (proc_ensure_resident po k)"
proof (cases po)
  case (Some p)
  let ?q = "procs k ! p"
  obtain b k1 where d: "displace_loop p [0..<PROC_MAX] k = (b, k1)" by fastforce
  note ok1 = pages_ok_displace [OF ok d]
  have "only_takes k k1 \<and> procs k1 ! p = ?q" by (rule displace_takes [OF d pages_okD(1) [OF ok]])
  then have p1: "procs k1 ! p = ?q" "p < length (procs k1)" using po Some by (auto simp: only_takes_def)
  show ?thesis
  proof (cases "image ?q = 0 \<or> image_pages ?q = 0 \<or> \<not> image_evicted ?q \<or> image_shadow ?q = 0")
    case True
    with ok Some show ?thesis by (auto simp: proc_ensure_resident_def Let_def)
  next
    case False
    then have e: "proc_ensure_resident po k = (if b then upd_proc p (\<lambda>q. q\<lparr>image_shadow := 0, image_evicted := False\<rparr>)
        (set_kmm (mm_free_pages (image_shadow ?q) (image_pages ?q) ((kmm k1)\<lparr>mem := kmemcpy (mem (kmm k1)) (image ?q) (image_shadow ?q) (image_bytes ?q)\<rparr>)) k1)
        else k1)" by (simp add: proc_ensure_resident_def Let_def Some d p1(1))
    have "used (procs k1 ! p)" "image_shadow (procs k1 ! p) \<noteq> 0" using False po Some p1(1) by simp_all
    from pages_ok_give_shadow [OF ok1 p1(2) this, where b = False] ok1 show ?thesis by (simp add: e p1(1))
  qed
qed (use ok in \<open>simp add: proc_ensure_resident_def\<close>)

section \<open>Ending and running processes\<close>

lemma pages_ok_set:
  assumes ok: "pages_ok T k" and s: "same_segs (procs k ! i) q"
  shows "pages_ok T (k\<lparr>procs := (procs k)[i := q]\<rparr>)"
proof (rule pages_ok_cong [OF ok, where M = "mem (kmm k)"])
  show "same_segs (procs k ! j) (procs (k\<lparr>procs := (procs k)[i := q]\<rparr>) ! j)" if "j < length (procs k)" for j
    using that s by (cases "j = i") (simp_all add: same_segs_def)
qed simp_all

text \<open>The pages of a slot that is freed are in hand, and then given back one segment after the other.\<close>

lemma pages_ok_drop:
  assumes ok: "pages_ok T k" and i: "i < length (procs k)"
  shows "pages_ok (T \<union> proc_segs (procs k ! i)) (upd_proc i (\<lambda>q. q\<lparr>used := False\<rparr>) k)"
proof -
  have "shadow_seg (q\<lparr>used := False\<rparr>) = {}" "ustack_seg (q\<lparr>used := False\<rparr>) = {}" "kstack_seg (q\<lparr>used := False\<rparr>) = {}" for q
    by (simp_all add: seg_defs)
  then show ?thesis by (intro pages_ok_transfer [OF ok i]) (simp_all add: segs_apart_def proc_segs_def)
qed

lemma pages_ok_free_part:
  assumes ok: "pages_ok (A \<union> seg a n) k" and "A \<inter> seg a n = {}" "page_ptr a" "t = 0 \<longleftrightarrow> a = 0"
  shows "pages_ok A (set_kmm (free_nz t a n (kmm k)) k)"
proof -
  have "A \<union> seg a n - seg a n = A" using assms(2) by blast
  moreover have "pages_ok (A \<union> seg a n - seg a n) (set_kmm (free_nz t a n (kmm k)) k)"
    using assms(4) by (intro pages_ok_free_nz [OF ok assms(3)]) auto
  ultimately show ?thesis by metis
qed

lemma pages_ok_reap_slot:
  assumes ok: "pages_ok T k" and i: "i < length (procs k)" and u: "used (procs k ! i)"
  shows "pages_ok T (reap_slot i k)"
proof -
  let ?q = "procs k ! i" let ?k = "upd_proc i (\<lambda>q. q\<lparr>used := False\<rparr>) k"
  let ?S = "seg (image_shadow ?q) (image_pages ?q)" let ?U = "seg (ustack ?q) (ustack_pages ?q)" let ?K = "seg (kstack_base ?q) 4"
  have sg: "shadow_seg ?q = ?S" "ustack_seg ?q = ?U" "kstack_seg ?q = ?K" using u by (simp_all add: seg_defs)
  note ap = pages_ok_apart(1) [OF ok i, unfolded segs_apart_def proc_segs_def sg]
  have p: "proc_ok ?q" using pages_okD(2) [OF ok i u] .
  have z: "kstack_top ?q = 0 \<longleftrightarrow> kstack_base ?q = 0" using p by (auto simp: proc_ok_def kstack_base_def)
  have k0: "pages_ok (T \<union> ?K \<union> ?U \<union> ?S) ?k" using pages_ok_drop [OF ok i] by (simp add: proc_segs_def sg Un_ac)
  define m1 where "m1 = free_nz (image_shadow ?q) (image_shadow ?q) (image_pages ?q) (kmm k)"
  define m2 where "m2 = free_nz (ustack ?q) (ustack ?q) (ustack_pages ?q) m1"
  define m3 where "m3 = free_nz (kstack_top ?q) (kstack_base ?q) 4 m2"
  have d: "(T \<union> ?K \<union> ?U) \<inter> ?S = {}" "(T \<union> ?K) \<inter> ?U = {}" "T \<inter> ?K = {}" using ap by blast+
  have pp: "page_ptr (image_shadow ?q)" "page_ptr (ustack ?q)" "page_ptr (kstack_base ?q)" using p by (simp_all add: proc_ok_def)
  have k1: "pages_ok (T \<union> ?K \<union> ?U) (set_kmm m1 ?k)" using pages_ok_free_part [OF k0 d(1) pp(1) refl] by (simp add: m1_def)
  have k2: "pages_ok (T \<union> ?K) (set_kmm m2 ?k)" using pages_ok_free_part [OF k1 d(2) pp(2) refl] by (simp add: m2_def)
  have k3: "pages_ok T (set_kmm m3 ?k)" using pages_ok_free_part [OF k2 d(3) pp(3) z] by (simp add: m3_def)
  have "reap_slot i k = set_kmm m3 ?k"
    by (simp add: reap_slot_def Let_def m1_def m2_def m3_def procs_kvfs free_nz_def kstack_base_def)
  with k3 show ?thesis by simp
qed

lemma pages_ok_reap: "pages_ok T k \<Longrightarrow> pages_ok T (snd (proc_reap p k))"
  using pages_ok_reap_slot first_from_Some [of "\<lambda>q. used q \<and> pid q = p" "procs k" 0]
  by (auto simp: proc_reap_def proc_get_def split: option.split)

lemma pages_ok_collect: "pages_ok T k \<Longrightarrow> wait_collect i k = (w, k') \<Longrightarrow> pages_ok T k'"
  using pages_ok_reap by (auto simp: wait_collect_def Let_def split: if_splits)

lemma pages_ok_windows: "pages_ok T k \<Longrightarrow> pages_ok T (destroy_windows p k)"
proof -
  assume ok: "pages_ok T k"
  obtain d m where dm: "display_destroy_pid p (kdisp k, kmm k) = (d, m)" by fastforce
  have "disp_inv (d, m)" "others_kept_win (kdisp k, kmm k) (d, m)"
    using disp_inv_destroy_pid [OF pages_ok_disp [OF ok], of p] kept_destroy_pid [OF pages_ok_disp [OF ok], of p] by (simp_all add: dm)
  from pages_ok_disp_step [OF ok this] show ?thesis by (simp add: destroy_windows_def dm)
qed

lemma pages_ok_zombie: "pages_ok T k \<Longrightarrow> pages_ok T (make_zombie i k)"
  unfolding make_zombie_def by (rule pages_ok_set) (simp_all add: same_segs_def)

lemma pages_ok_kill_one:
  "kill_one f p k = Some k' \<Longrightarrow> pages_ok T k \<Longrightarrow> pages_ok T k'"
  "kill_children f p is k = Some k' \<Longrightarrow> pages_ok T k \<Longrightarrow> pages_ok T k'"
proof (induction f p k and f p "is" k arbitrary: k' and k' rule: kill_one_kill_children.induct)
  case (2 fuel p k)
  then show ?case by (auto simp: Let_def pages_ok_zombie pages_ok_windows split: if_splits option.splits)
next
  case (4 fuel p i "is" k)
  show ?case
  proof (cases "used (procs k ! i) \<and> ppid (procs k ! i) = pid (procs k ! p)")
    case True
    with "4.prems"(1) obtain t where t: "kill_one fuel i k = Some t" by (auto simp: Let_def split: option.splits)
    let ?t = "if used (procs t ! i) \<and> state (procs t ! i) = PROC_ZOMBIE then snd (proc_reap (pid (procs k ! i)) t) else t"
    have "pages_ok T ?t" using "4.IH"(1) [OF refl True t "4.prems"(2)] pages_ok_reap by simp
    moreover have "kill_children fuel p is ?t = Some k'" using "4.prems"(1) t True by (simp add: Let_def)
    ultimately show ?thesis using "4.IH"(2) [OF refl True t] by blast
  next
    case False
    with "4.prems" "4.IH"(3) [OF refl False] show ?thesis by (simp add: Let_def split: if_splits)
  qed
qed auto

lemma pages_ok_kill: "proc_kill f p k = Some (r, k') \<Longrightarrow> pages_ok T k \<Longrightarrow> pages_ok T k'"
  using pages_ok_kill_one(1) by (auto simp: proc_kill_def split: option.splits if_splits)

end
