(* ===== verification/KernelSpec.thy ===== *)
theory KernelSpec
  imports ProcPages
begin

text \<open>
  The components together: running, returning, loading and starting keep \<open>pages_ok\<close>, and so does every
  step of the kernel (\<open>sysstep\<close>: the scheduler's steps, the file operations and the window requests).
\<close>

section \<open>Running, returning and starting\<close>

text \<open>Fields of a process that hold no pages.\<close>

lemma same_segs_fields [simp]:
  "same_segs q q" "same_segs q (q\<lparr>state := st\<rparr>)" "same_segs q (q\<lparr>state := st, block_parent := po\<rparr>)" "same_segs q (q\<lparr>started := b\<rparr>)"
  "same_segs q (q\<lparr>saved_kframe := a\<rparr>)" "same_segs q (q\<lparr>exit_code := c, state := st, saved_kframe := a\<rparr>)"
  "same_segs q (q\<lparr>user_eip := x, user_esp := y, user_eax := z, saved_kframe := a, state := st\<rparr>)"
  "same_segs q (q\<lparr>cons_enable := b, cons_sink := sk\<rparr>)" "same_segs q (q\<lparr>cons_out := out\<rparr>)" "same_segs q (q\<lparr>cons_in_keys := ks\<rparr>)"
  "same_segs q (q\<lparr>cons_in_keys := ks, cons_in_pos := n\<rparr>)" "same_segs q (q\<lparr>cons_in_pos := n\<rparr>)" "same_segs q (q\<lparr>need_preempt := b\<rparr>)"
  "same_segs q (q\<lparr>cons_host := b\<rparr>)" "same_segs q (q\<lparr>cons_enable := b\<rparr>)"
  by (simp_all add: same_segs_def)

lemma pages_ok_proc_mem: "pages_ok T (k\<lparr>procs := ps, kvfs := (kvfs k)\<lparr>vmm := (kmm k)\<lparr>mem := M\<rparr>\<rparr>\<rparr>) \<longleftrightarrow> pages_ok T (k\<lparr>procs := ps\<rparr>)"
proof -
  let ?k = "k\<lparr>procs := ps\<rparr>"
  have e: "k\<lparr>procs := ps, kvfs := (kvfs k)\<lparr>vmm := (kmm k)\<lparr>mem := M\<rparr>\<rparr>\<rparr> = set_kmm ((kmm ?k)\<lparr>mem := M\<rparr>) ?k" by simp
  have b: "?k = set_kmm ((kmm (set_kmm ((kmm ?k)\<lparr>mem := M\<rparr>) ?k))\<lparr>mem := mem (kmm ?k)\<rparr>) (set_kmm ((kmm ?k)\<lparr>mem := M\<rparr>) ?k)" by simp
  show ?thesis unfolding e using pages_ok_mem [of T ?k M] pages_ok_mem [of T "set_kmm ((kmm ?k)\<lparr>mem := M\<rparr>) ?k" "mem (kmm ?k)"] b by metis
qed

lemma pages_ok_set_cur: "pages_ok T k \<Longrightarrow> same_segs (procs k ! i) q \<Longrightarrow> pages_ok T (k\<lparr>current := c, procs := (procs k)[i := q]\<rparr>)"
  using pages_ok_set [of T "k\<lparr>current := c\<rparr>" i q] by simp

lemma pages_ok_leaving:
  assumes ok: "pages_ok T k"
  shows "pages_ok T (upd_proc p (\<lambda>q. q\<lparr>state := PROC_READY\<rparr>) (let k = k\<lparr>current := c\<rparr> in
    case c of None \<Rightarrow> k | Some c \<Rightarrow> upd_proc c (\<lambda>q. q\<lparr>state := PROC_RUNNING\<rparr>) k))"
proof (cases c)
  case None
  then show ?thesis using pages_ok_set_cur [OF ok] by (simp add: Let_def)
next
  case (Some i)
  have "pages_ok T (k\<lparr>current := c, procs := (procs k)[i := (procs k ! i)\<lparr>state := PROC_RUNNING\<rparr>]\<rparr>)"
    by (rule pages_ok_set_cur [OF ok]) simp
  from pages_ok_set [OF this, of p] Some show ?thesis by (simp add: Let_def)
qed

definition entering :: "nat \<Rightarrow> kern \<Rightarrow> kern" where
  "entering p k =
     (let prev = current k;
          k = (case prev of None \<Rightarrow> k | Some c \<Rightarrow> upd_proc c (\<lambda>q. q\<lparr>state := PROC_READY\<rparr>) k);
          k = upd_proc p (\<lambda>q. q\<lparr>state := PROC_RUNNING, block_parent := prev\<rparr>) (k\<lparr>current := Some p\<rparr>);
          k = tty_set_fg (pid (procs k ! p)) (k\<lparr>fg_pid := pid (procs k ! p)\<rparr>);
          k = k\<lparr>tss_esp0 := kstack_top (procs k ! p), resume_yielded := False\<rparr>
      in upd_proc p (\<lambda>q. q\<lparr>started := True\<rparr>) k)"

lemma used_upd: "(\<And>q. used (f q) = used q) \<Longrightarrow> used (procs (upd_proc j f k) ! i) = used (procs k ! i)"
  by (simp add: nth_list_update_if)

lemma pages_ok_entering:
  assumes ok: "pages_ok T k"
  shows "pages_ok T (entering p k)" "length (procs (entering p k)) = length (procs k)" "used (procs (entering p k) ! i) = used (procs k ! i)"
proof -
  show "pages_ok T (entering p k)"
    unfolding entering_def Let_def tty_set_fg_def
    by (intro pages_ok_set pages_ok_fields [THEN iffD2] same_segs_fields) (cases "current k"; simp add: ok pages_ok_set)
  show "length (procs (entering p k)) = length (procs k)"
    by (cases "current k") (simp_all add: entering_def Let_def tty_set_fg_def)
  show "used (procs (entering p k) ! i) = used (procs k ! i)"
    by (cases "current k") (auto simp: entering_def Let_def tty_set_fg_def nth_list_update_if)
qed

text \<open>What \<^verbatim>\<open>proc_run_blocking\<close> does once the process is entered.\<close>

lemma run_blocking_unfold:
  assumes "\<not> BLOCK_STACK_MAX \<le> length (block_stack k)" and "r = proc_ensure_resident (Some p) (entering p k)"
  obtains eip esp where "proc_run_blocking (Some p) k =
    (if image_evicted (procs r ! p) then
       (Returns (-2), upd_proc p (\<lambda>q. q\<lparr>state := PROC_READY\<rparr>) (let k' = r\<lparr>current := current k\<rparr> in
          case current k of None \<Rightarrow> k' | Some c \<Rightarrow> upd_proc c (\<lambda>q. q\<lparr>state := PROC_RUNNING\<rparr>) k'))
     else let b = r\<lparr>block_stack := \<lparr>b_prev = current k, b_child = p\<rparr> # block_stack r\<rparr> in
       if saved_kframe (procs b ! p) \<noteq> 0 then
         let f = saved_kframe (procs b ! p); m = kmm b; m = m\<lparr>mem := mem_set_word (mem m) (f + 28) (user_eax (procs b ! p))\<rparr>
         in (Runs p (Resume f), upd_proc p (\<lambda>q. q\<lparr>saved_kframe := 0\<rparr>) (set_kmm m b))
       else (Runs p (Jump eip esp (user_eax (procs b ! p))), b))"
  by (rule that, unfold assms(2) proc_run_blocking_def Let_def entering_def option.case assms(1) [THEN eq_False [THEN iffD2]] if_False, rule refl)

lemma run_blocking_entering:
  assumes run: "proc_run_blocking (Some p) k = (f, k')" and ok: "pages_ok T k" and p: "p < length (procs k)" "used (procs k ! p)"
  shows "pages_ok T k'"
proof (cases "length (block_stack k) \<ge> BLOCK_STACK_MAX")
  case True
  with run ok show ?thesis by (simp add: proc_run_blocking_def)
next
  case False
  define r where "r = proc_ensure_resident (Some p) (entering p k)"
  note en = pages_ok_entering [OF ok, of p]
  have ok': "pages_ok T r" unfolding r_def by (rule pages_ok_ensure [OF en(1)]) (simp add: en p)
  let ?b = "r\<lparr>block_stack := \<lparr>b_prev = current k, b_child = p\<rparr> # block_stack r\<rparr>"
  have b: "pages_ok T ?b" using ok' by simp
  have m: "pages_ok T (upd_proc p (\<lambda>q. q\<lparr>saved_kframe := 0\<rparr>) (set_kmm ((kmm ?b)\<lparr>mem := M\<rparr>) ?b))" for M
    by (rule pages_ok_set [OF pages_ok_mem [OF b]]) simp
  let ?M = "mem_set_word (mem (kmm r)) (saved_kframe (procs r ! p) + 28) (user_eax (procs r ! p))"
  have "k' = upd_proc p (\<lambda>q. q\<lparr>state := PROC_READY\<rparr>) (let k' = r\<lparr>current := current k\<rparr> in
          case current k of None \<Rightarrow> k' | Some c \<Rightarrow> upd_proc c (\<lambda>q. q\<lparr>state := PROC_RUNNING\<rparr>) k')
      \<or> k' = ?b \<or> k' = upd_proc p (\<lambda>q. q\<lparr>saved_kframe := 0\<rparr>) (set_kmm ((kmm ?b)\<lparr>mem := ?M\<rparr>) ?b)"
    by (rule run_blocking_unfold [OF False r_def]) (use run in \<open>simp add: Let_def split: if_splits\<close>)
  then show ?thesis
  proof (elim disjE)
    assume e: "k' = ?b"
    show ?thesis unfolding e by (rule b)
  next
    assume e: "k' = upd_proc p (\<lambda>q. q\<lparr>saved_kframe := 0\<rparr>) (set_kmm ((kmm ?b)\<lparr>mem := ?M\<rparr>) ?b)"
    show ?thesis unfolding e by (rule m)
  qed (use pages_ok_leaving [OF ok'] in \<open>simp only:\<close>)
qed

lemma pages_ok_return:
  assumes ret: "proc_return_to_kernel k = (r, k')" and ok: "pages_ok T k"
    and low: "\<forall>b\<in>set (block_stack k). \<forall>p. b_prev b = Some p \<longrightarrow> p < length (procs k) \<and> used (procs k ! p)"
  shows "pages_ok T k'"
proof (cases "block_stack k")
  case Nil
  with ret ok show ?thesis by (simp add: proc_return_to_kernel_def)
next
  case (Cons b bs)
  show ?thesis
  proof (cases "b_prev b")
    case None
    with ret ok Cons show ?thesis by (auto simp: proc_return_to_kernel_def Let_def)
  next
    case (Some p)
    then have p: "p < length (procs k)" "used (procs k ! p)" using low Cons by auto
    obtain k1 where k1: "k' = proc_ensure_resident (Some p) k1" "procs k1 = (procs k)[p := (procs k ! p)\<lparr>state := PROC_RUNNING\<rparr>]"
      "kvfs k1 = kvfs k" "kdisp k1 = kdisp k"
      using ret Cons Some by (auto simp: proc_return_to_kernel_def Let_def tty_set_fg_def)
    have "pages_ok T k1" by (rule pages_ok_cong [OF ok, where M = "mem (kmm k)"]) (auto simp: k1 nth_list_update_if)
    then show ?thesis unfolding k1(1) by (rule pages_ok_ensure) (use p in \<open>simp add: k1(2)\<close>)
  qed
qed

section \<open>Loading and starting a program\<close>

lemma pages_ok_elf_load:
  assumes ok: "pages_ok T k" and ld: "elf_load a n k = (r, k')"
  shows "pages_ok T k'"
proof -
  have *: "pages_ok T (set_kmm ((kmm k1)\<lparr>mem := M\<rparr>) k1)" if "proc_evict_range lo hi k = (e, k1)" for lo hi e k1 M
    by (rule pages_ok_mem [OF pages_ok_evict_range [OF ok that]])
  show ?thesis
    using ld ok * pages_ok_evict_range [OF ok]
    by (auto simp: elf_load_def Let_def split: if_splits option.splits prod.splits)
qed

lemma pages_ok_load_file:
  assumes ok: "pages_ok {} k" and ld: "load_file path k = (r, k')"
  shows "pages_ok {} k'"
proof (cases "vfs_size path (kvfs k)")
  case (Inl e)
  with ld ok show ?thesis by (simp add: load_file_def)
next
  case (Inr sz)
  define n where "n = (let np = (sz + PAGE_SIZE - 1) div PAGE_SIZE in if np = 0 then 1 else np)"
  have u: "load_file path k = (case mm_alloc_pages n (kmm k) of (None, m) \<Rightarrow> (Inl (-1), set_kmm m k)
        | (Some file, m) \<Rightarrow>
          let k = set_kmm m k in
          case vfs_read_file path sz (kvfs k) of
            Inl e \<Rightarrow> (Inl (-1), set_kmm (mm_free_pages file n (kmm k)) k)
          | Inr bs \<Rightarrow>
            let k = set_kmm ((kmm k)\<lparr>mem := mem_store (mem (kmm k)) file bs\<rparr>) k in
            if length bs \<noteq> sz then (Inl (-1), set_kmm (mm_free_pages file n (kmm k)) k)
            else let (r, k) = elf_load file (of_nat sz) k
                 in (r, set_kmm (mm_free_pages file n (kmm k)) k))"
    unfolding load_file_def n_def Let_def Inr sum.case by (rule refl)
  note ld = ld [unfolded u]
  obtain po m where al: "mm_alloc_pages n (kmm k) = (po, m)" by fastforce
  show ?thesis
  proof (cases po)
    case None
    then have "m = kmm k" using mm_alloc_None al by blast
    with None al ld ok show ?thesis by simp
  next
    case (Some f)
    note t = pages_ok_take [OF ok al [unfolded Some]]
    have given: "pages_ok {} (set_kmm (mm_free_pages f n (kmm k1)) k1)" if "pages_ok ({} \<union> seg f n) k1" for k1
      using pages_ok_free [OF that t(3,4), of n] by simp
    let ?k = "set_kmm m k"
    have m: "pages_ok ({} \<union> seg f n) (set_kmm ((kmm ?k)\<lparr>mem := M\<rparr>) ?k)" for M by (rule pages_ok_mem [OF t(1)])
    show ?thesis
    proof (cases "vfs_read_file path sz (kvfs ?k)")
      case (Inl e)
      with ld al Some have "k' = set_kmm (mm_free_pages f n (kmm ?k)) ?k" by simp
      with given [OF t(1)] show ?thesis by simp
    next
      case (Inr bs)
      let ?k1 = "set_kmm ((kmm ?k)\<lparr>mem := mem_store (mem (kmm ?k)) f bs\<rparr>) ?k"
      obtain r1 k1 where el: "elf_load f (of_nat sz) ?k1 = (r1, k1)" by fastforce
      have "k' = (if length bs \<noteq> sz then set_kmm (mm_free_pages f n (kmm ?k1)) ?k1 else set_kmm (mm_free_pages f n (kmm k1)) k1)"
        using ld al Some Inr el by (simp add: Let_def split: if_splits)
      with given [OF m] given [OF pages_ok_elf_load [OF m el]] show ?thesis by metis
    qed
  qed
qed

text \<open>The new process takes the two stacks.\<close>

lemma page_arith: "page_ptr a \<Longrightarrow> a \<noteq> 0 \<Longrightarrow> a + of_nat (4 * PAGE_SIZE) \<noteq> 0"
proof -
  assume "page_ptr a" "a \<noteq> 0"
  then have "unat a < unat HEAP_END" using page_addr_range [of "page_index a"] by (auto simp: page_ptr_def word_less_nat_alt)
  then have "unat a + 4 * PAGE_SIZE < 2 ^ 32" by (simp add: HEAP_END_def PAGE_SIZE_def)
  then have "unat (a + of_nat (4 * PAGE_SIZE)) = unat a + 4 * PAGE_SIZE"
    by (subst unat_add_lem [THEN iffD1]) (simp_all add: PAGE_SIZE_def)
  then show ?thesis by (auto simp: PAGE_SIZE_def)
qed

lemma pages_ok_fill:
  assumes ok: "pages_ok (seg stk (USER_STACK_SIZE div PAGE_SIZE) \<union> seg ks 4) k" and i: "i < length (procs k)"
    and q: "procs k ! i = blank_proc\<lparr>used := True\<rparr>" and p: "page_ptr stk" "page_ptr ks" "ks \<noteq> 0"
    and apart: "seg stk (USER_STACK_SIZE div PAGE_SIZE) \<inter> seg ks 4 = {}"
  shows "pages_ok {} (fill_proc i path l stk ks k)"
proof -
  let ?k = "fill_proc i path l stk ks k" define q' where "q' = procs ?k ! i"
  obtain M where f: "kvfs ?k = (kvfs k)\<lparr>vmm := (kmm k)\<lparr>mem := M\<rparr>\<rparr>" "kdisp ?k = kdisp k" "procs ?k = (procs k)[i := q']"
    using i by (auto simp: fill_proc_def q'_def Let_def split_beta)
  have q': "used q'" "image_shadow q' = 0" "ustack q' = stk" "ustack_pages q' = USER_STACK_SIZE div PAGE_SIZE" "kstack_top q' = ks + of_nat (4 * PAGE_SIZE)"
    using i q by (simp_all add: q'_def fill_proc_def Let_def split_beta blank_proc_def)
  have base: "kstack_base q' = ks" using page_arith [OF p(2,3)] by (simp add: kstack_base_def q')
  have sg: "shadow_seg q' = {}" "ustack_seg q' = seg stk (USER_STACK_SIZE div PAGE_SIZE)" "kstack_seg q' = seg ks 4"
    by (simp_all add: seg_defs q' base)
  have old: "proc_segs (procs k ! i) = {}" by (simp add: q proc_segs_def seg_defs blank_proc_def kstack_base_def)
  have "pages_ok {} (k\<lparr>procs := (procs k)[i := q']\<rparr>)"
    by (rule pages_ok_transfer [OF ok i])
      (use apart p in \<open>auto simp: segs_apart_def proc_segs_def sg old proc_ok_def q' base page_ptr_def\<close>)
  then show ?thesis by (rule pages_ok_cong [where M = M]) (simp_all add: f)
qed


lemma pages_ok_alloc_proc:
  assumes ok: "pages_ok T k" and a: "alloc_proc k = Some (i, k')"
  shows "pages_ok T k'" "i < length (procs k')" "procs k' ! i = blank_proc\<lparr>used := True\<rparr>"
proof -
  have i: "i < length (procs k)" "\<not> used (procs k ! i)" and k': "k' = k\<lparr>procs := (procs k)[i := blank_proc\<lparr>used := True\<rparr>]\<rparr>"
    using a first_from_Some [of "\<lambda>q. \<not> used q" "procs k" 1] by (auto simp: alloc_proc_def split: option.splits)
  have e: "proc_segs (blank_proc\<lparr>used := True\<rparr>) = {}" by (simp add: proc_segs_def seg_defs blank_proc_def kstack_base_def)
  then have "shadow_seg (blank_proc\<lparr>used := True\<rparr>) = {}" "ustack_seg (blank_proc\<lparr>used := True\<rparr>) = {}"
    by (simp_all add: proc_segs_def)
  with e show "pages_ok T k'" unfolding k'
    by (intro pages_ok_transfer [OF ok i(1)]) (simp_all add: segs_apart_def proc_ok_def page_ptr_def blank_proc_def kstack_base_def)
  show "i < length (procs k')" "procs k' ! i = blank_proc\<lparr>used := True\<rparr>" using i by (simp_all add: k')
qed

text \<open>Pages that are taken and never given to anyone stay in use.\<close>

lemma pages_ok_leak: "pages_ok T k \<Longrightarrow> pages_ok {} k"
  using pages_ok_mm [of T k "kmm k" "{}"] disjoint_owners_sub [of "kowner T k" _ Buffer] by (auto simp: pages_ok_def)

lemma alloc_proc_others: "alloc_proc k = Some (i, k') \<Longrightarrow> used (procs k ! c) \<Longrightarrow> c < length (procs k) \<Longrightarrow>
    current k' = current k \<and> length (procs k') = length (procs k) \<and> i \<noteq> c \<and> procs k' ! c = procs k ! c"
  using first_from_Some [of "\<lambda>q. \<not> used q" "procs k" 1] by (auto simp: alloc_proc_def nth_list_update_if split: option.splits)

lemma fill_proc_others: "i \<noteq> c \<Longrightarrow> current (fill_proc i path l stk ks k) = current k \<and>
    length (procs (fill_proc i path l stk ks k)) = length (procs k) \<and> procs (fill_proc i path l stk ks k) ! c = procs k ! c"
  by (simp add: fill_proc_def Let_def split_beta)

text \<open>The end of \<^verbatim>\<open>proc_spawn_elf\<close>: the two stacks are allocated and handed to the new process.\<close>

definition give_stacks :: "nat \<Rightarrow> string \<Rightarrow> loaded \<Rightarrow> kern \<Rightarrow> int \<times> kern" where
  "give_stacks i path l k =
     (case mm_alloc_pages (USER_STACK_SIZE div PAGE_SIZE) (kmm k) of
        (None, m) \<Rightarrow> (-1, set_kmm m k)
      | (Some stk, m) \<Rightarrow>
        let k = set_kmm (m\<lparr>mem := mem_set_word (mem m) stk 0xDEADC0DE\<rparr>) k in
        case mm_alloc_pages 4 (kmm k) of
          (None, m) \<Rightarrow> (-1, set_kmm m k)
        | (Some ks, m) \<Rightarrow>
          let new = next_pid k; k = fill_proc i path l stk ks (set_kmm m k)
          in (new, proc_ensure_resident (current k) k))"

lemma spawn_stacks: "proc_spawn_elf path k =
    (case load_file path k of (Inl e, k) \<Rightarrow> (e, k)
     | (Inr l, k) \<Rightarrow> (case alloc_proc k of None \<Rightarrow> (-1, k) | Some (i, k) \<Rightarrow> give_stacks i path l k))"
  unfolding proc_spawn_elf_def give_stacks_def by (rule refl)

lemma pages_ok_kstack:
  assumes ok: "pages_ok (seg stk (USER_STACK_SIZE div PAGE_SIZE)) k" "page_ptr stk"
    and i: "i < length (procs k)" "procs k ! i = blank_proc\<lparr>used := True\<rparr>"
    and cur: "current k = Some c" "c < length (procs k)" "used (procs k ! c)" "i \<noteq> c"
    and ks: "mm_alloc_pages 4 (kmm k) = (Some ks, m)"
  shows "pages_ok {} (proc_ensure_resident (Some c) (fill_proc i path l stk ks (set_kmm m k)))"
proof -
  note t = pages_ok_take [OF ok(1) ks]
  let ?T = "seg stk (USER_STACK_SIZE div PAGE_SIZE)" let ?f = "fill_proc i path l stk ks (set_kmm m k)"
  have sub: "?T \<subseteq> used_pages (kmm k)" using ok(1) disjoint_owners_sub [of "kowner ?T k" _ Buffer] by (simp add: pages_ok_def)
  have "pages_ok {} ?f" by (rule pages_ok_fill [OF t(1)]) (use i ok(2) t(2-4) sub in auto)
  then show ?thesis
    by (rule pages_ok_ensure) (use fill_proc_others [of i c path l stk ks "set_kmm m k"] cur in simp)
qed

lemma pages_ok_give_stacks:
  assumes ok: "pages_ok {} k" and i: "i < length (procs k)" "procs k ! i = blank_proc\<lparr>used := True\<rparr>"
    and cur: "current k = Some c" "c < length (procs k)" "used (procs k ! c)" "i \<noteq> c"
  shows "pages_ok {} (snd (give_stacks i path l k))"
proof (cases "mm_alloc_pages (USER_STACK_SIZE div PAGE_SIZE) (kmm k)")
  case (Pair po m)
  show ?thesis
  proof (cases po)
    case None
    then have "m = kmm k" using mm_alloc_None Pair by blast
    with None Pair ok show ?thesis by (simp add: give_stacks_def)
  next
    case (Some stk)
    let ?T = "seg stk (USER_STACK_SIZE div PAGE_SIZE)"
    note t = pages_ok_take [OF ok Pair [unfolded Some]]
    define k1 where "k1 = set_kmm (m\<lparr>mem := mem_set_word (mem m) stk 0xDEADC0DE\<rparr>) k"
    have ok1: "pages_ok ?T k1" using pages_ok_mem [OF t(1)] by (simp add: k1_def)
    have p1: "procs k1 = procs k" "current k1 = current k" by (simp_all add: k1_def)
    obtain po' m' where ks: "mm_alloc_pages 4 (kmm k1) = (po', m')" by fastforce
    have g: "snd (give_stacks i path l k) = (case po' of None \<Rightarrow> set_kmm m' k1
        | Some ks \<Rightarrow> proc_ensure_resident (current (fill_proc i path l stk ks (set_kmm m' k1))) (fill_proc i path l stk ks (set_kmm m' k1)))"
      using Pair Some ks by (simp add: give_stacks_def k1_def Let_def split: option.split)
    show ?thesis
    proof (cases po')
      case None
      then have "m' = kmm k1" using mm_alloc_None ks by blast
      with None g pages_ok_leak [OF ok1] show ?thesis by simp
    next
      case (Some b)
      have "current (fill_proc i path l stk b (set_kmm m' k1)) = Some c"
        using fill_proc_others [OF cur(4), of path l stk b "set_kmm m' k1"] cur p1 by simp
      then show ?thesis using g Some pages_ok_kstack [OF ok1 t(3), of i c b m' path l] i cur p1 ks by simp
    qed
  qed
qed

lemma pages_ok_spawn:
  assumes ok: "pages_ok {} k" and sp: "proc_spawn_elf path k = (r, k')"
    and cur: "current k = Some c" "c < length (procs k)" "used (procs k ! c)"
  shows "pages_ok {} k'"
proof -
  obtain r1 k1 where l: "load_file path k = (r1, k1)" by fastforce
  note ok1 = pages_ok_load_file [OF ok l]
  have v1: "view k1 = view k" using view_load_file [of path k] l by simp
  have cur1: "current k1 = Some c" "c < length (procs k1)" "used (procs k1 ! c)"
    using cur arg_cong [OF v1, of s_cur] same_length [OF v1] same_core [OF v1, of c] by (simp_all add: core_def)
  show ?thesis
  proof (cases r1)
    case (Inr ld)
    show ?thesis
    proof (cases "alloc_proc k1")
      case (Some a)
      then obtain i k2 where al: "alloc_proc k1 = Some (i, k2)" by (cases a) auto
      note ok2 = pages_ok_alloc_proc [OF ok1 al] and o2 = alloc_proc_others [OF al cur1(3,2)]
      have "k' = snd (give_stacks i path ld k2)" using sp l Inr al by (simp add: spawn_stacks)
      then show ?thesis using pages_ok_give_stacks [OF ok2, of c path ld] o2 cur1 by simp
    qed (use Inr sp l ok1 in \<open>simp add: spawn_stacks\<close>)
  qed (use sp l ok1 in \<open>simp add: spawn_stacks\<close>)
qed

section \<open>Every step keeps the pages apart\<close>

lemma pages_ok_cons:
  assumes ok: "pages_ok T k"
  shows "proc_cons_repair po k = (r, k') \<Longrightarrow> pages_ok T k'" "proc_cons_putc po ch k = (r', k') \<Longrightarrow> pages_ok T k'"
    "proc_cons_read p n k = (s, k') \<Longrightarrow> pages_ok T k'" "proc_cons_getc po k = (g, k') \<Longrightarrow> pages_ok T k'"
  using ok by (auto simp: proc_cons_repair_def proc_cons_putc_def proc_cons_read_def proc_cons_getc_def cons_put_def cons_take_def
      Let_def intro!: pages_ok_set split: option.splits list.splits if_splits prod.splits)

lemma pages_ok_cons_write: "proc_cons_write po s k = (r, k') \<Longrightarrow> pages_ok T k \<Longrightarrow> pages_ok T k'"
proof -
  have "pages_ok T k \<Longrightarrow> pages_ok T (snd (cons_write_loop q s k))" for q
  proof (induction s arbitrary: k)
    case (Cons c s)
    obtain r1 k1 where p: "proc_cons_putc q c k = (r1, k1)" by fastforce
    from Cons.IH [OF pages_ok_cons(2) [OF Cons.prems p]] pages_ok_cons(2) [OF Cons.prems p] show ?case
      by (simp add: p Let_def split_beta)
  qed simp
  then show "proc_cons_write po s k = (r, k') \<Longrightarrow> pages_ok T k \<Longrightarrow> pages_ok T k'"
    by (auto simp: proc_cons_write_def Let_def split_beta split: option.splits if_splits)
qed

lemma same_segs_trans: "same_segs p q \<Longrightarrow> same_segs q r \<Longrightarrow> same_segs p r"
  by (simp add: same_segs_def)

lemma same_segs_key: "same_segs q (snd (cons_key key q))" "same_segs q (cons_in_compact q)" "same_segs q (snd (offer cons_key ks q))"
proof -
  show k: "same_segs q (snd (cons_key key q))" for key q by (simp add: cons_key_def)
  show "same_segs q (cons_in_compact q)" by (simp add: cons_in_compact_def)
  show "same_segs q (snd (offer cons_key ks q))"
    by (induction ks arbitrary: q) (auto simp: Let_def split_beta k intro: same_segs_trans [OF k])
qed

lemma pages_ok_cons_in:
  assumes ok: "pages_ok T k"
  shows "proc_cons_write_in p s k = (r, k') \<Longrightarrow> pages_ok T k'" "proc_cons_putkey p key k = (r, k') \<Longrightarrow> pages_ok T k'"
  using ok by (auto simp: proc_cons_write_in_def proc_cons_putkey_def Let_def split_beta
      intro!: pages_ok_set same_segs_trans [OF same_segs_key(2)] same_segs_key split: option.splits if_splits)

lemma callers_used:
  assumes ok: "sched_ok (view k)"
  shows "\<forall>b\<in>set (block_stack k). \<forall>p. b_prev b = Some p \<longrightarrow> p < length (procs k) \<and> used (procs k ! p)"
proof -
  have len: "length (procs k) = PROC_MAX" using sched_okD [OF ok] by (metis length_map view_sel(1))
  have *: "b \<in> set bs \<Longrightarrow> b_prev b = Some p \<Longrightarrow> p \<in> set (callers bs)" for b p bs
    by (induction bs) auto
  have "p < PROC_MAX \<and> used (procs k ! p)" if "p \<in> set (callers (block_stack k))" for p
    using ok that len by (auto simp: sched_ok_def chain_def on_cpu_def split: option.splits)
  with * len show ?thesis by metis
qed

lemma pages_ok_leave:
  assumes ok: "pages_ok T k" and s: "sched_ok (view k)"
  shows "proc_exit code k = (b, k') \<Longrightarrow> pages_ok T k'" and "proc_yield_to_parent f k = (b, k') \<Longrightarrow> pages_ok T k'"
proof -
  note low = callers_used [OF s]
  have *: "pages_ok T k'" if "proc_return_to_kernel (k\<lparr>procs := (procs k)[c := q], resume_yielded := y\<rparr>) = (b, k')" "same_segs (procs k ! c) q" for c q y b k'
  proof (rule pages_ok_return [OF that(1)])
    show "pages_ok T (k\<lparr>procs := (procs k)[c := q], resume_yielded := y\<rparr>)" using pages_ok_set [OF ok that(2)] by simp
    show "\<forall>b\<in>set (block_stack (k\<lparr>procs := (procs k)[c := q], resume_yielded := y\<rparr>)). \<forall>p. b_prev b = Some p \<longrightarrow>
        p < length (procs (k\<lparr>procs := (procs k)[c := q], resume_yielded := y\<rparr>)) \<and> used (procs (k\<lparr>procs := (procs k)[c := q], resume_yielded := y\<rparr>) ! p)"
      using low that(2) by (auto simp: nth_list_update_if same_segs_def)
  qed
  show "proc_exit code k = (b, k') \<Longrightarrow> pages_ok T k'"
    using ok by (auto simp: proc_exit_def split: option.splits if_splits elim!: *)
  show "proc_yield_to_parent f k = (b, k') \<Longrightarrow> pages_ok T k'"
    using ok by (auto simp: proc_yield_to_parent_def Let_def split: option.splits if_splits elim!: *)
qed

lemma pages_ok_kstep:
  assumes step: "kstep k k'" and ok: "pages_ok {} k" and s: "sched_ok (view k)"
  shows "pages_ok {} k'"
proof -
  obtain c where c: "current k = Some c" "on_cpu (slots (view k) ! c)" "c < PROC_MAX" "length (procs k) = PROC_MAX"
    using sched_okD [OF s] by (metis length_map view_sel(1,2))
  have run: "pages_ok {} k''" if "proc_run_blocking (Some i) k = (f, k'')" "i < length (procs k)" "used (procs k ! i)" for i f k''
    by (rule run_blocking_entering [OF that(1) ok that(2,3)])
  from step show ?thesis
  proof cases
    case k_spawn then show ?thesis using pages_ok_spawn [OF ok] c by (simp add: on_cpu_def)
  next
    case (k_wait p w)
    show ?thesis
    proof (cases "wait_child p k")
      case None with k_wait ok show ?thesis by (simp add: proc_wait_def)
    next
      case (Some i)
      note i = wait_child_facts [OF s Some]
      obtain f k1 where r: "proc_run_blocking (Some i) k = (f, k1)" by fastforce
      have k1: "pages_ok {} k1" using run [OF r] i c(4) by simp
      have w: "pages_ok {} (snd (wait_collect i k))" "pages_ok {} (snd (wait_collect i k1))"
        using pages_ok_collect [OF ok] pages_ok_collect [OF k1] by (metis prod.collapse)+
      have "k' = snd (proc_wait p k)" by (simp add: k_wait(1))
      also have "\<dots> \<in> {k1, snd (wait_collect i k), snd (wait_collect i k1)}"
        by (cases f) (simp_all add: proc_wait_def Some r)
      finally show ?thesis using k1 w by (elim insertE) (simp_all del: insert_iff)
    qed
  next
    case (k_launch p i f)
    with first_from_Some [OF k_launch(1) [unfolded proc_get_def]] show ?thesis using run [OF k_launch(4)] by simp
  next
    case k_exit then show ?thesis by (rule pages_ok_leave(1) [OF ok s])
  next
    case k_yield then show ?thesis by (rule pages_ok_leave(2) [OF ok s])
  next
    case k_collect then show ?thesis by (rule pages_ok_collect [OF ok])
  next
    case k_kill then show ?thesis by (intro pages_ok_kill [OF _ ok])
  next
    case k_repair then show ?thesis by (rule pages_ok_cons(1) [OF ok])
  next
    case k_putc then show ?thesis by (rule pages_ok_cons(2) [OF ok])
  next
    case k_write then show ?thesis by (intro pages_ok_cons_write [OF _ ok])
  next
    case k_read then show ?thesis by (rule pages_ok_cons(3) [OF ok])
  next
    case k_write_in then show ?thesis by (rule pages_ok_cons_in(1) [OF ok])
  next
    case k_putkey then show ?thesis by (rule pages_ok_cons_in(2) [OF ok])
  next
    case k_getc then show ?thesis by (rule pages_ok_cons(4) [OF ok])
  next
    case (k_set_fg p) then show ?thesis using ok by (simp add: proc_set_fg_def tty_set_fg_def)
  next
    case (k_redir i out) then show ?thesis using ok by (simp add: proc_set_spawn_redir_def)
  next
    case (k_cons on)
    have "pages_ok {} (upd_proc c (\<lambda>q. q\<lparr>cons_host := (on \<noteq> 0)\<rparr>) (k\<lparr>spawn_cons_next := (on \<noteq> 0)\<rparr>))"
      by (rule pages_ok_set) (use ok in simp_all)
    then show ?thesis using k_cons c(1) by (simp add: proc_set_spawn_cons_def Let_def)
  next
    case k_timer
    have "pages_ok {} (upd_proc c (\<lambda>q. q\<lparr>need_preempt := True\<rparr>) k)" by (rule pages_ok_set [OF ok]) simp
    then show ?thesis using k_timer c(1) ok by (simp add: sched_on_timer_def)
  qed
qed

section \<open>Files, windows and processes together\<close>

lemma vfs_inv_storage:
  assumes inv: "vfs_inv t" and z: "z \<le> n_cap (nodes t ! i)"
  shows "vfs_inv (upd_node i (\<lambda>x. x\<lparr>n_size := z\<rparr>) (t\<lparr>vmm := (vmm t)\<lparr>mem := M\<rparr>, fds := (fds t)[j := f]\<rparr>))"
    and "vfs_inv (t\<lparr>vmm := (vmm t)\<lparr>mem := M\<rparr>, fds := (fds t)[j := f]\<rparr>)"
proof -
  let ?u = "t\<lparr>vmm := (vmm t)\<lparr>mem := M\<rparr>, fds := (fds t)[j := f]\<rparr>"
  let ?v = "upd_node i (\<lambda>x. x\<lparr>n_size := z\<rparr>) ?u"
  have t: "tree_inv t" "store_inv t" "length (fds t) = VFS_MAX_FD" using inv by (simp_all add: vfs_inv_def)
  have s: "same_shape t ?u" "same_shape t ?v" by (simp_all add: same_shape_def nth_list_update_if)
  have o: "owned ?v = owned t" by (auto simp: owned_def fun_eq_iff nth_list_update_if)
  have "store_inv ?u" using t(2) by (simp add: store_inv_def)
  moreover have "store_ok nd \<Longrightarrow> z \<le> n_cap nd \<Longrightarrow> store_ok (nd\<lparr>n_size := z\<rparr>)" for nd
    by (simp add: store_ok_def split: option.splits)
  then have "store_inv ?v" using t(2) z unfolding store_inv_def o by (auto simp: nth_list_update_if)
  ultimately show "vfs_inv ?v" "vfs_inv ?u"
    using same_shape_tree_inv [OF s(1)] same_shape_tree_inv [OF s(2)] t by (simp_all add: vfs_inv_def)
qed

lemma vfs_write_inv:
  assumes inv: "vfs_inv s" and live: "fd_live s fd"
  shows "vfs_inv (snd (vfs_write fd bs s))"
proof (cases "fd_ok s fd")
  case True
  let ?f = "fds s ! nat fd" let ?i = "f_node ?f" let ?need = "(f_offset ?f + length bs) mod 2 ^ 32"
  have st: "store_inv s" using inv by (simp add: vfs_inv_def)
  have i: "?i < length (nodes s)" "n_used (nodes s ! ?i)" using live True by (simp_all add: fd_live_def Let_def)
  show ?thesis
  proof (cases "has_flag (f_flags ?f) VFS_O_WRITE \<and> \<not> n_is_dir (nodes s ! ?i) \<and> ?need \<le> VFS_FILE_MAX")
    case ok: True
    then have g: "\<not> n_is_dir (nodes s ! ?i)" "?need \<le> VFS_FILE_MAX" by simp_all
    from grow_node_spec [OF st i g] consider t where "grow_node ?i ?need s = Some t" "store_inv t" "storage_step ?i s t" "?need \<le> n_cap (nodes t ! ?i)"
      | "grow_node ?i ?need s = None" by metis
    then show ?thesis
    proof cases
      case 1
      have "vfs_inv t" by (rule storage_step_inv [OF inv 1(3,2)])
      note k = vfs_inv_storage [OF this 1(4), where M = "mem_store (mem (vmm t)) (the_ptr (n_data (nodes t ! ?i)) + of_nat (f_offset ?f)) bs"
          and j = "nat fd" and f = "(fds t ! nat fd)\<lparr>f_offset := ?need\<rparr>"]
      have "snd (vfs_write fd bs s) =
        (let u = t\<lparr>vmm := (vmm t)\<lparr>mem := mem_store (mem (vmm t)) (the_ptr (n_data (nodes t ! ?i)) + of_nat (f_offset ?f)) bs\<rparr>,
             fds := (fds t)[nat fd := (fds t ! nat fd)\<lparr>f_offset := ?need\<rparr>]\<rparr>
         in if n_size (nodes t ! ?i) < ?need then upd_node ?i (\<lambda>x. x\<lparr>n_size := ?need\<rparr>) u else u)"
        using True ok 1(1) by (simp add: vfs_write_def Let_def)
      then show ?thesis unfolding Let_def using k by (cases "n_size (nodes t ! ?i) < ?need") simp_all
    qed (use True ok inv in \<open>simp add: vfs_write_def Let_def\<close>)
  qed (use True inv in \<open>auto simp: vfs_write_def Let_def\<close>)
qed (use inv in \<open>simp add: vfs_write_def\<close>)

lemma fds_length: "vfs_inv s \<Longrightarrow> length (fds s) = VFS_MAX_FD"
  by (simp add: vfs_inv_def)

lemma vfs_fd_inv: "vfs_inv s \<Longrightarrow> vfs_inv (snd (vfs_close fd s))" "vfs_inv s \<Longrightarrow> vfs_inv (snd (vfs_read fd n s))"
proof -
  have u: "vfs_inv s \<Longrightarrow> vfs_inv (s\<lparr>fds := (fds s)[j := f]\<rparr>)" for j f
    using fds_update_inv [of s "(fds s)[j := f]"] by (simp add: vfs_inv_def)
  show "vfs_inv s \<Longrightarrow> vfs_inv (snd (vfs_close fd s))" "vfs_inv s \<Longrightarrow> vfs_inv (snd (vfs_read fd n s))"
    by (simp_all add: vfs_close_def vfs_read_def Let_def u)
qed

text \<open>
  A step of the whole kernel: one of the scheduler's, a file operation or a window request of the
  running process. Paths fit the kernel's buffer, and a write does not go through a descriptor whose file
  has been freed (see \<open>vfs_unlink_dangles\<close>); waits and kills are those of \<open>kstep\<close>.
\<close>

inductive sysstep :: "kern \<Rightarrow> kern \<Rightarrow> bool" where
  sys_proc: "kstep k k' \<Longrightarrow> sysstep k k'"
| sys_mkdir: "path_fits path VFS_PATH_MAX \<Longrightarrow> sysstep k (k\<lparr>kvfs := snd (vfs_mkdir path (kvfs k))\<rparr>)"
| sys_write_file: "path_fits path VFS_PATH_MAX \<Longrightarrow> length bs \<le> VFS_FILE_MAX \<Longrightarrow> sysstep k (k\<lparr>kvfs := snd (vfs_write_file path bs (kvfs k))\<rparr>)"
| sys_unlink: "path_fits path VFS_PATH_MAX \<Longrightarrow> sysstep k (k\<lparr>kvfs := snd (vfs_unlink path (kvfs k))\<rparr>)"
| sys_open: "path_fits path VFS_PATH_MAX \<Longrightarrow> sysstep k (k\<lparr>kvfs := snd (vfs_open path flags (kvfs k))\<rparr>)"
| sys_close: "sysstep k (k\<lparr>kvfs := snd (vfs_close fd (kvfs k))\<rparr>)"
| sys_read: "sysstep k (k\<lparr>kvfs := snd (vfs_read fd n (kvfs k))\<rparr>)"
| sys_write: "fd_live (kvfs k) fd \<Longrightarrow> sysstep k (k\<lparr>kvfs := snd (vfs_write fd bs (kvfs k))\<rparr>)"
| sys_window: "gui_call (proc_current k) req (kdisp k, kmm k) = (d, m) \<Longrightarrow> sysstep k (set_kmm m (k\<lparr>kdisp := d\<rparr>))"

definition kern_ok :: "kern \<Rightarrow> bool" where
  "kern_ok k \<longleftrightarrow> pages_ok {} k \<and> sched_ok (view k) \<and> solo (view k)"

lemma kern_keeps:
  assumes "kern_ok k" and "vfs_inv (kvfs k) \<Longrightarrow> vfs_inv t \<and> others_kept (kvfs k) t"
  shows "kern_ok (k\<lparr>kvfs := t\<rparr>)"
proof -
  have "pages_ok {} k" using assms(1) by (simp add: kern_ok_def)
  then have "vfs_inv (kvfs k)" by (rule pages_ok_vfs)
  with assms show ?thesis by (auto simp: kern_ok_def intro: pages_ok_vfs_step)
qed

lemma sysstep_ok: "sysstep k k' \<Longrightarrow> kern_ok k \<Longrightarrow> kern_ok k'"
proof (induction rule: sysstep.induct)
  case (sys_proc k k')
  then show ?case using pages_ok_kstep kstep_ok by (simp add: kern_ok_def)
next
  case (sys_window k req d m)
  then have ok: "pages_ok {} k" "sched_ok (view k)" "solo (view k)" by (simp_all add: kern_ok_def)
  note inv = pages_ok_disp [OF ok(1)]
  have "disp_inv (d, m)" "others_kept_win (kdisp k, kmm k) (d, m)"
    using disp_inv_call [OF inv, of "proc_current k" req] kept_win_call [OF inv, of "proc_current k" req] sys_window(1) by simp_all
  from pages_ok_disp_step [OF ok(1) this] ok(2,3) show ?case by (simp add: kern_ok_def)
next
  case (sys_mkdir path k)
  then show ?case by (intro kern_keeps) (simp_all add: vfs_mkdir_kept mkdir_result)
next
  case (sys_write_file path bs k)
  then show ?case by (intro kern_keeps) (simp_all add: vfs_write_file_kept write_file_result)
next
  case (sys_unlink path k)
  then show ?case by (intro kern_keeps) (simp_all add: vfs_unlink_kept unlink_result)
next
  case (sys_open path k flags)
  then show ?case by (intro kern_keeps) (simp_all add: vfs_open_kept open_result)
next
  case (sys_write k fd bs)
  then show ?case by (intro kern_keeps) (simp_all add: vfs_write_inv vfs_write_kept inv_parts fds_length)
next
  case (sys_close k fd)
  then show ?case by (intro kern_keeps) (simp_all add: vfs_fd_inv vfs_fd_kept)
next
  case (sys_read k fd n)
  then show ?case by (intro kern_keeps) (simp_all add: vfs_fd_inv vfs_fd_kept)
qed


lemma boot_ok:
  assumes "next_pid k = 1" and "kvfs k = vfs_init m" "kdisp k = display_init" and m: "mm_inv m"
  shows "kern_ok (proc_init k)"
proof -
  let ?k = "proc_init k"
  have f: "kvfs ?k = vfs_init m" "kdisp ?k = display_init" using assms by (simp_all add: proc_init_def)
  have inv: "vfs_inv (kvfs ?k)" "disp_inv (kdisp ?k, kmm ?k)"
    using vfs_init_inv [OF m] disp_inv_init [of "vmm (vfs_init m)"] by (simp_all add: f vfs_inv_def store_inv_def)
  have p: "procs ?k ! i = blank_proc \<or> (\<exists>a b c d. procs ?k ! i = blank_proc\<lparr>used := True, pid := a, state := b, pname := c, cwd := d\<rparr>)"
    if "i < length (procs ?k)" for i using that by (cases i) (auto simp: proc_init_def blank_proc_def)
  have sg: "shadow_seg (procs ?k ! i) = {} \<and> ustack_seg (procs ?k ! i) = {} \<and> kstack_seg (procs ?k ! i) = {} \<and> proc_ok (procs ?k ! i)"
    if "i < length (procs ?k)" for i
    using p [OF that] by (auto simp: seg_defs proc_ok_def kstack_base_def blank_proc_def page_ptr_def)
  have w: "win_owner (kdisp ?k) j = {}" for j by (simp add: f win_owner_def win_pages_def display_init_def blank_win_def)
  have "disjoint_owners (kowner {} ?k) (used_pages (kmm ?k))"
  proof (rule disjoint_owners_replace [where K = "range Node" and own = "\<lambda>_. {}" and P = "{}"])
    have st: "disjoint_owners (owned (kvfs ?k)) (used_pages (kmm ?k))" using inv(1) by (simp add: vfs_inv_def store_inv_def)
    show "kowner {} ?k c = {}" if "c \<notin> range Node" for c using that sg w by (cases c) (auto simp: of_proc_def)
    show "kowner {} ?k c \<subseteq> used_pages (kmm ?k)" if "c \<in> range Node" for c
      using that by (elim rangeE) (simp add: disjoint_owners_sub [OF st])
    show "kowner {} ?k c \<inter> kowner {} ?k c' = {}" if cc: "c \<in> range Node" "c' \<in> range Node" "c \<noteq> c'" for c c'
    proof -
      obtain x where "c = Node x" using cc(1) by blast
      moreover obtain x' where "c' = Node x'" using cc(2) by blast
      ultimately show ?thesis using disjoint_owners_disj [OF st, of x x'] cc(3) by simp
    qed
  qed (simp_all add: disjoint_owners_def)
  then have "pages_ok {} ?k" using inv sg by (simp add: pages_ok_def nodes_ok_def vfs_inv_def store_inv_def disp_inv_def)
  then show ?thesis using init_ok [OF assms(1)] by (simp add: kern_ok_def)
qed


text \<open>A kernel that has just booted makes a directory and starts the display server.\<close>

definition boot_kern :: kern where
  "boot_kern = shell_kern\<lparr>next_pid := 1, kdisp := display_init\<rparr>"


end
