(* ===== verification/FatTable.thy ===== *)
theory FatTable
  imports Fat
begin

text \<open>
  The layout of a FAT volume and its table: numbers in a sector, the geometry a mounted volume has, what
  \<^verbatim>\<open>fat_get\<close> and \<^verbatim>\<open>fat_set\<close> do to an entry, allocation, clearing and growing of chains, and chains as lists of
  clusters.
\<close>

section \<open>Numbers in a sector\<close>

lemma length_put [simp]: "length (put16 i v b) = length b" "length (put32 i v b) = length b"
  by (simp_all add: put16_def put32_def)

lemma length_ent_put [simp]: "length (ent_put v i x b) = length b"
  by (simp add: ent_put_def)

lemma length_put_bytes [simp]: "i + length src \<le> length b \<Longrightarrow> length (put_bytes i src b) = length b"
  by (simp add: put_bytes_def)

lemma mask28: "(x :: u32) AND 0x0FFFFFFF = take_bit 28 x"
  by (simp add: take_bit_eq_mask mask_eq_exp_minus_1)

lemma mask16: "(x :: u32) AND 0xFFFF = take_bit 16 x"
  by (simp add: take_bit_eq_mask mask_eq_exp_minus_1)

lemma le16_put16: "Suc i < length b \<Longrightarrow> le16 (put16 i v b) i = take_bit 16 v"
  by (rule bit_word_eqI) (auto simp: le16_def put16_def bit_simps)

lemma le16_put16_other: "Suc j < i \<or> Suc i < j \<Longrightarrow> le16 (put16 i v b) j = le16 b j"
  by (auto simp: le16_def put16_def nth_list_update)

lemma le32_put32: "i + 3 < length b \<Longrightarrow> le32 (put32 i v b) i = v"
  unfolding le32_def put32_def
  by (simp add: le16_put16 le16_put16_other) (rule bit_word_eqI, auto simp: bit_simps)

lemma le32_put32_other: "j + 3 < i \<or> i + 3 < j \<Longrightarrow> le32 (put32 i v b) j = le32 b j"
  by (auto simp: le32_def put32_def le16_put16_other)

lemma le16_bound: "le16 b i < 0x10000"
proof -
  have "le16 b i = take_bit 16 (le16 b i)" by (rule bit_word_eqI) (auto simp: le16_def bit_simps dest: bit_imp_le_length)
  moreover have "unat (take_bit 16 x) < 2 ^ 16" for x :: u32 unfolding unsigned_take_bit_eq by (rule take_bit_nat_less_exp)
  ultimately have "unat (le16 b i) < 2 ^ 16" by metis
  then show ?thesis by (simp add: word_less_nat_alt)
qed

text \<open>What a FAT entry of the volume's kind keeps of a value.\<close>

definition ent_val :: "fat_fs \<Rightarrow> u32 \<Rightarrow> u32" where
  "ent_val v x = (if b_is_fat32 v then take_bit 28 x else take_bit 16 x)"

lemma ent_get_put:
  assumes "i + (if b_is_fat32 v then 3 else 1) < length b"
  shows "ent_get v (ent_put v i x b) i = ent_val v x"
proof -
  have "(a AND 0xF0000000 OR x AND 0x0FFFFFFF) AND 0x0FFFFFFF = x AND (0x0FFFFFFF :: u32)" for a
    by (simp add: bit.conj_disj_distrib2 and.assoc)
  then show ?thesis using assms by (cases "b_is_fat32 v") (simp_all add: ent_get_def ent_put_def ent_val_def le32_put32 le16_put16 mask28)
qed

lemma ent_get_put_other:
  "j + (if b_is_fat32 v then 3 else 1) < i \<or> i + (if b_is_fat32 v then 3 else 1) < j \<Longrightarrow>
     ent_get v (ent_put v i x b) j = ent_get v b j"
  by (cases "b_is_fat32 v") (auto simp: ent_get_def ent_put_def le32_put32_other le16_put16_other)

section \<open>Geometry\<close>

text \<open>
  The layout of a volume in natural numbers: where the tables start, how long they are, where the data
  starts, the number that bounds the clusters and the one that bounds the sectors.
\<close>

definition fat0 :: "fat_fs \<Rightarrow> nat" where "fat0 v = unat (b_fat_start v)"
definition fsz :: "fat_fs \<Rightarrow> nat" where "fsz v = unat (fat_size v)"
definition nfats :: "fat_fs \<Rightarrow> nat" where "nfats v = unat (b_fats v)"
definition spc :: "fat_fs \<Rightarrow> nat" where "spc v = unat (b_sec_per_clus v)"
definition data0 :: "fat_fs \<Rightarrow> nat" where "data0 v = unat (b_data_start v)"
definition nclus :: "fat_fs \<Rightarrow> nat" where "nclus v = unat (max_clus v)"
definition nsecs :: "fat_fs \<Rightarrow> nat" where "nsecs v = data0 v + (nclus v - 2) * spc v"
definition ew :: "fat_fs \<Rightarrow> nat" where "ew v = (if b_is_fat32 v then 4 else 2)"

text \<open>
  What formatting a volume guarantees: the tables lie before the data and have an entry for every
  cluster, the sectors fit 28-bit addresses, no cluster number is a mark.
\<close>

definition geom :: "fat_fs \<Rightarrow> bool" where
  "geom v \<longleftrightarrow> 1 \<le> spc v \<and> spc v \<le> 255 \<and> 1 \<le> nfats v \<and> 2 \<le> nclus v \<and> fat0 v + nfats v * fsz v \<le> data0 v \<and>
     nsecs v \<le> 2 ^ 28 \<and> nclus v * ew v \<le> fsz v * 512 \<and> nclus v \<le> (if b_is_fat32 v then 0x0FFFFFF0 else 0xFFF0)"

definition sec_at :: "fat \<Rightarrow> nat \<Rightarrow> u8 list" where
  "sec_at s n = d_sec (f_disk s) (of_nat n)"

definition sound :: "fat \<Rightarrow> bool" where
  "sound s \<longleftrightarrow> geom (f_fs s) \<and> (\<forall>n<nsecs (f_fs s). d_ok (f_disk s) (of_nat n) \<and> length (sec_at s n) = 512)"

definition put_sec :: "nat \<Rightarrow> u8 list \<Rightarrow> fat \<Rightarrow> fat" where
  "put_sec n b s = s\<lparr>f_disk := (f_disk s)\<lparr>d_sec := (d_sec (f_disk s))(of_nat n := b)\<rparr>\<rparr>"

lemma put_sec_fields [simp]:
  "f_fs (put_sec n b s) = f_fs s" "f_fdt (put_sec n b s) = f_fdt s" "f_mounted (put_sec n b s) = f_mounted s"
  "f_next (put_sec n b s) = f_next s" "d_ok (f_disk (put_sec n b s)) = d_ok (f_disk s)"
  by (simp_all add: put_sec_def)

lemma of_nat_eq28: "n < 2 ^ 28 \<Longrightarrow> m < 2 ^ 28 \<Longrightarrow> (of_nat n :: u32) = of_nat m \<longleftrightarrow> n = m"
  by (simp add: word_of_nat_eq_iff take_bit_nat_eq_self)

lemma ata_addr_id: "n < 2 ^ 28 \<Longrightarrow> ata_addr (of_nat n) = of_nat n"
proof -
  assume "n < 2 ^ 28"
  then have "unat (take_bit 28 (of_nat n :: u32)) = unat (of_nat n :: u32)"
    by (simp add: unsigned_take_bit_eq take_bit_nat_eq_self unsigned_of_nat)
  then show ?thesis unfolding ata_addr_def mask28 by (rule unsigned_word_eqI)
qed

lemma sec_at_put: "n < 2 ^ 28 \<Longrightarrow> m < 2 ^ 28 \<Longrightarrow> sec_at (put_sec n b s) m = (if m = n then b else sec_at s m)"
  by (simp add: sec_at_def put_sec_def of_nat_eq28)

lemma soundD:
  assumes "sound s" and "n < nsecs (f_fs s)"
  shows "n < 2 ^ 28" "d_ok (f_disk s) (of_nat n)" "length (sec_at s n) = 512"
  using assms by (auto simp: sound_def geom_def)

lemma read_sec_at: "sound s \<Longrightarrow> n < nsecs (f_fs s) \<Longrightarrow> read_sec s (of_nat n) = Some (sec_at s n)"
  using soundD [of s n] by (simp add: read_sec_def disk_read_def sec_at_def ata_addr_id)

lemma write_sec_at: "sound s \<Longrightarrow> n < nsecs (f_fs s) \<Longrightarrow> write_sec (of_nat n) b s = (True, put_sec n b s)"
  using soundD [of s n] by (simp add: write_sec_def disk_write_def put_sec_def ata_addr_id)

lemma sound_put: "sound s \<Longrightarrow> n < nsecs (f_fs s) \<Longrightarrow> length b = 512 \<Longrightarrow> sound (put_sec n b s)"
  unfolding sound_def by (simp add: sec_at_put soundD(1) [of s] sound_def geom_def)

text \<open>What a step may change: the sectors of a set, and where the next search for a free cluster starts.\<close>

definition changes :: "nat set \<Rightarrow> fat \<Rightarrow> fat \<Rightarrow> bool" where
  "changes A s t \<longleftrightarrow> f_fs t = f_fs s \<and> f_fdt t = f_fdt s \<and> f_mounted t = f_mounted s \<and>
     (\<forall>n<nsecs (f_fs s). n \<notin> A \<longrightarrow> sec_at t n = sec_at s n)"

lemma changes_refl: "changes A s s"
  by (simp add: changes_def)

lemma changes_trans: "changes A s t \<Longrightarrow> changes B t u \<Longrightarrow> A \<union> B \<subseteq> C \<Longrightarrow> changes C s u"
  unfolding changes_def by (intro conjI allI impI; (simp; fail)?) (metis UnCI subsetD)

lemma changes_put: "sound s \<Longrightarrow> n < nsecs (f_fs s) \<Longrightarrow> n \<in> A \<Longrightarrow> changes A s (put_sec n b s)"
  using soundD [of s] by (auto simp: changes_def sec_at_put)

lemma changes_next: "changes A s (s\<lparr>f_next := c\<rparr>)"
  by (simp add: changes_def sec_at_def)

section \<open>The table\<close>

definition is_clus :: "fat_fs \<Rightarrow> u32 \<Rightarrow> bool" where
  "is_clus v c \<longleftrightarrow> 2 \<le> c \<and> unat c < nclus v"

definition ent_sec :: "fat_fs \<Rightarrow> u32 \<Rightarrow> nat" where "ent_sec v c = unat c * ew v div 512"
definition ent_pos :: "fat_fs \<Rightarrow> u32 \<Rightarrow> nat" where "ent_pos v c = unat c * ew v mod 512"

definition fat_area :: "fat_fs \<Rightarrow> nat set" where
  "fat_area v = {fat0 v ..< fat0 v + nfats v * fsz v}"

lemma fat_area_secs: "geom v \<Longrightarrow> n \<in> fat_area v \<Longrightarrow> n < nsecs v"
  by (auto simp: fat_area_def geom_def nsecs_def)

lemma ent_facts:
  assumes "geom v" and "unat c < nclus v"
  shows "ent_sec v c < fsz v" "ent_pos v c + ew v \<le> 512" "unat (ent_off v c) = unat c * ew v"
    "unat (ent_off v c mod 512) = ent_pos v c" "unat (ent_off v c div 512) = ent_sec v c"
proof -
  have "(unat c + 1) * ew v \<le> nclus v * ew v" using assms(2) by (intro mult_right_mono) auto
  then have "unat c * ew v + ew v \<le> fsz v * 512" using assms(1) by (simp add: geom_def algebra_simps)
  moreover have "0 < ew v" by (simp add: ew_def)
  ultimately have "unat c * ew v < fsz v * 512" by linarith
  then show "ent_sec v c < fsz v" by (simp add: ent_sec_def div_less_iff_less_mult mult.commute)
  show "ent_pos v c + ew v \<le> 512"
    using mod_mult_mult2 [of "unat c" 4 128] mod_mult_mult2 [of "unat c" 2 256] mod_less_divisor [of 128 "unat c"]
      mod_less_divisor [of 256 "unat c"] by (auto simp: ent_pos_def ew_def)
  have "unat c * ew v < 2 ^ 32" using assms by (simp add: geom_def ew_def split: if_splits)
  then show o: "unat (ent_off v c) = unat c * ew v" by (auto simp: ent_off_def ew_def unat_word_ariths)
  show "unat (ent_off v c mod 512) = ent_pos v c" "unat (ent_off v c div 512) = ent_sec v c"
    by (simp_all add: unat_mod unat_div o ent_pos_def ent_sec_def)
qed

lemma ent_addr:
  assumes "geom v" and "unat c < nclus v" and "unat i < nfats v"
  shows "b_fat_start v + i * fat_size v + ent_off v c div 512 = of_nat (fat0 v + unat i * fsz v + ent_sec v c)"
    and "fat0 v + unat i * fsz v + ent_sec v c \<in> fat_area v"
proof -
  show "b_fat_start v + i * fat_size v + ent_off v c div 512 = of_nat (fat0 v + unat i * fsz v + ent_sec v c)"
    using ent_facts(5) [OF assms(1,2)] by (simp add: fat0_def fsz_def flip: ent_facts(5) [OF assms(1,2)])
  have "(unat i + 1) * fsz v \<le> nfats v * fsz v" using assms(3) by (intro mult_right_mono) auto
  then show "fat0 v + unat i * fsz v + ent_sec v c \<in> fat_area v"
    using ent_facts(1) [OF assms(1,2)] by (simp add: fat_area_def algebra_simps)
qed

text \<open>The entry of a cluster in the first table.\<close>

definition tab :: "fat \<Rightarrow> u32 \<Rightarrow> u32" where
  "tab s c = ent_get (f_fs s) (sec_at s (fat0 (f_fs s) + ent_sec (f_fs s) c)) (ent_pos (f_fs s) c)"

lemma fat_get_tab:
  assumes "sound s" and "unat c < nclus (f_fs s)"
  shows "fat_get s c = tab s c"
proof -
  have g: "geom (f_fs s)" "0 < nfats (f_fs s)" using assms(1) by (auto simp: sound_def geom_def)
  note a = ent_addr [OF g(1) assms(2), of 0] and e = ent_facts [OF g(1) assms(2)]
  have "read_sec s (b_fat_start (f_fs s) + ent_off (f_fs s) c div 512) = Some (sec_at s (fat0 (f_fs s) + ent_sec (f_fs s) c))"
    using a g read_sec_at [OF assms(1) fat_area_secs [OF g(1)]] by (simp del: of_nat_add)
  then show ?thesis by (simp add: fat_get_def tab_def Let_def e)
qed

definition ent_addrs :: "fat_fs \<Rightarrow> u32 \<Rightarrow> nat \<Rightarrow> nat \<Rightarrow> nat set" where
  "ent_addrs v c i k = (\<lambda>j. fat0 v + j * fsz v + ent_sec v c) ` {i ..< i + k}"

lemma ent_addrs_Suc: "ent_addrs v c i (Suc k) = insert (fat0 v + i * fsz v + ent_sec v c) (ent_addrs v c (Suc i) k)"
proof -
  have "{i ..< i + Suc k} = insert i {Suc i ..< Suc i + k}" by auto
  then show ?thesis by (simp add: ent_addrs_def)
qed

lemma ent_addrs_area:
  assumes "geom v" and "unat c < nclus v" and "i + k \<le> nfats v"
  shows "ent_addrs v c i k \<subseteq> fat_area v"
proof -
  have "fat0 v + j * fsz v + ent_sec v c \<in> fat_area v" if "j < nfats v" for j
  proof -
    have "unat (of_nat j :: u32) = j"
      using that unsigned_less [of "b_fats v", where ?'a = nat]
      by (simp add: nfats_def unsigned_of_nat take_bit_nat_eq_self)
    with ent_addr(2) [OF assms(1,2), of "of_nat j"] that show ?thesis by simp
  qed
  with assms(3) show ?thesis by (auto simp: ent_addrs_def)
qed

lemma set_copies_spec:
  assumes "sound s" and "unat c < nclus (f_fs s)" and "unat i + k \<le> nfats (f_fs s)"
  shows "\<exists>t. set_copies k i c x s = (True, t) \<and> sound t \<and> f_next t = f_next s \<and> changes (fat_area (f_fs s)) s t \<and>
     (\<forall>n<nsecs (f_fs s). sec_at t n =
        (if n \<in> ent_addrs (f_fs s) c (unat i) k then ent_put (f_fs s) (ent_pos (f_fs s) c) x (sec_at s n) else sec_at s n))"
  using assms
proof (induction k arbitrary: i s)
  case 0
  then show ?case by (simp add: changes_refl ent_addrs_def)
next
  case (Suc k)
  let ?v = "f_fs s"
  let ?n = "fat0 ?v + unat i * fsz ?v + ent_sec ?v c"
  let ?b = "ent_put ?v (ent_pos ?v c) x (sec_at s ?n)"
  let ?u = "put_sec ?n ?b s"
  have g: "geom ?v" using Suc.prems by (simp add: sound_def)
  have i: "unat i < nfats ?v" using Suc.prems by simp
  note a = ent_addr [OF g Suc.prems(2) i]
  have n: "?n < nsecs ?v" by (rule fat_area_secs [OF g a(2)])
  have u: "sound ?u" using n Suc.prems(1) soundD(3) [OF Suc.prems(1) n] by (intro sound_put) auto
  have i1: "unat (i + 1) = unat i + 1"
    using i by (intro unat_add1_less [of _ "b_fats ?v"]) (simp add: nfats_def word_less_nat_alt)
  obtain t where t: "set_copies k (i + 1) c x ?u = (True, t)" "sound t" "f_next t = f_next s"
    "changes (fat_area ?v) ?u t"
    "\<forall>m<nsecs ?v. sec_at t m =
      (if m \<in> ent_addrs ?v c (unat i + 1) k then ent_put ?v (ent_pos ?v c) x (sec_at ?u m) else sec_at ?u m)"
    using Suc.IH [of ?u "i + 1"] u Suc.prems i1 by auto
  have "set_copies (Suc k) i c x s = (True, t)"
    using t(1) ent_facts(4) [OF g Suc.prems(2)]
    by (simp add: Let_def a(1) read_sec_at [OF Suc.prems(1) n] write_sec_at [OF Suc.prems(1) n] del: of_nat_add)
  moreover have "changes (fat_area ?v) s t"
    by (rule changes_trans [OF changes_put [OF Suc.prems(1) n a(2)] t(4)]) simp
  moreover have "?n \<notin> ent_addrs ?v c (unat i + 1) k"
    using ent_facts(1) [OF g Suc.prems(2)] by (auto simp: ent_addrs_def)
  then have "sec_at t m = (if m \<in> ent_addrs ?v c (unat i) (Suc k) then ent_put ?v (ent_pos ?v c) x (sec_at s m) else sec_at s m)"
    if m: "m < nsecs ?v" for m
  proof -
    have u_m: "sec_at ?u m = (if m = ?n then ?b else sec_at s m)"
      by (rule sec_at_put) (rule soundD(1) [OF Suc.prems(1)], fact)+
    show ?thesis unfolding t(5) [rule_format, OF m] u_m using \<open>?n \<notin> _\<close> by (auto simp: ent_addrs_Suc)
  qed
  ultimately show ?case using t by blast
qed

text \<open>\<^verbatim>\<open>fat_set\<close> changes one entry, in every copy of the table, and nothing else.\<close>

definition only_entry :: "u32 \<Rightarrow> u32 \<Rightarrow> fat \<Rightarrow> fat \<Rightarrow> bool" where
  "only_entry c x s t \<longleftrightarrow> sound t \<and> changes (fat_area (f_fs s)) s t \<and>
     (\<forall>d. unat d < nclus (f_fs s) \<longrightarrow> tab t d = (if d = c then ent_val (f_fs s) x else tab s d))"

lemma ent_pos_apart:
  assumes "ent_sec v c = ent_sec v d" and "c \<noteq> d"
  shows "ent_pos v d + ew v \<le> ent_pos v c \<or> ent_pos v c + ew v \<le> ent_pos v d"
proof -
  have dec: "unat x * ew v = ent_sec v x * 512 + ent_pos v x" for x by (simp add: ent_sec_def ent_pos_def)
  have "unat c < unat d \<or> unat d < unat c" using assms(2) by (metis linorder_neqE_nat unsigned_word_eqI)
  then have "(unat c + 1) * ew v \<le> unat d * ew v \<or> (unat d + 1) * ew v \<le> unat c * ew v"
    using mult_right_mono [of "unat c + 1" "unat d" "ew v"] mult_right_mono [of "unat d + 1" "unat c" "ew v"] by auto
  then show ?thesis using assms(1) by (auto simp: add_mult_distrib dec)
qed

lemma fat_set_spec:
  assumes s: "sound s" and c: "unat c < nclus (f_fs s)"
  shows "\<exists>t. fat_set c x s = (True, t) \<and> only_entry c x s t"
proof -
  let ?v = "f_fs s"
  have g: "geom ?v" "0 < nfats ?v" using s by (auto simp: sound_def geom_def)
  obtain t where t: "set_copies (unat (b_fats ?v)) 0 c x s = (True, t)" "sound t" "f_next t = f_next s"
    "changes (fat_area ?v) s t" and secs: "\<forall>n<nsecs ?v. sec_at t n =
      (if n \<in> ent_addrs ?v c 0 (nfats ?v) then ent_put ?v (ent_pos ?v c) x (sec_at s n) else sec_at s n)"
    using set_copies_spec [OF s c, of 0 "nfats ?v" x] by (auto simp: nfats_def)
  have "tab t d = (if d = c then ent_val ?v x else tab s d)" if d: "unat d < nclus ?v" for d
  proof -
    let ?n = "fat0 ?v + ent_sec ?v d"
    have n: "?n < nsecs ?v" using fat_area_secs [OF g(1) ent_addr(2) [OF g(1) d, of 0]] g by simp
    have mem: "?n \<in> ent_addrs ?v c 0 (nfats ?v) \<longleftrightarrow> ent_sec ?v d = ent_sec ?v c"
    proof -
      have "ent_sec ?v d \<noteq> j * fsz ?v + ent_sec ?v c" if "0 < j" for j
        using that ent_facts(1) [OF g(1) d] by (cases j) auto
      then show ?thesis using g by (force simp: ent_addrs_def image_iff)
    qed
    have len: "length (sec_at s ?n) = 512" by (rule soundD(3) [OF s n])
    have f: "f_fs t = ?v" using t by (simp add: changes_def)
    show ?thesis
    proof (cases "ent_sec ?v d = ent_sec ?v c")
      case False
      then show ?thesis using secs n mem f by (auto simp: tab_def)
    next
      case True
      then have sec: "sec_at t ?n = ent_put ?v (ent_pos ?v c) x (sec_at s ?n)" using secs n mem by simp
      show ?thesis
      proof (cases "d = c")
        case True
        with sec len ent_facts(2) [OF g(1) c] f show ?thesis by (auto simp: tab_def ew_def split: if_splits intro!: ent_get_put)
      next
        case False
        with ent_pos_apart [OF True] sec f show ?thesis by (auto simp: tab_def ew_def split: if_splits intro!: ent_get_put_other)
      qed
    qed
  qed
  with t show ?thesis by (auto simp: fat_set_def only_entry_def)
qed

section \<open>Allocation\<close>

lemma ent_val_mark [simp]: "ent_val v (eoc_mark v) = eoc_mark v"
  by (simp add: ent_val_def eoc_mark_def)

lemma ent_val_0 [simp]: "ent_val v 0 = 0"
  by (simp add: ent_val_def)

lemma ent_val_clus:
  assumes "geom v" and "unat c < nclus v"
  shows "ent_val v c = c"
proof -
  have "unat c < (if b_is_fat32 v then 2 ^ 28 else 2 ^ 16)" using assms by (auto simp: geom_def split: if_splits)
  then have "unat (ent_val v c) = unat c"
    by (auto simp: ent_val_def unsigned_take_bit_eq take_bit_nat_eq_self split: if_splits)
  then show ?thesis by (rule unsigned_word_eqI)
qed

lemma is_clus_in_chain: "geom v \<Longrightarrow> is_clus v c \<Longrightarrow> in_chain v c"
  by (auto simp: geom_def is_clus_def in_chain_def is_eoc_def word_le_nat_alt split: if_splits)

lemma is_eoc_mark [simp]: "is_eoc v (eoc_mark v)"
  by (simp add: is_eoc_def eoc_mark_def)

lemma eoc_mark_not_0 [simp]: "eoc_mark v \<noteq> 0"
  by (simp add: eoc_mark_def)

lemma only_entry_fs: "only_entry c x s t \<Longrightarrow> f_fs t = f_fs s"
  by (simp add: only_entry_def changes_def)

lemma only_entry_tab:
  "only_entry c x s t \<Longrightarrow> unat d < nclus (f_fs s) \<Longrightarrow> tab t d = (if d = c then ent_val (f_fs s) x else tab s d)"
  by (simp add: only_entry_def)

lemma tab_next [simp]: "tab (s\<lparr>f_next := n\<rparr>) c = tab s c" and sound_next [simp]: "sound (s\<lparr>f_next := n\<rparr>) = sound s"
  by (simp_all add: tab_def sec_at_def sound_def)

lemma only_entry_next: "only_entry c x s t \<Longrightarrow> only_entry c x s (t\<lparr>f_next := n\<rparr>)"
  by (auto simp: only_entry_def intro: changes_trans [OF _ changes_next])

definition scan_result :: "u32 \<Rightarrow> u32 \<Rightarrow> fat \<Rightarrow> u32 option \<times> fat \<Rightarrow> bool" where
  "scan_result c lim s r \<longleftrightarrow>
     (case r of
        (None, t) \<Rightarrow> t = s \<and> (\<forall>d. c \<le> d \<and> d < lim \<longrightarrow> tab s d \<noteq> 0)
      | (Some d, t) \<Rightarrow> c \<le> d \<and> d < lim \<and> tab s d = 0 \<and> only_entry d (eoc_mark (f_fs s)) s t)"

lemma alloc_scan_spec:
  assumes "sound s" and "unat lim \<le> nclus (f_fs s)"
  shows "scan_result c lim s (alloc_scan_clus c lim s)"
  using assms
proof (induction c lim s rule: alloc_scan_clus.induct)
  case (1 c lim s)
  show ?case
  proof (cases "c < lim")
    case False
    then show ?thesis by (auto simp: alloc_scan_clus.simps [of c] scan_result_def)
  next
    case lim: True
    then have c: "unat c < nclus (f_fs s)" using 1 by (simp add: word_less_nat_alt)
    show ?thesis
    proof (cases "tab s c = 0")
      case True
      with c obtain t where t: "fat_set c (eoc_mark (f_fs s)) s = (True, t)" "only_entry c (eoc_mark (f_fs s)) s t"
        using fat_set_spec [OF 1(2)] by blast
      with True lim show ?thesis
        by (simp add: alloc_scan_clus.simps [of c] scan_result_def fat_get_tab [OF 1(2) c] only_entry_next)
    next
      case False
      then have "scan_result (c + 1) lim s (alloc_scan_clus (c + 1) lim s)"
        using 1 lim by (simp add: fat_get_tab [OF _ c])
      moreover have "c + 1 \<le> d \<longleftrightarrow> c \<le> d \<and> c \<noteq> d" for d
      proof -
        have "c = d \<longleftrightarrow> unat c = unat d" by (auto dest: unsigned_word_eqI)
        then show ?thesis using unat_add1_less [OF lim] by (auto simp: word_le_nat_alt)
      qed
      ultimately show ?thesis using False lim
        by (auto simp: alloc_scan_clus.simps [of c] scan_result_def fat_get_tab [OF 1(2) c] split: prod.splits option.splits)
    qed
  qed
qed

lemma alloc_cluster_cases:
  assumes s: "sound s"
  shows "(alloc_cluster s = (0, s) \<and> (\<forall>d. is_clus (f_fs s) d \<longrightarrow> tab s d \<noteq> 0)) \<or>
    (\<exists>c t. alloc_cluster s = (c, t) \<and> is_clus (f_fs s) c \<and> tab s c = 0 \<and> only_entry c (eoc_mark (f_fs s)) s t)"
proof -
  define lim where "lim = max_clus (f_fs s)"
  define start where "start = (if f_next s < 2 \<or> lim \<le> f_next s then 2 else f_next s)"
  have lim: "unat lim = nclus (f_fs s)" by (simp add: lim_def nclus_def)
  have "2 \<le> nclus (f_fs s)" using s by (simp add: sound_def geom_def)
  then have start: "2 \<le> start" "start \<le> lim" using lim by (auto simp: start_def word_le_nat_alt word_less_nat_alt)
  have c: "is_clus (f_fs s) d \<longleftrightarrow> 2 \<le> d \<and> d < lim" for d by (simp add: is_clus_def word_less_nat_alt lim)
  have first: "scan_result start lim s (alloc_scan_clus start lim s)" by (rule alloc_scan_spec [OF s]) (simp add: lim)
  have second: "scan_result 2 start s (alloc_scan_clus 2 start s)"
    using start by (intro alloc_scan_spec [OF s]) (simp add: lim [symmetric] word_le_nat_alt)
  show ?thesis
  proof (cases "alloc_scan_clus start lim s")
    case (Pair r t)
    show ?thesis
    proof (cases r)
      case None
      with Pair first have t: "t = s" "\<forall>d. start \<le> d \<and> d < lim \<longrightarrow> tab s d \<noteq> 0" by (simp_all add: scan_result_def)
      show ?thesis
      proof (cases "alloc_scan_clus 2 start s")
        case snd: (Pair r2 t2)
        with second Pair None t start show ?thesis
          by (cases r2)
            (auto simp: alloc_cluster_def Let_def scan_result_def c lim_def [symmetric] start_def [symmetric] intro: order.strict_trans2 leI)
      qed
    next
      case (Some d)
      with Pair first start show ?thesis
        by (auto simp: alloc_cluster_def Let_def scan_result_def c lim_def [symmetric] start_def [symmetric] intro: order_trans)
    qed
  qed
qed

section \<open>Clusters\<close>

definition clus0 :: "fat_fs \<Rightarrow> u32 \<Rightarrow> nat" where
  "clus0 v c = data0 v + (unat c - 2) * spc v"

definition clus_area :: "fat_fs \<Rightarrow> u32 \<Rightarrow> nat set" where
  "clus_area v c = {clus0 v c ..< clus0 v c + spc v}"

lemma clus_lba: "2 \<le> c \<Longrightarrow> clus_to_lba v c + of_nat k = of_nat (clus0 v c + k)"
  by (simp add: clus_to_lba_def clus0_def data0_def spc_def word_le_nat_alt of_nat_diff)

lemma clus_area_secs:
  assumes "geom v" and "is_clus v c" and "n \<in> clus_area v c"
  shows "n < nsecs v"
proof -
  have "(unat c - 2 + 1) * spc v \<le> (nclus v - 2) * spc v"
    using assms(2) by (intro mult_right_mono) (auto simp: is_clus_def word_le_nat_alt)
  with assms(3) show ?thesis by (simp add: clus_area_def clus0_def nsecs_def)
qed

lemma clus_area_fat: "geom v \<Longrightarrow> clus_area v c \<inter> fat_area v = {}"
  by (auto simp: clus_area_def clus0_def fat_area_def geom_def)

lemma clus_area_apart:
  assumes "2 \<le> c" and "2 \<le> d" and "c \<noteq> d"
  shows "clus_area v c \<inter> clus_area v d = {}"
proof -
  have "unat c - 2 < unat d - 2 \<or> unat d - 2 < unat c - 2"
  proof -
    have "unat c \<noteq> unat d" using assms(3) by (auto dest: unsigned_word_eqI)
    with assms(1,2) show ?thesis by (auto simp: word_le_nat_alt)
  qed
  then have "(unat c - 2 + 1) * spc v \<le> (unat d - 2) * spc v \<or> (unat d - 2 + 1) * spc v \<le> (unat c - 2) * spc v"
    using mult_right_mono [of "unat c - 2 + 1" "unat d - 2" "spc v"] mult_right_mono [of "unat d - 2 + 1" "unat c - 2" "spc v"] by auto
  then show ?thesis by (auto simp: clus_area_def clus0_def)
qed

definition clus_data :: "fat \<Rightarrow> u32 \<Rightarrow> u8 list" where
  "clus_data s c = concat (map (sec_at s) [clus0 (f_fs s) c ..< clus0 (f_fs s) c + spc (f_fs s)])"

lemma zero_secs_spec:
  assumes "sound s" and "a + k \<le> nsecs (f_fs s)"
  shows "\<exists>t. zero_secs k (of_nat a) s = (True, t) \<and> sound t \<and> changes {a ..< a + k} s t \<and>
    (\<forall>n. a \<le> n \<and> n < a + k \<longrightarrow> sec_at t n = replicate 512 0)"
  using assms
proof (induction k arbitrary: a s)
  case 0
  then show ?case by (auto simp: changes_refl)
next
  case (Suc k)
  let ?u = "put_sec a (replicate 512 0) s"
  have a: "a < nsecs (f_fs s)" using Suc.prems by simp
  have u: "sound ?u" using Suc.prems a by (intro sound_put) auto
  obtain t where t: "zero_secs k (of_nat (Suc a)) ?u = (True, t)" "sound t" "changes {Suc a ..< Suc a + k} ?u t"
    "\<forall>n. Suc a \<le> n \<and> n < Suc a + k \<longrightarrow> sec_at t n = replicate 512 0"
    using Suc.IH [OF u, of "Suc a"] Suc.prems by auto
  have ch: "changes {a ..< a + Suc k} s t"
    by (rule changes_trans [OF changes_put [OF Suc.prems(1) a, of "{a}"] t(3)]) auto
  have "sec_at t a = sec_at ?u a" using t(3) a by (auto simp: changes_def)
  also have "\<dots> = replicate 512 0" using soundD(1) [OF Suc.prems(1) a] by (simp add: sec_at_put)
  finally have "sec_at t n = replicate 512 0" if "a \<le> n" "n < a + Suc k" for n
    using t(4) that by (cases "n = a") auto
  then show ?case using t ch by (auto simp: write_sec_at [OF Suc.prems(1) a] FAT_SEC_def add.commute)
qed

lemma clus_data_zero:
  assumes "\<forall>n. a \<le> n \<and> n < a + k \<longrightarrow> sec_at t n = replicate 512 0"
  shows "concat (map (sec_at t) [a ..< a + k]) = replicate (k * 512) 0"
proof -
  have "map (sec_at t) [a ..< a + k] = replicate k (replicate 512 0)" using assms by (intro replicate_eqI) auto
  moreover have "concat (replicate k (replicate 512 (0 :: u8))) = replicate (k * 512) 0"
    by (induction k) (simp_all add: replicate_add [symmetric])
  ultimately show ?thesis by simp
qed

lemma zero_cluster_spec:
  assumes "sound s" and "is_clus (f_fs s) c"
  shows "\<exists>t. zero_cluster c s = (True, t) \<and> sound t \<and> changes (clus_area (f_fs s) c) s t \<and>
    clus_data t c = replicate (spc (f_fs s) * 512) 0"
proof -
  let ?v = "f_fs s"
  have g: "geom ?v" "0 < spc ?v" using assms(1) by (auto simp: sound_def geom_def)
  have c: "2 \<le> c" using assms(2) by (simp add: is_clus_def)
  have "clus0 ?v c + spc ?v - 1 \<in> clus_area ?v c" using g by (auto simp: clus_area_def)
  from clus_area_secs [OF g(1) assms(2) this] have "clus0 ?v c + spc ?v \<le> nsecs ?v" using g by simp
  from zero_secs_spec [OF assms(1) this] obtain t where t: "zero_secs (spc ?v) (of_nat (clus0 ?v c)) s = (True, t)" "sound t"
    "changes (clus_area ?v c) s t" "\<forall>n. clus0 ?v c \<le> n \<and> n < clus0 ?v c + spc ?v \<longrightarrow> sec_at t n = replicate 512 0"
    by (auto simp: clus_area_def)
  moreover have "f_fs t = ?v" using t by (simp add: changes_def)
  ultimately show ?thesis
    using clus_lba [OF c, of ?v 0] clus_data_zero [OF t(4)] by (auto simp: zero_cluster_def clus_data_def spc_def)
qed

text \<open>Data and table entries a step leaves alone.\<close>

lemma changes_tab:
  assumes "changes A s t" and "sound s" and "A \<inter> fat_area (f_fs s) = {}" and "unat c < nclus (f_fs s)"
  shows "tab t c = tab s c"
proof -
  have g: "geom (f_fs s)" "0 < nfats (f_fs s)" using assms(2) by (auto simp: sound_def geom_def)
  have m: "fat0 (f_fs s) + ent_sec (f_fs s) c \<in> fat_area (f_fs s)" using ent_addr(2) [OF g(1) assms(4), of 0] g by simp
  with fat_area_secs [OF g(1) m] assms(1,3) show ?thesis by (auto simp: changes_def tab_def)
qed

lemma changes_clus:
  assumes "changes A s t" and "sound s" and "is_clus (f_fs s) c" and "A \<inter> clus_area (f_fs s) c = {}"
  shows "clus_data t c = clus_data s c"
proof -
  have "sec_at t n = sec_at s n" if "n \<in> clus_area (f_fs s) c" for n
    using assms clus_area_secs [OF _ assms(3) that] that by (auto simp: changes_def sound_def)
  moreover have "f_fs t = f_fs s" using assms(1) by (simp add: changes_def)
  ultimately show ?thesis by (auto simp: clus_data_def clus_area_def intro!: arg_cong [where f = concat])
qed

text \<open>A chain grown by a free cluster, which is cleared.\<close>

definition grown :: "u32 \<Rightarrow> u32 \<Rightarrow> fat \<Rightarrow> fat \<Rightarrow> bool" where
  "grown c nc s t \<longleftrightarrow> is_clus (f_fs s) nc \<and> tab s nc = 0 \<and> sound t \<and>
     changes (fat_area (f_fs s) \<union> clus_area (f_fs s) nc) s t \<and>
     (\<forall>d. unat d < nclus (f_fs s) \<longrightarrow> tab t d = (if d = nc then eoc_mark (f_fs s) else if d = c then nc else tab s d)) \<and>
     clus_data t nc = replicate (spc (f_fs s) * 512) 0"

lemma extend_chain_cases:
  assumes s: "sound s" and c: "is_clus (f_fs s) c" "tab s c \<noteq> 0"
  shows "(extend_chain c s = (0, s) \<and> (\<forall>d. is_clus (f_fs s) d \<longrightarrow> tab s d \<noteq> 0)) \<or>
    (\<exists>nc t. nc \<noteq> 0 \<and> extend_chain c s = (nc, t) \<and> grown c nc s t)"
proof (cases "alloc_cluster s = (0, s) \<and> (\<forall>d. is_clus (f_fs s) d \<longrightarrow> tab s d \<noteq> 0)")
  case True
  then show ?thesis by (auto simp: extend_chain_def)
next
  case False
  let ?v = "f_fs s"
  have g: "geom ?v" using s by (simp add: sound_def)
  from False alloc_cluster_cases [OF s] obtain nc t1 where a: "alloc_cluster s = (nc, t1)" "is_clus ?v nc" "tab s nc = 0"
    and o1: "only_entry nc (eoc_mark ?v) s t1" by blast
  have f1: "f_fs t1 = ?v" "sound t1" using o1 by (auto simp: only_entry_def changes_def)
  obtain t2 where t2: "fat_set c nc t1 = (True, t2)" and o2: "only_entry c nc t1 t2"
    using fat_set_spec [of t1 c nc] f1 c by (auto simp: is_clus_def)
  have f2: "f_fs t2 = ?v" "sound t2" using o2 f1 by (auto simp: only_entry_def changes_def)
  obtain t3 where t3: "zero_cluster nc t2 = (True, t3)" "sound t3" "changes (clus_area ?v nc) t2 t3"
    "clus_data t3 nc = replicate (spc ?v * 512) 0"
    using zero_cluster_spec [of t2 nc] f2 a(2) by auto
  have "changes (fat_area ?v) s t2"
    using o1 o2 f1 by (auto simp: only_entry_def intro: changes_trans)
  then have "changes (fat_area ?v \<union> clus_area ?v nc) s t3" using t3(3) by (rule changes_trans) simp
  moreover have "tab t3 d = (if d = nc then eoc_mark ?v else if d = c then nc else tab s d)" if "unat d < nclus ?v" for d
  proof -
    have "tab t3 d = tab t2 d" using changes_tab [OF t3(3) f2(2)] that clus_area_fat [OF g] f2 by simp
    also have "\<dots> = (if d = c then nc else tab t1 d)"
      using only_entry_tab [OF o2, of d] that f1 ent_val_clus [OF g, of nc] a(2) by (simp add: is_clus_def)
    finally show ?thesis using only_entry_tab [OF o1 that] c(2) a(3) by auto
  qed
  moreover have "nc \<noteq> 0" using a(2) by (auto simp: is_clus_def)
  ultimately show ?thesis using a t2 t3 by (auto simp: extend_chain_def grown_def)
qed

section \<open>Chains\<close>

fun linked :: "fat \<Rightarrow> u32 list \<Rightarrow> bool" where
  "linked s [] = True"
| "linked s [c] = (is_clus (f_fs s) c \<and> is_eoc (f_fs s) (tab s c))"
| "linked s (c # d # cs) = (is_clus (f_fs s) c \<and> tab s c = d \<and> linked s (d # cs))"

lemma linked_clus: "linked s cs \<Longrightarrow> c \<in> set cs \<Longrightarrow> is_clus (f_fs s) c"
  by (induction s cs rule: linked.induct) auto

lemma linked_tl: "linked s (c # cs) \<Longrightarrow> linked s cs"
  by (cases cs) auto

lemma linked_drop: "linked s (xs @ ys) \<Longrightarrow> linked s ys"
  by (induction xs) (auto dest: linked_tl)

lemma linked_next: "linked s (xs @ c # d # ys) \<Longrightarrow> tab s c = d"
  by (drule linked_drop) simp

lemma linked_last: "linked s (xs @ [c]) \<Longrightarrow> is_eoc (f_fs s) (tab s c)"
  by (drule linked_drop) simp

lemma linked_tab:
  assumes "linked s cs" and "c \<in> set cs"
  shows "tab s c \<noteq> 0"
proof -
  obtain xs ys where cs: "cs = xs @ c # ys" using assms(2) by (meson split_list)
  show ?thesis
  proof (cases ys)
    case Nil
    with assms(1) cs linked_last have "is_eoc (f_fs s) (tab s c)" by fast
    then show ?thesis by (auto simp: is_eoc_def split: if_splits)
  next
    case (Cons d zs)
    with assms(1) cs have "tab s c = d" "is_clus (f_fs s) d" by (auto dest: linked_next linked_clus)
    then show ?thesis by (auto simp: is_clus_def)
  qed
qed

lemma linked_det: "geom (f_fs s) \<Longrightarrow> linked s (c # xs) \<Longrightarrow> linked s (c # ys) \<Longrightarrow> xs = ys"
proof (induction xs arbitrary: c ys)
  case Nil
  show ?case
  proof (cases ys)
    case (Cons e zs)
    with Nil have e: "is_eoc (f_fs s) e" "linked s (e # zs)" by auto
    from is_clus_in_chain [OF Nil(1) linked_clus [OF e(2)]] e(1) show ?thesis by (simp add: in_chain_def)
  qed simp
next
  case (Cons d xs)
  then have d: "tab s c = d" "is_clus (f_fs s) d" by (auto dest: linked_clus)
  show ?case
  proof (cases ys)
    case Nil
    with Cons.prems d is_clus_in_chain [of "f_fs s" d] show ?thesis by (auto simp: in_chain_def)
  next
    case (Cons e zs)
    with Cons.prems Cons.IH [of d zs] show ?thesis by auto
  qed
qed

lemma linked_distinct:
  assumes "geom (f_fs s)"
  shows "linked s cs \<Longrightarrow> distinct cs"
proof (induction cs)
  case (Cons c cs)
  have "c \<notin> set cs"
  proof
    assume "c \<in> set cs"
    then obtain xs ys where cs: "cs = xs @ c # ys" by (meson split_list)
    have "linked s (c # ys)" using linked_drop [of s "c # xs" "c # ys"] Cons.prems cs by simp
    from linked_det [OF assms Cons.prems this] cs show False by simp
  qed
  moreover have "linked s cs" using linked_drop [of s "[c]" cs] Cons.prems by simp
  ultimately show ?case using Cons.IH by simp
qed simp

end
