(* ===== verification/FatData.thy ===== *)
theory FatData
  imports FatTable PosFile
begin

text \<open>
  The bytes of a file on its chain, and what reading and writing through a descriptor do to them.
\<close>

section \<open>The bytes of a chain\<close>

definition cbytes :: "fat_fs \<Rightarrow> nat" where
  "cbytes v = spc v * 512"

definition file_data :: "fat \<Rightarrow> u32 list \<Rightarrow> u8 list" where
  "file_data s cs = concat (map (clus_data s) cs)"

lemma cbytes_pos: "sound s \<Longrightarrow> 0 < cbytes (f_fs s)"
  by (auto simp: cbytes_def sound_def geom_def)

lemma unat_clus_bytes: "sound s \<Longrightarrow> unat (clus_bytes (f_fs s)) = cbytes (f_fs s)"
  by (auto simp: cbytes_def clus_bytes_def sound_def geom_def spc_def unat_word_ariths)

lemma length_secs:
  assumes "\<forall>n. a \<le> n \<and> n < b \<longrightarrow> length (f n) = 512"
  shows "length (concat (map f [a ..< b])) = (b - a) * 512"
proof -
  have "map (length \<circ> f) [a ..< b] = map (\<lambda>n. 512) [a ..< b]" using assms by (intro map_cong) auto
  then show ?thesis unfolding length_concat map_map by (simp only:) (simp add: sum_list_triv)
qed

lemma clus_secs:
  assumes "sound s" and "is_clus (f_fs s) c" and "n \<in> clus_area (f_fs s) c"
  shows "n < nsecs (f_fs s)" and "length (sec_at s n) = 512"
  using assms clus_area_secs [OF _ assms(2,3)] by (auto simp: sound_def)

lemma length_clus_data: "sound s \<Longrightarrow> is_clus (f_fs s) c \<Longrightarrow> length (clus_data s c) = cbytes (f_fs s)"
  unfolding clus_data_def cbytes_def by (subst length_secs) (auto intro: clus_secs simp: clus_area_def)

lemma length_file_data:
  "sound s \<Longrightarrow> \<forall>c\<in>set cs. is_clus (f_fs s) c \<Longrightarrow> length (file_data s cs) = length cs * cbytes (f_fs s)"
  by (induction cs) (simp_all add: file_data_def length_clus_data)

lemma drop_secs:
  assumes "\<forall>n. a \<le> n \<and> n < b \<longrightarrow> length (f n) = 512" and "a + j \<le> b"
  shows "drop (j * 512) (concat (map f [a ..< b])) = concat (map f [a + j ..< b])"
  using assms(2)
proof (induction j)
  case (Suc j)
  have "[a + j ..< b] = (a + j) # [a + Suc j ..< b]" using Suc.prems by (simp add: upt_conv_Cons)
  with Suc have "drop 512 (drop (j * 512) (concat (map f [a ..< b]))) = drop 512 (f (a + j) @ concat (map f [a + Suc j ..< b]))"
    by (simp del: drop_drop)
  with assms(1) Suc.prems show ?case by simp
qed simp

section \<open>Reading\<close>

lemma sub_bytes_take: "off + k \<le> length b \<Longrightarrow> sub_bytes off k b = take k (drop off b)"
  by (rule nth_equalityI) (auto simp: sub_bytes_def)

lemma unat_add_of_nat:
  fixes x :: u32
  assumes "unat x + k < 2 ^ 32"
  shows "unat (x + of_nat k) = unat x + k"
  using assms by (simp add: unat_word_ariths unsigned_of_nat take_bit_nat_eq_self)

lemma read_secs_spec:
  assumes "sound s" and "is_clus (f_fs s) c" and "sct + k = spc (f_fs s)" and "off < 512"
    and "length got \<le> n" and "n - length got \<le> unat sz - unat pos" and "unat pos \<le> unat sz"
    and "x = take (n - length got) (drop off (concat (map (sec_at s) [clus0 (f_fs s) c + sct ..< clus0 (f_fs s) c + spc (f_fs s)])))"
  shows "\<exists>r. read_secs k s c sct off n sz got pos = (r, got @ x, pos + of_nat (length x)) \<and> (r \<longrightarrow> length (got @ x) = n)"
  using assms
proof (induction k arbitrary: sct off got pos x)
  case 0
  then show ?case by auto
next
  case (Suc k)
  let ?a = "clus0 (f_fs s) c + sct"
  let ?e = "clus0 (f_fs s) c + spc (f_fs s)"
  let ?w = "min (512 - off) (n - length got)"
  have mem: "?a \<in> clus_area (f_fs s) c" using Suc.prems(3) by (simp add: clus_area_def)
  note sec = clus_secs [OF Suc.prems(1,2) mem]
  have lba: "clus_to_lba (f_fs s) c + of_nat sct = of_nat ?a" using Suc.prems(2) by (intro clus_lba) (simp add: is_clus_def)
  have split: "[?a ..< ?e] = ?a # [Suc ?a ..< ?e]" using Suc.prems(3) by (simp add: upt_conv_Cons)
  show ?case
  proof (cases "length got < n")
    case False
    then show ?thesis using Suc.prems by auto
  next
    case True
    define y where "y = take ?w (drop off (sec_at s ?a))"
    have y: "length y = ?w" using sec(2) Suc.prems(4) by (simp add: y_def)
    define z where "z = take (n - length (got @ y)) (concat (map (sec_at s) [Suc ?a ..< ?e]))"
    have x: "x = y @ z"
      using Suc.prems(8) sec(2) Suc.prems(4) True by (simp add: split y_def z_def min_def)
    have want: "min (min (FAT_SEC - off) (n - length got)) (unat (sz - pos)) = ?w"
      using Suc.prems(6,7) by (simp add: FAT_SEC_def unat_sub word_le_nat_alt)
    have pos1: "unat (pos + of_nat ?w) = unat pos + ?w"
      using Suc.prems(6,7) unsigned_less [of sz, where ?'a = nat] by (intro unat_add_of_nat) simp
    have step: "read_secs (Suc k) s c sct off n sz got pos =
        (if sz \<le> pos + of_nat ?w then (True, got @ y, pos + of_nat ?w)
         else read_secs k s c (Suc sct) 0 n sz (got @ y) (pos + of_nat ?w))"
      using True sec Suc.prems(4)
      by (simp add: lba read_sec_at [OF Suc.prems(1) sec(1)] want [simplified] sub_bytes_take y_def Let_def del: of_nat_add)
    show ?thesis
    proof (cases "sz \<le> pos + of_nat ?w")
      case full: True
      then have "n - length got \<le> ?w" using pos1 Suc.prems(6) by (simp add: word_le_nat_alt)
      with x y True have "x = y" "length (got @ y) = n" by (auto simp: z_def)
      with step full y show ?thesis by auto
    next
      case more: False
      have "\<exists>r. read_secs k s c (Suc sct) 0 n sz (got @ y) (pos + of_nat ?w) =
          (r, (got @ y) @ z, pos + of_nat ?w + of_nat (length z)) \<and> (r \<longrightarrow> length ((got @ y) @ z) = n)"
      proof (rule Suc.IH)
        show "n - length (got @ y) \<le> unat sz - unat (pos + of_nat ?w)"
          unfolding pos1 using diff_le_mono [OF Suc.prems(6), of ?w] y by simp
        show "unat (pos + of_nat ?w) \<le> unat sz" using more by (simp only: word_le_nat_alt)
        show "length (got @ y) \<le> n" using y True by simp
      qed (use Suc.prems in \<open>simp_all add: z_def\<close>)
      then obtain r where r: "read_secs k s c (Suc sct) 0 n sz (got @ y) (pos + of_nat ?w) =
          (r, (got @ y) @ z, pos + of_nat ?w + of_nat (length z))" "r \<longrightarrow> length ((got @ y) @ z) = n" by blast
      have "pos + of_nat ?w + of_nat (length z) = pos + of_nat (length x)"
        unfolding x length_append y of_nat_add by (simp only: add.assoc)
      with step more r(1) x have "read_secs (Suc k) s c sct off n sz got pos = (r, got @ x, pos + of_nat (length x))"
        by (simp only: if_False append_assoc)
      with r(2) x show ?thesis by auto
    qed
  qed
qed

lemma fat_get_linked:
  "sound s \<Longrightarrow> is_clus (f_fs s) c \<Longrightarrow> fat_get s c = tab s c"
  by (rule fat_get_tab) (simp_all add: is_clus_def)

lemma skip_clus_linked:
  assumes "sound s" and "linked s cs" and "j + k < length cs"
  shows "skip_clus k s (cs ! j) = Some (cs ! (j + k))"
  using assms(3)
proof (induction k arbitrary: j)
  case (Suc k)
  have g: "geom (f_fs s)" using assms(1) by (simp add: sound_def)
  have j: "cs ! j \<in> set cs" "cs ! Suc j \<in> set cs" using Suc.prems by simp_all
  have "cs = take j cs @ cs ! j # cs ! Suc j # drop (Suc (Suc j)) cs"
    using Suc.prems by (simp add: Cons_nth_drop_Suc id_take_nth_drop)
  with assms(2) linked_next have "tab s (cs ! j) = cs ! Suc j" by metis
  then show ?case
    using Suc.IH [of "Suc j"] Suc.prems fat_get_linked [OF assms(1) linked_clus [OF assms(2) j(1)]]
      is_clus_in_chain [OF g linked_clus [OF assms(2) j(2)]] by simp
qed simp

lemma take_drop_append:
  "k \<le> length xs \<Longrightarrow> take m (drop k (xs @ ys)) = take m (drop k xs) @ take (m - length (take m (drop k xs))) ys"
  by (simp add: min_def)

lemma next_multiple:
  assumes "0 < (m :: nat)"
  shows "p + (m - p mod m) = (p div m + 1) * m"
proof -
  have "p mod m < m" using assms by simp
  then have "p div m * m + p mod m + (m - p mod m) = p div m * m + m" by linarith
  then show ?thesis by simp
qed

lemma read_clus_full: "length got = n \<Longrightarrow> read_clus s n sz c got pos = Some (got, pos)"
  by (simp add: read_clus.simps [of s n sz c])

lemma drop_mod_secs:
  assumes "\<forall>n. a \<le> n \<and> n < a + m \<longrightarrow> length (f n) = 512" and "o' < m * 512"
  shows "drop (o' mod 512) (concat (map f [a + o' div 512 ..< a + m])) = drop o' (concat (map f [a ..< a + m]))"
proof -
  have "o' div 512 < m" using assms(2) by (simp add: div_less_iff_less_mult mult.commute)
  then have "drop (o' mod 512) (concat (map f [a + o' div 512 ..< a + m])) =
      drop (o' mod 512) (drop (o' div 512 * 512) (concat (map f [a ..< a + m])))"
    by (subst drop_secs [OF assms(1)]) simp_all
  then show ?thesis by (simp add: add.commute)
qed

lemma read_clus_step:
  assumes s: "sound s" and c: "is_clus (f_fs s) c" and n: "length got < n"
    and room: "n - length got \<le> unat sz - unat pos" "unat pos \<le> unat sz"
    and y: "y = take (n - length got) (drop (unat pos mod cbytes (f_fs s)) (clus_data s c))"
  shows "\<exists>r. read_clus s n sz c got pos =
      (if r then Some (got @ y, pos + of_nat (length y)) else read_clus s n sz (tab s c) (got @ y) (pos + of_nat (length y))) \<and>
      (r \<longrightarrow> length (got @ y) = n)"
proof -
  let ?v = "f_fs s"
  define o' where "o' = unat pos mod cbytes ?v"
  have g: "geom ?v" using s by (simp add: sound_def)
  have o: "unat (pos mod clus_bytes ?v) = o'" by (simp add: unat_mod unat_clus_bytes [OF s] o'_def)
  have less: "o' < spc ?v * 512" using cbytes_pos [OF s] by (simp add: o'_def cbytes_def)
  then have sct: "o' div 512 + (spc ?v - o' div 512) = spc ?v" by (simp add: div_less_iff_less_mult mult.commute less_imp_le)
  have "drop (o' mod 512) (concat (map (sec_at s) [clus0 ?v c + o' div 512 ..< clus0 ?v c + spc ?v])) = drop o' (clus_data s c)"
    unfolding clus_data_def using less by (intro drop_mod_secs) (auto intro: clus_secs [OF s c] simp: clus_area_def)
  then have y': "y = take (n - length got) (drop (o' mod 512) (concat (map (sec_at s) [clus0 ?v c + o' div 512 ..< clus0 ?v c + spc ?v])))"
    by (simp add: y o'_def)
  have "o' mod 512 < 512" by simp
  from read_secs_spec [OF s c sct this less_imp_le [OF n] room y'] obtain r where
    r: "read_secs (spc ?v - o' div 512) s c (o' div 512) (o' mod 512) n sz got pos = (r, got @ y, pos + of_nat (length y))"
    "r \<longrightarrow> length (got @ y) = n" by blast
  have "read_clus s n sz c got pos =
      (if r then Some (got @ y, pos + of_nat (length y)) else read_clus s n sz (tab s c) (got @ y) (pos + of_nat (length y)))"
    using n is_clus_in_chain [OF g c] r(1)
    by (subst read_clus.simps) (simp add: Let_def o FAT_SEC_def fat_get_linked [OF s c] flip: spc_def)
  with r(2) show ?thesis by blast
qed

lemma read_clus_spec:
  assumes "sound s" and "linked s (c # cs)"
    and "length got \<le> n" and "n - length got \<le> unat sz - unat pos" and "unat pos \<le> unat sz"
    and "n - length got \<le> length (c # cs) * cbytes (f_fs s) - unat pos mod cbytes (f_fs s)"
    and "x = take (n - length got) (drop (unat pos mod cbytes (f_fs s)) (file_data s (c # cs)))"
  shows "read_clus s n sz c got pos = Some (got @ x, pos + of_nat (length x))"
  using assms
proof (induction cs arbitrary: c got pos x)
  case base: Nil
  let ?y = "take (n - length got) (drop (unat pos mod cbytes (f_fs s)) (clus_data s c))"
  have c: "is_clus (f_fs s) c" using base.prems(2) by simp
  have x: "x = ?y" using base.prems(7) by (simp add: file_data_def)
  have len: "length (got @ ?y) = n" using base.prems(3,6) length_clus_data [OF base.prems(1) c] by simp
  show ?case
  proof (cases "length got < n")
    case True
    from read_clus_step [OF base.prems(1) c True base.prems(4,5) refl] len x show ?thesis
      by (auto simp: read_clus_full)
  qed (use base.prems(3) x in \<open>simp add: read_clus_full\<close>)
next
  case (Cons d ds)
  let ?cb = "cbytes (f_fs s)"
  define y where "y = take (n - length got) (drop (unat pos mod ?cb) (clus_data s c))"
  define z where "z = take (n - length (got @ y)) (file_data s (d # ds))"
  have c: "is_clus (f_fs s) c" "tab s c = d" "linked s (d # ds)" using Cons.prems(2) by simp_all
  have cb: "0 < ?cb" "length (clus_data s c) = ?cb" using cbytes_pos [OF Cons.prems(1)] length_clus_data [OF Cons.prems(1) c(1)] by auto
  have y: "length y = min (n - length got) (?cb - unat pos mod ?cb)"
    unfolding y_def length_take length_drop cb(2) by (rule min.commute)
  have x: "x = y @ z" 
  proof -
    have "unat pos mod ?cb \<le> length (clus_data s c)" using cb mod_less_divisor [OF cb(1), of "unat pos"] by simp
    from take_drop_append [OF this, of "n - length got" "file_data s (d # ds)"] Cons.prems(7) show ?thesis
      by (simp only: y_def [symmetric] z_def length_append diff_diff_left) (simp add: file_data_def)
  qed
  show ?case
  proof (cases "length (got @ y) = n")
    case full: True
    then have "z = []" by (simp add: z_def)
    show ?thesis
    proof (cases "length got < n")
      case True
      from read_clus_step [OF Cons.prems(1) c(1) True Cons.prems(4,5) refl] full x \<open>z = []\<close> show ?thesis
        by (auto simp: read_clus_full y_def)
    qed (use Cons.prems(3) x full \<open>z = []\<close> in \<open>simp add: read_clus_full\<close>)
  next
    case more: False
    then have n: "length got < n" "length y = ?cb - unat pos mod ?cb" using Cons.prems(3) y by (auto simp: min_def split: if_splits)
    have len: "length (got @ y) \<le> n" using y Cons.prems(3) by simp
    have "unat pos + length y < 2 ^ 32" using Cons.prems(4,5) y unsigned_less [of sz, where ?'a = nat] by simp
    then have pos1: "unat (pos + of_nat (length y)) = unat pos + length y" by (rule unat_add_of_nat)
    have "unat pos + length y = (unat pos div ?cb + 1) * ?cb"
      using next_multiple [OF cb(1), of "unat pos"] n(2) by simp
    then have m: "unat (pos + of_nat (length y)) mod ?cb = 0" unfolding pos1 by simp
    have "read_clus s n sz d (got @ y) (pos + of_nat (length y)) =
        Some ((got @ y) @ z, pos + of_nat (length y) + of_nat (length z))"
    proof (rule Cons.IH [OF Cons.prems(1) c(3) len])
      show "n - length (got @ y) \<le> unat sz - unat (pos + of_nat (length y))"
        unfolding pos1 using diff_le_mono [OF Cons.prems(4), of "length y"] by simp
      show "unat (pos + of_nat (length y)) \<le> unat sz" unfolding pos1 using Cons.prems(4,5) y by simp
      show "n - length (got @ y) \<le> length (d # ds) * ?cb - unat (pos + of_nat (length y)) mod ?cb"
        unfolding m using Cons.prems(6) n mod_less_divisor [OF cb(1), of "unat pos"] by simp
    qed (simp add: m z_def)
    moreover from read_clus_step [OF Cons.prems(1) c(1) n(1) Cons.prems(4,5) refl]
    have "read_clus s n sz c got pos = read_clus s n sz d (got @ y) (pos + of_nat (length y))"
      using more c(2) by (auto simp flip: y_def)
    ultimately show ?thesis by (simp add: x add.assoc)
  qed
qed

text \<open>
  A file open on a chain: the descriptor's first cluster is the chain's, the chain has room for the size and
  the position lies within it.
\<close>

definition file_on :: "fat \<Rightarrow> fat_fd \<Rightarrow> u32 list \<Rightarrow> bool" where
  "file_on s f cs \<longleftrightarrow> linked s cs \<and> ff_start f = (case cs of [] \<Rightarrow> 0 | c # ds \<Rightarrow> c) \<and> \<not> ff_is_dir f \<and>
     unat (ff_size f) \<le> length cs * cbytes (f_fs s) \<and> ff_pos f \<le> ff_size f"

definition contents :: "fat \<Rightarrow> fat_fd \<Rightarrow> u32 list \<Rightarrow> u8 list" where
  "contents s f cs = take (unat (ff_size f)) (file_data s cs)"

lemma drop_file_data:
  assumes "sound s" and "\<forall>c\<in>set cs. is_clus (f_fs s) c" and "j \<le> length cs"
  shows "drop (j * cbytes (f_fs s)) (file_data s cs) = file_data s (drop j cs)"
proof -
  have "file_data s cs = file_data s (take j cs) @ file_data s (drop j cs)"
    by (simp add: file_data_def flip: concat_append map_append)
  moreover have "length (file_data s (take j cs)) = j * cbytes (f_fs s)"
    using assms by (subst length_file_data) (auto dest: in_set_takeD)
  ultimately show ?thesis by simp
qed

lemma fat_read_result:
  assumes s: "sound s" and f: "fat_fd_at fd s = Some i" "file_on s (f_fdt s ! i) cs" "i < length (f_fdt s)"
    and x: "x = take n (drop (unat (ff_pos (f_fdt s ! i))) (contents s (f_fdt s ! i) cs))"
  shows "fat_read fd n s = Some (Inr x,
    s\<lparr>f_fdt := (f_fdt s)[i := (f_fdt s ! i)\<lparr>ff_pos := ff_pos (f_fdt s ! i) + of_nat (length x)\<rparr>]\<rparr>)"
proof -
  let ?f = "f_fdt s ! i"
  let ?cb = "cbytes (f_fs s)"
  have l: "linked s cs" and size: "unat (ff_size ?f) \<le> length cs * ?cb" and pos: "ff_pos ?f \<le> ff_size ?f" and nd: "\<not> ff_is_dir ?f"
    using f(2) by (simp_all add: file_on_def)
  have clus: "\<forall>c\<in>set cs. is_clus (f_fs s) c" using linked_clus [OF l] by blast
  have len: "length (contents s ?f cs) = unat (ff_size ?f)" using size length_file_data [OF s clus] by (simp add: contents_def)
  show ?thesis
  proof (cases "ff_size ?f \<le> ff_pos ?f")
    case True
    with pos have "ff_size ?f = ff_pos ?f" by simp
    with len x have "x = []" by simp
    with True f(1) nd show ?thesis by (simp add: fat_read_def Let_def)
  next
    case False
    let ?k = "unat (ff_pos ?f) div ?cb"
    let ?n = "min n (unat (ff_size ?f - ff_pos ?f))"
    have lt: "unat (ff_pos ?f) < unat (ff_size ?f)" using False by (simp add: word_less_nat_alt not_le)
    then have k: "?k < length cs" using size cbytes_pos [OF s] by (simp add: div_less_iff_less_mult)
    have sub: "unat (ff_size ?f - ff_pos ?f) = unat (ff_size ?f) - unat (ff_pos ?f)" using pos by (simp add: unat_sub word_le_nat_alt)
    have skip: "skip_clus (unat (ff_pos ?f div clus_bytes (f_fs s))) s (ff_start ?f) = Some (cs ! ?k)"
      using skip_clus_linked [OF s l, of 0 ?k] k f(2)
      by (cases cs) (auto simp: unat_div unat_clus_bytes [OF s] file_on_def)
    have ds: "drop ?k cs = cs ! ?k # drop (Suc ?k) cs" using k by (simp add: Cons_nth_drop_Suc)
    have lk: "linked s (cs ! ?k # drop (Suc ?k) cs)" 
    proof -
      have "linked s (take ?k cs @ drop ?k cs)" using l by simp
      from linked_drop [OF this] show ?thesis unfolding ds .
    qed
    have data: "drop (unat (ff_pos ?f) mod ?cb) (file_data s (drop ?k cs)) = drop (unat (ff_pos ?f)) (file_data s cs)"
      using k by (simp add: drop_file_data [OF s clus, symmetric] add.commute)
    have room: "?n - length [] \<le> length (cs ! ?k # drop (Suc ?k) cs) * ?cb - unat (ff_pos ?f) mod ?cb"
    proof -
      have "unat (ff_pos ?f) = ?k * ?cb + unat (ff_pos ?f) mod ?cb" by simp
      then have "length cs * ?cb - unat (ff_pos ?f) = (length cs - ?k) * ?cb - unat (ff_pos ?f) mod ?cb"
        by (metis diff_diff_left diff_mult_distrib)
      moreover have "length (cs ! ?k # drop (Suc ?k) cs) = length cs - ?k" using k by simp
      ultimately show ?thesis using size sub by (simp only:) linarith
    qed
    have xs: "x = take (?n - length []) (drop (unat (ff_pos ?f) mod ?cb) (file_data s (cs ! ?k # drop (Suc ?k) cs)))"
      unfolding ds [symmetric] data using x sub by (simp add: contents_def drop_take)
    have "read_clus s ?n (ff_size ?f) (cs ! ?k) [] (ff_pos ?f) = Some ([] @ x, ff_pos ?f + of_nat (length x))"
      using pos sub by (intro read_clus_spec [OF s lk _ _ _ room xs]) (simp_all add: word_le_nat_alt)
    with False f(1) nd skip show ?thesis by (simp add: fat_read_def Let_def)
  qed
qed

section \<open>Writing\<close>

lemma put_bytes_overwrite: "put_bytes i src b = overwrite b i src"
  by (simp add: put_bytes_def overwrite_def)

lemma overwrite_Nil [simp]: "overwrite xs p [] = xs"
  by (simp add: overwrite_def)

lemma overwrite_right: "p + length bs \<le> length xs \<Longrightarrow> overwrite xs p bs @ ys = overwrite (xs @ ys) p bs"
  by (simp add: overwrite_def)

lemma overwrite_left: "overwrite (ys @ xs) (length ys + p) bs = ys @ overwrite xs p bs"
  by (simp add: overwrite_def add.assoc)

lemma overwrite_fits: "p + length bs \<le> length xs \<Longrightarrow> length (overwrite xs p bs) = length xs"
  by (simp add: overwrite_def)

lemma take_overwrite_max:
  assumes "p \<le> k" and "k \<le> length xs"
  shows "take (max k (p + length bs)) (overwrite (xs @ ys) p bs) = overwrite (take k xs) p bs"
proof (cases "p + length bs \<le> k")
  case True
  then show ?thesis using assms by (simp add: overwrite_def max_def drop_take)
next
  case False
  then show ?thesis using assms by (simp add: overwrite_def max_def)
qed

text \<open>
  What writing \<open>bs\<close> at \<open>p\<close> into the file on the chain \<open>cs\<close> makes of the volume: the chain grows by the
  clusters \<open>new\<close>, which were free; its bytes are the old ones and zeroes, overwritten; no other entry or
  sector changes.
\<close>

definition areas :: "fat_fs \<Rightarrow> u32 list \<Rightarrow> nat set" where
  "areas v cs = (\<Union>c\<in>set cs. clus_area v c)"

definition wrote :: "fat \<Rightarrow> fat \<Rightarrow> u32 list \<Rightarrow> u32 list \<Rightarrow> nat \<Rightarrow> u8 list \<Rightarrow> bool" where
  "wrote s t cs new p bs \<longleftrightarrow> sound t \<and> linked t (cs @ new) \<and> (\<forall>c\<in>set new. is_clus (f_fs s) c \<and> tab s c = 0) \<and>
     changes (fat_area (f_fs s) \<union> areas (f_fs s) (cs @ new)) s t \<and>
     (\<forall>d. unat d < nclus (f_fs s) \<and> d \<notin> set (cs @ new) \<longrightarrow> tab t d = tab s d) \<and>
     file_data t (cs @ new) = overwrite (file_data s cs @ replicate (length new * cbytes (f_fs s)) 0) p bs \<and>
     p + length bs \<le> length (cs @ new) * cbytes (f_fs s)"

lemma wrote_refl: "sound s \<Longrightarrow> linked s cs \<Longrightarrow> p \<le> length cs * cbytes (f_fs s) \<Longrightarrow> wrote s s cs [] p []"
  by (simp add: wrote_def changes_refl)

lemma wrote_fs: "wrote s t cs new p bs \<Longrightarrow> f_fs t = f_fs s"
  by (simp add: wrote_def changes_def)

lemma wrote_trans:
  assumes s: "sound s" "linked s cs" and w: "wrote s t cs n1 p xs" "wrote t u (cs @ n1) n2 (p + length xs) ys"
  shows "wrote s u cs (n1 @ n2) p (xs @ ys)"
proof -
  let ?v = "f_fs s"
  let ?Z = "\<lambda>n. replicate (n * cbytes ?v) (0 :: u8)"
  note v = wrote_fs [OF w(1)]
  have fresh: "is_clus ?v c \<and> tab s c = 0" if "c \<in> set (n1 @ n2)" for c
  proof (cases "c \<in> set n1")
    case False
    with that have "c \<in> set n2" by simp
    with w(2) v have c: "is_clus ?v c" "tab t c = 0" by (auto simp: wrote_def)
    moreover have "c \<notin> set (cs @ n1)" using c(2) linked_tab [of t "cs @ n1" c] w(1) by (auto simp: wrote_def)
    ultimately show ?thesis using w(1) by (auto simp: wrote_def is_clus_def)
  qed (use w(1) in \<open>simp add: wrote_def\<close>)
  have clus: "\<forall>c\<in>set cs. is_clus ?v c" using s(2) linked_clus by blast
  have len: "length (file_data s cs @ ?Z (length n1)) = length (cs @ n1) * cbytes ?v"
    using length_file_data [OF s(1) clus] by (simp add: add_mult_distrib)
  have fit: "p + length xs \<le> length (cs @ n1) * cbytes ?v" using w(1) by (simp add: wrote_def)
  have "file_data u ((cs @ n1) @ n2) =
      overwrite (overwrite (file_data s cs @ ?Z (length n1)) p xs @ ?Z (length n2)) (p + length xs) ys"
    using w v by (simp add: wrote_def)
  also have "\<dots> = overwrite (overwrite (file_data s cs @ ?Z (length n1 + length n2)) p xs) (p + length xs) ys"
    using fit len by (subst overwrite_right) (simp_all add: add_mult_distrib replicate_add)
  also have "\<dots> = overwrite (file_data s cs @ ?Z (length (n1 @ n2))) p (xs @ ys)"
    using fit len by (subst overwrite_append) (simp_all add: add_mult_distrib)
  finally have data: "file_data u (cs @ n1 @ n2) = overwrite (file_data s cs @ ?Z (length (n1 @ n2))) p (xs @ ys)" by simp
  have "changes (fat_area ?v \<union> areas ?v (cs @ n1)) s t" "changes (fat_area ?v \<union> areas ?v ((cs @ n1) @ n2)) t u"
    using w v by (simp_all add: wrote_def)
  then have ch: "changes (fat_area ?v \<union> areas ?v (cs @ n1 @ n2)) s u"
    by (rule changes_trans) (auto simp: areas_def)
  have "tab u d = tab s d" if "unat d < nclus ?v" "d \<notin> set (cs @ n1 @ n2)" for d
    using w v that by (simp add: wrote_def)
  then show ?thesis using w(2) v fresh data ch by (auto simp: wrote_def add.assoc)
qed

text \<open>A piece of a sector.\<close>

lemma areas_member: "c \<in> set cs \<Longrightarrow> clus_area v c \<subseteq> areas v cs"
  by (auto simp: areas_def)

lemma areas_secs: "geom v \<Longrightarrow> \<forall>c\<in>set cs. is_clus v c \<Longrightarrow> n \<in> areas v cs \<Longrightarrow> n < nsecs v"
  by (auto simp: areas_def intro: clus_area_secs)

lemma areas_fat: "geom v \<Longrightarrow> areas v cs \<inter> fat_area v = {}"
  using clus_area_fat by (auto simp: areas_def)

lemma overwrite_secs:
  assumes "\<forall>n. a \<le> n \<and> n < a + m \<longrightarrow> length (f n) = 512" and "j < m" and "off + length bs \<le> 512"
  shows "concat (map (f(a + j := overwrite (f (a + j)) off bs)) [a ..< a + m]) =
    overwrite (concat (map f [a ..< a + m])) (j * 512 + off) bs"
proof -
  let ?g = "f(a + j := overwrite (f (a + j)) off bs)"
  have split: "[a ..< a + m] = [a ..< a + j] @ (a + j) # [Suc (a + j) ..< a + m]"
    using upt_add_eq_append [of a "a + j" "m - j"] assms(2) by (simp add: upt_conv_Cons)
  have "map ?g [a ..< a + j] = map f [a ..< a + j]" "map ?g [Suc (a + j) ..< a + m] = map f [Suc (a + j) ..< a + m]"
    by (auto intro: map_cong)
  then have g: "concat (map ?g [a ..< a + m]) =
      concat (map f [a ..< a + j]) @ overwrite (f (a + j)) off bs @ concat (map f [Suc (a + j) ..< a + m])"
    unfolding split by simp
  have l: "length (concat (map f [a ..< a + j])) = j * 512" using assms(1,2) by (subst length_secs) auto
  have "overwrite (concat (map f [a ..< a + m])) (j * 512 + off) bs =
      concat (map f [a ..< a + j]) @ overwrite (f (a + j) @ concat (map f [Suc (a + j) ..< a + m])) off bs"
    unfolding split l [symmetric] map_append concat_append by (subst overwrite_left) simp
  also have "overwrite (f (a + j) @ concat (map f [Suc (a + j) ..< a + m])) off bs =
      overwrite (f (a + j)) off bs @ concat (map f [Suc (a + j) ..< a + m])"
    using assms by (subst overwrite_right) auto
  finally show ?thesis using g by simp
qed

lemma put_sec_clus_other:
  assumes "sound s" and "is_clus (f_fs s) c" and "is_clus (f_fs s) d" and "c \<noteq> d" and "n \<in> clus_area (f_fs s) c"
  shows "clus_data (put_sec n b s) d = clus_data s d"
proof (rule changes_clus [OF changes_put [OF assms(1) clus_secs(1) [OF assms(1,2,5)]] assms(1,3)])
  show "n \<in> {n}" by simp
  show "{n} \<inter> clus_area (f_fs s) d = {}"
    using assms clus_area_apart [of c d "f_fs s"] by (auto simp: is_clus_def)
qed

lemma put_sec_clus:
  assumes s: "sound s" "is_clus (f_fs s) c" and k: "j < spc (f_fs s)" "off + length bs \<le> 512"
    and n: "n = clus0 (f_fs s) c + j"
  shows "clus_data (put_sec n (overwrite (sec_at s n) off bs) s) c = overwrite (clus_data s c) (j * 512 + off) bs"
proof -
  let ?v = "f_fs s"
  have area: "m \<in> clus_area ?v c" if "clus0 ?v c \<le> m" "m < clus0 ?v c + spc ?v" for m using that by (simp add: clus_area_def)
  have n28: "m < 2 ^ 28" if "m \<in> clus_area ?v c" for m using clus_secs(1) [OF s that] soundD(1) [OF s(1)] by blast
  have "map (sec_at (put_sec n (overwrite (sec_at s n) off bs) s)) [clus0 ?v c ..< clus0 ?v c + spc ?v] =
      map ((sec_at s)(clus0 ?v c + j := overwrite (sec_at s (clus0 ?v c + j)) off bs)) [clus0 ?v c ..< clus0 ?v c + spc ?v]"
    using n28 area k(1) n by (auto simp: sec_at_put intro!: map_cong)
  moreover have "\<forall>m. clus0 ?v c \<le> m \<and> m < clus0 ?v c + spc ?v \<longrightarrow> length (sec_at s m) = 512"
    using clus_secs(2) [OF s area] by blast
  ultimately show ?thesis unfolding clus_data_def put_sec_fields by (simp only: overwrite_secs [OF _ k])
qed

lemma wrote_write:
  assumes s: "sound s" "linked s cs" and i: "i < length cs" and k: "j < spc (f_fs s)" "off + length bs \<le> 512"
    and n: "n = clus0 (f_fs s) (cs ! i) + j"
  shows "wrote s (put_sec n (overwrite (sec_at s n) off bs) s) cs [] (i * cbytes (f_fs s) + (j * 512 + off)) bs"
proof -
  let ?v = "f_fs s"
  let ?t = "put_sec n (overwrite (sec_at s n) off bs) s"
  let ?p = "i * cbytes ?v + (j * 512 + off)"
  have g: "geom ?v" using s(1) by (simp add: sound_def)
  have clus: "is_clus ?v c" if "c \<in> set cs" for c using linked_clus [OF s(2) that] .
  have c: "is_clus ?v (cs ! i)" using i by (intro clus) simp
  have area: "n \<in> clus_area ?v (cs ! i)" using k(1) n by (simp add: clus_area_def)
  note sec = clus_secs [OF s(1) c area]
  have t: "sound ?t" using sec k(2) by (intro sound_put [OF s(1)]) (simp_all add: overwrite_fits)
  have ch: "changes {n} s ?t" by (rule changes_put [OF s(1) sec(1)]) simp
  have tab: "tab ?t d = tab s d" if "unat d < nclus ?v" for d
    using clus_area_fat [OF g, of "cs ! i"] area that by (intro changes_tab [OF ch s(1)]) auto
  have "linked ?t cs = linked s cs"
    using clus by (induction cs rule: induct_list012) (auto simp: tab is_clus_def)
  moreover have "file_data ?t cs = overwrite (file_data s cs) ?p bs"
  proof -
    have split: "cs = take i cs @ cs ! i # drop (Suc i) cs" using i by (simp add: id_take_nth_drop)
    have dist: "distinct cs" by (rule linked_distinct [OF g s(2)])
    have other: "map (clus_data ?t) xs = map (clus_data s) xs" if "set xs \<subseteq> set cs - {cs ! i}" for xs
      using that clus c put_sec_clus_other [OF s(1) c _ _ area] by (intro map_cong) auto
    have "cs ! i \<notin> set (take i cs)" "cs ! i \<notin> set (drop (Suc i) cs)"
      using dist split by (metis distinct.simps(2) distinct_append Int_iff disjoint_iff list.set_intros(1))+
    then have xs: "map (clus_data ?t) (take i cs) = map (clus_data s) (take i cs)"
      "map (clus_data ?t) (drop (Suc i) cs) = map (clus_data s) (drop (Suc i) cs)"
      by (intro other; auto dest: in_set_takeD in_set_dropD)+
    have l: "length (file_data s (take i cs)) = i * cbytes ?v"
      using i clus length_file_data [OF s(1), of "take i cs"] by (auto dest: in_set_takeD)
    have fit: "j * 512 + off + length bs \<le> length (clus_data s (cs ! i))"
    proof -
      have "(j + 1) * 512 \<le> cbytes ?v" using k(1) unfolding cbytes_def by (intro mult_right_mono) auto
      then show ?thesis using k(2) length_clus_data [OF s(1) c] by simp
    qed
    have app: "file_data u cs = file_data u (take i cs) @ clus_data u (cs ! i) @ file_data u (drop (Suc i) cs)" for u
      by (subst split) (simp add: file_data_def)
    have "file_data ?t cs = file_data s (take i cs) @ overwrite (clus_data s (cs ! i)) (j * 512 + off) bs @ file_data s (drop (Suc i) cs)"
      unfolding app [of ?t] unfolding file_data_def xs put_sec_clus [OF s(1) c k n] ..
    then show ?thesis
      unfolding app [of s] l [symmetric] by (simp add: overwrite_left overwrite_right [OF fit])
  qed
  moreover have "?p + length bs \<le> length cs * cbytes ?v"
  proof -
    have "(j + 1) * 512 \<le> cbytes ?v" using k(1) unfolding cbytes_def by (intro mult_right_mono) auto
    moreover have "(i + 1) * cbytes ?v \<le> length cs * cbytes ?v" using i by (intro mult_right_mono) auto
    ultimately show ?thesis using k(2) by simp
  qed
  moreover have "changes (fat_area ?v \<union> areas ?v cs) s ?t"
    using area areas_member [of "cs ! i" cs ?v] i by (intro changes_put [OF s(1) sec(1)]) auto
  ultimately show ?thesis using s(2) t tab by (simp add: wrote_def)
qed

lemma wrote_extend:
  assumes s: "sound s" "linked s cs" "cs \<noteq> []" and g: "grown (last cs) nc s t" and p: "p \<le> length cs * cbytes (f_fs s)"
  shows "wrote s t cs [nc] p []"
proof -
  let ?v = "f_fs s"
  have v: "f_fs t = ?v" using g by (simp add: grown_def changes_def)
  have clus: "is_clus ?v c" if "c \<in> set cs" for c using linked_clus [OF s(2) that] .
  have nc: "is_clus ?v nc" "tab s nc = 0" "nc \<notin> set cs" using g linked_tab [OF s(2)] by (auto simp: grown_def)
  have tab: "tab t d = (if d = nc then eoc_mark ?v else if d = last cs then nc else tab s d)" if "is_clus ?v d" for d
    using g that by (simp add: grown_def is_clus_def)
  have gm: "geom ?v" using s(1) by (simp add: sound_def)
  have "linked t (xs @ [nc])" if "linked s xs" "xs \<noteq> []" "set xs \<subseteq> set cs" "last xs = last cs" "distinct xs" for xs
    using that
  proof (induction xs rule: induct_list012)
    case (2 x)
    then show ?case using nc(1,3) clus [of x] v by (auto simp: tab)
  next
    case (3 x y zs)
    then have "x \<noteq> last cs" "x \<noteq> nc" using nc(3) by (metis distinct.simps(2) last_ConsR last_in_set list.distinct(1), auto)
    with 3 clus [of x] v show ?case by (auto simp: tab)
  qed simp
  from this [OF s(2,3) subset_refl refl linked_distinct [OF gm s(2)]] have l: "linked t (cs @ [nc])" .
  have ch: "changes (fat_area ?v \<union> clus_area ?v nc) s t" using g by (simp add: grown_def)
  have "clus_data t c = clus_data s c" if "c \<in> set cs" for c
  proof (rule changes_clus [OF ch s(1) clus [OF that]])
    have "c \<noteq> nc" using that nc(3) by auto
    then show "(fat_area ?v \<union> clus_area ?v nc) \<inter> clus_area ?v c = {}"
      using clus_area_fat [OF gm, of c] clus_area_apart [of c nc ?v] clus [OF that] nc(1) by (auto simp: is_clus_def)
  qed
  then have "file_data t (cs @ [nc]) = file_data s cs @ replicate (cbytes ?v) 0"
    using g by (simp add: file_data_def grown_def cbytes_def cong: map_cong)
  moreover have "changes (fat_area ?v \<union> areas ?v (cs @ [nc])) s t"
    by (rule changes_trans [OF ch changes_refl [of "{}"]]) (auto simp: areas_def)
  ultimately show ?thesis
    using g nc l p tab last_in_set [OF s(3)] by (auto simp: wrote_def grown_def)
qed

definition disk_full :: "fat \<Rightarrow> bool" where
  "disk_full s \<longleftrightarrow> (\<forall>d. is_clus (f_fs s) d \<longrightarrow> tab s d \<noteq> 0)"

lemma fd_advance_max: "fd_advance f k = f\<lparr>ff_pos := ff_pos f + of_nat k, ff_size := max (ff_size f) (ff_pos f + of_nat k)\<rparr>"
  by (auto simp: fd_advance_def Let_def max_def)

lemma advance_0: "ff_pos f \<le> ff_size f \<Longrightarrow> fd_advance f 0 = f"
  by (simp add: fd_advance_max max_def)

lemma advance_advance:
  assumes "unat (ff_pos f) + (j + k) < 2 ^ 32"
  shows "fd_advance (fd_advance f j) k = fd_advance f (j + k)"
proof -
  have "ff_pos f + of_nat j \<le> ff_pos f + of_nat (j + k)"
    unfolding word_le_nat_alt using assms by (subst (1 2) unat_add_of_nat) auto
  then show ?thesis by (simp add: fd_advance_max add.assoc max.assoc max_absorb2)
qed

lemma fat_advance_pos: "unat (ff_pos f) + k < 2 ^ 32 \<Longrightarrow> unat (ff_pos (fd_advance f k)) = unat (ff_pos f) + k"
  by (simp add: fd_advance_max unat_add_of_nat)

lemma advance_le: "ff_pos (fd_advance f k) \<le> ff_size (fd_advance f k)"
  by (simp add: fd_advance_max)

lemma write_loop_step:
  assumes s: "sound s" "linked s cs" and p: "p = unat (ff_pos f)" and i: "p div cbytes (f_fs s) < length cs" and bs: "bs \<noteq> []"
    and w: "w = min (512 - p mod cbytes (f_fs s) mod 512) (length bs)"
    and cl: "cl = cs ! (p div cbytes (f_fs s))"
  shows "\<exists>t. wrote s t cs [] p (take w bs) \<and>
    write_loop cl bs f s =
      (if drop w bs = [] then (True, [], fd_advance f w, t)
       else if ff_pos (fd_advance f w) mod clus_bytes (f_fs t) = 0 then
         (if in_chain (f_fs t) (fat_get t cl) then write_loop (fat_get t cl) (drop w bs) (fd_advance f w) t
          else case extend_chain cl t of (nc, u) \<Rightarrow>
                 if nc = 0 then (True, drop w bs, fd_advance f w, u) else write_loop nc (drop w bs) (fd_advance f w) u)
       else write_loop cl (drop w bs) (fd_advance f w) t)"
proof -
  let ?v = "f_fs s"
  let ?o = "p mod cbytes ?v"
  let ?n = "clus0 ?v cl + ?o div 512"
  let ?t = "put_sec ?n (overwrite (sec_at s ?n) (?o mod 512) (take w bs)) s"
  have c: "is_clus ?v cl" using i cl linked_clus [OF s(2)] by simp
  have o: "unat (ff_pos f mod clus_bytes ?v) = ?o" by (simp add: unat_mod unat_clus_bytes [OF s(1)] p)
  have "?o < spc ?v * 512" using cbytes_pos [OF s(1)] by (simp add: cbytes_def)
  then have j: "?o div 512 < spc ?v" by (simp add: div_less_iff_less_mult mult.commute)
  have off: "?o mod 512 + length (take w bs) \<le> 512" using w by (simp add: less_imp_le)
  have mem: "?n \<in> clus_area ?v cl" using j by (simp add: clus_area_def)
  note sec = clus_secs [OF s(1) c mem]
  have lba: "clus_to_lba ?v cl + of_nat (?o div 512) = of_nat ?n" using c by (intro clus_lba) (simp add: is_clus_def)
  have "p div cbytes ?v * cbytes ?v + (?o div 512 * 512 + ?o mod 512) = p" by simp
  with wrote_write [OF s i j off, of ?n] cl have wr: "wrote s ?t cs [] p (take w bs)" by (simp only: cl)
  have w': "min (FAT_SEC - ?o mod FAT_SEC) (length bs) = w" by (simp add: w FAT_SEC_def)
  show ?thesis
    using bs by (intro exI [of _ ?t] conjI wr, subst write_loop.simps)
      (simp add: Let_def o w' [simplified FAT_SEC_def] FAT_SEC_def lba read_sec_at [OF s(1) sec(1)] write_sec_at [OF s(1) sec(1)] put_bytes_overwrite
        del: of_nat_add)
qed

lemma fat_get_last:
  assumes "sound s" and "linked s cs" and "cs \<noteq> []"
  shows "\<not> in_chain (f_fs s) (fat_get s (last cs))" and "tab s (last cs) \<noteq> 0" and "is_clus (f_fs s) (last cs)"
proof -
  have l: "linked s (butlast cs @ [last cs])" using assms by simp
  show c: "is_clus (f_fs s) (last cs)" using linked_clus [OF assms(2) last_in_set [OF assms(3)]] .
  show "tab s (last cs) \<noteq> 0" by (rule linked_tab [OF assms(2) last_in_set [OF assms(3)]])
  show "\<not> in_chain (f_fs s) (fat_get s (last cs))"
    using linked_last [OF l] by (simp add: fat_get_linked [OF assms(1) c] in_chain_def)
qed

lemma fat_get_nth:
  assumes "sound s" and "linked s cs" and "Suc i < length cs"
  shows "fat_get s (cs ! i) = cs ! Suc i" and "in_chain (f_fs s) (cs ! Suc i)"
proof -
  have "skip_clus 1 s (cs ! i) = Some (cs ! Suc i)" using skip_clus_linked [OF assms(1,2), of i 1] assms(3) by simp
  then show "fat_get s (cs ! i) = cs ! Suc i" "in_chain (f_fs s) (cs ! Suc i)"
    by (auto simp: Let_def split: if_splits)
qed

text \<open>The chain grown at its end, or the disk found full.\<close>

lemma extend_last:
  assumes s: "sound s" "linked s cs" "cs \<noteq> []" and p: "p \<le> length cs * cbytes (f_fs s)"
  shows "(extend_chain (last cs) s = (0, s) \<and> disk_full s) \<or>
    (\<exists>nc t. nc \<noteq> 0 \<and> extend_chain (last cs) s = (nc, t) \<and> wrote s t cs [nc] p [])"
  using extend_chain_cases [OF s(1) fat_get_last(3,2) [OF s]] wrote_extend [OF s _ p] by (auto simp: disk_full_def)

definition write_result ::
  "bool \<times> u8 list \<times> fat_fd \<times> fat \<Rightarrow> fat \<Rightarrow> u32 list \<Rightarrow> fat_fd \<Rightarrow> u8 list \<Rightarrow> bool" where
  "write_result r s cs f bs \<longleftrightarrow>
     (\<exists>new k t. r = (True, drop k bs, fd_advance f k, t) \<and> k \<le> length bs \<and>
        wrote s t cs new (unat (ff_pos f)) (take k bs) \<and> (k < length bs \<longrightarrow> disk_full t))"

lemma write_result_trans:
  assumes s: "sound s" "linked s cs" and w: "wrote s t cs new (unat (ff_pos f)) (take j bs)" and j: "j \<le> length bs"
    and no: "unat (ff_pos f) + length bs < 2 ^ 32" and r: "write_result r t (cs @ new) (fd_advance f j) (drop j bs)"
  shows "write_result r s cs f bs"
proof -
  obtain n2 k u where u: "r = (True, drop k (drop j bs), fd_advance (fd_advance f j) k, u)" "k \<le> length (drop j bs)"
    "wrote t u (cs @ new) n2 (unat (ff_pos (fd_advance f j))) (take k (drop j bs))" "k < length (drop j bs) \<longrightarrow> disk_full u"
    using r by (auto simp: write_result_def)
  have "unat (ff_pos (fd_advance f j)) = unat (ff_pos f) + length (take j bs)" using no j by (simp add: fat_advance_pos)
  with wrote_trans [OF s w, of u n2 "take k (drop j bs)"] u(3)
  have "wrote s u cs (new @ n2) (unat (ff_pos f)) (take j bs @ take k (drop j bs))" by simp
  moreover have "take j bs @ take k (drop j bs) = take (j + k) bs" by (simp add: take_add)
  moreover have "fd_advance (fd_advance f j) k = fd_advance f (j + k)" using no u(2) j by (intro advance_advance) simp
  ultimately show ?thesis using u j unfolding write_result_def
    by (intro exI [of _ "new @ n2"] exI [of _ "j + k"] exI [of _ u]) (auto simp: add.commute)
qed

lemma chunk_within:
  assumes "m < k * 512" and "w \<le> 512 - m mod (512 :: nat)"
  shows "m + w \<le> k * 512"
proof -
  obtain q r where m: "m = q * 512 + r" "r < 512" using that [of "m div 512" "m mod 512"] by simp
  then have "q < k" "m mod 512 = r" using assms(1) by simp_all
  then have "(q + 1) * 512 \<le> k * 512" by (intro mult_right_mono) auto
  with m assms(2) \<open>m mod 512 = r\<close> show ?thesis by simp
qed

lemma next_cluster:
  assumes "p + w = i * m" and "0 < w" and "p mod m + w \<le> (m :: nat)"
  shows "i = Suc (p div m)"
proof -
  have m: "0 < m" using assms(2,3) by linarith
  obtain q r where p: "p = q * m + r" "r < m" using that [of "p div m" "p mod m"] m by simp
  have e: "i * m = q * m + (r + w)" using assms(1) p(1) by simp
  have "q * m < i * m" unfolding e using assms(2) by simp
  moreover have "i * m \<le> Suc q * m" unfolding e using assms(3) p by simp
  ultimately have "q < i" "i \<le> Suc q" using m by (simp_all only: mult_less_cancel2 mult_le_cancel2)
  with p m show ?thesis by simp
qed

lemma same_cluster:
  assumes "p mod m + w < (m :: nat)"
  shows "(p + w) div m = p div m"
proof -
  have m: "0 < m" using assms by linarith
  obtain q r where p: "p = q * m + r" "r < m" using that [of "p div m" "p mod m"] m by simp
  with assms m have "(q * m + (r + w)) div m = q" by (subst div_mult_self3) simp_all
  with p m show ?thesis by (simp add: add.assoc)
qed

lemma write_loop_spec:
  assumes "sound s" and "linked s cs" and "unat (ff_pos f) div cbytes (f_fs s) < length cs"
    and "unat (ff_pos f) + length bs < 2 ^ 32" and "ff_pos f \<le> ff_size f"
    and "cl = cs ! (unat (ff_pos f) div cbytes (f_fs s))"
  shows "write_result (write_loop cl bs f s) s cs f bs"
  using assms
proof (induction "length bs" arbitrary: s cs f bs cl rule: less_induct)
  case less
  note s = less.prems(1,2)
  let ?p = "unat (ff_pos f)"
  let ?cb = "cbytes (f_fs s)"
  have cb: "0 < ?cb" by (rule cbytes_pos [OF s(1)])
  have room: "?p < length cs * ?cb" using less.prems(3) cb by (simp add: div_less_iff_less_mult)
  show ?case
  proof (cases "bs = []")
    case True
    with wrote_refl [OF s less_imp_le [OF room]] show ?thesis
      unfolding write_result_def
      by (intro exI [of _ "[]"] exI [of _ 0] exI [of _ s]) (simp add: write_loop.simps advance_0 less.prems(5))
  next
    case bs: False
    define w where "w = min (512 - ?p mod ?cb mod 512) (length bs)"
    let ?f = "fd_advance f w"
    have w: "0 < w" "w \<le> length bs" using bs by (simp_all add: w_def)
    obtain t where t: "wrote s t cs [] ?p (take w bs)" and step: "write_loop cl bs f s =
      (if drop w bs = [] then (True, [], ?f, t)
       else if ff_pos ?f mod clus_bytes (f_fs t) = 0 then
         (if in_chain (f_fs t) (fat_get t cl) then write_loop (fat_get t cl) (drop w bs) ?f t
          else case extend_chain cl t of (nc, u) \<Rightarrow>
                 if nc = 0 then (True, drop w bs, ?f, u) else write_loop nc (drop w bs) ?f u)
       else write_loop cl (drop w bs) ?f t)"
      using write_loop_step [OF s refl less.prems(3) bs w_def less.prems(6)] by blast
    have st: "sound t" "linked t cs" "f_fs t = f_fs s" using t wrote_fs [OF t] by (simp_all add: wrote_def)
    have p1: "unat (ff_pos ?f) = ?p + w" using less.prems(4) w by (simp add: fat_advance_pos)
    have fit: "?p + w \<le> length cs * ?cb" using t w by (simp add: wrote_def)
    have shorter: "length (drop w bs) < length bs" "unat (ff_pos ?f) + length (drop w bs) < 2 ^ 32"
      using w less.prems(4) by (simp_all add: p1)
    have within: "?p mod ?cb + w \<le> ?cb"
      using chunk_within [of "?p mod ?cb" "spc (f_fs s)" w] cb by (simp add: cbytes_def w_def)
    note trans = write_result_trans [OF s _ w(2) less.prems(4)]
    have fwd: "write_result r s cs f bs" if "write_result r t cs ?f (drop w bs)" for r
      using trans [of t "[]" r] t that by simp
    show ?thesis
    proof (cases "drop w bs = []")
      case True
      then have "w = length bs" using w by simp
      with step t show ?thesis unfolding write_result_def
        by (intro exI [of _ "[]"] exI [of _ w] exI [of _ t]) simp
    next
      case more: False
      have m: "ff_pos ?f mod clus_bytes (f_fs t) = 0 \<longleftrightarrow> (?p + w) mod ?cb = 0"
        using p1 unat_clus_bytes [OF st(1)] st(3) by (simp add: unat_eq_0 [symmetric] unat_mod)
      show ?thesis
      proof (cases "(?p + w) mod ?cb = 0")
        case False
        then have "?p mod ?cb + w \<noteq> ?cb" by (metis mod_add_left_eq mod_self)
        with within have "?p mod ?cb + w < ?cb" by simp
        then have "(?p + w) div ?cb = ?p div ?cb" by (rule same_cluster)
        then have "write_result (write_loop cl (drop w bs) ?f t) t cs ?f (drop w bs)"
          using less.prems st shorter p1 by (intro less.hyps) (simp_all add: advance_le)
        with fwd step more m False show ?thesis by simp
      next
        case True
        then obtain i where i: "?p + w = i * ?cb" using mod_eq_0_iff_dvd [of "?p + w" ?cb] by (metis dvd_def mult.commute)
        then have div: "(?p + w) div ?cb = i" "i \<le> length cs" using cb fit by simp_all
        have i1: "i = Suc (?p div ?cb)" by (rule next_cluster [OF i w(1) within])
        have cl: "cl = cs ! (i - 1)" "cs \<noteq> []" using less.prems(3,6) i1 by auto
        show ?thesis
        proof (cases "i < length cs")
          case True
          then have nx: "fat_get t cl = cs ! i" "in_chain (f_fs t) (cs ! i)" using fat_get_nth [OF st(1,2), of "i - 1"] i1 cl by auto
          have "write_result (write_loop (cs ! i) (drop w bs) ?f t) t cs ?f (drop w bs)"
            using st shorter p1 div True by (intro less.hyps) (simp_all add: advance_le)
          with fwd step more m nx \<open>(?p + w) mod ?cb = 0\<close> show ?thesis by simp
        next
          case False
          then have il: "i = length cs" using div by simp
          then have last: "cl = last cs" using cl by (simp add: last_conv_nth)
          have "unat (ff_pos ?f) \<le> length cs * cbytes (f_fs t)" using fit p1 st by simp
          from extend_last [OF st(1,2) cl(2) this] show ?thesis
          proof (elim disjE exE conjE)
            assume "extend_chain (last cs) t = (0, t)" "disk_full t"
            with step more m True fat_get_last(1) [OF st(1,2) cl(2)] t w show ?thesis
              unfolding write_result_def last
              by (intro exI [of _ "[]"] exI [of _ w] exI [of _ t]) simp
          next
            fix nc u assume u: "nc \<noteq> 0" "extend_chain (last cs) t = (nc, u)" "wrote t u cs [nc] (unat (ff_pos ?f)) []"
            have su: "sound u" "linked u (cs @ [nc])" "f_fs u = f_fs s" using u(3) st wrote_fs [OF u(3)] by (simp_all add: wrote_def)
            have "write_result (write_loop nc (drop w bs) ?f u) u (cs @ [nc]) ?f (drop w bs)"
              using su shorter p1 div il by (intro less.hyps) (simp_all add: advance_le)
            then have "write_result (write_loop nc (drop w bs) ?f u) t cs ?f (drop w bs)"
              using write_result_trans [OF st(1,2), of u "[nc]" ?f 0 "drop w bs"] u(3) shorter by (simp add: advance_0 advance_le)
            with fwd step more m True fat_get_last(1) [OF st(1,2) cl(2)] u last show ?thesis by simp
          qed
        qed
      qed
    qed
  qed
qed

lemma write_skip_spec:
  assumes "sound s" and "linked s cs" and "j < length cs" and "j + k \<le> length cs"
  shows "if j + k < length cs then write_skip k (cs ! j) s = (Some (cs ! (j + k)), s)
    else write_skip k (cs ! j) s = (case extend_chain (last cs) s of (nc, t) \<Rightarrow> (if nc = 0 then None else Some nc, t))"
  using assms(3,4)
proof (induction k arbitrary: j)
  case (Suc k)
  show ?case
  proof (cases "Suc j < length cs")
    case True
    with Suc.IH [of "Suc j"] Suc.prems fat_get_nth [OF assms(1,2) True] show ?thesis by simp
  next
    case False
    then have "j = length cs - 1" "cs \<noteq> []" "\<not> j + Suc k < length cs" using Suc.prems by auto
    moreover from this have "cs ! j = last cs" by (simp add: last_conv_nth)
    ultimately show ?thesis using fat_get_last(1) [OF assms(1,2)] by (simp add: Let_def)
  qed
qed simp

definition rest_result ::
  "(vfs_err + nat) \<times> fat_fd \<times> fat \<Rightarrow> fat \<Rightarrow> u32 list \<Rightarrow> fat_fd \<Rightarrow> u8 list \<Rightarrow> bool" where
  "rest_result r s cs f bs \<longleftrightarrow>
     (\<exists>new k t. k \<le> length bs \<and> wrote s t cs new (unat (ff_pos f)) (take k bs) \<and> (k < length bs \<longrightarrow> disk_full t) \<and>
        (r = (Inr k, fd_advance f k, snd (update_dirent (fd_advance f k) t)) \<or> r = (Inl VFS_ERR_NOSPC, f, t) \<and> k = 0 \<and> new = []))"

lemma write_rest_spec:
  assumes s: "sound s" "linked s cs" "cs \<noteq> []" and f: "ff_start f = hd cs" "unat (ff_pos f) \<le> length cs * cbytes (f_fs s)"
    "ff_pos f \<le> ff_size f" and no: "unat (ff_pos f) + length bs < 2 ^ 32"
  shows "rest_result (write_rest bs f s) s cs f bs \<or>
    write_rest bs f s = (Inl VFS_ERR_NOSPC, f, s) \<and> disk_full s"
proof -
  let ?cb = "cbytes (f_fs s)"
  let ?p = "unat (ff_pos f)"
  let ?k = "?p div ?cb"
  have cb: "0 < ?cb" by (rule cbytes_pos [OF s(1)])
  have k: "?k \<le> length cs" using div_le_mono [OF f(2), of ?cb] cb by simp
  have skip: "if ?k < length cs then write_skip ?k (hd cs) s = (Some (cs ! ?k), s)
    else write_skip ?k (hd cs) s = (case extend_chain (last cs) s of (nc, t) \<Rightarrow> (if nc = 0 then None else Some nc, t))"
    unfolding hd_conv_nth [OF s(3)] using write_skip_spec [OF s(1,2), of 0 ?k] s(3) k
    by (cases "?k < length cs") (simp_all only: add_0 if_True if_False length_greater_0_conv simp_thms)
  have from_loop: "rest_result (write_rest bs f s) s cs f bs"
    if "write_skip ?k (hd cs) s = (Some cl, t)" "wrote s t cs new ?p []" "write_result (write_loop cl bs f t) t (cs @ new) f bs" for cl t new
  proof -
    have "write_result (write_loop cl bs f t) s cs f bs"
      using write_result_trans [OF s(1,2), of t new f 0 bs] that(2,3) no f(3) by (simp add: advance_0)
    then obtain n2 j u where u: "write_loop cl bs f t = (True, drop j bs, fd_advance f j, u)" "j \<le> length bs"
      "wrote s u cs n2 ?p (take j bs)" "j < length bs \<longrightarrow> disk_full u" by (auto simp: write_result_def)
    then have "write_rest bs f s = (Inr j, fd_advance f j, snd (update_dirent (fd_advance f j) u))"
      using that(1) f(1) by (simp add: write_rest_def unat_div unat_clus_bytes [OF s(1)])
    with u show ?thesis by (auto simp: rest_result_def)
  qed
  show ?thesis
  proof (cases "?k < length cs")
    case True
    then have "write_result (write_loop (cs ! ?k) bs f s) s cs f bs" using s f(3) no by (intro write_loop_spec) auto
    with from_loop [of "cs ! ?k" s "[]"] wrote_refl [OF s(1,2) f(2)] skip True show ?thesis by simp
  next
    case False
    with k have kl: "?k = length cs" by simp
    from extend_last [OF s f(2)] show ?thesis
    proof (elim disjE exE conjE)
      assume "extend_chain (last cs) s = (0, s)" "disk_full s"
      with skip False f(1) show ?thesis by (simp add: write_rest_def unat_div unat_clus_bytes [OF s(1)])
    next
      fix nc t assume t: "nc \<noteq> 0" "extend_chain (last cs) s = (nc, t)" "wrote s t cs [nc] ?p []"
      have st: "sound t" "linked t (cs @ [nc])" "f_fs t = f_fs s" using t(3) wrote_fs [OF t(3)] by (simp_all add: wrote_def)
      have "write_result (write_loop nc bs f t) t (cs @ [nc]) f bs"
        using st f(3) no kl by (intro write_loop_spec) simp_all
      with from_loop [of nc t "[nc]"] t skip False show ?thesis by simp
    qed
  qed
qed

text \<open>The first cluster of an empty file.\<close>

lemma first_cluster:
  assumes s: "sound s" and c: "is_clus (f_fs s) c" "tab s c = 0" and o: "only_entry c (eoc_mark (f_fs s)) s t"
  shows "\<exists>u. zero_cluster c t = (True, u) \<and> wrote s u [] [c] 0 []"
proof -
  let ?v = "f_fs s"
  have t: "f_fs t = ?v" "sound t" using o by (simp_all add: only_entry_def changes_def)
  have g: "geom ?v" using s by (simp add: sound_def)
  obtain u where u: "zero_cluster c t = (True, u)" "sound u" "changes (clus_area ?v c) t u"
    "clus_data u c = replicate (spc ?v * 512) 0"
    using zero_cluster_spec [of t c] t c(1) by auto
  have fu: "f_fs u = ?v" using u(3) t by (simp add: changes_def)
  have tab: "tab u d = (if d = c then eoc_mark ?v else tab s d)" if "unat d < nclus ?v" for d
    using changes_tab [OF u(3) t(2)] clus_area_fat [OF g] that t(1) only_entry_tab [OF o that] by simp
  have "changes (fat_area ?v) s t" using o by (simp add: only_entry_def)
  then have "changes (fat_area ?v \<union> areas ?v [c]) s u" using u(3) by (rule changes_trans) (simp add: areas_def)
  then show ?thesis using u c tab fu by (auto simp: wrote_def is_clus_def file_data_def cbytes_def)
qed

lemma wrote_first:
  assumes s: "sound s" and w: "wrote s u [] [c] 0 []" and r: "wrote u t [c] new p bs" and p: "p = 0"
  shows "wrote s t [] (c # new) 0 bs"
  using wrote_trans [OF s _ w, of t new bs] r p by simp

text \<open>The directory entry of an open file, as its descriptor would write it.\<close>

definition dirent_of :: "fat \<Rightarrow> fat_fd \<Rightarrow> u8 list" where
  "dirent_of s f = take 32 (drop (ff_dir_off f) (sec_at s (unat (ff_dir_sec f))))"

definition dirent_ok :: "fat \<Rightarrow> fat_fd \<Rightarrow> u32 list \<Rightarrow> bool" where
  "dirent_ok s f cs \<longleftrightarrow> (ff_dir_sec f \<noteq> 0 \<longrightarrow>
     (let n = unat (ff_dir_sec f); v = f_fs s
      in n < nsecs v \<and> ff_dir_off f + 32 \<le> 512 \<and> n \<notin> fat_area v \<and>
         (\<forall>c. is_clus v c \<and> (c \<in> set cs \<or> tab s c = 0) \<longrightarrow> n \<notin> clus_area v c)))"

definition dirent_matches :: "fat \<Rightarrow> fat_fd \<Rightarrow> bool" where
  "dirent_matches s f \<longleftrightarrow> ff_dir_sec f \<noteq> 0 \<longrightarrow>
     le32 (dirent_of s f) 28 = ff_size f \<and> clus_from_ent (f_fs s) (dirent_of s f) = (if b_is_fat32 (f_fs s) then ff_start f else take_bit 16 (ff_start f))"

lemma le16_sub: "i + 1 < 32 \<Longrightarrow> off + 32 \<le> length b \<Longrightarrow> le16 (take 32 (drop off b)) i = le16 b (off + i)"
  by (simp add: le16_def)

lemma le32_sub: "i + 3 < 32 \<Longrightarrow> off + 32 \<le> length b \<Longrightarrow> le32 (take 32 (drop off b)) i = le32 b (off + i)"
  by (simp add: le32_def le16_sub add.assoc)

lemma le16_put32_other: "j + 1 < i \<or> i + 3 < j \<Longrightarrow> le16 (put32 i v b) j = le16 b j"
  by (auto simp: put32_def le16_put16_other)

lemma halves: "push_bit 16 (take_bit 16 (drop_bit 16 x)) OR take_bit 16 x = (x :: u32)"
  by (rule bit_word_eqI) (auto simp: bit_simps)

lemma update_dirent_spec:
  assumes s: "sound s" and d: "ff_dir_sec f \<noteq> 0 \<longrightarrow> unat (ff_dir_sec f) < nsecs (f_fs s) \<and> ff_dir_off f + 32 \<le> 512"
  shows "\<exists>t. update_dirent f s = (True, t) \<and> sound t \<and> changes (if ff_dir_sec f = 0 then {} else {unat (ff_dir_sec f)}) s t \<and>
    dirent_matches t f"
proof (cases "ff_dir_sec f = 0")
  case True
  then show ?thesis using s by (simp add: update_dirent_def changes_refl dirent_matches_def)
next
  case False
  let ?v = "f_fs s"
  let ?n = "unat (ff_dir_sec f)"
  let ?b = "put32 (ff_dir_off f + 28) (ff_size f) (clus_to_ent ?v (ff_dir_off f) (ff_start f) (sec_at s ?n))"
  have n: "?n < nsecs ?v" "ff_dir_off f + 32 \<le> 512" using d False by simp_all
  have len: "length (sec_at s ?n) = 512" by (rule soundD(3) [OF s n(1)])
  have up: "update_dirent f s = (True, put_sec ?n ?b s)"
    using False read_sec_at [OF s n(1)] write_sec_at [OF s n(1)] by (simp add: update_dirent_def)
  have lb: "length ?b = 512" using len by (simp add: clus_to_ent_def Let_def)
  have at: "sec_at (put_sec ?n ?b s) ?n = ?b" using soundD(1) [OF s n(1)] by (simp add: sec_at_put)
  have "dirent_matches (put_sec ?n ?b s) f"
    unfolding dirent_matches_def dirent_of_def put_sec_fields at
    using n(2) len lb halves [of "ff_start f"]
    by (cases "b_is_fat32 ?v")
      (simp_all add: le32_sub le16_sub le32_put32 le16_put32_other clus_from_ent_def clus_to_ent_def
        Let_def le16_put16 le16_put16_other)
  moreover have "changes {?n} s (put_sec ?n ?b s)" by (rule changes_put [OF s n(1)]) simp
  ultimately show ?thesis using up False sound_put [OF s n(1) lb] by auto
qed

text \<open>A step that leaves the table and the clusters of a chain alone leaves the file alone.\<close>

lemma linked_cong:
  assumes "f_fs t = f_fs s" and "\<forall>c\<in>set cs. tab t c = tab s c"
  shows "linked t cs = linked s cs"
  using assms by (induction cs rule: induct_list012) auto

lemma file_untouched:
  assumes s: "sound s" and ch: "changes A s t" and l: "linked s cs" and apart: "A \<inter> areas (f_fs s) cs = {}"
    and tab: "\<forall>c\<in>set cs. tab t c = tab s c"
  shows "linked t cs" and "file_data t cs = file_data s cs"
proof -
  have "f_fs t = f_fs s" using ch by (simp add: changes_def)
  then show "linked t cs" using linked_cong [OF _ tab] l by simp
  have "clus_data t c = clus_data s c" if "c \<in> set cs" for c
    using changes_clus [OF ch s linked_clus [OF l that]] apart areas_member [OF that, of "f_fs s"] by blast
  then show "file_data t cs = file_data s cs" by (simp add: file_data_def cong: map_cong)
qed

definition fd_start :: "fat_fd \<Rightarrow> u32 list \<Rightarrow> fat_fd" where
  "fd_start f cs = f\<lparr>ff_start := (case cs of [] \<Rightarrow> 0 | c # ds \<Rightarrow> c)\<rparr>"

definition at_result ::
  "(vfs_err + nat) \<times> fat_fd \<times> fat \<Rightarrow> fat \<Rightarrow> u32 list \<Rightarrow> fat_fd \<Rightarrow> u8 list \<Rightarrow> bool" where
  "at_result r s cs f bs \<longleftrightarrow>
     (\<exists>new k t. k \<le> length bs \<and> wrote s t cs new (unat (ff_pos f)) (take k bs) \<and> (k < length bs \<longrightarrow> disk_full t) \<and>
        (let f' = fd_start (fd_advance f k) (cs @ new)
         in r = (Inr k, f', snd (update_dirent f' t)) \<or> r = (Inl VFS_ERR_NOSPC, f', t) \<and> k = 0))"

lemma fd_start_id: "ff_start f = (case cs of [] \<Rightarrow> 0 | c # ds \<Rightarrow> c) \<Longrightarrow> fd_start f cs = f"
  by (simp add: fd_start_def)

lemma advance_start [simp]: "ff_start (fd_advance f k) = ff_start f" "ff_is_dir (fd_advance f k) = ff_is_dir f"
  "ff_dir_sec (fd_advance f k) = ff_dir_sec f" "ff_dir_off (fd_advance f k) = ff_dir_off f"
  by (simp_all add: fd_advance_max)

lemma write_at_spec:
  assumes s: "sound s" and f: "file_on s f cs" and no: "unat (ff_pos f) + length bs < 2 ^ 32"
  shows "at_result (write_at bs f s) s cs f bs"
proof -
  let ?p = "unat (ff_pos f)"
  have l: "linked s cs" and start: "ff_start f = (case cs of [] \<Rightarrow> 0 | c # ds \<Rightarrow> c)"
    and size: "unat (ff_size f) \<le> length cs * cbytes (f_fs s)" and pos: "ff_pos f \<le> ff_size f"
    using f by (simp_all add: file_on_def)
  have p: "?p \<le> length cs * cbytes (f_fs s)" using size pos by (simp add: word_le_nat_alt)
  have self: "at_result (Inl VFS_ERR_NOSPC, f, s) s cs f bs" if "disk_full s"
    unfolding at_result_def
    using wrote_refl [OF s l p] that fd_start_id [OF start] pos
    by (intro exI [of _ "[]"] exI [of _ 0] exI [of _ s]) (simp add: advance_0)
  show ?thesis
  proof (cases cs)
    case (Cons c ds)
    then have ne: "cs \<noteq> []" "ff_start f = hd cs" "ff_start f \<noteq> 0"
      using start l linked_clus [OF l, of c] by (auto simp: is_clus_def)
    have "at_result (write_rest bs f s) s cs f bs" if "rest_result (write_rest bs f s) s cs f bs"
      using that start ne pos Cons unfolding rest_result_def at_result_def
      by (elim exE conjE) (intro exI conjI, assumption+, auto simp: fd_start_id advance_0 Let_def)
    with write_rest_spec [OF s l ne(1,2) p pos no] self ne(3) show ?thesis by (auto simp: write_at_def)
  next
    case Nil
    then have p0: "?p = 0" "ff_start f = 0" using p start by simp_all
    show ?thesis
    proof (cases "bs = []")
      case True
      have "write_rest [] f s = (Inr 0, f, snd (update_dirent f s))"
        using p0 by (simp add: write_rest_def unat_div write_loop.simps)
      then have "write_at bs f s = (Inr 0, f, snd (update_dirent f s))" using True by (simp add: write_at_def)
      then show ?thesis using wrote_refl [OF s l p] True fd_start_id [OF start] pos unfolding at_result_def
        by (intro exI [of _ "[]"] exI [of _ 0] exI [of _ s]) (simp add: advance_0)
    next
      case False
      from alloc_cluster_cases [OF s] show ?thesis
      proof (elim disjE exE conjE)
        assume "alloc_cluster s = (0, s)" "\<forall>d. is_clus (f_fs s) d \<longrightarrow> tab s d \<noteq> 0"
        then have "write_at bs f s = (Inl VFS_ERR_NOSPC, f, s)" "disk_full s"
          using False p0 by (simp_all add: write_at_def disk_full_def)
        with self show ?thesis by simp
      next
        fix c t assume a: "alloc_cluster s = (c, t)" "is_clus (f_fs s) c" "tab s c = 0" "only_entry c (eoc_mark (f_fs s)) s t"
        obtain u where u: "zero_cluster c t = (True, u)" "wrote s u [] [c] 0 []" using first_cluster [OF s a(2-4)] by blast
        let ?f = "fd_start f [c]"
        have su: "sound u" "linked u [c]" "f_fs u = f_fs s" using u(2) wrote_fs [OF u(2)] by (simp_all add: wrote_def)
        have c0: "c \<noteq> 0" using a(2) by (auto simp: is_clus_def)
        have w: "write_at bs f s = write_rest bs ?f u" using a(1) u(1) c0 False p0 by (simp add: write_at_def fd_start_def Let_def)
        have fp: "ff_pos ?f = ff_pos f" "ff_size ?f = ff_size f" "ff_start ?f = c" by (simp_all add: fd_start_def)
        have lift: "at_result r s cs f bs" if "rest_result r u [c] ?f bs" for r
        proof -
          from that obtain new k v where v: "k \<le> length bs" "wrote u v [c] new ?p (take k bs)" "k < length bs \<longrightarrow> disk_full v"
            "r = (Inr k, fd_advance ?f k, snd (update_dirent (fd_advance ?f k) v)) \<or> r = (Inl VFS_ERR_NOSPC, ?f, v) \<and> k = 0 \<and> new = []"
            by (auto simp: rest_result_def fp)
          have "wrote s v cs (c # new) ?p (take k bs)" using wrote_first [OF s u(2) v(2) p0(1)] Nil p0 by simp
          moreover have "fd_start (fd_advance f k) (cs @ c # new) = fd_advance ?f k"
            using Nil by (simp add: fd_start_def fd_advance_max)
          ultimately show ?thesis unfolding at_result_def using v pos fp
            by (intro exI [of _ "c # new"] exI [of _ k] exI [of _ v]) (auto simp: Let_def advance_0)
        qed
        have "rest_result (write_rest bs ?f u) u [c] ?f bs \<or> write_rest bs ?f u = (Inl VFS_ERR_NOSPC, ?f, u) \<and> disk_full u"
          using p0 fp pos no by (intro write_rest_spec [OF su(1,2)]) simp_all
        then show ?thesis
        proof (elim disjE conjE)
          assume "write_rest bs ?f u = (Inl VFS_ERR_NOSPC, ?f, u)" "disk_full u"
          moreover have "fd_start (fd_advance f 0) (cs @ [c]) = ?f" using Nil pos by (simp add: advance_0 fd_start_def)
          ultimately show ?thesis using u(2) Nil p0 w unfolding at_result_def
            by (intro exI [of _ "[c]"] exI [of _ 0] exI [of _ u]) simp
        qed (use lift w in simp)
      qed
    qed
  qed
qed

definition dir_secs :: "fat_fd \<Rightarrow> nat set" where
  "dir_secs f = (if ff_dir_sec f = 0 then {} else {unat (ff_dir_sec f)})"

lemma wrote_file_on:
  assumes s: "sound s" and f: "file_on s f cs" and w: "wrote s t cs new (unat (ff_pos f)) bs"
    and no: "unat (ff_pos f) + length bs < 2 ^ 32" and f': "f' = fd_start (fd_advance f (length bs)) (cs @ new)"
  shows "file_on t f' (cs @ new)" and "contents t f' (cs @ new) = overwrite (contents s f cs) (unat (ff_pos f)) bs"
    and "unat (ff_pos f') = unat (ff_pos f) + length bs"
proof -
  let ?p = "unat (ff_pos f)"
  let ?z = "unat (ff_size f)"
  have l: "linked s cs" and z: "?z \<le> length cs * cbytes (f_fs s)" and pz: "?p \<le> ?z" and nd: "\<not> ff_is_dir f"
    using f by (auto simp: file_on_def word_le_nat_alt)
  note v = wrote_fs [OF w]
  have clus: "\<forall>c\<in>set cs. is_clus (f_fs s) c" using linked_clus [OF l] by blast
  have len: "length (file_data s cs) = length cs * cbytes (f_fs s)" by (rule length_file_data [OF s clus])
  show pos: "unat (ff_pos f') = ?p + length bs" using fat_advance_pos [OF no] by (simp add: f' fd_start_def)
  have size: "unat (ff_size f') = max ?z (?p + length bs)"
    using unat_add_of_nat [OF no] by (simp add: f' fd_start_def fd_advance_max max_def word_le_nat_alt)
  show "file_on t f' (cs @ new)"
    using w z nd pos size v unfolding file_on_def
    by (auto simp: wrote_def f' fd_start_def word_le_nat_alt algebra_simps split: list.splits)
  have "contents t f' (cs @ new) =
      take (max ?z (?p + length bs)) (overwrite (file_data s cs @ replicate (length new * cbytes (f_fs s)) 0) ?p bs)"
    using w by (simp add: contents_def size wrote_def)
  also have "\<dots> = overwrite (take ?z (file_data s cs)) ?p bs" using pz z len by (intro take_overwrite_max) simp_all
  finally show "contents t f' (cs @ new) = overwrite (contents s f cs) ?p bs" by (simp add: contents_def)
qed

lemma wrote_others:
  assumes s: "sound s" and w: "wrote s t cs new p bs" and d: "linked s ds" "set ds \<inter> set cs = {}"
  shows "linked t ds \<and> file_data t ds = file_data s ds"
proof -
  let ?v = "f_fs s"
  have g: "geom ?v" using s by (simp add: sound_def)
  have ch: "changes (fat_area ?v \<union> areas ?v (cs @ new)) s t" using w by (simp add: wrote_def)
  have apart: "c \<notin> set (cs @ new)" if "c \<in> set ds" for c
    using that d w linked_tab [OF d(1) that] by (auto simp: wrote_def)
  have clus: "is_clus ?v c" if "c \<in> set ds" for c using linked_clus [OF d(1) that] .
  have new: "2 \<le> c" if "c \<in> set (cs @ new)" for c
    using that w wrote_fs [OF w] linked_clus [of t "cs @ new" c] by (auto simp: wrote_def is_clus_def)
  have "clus_area ?v e \<inter> clus_area ?v c = {}" if "e \<in> set (cs @ new)" "c \<in> set ds" for e c
    using new [OF that(1)] clus [OF that(2)] apart [OF that(2)] that(1) by (intro clus_area_apart) (auto simp: is_clus_def)
  then have "(fat_area ?v \<union> areas ?v (cs @ new)) \<inter> areas ?v ds = {}"
    using areas_fat [OF g, of ds] by (auto simp: areas_def)
  moreover have "\<forall>c\<in>set ds. tab t c = tab s c" using w apart clus by (auto simp: wrote_def is_clus_def)
  ultimately show ?thesis using file_untouched [OF s ch d(1)] by blast
qed

lemma dirent_apart:
  assumes d: "dirent_ok s f cs" and w: "wrote s t cs new p bs" and up: "changes (dir_secs f) t u" and s: "sound s"
  shows "\<forall>d. unat d < nclus (f_fs s) \<longrightarrow> tab u d = tab t d" and "linked t (cs @ new) \<Longrightarrow> linked u (cs @ new)"
    and "file_data u (cs @ new) = file_data t (cs @ new)" and "f_fs u = f_fs s"
proof -
  let ?v = "f_fs s"
  note v = wrote_fs [OF w]
  have t: "sound t" "linked t (cs @ new)" using w by (simp_all add: wrote_def)
  have area: "dir_secs f \<inter> fat_area ?v = {}" using d by (auto simp: dir_secs_def dirent_ok_def Let_def)
  have own: "dir_secs f \<inter> areas ?v (cs @ new) = {}"
  proof -
    have "dir_secs f \<inter> clus_area ?v c = {}" if "c \<in> set (cs @ new)" for c
    proof -
      have "is_clus ?v c" using linked_clus [OF t(2) that] v by simp
      moreover have "c \<in> set cs \<or> tab s c = 0" using that w by (auto simp: wrote_def)
      ultimately show ?thesis using d by (auto simp: dir_secs_def dirent_ok_def Let_def)
    qed
    then show ?thesis by (auto simp: areas_def)
  qed
  show tab: "\<forall>d. unat d < nclus ?v \<longrightarrow> tab u d = tab t d" using changes_tab [OF up t(1)] area v by simp
  have "\<forall>c\<in>set (cs @ new). tab u c = tab t c" using tab linked_clus [OF t(2)] v by (auto simp: is_clus_def)
  from file_untouched [OF t(1) up t(2) _ this] own v
  show "linked t (cs @ new) \<Longrightarrow> linked u (cs @ new)" "file_data u (cs @ new) = file_data t (cs @ new)" by simp_all
  show "f_fs u = ?v" using up v by (simp add: changes_def)
qed

text \<open>The descriptor table plays no part in what is on the disk.\<close>

lemma fdt_tab: "tab (s\<lparr>f_fdt := x\<rparr>) c = tab s c" and fdt_data: "file_data (s\<lparr>f_fdt := x\<rparr>) cs = file_data s cs"
proof -
  have "sec_at (s\<lparr>f_fdt := x\<rparr>) = sec_at s" by (rule ext) (simp add: sec_at_def)
  then show "tab (s\<lparr>f_fdt := x\<rparr>) c = tab s c" "file_data (s\<lparr>f_fdt := x\<rparr>) cs = file_data s cs"
    by (simp_all add: tab_def file_data_def clus_data_def [abs_def])
qed

lemma fdt_linked: "linked (s\<lparr>f_fdt := x\<rparr>) cs = linked s cs"
  by (rule linked_cong) (simp_all add: fdt_tab)

lemma fdt_same:
  "sound (s\<lparr>f_fdt := x\<rparr>) = sound s" "linked (s\<lparr>f_fdt := x\<rparr>) cs = linked s cs"
  "file_data (s\<lparr>f_fdt := x\<rparr>) cs = file_data s cs" "disk_full (s\<lparr>f_fdt := x\<rparr>) = disk_full s"
  "file_on (s\<lparr>f_fdt := x\<rparr>) f cs = file_on s f cs" "contents (s\<lparr>f_fdt := x\<rparr>) f cs = contents s f cs"
  "dirent_matches (s\<lparr>f_fdt := x\<rparr>) f = dirent_matches s f"
  by (simp_all add: sound_def sec_at_def fdt_linked fdt_data disk_full_def fdt_tab file_on_def contents_def dirent_matches_def dirent_of_def)

lemma fat_write_result:
  assumes s: "sound s" and fd: "fat_fd_at fd s = Some i" "i < length (f_fdt s)" "f = f_fdt s ! i"
    and f: "file_on s f cs" "has_flag (ff_flags f) VFS_O_WRITE" "dirent_ok s f cs" and no: "unat (ff_pos f) + length bs < 2 ^ 32"
  shows "\<exists>r t new k. fat_write fd bs s = (r, t) \<and> (r = Inr k \<or> r = Inl VFS_ERR_NOSPC \<and> k = 0) \<and> k \<le> length bs \<and>
     (k < length bs \<longrightarrow> disk_full t) \<and> sound t \<and> file_on t (f_fdt t ! i) (cs @ new) \<and>
     contents t (f_fdt t ! i) (cs @ new) = overwrite (contents s f cs) (unat (ff_pos f)) (take k bs) \<and>
     unat (ff_pos (f_fdt t ! i)) = unat (ff_pos f) + k \<and> (r = Inr k \<longrightarrow> dirent_matches t (f_fdt t ! i)) \<and>
     (\<forall>ds. linked s ds \<and> set ds \<inter> set cs = {} \<and> dir_secs f \<inter> areas (f_fs s) ds = {} \<longrightarrow>
        linked t ds \<and> file_data t ds = file_data s ds)"
proof -
  let ?v = "f_fs s"
  obtain new k t f' where w: "wrote s t cs new (unat (ff_pos f)) (take k bs)" and k: "k \<le> length bs" "k < length bs \<longrightarrow> disk_full t"
    and f': "f' = fd_start (fd_advance f k) (cs @ new)"
    and res: "write_at bs f s = (Inr k, f', snd (update_dirent f' t)) \<or> write_at bs f s = (Inl VFS_ERR_NOSPC, f', t) \<and> k = 0"
    using write_at_spec [OF s f(1) no] by (auto simp: at_result_def Let_def)
  note v = wrote_fs [OF w]
  have t: "sound t" "linked t (cs @ new)" "f_fdt t = f_fdt s" using w by (simp_all add: wrote_def changes_def)
  have d': "ff_dir_sec f' = ff_dir_sec f" "ff_dir_off f' = ff_dir_off f" by (simp_all add: f' fd_start_def)
  have len: "length (take k bs) = k" using k by simp
  have "f' = fd_start (fd_advance f (length (take k bs))) (cs @ new)" using f' len by simp
  note fo = wrote_file_on [OF s f(1) w _ this, unfolded len]
  obtain u where u: "update_dirent f' t = (True, u)" "sound u" "changes (dir_secs f) t u" "dirent_matches u f'"
    using update_dirent_spec [OF t(1), of f'] f(3) d' v by (auto simp: dirent_ok_def dir_secs_def Let_def split: if_splits)
  note ap = dirent_apart [OF f(3) w u(3) s]
  define r where "r = fst (write_at bs f s)"
  define q where "q = snd (snd (write_at bs f s))"
  have fw: "fat_write fd bs s = (r, q\<lparr>f_fdt := (f_fdt q)[i := f']\<rparr>)"
    using fd f(1,2) res by (auto simp: fat_write_def file_on_def r_def q_def)
  have q: "q = u \<and> r = Inr k \<or> q = t \<and> r = Inl VFS_ERR_NOSPC \<and> k = 0" using res u(1) by (auto simp: r_def q_def)
  have qt: "f_fs q = ?v" "sound q" "f_fdt q = f_fdt s" "linked q (cs @ new)" "file_data q (cs @ new) = file_data t (cs @ new)"
    "\<forall>d. unat d < nclus ?v \<longrightarrow> tab q d = tab t d"
    using q u t v ap by (auto simp: changes_def)
  have own: "linked t ds \<and> file_data t ds = file_data s ds" if "linked s ds" "set ds \<inter> set cs = {}" for ds
    by (rule wrote_others [OF s w that])
  have other: "linked q ds \<and> file_data q ds = file_data s ds"
    if ds: "linked s ds" "set ds \<inter> set cs = {}" "dir_secs f \<inter> areas ?v ds = {}" for ds
  proof -
    have "\<forall>c\<in>set ds. tab u c = tab t c" using ap(1) linked_clus [OF ds(1)] by (auto simp: is_clus_def)
    then have "linked u ds \<and> file_data u ds = file_data t ds"
      using file_untouched [OF t(1) u(3), of ds] own [OF ds(1,2)] ds(3) v by simp
    with q own [OF ds(1,2)] show ?thesis by auto
  qed
  have "file_on q f' (cs @ new)" "contents q f' (cs @ new) = overwrite (contents s f cs) (unat (ff_pos f)) (take k bs)"
    using fo no k qt v by (simp_all add: file_on_def contents_def)
  moreover have "disk_full q" if "k < length bs" using k(2) that qt(1,6) v by (auto simp: disk_full_def is_clus_def)
  moreover have "dirent_matches q f'" if "r = Inr k" using q u(4) that by auto
  moreover have "r = Inr k \<or> r = Inl VFS_ERR_NOSPC \<and> k = 0" using q by auto
  ultimately show ?thesis
    using fw k fd(2) qt fo(3) no other
    by (intro exI [of _ r] exI [of _ "q\<lparr>f_fdt := (f_fdt q)[i := f']\<rparr>"] exI [of _ new] exI [of _ k]) (simp add: fdt_same)
qed

end
