(* ===== verification/FatSpec.thy ===== *)
theory FatSpec
  imports FatData
begin

text \<open>
  Freeing chains, directories on a cycle, short names, and the properties of the FAT driver with a small
  volume they are tried on.
\<close>

section \<open>Freeing a chain\<close>

text \<open>Every entry of the table is free, a mark or a cluster of the volume: a chain may still be a cycle.\<close>

definition table_ok :: "fat \<Rightarrow> bool" where
  "table_ok s \<longleftrightarrow> (\<forall>c. is_clus (f_fs s) c \<longrightarrow> in_chain (f_fs s) (tab s c) \<longrightarrow> is_clus (f_fs s) (tab s c))"

definition used_clus :: "fat \<Rightarrow> u32 set" where
  "used_clus s = {c. is_clus (f_fs s) c \<and> tab s c \<noteq> 0}"

lemma not_in_chain_0 [simp]: "\<not> in_chain v 0"
  by (simp add: in_chain_def)

lemma free_step:
  assumes "sound s" and "table_ok s" and c: "is_clus (f_fs s) c"
  shows "\<exists>t. fat_set c 0 s = (True, t) \<and> only_entry c 0 s t \<and> table_ok t \<and> f_fs t = f_fs s \<and>
    used_clus t = used_clus s - {c}"
proof -
  obtain t where t: "fat_set c 0 s = (True, t)" "only_entry c 0 s t" using fat_set_spec [OF assms(1)] c by (auto simp: is_clus_def)
  have "tab t d = (if d = c then 0 else tab s d)" if "is_clus (f_fs s) d" for d
    using only_entry_tab [OF t(2), of d] that by (simp add: is_clus_def)
  with t only_entry_fs [OF t(2)] assms(2) show ?thesis by (auto simp: table_ok_def used_clus_def split: if_splits)
qed

lemma free_chain_returns:
  assumes "sound s" and "table_ok s" and "in_chain (f_fs s) c \<longrightarrow> is_clus (f_fs s) c"
  shows "\<exists>t. free_chain c s = Some t \<and> sound t \<and> changes (fat_area (f_fs s)) s t \<and>
    (\<forall>d. is_clus (f_fs s) d \<longrightarrow> tab t d = tab s d \<or> tab t d = 0)"
  using assms
proof (induction "card (used_clus s) + (if is_clus (f_fs s) c then 1 else 0)" arbitrary: s c rule: less_induct)
  case less
  show ?case
  proof (cases "in_chain (f_fs s) c")
    case False
    then show ?thesis using less.prems by (simp add: free_chain.simps [of c] changes_refl)
  next
    case in_c: True
    then have c: "is_clus (f_fs s) c" using less.prems by simp
    obtain t where t: "fat_set c 0 s = (True, t)" "only_entry c 0 s t" "table_ok t" "f_fs t = f_fs s" "used_clus t = used_clus s - {c}"
      using free_step [OF less.prems(1,2) c] by blast
    let ?n = "tab s c"
    have step: "free_chain c s = free_chain ?n t"
      using in_c t(1) fat_get_linked [OF less.prems(1) c] by (subst free_chain.simps) simp
    have n: "in_chain (f_fs t) ?n \<longrightarrow> is_clus (f_fs t) ?n" using less.prems(2) c t(4) by (simp add: table_ok_def)
    have "card (used_clus t) + (if is_clus (f_fs t) ?n then 1 else 0) < card (used_clus s) + (if is_clus (f_fs s) c then 1 else 0)"
    proof (cases "?n = 0")
      case True
      have "card (used_clus t) \<le> card (used_clus s)" using t(5) by (intro card_mono) simp_all
      then show ?thesis using True c by (simp add: is_clus_def)
    next
      case False
      then have "c \<in> used_clus s" using c by (simp add: used_clus_def)
      then have "card (used_clus t) < card (used_clus s)" using t(5) by (intro psubset_card_mono) auto
      then show ?thesis using c by simp
    qed
    from less.hyps [OF this _ t(3) n] t(2) obtain u where u: "free_chain ?n t = Some u" "sound u" "changes (fat_area (f_fs s)) t u"
      "\<forall>d. is_clus (f_fs s) d \<longrightarrow> tab u d = tab t d \<or> tab u d = 0" using t(4) by (auto simp: only_entry_def)
    have "changes (fat_area (f_fs s)) s u" using t(2) u(3) by (auto simp: only_entry_def intro: changes_trans)
    moreover have "tab u d = tab s d \<or> tab u d = 0" if "is_clus (f_fs s) d" for d
      using u(4) that only_entry_tab [OF t(2), of d] by (auto simp: is_clus_def split: if_splits)
    ultimately show ?thesis using step u by auto
  qed
qed

text \<open>A chain that is a list of clusters is freed whole.\<close>

lemma free_chain_linked:
  assumes "sound s" and "linked s (c # cs)"
  shows "\<exists>t. free_chain c s = Some t \<and> sound t \<and> changes (fat_area (f_fs s)) s t \<and>
    (\<forall>d. is_clus (f_fs s) d \<longrightarrow> tab t d = (if d \<in> set (c # cs) then 0 else tab s d))"
  using assms
proof (induction cs arbitrary: c s)
  case Nil
  then have c: "is_clus (f_fs s) c" "unat c < nclus (f_fs s)" "is_eoc (f_fs s) (tab s c)" by (auto simp: is_clus_def)
  obtain t where t: "fat_set c 0 s = (True, t)" "only_entry c 0 s t" using fat_set_spec [OF Nil.prems(1) c(2)] by blast
  have g: "geom (f_fs s)" using Nil.prems(1) by (simp add: sound_def)
  have "free_chain c s = Some t"
    using t c only_entry_fs [OF t(2)] is_clus_in_chain [OF g c(1)] fat_get_linked [OF Nil.prems(1) c(1)]
    by (simp add: free_chain.simps [of c] free_chain.simps [of "tab s c"] in_chain_def)
  with t(2) only_entry_tab [OF t(2)] show ?case by (auto simp: only_entry_def is_clus_def)
next
  case (Cons d ds)
  then have c: "is_clus (f_fs s) c" "unat c < nclus (f_fs s)" "tab s c = d" by (auto simp: is_clus_def)
  obtain t where t: "fat_set c 0 s = (True, t)" "only_entry c 0 s t" using fat_set_spec [OF Cons.prems(1) c(2)] by blast
  have g: "geom (f_fs s)" using Cons.prems(1) by (simp add: sound_def)
  note ft = only_entry_fs [OF t(2)]
  have "c \<notin> set (d # ds)" using linked_distinct [OF g Cons.prems(2)] by simp
  then have "\<forall>e\<in>set (d # ds). tab t e = tab s e"
    using only_entry_tab [OF t(2)] linked_clus [OF linked_tl [OF Cons.prems(2)]] by (auto simp: is_clus_def)
  then have lt: "linked t (d # ds)" using linked_cong [OF ft] Cons.prems(2) by simp
  have "sound t" using t(2) by (simp add: only_entry_def)
  from Cons.IH [OF this lt] obtain u where u: "free_chain d t = Some u" "sound u" "changes (fat_area (f_fs s)) t u"
    "\<forall>e. is_clus (f_fs s) e \<longrightarrow> tab u e = (if e \<in> set (d # ds) then 0 else tab t e)" using ft by auto
  have "free_chain c s = Some u"
    using t(1) u(1) c is_clus_in_chain [OF g c(1)] fat_get_linked [OF Cons.prems(1) c(1)] by (subst free_chain.simps) simp
  moreover have "changes (fat_area (f_fs s)) s u" using t(2) u(3) by (auto simp: only_entry_def intro: changes_trans)
  moreover have "tab u e = (if e \<in> set (c # d # ds) then 0 else tab s e)" if "is_clus (f_fs s) e" for e
    using u(4) that only_entry_tab [OF t(2), of e] by (auto simp: is_clus_def split: if_splits)
  ultimately show ?case using u(2) by blast
qed

section \<open>Directories on a cycle\<close>

text \<open>An entry, or a cluster, that ends a lookup neither by the name nor by the end mark.\<close>

definition passes_ent :: "u8 list \<Rightarrow> u8 list \<Rightarrow> bool" where
  "passes_ent want e \<longleftrightarrow> e ! 0 \<noteq> 0 \<and> (e ! 0 = 0xE5 \<or> e ! 11 = 0x0F \<or> kmemcmp e want 11 \<noteq> 0)"

definition passes :: "fat \<Rightarrow> string \<Rightarrow> u32 \<Rightarrow> bool" where
  "passes s nm c \<longleftrightarrow>
     (\<forall>n\<in>clus_area (f_fs s) c. \<forall>k<16. passes_ent (name83 nm) (take 32 (drop (32 * k) (sec_at s n))))"

lemma walk_ents_passes:
  "walk_ents (find_body w) sec b i m () = Inl () \<longleftrightarrow> (\<forall>k<m. passes_ent w (take 32 (drop (i + 32 * k) b)))"
proof (induction m arbitrary: i)
  case (Suc m)
  have all: "(\<forall>k<Suc m. Q k) \<longleftrightarrow> Q 0 \<and> (\<forall>k<m. Q (Suc k))" for Q :: "nat \<Rightarrow> bool" by (auto simp: less_Suc_eq_0_disj)
  let ?e = "take 32 (drop i b)"
  have "find_body w sec i ?e () = Inl ()" if "passes_ent w ?e" using that by (auto simp: find_body_def passes_ent_def)
  moreover have "\<exists>r. find_body w sec i ?e () = Inr r" if "\<not> passes_ent w ?e" using that by (auto simp: find_body_def passes_ent_def)
  ultimately show ?case unfolding all using Suc.IH [of "i + 32"] by (cases "passes_ent w ?e") (auto simp: add.assoc)
qed simp

lemma walk_secs_passes:
  assumes "sound s" and "a + m \<le> nsecs (f_fs s)"
  shows "walk_secs s (find_body w) fail m (of_nat a) () = Inl () \<longleftrightarrow>
    (\<forall>n\<in>{a..<a + m}. \<forall>k<16. passes_ent w (take 32 (drop (32 * k) (sec_at s n))))"
  using assms(2)
proof (induction m arbitrary: a)
  case (Suc m)
  have split: "{a..<a + Suc m} = insert a {Suc a..<Suc a + m}" by auto
  have "walk_secs s (find_body w) fail m (of_nat (Suc a)) () = Inl () \<longleftrightarrow>
    (\<forall>n\<in>{Suc a..<Suc a + m}. \<forall>k<16. passes_ent w (take 32 (drop (32 * k) (sec_at s n))))" using Suc.prems by (intro Suc.IH) simp
  moreover have "read_sec s (of_nat a) = Some (sec_at s a)" using Suc.prems by (intro read_sec_at [OF assms(1)]) simp
  ultimately show ?case unfolding split using walk_ents_passes [of w "of_nat a" "sec_at s a" 0 16]
    by (auto simp: add.commute split: sum.split)
qed simp

lemma walk_clus_passes:
  assumes s: "sound s" and c: "is_clus (f_fs s) c"
  shows "walk_secs s (find_body (name83 nm)) fail (unat (b_sec_per_clus (f_fs s))) (clus_to_lba (f_fs s) c) () = Inl () \<longleftrightarrow> passes s nm c"
proof -
  let ?v = "f_fs s"
  have g: "geom ?v" using s by (simp add: sound_def)
  have lba: "clus_to_lba ?v c = of_nat (clus0 ?v c)" using clus_lba [of c ?v 0] c by (simp add: is_clus_def)
  have "clus0 ?v c + spc ?v \<le> nsecs ?v"
  proof (cases "spc ?v")
    case 0
    then show ?thesis using clus_area_secs [OF g c] g by (auto simp: clus_area_def geom_def spc_def)
  next
    case (Suc n)
    then have "clus0 ?v c + n \<in> clus_area ?v c" by (simp add: clus_area_def)
    then have "clus0 ?v c + n < nsecs ?v" using clus_area_secs [OF g c] by simp
    with Suc show ?thesis by simp
  qed
  from walk_secs_passes [OF s this, of "name83 nm" fail] show ?thesis by (simp add: lba passes_def clus_area_def spc_def)
qed

text \<open>The walk is a tail recursion: it has no result exactly when no cluster on the way ends it.\<close>

lemma walk_forever:
  fixes acc :: unit
  assumes "walk_chain s body fail c acc = Some r" and "I c"
    and "\<And>c. I c \<Longrightarrow> in_chain (f_fs s) c \<and> I (fat_get s c) \<and>
      walk_secs s body fail (unat (b_sec_per_clus (f_fs s))) (clus_to_lba (f_fs s) c) () = Inl ()"
  shows False
  using assms by (induction s body fail c acc r rule: walk_chain.raw_induct [rotated, consumes 1]) (simp, blast)

lemma walk_ends:
  assumes s: "sound s" and t: "table_ok s" and c: "in_chain (f_fs s) c \<longrightarrow> is_clus (f_fs s) c"
    and e: "\<not> (in_chain (f_fs s) ((tab s ^^ n) c) \<and> passes s nm ((tab s ^^ n) c))"
  shows "\<exists>r. walk_chain s (find_body (name83 nm)) fail c () = Some r"
  using c e
proof (induction n arbitrary: c)
  case 0
  show ?case
  proof (cases "in_chain (f_fs s) c")
    case True
    with 0 walk_clus_passes [OF s, of c nm fail] show ?thesis
      by (subst walk_chain.simps) (auto split: sum.split)
  qed (subst walk_chain.simps, simp)
next
  case (Suc n)
  show ?case
  proof (cases "in_chain (f_fs s) c")
    case True
    then have cl: "is_clus (f_fs s) c" using Suc.prems by simp
    then have f: "fat_get s c = tab s c" by (intro fat_get_tab [OF s]) (simp add: is_clus_def)
    have "\<exists>r. walk_chain s (find_body (name83 nm)) fail (tab s c) () = Some r"
      using t cl Suc.prems(2) by (intro Suc.IH) (simp_all add: table_ok_def funpow_swap1)
    with True f show ?thesis by (subst walk_chain.simps) (auto split: sum.split)
  qed (subst walk_chain.simps, simp)
qed

lemma find_hangs_iff:
  assumes s: "sound s" and t: "table_ok s" and c: "is_clus (f_fs s) c"
  shows "find_in_dir s c nm = None \<longleftrightarrow> (\<forall>n. in_chain (f_fs s) ((tab s ^^ n) c) \<and> passes s nm ((tab s ^^ n) c))"
    (is "_ \<longleftrightarrow> ?ever c")
proof -
  have g: "geom (f_fs s)" using s by (simp add: sound_def)
  have "c \<noteq> 0" using c by (auto simp: is_clus_def)
  then have dir: "find_in_dir s c nm = None \<longleftrightarrow> walk_chain s (find_body (name83 nm)) (\<lambda>u. Unreadable) c () = None"
    by (simp add: find_in_dir_def walk_dir_def in_root_def first_clus_def)
  show ?thesis
  proof
    assume "find_in_dir s c nm = None"
    then show "?ever c" using walk_ends [OF s t _, of c _ nm "\<lambda>u. Unreadable"] c unfolding dir by fastforce
  next
    assume ever: "?ever c"
    let ?I = "\<lambda>c. is_clus (f_fs s) c \<and> ?ever c"
    have step: "in_chain (f_fs s) d \<and> ?I (fat_get s d) \<and>
      walk_secs s (find_body (name83 nm)) (\<lambda>u. Unreadable) (unat (b_sec_per_clus (f_fs s))) (clus_to_lba (f_fs s) d) () = Inl ()"
      if d: "?I d" for d
    proof -
      have 0: "in_chain (f_fs s) d" "passes s nm d" using d [THEN conjunct2, THEN spec, of 0] by simp_all
      have 1: "?ever (tab s d)" using d by (metis (no_types) comp_apply funpow_Suc_right)
      have "in_chain (f_fs s) (tab s d)" using 1 [THEN spec, of 0] by simp
      with t d have "is_clus (f_fs s) (tab s d)" by (simp add: table_ok_def)
      moreover have "fat_get s d = tab s d" using d by (intro fat_get_tab [OF s]) (simp add: is_clus_def)
      ultimately show ?thesis using 0 1 d walk_clus_passes [OF s] by simp
    qed
    from walk_forever [where I = ?I, OF _ _ step] c ever show "find_in_dir s c nm = None" unfolding dir by (metis not_None_eq)
  qed
qed

section \<open>Short names\<close>

definition short_char :: "char \<Rightarrow> bool" where
  "short_char c \<longleftrightarrow> c \<noteq> NUL \<and> c \<noteq> dot \<and> c \<noteq> CHR '' '' \<and> \<not> ((0x41 :: u8) \<le> of_char c \<and> (of_char c :: u8) \<le> 0x5A)"

lemma char_of_unat: "char_of (unat (of_char c :: u8)) = c"
proof -
  have e: "(of_char c :: u8) = of_nat (of_char c)" by (rule of_nat_of_char [symmetric])
  have "(of_char c :: nat) < 256" by (rule nat_of_char_less_256)
  then show ?thesis unfolding e unsigned_of_nat by (simp add: take_bit_nat_eq_self)
qed

lemma byte_round: "short_char c \<Longrightarrow> byte_low (byte_up (of_char c)) = of_char c"
  unfolding short_char_def byte_low_def byte_up_def by (auto simp: word_le_nat_alt unat_sub)

lemma byte_up_blank: "short_char c \<Longrightarrow> byte_up (of_char c) \<noteq> blank"
proof
  assume c: "short_char c" and "byte_up (of_char c) = blank"
  then have "of_char c = byte_low blank" using byte_round by metis
  then have "of_char c = (of_char (CHR '' '') :: u8)" by (simp add: byte_low_def)
  then have "c = CHR '' ''" by (metis char_of_unat)
  with c show False by (simp add: short_char_def)
qed

lemma base_loop_short:
  "list_all short_char b \<Longrightarrow> length b \<le> n \<Longrightarrow> rest = [] \<or> hd rest = dot \<Longrightarrow>
     base_loop (b @ rest) n = (map (\<lambda>c. byte_up (of_char c)) b, rest)"
proof (induction b arbitrary: n)
  case Nil
  then show ?case by (cases rest; cases n) auto
next
  case (Cons c b)
  then show ?case by (cases n) (auto simp: short_char_def)
qed

lemma ext_loop_short: "list_all short_char b \<Longrightarrow> length b \<le> n \<Longrightarrow> ext_loop b n = map (\<lambda>c. byte_up (of_char c)) b"
proof (induction b arbitrary: n)
  case Nil
  then show ?case by (cases n) auto
next
  case (Cons c b)
  then show ?case by (cases n) (auto simp: short_char_def)
qed

lemma decode_pad:
  assumes "list_all short_char b"
  shows "decode_part (pad n (map (\<lambda>c. byte_up (of_char c)) b)) = b"
proof -
  have "takeWhile (\<lambda>c. c \<noteq> blank) (map (\<lambda>c. byte_up (of_char c)) b @ replicate k blank) = map (\<lambda>c. byte_up (of_char c)) b" for k
    using assms byte_up_blank by (subst takeWhile_append2) (auto simp: list_all_iff)
  moreover have "map (\<lambda>c. char_of (unat (byte_low (byte_up (of_char c))))) b = b"
    using assms byte_round char_of_unat by (intro map_idI) (auto simp: list_all_iff)
  ultimately show ?thesis by (simp add: decode_part_def pad_def comp_def)
qed

lemma name_round:
  assumes "list_all short_char b" and "list_all short_char e" and "length b \<le> 8" and "length e \<le> 3"
  shows "decode83 (name83 (b @ (if e = [] then [] else dot # e))) = b @ (if e = [] then [] else dot # e)"
proof -
  let ?u = "map (\<lambda>c. byte_up (of_char c))"
  have "name83 (b @ (if e = [] then [] else dot # e)) = pad 8 (?u b) @ pad 3 (?u e)"
    using base_loop_short [OF assms(1,3), of "if e = [] then [] else dot # e"] ext_loop_short [OF assms(2,4)]
    by (simp add: name83_def)
  moreover have l: "length (pad 8 (?u b)) = 8" "length (pad 3 (?u e)) = 3" using assms(3,4) by (simp_all add: pad_def)
  moreover have "pad 3 (?u e) ! 0 \<noteq> blank \<longleftrightarrow> e \<noteq> []" using assms(2) byte_up_blank by (cases e) (auto simp: pad_def)
  moreover have "take 3 (drop 8 (pad 8 (?u b) @ pad 3 (?u e))) = pad 3 (?u e)" "take 8 (pad 8 (?u b) @ pad 3 (?u e)) = pad 8 (?u b)"
    using l by simp_all
  ultimately show ?thesis using decode_pad [OF assms(1)] decode_pad [OF assms(2)] by (simp add: decode83_def nth_append)
qed

section \<open>A small volume\<close>

text \<open>
  FAT16, one sector per cluster: the boot sector, one table, the root directory and four clusters in
  sectors 3 to 6. The file in the first entry of the root is open for writing and empty.
\<close>

definition small_fs :: fat_fs where
  "small_fs = \<lparr>b_bytes_per_sec = 512, b_sec_per_clus = 1, b_reserved = 1, b_fats = 1, b_root_ents = 16, b_tot_sec16 = 7,
     b_fatsz16 = 1, b_tot_sec32 = 0, b_fatsz32 = 0, b_root_clus = 0, b_is_fat32 = False, b_fat_start = 1, b_root_start = 2,
     b_data_start = 3, b_root_secs = 1\<rparr>"

definition small_fd :: fat_fd where
  "small_fd = no_fd\<lparr>ff_used := True, ff_flags := VFS_O_READ OR VFS_O_WRITE, ff_dir_sec := 2\<rparr>"

definition small_vol :: "(u32 \<Rightarrow> u8 list) \<Rightarrow> fat_fd \<Rightarrow> fat" where
  "small_vol secs f = \<lparr>f_disk = \<lparr>d_ok = (\<lambda>a. True), d_sec = secs\<rparr>, f_fs = small_fs, f_fdt = [f], f_mounted = True, f_next = 2\<rparr>"

definition blank_secs :: "u32 \<Rightarrow> u8 list" where
  "blank_secs a = replicate 512 0"

text \<open>The same volume with a file of 3 bytes in cluster 2.\<close>

definition file_secs :: "u32 \<Rightarrow> u8 list" where
  "file_secs a = (if a = 1 then (replicate 512 0)[4 := 0xFF, 5 := 0xFF]
     else if a = 3 then [7, 8, 9] @ replicate 509 0 else replicate 512 0)"

definition file_fd :: fat_fd where
  "file_fd = small_fd\<lparr>ff_start := 2, ff_size := 3, ff_pos := 1\<rparr>"

lemma small_geom [simp]: "spc small_fs = 1" "nfats small_fs = 1" "nclus small_fs = 6" "fat0 small_fs = 1" "fsz small_fs = 1"
  "data0 small_fs = 3" "nsecs small_fs = 7" "ew small_fs = 2" "cbytes small_fs = 512" "geom small_fs"
  by (simp_all add: spc_def nfats_def nclus_def fat0_def fsz_def data0_def nsecs_def ew_def cbytes_def geom_def max_clus_def
      fat_size_def small_fs_def)

lemma small_fields [simp]: "f_fs (small_vol g f) = small_fs" "f_fdt (small_vol g f) = [f]" "sec_at (small_vol g f) n = g (of_nat n)"
  by (simp_all add: small_vol_def sec_at_def)

lemma small_sound: "\<forall>a. length (g a) = 512 \<Longrightarrow> sound (small_vol g f)"
  by (simp add: sound_def) (simp add: small_vol_def)

lemma file_secs_length: "length (file_secs a) = 512" and blank_secs_length: "length (blank_secs a) = 512"
  by (simp_all add: file_secs_def blank_secs_def)

lemma small_fd_at: "ff_used f \<Longrightarrow> fat_fd_at 100 (small_vol g f) = Some 0"
  by (simp add: fat_fd_at_def FAT_FD_BASE_def FAT_MAX_FD_def)

lemma file_fd_on: "file_on (small_vol file_secs file_fd) file_fd [2]"
  by (simp add: file_on_def is_clus_def tab_def ent_get_def le16_def ent_sec_def ent_pos_def is_eoc_def file_secs_def
      file_fd_def small_fd_def no_fd_def) (simp add: small_fs_def)

lemma small_fd_on: "file_on (small_vol blank_secs small_fd) small_fd []"
  by (simp add: file_on_def small_fd_def no_fd_def)

section \<open>Properties\<close>

text \<open>
  Property C15. Reading an open file returns its bytes from the position on, as many as asked for and there
  are, and moves the position behind them; nothing else changes.
\<close>

theorem fat_read_file:
  assumes "sound s" and "fat_fd_at fd s = Some i" and "i < length (f_fdt s)" and "file_on s (f_fdt s ! i) cs"
    and "x = take n (drop (unat (ff_pos (f_fdt s ! i))) (contents s (f_fdt s ! i) cs))"
  shows "fat_read fd n s =
    Some (Inr x, s\<lparr>f_fdt := (f_fdt s)[i := (f_fdt s ! i)\<lparr>ff_pos := ff_pos (f_fdt s ! i) + of_nat (length x)\<rparr>]\<rparr>)"
  by (rule fat_read_result [OF assms(1,2,4,3,5)])

lemma fat_read_file_witness:
  "fat_read 100 8 (small_vol file_secs file_fd) =
     Some (Inr [8, 9], (small_vol file_secs file_fd)\<lparr>f_fdt := [file_fd\<lparr>ff_pos := 3\<rparr>]\<rparr>)"
proof -
  let ?s = "small_vol file_secs file_fd"
  have x: "[8, 9] = take 8 (drop (unat (ff_pos (f_fdt ?s ! 0))) (contents ?s (f_fdt ?s ! 0) [2]))"
    by (simp add: contents_def file_data_def clus_data_def clus0_def file_secs_def file_fd_def)
  have "fat_fd_at 100 ?s = Some 0" by (intro small_fd_at) (simp add: file_fd_def small_fd_def)
  from fat_read_file [OF small_sound this _ _ x] file_fd_on show ?thesis
    by (simp add: file_secs_length file_fd_def)
qed

text \<open>
  Property C14. Writing to an open file overwrites its bytes at the position with a prefix of the data, all of it
  unless the volume is full; the chain grows by free clusters, every other file keeps its chain and its bytes,
  and the directory entry is brought up to date.
\<close>

theorem fat_write_file:
  assumes "sound s" and "fat_fd_at fd s = Some i" and "i < length (f_fdt s)" and "f = f_fdt s ! i"
    and "file_on s f cs" and "has_flag (ff_flags f) VFS_O_WRITE" and "dirent_ok s f cs"
    and "unat (ff_pos f) + length bs < 2 ^ 32"
  shows "\<exists>r t new k. fat_write fd bs s = (r, t) \<and> (r = Inr k \<or> r = Inl VFS_ERR_NOSPC \<and> k = 0) \<and> k \<le> length bs \<and>
     (k < length bs \<longrightarrow> disk_full t) \<and> sound t \<and> file_on t (f_fdt t ! i) (cs @ new) \<and>
     contents t (f_fdt t ! i) (cs @ new) = overwrite (contents s f cs) (unat (ff_pos f)) (take k bs) \<and>
     unat (ff_pos (f_fdt t ! i)) = unat (ff_pos f) + k \<and> (r = Inr k \<longrightarrow> dirent_matches t (f_fdt t ! i)) \<and>
     (\<forall>ds. linked s ds \<and> set ds \<inter> set cs = {} \<and> dir_secs f \<inter> areas (f_fs s) ds = {} \<longrightarrow>
        linked t ds \<and> file_data t ds = file_data s ds)"
  by (rule fat_write_result [OF assms])

lemma fat_write_file_witness:
  "\<exists>r t new k. fat_write 100 [1, 2, 3] (small_vol blank_secs small_fd) = (r, t) \<and>
     contents t (f_fdt t ! 0) new = take k [1, 2, 3] \<and> (k < 3 \<longrightarrow> disk_full t)"
proof -
  let ?s = "small_vol blank_secs small_fd"
  have pos: "ff_pos small_fd = 0" by (simp add: small_fd_def no_fd_def)
  have "dirent_ok ?s small_fd []"
    by (auto simp: dirent_ok_def small_fd_def no_fd_def fat_area_def clus_area_def clus0_def)
  moreover have "has_flag (ff_flags small_fd) VFS_O_WRITE" by (simp add: small_fd_def has_flag_def VFS_O_READ_def VFS_O_WRITE_def)
  moreover have "fat_fd_at 100 ?s = Some 0" by (intro small_fd_at) (simp add: small_fd_def)
  ultimately have "\<exists>r t new k. fat_write 100 [1, 2, 3] ?s = (r, t) \<and> (r = Inr k \<or> r = Inl VFS_ERR_NOSPC \<and> k = 0) \<and>
     k \<le> length [1, 2, 3 :: u8] \<and> (k < length [1, 2, 3 :: u8] \<longrightarrow> disk_full t) \<and> sound t \<and> file_on t (f_fdt t ! 0) ([] @ new) \<and>
     contents t (f_fdt t ! 0) ([] @ new) = overwrite (contents ?s small_fd []) (unat (ff_pos small_fd)) (take k [1, 2, 3]) \<and>
     unat (ff_pos (f_fdt t ! 0)) = unat (ff_pos small_fd) + k \<and> (r = Inr k \<longrightarrow> dirent_matches t (f_fdt t ! 0)) \<and>
     (\<forall>ds. linked ?s ds \<and> set ds \<inter> set [] = {} \<and> dir_secs small_fd \<inter> areas (f_fs ?s) ds = {} \<longrightarrow>
        linked t ds \<and> file_data t ds = file_data ?s ds)"
    by (intro fat_write_file small_sound) (simp_all add: small_fd_on blank_secs_length pos)
  moreover have "contents ?s small_fd [] = []" by (simp add: contents_def file_data_def)
  ultimately show ?thesis by (elim exE conjE) (intro exI conjI, assumption, auto simp: overwrite_def pos)
qed

text \<open>
  Allocation takes a free cluster, marks it as the end of a chain and changes no other entry; it
  fails only when no cluster is free, and then changes nothing.
\<close>

theorem fat_alloc_takes_free:
  assumes "sound s"
  shows "case alloc_cluster s of (c, t) \<Rightarrow>
     if c = 0 then t = s \<and> disk_full s
     else is_clus (f_fs s) c \<and> tab s c = 0 \<and> sound t \<and> changes (fat_area (f_fs s)) s t \<and>
       (\<forall>d. is_clus (f_fs s) d \<longrightarrow> tab t d = (if d = c then eoc_mark (f_fs s) else tab s d))"
proof -
  have "c \<noteq> 0" if "is_clus (f_fs s) c" for c using that by (auto simp: is_clus_def)
  with alloc_cluster_cases [OF assms] show ?thesis
    by (auto simp: disk_full_def only_entry_def is_clus_def)
qed

lemma fat_alloc_takes_free_witness:
  "case alloc_cluster (small_vol file_secs file_fd) of (c, t) \<Rightarrow>
     if c = 0 then t = small_vol file_secs file_fd \<and> disk_full (small_vol file_secs file_fd)
     else is_clus small_fs c \<and> tab (small_vol file_secs file_fd) c = 0 \<and> sound t \<and>
       changes (fat_area small_fs) (small_vol file_secs file_fd) t \<and>
       (\<forall>d. is_clus small_fs d \<longrightarrow> tab t d = (if d = c then eoc_mark small_fs else tab (small_vol file_secs file_fd) d))"
proof -
  have "sound (small_vol file_secs file_fd)" by (intro small_sound) (simp add: file_secs_length)
  from fat_alloc_takes_free [OF this] show ?thesis unfolding small_fields .
qed

text \<open>
  Property C16. Freeing a chain always comes back, even on a cycle, and only ever frees entries; a proper chain is freed
  whole and nothing else is.
\<close>

theorem fat_free_chain_returns:
  assumes "sound s" and "table_ok s" and "is_clus (f_fs s) c"
  shows "\<exists>t. free_chain c s = Some t \<and> sound t \<and> changes (fat_area (f_fs s)) s t \<and>
     (\<forall>d. is_clus (f_fs s) d \<longrightarrow> tab t d = tab s d \<or> tab t d = 0) \<and>
     (\<forall>cs d. linked s (c # cs) \<and> is_clus (f_fs s) d \<longrightarrow> tab t d = (if d \<in> set (c # cs) then 0 else tab s d))"
proof -
  obtain t where t: "free_chain c s = Some t" "sound t" "changes (fat_area (f_fs s)) s t"
    "\<forall>d. is_clus (f_fs s) d \<longrightarrow> tab t d = tab s d \<or> tab t d = 0"
    using free_chain_returns [OF assms(1,2)] assms(3) by blast
  moreover have "tab t d = (if d \<in> set (c # cs) then 0 else tab s d)" if "linked s (c # cs)" "is_clus (f_fs s) d" for cs d
    using free_chain_linked [OF assms(1) that(1)] t(1) that(2) by (metis option.inject)
  ultimately show ?thesis by blast
qed

text \<open>A volume whose cluster 2 links to itself, with nothing but deleted entries in it.\<close>

definition cycle_secs :: "u32 \<Rightarrow> u8 list" where
  "cycle_secs a = (if a = 1 then (replicate 512 0)[4 := 2] else replicate 512 0xE5)"

lemma cycle_tab: "is_clus small_fs c \<Longrightarrow> tab (small_vol cycle_secs f) c = (if c = 2 then 2 else 0)"
proof -
  assume "is_clus small_fs c"
  then have "unat c \<in> {2, 3, 4, 5}" by (auto simp: is_clus_def word_le_nat_alt)
  moreover have "c = of_nat (unat c)" by simp
  ultimately have "c = 2 \<or> c = 3 \<or> c = 4 \<or> c = 5" by (elim insertE emptyE) simp_all
  then show ?thesis
    by (auto simp: tab_def ent_get_def le16_def ent_sec_def ent_pos_def cycle_secs_def) (simp_all add: small_fs_def)
qed

lemma fat_free_chain_returns_witness:
  "\<exists>t. free_chain 2 (small_vol cycle_secs small_fd) = Some t \<and> sound t"
proof -
  let ?s = "small_vol cycle_secs small_fd"
  have "sound ?s" by (intro small_sound) (simp add: cycle_secs_def)
  moreover have "table_ok ?s" by (auto simp: table_ok_def cycle_tab)
  moreover have "is_clus (f_fs ?s) 2" by (simp add: is_clus_def)
  ultimately show ?thesis using fat_free_chain_returns [of ?s 2] by blast
qed

text \<open>
  Property C17. Looking up a name in a directory comes back exactly when its chain, followed from the first cluster, reaches an end,
  a cluster with the end mark or one with the name. On a chain that closes into a cycle with none of these no bound guards the
  walk, and the lookup never comes back.
\<close>

theorem fat_lookup_hangs:
  assumes "sound s" and "table_ok s" and "is_clus (f_fs s) c"
  shows "find_in_dir s c nm = None \<longleftrightarrow>
    (\<forall>n. in_chain (f_fs s) ((tab s ^^ n) c) \<and> passes s nm ((tab s ^^ n) c))"
  by (rule find_hangs_iff [OF assms])

lemma fat_lookup_hangs_witness: "find_in_dir (small_vol cycle_secs small_fd) 2 ''a.txt'' = None"
proof -
  let ?s = "small_vol cycle_secs small_fd"
  have "sound ?s" by (intro small_sound) (simp add: cycle_secs_def)
  moreover have "table_ok ?s" by (auto simp: table_ok_def cycle_tab)
  moreover have c: "is_clus (f_fs ?s) 2" by (simp add: is_clus_def)
  moreover have "(tab ?s ^^ n) 2 = 2" for n by (induction n) (simp_all add: cycle_tab is_clus_def)
  moreover have "in_chain (f_fs ?s) 2" using \<open>sound ?s\<close> c by (intro is_clus_in_chain) (simp_all add: sound_def)
  moreover have "passes ?s ''a.txt'' 2"
  proof -
    have "{3 ..< 4 :: nat} = {3}" by auto
    moreover have "passes_ent w (take 32 (drop (32 * k) (replicate 512 0xE5)))" if "k < 16" for k w
      using that by (simp add: passes_ent_def take_replicate)
    ultimately show ?thesis by (simp add: passes_def clus_area_def clus0_def cycle_secs_def del: take_replicate drop_replicate)
  qed
  ultimately show ?thesis using fat_lookup_hangs [of ?s 2 "''a.txt''"] by simp
qed

text \<open>
  A lower-case 8.3 name survives the directory: what is listed for it is the name it was created with.
\<close>

theorem fat_name_round:
  assumes "list_all short_char b" and "list_all short_char e" and "length b \<le> 8" and "length e \<le> 3"
  shows "decode83 (name83 (b @ (if e = [] then [] else dot # e))) = b @ (if e = [] then [] else dot # e)"
  by (rule name_round [OF assms])

lemma fat_name_round_witness: "decode83 (name83 ''readme.txt'') = ''readme.txt''"
  using fat_name_round [of "''readme''" "''txt''"] by (simp add: short_char_def)

end
