(* ===== verification/MpFs.thy ===== *)
theory MpFs
  imports KString PosFile
begin

text \<open>
  The flat file system of the interpreter, \<^verbatim>\<open>py/fs.c\<close>: a table of inodes with fixed buffers and eight
  descriptors. Paths are names of at most 27 characters with an optional leading slash. The first part
  is the code; then the invariant (names are unique, open descriptors refer to files in use), the
  abstraction to a map from names to contents, the effect of each operation on it, and the
  interpretation of \<open>positional_file\<close> for a descriptor open for reading and writing.
\<close>

section \<open>State\<close>

definition MPFS_MAGIC :: u32 where "MPFS_MAGIC = 0x5346504D"
definition MPFS_VERSION :: u32 where "MPFS_VERSION = 1"
definition MPFS_NAME_MAX :: nat where "MPFS_NAME_MAX = 28"
definition MPFS_MAX_FD :: nat where "MPFS_MAX_FD = 8"

definition MPFS_O_READ :: u32 where "MPFS_O_READ = 1"
definition MPFS_O_WRITE :: u32 where "MPFS_O_WRITE = 2"
definition MPFS_O_APPEND :: u32 where "MPFS_O_APPEND = 4"
definition MPFS_O_TRUNC :: u32 where "MPFS_O_TRUNC = 8"
definition MPFS_O_CREATE :: u32 where "MPFS_O_CREATE = 16"

definition flag_set :: "u32 \<Rightarrow> u32 \<Rightarrow> bool" where
  "flag_set flags f \<longleftrightarrow> flags AND f \<noteq> 0"

datatype mpfs_err =
    MPFS_ERR_NOENT | MPFS_ERR_EXIST | MPFS_ERR_NOSPC | MPFS_ERR_INVAL | MPFS_ERR_BADFD
  | MPFS_ERR_ISDIR | MPFS_ERR_PERM | MPFS_ERR_NAMETOOLONG

fun mpfs_strerror :: "mpfs_err \<Rightarrow> string" where
  "mpfs_strerror MPFS_ERR_NOENT = ''No such file''"
| "mpfs_strerror MPFS_ERR_EXIST = ''File exists''"
| "mpfs_strerror MPFS_ERR_NOSPC = ''No space left''"
| "mpfs_strerror MPFS_ERR_INVAL = ''Invalid argument''"
| "mpfs_strerror MPFS_ERR_BADFD = ''Bad file descriptor''"
| "mpfs_strerror MPFS_ERR_ISDIR = ''Unknown error''"
| "mpfs_strerror MPFS_ERR_PERM = ''Permission denied''"
| "mpfs_strerror MPFS_ERR_NAMETOOLONG = ''File name too long''"

text \<open>
  \<open>nf\<close> and \<open>fm\<close> below are \<open>MPFS_MAX_FILES\<close> and \<open>MPFS_FILE_MAX\<close>, which \<^verbatim>\<open>py/config.h\<close> sets for the
  host (32, 4096) and the kernel (8, 2048). \<open>i_data\<close> is the whole buffer of an inode.
\<close>

record mp_inode =
  i_name :: string
  i_size :: nat
  i_used :: bool
  i_data :: "u8 list"

record mp_fd =
  d_used :: bool
  d_inode :: nat
  d_offset :: nat
  d_flags :: u32

record mpfs =
  m_magic :: u32
  m_version :: u32
  m_nfiles :: nat
  m_files :: "mp_inode list"
  m_fds :: "mp_fd list"

definition zero_inode :: "nat \<Rightarrow> mp_inode" where
  "zero_inode fm = \<lparr>i_name = [], i_size = 0, i_used = False, i_data = replicate fm 0\<rparr>"

definition zero_fd :: mp_fd where
  "zero_fd = \<lparr>d_used = False, d_inode = 0, d_offset = 0, d_flags = 0\<rparr>"

abbreviation upd_file :: "nat \<Rightarrow> (mp_inode \<Rightarrow> mp_inode) \<Rightarrow> mpfs \<Rightarrow> mpfs" where
  "upd_file i f s \<equiv> s\<lparr>m_files := (m_files s)[i := f (m_files s ! i)]\<rparr>"

abbreviation upd_mfd :: "nat \<Rightarrow> (mp_fd \<Rightarrow> mp_fd) \<Rightarrow> mpfs \<Rightarrow> mpfs" where
  "upd_mfd i f s \<equiv> s\<lparr>m_fds := (m_fds s)[i := f (m_fds s ! i)]\<rparr>"

section \<open>Operations\<close>

definition norm_name :: "string \<Rightarrow> string" where
  "norm_name path = (if cget path 0 = slash then tl path else path)"

definition name_ok :: "string \<Rightarrow> bool" where
  "name_ok path \<longleftrightarrow>
     cget path 0 \<noteq> NUL \<and> kstrlen (norm_name path) \<noteq> 0 \<and> kstrlen (norm_name path) < MPFS_NAME_MAX"

definition find_inode :: "string \<Rightarrow> mpfs \<Rightarrow> nat option" where
  "find_inode path s =
     (if \<not> name_ok path then None
      else first_from (\<lambda>f. i_used f \<and> kstrcmp (i_name f) (norm_name path) = 0) (m_files s) 0)"

definition alloc_inode :: "mpfs \<Rightarrow> nat option" where
  "alloc_inode s = first_from (\<lambda>f. \<not> i_used f) (m_files s) 0"

definition alloc_mfd :: "mpfs \<Rightarrow> nat option" where
  "alloc_mfd s = first_from (\<lambda>d. \<not> d_used d) (m_fds s) 0"

definition mpfs_format :: "nat \<Rightarrow> nat \<Rightarrow> mpfs \<Rightarrow> mpfs" where
  "mpfs_format nf fm s =
     \<lparr>m_magic = MPFS_MAGIC, m_version = MPFS_VERSION, m_nfiles = 0, m_files = replicate nf (zero_inode fm),
      m_fds = map (\<lambda>d. d\<lparr>d_used := False\<rparr>) (m_fds s)\<rparr>"

definition mpfs_init :: "nat \<Rightarrow> nat \<Rightarrow> mpfs \<Rightarrow> mpfs" where
  "mpfs_init nf fm s =
     (if m_magic s \<noteq> MPFS_MAGIC \<or> m_version s \<noteq> MPFS_VERSION then mpfs_format nf fm s else s)"

definition mpfs_exists :: "string \<Rightarrow> mpfs \<Rightarrow> bool" where
  "mpfs_exists path s \<longleftrightarrow> find_inode path s \<noteq> None"

definition mpfs_size :: "string \<Rightarrow> mpfs \<Rightarrow> mpfs_err + nat" where
  "mpfs_size path s =
     (case find_inode path s of None \<Rightarrow> Inl MPFS_ERR_NOENT | Some i \<Rightarrow> Inr (i_size (m_files s ! i)))"

definition mpfs_unlink :: "nat \<Rightarrow> string \<Rightarrow> mpfs \<Rightarrow> (mpfs_err + unit) \<times> mpfs" where
  "mpfs_unlink fm path s =
     (case find_inode path s of
        None \<Rightarrow> (Inl MPFS_ERR_NOENT, s)
      | Some i \<Rightarrow>
          if first_from (\<lambda>d. d_used d \<and> d_inode d = i) (m_fds s) 0 \<noteq> None then (Inl MPFS_ERR_PERM, s)
          else (Inr (), (upd_file i (\<lambda>f. zero_inode fm) s)
                  \<lparr>m_nfiles := (if 0 < m_nfiles s then m_nfiles s - 1 else m_nfiles s)\<rparr>))"

text \<open>A missing file is made here, before a descriptor is looked for.\<close>

definition open_inode :: "nat \<Rightarrow> string \<Rightarrow> u32 \<Rightarrow> mpfs \<Rightarrow> (mpfs_err + nat) \<times> mpfs" where
  "open_inode fm path flags s =
     (case find_inode path s of
        Some i \<Rightarrow> (Inr i, s)
      | None \<Rightarrow>
          if \<not> flag_set flags MPFS_O_CREATE then (Inl MPFS_ERR_NOENT, s)
          else case alloc_inode s of
                 None \<Rightarrow> (Inl MPFS_ERR_NOSPC, s)
               | Some i \<Rightarrow>
                   (Inr i, (upd_file i (\<lambda>f. (zero_inode fm)
                              \<lparr>i_name := strncpy_val (norm_name path) MPFS_NAME_MAX, i_used := True\<rparr>) s)
                      \<lparr>m_nfiles := m_nfiles s + 1\<rparr>))"

definition mpfs_open :: "nat \<Rightarrow> string \<Rightarrow> u32 \<Rightarrow> mpfs \<Rightarrow> (mpfs_err + nat) \<times> mpfs" where
  "mpfs_open fm path flags s =
     (if \<not> name_ok path then (Inl MPFS_ERR_NAMETOOLONG, s)
      else case open_inode fm path flags s of
             (Inl e, s1) \<Rightarrow> (Inl e, s1)
           | (Inr i, s1) \<Rightarrow>
               let s2 = (if flag_set flags MPFS_O_TRUNC \<and> flag_set flags MPFS_O_WRITE
                         then upd_file i (\<lambda>f. f\<lparr>i_size := 0\<rparr>) s1 else s1)
               in case alloc_mfd s2 of
                    None \<Rightarrow> (Inl MPFS_ERR_NOSPC, s2)
                  | Some d \<Rightarrow>
                      (Inr d, s2\<lparr>m_fds := (m_fds s2)[d :=
                         \<lparr>d_used = True, d_inode = i,
                          d_offset = (if flag_set flags MPFS_O_APPEND then i_size (m_files s2 ! i) else 0),
                          d_flags = flags\<rparr>]\<rparr>))"

definition mpfs_close :: "int \<Rightarrow> mpfs \<Rightarrow> (mpfs_err + unit) \<times> mpfs" where
  "mpfs_close fd s =
     (if fd < 0 \<or> int MPFS_MAX_FD \<le> fd then (Inl MPFS_ERR_BADFD, s)
      else (Inr (), upd_mfd (nat fd) (\<lambda>d. d\<lparr>d_used := False\<rparr>) s))"

definition mfd_ok :: "mpfs \<Rightarrow> int \<Rightarrow> bool" where
  "mfd_ok s fd \<longleftrightarrow> 0 \<le> fd \<and> fd < int MPFS_MAX_FD \<and> d_used (m_fds s ! nat fd)"

definition mpfs_seek :: "int \<Rightarrow> int \<Rightarrow> mpfs \<Rightarrow> (mpfs_err + unit) \<times> mpfs" where
  "mpfs_seek fd off s =
     (if \<not> mfd_ok s fd then (Inl MPFS_ERR_BADFD, s)
      else if off < 0 then (Inl MPFS_ERR_INVAL, s)
      else if int (i_size (m_files s ! d_inode (m_fds s ! nat fd))) < off then (Inl MPFS_ERR_INVAL, s)
      else (Inr (), upd_mfd (nat fd) (\<lambda>d. d\<lparr>d_offset := nat off\<rparr>) s))"

definition mpfs_read :: "int \<Rightarrow> nat \<Rightarrow> mpfs \<Rightarrow> (mpfs_err + u8 list) \<times> mpfs" where
  "mpfs_read fd n s =
     (if \<not> mfd_ok s fd then (Inl MPFS_ERR_BADFD, s)
      else let d = m_fds s ! nat fd; node = m_files s ! d_inode d
           in if \<not> flag_set (d_flags d) MPFS_O_READ then (Inl MPFS_ERR_PERM, s)
              else if i_size node \<le> d_offset d then (Inr [], s)
              else let k = min n (i_size node - d_offset d)
                   in (Inr (take k (drop (d_offset d) (i_data node))),
                       upd_mfd (nat fd) (\<lambda>d. d\<lparr>d_offset := d_offset d + k\<rparr>) s))"

definition mpfs_write :: "nat \<Rightarrow> int \<Rightarrow> u8 list \<Rightarrow> mpfs \<Rightarrow> (mpfs_err + nat) \<times> mpfs" where
  "mpfs_write fm fd bs s =
     (if \<not> mfd_ok s fd then (Inl MPFS_ERR_BADFD, s)
      else let d = m_fds s ! nat fd; i = d_inode d
           in if \<not> flag_set (d_flags d) MPFS_O_WRITE then (Inl MPFS_ERR_PERM, s)
              else
                let s1 = (if flag_set (d_flags d) MPFS_O_APPEND
                          then upd_mfd (nat fd) (\<lambda>d. d\<lparr>d_offset := i_size (m_files s ! i)\<rparr>) s else s);
                    off = d_offset (m_fds s1 ! nat fd)
                in if fm < off then (Inl MPFS_ERR_NOSPC, s1)
                   else if fm - off < length bs then (Inl MPFS_ERR_NOSPC, s1)
                   else
                     let s2 = upd_file i (\<lambda>f. f\<lparr>i_data := overwrite (i_data f) off bs\<rparr>) s1;
                         s3 = upd_mfd (nat fd) (\<lambda>d. d\<lparr>d_offset := off + length bs\<rparr>) s2
                     in (Inr (length bs),
                         if i_size (m_files s3 ! i) < off + length bs
                         then upd_file i (\<lambda>f. f\<lparr>i_size := off + length bs\<rparr>) s3 else s3))"

fun mlist_loop :: "nat \<Rightarrow> mp_inode list \<Rightarrow> string \<Rightarrow> mpfs_err + string" where
  "mlist_loop buflen [] out = Inr out"
| "mlist_loop buflen (f # fs) out =
     (if \<not> i_used f then mlist_loop buflen fs out
      else if buflen < length out + kstrlen (i_name f) + 2 then Inl MPFS_ERR_NOSPC
      else mlist_loop buflen fs (out @ cstr (i_name f) @ [newline]))"

definition mpfs_listdir :: "nat \<Rightarrow> mpfs \<Rightarrow> mpfs_err + string" where
  "mpfs_listdir buflen s =
     (if buflen = 0 then Inl MPFS_ERR_INVAL
      else case mlist_loop buflen (m_files s) [] of
             Inl e \<Rightarrow> Inl e
           | Inr out \<Rightarrow> Inr (if out \<noteq> [] \<and> last out = newline then butlast out else out))"

section \<open>Invariant and abstraction\<close>

definition inode_ok :: "nat \<Rightarrow> mp_inode \<Rightarrow> bool" where
  "inode_ok fm f \<longleftrightarrow>
     length (i_data f) = fm \<and> i_size f \<le> fm \<and>
     (i_used f \<longrightarrow> i_name f \<noteq> [] \<and> no_nul (i_name f) \<and> length (i_name f) < MPFS_NAME_MAX)"

definition mpfs_inv :: "nat \<Rightarrow> nat \<Rightarrow> mpfs \<Rightarrow> bool" where
  "mpfs_inv nf fm s \<longleftrightarrow>
     length (m_files s) = nf \<and> length (m_fds s) = MPFS_MAX_FD \<and> list_all (inode_ok fm) (m_files s) \<and>
     (\<forall>i j. i < nf \<and> j < nf \<and> i \<noteq> j \<and> i_used (m_files s ! i) \<and> i_used (m_files s ! j) \<longrightarrow>
        i_name (m_files s ! i) \<noteq> i_name (m_files s ! j)) \<and>
     (\<forall>d \<in> set (m_fds s). d_used d \<longrightarrow> d_inode d < nf \<and> i_used (m_files s ! d_inode d)) \<and>
     m_nfiles s = length (filter i_used (m_files s))"

definition inode_bytes :: "mp_inode \<Rightarrow> u8 list" where
  "inode_bytes f = take (i_size f) (i_data f)"

definition mpfs_abs :: "mpfs \<Rightarrow> string \<Rightarrow> u8 list option" where
  "mpfs_abs s nm =
     (case first_from (\<lambda>f. i_used f \<and> i_name f = nm) (m_files s) 0 of
        None \<Rightarrow> None | Some i \<Rightarrow> Some (inode_bytes (m_files s ! i)))"

definition file_key :: "string \<Rightarrow> string" where
  "file_key path = cstr (norm_name path)"

lemma inv_file: "mpfs_inv nf fm s \<Longrightarrow> i < nf \<Longrightarrow> inode_ok fm (m_files s ! i)"
  by (simp add: mpfs_inv_def list_all_length)

lemma inv_unique:
  "mpfs_inv nf fm s \<Longrightarrow> i < nf \<Longrightarrow> j < nf \<Longrightarrow> i_used (m_files s ! i) \<Longrightarrow> i_used (m_files s ! j) \<Longrightarrow>
     i_name (m_files s ! i) = i_name (m_files s ! j) \<Longrightarrow> i = j"
  by (auto simp: mpfs_inv_def)

lemma inv_len: "mpfs_inv nf fm s \<Longrightarrow> length (m_files s) = nf \<and> length (m_fds s) = MPFS_MAX_FD"
  by (simp add: mpfs_inv_def)

lemma find_inode_Some:
  assumes inv: "mpfs_inv nf fm s"
  shows "find_inode path s = Some i \<longleftrightarrow>
    name_ok path \<and> i < nf \<and> i_used (m_files s ! i) \<and> i_name (m_files s ! i) = file_key path"
proof -
  have eq: "kstrcmp (i_name (m_files s ! j)) (norm_name path) = 0 \<longleftrightarrow> i_name (m_files s ! j) = file_key path"
    if "j < nf" "i_used (m_files s ! j)" for j
    using inv_file [OF inv that(1)] that(2) by (simp add: kstrcmp_eq_0 file_key_def inode_ok_def cstr_id)
  have len: "length (m_files s) = nf" using inv_len [OF inv] by simp
  let ?P = "\<lambda>f. i_used f \<and> kstrcmp (i_name f) (norm_name path) = 0"
  have "first_from ?P (m_files s) 0 = Some i \<longleftrightarrow> i < nf \<and> i_used (m_files s ! i) \<and> i_name (m_files s ! i) = file_key path"
  proof
    assume "first_from ?P (m_files s) 0 = Some i"
    from first_from_Some [OF this] eq [of i] len
    show "i < nf \<and> i_used (m_files s ! i) \<and> i_name (m_files s ! i) = file_key path" by auto
  next
    assume i: "i < nf \<and> i_used (m_files s ! i) \<and> i_name (m_files s ! i) = file_key path"
    show "first_from ?P (m_files s) 0 = Some i"
    proof (rule first_from_eq)
      fix j assume "j < i"
      then show "\<not> ?P (m_files s ! j)"
        using i eq [of j] inv_unique [OF inv, of i j] by auto
    next
      show "?P (m_files s ! i)" using i eq [of i] by blast
    qed (use i len in auto)
  qed
  then show ?thesis by (auto simp: find_inode_def)
qed

lemma mpfs_abs_Some:
  assumes inv: "mpfs_inv nf fm s"
  shows "mpfs_abs s nm = Some b \<longleftrightarrow>
    (\<exists>i < nf. i_used (m_files s ! i) \<and> i_name (m_files s ! i) = nm \<and> b = inode_bytes (m_files s ! i))"
proof -
  have len: "length (m_files s) = nf" using inv_len [OF inv] by simp
  let ?P = "\<lambda>f. i_used f \<and> i_name f = nm"
  show ?thesis
  proof (cases "first_from ?P (m_files s) 0")
    case None
    then have "\<forall>i < nf. \<not> (i_used (m_files s ! i) \<and> i_name (m_files s ! i) = nm)"
      using len by (simp add: first_from_None)
    with None show ?thesis by (auto simp: mpfs_abs_def)
  next
    case (Some k)
    from first_from_Some [OF this] len have k: "k < nf" "?P (m_files s ! k)" by auto
    have val: "mpfs_abs s nm = Some (inode_bytes (m_files s ! k))" using Some by (simp add: mpfs_abs_def)
    have uniq: "i = k" if "i < nf" "i_used (m_files s ! i)" "i_name (m_files s ! i) = nm" for i
      by (rule inv_unique [OF inv that(1) k(1)]) (use k that in auto)
    show ?thesis
    proof
      assume "mpfs_abs s nm = Some b"
      with val k show "\<exists>i<nf. i_used (m_files s ! i) \<and> i_name (m_files s ! i) = nm \<and> b = inode_bytes (m_files s ! i)"
        by (intro exI [of _ k]) simp
    next
      assume "\<exists>i<nf. i_used (m_files s ! i) \<and> i_name (m_files s ! i) = nm \<and> b = inode_bytes (m_files s ! i)"
      then obtain i where i: "i < nf" "i_used (m_files s ! i)" "i_name (m_files s ! i) = nm" "b = inode_bytes (m_files s ! i)"
        by blast
      with uniq [OF i(1-3)] val show "mpfs_abs s nm = Some b" by simp
    qed
  qed
qed

lemma mpfs_abs_at:
  assumes "mpfs_inv nf fm s" and "i < nf" and "i_used (m_files s ! i)"
  shows "mpfs_abs s (i_name (m_files s ! i)) = Some (inode_bytes (m_files s ! i))"
  using assms mpfs_abs_Some [OF assms(1)] by blast

lemma mpfs_abs_None:
  "mpfs_inv nf fm s \<Longrightarrow> mpfs_abs s nm = None \<longleftrightarrow> (\<forall>i < nf. i_used (m_files s ! i) \<longrightarrow> i_name (m_files s ! i) \<noteq> nm)"
  using mpfs_abs_Some [of nf fm s nm] by (metis not_None_eq)

lemma option_eq_Some: "(\<And>b. x = Some b \<longleftrightarrow> y = Some b) \<Longrightarrow> x = y"
  by (cases x; cases y) auto

lemma mpfs_abs_frame:
  assumes inv: "mpfs_inv nf fm s" and inv': "mpfs_inv nf fm t"
    and eq: "\<And>j. j < nf \<Longrightarrow> (i_used (m_files t ! j) \<and> i_name (m_files t ! j) = nm) =
      (i_used (m_files s ! j) \<and> i_name (m_files s ! j) = nm)"
    and bytes: "\<And>j. j < nf \<Longrightarrow> i_used (m_files s ! j) \<Longrightarrow> i_name (m_files s ! j) = nm \<Longrightarrow>
      inode_bytes (m_files t ! j) = inode_bytes (m_files s ! j)"
  shows "mpfs_abs t nm = mpfs_abs s nm"
proof (rule option_eq_Some)
  fix b
  have "(i_used (m_files t ! j) \<and> i_name (m_files t ! j) = nm \<and> b = inode_bytes (m_files t ! j)) =
      (i_used (m_files s ! j) \<and> i_name (m_files s ! j) = nm \<and> b = inode_bytes (m_files s ! j))" if "j < nf" for j
  proof (cases "i_used (m_files s ! j) \<and> i_name (m_files s ! j) = nm")
    case True
    then have "i_used (m_files t ! j) \<and> i_name (m_files t ! j) = nm" "inode_bytes (m_files t ! j) = inode_bytes (m_files s ! j)"
      using eq [OF that] bytes [OF that] by iprover+
    with True show ?thesis by simp
  next
    case False
    then have "\<not> (i_used (m_files t ! j) \<and> i_name (m_files t ! j) = nm)" using eq [OF that] by iprover
    with False show ?thesis by iprover
  qed
  then show "mpfs_abs t nm = Some b \<longleftrightarrow> mpfs_abs s nm = Some b"
    unfolding mpfs_abs_Some [OF inv'] mpfs_abs_Some [OF inv] by (intro ex_cong) blast
qed

text \<open>Changing one inode in use changes the map at its name only.\<close>

lemma mpfs_abs_upd:
  assumes inv: "mpfs_inv nf fm s" and inv': "mpfs_inv nf fm t" and i: "i < nf" "i_used (m_files s ! i)"
    and files: "m_files t = (m_files s)[i := g]" and g: "i_used g" "i_name g = i_name (m_files s ! i)"
  shows "mpfs_abs t = (mpfs_abs s)(i_name g \<mapsto> inode_bytes g)"
proof (rule ext)
  fix nm
  have len: "length (m_files s) = nf" using inv_len [OF inv] by simp
  have nth: "m_files t ! j = (if j = i then g else m_files s ! j)" if "j < nf" for j
    using that len by (simp add: files nth_list_update)
  show "mpfs_abs t nm = ((mpfs_abs s)(i_name g \<mapsto> inode_bytes g)) nm"
  proof (cases "nm = i_name g")
    case True
    then have "mpfs_abs t nm = Some (inode_bytes g)"
      unfolding mpfs_abs_Some [OF inv'] using i g nth by auto
    with True show ?thesis by simp
  next
    case False
    have "mpfs_abs t nm = mpfs_abs s nm"
      by (rule mpfs_abs_frame [OF inv inv']) (use False g nth i in auto)
    with False show ?thesis by simp
  qed
qed

lemma mpfs_abs_add:
  assumes inv: "mpfs_inv nf fm s" and inv': "mpfs_inv nf fm t" and i: "i < nf" "\<not> i_used (m_files s ! i)"
    and files: "m_files t = (m_files s)[i := g]" and g: "i_used g"
  shows "mpfs_abs t = (mpfs_abs s)(i_name g \<mapsto> inode_bytes g)"
proof (rule ext)
  fix nm
  have len: "length (m_files s) = nf" using inv_len [OF inv] by simp
  have nth: "m_files t ! j = (if j = i then g else m_files s ! j)" if "j < nf" for j
    using that len by (simp add: files nth_list_update)
  show "mpfs_abs t nm = ((mpfs_abs s)(i_name g \<mapsto> inode_bytes g)) nm"
  proof (cases "nm = i_name g")
    case True
    then have "mpfs_abs t nm = Some (inode_bytes g)"
      unfolding mpfs_abs_Some [OF inv'] using i g nth by auto
    with True show ?thesis by simp
  next
    case False
    have "mpfs_abs t nm = mpfs_abs s nm"
      by (rule mpfs_abs_frame [OF inv inv']) (use False g nth i in auto)
    with False show ?thesis by simp
  qed
qed

lemma mpfs_abs_drop:
  assumes inv: "mpfs_inv nf fm s" and inv': "mpfs_inv nf fm t" and i: "i < nf" "i_used (m_files s ! i)"
    and files: "m_files t = (m_files s)[i := g]" and g: "\<not> i_used g"
  shows "mpfs_abs t = (mpfs_abs s)(i_name (m_files s ! i) := None)"
proof (rule ext)
  fix nm
  have len: "length (m_files s) = nf" using inv_len [OF inv] by simp
  have nth: "m_files t ! j = (if j = i then g else m_files s ! j)" if "j < nf" for j
    using that len by (simp add: files nth_list_update)
  show "mpfs_abs t nm = ((mpfs_abs s)(i_name (m_files s ! i) := None)) nm"
  proof (cases "nm = i_name (m_files s ! i)")
    case True
    then have "mpfs_abs t nm = None"
      unfolding mpfs_abs_None [OF inv'] using i g nth inv_unique [OF inv, of _ i] by auto
    with True show ?thesis by simp
  next
    case False
    have "mpfs_abs t nm = mpfs_abs s nm"
      by (rule mpfs_abs_frame [OF inv inv']) (use False g nth i in auto)
    with False show ?thesis by simp
  qed
qed

lemma count_update:
  "i < length xs \<Longrightarrow> length (filter P (xs[i := x])) =
     length (filter P xs) - (if P (xs ! i) then 1 else 0) + (if P x then 1 else 0)"
proof (induction xs arbitrary: i)
  case (Cons y ys)
  show ?case
  proof (cases i)
    case (Suc k)
    with Cons.prems have k: "k < length ys" by simp
    have "0 < length (filter P ys)" if "P (ys ! k)"
      using that k by (auto simp: length_greater_0_conv filter_empty_conv)
    with Cons.IH [OF k] Suc show ?thesis by auto
  qed auto
qed simp

text \<open>Updates that keep the invariant.\<close>

lemma inv_upd_file:
  assumes inv: "mpfs_inv nf fm s" and i: "i < nf" and g: "inode_ok fm g" "i_used g = i_used (m_files s ! i)"
    "i_name g = i_name (m_files s ! i)"
  shows "mpfs_inv nf fm (s\<lparr>m_files := (m_files s)[i := g]\<rparr>)"
proof -
  have len: "length (m_files s) = nf" using inv_len [OF inv] by simp
  have nth: "(m_files s)[i := g] ! j = (if j = i then g else m_files s ! j)" if "j < nf" for j
    using that len by (simp add: nth_list_update)
  have "list_all (inode_ok fm) ((m_files s)[i := g])"
    using inv g(1) by (simp add: mpfs_inv_def list_all_update)
  moreover have "length (filter i_used ((m_files s)[i := g])) = length (filter i_used (m_files s))"
  proof -
    have "0 < length (filter i_used (m_files s))" if "i_used (m_files s ! i)"
      using that i len by (auto simp: length_greater_0_conv filter_empty_conv)
    then show ?thesis using count_update [of i "m_files s" i_used g] i len g(2) by auto
  qed
  moreover have "i_used ((m_files s)[i := g] ! j) = i_used (m_files s ! j)" "i_name ((m_files s)[i := g] ! j) = i_name (m_files s ! j)"
    if "j < nf" for j
    using nth [OF that] g by auto
  ultimately show ?thesis using inv i unfolding mpfs_inv_def by (simp cong: conj_cong)
qed

lemma inv_upd_fd:
  assumes inv: "mpfs_inv nf fm s" and d: "d_used D \<longrightarrow> d_inode D < nf \<and> i_used (m_files s ! d_inode D)"
  shows "mpfs_inv nf fm (s\<lparr>m_fds := (m_fds s)[k := D]\<rparr>)"
  using inv d set_update_subset_insert [of "m_fds s" k D] by (auto simp: mpfs_inv_def)

lemma inv_fd:
  "mpfs_inv nf fm s \<Longrightarrow> k < MPFS_MAX_FD \<Longrightarrow> d_used (m_fds s ! k) \<Longrightarrow>
     d_inode (m_fds s ! k) < nf \<and> i_used (m_files s ! d_inode (m_fds s ! k))"
  by (simp add: mpfs_inv_def)

lemma mfd_okD: "mpfs_inv nf fm s \<Longrightarrow> mfd_ok s fd \<Longrightarrow> nat fd < MPFS_MAX_FD \<and> nat fd < length (m_fds s) \<and>
    d_inode (m_fds s ! nat fd) < nf \<and> i_used (m_files s ! d_inode (m_fds s ! nat fd))"
  using inv_fd [of nf fm s "nat fd"] inv_len [of nf fm s] by (auto simp: mfd_ok_def)

section \<open>Each operation\<close>

lemma file_key_fits: "name_ok path \<Longrightarrow> strncpy_val (norm_name path) MPFS_NAME_MAX = file_key path \<and>
    file_key path \<noteq> [] \<and> no_nul (file_key path) \<and> length (file_key path) < MPFS_NAME_MAX"
  by (auto simp: name_ok_def file_key_def strncpy_val_def kstrlen_cstr MPFS_NAME_MAX_def)

lemma find_inode_None:
  assumes "mpfs_inv nf fm s" and "name_ok path"
  shows "find_inode path s = None \<longleftrightarrow> mpfs_abs s (file_key path) = None"
  using find_inode_Some [OF assms(1), of path] mpfs_abs_None [OF assms(1), of "file_key path"] assms(2)
  by (metis not_None_eq)

lemma mpfs_abs_fds [simp]: "mpfs_abs (s\<lparr>m_fds := x\<rparr>) = mpfs_abs s"
  by (rule ext) (simp add: mpfs_abs_def cong: option.case_cong)

lemma open_inode_result:
  assumes inv: "mpfs_inv nf fm s" and ok: "name_ok path" and op: "open_inode fm path flags s = (r, t)"
  shows "mpfs_inv nf fm t \<and> m_fds t = m_fds s \<and>
    (case r of
       Inl e \<Rightarrow> t = s
     | Inr i \<Rightarrow> i < nf \<and> i_used (m_files t ! i) \<and> i_name (m_files t ! i) = file_key path \<and>
         mpfs_abs t = (if mpfs_abs s (file_key path) = None then (mpfs_abs s)(file_key path \<mapsto> []) else mpfs_abs s))"
proof (cases "find_inode path s")
  case (Some i)
  then have i: "i < nf" "i_used (m_files s ! i)" "i_name (m_files s ! i) = file_key path"
    using find_inode_Some [OF inv, of path i] by auto
  have rt: "r = Inr i" "t = s" using op Some by (auto simp: open_inode_def)
  have "mpfs_abs s (file_key path) \<noteq> None" using find_inode_None [OF inv ok] Some by simp
  with rt i inv show ?thesis by auto
next
  case None
  show ?thesis
  proof (cases "flag_set flags MPFS_O_CREATE \<and> alloc_inode s \<noteq> None")
    case False
    then show ?thesis using op None inv by (auto simp: open_inode_def split: if_splits)
  next
    case True
    then obtain i where al: "alloc_inode s = Some i" by auto
    have len: "length (m_files s) = nf" using inv_len [OF inv] by simp
    from first_from_Some [OF al [unfolded alloc_inode_def]] len have i: "i < nf" "\<not> i_used (m_files s ! i)" by auto
    let ?g = "(zero_inode fm)\<lparr>i_name := file_key path, i_used := True\<rparr>"
    have rt: "r = Inr i" "t = s\<lparr>m_files := (m_files s)[i := ?g], m_nfiles := m_nfiles s + 1\<rparr>"
      using op None True al file_key_fits [OF ok] by (auto simp: open_inode_def)
    have gok: "inode_ok fm ?g" using file_key_fits [OF ok] by (simp add: inode_ok_def zero_inode_def)
    have nth: "m_files t ! j = (if j = i then ?g else m_files s ! j)" if "j < nf" for j
      using that len by (simp add: rt nth_list_update)
    have noname: "i_name (m_files s ! j) \<noteq> file_key path" if "j < nf" "i_used (m_files s ! j)" for j
      using None find_inode_Some [OF inv, of path j] that ok by auto
    have inv_t: "mpfs_inv nf fm t"
    proof -
      have "list_all (inode_ok fm) (m_files t)" using inv gok by (simp add: rt mpfs_inv_def list_all_update)
      moreover have "m_nfiles t = length (filter i_used (m_files t))"
        using inv i len count_update [of i "m_files s" i_used ?g] by (simp add: rt mpfs_inv_def)
      moreover have "\<forall>a b. a < nf \<and> b < nf \<and> a \<noteq> b \<and> i_used (m_files t ! a) \<and> i_used (m_files t ! b) \<longrightarrow>
          i_name (m_files t ! a) \<noteq> i_name (m_files t ! b)"
      proof (intro allI impI)
        fix a b assume "a < nf \<and> b < nf \<and> a \<noteq> b \<and> i_used (m_files t ! a) \<and> i_used (m_files t ! b)"
        then show "i_name (m_files t ! a) \<noteq> i_name (m_files t ! b)"
          using noname [of a] noname [of b] inv_unique [OF inv, of a b] nth [of a] nth [of b]
          by (cases "a = i"; cases "b = i") auto
      qed
      moreover have "\<forall>d \<in> set (m_fds t). d_used d \<longrightarrow> d_inode d < nf \<and> i_used (m_files t ! d_inode d)"
      proof (intro ballI impI)
        fix d assume "d \<in> set (m_fds t)" "d_used d"
        then have "d_inode d < nf \<and> i_used (m_files s ! d_inode d)" using inv by (simp add: rt mpfs_inv_def)
        with nth [of "d_inode d"] show "d_inode d < nf \<and> i_used (m_files t ! d_inode d)" by auto
      qed
      ultimately show ?thesis using inv len by (simp add: mpfs_inv_def) (simp add: rt)
    qed
    have "mpfs_abs t = (mpfs_abs s)(file_key path \<mapsto> [])"
      using mpfs_abs_add [OF inv inv_t i, of ?g] by (simp add: rt zero_inode_def inode_bytes_def)
    with inv_t nth [OF i(1)] i None find_inode_None [OF inv ok] show ?thesis by (simp add: rt)
  qed
qed

definition mopen_abs :: "u32 \<Rightarrow> (string \<Rightarrow> u8 list option) \<Rightarrow> string \<Rightarrow> string \<Rightarrow> u8 list option" where
  "mopen_abs flags m k =
     (case m k of None \<Rightarrow> m(k \<mapsto> [])
      | Some bs \<Rightarrow> if flag_set flags MPFS_O_TRUNC \<and> flag_set flags MPFS_O_WRITE then m(k \<mapsto> []) else m)"

lemma mpfs_open_result:
  assumes inv: "mpfs_inv nf fm s" and op: "mpfs_open fm path flags s = (r, t)"
  shows "mpfs_inv nf fm t \<and>
    (\<forall>d. r = Inr d \<longrightarrow> mpfs_abs t = mopen_abs flags (mpfs_abs s) (file_key path) \<and>
       d < MPFS_MAX_FD \<and> \<not> d_used (m_fds s ! d) \<and>
       m_fds t = (m_fds s)[d := m_fds t ! d] \<and> d_used (m_fds t ! d) \<and> d_flags (m_fds t ! d) = flags \<and>
       i_name (m_files t ! d_inode (m_fds t ! d)) = file_key path \<and>
       d_offset (m_fds t ! d) =
         (if flag_set flags MPFS_O_APPEND then i_size (m_files t ! d_inode (m_fds t ! d)) else 0))"
proof (cases "name_ok path")
  case False
  with op inv show ?thesis by (auto simp: mpfs_open_def)
next
  case ok: True
  obtain r1 s1 where o: "open_inode fm path flags s = (r1, s1)" by (cases "open_inode fm path flags s")
  note res = open_inode_result [OF inv ok o]
  show ?thesis
  proof (cases r1)
    case (Inl e)
    with op ok o res show ?thesis by (auto simp: mpfs_open_def)
  next
    case (Inr i)
    with res have r: "mpfs_inv nf fm s1" "m_fds s1 = m_fds s" "i < nf" "i_used (m_files s1 ! i)" "i_name (m_files s1 ! i) = file_key path"
      "mpfs_abs s1 = (if mpfs_abs s (file_key path) = None then (mpfs_abs s)(file_key path \<mapsto> []) else mpfs_abs s)" by auto
    define s2 where "s2 = (if flag_set flags MPFS_O_TRUNC \<and> flag_set flags MPFS_O_WRITE
      then upd_file i (\<lambda>f. f\<lparr>i_size := 0\<rparr>) s1 else s1)"
    let ?g = "(m_files s1 ! i)\<lparr>i_size := 0\<rparr>"
    have g: "inode_ok fm ?g" using inv_file [OF r(1,3)] by (simp add: inode_ok_def)
    have len: "length (m_files s1) = nf" "length (m_fds s1) = MPFS_MAX_FD" using inv_len [OF r(1)] by auto
    have inv_tr: "mpfs_inv nf fm (s1\<lparr>m_files := (m_files s1)[i := ?g]\<rparr>)"
      by (rule inv_upd_file [OF r(1,3) g]) simp_all
    have abs_tr: "mpfs_abs (s1\<lparr>m_files := (m_files s1)[i := ?g]\<rparr>) = (mpfs_abs s1)(file_key path \<mapsto> [])"
      using mpfs_abs_upd [OF r(1) inv_tr r(3,4), of ?g] r(4,5) by (simp add: inode_bytes_def)
    have s2: "mpfs_inv nf fm s2" "m_fds s2 = m_fds s" "i_used (m_files s2 ! i)" "i_name (m_files s2 ! i) = file_key path"
      "mpfs_abs s2 = mopen_abs flags (mpfs_abs s) (file_key path)"
      using r inv_tr abs_tr len by (auto simp: s2_def mopen_abs_def fun_upd_idem split: option.splits)
    have mo: "mpfs_open fm path flags s = (case alloc_mfd s2 of None \<Rightarrow> (Inl MPFS_ERR_NOSPC, s2)
       | Some d \<Rightarrow> (Inr d, s2\<lparr>m_fds := (m_fds s2)[d :=
                         \<lparr>d_used = True, d_inode = i,
                          d_offset = (if flag_set flags MPFS_O_APPEND then i_size (m_files s2 ! i) else 0),
                          d_flags = flags\<rparr>]\<rparr>))"
      by (simp only: mpfs_open_def Let_def s2_def ok o Inr not_True_eq_False if_False sum.case prod.case)
    show ?thesis
    proof (cases "alloc_mfd s2")
      case None
      with mo op s2(1) show ?thesis by auto
    next
      case (Some d)
      from first_from_Some [OF this [unfolded alloc_mfd_def]] s2(2) len(2) r(2)
      have d: "d < MPFS_MAX_FD" "\<not> d_used (m_fds s ! d)" by auto
      let ?D = "\<lparr>d_used = True, d_inode = i, d_offset = (if flag_set flags MPFS_O_APPEND then i_size (m_files s2 ! i) else 0), d_flags = flags\<rparr>"
      have t: "r = Inr d" "t = s2\<lparr>m_fds := (m_fds s2)[d := ?D]\<rparr>" using mo op Some by auto
      have inv_t: "mpfs_inv nf fm t" unfolding t(2) by (rule inv_upd_fd [OF s2(1)]) (use r(3) s2(3) in simp)
      have abs_t: "mpfs_abs t = mopen_abs flags (mpfs_abs s) (file_key path)" by (simp only: t(2) mpfs_abs_fds s2(5))
      have fdst: "m_fds t = (m_fds s)[d := ?D]" "m_files t = m_files s2" by (simp_all add: t(2) s2(2))
      have D: "m_fds t ! d = ?D" using d len r(2) by (simp add: fdst)
      have upd: "m_fds t = (m_fds s)[d := m_fds t ! d]" by (simp only: D) (simp only: fdst)
      have "d_used (m_fds t ! d) \<and> d_flags (m_fds t ! d) = flags \<and>
       i_name (m_files t ! d_inode (m_fds t ! d)) = file_key path \<and>
       d_offset (m_fds t ! d) =
         (if flag_set flags MPFS_O_APPEND then i_size (m_files t ! d_inode (m_fds t ! d)) else 0)"
        unfolding D by (simp add: fdst(2) s2(4))
      with inv_t abs_t d upd t(1) show ?thesis by blast
    qed
  qed
qed

lemma mpfs_unlink_result:
  assumes inv: "mpfs_inv nf fm s" and op: "mpfs_unlink fm path s = (r, t)"
  shows "mpfs_inv nf fm t \<and>
    (case r of
       Inr u \<Rightarrow> mpfs_abs s (file_key path) \<noteq> None \<and> mpfs_abs t = (mpfs_abs s)(file_key path := None)
     | Inl e \<Rightarrow> t = s)"
proof (cases "find_inode path s")
  case None
  with op inv show ?thesis by (auto simp: mpfs_unlink_def)
next
  case (Some i)
  then have i: "name_ok path" "i < nf" "i_used (m_files s ! i)" "i_name (m_files s ! i) = file_key path"
    using find_inode_Some [OF inv, of path i] by auto
  have len: "length (m_files s) = nf" using inv_len [OF inv] by simp
  show ?thesis
  proof (cases "first_from (\<lambda>d. d_used d \<and> d_inode d = i) (m_fds s) 0")
    case (Some k)
    with op \<open>find_inode path s = Some i\<close> inv show ?thesis by (auto simp: mpfs_unlink_def)
  next
    case None
    have closed: "d_inode d \<noteq> i" if "d \<in> set (m_fds s)" "d_used d" for d
      using None that by (auto simp: first_from_None in_set_conv_nth)
    let ?g = "zero_inode fm"
    have rt: "r = Inr ()" "m_files t = (m_files s)[i := ?g]" "m_fds t = m_fds s"
      "m_nfiles t = (if 0 < m_nfiles s then m_nfiles s - 1 else m_nfiles s)"
      using op Some None by (auto simp: mpfs_unlink_def)
    have nth: "m_files t ! j = (if j = i then ?g else m_files s ! j)" if "j < nf" for j
      using that len by (simp add: rt nth_list_update)
    have inv_t: "mpfs_inv nf fm t"
    proof -
      have "list_all (inode_ok fm) (m_files t)"
        using inv by (simp add: rt mpfs_inv_def list_all_update inode_ok_def zero_inode_def)
      moreover have "m_nfiles t = length (filter i_used (m_files t))"
      proof -
        have "0 < length (filter i_used (m_files s))"
          using i len by (auto simp: length_greater_0_conv filter_empty_conv)
        then show ?thesis
          using inv i len count_update [of i "m_files s" i_used ?g] by (simp add: rt mpfs_inv_def zero_inode_def)
      qed
      moreover have "\<forall>a b. a < nf \<and> b < nf \<and> a \<noteq> b \<and> i_used (m_files t ! a) \<and> i_used (m_files t ! b) \<longrightarrow>
          i_name (m_files t ! a) \<noteq> i_name (m_files t ! b)"
        using inv_unique [OF inv] nth by (auto simp: zero_inode_def)
      moreover have "\<forall>d \<in> set (m_fds t). d_used d \<longrightarrow> d_inode d < nf \<and> i_used (m_files t ! d_inode d)"
      proof (intro ballI impI)
        fix d assume d: "d \<in> set (m_fds t)" "d_used d"
        then have "d_inode d < nf \<and> i_used (m_files s ! d_inode d)" using inv by (simp add: rt mpfs_inv_def)
        with nth [of "d_inode d"] closed [of d] d show "d_inode d < nf \<and> i_used (m_files t ! d_inode d)" by (simp add: rt)
      qed
      ultimately show ?thesis using inv len by (simp add: mpfs_inv_def) (simp add: rt)
    qed
    have "\<not> i_used ?g" by (simp add: zero_inode_def)
    from mpfs_abs_drop [OF inv inv_t i(2,3) rt(2) this] i find_inode_None [OF inv i(1)] Some inv_t
    show ?thesis by (simp add: rt(1))
  qed
qed

lemma take_overwrite:
  assumes "off \<le> z" and "z \<le> length data" and "off + length bs \<le> length data"
  shows "take (max z (off + length bs)) (overwrite data off bs) = overwrite (take z data) off bs"
proof -
  have "max z (off + length bs) = off + (length bs + (z - (off + length bs)))" by simp
  then show ?thesis using assms by (simp add: overwrite_def drop_take)
qed

lemma mpfs_read_result:
  assumes inv: "mpfs_inv nf fm s" and fd: "mfd_ok s fd" and flag: "flag_set (d_flags (m_fds s ! nat fd)) MPFS_O_READ"
  shows "mpfs_read fd n s =
    (let got = take n (drop (d_offset (m_fds s ! nat fd)) (inode_bytes (m_files s ! d_inode (m_fds s ! nat fd))))
     in (Inr got, upd_mfd (nat fd) (\<lambda>d. d\<lparr>d_offset := d_offset d + length got\<rparr>) s))"
proof -
  let ?d = "m_fds s ! nat fd" and ?f = "m_files s ! d_inode (m_fds s ! nat fd)"
  note i = mfd_okD [OF inv fd]
  then have f: "length (i_data ?f) = fm" "i_size ?f \<le> fm" using inv_file [OF inv] by (auto simp: inode_ok_def)
  show ?thesis
  proof (cases "i_size ?f \<le> d_offset ?d")
    case True
    then show ?thesis using fd flag i by (simp add: mpfs_read_def Let_def inode_bytes_def)
  next
    case False
    have "take (min n (i_size ?f - d_offset ?d)) (drop (d_offset ?d) (i_data ?f)) =
        take n (drop (d_offset ?d) (inode_bytes ?f))"
      by (simp add: inode_bytes_def drop_take)
    moreover have "length (take n (drop (d_offset ?d) (inode_bytes ?f))) = min n (i_size ?f - d_offset ?d)"
      using f by (simp add: inode_bytes_def min.commute)
    ultimately show ?thesis using False fd flag by (simp add: mpfs_read_def Let_def)
  qed
qed

lemma mpfs_write_result:
  assumes inv: "mpfs_inv nf fm s" and fd: "mfd_ok s fd" and flag: "flag_set (d_flags (m_fds s ! nat fd)) MPFS_O_WRITE"
    and i: "i = d_inode (m_fds s ! nat fd)"
    and off: "off = (if flag_set (d_flags (m_fds s ! nat fd)) MPFS_O_APPEND then i_size (m_files s ! i) else d_offset (m_fds s ! nat fd))"
      "off \<le> i_size (m_files s ! i)"
    and op: "mpfs_write fm fd bs s = (r, t)"
  shows "mpfs_inv nf fm t \<and>
    (if off + length bs \<le> fm then
       r = Inr (length bs) \<and> inode_bytes (m_files t ! i) = overwrite (inode_bytes (m_files s ! i)) off bs \<and>
       m_fds t = (m_fds s)[nat fd := (m_fds s ! nat fd)\<lparr>d_offset := off + length bs\<rparr>] \<and>
       mpfs_abs t = (mpfs_abs s)(i_name (m_files s ! i) \<mapsto> overwrite (inode_bytes (m_files s ! i)) off bs)
     else r = Inl MPFS_ERR_NOSPC \<and> mpfs_abs t = mpfs_abs s)"
proof -
  let ?d = "m_fds s ! nat fd" and ?f = "m_files s ! i"
  note d = mfd_okD [OF inv fd]
  then have f: "length (i_data ?f) = fm" "i_size ?f \<le> fm" "inode_ok fm ?f" and li: "i < nf" "i_used ?f"
    using inv_file [OF inv] i by (auto simp: inode_ok_def)
  have len: "length (m_files s) = nf" using inv_len [OF inv] by simp
  define s1 where "s1 = s\<lparr>m_fds := (m_fds s)[nat fd := ?d\<lparr>d_offset := off\<rparr>]\<rparr>"
  have s1: "(if flag_set (d_flags ?d) MPFS_O_APPEND then upd_mfd (nat fd) (\<lambda>d. d\<lparr>d_offset := i_size ?f\<rparr>) s else s) = s1"
  proof (cases "flag_set (d_flags ?d) MPFS_O_APPEND")
    case True
    then have "off = i_size ?f" using off(1) by simp
    with True show ?thesis by (simp add: s1_def)
  next
    case False
    then have "?d\<lparr>d_offset := off\<rparr> = ?d" using off(1) by simp
    with False show ?thesis by (simp add: s1_def)
  qed
  have inv1: "mpfs_inv nf fm s1" unfolding s1_def by (rule inv_upd_fd [OF inv]) (use d in simp)
  have off1: "d_offset (m_fds s1 ! nat fd) = off" "m_files s1 = m_files s" using d by (simp_all add: s1_def)
  have abs1: "mpfs_abs s1 = mpfs_abs s" by (simp add: s1_def)
  show ?thesis
  proof (cases "off + length bs \<le> fm")
    case False
    then have "mpfs_write fm fd bs s = (Inl MPFS_ERR_NOSPC, s1)"
      unfolding mpfs_write_def Let_def i [symmetric] s1 using fd flag off1 by (simp, linarith)
    with op inv1 abs1 False show ?thesis by simp
  next
    case True
    let ?g = "?f\<lparr>i_data := overwrite (i_data ?f) off bs, i_size := max (i_size ?f) (off + length bs)\<rparr>"
    let ?t = "s\<lparr>m_files := (m_files s)[i := ?g], m_fds := (m_fds s)[nat fd := ?d\<lparr>d_offset := off + length bs\<rparr>]\<rparr>"
    have "mpfs_write fm fd bs s = (Inr (length bs), ?t)"
    proof -
      have "\<not> fm < off" "\<not> fm - off < length bs" using True by auto
      then have "mpfs_write fm fd bs s = (Inr (length bs),
        (let s3 = upd_mfd (nat fd) (\<lambda>d. d\<lparr>d_offset := off + length bs\<rparr>)
            (upd_file i (\<lambda>f. f\<lparr>i_data := overwrite (i_data f) off bs\<rparr>) s1)
         in if i_size (m_files s3 ! i) < off + length bs
            then upd_file i (\<lambda>f. f\<lparr>i_size := off + length bs\<rparr>) s3 else s3))"
        unfolding mpfs_write_def Let_def i [symmetric] s1 using fd flag off1 by simp
      also have "\<dots> = (Inr (length bs), ?t)"
        using li len d by (simp add: Let_def s1_def max_def)
      finally show ?thesis .
    qed
    with op have rt: "r = Inr (length bs)" "t = ?t" by simp_all
    have bytes: "inode_bytes ?g = overwrite (inode_bytes ?f) off bs"
      using take_overwrite [OF off(2), of "i_data ?f" bs] f True by (simp add: inode_bytes_def)
    have "inode_ok fm ?g" using f True off(2) by (auto simp: inode_ok_def length_overwrite)
    then have inv2: "mpfs_inv nf fm (s\<lparr>m_files := (m_files s)[i := ?g]\<rparr>)"
      by (intro inv_upd_file [OF inv li(1)]) simp_all
    have "mpfs_inv nf fm ((s\<lparr>m_files := (m_files s)[i := ?g]\<rparr>)\<lparr>m_fds := (m_fds (s\<lparr>m_files := (m_files s)[i := ?g]\<rparr>))
        [nat fd := ?d\<lparr>d_offset := off + length bs\<rparr>]\<rparr>)"
      by (rule inv_upd_fd [OF inv2]) (use d i li len in simp)
    then have inv_t: "mpfs_inv nf fm ?t" by simp
    have "mpfs_abs ?t = (mpfs_abs s)(i_name ?f \<mapsto> overwrite (inode_bytes ?f) off bs)"
      using mpfs_abs_upd [OF inv inv_t li, of ?g] bytes li by simp
    then show ?thesis using rt inv_t bytes li len True by simp
  qed
qed

text \<open>A descriptor opened for reading and writing, without append, is a positional file.\<close>

definition rw_fd :: "nat \<Rightarrow> nat \<Rightarrow> int \<Rightarrow> mpfs \<Rightarrow> bool" where
  "rw_fd nf fm fd s \<longleftrightarrow>
     mpfs_inv nf fm s \<and> mfd_ok s fd \<and> flag_set (d_flags (m_fds s ! nat fd)) MPFS_O_READ \<and>
     flag_set (d_flags (m_fds s ! nat fd)) MPFS_O_WRITE \<and> \<not> flag_set (d_flags (m_fds s ! nat fd)) MPFS_O_APPEND \<and>
     d_offset (m_fds s ! nat fd) \<le> i_size (m_files s ! d_inode (m_fds s ! nat fd))"

definition fd_bytes :: "int \<Rightarrow> mpfs \<Rightarrow> u8 list" where
  "fd_bytes fd s = inode_bytes (m_files s ! d_inode (m_fds s ! nat fd))"

definition fd_offset :: "int \<Rightarrow> mpfs \<Rightarrow> nat" where
  "fd_offset fd s = d_offset (m_fds s ! nat fd)"

definition fd_read :: "int \<Rightarrow> nat \<Rightarrow> mpfs \<Rightarrow> u8 list \<times> mpfs" where
  "fd_read fd n s = (case mpfs_read fd n s of (Inr bs, t) \<Rightarrow> (bs, t) | (Inl e, t) \<Rightarrow> ([], t))"

definition fd_write :: "nat \<Rightarrow> int \<Rightarrow> u8 list \<Rightarrow> mpfs \<Rightarrow> mpfs option" where
  "fd_write fm fd bs s = (case mpfs_write fm fd bs s of (Inr n, t) \<Rightarrow> Some t | (Inl e, t) \<Rightarrow> None)"

definition fd_seek :: "int \<Rightarrow> nat \<Rightarrow> mpfs \<Rightarrow> mpfs" where
  "fd_seek fd k s = snd (mpfs_seek fd (int k) s)"

lemma length_inode_bytes: "inode_ok fm f \<Longrightarrow> length (inode_bytes f) = i_size f"
  by (simp add: inode_ok_def inode_bytes_def)

lemma rw_fd_move:
  assumes ok: "rw_fd nf fm fd s" and k: "k \<le> i_size (m_files s ! d_inode (m_fds s ! nat fd))"
  shows "rw_fd nf fm fd (upd_mfd (nat fd) (\<lambda>d. d\<lparr>d_offset := k\<rparr>) s) \<and>
    fd_bytes fd (upd_mfd (nat fd) (\<lambda>d. d\<lparr>d_offset := k\<rparr>) s) = fd_bytes fd s \<and>
    fd_offset fd (upd_mfd (nat fd) (\<lambda>d. d\<lparr>d_offset := k\<rparr>) s) = k"
proof -
  have inv: "mpfs_inv nf fm s" and fd: "mfd_ok s fd" using ok by (auto simp: rw_fd_def)
  note d = mfd_okD [OF inv fd]
  have "mpfs_inv nf fm (upd_mfd (nat fd) (\<lambda>d. d\<lparr>d_offset := k\<rparr>) s)"
    by (rule inv_upd_fd [OF inv]) (use d in simp)
  with ok k d show ?thesis by (simp add: rw_fd_def mfd_ok_def fd_bytes_def fd_offset_def)
qed

interpretation mpfile: positional_file "fd_bytes fd" "fd_offset fd" "rw_fd nf fm fd" "fd_read fd" "fd_write fm fd" "fd_seek fd"
  for nf fm fd
proof
  fix s n assume ok: "rw_fd nf fm fd s"
  then have inv: "mpfs_inv nf fm s" and fd: "mfd_ok s fd" and fl: "flag_set (d_flags (m_fds s ! nat fd)) MPFS_O_READ"
    and o: "d_offset (m_fds s ! nat fd) \<le> i_size (m_files s ! d_inode (m_fds s ! nat fd))"
    by (auto simp: rw_fd_def)
  note d = mfd_okD [OF inv fd]
  let ?o = "fd_offset fd s" and ?b = "fd_bytes fd s"
  have rd: "fd_read fd n s = (take n (drop ?o ?b), upd_mfd (nat fd) (\<lambda>d. d\<lparr>d_offset := d_offset d + length (take n (drop ?o ?b))\<rparr>) s)"
    using mpfs_read_result [OF inv fd fl, of n] by (simp add: fd_read_def Let_def fd_offset_def fd_bytes_def)
  then show "fst (fd_read fd n s) = take n (drop ?o ?b)" by simp
  have len: "length ?b = i_size (m_files s ! d_inode (m_fds s ! nat fd))"
    using length_inode_bytes [OF inv_file [OF inv]] d by (simp add: fd_bytes_def)
  then show "?o \<le> length ?b" using o by (simp add: fd_offset_def)
  have "d_offset (m_fds s ! nat fd) + length (take n (drop ?o ?b)) \<le> i_size (m_files s ! d_inode (m_fds s ! nat fd))"
    using o len by (simp add: fd_offset_def min_def, linarith)
  from rw_fd_move [OF ok this]
  show "fd_bytes fd (snd (fd_read fd n s)) = fd_bytes fd s \<and> rw_fd nf fm fd (snd (fd_read fd n s)) \<and>
      fd_offset fd (snd (fd_read fd n s)) = fd_offset fd s + length (fst (fd_read fd n s))"
    by (simp add: rd) (simp add: fd_offset_def)
next
  fix s bs t assume ok: "rw_fd nf fm fd s" and wr: "fd_write fm fd bs s = Some t"
  then have inv: "mpfs_inv nf fm s" and fd: "mfd_ok s fd" and fl: "flag_set (d_flags (m_fds s ! nat fd)) MPFS_O_WRITE"
    and na: "\<not> flag_set (d_flags (m_fds s ! nat fd)) MPFS_O_APPEND"
    and o: "d_offset (m_fds s ! nat fd) \<le> i_size (m_files s ! d_inode (m_fds s ! nat fd))"
    by (auto simp: rw_fd_def)
  note d = mfd_okD [OF inv fd]
  obtain r t' where op: "mpfs_write fm fd bs s = (r, t')" by (cases "mpfs_write fm fd bs s")
  with wr obtain n where r: "r = Inr n" "t' = t" by (auto simp: fd_write_def split: sum.splits)
  note res = mpfs_write_result [OF inv fd fl refl _ o op, simplified na, simplified]
  from res r have fit: "d_offset (m_fds s ! nat fd) + length bs \<le> fm" by (auto split: if_splits)
  let ?i = "d_inode (m_fds s ! nat fd)"
  from res fit r have t: "mpfs_inv nf fm t" "inode_bytes (m_files t ! ?i) = overwrite (inode_bytes (m_files s ! ?i)) (d_offset (m_fds s ! nat fd)) bs"
    "m_fds t = (m_fds s)[nat fd := (m_fds s ! nat fd)\<lparr>d_offset := d_offset (m_fds s ! nat fd) + length bs\<rparr>]" by auto
  have ft: "m_fds t ! nat fd = (m_fds s ! nat fd)\<lparr>d_offset := d_offset (m_fds s ! nat fd) + length bs\<rparr>"
    using t(3) d by simp
  have lens: "i_size (m_files s ! ?i) = length (inode_bytes (m_files s ! ?i))" "i_size (m_files t ! ?i) = length (inode_bytes (m_files t ! ?i))"
    using length_inode_bytes [OF inv_file [OF inv]] length_inode_bytes [OF inv_file [OF t(1)]] d by auto
  show "rw_fd nf fm fd t \<and> fd_bytes fd t = overwrite (fd_bytes fd s) (fd_offset fd s) bs \<and> fd_offset fd t = fd_offset fd s + length bs"
    using ok t(1,2) ft lens o by (simp add: rw_fd_def mfd_ok_def fd_bytes_def fd_offset_def length_overwrite)
next
  fix s k assume ok: "rw_fd nf fm fd s" and k: "k \<le> length (fd_bytes fd s)"
  then have inv: "mpfs_inv nf fm s" and fd: "mfd_ok s fd" by (auto simp: rw_fd_def)
  have "k \<le> i_size (m_files s ! d_inode (m_fds s ! nat fd))"
    using k length_inode_bytes [OF inv_file [OF inv]] mfd_okD [OF inv fd] by (simp add: fd_bytes_def)
  with rw_fd_move [OF ok this] fd show "rw_fd nf fm fd (fd_seek fd k s) \<and> fd_bytes fd (fd_seek fd k s) = fd_bytes fd s \<and> fd_offset fd (fd_seek fd k s) = k"
    by (simp add: fd_seek_def mpfs_seek_def)
qed

section \<open>Properties\<close>

text \<open>
  Whatever it returns, an open keeps the invariant; when it returns a descriptor, the file system
  has changed as the flags say (a missing file made empty, an existing one emptied only for truncating
  writes, no other file touched), and the descriptor is a new one on that file, at its end for append and at its
  start otherwise.
\<close>

theorem mpfs_open_refines:
  assumes "mpfs_inv nf fm s" and "mpfs_open fm path flags s = (r, t)"
  shows "mpfs_inv nf fm t \<and>
    (\<forall>d. r = Inr d \<longrightarrow> mpfs_abs t = mopen_abs flags (mpfs_abs s) (file_key path) \<and>
       d < MPFS_MAX_FD \<and> \<not> d_used (m_fds s ! d) \<and>
       m_fds t = (m_fds s)[d := m_fds t ! d] \<and> d_used (m_fds t ! d) \<and> d_flags (m_fds t ! d) = flags \<and>
       i_name (m_files t ! d_inode (m_fds t ! d)) = file_key path \<and>
       d_offset (m_fds t ! d) =
         (if flag_set flags MPFS_O_APPEND then i_size (m_files t ! d_inode (m_fds t ! d)) else 0))"
  using mpfs_open_result [OF assms] .

text \<open>A small volume for the examples: two files of at most eight bytes.\<close>

definition empty_mpfs :: mpfs where
  "empty_mpfs = mpfs_format 2 8 \<lparr>m_magic = 0, m_version = 0, m_nfiles = 0, m_files = [], m_fds = replicate MPFS_MAX_FD zero_fd\<rparr>"

definition opened_mpfs :: mpfs where
  "opened_mpfs = snd (mpfs_open 8 ''/a'' 19 empty_mpfs)"

lemma mpfs_format_inv: "length (m_fds s) = MPFS_MAX_FD \<Longrightarrow> mpfs_inv nf fm (mpfs_format nf fm s)"
  by (auto simp: mpfs_inv_def mpfs_format_def inode_ok_def zero_inode_def list_all_length)

lemma empty_mpfs_inv: "mpfs_inv 2 8 empty_mpfs"
  unfolding empty_mpfs_def by (rule mpfs_format_inv) simp

lemma opened_mpfs_inv: "mpfs_inv 2 8 opened_mpfs"
proof -
  have "mpfs_open 8 ''/a'' 19 empty_mpfs = (fst (mpfs_open 8 ''/a'' 19 empty_mpfs), opened_mpfs)" by (simp add: opened_mpfs_def)
  from mpfs_open_result [OF empty_mpfs_inv this] show ?thesis ..
qed

lemma mpfs_open_refines_witness:
  "fst (mpfs_open 8 ''/a'' 19 empty_mpfs) = Inr 0 \<and> mpfs_abs opened_mpfs = [''a'' \<mapsto> []]"
proof -
  have r: "fst (mpfs_open 8 ''/a'' 19 empty_mpfs) = Inr 0" by code_simp
  then have op: "mpfs_open 8 ''/a'' 19 empty_mpfs = (Inr 0, opened_mpfs)"
    by (metis opened_mpfs_def prod.collapse)
  have "mpfs_abs empty_mpfs = Map.empty"
    using mpfs_abs_None [OF empty_mpfs_inv] by (auto simp: empty_mpfs_def mpfs_format_def zero_inode_def)
  moreover have "file_key ''/a'' = ''a''" by code_simp
  ultimately show ?thesis using mpfs_open_refines [OF empty_mpfs_inv op] r by (simp add: mopen_abs_def)
qed

text \<open>
  A file is only removed while no descriptor refers to it, and then exactly that file is gone; every
  refusal (an unknown name, an open file) leaves the volume as it was.
\<close>

theorem mpfs_unlink_refines:
  assumes "mpfs_inv nf fm s" and "mpfs_unlink fm path s = (r, t)"
  shows "mpfs_inv nf fm t \<and>
    (case r of
       Inr u \<Rightarrow> mpfs_abs s (file_key path) \<noteq> None \<and> mpfs_abs t = (mpfs_abs s)(file_key path := None)
     | Inl e \<Rightarrow> t = s)"
  using mpfs_unlink_result [OF assms] .

lemma mpfs_unlink_refines_witness:
  "mpfs_inv 2 8 opened_mpfs \<and> mpfs_unlink 8 ''a'' opened_mpfs = (Inl MPFS_ERR_PERM, opened_mpfs)"
proof -
  have r: "fst (mpfs_unlink 8 ''a'' opened_mpfs) = Inl MPFS_ERR_PERM" by code_simp
  have "mpfs_unlink 8 ''a'' opened_mpfs = (Inl MPFS_ERR_PERM, snd (mpfs_unlink 8 ''a'' opened_mpfs))"
    by (metis r prod.collapse)
  from mpfs_unlink_refines [OF opened_mpfs_inv this] this show ?thesis by (simp add: opened_mpfs_inv)
qed

text \<open>
  Property C8. On a descriptor open for reading and writing, bytes written are read back after a seek to where they
  were written, for any contents before and after.
\<close>

theorem mpfs_write_seek_read:
  assumes "rw_fd nf fm fd s" and "fd_write fm fd bs s = Some t"
  shows "fst (fd_read fd (length bs) (fd_seek fd (fd_offset fd s) t)) = bs"
  by (rule mpfile.write_read [OF assms])

lemma mpfs_write_seek_read_witness:
  "fd_write 8 0 [104, 105] opened_mpfs \<noteq> None \<and>
   fst (fd_read 0 2 (fd_seek 0 0 (the (fd_write 8 0 [104, 105] opened_mpfs)))) = [104, 105]"
proof -
  have "mfd_ok opened_mpfs 0" "flag_set (d_flags (m_fds opened_mpfs ! 0)) MPFS_O_READ"
    "flag_set (d_flags (m_fds opened_mpfs ! 0)) MPFS_O_WRITE" "\<not> flag_set (d_flags (m_fds opened_mpfs ! 0)) MPFS_O_APPEND"
    and off: "d_offset (m_fds opened_mpfs ! 0) = 0" by code_simp+
  then have ok: "rw_fd 2 8 0 opened_mpfs" by (simp add: rw_fd_def opened_mpfs_inv)
  have some: "fd_write 8 0 [104, 105] opened_mpfs \<noteq> None" by code_simp
  then have "fd_write 8 0 [104, 105] opened_mpfs = Some (the (fd_write 8 0 [104, 105] opened_mpfs))" by simp
  from mpfs_write_seek_read [OF ok this] off some show ?thesis by (simp add: fd_offset_def numeral_2_eq_2)
qed

text \<open>
  With all eight descriptors taken, an open that must fail still changes the volume: a file that was
  missing is there afterwards, and a file opened for truncation is emptied.
\<close>

theorem mpfs_open_fails_late:
  assumes inv: "mpfs_inv nf fm s" and full: "alloc_mfd s = None" and ok: "name_ok path"
    and can: "mpfs_abs s (file_key path) = None \<longrightarrow> flag_set flags MPFS_O_CREATE \<and> alloc_inode s \<noteq> None"
  shows "fst (mpfs_open fm path flags s) = Inl MPFS_ERR_NOSPC \<and>
    mpfs_abs (snd (mpfs_open fm path flags s)) = mopen_abs flags (mpfs_abs s) (file_key path)"
proof -
  obtain r1 s1 where o: "open_inode fm path flags s = (r1, s1)" by (cases "open_inode fm path flags s")
  note res = open_inode_result [OF inv ok o]
  have "r1 \<noteq> Inl e" for e
    using o can find_inode_None [OF inv ok] by (auto simp: open_inode_def split: option.splits if_splits)
  then obtain i where i: "r1 = Inr i" by (cases r1) auto
  with res have r: "mpfs_inv nf fm s1" "m_fds s1 = m_fds s" "i < nf" "i_used (m_files s1 ! i)" "i_name (m_files s1 ! i) = file_key path"
    "mpfs_abs s1 = (if mpfs_abs s (file_key path) = None then (mpfs_abs s)(file_key path \<mapsto> []) else mpfs_abs s)" by auto
  let ?g = "(m_files s1 ! i)\<lparr>i_size := 0\<rparr>"
  have g: "inode_ok fm ?g" using inv_file [OF r(1,3)] by (simp add: inode_ok_def)
  have inv_tr: "mpfs_inv nf fm (s1\<lparr>m_files := (m_files s1)[i := ?g]\<rparr>)"
    by (rule inv_upd_file [OF r(1,3) g]) simp_all
  have abs_tr: "mpfs_abs (s1\<lparr>m_files := (m_files s1)[i := ?g]\<rparr>) = (mpfs_abs s1)(file_key path \<mapsto> [])"
    using mpfs_abs_upd [OF r(1) inv_tr r(3,4), of ?g] r(4,5) inv_len [OF r(1)] by (simp add: inode_bytes_def)
  have "alloc_mfd (s1\<lparr>m_files := x\<rparr>) = None" "alloc_mfd s1 = None" for x
    using full r(2) by (simp_all add: alloc_mfd_def)
  then show ?thesis using ok o i r(6) abs_tr
    by (auto simp: mpfs_open_def mopen_abs_def fun_upd_idem split: option.splits)
qed

definition full_mpfs :: mpfs where
  "full_mpfs = opened_mpfs\<lparr>m_fds := map (\<lambda>d. d\<lparr>d_used := True\<rparr>) (m_fds opened_mpfs)\<rparr>"

lemma mpfs_open_fails_late_witness:
  "mpfs_abs full_mpfs ''b'' = None \<and> fst (mpfs_open 8 ''b'' 18 full_mpfs) = Inl MPFS_ERR_NOSPC \<and>
   mpfs_abs (snd (mpfs_open 8 ''b'' 18 full_mpfs)) ''b'' = Some []"
proof -
  have fds: "\<forall>d \<in> set (m_fds full_mpfs). d_inode d < 2 \<and> i_used (m_files full_mpfs ! d_inode d)" by code_simp
  have "mpfs_inv 2 8 full_mpfs"
    using opened_mpfs_inv fds by (simp add: mpfs_inv_def full_mpfs_def)
  moreover have "alloc_mfd full_mpfs = None" "name_ok ''b''" "alloc_inode full_mpfs \<noteq> None" "flag_set 18 MPFS_O_CREATE"
    "file_key ''b'' = ''b''" "mpfs_abs full_mpfs ''b'' = None" by code_simp+
  ultimately show ?thesis using mpfs_open_fails_late [of 2 8 full_mpfs "''b''" 18] by (simp add: mopen_abs_def)
qed

end
