(* ===== verification/MpLex.thy ===== *)
theory MpLex
  imports KString
begin

text \<open>
  The scanner of the Python subset, \<^verbatim>\<open>py/lex.c\<close>: tokens, the cursor, the indentation stack and the loop,
  with the size of the token table (\<open>MP_MAX_TOKENS\<close> of \<^verbatim>\<open>py/config.h\<close>, 2048 on the host and 256 in the
  kernel) as the argument \<open>mt\<close>. The loops terminate because each turn moves the cursor; the
  invariant \<open>lex_ok\<close> carries the nesting of blocks; reading back a line of words closes the theory.
\<close>

section \<open>Tokens\<close>

datatype tok_kind =
    TOK_EOF | TOK_NEWLINE | TOK_INDENT | TOK_DEDENT | TOK_NAME | TOK_NUMBER | TOK_STRING
  | TOK_PLUS | TOK_MINUS | TOK_STAR | TOK_SLASH | TOK_PERCENT | TOK_EQ | TOK_EQEQ | TOK_NE
  | TOK_LT | TOK_GT | TOK_LE | TOK_GE | TOK_LPAREN | TOK_RPAREN | TOK_COLON | TOK_COMMA
  | TOK_AND | TOK_OR | TOK_NOT | TOK_IF | TOK_ELIF | TOK_ELSE | TOK_WHILE | TOK_FOR | TOK_IN
  | TOK_DEF | TOK_RETURN | TOK_IMPORT | TOK_PASS | TOK_TRUE | TOK_FALSE | TOK_NONE
  | TOK_LBRACK | TOK_RBRACK | TOK_ERROR

text \<open>The pointer \<open>start\<close> is an offset into the source; an \<^verbatim>\<open>int32_t\<close> is a 32-bit word.\<close>

record mp_token =
  t_kind :: tok_kind
  t_start :: nat
  t_len :: nat
  t_number :: u32
  t_line :: nat
  t_col :: nat

text \<open>
  \<open>lx_indents\<close> is \<^verbatim>\<open>indent_stack[0..indent_top]\<close>, innermost first; \<open>lx_toks\<close> is
  \<^verbatim>\<open>tokens[0..ntokens)\<close>.
\<close>

record lexer =
  lx_src :: string
  lx_pos :: nat
  lx_line :: nat
  lx_col :: nat
  lx_bol :: bool
  lx_indents :: "nat list"
  lx_pending :: nat
  lx_toks :: "mp_token list"
  lx_err :: string

section \<open>Characters\<close>

definition char_in :: "char \<Rightarrow> char \<Rightarrow> char \<Rightarrow> bool" where
  "char_in lo hi c \<longleftrightarrow> (of_char lo :: nat) \<le> of_char c \<and> (of_char c :: nat) \<le> of_char hi"

definition is_alpha :: "char \<Rightarrow> bool" where
  "is_alpha c \<longleftrightarrow> char_in (CHR ''a'') (CHR ''z'') c \<or> char_in (CHR ''A'') (CHR ''Z'') c \<or> c = CHR ''_''"

definition is_digit :: "char \<Rightarrow> bool" where
  "is_digit c \<longleftrightarrow> char_in (CHR ''0'') (CHR ''9'') c"

definition is_alnum :: "char \<Rightarrow> bool" where
  "is_alnum c \<longleftrightarrow> is_alpha c \<or> is_digit c"

abbreviation TAB :: char where "TAB \<equiv> CHR 0x09"
abbreviation CR :: char where "CR \<equiv> CHR 0x0D"
abbreviation DQUOTE :: char where "DQUOTE \<equiv> CHR 0x22"
abbreviation SQUOTE :: char where "SQUOTE \<equiv> CHR 0x27"
abbreviation BACKSLASH :: char where "BACKSLASH \<equiv> CHR 0x5C"

section \<open>The cursor\<close>

definition peek :: "lexer \<Rightarrow> char" where
  "peek lx = (if kstrlen (lx_src lx) \<le> lx_pos lx then NUL else cget (lx_src lx) (lx_pos lx))"

definition advance :: "lexer \<Rightarrow> lexer" where
  "advance lx =
     (let c = peek lx
      in if c = NUL then lx
         else if c = newline then lx\<lparr>lx_pos := lx_pos lx + 1, lx_line := lx_line lx + 1, lx_col := 1\<rparr>
         else lx\<lparr>lx_pos := lx_pos lx + 1, lx_col := lx_col lx + 1\<rparr>)"

definition push_tok :: "nat \<Rightarrow> tok_kind \<Rightarrow> nat \<Rightarrow> nat \<Rightarrow> u32 \<Rightarrow> lexer \<Rightarrow> bool \<times> lexer" where
  "push_tok mt k start len number lx =
     (if mt \<le> length (lx_toks lx) then (False, lx\<lparr>lx_err := ''too many tokens''\<rparr>)
      else (True, lx\<lparr>lx_toks := lx_toks lx @
        [\<lparr>t_kind = k, t_start = start, t_len = len, t_number = number, t_line = lx_line lx, t_col = lx_col lx\<rparr>]\<rparr>))"

text \<open>\<^verbatim>\<open>while (P(peek)) advance\<close>, for a \<open>P\<close> that the terminator does not satisfy.\<close>

function advance_while :: "(char \<Rightarrow> bool) \<Rightarrow> lexer \<Rightarrow> lexer" where
  "advance_while P lx =
     (if peek lx \<noteq> NUL \<and> P (peek lx) then advance_while P (advance lx) else lx)"
  by pat_completeness auto
termination
  by (relation "measure (\<lambda>(P, lx). kstrlen (lx_src lx) - lx_pos lx)")
    (auto simp: advance_def peek_def Let_def split: if_splits)

declare advance_while.simps [simp del]

definition keyword :: "string \<Rightarrow> tok_kind" where
  "keyword s =
     (if s = ''if'' then TOK_IF else if s = ''in'' then TOK_IN else if s = ''and'' then TOK_AND
      else if s = ''or'' then TOK_OR else if s = ''not'' then TOK_NOT else if s = ''def'' then TOK_DEF
      else if s = ''for'' then TOK_FOR else if s = ''elif'' then TOK_ELIF else if s = ''else'' then TOK_ELSE
      else if s = ''True'' then TOK_TRUE else if s = ''None'' then TOK_NONE else if s = ''pass'' then TOK_PASS
      else if s = ''False'' then TOK_FALSE else if s = ''while'' then TOK_WHILE
      else if s = ''return'' then TOK_RETURN else if s = ''import'' then TOK_IMPORT else TOK_NAME)"

definition lx_text :: "lexer \<Rightarrow> nat \<Rightarrow> nat \<Rightarrow> string" where
  "lx_text lx start n = take n (drop start (lx_src lx))"

section \<open>Indentation\<close>

text \<open>The loop that closes blocks; \<open>None\<close> in the first part is a failed push.\<close>

fun pop_indents :: "nat \<Rightarrow> nat \<Rightarrow> nat list \<Rightarrow> lexer \<Rightarrow> bool \<times> lexer" where
  "pop_indents mt spaces (i # j # is) lx =
     (if spaces < i then
        (case push_tok mt TOK_DEDENT (lx_pos lx) 0 0 (lx\<lparr>lx_indents := j # is\<rparr>) of
           (False, lx1) \<Rightarrow> (False, lx1)
         | (True, lx1) \<Rightarrow> pop_indents mt spaces (j # is) lx1)
      else (True, lx))"
| "pop_indents mt spaces is lx = (True, lx)"

definition emit_indent :: "nat \<Rightarrow> lexer \<Rightarrow> bool \<times> lexer" where
  "emit_indent mt lx0 =
     (let lx = advance_while (\<lambda>c. c = CHR '' '') lx0;
          spaces = lx_pos lx - lx_pos lx0;
          cur = hd (lx_indents lx)
      in if peek lx = newline \<or> peek lx = CHR ''#'' \<or> peek lx = NUL then (True, lx)
         else if peek lx = TAB then (False, lx\<lparr>lx_err := ''tabs not allowed''\<rparr>)
         else if spaces = cur then (True, lx)
         else if cur < spaces then
           (if 32 \<le> length (lx_indents lx) then (False, lx\<lparr>lx_err := ''indent too deep''\<rparr>)
            else push_tok mt TOK_INDENT (lx_pos lx) 0 0 (lx\<lparr>lx_indents := spaces # lx_indents lx\<rparr>))
         else case pop_indents mt spaces (lx_indents lx) lx of
                (False, lx1) \<Rightarrow> (False, lx1)
              | (True, lx1) \<Rightarrow>
                  if hd (lx_indents lx1) \<noteq> spaces then (False, lx1\<lparr>lx_err := ''inconsistent indent''\<rparr>)
                  else (True, lx1))"

section \<open>One token\<close>

definition lex_name :: "nat \<Rightarrow> lexer \<Rightarrow> bool \<times> lexer" where
  "lex_name mt lx =
     (let lx1 = advance_while is_alnum lx; n = lx_pos lx1 - lx_pos lx
      in push_tok mt (keyword (lx_text lx (lx_pos lx) n)) (lx_pos lx) n 0 lx1)"

text \<open>The value is an \<^verbatim>\<open>int32_t\<close>; it is computed here modulo \<open>2 ^ 32\<close>.\<close>

function digits_loop :: "u32 \<Rightarrow> lexer \<Rightarrow> u32 \<times> lexer" where
  "digits_loop v lx =
     (if peek lx \<noteq> NUL \<and> is_digit (peek lx)
      then digits_loop (v * 10 + (of_char (peek lx) - of_char (CHR ''0''))) (advance lx)
      else (v, lx))"
  by pat_completeness auto
termination
  by (relation "measure (\<lambda>(v, lx). kstrlen (lx_src lx) - lx_pos lx)")
    (auto simp: advance_def peek_def Let_def split: if_splits)

declare digits_loop.simps [simp del]

definition lex_number :: "nat \<Rightarrow> lexer \<Rightarrow> bool \<times> lexer" where
  "lex_number mt lx =
     (case digits_loop 0 lx of
        (v, lx1) \<Rightarrow> push_tok mt TOK_NUMBER (lx_pos lx) (lx_pos lx1 - lx_pos lx) v lx1)"

definition unescape :: "lexer \<Rightarrow> lexer" where
  "unescape lx = (if peek lx = BACKSLASH then advance lx else lx)"

text \<open>The body of a string up to its closing quote; \<open>False\<close> for a newline inside.\<close>

function string_loop :: "char \<Rightarrow> lexer \<Rightarrow> bool \<times> lexer" where
  "string_loop q lx =
     (if peek lx = NUL \<or> peek lx = q then (True, lx)
      else let lx1 = unescape lx
           in if peek lx1 = NUL then (True, lx1)
              else if peek lx1 = newline then (False, lx1)
              else string_loop q (advance lx1))"
  by pat_completeness auto
termination
  by (relation "measure (\<lambda>(q, lx). kstrlen (lx_src lx) - lx_pos lx)")
    (auto simp: unescape_def advance_def peek_def Let_def split: if_splits)

declare string_loop.simps [simp del]

definition lex_string :: "nat \<Rightarrow> lexer \<Rightarrow> bool \<times> lexer" where
  "lex_string mt lx =
     (let q = peek lx; lx1 = advance lx
      in case string_loop q lx1 of
           (False, lx2) \<Rightarrow> (False, lx2\<lparr>lx_err := ''unterminated string''\<rparr>)
         | (True, lx2) \<Rightarrow>
             if peek lx2 \<noteq> q then (False, lx2\<lparr>lx_err := ''unterminated string''\<rparr>)
             else push_tok mt TOK_STRING (lx_pos lx1) (lx_pos lx2 - lx_pos lx1) 0 (advance lx2))"

text \<open>
  The operators. The result of \<open>push_tok\<close> is not looked at here: a full table leaves its message
  in \<open>lx_err\<close> and the scan goes on.
\<close>

definition op1 :: "nat \<Rightarrow> tok_kind \<Rightarrow> nat \<Rightarrow> lexer \<Rightarrow> bool \<times> lexer" where
  "op1 mt k start lx = (True, snd (push_tok mt k start 1 0 lx))"

definition op2 :: "nat \<Rightarrow> char \<Rightarrow> tok_kind \<Rightarrow> tok_kind \<Rightarrow> nat \<Rightarrow> lexer \<Rightarrow> bool \<times> lexer" where
  "op2 mt c k2 k1 start lx =
     (if peek lx = c then (True, snd (push_tok mt k2 start 2 0 (advance lx)))
      else (True, snd (push_tok mt k1 start 1 0 lx)))"

definition lex_operator :: "nat \<Rightarrow> lexer \<Rightarrow> bool \<times> lexer" where
  "lex_operator mt lx0 =
     (let c = peek lx0; start = lx_pos lx0; lx = advance lx0
      in if c = CHR ''+'' then op1 mt TOK_PLUS start lx
         else if c = CHR ''-'' then op1 mt TOK_MINUS start lx
         else if c = CHR ''*'' then op1 mt TOK_STAR start lx
         else if c = slash then op2 mt slash TOK_SLASH TOK_SLASH start lx
         else if c = CHR ''%'' then op1 mt TOK_PERCENT start lx
         else if c = CHR ''('' then op1 mt TOK_LPAREN start lx
         else if c = CHR '')'' then op1 mt TOK_RPAREN start lx
         else if c = CHR ''['' then op1 mt TOK_LBRACK start lx
         else if c = CHR '']'' then op1 mt TOK_RBRACK start lx
         else if c = CHR '':'' then op1 mt TOK_COLON start lx
         else if c = CHR '','' then op1 mt TOK_COMMA start lx
         else if c = CHR ''='' then op2 mt (CHR ''='') TOK_EQEQ TOK_EQ start lx
         else if c = CHR ''!'' \<and> peek lx = CHR ''='' then (True, snd (push_tok mt TOK_NE start 2 0 (advance lx)))
         else if c = CHR ''<'' then op2 mt (CHR ''='') TOK_LE TOK_LT start lx
         else if c = CHR ''>'' then op2 mt (CHR ''='') TOK_GE TOK_GT start lx
         else (False, lx\<lparr>lx_err := ''invalid character''\<rparr>))"

section \<open>The loop\<close>

datatype lex_ctl = Continue lexer | Break lexer | Fail lexer

definition continue_if :: "bool \<times> lexer \<Rightarrow> lex_ctl" where
  "continue_if r = (if fst r then Continue (snd r) else Fail (snd r))"

text \<open>The part of the body after the indentation of a line.\<close>

definition lex_token :: "nat \<Rightarrow> lexer \<Rightarrow> lex_ctl" where
  "lex_token mt lx =
     (let c = peek lx
      in if c = CHR '' '' \<or> c = TAB \<or> c = CR then Continue (advance lx)
         else if c = CHR ''#'' then Continue (advance_while (\<lambda>d. d \<noteq> newline) lx)
         else if c = newline then
           (let lx1 = advance lx
            in case push_tok mt TOK_NEWLINE (lx_pos lx1 - 1) 1 0 lx1 of
                 (False, lx2) \<Rightarrow> Fail lx2
               | (True, lx2) \<Rightarrow> Continue (lx2\<lparr>lx_bol := True\<rparr>))
         else if is_alpha c then continue_if (lex_name mt lx)
         else if is_digit c then continue_if (lex_number mt lx)
         else if c = DQUOTE \<or> c = SQUOTE then continue_if (lex_string mt lx)
         else continue_if (lex_operator mt lx))"

definition lex_step :: "nat \<Rightarrow> lexer \<Rightarrow> lex_ctl" where
  "lex_step mt lx =
     (if 0 < lx_pending lx then
        continue_if (push_tok mt TOK_DEDENT (lx_pos lx) 0 0 (lx\<lparr>lx_pending := lx_pending lx - 1\<rparr>))
      else if lx_bol lx then
        (case emit_indent mt (lx\<lparr>lx_bol := False\<rparr>) of
           (False, lx1) \<Rightarrow> Fail lx1
         | (True, lx1) \<Rightarrow> if peek lx1 = NUL then Break lx1 else lex_token mt lx1)
      else lex_token mt lx)"

section \<open>Progress\<close>

definition lex_end :: "lexer \<Rightarrow> nat" where
  "lex_end lx = kstrlen (lx_src lx)"

definition moves :: "lexer \<Rightarrow> lexer \<Rightarrow> bool" where
  "moves lx lx' \<longleftrightarrow>
     lx_src lx' = lx_src lx \<and> lx_pending lx' = lx_pending lx \<and> lx_pos lx \<le> lx_pos lx' \<and>
     (lx_pos lx \<le> lex_end lx \<longrightarrow> lx_pos lx' \<le> lex_end lx)"

named_theorems moves_intros \<open>the scanning loops only move the cursor forward\<close>

lemma moves_refl [moves_intros]: "moves lx lx"
  by (simp add: moves_def)

lemma moves_trans: "moves a b \<Longrightarrow> moves b c \<Longrightarrow> moves a c"
  by (simp add: moves_def lex_end_def)

lemma peek_bound: "peek lx \<noteq> NUL \<Longrightarrow> lx_pos lx < lex_end lx"
  by (auto simp: peek_def lex_end_def split: if_splits)

lemma advance_pos: "peek lx \<noteq> NUL \<Longrightarrow> lx_pos (advance lx) = Suc (lx_pos lx)"
  by (simp add: advance_def Let_def)

lemma advance_keeps [simp]:
  "lx_src (advance lx) = lx_src lx" "lx_toks (advance lx) = lx_toks lx" "lx_indents (advance lx) = lx_indents lx"
  "lx_pending (advance lx) = lx_pending lx" "lx_err (advance lx) = lx_err lx" "lx_bol (advance lx) = lx_bol lx"
  by (simp_all add: advance_def Let_def)

lemma moves_advance [moves_intros]: "moves lx (advance lx)"
  using peek_bound [of lx] by (auto simp: moves_def advance_def Let_def)

lemma push_tok_keeps [simp]:
  "lx_src (snd (push_tok mt k a n v lx)) = lx_src lx" "lx_pos (snd (push_tok mt k a n v lx)) = lx_pos lx"
  "lx_indents (snd (push_tok mt k a n v lx)) = lx_indents lx" "lx_pending (snd (push_tok mt k a n v lx)) = lx_pending lx"
  "lx_bol (snd (push_tok mt k a n v lx)) = lx_bol lx"
  by (simp_all add: push_tok_def)

lemma moves_push [moves_intros]: "moves lx (snd (push_tok mt k a n v lx))"
  by (simp add: moves_def)

lemma moves_advance_while [moves_intros]: "moves lx (advance_while P lx)"
proof (induction P lx rule: advance_while.induct)
  case (1 P lx)
  then show ?case
    using moves_trans [OF moves_advance [of lx]] by (simp add: advance_while.simps [of P lx] moves_refl)
qed

lemma advance_while_keeps [simp]:
  "lx_src (advance_while P lx) = lx_src lx" "lx_toks (advance_while P lx) = lx_toks lx"
  "lx_indents (advance_while P lx) = lx_indents lx" "lx_pending (advance_while P lx) = lx_pending lx"
  "lx_err (advance_while P lx) = lx_err lx" "lx_bol (advance_while P lx) = lx_bol lx"
proof -
  have "lx_src (advance_while P lx) = lx_src lx \<and> lx_toks (advance_while P lx) = lx_toks lx \<and>
    lx_indents (advance_while P lx) = lx_indents lx \<and> lx_pending (advance_while P lx) = lx_pending lx \<and>
    lx_err (advance_while P lx) = lx_err lx \<and> lx_bol (advance_while P lx) = lx_bol lx"
  proof (induction P lx rule: advance_while.induct)
    case (1 P lx)
    then show ?case by (simp add: advance_while.simps [of P lx])
  qed
  then show "lx_src (advance_while P lx) = lx_src lx" "lx_toks (advance_while P lx) = lx_toks lx"
    "lx_indents (advance_while P lx) = lx_indents lx" "lx_pending (advance_while P lx) = lx_pending lx"
    "lx_err (advance_while P lx) = lx_err lx" "lx_bol (advance_while P lx) = lx_bol lx" by auto
qed

lemma advance_while_step:
  "peek lx \<noteq> NUL \<Longrightarrow> P (peek lx) \<Longrightarrow> lx_pos lx < lx_pos (advance_while P lx)"
  using moves_advance_while [of "advance lx" P] advance_pos [of lx]
  by (simp add: advance_while.simps [of P lx] moves_def)

lemma moves_digits [moves_intros]: "moves lx (snd (digits_loop v lx))"
proof (induction v lx rule: digits_loop.induct)
  case (1 v lx)
  then show ?case
    using moves_trans [OF moves_advance [of lx]] by (simp add: digits_loop.simps [of v lx] moves_refl)
qed

lemma digits_keeps [simp]:
  "lx_toks (snd (digits_loop v lx)) = lx_toks lx \<and> lx_indents (snd (digits_loop v lx)) = lx_indents lx \<and>
   lx_err (snd (digits_loop v lx)) = lx_err lx \<and> lx_bol (snd (digits_loop v lx)) = lx_bol lx"
proof (induction v lx rule: digits_loop.induct)
  case (1 v lx)
  then show ?case by (simp add: digits_loop.simps [of v lx])
qed

lemma digits_step: "peek lx \<noteq> NUL \<Longrightarrow> is_digit (peek lx) \<Longrightarrow> lx_pos lx < lx_pos (snd (digits_loop v lx))"
  using moves_digits [of "advance lx"] advance_pos [of lx]
  by (simp add: digits_loop.simps [of v lx] moves_def) (metis Suc_le_lessD)

lemma unescape_keeps [simp]:
  "lx_src (unescape lx) = lx_src lx" "lx_toks (unescape lx) = lx_toks lx" "lx_indents (unescape lx) = lx_indents lx"
  "lx_pending (unescape lx) = lx_pending lx" "lx_err (unescape lx) = lx_err lx" "lx_bol (unescape lx) = lx_bol lx"
  by (simp_all add: unescape_def)

lemma moves_unescape [moves_intros]: "moves lx (unescape lx)"
  by (simp add: unescape_def moves_advance moves_refl)

lemma moves_string [moves_intros]: "moves lx (snd (string_loop q lx))"
proof (induction q lx rule: string_loop.induct)
  case (1 q lx)
  show ?case
  proof (cases "peek lx = NUL \<or> peek lx = q \<or> peek (unescape lx) = NUL \<or> peek (unescape lx) = newline")
    case True
    then show ?thesis by (auto simp: string_loop.simps [of q lx] Let_def moves_refl moves_unescape)
  next
    case False
    then have "moves (advance (unescape lx)) (snd (string_loop q (advance (unescape lx))))" using 1 [OF _ refl] by simp
    then have "moves lx (snd (string_loop q (advance (unescape lx))))"
      using moves_trans [OF moves_trans [OF moves_unescape moves_advance]] by blast
    with False show ?thesis by (simp add: string_loop.simps [of q lx] Let_def)
  qed
qed

lemma string_keeps [simp]:
  "lx_toks (snd (string_loop q lx)) = lx_toks lx \<and> lx_indents (snd (string_loop q lx)) = lx_indents lx \<and>
   lx_err (snd (string_loop q lx)) = lx_err lx \<and> lx_bol (snd (string_loop q lx)) = lx_bol lx"
proof (induction q lx rule: string_loop.induct)
  case (1 q lx)
  then show ?case by (simp add: string_loop.simps [of q lx] Let_def)
qed

lemma moves_pop [moves_intros]: "moves lx (snd (pop_indents mt spaces is lx))"
proof (induction mt spaces "is" lx rule: pop_indents.induct)
  case (1 mt spaces i j "is" lx)
  let ?p = "push_tok mt TOK_DEDENT (lx_pos lx) 0 0 (lx\<lparr>lx_indents := j # is\<rparr>)"
  have m: "moves lx (snd ?p)" by (simp add: moves_def)
  obtain b l where p: "?p = (b, l)" by (cases ?p)
  show ?case
  proof (cases "spaces < i \<and> b")
    case True
    with 1 [OF _ _ _ , of _ l] p have "moves l (snd (pop_indents mt spaces (j # is) l))" by simp
    then show ?thesis using moves_trans [OF m] True p by simp
  next
    case False
    then show ?thesis using m p by (cases b) (simp_all add: moves_refl)
  qed
qed (simp_all add: moves_refl)

lemma moves_emit [moves_intros]: "moves lx (snd (emit_indent mt lx))"
proof -
  let ?l = "advance_while (\<lambda>c. c = CHR '' '') lx"
  have m: "moves lx ?l" by (rule moves_advance_while)
  have "moves lx (l\<lparr>lx_err := e\<rparr>) = moves lx l" "moves lx (snd (push_tok mt k a n v (l\<lparr>lx_indents := is\<rparr>))) = moves lx l" for l e "is" k a n v
    by (simp_all add: moves_def)
  then show ?thesis
    using m moves_trans [OF m moves_pop [of ?l mt "lx_pos ?l - lx_pos lx" "lx_indents ?l"]]
    by (auto simp: emit_indent_def Let_def split: prod.split bool.split)
qed

lemma moves_err [simp]: "moves lx (l\<lparr>lx_err := e\<rparr>) = moves lx l" "moves lx (l\<lparr>lx_bol := b\<rparr>) = moves lx l"
  "moves (l\<lparr>lx_bol := b\<rparr>) lx = moves l lx"
  by (simp_all add: moves_def lex_end_def)

lemma lex_token_progress:
  assumes "peek lx \<noteq> NUL" and "lex_token mt lx = Continue lx'"
  shows "moves lx lx' \<and> lx_pos lx < lx_pos lx'"
proof -
  let ?c = "peek lx"
  have adv: "moves (advance lx) l \<Longrightarrow> moves lx l \<and> lx_pos lx < lx_pos l" for l
    using moves_trans [OF moves_advance [of lx]] advance_pos [OF assms(1)] by (auto simp: moves_def)
  have push: "moves lx (snd (push_tok mt k a n v l)) = moves lx l" for k a n v l
    by (simp add: moves_def)
  consider (blank) "?c = CHR '' '' \<or> ?c = TAB \<or> ?c = CR" | (comment) "?c = CHR ''#''" | (nl) "?c = newline"
    | (name) "is_alpha ?c" "?c \<noteq> newline" "\<not> (?c = CHR '' '' \<or> ?c = TAB \<or> ?c = CR)" "?c \<noteq> CHR ''#''"
    | (number) "is_digit ?c" "\<not> is_alpha ?c" "?c \<noteq> newline" "\<not> (?c = CHR '' '' \<or> ?c = TAB \<or> ?c = CR)" "?c \<noteq> CHR ''#''"
    | (str) "?c = DQUOTE \<or> ?c = SQUOTE" "\<not> is_digit ?c" "\<not> is_alpha ?c"
    | (op) "\<not> (?c = DQUOTE \<or> ?c = SQUOTE)" "\<not> is_digit ?c" "\<not> is_alpha ?c" "?c \<noteq> newline"
        "\<not> (?c = CHR '' '' \<or> ?c = TAB \<or> ?c = CR)" "?c \<noteq> CHR ''#''" by blast
  then show ?thesis
  proof cases
    case blank
    then have "lx' = advance lx" using assms(2) by (simp add: lex_token_def Let_def)
    then show ?thesis using adv moves_refl by simp
  next
    case comment
    then have "lx' = advance_while (\<lambda>d. d \<noteq> newline) lx" using assms(2) by (simp add: lex_token_def Let_def)
    then show ?thesis using advance_while_step [OF assms(1), of "\<lambda>d. d \<noteq> newline"] comment moves_advance_while by simp
  next
    case nl
    then have "lx' = (snd (push_tok mt TOK_NEWLINE (lx_pos (advance lx) - 1) 1 0 (advance lx)))\<lparr>lx_bol := True\<rparr>"
      using assms(2) by (auto simp: lex_token_def Let_def split: prod.splits bool.splits)
    then show ?thesis using adv [OF moves_refl] by (simp add: push)
  next
    case name
    then have "lx' = snd (lex_name mt lx)"
      using assms(2) by (auto simp: lex_token_def Let_def continue_if_def split: if_splits)
    then show ?thesis
      using name advance_while_step [OF assms(1), of is_alnum] moves_advance_while [of lx is_alnum]
      by (simp add: lex_name_def Let_def push is_alnum_def)
  next
    case number
    then have "lx' = snd (lex_number mt lx)"
      using assms(2) by (auto simp: lex_token_def Let_def continue_if_def split: if_splits)
    then show ?thesis
      using number digits_step [OF assms(1), of 0] moves_digits [of lx 0]
      by (simp add: lex_number_def push case_prod_beta)
  next
    case str
    then have "lx' = snd (lex_string mt lx)"
      using assms(2) by (auto simp: lex_token_def Let_def continue_if_def split: if_splits)
    moreover have "moves (advance lx) (snd (lex_string mt lx))"
      using moves_string [of "advance lx" "peek lx"] moves_trans [OF moves_string moves_advance, of "advance lx" "peek lx"]
      by (auto simp: lex_string_def Let_def moves_def case_prod_beta split: bool.split)
    ultimately show ?thesis using adv by simp
  next
    case op
    then have "lx' = snd (lex_operator mt lx)"
      using assms(2) by (auto simp: lex_token_def Let_def continue_if_def split: if_splits)
    moreover have "moves (advance lx) (snd (lex_operator mt lx))"
      using moves_advance [of "advance lx"]
      by (simp add: lex_operator_def Let_def op1_def op2_def moves_refl moves_def)
    ultimately show ?thesis using adv by simp
  qed
qed

lemma lex_step_progress:
  assumes "peek lx \<noteq> NUL \<or> 0 < lx_pending lx" and "lex_step mt lx = Continue lx'"
  shows "lx_src lx' = lx_src lx \<and>
    lx_pending lx' + (lex_end lx' - lx_pos lx') < lx_pending lx + (lex_end lx - lx_pos lx)"
proof (cases "0 < lx_pending lx")
  case True
  then show ?thesis
    using assms(2) by (auto simp: lex_step_def continue_if_def push_tok_def lex_end_def split: if_splits)
next
  case False
  with assms(1) have p: "peek lx \<noteq> NUL" by simp
  obtain l where l: "moves lx l" "peek l \<noteq> NUL" "lex_token mt l = Continue lx'"
  proof (cases "lx_bol lx")
    case True
    let ?e = "emit_indent mt (lx\<lparr>lx_bol := False\<rparr>)"
    from True False assms(2) have "fst ?e" "peek (snd ?e) \<noteq> NUL" "lex_token mt (snd ?e) = Continue lx'"
      by (auto simp: lex_step_def split: prod.splits bool.splits if_splits)
    moreover have "moves lx (snd ?e)" using moves_emit [of "lx\<lparr>lx_bol := False\<rparr>" mt] by simp
    ultimately show ?thesis using that by blast
  next
    case b: False
    with False assms(2) p show ?thesis using that [of lx] by (simp add: lex_step_def moves_refl)
  qed
  from lex_token_progress [OF l(2,3)] l(1) peek_bound [OF l(2)] show ?thesis
    by (auto simp: moves_def lex_end_def)
qed

function lex_loop :: "nat \<Rightarrow> lexer \<Rightarrow> bool \<times> lexer" where
  "lex_loop mt lx =
     (if peek lx = NUL \<and> lx_pending lx = 0 then (True, lx)
      else case lex_step mt lx of
             Continue lx' \<Rightarrow> lex_loop mt lx'
           | Break lx' \<Rightarrow> (True, lx')
           | Fail lx' \<Rightarrow> (False, lx'))"
  by pat_completeness auto
termination
  by (relation "measure (\<lambda>(mt, lx). lx_pending lx + (lex_end lx - lx_pos lx))")
    (use lex_step_progress in auto)

declare lex_loop.simps [simp del]

text \<open>The \<open>DEDENT\<close>s of the blocks still open at the end.\<close>

fun close_blocks :: "nat \<Rightarrow> nat list \<Rightarrow> lexer \<Rightarrow> bool \<times> lexer" where
  "close_blocks mt (i # j # is) lx =
     (case push_tok mt TOK_DEDENT (lx_pos lx) 0 0 (lx\<lparr>lx_indents := j # is\<rparr>) of
        (False, lx1) \<Rightarrow> (False, lx1)
      | (True, lx1) \<Rightarrow> close_blocks mt (j # is) lx1)"
| "close_blocks mt is lx = (True, lx)"

definition lex_init :: "string \<Rightarrow> lexer" where
  "lex_init src = \<lparr>lx_src = src, lx_pos = 0, lx_line = 1, lx_col = 1, lx_bol = True,
     lx_indents = [0], lx_pending = 0, lx_toks = [], lx_err = []\<rparr>"

definition mp_lex :: "nat \<Rightarrow> string \<Rightarrow> bool \<times> lexer" where
  "mp_lex mt src =
     (case lex_loop mt (lex_init src) of
        (False, lx) \<Rightarrow> (False, lx)
      | (True, lx) \<Rightarrow>
          (case close_blocks mt (lx_indents lx) lx of
             (False, lx1) \<Rightarrow> (False, lx1)
           | (True, lx1) \<Rightarrow> push_tok mt TOK_EOF (lx_pos lx1) 0 0 lx1))"

section \<open>The invariant of the scan\<close>

fun tok_depth :: "mp_token list \<Rightarrow> int" where
  "tok_depth [] = 0"
| "tok_depth (t # ts) =
     (if t_kind t = TOK_INDENT then 1 else if t_kind t = TOK_DEDENT then -1 else 0) + tok_depth ts"

definition nested :: "mp_token list \<Rightarrow> bool" where
  "nested ts \<longleftrightarrow> (\<forall>n. 0 \<le> tok_depth (take n ts))"

definition indents_ok :: "nat list \<Rightarrow> bool" where
  "indents_ok is \<longleftrightarrow> is \<noteq> [] \<and> length is \<le> 32 \<and> sorted_wrt (>) is \<and> last is = 0"

definition lex_ok :: "nat \<Rightarrow> lexer \<Rightarrow> bool" where
  "lex_ok mt lx \<longleftrightarrow>
     lx_pending lx = 0 \<and> lx_pos lx \<le> lex_end lx \<and> length (lx_toks lx) \<le> mt \<and> indents_ok (lx_indents lx) \<and>
     tok_depth (lx_toks lx) = int (length (lx_indents lx)) - 1 \<and> nested (lx_toks lx) \<and>
     (\<forall>t \<in> set (lx_toks lx). t_start t + t_len t \<le> lex_end lx \<and> t_kind t \<noteq> TOK_EOF) \<and>
     (lx_err lx \<noteq> [] \<longrightarrow> length (lx_toks lx) = mt)"

lemma tok_depth_append [simp]: "tok_depth (xs @ ys) = tok_depth xs + tok_depth ys"
  by (induction xs) auto

lemma nested_snoc: "nested (ts @ [t]) \<longleftrightarrow> nested ts \<and> 0 \<le> tok_depth (ts @ [t])"
proof
  assume n: "nested (ts @ [t])"
  have "0 \<le> tok_depth (take n ts)" for n
    using n [unfolded nested_def, rule_format, of "min n (length ts)"]
    by (cases "n \<le> length ts") (simp_all add: min_def)
  moreover have "0 \<le> tok_depth (ts @ [t])"
    using n [unfolded nested_def, rule_format, of "Suc (length ts)"] by simp
  ultimately show "nested ts \<and> 0 \<le> tok_depth (ts @ [t])" by (simp add: nested_def)
next
  assume n: "nested ts \<and> 0 \<le> tok_depth (ts @ [t])"
  have "0 \<le> tok_depth (take n (ts @ [t]))" for n
    using n by (cases "n \<le> length ts") (simp_all add: nested_def)
  then show "nested (ts @ [t])" by (simp add: nested_def)
qed

lemma nested_depth: "nested ts \<Longrightarrow> 0 \<le> tok_depth ts"
  using nested_def by (metis take_all_iff order_refl)

lemma lex_ok_push:
  assumes "lex_ok mt lx" and "a + n \<le> lex_end lx" and "k \<notin> {TOK_INDENT, TOK_DEDENT, TOK_EOF}"
  shows "lex_ok mt (snd (push_tok mt k a n v lx))"
  using assms nested_depth [of "lx_toks lx"] by (auto simp: lex_ok_def push_tok_def nested_snoc lex_end_def)

text \<open>What \<open>lex_ok\<close> looks at.\<close>

lemma lex_ok_cong:
  assumes "lex_ok mt lx" and "moves lx lx'" and "lx_toks lx' = lx_toks lx" and "lx_indents lx' = lx_indents lx"
    and "lx_err lx' = lx_err lx"
  shows "lex_ok mt lx'"
  using assms by (simp add: lex_ok_def moves_def lex_end_def)

lemma lex_ok_advance: "lex_ok mt lx \<Longrightarrow> lex_ok mt (advance lx)"
  by (rule lex_ok_cong) (simp_all add: moves_advance)

lemma lex_ok_advance_while: "lex_ok mt lx \<Longrightarrow> lex_ok mt (advance_while P lx)"
  by (rule lex_ok_cong) (simp_all add: moves_advance_while)

lemma lex_ok_bol [simp]: "lex_ok mt (lx\<lparr>lx_bol := b\<rparr>) = lex_ok mt lx"
  by (simp add: lex_ok_def lex_end_def)

lemma lex_end_keeps [simp]:
  "lex_end (advance lx) = lex_end lx" "lex_end (advance_while P lx) = lex_end lx"
  "lex_end (snd (push_tok mt k a n v lx)) = lex_end lx" "lex_end (lx\<lparr>lx_bol := b\<rparr>) = lex_end lx"
  "lex_end (lx\<lparr>lx_err := e\<rparr>) = lex_end lx" "lex_end (lx\<lparr>lx_indents := is\<rparr>) = lex_end lx"
  by (simp_all add: lex_end_def)

lemma lex_ok_pos: "lex_ok mt lx \<Longrightarrow> lx_pos lx \<le> lex_end lx"
  by (simp add: lex_ok_def)

lemma indents_ok_Cons: "indents_ok (i # j # is) \<Longrightarrow> indents_ok (j # is) \<and> j < i"
  by (simp add: indents_ok_def)

lemma push_dedent:
  assumes "lex_ok mt lx" and "lx_indents lx = i # j # is"
    and "push_tok mt TOK_DEDENT (lx_pos lx) 0 0 (lx\<lparr>lx_indents := j # is\<rparr>) = (True, l)"
  shows "lex_ok mt l \<and> lx_indents l = j # is \<and> lx_src l = lx_src lx \<and> lx_pos l = lx_pos lx"
  using assms indents_ok_Cons [of i j "is"]
  by (auto simp: lex_ok_def push_tok_def lex_end_def nested_snoc split: if_splits)

lemma pop_indents_ok:
  "lex_ok mt lx \<Longrightarrow> lx_indents lx = is \<Longrightarrow> pop_indents mt spaces is lx = (True, l) \<Longrightarrow>
     lex_ok mt l \<and> (hd (lx_indents l) \<le> spaces \<or> length (lx_indents l) = 1)"
proof (induction mt spaces "is" lx rule: pop_indents.induct)
  case (1 mt spaces i j "is" lx)
  let ?p = "push_tok mt TOK_DEDENT (lx_pos lx) 0 0 (lx\<lparr>lx_indents := j # is\<rparr>)"
  show ?case
  proof (cases "spaces < i")
    case True
    with "1.prems" obtain l1 where p: "?p = (True, l1)" "pop_indents mt spaces (j # is) l1 = (True, l)"
      by (auto split: prod.splits bool.splits)
    from push_dedent [OF "1.prems"(1,2) p(1)] 1(1) [OF True p(1) [symmetric] refl] p(2) show ?thesis by simp
  next
    case False
    with "1.prems" show ?thesis by auto
  qed
qed (auto simp: lex_ok_def indents_ok_def)

lemma emit_indent_ok:
  assumes "lex_ok mt lx" and "emit_indent mt lx = (True, l)"
  shows "lex_ok mt l"
proof -
  let ?a = "advance_while (\<lambda>c. c = CHR '' '') lx"
  let ?n = "lx_pos ?a - lx_pos lx"
  have a: "lex_ok mt ?a" by (rule lex_ok_advance_while [OF assms(1)])
  show ?thesis
  proof (cases "peek ?a = newline \<or> peek ?a = CHR ''#'' \<or> peek ?a = NUL \<or> ?n = hd (lx_indents ?a)")
    case True
    with assms(2) a show ?thesis by (auto simp: emit_indent_def Let_def split: if_splits)
  next
    case False
    with assms(2) have t: "peek ?a \<noteq> TAB" by (auto simp: emit_indent_def Let_def split: if_splits)
    show ?thesis
    proof (cases "hd (lx_indents ?a) < ?n")
      case True
      with False t assms(2) have l: "\<not> 32 \<le> length (lx_indents ?a)"
        "push_tok mt TOK_INDENT (lx_pos ?a) 0 0 (?a\<lparr>lx_indents := ?n # lx_indents ?a\<rparr>) = (True, l)"
        by (auto simp: emit_indent_def Let_def split: if_splits)
      have "indents_ok (?n # lx_indents ?a)"
        using a l(1) True by (cases "lx_indents lx") (auto simp: lex_ok_def indents_ok_def)
      with a l(2) show ?thesis
        by (auto simp: push_tok_def lex_ok_def nested_snoc lex_end_def split: if_splits)
    next
      case less: False
      with False t assms(2) have "pop_indents mt ?n (lx_indents ?a) ?a = (True, l)"
        by (auto simp: emit_indent_def Let_def split: if_splits prod.splits bool.splits)
      with pop_indents_ok [OF a refl] show ?thesis by blast
    qed
  qed
qed

lemma lex_token_ok:
  assumes ok: "lex_ok mt lx" and p: "peek lx \<noteq> NUL" and step: "lex_token mt lx = Continue lx'"
  shows "lex_ok mt lx'"
proof -
  let ?c = "peek lx"
  have adv: "lex_ok mt (advance lx)" by (rule lex_ok_advance [OF ok])
  have push: "lex_ok mt (snd (push_tok mt k a n v l))"
    if "lex_ok mt l" "a + n \<le> lx_pos l" "k \<notin> {TOK_INDENT, TOK_DEDENT, TOK_EOF}" for l k a n v
    using lex_ok_push [OF that(1) _ that(3)] that(2) lex_ok_pos [OF that(1)] by simp
  have kw: "keyword s \<notin> {TOK_INDENT, TOK_DEDENT, TOK_EOF}" for s
    by (simp add: keyword_def)
  have pos1: "lx_pos (advance lx) = Suc (lx_pos lx)" by (rule advance_pos [OF p])
  consider (blank) "?c = CHR '' '' \<or> ?c = TAB \<or> ?c = CR" | (comment) "?c = CHR ''#''" | (nl) "?c = newline"
    | (name) "lx' = snd (lex_name mt lx)" | (number) "lx' = snd (lex_number mt lx)"
    | (str) "lex_string mt lx = (True, lx')" | (op) "lex_operator mt lx = (True, lx')"
    using step by (auto simp: lex_token_def Let_def continue_if_def split: if_splits) (metis prod.collapse)+
  then show ?thesis
  proof cases
    case blank
    with step have "lx' = advance lx" by (simp add: lex_token_def Let_def)
    with adv show ?thesis by simp
  next
    case comment
    with step have "lx' = advance_while (\<lambda>d. d \<noteq> newline) lx" by (simp add: lex_token_def Let_def)
    with lex_ok_advance_while [OF ok] show ?thesis by simp
  next
    case nl
    with step have "lx' = (snd (push_tok mt TOK_NEWLINE (lx_pos (advance lx) - 1) 1 0 (advance lx)))\<lparr>lx_bol := True\<rparr>"
      by (auto simp: lex_token_def Let_def split: prod.splits bool.splits)
    with push [OF adv, of "lx_pos (advance lx) - 1" 1 TOK_NEWLINE 0] pos1 show ?thesis by simp
  next
    case name
    let ?l = "advance_while is_alnum lx"
    have "lx_pos lx \<le> lx_pos ?l" using moves_advance_while [of lx is_alnum] by (simp add: moves_def)
    then have "lex_ok mt (snd (push_tok mt (keyword (lx_text lx (lx_pos lx) (lx_pos ?l - lx_pos lx)))
        (lx_pos lx) (lx_pos ?l - lx_pos lx) 0 ?l))"
      by (intro push lex_ok_advance_while [OF ok] kw) simp
    with name show ?thesis by (simp add: lex_name_def Let_def)
  next
    case number
    let ?d = "digits_loop 0 lx"
    have "lx_pos lx \<le> lx_pos (snd ?d)" using moves_digits [of lx 0] by (simp add: moves_def)
    moreover have "lex_ok mt (snd ?d)" by (rule lex_ok_cong [OF ok]) (simp_all add: moves_digits)
    ultimately show ?thesis
      using number push [of "snd ?d" "lx_pos lx" "lx_pos (snd ?d) - lx_pos lx" TOK_NUMBER]
      by (simp add: lex_number_def case_prod_beta)
  next
    case str
    let ?d = "string_loop ?c (advance lx)"
    from str have d: "fst ?d" "peek (snd ?d) = ?c"
      and l: "lx' = snd (push_tok mt TOK_STRING (lx_pos (advance lx)) (lx_pos (snd ?d) - lx_pos (advance lx)) 0 (advance (snd ?d)))"
      by (auto simp: lex_string_def Let_def case_prod_beta split: bool.splits if_splits)
    have ok2: "lex_ok mt (snd ?d)" by (rule lex_ok_cong [OF adv]) (simp_all add: moves_string)
    have "lx_pos (advance lx) \<le> lx_pos (snd ?d)" using moves_string [of "advance lx" ?c] by (simp add: moves_def)
    moreover have "lx_pos (snd ?d) \<le> lx_pos (advance (snd ?d))" using moves_advance [of "snd ?d"] by (simp add: moves_def)
    ultimately show ?thesis unfolding l by (intro push lex_ok_advance [OF ok2]) auto
  next
    case op
    have adv2: "lex_ok mt (advance (advance lx))" by (rule lex_ok_advance [OF adv])
    have o1: "lex_ok mt (snd (op1 mt k (lx_pos lx) (advance lx)))" if "k \<notin> {TOK_INDENT, TOK_DEDENT, TOK_EOF}" for k
      using push [OF adv _ that, of "lx_pos lx" 1] pos1 by (simp add: op1_def)
    have two: "lex_ok mt (snd (push_tok mt k (lx_pos lx) 2 0 (advance (advance lx))))"
      if "k \<notin> {TOK_INDENT, TOK_DEDENT, TOK_EOF}" "peek (advance lx) \<noteq> NUL" for k
      using push [OF adv2 _ that(1), of "lx_pos lx" 2] pos1 advance_pos [OF that(2)] by simp
    have o2: "lex_ok mt (snd (op2 mt c k2 k1 (lx_pos lx) (advance lx)))"
      if "k1 \<notin> {TOK_INDENT, TOK_DEDENT, TOK_EOF}" "k2 \<notin> {TOK_INDENT, TOK_DEDENT, TOK_EOF}" "c \<noteq> NUL" for k1 k2 c
      using two [OF that(2)] push [OF adv _ that(1), of "lx_pos lx" 1] pos1 that(3) by (simp add: op2_def)
    have "lex_ok mt (snd (lex_operator mt lx))" if "fst (lex_operator mt lx)"
      using that o1 o2 two unfolding lex_operator_def Let_def by (simp split: if_splits)
    with op show ?thesis by simp
  qed
qed

lemma lex_step_ok:
  assumes ok: "lex_ok mt lx" and p: "peek lx \<noteq> NUL"
  shows "lex_step mt lx = Continue l \<Longrightarrow> lex_ok mt l" and "lex_step mt lx = Break l \<Longrightarrow> lex_ok mt l"
proof -
  have pend: "\<not> 0 < lx_pending lx" using ok by (simp add: lex_ok_def)
  have ok': "lex_ok mt (lx\<lparr>lx_bol := False\<rparr>)" using ok by simp
  have nobreak: "lex_token mt l' \<noteq> Break l" for l l'
    by (auto simp: lex_token_def Let_def continue_if_def split: if_splits prod.splits bool.splits)
  show "lex_ok mt l" if "lex_step mt lx = Continue l"
    using that pend emit_indent_ok [OF ok'] lex_token_ok [OF ok p] lex_token_ok
    by (auto simp: lex_step_def split: if_splits prod.splits bool.splits)
  show "lex_ok mt l" if "lex_step mt lx = Break l"
    using that pend emit_indent_ok [OF ok'] nobreak
    by (auto simp: lex_step_def split: if_splits prod.splits bool.splits)
qed

lemma lex_loop_ok: "lex_ok mt lx \<Longrightarrow> lex_loop mt lx = (True, l) \<Longrightarrow> lex_ok mt l"
proof (induction mt lx rule: lex_loop.induct)
  case (1 mt lx)
  have pend: "lx_pending lx = 0" using "1.prems" by (simp add: lex_ok_def)
  show ?case
  proof (cases "peek lx = NUL")
    case True
    with pend "1.prems" show ?thesis by (simp add: lex_loop.simps [of mt lx])
  next
    case False
    show ?thesis
    proof (cases "lex_step mt lx")
      case (Continue l')
      then have "lex_loop mt lx = lex_loop mt l'" using False by (simp add: lex_loop.simps [of mt lx])
      with "1.IH" [OF _ Continue] lex_step_ok(1) [OF "1.prems"(1) False Continue] "1.prems"(2) False show ?thesis by simp
    next
      case (Break l')
      then have "lex_loop mt lx = (True, l')" using False by (simp add: lex_loop.simps [of mt lx])
      with lex_step_ok(2) [OF "1.prems"(1) False Break] "1.prems"(2) show ?thesis by simp
    next
      case (Fail l')
      then have "lex_loop mt lx = (False, l')" using False by (simp add: lex_loop.simps [of mt lx])
      with "1.prems"(2) show ?thesis by simp
    qed
  qed
qed

lemma close_blocks_ok:
  "lex_ok mt lx \<Longrightarrow> lx_indents lx = is \<Longrightarrow> close_blocks mt is lx = (True, l) \<Longrightarrow>
     lex_ok mt l \<and> length (lx_indents l) = 1"
proof (induction mt "is" lx rule: close_blocks.induct)
  case (1 mt i j "is" lx)
  let ?p = "push_tok mt TOK_DEDENT (lx_pos lx) 0 0 (lx\<lparr>lx_indents := j # is\<rparr>)"
  from "1.prems" obtain l1 where p: "?p = (True, l1)" "close_blocks mt (j # is) l1 = (True, l)"
    by (auto split: prod.splits bool.splits)
  from push_dedent [OF "1.prems"(1,2) p(1)] 1(1) [OF p(1) [symmetric] refl] p(2) show ?case by simp
qed (auto simp: lex_ok_def indents_ok_def)

lemma lex_init_ok: "lex_ok mt (lex_init src)"
  by (simp add: lex_ok_def lex_init_def lex_end_def indents_ok_def nested_def)

text \<open>A successful scan: well-nested blocks, all closed, every token inside the source, nothing dropped.\<close>

lemma mp_lex_ok:
  assumes "mp_lex mt src = (True, lx)"
  obtains ts t where "lx_toks lx = ts @ [t]" and "t_kind t = TOK_EOF" and "length ts < mt" and "nested ts"
    and "tok_depth ts = 0" and "lx_err lx = []" and "\<forall>t \<in> set ts. t_start t + t_len t \<le> lex_end lx \<and> t_kind t \<noteq> TOK_EOF"
proof -
  from assms obtain l1 l2 where l: "lex_loop mt (lex_init src) = (True, l1)"
    "close_blocks mt (lx_indents l1) l1 = (True, l2)" "push_tok mt TOK_EOF (lx_pos l2) 0 0 l2 = (True, lx)"
    by (auto simp: mp_lex_def split: prod.splits bool.splits)
  have "lex_ok mt l2 \<and> length (lx_indents l2) = 1"
    using close_blocks_ok [OF lex_loop_ok [OF lex_init_ok l(1)] refl l(2)] .
  with l(3) show ?thesis
    by (intro that [of "lx_toks l2" "last (lx_toks lx)"]) (auto simp: push_tok_def lex_ok_def lex_end_def split: if_splits)
qed

section \<open>Words\<close>

definition word_ok :: "string \<Rightarrow> bool" where
  "word_ok w \<longleftrightarrow> w \<noteq> [] \<and> (list_all is_digit w \<or> is_alpha (hd w) \<and> list_all is_alnum w)"

fun unwords :: "string list \<Rightarrow> string" where
  "unwords [] = []"
| "unwords [w] = w"
| "unwords (w # ws) = w @ CHR '' '' # unwords ws"

definition word_tok :: "string \<Rightarrow> tok_kind \<times> string \<times> u32" where
  "word_tok w = (if is_digit (hd w) then (TOK_NUMBER, w, of_nat (dec_value 0 w)) else (keyword w, w, 0))"

definition tok_view :: "string \<Rightarrow> mp_token \<Rightarrow> tok_kind \<times> string \<times> u32" where
  "tok_view src t = (t_kind t, take (t_len t) (drop (t_start t) src), t_number t)"

lemma peek_rest: "no_nul (lx_src lx) \<Longrightarrow> drop (lx_pos lx) (lx_src lx) = r \<Longrightarrow> peek lx = (if r = [] then NUL else hd r)"
  by (auto simp: peek_def kstrlen_cstr cstr_id cget_def hd_drop_conv_nth)

lemma advance_rest:
  assumes "no_nul (lx_src lx)" and "drop (lx_pos lx) (lx_src lx) = c # r" and "c \<noteq> newline"
  shows "advance lx = lx\<lparr>lx_pos := lx_pos lx + 1, lx_col := lx_col lx + 1\<rparr>"
    and "drop (lx_pos (advance lx)) (lx_src lx) = r"
proof -
  have "c \<in> set (lx_src lx)" using assms(2) by (metis in_set_dropD list.set_intros(1))
  with assms(1) have "c \<noteq> NUL" by (auto simp: no_nul_def)
  with assms peek_rest [OF assms(1,2)] show "advance lx = lx\<lparr>lx_pos := lx_pos lx + 1, lx_col := lx_col lx + 1\<rparr>"
    by (simp add: advance_def Let_def)
  then show "drop (lx_pos (advance lx)) (lx_src lx) = r"
    using assms(2) by (simp add: drop_Suc) (metis drop_Suc list.sel(3) tl_drop)
qed

lemma advance_while_rest:
  "no_nul (lx_src lx) \<Longrightarrow> drop (lx_pos lx) (lx_src lx) = w @ r \<Longrightarrow> list_all P w \<Longrightarrow> \<not> P newline \<Longrightarrow>
     r = [] \<or> \<not> P (hd r) \<Longrightarrow>
     advance_while P lx = lx\<lparr>lx_pos := lx_pos lx + length w, lx_col := lx_col lx + length w\<rparr>"
proof (induction w arbitrary: lx)
  case Nil
  then show ?case using peek_rest [of lx r] by (auto simp: advance_while.simps [of P lx])
next
  case (Cons c w)
  then have c: "c \<noteq> newline" "P c" "drop (lx_pos lx) (lx_src lx) = c # (w @ r)" by auto
  note adv = advance_rest [OF Cons.prems(1) c(3,1)]
  have pk: "peek lx = c" "c \<noteq> NUL"
    using peek_rest [OF Cons.prems(1) c(3)] Cons.prems(1) c(3) by (auto simp: no_nul_def dest: in_set_dropD [where n = "lx_pos lx"] intro: list.set_intros)
      (metis in_set_dropD list.set_intros(1))
  have "advance_while P lx = advance_while P (advance lx)"
    using pk c(2) by (simp add: advance_while.simps [of P lx])
  also have "\<dots> = (advance lx)\<lparr>lx_pos := lx_pos (advance lx) + length w, lx_col := lx_col (advance lx) + length w\<rparr>"
    using Cons.IH [of "advance lx"] Cons.prems adv by simp
  finally show ?case by (simp add: adv(1))
qed

lemma digits_rest:
  "no_nul (lx_src lx) \<Longrightarrow> drop (lx_pos lx) (lx_src lx) = w @ r \<Longrightarrow> list_all is_digit w \<Longrightarrow> r = [] \<or> \<not> is_digit (hd r) \<Longrightarrow>
     digits_loop (of_nat v) lx =
       (of_nat (dec_value v w), lx\<lparr>lx_pos := lx_pos lx + length w, lx_col := lx_col lx + length w\<rparr>)"
proof (induction w arbitrary: lx v)
  case Nil
  then show ?case using peek_rest [of lx r] by (auto simp: digits_loop.simps [of _ lx])
next
  case (Cons c w)
  have "\<not> is_digit newline" by code_simp
  with Cons have c: "c \<noteq> newline" "is_digit c" "drop (lx_pos lx) (lx_src lx) = c # (w @ r)" by auto
  note adv = advance_rest [OF Cons.prems(1) c(3,1)]
  have pk: "peek lx = c" using peek_rest [OF Cons.prems(1) c(3)] by simp
  have nn: "c \<noteq> NUL" using c(2) by (auto simp: is_digit_def char_in_def)
  have "(of_char c :: u32) = of_nat (of_char c)" by (rule of_nat_of_char [symmetric])
  with c(2) have "(of_char c :: u32) - of_char (CHR ''0'') = of_nat (dec_digit c)"
    by (simp add: dec_digit_def is_digit_def char_in_def of_nat_diff)
  then have "digits_loop (of_nat v) lx = digits_loop (of_nat (v * 10 + dec_digit c)) (advance lx)"
    using pk nn c(2) by (simp add: digits_loop.simps [of _ lx])
  also have "\<dots> = (of_nat (dec_value (v * 10 + dec_digit c) w),
      (advance lx)\<lparr>lx_pos := lx_pos (advance lx) + length w, lx_col := lx_col (advance lx) + length w\<rparr>)"
    using Cons.IH [of "advance lx" "v * 10 + dec_digit c"] Cons.prems adv by simp
  finally show ?case by (simp add: adv(1))
qed

lemma unwords_Cons: "unwords (w # ws) = w @ (if ws = [] then [] else CHR '' '' # unwords ws)"
  by (cases ws) auto

lemma word_step:
  assumes nn: "no_nul (lx_src lx)" and r: "drop (lx_pos lx) (lx_src lx) = w @ r" and w: "word_ok w"
    and stop: "r = [] \<or> hd r = CHR '' ''" and st: "\<not> lx_bol lx" "lx_pending lx = 0" and room: "length (lx_toks lx) < mt"
  shows "\<exists>t c. lex_step mt lx = Continue (lx\<lparr>lx_pos := lx_pos lx + length w, lx_col := c, lx_toks := lx_toks lx @ [t]\<rparr>) \<and>
    tok_view (lx_src lx) t = word_tok w"
proof -
  have facts: "\<not> is_alnum (CHR '' '')" "\<not> is_digit (CHR '' '')" "\<not> is_alnum newline" by code_simp+
  have pk: "peek lx = hd w" using peek_rest [OF nn r] w by (auto simp: word_ok_def)
  have cls: "is_alpha (hd w) \<or> is_digit (hd w)" using w by (cases w) (auto simp: word_ok_def)
  then have "hd w \<noteq> CHR '' '' \<and> hd w \<noteq> TAB \<and> hd w \<noteq> CR \<and> hd w \<noteq> CHR ''#'' \<and> hd w \<noteq> newline"
    by (auto simp: is_alpha_def is_digit_def char_in_def)
  with pk have tok: "lex_step mt lx = continue_if (if is_alpha (hd w) then lex_name mt lx else lex_number mt lx)"
    using st cls by (cases "is_alpha (hd w)") (simp_all add: lex_step_def lex_token_def Let_def)
  have excl: "is_alpha c \<Longrightarrow> \<not> is_digit c" for c by (auto simp: is_alpha_def is_digit_def char_in_def)
  have tw: "take (length w) (drop (lx_pos lx) (lx_src lx)) = w" by (simp add: r)
  show ?thesis
  proof (cases "is_alpha (hd w)")
    case True
    with w excl have "list_all is_alnum w" by (cases w) (auto simp: word_ok_def)
    from advance_while_rest [OF nn r this facts(3)] stop facts
    have a: "advance_while is_alnum lx = lx\<lparr>lx_pos := lx_pos lx + length w, lx_col := lx_col lx + length w\<rparr>" by auto
    let ?t = "\<lparr>t_kind = keyword w, t_start = lx_pos lx, t_len = length w, t_number = 0, t_line = lx_line lx,
      t_col = lx_col lx + length w\<rparr>"
    have "lex_step mt lx = Continue (lx\<lparr>lx_pos := lx_pos lx + length w, lx_col := lx_col lx + length w, lx_toks := lx_toks lx @ [?t]\<rparr>)"
      using True room tw by (simp add: tok lex_name_def Let_def a push_tok_def continue_if_def lx_text_def)
    moreover have "tok_view (lx_src lx) ?t = word_tok w"
      using True excl tw by (simp add: tok_view_def word_tok_def)
    ultimately show ?thesis by blast
  next
    case False
    with w cls have d: "list_all is_digit w" by (auto simp: word_ok_def)
    from digits_rest [OF nn r this, of 0] stop facts
    have a: "digits_loop 0 lx = (of_nat (dec_value 0 w), lx\<lparr>lx_pos := lx_pos lx + length w, lx_col := lx_col lx + length w\<rparr>)" by auto
    let ?t = "\<lparr>t_kind = TOK_NUMBER, t_start = lx_pos lx, t_len = length w, t_number = of_nat (dec_value 0 w),
      t_line = lx_line lx, t_col = lx_col lx + length w\<rparr>"
    have "lex_step mt lx = Continue (lx\<lparr>lx_pos := lx_pos lx + length w, lx_col := lx_col lx + length w, lx_toks := lx_toks lx @ [?t]\<rparr>)"
      using False room by (simp add: tok lex_number_def a push_tok_def continue_if_def)
    moreover have "tok_view (lx_src lx) ?t = word_tok w"
      using False cls tw by (simp add: tok_view_def word_tok_def)
    ultimately show ?thesis by blast
  qed
qed

lemma words_loop:
  "no_nul (lx_src lx) \<Longrightarrow> drop (lx_pos lx) (lx_src lx) = unwords ws \<Longrightarrow> list_all word_ok ws \<Longrightarrow>
     \<not> lx_bol lx \<Longrightarrow> lx_pending lx = 0 \<Longrightarrow> length (lx_toks lx) + length ws \<le> mt \<Longrightarrow>
   \<exists>ts l. lex_loop mt lx = (True, l) \<and> lx_toks l = lx_toks lx @ ts \<and> lx_src l = lx_src lx \<and>
     lx_indents l = lx_indents lx \<and> map (tok_view (lx_src lx)) ts = map word_tok ws"
proof (induction ws arbitrary: lx)
  case Nil
  then have "peek lx = NUL" using peek_rest [of lx "[]"] by simp
  then show ?case using Nil.prems by (simp add: lex_loop.simps [of mt lx])
next
  case (Cons w ws)
  let ?r = "if ws = [] then [] else CHR '' '' # unwords ws"
  have r: "drop (lx_pos lx) (lx_src lx) = w @ ?r" using Cons.prems(2) by (simp add: unwords_Cons)
  have ok: "word_ok w" using Cons.prems(3) by simp
  obtain t c where st: "lex_step mt lx = Continue (lx\<lparr>lx_pos := lx_pos lx + length w, lx_col := c, lx_toks := lx_toks lx @ [t]\<rparr>)"
    and tv: "tok_view (lx_src lx) t = word_tok w"
  proof -
    have "?r = [] \<or> hd ?r = CHR '' ''" "length (lx_toks lx) < mt" using Cons.prems(6) by simp_all
    from word_step [OF Cons.prems(1) r ok this(1) Cons.prems(4,5) this(2)] that show ?thesis by blast
  qed
  let ?l = "lx\<lparr>lx_pos := lx_pos lx + length w, lx_col := c, lx_toks := lx_toks lx @ [t]\<rparr>"
  have pk: "peek lx \<noteq> NUL"
    using peek_rest [OF Cons.prems(1) r] ok
    by (cases w) (auto simp: word_ok_def is_alpha_def is_digit_def char_in_def)
  have rest: "drop (lx_pos ?l) (lx_src ?l) = ?r"
    using arg_cong [OF r, of "drop (length w)"] by (simp add: add.commute)
  have loop: "lex_loop mt lx = lex_loop mt ?l" using pk st by (simp add: lex_loop.simps [of mt lx])
  show ?case
  proof (cases "ws = []")
    case True
    with rest have "peek ?l = NUL" using peek_rest [of ?l "[]"] Cons.prems(1) by simp
    then have "lex_loop mt ?l = (True, ?l)" using Cons.prems(5) by (simp add: lex_loop.simps [of mt ?l])
    with loop tv True show ?thesis by simp
  next
    case False
    have nn: "no_nul (lx_src ?l)" using Cons.prems(1) by simp
    have sp: "drop (lx_pos ?l) (lx_src ?l) = CHR '' '' # unwords ws" using rest False by simp
    note pk2 = peek_rest [OF nn sp]
    have st2: "lex_step mt ?l = Continue (advance ?l)"
      using pk2 Cons.prems(4,5) by (simp add: lex_step_def lex_token_def Let_def)
    have loop2: "lex_loop mt ?l = lex_loop mt (advance ?l)"
      using pk2 st2 by (simp add: lex_loop.simps [of mt ?l])
    have "\<exists>ts l. lex_loop mt (advance ?l) = (True, l) \<and> lx_toks l = lx_toks (advance ?l) @ ts \<and> lx_src l = lx_src (advance ?l) \<and>
       lx_indents l = lx_indents (advance ?l) \<and> map (tok_view (lx_src (advance ?l))) ts = map word_tok ws"
      by (rule Cons.IH) (use Cons.prems advance_rest(2) [OF nn sp] in auto)
    then obtain ts l where "lex_loop mt (advance ?l) = (True, l)" "lx_toks l = lx_toks lx @ t # ts"
      "lx_src l = lx_src lx" "lx_indents l = lx_indents lx" "map (tok_view (lx_src lx)) ts = map word_tok ws" by auto
    with loop loop2 tv show ?thesis by (intro exI [of _ "t # ts"] exI [of _ l]) simp
  qed
qed

section \<open>Properties\<close>

text \<open>
  Property C6. A successful scan ends in one \<open>EOF\<close> token, opens and closes every block (each prefix has at
  least as many \<open>INDENT\<close>s as \<open>DEDENT\<close>s, and the whole as many), never exceeds the token table, keeps
  every token inside the source, and has dropped no token although the operators' pushes are unchecked.
\<close>

theorem mp_lex_well_formed:
  assumes "mp_lex mt src = (True, lx)"
  shows "\<exists>ts t. lx_toks lx = ts @ [t] \<and> t_kind t = TOK_EOF \<and> length ts < mt \<and> nested ts \<and> tok_depth ts = 0 \<and>
    lx_err lx = [] \<and> (\<forall>t \<in> set ts. t_start t + t_len t \<le> lex_end lx \<and> t_kind t \<noteq> TOK_EOF)"
  by (rule mp_lex_ok [OF assms]) blast

lemma mp_lex_well_formed_witness: "\<exists>ts t. lx_toks (snd (mp_lex 8 ''a+1'')) = ts @ [t] \<and> t_kind t = TOK_EOF"
proof -
  have "fst (mp_lex 8 ''a+1'')" by code_simp
  then have "mp_lex 8 ''a+1'' = (True, snd (mp_lex 8 ''a+1''))" by (metis (full_types) prod.collapse)
  from mp_lex_well_formed [OF this] show ?thesis by blast
qed

text \<open>
  The scanner reads back what is written: identifiers, keywords and decimal numbers separated by
  blanks give exactly those tokens, with their text, kind and value (modulo \<open>2 ^ 32\<close>), then \<open>EOF\<close>.
\<close>

theorem mp_lex_words:
  assumes ws: "list_all word_ok ws" and room: "length ws < mt"
  shows "fst (mp_lex mt (unwords ws)) \<and>
    map (tok_view (unwords ws)) (lx_toks (snd (mp_lex mt (unwords ws)))) = map word_tok ws @ [(TOK_EOF, [], 0)]"
proof -
  let ?src = "unwords ws"
  have nn: "no_nul (unwords ws)" using ws
  proof (induction ws rule: unwords.induct)
    case (2 w)
    then show ?case by (auto simp: no_nul_def word_ok_def list_all_iff is_alnum_def is_alpha_def is_digit_def char_in_def)
  next
    case (3 w v va)
    have "NUL \<notin> set w" using 3(2) by (auto simp: word_ok_def list_all_iff is_alnum_def is_alpha_def is_digit_def char_in_def)
    with 3 show ?case by (simp add: no_nul_def)
  qed simp
  let ?l0 = "(lex_init ?src)\<lparr>lx_bol := False\<rparr>"
  have src0: "lx_src ?l0 = ?src" "lx_pos ?l0 = 0" "lx_toks ?l0 = []" "lx_indents ?l0 = [0]" "\<not> lx_bol ?l0" "lx_pending ?l0 = 0"
    by (simp_all add: lex_init_def)
  have loop: "lex_loop mt (lex_init ?src) = lex_loop mt ?l0" if "ws \<noteq> []"
  proof -
    from that ws obtain c r where c: "?src = c # r" "is_alpha c \<or> is_digit c"
      by (cases ws; cases "hd ws") (auto simp: unwords_Cons word_ok_def)
    have pk: "peek (lex_init ?src) = c" "peek ?l0 = c"
      using peek_rest [of "lex_init ?src" ?src] peek_rest [of ?l0 ?src] nn c(1) by (simp_all add: lex_init_def)
    have cc: "c \<noteq> NUL" "c \<noteq> CHR '' ''" "c \<noteq> newline" "c \<noteq> CHR ''#''" "c \<noteq> TAB"
      using c(2) by (auto simp: is_alpha_def is_digit_def char_in_def)
    have "advance_while (\<lambda>c. c = CHR '' '') ?l0 = ?l0"
      using pk cc by (simp add: advance_while.simps [of _ ?l0])
    then have "emit_indent mt ?l0 = (True, ?l0)"
      using pk cc src0 by (simp add: emit_indent_def Let_def)
    then have "lex_step mt (lex_init ?src) = lex_token mt ?l0"
      using pk cc by (simp add: lex_step_def lex_init_def)
    moreover have "lex_step mt ?l0 = lex_token mt ?l0" using src0 by (simp add: lex_step_def)
    ultimately show ?thesis using pk cc by (simp add: lex_loop.simps [of mt "lex_init ?src"] lex_loop.simps [of mt ?l0])
  qed
  have "\<exists>ts l. lex_loop mt ?l0 = (True, l) \<and> lx_toks l = lx_toks ?l0 @ ts \<and> lx_src l = lx_src ?l0 \<and>
      lx_indents l = lx_indents ?l0 \<and> map (tok_view (lx_src ?l0)) ts = map word_tok ws"
    by (rule words_loop) (use ws nn src0 room in simp_all)
  then obtain ts l where l0: "lex_loop mt ?l0 = (True, l)" "lx_toks l = ts" "lx_src l = ?src" "lx_indents l = [0]"
    "map (tok_view ?src) ts = map word_tok ws"
    using src0 by auto
  have "\<exists>l. lex_loop mt (lex_init ?src) = (True, l) \<and> lx_toks l = ts \<and> lx_src l = ?src \<and> lx_indents l = [0]"
  proof (cases "ws = []")
    case True
    then have "peek (lex_init ?src) = NUL" "ts = []" using l0(5) by (simp_all add: peek_def lex_init_def)
    then show ?thesis by (simp add: lex_loop.simps [of mt "lex_init ?src"]) (simp add: lex_init_def)
  next
    case False
    with l0 loop show ?thesis by auto
  qed
  then obtain l where l: "lex_loop mt (lex_init ?src) = (True, l)" "lx_toks l = ts" "lx_src l = ?src" "lx_indents l = [0]"
    by blast
  have len: "length ts = length ws" using arg_cong [OF l0(5), of length] by simp
  let ?t = "\<lparr>t_kind = TOK_EOF, t_start = lx_pos l, t_len = 0, t_number = 0, t_line = lx_line l, t_col = lx_col l\<rparr>"
  have "mp_lex mt ?src = (True, l\<lparr>lx_toks := ts @ [?t]\<rparr>)"
    using l len room by (simp add: mp_lex_def push_tok_def)
  then show ?thesis using l0(5) by (simp add: tok_view_def)
qed

lemma mp_lex_words_witness:
  "map (tok_view (unwords [''while'', ''x'', ''42''])) (lx_toks (snd (mp_lex 256 (unwords [''while'', ''x'', ''42''])))) =
    [(TOK_WHILE, ''while'', 0), (TOK_NAME, ''x'', 0), (TOK_NUMBER, ''42'', 42), (TOK_EOF, [], 0)]"
proof -
  have "list_all word_ok [''while'', ''x'', ''42'']" by code_simp
  moreover have "map word_tok [''while'', ''x'', ''42''] = [(TOK_WHILE, ''while'', 0), (TOK_NAME, ''x'', 0), (TOK_NUMBER, ''42'', 42)]"
    by code_simp
  ultimately show ?thesis using mp_lex_words [of "[''while'', ''x'', ''42'']" 256] by simp
qed

end
