(* ===== verification/MpParse.thy ===== *)
theory MpParse
  imports MpLex
begin

text \<open>
  The recursive-descent parser of the Python subset, \<^verbatim>\<open>py/parse.c\<close>, on the token table the scanner leaves,
  with \<^verbatim>\<open>py/heap.c\<close> as the number of bytes handed out. A null pointer is \<open>Null\<close>; its message, when there
  is one, is in \<open>p_err\<close>. The recursion is open: each function takes the one it calls back as a parameter,
  and \<open>parse_expr\<close> and \<open>parse_stmt\<close> tie the knot with a count above the tokens left, which is enough
  because every callback has consumed a token (\<open>mp_parse_terminates\<close>).
\<close>

section \<open>Syntax trees\<close>

text \<open>
  One constructor per \<^verbatim>\<open>MpNodeKind\<close>, with the fields of \<^verbatim>\<open>MpNode\<close> that kind uses; a chain linked by
  \<open>next\<close> is a list, a null \<open>orelse\<close> or \<open>a\<close> is \<open>None\<close>.
\<close>

datatype mp_node =
    ND_NONE
  | ND_INT u32
  | ND_STR string
  | ND_NAME string
  | ND_BOOL bool
  | ND_UNARY tok_kind mp_node
  | ND_BINOP tok_kind mp_node mp_node
  | ND_COMPARE tok_kind mp_node mp_node
  | ND_CALL string "mp_node list"
  | ND_ASSIGN string mp_node
  | ND_EXPR_STMT mp_node
  | ND_PASS
  | ND_IF mp_node mp_node "mp_node option"
  | ND_WHILE mp_node mp_node
  | ND_FOR string mp_node mp_node
  | ND_FUNC string "string list" mp_node
  | ND_RETURN "mp_node option"
  | ND_LIST "mp_node list"
  | ND_INDEX mp_node mp_node
  | ND_IMPORT string
  | ND_BLOCK "mp_node list"
  | ND_MODULE "mp_node list"

section \<open>Parser state and results\<close>

text \<open>\<open>cf_heap\<close> is \<open>MP_HEAP_SIZE\<close>, \<open>cf_node\<close> is \<^verbatim>\<open>sizeof(MpNode)\<close>; \<open>p_heap\<close> is the allocator's \<open>heap_off\<close>.\<close>

record mp_cfg =
  cf_heap :: nat
  cf_node :: nat

record parser =
  p_toks :: "mp_token list"
  p_src :: string
  p_pos :: nat
  p_err :: string
  p_heap :: nat

text \<open>A C function that returns a node or a null pointer; \<open>Out\<close> is the end of the model's fuel.\<close>

datatype 'a presult = Ok 'a parser | Null parser | Out

fun pbind :: "'a presult \<Rightarrow> ('a \<Rightarrow> parser \<Rightarrow> 'b presult) \<Rightarrow> 'b presult" where
  "pbind (Ok a p) f = f a p"
| "pbind (Null p) f = Null p"
| "pbind Out f = Out"

definition cur :: "parser \<Rightarrow> mp_token" where
  "cur p = (if length (p_toks p) \<le> p_pos p then last (p_toks p) else p_toks p ! p_pos p)"

definition check :: "tok_kind \<Rightarrow> parser \<Rightarrow> bool" where
  "check k p \<longleftrightarrow> t_kind (cur p) = k"

definition skip :: "parser \<Rightarrow> parser" where
  "skip p = p\<lparr>p_pos := p_pos p + 1\<rparr>"

text \<open>\<open>match\<close> and then the two ways on.\<close>

definition match_then :: "tok_kind \<Rightarrow> parser \<Rightarrow> (parser \<Rightarrow> 'a) \<Rightarrow> (parser \<Rightarrow> 'a) \<Rightarrow> 'a" where
  "match_then k p yes no = (if check k p then yes (skip p) else no p)"

definition match_opt :: "tok_kind \<Rightarrow> parser \<Rightarrow> parser" where
  "match_opt k p = (if check k p then skip p else p)"

definition expected_char :: "char \<Rightarrow> string" where
  "expected_char c = ''expected '' @ [SQUOTE, c, SQUOTE]"

definition expect :: "tok_kind \<Rightarrow> string \<Rightarrow> parser \<Rightarrow> unit presult" where
  "expect k msg p = (if check k p then Ok () (skip p) else Null (p\<lparr>p_err := msg\<rparr>))"

text \<open>\<open>mp_alloc\<close> of \<^verbatim>\<open>py/heap.c\<close>, for the parser: sizes are rounded up to 8.\<close>

definition aligned8 :: "nat \<Rightarrow> nat" where
  "aligned8 n = (n + 7) div 8 * 8"

definition heap_take :: "mp_cfg \<Rightarrow> nat \<Rightarrow> parser \<Rightarrow> parser option" where
  "heap_take cf n p =
     (if cf_heap cf < p_heap p + aligned8 n then None else Some (p\<lparr>p_heap := p_heap p + aligned8 n\<rparr>))"

definition node_new :: "mp_cfg \<Rightarrow> parser \<Rightarrow> unit presult" where
  "node_new cf p =
     (case heap_take cf (cf_node cf) p of
        None \<Rightarrow> Null (p\<lparr>p_err := ''MemoryError: AST''\<rparr>)
      | Some p1 \<Rightarrow> Ok () p1)"

definition tok_text :: "parser \<Rightarrow> mp_token \<Rightarrow> string" where
  "tok_text p t = take (t_len t) (drop (t_start t) (p_src p))"

text \<open>A failed copy leaves no message.\<close>

definition copy_slice :: "mp_cfg \<Rightarrow> mp_token \<Rightarrow> parser \<Rightarrow> string presult" where
  "copy_slice cf t p =
     (case heap_take cf (t_len t + 1) p of None \<Rightarrow> Null p | Some p1 \<Rightarrow> Ok (tok_text p t) p1)"

fun unescape_lit :: "string \<Rightarrow> string" where
  "unescape_lit [] = []"
| "unescape_lit [c] = [c]"
| "unescape_lit (c # e # cs) =
     (if c = BACKSLASH then
        (if e = CHR ''n'' then newline else if e = CHR ''t'' then TAB else if e = CHR ''r'' then CR else e)
          # unescape_lit cs
      else c # unescape_lit (e # cs))"

definition copy_string_lit :: "mp_cfg \<Rightarrow> mp_token \<Rightarrow> parser \<Rightarrow> string presult" where
  "copy_string_lit cf t p =
     (case heap_take cf (t_len t + 1) p of None \<Rightarrow> Null p | Some p1 \<Rightarrow> Ok (unescape_lit (tok_text p t)) p1)"

section \<open>Expressions\<close>

text \<open>
  The functions call each other through \<open>parse_expr\<close>, which is a parameter \<open>e\<close> here and tied at
  the end. Loops count down a number that starts above the tokens left.
\<close>

definition tokens_left :: "parser \<Rightarrow> nat" where
  "tokens_left p = length (p_toks p) - p_pos p"

text \<open>\<^verbatim>\<open>for (;;) { el = parse_expr(p); ...; if (!match(p, TOK_COMMA)) break; }\<close>\<close>

fun parse_items :: "nat \<Rightarrow> (parser \<Rightarrow> mp_node presult) \<Rightarrow> parser \<Rightarrow> mp_node list presult" where
  "parse_items 0 e p = Out"
| "parse_items (Suc n) e p =
     pbind (e p) (\<lambda>el p1.
       if check TOK_COMMA p1 then pbind (parse_items n e (skip p1)) (\<lambda>els p2. Ok (el # els) p2)
       else Ok [el] p1)"

text \<open>The bracketed list of expressions up to \<open>close\<close>.\<close>

definition parse_until :: "tok_kind \<Rightarrow> string \<Rightarrow> (parser \<Rightarrow> mp_node presult) \<Rightarrow> parser \<Rightarrow> mp_node list presult" where
  "parse_until close msg e p =
     pbind (if check close p then Ok [] p else parse_items (Suc (tokens_left p)) e p) (\<lambda>els p1.
       pbind (expect close msg p1) (\<lambda>u p2. Ok els p2))"

fun index_loop :: "nat \<Rightarrow> mp_cfg \<Rightarrow> (parser \<Rightarrow> mp_node presult) \<Rightarrow> mp_node \<Rightarrow> parser \<Rightarrow> mp_node presult" where
  "index_loop 0 cf e a p = Out"
| "index_loop (Suc n) cf e a p =
     (if check TOK_LBRACK p then
        pbind (node_new cf (skip p)) (\<lambda>u p1. pbind (e p1) (\<lambda>b p2.
          pbind (expect TOK_RBRACK (expected_char (CHR '']'')) p2) (\<lambda>u p3. index_loop n cf e (ND_INDEX a b) p3)))
      else Ok a p)"

definition parse_atom :: "mp_cfg \<Rightarrow> (parser \<Rightarrow> mp_node presult) \<Rightarrow> parser \<Rightarrow> mp_node presult" where
  "parse_atom cf e p =
     (let t = cur p
      in if check TOK_NUMBER p then
           pbind (node_new cf (skip p)) (\<lambda>u p1. Ok (ND_INT (t_number t)) p1)
         else if check TOK_STRING p then
           pbind (node_new cf (skip p)) (\<lambda>u p1. pbind (copy_string_lit cf t p1) (\<lambda>s p2. Ok (ND_STR s) p2))
         else if check TOK_TRUE p then
           pbind (node_new cf (skip p)) (\<lambda>u p1. Ok (ND_BOOL True) p1)
         else if check TOK_FALSE p then
           pbind (node_new cf (skip p)) (\<lambda>u p1. Ok (ND_BOOL False) p1)
         else if check TOK_NONE p then
           pbind (node_new cf (skip p)) (\<lambda>u p1. Ok ND_NONE p1)
         else if check TOK_LBRACK p then
           pbind (node_new cf (skip p)) (\<lambda>u p1.
             pbind (parse_until TOK_RBRACK (expected_char (CHR '']'')) e p1) (\<lambda>els p2. Ok (ND_LIST els) p2))
         else if check TOK_NAME p then
           pbind (node_new cf (skip p)) (\<lambda>u p1. pbind (copy_slice cf t p1) (\<lambda>s p2.
             if check TOK_LPAREN p2 then
               pbind (node_new cf (skip p2)) (\<lambda>u p3.
                 pbind (parse_until TOK_RPAREN (expected_char (CHR '')'')) e p3) (\<lambda>args p4. Ok (ND_CALL s args) p4))
             else Ok (ND_NAME s) p2))
         else if check TOK_LPAREN p then
           pbind (e (skip p)) (\<lambda>x p1. pbind (expect TOK_RPAREN (expected_char (CHR '')'')) p1) (\<lambda>u p2. Ok x p2))
         else Null (p\<lparr>p_err := ''expected expression''\<rparr>))"

definition parse_primary :: "mp_cfg \<Rightarrow> (parser \<Rightarrow> mp_node presult) \<Rightarrow> parser \<Rightarrow> mp_node presult" where
  "parse_primary cf e p = pbind (parse_atom cf e p) (\<lambda>a p1. index_loop (Suc (tokens_left p1)) cf e a p1)"

fun parse_unary_n :: "nat \<Rightarrow> mp_cfg \<Rightarrow> (parser \<Rightarrow> mp_node presult) \<Rightarrow> parser \<Rightarrow> mp_node presult" where
  "parse_unary_n 0 cf e p = Out"
| "parse_unary_n (Suc n) cf e p =
     (if check TOK_NOT p \<or> check TOK_MINUS p \<or> check TOK_PLUS p then
        (let op = t_kind (cur p)
         in pbind (node_new cf (skip p)) (\<lambda>u p1. pbind (parse_unary_n n cf e p1) (\<lambda>a p2. Ok (ND_UNARY op a) p2)))
      else parse_primary cf e p)"

definition parse_unary :: "mp_cfg \<Rightarrow> (parser \<Rightarrow> mp_node presult) \<Rightarrow> parser \<Rightarrow> mp_node presult" where
  "parse_unary cf e p = parse_unary_n (Suc (tokens_left p)) cf e p"

text \<open>The loop shared by \<open>parse_term\<close>, \<open>parse_arith\<close>, \<open>parse_and\<close> and \<open>parse_or\<close>.\<close>

fun left_loop :: "nat \<Rightarrow> mp_cfg \<Rightarrow> tok_kind list \<Rightarrow> (parser \<Rightarrow> mp_node presult) \<Rightarrow> mp_node \<Rightarrow> parser \<Rightarrow> mp_node presult" where
  "left_loop 0 cf ops sub left p = Out"
| "left_loop (Suc n) cf ops sub left p =
     (if t_kind (cur p) \<in> set ops then
        (let op = t_kind (cur p)
         in pbind (node_new cf (skip p)) (\<lambda>u p1. pbind (sub p1) (\<lambda>b p2.
              left_loop n cf ops sub (ND_BINOP op left b) p2)))
      else Ok left p)"

definition left_assoc :: "mp_cfg \<Rightarrow> tok_kind list \<Rightarrow> (parser \<Rightarrow> mp_node presult) \<Rightarrow> parser \<Rightarrow> mp_node presult" where
  "left_assoc cf ops sub p = pbind (sub p) (\<lambda>l p1. left_loop (Suc (tokens_left p1)) cf ops sub l p1)"

definition parse_term :: "mp_cfg \<Rightarrow> (parser \<Rightarrow> mp_node presult) \<Rightarrow> parser \<Rightarrow> mp_node presult" where
  "parse_term cf e p = left_assoc cf [TOK_STAR, TOK_SLASH, TOK_PERCENT] (parse_unary cf e) p"

definition parse_arith :: "mp_cfg \<Rightarrow> (parser \<Rightarrow> mp_node presult) \<Rightarrow> parser \<Rightarrow> mp_node presult" where
  "parse_arith cf e p = left_assoc cf [TOK_PLUS, TOK_MINUS] (parse_term cf e) p"

definition compare_ops :: "tok_kind list" where
  "compare_ops = [TOK_EQEQ, TOK_NE, TOK_LT, TOK_GT, TOK_LE, TOK_GE]"

definition parse_compare :: "mp_cfg \<Rightarrow> (parser \<Rightarrow> mp_node presult) \<Rightarrow> parser \<Rightarrow> mp_node presult" where
  "parse_compare cf e p =
     pbind (parse_arith cf e p) (\<lambda>l p1.
       if t_kind (cur p1) \<in> set compare_ops then
         (let op = t_kind (cur p1)
          in pbind (node_new cf (skip p1)) (\<lambda>u p2. pbind (parse_arith cf e p2) (\<lambda>r p3. Ok (ND_COMPARE op l r) p3)))
       else Ok l p1)"

definition parse_and :: "mp_cfg \<Rightarrow> (parser \<Rightarrow> mp_node presult) \<Rightarrow> parser \<Rightarrow> mp_node presult" where
  "parse_and cf e p = left_assoc cf [TOK_AND] (parse_compare cf e) p"

definition parse_or :: "mp_cfg \<Rightarrow> (parser \<Rightarrow> mp_node presult) \<Rightarrow> parser \<Rightarrow> mp_node presult" where
  "parse_or cf e p = left_assoc cf [TOK_OR] (parse_and cf e) p"

fun parse_expr_n :: "nat \<Rightarrow> mp_cfg \<Rightarrow> parser \<Rightarrow> mp_node presult" where
  "parse_expr_n 0 cf p = Out"
| "parse_expr_n (Suc n) cf p = parse_or cf (parse_expr_n n cf) p"

definition parse_expr :: "mp_cfg \<Rightarrow> parser \<Rightarrow> mp_node presult" where
  "parse_expr cf p = parse_expr_n (Suc (tokens_left p)) cf p"

section \<open>Statements\<close>

fun skip_newlines_n :: "nat \<Rightarrow> parser \<Rightarrow> unit presult" where
  "skip_newlines_n 0 p = Out"
| "skip_newlines_n (Suc n) p = (if check TOK_NEWLINE p then skip_newlines_n n (skip p) else Ok () p)"

definition skip_newlines :: "parser \<Rightarrow> unit presult" where
  "skip_newlines p = skip_newlines_n (Suc (tokens_left p)) p"

text \<open>The statements up to one of the kinds \<open>stops\<close>; a null statement with no message ends the list.\<close>

fun stmts_loop :: "nat \<Rightarrow> tok_kind list \<Rightarrow> (parser \<Rightarrow> mp_node presult) \<Rightarrow> parser \<Rightarrow> mp_node list presult" where
  "stmts_loop 0 stops st p = Out"
| "stmts_loop (Suc n) stops st p =
     pbind (skip_newlines p) (\<lambda>u p1.
       if t_kind (cur p1) \<in> set stops then Ok [] p1
       else case st p1 of
              Ok s p2 \<Rightarrow> pbind (stmts_loop n stops st p2) (\<lambda>ss p3. Ok (s # ss) p3)
            | Null p2 \<Rightarrow> if p_err p2 \<noteq> [] then Null p2 else Ok [] p2
            | Out \<Rightarrow> Out)"

definition parse_block :: "mp_cfg \<Rightarrow> (parser \<Rightarrow> mp_node presult) \<Rightarrow> parser \<Rightarrow> mp_node presult" where
  "parse_block cf st p =
     pbind (node_new cf p) (\<lambda>u p1.
       pbind (stmts_loop (Suc (tokens_left p1)) [TOK_DEDENT, TOK_EOF] st p1) (\<lambda>ss p2. Ok (ND_BLOCK ss) p2))"

definition parse_suite :: "mp_cfg \<Rightarrow> (parser \<Rightarrow> mp_node presult) \<Rightarrow> parser \<Rightarrow> mp_node presult" where
  "parse_suite cf st p =
     pbind (expect TOK_COLON (expected_char (CHR '':'')) p) (\<lambda>u p1.
       if check TOK_NEWLINE p1 then
         pbind (expect TOK_INDENT ''expected indent'' (skip p1)) (\<lambda>u p2.
           pbind (parse_block cf st p2) (\<lambda>b p3.
             pbind (expect TOK_DEDENT ''expected dedent'' p3) (\<lambda>u p4. Ok b p4)))
       else
         pbind (st p1) (\<lambda>s p2. pbind (node_new cf p2) (\<lambda>u p3. Ok (ND_BLOCK [s]) p3)))"

fun parse_if_body :: "nat \<Rightarrow> mp_cfg \<Rightarrow> (parser \<Rightarrow> mp_node presult) \<Rightarrow> parser \<Rightarrow> mp_node presult" where
  "parse_if_body 0 cf st p = Out"
| "parse_if_body (Suc n) cf st p =
     pbind (node_new cf p) (\<lambda>u p1. pbind (parse_expr cf p1) (\<lambda>c p2. pbind (parse_suite cf st p2) (\<lambda>b p3.
       pbind (skip_newlines p3) (\<lambda>u p4.
         if check TOK_ELIF p4 then
           pbind (parse_if_body n cf st (skip p4)) (\<lambda>r p5. Ok (ND_IF c b (Some r)) p5)
         else if check TOK_ELSE p4 then
           pbind (parse_suite cf st (skip p4)) (\<lambda>r p5. Ok (ND_IF c b (Some r)) p5)
         else Ok (ND_IF c b None) p4))))"

definition parse_for :: "mp_cfg \<Rightarrow> (parser \<Rightarrow> mp_node presult) \<Rightarrow> parser \<Rightarrow> mp_node presult" where
  "parse_for cf st p =
     pbind (node_new cf p) (\<lambda>u p1.
       let t = cur p1
       in pbind (expect TOK_NAME ''expected name in for'' p1) (\<lambda>u p2. pbind (copy_slice cf t p2) (\<lambda>s p3.
            pbind (expect TOK_IN (''expected '' @ [SQUOTE] @ ''in'' @ [SQUOTE]) p3) (\<lambda>u p4.
              pbind (parse_expr cf p4) (\<lambda>x p5. pbind (parse_suite cf st p5) (\<lambda>b p6. Ok (ND_FOR s x b) p6))))))"

fun parse_params :: "nat \<Rightarrow> mp_cfg \<Rightarrow> parser \<Rightarrow> string list presult" where
  "parse_params 0 cf p = Out"
| "parse_params (Suc n) cf p =
     (let t = cur p
      in pbind (expect TOK_NAME ''expected param'' p) (\<lambda>u p1. pbind (node_new cf p1) (\<lambda>u p2.
           pbind (copy_slice cf t p2) (\<lambda>s p3.
             if check TOK_COMMA p3 then pbind (parse_params n cf (skip p3)) (\<lambda>ss p4. Ok (s # ss) p4)
             else Ok [s] p3))))"

definition parse_def :: "mp_cfg \<Rightarrow> (parser \<Rightarrow> mp_node presult) \<Rightarrow> parser \<Rightarrow> mp_node presult" where
  "parse_def cf st p =
     pbind (node_new cf p) (\<lambda>u p1.
       let t = cur p1
       in pbind (expect TOK_NAME ''expected function name'' p1) (\<lambda>u p2. pbind (copy_slice cf t p2) (\<lambda>s p3.
            pbind (expect TOK_LPAREN (expected_char (CHR ''('')) p3) (\<lambda>u p4.
              pbind (if check TOK_RPAREN p4 then Ok [] p4 else parse_params (Suc (tokens_left p4)) cf p4) (\<lambda>ps p5.
                pbind (expect TOK_RPAREN (expected_char (CHR '')'')) p5) (\<lambda>u p6.
                  pbind (parse_suite cf st p6) (\<lambda>b p7. Ok (ND_FUNC s ps b) p7)))))))"

definition parse_return :: "mp_cfg \<Rightarrow> parser \<Rightarrow> mp_node presult" where
  "parse_return cf p =
     pbind (node_new cf p) (\<lambda>u p1.
       if \<not> check TOK_NEWLINE p1 \<and> \<not> check TOK_EOF p1 \<and> \<not> check TOK_DEDENT p1 then
         pbind (parse_expr cf p1) (\<lambda>x p2. Ok (ND_RETURN (Some x)) (match_opt TOK_NEWLINE p2))
       else Ok (ND_RETURN None) (match_opt TOK_NEWLINE p1))"

definition parse_import :: "mp_cfg \<Rightarrow> parser \<Rightarrow> mp_node presult" where
  "parse_import cf p =
     (let t = cur p
      in pbind (node_new cf p) (\<lambda>u p1. pbind (expect TOK_NAME ''expected module name'' p1) (\<lambda>u p2.
           pbind (copy_slice cf t p2) (\<lambda>s p3. Ok (ND_IMPORT s) (match_opt TOK_NEWLINE p3)))))"

definition parse_assign :: "mp_cfg \<Rightarrow> mp_token \<Rightarrow> parser \<Rightarrow> mp_node presult" where
  "parse_assign cf t p =
     pbind (node_new cf p) (\<lambda>u p1. pbind (copy_slice cf t p1) (\<lambda>s p2. pbind (node_new cf p2) (\<lambda>u p3.
       pbind (parse_expr cf p3) (\<lambda>x p4. Ok (ND_ASSIGN s x) (match_opt TOK_NEWLINE p4)))))"

definition parse_expr_stmt :: "mp_cfg \<Rightarrow> parser \<Rightarrow> mp_node presult" where
  "parse_expr_stmt cf p =
     pbind (parse_expr cf p) (\<lambda>x p1. pbind (node_new cf p1) (\<lambda>u p2. Ok (ND_EXPR_STMT x) (match_opt TOK_NEWLINE p2)))"

definition parse_simple :: "mp_cfg \<Rightarrow> parser \<Rightarrow> mp_node presult" where
  "parse_simple cf p =
     (if check TOK_NAME p \<and> check TOK_EQ (skip p) then parse_assign cf (cur p) (skip (skip p))
      else parse_expr_stmt cf p)"

definition parse_stmt_body :: "mp_cfg \<Rightarrow> (parser \<Rightarrow> mp_node presult) \<Rightarrow> parser \<Rightarrow> mp_node presult" where
  "parse_stmt_body cf st p =
     pbind (skip_newlines p) (\<lambda>u p.
       if check TOK_EOF p \<or> check TOK_DEDENT p then Null p
       else if check TOK_PASS p then
         (case node_new cf (skip p) of
            Ok u p1 \<Rightarrow> Ok ND_PASS (match_opt TOK_NEWLINE p1)
          | Null p1 \<Rightarrow> Null (match_opt TOK_NEWLINE p1)
          | Out \<Rightarrow> Out)
       else if check TOK_RETURN p then parse_return cf (skip p)
       else if check TOK_IF p then parse_if_body (Suc (tokens_left p)) cf st (skip p)
       else if check TOK_WHILE p then
         pbind (node_new cf (skip p)) (\<lambda>u p1. pbind (parse_expr cf p1) (\<lambda>c p2.
           pbind (parse_suite cf st p2) (\<lambda>b p3. Ok (ND_WHILE c b) p3)))
       else if check TOK_FOR p then parse_for cf st (skip p)
       else if check TOK_DEF p then parse_def cf st (skip p)
       else if check TOK_IMPORT p then parse_import cf (skip p)
       else parse_simple cf p)"

fun parse_stmt_n :: "nat \<Rightarrow> mp_cfg \<Rightarrow> parser \<Rightarrow> mp_node presult" where
  "parse_stmt_n 0 cf p = Out"
| "parse_stmt_n (Suc n) cf p = parse_stmt_body cf (parse_stmt_n n cf) p"

definition parse_stmt :: "mp_cfg \<Rightarrow> parser \<Rightarrow> mp_node presult" where
  "parse_stmt cf p = parse_stmt_n (Suc (tokens_left p)) cf p"

definition parser_init :: "lexer \<Rightarrow> nat \<Rightarrow> parser" where
  "parser_init lx heap = \<lparr>p_toks = lx_toks lx, p_src = lx_src lx, p_pos = 0, p_err = [], p_heap = heap\<rparr>"

definition mp_parse :: "mp_cfg \<Rightarrow> nat \<Rightarrow> lexer \<Rightarrow> mp_node presult" where
  "mp_parse cf heap lx =
     pbind (node_new cf (parser_init lx heap)) (\<lambda>u p.
       pbind (stmts_loop (Suc (tokens_left p)) [TOK_EOF] (parse_stmt cf) p) (\<lambda>ss p1. Ok (ND_MODULE ss) p1))"

section \<open>The parser returns\<close>

text \<open>
  \<open>at T m p\<close>: the parser stands on one of the last \<open>m\<close> tokens of \<open>T\<close>, which ends in \<open>EOF\<close>.
  \<open>gives T n m r\<close>: the call came back; a null result left the parser within the last \<open>n\<close>
  tokens, a node within the last \<open>m\<close>.
\<close>

definition at :: "mp_token list \<Rightarrow> nat \<Rightarrow> parser \<Rightarrow> bool" where
  "at T m p \<longleftrightarrow>
     p_toks p = T \<and> T \<noteq> [] \<and> t_kind (last T) = TOK_EOF \<and> p_pos p < length T \<and> length T - p_pos p \<le> m"

definition gives :: "mp_token list \<Rightarrow> nat \<Rightarrow> nat \<Rightarrow> 'a presult \<Rightarrow> bool" where
  "gives T n m r \<longleftrightarrow> (case r of Out \<Rightarrow> False | Null q \<Rightarrow> at T n q | Ok a q \<Rightarrow> at T m q)"

text \<open>A callee that may be called on fewer than \<open>K\<close> tokens and takes at least \<open>d\<close> of them.\<close>

definition calls :: "mp_token list \<Rightarrow> nat \<Rightarrow> nat \<Rightarrow> (parser \<Rightarrow> 'a presult) \<Rightarrow> bool" where
  "calls T K d f \<longleftrightarrow> (\<forall>m p. at T m p \<longrightarrow> m < K \<longrightarrow> gives T m (m - d) (f p))"

lemma callsD: "calls T K d f \<Longrightarrow> at T m p \<Longrightarrow> m < K \<Longrightarrow> gives T m (m - d) (f p)"
  by (simp add: calls_def)

lemma callsI: "(\<And>m p. at T m p \<Longrightarrow> m < K \<Longrightarrow> 0 < m \<Longrightarrow> gives T m (m - d) (f p)) \<Longrightarrow> calls T K d f"
  by (auto simp: calls_def at_def)

lemma at_pos: "at T m p \<Longrightarrow> 0 < m"
  by (auto simp: at_def)

lemma at_mono: "at T m p \<Longrightarrow> m \<le> n \<Longrightarrow> at T n p"
  by (simp add: at_def)

lemma at_left: "at T m p \<Longrightarrow> tokens_left p \<le> m" "at T m p \<Longrightarrow> at T (tokens_left p) p"
  by (simp_all add: at_def tokens_left_def)

lemma at_skip:
  assumes "at T m p" and "check k p" and "k \<noteq> TOK_EOF"
  shows "at T (m - 1) (skip p)"
proof -
  have "p_pos p \<noteq> length T - 1"
    using assms by (auto simp: check_def cur_def at_def last_conv_nth)
  moreover have "p_pos p < length T" using assms(1) by (simp add: at_def)
  ultimately have "Suc (p_pos p) < length T" by linarith
  with assms(1) show ?thesis by (auto simp: at_def skip_def)
qed

lemma at_skip2: "at T m p \<Longrightarrow> check k p \<Longrightarrow> k \<noteq> TOK_EOF \<Longrightarrow> 1 < m"
  using at_skip at_pos by fastforce

lemma at_match_opt: "at T m p \<Longrightarrow> at T m (match_opt TOK_NEWLINE p)"
  using at_mono [OF at_skip [of T m p TOK_NEWLINE], of m] by (simp add: match_opt_def)

lemma at_fields [simp]: "at T m (p\<lparr>p_err := e\<rparr>) = at T m p" "at T m (p\<lparr>p_heap := h\<rparr>) = at T m p"
  by (simp_all add: at_def)

lemma gives_simps [simp]:
  "gives T n m (Ok a q) = at T m q" "gives T n m (Null q) = at T n q" "gives T n m Out = False"
  by (simp_all add: gives_def)

lemma gives_bind:
  assumes "gives T n' m r" and "n' \<le> n" and "\<And>a q. at T m q \<Longrightarrow> gives T n l (f a q)"
  shows "gives T n l (pbind r f)"
  using assms at_mono [of T n' _ n] by (cases r) auto

lemma gives_mono: "gives T n m r \<Longrightarrow> n \<le> n' \<Longrightarrow> m \<le> m' \<Longrightarrow> gives T n' m' r"
  by (auto simp: gives_def intro: at_mono split: presult.splits)

lemma gives_node: "at T m p \<Longrightarrow> gives T m m (node_new cf p)"
  by (auto simp: node_new_def heap_take_def split: option.split)

lemma gives_slice: "at T m p \<Longrightarrow> gives T m m (copy_slice cf t p)" "at T m p \<Longrightarrow> gives T m m (copy_string_lit cf t p)"
  by (auto simp: copy_slice_def copy_string_lit_def heap_take_def split: option.split)

lemma gives_expect: "at T m p \<Longrightarrow> k \<noteq> TOK_EOF \<Longrightarrow> gives T m (m - 1) (expect k msg p)"
  using at_skip [of T m p k] by (auto simp: expect_def)

lemmas gives_prims = gives_node gives_slice gives_expect

lemma gives_if: "(c \<Longrightarrow> gives T n m a) \<Longrightarrow> (\<not> c \<Longrightarrow> gives T n m b) \<Longrightarrow> gives T n m (if c then a else b)"
  by simp

text \<open>A loop started with a count above the tokens left.\<close>

lemma gives_fuel:
  assumes "at T m p" and "m \<le> K"
    and "\<And>l. at T l p \<Longrightarrow> l \<le> K \<Longrightarrow> l \<le> Suc (tokens_left p) \<Longrightarrow> gives T l (l - d) r"
  shows "gives T m (m - d) r"
  using assms(3) [of "tokens_left p"] at_left [OF assms(1)] assms(2) by (auto elim!: gives_mono)

lemma gives_call: "calls T K d f \<Longrightarrow> at T m p \<Longrightarrow> m < K \<Longrightarrow> gives T m (m - d) (f p)"
  by (rule callsD)

lemma gives_map: "gives T n' m' r \<Longrightarrow> n' \<le> n \<Longrightarrow> m' \<le> m \<Longrightarrow> gives T n m (pbind r (\<lambda>a p. Ok (g a) p))"
  by (cases r) (auto intro: at_mono)

lemma gives_items:
  "calls T K 1 e \<Longrightarrow> at T m p \<Longrightarrow> m < K \<Longrightarrow> m \<le> n \<Longrightarrow> gives T m (m - 1) (parse_items n e p)"
proof (induction n arbitrary: p m)
  case 0
  then show ?case using at_pos by fastforce
next
  case (Suc n)
  show ?case unfolding parse_items.simps
  proof (rule gives_bind [OF gives_call [OF Suc.prems(1-3)]])
    fix a q assume q: "at T (m - 1) q"
    show "gives T m (m - 1) (if check TOK_COMMA q then pbind (parse_items n e (skip q)) (\<lambda>els p2. Ok (a # els) p2) else Ok [a] q)"
    proof (cases "check TOK_COMMA q")
      case True
      have s: "at T (m - 1 - 1) (skip q)" by (rule at_skip [OF q True]) simp
      have "gives T (m - 1 - 1) (m - 1 - 1 - 1) (parse_items n e (skip q))"
        by (rule Suc.IH [OF Suc.prems(1) s]) (use Suc.prems in auto)
      then have "gives T m (m - 1) (pbind (parse_items n e (skip q)) (\<lambda>els p2. Ok (a # els) p2))"
        by (rule gives_map) auto
      with True show ?thesis by simp
    qed (use q in simp)
  qed simp
qed

declare parse_items.simps [simp del]

lemma gives_until:
  assumes "calls T K 1 e" and "at T m p" and "m < K" and "close \<noteq> TOK_EOF"
  shows "gives T m (m - 1) (parse_until close msg e p)"
  unfolding parse_until_def
proof (rule gives_bind)
  show "gives T m m (if check close p then Ok [] p else parse_items (Suc (tokens_left p)) e p)"
  proof (cases "check close p")
    case False
    have "gives T m (m - 1) (parse_items (Suc (tokens_left p)) e p)"
      by (rule gives_fuel [OF assms(2), of "K - 1"]) (use assms(3) in \<open>auto intro!: gives_items [OF assms(1), simplified]\<close>)
    then have "gives T m m (parse_items (Suc (tokens_left p)) e p)" by (rule gives_mono) auto
    with False show ?thesis by simp
  qed (use assms(2) in simp)
  fix a q assume "at T m q"
  from gives_expect [OF this assms(4)] show "gives T m (m - 1) (pbind (expect close msg q) (\<lambda>u p2. Ok a p2))"
    by (auto intro!: gives_bind)
qed simp

lemma gives_index:
  "calls T K 1 e \<Longrightarrow> at T m p \<Longrightarrow> m \<le> K \<Longrightarrow> m \<le> n \<Longrightarrow> gives T m m (index_loop n cf e a p)"
proof (induction n arbitrary: p a m)
  case 0
  then show ?case using at_pos by fastforce
next
  case (Suc n)
  show ?case
  proof (cases "check TOK_LBRACK p")
    case True
    have s: "at T (m - 1) (skip p)" by (rule at_skip [OF Suc.prems(2) True]) simp
    have m: "1 < m" by (rule at_skip2 [OF Suc.prems(2) True]) simp
    have "gives T m m (pbind (node_new cf (skip p)) (\<lambda>u p1. pbind (e p1) (\<lambda>b p2.
          pbind (expect TOK_RBRACK (expected_char (CHR '']'')) p2) (\<lambda>u p3. index_loop n cf e (ND_INDEX a b) p3))))"
    proof (rule gives_bind [OF gives_node [OF s]], simp)
      fix u p1 assume p1: "at T (m - 1) p1"
      show "gives T m m (pbind (e p1) (\<lambda>b p2.
          pbind (expect TOK_RBRACK (expected_char (CHR '']'')) p2) (\<lambda>u p3. index_loop n cf e (ND_INDEX a b) p3)))"
      proof (rule gives_bind [OF gives_call [OF Suc.prems(1) p1]])
        fix b p2 assume p2: "at T (m - 1 - 1) p2"
        show "gives T m m (pbind (expect TOK_RBRACK (expected_char (CHR '']'')) p2) (\<lambda>u p3. index_loop n cf e (ND_INDEX a b) p3))"
        proof (rule gives_bind [OF gives_expect [OF p2]])
          fix u p3 assume p3: "at T (m - 1 - 1 - 1) p3"
          have "gives T (m - 1 - 1 - 1) (m - 1 - 1 - 1) (index_loop n cf e (ND_INDEX a b) p3)"
            by (rule Suc.IH [OF Suc.prems(1) p3]) (use Suc.prems in auto)
          then show "gives T m m (index_loop n cf e (ND_INDEX a b) p3)" by (rule gives_mono) auto
        qed simp_all
      qed (use Suc.prems m in auto)
    qed
    with True show ?thesis by simp
  qed (use Suc.prems in simp)
qed

declare index_loop.simps [simp del]

lemma gives_atom:
  assumes "calls T K 1 e" and p: "at T m p" and "m \<le> K"
  shows "gives T m (m - 1) (parse_atom cf e p)"
proof -
  have sub: "gives T m (m - 1) (pbind (node_new cf (skip p)) f)"
    if "check k p" "k \<noteq> TOK_EOF" "\<And>u q. at T (m - 1) q \<Longrightarrow> 1 < m \<Longrightarrow> gives T m (m - 1) (f u q)" for k and f :: "unit \<Rightarrow> parser \<Rightarrow> mp_node presult"
    using at_skip2 [OF p that(1,2)] that(3) by (intro gives_bind [OF gives_node [OF at_skip [OF p that(1,2)]]]) auto
  have until: "gives T m (m - 1) (pbind (parse_until k msg e q) (\<lambda>els p2. Ok (g els) p2))"
    if "at T (m - 1) q" "1 < m" "k \<noteq> TOK_EOF" for k msg q and g :: "mp_node list \<Rightarrow> mp_node"
    by (rule gives_map [OF gives_until [OF assms(1) that(1) _ that(3)]]) (use that assms(3) in auto)
  have name: "gives T m (m - 1) (pbind (copy_slice cf t q) (\<lambda>s p2.
      if check TOK_LPAREN p2 then
        pbind (node_new cf (skip p2)) (\<lambda>u p3.
          pbind (parse_until TOK_RPAREN (expected_char (CHR '')'')) e p3) (\<lambda>args p4. Ok (ND_CALL s args) p4))
      else Ok (ND_NAME s) p2))" if q: "at T (m - 1) q" "1 < m" for q t
  proof (rule gives_bind [OF gives_slice(1) [OF q(1)]])
    fix s r assume r: "at T (m - 1) r"
    show "gives T m (m - 1) (if check TOK_LPAREN r then
        pbind (node_new cf (skip r)) (\<lambda>u p3.
          pbind (parse_until TOK_RPAREN (expected_char (CHR '')'')) e p3) (\<lambda>args p4. Ok (ND_CALL s args) p4))
      else Ok (ND_NAME s) r)"
    proof (cases "check TOK_LPAREN r")
      case True
      have sk: "at T (m - 1 - 1) (skip r)" by (rule at_skip [OF r True]) simp
      have "gives T m (m - 1) (pbind (node_new cf (skip r)) (\<lambda>u p3.
          pbind (parse_until TOK_RPAREN (expected_char (CHR '')'')) e p3) (\<lambda>args p4. Ok (ND_CALL s args) p4)))"
      proof (rule gives_bind [OF gives_node [OF sk]])
        fix u p3 assume p3: "at T (m - 1 - 1) p3"
        show "gives T m (m - 1) (pbind (parse_until TOK_RPAREN (expected_char (CHR '')'')) e p3) (\<lambda>args p4. Ok (ND_CALL s args) p4))"
          by (rule gives_map [OF gives_until [OF assms(1) p3]]) (use assms(3) q(2) in auto)
      qed simp
      with True show ?thesis by simp
    qed (use r in simp)
  qed simp
  have paren: "gives T m (m - 1) (pbind (e (skip p)) (\<lambda>x p1. pbind (expect TOK_RPAREN (expected_char (CHR '')'')) p1) (\<lambda>u p2. Ok x p2)))"
    if "check TOK_LPAREN p"
  proof (rule gives_bind [OF gives_call [OF assms(1) at_skip [OF p that]]])
    fix x q assume "at T (m - 1 - 1) q"
    from gives_expect [OF this, of TOK_RPAREN]
    show "gives T m (m - 1) (pbind (expect TOK_RPAREN (expected_char (CHR '')'')) q) (\<lambda>u p2. Ok x p2))"
      by (rule gives_map) auto
  qed (use at_skip2 [OF p that] assms(3) in auto)
  have str: "gives T m (m - 1) (pbind (copy_string_lit cf t q) (\<lambda>s p2. Ok (ND_STR s) p2))"
    if "at T (m - 1) q" for q t
    by (rule gives_map [OF gives_slice(2) [OF that]]) auto
  show ?thesis
    unfolding parse_atom_def Let_def
    apply (intro gives_if)
            apply (erule sub, simp, simp)
           apply (erule sub, simp, erule str)
          apply (erule sub, simp, simp)
         apply (erule sub, simp, simp)
        apply (erule sub, simp, simp)
       apply (erule sub, simp, rule until, assumption, assumption, simp)
      apply (erule sub, simp, erule name, assumption)
     apply (erule paren)
    apply (simp add: p)
    done
qed

lemma gives_primary:
  assumes "calls T K 1 e" and "at T m p" and "m \<le> K"
  shows "gives T m (m - 1) (parse_primary cf e p)"
  unfolding parse_primary_def
proof (rule gives_bind [OF gives_atom [OF assms]])
  fix a q assume q: "at T (m - 1) q"
  have "gives T (m - 1) (m - 1 - 0) (index_loop (Suc (tokens_left q)) cf e a q)"
    by (rule gives_fuel [OF q, of K]) (use assms(3) gives_index [OF assms(1)] in auto)
  then show "gives T m (m - 1) (index_loop (Suc (tokens_left q)) cf e a q)"
    by (rule gives_mono) auto
qed simp

lemma gives_unary_n:
  "calls T K 1 e \<Longrightarrow> at T m p \<Longrightarrow> m \<le> K \<Longrightarrow> m \<le> n \<Longrightarrow> gives T m (m - 1) (parse_unary_n n cf e p)"
proof (induction n arbitrary: p m)
  case 0
  then show ?case using at_pos by fastforce
next
  case (Suc n)
  let ?op = "t_kind (cur p)"
  show ?case
  proof (cases "check TOK_NOT p \<or> check TOK_MINUS p \<or> check TOK_PLUS p")
    case True
    then have s: "at T (m - 1) (skip p)" using at_skip [OF Suc.prems(2)] by auto
    have "gives T m (m - 1) (pbind (node_new cf (skip p)) (\<lambda>u p1. pbind (parse_unary_n n cf e p1) (\<lambda>a p2. Ok (ND_UNARY ?op a) p2)))"
    proof (rule gives_bind [OF gives_node [OF s]])
      fix u p1 assume p1: "at T (m - 1) p1"
      have "gives T (m - 1) (m - 1 - 1) (parse_unary_n n cf e p1)"
        by (rule Suc.IH [OF Suc.prems(1) p1]) (use Suc.prems in auto)
      then show "gives T m (m - 1) (pbind (parse_unary_n n cf e p1) (\<lambda>a p2. Ok (ND_UNARY ?op a) p2))"
        by (rule gives_map) auto
    qed simp
    with True show ?thesis by (simp add: Let_def)
  next
    case False
    then show ?thesis using gives_primary [OF Suc.prems(1-3)] by simp
  qed
qed

declare parse_unary_n.simps [simp del]

lemma gives_unary:
  assumes "calls T K 1 e" and "at T m p" and "m \<le> K"
  shows "gives T m (m - 1) (parse_unary cf e p)"
  unfolding parse_unary_def
  by (rule gives_fuel [OF assms(2,3)]) (rule gives_unary_n [OF assms(1)])

lemma gives_left_loop:
  "calls T K 1 sub \<Longrightarrow> at T m p \<Longrightarrow> m \<le> K \<Longrightarrow> m \<le> n \<Longrightarrow> TOK_EOF \<notin> set ops \<Longrightarrow> gives T m m (left_loop n cf ops sub a p)"
proof (induction n arbitrary: p a m)
  case 0
  then show ?case using at_pos by fastforce
next
  case (Suc n)
  let ?op = "t_kind (cur p)"
  show ?case
  proof (cases "?op \<in> set ops")
    case True
    then have ck: "check ?op p" "?op \<noteq> TOK_EOF" using Suc.prems(5) by (auto simp: check_def)
    note s = at_skip [OF Suc.prems(2) ck] and m = at_skip2 [OF Suc.prems(2) ck]
    have "gives T m m (pbind (node_new cf (skip p)) (\<lambda>u p1. pbind (sub p1) (\<lambda>b p2. left_loop n cf ops sub (ND_BINOP ?op a b) p2)))"
    proof (rule gives_bind [OF gives_node [OF s]])
      fix u p1 assume p1: "at T (m - 1) p1"
      show "gives T m m (pbind (sub p1) (\<lambda>b p2. left_loop n cf ops sub (ND_BINOP ?op a b) p2))"
      proof (rule gives_bind [OF gives_call [OF Suc.prems(1) p1]])
        fix b p2 assume p2: "at T (m - 1 - 1) p2"
        have "gives T (m - 1 - 1) (m - 1 - 1) (left_loop n cf ops sub (ND_BINOP ?op a b) p2)"
          by (rule Suc.IH [OF Suc.prems(1) p2]) (use Suc.prems in auto)
        then show "gives T m m (left_loop n cf ops sub (ND_BINOP ?op a b) p2)" by (rule gives_mono) auto
      qed (use Suc.prems m in auto)
    qed simp
    with True show ?thesis by (simp add: Let_def)
  qed (use Suc.prems in simp)
qed

declare left_loop.simps [simp del]

lemma gives_left_assoc:
  assumes "calls T K 1 sub" and "TOK_EOF \<notin> set ops"
  shows "calls T K 1 (left_assoc cf ops sub)"
proof (rule callsI)
  fix m p assume p: "at T m p" "m < K" "0 < m"
  show "gives T m (m - 1) (left_assoc cf ops sub p)"
    unfolding left_assoc_def
  proof (rule gives_bind [OF gives_call [OF assms(1) p(1,2)]])
    fix a q assume q: "at T (m - 1) q"
    have "gives T (m - 1) (m - 1 - 0) (left_loop (Suc (tokens_left q)) cf ops sub a q)"
      by (rule gives_fuel [OF q, of K]) (use p(2) gives_left_loop [OF assms(1) _ _ _ assms(2)] in auto)
    then show "gives T m (m - 1) (left_loop (Suc (tokens_left q)) cf ops sub a q)"
      by (rule gives_mono) auto
  qed simp
qed

lemma calls_compare:
  assumes "calls T K 1 (parse_arith cf e)"
  shows "calls T K 1 (parse_compare cf e)"
proof (rule callsI)
  fix m p assume p: "at T m p" "m < K" "0 < m"
  show "gives T m (m - 1) (parse_compare cf e p)"
    unfolding parse_compare_def
  proof (rule gives_bind [OF gives_call [OF assms p(1,2)]])
    fix l q assume q: "at T (m - 1) q"
    let ?op = "t_kind (cur q)"
    show "gives T m (m - 1) (if ?op \<in> set compare_ops then
         (let op = ?op
          in pbind (node_new cf (skip q)) (\<lambda>u p2. pbind (parse_arith cf e p2) (\<lambda>r p3. Ok (ND_COMPARE op l r) p3)))
       else Ok l q)"
    proof (cases "?op \<in> set compare_ops")
      case True
      then have ck: "check ?op q" "?op \<noteq> TOK_EOF" by (auto simp: check_def compare_ops_def)
      have "gives T m (m - 1) (pbind (node_new cf (skip q)) (\<lambda>u p2. pbind (parse_arith cf e p2) (\<lambda>r p3. Ok (ND_COMPARE ?op l r) p3)))"
      proof (rule gives_bind [OF gives_node [OF at_skip [OF q ck]]])
        fix u p2 assume p2: "at T (m - 1 - 1) p2"
        show "gives T m (m - 1) (pbind (parse_arith cf e p2) (\<lambda>r p3. Ok (ND_COMPARE ?op l r) p3))"
          by (rule gives_map [OF gives_call [OF assms p2]]) (use p(2) in auto)
      qed simp
      with True show ?thesis by (simp add: Let_def)
    qed (use q in simp)
  qed simp
qed

lemma calls_or:
  assumes "calls T K 1 e"
  shows "calls T (Suc K) 1 (parse_or cf e)"
proof -
  have u: "calls T (Suc K) 1 (parse_unary cf e)"
    by (rule callsI) (use gives_unary [OF assms] in auto)
  have t: "calls T (Suc K) 1 (parse_term cf e)"
    using gives_left_assoc [OF u, of "[TOK_STAR, TOK_SLASH, TOK_PERCENT]" cf] by (simp add: parse_term_def calls_def)
  have a: "calls T (Suc K) 1 (parse_arith cf e)"
    using gives_left_assoc [OF t, of "[TOK_PLUS, TOK_MINUS]" cf] by (simp add: parse_arith_def calls_def)
  have an: "calls T (Suc K) 1 (parse_and cf e)"
    using gives_left_assoc [OF calls_compare [OF a], of "[TOK_AND]" cf] by (simp add: parse_and_def calls_def)
  show ?thesis
    using gives_left_assoc [OF an, of "[TOK_OR]" cf] by (simp add: parse_or_def calls_def)
qed

lemma calls_expr_n: "calls T n 1 (parse_expr_n n cf)"
proof (induction n)
  case 0
  show ?case by (simp add: calls_def)
next
  case (Suc n)
  from calls_or [OF this, of cf] show ?case by (simp add: calls_def)
qed

lemma gives_expr: "at T m p \<Longrightarrow> gives T m (m - 1) (parse_expr cf p)"
  using callsD [OF calls_expr_n, of T "tokens_left p" p "Suc (tokens_left p)" cf] at_left [of T m p]
  by (auto simp: parse_expr_def elim!: gives_mono)

lemma gives_let: "gives T n m (f x) \<Longrightarrow> gives T n m (let y = x in f y)"
  by simp

lemma gives_skip_newlines_n:
  "at T m p \<Longrightarrow> m \<le> n \<Longrightarrow> gives T m m (skip_newlines_n n p)"
proof (induction n arbitrary: m p)
  case 0
  then show ?case using at_pos by fastforce
next
  case (Suc n)
  show ?case
  proof (cases "check TOK_NEWLINE p")
    case True
    have s: "at T (m - 1) (skip p)" by (rule at_skip [OF Suc.prems(1) True]) simp
    have "gives T (m - 1) (m - 1) (skip_newlines_n n (skip p))" by (rule Suc.IH [OF s]) (use Suc.prems in auto)
    then have "gives T m m (skip_newlines_n n (skip p))" by (rule gives_mono) auto
    with True show ?thesis by simp
  qed (use Suc.prems in simp)
qed

declare skip_newlines_n.simps [simp del]

lemma gives_skip_newlines:
  assumes "at T m p"
  shows "gives T m m (skip_newlines p)"
proof -
  have "gives T m (m - 0) (skip_newlines p)"
    unfolding skip_newlines_def
    by (rule gives_fuel [OF assms order_refl]) (use gives_skip_newlines_n in simp)
  then show ?thesis by simp
qed

lemma gives_stmts:
  "calls T K 1 st \<Longrightarrow> at T m p \<Longrightarrow> m < K \<Longrightarrow> m \<le> n \<Longrightarrow> gives T m m (stmts_loop n stops st p)"
proof (induction n arbitrary: m p)
  case 0
  then show ?case using at_pos by fastforce
next
  case (Suc n)
  show ?case unfolding stmts_loop.simps
  proof (rule gives_bind [OF gives_skip_newlines [OF Suc.prems(2)]])
    fix u q assume q: "at T m q"
    note st = gives_call [OF Suc.prems(1) q Suc.prems(3)]
    show "gives T m m (if t_kind (cur q) \<in> set stops then Ok [] q
       else case st q of
              Ok s p2 \<Rightarrow> pbind (stmts_loop n stops st p2) (\<lambda>ss p3. Ok (s # ss) p3)
            | Null p2 \<Rightarrow> if p_err p2 \<noteq> [] then Null p2 else Ok [] p2
            | Out \<Rightarrow> Out)"
    proof (cases "st q")
      case (Ok s r)
      with st have r: "at T (m - 1) r" by simp
      have "gives T (m - 1) (m - 1) (stmts_loop n stops st r)"
        by (rule Suc.IH [OF Suc.prems(1) r]) (use Suc.prems in auto)
      then have "gives T m m (pbind (stmts_loop n stops st r) (\<lambda>ss p3. Ok (s # ss) p3))"
        by (rule gives_map) auto
      with Ok q show ?thesis by simp
    qed (use st q in auto)
  qed simp
qed

declare stmts_loop.simps [simp del]

lemma gives_block:
  assumes "calls T K 1 st" and "at T m p" and "m < K"
  shows "gives T m m (parse_block cf st p)"
  unfolding parse_block_def
proof (rule gives_bind [OF gives_node [OF assms(2)]])
  fix u q assume q: "at T m q"
  have "gives T m (m - 0) (stmts_loop (Suc (tokens_left q)) [TOK_DEDENT, TOK_EOF] st q)"
    by (rule gives_fuel [OF q, of "K - 1"]) (use assms(3) gives_stmts [OF assms(1)] at_pos [OF q] in auto)
  then show "gives T m m (pbind (stmts_loop (Suc (tokens_left q)) [TOK_DEDENT, TOK_EOF] st q) (\<lambda>ss p2. Ok (ND_BLOCK ss) p2))"
    by (rule gives_map) auto
qed simp

lemma gives_suite:
  assumes "calls T K 1 st" and p: "at T m p" and "m \<le> K"
  shows "gives T m (m - 1) (parse_suite cf st p)"
  unfolding parse_suite_def
proof (rule gives_bind [OF gives_expect [OF p]])
  fix u p1 assume p1: "at T (m - 1) p1"
  note m = at_pos [OF p]
  have less: "m - 1 < K" "m - 1 - 1 < K" using m assms(3) by auto
  show "gives T m (m - 1) (if check TOK_NEWLINE p1 then
         pbind (expect TOK_INDENT ''expected indent'' (skip p1)) (\<lambda>u p2.
           pbind (parse_block cf st p2) (\<lambda>b p3.
             pbind (expect TOK_DEDENT ''expected dedent'' p3) (\<lambda>u p4. Ok b p4)))
       else pbind (st p1) (\<lambda>s p2. pbind (node_new cf p2) (\<lambda>u p3. Ok (ND_BLOCK [s]) p3)))"
  proof (intro gives_if)
    assume nl: "check TOK_NEWLINE p1"
    note s = at_skip [OF p1 nl]
    show "gives T m (m - 1) (pbind (expect TOK_INDENT ''expected indent'' (skip p1)) (\<lambda>u p2.
           pbind (parse_block cf st p2) (\<lambda>b p3.
             pbind (expect TOK_DEDENT ''expected dedent'' p3) (\<lambda>u p4. Ok b p4))))"
    proof (rule gives_bind [OF gives_expect [OF s]])
      fix u p2 assume p2: "at T (m - 1 - 1 - 1) p2"
      show "gives T m (m - 1) (pbind (parse_block cf st p2) (\<lambda>b p3. pbind (expect TOK_DEDENT ''expected dedent'' p3) (\<lambda>u p4. Ok b p4)))"
      proof (rule gives_bind [OF gives_block [OF assms(1) p2]])
        fix b p3 assume p3: "at T (m - 1 - 1 - 1) p3"
        show "gives T m (m - 1) (pbind (expect TOK_DEDENT ''expected dedent'' p3) (\<lambda>u p4. Ok b p4))"
          by (rule gives_map [OF gives_expect [OF p3]]) auto
      qed (use less in auto)
    qed simp_all
  next
    show "gives T m (m - 1) (pbind (st p1) (\<lambda>s p2. pbind (node_new cf p2) (\<lambda>u p3. Ok (ND_BLOCK [s]) p3)))"
    proof (rule gives_bind [OF gives_call [OF assms(1) p1 less(1)]])
      fix s p2 assume p2: "at T (m - 1 - 1) p2"
      show "gives T m (m - 1) (pbind (node_new cf p2) (\<lambda>u p3. Ok (ND_BLOCK [s]) p3))"
        by (rule gives_map [OF gives_node [OF p2]]) auto
    qed simp
  qed
qed simp_all

lemma gives_if_body:
  "calls T K 1 st \<Longrightarrow> at T m p \<Longrightarrow> m \<le> K \<Longrightarrow> m \<le> n \<Longrightarrow> gives T m (m - 1) (parse_if_body n cf st p)"
proof (induction n arbitrary: m p)
  case 0
  then show ?case using at_pos by fastforce
next
  case (Suc n)
  show ?case unfolding parse_if_body.simps
  proof (rule gives_bind [OF gives_node [OF Suc.prems(2)] order_refl])
    fix u p1 assume p1: "at T m p1"
    show "gives T m (m - 1) (pbind (parse_expr cf p1) (\<lambda>c p2. pbind (parse_suite cf st p2) (\<lambda>b p3.
       pbind (skip_newlines p3) (\<lambda>u p4.
         if check TOK_ELIF p4 then
           pbind (parse_if_body n cf st (skip p4)) (\<lambda>r p5. Ok (ND_IF c b (Some r)) p5)
         else if check TOK_ELSE p4 then
           pbind (parse_suite cf st (skip p4)) (\<lambda>r p5. Ok (ND_IF c b (Some r)) p5)
         else Ok (ND_IF c b None) p4))))"
    proof (rule gives_bind [OF gives_expr [OF p1] order_refl])
      fix c p2 assume p2: "at T (m - 1) p2"
      have su: "gives T (m - 1) (m - 1 - 1) (parse_suite cf st p2)"
        by (rule gives_suite [OF Suc.prems(1) p2]) (use Suc.prems in auto)
      show "gives T m (m - 1) (pbind (parse_suite cf st p2) (\<lambda>b p3.
       pbind (skip_newlines p3) (\<lambda>u p4.
         if check TOK_ELIF p4 then
           pbind (parse_if_body n cf st (skip p4)) (\<lambda>r p5. Ok (ND_IF c b (Some r)) p5)
         else if check TOK_ELSE p4 then
           pbind (parse_suite cf st (skip p4)) (\<lambda>r p5. Ok (ND_IF c b (Some r)) p5)
         else Ok (ND_IF c b None) p4)))"
      proof (rule gives_bind [OF su])
        fix b p3 assume p3: "at T (m - 1 - 1) p3"
        show "gives T m (m - 1) (pbind (skip_newlines p3) (\<lambda>u p4.
         if check TOK_ELIF p4 then
           pbind (parse_if_body n cf st (skip p4)) (\<lambda>r p5. Ok (ND_IF c b (Some r)) p5)
         else if check TOK_ELSE p4 then
           pbind (parse_suite cf st (skip p4)) (\<lambda>r p5. Ok (ND_IF c b (Some r)) p5)
         else Ok (ND_IF c b None) p4))"
        proof (rule gives_bind [OF gives_skip_newlines [OF p3]])
          fix u p4 assume p4: "at T (m - 1 - 1) p4"
          show "gives T m (m - 1) (if check TOK_ELIF p4 then
             pbind (parse_if_body n cf st (skip p4)) (\<lambda>r p5. Ok (ND_IF c b (Some r)) p5)
           else if check TOK_ELSE p4 then
             pbind (parse_suite cf st (skip p4)) (\<lambda>r p5. Ok (ND_IF c b (Some r)) p5)
           else Ok (ND_IF c b None) p4)"
          proof (intro gives_if)
            assume "check TOK_ELIF p4"
            from at_skip [OF p4 this] have s: "at T (m - 1 - 1 - 1) (skip p4)" by simp
            show "gives T m (m - 1) (pbind (parse_if_body n cf st (skip p4)) (\<lambda>r p5. Ok (ND_IF c b (Some r)) p5))"
              by (rule gives_map [OF Suc.IH [OF Suc.prems(1) s]]) (use Suc.prems in auto)
          next
            assume "check TOK_ELSE p4"
            from at_skip [OF p4 this] have s: "at T (m - 1 - 1 - 1) (skip p4)" by simp
            show "gives T m (m - 1) (pbind (parse_suite cf st (skip p4)) (\<lambda>r p5. Ok (ND_IF c b (Some r)) p5))"
              by (rule gives_map [OF gives_suite [OF Suc.prems(1) s]]) (use Suc.prems in auto)
          next
            show "gives T m (m - 1) (Ok (ND_IF c b None) p4)" using at_mono [OF p4, of "m - 1"] by simp
          qed
        qed simp
      qed simp
    qed
  qed
qed

declare parse_if_body.simps [simp del]

lemma gives_for:
  assumes st: "calls T K 1 st" and p: "at T m p" and "m \<le> K"
  shows "gives T m (m - 1) (parse_for cf st p)"
  unfolding parse_for_def Let_def
  apply (rule gives_bind [OF gives_node [OF p] order_refl])
  apply (rule gives_bind, erule gives_expect, simp, simp)
  apply (rule gives_bind, erule gives_slice(1), simp)
  apply (rule gives_bind, erule gives_expect, simp, simp)
  apply (rule gives_bind, erule gives_expr, simp)
  apply (rule gives_map, erule gives_suite [OF st])
    apply (use assms(3) in auto)
  done

lemma gives_params: "at T m p \<Longrightarrow> m \<le> n \<Longrightarrow> gives T m (m - 1) (parse_params n cf p)"
proof (induction n arbitrary: m p)
  case 0
  then show ?case using at_pos by fastforce
next
  case (Suc n)
  have rest: "gives T m (m - 1) (if check TOK_COMMA q then pbind (parse_params n cf (skip q)) (\<lambda>ss p4. Ok (s # ss) p4) else Ok [s] q)"
    if q: "at T (m - 1) q" for q s
  proof (intro gives_if)
    assume "check TOK_COMMA q"
    from at_skip [OF q this] have sk: "at T (m - 1 - 1) (skip q)" by simp
    show "gives T m (m - 1) (pbind (parse_params n cf (skip q)) (\<lambda>ss p4. Ok (s # ss) p4))"
      by (rule gives_map [OF Suc.IH [OF sk]]) (use Suc.prems in auto)
  qed (use q in simp)
  show ?case
    unfolding parse_params.simps Let_def
    apply (rule gives_bind [OF gives_expect [OF Suc.prems(1)]], simp, simp)
    apply (rule gives_bind, erule gives_node, simp)
    apply (rule gives_bind, erule gives_slice(1), simp)
    apply (erule rest)
    done
qed

declare parse_params.simps [simp del]

lemma gives_parse_def:
  assumes st: "calls T K 1 st" and p: "at T m p" and "m \<le> K"
  shows "gives T m (m - 1) (parse_def cf st p)"
proof -
  have params: "gives T l l (if check TOK_RPAREN q then Ok [] q else parse_params (Suc (tokens_left q)) cf q)"
    if q: "at T l q" for l q
  proof (intro gives_if)
    have "gives T l (l - 1) (parse_params (Suc (tokens_left q)) cf q)"
      by (rule gives_fuel [OF q order_refl]) (rule gives_params)
    then show "gives T l l (parse_params (Suc (tokens_left q)) cf q)" by (rule gives_mono) auto
  qed (use q in simp)
  show ?thesis
    unfolding parse_def_def Let_def
    apply (rule gives_bind [OF gives_node [OF p] order_refl])
    apply (rule gives_bind, erule gives_expect, simp, simp)
    apply (rule gives_bind, erule gives_slice(1), simp)
    apply (rule gives_bind, erule gives_expect, simp, simp)
    apply (rule gives_bind, erule params, simp)
    apply (rule gives_bind, erule gives_expect, simp, simp)
    apply (rule gives_map, erule gives_suite [OF st])
      apply (use assms(3) in auto)
    done
qed

lemma gives_Ok_match: "at T l q \<Longrightarrow> l \<le> m \<Longrightarrow> gives T n m (Ok a (match_opt TOK_NEWLINE q))"
  using at_mono [OF at_match_opt [of T l q]] by simp

lemma gives_return:
  assumes p: "at T m p"
  shows "gives T m m (parse_return cf p)"
  unfolding parse_return_def
  apply (rule gives_bind [OF gives_node [OF p] order_refl])
  apply (rule gives_if)
   apply (rule gives_bind, erule gives_expr, simp)
   apply (erule gives_Ok_match, simp)
  apply (erule gives_Ok_match, simp)
  done

lemma gives_import:
  assumes p: "at T m p"
  shows "gives T m m (parse_import cf p)"
  unfolding parse_import_def Let_def
  apply (rule gives_bind [OF gives_node [OF p] order_refl])
  apply (rule gives_bind, erule gives_expect, simp, simp)
  apply (rule gives_bind, erule gives_slice(1), simp)
  apply (erule gives_Ok_match, simp)
  done

lemma gives_assign:
  assumes p: "at T m p"
  shows "gives T m m (parse_assign cf t p)"
  unfolding parse_assign_def
  apply (rule gives_bind [OF gives_node [OF p] order_refl])
  apply (rule gives_bind, erule gives_slice(1), simp)
  apply (rule gives_bind, erule gives_node, simp)
  apply (rule gives_bind, erule gives_expr, simp)
  apply (erule gives_Ok_match, simp)
  done

lemma gives_expr_stmt:
  assumes p: "at T m p"
  shows "gives T m (m - 1) (parse_expr_stmt cf p)"
  unfolding parse_expr_stmt_def
  apply (rule gives_bind [OF gives_expr [OF p] order_refl])
  apply (rule gives_bind, erule gives_node, simp)
  apply (erule gives_Ok_match, simp)
  done

lemma gives_simple:
  assumes p: "at T m p"
  shows "gives T m (m - 1) (parse_simple cf p)"
  unfolding parse_simple_def
proof (intro gives_if)
  assume c: "check TOK_NAME p \<and> check TOK_EQ (skip p)"
  have "at T (m - 1) (skip p)" by (rule at_skip [OF p]) (use c in auto)
  then have "at T (m - 1 - 1) (skip (skip p))" by (rule at_skip) (use c in auto)
  from gives_assign [OF this] show "gives T m (m - 1) (parse_assign cf (cur p) (skip (skip p)))"
    by (rule gives_mono) auto
next
  show "gives T m (m - 1) (parse_expr_stmt cf p)" by (rule gives_expr_stmt [OF p])
qed

lemma gives_stmt_body:
  assumes st: "calls T K 1 st" and p: "at T m p" and "m \<le> K"
  shows "gives T m (m - 1) (parse_stmt_body cf st p)"
  unfolding parse_stmt_body_def
proof (rule gives_bind [OF gives_skip_newlines [OF p] order_refl])
  fix u q assume q: "at T m q"
  have w: "gives T m (m - 1) (pbind (node_new cf r) (\<lambda>u p1. pbind (parse_expr cf p1) (\<lambda>c p2.
      pbind (parse_suite cf st p2) (\<lambda>b p3. Ok (ND_WHILE c b) p3))))" if r: "at T (m - 1) r" for r
    apply (rule gives_bind [OF gives_node [OF r]], simp)
    apply (rule gives_bind, erule gives_expr, simp)
    apply (rule gives_map, erule gives_suite [OF st])
      apply (use assms(3) in auto)
    done
  have f: "gives T m (m - 1) (parse_for cf st r)" "gives T m (m - 1) (parse_def cf st r)" if r: "at T (m - 1) r" for r
    by (rule gives_mono [OF gives_for [OF st r]] gives_mono [OF gives_parse_def [OF st r]]; use assms(3) in auto)+
  have i: "gives T m (m - 1) (parse_if_body (Suc (tokens_left q)) cf st (skip q))" if r: "at T (m - 1) (skip q)"
  proof -
    have l: "tokens_left (skip q) \<le> m - 1" "tokens_left (skip q) \<le> Suc (tokens_left q)"
      using at_left(1) [OF r] by (auto simp: tokens_left_def skip_def)
    show ?thesis
      by (rule gives_mono [OF gives_if_body [OF st at_left(2) [OF r]]]) (use l assms(3) in auto)
  qed
  have skip: "k \<noteq> TOK_EOF \<Longrightarrow> check k q \<Longrightarrow> at T (m - 1) (skip q)" for k
    using at_skip [OF q] by blast
  have pass: "gives T m (m - 1) (case node_new cf (skip q) of
            Ok u p1 \<Rightarrow> Ok ND_PASS (match_opt TOK_NEWLINE p1)
          | Null p1 \<Rightarrow> Null (match_opt TOK_NEWLINE p1) | Out \<Rightarrow> Out)" if r: "at T (m - 1) (skip q)"
    using gives_node [OF r, of cf] by (cases "node_new cf (skip q)") (auto intro: at_match_opt at_mono)
  have ri: "gives T m (m - 1) (parse_return cf r)" "gives T m (m - 1) (parse_import cf r)" if r: "at T (m - 1) r" for r
    by (rule gives_mono [OF gives_return [OF r]] gives_mono [OF gives_import [OF r]]; simp)+
  show "gives T m (m - 1) (if check TOK_EOF q \<or> check TOK_DEDENT q then Null q
       else if check TOK_PASS q then
         (case node_new cf (skip q) of
            Ok u p1 \<Rightarrow> Ok ND_PASS (match_opt TOK_NEWLINE p1)
          | Null p1 \<Rightarrow> Null (match_opt TOK_NEWLINE p1)
          | Out \<Rightarrow> Out)
       else if check TOK_RETURN q then parse_return cf (skip q)
       else if check TOK_IF q then parse_if_body (Suc (tokens_left q)) cf st (skip q)
       else if check TOK_WHILE q then
         pbind (node_new cf (skip q)) (\<lambda>u p1. pbind (parse_expr cf p1) (\<lambda>c p2.
           pbind (parse_suite cf st p2) (\<lambda>b p3. Ok (ND_WHILE c b) p3)))
       else if check TOK_FOR q then parse_for cf st (skip q)
       else if check TOK_DEF q then parse_def cf st (skip q)
       else if check TOK_IMPORT q then parse_import cf (skip q)
       else parse_simple cf q)"
    apply (intro gives_if)
            apply (simp add: q)
           apply (rule pass, rule skip [of TOK_PASS], simp, assumption)
          apply (rule ri, rule skip [of TOK_RETURN], simp, assumption)
         apply (rule i, rule skip [of TOK_IF], simp, assumption)
        apply (rule w, rule skip [of TOK_WHILE], simp, assumption)
       apply (rule f, rule skip [of TOK_FOR], simp, assumption)
      apply (rule f, rule skip [of TOK_DEF], simp, assumption)
     apply (rule ri, rule skip [of TOK_IMPORT], simp, assumption)
    apply (rule gives_simple [OF q])
    done
qed

lemma calls_stmt_n: "calls T n 1 (parse_stmt_n n cf)"
proof (induction n)
  case 0
  show ?case by (simp add: calls_def)
next
  case (Suc n)
  show ?case
    by (rule callsI) (use gives_stmt_body [OF Suc] in auto)
qed

lemma calls_stmt: "calls T K 1 (parse_stmt cf)"
proof (rule callsI)
  fix m p assume p: "at T m p"
  have "gives T (tokens_left p) (tokens_left p - 1) (parse_stmt cf p)"
    unfolding parse_stmt_def by (rule callsD [OF calls_stmt_n at_left(2) [OF p]]) simp
  then show "gives T m (m - 1) (parse_stmt cf p)"
    by (rule gives_mono) (use at_left(1) [OF p] in auto)
qed

lemma mp_parse_returns:
  assumes "lx_toks lx \<noteq> []" and "t_kind (last (lx_toks lx)) = TOK_EOF"
  shows "mp_parse cf heap lx \<noteq> Out"
proof -
  let ?p = "parser_init lx heap" and ?T = "lx_toks lx"
  have p: "at ?T (length ?T) ?p" using assms by (simp add: at_def parser_init_def)
  have "gives ?T (length ?T) (length ?T) (mp_parse cf heap lx)"
    unfolding mp_parse_def
  proof (rule gives_bind [OF gives_node [OF p] order_refl])
    fix u q assume q: "at ?T (length ?T) q"
    have "gives ?T (length ?T) (length ?T - 0) (stmts_loop (Suc (tokens_left q)) [TOK_EOF] (parse_stmt cf) q)"
      by (rule gives_fuel [OF q order_refl])
        (use gives_stmts [OF calls_stmt [of ?T "Suc (length ?T)"]] in auto)
    then show "gives ?T (length ?T) (length ?T) (pbind (stmts_loop (Suc (tokens_left q)) [TOK_EOF] (parse_stmt cf) q) (\<lambda>ss p1. Ok (ND_MODULE ss) p1))"
      by (rule gives_map) auto
  qed
  then show ?thesis by (auto simp: gives_def)
qed

section \<open>Properties\<close>

text \<open>
  Property C7. Parsing terminates: on every token table a successful scan leaves, whatever the state of the
  heap, the recursive descent comes back with a tree or a null pointer.
\<close>

theorem mp_parse_terminates:
  assumes "mp_lex mt src = (True, lx)"
  shows "\<exists>p. (\<exists>n. mp_parse cf heap lx = Ok n p) \<or> mp_parse cf heap lx = Null p"
proof -
  obtain ts t where "lx_toks lx = ts @ [t]" "t_kind t = TOK_EOF" by (rule mp_lex_ok [OF assms])
  then have "mp_parse cf heap lx \<noteq> Out" by (intro mp_parse_returns) auto
  then show ?thesis by (cases "mp_parse cf heap lx") auto
qed

lemma mp_parse_terminates_witness:
  "\<exists>p. (\<exists>n. mp_parse \<lparr>cf_heap = 65536, cf_node = 44\<rparr> 0 (snd (mp_lex 8 ''f(1'')) = Ok n p) \<or>
     mp_parse \<lparr>cf_heap = 65536, cf_node = 44\<rparr> 0 (snd (mp_lex 8 ''f(1'')) = Null p"
proof -
  have "fst (mp_lex 8 ''f(1'')" by code_simp
  then have "mp_lex 8 ''f(1'' = (True, snd (mp_lex 8 ''f(1''))" by (metis (full_types) prod.collapse)
  from mp_parse_terminates [OF this] show ?thesis .
qed

definition parsed :: "mp_cfg \<Rightarrow> nat \<Rightarrow> string \<Rightarrow> mp_node option" where
  "parsed cf mt src =
     (case mp_lex mt src of
        (True, lx) \<Rightarrow> (case mp_parse cf 0 lx of Ok n p \<Rightarrow> Some n | Null p \<Rightarrow> None | Out \<Rightarrow> None)
      | (False, lx) \<Rightarrow> None)"

lemmas lex_eval = mp_lex_def lex_init_def lex_loop.simps lex_step_def lex_token_def peek_def advance_def push_tok_def
  advance_while.simps digits_loop.simps string_loop.simps unescape_def emit_indent_def lex_name_def lex_number_def
  lex_string_def lex_operator_def op1_def op2_def continue_if_def lx_text_def keyword_def is_alpha_def is_digit_def
  is_alnum_def char_in_def Let_def cget_def

lemmas parse_counts =
  parse_items.simps(2) [of "pred_numeral k", folded numeral_eq_Suc]
  index_loop.simps(2) [of "pred_numeral k", folded numeral_eq_Suc]
  parse_unary_n.simps(2) [of "pred_numeral k", folded numeral_eq_Suc]
  left_loop.simps(2) [of "pred_numeral k", folded numeral_eq_Suc]
  parse_expr_n.simps(2) [of "pred_numeral k", folded numeral_eq_Suc]
  skip_newlines_n.simps(2) [of "pred_numeral k", folded numeral_eq_Suc]
  stmts_loop.simps(2) [of "pred_numeral k", folded numeral_eq_Suc]
  parse_if_body.simps(2) [of "pred_numeral k", folded numeral_eq_Suc]
  parse_params.simps(2) [of "pred_numeral k", folded numeral_eq_Suc]
  parse_stmt_n.simps(2) [of "pred_numeral k", folded numeral_eq_Suc] for k

lemmas parse_eval = parse_counts
  parse_items.simps(2) index_loop.simps(2) parse_unary_n.simps(2) left_loop.simps(2) parse_expr_n.simps(2)
  skip_newlines_n.simps(2) stmts_loop.simps(2) parse_if_body.simps(2) parse_params.simps(2) parse_stmt_n.simps(2)
  mp_parse_def parser_init_def parse_stmt_def parse_stmt_body_def parse_simple_def parse_assign_def parse_expr_stmt_def
  parse_import_def parse_return_def parse_def_def parse_for_def parse_suite_def parse_block_def skip_newlines_def
  parse_expr_def parse_or_def parse_and_def parse_compare_def compare_ops_def parse_arith_def parse_term_def
  left_assoc_def parse_unary_def parse_primary_def parse_atom_def parse_until_def tokens_left_def node_new_def
  heap_take_def aligned8_def copy_slice_def copy_string_lit_def tok_text_def expect_def expected_char_def match_opt_def
  skip_def check_def cur_def Let_def

text \<open>
  A null statement that left no message ends the program without an error: a loop whose suite is
  missing at the end of the input is dropped, and so is everything from the first name that the heap
  has no room to copy.
\<close>

theorem mp_parse_drops_silently:
  "parsed \<lparr>cf_heap = 65536, cf_node = 44\<rparr> 256 (''x=1'' @ [newline] @ ''while 1:'') =
     Some (ND_MODULE [ND_ASSIGN ''x'' (ND_INT 1)]) \<and>
   parsed \<lparr>cf_heap = 248, cf_node = 44\<rparr> 256 (''x=1'' @ [newline] @ ''y=2'') =
     Some (ND_MODULE [ND_ASSIGN ''x'' (ND_INT 1)])"
  apply (simp add: parsed_def lex_eval parse_eval)
  done

section \<open>The parser keeps to the heap\<close>

definition in_heap :: "mp_cfg \<Rightarrow> parser \<Rightarrow> bool" where
  "in_heap cf p \<longleftrightarrow> p_heap p \<le> cf_heap cf"

fun heaped :: "mp_cfg \<Rightarrow> 'a presult \<Rightarrow> bool" where
  "heaped cf (Ok a p) \<longleftrightarrow> in_heap cf p"
| "heaped cf (Null p) \<longleftrightarrow> in_heap cf p"
| "heaped cf Out \<longleftrightarrow> True"

text \<open>A callee that keeps to the heap.\<close>

definition keeps_heap :: "mp_cfg \<Rightarrow> (parser \<Rightarrow> 'a presult) \<Rightarrow> bool" where
  "keeps_heap cf f \<longleftrightarrow> (\<forall>p. in_heap cf p \<longrightarrow> heaped cf (f p))"

lemma keepsD: "keeps_heap cf f \<Longrightarrow> in_heap cf p \<Longrightarrow> heaped cf (f p)"
  by (simp add: keeps_heap_def)

lemma heaped_bind: "heaped cf r \<Longrightarrow> (\<And>a q. in_heap cf q \<Longrightarrow> heaped cf (f a q)) \<Longrightarrow> heaped cf (pbind r f)"
  by (cases r) auto

lemma in_heap_fields [simp]:
  "in_heap cf (skip p) = in_heap cf p" "in_heap cf (match_opt k p) = in_heap cf p" "in_heap cf (p\<lparr>p_err := e\<rparr>) = in_heap cf p"
  by (simp_all add: in_heap_def skip_def match_opt_def)

lemma heaped_prims:
  assumes "in_heap cf p"
  shows "heaped cf (node_new cf p)" and "heaped cf (copy_slice cf t p)" and "heaped cf (copy_string_lit cf t p)"
    and "heaped cf (expect k msg p)"
  using assms by (auto simp: node_new_def copy_slice_def copy_string_lit_def heap_take_def expect_def in_heap_def skip_def
      split: option.splits)

lemmas heaped_intros = heaped_bind heaped_prims

lemma heaped_items: "keeps_heap cf e \<Longrightarrow> in_heap cf p \<Longrightarrow> heaped cf (parse_items n e p)"
  by (induction n arbitrary: p) (auto simp: parse_items.simps intro!: heaped_intros dest: keepsD)

lemma heaped_until: "keeps_heap cf e \<Longrightarrow> in_heap cf p \<Longrightarrow> heaped cf (parse_until close msg e p)"
  unfolding parse_until_def by (auto  intro!: heaped_intros heaped_items)

lemma heaped_index: "keeps_heap cf e \<Longrightarrow> in_heap cf p \<Longrightarrow> heaped cf (index_loop n cf e a p)"
  by (induction n arbitrary: a p) (auto simp: index_loop.simps intro!: heaped_intros dest: keepsD)

lemma heaped_atom: "keeps_heap cf e \<Longrightarrow> in_heap cf p \<Longrightarrow> heaped cf (parse_atom cf e p)"
  unfolding parse_atom_def Let_def by (auto intro!: heaped_intros heaped_until intro: keepsD)

lemma heaped_primary: "keeps_heap cf e \<Longrightarrow> in_heap cf p \<Longrightarrow> heaped cf (parse_primary cf e p)"
  unfolding parse_primary_def by (intro heaped_bind heaped_atom heaped_index)

lemma heaped_unary_n: "keeps_heap cf e \<Longrightarrow> in_heap cf p \<Longrightarrow> heaped cf (parse_unary_n n cf e p)"
  by (induction n arbitrary: p) (auto simp: parse_unary_n.simps Let_def intro!: heaped_intros heaped_primary)

lemma heaped_left_loop: "keeps_heap cf sub \<Longrightarrow> in_heap cf p \<Longrightarrow> heaped cf (left_loop n cf ops sub a p)"
  by (induction n arbitrary: a p) (auto simp: left_loop.simps Let_def intro!: heaped_intros dest: keepsD)

lemma keeps_left_assoc: "keeps_heap cf sub \<Longrightarrow> keeps_heap cf (left_assoc cf ops sub)"
  unfolding left_assoc_def keeps_heap_def [of cf "\<lambda>p. pbind (sub p) f" for f]
  by (intro allI impI heaped_bind heaped_left_loop) (auto dest: keepsD)

lemma keeps_unary: "keeps_heap cf e \<Longrightarrow> keeps_heap cf (parse_unary cf e)"
  by (auto simp: keeps_heap_def parse_unary_def  intro!: heaped_unary_n)

lemma keeps_arith: "keeps_heap cf e \<Longrightarrow> keeps_heap cf (parse_arith cf e)"
proof -
  have "parse_arith cf e = left_assoc cf [TOK_PLUS, TOK_MINUS] (left_assoc cf [TOK_STAR, TOK_SLASH, TOK_PERCENT] (parse_unary cf e))"
    by (rule ext) (simp add: parse_arith_def parse_term_def [abs_def])
  then show "keeps_heap cf e \<Longrightarrow> keeps_heap cf (parse_arith cf e)" by (simp add: keeps_left_assoc keeps_unary)
qed

lemma keeps_compare: "keeps_heap cf e \<Longrightarrow> keeps_heap cf (parse_compare cf e)"
  unfolding keeps_heap_def [of cf "parse_compare cf e"] parse_compare_def Let_def
  by (auto intro!: heaped_intros dest: keepsD [OF keeps_arith])

lemma keeps_or: "keeps_heap cf e \<Longrightarrow> keeps_heap cf (parse_or cf e)"
proof -
  have "parse_or cf e = left_assoc cf [TOK_OR] (left_assoc cf [TOK_AND] (parse_compare cf e))"
    by (rule ext) (simp add: parse_or_def parse_and_def [abs_def])
  then show "keeps_heap cf e \<Longrightarrow> keeps_heap cf (parse_or cf e)" by (simp add: keeps_left_assoc keeps_compare)
qed

lemma keeps_expr_n: "keeps_heap cf (parse_expr_n n cf)"
  by (induction n) (use keeps_or in \<open>auto simp: parse_expr_n.simps keeps_heap_def\<close>)

lemma heaped_expr: "in_heap cf p \<Longrightarrow> heaped cf (parse_expr cf p)"
  unfolding parse_expr_def by (rule keepsD [OF keeps_expr_n])

lemma heaped_skip_newlines: "in_heap cf p \<Longrightarrow> heaped cf (skip_newlines p)"
proof -
  have "in_heap cf p \<Longrightarrow> heaped cf (skip_newlines_n n p)" for n by (induction n arbitrary: p) (auto simp: skip_newlines_n.simps)
  then show "in_heap cf p \<Longrightarrow> heaped cf (skip_newlines p)" by (simp add: skip_newlines_def)
qed

lemmas heaped_more = heaped_intros heaped_expr heaped_skip_newlines

lemma heaped_stmts: "keeps_heap cf st \<Longrightarrow> in_heap cf p \<Longrightarrow> heaped cf (stmts_loop n stops st p)"
proof (induction n arbitrary: p)
  case 0
  then show ?case by (simp add: stmts_loop.simps)
next
  case (Suc n)
  show ?case unfolding stmts_loop.simps
  proof (rule heaped_bind [OF heaped_skip_newlines [OF Suc.prems(2)]])
    fix u q assume q: "in_heap cf q"
    from keepsD [OF Suc.prems(1) q] show "heaped cf (if t_kind (cur q) \<in> set stops then Ok [] q
       else case st q of
              Ok s p2 \<Rightarrow> pbind (stmts_loop n stops st p2) (\<lambda>ss p3. Ok (s # ss) p3)
            | Null p2 \<Rightarrow> if p_err p2 \<noteq> [] then Null p2 else Ok [] p2
            | Out \<Rightarrow> Out)"
      using q Suc by (cases "st q") (auto intro!: heaped_bind)
  qed
qed

lemma heaped_block: "keeps_heap cf st \<Longrightarrow> in_heap cf p \<Longrightarrow> heaped cf (parse_block cf st p)"
  unfolding parse_block_def by (auto  intro!: heaped_more heaped_stmts)

lemma heaped_suite: "keeps_heap cf st \<Longrightarrow> in_heap cf p \<Longrightarrow> heaped cf (parse_suite cf st p)"
  unfolding parse_suite_def by (auto intro!: heaped_more heaped_block dest: keepsD)

lemma heaped_if_body: "keeps_heap cf st \<Longrightarrow> in_heap cf p \<Longrightarrow> heaped cf (parse_if_body n cf st p)"
  by (induction n arbitrary: p) (auto simp: parse_if_body.simps intro!: heaped_more heaped_suite)

lemma heaped_for: "keeps_heap cf st \<Longrightarrow> in_heap cf p \<Longrightarrow> heaped cf (parse_for cf st p)"
  unfolding parse_for_def Let_def by (auto intro!: heaped_more heaped_suite)

lemma heaped_params: "in_heap cf p \<Longrightarrow> heaped cf (parse_params n cf p)"
  by (induction n arbitrary: p) (auto simp: parse_params.simps Let_def intro!: heaped_more)

lemma heaped_parse_def: "keeps_heap cf st \<Longrightarrow> in_heap cf p \<Longrightarrow> heaped cf (parse_def cf st p)"
  unfolding parse_def_def Let_def by (auto  intro!: heaped_more heaped_suite heaped_params)

lemma heaped_simple:
  assumes "in_heap cf p"
  shows "heaped cf (parse_return cf p)" and "heaped cf (parse_import cf p)" and "heaped cf (parse_simple cf p)"
  using assms unfolding parse_return_def parse_import_def parse_simple_def parse_assign_def parse_expr_stmt_def Let_def
  by (auto intro!: heaped_more)

lemma heaped_stmt_body: "keeps_heap cf st \<Longrightarrow> in_heap cf p \<Longrightarrow> heaped cf (parse_stmt_body cf st p)"
  unfolding parse_stmt_body_def
proof (rule heaped_bind [OF heaped_skip_newlines])
  fix u p assume st: "keeps_heap cf st" and p: "in_heap cf p"
  have "heaped cf (case node_new cf (skip p) of
            Ok u p1 \<Rightarrow> Ok ND_PASS (match_opt TOK_NEWLINE p1)
          | Null p1 \<Rightarrow> Null (match_opt TOK_NEWLINE p1) | Out \<Rightarrow> Out)"
    using heaped_prims(1) [of cf "skip p"] p by (cases "node_new cf (skip p)") auto
  moreover have "heaped cf (pbind (node_new cf (skip p)) (\<lambda>u p1. pbind (parse_expr cf p1) (\<lambda>c p2.
           pbind (parse_suite cf st p2) (\<lambda>b p3. Ok (ND_WHILE c b) p3))))"
    using st p by (auto intro!: heaped_more heaped_suite)
  ultimately show "heaped cf (if check TOK_EOF p \<or> check TOK_DEDENT p then Null p
       else if check TOK_PASS p then
         (case node_new cf (skip p) of
            Ok u p1 \<Rightarrow> Ok ND_PASS (match_opt TOK_NEWLINE p1)
          | Null p1 \<Rightarrow> Null (match_opt TOK_NEWLINE p1)
          | Out \<Rightarrow> Out)
       else if check TOK_RETURN p then parse_return cf (skip p)
       else if check TOK_IF p then parse_if_body (Suc (tokens_left p)) cf st (skip p)
       else if check TOK_WHILE p then
         pbind (node_new cf (skip p)) (\<lambda>u p1. pbind (parse_expr cf p1) (\<lambda>c p2.
           pbind (parse_suite cf st p2) (\<lambda>b p3. Ok (ND_WHILE c b) p3)))
       else if check TOK_FOR p then parse_for cf st (skip p)
       else if check TOK_DEF p then parse_def cf st (skip p)
       else if check TOK_IMPORT p then parse_import cf (skip p)
       else parse_simple cf p)"
    using st p by (simp add: heaped_simple heaped_if_body heaped_for heaped_parse_def)
qed

lemma keeps_stmt_n: "keeps_heap cf (parse_stmt_n n cf)"
  by (induction n) (auto simp: parse_stmt_n.simps keeps_heap_def intro: heaped_stmt_body [unfolded keeps_heap_def])

lemma mp_parse_heap:
  assumes "heap \<le> cf_heap cf"
  shows "heaped cf (mp_parse cf heap lx)"
proof -
  have "keeps_heap cf (parse_stmt cf)"
    unfolding keeps_heap_def parse_stmt_def using keepsD [OF keeps_stmt_n] by blast
  with assms show ?thesis
    unfolding mp_parse_def
    by (auto  simp: in_heap_def parser_init_def intro!: heaped_intros heaped_stmts)
qed

end
