(* ===== verification/MpObject.thy ===== *)
theory MpObject
  imports MpParse MpFs "HOL-Library.Signed_Division"
begin

text \<open>
  Objects, names and text of the interpreter: \<^verbatim>\<open>py/object.c\<close>, the allocator of \<^verbatim>\<open>py/heap.c\<close> and the
  environment of \<^verbatim>\<open>py/eval.c\<close>, on the state the evaluator threads through everything.
\<close>

section \<open>Objects and the heap\<close>

text \<open>
  A pointer is an index into the objects handed out so far; \<open>None\<close> is the null pointer. The three
  static objects come first. Strings, numbers and functions never change after they are made; lists
  grow in place and a file object forgets its descriptor when it is closed.
\<close>

type_synonym ptr = "nat option"

datatype mp_obj =
    T_NONE
  | T_BOOL bool
  | T_INT u32
  | T_STR string
  | T_FILE int
  | T_LIST "ptr list"
  | T_FUNC "string list" mp_node

definition Mp_None :: ptr where "Mp_None = Some 0"
definition Mp_True :: ptr where "Mp_True = Some 1"
definition Mp_False :: ptr where "Mp_False = Some 2"

definition mp_objects_init :: "mp_obj list" where
  "mp_objects_init = [T_NONE, T_BOOL True, T_BOOL False]"

definition MP_LIST_MAX :: nat where "MP_LIST_MAX = 64"
definition MP_FUNC_ARGS :: nat where "MP_FUNC_ARGS = 8"
definition MP_ENV_SLOTS :: nat where "MP_ENV_SLOTS = 128"
definition MP_MAX_LINE :: nat where "MP_MAX_LINE = 512"
definition MP_ENV_NAME :: nat where "MP_ENV_NAME = 32"
definition MP_ERR_MAX :: nat where "MP_ERR_MAX = 128"

text \<open>
  The build: \<^verbatim>\<open>py/config.h\<close> sets the heap, the token table and the file system for the host and the
  kernel; \<open>c_obj\<close> and \<open>c_ptr\<close> are \<^verbatim>\<open>sizeof(MpObject)\<close> and \<^verbatim>\<open>sizeof(MpObject *)\<close>.
\<close>

record ev_cfg =
  c_parse :: mp_cfg
  c_tokens :: nat
  c_obj :: nat
  c_ptr :: nat
  c_files :: nat
  c_fmax :: nat

record env_slot =
  sl_name :: string
  sl_value :: ptr
  sl_used :: bool

text \<open>
  The evaluator's context with everything it works on: objects, the bytes of the heap in use, the
  file system, what was printed and what will be typed (\<open>mp_getc\<close> gives 0 at its end).
\<close>

record mp_vm =
  v_objs :: "mp_obj list"
  v_heap :: nat
  v_slots :: "env_slot list"
  v_err :: string
  v_has_err :: bool
  v_returning :: bool
  v_retval :: ptr
  v_fs :: mpfs
  v_out :: string
  v_in :: "int list"

definition obj_at :: "ptr \<Rightarrow> mp_vm \<Rightarrow> mp_obj option" where
  "obj_at p s = map_option (\<lambda>i. v_objs s ! i) p"

abbreviation set_obj :: "ptr \<Rightarrow> mp_obj \<Rightarrow> mp_vm \<Rightarrow> mp_vm" where
  "set_obj p x s \<equiv> s\<lparr>v_objs := (v_objs s)[the p := x]\<rparr>"

text \<open>\<open>mp_alloc\<close> on the 32-bit target: both the rounding and the sum wrap.\<close>

definition mp_alloc :: "ev_cfg \<Rightarrow> nat \<Rightarrow> mp_vm \<Rightarrow> bool \<times> mp_vm" where
  "mp_alloc cf n s =
     (let aligned = (n + 7) mod 2 ^ 32 div 8 * 8; off = (v_heap s + aligned) mod 2 ^ 32
      in if cf_heap (c_parse cf) < off then (False, s) else (True, s\<lparr>v_heap := off\<rparr>))"

definition alloc_obj :: "ev_cfg \<Rightarrow> mp_obj \<Rightarrow> mp_vm \<Rightarrow> ptr \<times> mp_vm" where
  "alloc_obj cf x s =
     (case mp_alloc cf (c_obj cf) s of
        (False, s1) \<Rightarrow> (None, s1)
      | (True, s1) \<Rightarrow> (Some (length (v_objs s1)), s1\<lparr>v_objs := v_objs s1 @ [x]\<rparr>))"

definition mp_int_new :: "ev_cfg \<Rightarrow> u32 \<Rightarrow> mp_vm \<Rightarrow> ptr \<times> mp_vm" where
  "mp_int_new cf v s = alloc_obj cf (T_INT v) s"

definition mp_bool_from :: "bool \<Rightarrow> ptr" where
  "mp_bool_from b = (if b then Mp_True else Mp_False)"

text \<open>An object whose buffer is allocated after it; when that fails the header stays behind, unreachable.\<close>

definition alloc_buffered :: "ev_cfg \<Rightarrow> nat \<Rightarrow> mp_obj \<Rightarrow> mp_vm \<Rightarrow> ptr \<times> mp_vm" where
  "alloc_buffered cf n x s =
     (case mp_alloc cf (c_obj cf) s of
        (False, s1) \<Rightarrow> (None, s1)
      | (True, s1) \<Rightarrow>
          (case mp_alloc cf n s1 of
             (False, s2) \<Rightarrow> (None, s2)
           | (True, s2) \<Rightarrow> (Some (length (v_objs s2)), s2\<lparr>v_objs := v_objs s2 @ [x]\<rparr>)))"

definition mp_str_new :: "ev_cfg \<Rightarrow> string \<Rightarrow> mp_vm \<Rightarrow> ptr \<times> mp_vm" where
  "mp_str_new cf t s = alloc_buffered cf (length t + 1) (T_STR t) s"

definition mp_str_new_cstr :: "ev_cfg \<Rightarrow> string \<Rightarrow> mp_vm \<Rightarrow> ptr \<times> mp_vm" where
  "mp_str_new_cstr cf t s = mp_str_new cf (cstr t) s"

definition mp_file_new :: "ev_cfg \<Rightarrow> int \<Rightarrow> mp_vm \<Rightarrow> ptr \<times> mp_vm" where
  "mp_file_new cf fd s = alloc_obj cf (T_FILE fd) s"

definition mp_list_new :: "ev_cfg \<Rightarrow> mp_vm \<Rightarrow> ptr \<times> mp_vm" where
  "mp_list_new cf s = alloc_buffered cf (c_ptr cf * MP_LIST_MAX) (T_LIST []) s"

definition mp_list_append :: "ptr \<Rightarrow> ptr \<Rightarrow> mp_vm \<Rightarrow> bool \<times> mp_vm" where
  "mp_list_append l x s =
     (case obj_at l s of
        Some (T_LIST xs) \<Rightarrow>
          if MP_LIST_MAX \<le> length xs then (False, s) else (True, set_obj l (T_LIST (xs @ [x])) s)
      | _ \<Rightarrow> (False, s))"

text \<open>A Python index: negative counts from the end; \<open>None\<close> is out of range.\<close>

definition index_of :: "u32 \<Rightarrow> nat \<Rightarrow> nat option" where
  "index_of i len =
     (let j = (if sint i < 0 then i + of_nat len else i)
      in if sint j < 0 \<or> len \<le> unat j then None else Some (unat j))"

definition mp_list_get :: "ptr \<Rightarrow> u32 \<Rightarrow> mp_vm \<Rightarrow> ptr" where
  "mp_list_get l i s =
     (case obj_at l s of
        Some (T_LIST xs) \<Rightarrow> (case index_of i (length xs) of None \<Rightarrow> None | Some k \<Rightarrow> xs ! k)
      | _ \<Rightarrow> None)"

definition mp_func_new :: "ev_cfg \<Rightarrow> string list \<Rightarrow> mp_node \<Rightarrow> mp_vm \<Rightarrow> ptr \<times> mp_vm" where
  "mp_func_new cf ps body s = alloc_obj cf (T_FUNC ps body) s"

definition mp_is_truthy :: "ptr \<Rightarrow> mp_vm \<Rightarrow> bool" where
  "mp_is_truthy p s =
     (case obj_at p s of
        None \<Rightarrow> False
      | Some T_NONE \<Rightarrow> False
      | Some (T_BOOL b) \<Rightarrow> b
      | Some (T_INT v) \<Rightarrow> v \<noteq> 0
      | Some (T_STR t) \<Rightarrow> t \<noteq> []
      | Some (T_LIST xs) \<Rightarrow> xs \<noteq> []
      | Some x \<Rightarrow> True)"

definition mp_type_name :: "ptr \<Rightarrow> mp_vm \<Rightarrow> string" where
  "mp_type_name p s =
     (case obj_at p s of
        None \<Rightarrow> ''NoneType''
      | Some T_NONE \<Rightarrow> ''NoneType''
      | Some (T_BOOL b) \<Rightarrow> ''bool''
      | Some (T_INT v) \<Rightarrow> ''int''
      | Some (T_STR t) \<Rightarrow> ''str''
      | Some (T_FILE fd) \<Rightarrow> ''file''
      | Some (T_LIST xs) \<Rightarrow> ''list''
      | Some (T_FUNC ps b) \<Rightarrow> ''function'')"

definition mp_as_int :: "ptr \<Rightarrow> mp_vm \<Rightarrow> u32 option" where
  "mp_as_int p s =
     (case obj_at p s of
        Some (T_INT v) \<Rightarrow> Some v
      | Some (T_BOOL b) \<Rightarrow> Some (if b then 1 else 0)
      | _ \<Rightarrow> None)"

section \<open>Names\<close>

text \<open>\<open>name_eq\<close> compares a slice with a C string; the slot's buffer keeps 31 characters.\<close>

fun name_eq :: "string \<Rightarrow> string \<Rightarrow> bool" where
  "name_eq [] b \<longleftrightarrow> cget b 0 = NUL"
| "name_eq (c # cs) b \<longleftrightarrow> cget b 0 \<noteq> NUL \<and> c = cget b 0 \<and> name_eq cs (tl b)"

definition slot_of :: "string \<Rightarrow> mp_vm \<Rightarrow> nat option" where
  "slot_of nm s = first_from (\<lambda>e. sl_used e \<and> name_eq nm (sl_name e)) (v_slots s) 0"

definition set_err :: "string \<Rightarrow> mp_vm \<Rightarrow> mp_vm" where
  "set_err msg s = s\<lparr>v_err := strncpy_val msg MP_ERR_MAX, v_has_err := True\<rparr>"

definition mp_env_get :: "string \<Rightarrow> mp_vm \<Rightarrow> ptr" where
  "mp_env_get nm s = (case slot_of nm s of None \<Rightarrow> None | Some i \<Rightarrow> sl_value (v_slots s ! i))"

definition mp_env_set :: "string \<Rightarrow> ptr \<Rightarrow> mp_vm \<Rightarrow> bool \<times> mp_vm" where
  "mp_env_set nm v s =
     (if MP_ENV_NAME \<le> length nm then (False, set_err ''NameError: name too long'' s)
      else case slot_of nm s of
             Some i \<Rightarrow> (True, s\<lparr>v_slots := (v_slots s)[i := (v_slots s ! i)\<lparr>sl_value := v\<rparr>]\<rparr>)
           | None \<Rightarrow>
               (case first_from (\<lambda>e. \<not> sl_used e) (v_slots s) 0 of
                  None \<Rightarrow> (False, set_err ''RuntimeError: env full'' s)
                | Some i \<Rightarrow>
                    (True, s\<lparr>v_slots := (v_slots s)[i := \<lparr>sl_name = nm, sl_value = v, sl_used = True\<rparr>]\<rparr>)))"

text \<open>Every slot of that name is dropped.\<close>

definition env_drop :: "string \<Rightarrow> mp_vm \<Rightarrow> mp_vm" where
  "env_drop nm s =
     s\<lparr>v_slots := map (\<lambda>e. if sl_used e \<and> kstrcmp (sl_name e) nm = 0 then e\<lparr>sl_used := False\<rparr> else e) (v_slots s)\<rparr>"

section \<open>Text of an object\<close>

definition dig :: "int \<Rightarrow> char" where
  "dig d = char_of (nat (48 + d))"

fun int_digits :: "nat \<Rightarrow> int \<Rightarrow> string" where
  "int_digits 0 v = []"
| "int_digits (Suc k) v = (if 0 < v then int_digits k (v div 10) @ [dig (v mod 10)] else [])"

text \<open>The 32-bit negation wraps; the digits are those of a signed value.\<close>

definition int_text :: "u32 \<Rightarrow> string" where
  "int_text v =
     (let neg = sint v < 0; w = (if neg then - v else v);
          ds = (if w = 0 then ''0'' else int_digits 15 (sint w))
      in if neg then CHR ''-'' # ds else ds)"

text \<open>\<^verbatim>\<open>obj_to_buf(o, buf, 256)\<close>.\<close>

definition obj_text :: "ptr \<Rightarrow> mp_vm \<Rightarrow> string" where
  "obj_text p s =
     (case obj_at p s of
        None \<Rightarrow> ''None''
      | Some T_NONE \<Rightarrow> ''None''
      | Some (T_BOOL b) \<Rightarrow> (if b then ''True'' else ''False'')
      | Some (T_STR t) \<Rightarrow> strncpy_val t 256
      | Some (T_LIST xs) \<Rightarrow> ''[list]''
      | Some (T_FUNC ps b) \<Rightarrow> ''<function>''
      | Some (T_INT v) \<Rightarrow> int_text v
      | Some (T_FILE fd) \<Rightarrow> ''?'')"

end
