(* ===== verification/MpEval.thy ===== *)
theory MpEval
  imports MpObject
begin

text \<open>
  The evaluator of \<^verbatim>\<open>py/eval.c\<close> and \<^verbatim>\<open>mp_runtime_exec\<close> of \<^verbatim>\<open>py/runtime.c\<close>. Every function that evaluates a
  node takes the evaluator as a parameter; \<open>eval_node\<close> ties the knot with a count of nested
  evaluations, since user functions may recurse without end. The print and input hooks of the context
  are null, as \<^verbatim>\<open>mp_eval_init\<close> leaves them. Integers are 32-bit words and their arithmetic wraps, as the
  compiled code's does.
\<close>

section \<open>Results of an evaluation\<close>

text \<open>
  \<open>Done v s\<close>: the C function returned \<open>v\<close>. \<open>Crash f s\<close>: it left the defined behaviour of C in the state \<open>s\<close>, by a
  null pointer dereferenced, a division that traps, a copy past the heap, or a read of the wrong member of an
  object's union. \<open>Spent s\<close>: the fuel ran out in the state \<open>s\<close>, with the program still running.
\<close>

datatype fault = Null_deref | Div_trap | Copy_overrun | Wrong_member

datatype 'a eres = Done 'a mp_vm | Crash fault mp_vm | Spent mp_vm

type_synonym evaluator = "mp_node \<Rightarrow> mp_vm \<Rightarrow> ptr eres"

fun ebind :: "'a eres \<Rightarrow> ('a \<Rightarrow> mp_vm \<Rightarrow> 'b eres) \<Rightarrow> 'b eres" where
  "ebind (Done v s) f = f v s"
| "ebind (Crash e s) f = Crash e s"
| "ebind (Spent s) f = Spent s"

text \<open>\<^verbatim>\<open>if (ctx->has_err) return NULL;\<close> and \<^verbatim>\<open>if (ctx->has_err || ctx->returning) return x;\<close> after a call.\<close>

definition or_fail :: "ptr eres \<Rightarrow> (ptr \<Rightarrow> mp_vm \<Rightarrow> ptr eres) \<Rightarrow> ptr eres" where
  "or_fail r f = ebind r (\<lambda>v s. if v_has_err s then Done None s else f v s)"

definition or_stop :: "ptr eres \<Rightarrow> (ptr \<Rightarrow> mp_vm \<Rightarrow> ptr) \<Rightarrow> (ptr \<Rightarrow> mp_vm \<Rightarrow> ptr eres) \<Rightarrow> ptr eres" where
  "or_stop r x f = ebind r (\<lambda>v s. if v_has_err s \<or> v_returning s then Done (x v s) s else f v s)"

definition fail_with :: "string \<Rightarrow> mp_vm \<Rightarrow> ptr eres" where
  "fail_with msg s = Done None (set_err msg s)"

text \<open>A constructor's result, and the same with \<open>MemoryError\<close> for a null pointer.\<close>

definition ret :: "ptr \<times> mp_vm \<Rightarrow> ptr eres" where
  "ret r = Done (fst r) (snd r)"

definition or_memory_error :: "ptr \<times> mp_vm \<Rightarrow> (ptr \<Rightarrow> mp_vm \<Rightarrow> ptr eres) \<Rightarrow> ptr eres" where
  "or_memory_error r f = (if fst r = None then fail_with ''MemoryError'' (snd r) else f (fst r) (snd r))"

text \<open>\<^verbatim>\<open>o->type\<close>, for a pointer that must not be null.\<close>

definition deref :: "ptr \<Rightarrow> mp_vm \<Rightarrow> (mp_obj \<Rightarrow> ptr eres) \<Rightarrow> ptr eres" where
  "deref p s f = (case obj_at p s of None \<Rightarrow> Crash Null_deref s | Some x \<Rightarrow> f x)"

definition is_int :: "mp_obj \<Rightarrow> bool" where
  "is_int x = (case x of T_INT v \<Rightarrow> True | T_BOOL b \<Rightarrow> True | _ \<Rightarrow> False)"

definition int_val :: "mp_obj \<Rightarrow> u32" where
  "int_val x = (case x of T_INT v \<Rightarrow> v | T_BOOL b \<Rightarrow> (if b then 1 else 0) | _ \<Rightarrow> 0)"

section \<open>Operators\<close>

fun append_all :: "ptr \<Rightarrow> ptr list \<Rightarrow> mp_vm \<Rightarrow> mp_vm" where
  "append_all l [] s = s"
| "append_all l (x # xs) s = append_all l xs (snd (mp_list_append l x s))"

definition str_concat :: "ev_cfg \<Rightarrow> string \<Rightarrow> string \<Rightarrow> mp_vm \<Rightarrow> ptr eres" where
  "str_concat cf a b s =
     (case mp_alloc cf (length a + length b + 1) s of
        (False, s1) \<Rightarrow> fail_with ''MemoryError'' s1
      | (True, s1) \<Rightarrow> ret (mp_str_new cf (a @ b) s1))"

definition list_concat :: "ev_cfg \<Rightarrow> ptr list \<Rightarrow> ptr list \<Rightarrow> mp_vm \<Rightarrow> ptr eres" where
  "list_concat cf xs ys s =
     or_memory_error (mp_list_new cf s) (\<lambda>l s1. Done l (append_all l ys (append_all l xs s1)))"

text \<open>
  \<open>len\<close> is a 32-bit product; the copies write \<open>b\<close> times the whole string all the same, so the buffer
  overflows unless the product is exact and the heap has room for it.
\<close>

definition str_repeat :: "ev_cfg \<Rightarrow> string \<Rightarrow> u32 \<Rightarrow> mp_vm \<Rightarrow> ptr eres" where
  "str_repeat cf a b s =
     (if sint b \<le> 0 then ret (mp_str_new cf [] s)
      else let total = length a * unat b; len = total mod 2 ^ 32
           in case mp_alloc cf (len + 1) s of
                (False, s1) \<Rightarrow> fail_with ''MemoryError'' s1
              | (True, s1) \<Rightarrow>
                  if cf_heap (c_parse cf) < v_heap s + total + 1 then Crash Copy_overrun s1
                  else ret (mp_str_new cf (concat (replicate (unat b) a)) s1))"

text \<open>The divisions truncate; the quotient that does not fit traps.\<close>

definition int_divmod :: "ev_cfg \<Rightarrow> (int \<Rightarrow> int \<Rightarrow> int) \<Rightarrow> u32 \<Rightarrow> u32 \<Rightarrow> mp_vm \<Rightarrow> ptr eres" where
  "int_divmod cf f x y s =
     (if y = 0 then fail_with ''ZeroDivisionError'' s
      else if sint x = - (2 ^ 31) \<and> sint y = - 1 then Crash Div_trap s
      else ret (mp_int_new cf (of_int (f (sint x) (sint y))) s))"

definition int_op :: "ev_cfg \<Rightarrow> tok_kind \<Rightarrow> u32 \<Rightarrow> u32 \<Rightarrow> mp_vm \<Rightarrow> ptr eres" where
  "int_op cf op x y s =
     (case op of
        TOK_PLUS \<Rightarrow> ret (mp_int_new cf (x + y) s)
      | TOK_MINUS \<Rightarrow> ret (mp_int_new cf (x - y) s)
      | TOK_STAR \<Rightarrow> ret (mp_int_new cf (x * y) s)
      | TOK_SLASH \<Rightarrow> int_divmod cf (\<lambda>a b. a sdiv b) x y s
      | TOK_PERCENT \<Rightarrow> int_divmod cf (\<lambda>a b. a smod b) x y s
      | _ \<Rightarrow> fail_with ''TypeError: bad binop'' s)"

text \<open>The operands, both evaluated and neither null.\<close>

definition apply_binop :: "ev_cfg \<Rightarrow> tok_kind \<Rightarrow> mp_obj \<Rightarrow> mp_obj \<Rightarrow> mp_vm \<Rightarrow> ptr eres" where
  "apply_binop cf op a b s =
     (let ints = (if \<not> is_int a \<or> \<not> is_int b then fail_with ''TypeError: unsupported operand types'' s
                  else int_op cf op (int_val a) (int_val b) s)
      in if op = TOK_PLUS then
           (case a of
              T_STR x \<Rightarrow> (case b of T_STR y \<Rightarrow> str_concat cf x y s | _ \<Rightarrow> ints)
            | T_LIST xs \<Rightarrow> (case b of T_LIST ys \<Rightarrow> list_concat cf xs ys s | _ \<Rightarrow> ints)
            | _ \<Rightarrow> ints)
         else if op = TOK_STAR then
           (case a of T_STR x \<Rightarrow> if is_int b then str_repeat cf x (int_val b) s else ints | _ \<Rightarrow> ints)
         else ints)"

text \<open>
  The type of the right operand is only read (and a null one only noticed) where the tests before
  it hold; \<open>mp_as_int\<close> accepts a null pointer.
\<close>

definition int_operands :: "ev_cfg \<Rightarrow> tok_kind \<Rightarrow> ptr \<Rightarrow> ptr \<Rightarrow> mp_vm \<Rightarrow> ptr eres" where
  "int_operands cf op pa pb s =
     (case (mp_as_int pa s, mp_as_int pb s) of
        (Some x, Some y) \<Rightarrow> int_op cf op x y s
      | _ \<Rightarrow> fail_with ''TypeError: unsupported operand types'' s)"

definition binop_values :: "ev_cfg \<Rightarrow> tok_kind \<Rightarrow> ptr \<Rightarrow> ptr \<Rightarrow> mp_vm \<Rightarrow> ptr eres" where
  "binop_values cf op pa pb s =
     (if op = TOK_PLUS \<or> op = TOK_STAR then
        deref pa s (\<lambda>a.
          if (case a of T_STR x \<Rightarrow> True | T_LIST xs \<Rightarrow> op = TOK_PLUS | _ \<Rightarrow> False)
          then deref pb s (\<lambda>b. apply_binop cf op a b s)
          else int_operands cf op pa pb s)
      else int_operands cf op pa pb s)"

definition eval_binop :: "ev_cfg \<Rightarrow> evaluator \<Rightarrow> tok_kind \<Rightarrow> mp_node \<Rightarrow> mp_node \<Rightarrow> mp_vm \<Rightarrow> ptr eres" where
  "eval_binop cf ev op x y s =
     (if op = TOK_AND then
        or_stop (ev x s) (\<lambda>a s1. a) (\<lambda>a s1. if \<not> mp_is_truthy a s1 then Done a s1 else ev y s1)
      else if op = TOK_OR then
        or_stop (ev x s) (\<lambda>a s1. a) (\<lambda>a s1. if mp_is_truthy a s1 then Done a s1 else ev y s1)
      else
        or_stop (ev x s) (\<lambda>a s1. None) (\<lambda>a s1.
          or_stop (ev y s1) (\<lambda>b s2. None) (\<lambda>b s2. binop_values cf op a b s2)))"

definition compare_holds :: "tok_kind \<Rightarrow> int \<Rightarrow> int \<Rightarrow> bool" where
  "compare_holds op x y =
     (case op of TOK_EQEQ \<Rightarrow> x = y | TOK_NE \<Rightarrow> x \<noteq> y | TOK_LT \<Rightarrow> x < y | TOK_GT \<Rightarrow> x > y
      | TOK_LE \<Rightarrow> x \<le> y | TOK_GE \<Rightarrow> x \<ge> y | _ \<Rightarrow> False)"

definition compare_ints :: "tok_kind \<Rightarrow> ptr \<Rightarrow> ptr \<Rightarrow> mp_vm \<Rightarrow> ptr eres" where
  "compare_ints op pa pb s =
     (case (mp_as_int pa s, mp_as_int pb s) of
        (Some x, Some y) \<Rightarrow> Done (mp_bool_from (compare_holds op (sint x) (sint y))) s
      | _ \<Rightarrow>
          if op = TOK_EQEQ then Done (mp_bool_from (pa = pb)) s
          else if op = TOK_NE then Done (mp_bool_from (pa \<noteq> pb)) s
          else fail_with ''TypeError: comparison'' s)"

definition compare_values :: "tok_kind \<Rightarrow> ptr \<Rightarrow> ptr \<Rightarrow> mp_vm \<Rightarrow> ptr eres" where
  "compare_values op pa pb s =
     deref pa s (\<lambda>a.
       case a of
         T_STR x \<Rightarrow>
           deref pb s (\<lambda>b.
             case b of
               T_STR y \<Rightarrow> Done (mp_bool_from (compare_holds op (kstrcmp x y) 0)) s
             | _ \<Rightarrow> compare_ints op pa pb s)
       | _ \<Rightarrow> compare_ints op pa pb s)"

definition eval_compare :: "evaluator \<Rightarrow> tok_kind \<Rightarrow> mp_node \<Rightarrow> mp_node \<Rightarrow> mp_vm \<Rightarrow> ptr eres" where
  "eval_compare ev op x y s =
     or_stop (ev x s) (\<lambda>a s1. None) (\<lambda>a s1.
       or_stop (ev y s1) (\<lambda>b s2. None) (\<lambda>b s2. compare_values op a b s2))"

section \<open>Calls of user functions\<close>

text \<open>
  Each parameter is bound as soon as its argument is evaluated, so a later argument is evaluated
  with the earlier parameters in place. The values they hide are saved; \<open>None\<close> is the early return.
\<close>

fun bind_args :: "evaluator \<Rightarrow> string list \<Rightarrow> mp_node list \<Rightarrow> (string \<times> ptr) list \<Rightarrow> mp_vm \<Rightarrow>
    (string \<times> ptr) list option eres" where
  "bind_args ev (p # ps) (a # as) saved s =
     (let old = mp_env_get p s
      in ebind (ev a s) (\<lambda>v s1.
           if v_has_err s1 then Done None s1
           else case mp_env_set p v s1 of
                  (False, s2) \<Rightarrow> Done None s2
                | (True, s2) \<Rightarrow> bind_args ev ps as (saved @ [(strncpy_val p MP_ENV_NAME, old)]) s2))"
| "bind_args ev ps as saved s = Done (Some saved) s"

fun restore :: "(string \<times> ptr) list \<Rightarrow> mp_vm \<Rightarrow> mp_vm" where
  "restore [] s = s"
| "restore ((nm, old) # rest) s =
     restore rest (if old \<noteq> None then snd (mp_env_set (cstr nm) old s) else env_drop nm s)"

definition call_user :: "evaluator \<Rightarrow> string list \<Rightarrow> mp_node \<Rightarrow> mp_node list \<Rightarrow> mp_vm \<Rightarrow> ptr eres" where
  "call_user ev ps body args s =
     (if length ps \<noteq> length args then fail_with ''TypeError: bad arity'' s
      else if MP_FUNC_ARGS < length ps then fail_with ''TypeError: too many params'' s
      else ebind (bind_args ev ps args [] s) (\<lambda>saved s1.
             case saved of
               None \<Rightarrow> Done None s1
             | Some vs \<Rightarrow>
                 ebind (ev body (s1\<lparr>v_returning := False, v_retval := Mp_None\<rparr>)) (\<lambda>r s2.
                   let result = (if v_returning s2 then v_retval s2 else r)
                   in Done (if result = None then Mp_None else result) (restore vs (s2\<lparr>v_returning := False\<rparr>)))))"

section \<open>Built-in functions\<close>

text \<open>Characters and bytes of files.\<close>

definition to_bytes :: "string \<Rightarrow> u8 list" where
  "to_bytes t = map of_char t"

definition to_chars :: "u8 list \<Rightarrow> string" where
  "to_chars bs = map (\<lambda>b. char_of (unat b)) bs"

definition put :: "string \<Rightarrow> mp_vm \<Rightarrow> mp_vm" where
  "put t s = s\<lparr>v_out := v_out s @ cstr t\<rparr>"

definition default_print :: "ptr \<Rightarrow> bool \<Rightarrow> mp_vm \<Rightarrow> mp_vm" where
  "default_print p nl s = (let s1 = put (obj_text p s) s in if nl then put [newline] s1 else s1)"

fun print_args :: "evaluator \<Rightarrow> mp_node list \<Rightarrow> mp_vm \<Rightarrow> ptr eres" where
  "print_args ev [] s = Done Mp_None s"
| "print_args ev (a # as) s =
     or_fail (ev a s) (\<lambda>v s1.
       let s2 = default_print v (as = []) s1
       in print_args ev as (if as \<noteq> [] then put '' '' s2 else s2))"

definition bi_print :: "ev_cfg \<Rightarrow> evaluator \<Rightarrow> mp_node list \<Rightarrow> mp_vm \<Rightarrow> ptr eres" where
  "bi_print cf ev args s =
     (if args = [] then (let (p, s1) = mp_str_new_cstr cf [] s in Done Mp_None (default_print p True s1))
      else print_args ev args s)"

text \<open>
  One loop for both directions. After \<open>2 ^ 32\<close> rounds the counter has come back to a value it had, so a
  loop still running then never ends.
\<close>

fun range_loop :: "nat \<Rightarrow> ev_cfg \<Rightarrow> u32 \<Rightarrow> u32 \<Rightarrow> u32 \<Rightarrow> ptr \<Rightarrow> mp_vm \<Rightarrow> ptr eres" where
  "range_loop 0 cf x stop step l s = Spent s"
| "range_loop (Suc n) cf x stop step l s =
     (if (if 0 < sint step then sint x < sint stop else sint x > sint stop) then
        (let (p, s1) = mp_int_new cf x s
         in range_loop n cf (x + step) stop step l (snd (mp_list_append l p s1)))
      else Done l s)"

definition range_list :: "ev_cfg \<Rightarrow> u32 \<Rightarrow> u32 \<Rightarrow> u32 \<Rightarrow> mp_vm \<Rightarrow> ptr eres" where
  "range_list cf start stop step s =
     or_memory_error (mp_list_new cf s) (\<lambda>l s1. range_loop (2 ^ 32) cf start stop step l s1)"

text \<open>The tests come after both evaluations; \<open>mp_as_int\<close> of the first is not tried again.\<close>

definition bi_range :: "ev_cfg \<Rightarrow> evaluator \<Rightarrow> mp_node list \<Rightarrow> mp_vm \<Rightarrow> ptr eres" where
  "bi_range cf ev args s =
     (case args of
        [a] \<Rightarrow>
          or_fail (ev a s) (\<lambda>p s1.
            case mp_as_int p s1 of
              None \<Rightarrow> fail_with ''TypeError: range()'' s1
            | Some stop \<Rightarrow> range_list cf 0 stop 1 s1)
      | [a, b] \<Rightarrow>
          or_fail (ev a s) (\<lambda>p s1. or_fail (ev b s1) (\<lambda>q s2.
            case (mp_as_int p s2, mp_as_int q s2) of
              (Some start, Some stop) \<Rightarrow> range_list cf start stop 1 s2
            | _ \<Rightarrow> fail_with ''TypeError: range()'' s2))
      | [a, b, c] \<Rightarrow>
          or_fail (ev a s) (\<lambda>p s1. or_fail (ev b s1) (\<lambda>q s2.
            case (mp_as_int p s2, mp_as_int q s2) of
              (Some start, Some stop) \<Rightarrow>
                or_fail (ev c s2) (\<lambda>r s3.
                  case mp_as_int r s3 of
                    None \<Rightarrow> fail_with ''ValueError: range step'' s3
                  | Some step \<Rightarrow>
                      if step = 0 then fail_with ''ValueError: range step'' s3
                      else range_list cf start stop step s3)
            | _ \<Rightarrow> fail_with ''TypeError: range()'' s2))
      | _ \<Rightarrow> fail_with ''TypeError: range() args'' s)"

definition bi_append :: "evaluator \<Rightarrow> mp_node list \<Rightarrow> mp_vm \<Rightarrow> ptr eres" where
  "bi_append ev args s =
     (case args of
        [a, b] \<Rightarrow>
          or_fail (ev a s) (\<lambda>l s1. or_fail (ev b s1) (\<lambda>x s2.
            deref l s2 (\<lambda>y. case y of
              T_LIST xs \<Rightarrow>
                (case mp_list_append l x s2 of
                   (False, s3) \<Rightarrow> fail_with ''RuntimeError: list full'' s3
                 | (True, s3) \<Rightarrow> Done Mp_None s3)
            | _ \<Rightarrow> fail_with ''TypeError: append() expects list'' s2)))
      | _ \<Rightarrow> fail_with ''TypeError: append() takes 2 arguments'' s)"

text \<open>The functions of one argument: it is evaluated, and its type looked at.\<close>

definition with_arg :: "string \<Rightarrow> evaluator \<Rightarrow> mp_node list \<Rightarrow> mp_vm \<Rightarrow> (ptr \<Rightarrow> mp_vm \<Rightarrow> ptr eres) \<Rightarrow> ptr eres" where
  "with_arg msg ev args s f = (case args of [a] \<Rightarrow> or_fail (ev a s) f | _ \<Rightarrow> fail_with msg s)"

definition bi_len :: "ev_cfg \<Rightarrow> evaluator \<Rightarrow> mp_node list \<Rightarrow> mp_vm \<Rightarrow> ptr eres" where
  "bi_len cf ev args s =
     with_arg ''TypeError: len() takes 1 argument'' ev args s (\<lambda>p s1.
       deref p s1 (\<lambda>x. case x of
         T_STR t \<Rightarrow> ret (mp_int_new cf (of_nat (length t)) s1)
       | T_LIST xs \<Rightarrow> ret (mp_int_new cf (of_nat (length xs)) s1)
       | _ \<Rightarrow> fail_with ''TypeError: object has no len()'' s1))"

fun parse_int_loop :: "u32 \<Rightarrow> string \<Rightarrow> u32 option" where
  "parse_int_loop x [] = Some x"
| "parse_int_loop x (c # cs) =
     (if \<not> is_dec c then None else parse_int_loop (x * 10 + (of_char c - of_char (CHR ''0''))) cs)"

text \<open>\<open>None\<close> is the \<open>ValueError\<close>.\<close>

definition parse_int :: "string \<Rightarrow> u32 option" where
  "parse_int t =
     (let neg = t \<noteq> [] \<and> hd t = CHR ''-''; ds = (if neg then tl t else t)
      in if ds = [] then None
         else map_option (\<lambda>x. if neg then - x else x) (parse_int_loop 0 ds))"

definition bi_int :: "ev_cfg \<Rightarrow> evaluator \<Rightarrow> mp_node list \<Rightarrow> mp_vm \<Rightarrow> ptr eres" where
  "bi_int cf ev args s =
     with_arg ''TypeError: int() takes 1 argument'' ev args s (\<lambda>p s1.
       deref p s1 (\<lambda>x. case x of
         T_STR t \<Rightarrow>
           (case parse_int t of
              None \<Rightarrow> fail_with ''ValueError: invalid literal for int()'' s1
            | Some v \<Rightarrow> ret (mp_int_new cf v s1))
       | _ \<Rightarrow> if is_int x then ret (mp_int_new cf (int_val x) s1)
              else fail_with ''TypeError: int() argument'' s1))"

definition bi_str :: "ev_cfg \<Rightarrow> evaluator \<Rightarrow> mp_node list \<Rightarrow> mp_vm \<Rightarrow> ptr eres" where
  "bi_str cf ev args s =
     with_arg ''TypeError: str() takes 1 argument'' ev args s (\<lambda>p s1. ret (mp_str_new_cstr cf (obj_text p s1) s1))"

definition bi_type :: "ev_cfg \<Rightarrow> evaluator \<Rightarrow> mp_node list \<Rightarrow> mp_vm \<Rightarrow> ptr eres" where
  "bi_type cf ev args s =
     with_arg ''TypeError: type() takes 1 argument'' ev args s (\<lambda>p s1. ret (mp_str_new_cstr cf (mp_type_name p s1) s1))"

text \<open>Files. A mode the first letter does not decide is an error.\<close>

definition mode_flags :: "string \<Rightarrow> u32 option" where
  "mode_flags m =
     (let plus = cget m 1 = CHR ''+''
      in if cget m 0 = CHR ''r'' then Some (MPFS_O_READ OR (if plus then MPFS_O_WRITE else 0))
         else if cget m 0 = CHR ''w'' then
           Some (MPFS_O_WRITE OR MPFS_O_CREATE OR MPFS_O_TRUNC OR (if plus then MPFS_O_READ else 0))
         else if cget m 0 = CHR ''a'' then
           Some (MPFS_O_WRITE OR MPFS_O_CREATE OR MPFS_O_APPEND OR (if plus then MPFS_O_READ else 0))
         else None)"

definition open_as :: "ev_cfg \<Rightarrow> string \<Rightarrow> string \<Rightarrow> mp_vm \<Rightarrow> ptr eres" where
  "open_as cf path mode s =
     (case mode_flags mode of
        None \<Rightarrow> fail_with ''ValueError: invalid mode'' s
      | Some fl \<Rightarrow>
          (case mpfs_open (c_fmax cf) path fl (v_fs s) of
             (Inl e, fs) \<Rightarrow> fail_with (mpfs_strerror e) (s\<lparr>v_fs := fs\<rparr>)
           | (Inr fd, fs) \<Rightarrow> ret (mp_file_new cf (int fd) (s\<lparr>v_fs := fs\<rparr>))))"

definition bi_open :: "ev_cfg \<Rightarrow> evaluator \<Rightarrow> mp_node list \<Rightarrow> mp_vm \<Rightarrow> ptr eres" where
  "bi_open cf ev args s =
     (let msg = ''TypeError: path must be str''
      in case args of
           [a] \<Rightarrow>
             or_fail (ev a s) (\<lambda>p s1. deref p s1 (\<lambda>x.
               case x of T_STR path \<Rightarrow> open_as cf path ''r'' s1 | _ \<Rightarrow> fail_with msg s1))
         | [a, b] \<Rightarrow>
             or_fail (ev a s) (\<lambda>p s1. deref p s1 (\<lambda>x.
               case x of
                 T_STR path \<Rightarrow>
                   or_fail (ev b s1) (\<lambda>q s2. deref q s2 (\<lambda>y.
                     case y of T_STR mode \<Rightarrow> open_as cf path mode s2
                     | _ \<Rightarrow> fail_with ''TypeError: mode must be str'' s2))
               | _ \<Rightarrow> fail_with msg s1))
         | _ \<Rightarrow> fail_with ''TypeError: open() takes 1 or 2 arguments'' s)"

text \<open>A negative or too large count asks for a whole file's worth.\<close>

definition read_from :: "ev_cfg \<Rightarrow> int \<Rightarrow> u32 \<Rightarrow> mp_vm \<Rightarrow> ptr eres" where
  "read_from cf fd want s =
     (let n = (if sint want < 0 \<or> int (c_fmax cf) < sint want then c_fmax cf else unat want)
      in case mpfs_read fd n (v_fs s) of
           (Inl e, fs) \<Rightarrow> fail_with (mpfs_strerror e) (s\<lparr>v_fs := fs\<rparr>)
         | (Inr bs, fs) \<Rightarrow> ret (mp_str_new cf (to_chars bs) (s\<lparr>v_fs := fs\<rparr>)))"

definition bi_read :: "ev_cfg \<Rightarrow> evaluator \<Rightarrow> mp_node list \<Rightarrow> mp_vm \<Rightarrow> ptr eres" where
  "bi_read cf ev args s =
     (let msg = ''TypeError: read() expects file''
      in case args of
           [a] \<Rightarrow>
             or_fail (ev a s) (\<lambda>p s1. deref p s1 (\<lambda>x.
               case x of T_FILE fd \<Rightarrow> read_from cf fd (- 1) s1 | _ \<Rightarrow> fail_with msg s1))
         | [a, b] \<Rightarrow>
             or_fail (ev a s) (\<lambda>p s1. deref p s1 (\<lambda>x.
               case x of
                 T_FILE fd0 \<Rightarrow>
                   or_fail (ev b s1) (\<lambda>q s2.
                     case mp_as_int q s2 of
                       None \<Rightarrow> fail_with ''TypeError: size must be int'' s2
                     | Some want \<Rightarrow>
                         deref p s2 (\<lambda>y. case y of T_FILE fd \<Rightarrow> read_from cf fd want s2 | _ \<Rightarrow> Crash Wrong_member s2))
               | _ \<Rightarrow> fail_with msg s1))
         | _ \<Rightarrow> fail_with ''TypeError: read()'' s)"

definition bi_write :: "ev_cfg \<Rightarrow> evaluator \<Rightarrow> mp_node list \<Rightarrow> mp_vm \<Rightarrow> ptr eres" where
  "bi_write cf ev args s =
     (case args of
        [a, b] \<Rightarrow>
          or_fail (ev a s) (\<lambda>p s1. or_fail (ev b s1) (\<lambda>q s2.
            deref p s2 (\<lambda>x. case x of
              T_FILE fd \<Rightarrow>
                deref q s2 (\<lambda>y. case y of
                  T_STR t \<Rightarrow>
                    (case mpfs_write (c_fmax cf) fd (to_bytes t) (v_fs s2) of
                       (Inl e, fs) \<Rightarrow> fail_with (mpfs_strerror e) (s2\<lparr>v_fs := fs\<rparr>)
                     | (Inr n, fs) \<Rightarrow> ret (mp_int_new cf (of_nat n) (s2\<lparr>v_fs := fs\<rparr>)))
                | _ \<Rightarrow> fail_with ''TypeError: write()'' s2)
            | _ \<Rightarrow> fail_with ''TypeError: write()'' s2)))
      | _ \<Rightarrow> fail_with ''TypeError: write()'' s)"

definition bi_close :: "evaluator \<Rightarrow> mp_node list \<Rightarrow> mp_vm \<Rightarrow> ptr eres" where
  "bi_close ev args s =
     with_arg ''TypeError: close()'' ev args s (\<lambda>p s1.
       deref p s1 (\<lambda>x. case x of
         T_FILE fd \<Rightarrow>
           (case mpfs_close fd (v_fs s1) of
              (Inl e, fs) \<Rightarrow> fail_with (mpfs_strerror e) (s1\<lparr>v_fs := fs\<rparr>)
            | (Inr u, fs) \<Rightarrow> Done Mp_None (set_obj p (T_FILE (- 1)) (s1\<lparr>v_fs := fs\<rparr>)))
       | _ \<Rightarrow> fail_with ''TypeError: close()'' s1))"

definition bi_remove :: "ev_cfg \<Rightarrow> evaluator \<Rightarrow> mp_node list \<Rightarrow> mp_vm \<Rightarrow> ptr eres" where
  "bi_remove cf ev args s =
     with_arg ''TypeError: remove()'' ev args s (\<lambda>p s1.
       deref p s1 (\<lambda>x. case x of
         T_STR path \<Rightarrow>
           (case mpfs_unlink (c_fmax cf) path (v_fs s1) of
              (Inl e, fs) \<Rightarrow> fail_with (mpfs_strerror e) (s1\<lparr>v_fs := fs\<rparr>)
            | (Inr u, fs) \<Rightarrow> Done Mp_None (s1\<lparr>v_fs := fs\<rparr>))
       | _ \<Rightarrow> fail_with ''TypeError: remove()'' s1))"

definition bi_exists :: "evaluator \<Rightarrow> mp_node list \<Rightarrow> mp_vm \<Rightarrow> ptr eres" where
  "bi_exists ev args s =
     with_arg ''TypeError: exists()'' ev args s (\<lambda>p s1.
       deref p s1 (\<lambda>x. case x of
         T_STR path \<Rightarrow> Done (mp_bool_from (mpfs_exists path (v_fs s1))) s1
       | _ \<Rightarrow> fail_with ''TypeError: exists()'' s1))"

definition bi_listdir :: "ev_cfg \<Rightarrow> mp_node list \<Rightarrow> mp_vm \<Rightarrow> ptr eres" where
  "bi_listdir cf args s =
     (if args \<noteq> [] then fail_with ''TypeError: listdir()'' s
      else case mpfs_listdir 1024 (v_fs s) of
             Inl e \<Rightarrow> fail_with (mpfs_strerror e) s
           | Inr t \<Rightarrow> ret (mp_str_new cf t s))"

definition bi_format :: "ev_cfg \<Rightarrow> mp_node list \<Rightarrow> mp_vm \<Rightarrow> ptr eres" where
  "bi_format cf args s =
     (if args \<noteq> [] then fail_with ''TypeError: format()'' s
      else Done Mp_None (s\<lparr>v_fs := mpfs_format (c_files cf) (c_fmax cf) (v_fs s)\<rparr>))"

text \<open>
  The line editor of \<open>input\<close>: what was typed, the line so far and what is echoed. The end of the
  input reads as 0, which ends the line.
\<close>

fun input_loop :: "int list \<Rightarrow> string \<Rightarrow> string \<Rightarrow> string \<times> string \<times> int list" where
  "input_loop [] buf out = (buf, out, [])"
| "input_loop (c # cs) buf out =
     (if c = 10 \<or> c = 13 \<or> c = 0 then (buf, out, cs)
      else if c = 8 then
        (if buf \<noteq> [] then input_loop cs (butlast buf) (out @ [CHR 0x08, CHR '' '', CHR 0x08])
         else input_loop cs buf out)
      else if 0x100 \<le> c \<or> c < 32 then input_loop cs buf out
      else if length buf + 1 < MP_MAX_LINE then
        input_loop cs (buf @ [char_of (nat c)]) (out @ [char_of (nat c)])
      else input_loop cs buf out)"

definition read_line :: "ev_cfg \<Rightarrow> string \<Rightarrow> mp_vm \<Rightarrow> ptr eres" where
  "read_line cf prompt s =
     (case input_loop (v_in s) [] [] of
        (buf, out, rest) \<Rightarrow>
          ret (mp_str_new cf buf ((put prompt s)\<lparr>v_out := v_out (put prompt s) @ out @ [newline], v_in := rest\<rparr>)))"

definition bi_input :: "ev_cfg \<Rightarrow> evaluator \<Rightarrow> mp_node list \<Rightarrow> mp_vm \<Rightarrow> ptr eres" where
  "bi_input cf ev args s =
     (case args of
        [] \<Rightarrow> read_line cf [] s
      | [a] \<Rightarrow>
          or_fail (ev a s) (\<lambda>p s1. deref p s1 (\<lambda>x.
            case x of T_STR prompt \<Rightarrow> read_line cf prompt s1 | _ \<Rightarrow> fail_with ''TypeError: input prompt'' s1))
      | _ \<Rightarrow> fail_with ''TypeError: input()'' s)"

definition call_builtin :: "ev_cfg \<Rightarrow> evaluator \<Rightarrow> string \<Rightarrow> mp_node list \<Rightarrow> mp_vm \<Rightarrow> ptr eres" where
  "call_builtin cf ev nm args s =
     (if nm = ''print'' then bi_print cf ev args s
      else if nm = ''range'' then bi_range cf ev args s
      else if nm = ''append'' then bi_append ev args s
      else if nm = ''len'' then bi_len cf ev args s
      else if nm = ''int'' then bi_int cf ev args s
      else if nm = ''str'' then bi_str cf ev args s
      else if nm = ''type'' then bi_type cf ev args s
      else if nm = ''open'' then bi_open cf ev args s
      else if nm = ''read'' then bi_read cf ev args s
      else if nm = ''write'' then bi_write cf ev args s
      else if nm = ''close'' then bi_close ev args s
      else if nm = ''remove'' then bi_remove cf ev args s
      else if nm = ''exists'' then bi_exists ev args s
      else if nm = ''listdir'' then bi_listdir cf args s
      else if nm = ''format'' then bi_format cf args s
      else if nm = ''input'' then bi_input cf ev args s
      else fail_with ''NameError: unknown function'' s)"

section \<open>Statements and expressions\<close>

fun list_items :: "evaluator \<Rightarrow> ptr \<Rightarrow> mp_node list \<Rightarrow> mp_vm \<Rightarrow> ptr eres" where
  "list_items ev l [] s = Done l s"
| "list_items ev l (e # es) s =
     or_fail (ev e s) (\<lambda>v s1. list_items ev l es (snd (mp_list_append l v s1)))"

definition eval_list :: "ev_cfg \<Rightarrow> evaluator \<Rightarrow> mp_node list \<Rightarrow> mp_vm \<Rightarrow> ptr eres" where
  "eval_list cf ev es s = or_memory_error (mp_list_new cf s) (\<lambda>l s1. list_items ev l es s1)"

definition eval_index :: "ev_cfg \<Rightarrow> evaluator \<Rightarrow> mp_node \<Rightarrow> mp_node \<Rightarrow> mp_vm \<Rightarrow> ptr eres" where
  "eval_index cf ev x y s =
     or_fail (ev x s) (\<lambda>p s1. or_fail (ev y s1) (\<lambda>q s2.
       case mp_as_int q s2 of
         None \<Rightarrow> fail_with ''TypeError: indices must be int'' s2
       | Some i \<Rightarrow>
           deref p s2 (\<lambda>b. case b of
             T_LIST xs \<Rightarrow>
               (case mp_list_get p i s2 of
                  None \<Rightarrow> fail_with ''IndexError'' s2
                | Some v \<Rightarrow> Done (Some v) s2)
           | T_STR t \<Rightarrow>
               (case index_of i (length t) of
                  None \<Rightarrow> fail_with ''IndexError'' s2
                | Some k \<Rightarrow> ret (mp_str_new cf [t ! k] s2))
           | _ \<Rightarrow> fail_with ''TypeError: not subscriptable'' s2)))"

definition eval_unary :: "ev_cfg \<Rightarrow> evaluator \<Rightarrow> tok_kind \<Rightarrow> mp_node \<Rightarrow> mp_vm \<Rightarrow> ptr eres" where
  "eval_unary cf ev op x s =
     or_fail (ev x s) (\<lambda>p s1.
       if op = TOK_NOT then Done (mp_bool_from (\<not> mp_is_truthy p s1)) s1
       else case mp_as_int p s1 of
              None \<Rightarrow> fail_with ''TypeError: bad unary'' s1
            | Some v \<Rightarrow>
                if op = TOK_PLUS then ret (mp_int_new cf v s1)
                else if op = TOK_MINUS then ret (mp_int_new cf (- v) s1)
                else fail_with ''TypeError: bad unary'' s1)"

definition eval_call :: "ev_cfg \<Rightarrow> evaluator \<Rightarrow> string \<Rightarrow> mp_node list \<Rightarrow> mp_vm \<Rightarrow> ptr eres" where
  "eval_call cf ev nm args s =
     (case obj_at (mp_env_get nm s) s of
        Some (T_FUNC ps body) \<Rightarrow> call_user ev ps body args s
      | _ \<Rightarrow> call_builtin cf ev nm args s)"

definition assign :: "string \<Rightarrow> ptr \<Rightarrow> mp_vm \<Rightarrow> ptr eres" where
  "assign nm v s = (case mp_env_set nm v s of (False, s1) \<Rightarrow> Done None s1 | (True, s1) \<Rightarrow> Done v s1)"

definition WHILE_GUARD :: nat where "WHILE_GUARD = 100000"

fun while_loop :: "nat \<Rightarrow> evaluator \<Rightarrow> mp_node \<Rightarrow> mp_node \<Rightarrow> mp_vm \<Rightarrow> ptr eres" where
  "while_loop 0 ev c body s = Done Mp_None s"
| "while_loop (Suc g) ev c body s =
     or_stop (ev c s) (\<lambda>p s1. p) (\<lambda>p s1.
       if \<not> mp_is_truthy p s1 then Done Mp_None s1
       else or_stop (ev body s1) (\<lambda>v s2. v_retval s2) (\<lambda>v s2. while_loop g ev c body s2))"

text \<open>
  The length is read again in every round: the body may append to the list it walks over, but never
  past \<open>MP_LIST_MAX\<close> items, so that many rounds and the last test are enough.
\<close>

fun for_list :: "nat \<Rightarrow> evaluator \<Rightarrow> string \<Rightarrow> ptr \<Rightarrow> mp_node \<Rightarrow> nat \<Rightarrow> mp_vm \<Rightarrow> ptr eres" where
  "for_list 0 ev nm l body i s = Spent s"
| "for_list (Suc n) ev nm l body i s =
     (case obj_at l s of
        Some (T_LIST xs) \<Rightarrow>
          if i < length xs then
            (case mp_env_set nm (xs ! i) s of
               (False, s1) \<Rightarrow> Done None s1
             | (True, s1) \<Rightarrow>
                 or_stop (ev body s1) (\<lambda>v s2. v_retval s2) (\<lambda>v s2. for_list n ev nm l body (Suc i) s2))
          else Done Mp_None s
      | _ \<Rightarrow> Crash Wrong_member s)"

fun for_chars :: "ev_cfg \<Rightarrow> evaluator \<Rightarrow> string \<Rightarrow> string \<Rightarrow> mp_node \<Rightarrow> mp_vm \<Rightarrow> ptr eres" where
  "for_chars cf ev nm [] body s = Done Mp_None s"
| "for_chars cf ev nm (c # cs) body s =
     (let (p, s0) = mp_str_new cf [c] s
      in case mp_env_set nm p s0 of
           (False, s1) \<Rightarrow> Done None s1
         | (True, s1) \<Rightarrow>
             or_stop (ev body s1) (\<lambda>v s2. v_retval s2) (\<lambda>v s2. for_chars cf ev nm cs body s2))"

definition eval_for :: "ev_cfg \<Rightarrow> evaluator \<Rightarrow> string \<Rightarrow> mp_node \<Rightarrow> mp_node \<Rightarrow> mp_vm \<Rightarrow> ptr eres" where
  "eval_for cf ev nm x body s =
     or_stop (ev x s) (\<lambda>p s1. p) (\<lambda>p s1.
       deref p s1 (\<lambda>y. case y of
         T_LIST xs \<Rightarrow> for_list (Suc MP_LIST_MAX) ev nm p body 0 s1
       | T_STR t \<Rightarrow> for_chars cf ev nm t body s1
       | _ \<Rightarrow> fail_with ''TypeError: for expects list/str'' s1))"

text \<open>The source of a module, or the error that stops the import.\<close>

definition load_module :: "ev_cfg \<Rightarrow> string \<Rightarrow> mp_vm \<Rightarrow> (string + string) \<times> mp_vm" where
  "load_module cf nm s =
     (case mpfs_open (c_fmax cf) (take 36 nm @ ''.py'') MPFS_O_READ (v_fs s) of
        (Inl e, fs) \<Rightarrow> (Inl ''ImportError: module not found'', s\<lparr>v_fs := fs\<rparr>)
      | (Inr fd, fs) \<Rightarrow>
          (case mpfs_read (int fd) (c_fmax cf - 1) fs of
             (r, fs1) \<Rightarrow>
               let s1 = s\<lparr>v_fs := snd (mpfs_close (int fd) fs1)\<rparr>
               in case r of
                    Inl e \<Rightarrow> (Inl ''ImportError: read failed'', s1)
                  | Inr bs \<Rightarrow> (Inr (to_chars bs), s1)))"

definition eval_import :: "ev_cfg \<Rightarrow> evaluator \<Rightarrow> string \<Rightarrow> mp_vm \<Rightarrow> ptr eres" where
  "eval_import cf ev nm s =
     (case load_module cf nm s of
        (Inl msg, s1) \<Rightarrow> fail_with msg s1
      | (Inr src, s1) \<Rightarrow>
          (case mp_lex (c_tokens cf) src of
             (False, lx) \<Rightarrow> fail_with (lx_err lx) s1
           | (True, lx) \<Rightarrow>
               (case mp_parse (c_parse cf) (v_heap s1) lx of
                  Null p \<Rightarrow> fail_with (p_err p) (s1\<lparr>v_heap := p_heap p\<rparr>)
                | Out \<Rightarrow> Spent s1
                | Ok m p \<Rightarrow> ebind (ev m (s1\<lparr>v_heap := p_heap p\<rparr>)) (\<lambda>v s2. Done Mp_None s2))))"

fun eval_block :: "evaluator \<Rightarrow> ptr \<Rightarrow> mp_node list \<Rightarrow> mp_vm \<Rightarrow> ptr eres" where
  "eval_block ev prev [] s = Done prev s"
| "eval_block ev prev (x # xs) s =
     or_stop (ev x s) (\<lambda>v s1. if v_returning s1 then v_retval s1 else v) (\<lambda>v s1. eval_block ev v xs s1)"

definition is_call_or_assign :: "mp_node \<Rightarrow> bool" where
  "is_call_or_assign n = (case n of ND_CALL f as \<Rightarrow> True | ND_ASSIGN x e \<Rightarrow> True | _ \<Rightarrow> False)"

fun eval_body :: "ev_cfg \<Rightarrow> evaluator \<Rightarrow> mp_node \<Rightarrow> mp_vm \<Rightarrow> ptr eres" where
  "eval_body cf ev ND_NONE s = Done Mp_None s"
| "eval_body cf ev (ND_INT v) s = ret (mp_int_new cf v s)"
| "eval_body cf ev (ND_BOOL b) s = Done (mp_bool_from b) s"
| "eval_body cf ev (ND_STR t) s = ret (mp_str_new cf t s)"
| "eval_body cf ev (ND_NAME nm) s =
     (case mp_env_get nm s of
        None \<Rightarrow> fail_with ''NameError: name is not defined'' s
      | Some v \<Rightarrow> Done (Some v) s)"
| "eval_body cf ev (ND_LIST es) s = eval_list cf ev es s"
| "eval_body cf ev (ND_INDEX x y) s = eval_index cf ev x y s"
| "eval_body cf ev (ND_UNARY op x) s = eval_unary cf ev op x s"
| "eval_body cf ev (ND_BINOP op x y) s = eval_binop cf ev op x y s"
| "eval_body cf ev (ND_COMPARE op x y) s = eval_compare ev op x y s"
| "eval_body cf ev (ND_CALL nm args) s = eval_call cf ev nm args s"
| "eval_body cf ev (ND_FUNC nm ps body) s =
     or_memory_error (mp_func_new cf ps body s) (\<lambda>f s1. assign nm f s1)"
| "eval_body cf ev (ND_RETURN e) s =
     ebind (case e of None \<Rightarrow> Done Mp_None s | Some x \<Rightarrow> ev x s) (\<lambda>v s1.
       if v_has_err s1 then Done None (s1\<lparr>v_retval := v\<rparr>)
       else Done v (s1\<lparr>v_retval := v, v_returning := True\<rparr>))"
| "eval_body cf ev (ND_ASSIGN nm x) s = or_fail (ev x s) (\<lambda>v s1. assign nm v s1)"
| "eval_body cf ev (ND_EXPR_STMT x) s =
     or_stop (ev x s) (\<lambda>v s1. v) (\<lambda>v s1. if \<not> is_call_or_assign x then Done v s1 else Done Mp_None s1)"
| "eval_body cf ev ND_PASS s = Done Mp_None s"
| "eval_body cf ev (ND_IF c body orelse) s =
     or_stop (ev c s) (\<lambda>p s1. p) (\<lambda>p s1.
       if mp_is_truthy p s1 then ev body s1
       else case orelse of None \<Rightarrow> Done Mp_None s1 | Some e \<Rightarrow> ev e s1)"
| "eval_body cf ev (ND_WHILE c body) s = while_loop WHILE_GUARD ev c body s"
| "eval_body cf ev (ND_FOR nm x body) s = eval_for cf ev nm x body s"
| "eval_body cf ev (ND_IMPORT nm) s = eval_import cf ev nm s"
| "eval_body cf ev (ND_BLOCK xs) s = eval_block ev Mp_None xs s"
| "eval_body cf ev (ND_MODULE xs) s = eval_block ev Mp_None xs s"

fun eval_node :: "nat \<Rightarrow> ev_cfg \<Rightarrow> mp_node \<Rightarrow> mp_vm \<Rightarrow> ptr eres" where
  "eval_node 0 cf n s = Spent s"
| "eval_node (Suc k) cf n s =
     (if v_has_err s \<or> v_returning s then Done (v_retval s) s
      else eval_body cf (\<lambda>m t. eval_node k cf m t) n s)"

section \<open>Running a program\<close>

definition mp_eval_init :: "env_slot list" where
  "mp_eval_init = replicate MP_ENV_SLOTS \<lparr>sl_name = [], sl_value = None, sl_used = False\<rparr>"

definition mp_eval_module :: "nat \<Rightarrow> ev_cfg \<Rightarrow> mp_node \<Rightarrow> mp_vm \<Rightarrow> ptr eres" where
  "mp_eval_module k cf m s = eval_node k cf m (s\<lparr>v_has_err := False, v_err := [], v_returning := False\<rparr>)"

definition mp_runtime_init :: "ev_cfg \<Rightarrow> mpfs \<Rightarrow> int list \<Rightarrow> mp_vm" where
  "mp_runtime_init cf fs typed =
     \<lparr>v_objs = mp_objects_init, v_heap = 0, v_slots = mp_eval_init, v_err = [], v_has_err = False,
      v_returning = False, v_retval = None, v_fs = mpfs_format (c_files cf) (c_fmax cf) fs, v_out = [], v_in = typed\<rparr>"

text \<open>\<^verbatim>\<open>mp_runtime_exec\<close>: the message of the failure or the module's value.\<close>

definition syntax_error :: "string \<Rightarrow> string" where
  "syntax_error msg = strncpy_val (''SyntaxError: '' @ msg) MP_ERR_MAX"

definition mp_runtime_exec :: "nat \<Rightarrow> ev_cfg \<Rightarrow> string \<Rightarrow> mp_vm \<Rightarrow> (string + ptr) eres" where
  "mp_runtime_exec k cf src s =
     (case mp_lex (c_tokens cf) src of
        (False, lx) \<Rightarrow> Done (Inl (syntax_error (lx_err lx))) s
      | (True, lx) \<Rightarrow>
          (case mp_parse (c_parse cf) (v_heap s) lx of
             Null p \<Rightarrow> Done (Inl (syntax_error (p_err p))) (s\<lparr>v_heap := p_heap p\<rparr>)
           | Out \<Rightarrow> Spent s
           | Ok m p \<Rightarrow>
               ebind (mp_eval_module k cf m (s\<lparr>v_heap := p_heap p\<rparr>)) (\<lambda>v s1.
                 Done (if v_has_err s1 then Inl (v_err s1) else Inr v) s1)))"

end
