(* ===== verification/MpSafe.thy ===== *)
theory MpSafe
  imports MpEval
begin

text \<open>
  What an evaluation of \<open>MpEval\<close> keeps, whatever the program does: the invariant \<open>vm_ok\<close> of the
  interpreter's state, the growth of its object store, and pointers that refer to objects. One lemma
  per function of the evaluator, over any evaluator of the nodes below; the same proof with the flag
  \<open>st\<close> shows that programs without functions, imports and \<open>range\<close> always come back.
\<close>

section \<open>What every evaluation keeps\<close>

text \<open>
  \<open>vm_ok\<close>: every pointer the state holds refers to an object, lists keep to their buffer, names to
  theirs, the heap offset to the heap, and the file system to its invariant. The flag \<open>st\<close> asks in
  addition that there be no functions, which is when every evaluation comes back.
\<close>

fun ptr_ok :: "nat \<Rightarrow> ptr \<Rightarrow> bool" where
  "ptr_ok n None \<longleftrightarrow> True"
| "ptr_ok n (Some i) \<longleftrightarrow> i < n"

definition valid :: "ptr \<Rightarrow> mp_vm \<Rightarrow> bool" where
  "valid p s \<longleftrightarrow> ptr_ok (length (v_objs s)) p"

lemma ptr_ok_mono: "ptr_ok n p \<Longrightarrow> n \<le> m \<Longrightarrow> ptr_ok m p"
  by (cases p) auto

fun obj_ok :: "bool \<Rightarrow> nat \<Rightarrow> mp_obj \<Rightarrow> bool" where
  "obj_ok st n (T_LIST xs) \<longleftrightarrow> length xs \<le> MP_LIST_MAX \<and> (\<forall>x \<in> set xs. ptr_ok n x)"
| "obj_ok st n (T_FUNC ps b) \<longleftrightarrow> \<not> st"
| "obj_ok st n x \<longleftrightarrow> True"

definition slot_ok :: "nat \<Rightarrow> env_slot \<Rightarrow> bool" where
  "slot_ok n e \<longleftrightarrow>
     length (sl_name e) < MP_ENV_NAME \<and> ptr_ok n (sl_value e)"

definition vm_ok :: "ev_cfg \<Rightarrow> bool \<Rightarrow> mp_vm \<Rightarrow> bool" where
  "vm_ok cf st s \<longleftrightarrow>
     3 \<le> length (v_objs s) \<and> take 3 (v_objs s) = mp_objects_init \<and>
     (\<forall>x \<in> set (v_objs s). obj_ok st (length (v_objs s)) x) \<and>
     length (v_slots s) = MP_ENV_SLOTS \<and> (\<forall>e \<in> set (v_slots s). slot_ok (length (v_objs s)) e) \<and>
     valid (v_retval s) s \<and> v_heap s \<le> cf_heap (c_parse cf) \<and>
     mpfs_inv (c_files cf) (c_fmax cf) (v_fs s)"

text \<open>Objects are only added; an old one keeps its type, and all but lists and files their value.\<close>

fun same_kind :: "mp_obj \<Rightarrow> mp_obj \<Rightarrow> bool" where
  "same_kind (T_LIST xs) y \<longleftrightarrow> (\<exists>zs. y = T_LIST (xs @ zs))"
| "same_kind (T_FILE fd) y \<longleftrightarrow> (y = T_FILE fd \<or> y = T_FILE (- 1))"
| "same_kind x y \<longleftrightarrow> x = y"

definition grows :: "mp_vm \<Rightarrow> mp_vm \<Rightarrow> bool" where
  "grows s t \<longleftrightarrow>
     length (v_objs s) \<le> length (v_objs t) \<and>
     (\<forall>i < length (v_objs s). same_kind (v_objs s ! i) (v_objs t ! i))"

lemma same_kind_refl [simp]: "same_kind x x"
  by (cases x) auto

lemma same_kind_trans: "same_kind x y \<Longrightarrow> same_kind y z \<Longrightarrow> same_kind x z"
  by (cases x) auto

lemma grows_refl [simp]: "grows s s"
  by (simp add: grows_def)

lemma grows_trans [trans]: "grows s t \<Longrightarrow> grows t u \<Longrightarrow> grows s u"
  by (auto simp: grows_def intro: same_kind_trans)

lemma grows_valid: "valid p s \<Longrightarrow> grows s t \<Longrightarrow> valid p t"
  by (auto simp: valid_def grows_def intro: ptr_ok_mono)

lemma grows_list:
  "grows s t \<Longrightarrow> valid p s \<Longrightarrow> obj_at p s = Some (T_LIST xs) \<Longrightarrow> \<exists>zs. obj_at p t = Some (T_LIST (xs @ zs))"
  by (cases p) (force simp: grows_def valid_def obj_at_def)+

lemma grows_str:
  "grows s t \<Longrightarrow> valid p s \<Longrightarrow> obj_at p s = Some (T_STR x) \<Longrightarrow> obj_at p t = Some (T_STR x)"
  by (cases p) (force simp: grows_def valid_def obj_at_def)+

lemma grows_file:
  "grows s t \<Longrightarrow> valid p s \<Longrightarrow> obj_at p s = Some (T_FILE x) \<Longrightarrow> \<exists>y. obj_at p t = Some (T_FILE y)"
  by (cases p) (force simp: grows_def valid_def obj_at_def)+

lemma valid_None [simp]: "valid None s"
  by (simp add: valid_def)

text \<open>The states that agree on what the invariant reads.\<close>

lemma vm_ok_cong:
  assumes "vm_ok cf st s" and "v_objs t = v_objs s" and "v_slots t = v_slots s"
    and "valid (v_retval t) t" and "v_heap t \<le> cf_heap (c_parse cf)" and "mpfs_inv (c_files cf) (c_fmax cf) (v_fs t)"
  shows "vm_ok cf st t"
  using assms by (simp add: vm_ok_def)

lemma grows_cong: "v_objs t = v_objs s \<Longrightarrow> grows s t"
  by (simp add: grows_def)

lemma vm_ok_valid_static:
  assumes "vm_ok cf st s"
  shows "valid Mp_None s" and "valid Mp_True s" and "valid Mp_False s" and "valid (mp_bool_from b) s" and "valid (v_retval s) s"
proof -
  have "3 \<le> length (v_objs s)" "valid (v_retval s) s" using assms by (auto simp: vm_ok_def)
  then show "valid Mp_None s" "valid Mp_True s" "valid Mp_False s" "valid (mp_bool_from b) s" "valid (v_retval s) s"
    by (auto simp: valid_def Mp_None_def Mp_True_def Mp_False_def mp_bool_from_def)
qed

section \<open>Safe results\<close>

text \<open>
  \<open>Q\<close> holds of the value and the state of a run that returns, \<open>C\<close> of the state of one that faults or is cut short. The
  flag excludes running out of fuel. No object is read as one of another type.
\<close>

fun sat :: "bool \<Rightarrow> (mp_vm \<Rightarrow> bool) \<Rightarrow> ('a \<Rightarrow> mp_vm \<Rightarrow> bool) \<Rightarrow> 'a eres \<Rightarrow> bool" where
  "sat st C Q (Done v s) \<longleftrightarrow> Q v s"
| "sat st C Q (Crash f s) \<longleftrightarrow> C s \<and> f \<noteq> Wrong_member"
| "sat st C Q (Spent s) \<longleftrightarrow> C s \<and> \<not> st"

definition stop_from :: "ev_cfg \<Rightarrow> bool \<Rightarrow> mp_vm \<Rightarrow> mp_vm \<Rightarrow> bool" where
  "stop_from cf st s t \<longleftrightarrow> vm_ok cf st t \<and> grows s t"

definition safe_from :: "ev_cfg \<Rightarrow> bool \<Rightarrow> mp_vm \<Rightarrow> ptr \<Rightarrow> mp_vm \<Rightarrow> bool" where
  "safe_from cf st s v t \<longleftrightarrow> vm_ok cf st t \<and> grows s t \<and> valid v t"

definition safe :: "ev_cfg \<Rightarrow> bool \<Rightarrow> mp_vm \<Rightarrow> ptr eres \<Rightarrow> bool" where
  "safe cf st s r \<longleftrightarrow> sat st (stop_from cf st s) (safe_from cf st s) r"

named_theorems safe_intros \<open>the result of an evaluator's step is safe\<close>

lemma sat_bind:
  "sat st C P r \<Longrightarrow> (\<And>v t. P v t \<Longrightarrow> sat st C Q (f v t)) \<Longrightarrow> sat st C Q (ebind r f)"
  by (cases r) auto

lemma sat_mono: "sat st C P r \<Longrightarrow> (\<And>v t. P v t \<Longrightarrow> Q v t) \<Longrightarrow> (\<And>t. C t \<Longrightarrow> D t) \<Longrightarrow> sat st D Q r"
  by (cases r) auto

lemma safe_grows: "grows s t \<Longrightarrow> safe cf st t r \<Longrightarrow> safe cf st s r"
  by (cases r) (auto simp: safe_def safe_from_def stop_from_def intro: grows_trans)

lemma safe_bind:
  assumes "safe cf st s r" and "\<And>v t. vm_ok cf st t \<Longrightarrow> grows s t \<Longrightarrow> valid v t \<Longrightarrow> safe cf st t (f v t)"
  shows "safe cf st s (ebind r f)"
  using assms(1) unfolding safe_def
proof (rule sat_bind)
  fix v t assume "safe_from cf st s v t"
  with assms(2) [of t v] show "sat st (stop_from cf st s) (safe_from cf st s) (f v t)"
    using safe_grows [of s t cf st "f v t"] by (simp add: safe_from_def safe_def)
qed

lemma safe_Crash: "vm_ok cf st t \<Longrightarrow> grows s t \<Longrightarrow> f \<noteq> Wrong_member \<Longrightarrow> safe cf st s (Crash f t)"
  by (simp add: safe_def stop_from_def)

lemma safe_Spent: "\<not> st \<Longrightarrow> vm_ok cf st t \<Longrightarrow> grows s t \<Longrightarrow> safe cf st s (Spent t)"
  by (simp add: safe_def stop_from_def)

lemma safe_Done: "vm_ok cf st t \<Longrightarrow> grows s t \<Longrightarrow> valid v t \<Longrightarrow> safe cf st s (Done v t)"
  by (simp add: safe_def safe_from_def)

lemma safe_Done_same: "vm_ok cf st s \<Longrightarrow> valid v s \<Longrightarrow> safe cf st s (Done v s)"
  by (simp add: safe_Done)

lemma safe_or_fail:
  assumes "safe cf st s r" and "\<And>v t. vm_ok cf st t \<Longrightarrow> grows s t \<Longrightarrow> valid v t \<Longrightarrow> safe cf st t (f v t)"
  shows "safe cf st s (or_fail r f)"
  unfolding or_fail_def by (rule safe_bind [OF assms(1)]) (simp add: assms(2) safe_Done_same)

lemma safe_or_stop:
  assumes "safe cf st s r" and "\<And>v t. vm_ok cf st t \<Longrightarrow> grows s t \<Longrightarrow> valid v t \<Longrightarrow> valid (x v t) t"
    and "\<And>v t. vm_ok cf st t \<Longrightarrow> grows s t \<Longrightarrow> valid v t \<Longrightarrow> safe cf st t (f v t)"
  shows "safe cf st s (or_stop r x f)"
  unfolding or_stop_def by (rule safe_bind [OF assms(1)]) (simp add: assms(2,3) safe_Done_same)

lemma vm_ok_set_err [simp]: "vm_ok cf st (set_err msg s) \<longleftrightarrow> vm_ok cf st s"
  by (simp add: vm_ok_def set_err_def valid_def)

lemma grows_set_err [simp]: "grows s (set_err msg t) \<longleftrightarrow> grows s t"
  by (simp add: grows_def set_err_def)

lemma safe_fail: "vm_ok cf st t \<Longrightarrow> grows s t \<Longrightarrow> safe cf st s (fail_with msg t)"
  by (simp add: fail_with_def safe_Done)

section \<open>Constructors\<close>

definition made :: "ev_cfg \<Rightarrow> bool \<Rightarrow> mp_vm \<Rightarrow> ptr \<times> mp_vm \<Rightarrow> bool" where
  "made cf st s r \<longleftrightarrow> safe_from cf st s (fst r) (snd r)"

lemma mp_alloc_ok:
  assumes "vm_ok cf st s" and "mp_alloc cf n s = (b, t)"
  shows "vm_ok cf st t \<and> v_objs t = v_objs s"
  using assms by (auto simp: mp_alloc_def Let_def valid_def vm_ok_def split: if_splits)

lemma obj_ok_mono: "obj_ok st n x \<Longrightarrow> n \<le> m \<Longrightarrow> obj_ok st m x"
  by (cases x) (auto intro: ptr_ok_mono)

lemma slot_ok_mono: "slot_ok n x \<Longrightarrow> n \<le> m \<Longrightarrow> slot_ok m x"
  by (auto simp: slot_ok_def intro: ptr_ok_mono)

lemma push_obj_ok:
  assumes "vm_ok cf st s" and "obj_ok st (length (v_objs s)) x"
  shows "made cf st s (Some (length (v_objs s)), s\<lparr>v_objs := v_objs s @ [x]\<rparr>)"
proof -
  let ?t = "s\<lparr>v_objs := v_objs s @ [x]\<rparr>"
  have "vm_ok cf st ?t"
    using assms by (auto simp: vm_ok_def valid_def intro: obj_ok_mono slot_ok_mono ptr_ok_mono)
  moreover have "grows s ?t" by (simp add: grows_def nth_append)
  ultimately show ?thesis by (simp add: made_def safe_from_def valid_def)
qed

lemma made_grows: "grows s t \<Longrightarrow> made cf st t r \<Longrightarrow> made cf st s r"
  by (auto simp: made_def safe_from_def intro: grows_trans)

lemma made_null: "vm_ok cf st t \<Longrightarrow> grows s t \<Longrightarrow> made cf st s (None, t)"
  by (simp add: made_def safe_from_def)

lemma made_alloc_obj:
  assumes "vm_ok cf st s" and "obj_ok st (length (v_objs s)) x"
  shows "made cf st s (alloc_obj cf x s)"
proof -
  obtain b t where a: "mp_alloc cf (c_obj cf) s = (b, t)" by fastforce
  note ok = mp_alloc_ok [OF assms(1) a]
  then show ?thesis
    using made_null [of cf st t s] push_obj_ok [of cf st t x] assms(2) grows_cong [of t s] made_grows [of s t cf st]
    by (cases b) (auto simp: alloc_obj_def a)
qed

lemma made_alloc_buffered:
  assumes "vm_ok cf st s" and "obj_ok st (length (v_objs s)) x"
  shows "made cf st s (alloc_buffered cf n x s)"
proof -
  obtain b t where a: "mp_alloc cf (c_obj cf) s = (b, t)" by fastforce
  obtain c u where d: "mp_alloc cf n t = (c, u)" by fastforce
  note ok = mp_alloc_ok [OF assms(1) a]
  note ok2 = mp_alloc_ok [OF _ d]
  show ?thesis
    using ok ok2 made_null [of cf st t s] made_null [of cf st u s] push_obj_ok [of cf st u x] assms(2)
      grows_cong [of t s] grows_cong [of u s] made_grows [of s u cf st]
    by (cases b; cases c) (auto simp: alloc_buffered_def a d)
qed

lemma made_new [safe_intros]:
  assumes "vm_ok cf st s"
  shows "made cf st s (mp_int_new cf v s)" and "made cf st s (mp_str_new cf x s)"
    and "made cf st s (mp_str_new_cstr cf x s)" and "made cf st s (mp_file_new cf fd s)"
    and "made cf st s (mp_list_new cf s)" and "\<not> st \<Longrightarrow> made cf st s (mp_func_new cf ps b s)"
  using assms by (auto simp: mp_int_new_def mp_str_new_def mp_str_new_cstr_def mp_file_new_def mp_list_new_def
      mp_func_new_def MP_LIST_MAX_def intro!: made_alloc_obj made_alloc_buffered)

lemma safe_ret: "made cf st s r \<Longrightarrow> safe cf st s (ret r)"
  by (simp add: ret_def made_def safe_def)

lemma safe_memory:
  assumes "made cf st s r" and "\<And>v t. vm_ok cf st t \<Longrightarrow> grows s t \<Longrightarrow> valid v t \<Longrightarrow> safe cf st t (f v t)"
  shows "safe cf st s (or_memory_error r f)"
proof -
  from assms(1) have m: "vm_ok cf st (snd r)" "grows s (snd r)" "valid (fst r) (snd r)" by (auto simp: made_def safe_from_def)
  show ?thesis unfolding or_memory_error_def
    using safe_fail [OF m(1,2)] safe_grows [OF m(2) assms(2) [OF m]] by simp
qed

lemma safe_deref:
  assumes "vm_ok cf st s" and "\<And>x. obj_at p s = Some x \<Longrightarrow> safe cf st s (f x)"
  shows "safe cf st s (deref p s f)"
  using assms by (auto simp: deref_def intro: safe_Crash split: option.splits)

section \<open>Names and lists\<close>

lemma vm_ok_obj:
  assumes "vm_ok cf st s" and "valid p s" and "obj_at p s = Some x"
  shows "obj_ok st (length (v_objs s)) x" and "x = v_objs s ! the p" and "the p < length (v_objs s)"
  using assms by (auto simp: vm_ok_def valid_def obj_at_def)

lemma list_items_valid:
  assumes "vm_ok cf st s" and "valid p s" and "obj_at p s = Some (T_LIST xs)" and "x \<in> set xs"
  shows "valid x s"
  using vm_ok_obj(1) [OF assms(1-3)] assms(4) by (simp add: valid_def)

lemma list_nth_valid:
  "vm_ok cf st s \<Longrightarrow> valid p s \<Longrightarrow> obj_at p s = Some (T_LIST xs) \<Longrightarrow> i < length xs \<Longrightarrow> valid (xs ! i) s"
  using list_items_valid [of cf st s p xs "xs ! i"] by simp

text \<open>Replacing an object by one of its kind, which the static ones are not.\<close>

lemma set_obj_ok:
  assumes "vm_ok cf st s" and "valid p s" and "obj_at p s = Some x" and "same_kind x y"
    and "obj_ok st (length (v_objs s)) y" and "(\<exists>xs. x = T_LIST xs) \<or> (\<exists>fd. x = T_FILE fd)"
  shows "vm_ok cf st (set_obj p y s)" and "grows s (set_obj p y s)"
proof -
  note x = vm_ok_obj(2,3) [OF assms(1-3)]
  have "\<not> the p < 3"
  proof
    assume "the p < 3"
    then have "x = mp_objects_init ! the p"
      using assms(1) x by (metis nth_take vm_ok_def)
    with \<open>the p < 3\<close> assms(6) show False
      by (auto simp: mp_objects_init_def less_Suc_eq numeral_3_eq_3)
  qed
  then show "vm_ok cf st (set_obj p y s)"
    using assms(1,5) set_update_subset_insert [of "v_objs s" "the p" y] by (auto simp: vm_ok_def valid_def)
  show "grows s (set_obj p y s)" using x assms(4) by (auto simp: grows_def nth_list_update)
qed

lemma mp_list_append_ok:
  assumes "vm_ok cf st s" and "valid l s" and "valid x s"
  shows "vm_ok cf st (snd (mp_list_append l x s)) \<and> grows s (snd (mp_list_append l x s))"
proof (cases "\<exists>xs. obj_at l s = Some (T_LIST xs) \<and> length xs < MP_LIST_MAX")
  case True
  then obtain xs where xs: "obj_at l s = Some (T_LIST xs)" "length xs < MP_LIST_MAX" by blast
  have "obj_ok st (length (v_objs s)) (T_LIST (xs @ [x]))"
    using vm_ok_obj(1) [OF assms(1,2) xs(1)] xs(2) assms(3) by (simp add: valid_def)
  with set_obj_ok [OF assms(1,2) xs(1), of "T_LIST (xs @ [x])"] xs show ?thesis by (simp add: mp_list_append_def)
next
  case False
  then show ?thesis using assms by (auto simp: mp_list_append_def split: option.splits mp_obj.splits)
qed

lemma mp_list_append_split:
  assumes "vm_ok cf st s" and "valid l s" and "valid x s" and "mp_list_append l x s = (b, t)"
  shows "vm_ok cf st t" and "grows s t"
  using mp_list_append_ok [OF assms(1-3)] assms(4) by auto

lemma append_all_ok:
  "vm_ok cf st s \<Longrightarrow> valid l s \<Longrightarrow> \<forall>x \<in> set xs. valid x s \<Longrightarrow>
     vm_ok cf st (append_all l xs s) \<and> grows s (append_all l xs s)"
proof (induction xs arbitrary: s)
  case (Cons x xs)
  let ?t = "snd (mp_list_append l x s)"
  have t: "vm_ok cf st ?t" "grows s ?t" using mp_list_append_ok [of cf st s l x] Cons.prems by auto
  then have "vm_ok cf st (append_all l xs ?t) \<and> grows ?t (append_all l xs ?t)"
    using Cons.prems by (intro Cons.IH) (auto intro: grows_valid)
  with t show ?case by (auto intro: grows_trans)
qed simp

lemma mp_list_get_valid:
  "vm_ok cf st s \<Longrightarrow> valid l s \<Longrightarrow> valid (mp_list_get l i s) s"
  by (auto simp: mp_list_get_def index_of_def split: option.splits mp_obj.splits
      intro!: list_nth_valid [of cf st s l])
    (auto simp: Let_def split: if_splits)

lemma slot_of_facts:
  assumes "slot_of nm s = Some i"
  shows "i < length (v_slots s)" and "sl_used (v_slots s ! i)" and "name_eq nm (sl_name (v_slots s ! i))"
  using first_from_facts [OF assms [unfolded slot_of_def]] by auto

lemma mp_env_get_valid: "vm_ok cf st s \<Longrightarrow> valid (mp_env_get nm s) s"
  using nth_mem [of _ "v_slots s"]
  by (auto simp: mp_env_get_def vm_ok_def valid_def slot_ok_def dest!: slot_of_facts(1) split: option.splits)

lemma set_slot_ok:
  assumes "vm_ok cf st s" and "slot_ok (length (v_objs s)) e"
  shows "vm_ok cf st (s\<lparr>v_slots := (v_slots s)[i := e]\<rparr>)"
  using assms set_update_subset_insert [of "v_slots s" i e] by (auto simp: vm_ok_def valid_def)

lemma set_err_fields [simp]:
  "v_objs (set_err m s) = v_objs s" "v_slots (set_err m s) = v_slots s" "v_fs (set_err m s) = v_fs s"
  "v_has_err (set_err m s)" "v_returning (set_err m s) = v_returning s" "v_retval (set_err m s) = v_retval s"
  by (simp_all add: set_err_def)

lemma mp_env_set_ok:
  assumes "vm_ok cf st s" and "valid v s" and "mp_env_set nm v s = (b, t)"
  shows "vm_ok cf st t" and "grows s t" and "v_objs t = v_objs s"
proof -
  have old: "slot_ok (length (v_objs s)) ((v_slots s ! i)\<lparr>sl_value := v\<rparr>)" if "i < length (v_slots s)" for i
    using assms(1,2) nth_mem [OF that] by (auto simp: vm_ok_def slot_ok_def valid_def)
  show "vm_ok cf st t" "v_objs t = v_objs s"
    using assms set_slot_ok [OF assms(1) old] set_slot_ok [OF assms(1), of "\<lparr>sl_name = nm, sl_value = v, sl_used = True\<rparr>"]
    by (auto simp: mp_env_set_def slot_ok_def valid_def dest: slot_of_facts(1) split: if_splits option.splits)
  then show "grows s t" by (simp add: grows_cong)
qed

lemma env_drop_ok: "vm_ok cf st s \<Longrightarrow> vm_ok cf st (env_drop nm s) \<and> grows s (env_drop nm s)"
  by (auto simp: vm_ok_def env_drop_def valid_def slot_ok_def grows_def)

lemma restore_ok:
  "vm_ok cf st s \<Longrightarrow> \<forall>(nm, v) \<in> set vs. valid v s \<Longrightarrow> vm_ok cf st (restore vs s) \<and> grows s (restore vs s)"
proof (induction vs arbitrary: s)
  case (Cons e vs)
  obtain nm old where e: "e = (nm, old)" by (cases e)
  let ?t = "if old \<noteq> None then snd (mp_env_set (cstr nm) old s) else env_drop nm s"
  have "vm_ok cf st ?t \<and> grows s ?t"
    using Cons.prems e env_drop_ok [of cf st s nm] mp_env_set_ok [of cf st s old "cstr nm" _ "snd (mp_env_set (cstr nm) old s)"]
    by (auto simp: prod_eq_iff)
  moreover from this have "vm_ok cf st (restore vs ?t) \<and> grows ?t (restore vs ?t)"
    using Cons.prems by (intro Cons.IH) (auto intro: grows_valid)
  ultimately show ?case by (auto simp: e intro: grows_trans)
qed simp

section \<open>Operators\<close>

lemma vm_ok_mp_alloc: "vm_ok cf st s \<Longrightarrow> mp_alloc cf n s = (b, t) \<Longrightarrow> vm_ok cf st t \<and> grows s t"
  using mp_alloc_ok grows_cong by blast

lemma safe_int_op: "vm_ok cf st s \<Longrightarrow> safe cf st s (int_op cf op x y s)"
  by (auto simp: safe_Crash int_op_def int_divmod_def intro!: safe_ret safe_fail made_new split: tok_kind.splits)

lemma safe_alloc:
  assumes "vm_ok cf st s"
    and "\<And>t. vm_ok cf st t \<Longrightarrow> safe cf st t (f t)" and "\<And>t. vm_ok cf st t \<Longrightarrow> safe cf st t (g t)"
  shows "safe cf st s (case mp_alloc cf n s of (False, t) \<Rightarrow> f t | (True, t) \<Rightarrow> g t)"
proof -
  obtain b t where a: "mp_alloc cf n s = (b, t)" by fastforce
  from vm_ok_mp_alloc [OF assms(1) a] have t: "vm_ok cf st t" "grows s t" by auto
  from safe_grows [OF t(2) assms(2) [OF t(1)]] safe_grows [OF t(2) assms(3) [OF t(1)]] show ?thesis
    by (cases b) (simp_all add: a)
qed

lemma safe_str_concat: "vm_ok cf st s \<Longrightarrow> safe cf st s (str_concat cf a b s)"
  unfolding str_concat_def by (rule safe_alloc) (simp_all add: safe_fail safe_ret made_new)

lemma safe_str_repeat: "vm_ok cf st s \<Longrightarrow> safe cf st s (str_repeat cf a b s)"
  unfolding str_repeat_def Let_def
  by (auto intro!: safe_alloc simp: safe_fail safe_ret made_new safe_Crash)

lemma safe_list_concat:
  assumes "vm_ok cf st s" and "\<forall>x \<in> set xs. valid x s" and "\<forall>x \<in> set ys. valid x s"
  shows "safe cf st s (list_concat cf xs ys s)"
  unfolding list_concat_def
proof (rule safe_memory)
  show "made cf st s (mp_list_new cf s)" using assms(1) by (rule made_new)
next
  fix l t assume t: "vm_ok cf st t" "grows s t" "valid l t"
  have a: "vm_ok cf st (append_all l xs t) \<and> grows t (append_all l xs t)"
    using assms t by (intro append_all_ok) (auto intro: grows_valid)
  have "\<forall>y \<in> set ys. valid y t" using assms(3) t(2) by (auto intro: grows_valid)
  with a t have b: "vm_ok cf st (append_all l ys (append_all l xs t)) \<and> grows (append_all l xs t) (append_all l ys (append_all l xs t))"
    by (intro append_all_ok) (auto intro: grows_valid)
  show "safe cf st t (Done l (append_all l ys (append_all l xs t)))"
    using a b t(3) by (intro safe_Done) (auto intro: grows_trans grows_valid)
qed

lemma safe_apply_binop:
  assumes "vm_ok cf st s" and "valid p s" and "obj_at p s = Some a" and "valid q s" and "obj_at q s = Some b"
  shows "safe cf st s (apply_binop cf op a b s)"
proof -
  have ints: "safe cf st s (if \<not> is_int a \<or> \<not> is_int b then fail_with m s else int_op cf op (int_val a) (int_val b) s)" for m
    using assms(1) by (auto intro: safe_fail safe_int_op)
  have "safe cf st s (list_concat cf xs ys s)" if "a = T_LIST xs" "b = T_LIST ys" for xs ys
    using assms that by (intro safe_list_concat ballI) (auto intro: list_items_valid)
  with ints assms(1) show ?thesis
    by (auto simp: apply_binop_def Let_def intro: safe_str_concat safe_str_repeat split: mp_obj.splits)
qed

lemma safe_int_operands: "vm_ok cf st s \<Longrightarrow> safe cf st s (int_operands cf op p q s)"
  by (auto simp: int_operands_def intro: safe_fail safe_int_op split: option.splits)

lemma safe_binop_values:
  assumes "vm_ok cf st s" and "valid p s" and "valid q s"
  shows "safe cf st s (binop_values cf op p q s)"
  unfolding binop_values_def
  using safe_apply_binop [OF assms(1,2) _ assms(3)] safe_int_operands [OF assms(1)] assms(1)
  by (auto intro!: safe_deref)

lemma safe_compare_ints: "vm_ok cf st s \<Longrightarrow> safe cf st s (compare_ints op p q s)"
  by (auto simp: compare_ints_def intro: safe_fail safe_Done_same vm_ok_valid_static split: option.splits)

lemma safe_compare_values: "vm_ok cf st s \<Longrightarrow> safe cf st s (compare_values op p q s)"
  by (auto simp: compare_values_def intro!: safe_deref safe_compare_ints
      safe_Done_same vm_ok_valid_static split: mp_obj.splits)

section \<open>Evaluators\<close>

text \<open>An evaluator that is safe on the nodes of \<open>P\<close>; everything built from it is safe when its nodes are in \<open>P\<close>.\<close>

definition ev_safe :: "ev_cfg \<Rightarrow> bool \<Rightarrow> (mp_node \<Rightarrow> bool) \<Rightarrow> evaluator \<Rightarrow> bool" where
  "ev_safe cf st P ev \<longleftrightarrow> (\<forall>n s. P n \<longrightarrow> vm_ok cf st s \<longrightarrow> safe cf st s (ev n s))"

lemma ev_safeD: "ev_safe cf st P ev \<Longrightarrow> P n \<Longrightarrow> vm_ok cf st s \<Longrightarrow> safe cf st s (ev n s)"
  by (simp add: ev_safe_def)

lemma safe_and_then:
  assumes ev: "ev_safe cf st P ev" and "P x" "P y" and s: "vm_ok cf st s"
  shows "safe cf st s (or_stop (ev x s) (\<lambda>a s1. a) (\<lambda>a s1. if c a s1 then Done a s1 else ev y s1))"
proof (rule safe_or_stop)
  show "safe cf st s (ev x s)" by (rule ev_safeD [OF ev assms(2) s])
next
  fix v t assume t: "vm_ok cf st t" "valid v t"
  then show "safe cf st t (if c v t then Done v t else ev y t)"
    using ev_safeD [OF ev assms(3) t(1)] safe_Done_same [OF t] by simp
qed

lemma safe_both:
  assumes ev: "ev_safe cf st P ev" and "P x" "P y" and s: "vm_ok cf st s"
    and f: "\<And>a b t. vm_ok cf st t \<Longrightarrow> valid a t \<Longrightarrow> valid b t \<Longrightarrow> safe cf st t (f a b t)"
  shows "safe cf st s (or_stop (ev x s) (\<lambda>a s1. None) (\<lambda>a s1. or_stop (ev y s1) (\<lambda>b s2. None) (\<lambda>b s2. f a b s2)))"
proof (rule safe_or_stop)
  show "safe cf st s (ev x s)" by (rule ev_safeD [OF ev assms(2) s])
next
  fix a t assume t: "vm_ok cf st t" "valid a t"
  show "safe cf st t (or_stop (ev y t) (\<lambda>b s2. None) (\<lambda>b s2. f a b s2))"
  proof (rule safe_or_stop)
    show "safe cf st t (ev y t)" by (rule ev_safeD [OF ev assms(3) t(1)])
  next
    fix b u assume "vm_ok cf st u" "grows t u" "valid b u"
    then show "safe cf st u (f a b u)" using t by (intro f) (auto intro: grows_valid)
  qed simp
qed simp

lemma safe_eval_binop:
  assumes "ev_safe cf st P ev" and "P x" "P y" and "vm_ok cf st s"
  shows "safe cf st s (eval_binop cf ev op x y s)"
  unfolding eval_binop_def
  using safe_and_then [OF assms, of "\<lambda>a s1. \<not> mp_is_truthy a s1"] safe_and_then [OF assms, of mp_is_truthy]
    safe_both [OF assms safe_binop_values] by simp

lemma safe_eval_compare:
  assumes ev: "ev_safe cf st P ev" and "P x" "P y" and s: "vm_ok cf st s"
  shows "safe cf st s (eval_compare ev op x y s)"
  unfolding eval_compare_def by (rule safe_both [OF assms safe_compare_values])

section \<open>Calls\<close>

definition bound_ok :: "ev_cfg \<Rightarrow> bool \<Rightarrow> mp_vm \<Rightarrow> (string \<times> ptr) list option \<Rightarrow> mp_vm \<Rightarrow> bool" where
  "bound_ok cf st s r t \<longleftrightarrow> vm_ok cf st t \<and> grows s t \<and> (\<forall>vs. r = Some vs \<longrightarrow> (\<forall>(nm, v) \<in> set vs. valid v t))"

lemma bind_args_ok:
  assumes ev: "ev_safe cf st P ev"
  shows "\<forall>a \<in> set as. P a \<Longrightarrow> vm_ok cf st s \<Longrightarrow> \<forall>(nm, v) \<in> set saved. valid v s \<Longrightarrow>
    sat st (stop_from cf st s) (bound_ok cf st s) (bind_args ev ps as saved s)"
proof (induction ps arbitrary: as saved s)
  case (Cons p ps)
  show ?case
  proof (cases as)
    case Nil
    with Cons.prems show ?thesis by (simp add: bound_ok_def)
  next
    case as: (Cons a as')
    have old: "valid (mp_env_get p s) s" using Cons.prems by (auto intro: mp_env_get_valid)
    have a: "sat st (stop_from cf st s) (safe_from cf st s) (ev a s)"
      using ev_safeD [OF ev, of a s] Cons.prems as by (simp add: safe_def)
    have "sat st (stop_from cf st s) (bound_ok cf st s) (if v_has_err t then Done None t
           else case mp_env_set p v t of
                  (False, s2) \<Rightarrow> Done None s2
                | (True, s2) \<Rightarrow> bind_args ev ps as' (saved @ [(strncpy_val p MP_ENV_NAME, mp_env_get p s)]) s2)"
      if "safe_from cf st s v t" for v t
    proof -
      from that have t: "vm_ok cf st t" "grows s t" "valid v t" by (auto simp: safe_from_def)
      obtain b u where u: "mp_env_set p v t = (b, u)" by fastforce
      note uok = mp_env_set_ok [OF t(1,3) u]
      have g: "grows s u" using t(2) uok(2) by (rule grows_trans)
      have "sat st (stop_from cf st u) (bound_ok cf st u) (bind_args ev ps as' (saved @ [(strncpy_val p MP_ENV_NAME, mp_env_get p s)]) u)"
        using Cons.prems as old g uok(1) by (intro Cons.IH) (auto intro: grows_valid)
      then have "sat st (stop_from cf st s) (bound_ok cf st s) (bind_args ev ps as' (saved @ [(strncpy_val p MP_ENV_NAME, mp_env_get p s)]) u)"
        using g by (elim sat_mono) (auto simp: bound_ok_def stop_from_def intro: grows_trans)
      then show ?thesis using u uok g t by (cases b) (auto simp: bound_ok_def)
    qed
    then show ?thesis unfolding as bind_args.simps Let_def by (rule sat_bind [OF a])
  qed
qed (simp add: bound_ok_def)

lemma safe_call_user:
  assumes ev: "ev_safe cf st P ev" and "P body" and "\<forall>a \<in> set args. P a" and s: "vm_ok cf st s"
  shows "safe cf st s (call_user ev ps body args s)"
proof -
  have call: "sat st (stop_from cf st s) (safe_from cf st s) (case saved of
               None \<Rightarrow> Done None s1
             | Some vs \<Rightarrow>
                 ebind (ev body (s1\<lparr>v_returning := False, v_retval := Mp_None\<rparr>)) (\<lambda>r s2.
                   let result = (if v_returning s2 then v_retval s2 else r)
                   in Done (if result = None then Mp_None else result) (restore vs (s2\<lparr>v_returning := False\<rparr>))))"
    if b: "bound_ok cf st s saved s1" for saved s1
  proof (cases saved)
    case None
    with b show ?thesis by (simp add: bound_ok_def safe_from_def)
  next
    case (Some vs)
    with b have s1: "vm_ok cf st s1" "grows s s1" "\<forall>(nm, v) \<in> set vs. valid v s1" by (auto simp: bound_ok_def)
    let ?s = "s1\<lparr>v_returning := False, v_retval := Mp_None\<rparr>"
    have ok: "vm_ok cf st ?s" using s1(1) vm_ok_valid_static(1) [OF s1(1)] by (auto simp: vm_ok_def valid_def)
    have g: "grows s1 ?s" by (simp add: grows_cong)
    have "safe cf st ?s (ebind (ev body ?s) (\<lambda>r s2.
                   let result = (if v_returning s2 then v_retval s2 else r)
                   in Done (if result = None then Mp_None else result) (restore vs (s2\<lparr>v_returning := False\<rparr>))))"
    proof (rule safe_bind)
      show "safe cf st ?s (ev body ?s)" using ev assms(2) ok by (rule ev_safeD)
    next
      fix r t assume t: "vm_ok cf st t" "grows ?s t" "valid r t"
      have t': "vm_ok cf st (t\<lparr>v_returning := False\<rparr>)" using t(1) by (auto simp: vm_ok_def valid_def)
      have "grows s1 (t\<lparr>v_returning := False\<rparr>)" using t(2) by (simp add: grows_def)
      then have "\<forall>(nm, v) \<in> set vs. valid v (t\<lparr>v_returning := False\<rparr>)" using s1(3) by (auto intro: grows_valid)
      from restore_ok [OF t' this] have r: "vm_ok cf st (restore vs (t\<lparr>v_returning := False\<rparr>))"
        "grows t (restore vs (t\<lparr>v_returning := False\<rparr>))" by (auto simp: grows_def)
      have "valid (v_retval t) t" "valid Mp_None t" using vm_ok_valid_static [OF t(1)] by auto
      with t(3) r(2) have "valid (if v_returning t then v_retval t else r) (restore vs (t\<lparr>v_returning := False\<rparr>))"
        "valid Mp_None (restore vs (t\<lparr>v_returning := False\<rparr>))" by (auto intro: grows_valid)
      with r show "safe cf st t (let result = (if v_returning t then v_retval t else r)
          in Done (if result = None then Mp_None else result) (restore vs (t\<lparr>v_returning := False\<rparr>)))"
        by (auto simp: Let_def intro!: safe_Done)
    qed
    from safe_grows [OF grows_trans [OF s1(2) g] this] Some show ?thesis by (simp add: safe_def)
  qed
  have "sat st (stop_from cf st s) (bound_ok cf st s) (bind_args ev ps args [] s)" using bind_args_ok [OF ev] assms by auto
  then show ?thesis
    using s unfolding call_user_def by (auto simp: safe_fail safe_def [symmetric]) (auto simp: safe_def intro: sat_bind call)
qed

section \<open>The file system under the interpreter\<close>

lemma mpfs_close_inv: "mpfs_inv nf fm s \<Longrightarrow> mpfs_inv nf fm (snd (mpfs_close fd s))"
  by (auto simp: mpfs_close_def intro!: inv_upd_fd)

lemma mpfs_read_inv: "mpfs_inv nf fm s \<Longrightarrow> mpfs_inv nf fm (snd (mpfs_read fd n s))"
  using mfd_okD [of nf fm s fd] by (auto simp: mpfs_read_def Let_def intro!: inv_upd_fd)

lemma mpfs_write_inv:
  assumes inv: "mpfs_inv nf fm s"
  shows "mpfs_inv nf fm (snd (mpfs_write fm fd bs s))"
proof (cases "mfd_ok s fd \<and> flag_set (d_flags (m_fds s ! nat fd)) MPFS_O_WRITE")
  case False
  with inv show ?thesis by (auto simp: mpfs_write_def Let_def)
next
  case True
  note d = mfd_okD [OF inv conjunct1 [OF True]]
  let ?d = "m_fds s ! nat fd" and ?i = "d_inode (m_fds s ! nat fd)"
  define s1 where "s1 = (if flag_set (d_flags ?d) MPFS_O_APPEND then upd_mfd (nat fd) (\<lambda>d. d\<lparr>d_offset := i_size (m_files s ! ?i)\<rparr>) s else s)"
  have s1: "mpfs_inv nf fm s1" "m_files s1 = m_files s" using inv d by (auto simp: s1_def intro!: inv_upd_fd)
  have fd1: "d_inode (m_fds s1 ! nat fd) = ?i" "nat fd < length (m_fds s1)" using d by (simp_all add: s1_def)
  let ?off = "d_offset (m_fds s1 ! nat fd)"
  have w: "mpfs_write fm fd bs s = (if fm < ?off then (Inl MPFS_ERR_NOSPC, s1)
                   else if fm - ?off < length bs then (Inl MPFS_ERR_NOSPC, s1)
                   else
                     let s2 = upd_file ?i (\<lambda>f. f\<lparr>i_data := overwrite (i_data f) ?off bs\<rparr>) s1;
                         s3 = upd_mfd (nat fd) (\<lambda>d. d\<lparr>d_offset := ?off + length bs\<rparr>) s2
                     in (Inr (length bs),
                         if i_size (m_files s3 ! ?i) < ?off + length bs
                         then upd_file ?i (\<lambda>f. f\<lparr>i_size := ?off + length bs\<rparr>) s3 else s3))"
    unfolding mpfs_write_def Let_def s1_def using True by simp
  show ?thesis
  proof (cases "?off + length bs \<le> fm")
    case False
    then have "mpfs_write fm fd bs s = (Inl MPFS_ERR_NOSPC, s1)" unfolding w by auto
    with s1 show ?thesis by simp
  next
    case fit: True
    have f: "inode_ok fm (m_files s ! ?i)" using d inv_file [OF inv] by blast
    have len: "length (m_files s) = nf" using inv_len [OF inv] by simp
    let ?g = "(m_files s ! ?i)\<lparr>i_data := overwrite (i_data (m_files s ! ?i)) ?off bs\<rparr>"
    define s3 where "s3 = upd_mfd (nat fd) (\<lambda>d. d\<lparr>d_offset := ?off + length bs\<rparr>) (upd_file ?i (\<lambda>f. f\<lparr>i_data := overwrite (i_data f) ?off bs\<rparr>) s1)"
    have g: "inode_ok fm ?g" using f fit by (simp add: inode_ok_def length_overwrite max_def)
    have "mpfs_inv nf fm (s1\<lparr>m_files := (m_files s1)[?i := ?g]\<rparr>)"
      using inv_upd_file [OF s1(1) _ g] d s1(2) by simp
    from inv_upd_fd [OF this, of "(m_fds s1 ! nat fd)\<lparr>d_offset := ?off + length bs\<rparr>" "nat fd"] d fd1 s1(2) len
    have s3: "mpfs_inv nf fm s3" by (simp add: s3_def)
    have g3: "m_files s3 ! ?i = ?g" using d len s1(2) by (simp add: s3_def)
    have "inode_ok fm (?g\<lparr>i_size := ?off + length bs\<rparr>)" using g fit by (simp add: inode_ok_def)
    from inv_upd_file [OF s3 _ this] d g3 have s4: "mpfs_inv nf fm (upd_file ?i (\<lambda>f. f\<lparr>i_size := ?off + length bs\<rparr>) s3)"
      by simp
    have "snd (mpfs_write fm fd bs s) = (if i_size (m_files s3 ! ?i) < ?off + length bs
        then upd_file ?i (\<lambda>f. f\<lparr>i_size := ?off + length bs\<rparr>) s3 else s3)"
      unfolding w Let_def s3_def using fit by simp
    then show ?thesis using s3 s4 by simp
  qed
qed

lemma mpfs_open_inv: "mpfs_inv nf fm s \<Longrightarrow> mpfs_inv nf fm (snd (mpfs_open fm path fl s))"
  using mpfs_open_result [of nf fm s path fl "fst (mpfs_open fm path fl s)"] by simp

lemma mpfs_unlink_inv: "mpfs_inv nf fm s \<Longrightarrow> mpfs_inv nf fm (snd (mpfs_unlink fm path s))"
  using mpfs_unlink_result [of nf fm s path "fst (mpfs_unlink fm path s)"] by simp

lemma mpfs_format_keeps: "mpfs_inv nf fm s \<Longrightarrow> mpfs_inv nf fm (mpfs_format nf fm s)"
  by (intro mpfs_format_inv) (simp add: mpfs_inv_def)

text \<open>A step of the file system, inside the interpreter's state.\<close>

lemma vm_ok_fs:
  assumes "vm_ok cf st s" and "mpfs_inv (c_files cf) (c_fmax cf) (v_fs s) \<Longrightarrow> mpfs_inv (c_files cf) (c_fmax cf) fs"
  shows "vm_ok cf st (s\<lparr>v_fs := fs\<rparr>)" and "grows s (s\<lparr>v_fs := fs\<rparr>)"
  using assms by (auto simp: vm_ok_def valid_def grows_def)

lemma vm_ok_open:
  assumes "vm_ok cf st s" and "mpfs_open (c_fmax cf) path fl (v_fs s) = (r, fs)"
  shows "vm_ok cf st (s\<lparr>v_fs := fs\<rparr>)" and "grows s (s\<lparr>v_fs := fs\<rparr>)"
  using vm_ok_fs [OF assms(1), of fs] mpfs_open_inv [of _ "c_fmax cf" "v_fs s" path fl] assms(2) by simp_all

lemma vm_ok_read:
  assumes "vm_ok cf st s" and "mpfs_read fd n (v_fs s) = (r, fs)"
  shows "vm_ok cf st (s\<lparr>v_fs := fs\<rparr>)" and "grows s (s\<lparr>v_fs := fs\<rparr>)"
  using vm_ok_fs [OF assms(1), of fs] mpfs_read_inv [of _ "c_fmax cf" "v_fs s" fd n] assms(2) by simp_all

lemma vm_ok_write:
  assumes "vm_ok cf st s" and "mpfs_write (c_fmax cf) fd bs (v_fs s) = (r, fs)"
  shows "vm_ok cf st (s\<lparr>v_fs := fs\<rparr>)" and "grows s (s\<lparr>v_fs := fs\<rparr>)"
  using vm_ok_fs [OF assms(1), of fs] mpfs_write_inv [of _ "c_fmax cf" "v_fs s" fd bs] assms(2) by simp_all

lemma vm_ok_close:
  assumes "vm_ok cf st s" and "mpfs_close fd (v_fs s) = (r, fs)"
  shows "vm_ok cf st (s\<lparr>v_fs := fs\<rparr>)" and "grows s (s\<lparr>v_fs := fs\<rparr>)"
  using vm_ok_fs [OF assms(1), of fs] mpfs_close_inv [of _ "c_fmax cf" "v_fs s" fd] assms(2) by simp_all

lemma vm_ok_unlink:
  assumes "vm_ok cf st s" and "mpfs_unlink (c_fmax cf) path (v_fs s) = (r, fs)"
  shows "vm_ok cf st (s\<lparr>v_fs := fs\<rparr>)" and "grows s (s\<lparr>v_fs := fs\<rparr>)"
  using vm_ok_fs [OF assms(1), of fs] mpfs_unlink_inv [of _ "c_fmax cf" "v_fs s" path] assms(2) by simp_all

section \<open>Built-in functions\<close>

lemma vm_ok_out: "vm_ok cf st s \<Longrightarrow> vm_ok cf st (s\<lparr>v_out := out, v_in := inp\<rparr>) \<and> grows s (s\<lparr>v_out := out, v_in := inp\<rparr>)"
  by (simp add: vm_ok_def valid_def grows_def)

lemma vm_ok_put: "vm_ok cf st s \<Longrightarrow> vm_ok cf st (put t s) \<and> grows s (put t s)"
  by (simp add: vm_ok_def valid_def grows_def put_def)

lemma vm_ok_print: "vm_ok cf st s \<Longrightarrow> vm_ok cf st (default_print p nl s) \<and> grows s (default_print p nl s)"
  using vm_ok_put [of cf st s "obj_text p s"] vm_ok_put [of cf st "put (obj_text p s) s" "[newline]"]
  by (auto simp: default_print_def Let_def intro: grows_trans)

lemma safe_print_args:
  assumes ev: "ev_safe cf st P ev"
  shows "\<forall>a \<in> set as. P a \<Longrightarrow> vm_ok cf st s \<Longrightarrow> safe cf st s (print_args ev as s)"
proof (induction as arbitrary: s)
  case (Cons a as)
  show ?case unfolding print_args.simps Let_def
  proof (rule safe_or_fail)
    show "safe cf st s (ev a s)" using ev_safeD [OF ev] Cons.prems by simp
  next
    fix v t assume t: "vm_ok cf st t"
    let ?t = "if as \<noteq> [] then put '' '' (default_print v (as = []) t) else default_print v (as = []) t"
    have t': "vm_ok cf st ?t \<and> grows t ?t"
      using vm_ok_print [OF t, of v "as = []"] vm_ok_put by (auto intro: grows_trans)
    then have "safe cf st ?t (print_args ev as ?t)" using Cons by simp
    then show "safe cf st t (print_args ev as ?t)" using t' safe_grows by blast
  qed
qed (simp add: safe_Done_same vm_ok_valid_static)

lemma safe_bi_print:
  assumes "ev_safe cf st P ev" and "\<forall>a \<in> set as. P a" and s: "vm_ok cf st s"
  shows "safe cf st s (bi_print cf ev as s)"
proof -
  have m: "made cf st s (mp_str_new_cstr cf [] s)" using s by (rule made_new)
  obtain p t where pt: "mp_str_new_cstr cf [] s = (p, t)" by fastforce
  with m have t: "vm_ok cf st t" "grows s t" by (auto simp: made_def safe_from_def)
  with vm_ok_print [OF t(1), of p True] have "safe cf st s (Done Mp_None (default_print p True t))"
    by (auto intro!: safe_Done intro: grows_trans vm_ok_valid_static)
  with safe_print_args [OF assms(1,2) s] show ?thesis by (simp add: bi_print_def pt)
qed

lemma safe_range_loop:
  "\<not> st \<Longrightarrow> vm_ok cf st s \<Longrightarrow> valid l s \<Longrightarrow> safe cf st s (range_loop n cf x stop step l s)"
proof (induction n arbitrary: x s)
  case (Suc n)
  obtain p t where pt: "mp_int_new cf x s = (p, t)" by fastforce
  with made_new(1) [OF Suc.prems(2), of x] have t: "vm_ok cf st t" "grows s t" "valid p t"
    by (auto simp: made_def safe_from_def)
  have l: "valid l t" using Suc.prems(3) t(2) by (rule grows_valid)
  let ?u = "snd (mp_list_append l p t)"
  have u: "vm_ok cf st ?u" "grows t ?u" using mp_list_append_ok [OF t(1) l t(3)] by auto
  have "safe cf st ?u (range_loop n cf (x + step) stop step l ?u)"
    using Suc.prems(1) u l by (intro Suc.IH) (auto intro: grows_valid)
  from safe_grows [OF grows_trans [OF t(2) u(2)] this] Suc.prems show ?case
    by (simp add: pt safe_Done_same)
qed (simp add: safe_Spent)

lemma safe_range_list: "\<not> st \<Longrightarrow> vm_ok cf st s \<Longrightarrow> safe cf st s (range_list cf start stop step s)"
  unfolding range_list_def by (rule safe_memory) (simp_all add: made_new safe_range_loop)

lemma safe_bi_range:
  assumes ev: "ev_safe cf False P ev" and "\<forall>a \<in> set as. P a" and s: "vm_ok cf False s"
  shows "safe cf False s (bi_range cf ev as s)"
  using assms(2-) unfolding bi_range_def
  by (auto intro!: safe_or_fail ev_safeD [OF ev] safe_fail safe_range_list split: list.splits option.splits)

lemma safe_append_case:
  assumes "vm_ok cf st s" and "valid l s" and "valid x s"
  shows "safe cf st s (case mp_list_append l x s of
      (False, s3) \<Rightarrow> fail_with m s3 | (True, s3) \<Rightarrow> Done Mp_None s3)"
  using mp_list_append_ok [OF assms]
  by (auto intro!: safe_fail safe_Done vm_ok_valid_static split: prod.splits bool.splits)

lemma safe_bi_append:
  assumes ev: "ev_safe cf st P ev" and "\<forall>a \<in> set as. P a" and s: "vm_ok cf st s"
  shows "safe cf st s (bi_append ev as s)"
  using assms(2-) unfolding bi_append_def
  by (auto intro!: safe_or_fail ev_safeD [OF ev] safe_fail safe_deref safe_append_case
      intro: grows_valid split: list.splits mp_obj.splits)

lemma safe_with_arg:
  assumes ev: "ev_safe cf st P ev" and "\<forall>a \<in> set as. P a" and s: "vm_ok cf st s"
    and "\<And>p t. vm_ok cf st t \<Longrightarrow> grows s t \<Longrightarrow> valid p t \<Longrightarrow> safe cf st t (f p t)"
  shows "safe cf st s (with_arg m ev as s f)"
  using assms(2-) unfolding with_arg_def
  by (auto intro!: safe_or_fail ev_safeD [OF ev] safe_fail split: list.splits)

lemma safe_open_as:
  assumes "vm_ok cf st s"
  shows "safe cf st s (open_as cf path mode s)"
proof (cases "mode_flags mode")
  case None
  with assms show ?thesis by (simp add: open_as_def safe_fail)
next
  case (Some fl)
  obtain r fs where r: "mpfs_open (c_fmax cf) path fl (v_fs s) = (r, fs)" by fastforce
  note ok = vm_ok_open [OF assms r]
  show ?thesis unfolding open_as_def Some option.case r
    using safe_fail [OF ok] safe_ret [OF made_grows [OF ok(2) made_new(4) [OF ok(1)]]] by (auto split: sum.splits)
qed

lemma safe_read_from:
  assumes "vm_ok cf st s"
  shows "safe cf st s (read_from cf fd want s)"
proof -
  let ?n = "if sint want < 0 \<or> int (c_fmax cf) < sint want then c_fmax cf else unat want"
  obtain r fs where r: "mpfs_read fd ?n (v_fs s) = (r, fs)" by fastforce
  note ok = vm_ok_read [OF assms r]
  show ?thesis unfolding read_from_def Let_def r
    using safe_fail [OF ok] safe_ret [OF made_grows [OF ok(2) made_new(2) [OF ok(1)]]] by (auto split: sum.splits)
qed

lemma safe_bi_open:
  assumes ev: "ev_safe cf st P ev" and "\<forall>a \<in> set as. P a" and s: "vm_ok cf st s"
  shows "safe cf st s (bi_open cf ev as s)"
  using assms(2-) unfolding bi_open_def Let_def
  by (auto intro!: safe_or_fail ev_safeD [OF ev] safe_fail safe_deref safe_open_as split: list.splits mp_obj.splits)

lemma safe_bi_read:
  assumes ev: "ev_safe cf st P ev" and "\<forall>a \<in> set as. P a" and s: "vm_ok cf st s"
  shows "safe cf st s (bi_read cf ev as s)"
  using assms(2-) unfolding bi_read_def Let_def
  by (auto intro!: safe_or_fail ev_safeD [OF ev] safe_fail safe_deref safe_read_from
      split: list.splits mp_obj.splits option.splits) (drule (2) grows_file, simp)+

lemma safe_write_case:
  assumes "vm_ok cf st s"
  shows "safe cf st s (case mpfs_write (c_fmax cf) fd bs (v_fs s) of
      (Inl e, fs) \<Rightarrow> fail_with (mpfs_strerror e) (s\<lparr>v_fs := fs\<rparr>)
    | (Inr n, fs) \<Rightarrow> ret (mp_int_new cf (of_nat n) (s\<lparr>v_fs := fs\<rparr>)))"
proof -
  obtain r fs where r: "mpfs_write (c_fmax cf) fd bs (v_fs s) = (r, fs)" by fastforce
  note ok = vm_ok_write [OF assms r]
  show ?thesis unfolding r
    using safe_fail [OF ok] safe_ret [OF made_grows [OF ok(2) made_new(1) [OF ok(1)]]] by (auto split: sum.splits)
qed

lemma safe_bi_write:
  assumes ev: "ev_safe cf st P ev" and "\<forall>a \<in> set as. P a" and s: "vm_ok cf st s"
  shows "safe cf st s (bi_write cf ev as s)"
  using assms(2-) unfolding bi_write_def
  by (auto intro!: safe_or_fail ev_safeD [OF ev] safe_fail safe_deref safe_write_case split: list.splits mp_obj.splits)

lemma safe_close_case:
  assumes s: "vm_ok cf st s" and p: "valid p s" "obj_at p s = Some (T_FILE fd)"
  shows "safe cf st s (case mpfs_close fd (v_fs s) of
      (Inl e, fs) \<Rightarrow> fail_with (mpfs_strerror e) (s\<lparr>v_fs := fs\<rparr>)
    | (Inr u, fs) \<Rightarrow> Done Mp_None (set_obj p (T_FILE (- 1)) (s\<lparr>v_fs := fs\<rparr>)))"
proof -
  obtain r fs where r: "mpfs_close fd (v_fs s) = (r, fs)" by fastforce
  note ok = vm_ok_close [OF s r]
  let ?s = "s\<lparr>v_fs := fs\<rparr>"
  have p': "valid p ?s" "obj_at p ?s = Some (T_FILE fd)" using p by (simp_all add: valid_def obj_at_def)
  note c = set_obj_ok [OF ok(1) p', of "T_FILE (- 1)"]
  have "safe cf st s (Done Mp_None (set_obj p (T_FILE (- 1)) ?s))"
    using c grows_trans [OF ok(2) c(2)] by (intro safe_Done) (auto intro: vm_ok_valid_static)
  then show ?thesis unfolding r using safe_fail [OF ok] by (auto split: sum.splits)
qed

lemma safe_bi_close:
  assumes "ev_safe cf st P ev" and "\<forall>a \<in> set as. P a" and "vm_ok cf st s"
  shows "safe cf st s (bi_close ev as s)"
  unfolding bi_close_def
  by (rule safe_with_arg [OF assms]) (auto intro!: safe_deref safe_fail safe_close_case split: mp_obj.splits)

lemma safe_bi_remove:
  assumes "ev_safe cf st P ev" and "\<forall>a \<in> set as. P a" and "vm_ok cf st s"
  shows "safe cf st s (bi_remove cf ev as s)"
proof -
  have "safe cf st t (case mpfs_unlink (c_fmax cf) path (v_fs t) of
      (Inl e, fs) \<Rightarrow> fail_with (mpfs_strerror e) (t\<lparr>v_fs := fs\<rparr>) | (Inr u, fs) \<Rightarrow> Done Mp_None (t\<lparr>v_fs := fs\<rparr>))"
    if t: "vm_ok cf st t" for path t
  proof -
    obtain r fs where r: "mpfs_unlink (c_fmax cf) path (v_fs t) = (r, fs)" by fastforce
    note ok = vm_ok_unlink [OF t r]
    show ?thesis unfolding r
      using safe_fail [OF ok] safe_Done [OF ok vm_ok_valid_static(1) [OF ok(1)]] by (auto split: sum.splits)
  qed
  then show ?thesis unfolding bi_remove_def
    by (intro safe_with_arg [OF assms]) (auto intro!: safe_deref safe_fail split: mp_obj.splits)
qed

lemma safe_one_arg:
  assumes "ev_safe cf st P ev" and "\<forall>a \<in> set as. P a" and "vm_ok cf st s"
  shows "safe cf st s (bi_len cf ev as s)" and "safe cf st s (bi_int cf ev as s)" and "safe cf st s (bi_str cf ev as s)"
    and "safe cf st s (bi_type cf ev as s)" and "safe cf st s (bi_exists ev as s)"
  unfolding bi_len_def bi_int_def bi_str_def bi_type_def bi_exists_def
  by (rule safe_with_arg [OF assms]; auto intro!: safe_deref safe_fail safe_ret made_new safe_Done_same vm_ok_valid_static
      split: mp_obj.splits option.splits)+

lemma safe_no_arg:
  assumes "vm_ok cf st s"
  shows "safe cf st s (bi_listdir cf as s)" and "safe cf st s (bi_format cf as s)"
  using assms vm_ok_fs [OF assms mpfs_format_keeps]
  by (auto simp: bi_listdir_def bi_format_def intro!: safe_fail safe_ret made_new safe_Done vm_ok_valid_static split: sum.splits)

lemma safe_read_line:
  assumes "vm_ok cf st s"
  shows "safe cf st s (read_line cf prompt s)"
proof -
  obtain buf out rest where l: "input_loop (v_in s) [] [] = (buf, out, rest)" by (metis prod_cases3)
  let ?t = "(put prompt s)\<lparr>v_out := v_out (put prompt s) @ out @ [newline], v_in := rest\<rparr>"
  have "vm_ok cf st ?t \<and> grows s ?t"
    using vm_ok_out [of cf st "put prompt s"] vm_ok_put [OF assms, of prompt] by (blast intro: grows_trans)
  then show ?thesis unfolding read_line_def l
    using made_new(2) [of cf st ?t buf] by (auto intro!: safe_ret intro: made_grows)
qed

lemma safe_bi_input:
  assumes ev: "ev_safe cf st P ev" and "\<forall>a \<in> set as. P a" and s: "vm_ok cf st s"
  shows "safe cf st s (bi_input cf ev as s)"
  using assms(2-) unfolding bi_input_def
  by (auto intro!: safe_or_fail ev_safeD [OF ev] safe_fail safe_deref safe_read_line split: list.splits mp_obj.splits)

lemma safe_call_builtin:
  assumes ev: "ev_safe cf st P ev" and as: "\<forall>a \<in> set as. P a" and s: "vm_ok cf st s" and "st \<longrightarrow> nm \<noteq> ''range''"
  shows "safe cf st s (call_builtin cf ev nm as s)"
proof -
  have "safe cf st s (bi_range cf ev as s)" if "nm = ''range''"
    using assms safe_bi_range [of cf P ev as s] that by (cases st) auto
  then show ?thesis
    unfolding call_builtin_def
    using safe_bi_print [OF ev as s] safe_bi_append [OF ev as s] safe_one_arg [OF ev as s] safe_bi_open [OF ev as s]
      safe_bi_read [OF ev as s] safe_bi_write [OF ev as s] safe_bi_close [OF ev as s] safe_bi_remove [OF ev as s]
      safe_no_arg [OF s] safe_bi_input [OF ev as s] safe_fail [OF s grows_refl]
    by simp
qed

section \<open>Statements\<close>

lemma safe_list_items:
  assumes ev: "ev_safe cf st P ev"
  shows "\<forall>e \<in> set es. P e \<Longrightarrow> vm_ok cf st s \<Longrightarrow> valid l s \<Longrightarrow> safe cf st s (list_items ev l es s)"
proof (induction es arbitrary: s)
  case (Cons e es)
  show ?case unfolding list_items.simps
  proof (rule safe_or_fail)
    show "safe cf st s (ev e s)" using ev_safeD [OF ev] Cons.prems by simp
  next
    fix v t assume t: "vm_ok cf st t" "grows s t" "valid v t"
    have l: "valid l t" using Cons.prems(3) t(2) by (rule grows_valid)
    let ?u = "snd (mp_list_append l v t)"
    have u: "vm_ok cf st ?u" "grows t ?u" using mp_list_append_ok [OF t(1) l t(3)] by auto
    have "safe cf st ?u (list_items ev l es ?u)" using Cons.prems u l by (intro Cons.IH) (auto intro: grows_valid)
    then show "safe cf st t (list_items ev l es ?u)" using u(2) safe_grows by blast
  qed
qed (simp add: safe_Done_same)

lemma safe_eval_list:
  assumes "ev_safe cf st P ev" and "\<forall>e \<in> set es. P e" and "vm_ok cf st s"
  shows "safe cf st s (eval_list cf ev es s)"
  unfolding eval_list_def by (rule safe_memory) (use assms in \<open>auto intro: made_new safe_list_items\<close>)

lemma mp_list_get_Some:
  "vm_ok cf st s \<Longrightarrow> valid p s \<Longrightarrow> mp_list_get p i s = Some k \<Longrightarrow> safe cf st s (Done (Some k) s)"
  using mp_list_get_valid [of cf st s p i] by (simp add: safe_Done_same)

lemma safe_eval_index:
  assumes ev: "ev_safe cf st P ev" and "P x" "P y" and s: "vm_ok cf st s"
  shows "safe cf st s (eval_index cf ev x y s)"
  using assms(2-) unfolding eval_index_def
  apply (auto intro!: safe_or_fail ev_safeD [OF ev] safe_fail safe_deref safe_ret made_new split: mp_obj.splits option.splits)
  apply (rule mp_list_get_Some [OF _ grows_valid], assumption+)
  done

lemma safe_eval_unary:
  assumes ev: "ev_safe cf st P ev" and "P x" and s: "vm_ok cf st s"
  shows "safe cf st s (eval_unary cf ev op x s)"
  using assms(2-) unfolding eval_unary_def
  by (auto intro!: safe_or_fail ev_safeD [OF ev] safe_fail safe_ret made_new safe_Done_same vm_ok_valid_static
      split: option.splits)

text \<open>With functions around (\<open>\<not> st\<close>) a call may reach any node.\<close>

lemma safe_eval_call:
  assumes ev: "ev_safe cf st P ev" and as: "\<forall>a \<in> set as. P a" and s: "vm_ok cf st s"
    and all: "\<not> st \<Longrightarrow> P = (\<lambda>n. True)" and "st \<longrightarrow> nm \<noteq> ''range''"
  shows "safe cf st s (eval_call cf ev nm as s)"
proof -
  have b: "safe cf st s (call_builtin cf ev nm as s)" using assms(5) by (rule safe_call_builtin [OF ev as s])
  have "safe cf st s (call_user ev ps body as s)" if "obj_at (mp_env_get nm s) s = Some (T_FUNC ps body)" for ps body
  proof -
    have "\<not> st" using vm_ok_obj(1) [OF s mp_env_get_valid [OF s] that] by simp
    with all have "P body" by simp
    from safe_call_user [OF ev this as s] show ?thesis .
  qed
  with b show ?thesis by (auto simp: eval_call_def split: option.splits mp_obj.splits)
qed

lemma safe_assign: "vm_ok cf st s \<Longrightarrow> valid v s \<Longrightarrow> safe cf st s (assign nm v s)"
  using mp_env_set_ok [of cf st s v nm "fst (mp_env_set nm v s)" "snd (mp_env_set nm v s)"]
  by (auto simp: assign_def intro!: safe_Done intro: grows_valid split: prod.splits bool.splits)

lemma safe_while:
  assumes ev: "ev_safe cf st P ev" and "P c" "P body"
  shows "vm_ok cf st s \<Longrightarrow> safe cf st s (while_loop g ev c body s)"
proof (induction g arbitrary: s)
  case (Suc g)
  with assms(2,3) show ?case
    by (auto intro!: safe_or_stop ev_safeD [OF ev] safe_Done_same vm_ok_valid_static)
qed (simp add: safe_Done_same vm_ok_valid_static)

lemma safe_for_list:
  assumes ev: "ev_safe cf st P ev" and body: "P body"
  shows "vm_ok cf st s \<Longrightarrow> valid l s \<Longrightarrow> obj_at l s = Some (T_LIST xs) \<Longrightarrow> i \<le> length xs \<Longrightarrow> MP_LIST_MAX < n + i \<Longrightarrow>
    safe cf st s (for_list n ev nm l body i s)"
proof (induction n arbitrary: i s xs)
  case 0
  then show ?case using vm_ok_obj(1) [of cf st s l "T_LIST xs"] by simp
next
  case (Suc n)
  show ?case
  proof (cases "i < length xs")
    case False
    with Suc.prems show ?thesis by (simp add: safe_Done_same vm_ok_valid_static)
  next
    case True
    obtain b t where bt: "mp_env_set nm (xs ! i) s = (b, t)" by fastforce
    have "valid (xs ! i) s" using Suc.prems True by (intro list_nth_valid)
    note t = mp_env_set_ok [OF Suc.prems(1) this bt]
    have lt: "valid l t" "obj_at l t = Some (T_LIST xs)" using Suc.prems t(3) by (auto simp: valid_def obj_at_def)
    have "safe cf st t (or_stop (ev body t) (\<lambda>v s2. v_retval s2) (\<lambda>v s2. for_list n ev nm l body (Suc i) s2))"
    proof (rule safe_or_stop)
      show "safe cf st t (ev body t)" using ev body t(1) by (rule ev_safeD)
    next
      fix v u assume u: "vm_ok cf st u" "grows t u"
      then obtain zs where "obj_at l u = Some (T_LIST (xs @ zs))" using grows_list lt by blast
      with u lt True Suc.prems(5) show "safe cf st u (for_list n ev nm l body (Suc i) u)"
        by (intro Suc.IH [of _ "xs @ zs"]) (auto intro: grows_valid)
    qed (simp add: vm_ok_valid_static)
    from safe_grows [OF t(2) this] t Suc.prems(3) True bt show ?thesis by (cases b) (simp_all add: safe_Done)
  qed
qed

lemma safe_for_chars:
  assumes ev: "ev_safe cf st P ev" and body: "P body"
  shows "vm_ok cf st s \<Longrightarrow> safe cf st s (for_chars cf ev nm cs body s)"
proof (induction cs arbitrary: s)
  case (Cons c cs)
  obtain p t where pt: "mp_str_new cf [c] s = (p, t)" by fastforce
  with made_new(2) [OF Cons.prems, of "[c]"] have t: "vm_ok cf st t" "grows s t" "valid p t"
    by (auto simp: made_def safe_from_def)
  obtain b u where u: "mp_env_set nm p t = (b, u)" by fastforce
  note uok = mp_env_set_ok [OF t(1,3) u]
  have "safe cf st u (or_stop (ev body u) (\<lambda>v s2. v_retval s2) (\<lambda>v s2. for_chars cf ev nm cs body s2))"
    using uok(1) Cons.IH by (intro safe_or_stop ev_safeD [OF ev body]) (auto simp: vm_ok_valid_static)
  from safe_grows [OF grows_trans [OF t(2) uok(2)] this] grows_trans [OF t(2) uok(2)] uok show ?case
    by (cases b) (simp_all add: pt u safe_Done)
qed (simp add: safe_Done_same vm_ok_valid_static)

lemma safe_eval_for:
  assumes ev: "ev_safe cf st P ev" and "P x" "P body" and s: "vm_ok cf st s"
  shows "safe cf st s (eval_for cf ev nm x body s)"
  unfolding eval_for_def
proof (rule safe_or_stop)
  show "safe cf st s (ev x s)" by (rule ev_safeD [OF ev assms(2) s])
next
  fix p t assume t: "vm_ok cf st t" "valid p t"
  show "safe cf st t (deref p t (\<lambda>y. case y of
         T_LIST xs \<Rightarrow> for_list (Suc MP_LIST_MAX) ev nm p body 0 t
       | T_STR tx \<Rightarrow> for_chars cf ev nm tx body t
       | _ \<Rightarrow> fail_with ''TypeError: for expects list/str'' t))"
    using t by (auto simp del: for_list.simps intro!: safe_deref safe_for_list [OF ev assms(3)] safe_for_chars [OF ev assms(3)] safe_fail split: mp_obj.splits)
qed simp

lemma load_module_ok:
  assumes "vm_ok cf st s" and "load_module cf nm s = (r, t)"
  shows "vm_ok cf st t \<and> grows s t"
proof -
  obtain r1 fs where o: "mpfs_open (c_fmax cf) (take 36 nm @ ''.py'') MPFS_O_READ (v_fs s) = (r1, fs)" by fastforce
  note ok = vm_ok_open [OF assms(1) o]
  show ?thesis
  proof (cases r1)
    case (Inl e)
    with assms(2) ok show ?thesis by (auto simp: load_module_def o)
  next
    case (Inr fd)
    obtain r2 fs1 where rd: "mpfs_read (int fd) (c_fmax cf - 1) fs = (r2, fs1)" by fastforce
    let ?s = "s\<lparr>v_fs := fs\<rparr>"
    have "mpfs_read (int fd) (c_fmax cf - 1) (v_fs ?s) = (r2, fs1)" using rd by simp
    note ok2 = vm_ok_read [OF ok(1) this]
    obtain r3 fs2 where cl: "mpfs_close (int fd) fs1 = (r3, fs2)" by fastforce
    then have "mpfs_close (int fd) (v_fs (?s\<lparr>v_fs := fs1\<rparr>)) = (r3, fs2)" by simp
    note ok3 = vm_ok_close [OF ok2(1) this]
    have "t = s\<lparr>v_fs := fs2\<rparr>" using assms(2) Inr rd cl by (auto simp: load_module_def o Let_def split: sum.splits)
    with ok3 grows_trans [OF grows_trans [OF ok(2) ok2(2)] ok3(2)] show ?thesis by simp
  qed
qed

lemma safe_eval_block:
  assumes ev: "ev_safe cf st P ev"
  shows "\<forall>x \<in> set xs. P x \<Longrightarrow> vm_ok cf st s \<Longrightarrow> valid prev s \<Longrightarrow> safe cf st s (eval_block ev prev xs s)"
proof (induction xs arbitrary: prev s)
  case (Cons x xs)
  then show ?case
    by (auto intro!: safe_or_stop ev_safeD [OF ev] vm_ok_valid_static)
qed (simp add: safe_Done_same)

lemma safe_eval_import:
  assumes ev: "ev_safe cf False P ev" and "\<And>n. P n" and s: "vm_ok cf False s"
  shows "safe cf False s (eval_import cf ev nm s)"
proof -
  obtain r t where l: "load_module cf nm s = (r, t)" by fastforce
  from load_module_ok [OF s l] have t: "vm_ok cf False t" "grows s t" by auto
  have heap: "vm_ok cf False (t\<lparr>v_heap := p_heap p\<rparr>)" "grows s (t\<lparr>v_heap := p_heap p\<rparr>)" if "in_heap (c_parse cf) p" for p
    using t that by (auto simp: vm_ok_def valid_def grows_def in_heap_def)
  have hp: "heaped (c_parse cf) (mp_parse (c_parse cf) (v_heap t) lx)" for lx
    using t(1) by (intro mp_parse_heap) (simp add: vm_ok_def)
  show ?thesis
  proof (cases r)
    case (Inl msg)
    with t show ?thesis by (simp add: eval_import_def l safe_fail)
  next
    case (Inr src)
    obtain b lx where lx: "mp_lex (c_tokens cf) src = (b, lx)" by fastforce
    have "safe cf False s (case mp_parse (c_parse cf) (v_heap t) lx of
                  Null p \<Rightarrow> fail_with (p_err p) (t\<lparr>v_heap := p_heap p\<rparr>)
                | Out \<Rightarrow> Spent t
                | Ok m p \<Rightarrow> ebind (ev m (t\<lparr>v_heap := p_heap p\<rparr>)) (\<lambda>v s2. Done Mp_None s2))"
    proof (cases "mp_parse (c_parse cf) (v_heap t) lx")
      case (Ok m p)
      with hp [of lx] have p: "in_heap (c_parse cf) p" by simp
      have "safe cf False (t\<lparr>v_heap := p_heap p\<rparr>) (ebind (ev m (t\<lparr>v_heap := p_heap p\<rparr>)) (\<lambda>v s2. Done Mp_None s2))"
        using heap [OF p] assms(2) by (intro safe_bind ev_safeD [OF ev]) (auto intro: safe_Done_same vm_ok_valid_static)
      from safe_grows [OF heap(2) [OF p] this] Ok show ?thesis by simp
    next
      case (Null p)
      with hp [of lx] heap [of p] show ?thesis by (simp add: safe_fail)
    qed (use t in \<open>simp add: safe_Spent\<close>)
    then show ?thesis using t Inr by (cases b) (simp_all add: eval_import_def l lx safe_fail)
  qed
qed

section \<open>Every node\<close>

fun subnodes :: "mp_node \<Rightarrow> mp_node list" where
  "subnodes (ND_UNARY op x) = [x]"
| "subnodes (ND_BINOP op x y) = [x, y]"
| "subnodes (ND_COMPARE op x y) = [x, y]"
| "subnodes (ND_CALL f as) = as"
| "subnodes (ND_ASSIGN v x) = [x]"
| "subnodes (ND_EXPR_STMT x) = [x]"
| "subnodes (ND_IF c b e) = [c, b] @ (case e of None \<Rightarrow> [] | Some x \<Rightarrow> [x])"
| "subnodes (ND_WHILE c b) = [c, b]"
| "subnodes (ND_FOR v x b) = [x, b]"
| "subnodes (ND_FUNC f ps b) = [b]"
| "subnodes (ND_RETURN e) = (case e of None \<Rightarrow> [] | Some x \<Rightarrow> [x])"
| "subnodes (ND_LIST es) = es"
| "subnodes (ND_INDEX x y) = [x, y]"
| "subnodes (ND_BLOCK xs) = xs"
| "subnodes (ND_MODULE xs) = xs"
| "subnodes n = []"

text \<open>The nodes that may run for ever by themselves: they bring in functions, or count without end.\<close>

fun bounded_node :: "mp_node \<Rightarrow> bool" where
  "bounded_node (ND_FUNC f ps b) \<longleftrightarrow> False"
| "bounded_node (ND_IMPORT m) \<longleftrightarrow> False"
| "bounded_node (ND_CALL f as) \<longleftrightarrow> f \<noteq> ''range''"
| "bounded_node n \<longleftrightarrow> True"

lemma safe_return:
  assumes ev: "ev_safe cf st P ev" and "\<forall>x. e = Some x \<longrightarrow> P x" and s: "vm_ok cf st s"
  shows "safe cf st s (ebind (case e of None \<Rightarrow> Done Mp_None s | Some x \<Rightarrow> ev x s) (\<lambda>v s1.
       if v_has_err s1 then Done None (s1\<lparr>v_retval := v\<rparr>)
       else Done v (s1\<lparr>v_retval := v, v_returning := True\<rparr>)))"
proof (rule safe_bind)
  show "safe cf st s (case e of None \<Rightarrow> Done Mp_None s | Some x \<Rightarrow> ev x s)"
    using assms by (auto intro: safe_Done_same vm_ok_valid_static ev_safeD [OF ev] split: option.splits)
next
  fix v t assume t: "vm_ok cf st t" "valid v t"
  then show "safe cf st t (if v_has_err t then Done None (t\<lparr>v_retval := v\<rparr>)
       else Done v (t\<lparr>v_retval := v, v_returning := True\<rparr>))"
    by (auto intro!: safe_Done simp: vm_ok_def valid_def grows_def)
qed

lemma safe_eval_body:
  assumes ev: "ev_safe cf st P ev" and sub: "\<forall>m \<in> set (subnodes n). P m" and s: "vm_ok cf st s"
    and all: "\<not> st \<Longrightarrow> P = (\<lambda>n. True)" and bounded: "st \<longrightarrow> bounded_node n"
  shows "safe cf st s (eval_body cf ev n s)"
proof (cases n)
  case (ND_NAME nm)
  have "valid (mp_env_get nm s) s" using s by (rule mp_env_get_valid)
  with s ND_NAME show ?thesis by (auto intro: safe_fail safe_Done_same split: option.splits)
next
  case (ND_CALL f as)
  with assms show ?thesis by (auto intro: safe_eval_call [OF ev])
next
  case (ND_FUNC f ps b)
  with bounded have st: "\<not> st" by auto
  show ?thesis unfolding ND_FUNC eval_body.simps
    by (rule safe_memory) (use s st in \<open>auto intro: made_new(6) safe_assign\<close>)
next
  case (ND_IMPORT m)
  with bounded ev s all show ?thesis by (cases st) (auto intro: safe_eval_import)
next
  case (ND_RETURN e)
  with safe_return [OF ev _ s, of e] sub show ?thesis by (simp split: option.splits)
next
  case (ND_IF c b e)
  with sub s show ?thesis
    by (auto intro!: safe_or_stop ev_safeD [OF ev] safe_Done_same vm_ok_valid_static split: option.splits)
next
  case (ND_ASSIGN x e)
  with sub s show ?thesis by (auto intro!: safe_or_fail ev_safeD [OF ev] safe_assign)
next
  case (ND_EXPR_STMT e)
  with sub s show ?thesis by (auto intro!: safe_or_stop ev_safeD [OF ev] safe_Done_same vm_ok_valid_static)
qed (use sub s in \<open>auto intro!: safe_Done_same safe_ret made_new vm_ok_valid_static safe_eval_list [OF ev] safe_eval_index [OF ev]
    safe_eval_unary [OF ev] safe_eval_binop [OF ev] safe_eval_compare [OF ev] safe_while [OF ev] safe_eval_for [OF ev]
    safe_eval_block [OF ev]\<close>)

lemma safe_eval_node:
  assumes "vm_ok cf False s"
  shows "safe cf False s (eval_node k cf n s)"
proof -
  have "ev_safe cf False (\<lambda>n. True) (\<lambda>m t. eval_node k cf m t)"
  proof (induction k)
    case (Suc k)
    then show ?case
      unfolding ev_safe_def [of cf False "\<lambda>n. True" "\<lambda>m t. eval_node (Suc k) cf m t"]
      by (auto intro!: safe_Done_same vm_ok_valid_static safe_eval_body)
  qed (simp add: ev_safe_def safe_Spent)
  from ev_safeD [OF this _ assms] show ?thesis by simp
qed

text \<open>A program without functions, imports and \<open>range\<close>.\<close>

inductive plain :: "mp_node \<Rightarrow> bool" where
  "bounded_node n \<Longrightarrow> (\<And>m. m \<in> set (subnodes n) \<Longrightarrow> plain m) \<Longrightarrow> plain n"

lemma size_subnodes: "m \<in> set (subnodes n) \<Longrightarrow> size m < size n"
  by (cases n) (auto split: option.splits dest: size_list_estimation' [of m _ "size m" size])

lemma safe_plain_node:
  assumes "vm_ok cf True s" and "plain n" and "size n < k"
  shows "safe cf True s (eval_node k cf n s)"
proof -
  have "ev_safe cf True (\<lambda>n. plain n \<and> size n < k) (\<lambda>m t. eval_node k cf m t)"
  proof (induction k)
    case (Suc k)
    have "safe cf True t (eval_node (Suc k) cf m t)" if m: "plain m" "size m < Suc k" and t: "vm_ok cf True t" for m t
    proof -
      have "plain m' \<and> size m' < k" if "m' \<in> set (subnodes m)" for m'
        using m size_subnodes [OF that] that by (auto elim: plain.cases)
      moreover have "bounded_node m" using m(1) by (auto elim: plain.cases)
      ultimately have "safe cf True t (eval_body cf (\<lambda>m t. eval_node k cf m t) m t)"
        using t by (intro safe_eval_body [OF Suc]) auto
      then show ?thesis using t by (simp add: safe_Done_same vm_ok_valid_static)
    qed
    then show ?case by (simp add: ev_safe_def del: eval_node.simps)
  qed (simp add: ev_safe_def)
  from ev_safeD [OF this _ assms(1)] assms show ?thesis by simp
qed

end
