(* ===== verification/MpSpec.thy ===== *)
theory MpSpec
  imports MpSafe
begin

text \<open>
  What the interpreter of \<^verbatim>\<open>py/eval.c\<close> and \<^verbatim>\<open>py/object.c\<close> promises: it never leaves its tables, more fuel
  changes nothing and straight-line programs need only their size, arithmetic is that of 32-bit words, the environment
  is a map; and the places where it does not do what it means to.
\<close>

section \<open>More fuel changes nothing\<close>

definition le_res :: "'a eres \<Rightarrow> 'a eres \<Rightarrow> bool" where
  "le_res r r' \<longleftrightarrow> (\<exists>t. r = Spent t) \<or> r = r'"

definition le_ev :: "evaluator \<Rightarrow> evaluator \<Rightarrow> bool" where
  "le_ev ev ev' \<longleftrightarrow> (\<forall>n s. le_res (ev n s) (ev' n s))"

lemma le_refl [simp]: "le_res r r"
  by (simp add: le_res_def)

lemma le_evD: "le_ev ev ev' \<Longrightarrow> le_res (ev n s) (ev' n s)"
  by (simp add: le_ev_def)

lemma le_bind: "le_res r r' \<Longrightarrow> (\<And>v t. le_res (f v t) (f' v t)) \<Longrightarrow> le_res (ebind r f) (ebind r' f')"
  by (cases r) (force simp: le_res_def)+

lemma le_or_fail: "le_res r r' \<Longrightarrow> (\<And>v t. le_res (f v t) (f' v t)) \<Longrightarrow> le_res (or_fail r f) (or_fail r' f')"
  unfolding or_fail_def by (rule le_bind) simp_all

lemma le_or_stop: "le_res r r' \<Longrightarrow> (\<And>v t. le_res (f v t) (f' v t)) \<Longrightarrow> le_res (or_stop r x f) (or_stop r' x f')"
  unfolding or_stop_def by (rule le_bind) simp_all

lemma le_memory: "(\<And>v t. le_res (f v t) (f' v t)) \<Longrightarrow> le_res (or_memory_error r f) (or_memory_error r f')"
  by (simp add: or_memory_error_def)

lemma le_deref: "(\<And>x. le_res (f x) (f' x)) \<Longrightarrow> le_res (deref p s f) (deref p s f')"
  by (simp add: deref_def split: option.splits)

lemma le_cases:
  "\<lbrakk>le_res a a'; \<And>x xs. le_res (f x xs) (f' x xs)\<rbrakk> \<Longrightarrow>
     le_res (case ys of [] \<Rightarrow> a | x # xs \<Rightarrow> f x xs) (case ys of [] \<Rightarrow> a' | x # xs \<Rightarrow> f' x xs)"
  "\<lbrakk>le_res a a'; \<And>x. le_res (g x) (g' x)\<rbrakk> \<Longrightarrow>
     le_res (case z of None \<Rightarrow> a | Some x \<Rightarrow> g x) (case z of None \<Rightarrow> a' | Some x \<Rightarrow> g' x)"
  "\<lbrakk>\<And>x y. le_res (h x y) (h' x y)\<rbrakk> \<Longrightarrow> le_res (case q of (x, y) \<Rightarrow> h x y) (case q of (x, y) \<Rightarrow> h' x y)"
  "\<lbrakk>le_res a a'; le_res b b'\<rbrakk> \<Longrightarrow> le_res (if c then a else b) (if c then a' else b')"
  by (auto split: list.splits option.splits prod.splits)

lemma le_case_obj:
  "\<lbrakk>le_res a1 b1; \<And>x. le_res (a2 x) (b2 x); \<And>x. le_res (a3 x) (b3 x); \<And>x. le_res (a4 x) (b4 x); \<And>x. le_res (a5 x) (b5 x);
     \<And>x. le_res (a6 x) (b6 x); \<And>x y. le_res (a7 x y) (b7 x y)\<rbrakk> \<Longrightarrow>
   le_res (case_mp_obj a1 a2 a3 a4 a5 a6 a7 x) (case_mp_obj b1 b2 b3 b4 b5 b6 b7 x)"
  by (cases x) auto

lemmas le_intros = le_bind le_or_fail le_or_stop le_memory le_deref

lemma le_operators:
  assumes le: "le_ev ev ev'"
  shows "le_res (eval_binop cf ev op x y s) (eval_binop cf ev' op x y s)"
    and "le_res (eval_compare ev op x y s) (eval_compare ev' op x y s)"
    and "le_res (eval_unary cf ev op x s) (eval_unary cf ev' op x s)"
    and "le_res (eval_index cf ev x y s) (eval_index cf ev' x y s)"
  unfolding eval_binop_def eval_compare_def eval_unary_def eval_index_def
  by (auto intro!: le_intros le_evD [OF le])

lemma le_bind_args:
  assumes le: "le_ev ev ev'"
  shows "le_res (bind_args ev ps as saved s) (bind_args ev' ps as saved s)"
  proof (induction ps arbitrary: as saved s)
  case (Cons p ps)
  then show ?case
    by (cases as) (auto simp: Let_def intro!: le_intros le_evD [OF le] split: prod.splits bool.splits)
qed simp

lemma le_call_user:
  assumes le: "le_ev ev ev'"
  shows "le_res (call_user ev ps body as s) (call_user ev' ps body as s)"
  unfolding call_user_def Let_def by (auto intro!: le_intros le_bind_args [OF le] le_evD [OF le] split: option.splits)

lemma le_print_args:
  assumes le: "le_ev ev ev'"
  shows "le_res (print_args ev as s) (print_args ev' as s)"
  by (induction as arbitrary: s) (auto simp: Let_def intro!: le_intros le_evD [OF le])

lemma le_builtins:
  assumes le: "le_ev ev ev'"
  shows "le_res (bi_print cf ev as s) (bi_print cf ev' as s)"
    and "le_res (bi_range cf ev as s) (bi_range cf ev' as s)"
    and "le_res (bi_append ev as s) (bi_append ev' as s)"
    and "le_res (bi_len cf ev as s) (bi_len cf ev' as s)"
    and "le_res (bi_int cf ev as s) (bi_int cf ev' as s)"
    and "le_res (bi_str cf ev as s) (bi_str cf ev' as s)"
    and "le_res (bi_type cf ev as s) (bi_type cf ev' as s)"
    and "le_res (bi_open cf ev as s) (bi_open cf ev' as s)"
    and "le_res (bi_read cf ev as s) (bi_read cf ev' as s)"
    and "le_res (bi_write cf ev as s) (bi_write cf ev' as s)"
    and "le_res (bi_close ev as s) (bi_close ev' as s)"
    and "le_res (bi_remove cf ev as s) (bi_remove cf ev' as s)"
    and "le_res (bi_exists ev as s) (bi_exists ev' as s)"
    and "le_res (bi_input cf ev as s) (bi_input cf ev' as s)"
  unfolding bi_print_def bi_range_def bi_append_def bi_len_def bi_int_def bi_str_def bi_type_def bi_open_def
    bi_read_def bi_write_def bi_close_def bi_remove_def bi_exists_def bi_input_def with_arg_def Let_def
  by (intro le_refl le_intros le_evD [OF le] le_print_args [OF le] le_cases le_case_obj)+

lemma le_eval_call:
  assumes le: "le_ev ev ev'"
  shows "le_res (eval_call cf ev nm as s) (eval_call cf ev' nm as s)"
  unfolding eval_call_def call_builtin_def
  by (intro le_refl le_cases le_case_obj le_call_user [OF le] le_builtins [OF le])

lemma le_loops:
  assumes le: "le_ev ev ev'"
  shows "le_res (list_items ev l es s) (list_items ev' l es s)"
    and "le_res (while_loop g ev c body s) (while_loop g ev' c body s)"
    and "le_res (for_list n ev nm l body i s) (for_list n ev' nm l body i s)"
    and "le_res (for_chars cf ev nm cs body s) (for_chars cf ev' nm cs body s)"
    and "le_res (eval_block ev prev es s) (eval_block ev' prev es s)"
  proof -
  show "le_res (list_items ev l es s) (list_items ev' l es s)"
    by (induction es arbitrary: s) (auto intro!: le_intros le_evD [OF le])
  show "le_res (while_loop g ev c body s) (while_loop g ev' c body s)"
    by (induction g arbitrary: s) (auto intro!: le_intros le_evD [OF le])
  show "le_res (for_list n ev nm l body i s) (for_list n ev' nm l body i s)"
    by (induction n arbitrary: i s)
      (auto intro!: le_intros le_evD [OF le] split: option.splits mp_obj.splits prod.splits bool.splits)
  show "le_res (for_chars cf ev nm cs body s) (for_chars cf ev' nm cs body s)"
    by (induction cs arbitrary: s) (auto simp: Let_def intro!: le_intros le_evD [OF le] split: prod.splits bool.splits)
  show "le_res (eval_block ev prev es s) (eval_block ev' prev es s)"
    by (induction es arbitrary: prev s) (auto intro!: le_intros le_evD [OF le])
qed

lemma le_eval_for:
  assumes le: "le_ev ev ev'"
  shows "le_res (eval_for cf ev nm x body s) (eval_for cf ev' nm x body s)"
  unfolding eval_for_def by (auto simp del: for_list.simps intro!: le_intros le_evD [OF le] le_loops [OF le] split: mp_obj.splits)

lemma le_eval_import:
  assumes le: "le_ev ev ev'"
  shows "le_res (eval_import cf ev nm s) (eval_import cf ev' nm s)"
  unfolding eval_import_def
  by (auto intro!: le_intros le_evD [OF le] split: prod.splits sum.splits bool.splits presult.splits)

lemma le_eval_body:
  assumes le: "le_ev ev ev'"
  shows "le_res (eval_body cf ev n s) (eval_body cf ev' n s)"
  by (cases n) (auto simp: eval_list_def intro!: le_intros le_evD [OF le] le_operators [OF le] le_eval_call [OF le] le_loops [OF le] le_eval_for [OF le]
      le_eval_import [OF le] split: option.splits)

lemma le_eval_node: "k \<le> j \<Longrightarrow> le_res (eval_node k cf n s) (eval_node j cf n s)"
proof (induction k arbitrary: j n s)
  case (Suc k)
  then obtain i where j: "j = Suc i" "k \<le> i" by (cases j) auto
  with Suc.IH have "le_ev (\<lambda>m t. eval_node k cf m t) (\<lambda>m t. eval_node i cf m t)" by (simp add: le_ev_def)
  from le_eval_body [OF this] j show ?case by simp
qed (simp add: le_res_def)

section \<open>Numbers as text\<close>

lemma parse_int_loop_append:
  "parse_int_loop x (as @ bs) = (case parse_int_loop x as of None \<Rightarrow> None | Some y \<Rightarrow> parse_int_loop y bs)"
  by (induction x as rule: parse_int_loop.induct) auto

lemma dig_facts:
  assumes "0 \<le> d" and "d < 10"
  shows "is_dec (dig d)" and "of_char (dig d) - of_char (CHR ''0'') = (of_int d :: u32)" and "dig d \<noteq> CHR ''-''"
proof -
  have nat: "of_char (dig d) = nat (48 + d)" using assms by (simp add: dig_def nat_less_iff)
  show "is_dec (dig d)" using assms by (simp add: is_dec_def nat, linarith)
  have "(of_char (dig d) :: u32) = of_nat (of_char (dig d))" by (rule of_nat_of_char [symmetric])
  also have "\<dots> = 48 + of_int d" using assms by (simp only: nat) (simp add: of_nat_nat)
  finally show "of_char (dig d) - of_char (CHR ''0'') = (of_int d :: u32)" by simp
  have "of_char (dig d) \<noteq> (of_char (CHR ''-'') :: nat)" using assms by (simp add: nat)
  then show "dig d \<noteq> CHR ''-''" by metis
qed

lemma parse_int_digits:
  "0 \<le> n \<Longrightarrow> n < 10 ^ k \<Longrightarrow> parse_int_loop 0 (int_digits k n) = Some (of_int n)"
proof (induction k arbitrary: n)
  case (Suc k)
  show ?case
  proof (cases "0 < n")
    case True
    have d: "0 \<le> n mod 10" "n mod 10 < 10" by simp_all
    have "parse_int_loop 0 (int_digits k (n div 10)) = Some (of_int (n div 10))"
      using Suc.prems by (intro Suc.IH) (auto simp: div_less_iff_less_mult)
    moreover have "(of_int (n div 10) * 10 + of_int (n mod 10) :: u32) = of_int n"
      by (metis mult.commute mult_div_mod_eq of_int_add of_int_mult of_int_numeral)
    ultimately show ?thesis using True dig_facts [OF d] by (simp add: parse_int_loop_append)
  qed (use Suc.prems in simp)
next
  case 0
  then have "n = 0" by simp
  then show ?case by simp
qed

lemma int_digits_start: "0 < n \<Longrightarrow> 0 < k \<Longrightarrow> int_digits k n \<noteq> [] \<and> hd (int_digits k n) \<noteq> CHR ''-''"
proof (induction k arbitrary: n)
  case (Suc k)
  then show ?case
  proof (cases "0 < n div 10 \<and> 0 < k")
    case True
    with Suc show ?thesis by auto
  next
    case False
    then have "int_digits k (n div 10) = []" by (cases k) auto
    with Suc.prems dig_facts(3) [of "n mod 10"] show ?thesis by simp
  qed
qed simp

lemma sint_bounds32: "- (2 ^ 31) \<le> sint (v :: u32)" "sint (v :: u32) < 2 ^ 31"
  using sint_ge [of v] sint_lt [of v] by simp_all

lemma sint_of_int_u32: "- (2 ^ 31) \<le> x \<Longrightarrow> x < 2 ^ 31 \<Longrightarrow> sint (of_int x :: u32) = x"
  by (simp add: signed_of_int signed_take_bit_int_eq_self)

lemma sint_uminus:
  assumes "(v :: u32) \<noteq> 0x80000000"
  shows "sint (- v) = - sint v"
proof -
  have "sint v \<noteq> - (2 ^ 31)"
  proof
    assume "sint v = - (2 ^ 31)"
    moreover have "v = of_int (sint v)" by simp
    ultimately have "v = of_int (- (2 ^ 31))" by (simp only:)
    with assms show False by simp
  qed
  then have "- (2 ^ 31) \<le> - sint v \<and> - sint v < 2 ^ 31" using sint_bounds32 [of v] by linarith
  then have "sint (of_int (- sint v) :: u32) = - sint v" by (intro sint_of_int_u32) auto
  moreover have "(of_int (- sint v) :: u32) = - v" by simp
  ultimately show ?thesis by (simp only:)
qed

lemma int_text_nonneg:
  assumes "0 \<le> sint v"
  shows "int_text v = (if v = 0 then ''0'' else int_digits 15 (sint v))"
    and "parse_int_loop 0 (int_text v) = Some v" and "int_text v \<noteq> []" and "hd (int_text v) \<noteq> CHR ''-''"
proof -
  show t: "int_text v = (if v = 0 then ''0'' else int_digits 15 (sint v))" using assms by (simp add: int_text_def)
  have pos: "0 < sint v" if "v \<noteq> 0"
  proof -
    have "v = of_int (sint v)" by simp
    with that have "sint v \<noteq> 0" by (metis of_int_0)
    with assms show ?thesis by simp
  qed
  have "sint v < 10 ^ 15" using sint_bounds32(2) [of v] by simp
  from parse_int_digits [OF assms this] show "parse_int_loop 0 (int_text v) = Some v"
    unfolding t by (cases "v = 0") (simp_all add: is_dec_def del: int_digits.simps)
  show "int_text v \<noteq> []" "hd (int_text v) \<noteq> CHR ''-''" using int_digits_start [OF pos, of 15] by (auto simp: t simp del: int_digits.simps)
qed

text \<open>
  Property C13. \<^verbatim>\<open>int(str(n))\<close> is \<open>n\<close> for every 32-bit integer but the smallest, whose text is a lone minus sign
  that \<^verbatim>\<open>int\<close> rejects.
\<close>

theorem int_of_str: "parse_int (int_text v) = (if v = 0x80000000 then None else Some v)"
proof (cases "0 \<le> sint v")
  case True
  then have "v \<noteq> 0x80000000" by auto
  with int_text_nonneg [OF True] show ?thesis by (simp add: parse_int_def)
next
  case False
  show ?thesis
  proof (cases "v = 0x80000000")
    case True
    have "int_text 0x80000000 = ''-''" by code_simp
    with True show ?thesis by (simp add: parse_int_def)
  next
    case v: False
    then have "0 \<le> sint (- v)" using False sint_uminus [OF v] by simp
    note w = int_text_nonneg [OF this]
    have "int_text v = CHR ''-'' # int_text (- v)"
      using False w(1) by (simp add: int_text_def)
    with w v show ?thesis by (simp add: parse_int_def)
  qed
qed

section \<open>Arithmetic\<close>

text \<open>
  What an arithmetic expression is worth: 32-bit words, the quotient and remainder of \<^verbatim>\<open>/\<close> (and \<^verbatim>\<open>//\<close>) and
  \<^verbatim>\<open>%\<close> truncated towards zero, and no value for a division by zero or the quotient that does not fit.
\<close>

definition div_ok :: "u32 \<Rightarrow> u32 \<Rightarrow> bool" where
  "div_ok x y \<longleftrightarrow> y \<noteq> 0 \<and> \<not> (sint x = - (2 ^ 31) \<and> sint y = - 1)"

fun arith_op :: "tok_kind \<Rightarrow> u32 \<Rightarrow> u32 \<Rightarrow> u32 option" where
  "arith_op TOK_PLUS x y = Some (x + y)"
| "arith_op TOK_MINUS x y = Some (x - y)"
| "arith_op TOK_STAR x y = Some (x * y)"
| "arith_op TOK_SLASH x y = (if div_ok x y then Some (of_int (sint x sdiv sint y)) else None)"
| "arith_op TOK_PERCENT x y = (if div_ok x y then Some (of_int (sint x smod sint y)) else None)"
| "arith_op op x y = None"

fun arith :: "mp_node \<Rightarrow> u32 option" where
  "arith (ND_INT v) = Some v"
| "arith (ND_UNARY op x) =
     (if op = TOK_MINUS then map_option uminus (arith x) else if op = TOK_PLUS then arith x else None)"
| "arith (ND_BINOP op x y) =
     (case arith x of None \<Rightarrow> None | Some a \<Rightarrow> (case arith y of None \<Rightarrow> None | Some b \<Rightarrow> arith_op op a b))"
| "arith n = None"

text \<open>The objects it makes, and the bytes of one.\<close>

fun made_by :: "mp_node \<Rightarrow> nat" where
  "made_by (ND_UNARY op x) = Suc (made_by x)"
| "made_by (ND_BINOP op x y) = Suc (made_by x + made_by y)"
| "made_by n = 1"

definition obj_bytes :: "ev_cfg \<Rightarrow> nat" where
  "obj_bytes cf = (c_obj cf + 7) div 8 * 8"

definition sane_cfg :: "ev_cfg \<Rightarrow> bool" where
  "sane_cfg cf \<longleftrightarrow> cf_heap (c_parse cf) < 2 ^ 32 \<and> c_obj cf + 7 < 2 ^ 32"

text \<open>\<open>s\<close> and \<open>t\<close> differ in \<open>n\<close> new objects only.\<close>

definition allocates :: "ev_cfg \<Rightarrow> nat \<Rightarrow> mp_vm \<Rightarrow> mp_vm \<Rightarrow> bool" where
  "allocates cf n s t \<longleftrightarrow>
     (\<exists>xs. length xs = n \<and> t = s\<lparr>v_objs := v_objs s @ xs, v_heap := v_heap s + n * obj_bytes cf\<rparr>)"

lemma allocates_trans: "allocates cf n s t \<Longrightarrow> allocates cf m t u \<Longrightarrow> allocates cf (n + m) s u"
  unfolding allocates_def
proof (elim exE conjE)
  fix xs ys
  assume "length xs = n" "t = s\<lparr>v_objs := v_objs s @ xs, v_heap := v_heap s + n * obj_bytes cf\<rparr>"
    "length ys = m" "u = t\<lparr>v_objs := v_objs t @ ys, v_heap := v_heap t + m * obj_bytes cf\<rparr>"
  then show "\<exists>zs. length zs = n + m \<and> u = s\<lparr>v_objs := v_objs s @ zs, v_heap := v_heap s + (n + m) * obj_bytes cf\<rparr>"
    by (intro exI [of _ "xs @ ys"]) (simp add: add_mult_distrib)
qed

lemma allocates_obj: "allocates cf n s t \<Longrightarrow> valid p s \<Longrightarrow> obj_at p t = obj_at p s \<and> valid p t"
  by (cases p) (auto simp: allocates_def obj_at_def valid_def nth_append)

lemma allocates_fields:
  "allocates cf n s t \<Longrightarrow> v_has_err t = v_has_err s \<and> v_returning t = v_returning s \<and> v_heap t = v_heap s + n * obj_bytes cf"
  by (auto simp: allocates_def)

lemma int_new_allocates:
  assumes "sane_cfg cf" and "v_heap s + obj_bytes cf \<le> cf_heap (c_parse cf)"
  shows "\<exists>p t. mp_int_new cf v s = (p, t) \<and> allocates cf 1 s t \<and> valid p t \<and> obj_at p t = Some (T_INT v)"
proof -
  have "mp_alloc cf (c_obj cf) s = (True, s\<lparr>v_heap := v_heap s + obj_bytes cf\<rparr>)"
    using assms by (simp add: mp_alloc_def obj_bytes_def sane_cfg_def Let_def)
  then have "mp_int_new cf v s = (Some (length (v_objs s)), s\<lparr>v_objs := v_objs s @ [T_INT v], v_heap := v_heap s + obj_bytes cf\<rparr>)"
    by (simp add: mp_int_new_def alloc_obj_def)
  then show ?thesis by (fastforce simp: allocates_def valid_def obj_at_def intro: exI [of _ "[T_INT v]"])
qed

lemma int_op_arith: "arith_op op x y = Some v \<Longrightarrow> int_op cf op x y s = ret (mp_int_new cf v s)"
  by (cases op) (auto simp: int_op_def int_divmod_def div_ok_def split: if_splits)

lemma binop_ints:
  assumes "obj_at p s = Some (T_INT x)" and "obj_at q s = Some (T_INT y)"
  shows "binop_values cf op p q s = int_op cf op x y s"
  using assms by (simp add: binop_values_def deref_def int_operands_def mp_as_int_def)

lemma eval_arith:
  assumes cfg: "sane_cfg cf"
  shows "arith n = Some v \<Longrightarrow> \<not> v_has_err s \<Longrightarrow> \<not> v_returning s \<Longrightarrow> size n < k \<Longrightarrow>
    v_heap s + made_by n * obj_bytes cf \<le> cf_heap (c_parse cf) \<Longrightarrow>
    \<exists>p t. eval_node k cf n s = Done p t \<and> allocates cf (made_by n) s t \<and> valid p t \<and> obj_at p t = Some (T_INT v)"
proof (induction n arbitrary: v s k rule: arith.induct)
  case (1 w)
  then obtain j where k: "k = Suc j" by (cases k) auto
  from int_new_allocates [OF cfg, of s w] 1 k show ?case by (auto simp: ret_def)
next
  case (2 op x)
  then obtain j where k: "k = Suc j" "size x < j" by (cases k) auto
  have op: "op = TOK_MINUS \<or> op = TOK_PLUS" using "2.prems"(1) by (auto split: if_splits)
  then obtain w where w: "arith x = Some w" "v = (if op = TOK_MINUS then - w else w)" using "2.prems"(1) by auto
  have IH: "arith x = Some a \<Longrightarrow> \<not> v_has_err s \<Longrightarrow> \<not> v_returning s \<Longrightarrow> size x < l \<Longrightarrow>
    v_heap s + made_by x * obj_bytes cf \<le> cf_heap (c_parse cf) \<Longrightarrow>
    \<exists>p t. eval_node l cf x s = Done p t \<and> allocates cf (made_by x) s t \<and> valid p t \<and> obj_at p t = Some (T_INT a)" for a l
    using op "2.IH" by auto
  have "v_heap s + made_by x * obj_bytes cf \<le> cf_heap (c_parse cf)" using "2.prems"(5) by simp
  from IH [OF w(1) "2.prems"(2,3) k(2) this] obtain p t where
    p: "eval_node j cf x s = Done p t" "allocates cf (made_by x) s t" "valid p t" "obj_at p t = Some (T_INT w)" by blast
  note f = allocates_fields [OF p(2)]
  have "v_heap t + obj_bytes cf \<le> cf_heap (c_parse cf)" using f "2.prems"(5) by (simp add: add_ac)
  from int_new_allocates [OF cfg this, of v] obtain q u where
    q: "mp_int_new cf v t = (q, u)" "allocates cf 1 t u" "valid q u" "obj_at q u = Some (T_INT v)" by blast
  have "eval_node k cf (ND_UNARY op x) s = Done q u"
    using k "2.prems"(2,3) p f op q(1) w(2) by (auto simp: eval_unary_def or_fail_def mp_as_int_def ret_def)
  then show ?case using q allocates_trans [OF p(2) q(2)] by simp
next
  case (3 op x y)
  then obtain j where k: "k = Suc j" "size x < j" "size y < j" by (cases k) auto
  from "3.prems"(1) obtain a b where ab: "arith x = Some a" "arith y = Some b" "arith_op op a b = Some v"
    by (auto split: option.splits)
  have "v_heap s + made_by x * obj_bytes cf \<le> cf_heap (c_parse cf)" using "3.prems"(5) by (simp add: add_mult_distrib)
  from "3.IH"(1) [OF ab(1) "3.prems"(2,3) k(2) this] obtain p t where
    p: "eval_node j cf x s = Done p t" "allocates cf (made_by x) s t" "valid p t" "obj_at p t = Some (T_INT a)" by blast
  note f = allocates_fields [OF p(2)]
  have "v_heap t + made_by y * obj_bytes cf \<le> cf_heap (c_parse cf)" using f "3.prems"(5) by (simp add: add_mult_distrib add_ac)
  from "3.IH"(2) [OF ab(1,2) _ _ k(3) this] f "3.prems"(2,3) obtain q u where
    q: "eval_node j cf y t = Done q u" "allocates cf (made_by y) t u" "valid q u" "obj_at q u = Some (T_INT b)" by auto
  note g = allocates_fields [OF q(2)]
  have "v_heap u + obj_bytes cf \<le> cf_heap (c_parse cf)" using f g "3.prems"(5) by (simp add: add_mult_distrib add_ac)
  from int_new_allocates [OF cfg this, of v] obtain r w where
    r: "mp_int_new cf v u = (r, w)" "allocates cf 1 u w" "valid r w" "obj_at r w = Some (T_INT v)" by blast
  have pu: "obj_at p u = Some (T_INT a)" using allocates_obj [OF q(2) p(3)] p(4) by simp
  have "op \<noteq> TOK_AND" "op \<noteq> TOK_OR" using ab(3) by auto
  then have "eval_node k cf (ND_BINOP op x y) s = Done r w"
    using k "3.prems"(2,3) p q f g r(1) by (simp add: eval_binop_def or_stop_def binop_ints [OF pu q(4)] int_op_arith [OF ab(3)] ret_def)
  then show ?case using r allocates_trans [OF allocates_trans [OF p(2) q(2)] r(2)] by simp
qed simp_all

section \<open>The environment is a map\<close>

text \<open>What a store of named values promises, and what follows for any run of updates.\<close>

fun put_all :: "(string \<Rightarrow> ptr \<Rightarrow> 's \<Rightarrow> bool \<times> 's) \<Rightarrow> (string \<times> ptr) list \<Rightarrow> 's \<Rightarrow> bool \<times> 's" where
  "put_all setv [] s = (True, s)"
| "put_all setv ((a, v) # xs) s = (case setv a v s of (False, t) \<Rightarrow> (False, t) | (True, t) \<Rightarrow> put_all setv xs t)"

locale name_store =
  fixes get :: "string \<Rightarrow> 's \<Rightarrow> ptr" and setv :: "string \<Rightarrow> ptr \<Rightarrow> 's \<Rightarrow> bool \<times> 's"
    and ok :: "'s \<Rightarrow> bool" and good :: "string \<Rightarrow> bool"
  assumes put_ok: "ok s \<Longrightarrow> good a \<Longrightarrow> setv a v s = (True, t) \<Longrightarrow> ok t"
    and put_get: "ok s \<Longrightarrow> good a \<Longrightarrow> setv a v s = (True, t) \<Longrightarrow> get a t = v"
    and put_other: "ok s \<Longrightarrow> good a \<Longrightarrow> good b \<Longrightarrow> a \<noteq> b \<Longrightarrow> setv a v s = (True, t) \<Longrightarrow> get b t = get b s"
begin

lemma put_all_get:
  "ok s \<Longrightarrow> \<forall>a \<in> fst ` set xs. good a \<Longrightarrow> good b \<Longrightarrow> put_all setv xs s = (True, t) \<Longrightarrow>
     get b t = (case map_of (rev xs) b of None \<Rightarrow> get b s | Some v \<Rightarrow> v)"
proof (induction xs arbitrary: s)
  case (Cons x xs)
  obtain a v where x: "x = (a, v)" by (cases x)
  with Cons.prems obtain u where u: "setv a v s = (True, u)" "put_all setv xs u = (True, t)"
    by (auto split: prod.splits bool.splits)
  have "get b t = (case map_of (rev xs) b of None \<Rightarrow> get b u | Some v \<Rightarrow> v)"
    using Cons.prems x u put_ok [of s a v u] by (intro Cons.IH) auto
  moreover have "get b u = (if a = b then v else get b s)"
    using Cons.prems x u(1) put_get [of s a v u] put_other [of s a b v u] by auto
  ultimately show ?case by (auto simp: x map_add_def split: option.splits)
qed simp

end

definition env_unique :: "mp_vm \<Rightarrow> bool" where
  "env_unique s \<longleftrightarrow>
     (\<forall>e \<in> set (v_slots s). sl_used e \<longrightarrow> no_nul (sl_name e)) \<and>
     (\<forall>i j. i < length (v_slots s) \<and> j < length (v_slots s) \<and> sl_used (v_slots s ! i) \<and> sl_used (v_slots s ! j) \<and>
        sl_name (v_slots s ! i) = sl_name (v_slots s ! j) \<longrightarrow> i = j)"

lemma env_uniqueD:
  "env_unique s \<Longrightarrow> i < length (v_slots s) \<Longrightarrow> j < length (v_slots s) \<Longrightarrow> sl_used (v_slots s ! i) \<Longrightarrow>
     sl_used (v_slots s ! j) \<Longrightarrow> sl_name (v_slots s ! i) = sl_name (v_slots s ! j) \<Longrightarrow> i = j"
  unfolding env_unique_def by blast

lemma name_eq_iff: "no_nul a \<Longrightarrow> no_nul b \<Longrightarrow> name_eq a b \<longleftrightarrow> a = b"
proof (induction a arbitrary: b)
  case Nil
  then show ?case by (cases b) auto
next
  case (Cons c cs)
  then show ?case by (cases b) auto
qed

lemma slot_of_iff:
  assumes u: "env_unique s" and "no_nul a"
  shows "slot_of a s = Some i \<longleftrightarrow> i < length (v_slots s) \<and> sl_used (v_slots s ! i) \<and> sl_name (v_slots s ! i) = a"
proof
  have eq: "name_eq a (sl_name (v_slots s ! j)) \<longleftrightarrow> a = sl_name (v_slots s ! j)"
    if "j < length (v_slots s)" "sl_used (v_slots s ! j)" for j
    using u that assms(2) by (intro name_eq_iff) (auto simp: env_unique_def)
  show "i < length (v_slots s) \<and> sl_used (v_slots s ! i) \<and> sl_name (v_slots s ! i) = a" if "slot_of a s = Some i"
    using slot_of_facts [OF that] eq [of i] by simp
  show "slot_of a s = Some i" if i: "i < length (v_slots s) \<and> sl_used (v_slots s ! i) \<and> sl_name (v_slots s ! i) = a"
    unfolding slot_of_def
  proof (rule first_from_eq)
    fix j assume "j < i"
    with i eq [of j] env_uniqueD [OF u, of i j] show "\<not> (sl_used (v_slots s ! j) \<and> name_eq a (sl_name (v_slots s ! j)))"
      by auto
  qed (use i eq [of i] in auto)
qed

lemma mp_env_get_eq:
  assumes "env_unique s" and "no_nul a" and "i < length (v_slots s)" and "sl_used (v_slots s ! i)" and "sl_name (v_slots s ! i) = a"
  shows "mp_env_get a s = sl_value (v_slots s ! i)"
  using slot_of_iff [OF assms(1,2), of i] assms(3-) by (simp add: mp_env_get_def)

text \<open>One slot rewritten, with no other used slot of its new name.\<close>

lemma env_slot_update:
  assumes u: "env_unique s" and i: "i < length (v_slots s)" and e: "sl_used e" "no_nul (sl_name e)"
    and new: "\<And>j. j < length (v_slots s) \<Longrightarrow> j \<noteq> i \<Longrightarrow> sl_used (v_slots s ! j) \<Longrightarrow> sl_name (v_slots s ! j) \<noteq> sl_name e"
    and old: "sl_used (v_slots s ! i) \<Longrightarrow> sl_name (v_slots s ! i) = sl_name e"
  defines "t \<equiv> s\<lparr>v_slots := (v_slots s)[i := e]\<rparr>"
  shows "env_unique t" and "mp_env_get (sl_name e) t = sl_value e"
    and "no_nul b \<Longrightarrow> b \<noteq> sl_name e \<Longrightarrow> mp_env_get b t = mp_env_get b s"
proof -
  have nth: "v_slots t ! j = (if j = i then e else v_slots s ! j)" if "j < length (v_slots s)" for j
    using that i by (simp add: t_def nth_list_update)
  have len: "length (v_slots t) = length (v_slots s)" by (simp add: t_def)
  show ut: "env_unique t"
    unfolding env_unique_def len
  proof (intro conjI ballI allI impI)
    fix x assume "x \<in> set (v_slots t)" "sl_used x"
    then show "no_nul (sl_name x)" using u e set_update_subset_insert [of "v_slots s" i e] by (auto simp: t_def env_unique_def)
  next
    fix j k assume "j < length (v_slots s) \<and> k < length (v_slots s) \<and> sl_used (v_slots t ! j) \<and> sl_used (v_slots t ! k) \<and>
        sl_name (v_slots t ! j) = sl_name (v_slots t ! k)"
    then show "j = k" using u nth [of j] nth [of k] new [of j] new [of k] by (cases "j = i"; cases "k = i") (auto simp: env_unique_def)
  qed
  show "mp_env_get (sl_name e) t = sl_value e"
    using mp_env_get_eq [OF ut e(2), of i] nth [OF i] i e(1) len by simp
  show "mp_env_get b t = mp_env_get b s" if b: "no_nul b" "b \<noteq> sl_name e"
  proof -
    have "slot_of b t = Some j \<longleftrightarrow> slot_of b s = Some j" for j
      using slot_of_iff [OF ut b(1), of j] slot_of_iff [OF u b(1), of j] nth [of j] len b(2) old e(1) by (cases "j = i") auto
    then have "slot_of b t = slot_of b s" by (rule option_eq_Some)
    moreover have "v_slots t ! j = v_slots s ! j" if "slot_of b s = Some j" for j
      using slot_of_iff [OF u b(1), of j] that nth [of j] old b(2) by (cases "j = i") auto
    ultimately show ?thesis by (auto simp: mp_env_get_def split: option.splits)
  qed
qed

lemma mp_env_set_cases:
  assumes u: "env_unique s" and a: "no_nul a" and set: "mp_env_set a v s = (True, t)"
  shows "env_unique t \<and> mp_env_get a t = v \<and> (\<forall>b. no_nul b \<and> b \<noteq> a \<longrightarrow> mp_env_get b t = mp_env_get b s)"
proof (cases "slot_of a s")
  case (Some i)
  with slot_of_iff [OF u a] have i: "i < length (v_slots s)" "sl_used (v_slots s ! i)" "sl_name (v_slots s ! i) = a" by auto
  let ?e = "(v_slots s ! i)\<lparr>sl_value := v\<rparr>"
  have t: "t = s\<lparr>v_slots := (v_slots s)[i := ?e]\<rparr>" using set Some by (auto simp: mp_env_set_def split: if_splits)
  have new: "sl_name (v_slots s ! j) \<noteq> sl_name ?e" if "j < length (v_slots s)" "j \<noteq> i" "sl_used (v_slots s ! j)" for j
    using env_uniqueD [OF u that(1) i(1) that(3) i(2)] i(3) that(2) by auto
  have e: "sl_used ?e" "no_nul (sl_name ?e)" "sl_name (v_slots s ! i) = sl_name ?e" using i a by simp_all
  note upd = env_slot_update [OF u i(1) e(1,2) new e(3), folded t]
  from upd(1,2) upd(3) i show ?thesis by simp
next
  case None
  then obtain i where f: "first_from (\<lambda>e. \<not> sl_used e) (v_slots s) 0 = Some i" and
    t: "t = s\<lparr>v_slots := (v_slots s)[i := \<lparr>sl_name = a, sl_value = v, sl_used = True\<rparr>]\<rparr>"
    using set by (auto simp: mp_env_set_def split: if_splits option.splits)
  note i = first_from_facts [OF f]
  let ?e = "\<lparr>sl_name = a, sl_value = v, sl_used = True\<rparr>"
  have new: "sl_name (v_slots s ! j) \<noteq> sl_name ?e" if "j < length (v_slots s)" "j \<noteq> i" "sl_used (v_slots s ! j)" for j
    using slot_of_iff [OF u a, of j] None that by auto
  have e: "sl_used ?e" "no_nul (sl_name ?e)" "sl_used (v_slots s ! i) \<Longrightarrow> sl_name (v_slots s ! i) = sl_name ?e" using i a by simp_all
  note upd = env_slot_update [OF u i(1) e(1,2) new e(3), folded t]
  from upd show ?thesis by simp
qed

interpretation env: name_store mp_env_get mp_env_set env_unique no_nul
  using mp_env_set_cases by unfold_locales blast+

section \<open>Properties\<close>

definition kernel_cfg :: ev_cfg where
  "kernel_cfg = \<lparr>c_parse = \<lparr>cf_heap = 65536, cf_node = 44\<rparr>, c_tokens = 256, c_obj = 16, c_ptr = 4, c_files = 8, c_fmax = 2048\<rparr>"

definition fresh_vm :: mp_vm where
  "fresh_vm = mp_runtime_init kernel_cfg
     \<lparr>m_magic = 0, m_version = 0, m_nfiles = 0, m_files = [], m_fds = replicate MPFS_MAX_FD zero_fd\<rparr> []"

lemma vm_ok_runtime_init: "length (m_fds fs) = MPFS_MAX_FD \<Longrightarrow> vm_ok cf st (mp_runtime_init cf fs typed)"
  by (auto simp: vm_ok_def mp_runtime_init_def mp_objects_init_def mp_eval_init_def slot_ok_def valid_def MP_ENV_NAME_def
      intro: mpfs_format_inv)

lemma fresh_vm_ok: "vm_ok kernel_cfg st fresh_vm"
  unfolding fresh_vm_def by (rule vm_ok_runtime_init) simp

lemma vm_ok_reset: "vm_ok cf st s \<Longrightarrow> vm_ok cf st (s\<lparr>v_has_err := False, v_err := [], v_returning := False\<rparr>)"
  by (auto simp: vm_ok_def valid_def)

text \<open>The states a run may be left in: well formed, with the old objects still there.\<close>

definition vm_kept :: "ev_cfg \<Rightarrow> mp_vm \<Rightarrow> (string + ptr) eres \<Rightarrow> bool" where
  "vm_kept cf s r \<longleftrightarrow>
     (case r of
        Done v t \<Rightarrow> vm_ok cf False t \<and> grows s t \<and> (\<forall>p. v = Inr p \<longrightarrow> valid p t)
      | Crash f t \<Rightarrow> vm_ok cf False t \<and> grows s t \<and> f \<noteq> Wrong_member
      | Spent t \<Rightarrow> vm_ok cf False t \<and> grows s t)"

text \<open>
  Property C9. Running a program, whatever its text, keeps the interpreter's state well formed: every pointer in
  a variable, a list or the result refers to an object, lists stay within their 64 items, the heap
  offset within the heap, the file system within its invariant; old objects keep their type and, unless
  they are lists or closed files, their value. This holds of the state in which the run returns, with a value or an
  error message, of the state just before one of the three faults the C code does not guard against (a null pointer
  read, the division that traps, the copy of \<^verbatim>\<open>str_repeat\<close> past its buffer), and of the state in which a run is cut
  short after any number of nested evaluations. No object is ever read as one of another type.
\<close>

theorem mp_exec_safe:
  assumes s: "vm_ok cf False s"
  shows "vm_kept cf s (mp_runtime_exec k cf src s)"
proof -
  obtain b lx where lx: "mp_lex (c_tokens cf) src = (b, lx)" by fastforce
  have hp: "heaped (c_parse cf) (mp_parse (c_parse cf) (v_heap s) lx)"
    using s by (intro mp_parse_heap) (simp add: vm_ok_def)
  have heap: "vm_ok cf False (s\<lparr>v_heap := p_heap p\<rparr>)" "grows s (s\<lparr>v_heap := p_heap p\<rparr>)" if "in_heap (c_parse cf) p" for p
    using s that by (auto simp: vm_ok_def valid_def grows_def in_heap_def)
  show ?thesis
  proof (cases b)
    case False
    with lx s show ?thesis by (simp add: mp_runtime_exec_def vm_kept_def)
  next
    case b: True
    show ?thesis
    proof (cases "mp_parse (c_parse cf) (v_heap s) lx")
      case (Null p)
      with lx hp b heap [of p] show ?thesis by (simp add: mp_runtime_exec_def vm_kept_def)
    next
      case (Ok m p)
      let ?s = "s\<lparr>v_heap := p_heap p\<rparr>" and ?r = "s\<lparr>v_heap := p_heap p, v_has_err := False, v_err := [], v_returning := False\<rparr>"
      have p: "in_heap (c_parse cf) p" using hp Ok by simp
      have safe: "safe cf False ?r (mp_eval_module k cf m ?s)"
        using safe_eval_node [OF vm_ok_reset [OF heap(1) [OF p]], of k m] by (simp add: mp_eval_module_def)
      have "mp_runtime_exec k cf src s = ebind (mp_eval_module k cf m ?s) (\<lambda>v s1.
          Done (if v_has_err s1 then Inl (v_err s1) else Inr v) s1)"
        by (simp add: mp_runtime_exec_def lx b Ok)
      moreover have "grows ?r t = grows s t" for t by (simp add: grows_def)
      ultimately show ?thesis using safe
        by (cases "mp_eval_module k cf m ?s") (auto simp: vm_kept_def safe_def safe_from_def stop_from_def)
    next
      case Out
      with lx b s show ?thesis by (simp add: mp_runtime_exec_def vm_kept_def)
    qed
  qed
qed

lemmas eval_counts =
  eval_node.simps(2) [of "pred_numeral k", folded numeral_eq_Suc]
  while_loop.simps(2) [of "pred_numeral k", folded numeral_eq_Suc]
  int_digits.simps(2) [of "pred_numeral k", folded numeral_eq_Suc] for k

lemma run_empty: "\<exists>t. mp_runtime_exec 5 kernel_cfg [] fresh_vm = Done (Inr Mp_None) t"
  by (simp add: mp_runtime_exec_def kernel_cfg_def lex_eval parse_eval fresh_vm_def mp_runtime_init_def mp_eval_module_def
      eval_counts)

lemmas eval_defs =
  eval_counts mp_eval_module_def mp_runtime_init_def mp_objects_init_def mp_eval_init_def eval_call_def
  call_builtin_def call_user_def or_fail_def or_stop_def or_memory_error_def fail_with_def ret_def deref_def obj_at_def
  mp_alloc_def alloc_obj_def alloc_buffered_def mp_int_new_def mp_str_new_def mp_str_new_cstr_def mp_list_new_def
  mp_func_new_def mp_bool_from_def Mp_None_def Mp_True_def Mp_False_def mp_is_truthy_def mp_as_int_def mp_env_get_def
  mp_env_set_def slot_of_def name_eq.simps first_from.simps assign_def eval_binop_def binop_values_def int_operands_def
  int_op_def int_divmod_def eval_unary_def eval_compare_def compare_values_def compare_ints_def compare_holds_def
  bi_print_def print_args.simps default_print_def put_def obj_text_def int_text_def dig_def env_drop_def
  is_call_or_assign_def MP_ENV_SLOTS_def MP_ENV_NAME_def MP_FUNC_ARGS_def MP_LIST_MAX_def strncpy_val_def cget_def Let_def

text \<open>A program that traps: the smallest integer divided by minus one.\<close>

definition trapping :: string where
  "trapping = ''x=0-2147483647-1'' @ [newline] @ ''x/(0-1)''"

lemma run_trap: "\<exists>t. mp_runtime_exec 20 kernel_cfg trapping fresh_vm = Crash Div_trap t"
  unfolding fresh_vm_def trapping_def
  by (simp add: mp_runtime_exec_def kernel_cfg_def lex_eval parse_eval mp_runtime_init_def mp_eval_module_def eval_defs)

lemma mp_exec_safe_witness:
  "(\<exists>t. mp_runtime_exec 5 kernel_cfg [] fresh_vm = Done (Inr Mp_None) t \<and> vm_ok kernel_cfg False t \<and> valid Mp_None t) \<and>
   (\<exists>t. mp_runtime_exec 20 kernel_cfg trapping fresh_vm = Crash Div_trap t \<and> vm_ok kernel_cfg False t \<and> grows fresh_vm t)"
proof -
  obtain t where t: "mp_runtime_exec 5 kernel_cfg [] fresh_vm = Done (Inr Mp_None) t" using run_empty by blast
  obtain u where u: "mp_runtime_exec 20 kernel_cfg trapping fresh_vm = Crash Div_trap u" using run_trap by blast
  from mp_exec_safe [OF fresh_vm_ok, where k = 5 and src = "[]"] t
    mp_exec_safe [OF fresh_vm_ok, where k = 20 and src = trapping] u show ?thesis by (simp add: vm_kept_def)
qed

text \<open>
  The count of nested evaluations is only a bound: once a program comes back (with a value, an error
  or a crash), it does so in the same way with any larger count.
\<close>

theorem mp_exec_fuel:
  assumes "\<nexists>t. mp_runtime_exec k cf src s = Spent t" and "k \<le> j"
  shows "mp_runtime_exec j cf src s = mp_runtime_exec k cf src s"
proof -
  have "le_res (mp_eval_module k cf m t) (mp_eval_module j cf m t)" for m t
    unfolding mp_eval_module_def using assms(2) by (rule le_eval_node)
  then have "le_res (mp_runtime_exec k cf src s) (mp_runtime_exec j cf src s)"
    unfolding mp_runtime_exec_def by (auto intro!: le_bind split: prod.splits bool.splits presult.splits)
  with assms(1) show ?thesis by (auto simp: le_res_def)
qed

lemma mp_exec_fuel_witness: "mp_runtime_exec 50 kernel_cfg [] fresh_vm = mp_runtime_exec 5 kernel_cfg [] fresh_vm"
  using run_empty by (intro mp_exec_fuel) auto



text \<open>
  Property C11. With room on the heap, an arithmetic expression evaluates to its value in 32-bit arithmetic; nothing
  but the new objects changes.
\<close>

theorem mp_arithmetic:
  assumes "sane_cfg cf" and "arith n = Some v" and "\<not> v_has_err s" and "\<not> v_returning s" and "size n < k"
    and "v_heap s + made_by n * obj_bytes cf \<le> cf_heap (c_parse cf)"
  shows "\<exists>p t. eval_node k cf n s = Done p t \<and> allocates cf (made_by n) s t \<and> valid p t \<and> obj_at p t = Some (T_INT v)"
  by (rule eval_arith [OF assms])

lemma mp_arithmetic_witness:
  "\<exists>p t. eval_node 20 kernel_cfg (ND_BINOP TOK_PLUS (ND_INT 1) (ND_BINOP TOK_STAR (ND_INT 2) (ND_INT 3))) fresh_vm = Done p t \<and>
     obj_at p t = Some (T_INT 7)"
proof -
  have "sane_cfg kernel_cfg" by (simp add: sane_cfg_def kernel_cfg_def)
  moreover have "\<not> v_has_err fresh_vm" "\<not> v_returning fresh_vm" "v_heap fresh_vm = 0" by (simp_all add: fresh_vm_def mp_runtime_init_def)
  ultimately show ?thesis
    using mp_arithmetic [of kernel_cfg "ND_BINOP TOK_PLUS (ND_INT 1) (ND_BINOP TOK_STAR (ND_INT 2) (ND_INT 3))" 7 fresh_vm 20]
    by (auto simp: obj_bytes_def kernel_cfg_def)
qed

text \<open>
  Property C12. Variables are a map: after any run of successful assignments a name has the last value it was given,
  and every other name the value it had.
\<close>

theorem mp_env_is_map:
  assumes "env_unique s" and "\<forall>a \<in> fst ` set xs. no_nul a" and "no_nul b" and "put_all mp_env_set xs s = (True, t)"
  shows "mp_env_get b t = (case map_of (rev xs) b of None \<Rightarrow> mp_env_get b s | Some v \<Rightarrow> v)"
  by (rule env.put_all_get [OF assms])

lemma mp_env_is_map_witness:
  "mp_env_get ''x'' (snd (put_all mp_env_set [(''x'', Some 1), (''y'', Some 2), (''x'', Some 0)] fresh_vm)) = Some 0"
proof -
  have "env_unique fresh_vm" by (auto simp: env_unique_def fresh_vm_def mp_runtime_init_def mp_eval_init_def)
  moreover have "fst (put_all mp_env_set [(''x'', Some 1), (''y'', Some 2), (''x'', Some 0)] fresh_vm)"
    by (simp add: mp_env_set_def MP_ENV_NAME_def slot_of_def fresh_vm_def mp_runtime_init_def mp_eval_init_def MP_ENV_SLOTS_def
        first_from.simps first_from_None nth_list_update cget_def split: option.splits)
  ultimately show ?thesis
    using mp_env_is_map [of fresh_vm "[(''x'', Some 1), (''y'', Some 2), (''x'', Some 0)]" "''x''"] by (simp add: prod_eq_iff)
qed

lemma append_all_items:
  "i < length (v_objs s) \<Longrightarrow> v_objs s ! i = T_LIST zs \<Longrightarrow> length zs \<le> MP_LIST_MAX \<Longrightarrow>
     append_all (Some i) xs s = s\<lparr>v_objs := (v_objs s)[i := T_LIST (take MP_LIST_MAX (zs @ xs))]\<rparr>"
proof (induction xs arbitrary: s zs)
  case Nil
  then have "(v_objs s)[i := T_LIST (take MP_LIST_MAX (zs @ []))] = v_objs s" by (simp add: list_update_same_conv)
  then show ?case by simp
next
  case (Cons x xs)
  show ?case
  proof (cases "length zs < MP_LIST_MAX")
    case True
    let ?t = "s\<lparr>v_objs := (v_objs s)[i := T_LIST (zs @ [x])]\<rparr>"
    have "append_all (Some i) xs ?t = ?t\<lparr>v_objs := (v_objs ?t)[i := T_LIST (take MP_LIST_MAX ((zs @ [x]) @ xs))]\<rparr>"
      using Cons.prems True by (intro Cons.IH) auto
    then show ?thesis using Cons.prems True by (simp add: mp_list_append_def obj_at_def)
  next
    case False
    then have "length zs = MP_LIST_MAX" using Cons.prems(3) by simp
    moreover from this have "append_all (Some i) xs s = s\<lparr>v_objs := (v_objs s)[i := T_LIST (take MP_LIST_MAX (zs @ xs))]\<rparr>"
      using Cons.prems by (intro Cons.IH) auto
    ultimately show ?thesis using Cons.prems by (simp add: mp_list_append_def obj_at_def)
  qed
qed

lemma alloc_buffered_at:
  assumes "alloc_buffered cf n x s = (Some l, t)"
  shows "l = length (v_objs s) \<and> v_objs t = v_objs s @ [x]"
proof -
  have objs: "v_objs u' = v_objs u" if "mp_alloc cf k u = (b, u')" for k u b u'
    using that by (simp add: mp_alloc_def Let_def split: if_splits) auto
  obtain s1 s2 where "mp_alloc cf (c_obj cf) s = (True, s1)" "mp_alloc cf n s1 = (True, s2)"
    and "(Some l, t) = (Some (length (v_objs s2)), s2\<lparr>v_objs := v_objs s2 @ [x]\<rparr>)"
    using assms unfolding alloc_buffered_def by (auto split: prod.splits bool.splits)
  with objs show ?thesis by simp
qed

lemma list_new_at:
  "mp_list_new cf s = (Some l, t) \<Longrightarrow> l = length (v_objs s) \<and> v_objs t = v_objs s @ [T_LIST []]"
  by (rule alloc_buffered_at) (simp add: mp_list_new_def)

text \<open>
  The sum of two lists is a new list of the first 64 items of their concatenation: the rest is dropped
  without an error.
\<close>

theorem mp_list_concat_truncates:
  assumes "mp_list_new cf s = (Some l, t)"
  shows "list_concat cf xs ys s = Done (Some l) (t\<lparr>v_objs := v_objs s @ [T_LIST (take MP_LIST_MAX (xs @ ys))]\<rparr>) \<and>
    l = length (v_objs s)"
proof -
  have l: "l = length (v_objs s)" and v: "v_objs t = v_objs s @ [T_LIST []]"
    using list_new_at [OF assms] by simp_all
  define n where "n = MP_LIST_MAX"
  let ?u = "append_all (Some l) xs t"
  have u: "?u = t\<lparr>v_objs := v_objs s @ [T_LIST (take n xs)]\<rparr>"
    using append_all_items [of l t "[]" xs] by (simp add: l v n_def)
  have "append_all (Some l) ys (t\<lparr>v_objs := v_objs s @ [T_LIST (take n xs)]\<rparr>) =
      t\<lparr>v_objs := v_objs s @ [T_LIST (take n (xs @ ys))]\<rparr>"
    using append_all_items [of l "t\<lparr>v_objs := v_objs s @ [T_LIST (take n xs)]\<rparr>" "take n xs" ys]
    by (simp add: l n_def [symmetric] take_take_append del: take_append)
  then have "append_all (Some l) ys ?u = t\<lparr>v_objs := v_objs s @ [T_LIST (take n (xs @ ys))]\<rparr>" unfolding u .
  then show ?thesis using assms l by (simp add: list_concat_def or_memory_error_def n_def)
qed

lemma mp_list_concat_truncates_witness:
  "mp_list_new kernel_cfg fresh_vm = (Some 3, snd (mp_list_new kernel_cfg fresh_vm)) \<and>
   list_concat kernel_cfg (replicate 60 None) (replicate 60 None) fresh_vm =
     Done (Some 3) ((snd (mp_list_new kernel_cfg fresh_vm))\<lparr>v_objs := mp_objects_init @ [T_LIST (replicate 64 None)]\<rparr>)"
proof -
  have new: "mp_list_new kernel_cfg fresh_vm = (Some 3, snd (mp_list_new kernel_cfg fresh_vm))"
    by (simp add: mp_list_new_def alloc_buffered_def mp_alloc_def kernel_cfg_def fresh_vm_def mp_runtime_init_def
        mp_objects_init_def MP_LIST_MAX_def)
  have "take MP_LIST_MAX (replicate 60 None @ replicate 60 None) = (replicate 64 None :: ptr list)"
    by (simp add: MP_LIST_MAX_def replicate_add [symmetric])
  moreover have "v_objs fresh_vm = mp_objects_init" by (simp add: fresh_vm_def mp_runtime_init_def)
  ultimately show ?thesis using mp_list_concat_truncates [OF new, of "replicate 60 None" "replicate 60 None"] new by simp
qed

text \<open>
  Repeating a string until its length passes 32 bits is not refused: the buffer has the wrapped length
  and the copies run past the heap.
\<close>

theorem mp_str_repeat_overflows:
  assumes "0 < sint b" and "cf_heap (c_parse cf) < length a * unat b"
    and "v_heap s + length a * unat b mod 2 ^ 32 + 8 \<le> cf_heap (c_parse cf)" and "cf_heap (c_parse cf) < 2 ^ 32"
  shows "\<exists>t. str_repeat cf a b s = Crash Copy_overrun t"
proof -
  let ?len = "length a * unat b mod 2 ^ 32"
  have r: "(?len + 1 + 7) div 8 * 8 \<le> ?len + 8" by simp
  then have "(?len + 1 + 7) mod 2 ^ 32 div 8 * 8 = (?len + 1 + 7) div 8 * 8"
    using assms(3,4) by simp
  with r assms have "fst (mp_alloc cf (?len + 1) s)"
    by (simp add: mp_alloc_def Let_def)
  then obtain t where "mp_alloc cf (?len + 1) s = (True, t)" by (metis (full_types) prod.collapse)
  with assms(1,2) show ?thesis by (simp add: str_repeat_def Let_def)
qed

lemma mp_str_repeat_overflows_witness: "\<exists>t. str_repeat kernel_cfg ''abcd'' 0x40000000 fresh_vm = Crash Copy_overrun t"
  by (rule mp_str_repeat_overflows) (simp_all add: kernel_cfg_def fresh_vm_def mp_runtime_init_def)

text \<open>
  A range that steps over the largest integer never ends: its counter wraps around, below the end
  again.
\<close>

theorem mp_range_never_ends:
  assumes "even (unat x)"
  shows "\<exists>t. range_loop n cf x 0x7FFFFFFF 2 l s = Spent t"
  using assms
proof (induction n arbitrary: x s)
  case (Suc n)
  have "x \<noteq> 0x7FFFFFFF" using Suc.prems by auto
  moreover have "sint x < 2 ^ 31" by (rule sint_bounds32)
  moreover have "sint x \<noteq> 2 ^ 31 - 1"
  proof
    assume "sint x = 2 ^ 31 - 1"
    moreover have "x = of_int (sint x)" by simp
    ultimately have "x = of_int (2 ^ 31 - 1)" by (simp only:)
    with \<open>x \<noteq> 0x7FFFFFFF\<close> show False by simp
  qed
  ultimately have "sint x < sint (0x7FFFFFFF :: u32)" by simp
  moreover have "even (unat (x + 2))" using Suc.prems by (simp add: unat_word_ariths even_iff_mod_2_eq_zero mod_mod_cancel)
  ultimately show ?case using Suc.IH [of "x + 2"] by (simp add: Let_def case_prod_unfold)
qed simp

lemma mp_range_never_ends_witness: "\<exists>t. range_loop 4294967296 kernel_cfg 0 0x7FFFFFFF 2 None fresh_vm = Spent t"
  by (rule mp_range_never_ends) simp

text \<open>The program \<^verbatim>\<open>def f(a, b): return b\<close>, \<^verbatim>\<open>a = 10\<close>, \<^verbatim>\<open>print(f(1, a))\<close>.\<close>

definition second_arg :: mp_node where
  "second_arg =
     ND_MODULE [ND_FUNC ''f'' [''a'', ''b''] (ND_BLOCK [ND_RETURN (Some (ND_NAME ''b''))]),
       ND_ASSIGN ''a'' (ND_INT 10), ND_EXPR_STMT (ND_CALL ''print'' [ND_CALL ''f'' [ND_INT 1, ND_NAME ''a'']])]"

text \<open>
  Arguments are evaluated with the parameters before them already bound: after \<^verbatim>\<open>def f(a, b): return b\<close>
  and \<^verbatim>\<open>a = 10\<close>, the call \<^verbatim>\<open>f(1, a)\<close> is 1.
\<close>

theorem mp_args_see_parameters:
  "(case mp_eval_module 10 kernel_cfg second_arg fresh_vm of Done v s \<Rightarrow> Some (v_out s) | _ \<Rightarrow> None) =
     Some (''1'' @ [newline])"
  unfolding second_arg_def fresh_vm_def
  apply (simp add: kernel_cfg_def eval_defs)
  apply code_simp
  done

end
