(* ===== verification/Spec2Isabelle.thy ===== *)
theory Spec2Isabelle
  imports WmSpec TermSpec SyscallSpec WentrySpec KernelSpec FatSpec MpFs MpSpec Kbd NetSpec
begin

text \<open>
  A model of zerOS, an i386 kernel with its drivers, file systems, process table and system calls, a small Python
  interpreter, and the shell and window programs that run on it, with the theorems that make its parts correct.

  \<^bold>\<open>The program.\<close> The kernel (\<^verbatim>\<open>kernel/\<close>) keeps a bitmap of pages, a tree of files in memory with a FAT volume
  mounted under \<^verbatim>\<open>/disk\<close>, a table of processes of which one runs while the callers that wait for it are suspended, a
  bridge between one display server and its clients, a network stack on a virtio card, and a layer of system calls
  over all of them. The interpreter (\<^verbatim>\<open>py/\<close>) has a scanner, a parser, an evaluator over a fixed heap and a flat file
  system of its own. On top run a shell (\<^verbatim>\<open>user/shell\<close>), the widgets (\<^verbatim>\<open>user/guic\<close>) and the windows that use them
  (\<^verbatim>\<open>user/gui\<close>).

  \<^bold>\<open>Theories.\<close> State is a record per component, with the fields the code keeps; an operation is a function of the
  component's state that returns the code's result and the new state, and is named after the C function. Where the C code
  answers through pointers the answer is part of the result.
  \<^item> \<open>Prelude\<close> (machine types, shared lemmas, the collection of invariant rules), \<open>KString\<close>
    (\<^verbatim>\<open>kernel/core/string.c\<close>: memory as a function from addresses to bytes, C strings).
  \<^item> \<open>MM\<close> (\<^verbatim>\<open>kernel/core/mm.c\<close>): the page bitmap, the locale \<open>page_allocator\<close> and its interpretation
    \<open>kpages\<close>: allocated runs are disjoint and freeing gives exactly them back.
  \<^item> \<open>VfsPath\<close>, \<open>Vfs\<close> (\<^verbatim>\<open>kernel/fs/vfs.c\<close>); \<open>VfsTree\<close> (the node table is a tree), \<open>VfsData\<close> (each file owns
    its pages; abstraction to a map from paths to directories and contents), \<open>VfsSpec\<close> (each operation acts on that
    map; reads, writes and dangling descriptors). \<open>PosFile\<close> is the locale of a descriptor with a position, interpreted
    on the interpreter's files (\<open>mpfile\<close>).
  \<^item> \<open>Ring\<close>: circular buffers and the locale \<open>bounded_fifo\<close>, interpreted on the keyboard's buffer (\<open>kbdq\<close>) and
    on pipes (\<open>pipeq\<close>). \<open>Mouse\<close>, \<open>Kbd\<close>, \<open>Rtc\<close>: the drivers; ports and timer readings are
    arguments, and the clock is compared with the Gregorian calendar as a closed formula.
  \<^item> \<open>Display\<close>, \<open>DisplaySpec\<close> (\<^verbatim>\<open>kernel/gui/display.c\<close>): clients cannot touch each other's windows by any request to the
    window service while it has a server, and a window's events are an abstract coalescing queue.
  \<^item> \<open>ProcState\<close>, \<open>Proc\<close>, \<open>Elf\<close> (\<^verbatim>\<open>kernel/proc/proc.c\<close>, \<^verbatim>\<open>elf.c\<close>); \<open>Sched\<close>, \<open>SchedSpec\<close>
    (the process table against an abstract scheduler: invariant of every step, exit and wait, termination of kill and what
    it leaves alone); \<open>Swap\<close> (images that take turns in one range come back unchanged).
  \<^item> \<open>PageOwners\<close>, \<open>ProcPages\<close>, \<open>KernelSpec\<close>: files, windows and processes over one page allocator; no page ever has
    two owners, under every step of \<open>sysstep\<close>.
  \<^item> \<open>Fat\<close>, \<open>FatTable\<close>, \<open>FatData\<close>, \<open>FatSpec\<close> (\<^verbatim>\<open>kernel/fs/fat.c\<close>): chains as lists of clusters, the bytes
    of a file on its chain, reads, writes, freeing, and when a lookup on a damaged volume returns.
  \<^item> \<open>Net\<close>, \<open>NetSpec\<close> (\<^verbatim>\<open>kernel/net/net.c\<close>): frames from checksum to socket, delivery from one machine's
    \<^verbatim>\<open>udp_send\<close> to another's socket, bounds of the socket buffers, and what the TCP part gets wrong.
  \<^item> \<open>Syscall\<close>, \<open>SyscallSpec\<close> (\<^verbatim>\<open>kernel/proc/syscall.c\<close> and the mount dispatch of \<^verbatim>\<open>vfs.c\<close>): every call over the
    components above; current directories stay directories, pipes are queues, descriptors that clash.
  \<^item> \<open>MpLex\<close>, \<open>MpParse\<close>, \<open>MpObject\<close>, \<open>MpEval\<close>, \<open>MpFs\<close> (\<^verbatim>\<open>py/\<close>); \<open>MpSafe\<close> (every run keeps the
    interpreter's tables well formed, up to a fault of the C code if it reaches one), \<open>MpSpec\<close> (fuel, arithmetic, the environment as the locale \<open>name_store\<close> with its interpretation
    \<open>env\<close>).
  \<^item> \<open>Wentry\<close>, \<open>WentrySpec\<close> (\<^verbatim>\<open>user/guic/wentry.c\<close>): the text field against an editor on a string and a
    position.
  \<^item> \<open>Libmp\<close>, \<open>Msh\<close>, \<open>MshSpec\<close> (\<^verbatim>\<open>user/lib/libmp.c\<close>, \<^verbatim>\<open>user/shell/msh.c\<close>): history, prompt, completion.
  \<^item> \<open>Term\<close>, \<open>TermSpec\<close> (\<^verbatim>\<open>user/gui/termrun.c\<close>, \<^verbatim>\<open>user/gui/gterm.c\<close>): the shell's echo as the terminal reads
    it: the terminal shows the line the shell holds.
  \<^item> \<open>Wm\<close>, \<open>WmSpec\<close> (\<^verbatim>\<open>user/gui/wm.c\<close>): the window manager over the window service of \<open>Display\<close>: its lists and
    its focus agree with its windows, clicks reach what is drawn, the loop that takes in windows returns while they fit.

  \<^bold>\<open>Loops and fuel.\<close> Bounded loops are structural recursion or \<open>function\<close> with a measure. The walks over a cluster
  chain and the loop of \<open>adopt\<close> are \<open>partial_function (option)\<close>: \<open>None\<close> is not to return, and freeing a chain is proved to return. Python
  functions may recurse without end, so \<open>eval_node\<close> takes a count of nested evaluations; a run that comes back does so with
  any larger count, and programs without functions, imports and \<^verbatim>\<open>range\<close> come back, or fault, within their own size.
  \<open>proc_kill\<close> takes a depth; \<open>Suc PROC_MAX\<close> is proved enough. Loops that poll a device use the code's own bounds (20000
  polls in \<^verbatim>\<open>net_recv\<close>, 64 pumps in \<^verbatim>\<open>drain_child\<close>).

  \<^bold>\<open>Where the code does not guard itself.\<close> The evaluator's faults are results: \<open>Crash\<close> names the fault (a null pointer read, the division
  that traps, the copy of \<^verbatim>\<open>str_repeat\<close> past its buffer) and carries the state before it. A wait for a process that is
  itself suspended in a wait, and a kill whose target or a process below it is suspended or running, are not steps of \<open>kstep\<close>: the
  system calls let them through, and \<open>proc_kill_reaps_caller\<close> shows such a kill free the slot of the process that makes it. A write
  through a descriptor whose file has been freed is not a step of \<open>sysstep\<close> (\<open>vfs_unlink_dangles\<close>). A terminal's read that ends
  inside a caret command takes the column for text (\<open>split_caret_is_text\<close>). In \<^verbatim>\<open>handle_tcp\<close> the length cut for a full socket
  stays cut for later sockets of the same connection, and the model threads it through the table.

  \<^bold>\<open>Parameters.\<close> Devices (ports, disk sectors, frames from the wire, timer readings, the epoch the build sets) are arguments or fields, as is what the kernel answers to a
  program modelled on its own: the listing of a directory in \<open>Msh\<close>, waits and console reads in \<open>Term\<close>, the button of the panel under the pointer in \<open>Wm\<close>.
  No law is assumed of them beyond the hypotheses a theorem names.

  \<^bold>\<open>Not modelled.\<close> Drawing (\<^verbatim>\<open>fb.c\<close>, \<^verbatim>\<open>vga.c\<close>, \<^verbatim>\<open>tty.c\<close>, \<^verbatim>\<open>libgui.c\<close> and the drawing part of every window) has no state
  that later behaviour depends on. Boot code, interrupt entry and port instructions are machine code around the modelled handlers.
  The ATA and PCI drivers and \<^verbatim>\<open>virtio_init\<close>'s port writes only move words to and from devices; the FAT driver and the network stack take
  their results as arguments. The remaining programs of \<^verbatim>\<open>user/\<close> are sequences of system calls with little state of their
  own. Saved stack pointers are left out of \<open>Proc\<close>: a suspended kernel call is the slot it runs.
\<close>

end
